(* ===== verification/Prelude.thy ===== *)
theory Prelude
  imports Main "HOL-Library.Word" "HOL-Library.Monad_Syntax" "HOL-Library.Signed_Division"
begin

text \<open>
  The prelude of the development: the machine types of the C++ sources, the value of a list of
  bits as an unsigned or two's complement integer, the two loop shapes that the sources repeat
  (a carry chain and a downward scan), and the interface of a one-digit adder with the correctness
  of the carry chain that is built from it.

  Conventions shared by all theories:
  \<^item> \<open>unsigned long\<close> is \<open>ulong = 64 word\<close> (the LP64 configuration, \<open>SIZEOF_UNSIGNED_LONG == 8\<close>);
  \<^item> vector widths and bit indices (C++ \<open>unsigned\<close>) are \<open>nat\<close>;
  \<^item> a shift whose count reaches the word size is undefined in C++: \<open>ul_shl\<close> and \<open>ul_shr\<close> give an
    unspecified word there, so nothing can be proved from its value;
  \<^item> an operation that the source aborts (a failed \<open>assert\<close>, an out-of-range access, a division
    trap) returns \<open>None\<close>.
\<close>

unbundle bit_operations_syntax

named_theorems ubits_simps \<open>value of a bit list\<close>
named_theorems shift_simps \<open>bits of the C shifts\<close>

type_synonym ulong = "64 word"

abbreviation (input) BITS_PER_WORD :: nat where "BITS_PER_WORD \<equiv> 64"

definition ul_shl :: "ulong \<Rightarrow> nat \<Rightarrow> ulong" where
  "ul_shl w n = (if n < BITS_PER_WORD then push_bit n w else undefined)"

definition ul_shr :: "ulong \<Rightarrow> nat \<Rightarrow> ulong" where
  "ul_shr w n = (if n < BITS_PER_WORD then drop_bit n w else undefined)"

section \<open>Values of bit lists\<close>

definition ubits :: "bool list \<Rightarrow> int" where
  "ubits bs = horner_sum of_bool 2 bs"

definition sbits :: "bool list \<Rightarrow> int" where
  "sbits bs = (if bs = [] then 0 else signed_take_bit (length bs - 1) (ubits bs))"

section \<open>Loop shapes\<close>

text \<open>
  \<open>for (idx = 0; idx < n; idx += 1) out[idx] = adc(l[idx], r[idx], carry)\<close>, with \<open>carry\<close> a
  reference parameter that the digit adder updates.
\<close>

fun carry_run :: "('d \<Rightarrow> 'd \<Rightarrow> 'd \<Rightarrow> 'd \<times> 'd) \<Rightarrow> 'd list \<Rightarrow> 'd list \<Rightarrow> 'd \<Rightarrow> 'd list \<times> 'd" where
  "carry_run adc (l # ls) (r # rs) c =
     (let (s, c') = adc l r c; (ss, c'') = carry_run adc ls rs c' in (s # ss, c''))"
| "carry_run adc _ _ c = ([], c)"

text \<open>\<open>while (n > 0 && p(n)) n -= 1;\<close>\<close>

fun scan_down :: "(nat \<Rightarrow> bool) \<Rightarrow> nat \<Rightarrow> nat" where
  "scan_down p 0 = 0"
| "scan_down p (Suc n) = (if p (Suc n) then scan_down p n else Suc n)"

text \<open>
  \<open>for (idx = 0; idx < n; idx += 1) v.set(off+idx, f(idx))\<close>, where \<open>set\<close> asserts its index.
\<close>

fun set_loop :: "('v \<Rightarrow> nat \<Rightarrow> 'b \<Rightarrow> 'v option) \<Rightarrow> nat \<Rightarrow> (nat \<Rightarrow> 'b) \<Rightarrow> nat \<Rightarrow> 'v \<Rightarrow> 'v option" where
  "set_loop upd off f 0 v = Some v"
| "set_loop upd off f (Suc n) v =
     do { v' \<leftarrow> set_loop upd off f n v; upd v' (off + n) (f n) }"

section \<open>Lemmas on bit values\<close>

lemma bit_ul_shl [shift_simps]:
  "n < 64 \<Longrightarrow> bit (ul_shl w n) i \<longleftrightarrow> n \<le> i \<and> i < 64 \<and> bit w (i - n)"
  by (simp add: ul_shl_def bit_simps)

lemma bit_ul_shr [shift_simps]:
  "n < 64 \<Longrightarrow> bit (ul_shr w n) i \<longleftrightarrow> bit w (n + i)"
  by (simp add: ul_shr_def bit_simps)

lemma uint_push_bit_1: "k < LENGTH('w) \<Longrightarrow> uint (push_bit k 1 :: 'w::len word) = 2 ^ k"
  by (rule bit_eqI) (auto simp: bit_uint_iff bit_simps)

lemma uint_minus_1: "uint (- 1 :: 'w::len word) = 2 ^ LENGTH('w) - 1"
  by (simp flip: mask_eq_exp_minus_1) (rule bit_eqI, auto simp: bit_uint_iff bit_simps)

lemma ubits_Nil [simp, ubits_simps]: "ubits [] = 0"
  by (simp add: ubits_def)

lemma ubits_Cons [simp, ubits_simps]: "ubits (b # bs) = of_bool b + 2 * ubits bs"
  by (simp add: ubits_def)

lemma ubits_nonneg [simp]: "0 \<le> ubits bs"
  by (induction bs) auto

lemma ubits_less [simp]: "ubits bs < 2 ^ length bs"
  by (induction bs) auto

lemma bit_ubits: "bit (ubits bs) n \<longleftrightarrow> n < length bs \<and> bs ! n"
  by (simp add: ubits_def bit_horner_sum_bit_iff)

lemma ubits_append [ubits_simps]: "ubits (xs @ ys) = ubits xs + 2 ^ length xs * ubits ys"
  by (induction xs) (simp_all add: algebra_simps)

lemma ubits_map_bit: "ubits (map (bit x) [0..<n]) = take_bit n x"
  by (simp add: ubits_def horner_sum_bit_eq_take_bit)

lemma ubits_eqI: "length bs = n \<Longrightarrow> (\<And>i. i < n \<Longrightarrow> bs ! i = bit x i) \<Longrightarrow> ubits bs = take_bit n x"
  by (rule bit_eqI) (auto simp: bit_ubits bit_take_bit_iff)

lemma ubits_replicate_False [simp]: "ubits (replicate n False) = 0"
  by (induction n) auto

lemma take_bit_ubits [simp]: "take_bit (length bs) (ubits bs) = ubits bs"
  by (simp add: take_bit_int_eq_self)

lemma take_bit_ubits_take: "take_bit n (ubits bs) = ubits (take n bs)"
  by (rule bit_eqI) (auto simp: bit_ubits bit_take_bit_iff)

lemma ubits_eq_iff:
  assumes "length xs = length ys"
  shows "ubits xs = ubits ys \<longleftrightarrow> xs = ys"
proof
  assume "ubits xs = ubits ys"
  then have "xs ! i = ys ! i" if "i < length xs" for i
    using that assms bit_ubits [of xs i] bit_ubits [of ys i] by simp
  with assms show "xs = ys" by (simp add: list_eq_iff_nth_eq)
qed simp

lemma ubits_zero_iff: "ubits bs = 0 \<longleftrightarrow> True \<notin> set bs"
  by (induction bs) (auto simp: add_nonneg_eq_0_iff)

lemma bit_sbits:
  assumes "bs \<noteq> []"
  shows "bit (sbits bs) n \<longleftrightarrow> (if n < length bs then bs ! n else last bs)"
proof -
  obtain m where m: "length bs = Suc m" using assms by (cases bs) auto
  then have "min m n = (if n < length bs then n else m)" by auto
  with assms m show ?thesis
    by (auto simp: sbits_def bit_signed_take_bit_iff bit_ubits last_conv_nth)
qed

lemma take_bit_sbits [simp]: "take_bit (length bs) (sbits bs) = ubits bs"
proof (cases "bs = []")
  case False
  then show ?thesis
    by (intro bit_eqI) (simp add: bit_take_bit_iff bit_sbits bit_ubits)
qed (simp add: sbits_def)

lemma sbits_ubits:
  assumes "bs \<noteq> []"
  shows "sbits bs = (if last bs then ubits bs - 2 ^ length bs else ubits bs)"
proof -
  obtain n where n: "length bs = Suc n" using assms by (cases bs) auto
  have l: "bit (ubits bs) n = last bs"
    using assms n by (simp add: bit_ubits last_conv_nth)
  have "ubits bs = take_bit (Suc n) (ubits bs)" by (simp flip: n)
  then show ?thesis
    using assms l n by (simp add: sbits_def signed_take_bit_eq_take_bit_minus)
qed

lemma sbits_range:
  assumes "bs \<noteq> []"
  shows "- (2 ^ (length bs - 1)) \<le> sbits bs" and "sbits bs < 2 ^ (length bs - 1)"
  using assms by (simp_all add: sbits_def signed_take_bit_int_less_exp
      signed_take_bit_int_greater_eq_minus_exp)

lemma scan_down_le [simp]: "scan_down p n \<le> n"
  by (induction n) auto

lemma scan_down_stop: "scan_down p n = 0 \<or> \<not> p (scan_down p n)"
  by (induction n) auto

lemma scan_down_above: "scan_down p n < k \<Longrightarrow> k \<le> n \<Longrightarrow> p k"
  by (induction n) (auto split: if_splits simp: le_Suc_eq)

lemma scan_down_char:
  assumes "m \<le> n" "m = 0 \<or> \<not> p m" "\<And>k. m < k \<Longrightarrow> k \<le> n \<Longrightarrow> p k"
  shows "scan_down p n = m"
  using assms scan_down_le [of p n] scan_down_stop [of p n] scan_down_above [of p n]
  by (metis linorder_neqE_nat not_less_zero order.strict_implies_order order_less_le)

lemma carry_run_append:
  "length xs = length ys \<Longrightarrow> carry_run adc (xs @ xs') (ys @ ys') c =
     (let (zs, c1) = carry_run adc xs ys c; (zs', c2) = carry_run adc xs' ys' c1 in (zs @ zs', c2))"
  by (induction xs ys arbitrary: c rule: list_induct2) (auto split: prod.splits)

lemma length_carry_run:
  "carry_run adc xs ys c = (zs, c') \<Longrightarrow> length zs = min (length xs) (length ys)"
  by (induction adc xs ys c arbitrary: zs c' rule: carry_run.induct) (auto split: prod.splits)

lemma signed_take_bit_ubits:
  assumes "length bs = Suc n" "ubits bs = take_bit (Suc n) x"
  shows "sbits bs = signed_take_bit n x"
  using assms by (auto simp: sbits_def signed_take_bit_take_bit)

lemma sbits_eqI:
  assumes "length bs = Suc n" "ubits bs = take_bit (Suc n) x" "- (2 ^ n) \<le> x" "x < 2 ^ n"
  shows "sbits bs = x"
  using assms by (simp add: signed_take_bit_ubits signed_take_bit_int_eq_self)

lemma take_bit_add3:
  "take_bit n (take_bit n a + take_bit n b + c) = take_bit n (a + b + (c :: int))"
proof -
  have "(a mod 2 ^ n + b mod 2 ^ n) mod 2 ^ n = (a + b) mod 2 ^ n" by (rule mod_add_eq)
  then show ?thesis unfolding take_bit_eq_mod by (metis mod_add_left_eq)
qed

lemma take_bit_low_high:
  assumes "0 \<le> a" "a < 2 ^ k"
  shows "take_bit (k + m) (a + 2 ^ k * y) = a + 2 ^ k * take_bit m (y :: int)"
proof -
  have "0 \<le> a + 2 ^ k * (y mod 2 ^ m)" using assms by simp
  moreover have "a + 2 ^ k * (y mod 2 ^ m) < 2 ^ k * 2 ^ m"
  proof -
    have "2 ^ k * (y mod 2 ^ m + 1) \<le> 2 ^ k * (2 ^ m :: int)"
      by (intro mult_left_mono) (auto simp: add1_zle_eq)
    then show ?thesis using assms(2) by (simp add: algebra_simps)
  qed
  moreover have "(a + 2 ^ k * y) mod (2 ^ k * 2 ^ m) = (a + 2 ^ k * (y mod 2 ^ m)) mod (2 ^ k * 2 ^ m)"
    by (metis mod_add_right_eq mod_mult_mult1 mult_zero_left)
  ultimately show ?thesis
    by (simp add: take_bit_eq_mod power_add mod_pos_pos_trivial)
qed

text \<open>Dropping a copy of the sign bit keeps a two's complement value.\<close>

lemma signed_take_bit_drop_sign:
  assumes "- (2 ^ Suc m) \<le> x" "x < 2 ^ Suc m" "bit x (Suc m) = bit x m"
  shows "signed_take_bit m x = (x :: int)"
proof (rule bit_eqI)
  fix i
  have "bit x i = bit (signed_take_bit (Suc m) x) i"
    using assms(1,2) by (simp add: signed_take_bit_int_eq_self)
  then show "bit (signed_take_bit m x) i \<longleftrightarrow> bit x i"
    using assms(3) by (cases "i \<le> m") (auto simp: bit_signed_take_bit_iff min_def not_less_eq_eq)
qed

lemma sbits_take_grown:
  assumes "length bs = Suc m" "ubits (bs @ [tp]) = take_bit (Suc (Suc m)) x"
    and "- (2 ^ Suc m) \<le> x" "x < 2 ^ Suc m"
    and "n = (if tp \<noteq> bs ! m then Suc (Suc m) else Suc m)"
  shows "sbits (take n (bs @ [tp])) = x"
proof (cases "tp = bs ! m")
  case False
  then show ?thesis using assms by (simp add: sbits_eqI)
next
  case True
  have b: "bit x i \<longleftrightarrow> (bs @ [tp]) ! i" if "i < Suc (Suc m)" for i
    using bit_ubits [of "bs @ [tp]" i] that assms(1) unfolding assms(2)
    by (simp add: bit_take_bit_iff)
  have "bit x (Suc m) = bit x m" using b [of m] b [of "Suc m"] True assms(1) by (simp add: nth_append)
  then have "signed_take_bit m x = x" using assms(3,4) by (intro signed_take_bit_drop_sign)
  moreover have "ubits bs = take_bit (Suc m) x"
    using assms(1) b by (intro ubits_eqI) (auto simp: nth_append)
  ultimately show ?thesis using True assms(1,5) by (simp add: signed_take_bit_ubits)
qed

text \<open>Truncating division is division of the magnitudes.\<close>

lemma sdiv_magnitude: "l sdiv (r :: int) = (if (l < 0) \<noteq> (r < 0) then - (\<bar>l\<bar> div \<bar>r\<bar>) else \<bar>l\<bar> div \<bar>r\<bar>)"
  by (auto simp: signed_divide_int_def sgn_if)

lemma smod_magnitude: "l smod (r :: int) = (if l < 0 then - (\<bar>l\<bar> mod \<bar>r\<bar>) else \<bar>l\<bar> mod \<bar>r\<bar>)"
  by (auto simp: signed_modulo_int_def sgn_if)

section \<open>The interface of a bit vector\<close>

text \<open>
  A class with a bounds-checked bit accessor and updater, and what a loop over the updater does.
\<close>

locale bit_vector =
  fixes size :: "'v \<Rightarrow> nat"
    and upd :: "'v \<Rightarrow> nat \<Rightarrow> 'b \<Rightarrow> 'v option"
    and bits :: "'v \<Rightarrow> 'b list"
    and inv :: "'v \<Rightarrow> bool"
  assumes length_bits: "inv v \<Longrightarrow> length (bits v) = size v"
    and set_ok: "inv v \<Longrightarrow> i < size v \<Longrightarrow>
      \<exists>v'. upd v i b = Some v' \<and> inv v' \<and> size v' = size v \<and> bits v' = (bits v)[i := b]"
    and set_abort: "inv v \<Longrightarrow> size v \<le> i \<Longrightarrow> upd v i b = None"
begin

lemma set_loop_ok:
  assumes "inv v" "off + n \<le> size v"
  shows "\<exists>v'. set_loop upd off f n v = Some v' \<and> inv v' \<and> size v' = size v \<and>
    bits v' = take off (bits v) @ map f [0..<n] @ drop (off + n) (bits v)"
  using assms(2)
proof (induction n)
  case 0
  then show ?case using assms(1) by simp
next
  case (Suc n)
  then obtain w where w: "set_loop upd off f n v = Some w" "inv w" "size w = size v"
    "bits w = take off (bits v) @ map f [0..<n] @ drop (off + n) (bits v)"
    by auto
  obtain w' where w': "upd w (off + n) (f n) = Some w'" "inv w'" "size w' = size w"
    "bits w' = (bits w)[off + n := f n]"
    using set_ok [OF w(2)] w(3) Suc.prems by (metis Suc_le_eq add_Suc_right)
  have len: "length (bits v) = size v" by (rule length_bits) (rule assms(1))
  have "drop (off + n) (bits v) = bits v ! (off + n) # drop (off + Suc n) (bits v)"
    using Suc.prems len by (simp add: Cons_nth_drop_Suc)
  then have "bits w' = take off (bits v) @ map f [0..<Suc n] @ drop (off + Suc n) (bits v)"
    using w'(4) w(4) Suc.prems len by (simp add: list_update_append)
  with w w' show ?case by auto
qed

lemma set_loop_abort:
  assumes "inv v" "size v < off + n" "0 < n"
  shows "set_loop upd off f n v = None"
  using assms
proof (induction n)
  case (Suc n)
  show ?case
  proof (cases "size v < off + n \<and> 0 < n")
    case False
    then have "off + n \<le> size v \<or> n = 0 \<and> size v \<le> off" using Suc.prems by auto
    then obtain w where "set_loop upd off f n v = Some w" "inv w" "size w = size v"
      using set_loop_ok [OF Suc.prems(1), of off n f] Suc.prems(1) by auto
    moreover have "size w \<le> off + n" using calculation(3) Suc.prems(2) by simp
    ultimately show ?thesis by (simp add: set_abort)
  qed (simp add: Suc)
qed simp

end

section \<open>The interface of a digit adder and its carry chain\<close>

text \<open>
  The sources add long numbers in four places, with four different digit adders: on
  \<open>verinum::V\<close>, on \<open>vvp_bit4_t\<close>, and twice on \<open>unsigned long\<close>. Each promises the same law.
\<close>

locale digit_adder =
  fixes adc :: "'d \<Rightarrow> 'd \<Rightarrow> 'd \<Rightarrow> 'd \<times> 'd"
    and dig :: "'d \<Rightarrow> int"
    and ok :: "'d \<Rightarrow> bool"
    and radix :: int
  assumes dig_nonneg: "ok d \<Longrightarrow> 0 \<le> dig d"
    and dig_less: "ok d \<Longrightarrow> dig d < radix"
    and adc_law: "\<lbrakk>ok a; ok b; ok c; dig c \<le> 1; adc a b c = (s, c')\<rbrakk> \<Longrightarrow>
      ok s \<and> ok c' \<and> dig c' \<le> 1 \<and> dig s + radix * dig c' = dig a + dig b + dig c"
begin

lemma carry_run_law:
  assumes "length xs = length ys" "list_all ok xs" "list_all ok ys" "ok c" "dig c \<le> 1"
    and "carry_run adc xs ys c = (zs, c')"
  shows "length zs = length xs \<and> list_all ok zs \<and> ok c' \<and> dig c' \<le> 1 \<and>
    horner_sum dig radix zs + radix ^ length xs * dig c'
      = horner_sum dig radix xs + horner_sum dig radix ys + dig c"
  using assms
proof (induction xs ys arbitrary: c c' zs rule: list_induct2)
  case Nil
  then show ?case by simp
next
  case (Cons x xs y ys)
  obtain s c1 where s: "adc x y c = (s, c1)" by fastforce
  obtain ss c2 where ss: "carry_run adc xs ys c1 = (ss, c2)" by fastforce
  have zs: "zs = s # ss" "c' = c2" using Cons.prems(5) s ss by simp_all
  have a: "ok s" "ok c1" "dig c1 \<le> 1" "dig s + radix * dig c1 = dig x + dig y + dig c"
    using adc_law [OF _ _ _ _ s] Cons.prems by auto
  have ih: "length ss = length xs" "list_all ok ss" "ok c2" "dig c2 \<le> 1"
    "horner_sum dig radix ss + radix ^ length xs * dig c2
       = horner_sum dig radix xs + horner_sum dig radix ys + dig c1"
    using Cons.IH [OF _ _ _ _ ss] Cons.prems a by auto
  have "horner_sum dig radix zs + radix ^ length (x # xs) * dig c'
      = dig s + radix * (horner_sum dig radix ss + radix ^ length xs * dig c2)"
    by (simp add: zs algebra_simps)
  also have "\<dots> = dig s + radix * dig c1
      + radix * (horner_sum dig radix xs + horner_sum dig radix ys)"
    using ih(5) by (simp add: algebra_simps)
  finally show ?case
    using a ih zs by (simp add: algebra_simps)
qed

lemma horner_nonneg: "list_all ok xs \<Longrightarrow> 0 < radix \<Longrightarrow> 0 \<le> horner_sum dig radix xs"
  by (induction xs) (auto simp: dig_nonneg)

lemma horner_less:
  assumes "list_all ok xs" "0 < radix"
  shows "horner_sum dig radix xs < radix ^ length xs"
  using assms(1)
proof (induction xs)
  case (Cons x xs)
  then have "radix * (horner_sum dig radix xs + 1) \<le> radix * radix ^ length xs"
    using assms(2) by (intro mult_left_mono) auto
  moreover have "dig x < radix" using Cons.prems by (simp add: dig_less)
  ultimately show ?case by (simp add: algebra_simps)
qed simp

end

end
