(* ===== verification/Verinum_Base.thy ===== *)
theory Verinum_Base
  imports Prelude
begin

text \<open>
  The number type of the compiler, class \<open>verinum\<close> (verinum.h, verinum.cc): the four-valued bit
  \<open>V\<close>, the object as a record, its constructors and elementary accessors, the predicates on the
  stored bits, and the bitwise operators on single bits. The bit array with its length \<open>nbits_\<close> is
  the list \<open>vbits\<close>, least significant bit first.
\<close>

section \<open>Bits\<close>

datatype V = V0 | V1 | Vx | Vz

text \<open>The enumeration value of a bit; the relational operators of C++ compare these.\<close>

primrec V_index :: "V \<Rightarrow> nat" where
  "V_index V0 = 0"
| "V_index V1 = 1"
| "V_index Vx = 2"
| "V_index Vz = 3"

lemma V_index_inject [simp]: "V_index a = V_index b \<longleftrightarrow> a = b"
  by (cases a; cases b) simp_all

instantiation V :: linorder
begin

definition less_eq_V :: "V \<Rightarrow> V \<Rightarrow> bool" where
  "less_eq_V a b \<longleftrightarrow> V_index a \<le> V_index b"

definition less_V :: "V \<Rightarrow> V \<Rightarrow> bool" where
  "less_V a b \<longleftrightarrow> V_index a < V_index b"

instance
  by standard (auto simp: less_eq_V_def less_V_def)

end

definition bit4_z2x :: "V \<Rightarrow> V" where
  "bit4_z2x b = (if V_index b < 2 then b else Vx)"

definition V_not :: "V \<Rightarrow> V" where
  "V_not l = (case l of V0 \<Rightarrow> V1 | V1 \<Rightarrow> V0 | _ \<Rightarrow> Vx)"

definition V_or :: "V \<Rightarrow> V \<Rightarrow> V" where
  "V_or l r =
     (if l = V1 then V1
      else if r = V1 then V1
      else if l \<noteq> V0 then Vx
      else if r \<noteq> V0 then Vx
      else V0)"

definition V_and :: "V \<Rightarrow> V \<Rightarrow> V" where
  "V_and l r =
     (if l = V0 then V0
      else if r = V0 then V0
      else if l \<noteq> V1 then Vx
      else if r \<noteq> V1 then Vx
      else V1)"

definition V_xor :: "V \<Rightarrow> V \<Rightarrow> V" where
  "V_xor l r =
     (if l = V0 then bit4_z2x r
      else if r = V0 then bit4_z2x l
      else if l = V1 \<and> r = V1 then V0
      else Vx)"

text \<open>\<open>add_with_carry\<close> returns the sum bit and updates the carry; the model returns both.\<close>

definition add_with_carry :: "V \<Rightarrow> V \<Rightarrow> V \<Rightarrow> V \<times> V" where
  "add_with_carry l r c =
     (if c = Vx \<or> c = Vz then (Vx, Vx)
      else let sum1 = (if c = V1 then 1 else 0 :: int) in
      if l = Vx \<or> l = Vz then (Vx, Vx)
      else let sum2 = (if l = V1 then sum1 + 1 else sum1) in
      if r = Vx \<or> r = Vz then (Vx, Vx)
      else let sum = (if r = V1 then sum2 + 1 else sum2) in
      (if sum AND 1 \<noteq> 0 then V1 else V0, if sum AND 2 \<noteq> 0 then V1 else V0))"

section \<open>Numbers\<close>

record verinum =
  vbits :: "V list"
  vhas_len :: bool
  vhas_sign :: bool
  vis_single :: bool
  vstring_flag :: bool

abbreviation vlen :: "verinum \<Rightarrow> nat" where "vlen v \<equiv> length (vbits v)"

definition verinum_empty :: verinum where
  "verinum_empty = \<lparr>vbits = [], vhas_len = False, vhas_sign = False, vis_single = False,
     vstring_flag = False\<rparr>"

definition verinum_bits :: "V list \<Rightarrow> nat \<Rightarrow> bool \<Rightarrow> verinum" where
  "verinum_bits bs nbits h = \<lparr>vbits = take nbits bs, vhas_len = h, vhas_sign = False,
     vis_single = False, vstring_flag = False\<rparr>"

definition verinum_fill :: "V \<Rightarrow> nat \<Rightarrow> bool \<Rightarrow> verinum" where
  "verinum_fill val n h = \<lparr>vbits = replicate n val, vhas_len = h, vhas_sign = False,
     vis_single = False, vstring_flag = False\<rparr>"

primrec uint64_bits :: "nat \<Rightarrow> ulong \<Rightarrow> V list" where
  "uint64_bits 0 val = []"
| "uint64_bits (Suc n) val = (if val AND 1 \<noteq> 0 then V1 else V0) # uint64_bits n (ul_shr val 1)"

definition verinum_uint64 :: "ulong \<Rightarrow> nat \<Rightarrow> verinum" where
  "verinum_uint64 val n = \<lparr>vbits = uint64_bits n val, vhas_len = True, vhas_sign = False,
     vis_single = False, vstring_flag = False\<rparr>"

text \<open>
  The constructor from \<open>int64_t\<close> counts the bits of the magnitude by truncating division and then
  peels them off by an arithmetic shift. No step of it overflows, so the value is an \<open>int\<close>.
\<close>

function int64_nbits :: "int \<Rightarrow> nat \<Rightarrow> nat" where
  "int64_nbits tmp nbits = (if tmp = 0 then nbits else int64_nbits (tmp sdiv 2) (nbits + 1))"
  by pat_completeness auto
termination
proof (relation "measure (\<lambda>(tmp, nbits). nat \<bar>tmp\<bar>)", goal_cases)
  case (2 tmp nbits)
  then have "\<bar>tmp sdiv 2\<bar> < \<bar>tmp\<bar>"
    by (auto simp: signed_divide_int_def sgn_if abs_mult)
  then show ?case by simp
qed simp

primrec int64_bits :: "nat \<Rightarrow> int \<Rightarrow> V list" where
  "int64_bits 0 val = []"
| "int64_bits (Suc n) val = (if val AND 1 \<noteq> 0 then V1 else V0) # int64_bits n (drop_bit 1 val)"

definition verinum_int64 :: "int \<Rightarrow> verinum" where
  "verinum_int64 that =
     (let tmp = (if that < 0 then (that + 1) sdiv 2 else that sdiv 2);
          nbits = int64_nbits tmp 1 + 1
      in \<lparr>vbits = int64_bits nbits that, vhas_len = False, vhas_sign = True,
          vis_single = False, vstring_flag = False\<rparr>)"

text \<open>The copy that truncates or extends to a given number of bits.\<close>

definition verinum_copy_bits :: "verinum \<Rightarrow> nat \<Rightarrow> verinum option" where
  "verinum_copy_bits that nbits =
     (let copy = (if vlen that < nbits then vlen that else nbits);
          low = take copy (vbits that)
      in if copy < nbits \<and> (vhas_sign that \<or> vis_single that) \<and> copy = 0 then None
      else Some
        \<lparr>vbits = low @ replicate (nbits - copy)
            (if vhas_sign that \<or> vis_single that then last low else V0),
         vhas_len = True, vhas_sign = vhas_sign that, vis_single = False,
         vstring_flag = vstring_flag that \<and> vlen that = nbits\<rparr>)"

definition verinum_get :: "verinum \<Rightarrow> nat \<Rightarrow> V option" where
  "verinum_get v idx = (if idx < vlen v then Some (vbits v ! idx) else None)"

definition verinum_set :: "verinum \<Rightarrow> nat \<Rightarrow> V \<Rightarrow> verinum option" where
  "verinum_set v idx val = (if idx < vlen v then Some (v\<lparr>vbits := (vbits v)[idx := val]\<rparr>) else None)"

definition verinum_set_vec :: "verinum \<Rightarrow> nat \<Rightarrow> verinum \<Rightarrow> verinum option" where
  "verinum_set_vec v off val =
     (if off + vlen val \<le> vlen v
      then set_loop verinum_set off (\<lambda>idx. vbits val ! idx) (vlen val) v
      else None)"

text \<open>\<open>get(len()-1)\<close> wraps to an index out of range when the number has no bits.\<close>

definition verinum_top :: "verinum \<Rightarrow> V option" where
  "verinum_top v = (if vlen v = 0 then None else Some (vbits v ! (vlen v - 1)))"

definition sign_bit :: "verinum \<Rightarrow> V option" where
  "sign_bit v = (if vhas_sign v then verinum_top v else Some V0)"

section \<open>Predicates\<close>

definition is_defined :: "verinum \<Rightarrow> bool" where
  "is_defined v \<longleftrightarrow> list_all (\<lambda>b. b \<noteq> Vx \<and> b \<noteq> Vz) (vbits v)"

definition is_zero :: "verinum \<Rightarrow> bool" where
  "is_zero v \<longleftrightarrow> list_all (\<lambda>b. b = V0) (vbits v)"

definition is_negative :: "verinum \<Rightarrow> bool option" where
  "is_negative v = map_option (\<lambda>top. top = V1 \<and> vhas_sign v) (verinum_top v)"

fun is_before_loop :: "V list \<Rightarrow> V list \<Rightarrow> nat \<Rightarrow> bool" where
  "is_before_loop l r 0 = False"
| "is_before_loop l r (Suc idx) =
     (if l ! idx < r ! idx then True
      else if l ! idx > r ! idx then False
      else is_before_loop l r idx)"

definition is_before :: "verinum \<Rightarrow> verinum \<Rightarrow> bool" where
  "is_before v that =
     (if vlen that > vlen v then True
      else if vlen that < vlen v then False
      else is_before_loop (vbits v) (vbits that) (vlen v))"

definition significant_bits :: "verinum \<Rightarrow> nat option" where
  "significant_bits v =
     (if vhas_sign v
      then map_option
        (\<lambda>sgn_bit. scan_down (\<lambda>n. n > 1 \<and> vbits v ! (n - 2) = sgn_bit) (vlen v)) (verinum_top v)
      else Some (scan_down (\<lambda>n. n > 1 \<and> vbits v ! (n - 1) = V0) (vlen v)))"

definition cast_to_int2 :: "verinum \<Rightarrow> verinum" where
  "cast_to_int2 v = v\<lparr>vbits := map (\<lambda>b. if b = Vx \<or> b = Vz then V0 else b) (vbits v)\<rparr>"

section \<open>The integer a number denotes\<close>

text \<open>The specification side: the unsigned and the signed reading of the bits.\<close>

abbreviation vbools :: "V list \<Rightarrow> bool list" where "vbools bs \<equiv> map (\<lambda>b. b = V1) bs"

definition uval :: "verinum \<Rightarrow> int" where
  "uval v = ubits (vbools (vbits v))"

definition to_int :: "verinum \<Rightarrow> int" where
  "to_int v = (if vhas_sign v then sbits (vbools (vbits v)) else uval v)"

text \<open>A number on which \<open>sign_bit\<close> does not abort.\<close>

definition has_sign_bit :: "verinum \<Rightarrow> bool" where
  "has_sign_bit v \<longleftrightarrow> vhas_sign v \<longrightarrow> vbits v \<noteq> []"

abbreviation Vdef :: "V \<Rightarrow> bool" where "Vdef b \<equiv> b \<noteq> Vx \<and> b \<noteq> Vz"

text \<open>The bit at any index, with the padding the operators use above the top bit.\<close>

definition vext :: "verinum \<Rightarrow> nat \<Rightarrow> V" where
  "vext v i = (if i < vlen v then vbits v ! i else if vhas_sign v then last (vbits v) else V0)"

abbreviation vext_list :: "verinum \<Rightarrow> nat \<Rightarrow> V list" where
  "vext_list v n \<equiv> map (vext v) [0..<n]"

section \<open>Lemmas\<close>

lemma Vdef_cases: "Vdef b \<Longrightarrow> b = V0 \<or> b = V1"
  by (cases b) simp_all

lemma verinum_top_eq: "vbits v \<noteq> [] \<Longrightarrow> verinum_top v = Some (last (vbits v))"
  by (simp add: verinum_top_def last_conv_nth)

lemma sign_bit_eq: "has_sign_bit v \<Longrightarrow> sign_bit v = Some (vext v (vlen v))"
  by (auto simp: sign_bit_def vext_def has_sign_bit_def verinum_top_eq)

lemma sign_bit_abort: "\<not> has_sign_bit v \<longleftrightarrow> sign_bit v = None"
  by (auto simp: sign_bit_def has_sign_bit_def verinum_top_def)

lemma vext_above: "vlen v \<le> i \<Longrightarrow> vlen v \<le> j \<Longrightarrow> vext v i = vext v j"
  by (simp add: vext_def)

lemma vext_list_take: "n \<le> vlen v \<Longrightarrow> vext_list v n = take n (vbits v)"
  by (rule nth_equalityI) (auto simp: vext_def)

lemma vext_list_pad:
  "vlen v \<le> n \<Longrightarrow> vext_list v n = vbits v @ replicate (n - vlen v) (vext v (vlen v))"
  by (rule nth_equalityI) (auto simp: vext_def nth_append)

lemma vext_defined:
  assumes "is_defined v" "has_sign_bit v"
  shows "Vdef (vext v i)"
  using assms by (auto simp: vext_def is_defined_def has_sign_bit_def list_all_iff)

lemma vext_list_defined:
  "is_defined v \<Longrightarrow> has_sign_bit v \<Longrightarrow> list_all Vdef (vext_list v n)"
  using vext_defined by (auto simp: list_all_iff)

lemma bit_uval: "bit (uval v) i \<longleftrightarrow> i < vlen v \<and> vbits v ! i = V1"
  by (auto simp: uval_def bit_ubits)

lemma uval_nonneg [simp]: "0 \<le> uval v"
  by (simp add: uval_def)

lemma uval_less: "uval v < 2 ^ vlen v"
  using ubits_less [of "vbools (vbits v)"] by (simp add: uval_def)

lemma bit_to_int: "has_sign_bit v \<Longrightarrow> bit (to_int v) i \<longleftrightarrow> vext v i = V1"
  by (auto simp: to_int_def vext_def has_sign_bit_def bit_uval bit_sbits last_map)

lemma to_int_unsigned: "\<not> vhas_sign v \<Longrightarrow> to_int v = uval v"
  by (simp add: to_int_def)

lemma take_bit_to_int [simp]: "take_bit (vlen v) (to_int v) = uval v"
  using take_bit_sbits [of "vbools (vbits v)"] take_bit_ubits [of "vbools (vbits v)"]
  by (simp add: to_int_def uval_def)

lemma take_bit_uval:
  assumes "n \<le> vlen v"
  shows "take_bit n (uval v) = take_bit n (to_int v)"
proof -
  have "take_bit n (uval v) = take_bit n (take_bit (vlen v) (to_int v))" by simp
  also have "\<dots> = take_bit n (to_int v)"
    using assms by (simp only: take_bit_take_bit min.absorb1)
  finally show ?thesis .
qed

lemma to_int_signed_range:
  assumes "vhas_sign v" "vbits v \<noteq> []"
  shows "- (2 ^ (vlen v - 1)) \<le> to_int v" and "to_int v < 2 ^ (vlen v - 1)"
  using assms sbits_range [of "vbools (vbits v)"] by (simp_all add: to_int_def)

lemma to_int_unsigned_range:
  assumes "\<not> vhas_sign v"
  shows "0 \<le> to_int v" and "to_int v < 2 ^ vlen v"
  using assms uval_less by (simp_all add: to_int_unsigned)

text \<open>Either reading lies strictly between \<open>- 2 ^ n\<close> and \<open>2 ^ n\<close>.\<close>

lemma to_int_bounds:
  assumes "has_sign_bit v"
  shows "- (2 ^ vlen v) < to_int v" and "to_int v < 2 ^ vlen v"
proof -
  have "(2::int) ^ (vlen v - 1) < 2 ^ vlen v" if "vbits v \<noteq> []"
    using that by simp
  then show "- (2 ^ vlen v) < to_int v" "to_int v < 2 ^ vlen v"
    using assms to_int_signed_range [of v] to_int_unsigned_range [of v]
    by (cases "vhas_sign v"; simp add: has_sign_bit_def; linarith?)+
qed

lemma ubits_vext_list:
  "has_sign_bit v \<Longrightarrow> ubits (vbools (vext_list v n)) = take_bit n (to_int v)"
  by (rule ubits_eqI) (auto simp: bit_to_int)

lemma to_int_signedI:
  assumes "vhas_sign v" "vlen v = Suc n" "uval v = take_bit (Suc n) x" "- (2 ^ n) \<le> x" "x < 2 ^ n"
  shows "to_int v = x"
  using assms sbits_eqI [of "vbools (vbits v)" n x] by (simp add: to_int_def uval_def)

lemma to_int_unsignedI:
  assumes "\<not> vhas_sign v" "uval v = take_bit (vlen v) x" "0 \<le> x" "x < 2 ^ vlen v"
  shows "to_int v = x"
  using assms by (simp add: to_int_unsigned take_bit_int_eq_self)

lemma is_zero_uval:
  assumes "is_defined v"
  shows "is_zero v \<longleftrightarrow> uval v = 0"
proof -
  have "b = V0 \<longleftrightarrow> b \<noteq> V1" if "b \<in> set (vbits v)" for b
    using that assms Vdef_cases [of b] by (auto simp: is_defined_def list_all_iff)
  then show ?thesis
    by (auto simp: is_zero_def list_all_iff uval_def ubits_zero_iff)
qed

lemma is_zero_defined: "is_zero v \<Longrightarrow> is_defined v"
  by (auto simp: is_zero_def is_defined_def list_all_iff)

lemma to_int_zero_iff:
  assumes "has_sign_bit v"
  shows "to_int v = 0 \<longleftrightarrow> uval v = 0"
proof
  assume "uval v = 0"
  then have no: "vbits v ! i \<noteq> V1" if "i < vlen v" for i
    using bit_uval [of v i] that by simp
  have "\<not> bit (to_int v) i" for i
    using no [of i] no [of "vlen v - 1"] assms
    by (auto simp: bit_to_int vext_def has_sign_bit_def last_conv_nth split: if_splits)
  then show "to_int v = 0" by (simp add: bit_eq_iff)
next
  assume "to_int v = 0"
  then show "uval v = 0" using take_bit_to_int [of v] by simp
qed

lemma is_negative_to_int:
  assumes "vbits v \<noteq> []"
  shows "is_negative v = Some (to_int v < 0)"
proof (cases "vhas_sign v")
  case True
  have "ubits (vbools (vbits v)) < 2 ^ vlen v"
    using ubits_less [of "vbools (vbits v)"] by simp
  then have "to_int v < 0 \<longleftrightarrow> last (vbits v) = V1"
    using True assms by (auto simp: to_int_def sbits_ubits last_map not_less)
  then show ?thesis
    using True assms by (simp add: is_negative_def verinum_top_eq)
next
  case False
  then show ?thesis
    using assms by (simp add: is_negative_def verinum_top_eq to_int_unsigned not_less)
qed

section \<open>Interpretations\<close>

interpretation vn: bit_vector "\<lambda>v. vlen v" verinum_set vbits "\<lambda>_. True"
  by unfold_locales (simp_all add: verinum_set_def)

interpretation va: digit_adder add_with_carry "\<lambda>b. of_bool (b = V1)" "\<lambda>b. Vdef b" 2
proof
  fix a b c s c' :: V
  assume "Vdef a" "Vdef b" "Vdef c" "add_with_carry a b c = (s, c')"
  then show "Vdef s \<and> Vdef c' \<and> of_bool (c' = V1) \<le> (1 :: int) \<and>
    of_bool (s = V1) + 2 * of_bool (c' = V1)
      = of_bool (a = V1) + of_bool (b = V1) + (of_bool (c = V1) :: int)"
    by (cases a; cases b; cases c) (simp_all add: add_with_carry_def)
qed simp_all

lemma horner_vbools: "horner_sum (\<lambda>b. of_bool (b = V1)) 2 bs = ubits (vbools bs)"
  by (induction bs) simp_all

lemma set_loop_verinum_bits:
  assumes "set_loop verinum_set off f n v = Some v'"
  shows "v' = v\<lparr>vbits := vbits v'\<rparr>"
  using assms
proof (induction n arbitrary: v')
  case (Suc n)
  then obtain w where w: "set_loop verinum_set off f n v = Some w"
    "verinum_set w (off + n) (f n) = Some v'"
    by (auto simp: bind_eq_Some_conv)
  have "w = v\<lparr>vbits := vbits w\<rparr>" by (rule Suc.IH) (rule w(1))
  with w(2) show ?case
    by (cases v, cases w) (auto simp: verinum_set_def split: if_splits)
qed simp

text \<open>What the copying loops of the operators leave, flags included.\<close>

lemma set_loop_verinum:
  assumes "off + n \<le> vlen v"
  shows "set_loop verinum_set off f n v =
    Some (v\<lparr>vbits := take off (vbits v) @ map f [0..<n] @ drop (off + n) (vbits v)\<rparr>)"
  using vn.set_loop_ok [where v = v and off = off and n = n and f = f] assms set_loop_verinum_bits [of off f n v] by fastforce

lemma uint64_bits_value:
  "length (uint64_bits n w) = n \<and> list_all Vdef (uint64_bits n w) \<and>
   ubits (vbools (uint64_bits n w)) = take_bit n (uint w)"
proof (induction n arbitrary: w)
  case (Suc n)
  have "take_bit (Suc n) (uint w) = of_bool (odd (uint w)) + 2 * take_bit n (uint w div 2)"
    by (simp add: take_bit_Suc mod_2_eq_odd)
  moreover have "uint (ul_shr w 1) = uint w div 2"
    by (simp add: ul_shr_def drop_bit_eq_div uint_div)
  moreover have "w AND 1 \<noteq> 0 \<longleftrightarrow> odd (uint w)"
    by (metis and_one_eq bit_0 bit_uint_iff len_gt_0 mod_2_eq_odd of_bool_eq_0_iff)
  ultimately show ?case using Suc [of "ul_shr w 1"] by simp
qed simp

lemma int64_bits_value:
  "length (int64_bits n v) = n \<and> list_all Vdef (int64_bits n v) \<and>
   ubits (vbools (int64_bits n v)) = take_bit n v"
proof (induction n arbitrary: v)
  case (Suc n)
  have "take_bit (Suc n) v = of_bool (odd v) + 2 * take_bit n (v div 2)"
    by (simp add: take_bit_Suc mod_2_eq_odd)
  then show ?case using Suc [of "drop_bit 1 v"] by (simp add: and_one_eq drop_bit_Suc odd_iff_mod_2_eq_one)
qed simp

section \<open>The constructor from a native integer\<close>

declare int64_nbits.simps [simp del]

lemma int64_nbits_bound: "k \<le> int64_nbits tmp k \<and> \<bar>tmp\<bar> < 2 ^ (int64_nbits tmp k - k)"
proof (induction tmp k rule: int64_nbits.induct)
  case (1 tmp k)
  show ?case
  proof (cases "tmp = 0")
    case False
    let ?n = "int64_nbits (tmp sdiv 2) (k + 1)"
    have ih: "k + 1 \<le> ?n" "\<bar>tmp sdiv 2\<bar> < 2 ^ (?n - (k + 1))" using 1 [OF False] by auto
    have "\<bar>tmp sdiv 2\<bar> = \<bar>tmp\<bar> div 2" by (auto simp: signed_divide_int_def sgn_if abs_mult)
    then have "\<bar>tmp\<bar> \<le> 2 * \<bar>tmp sdiv 2\<bar> + 1" by linarith
    also have "\<dots> < 2 * 2 ^ (?n - (k + 1))" using ih(2) by linarith
    also have "\<dots> = 2 ^ (?n - k)" using ih(1) by (simp flip: power_Suc add: Suc_diff_le)
    finally have "\<bar>tmp\<bar> < 2 ^ (?n - k)" .
    moreover have "int64_nbits tmp k = ?n" using False by (simp add: int64_nbits.simps [of tmp k])
    ultimately show ?thesis using ih(1) by simp
  qed (simp add: int64_nbits.simps [of 0])
qed

lemma verinum_int64_value:
  "to_int (verinum_int64 v) = v \<and> vhas_sign (verinum_int64 v) \<and> \<not> vhas_len (verinum_int64 v) \<and>
   is_defined (verinum_int64 v)"
proof -
  define t where "t = (if v < 0 then (v + 1) sdiv 2 else v sdiv 2)"
  define n where "n = int64_nbits t 1"
  have n: "1 \<le> n" "\<bar>t\<bar> < 2 ^ (n - 1)" using int64_nbits_bound [of 1 t] by (auto simp: n_def)
  have t: "v \<le> 2 * \<bar>t\<bar> + 1" "- v \<le> 2 * \<bar>t\<bar> + 2" by (auto simp: t_def signed_divide_int_def sgn_if)
  have "(2 :: int) ^ n = 2 * 2 ^ (n - 1)" using n(1) by (cases n) simp_all
  then have rng: "- (2 ^ n) \<le> v" "v < 2 ^ n" using n(2) t by linarith+
  have bits: "vbits (verinum_int64 v) = int64_bits (Suc n) v" "vhas_sign (verinum_int64 v)"
    "\<not> vhas_len (verinum_int64 v)"
    by (simp_all add: verinum_int64_def Let_def n_def t_def)
  then show ?thesis
    using int64_bits_value [of "Suc n" v] rng to_int_signedI [of "verinum_int64 v" n v]
    by (simp add: is_defined_def uval_def del: int64_bits.simps)
qed

end
