(* ===== verification/Verinum_String.thy ===== *)
theory Verinum_String
  imports Verinum_Base
begin

text \<open>
  Strings as numbers (verinum.cc): the escape sequences of a Verilog string literal
  (\<open>process_verilog_string_quotes\<close>), the constructor from a string, eight bits per character with
  the first character on top, and \<open>as_string\<close>, which prints the bytes back with octal escapes.
  The result of the escape pass is \<open>None\<close> where the source asserts (a trailing backslash).
\<close>

definition octal_digit :: "char \<Rightarrow> bool" where
  "octal_digit c \<longleftrightarrow> 48 \<le> (of_char c :: nat) \<and> (of_char c :: nat) \<le> 55"

text \<open>The byte is a C \<open>char\<close>: the accumulated value is truncated to eight bits at every digit.\<close>

fun octal_run :: "nat \<Rightarrow> nat \<Rightarrow> string \<Rightarrow> nat \<times> string" where
  "octal_run (Suc k) byte_val (c # cs) =
     (if octal_digit c then octal_run k ((8 * byte_val + of_char c - 48) mod 256) cs
      else (byte_val, c # cs))"
| "octal_run _ byte_val cs = (byte_val, cs)"

definition hex_value :: "char \<Rightarrow> nat option" where
  "hex_value c =
     (let n = of_char c :: nat in
      if 48 \<le> n \<and> n \<le> 57 then Some (n - 48)
      else if 97 \<le> n \<and> n \<le> 102 then Some (n - 97 + 10)
      else if 65 \<le> n \<and> n \<le> 70 then Some (n - 65 + 10)
      else None)"

fun hex_run :: "nat \<Rightarrow> nat \<Rightarrow> string \<Rightarrow> nat \<times> string" where
  "hex_run (Suc k) byte_val (c # cs) =
     (case hex_value c of
        Some d \<Rightarrow> hex_run k ((16 * byte_val + d) mod 256) cs
      | None \<Rightarrow> (byte_val, c # cs))"
| "hex_run _ byte_val cs = (byte_val, cs)"

lemma octal_run_length: "length (snd (octal_run k b cs)) \<le> length cs"
  by (induction k b cs rule: octal_run.induct) auto

lemma hex_run_length: "length (snd (hex_run k b cs)) \<le> length cs"
  by (induction k b cs rule: hex_run.induct) (auto split: option.splits)

lemma octal_run_snd: "octal_run k b cs = (b', rest) \<Longrightarrow> length rest \<le> length cs"
  using octal_run_length [of k b cs] by simp

lemma hex_run_snd: "hex_run k b cs = (b', rest) \<Longrightarrow> length rest \<le> length cs"
  using hex_run_length [of k b cs] by simp

function process_verilog_string_quotes :: "string \<Rightarrow> string option" where
  "process_verilog_string_quotes [] = Some []"
| "process_verilog_string_quotes (c # cs) =
     (if c = CHR 0x5C then
        (case cs of
           [] \<Rightarrow> None
         | d # ds \<Rightarrow>
             if d = CHR ''n'' then map_option ((#) (CHR 0x0A)) (process_verilog_string_quotes ds)
             else if d = CHR ''t'' then map_option ((#) (CHR 0x09)) (process_verilog_string_quotes ds)
             else if d = CHR ''v'' then map_option ((#) (CHR 0x0B)) (process_verilog_string_quotes ds)
             else if d = CHR ''f'' then map_option ((#) (CHR 0x0C)) (process_verilog_string_quotes ds)
             else if d = CHR ''a'' then map_option ((#) (CHR 0x07)) (process_verilog_string_quotes ds)
             else if octal_digit d then
               (case octal_run 3 0 (d # ds) of (byte_val, rest) \<Rightarrow>
                  map_option ((#) (char_of byte_val)) (process_verilog_string_quotes rest))
             else if d = CHR ''x'' then
               (case hex_run 2 0 ds of (byte_val, rest) \<Rightarrow>
                  map_option ((#) (char_of byte_val)) (process_verilog_string_quotes rest))
             else map_option ((#) d) (process_verilog_string_quotes ds))
      else map_option ((#) c) (process_verilog_string_quotes cs))"
  by pat_completeness auto
termination
  by (relation "measure length") (auto dest!: octal_run_snd [OF sym] hex_run_snd [OF sym])

definition char_bits :: "char \<Rightarrow> V list" where
  "char_bits c = map (\<lambda>i. if bit (of_char c :: nat) i then V1 else V0) [0..<8]"

primrec string_bits :: "string \<Rightarrow> V list" where
  "string_bits [] = []"
| "string_bits (c # cs) = string_bits cs @ char_bits c"

definition verinum_string :: "string \<Rightarrow> verinum option" where
  "verinum_string s =
     map_option
       (\<lambda>str. \<lparr>vbits = (if str = [] then replicate 8 V0 else string_bits str), vhas_len = True,
          vhas_sign = False, vis_single = False, vstring_flag = True\<rparr>)
       (process_verilog_string_quotes s)"

definition byte_of_bits :: "V list \<Rightarrow> nat" where
  "byte_of_bits bs = horner_sum of_bool 2 (vbools bs)"

definition octal_escape :: "nat \<Rightarrow> string" where
  "octal_escape n =
     [CHR 0x5C, char_of (48 + n div 64), char_of (48 + n div 8 mod 8), char_of (48 + n mod 8)]"

text \<open>\<open>isprint\<close> in the C locale.\<close>

definition isprint :: "nat \<Rightarrow> bool" where
  "isprint n \<longleftrightarrow> 32 \<le> n \<and> n \<le> 126"

definition escape_byte :: "nat \<Rightarrow> string" where
  "escape_byte n =
     (if n = 34 \<or> n = 92 then octal_escape n
      else if isprint n then [char_of n]
      else octal_escape n)"

primrec as_string_loop :: "V list \<Rightarrow> nat \<Rightarrow> string" where
  "as_string_loop bs 0 = []"
| "as_string_loop bs (Suc n) =
     escape_byte (byte_of_bits (take 8 (drop (8 * n) bs))) @ as_string_loop bs n"

definition as_string :: "verinum \<Rightarrow> string option" where
  "as_string v =
     (if vlen v mod 8 \<noteq> 0 then None
      else if vlen v = 0 then Some []
      else Some (as_string_loop (vbits v) (vlen v div 8)))"

section \<open>The round trip\<close>

lemma byte_of_bits_less: "length bs = 8 \<Longrightarrow> byte_of_bits bs < 256"
proof -
  assume "length bs = 8"
  moreover have "horner_sum of_bool 2 cs < (2 :: nat) ^ length cs" for cs
    by (induction cs) auto
  from this [of "vbools bs"] have "byte_of_bits bs < 2 ^ length bs"
    by (simp add: byte_of_bits_def)
  ultimately show ?thesis by simp
qed

lemma char_bits_byte:
  assumes "length bs = 8"
  shows "char_bits (char_of (byte_of_bits bs)) = map (\<lambda>b. if b = V1 then V1 else V0) bs"
proof (rule nth_equalityI)
  fix i assume "i < length (char_bits (char_of (byte_of_bits bs)))"
  then have i: "i < 8" by (simp add: char_bits_def)
  have "byte_of_bits bs mod 256 = byte_of_bits bs"
    using byte_of_bits_less [OF assms] by simp
  moreover have "bit (byte_of_bits bs) i \<longleftrightarrow> i < length bs \<and> vbools bs ! i"
    by (simp add: byte_of_bits_def bit_horner_sum_bit_iff)
  ultimately show "char_bits (char_of (byte_of_bits bs)) ! i
      = map (\<lambda>b. if b = V1 then V1 else V0) bs ! i"
    using i assms by (simp add: char_bits_def)
qed (simp add: assms char_bits_def)

lemma octal_digit_char_of: "(d :: nat) < 8 \<Longrightarrow> octal_digit (char_of (48 + d))"
  by (simp add: octal_digit_def)

lemma octal_digit_not_letter:
  assumes "octal_digit c"
  shows "c \<noteq> CHR ''n''" "c \<noteq> CHR ''t''" "c \<noteq> CHR ''v''" "c \<noteq> CHR ''f''" "c \<noteq> CHR ''a''"
  using assms by (auto simp: octal_digit_def)

lemma process_octal_escape:
  assumes "n < 256"
  shows "process_verilog_string_quotes (octal_escape n @ rest)
    = map_option ((#) (char_of n)) (process_verilog_string_quotes rest)"
proof -
  define a b c where "a = n div 64" "b = n div 8 mod 8" "c = n mod 8"
  note abc = this
  have lt: "a < 8" "b < 8" "c < 8" using assms by (auto simp: abc)
  have ab: "8 * a + b = n div 8" unfolding abc by (simp add: div_mult2_eq [of n 8 8, simplified])
  have val: "(8 * ((8 * a + b) mod 256) + c) mod 256 = n"
    using assms by (simp add: ab) (simp add: abc)
  have "octal_run 3 0 (char_of (48 + a) # char_of (48 + b) # char_of (48 + c) # rest)
      = ((8 * ((8 * a + b) mod 256) + c) mod 256, rest)"
    using lt by (simp add: numeral_3_eq_3 octal_digit_char_of add.assoc)
  then have "octal_run 3 0 (char_of (48 + a) # char_of (48 + b) # char_of (48 + c) # rest) = (n, rest)"
    by (simp only: val)
  then show ?thesis
    using octal_digit_char_of [OF lt(1)] octal_digit_not_letter [of "char_of (48 + a)"]
    by (simp add: octal_escape_def flip: abc)
qed

lemma process_escape_byte:
  assumes "n < 256"
  shows "process_verilog_string_quotes (escape_byte n @ rest)
    = map_option ((#) (char_of n)) (process_verilog_string_quotes rest)"
proof (cases "n = 34 \<or> n = 92 \<or> \<not> isprint n")
  case True
  then show ?thesis using process_octal_escape [OF assms] by (auto simp: escape_byte_def)
next
  case False
  have "take_bit 8 n = n" using assms by (simp add: take_bit_nat_eq_self)
  with False have "char_of n \<noteq> CHR 0x5C" by (auto simp: char_of_eq_iff)
  with False show ?thesis by (auto simp: escape_byte_def)
qed

lemma process_as_string_loop:
  assumes "8 * n \<le> length bs"
  shows "process_verilog_string_quotes (as_string_loop bs n)
    = Some (rev (map (\<lambda>k. char_of (byte_of_bits (take 8 (drop (8 * k) bs)))) [0..<n]))"
  using assms
proof (induction n)
  case (Suc n)
  then have "byte_of_bits (take 8 (drop (8 * n) bs)) < 256"
    by (intro byte_of_bits_less) simp
  with Suc show ?case by (simp add: process_escape_byte)
qed simp

lemma string_bits_append: "string_bits (xs @ ys) = string_bits ys @ string_bits xs"
  by (induction xs) simp_all

lemma string_bits_bytes:
  assumes "8 * n \<le> length bs"
  shows "string_bits (rev (map (\<lambda>k. char_of (byte_of_bits (take 8 (drop (8 * k) bs)))) [0..<n]))
    = map (\<lambda>b. if b = V1 then V1 else V0) (take (8 * n) bs)"
  using assms
proof (induction n)
  case (Suc n)
  let ?f = "map (\<lambda>b. if b = V1 then V1 else V0)"
  have "take (8 * Suc n) bs = take (8 * n) bs @ take 8 (drop (8 * n) bs)"
    using take_add [of "8 * n" 8 bs] by (simp add: add.commute)
  with Suc show ?case by (simp add: string_bits_append char_bits_byte)
qed simp

lemma as_string_roundtrip:
  assumes "vlen v mod 8 = 0" "vbits v \<noteq> []"
  shows "\<exists>s w. as_string v = Some s \<and> verinum_string s = Some w \<and>
    vbits w = map (\<lambda>b. if b = V1 then V1 else V0) (vbits v)"
proof -
  let ?n = "vlen v div 8"
  let ?str = "rev (map (\<lambda>k. char_of (byte_of_bits (take 8 (drop (8 * k) (vbits v))))) [0..<?n])"
  have n: "8 * ?n = vlen v" using assms(1) by auto
  then have "0 < ?n" using assms(2) by (cases ?n) auto
  then have ne: "?str \<noteq> []" by simp
  have "as_string v = Some (as_string_loop (vbits v) ?n)"
    using assms by (simp add: as_string_def)
  moreover have "process_verilog_string_quotes (as_string_loop (vbits v) ?n) = Some ?str"
    using n by (intro process_as_string_loop) simp
  moreover have "string_bits ?str = map (\<lambda>b. if b = V1 then V1 else V0) (vbits v)"
    using string_bits_bytes [of ?n "vbits v"] n by simp
  ultimately show ?thesis using ne by (simp add: verinum_string_def)
qed

end
