(* ===== verification/Verinum_Convert.thy ===== *)
theory Verinum_Convert
  imports Verinum_String
begin

text \<open>
  Conversions of \<open>verinum\<close> (verinum.cc): to the native integer types (saturating for the unsigned
  ones, truncating for \<open>as_long\<close>), and to another width (\<open>pad_to_width\<close>, \<open>cast_to_width\<close>,
  \<open>trim_vnum\<close>). The lemmas give the integer each conversion denotes.
\<close>

section \<open>Native integers\<close>

text \<open>The loop of \<open>as_unsigned\<close>, \<open>as_ulong\<close> and \<open>as_ulong64\<close>, for a word of any size.\<close>

fun native_loop :: "V list \<Rightarrow> 'w::len word \<Rightarrow> 'w word \<Rightarrow> 'w word" where
  "native_loop [] msk val = val"
| "native_loop (b # bs) msk val =
     (if b = V1
      then (if msk = 0 then NOT msk else native_loop bs (push_bit 1 msk) (val OR msk))
      else native_loop bs (push_bit 1 msk) val)"

definition as_unsigned :: "verinum \<Rightarrow> 32 word" where
  "as_unsigned v =
     (if vlen v = 0 then 0 else if \<not> is_defined v then 0 else native_loop (vbits v) 1 0)"

definition as_ulong :: "verinum \<Rightarrow> ulong" where
  "as_ulong v =
     (if vlen v = 0 then 0 else if \<not> is_defined v then 0 else native_loop (vbits v) 1 0)"

definition as_ulong64 :: "verinum \<Rightarrow> ulong" where
  "as_ulong64 v =
     (if vlen v = 0 then 0 else if \<not> is_defined v then 0 else native_loop (vbits v) 1 0)"

text \<open>
  \<open>as_long\<close>: the iterations of its two loops up to a bit count, with the state \<open>(val, msk)\<close>. The
  second component of the result is the flag \<open>lost_bits\<close> that triggers the warning.
\<close>

primrec long_neg_loop :: "V list \<Rightarrow> nat \<Rightarrow> ulong \<times> ulong" where
  "long_neg_loop bs 0 = (- 1, NOT 1)"
| "long_neg_loop bs (Suc idx) =
     (case long_neg_loop bs idx of (val, msk) \<Rightarrow>
        (if bs ! idx = V0 then val AND msk else val, ul_shl msk 1 OR 1))"

primrec long_pos_loop :: "V list \<Rightarrow> nat \<Rightarrow> ulong \<times> ulong" where
  "long_pos_loop bs 0 = (0, 1)"
| "long_pos_loop bs (Suc idx) =
     (case long_pos_loop bs idx of (val, msk) \<Rightarrow>
        (if bs ! idx = V1 then val OR msk else val, ul_shl msk 1))"

definition as_long_lost :: "verinum \<Rightarrow> ulong \<times> bool" where
  "as_long_lost v =
     (if vlen v = 0 then (0, False)
      else if \<not> is_defined v then (0, False)
      else
        let top = (if vlen v > 63 then 63 else vlen v);
            high = drop top (vbits v)
        in if vhas_sign v \<and> vbits v ! (vlen v - 1) = V1
           then (fst (long_neg_loop (vbits v) top), vlen v > 63 \<and> V0 \<in> set high)
           else (fst (long_pos_loop (vbits v) top), vlen v > 63 \<and> V1 \<in> set high))"

definition as_long :: "verinum \<Rightarrow> ulong" where
  "as_long v = fst (as_long_lost v)"

section \<open>Widths\<close>

text \<open>The padding bit that \<open>pad_to_width\<close> and \<open>cast_to_width\<close> compute for a non-empty number.\<close>

definition pad_value :: "verinum \<Rightarrow> V" where
  "pad_value that =
     (let pad = vbits that ! (vlen that - 1);
          pad = (if pad = V1 \<and> \<not> vhas_sign that \<and> \<not> vis_single that then V0 else pad)
      in if vhas_len that \<and> \<not> vhas_sign that \<and> \<not> vis_single that
         then (if pad = Vx then V0 else if pad = Vz then V0 else pad)
         else pad)"

definition pad_to_width :: "verinum \<Rightarrow> nat \<Rightarrow> verinum option" where
  "pad_to_width that width =
     (if vlen that \<ge> width then Some that
      else if vlen that = 0
        then Some ((verinum_fill V0 width (vhas_len that))\<lparr>vhas_sign := vhas_sign that\<rparr>)
      else do {
        val \<leftarrow> set_loop verinum_set 0 (\<lambda>idx. vbits that ! idx) (vlen that)
                (verinum_fill (pad_value that) width (vhas_len that));
        let val = val\<lparr>vhas_sign := vhas_sign that\<rparr>;
        if vstring_flag that \<and> width mod 8 = 0
        then do { s \<leftarrow> as_string val; verinum_string s }
        else Some val
      })"

definition cast_to_width :: "verinum \<Rightarrow> nat \<Rightarrow> verinum option" where
  "cast_to_width that width =
     (if vhas_len that \<and> vlen that = width then Some that
      else if vlen that \<ge> width then verinum_copy_bits that width
      else if vlen that = 0
        then Some ((verinum_fill V0 width True)\<lparr>vhas_sign := vhas_sign that\<rparr>)
      else do {
        val \<leftarrow> set_loop verinum_set 0 (\<lambda>idx. vbits that ! idx) (vlen that)
                (verinum_fill (pad_value that) width True);
        Some (val\<lparr>vhas_sign := vhas_sign that\<rparr>)
      })"

definition trim_len :: "verinum \<Rightarrow> nat" where
  "trim_len that =
     (if vhas_sign that then
        let sign = vbits that ! (vlen that - 1);
            top = scan_down (\<lambda>t. vbits that ! t = sign) (vlen that - 1)
        in (if vbits that ! top \<noteq> sign then top + 1 else top) + 1
      else
        let top = scan_down (\<lambda>t. vbits that ! t = V0) (vlen that - 1)
        in if top + 1 = vlen that then vlen that
           else if vbits that ! top = V0 then top + 2 - 1 else top + 2)"

definition trim_vnum :: "verinum \<Rightarrow> verinum option" where
  "trim_vnum that =
     (if vhas_len that then Some that
      else if vlen that < 2 then Some that
      else if \<not> vhas_sign that \<and>
          scan_down (\<lambda>t. vbits that ! t = V0) (vlen that - 1) + 1 = vlen that then Some that
      else set_loop verinum_set 0 (\<lambda>idx. vbits that ! idx) (trim_len that)
             ((verinum_fill V0 (trim_len that) False)\<lparr>vhas_sign := vhas_sign that\<rparr>))"

section \<open>Lemmas: native integers\<close>

lemma native_loop_0: "native_loop bs 0 val = (if V1 \<in> set bs then - 1 else val)"
  by (induction bs) auto

lemma native_loop_value:
  fixes val :: "'w::len word"
  assumes "k \<le> LENGTH('w)" "uint val < 2 ^ k"
  shows "uint (native_loop bs (push_bit k 1) val)
    = min (uint val + 2 ^ k * ubits (vbools bs)) (2 ^ LENGTH('w) - 1)"
  using assms
proof (induction bs arbitrary: k val)
  case Nil
  then have "(2 :: int) ^ k \<le> 2 ^ LENGTH('w)" by simp
  with Nil show ?case by simp
next
  case (Cons b bs)
  show ?case
  proof (cases "k = LENGTH('w)")
    case True
    then have m: "push_bit k (1 :: 'w word) = 0" by (simp add: push_bit_eq_mult)
    define u where "u = ubits (vbools (b # bs))"
    have u0: "u = 0 \<longleftrightarrow> V1 \<notin> set (b # bs)" "0 \<le> u"
      by (auto simp: u_def ubits_zero_iff simp del: ubits_Cons)
    have "uint (native_loop (b # bs) (push_bit k 1) val)
        = (if u = 0 then uint val else 2 ^ LENGTH('w) - 1)"
      unfolding m native_loop_0 u0(1) by (simp add: uint_minus_1)
    also have "\<dots> = min (uint val + 2 ^ k * u) (2 ^ LENGTH('w) - 1)"
    proof (cases "u = 0")
      case False
      then have "2 ^ k * 1 \<le> 2 ^ k * u" using u0(2) by (intro mult_left_mono) auto
      then have "2 ^ LENGTH('w) \<le> uint val + 2 ^ k * u" using True by (simp add: add_increasing)
      with False show ?thesis by (simp add: min_def)
    qed (use Cons.prems True in simp)
    finally show ?thesis unfolding u_def .
  next
    case False
    then have k: "k < LENGTH('w)" using Cons.prems by simp
    have p: "push_bit 1 (push_bit k (1 :: 'w word)) = push_bit (Suc k) 1" by (simp add: push_bit_push_bit)
    have nz: "push_bit k (1 :: 'w word) \<noteq> 0" using k by simp
    have "uint (val OR push_bit k 1) = uint val + 2 ^ k"
    proof -
      have "\<not> bit (uint val) i" if "k \<le> i" for i
        using that Cons.prems(2) by (metis bit_take_bit_iff linorder_not_le take_bit_int_eq_self unsigned_greater_eq)
      then have "uint val OR 2 ^ k = uint val + 2 ^ k"
        by (subst disjunctive_add [symmetric]) (auto simp: bit_exp_iff)
      then show ?thesis using uint_push_bit_1 [OF k] by (simp add: unsigned_or_eq)
    qed
    moreover have "uint val < 2 * 2 ^ k"
      using Cons.prems(2) zero_le_power [of "2 :: int" k] by linarith
    ultimately show ?thesis
      using Cons.IH [of "Suc k" "if b = V1 then val OR push_bit k 1 else val"] Cons.prems k nz
      by (auto simp: p algebra_simps)
  qed
qed

lemma native_loop_uval: "uint (native_loop (vbits v) 1 (0 :: 'w::len word)) = min (uval v) (2 ^ LENGTH('w) - 1)"
  using native_loop_value [of 0 "0 :: 'w word" "vbits v"] by (simp add: uval_def)

lemma as_ulong_value:
  assumes "is_defined v"
  shows "uint (as_ulong v) = min (uval v) (2 ^ 64 - 1)"
  using assms native_loop_uval [where v = v and 'w = 64] by (auto simp: as_ulong_def uval_def)

lemma long_neg_loop_bits:
  assumes "n \<le> 63"
  shows "snd (long_neg_loop bs n) = NOT (push_bit n 1) \<and>
    (\<forall>i < 64. bit (fst (long_neg_loop bs n)) i \<longleftrightarrow> (i < n \<longrightarrow> bs ! i \<noteq> V0))"
  using assms
proof (induction n)
  case (Suc n)
  obtain val msk where vm: "long_neg_loop bs n = (val, msk)" by fastforce
  with Suc have m: "msk = NOT (push_bit n 1)"
    and b: "\<And>i. i < 64 \<Longrightarrow> bit val i \<longleftrightarrow> (i < n \<longrightarrow> bs ! i \<noteq> V0)" by auto
  have "ul_shl msk 1 OR 1 = NOT (push_bit (Suc n) 1)"
    using Suc.prems unfolding m
    by (intro bit_word_eqI) (auto simp: bit_simps bit_ul_shl Suc_le_eq)
  moreover have "bit (if bs ! n = V0 then val AND msk else val) i \<longleftrightarrow> (i < Suc n \<longrightarrow> bs ! i \<noteq> V0)"
    if "i < 64" for i
    using that b [OF that] Suc.prems by (auto simp: m bit_simps less_Suc_eq)
  ultimately show ?case by (simp add: vm)
qed simp

lemma long_pos_loop_bits:
  assumes "n \<le> 63"
  shows "snd (long_pos_loop bs n) = push_bit n 1 \<and>
    (\<forall>i < 64. bit (fst (long_pos_loop bs n)) i \<longleftrightarrow> i < n \<and> bs ! i = V1)"
  using assms
proof (induction n)
  case (Suc n)
  obtain val msk where vm: "long_pos_loop bs n = (val, msk)" by fastforce
  with Suc have m: "msk = push_bit n 1"
    and b: "\<And>i. i < 64 \<Longrightarrow> bit val i \<longleftrightarrow> i < n \<and> bs ! i = V1" by auto
  have "ul_shl msk 1 = push_bit (Suc n) 1"
    unfolding m by (simp add: ul_shl_def push_bit_push_bit)
  moreover have "bit (if bs ! n = V1 then val OR msk else val) i \<longleftrightarrow> i < Suc n \<and> bs ! i = V1"
    if "i < 64" for i
    using that b [OF that] Suc.prems by (auto simp: m bit_simps less_Suc_eq)
  ultimately show ?case by (simp add: vm)
qed (simp add: bit_simps)

lemma as_long_bits:
  assumes "is_defined v" "has_sign_bit v" "i < 64"
  shows "bit (as_long v) i \<longleftrightarrow> (if i < 63 then bit (to_int v) i else to_int v < 0)"
proof (cases "vbits v = []")
  case True
  then show ?thesis by (simp add: as_long_def as_long_lost_def to_int_def uval_def sbits_def)
next
  case False
  let ?top = "if vlen v > 63 then 63 else vlen v"
  have last: "vbits v ! (vlen v - Suc 0) = last (vbits v)" using False by (simp add: last_conv_nth)
  have neg: "to_int v < 0 \<longleftrightarrow> vhas_sign v \<and> last (vbits v) = V1"
    using is_negative_to_int [OF False] False by (auto simp: is_negative_def verinum_top_eq)
  have not0: "vext v i \<noteq> V0 \<longleftrightarrow> vext v i = V1"
    using vext_defined [OF assms(1,2), of i] Vdef_cases [of "vext v i"] by auto
  show ?thesis
  proof (cases "to_int v < 0")
    case True
    then have "as_long v = fst (long_neg_loop (vbits v) ?top)"
      using False assms(1) neg by (simp add: as_long_def as_long_lost_def Let_def last)
    moreover have "bit (fst (long_neg_loop (vbits v) ?top)) i \<longleftrightarrow> (i < ?top \<longrightarrow> vbits v ! i \<noteq> V0)"
      using long_neg_loop_bits [of ?top "vbits v"] assms(3) by auto
    ultimately show ?thesis
      using True neg not0 assms(2,3) by (auto simp: bit_to_int vext_def)
  next
    case nonneg: False
    then have "as_long v = fst (long_pos_loop (vbits v) ?top)"
      using False assms(1) neg by (auto simp: as_long_def as_long_lost_def Let_def last)
    moreover have "bit (fst (long_pos_loop (vbits v) ?top)) i \<longleftrightarrow> i < ?top \<and> vbits v ! i = V1"
      using long_pos_loop_bits [of ?top "vbits v"] assms(3) by auto
    ultimately show ?thesis
      using nonneg neg assms(2,3) by (auto simp: bit_to_int vext_def)
  qed
qed

lemma as_long_value:
  assumes "is_defined v" "has_sign_bit v"
  shows "sint (as_long v) = take_bit 63 (to_int v) - (if to_int v < 0 then 2 ^ 63 else 0)"
proof -
  let ?bs = "map (bit (as_long v)) [0..<64]"
  have bs: "?bs = map (bit (to_int v)) [0..<63] @ [to_int v < 0]"
    using as_long_bits [OF assms] by (intro nth_equalityI) (auto simp: nth_append)
  have "sint (as_long v) = sbits ?bs"
    by (rule bit_eqI) (auto simp: bit_sint_iff bit_sbits last_map min_def dest: bit_imp_le_length)
  also have "\<dots> = ubits ?bs - (if to_int v < 0 then 2 ^ 64 else 0)"
    using as_long_bits [OF assms, of 63] by (simp add: sbits_ubits last_map)
  also have "ubits ?bs = take_bit 63 (to_int v) + (if to_int v < 0 then 2 ^ 63 else 0)"
    unfolding bs by (simp add: ubits_append ubits_map_bit)
  finally show ?thesis by simp
qed

text \<open>Within the range of \<open>long\<close> the conversion is exact.\<close>

lemma as_long_exact:
  assumes "is_defined v" "has_sign_bit v" "- (2 ^ 63) \<le> to_int v" "to_int v < 2 ^ 63"
  shows "sint (as_long v) = to_int v"
proof -
  have "take_bit 63 (to_int v) = (if to_int v < 0 then to_int v + 2 ^ 63 else to_int v)"
    using assms(3,4) by (auto simp: take_bit_eq_mod mod_pos_pos_trivial
        intro: trans [OF mod_add_self2 [symmetric] mod_pos_pos_trivial])
  then show ?thesis using as_long_value [OF assms(1,2)] by simp
qed

section \<open>Lemmas: widths\<close>

lemma to_int_cong:
  assumes "has_sign_bit v" "has_sign_bit w" "\<And>i. vext v i = vext w i"
  shows "to_int v = to_int w"
  using assms by (intro bit_eqI) (simp add: bit_to_int)

lemma pad_value_vext:
  assumes "is_defined v" "vbits v \<noteq> []" "vhas_sign v \<or> \<not> vis_single v"
  shows "pad_value v = vext v (vlen v)"
proof -
  have "Vdef (last (vbits v))" using assms by (auto simp: is_defined_def list_all_iff)
  then show ?thesis
    using assms Vdef_cases [of "last (vbits v)"]
    by (auto simp: pad_value_def vext_def last_conv_nth)
qed

lemma verinum_fill_simps [simp]:
  "vbits (verinum_fill b n h) = replicate n b" "vhas_len (verinum_fill b n h) = h"
  "vhas_sign (verinum_fill b n h) = False" "vis_single (verinum_fill b n h) = False"
  "vstring_flag (verinum_fill b n h) = False"
  by (simp_all add: verinum_fill_def)

lemma map_nth_vbits: "map (\<lambda>i. vbits v ! i) [0..<vlen v] = vbits v"
  by (rule map_nth)

lemma pad_loop:
  assumes "vlen v \<le> width"
  shows "set_loop verinum_set 0 (\<lambda>i. vbits v ! i) (vlen v) (verinum_fill p width h)
    = Some ((verinum_fill p width h)\<lparr>vbits := vbits v @ replicate (width - vlen v) p\<rparr>)"
  using assms by (simp add: set_loop_verinum map_nth_vbits)

lemma cast_to_width_bits:
  assumes "is_defined v" "vhas_sign v \<or> \<not> vis_single v \<or> width \<le> vlen v"
  shows "\<exists>r. cast_to_width v width = Some r \<and> vhas_len r \<and> vhas_sign r = vhas_sign v \<and>
    vlen r = width \<and> is_defined r \<and> uval r = take_bit width (to_int v)"
proof -
  consider "width \<le> vlen v" | "vlen v < width" "vbits v = []" | "vlen v < width" "vbits v \<noteq> []"
    by fastforce
  then show ?thesis
  proof cases
    case 1
    then obtain r where r: "cast_to_width v width = Some r" "vhas_len r" "vhas_sign r = vhas_sign v"
      "vbits r = take width (vbits v)"
      by (cases "vhas_len v \<and> vlen v = width")
        (simp_all add: cast_to_width_def verinum_copy_bits_def Let_def)
    moreover have "ubits (vbools (take width (vbits v))) = take_bit width (to_int v)"
      using take_bit_uval [OF 1] by (simp add: take_bit_ubits_take uval_def take_map)
    moreover have "is_defined r"
      using r(4) assms(1) by (auto simp: is_defined_def list_all_iff dest: in_set_takeD)
    ultimately show ?thesis using 1 by (simp add: uval_def min_def)
  next
    case 2
    then show ?thesis
      by (auto simp: cast_to_width_def to_int_def uval_def sbits_def map_replicate is_defined_def list_all_iff)
  next
    case 3
    let ?r = "(verinum_fill (pad_value v) width True)
      \<lparr>vbits := vbits v @ replicate (width - vlen v) (pad_value v), vhas_sign := vhas_sign v\<rparr>"
    have "cast_to_width v width = Some ?r"
      using 3 by (simp add: cast_to_width_def pad_loop)
    moreover have "vbits ?r = vext_list v width"
      using 3 assms by (simp add: vext_list_pad pad_value_vext)
    moreover have "ubits (vbools (vext_list v width)) = take_bit width (to_int v)"
      using 3 by (intro ubits_vext_list) (simp add: has_sign_bit_def)
    moreover have "list_all Vdef (vext_list v width)"
      using 3 assms(1) by (intro vext_list_defined) (auto simp: has_sign_bit_def)
    ultimately show ?thesis using 3 by (simp add: uval_def is_defined_def)
  qed
qed

lemma trim_len_signed:
  assumes "vhas_sign v" "2 \<le> vlen v"
  shows "1 \<le> trim_len v" "trim_len v \<le> vlen v"
    and "trim_len v - 1 \<le> i \<Longrightarrow> i < vlen v \<Longrightarrow> vbits v ! i = last (vbits v)"
    and "2 \<le> trim_len v \<Longrightarrow> vbits v ! (trim_len v - 2) \<noteq> last (vbits v)"
proof -
  define sgn where "sgn = vbits v ! (vlen v - 1)"
  define top where "top = scan_down (\<lambda>t. vbits v ! t = sgn) (vlen v - 1)"
  have tl: "trim_len v = (if vbits v ! top \<noteq> sgn then top + 2 else top + 1)"
    using assms(1) by (simp add: trim_len_def Let_def sgn_def top_def)
  have last: "last (vbits v) = sgn" using assms(2) by (cases "vbits v = []") (auto simp: sgn_def last_conv_nth)
  have le: "top \<le> vlen v - 1" by (simp add: top_def)
  have stop: "top = 0 \<or> vbits v ! top \<noteq> sgn"
    using scan_down_stop [of "\<lambda>t. vbits v ! t = sgn" "vlen v - 1"] by (simp add: top_def)
  have above: "vbits v ! j = sgn" if "top < j" "j \<le> vlen v - 1" for j
    using scan_down_above [of "\<lambda>t. vbits v ! t = sgn" "vlen v - 1" j] that by (simp add: top_def)
  have "top \<noteq> vlen v - 1" if "vbits v ! top \<noteq> sgn" using that by (auto simp: sgn_def)
  then show "1 \<le> trim_len v" "trim_len v \<le> vlen v" using le assms(2) by (auto simp: tl)
  show "vbits v ! i = last (vbits v)" if "trim_len v - 1 \<le> i" "i < vlen v"
    using that stop above [of i] by (cases "top < i") (auto simp: tl last split: if_splits)
  show "vbits v ! (trim_len v - 2) \<noteq> last (vbits v)" if "2 \<le> trim_len v"
    using that stop by (auto simp: tl last split: if_splits)
qed

lemma trim_len_unsigned:
  assumes "\<not> vhas_sign v" "2 \<le> vlen v"
  shows "1 \<le> trim_len v" "trim_len v \<le> vlen v"
    and "trim_len v \<le> i \<Longrightarrow> i < vlen v \<Longrightarrow> vbits v ! i = V0"
proof -
  define top where "top = scan_down (\<lambda>t. vbits v ! t = V0) (vlen v - 1)"
  have tl: "trim_len v = (if top + 1 = vlen v then vlen v
      else if vbits v ! top = V0 then top + 1 else top + 2)"
    using assms(1) by (simp add: trim_len_def Let_def top_def)
  have le: "top \<le> vlen v - 1" by (simp add: top_def)
  have above: "vbits v ! j = V0" if "top < j" "j \<le> vlen v - 1" for j
    using scan_down_above [of "\<lambda>t. vbits v ! t = V0" "vlen v - 1" j] that by (simp add: top_def)
  show "1 \<le> trim_len v" "trim_len v \<le> vlen v" using le assms(2) by (auto simp: tl)
  show "vbits v ! i = V0" if "trim_len v \<le> i" "i < vlen v"
    using that above [of i] by (auto simp: tl split: if_splits)
qed

lemma trim_vnum_ok:
  "\<exists>r. trim_vnum v = Some r \<and> vhas_len r = vhas_len v \<and> vhas_sign r = vhas_sign v \<and>
    vlen r \<le> vlen v \<and> (\<forall>i. vext r i = vext v i) \<and> (vbits r = [] \<longleftrightarrow> vbits v = [])"
proof (cases "vhas_len v \<or> vlen v < 2 \<or>
    (\<not> vhas_sign v \<and> scan_down (\<lambda>t. vbits v ! t = V0) (vlen v - 1) + 1 = vlen v)")
  case True
  then show ?thesis by (auto simp: trim_vnum_def)
next
  case False
  then have two: "2 \<le> vlen v" by simp
  have tl: "1 \<le> trim_len v" "trim_len v \<le> vlen v"
    using trim_len_signed(1,2) [OF _ two] trim_len_unsigned(1,2) [OF _ two] by blast+
  let ?r = "(verinum_fill V0 (trim_len v) False)
    \<lparr>vbits := take (trim_len v) (vbits v), vhas_sign := vhas_sign v\<rparr>"
  have "map (\<lambda>i. vbits v ! i) [0..<trim_len v] = take (trim_len v) (vbits v)"
    using tl by (intro nth_equalityI) simp_all
  then have eq: "trim_vnum v = Some ?r"
    using False by (auto simp: trim_vnum_def set_loop_verinum verinum_fill_def)
  have "vext ?r i = vext v i" for i
  proof (cases "vhas_sign v")
    case True
    have "last (take (trim_len v) (vbits v)) = last (vbits v)"
      using trim_len_signed(3) [OF True two, of "trim_len v - 1"] tl two
      by (subst last_conv_nth) auto
    then show ?thesis
      using True tl trim_len_signed(3) [OF True two, of i] by (auto simp: vext_def)
  next
    case False
    then show ?thesis using tl trim_len_unsigned(3) [OF False two, of i] by (auto simp: vext_def)
  qed
  then show ?thesis using eq tl False by (intro exI [of _ ?r]) auto
qed

lemma trim_vnum_value:
  assumes "trim_vnum v = Some r" "has_sign_bit v"
  shows "to_int r = to_int v" "has_sign_bit r" "vhas_sign r = vhas_sign v"
    "vhas_len r = vhas_len v" "vlen r \<le> vlen v"
proof -
  have r: "vhas_len r = vhas_len v" "vhas_sign r = vhas_sign v" "vlen r \<le> vlen v"
    "\<And>i. vext r i = vext v i" "vbits r = [] \<longleftrightarrow> vbits v = []"
    using trim_vnum_ok [of v] assms(1) by auto
  then show "has_sign_bit r" "vhas_sign r = vhas_sign v" "vhas_len r = vhas_len v" "vlen r \<le> vlen v"
    using assms(2) by (simp_all add: has_sign_bit_def)
  then show "to_int r = to_int v" using assms(2) r(4) by (intro to_int_cong) auto
qed

lemma trim_sized [simp]: "vhas_len v \<Longrightarrow> trim_vnum v = Some v"
  by (simp add: trim_vnum_def)

lemma trim_defined: "trim_vnum v = Some r \<Longrightarrow> is_defined v \<Longrightarrow> is_defined r"
proof -
  assume r: "trim_vnum v = Some r" and d: "is_defined v"
  have ext: "vlen r \<le> vlen v" "\<And>i. vext r i = vext v i"
    using trim_vnum_ok [of v] r by auto
  have "vbits r ! i = vbits v ! i" if "i < vlen r" for i
    using ext(1) ext(2) [of i] that by (simp add: vext_def)
  then show "is_defined r"
    using trim_vnum_ok [of v] r d by (auto simp: is_defined_def list_all_length)
qed

end
