(* ===== verification/Verinum_Arith.thy ===== *)
theory Verinum_Arith
  imports Verinum_Convert
begin

text \<open>
  Addition, subtraction, negation, multiplication, shifts, concatenation and complement of
  \<open>verinum\<close> (verinum.cc). Sized operands give the result width of Verilog; an unsized operand lets
  the result grow. The lemmas relate every result to integer arithmetic on \<open>to_int\<close>.
\<close>

section \<open>Operators\<close>

definition verinum_not :: "verinum \<Rightarrow> verinum" where
  "verinum_not left = left\<lparr>vbits := map (\<lambda>b. case b of V0 \<Rightarrow> V1 | V1 \<Rightarrow> V0 | _ \<Rightarrow> Vx) (vbits left)\<rparr>"

text \<open>
  The carry loops of \<open>operator +\<close> (\<open>f\<close> the identity, carry in \<open>V0\<close>) and of \<open>operator -\<close>
  (\<open>f\<close> the complement, carry in \<open>V1\<close>): first the bits both operands have, then the bits of the
  longer operand against the padding of the shorter one. The result is the bits, the carry out and
  the two padding bits.
\<close>

definition addsub_bits ::
  "(V \<Rightarrow> V) \<Rightarrow> verinum \<Rightarrow> verinum \<Rightarrow> V \<Rightarrow> (V list \<times> V \<times> V \<times> V) option" where
  "addsub_bits f left right c0 =
     (let min_len = min (vlen left) (vlen right);
          max_len = max (vlen left) (vlen right);
          (lo, c1) = carry_run add_with_carry (take min_len (vbits left))
                       (map f (take min_len (vbits right))) c0
      in do {
        rpad \<leftarrow> sign_bit right;
        lpad \<leftarrow> sign_bit left;
        let (hi, c2) =
          (if vlen left > vlen right
           then carry_run add_with_carry (drop min_len (vbits left))
                  (replicate (max_len - min_len) (f rpad)) c1
           else carry_run add_with_carry (replicate (max_len - min_len) lpad)
                  (map f (drop min_len (vbits right))) c1);
        Some (lo @ hi, c2, lpad, rpad)
      })"

definition verinum_add :: "verinum \<Rightarrow> verinum \<Rightarrow> verinum option" where
  "verinum_add left right =
     (let has_len_flag = vhas_len left \<and> vhas_len right;
          signed_flag = vhas_sign left \<and> vhas_sign right;
          max_len = max (vlen left) (vlen right)
      in if \<not> is_defined left \<or> \<not> is_defined right
      then Some ((verinum_fill Vx (if has_len_flag then max_len else 1) has_len_flag)
                   \<lparr>vhas_sign := signed_flag\<rparr>)
      else do {
        (val_bits, carry, lpad, rpad) \<leftarrow> addsub_bits (\<lambda>b. b) left right V0;
        let top = fst (add_with_carry lpad rpad carry);
        let len =
          (if \<not> has_len_flag then
             (if signed_flag
              then (if top \<noteq> val_bits ! (max_len - 1) then max_len + 1 else max_len)
              else (if top \<noteq> V0 then max_len + 1 else max_len))
           else max_len);
        Some ((verinum_bits (val_bits @ [top]) len has_len_flag)\<lparr>vhas_sign := signed_flag\<rparr>)
      })"

definition verinum_sub :: "verinum \<Rightarrow> verinum \<Rightarrow> verinum option" where
  "verinum_sub left right =
     (let has_len_flag = vhas_len left \<and> vhas_len right;
          signed_flag = vhas_sign left \<and> vhas_sign right;
          max_len = max (vlen left) (vlen right)
      in if \<not> is_defined left \<or> \<not> is_defined right
      then Some ((verinum_fill Vx (if has_len_flag then max_len else 1) has_len_flag)
                   \<lparr>vhas_sign := signed_flag\<rparr>)
      else do {
        (val_bits, carry, lpad, rpad) \<leftarrow> addsub_bits V_not left right V1;
        let top = fst (add_with_carry lpad (V_not rpad) carry);
        let len =
          (if signed_flag \<and> \<not> has_len_flag
           then (if top \<noteq> val_bits ! (max_len - 1) then max_len + 1 else max_len)
           else max_len);
        Some ((verinum_bits (val_bits @ [top]) len has_len_flag)\<lparr>vhas_sign := signed_flag\<rparr>)
      })"

text \<open>Unary minus reads its sign bit only for a signed operand without a size.\<close>

definition verinum_neg :: "verinum \<Rightarrow> verinum option" where
  "verinum_neg right =
     (let has_len_flag = vhas_len right; signed_flag = vhas_sign right; len = vlen right
      in if \<not> is_defined right
      then Some ((verinum_fill Vx (if has_len_flag then len else 1) has_len_flag)
                   \<lparr>vhas_sign := signed_flag\<rparr>)
      else
        let (val_bits, carry) =
              carry_run add_with_carry (replicate len V0) (map V_not (vbits right)) V1
        in if signed_flag \<and> \<not> has_len_flag
           then do {
             sgn \<leftarrow> sign_bit right;
             let top = fst (add_with_carry V0 (V_not sgn) carry);
             let len = (if top \<noteq> val_bits ! (len - 1) then len + 1 else len);
             Some ((verinum_bits (val_bits @ [top]) len has_len_flag)\<lparr>vhas_sign := signed_flag\<rparr>)
           }
           else Some ((verinum_bits val_bits len has_len_flag)\<lparr>vhas_sign := signed_flag\<rparr>))"

text \<open>
  Multiplication: for every set bit \<open>rdx\<close> of the right operand the inner loop adds the left operand
  (padded, cut at the result width) to the result bits from \<open>rdx\<close> on.
\<close>

definition mul_row :: "V list \<Rightarrow> V \<Rightarrow> nat \<Rightarrow> V list \<Rightarrow> V list" where
  "mul_row l l_sign rdx result =
     take rdx result @
     fst (carry_run add_with_carry
            (map (\<lambda>ldx. if ldx < length l then l ! ldx else l_sign) [0..<length result - rdx])
            (drop rdx result) V0)"

primrec mul_loop :: "V list \<Rightarrow> V \<Rightarrow> V list \<Rightarrow> V \<Rightarrow> nat \<Rightarrow> V list \<Rightarrow> V list" where
  "mul_loop l l_sign r r_sign 0 result = result"
| "mul_loop l l_sign r r_sign (Suc rdx) result =
     (let res = mul_loop l l_sign r r_sign rdx result;
          r_bit = (if rdx < length r then r ! rdx else r_sign)
      in if r_bit = V0 then res else mul_row l l_sign rdx res)"

definition verinum_mul :: "verinum \<Rightarrow> verinum \<Rightarrow> verinum option" where
  "verinum_mul left right =
     (let has_len_flag = vhas_len left \<and> vhas_len right;
          signed_flag = vhas_sign left \<and> vhas_sign right;
          len = (if has_len_flag then max (vlen left) (vlen right) else vlen left + vlen right)
      in if \<not> is_defined left \<or> \<not> is_defined right
      then Some ((verinum_fill Vx (if has_len_flag then len else 1) has_len_flag)
                   \<lparr>vhas_sign := signed_flag\<rparr>)
      else do {
        let result = (verinum_fill V0 len has_len_flag)\<lparr>vhas_sign := signed_flag\<rparr>;
        r_sign \<leftarrow> sign_bit right;
        l_sign \<leftarrow> sign_bit left;
        trim_vnum (result\<lparr>vbits := mul_loop (vbits left) l_sign (vbits right) r_sign len (vbits result)\<rparr>)
      })"

definition verinum_shl :: "verinum \<Rightarrow> nat \<Rightarrow> verinum option" where
  "verinum_shl that shift =
     (let has_len_flag = vhas_len that;
          len = (if has_len_flag then vlen that else vlen that + shift)
      in do {
        result \<leftarrow> set_loop verinum_set shift (\<lambda>idx. vbits that ! idx) (len - shift)
          ((verinum_fill V0 len has_len_flag)\<lparr>vhas_sign := vhas_sign that\<rparr>);
        trim_vnum result
      })"

definition verinum_shr :: "verinum \<Rightarrow> nat \<Rightarrow> verinum option" where
  "verinum_shr that shift =
     (let has_len_flag = vhas_len that; len = vlen that in do {
        sgn_bit \<leftarrow> (if vhas_sign that then verinum_top that else Some V0);
        if shift \<ge> len
        then Some ((verinum_fill sgn_bit (if has_len_flag then len else 1) has_len_flag)
                     \<lparr>vhas_sign := vhas_sign that\<rparr>)
        else do {
          result \<leftarrow> set_loop verinum_set 0 (\<lambda>idx. vbits that ! (idx + shift)) (len - shift)
            ((verinum_fill sgn_bit (if has_len_flag then len else len - shift) has_len_flag)
               \<lparr>vhas_sign := vhas_sign that\<rparr>);
          trim_vnum result
        }
      })"

definition verinum_concat :: "verinum \<Rightarrow> verinum \<Rightarrow> verinum option" where
  "verinum_concat left right =
     (if vstring_flag left \<and> vstring_flag right
      then do {
        ls \<leftarrow> as_string left;
        rs \<leftarrow> as_string right;
        verinum_string (ls @ rs)
      }
      else do {
        res \<leftarrow> set_loop verinum_set 0 (\<lambda>idx. vbits right ! idx) (vlen right)
                 (verinum_fill V0 (vlen left + vlen right) True);
        set_loop verinum_set (vlen right) (\<lambda>idx. vbits left ! idx) (vlen left) res
      })"

section \<open>The carry loops\<close>

lemma run_value:
  assumes "length xs = length ys" "list_all Vdef xs" "list_all Vdef ys" "Vdef c"
    and "carry_run add_with_carry xs ys c = (zs, c')"
  shows "length zs = length xs" "list_all Vdef zs" "Vdef c'"
    "ubits (vbools zs) = take_bit (length xs) (ubits (vbools xs) + ubits (vbools ys) + of_bool (c = V1))"
proof -
  have law: "length zs = length xs" "list_all Vdef zs" "Vdef c'"
    "ubits (vbools zs) + 2 ^ length xs * of_bool (c' = V1)
       = ubits (vbools xs) + ubits (vbools ys) + of_bool (c = V1)"
    using va.carry_run_law [OF assms(1-4) _ assms(5)] by (auto simp: horner_vbools)
  then show "length zs = length xs" "list_all Vdef zs" "Vdef c'" by auto
  have "ubits (vbools zs) < 2 ^ length xs" using ubits_less [of "vbools zs"] law(1) by simp
  then show "ubits (vbools zs)
      = take_bit (length xs) (ubits (vbools xs) + ubits (vbools ys) + of_bool (c = V1))"
    unfolding law(4) [symmetric] take_bit_eq_mod by (simp add: mod_pos_pos_trivial)
qed

lemma addsub_bits_run:
  assumes "has_sign_bit l" "has_sign_bit r"
  defines "n \<equiv> max (vlen l) (vlen r)"
  shows "\<exists>bs c. addsub_bits f l r c0 = Some (bs, c, vext l (vlen l), vext r (vlen r)) \<and>
    carry_run add_with_carry (vext_list l n) (map f (vext_list r n)) c0 = (bs, c)"
proof -
  let ?m = "min (vlen l) (vlen r)"
  define l2 where "l2 = (if vlen l > vlen r then drop ?m (vbits l)
    else replicate (n - ?m) (vext l (vlen l)))"
  define r2 where "r2 = (if vlen l > vlen r then replicate (n - ?m) (f (vext r (vlen r)))
    else map f (drop ?m (vbits r)))"
  have l: "vext_list l n = take ?m (vbits l) @ l2"
    by (cases "vlen l > vlen r") (simp_all add: n_def l2_def vext_list_take vext_list_pad)
  have "vext_list r n = take ?m (vbits r) @
      (if vlen l > vlen r then replicate (n - ?m) (vext r (vlen r)) else drop ?m (vbits r))"
    by (cases "vlen l > vlen r") (simp_all add: n_def vext_list_take vext_list_pad)
  then have r: "map f (vext_list r n) = map f (take ?m (vbits r)) @ r2"
    by (simp only: map_append) (simp add: r2_def)
  have "length (take ?m (vbits l)) = length (map f (take ?m (vbits r)))" by simp
  note run = carry_run_append [OF this, of add_with_carry l2 r2 c0, folded l r]
  show ?thesis
    unfolding run
    using assms(1,2) by (auto simp: addsub_bits_def n_def sign_bit_eq Let_def l2_def r2_def
        split: prod.splits)
qed

text \<open>
  The bits of a sum: \<open>bs\<close> the loop's bits, with or without the top bit that an unsized result may
  need, are the low bits of the integer sum.
\<close>

lemma addsub_sum:
  assumes "is_defined l" "is_defined r" "has_sign_bit l" "has_sign_bit r" "Vdef c0"
    and f: "\<And>b. Vdef b \<Longrightarrow> Vdef (f b)"
    and y: "\<And>k. ubits (vbools (map f (vext_list r k))) = take_bit k y"
  defines "n \<equiv> max (vlen l) (vlen r)" and "x \<equiv> to_int l + y + of_bool (c0 = V1)"
  shows "\<exists>bs c top. addsub_bits f l r c0 = Some (bs, c, vext l (vlen l), vext r (vlen r)) \<and>
    top = fst (add_with_carry (vext l (vlen l)) (f (vext r (vlen r))) c) \<and>
    length bs = n \<and> list_all Vdef (bs @ [top]) \<and>
    ubits (vbools bs) = take_bit n x \<and> ubits (vbools (bs @ [top])) = take_bit (Suc n) x"
proof -
  obtain bs c where a: "addsub_bits f l r c0 = Some (bs, c, vext l (vlen l), vext r (vlen r))"
    and run: "carry_run add_with_carry (vext_list l n) (map f (vext_list r n)) c0 = (bs, c)"
    using addsub_bits_run [OF assms(3,4)] unfolding n_def by blast
  define top c' where "top = fst (add_with_carry (vext l (vlen l)) (f (vext r (vlen r))) c)"
    "c' = snd (add_with_carry (vext l (vlen l)) (f (vext r (vlen r))) c)"
  have lr: "vext l n = vext l (vlen l)" "vext r n = vext r (vlen r)"
    by (auto simp: n_def intro: vext_above)
  have run': "carry_run add_with_carry (vext_list l (Suc n)) (map f (vext_list r (Suc n))) c0
      = (bs @ [top], c')"
    using carry_run_append [of "vext_list l n" "map f (vext_list r n)" add_with_carry
        "[vext l n]" "[f (vext r n)]" c0] run
    by (simp add: top_c'_def lr split: prod.splits)
  have def: "list_all Vdef (vext_list l k)" "list_all Vdef (map f (vext_list r k))" for k
    using vext_defined assms(1-4) f by (auto simp: list_all_iff)
  note v = run_value [OF _ def assms(5) run] and v' = run_value [OF _ def assms(5) run']
  have "ubits (vbools bs) = take_bit n x"
    using v(4) assms(3) by (simp add: ubits_vext_list y x_def take_bit_add3 del: map_map)
  moreover have "ubits (vbools (bs @ [top])) = take_bit (Suc n) x"
    using v'(4) assms(3) by (simp add: ubits_vext_list y x_def take_bit_add3 del: map_map upt_Suc)
  moreover have "length bs = n" "list_all Vdef (bs @ [top])"
    using v(1) v'(2) by simp_all
  ultimately show ?thesis using a top_c'_def(1) by auto
qed

lemma verinum_bits_simps [simp]:
  "vbits (verinum_bits bs n h) = take n bs" "vhas_len (verinum_bits bs n h) = h"
  "vhas_sign (verinum_bits bs n h) = False"
  by (simp_all add: verinum_bits_def)

lemma ubits_take_grown:
  assumes "ubits (bs @ [tp]) = take_bit (Suc (length bs)) x" "n \<le> Suc (length bs)"
  shows "ubits (take n (bs @ [tp])) = take_bit n x"
proof -
  have "ubits (take n (bs @ [tp])) = take_bit n (ubits (bs @ [tp]))"
    by (rule take_bit_ubits_take [symmetric])
  also have "\<dots> = take_bit n x" using assms by (simp add: min_def)
  finally show ?thesis .
qed

lemma list_all_take: "list_all p xs \<Longrightarrow> list_all p (take n xs)"
  by (auto simp: list_all_iff dest: in_set_takeD)

text \<open>
  The result of a loop with its tp bit, cut to \<open>len\<close> bits: the low bits of \<open>x\<close>, and exactly \<open>x\<close>
  where the width was chosen to hold it.
\<close>

lemma grown_number:
  assumes bs: "length bs = n" "list_all Vdef (bs @ [tp])"
      "ubits (vbools (bs @ [tp])) = take_bit (Suc n) x"
    and len: "len \<le> Suc n"
    and res: "res = (verinum_bits (bs @ [tp]) len h)\<lparr>vhas_sign := sg\<rparr>"
  shows "is_defined res" "vlen res = len" "uval res = take_bit len x"
    and "sg \<Longrightarrow> 0 < n \<Longrightarrow> - (2 ^ n) \<le> x \<Longrightarrow> x < 2 ^ n \<Longrightarrow>
      len = (if tp \<noteq> bs ! (n - 1) then n + 1 else n) \<Longrightarrow> to_int res = x"
    and "\<not> sg \<Longrightarrow> 0 \<le> x \<Longrightarrow> x < 2 ^ Suc n \<Longrightarrow>
      len = (if tp \<noteq> V0 then n + 1 else n) \<Longrightarrow> to_int res = x"
proof -
  show "is_defined res" using bs(2) by (simp add: res is_defined_def list_all_take del: take_append)
  show vl: "vlen res = len" using bs(1) len by (simp add: res)
  show uv: "uval res = take_bit len x"
    using ubits_take_grown [of "vbools bs" "tp = V1" x len] bs len
    by (simp add: res uval_def take_map del: take_append flip: take_map)
  show "to_int res = x" if sg: "sg" and n0: "0 < n" and x: "- (2 ^ n) \<le> x" "x < 2 ^ n"
    and ln: "len = (if tp \<noteq> bs ! (n - 1) then n + 1 else n)"
  proof -
    obtain m where m: "n = Suc m" using n0 by (cases n) auto
    have "Vdef tp" "Vdef (bs ! m)" using bs m by (auto simp: list_all_iff)
    then have "tp \<noteq> bs ! m \<longleftrightarrow> (tp = V1) \<noteq> vbools bs ! m"
      using bs m Vdef_cases [of tp] Vdef_cases [of "bs ! m"] by auto
    then have "sbits (take len (vbools bs @ [tp = V1])) = x"
      using bs m x ln by (intro sbits_take_grown [of _ m]) auto
    then show ?thesis using sg by (simp add: to_int_def res take_map del: take_append flip: take_map)
  qed
  show "to_int res = x" if "\<not> sg" "0 \<le> x" "x < 2 ^ Suc n" "len = (if tp \<noteq> V0 then n + 1 else n)"
  proof -
    have "Vdef tp" using bs by simp
    then have t: "tp \<noteq> V0 \<longleftrightarrow> bit x n"
      using bit_ubits [of "vbools (bs @ [tp])" n] bs(1) Vdef_cases [of tp] unfolding bs(3)
      by (auto simp: bit_take_bit_iff nth_append)
    have "take_bit n x = x" if "\<not> bit x n"
    proof -
      have "x = take_bit (Suc n) x" using \<open>0 \<le> x\<close> \<open>x < 2 ^ Suc n\<close> by (simp add: take_bit_int_eq_self)
      then show ?thesis using that by (simp add: take_bit_Suc_from_most)
    qed
    then have "uval res = x"
      using uv that t by (auto simp: take_bit_int_eq_self)
    then show ?thesis using that(1) by (simp add: to_int_unsigned res)
  qed
qed

section \<open>Sums and differences\<close>

lemma ubits_not_vext_list:
  assumes "is_defined v" "has_sign_bit v"
  shows "ubits (vbools (map V_not (vext_list v n))) = take_bit n (NOT (to_int v))"
proof (rule ubits_eqI)
  fix i assume "i < n"
  moreover have "V_not (vext v i) = V1 \<longleftrightarrow> vext v i \<noteq> V1"
    using vext_defined [OF assms, of i] by (cases "vext v i") (simp_all add: V_not_def)
  ultimately show "vbools (map V_not (vext_list v n)) ! i = bit (NOT (to_int v)) i"
    using assms(2) by (simp add: bit_not_iff bit_to_int)
qed simp

text \<open>The sum of two signed or of two unsigned readings fits the grown width.\<close>

lemma signed_bounds_max:
  assumes "vhas_sign l" "vhas_sign r" "has_sign_bit l" "has_sign_bit r"
  defines "n \<equiv> max (vlen l) (vlen r)"
  shows "0 < n" "- (2 ^ (n - 1)) \<le> to_int l" "to_int l < 2 ^ (n - 1)"
    "- (2 ^ (n - 1)) \<le> to_int r" "to_int r < 2 ^ (n - 1)" "(2 :: int) ^ n = 2 * 2 ^ (n - 1)"
proof -
  have ne: "vbits l \<noteq> []" "vbits r \<noteq> []" using assms by (auto simp: has_sign_bit_def)
  then show n: "0 < n" unfolding n_def using length_greater_0_conv by fastforce
  have p: "(2 :: int) ^ (vlen l - 1) \<le> 2 ^ (n - 1)" "(2 :: int) ^ (vlen r - 1) \<le> 2 ^ (n - 1)"
    by (auto simp: n_def intro!: power_increasing)
  show "- (2 ^ (n - 1)) \<le> to_int l" "to_int l < 2 ^ (n - 1)"
    "- (2 ^ (n - 1)) \<le> to_int r" "to_int r < 2 ^ (n - 1)"
    using p to_int_signed_range [OF assms(1) ne(1)] to_int_signed_range [OF assms(2) ne(2)]
    by linarith+
  show "(2 :: int) ^ n = 2 * 2 ^ (n - 1)" using n by (cases n) auto
qed

lemma unsigned_bounds_max:
  assumes "\<not> vhas_sign l" "\<not> vhas_sign r"
  defines "n \<equiv> max (vlen l) (vlen r)"
  shows "0 \<le> to_int l" "to_int l < 2 ^ n" "0 \<le> to_int r" "to_int r < 2 ^ n"
proof -
  have p: "(2 :: int) ^ vlen l \<le> 2 ^ n" "(2 :: int) ^ vlen r \<le> 2 ^ n"
    by (auto simp: n_def intro!: power_increasing)
  show "0 \<le> to_int l" "to_int l < 2 ^ n" "0 \<le> to_int r" "to_int r < 2 ^ n"
    using p to_int_unsigned_range [OF assms(1)] to_int_unsigned_range [OF assms(2)] by linarith+
qed

lemma verinum_add_ok:
  assumes "is_defined l" "is_defined r" "has_sign_bit l" "has_sign_bit r"
  shows "\<exists>res. verinum_add l r = Some res \<and> is_defined res \<and>
    vhas_len res = (vhas_len l \<and> vhas_len r) \<and> vhas_sign res = (vhas_sign l \<and> vhas_sign r) \<and>
    uval res = take_bit (vlen res) (to_int l + to_int r) \<and>
    (vhas_len res \<longrightarrow> vlen res = max (vlen l) (vlen r)) \<and>
    (\<not> vhas_len res \<longrightarrow> vhas_sign l = vhas_sign r \<longrightarrow> to_int res = to_int l + to_int r)"
proof -
  define n where "n = max (vlen l) (vlen r)"
  let ?x = "to_int l + to_int r"
  have y: "ubits (vbools (map (\<lambda>b. b) (vext_list r k))) = take_bit k (to_int r)" for k
    using ubits_vext_list [OF assms(4)] by simp
  obtain bs c tp where a: "addsub_bits (\<lambda>b. b) l r V0 = Some (bs, c, vext l (vlen l), vext r (vlen r))"
    and tp: "tp = fst (add_with_carry (vext l (vlen l)) (vext r (vlen r)) c)"
    and bs: "length bs = n" "list_all Vdef (bs @ [tp])" "ubits (vbools (bs @ [tp])) = take_bit (Suc n) ?x"
    using addsub_sum [OF assms, of V0 "\<lambda>b. b", OF _ _ y] by (auto simp: n_def)
  define h sg where "h = (vhas_len l \<and> vhas_len r)" "sg = (vhas_sign l \<and> vhas_sign r)"
  define len where "len = (if \<not> h then (if sg then (if tp \<noteq> bs ! (n - 1) then n + 1 else n)
    else (if tp \<noteq> V0 then n + 1 else n)) else n)"
  define res where "res = (verinum_bits (bs @ [tp]) len h)\<lparr>vhas_sign := sg\<rparr>"
  have eq: "verinum_add l r = Some res"
    unfolding verinum_add_def Let_def h_sg_def [symmetric] n_def [symmetric]
    using assms a by (simp add: res_def len_def flip: tp)
  have len: "len \<le> Suc n" by (simp add: len_def)
  note g = grown_number [OF bs len res_def]
  have exact: "to_int res = ?x" if "\<not> h" "vhas_sign l = vhas_sign r"
  proof (cases sg)
    case True
    then have "0 < n" "- (2 ^ n) \<le> ?x" "?x < 2 ^ n"
      using signed_bounds_max [OF _ _ assms(3,4)] by (auto simp: h_sg_def n_def)
    then show ?thesis using g(4) True that by (simp add: len_def)
  next
    case False
    then have "\<not> vhas_sign l" "\<not> vhas_sign r" using that by (auto simp: h_sg_def)
    then have "0 \<le> ?x" "?x < 2 ^ Suc n" using unsigned_bounds_max [of l r] by (auto simp: n_def)
    then show ?thesis using g(5) False that by (simp add: len_def)
  qed
  have "vhas_len res = h" "vhas_sign res = sg" by (simp_all add: res_def)
  then show ?thesis
    using eq g(1-3) exact by (intro exI [of _ res]) (auto simp: h_sg_def len_def n_def)
qed

lemma verinum_sub_ok:
  assumes "is_defined l" "is_defined r" "has_sign_bit l" "has_sign_bit r"
  shows "\<exists>res. verinum_sub l r = Some res \<and> is_defined res \<and>
    vhas_len res = (vhas_len l \<and> vhas_len r) \<and> vhas_sign res = (vhas_sign l \<and> vhas_sign r) \<and>
    uval res = take_bit (vlen res) (to_int l - to_int r) \<and>
    (\<not> vhas_sign res \<or> vhas_len res \<longrightarrow> vlen res = max (vlen l) (vlen r)) \<and>
    (\<not> vhas_len res \<longrightarrow> vhas_sign res \<longrightarrow> to_int res = to_int l - to_int r)"
proof -
  define n where "n = max (vlen l) (vlen r)"
  let ?x = "to_int l - to_int r"
  have def: "Vdef (V_not b)" if "Vdef b" for b
    using that by (cases b) (simp_all add: V_not_def)
  obtain bs c tp where a: "addsub_bits V_not l r V1 = Some (bs, c, vext l (vlen l), vext r (vlen r))"
    and tp: "tp = fst (add_with_carry (vext l (vlen l)) (V_not (vext r (vlen r))) c)"
    and bs: "length bs = n" "list_all Vdef (bs @ [tp])" "ubits (vbools (bs @ [tp])) = take_bit (Suc n) ?x"
    using addsub_sum [OF assms, of V1 V_not, OF _ def ubits_not_vext_list [OF assms(2,4)]]
    by (auto simp: not_eq_complement n_def)
  define h sg where "h = (vhas_len l \<and> vhas_len r)" "sg = (vhas_sign l \<and> vhas_sign r)"
  define len where "len = (if sg \<and> \<not> h then (if tp \<noteq> bs ! (n - 1) then n + 1 else n) else n)"
  define res where "res = (verinum_bits (bs @ [tp]) len h)\<lparr>vhas_sign := sg\<rparr>"
  have eq: "verinum_sub l r = Some res"
    unfolding verinum_sub_def Let_def h_sg_def [symmetric] n_def [symmetric]
    using assms a by (simp add: res_def len_def flip: tp)
  have len: "len \<le> Suc n" by (simp add: len_def)
  note g = grown_number [OF bs len res_def]
  have exact: "to_int res = ?x" if "\<not> h" sg
  proof -
    have "0 < n" "- (2 ^ n) \<le> ?x" "?x < 2 ^ n"
      using signed_bounds_max [OF _ _ assms(3,4)] that by (auto simp: h_sg_def n_def)
    then show ?thesis using g(4) that by (simp add: len_def)
  qed
  have "vhas_len res = h" "vhas_sign res = sg" by (simp_all add: res_def)
  then show ?thesis
    using eq g(1-3) exact by (intro exI [of _ res]) (auto simp: h_sg_def len_def n_def)
qed

lemma verinum_neg_ok:
  assumes "is_defined r" "has_sign_bit r"
  shows "\<exists>res. verinum_neg r = Some res \<and> is_defined res \<and>
    vhas_len res = vhas_len r \<and> vhas_sign res = vhas_sign r \<and>
    uval res = take_bit (vlen res) (- to_int r) \<and>
    (\<not> vhas_sign r \<or> vhas_len r \<longrightarrow> vlen res = vlen r) \<and>
    (\<not> vhas_len r \<longrightarrow> vhas_sign r \<longrightarrow> to_int res = - to_int r)"
proof -
  define n where "n = vlen r"
  have bits: "vbits r = vext_list r n" by (simp add: n_def vext_list_take)
  obtain bs c where run: "carry_run add_with_carry (replicate n V0) (map V_not (vbits r)) V1 = (bs, c)"
    by fastforce
  define tp c' where "tp = fst (add_with_carry V0 (V_not (vext r n)) c)"
    "c' = snd (add_with_carry V0 (V_not (vext r n)) c)"
  have run': "carry_run add_with_carry (replicate (Suc n) V0) (map V_not (vext_list r (Suc n))) V1
      = (bs @ [tp], c')"
    using carry_run_append [of "replicate n V0" "map V_not (vbits r)" add_with_carry
        "[V0]" "[V_not (vext r n)]" V1] run
    by (simp add: tp_c'_def replicate_append_same n_def bits [symmetric, unfolded n_def] split: prod.splits)
  have def: "list_all Vdef (replicate k V0)" "list_all Vdef (map V_not (vext_list r k))" for k
    using vext_defined [OF assms] by (auto simp: list_all_iff V_not_def split: V.splits)
  have zero: "ubits (vbools (replicate k V0)) = 0" for k by (simp add: map_replicate)
  note v' = run_value [OF _ def _ run']
  have bs: "length bs = n" "list_all Vdef (bs @ [tp])" "ubits (vbools (bs @ [tp])) = take_bit (Suc n) (- to_int r)"
    using v' zero [of "Suc n"] ubits_not_vext_list [OF assms, of "Suc n"]
      take_bit_add3 [of "Suc n" 0 "NOT (to_int r)" 1]
    by (simp_all add: not_eq_complement del: upt_Suc map_replicate replicate_Suc)
  define h sg where "h = vhas_len r" "sg = vhas_sign r"
  define len where "len = (if sg \<and> \<not> h then (if tp \<noteq> bs ! (n - 1) then n + 1 else n) else n)"
  define res where "res = (verinum_bits (bs @ [tp]) len h)\<lparr>vhas_sign := sg\<rparr>"
  have vb: "verinum_bits bs n h = verinum_bits (bs @ [tp]) n h"
    using bs(1) by (simp add: verinum_bits_def)
  have eq: "verinum_neg r = Some res"
    unfolding verinum_neg_def Let_def h_sg_def [symmetric] n_def [symmetric] run prod.case
    using assms run vb by (simp add: res_def len_def sign_bit_eq tp_c'_def(1) flip: n_def)
  have len: "len \<le> Suc n" by (simp add: len_def)
  note g = grown_number [OF bs len res_def]
  have exact: "to_int res = - to_int r" if "\<not> h" sg
  proof -
    have "0 < n" "- (2 ^ (n - 1)) \<le> to_int r" "to_int r < 2 ^ (n - 1)" "(2 :: int) ^ n = 2 * 2 ^ (n - 1)"
      using signed_bounds_max [of r r] assms(2) that by (auto simp: h_sg_def n_def)
    moreover have "(0 :: int) < 2 ^ (n - 1)" by simp
    ultimately have "- (2 ^ n) \<le> - to_int r" "- to_int r < 2 ^ n" by linarith+
    then show ?thesis using g(4) that \<open>0 < n\<close> by (simp add: len_def)
  qed
  have "vhas_len res = h" "vhas_sign res = sg" by (simp_all add: res_def)
  then show ?thesis
    using eq g(1-3) exact by (intro exI [of _ res]) (auto simp: h_sg_def len_def n_def)
qed

section \<open>Products\<close>

lemma mul_row_ok:
  assumes "is_defined l" "has_sign_bit l" "list_all Vdef res" "k \<le> length res"
  defines "out \<equiv> mul_row (vbits l) (vext l (vlen l)) k res"
  shows "length out = length res" "list_all Vdef out"
    "ubits (vbools out) = take_bit (length res) (ubits (vbools res) + 2 ^ k * to_int l)"
proof -
  define m where "m = length res - k"
  have pad: "map (\<lambda>i. if i < vlen l then vbits l ! i else vext l (vlen l)) [0..<m] = vext_list l m"
    by (rule map_cong) (auto simp: vext_def)
  obtain zs c where run: "carry_run add_with_carry (vext_list l m) (drop k res) V0 = (zs, c)"
    by fastforce
  have def: "list_all Vdef (vext_list l m)" "list_all Vdef (drop k res)"
    using vext_list_defined assms(1-3) by (auto simp: list_all_iff dest: in_set_dropD)
  have len: "length (vext_list l m) = length (drop k res)" by (simp add: m_def)
  note v = run_value [OF len def _ run]
  have out: "out = take k res @ zs"
    by (simp add: out_def mul_row_def run pad flip: m_def)
  show "length out = length res" "list_all Vdef out"
    using v assms(3,4) by (auto simp: out m_def list_all_iff dest: in_set_takeD)
  define d where "d = ubits (vbools (drop k res))"
  have "ubits (vbools zs) = take_bit m (take_bit m (to_int l) + d)"
    using v(4) assms(2) by (simp add: ubits_vext_list d_def del: map_map)
  then have "ubits (vbools zs) = take_bit m (to_int l + d)"
    by (simp add: take_bit_eq_mod mod_simps)
  then have "ubits (vbools out)
      = take_bit (k + m) (ubits (vbools (take k res)) + 2 ^ k * (to_int l + d))"
    using take_bit_low_high [of "ubits (vbools (take k res))" k m] ubits_less [of "vbools (take k res)"]
      assms(4) by (simp add: out ubits_append min.absorb2)
  also have "ubits (vbools (take k res)) + 2 ^ k * (to_int l + d) = ubits (vbools res) + 2 ^ k * to_int l"
  proof -
    have "ubits (vbools (take k res @ drop k res)) = ubits (vbools (take k res)) + 2 ^ k * d"
      using assms(4) by (simp only: map_append ubits_append d_def) simp
    then show ?thesis by (simp add: algebra_simps)
  qed
  finally show "ubits (vbools out) = take_bit (length res) (ubits (vbools res) + 2 ^ k * to_int l)"
    using assms(4) by (simp add: m_def)
qed

lemma mul_loop_ok:
  assumes "is_defined l" "is_defined r" "has_sign_bit l" "has_sign_bit r" "k \<le> n"
  defines "out \<equiv> mul_loop (vbits l) (vext l (vlen l)) (vbits r) (vext r (vlen r)) k (replicate n V0)"
  shows "length out = n \<and> list_all Vdef out \<and>
    ubits (vbools out) = take_bit n (to_int l * take_bit k (to_int r))"
  using assms(5) unfolding out_def
proof (induction k)
  case 0
  then show ?case by (simp add: map_replicate list_all_iff)
next
  case (Suc k)
  define res where "res = mul_loop (vbits l) (vext l (vlen l)) (vbits r) (vext r (vlen r)) k (replicate n V0)"
  have ih: "length res = n" "list_all Vdef res" "ubits (vbools res) = take_bit n (to_int l * take_bit k (to_int r))"
    using Suc by (simp_all add: res_def)
  have rb: "(if k < vlen r then vbits r ! k else vext r (vlen r)) = vext r k"
    by (simp add: vext_def)
  have step: "mul_loop (vbits l) (vext l (vlen l)) (vbits r) (vext r (vlen r)) (Suc k) (replicate n V0)
      = (if vext r k = V0 then res else mul_row (vbits l) (vext l (vlen l)) k res)"
    by (simp add: res_def rb Let_def)
  have b: "vext r k \<noteq> V0 \<longleftrightarrow> bit (to_int r) k"
    using bit_to_int [OF assms(4), of k] vext_defined [OF assms(2,4), of k] Vdef_cases [of "vext r k"] by auto
  have tk: "take_bit (Suc k) (to_int r) = take_bit k (to_int r) + 2 ^ k * of_bool (bit (to_int r) k)"
    by (simp add: take_bit_Suc_from_most)
  show ?case
  proof (cases "vext r k = V0")
    case True
    then show ?thesis using ih b by (simp only: step tk) simp
  next
    case False
    note row = mul_row_ok [OF assms(1,3) ih(2), of k, unfolded ih(1)]
    have "ubits (vbools (mul_row (vbits l) (vext l (vlen l)) k res))
        = take_bit n (take_bit n (to_int l * take_bit k (to_int r)) + 2 ^ k * to_int l)"
      using row(3) Suc.prems ih(3) by simp
    also have "\<dots> = take_bit n (to_int l * take_bit k (to_int r) + 2 ^ k * to_int l)"
      by (simp add: take_bit_eq_mod mod_simps)
    also have "to_int l * take_bit k (to_int r) + 2 ^ k * to_int l = to_int l * take_bit (Suc k) (to_int r)"
      using False b by (simp add: tk algebra_simps)
    finally show ?thesis using False row(1,2) Suc.prems by (simp only: step if_False)
  qed
qed

text \<open>A product of two readings of the same kind fits the sum of the widths.\<close>

lemma product_bounds:
  assumes "has_sign_bit l" "has_sign_bit r"
  defines "n \<equiv> vlen l + vlen r"
  shows "vhas_sign l \<Longrightarrow> vhas_sign r \<Longrightarrow>
      0 < n \<and> - (2 ^ (n - 1)) \<le> to_int l * to_int r \<and> to_int l * to_int r < 2 ^ (n - 1)"
    and "\<not> vhas_sign l \<Longrightarrow> \<not> vhas_sign r \<Longrightarrow> 0 \<le> to_int l * to_int r \<and> to_int l * to_int r < 2 ^ n"
proof -
  assume s: "vhas_sign l" "vhas_sign r"
  then obtain a b where ab: "vlen l = Suc a" "vlen r = Suc b"
    using assms by (auto simp: has_sign_bit_def) (metis Suc_pred length_greater_0_conv)
  have "\<bar>to_int l\<bar> \<le> 2 ^ a" "\<bar>to_int r\<bar> \<le> 2 ^ b"
    using to_int_signed_range [of l] to_int_signed_range [of r] s ab by (fastforce simp: abs_le_iff)+
  then have "\<bar>to_int l * to_int r\<bar> \<le> 2 ^ a * 2 ^ b"
    unfolding abs_mult by (intro mult_mono) auto
  moreover have "(2 :: int) ^ a * 2 ^ b < 2 ^ (n - 1)" by (simp add: n_def ab flip: power_add)
  ultimately show "0 < n \<and> - (2 ^ (n - 1)) \<le> to_int l * to_int r \<and> to_int l * to_int r < 2 ^ (n - 1)"
    by (auto simp: n_def ab abs_le_iff)
next
  assume u: "\<not> vhas_sign l" "\<not> vhas_sign r"
  note b = to_int_unsigned_range [OF u(1)] to_int_unsigned_range [OF u(2)]
  then have "to_int l * to_int r < 2 ^ vlen l * 2 ^ vlen r" by (intro mult_strict_mono) auto
  then show "0 \<le> to_int l * to_int r \<and> to_int l * to_int r < 2 ^ n"
    using b by (simp add: n_def power_add)
qed

lemma verinum_mul_ok:
  assumes "is_defined l" "is_defined r" "has_sign_bit l" "has_sign_bit r"
  shows "\<exists>res. verinum_mul l r = Some res \<and> is_defined res \<and> has_sign_bit res \<and>
    vhas_len res = (vhas_len l \<and> vhas_len r) \<and> vhas_sign res = (vhas_sign l \<and> vhas_sign r) \<and>
    (vhas_len res \<longrightarrow> vlen res = max (vlen l) (vlen r) \<and>
       uval res = take_bit (vlen res) (to_int l * to_int r)) \<and>
    (\<not> vhas_len res \<longrightarrow> vhas_sign l = vhas_sign r \<longrightarrow> to_int res = to_int l * to_int r)"
proof -
  define h sg where "h = (vhas_len l \<and> vhas_len r)" "sg = (vhas_sign l \<and> vhas_sign r)"
  define n where "n = (if h then max (vlen l) (vlen r) else vlen l + vlen r)"
  define out where "out = mul_loop (vbits l) (vext l (vlen l)) (vbits r) (vext r (vlen r)) n (replicate n V0)"
  define w where "w = (verinum_fill V0 n h)\<lparr>vhas_sign := sg, vbits := out\<rparr>"
  have out: "length out = n" "list_all Vdef out" "ubits (vbools out) = take_bit n (to_int l * to_int r)"
    using mul_loop_ok [OF assms, of n n]
    by (simp_all add: out_def) (simp add: take_bit_eq_mod mod_simps)
  have w: "vbits w = out" "vhas_len w = h" "vhas_sign w = sg" "is_defined w"
    using out(2) by (simp_all add: w_def is_defined_def)
  have uw: "uval w = take_bit (vlen w) (to_int l * to_int r)" using out w(1) by (simp add: uval_def)
  have sw: "has_sign_bit w"
    using assms(3,4) out(1) unfolding has_sign_bit_def w(1,3) h_sg_def(2) n_def
    by (auto simp: max_def split: if_splits)
  have eq: "verinum_mul l r = trim_vnum w"
    unfolding verinum_mul_def Let_def h_sg_def [symmetric] n_def [symmetric]
    using assms by (simp add: sign_bit_eq w_def out_def)
  obtain res where res: "trim_vnum w = Some res" using trim_vnum_ok by blast
  note t = trim_vnum_value [OF res sw] trim_defined [OF res w(4)]
  have exact: "to_int w = to_int l * to_int r" if "\<not> h" "vhas_sign l = vhas_sign r"
  proof (cases sg)
    case True
    then have b: "0 < n" "- (2 ^ (n - 1)) \<le> to_int l * to_int r" "to_int l * to_int r < 2 ^ (n - 1)"
      using product_bounds(1) [OF assms(3,4)] that by (auto simp: n_def h_sg_def(2))
    then show ?thesis
      using True w uw out(1) by (intro to_int_signedI [of w "n - 1"]) auto
  next
    case False
    then have "0 \<le> to_int l * to_int r" "to_int l * to_int r < 2 ^ n"
      using product_bounds(2) [OF assms(3,4)] that by (auto simp: n_def h_sg_def(2))
    then show ?thesis using False w uw out(1) by (intro to_int_unsignedI) auto
  qed
  have sized: "res = w" if h using res w(2) that by simp
  show ?thesis
    using eq res t w exact sized uw out(1) unfolding h_sg_def [symmetric]
    by (intro exI [of _ res]) (auto simp: n_def)
qed

section \<open>Shifts, concatenation, complement\<close>

lemma verinum_shl_ok:
  assumes "has_sign_bit v"
  shows "\<exists>res. verinum_shl v k = Some res \<and> has_sign_bit res \<and>
    vhas_len res = vhas_len v \<and> vhas_sign res = vhas_sign v \<and>
    (is_defined v \<longrightarrow> is_defined res) \<and>
    (vhas_len v \<longrightarrow> vlen res = vlen v \<and> uval res = take_bit (vlen v) (2 ^ k * to_int v)) \<and>
    (\<not> vhas_len v \<longrightarrow> to_int res = 2 ^ k * to_int v)"
proof -
  define n where "n = (if vhas_len v then vlen v else vlen v + k)"
  define out where "out = replicate (min k n) V0 @ take (n - k) (vbits v)"
  define w where "w = (verinum_fill V0 n (vhas_len v))\<lparr>vhas_sign := vhas_sign v, vbits := out\<rparr>"
  have "map (\<lambda>i. vbits v ! i) [0..<n - k] = take (n - k) (vbits v)"
    by (rule nth_equalityI) (auto simp: n_def)
  then have loop: "set_loop verinum_set k (\<lambda>i. vbits v ! i) (n - k)
      ((verinum_fill V0 n (vhas_len v))\<lparr>vhas_sign := vhas_sign v\<rparr>) = Some w"
    by (cases "k \<le> n") (simp_all add: set_loop_verinum w_def out_def min_def verinum_fill_def)
  have eq: "verinum_shl v k = trim_vnum w"
    unfolding verinum_shl_def Let_def n_def [symmetric] by (simp add: loop)
  have len: "length out = n" by (auto simp: out_def n_def)
  have w: "vbits w = out" "vhas_len w = vhas_len v" "vhas_sign w = vhas_sign v"
    "has_sign_bit w"
    using assms len by (auto simp: w_def has_sign_bit_def n_def split: if_splits)
  have nth: "out ! i = (if i < k then V0 else vbits v ! (i - k))" if "i < n" for i
    using that by (auto simp: out_def nth_append n_def min_def)
  have def: "is_defined w" if "is_defined v"
    using that w(1) by (auto simp: is_defined_def list_all_iff out_def dest: in_set_takeD)
  have uw: "uval w = take_bit n (2 ^ k * to_int v)"
    unfolding uval_def w(1)
  proof (rule ubits_eqI)
    fix i assume i: "i < n"
    then show "vbools out ! i = bit (2 ^ k * to_int v) i"
      using nth [OF i] len assms bit_push_bit_iff [of k "to_int v" i]
      by (auto simp: push_bit_eq_mult bit_to_int vext_def n_def mult.commute split: if_splits)
  qed (simp add: len)
  have exact: "to_int w = 2 ^ k * to_int v" if unsized: "\<not> vhas_len v"
  proof (rule bit_eqI)
    fix i
    have "vext w i = (if i < k then V0 else vext v (i - k))"
      using nth [of i] w len assms unsized
      by (auto simp: vext_def has_sign_bit_def n_def out_def nth_append)
    then show "bit (to_int w) i = bit (2 ^ k * to_int v) i"
      using w(4) assms bit_push_bit_iff [of k "to_int v" i]
      by (auto simp: push_bit_eq_mult bit_to_int mult.commute)
  qed
  obtain res where res: "trim_vnum w = Some res" using trim_vnum_ok by blast
  note t = trim_vnum_value [OF res w(4)]
  have "res = w" if "vhas_len v" using res w(2) that by simp
  then show ?thesis
    using eq res t w exact uw def trim_defined [OF res] len
    by (intro exI [of _ res]) (auto simp: n_def)
qed

lemma verinum_shr_ok:
  assumes "has_sign_bit v"
  shows "\<exists>res. verinum_shr v k = Some res \<and> has_sign_bit res \<and>
    vhas_len res = vhas_len v \<and> vhas_sign res = vhas_sign v \<and>
    (is_defined v \<longrightarrow> is_defined res) \<and>
    (vhas_len v \<longrightarrow> vlen res = vlen v) \<and> to_int res = to_int v div 2 ^ k"
proof -
  define sg where "sg = vext v (vlen v)"
  have sgn: "(if vhas_sign v then verinum_top v else Some V0) = Some sg"
    using sign_bit_eq [OF assms] by (simp add: sg_def sign_bit_def)
  define n where "n = (if k \<ge> vlen v then (if vhas_len v then vlen v else 1)
    else if vhas_len v then vlen v else vlen v - k)"
  define out where "out = drop k (vbits v) @ replicate (n - (vlen v - k)) sg"
  define w where "w = (verinum_fill sg n (vhas_len v))\<lparr>vhas_sign := vhas_sign v, vbits := out\<rparr>"
  have len: "length out = n" by (auto simp: out_def n_def)
  have "map (\<lambda>i. vbits v ! (i + k)) [0..<vlen v - k] = drop k (vbits v)"
    by (rule nth_equalityI) (auto simp: add.commute)
  then have loop: "set_loop verinum_set 0 (\<lambda>i. vbits v ! (i + k)) (vlen v - k)
      ((verinum_fill sg n (vhas_len v))\<lparr>vhas_sign := vhas_sign v\<rparr>) = Some w" if "k < vlen v"
    using that by (simp add: set_loop_verinum w_def out_def verinum_fill_def n_def)
  have w: "vbits w = out" "vhas_len w = vhas_len v" "vhas_sign w = vhas_sign v" "has_sign_bit w"
    using assms len by (auto simp: w_def has_sign_bit_def n_def split: if_splits)
  have ext: "vext w i = vext v (i + k)" for i
  proof (cases "out = []")
    case True
    then have "n = 0" using len by simp
    then have "vbits v = []" "\<not> vhas_sign v" using w(3,4) True
      by (auto simp: n_def has_sign_bit_def w(1) split: if_splits)
    then show ?thesis using True w by (simp add: vext_def)
  next
    case False
    have "last out = sg" if "vhas_sign v"
      using False that assms len by (auto simp: out_def sg_def vext_def n_def last_append split: if_splits)
    then show ?thesis
      using w len by (auto simp: vext_def out_def nth_append sg_def n_def add.commute split: if_splits)
  qed
  have tw: "to_int w = to_int v div 2 ^ k"
  proof (rule bit_eqI)
    fix i show "bit (to_int w) i = bit (to_int v div 2 ^ k) i"
      using w(4) assms bit_drop_bit_eq [of k "to_int v"]
      by (simp add: bit_to_int ext drop_bit_eq_div add.commute fun_eq_iff)
  qed
  have def: "is_defined w" if "is_defined v"
    using that w(1) vext_defined [OF that assms, of "vlen v"]
    by (auto simp: is_defined_def list_all_iff out_def sg_def dest: in_set_dropD)
  obtain res where res: "trim_vnum w = Some res" using trim_vnum_ok by blast
  note t = trim_vnum_value [OF res w(4)]
  have r: "verinum_shr v k = Some w" if "k \<ge> vlen v"
    using that sgn by (simp add: verinum_shr_def w_def out_def n_def verinum_fill_def)
  have r': "verinum_shr v k = Some res" if "k < vlen v"
    using that sgn loop res by (simp add: verinum_shr_def n_def)
  have "res = w" if "vhas_len v" using res w(2) that by simp
  then show ?thesis
    using r r' t w tw def trim_defined [OF res] len
    by (cases "k \<ge> vlen v") (auto simp: n_def)
qed

section \<open>Complement and concatenation\<close>

lemma verinum_not_value:
  assumes "is_defined v"
  shows "is_defined (verinum_not v)" "uval (verinum_not v) = take_bit (vlen v) (NOT (to_int v))"
    and "vhas_sign v \<Longrightarrow> vbits v \<noteq> [] \<Longrightarrow> to_int (verinum_not v) = NOT (to_int v)"
proof -
  let ?c = "\<lambda>b. case b of V0 \<Rightarrow> V1 | V1 \<Rightarrow> V0 | _ \<Rightarrow> Vx"
  have c: "Vdef (?c b)" "?c b = V1 \<longleftrightarrow> b \<noteq> V1" if "Vdef b" for b
    using that by (cases b; simp)+
  have d: "Vdef (vbits v ! i)" if "i < vlen v" for i
    using assms that by (auto simp: is_defined_def list_all_length)
  show "is_defined (verinum_not v)" using c(1) d by (simp add: verinum_not_def is_defined_def list_all_length)
  have bit: "bit (to_int v) i \<longleftrightarrow> vbits v ! i = V1" if "i < vlen v" for i
    using that bit_to_int [of v i] by (cases "vbits v = []") (auto simp: vext_def has_sign_bit_def)
  show u: "uval (verinum_not v) = take_bit (vlen v) (NOT (to_int v))"
    unfolding uval_def by (rule ubits_eqI) (use c(2) d bit in \<open>auto simp: verinum_not_def bit_not_iff\<close>)
  assume s: "vhas_sign v" "vbits v \<noteq> []"
  then show "to_int (verinum_not v) = NOT (to_int v)"
    using to_int_signed_range [OF s] u
    by (intro to_int_signedI [of _ "vlen v - 1"]) (auto simp: verinum_not_def not_int_def)
qed

lemma verinum_concat_bits:
  assumes "\<not> (vstring_flag l \<and> vstring_flag r)"
  shows "\<exists>res. verinum_concat l r = Some res \<and> vbits res = vbits r @ vbits l \<and> vhas_len res \<and> \<not> vhas_sign res"
  using assms by (auto simp: verinum_concat_def set_loop_verinum map_nth_vbits replicate_add)

end
