(* ===== verification/Verinum_Compare.thy ===== *)
theory Verinum_Compare
  imports Verinum_Convert
begin

text \<open>
  The relational operators of \<open>verinum\<close> (verinum.cc, verinum.h) and the sorting order \<open>is_before\<close>.
  Two signed numbers compare by their signed readings, any other pair by the unsigned readings of
  the stored bits. The lemmas show that the bit loops decide the comparison of these readings.
\<close>

section \<open>Operators\<close>

definition eq_loop :: "V list \<Rightarrow> V list \<Rightarrow> V \<Rightarrow> V \<Rightarrow> V" where
  "eq_loop l r left_pad right_pad =
     (if list_all (\<lambda>idx. (if idx < length l then l ! idx else left_pad)
            = (if idx < length r then r ! idx else right_pad)) [0..<max (length l) (length r)]
      then V1 else V0)"

definition verinum_eq :: "verinum \<Rightarrow> verinum \<Rightarrow> V option" where
  "verinum_eq left right =
     (if vhas_sign left \<and> vhas_sign right
      then do {
        left_pad \<leftarrow> verinum_top left;
        right_pad \<leftarrow> verinum_top right;
        if left_pad = V1 \<and> right_pad = V0 then Some V0
        else if left_pad = V0 \<and> right_pad = V1 then Some V0
        else Some (eq_loop (vbits left) (vbits right) left_pad right_pad)
      }
      else Some (eq_loop (vbits left) (vbits right) V0 V0))"

text \<open>\<open>operator !=\<close> uses the result of \<open>==\<close> as a C++ condition, where only \<open>V0\<close> is false.\<close>

definition verinum_ne :: "verinum \<Rightarrow> verinum \<Rightarrow> V option" where
  "verinum_ne left right = map_option (\<lambda>e. if e \<noteq> V0 then V0 else V1) (verinum_eq left right)"

text \<open>The last loop of \<open>operator <=\<close> and \<open>operator <\<close>, over the bits that both operands have.\<close>

fun cmp_low :: "V list \<Rightarrow> V list \<Rightarrow> nat \<Rightarrow> V \<Rightarrow> V" where
  "cmp_low l r 0 val_if_equal = val_if_equal"
| "cmp_low l r (Suc idx) val_if_equal =
     (if l ! idx = Vx then Vx
      else if l ! idx = Vz then Vx
      else if r ! idx = Vx then Vx
      else if r ! idx = Vz then Vx
      else if l ! idx > r ! idx then V0
      else if l ! idx < r ! idx then V1
      else cmp_low l r idx val_if_equal)"

text \<open>
  The body after the sign test: the high bits of the longer operand against the padding of the
  shorter one, then the common bits.
\<close>

definition cmp_tail :: "V list \<Rightarrow> V list \<Rightarrow> V \<Rightarrow> V \<Rightarrow> bool \<Rightarrow> V \<Rightarrow> V" where
  "cmp_tail l r left_pad right_pad signed_calc val_if_equal =
     (if list_ex (\<lambda>b. b \<noteq> right_pad) (drop (length r) l)
        then (if signed_calc \<and> left_pad = V1 then V1 else V0)
      else if list_ex (\<lambda>b. b \<noteq> left_pad) (drop (length l) r)
        then (if signed_calc \<and> right_pad = V1 then V0 else V1)
      else cmp_low l r (min (length l) (length r)) val_if_equal)"

definition verinum_cmp :: "V \<Rightarrow> verinum \<Rightarrow> verinum \<Rightarrow> V option" where
  "verinum_cmp val_if_equal left right =
     (if vhas_sign left \<and> vhas_sign right
      then do {
        left_pad \<leftarrow> verinum_top left;
        right_pad \<leftarrow> verinum_top right;
        if left_pad = V1 \<and> right_pad = V0 then Some V1
        else if left_pad = V0 \<and> right_pad = V1 then Some V0
        else Some (cmp_tail (vbits left) (vbits right) left_pad right_pad True val_if_equal)
      }
      else Some (cmp_tail (vbits left) (vbits right) V0 V0 False val_if_equal))"

definition verinum_le :: "verinum \<Rightarrow> verinum \<Rightarrow> V option" where
  "verinum_le left right = verinum_cmp V1 left right"

definition verinum_lt :: "verinum \<Rightarrow> verinum \<Rightarrow> V option" where
  "verinum_lt left right = verinum_cmp V0 left right"

definition verinum_gt :: "verinum \<Rightarrow> verinum \<Rightarrow> V option" where
  "verinum_gt left right = verinum_lt right left"

definition verinum_ge :: "verinum \<Rightarrow> verinum \<Rightarrow> V option" where
  "verinum_ge left right = verinum_le right left"

text \<open>The reading that the relational operators use (specification).\<close>

definition cmp_int :: "verinum \<Rightarrow> verinum \<Rightarrow> verinum \<Rightarrow> int" where
  "cmp_int l r v = (if vhas_sign l \<and> vhas_sign r then to_int v else uval v)"

section \<open>Lemmas\<close>

lemma ubits_append_less:
  assumes "length a = length b"
  shows "ubits (a @ h) < ubits (b @ k) \<longleftrightarrow> ubits h < ubits k \<or> ubits h = ubits k \<and> ubits a < ubits b"
proof -
  have b: "ubits a < 2 ^ length a" "ubits b < 2 ^ length a"
    using ubits_less [of a] ubits_less [of b] assms by auto
  consider "ubits h < ubits k" | "ubits h = ubits k" | "ubits k < ubits h" by fastforce
  then show ?thesis
  proof cases
    case 1
    then have "2 ^ length a * (ubits h + 1) \<le> 2 ^ length a * ubits k" by (intro mult_left_mono) auto
    then have "ubits (a @ h) < ubits (b @ k)"
      using b(1) ubits_nonneg [of b] assms by (simp add: ubits_append algebra_simps del: ubits_nonneg ubits_less)
    with 1 show ?thesis by simp
  next
    case 3
    then have "2 ^ length a * (ubits k + 1) \<le> 2 ^ length a * ubits h" by (intro mult_left_mono) auto
    then have "\<not> ubits (a @ h) < ubits (b @ k)"
      using b(2) ubits_nonneg [of a] assms by (simp add: ubits_append algebra_simps del: ubits_nonneg ubits_less)
    with 3 show ?thesis by simp
  qed (simp add: ubits_append assms)
qed

lemma cmp_low_value:
  assumes "list_all Vdef l" "list_all Vdef r" "n \<le> length l" "n \<le> length r"
  shows "cmp_low l r n e =
    (if ubits (vbools (take n l)) < ubits (vbools (take n r)) then V1
     else if ubits (vbools (take n r)) < ubits (vbools (take n l)) then V0 else e)"
  using assms(3,4)
proof (induction n)
  case (Suc n)
  have t: "take (Suc n) l = take n l @ [l ! n]" "take (Suc n) r = take n r @ [r ! n]"
    using Suc.prems by (auto simp: take_Suc_conv_app_nth)
  have len: "length (vbools (take n l)) = length (vbools (take n r))" using Suc.prems by simp
  have d: "Vdef (l ! n)" "Vdef (r ! n)" using assms(1,2) Suc.prems by (auto simp: list_all_length)
  have less: "ubits (vbools (take (Suc n) l)) < ubits (vbools (take (Suc n) r)) \<longleftrightarrow>
      l ! n \<noteq> V1 \<and> r ! n = V1 \<or> (l ! n = V1) = (r ! n = V1) \<and>
        ubits (vbools (take n l)) < ubits (vbools (take n r))"
    unfolding t map_append ubits_append_less [OF len] by auto
  have greater: "ubits (vbools (take (Suc n) r)) < ubits (vbools (take (Suc n) l)) \<longleftrightarrow>
      r ! n \<noteq> V1 \<and> l ! n = V1 \<or> (l ! n = V1) = (r ! n = V1) \<and>
        ubits (vbools (take n r)) < ubits (vbools (take n l))"
    unfolding t map_append ubits_append_less [OF len [symmetric]] by auto
  show ?case
    unfolding less greater using d Suc Vdef_cases [of "l ! n"] Vdef_cases [of "r ! n"]
    by (auto simp: less_V_def)
qed simp

lemma ubits_replicate_True: "ubits (replicate n True) = 2 ^ n - 1"
  by (induction n) simp_all

lemma ubits_not_replicate:
  assumes "length h = n" "h \<noteq> replicate n p"
  shows "if p then ubits h < ubits (replicate n p) else ubits (replicate n p) < ubits h"
proof -
  have ne: "ubits h \<noteq> ubits (replicate n p)" using assms by (simp add: ubits_eq_iff)
  show ?thesis
  proof (cases p)
    case True
    have "ubits h \<le> 2 ^ n - 1" using ubits_less [of h] assms(1) by auto
    with True ne show ?thesis by (simp add: ubits_replicate_True)
  next
    case False
    with ne show ?thesis by (simp add: order_less_le)
  qed
qed

text \<open>The tail decides the order of the two numbers extended with a common padding bit.\<close>

lemma cmp_tail_value:
  assumes "list_all Vdef l" "list_all Vdef r" "Vdef p"
  defines "n \<equiv> max (length l) (length r)"
  defines "x \<equiv> ubits (vbools (l @ replicate (n - length l) p))"
    and "y \<equiv> ubits (vbools (r @ replicate (n - length r) p))"
  assumes sc: "p = V1 \<longrightarrow> sc"
  shows "cmp_tail l r p p sc e = (if x < y then V1 else if y < x then V0 else e)"
proof -
  define m where "m = min (length l) (length r)"
  define hl hr where "hl = drop m l @ replicate (n - length l) p" "hr = drop m r @ replicate (n - length r) p"
  have split: "l @ replicate (n - length l) p = take m l @ hl" "r @ replicate (n - length r) p = take m r @ hr"
    by (simp_all add: hl_hr_def)
  have len: "length (vbools (take m l)) = length (vbools (take m r))" by (simp add: m_def)
  have cmp: "x < y \<longleftrightarrow> ubits (vbools hl) < ubits (vbools hr) \<or>
      ubits (vbools hl) = ubits (vbools hr) \<and> ubits (vbools (take m l)) < ubits (vbools (take m r))"
    "y < x \<longleftrightarrow> ubits (vbools hr) < ubits (vbools hl) \<or>
      ubits (vbools hl) = ubits (vbools hr) \<and> ubits (vbools (take m r)) < ubits (vbools (take m l))"
    unfolding x_def y_def split map_append ubits_append_less [OF len] ubits_append_less [OF len [symmetric]]
    by auto
  have vb: "vbools h = replicate (length h) (p = V1) \<longleftrightarrow> list_all (\<lambda>b. b = p) h"
    if "list_all Vdef h" for h
  proof -
    have "(b = V1) = (p = V1) \<longleftrightarrow> b = p" if "Vdef b" for b
      using that assms(3) Vdef_cases [of b] Vdef_cases [of p] by auto
    with that show ?thesis by (induction h) auto
  qed
  have rep: "vbools (replicate k p) = replicate k (p = V1)" for k by (simp add: map_replicate)
  have low: "cmp_low l r m e = (if ubits (vbools (take m l)) < ubits (vbools (take m r)) then V1
      else if ubits (vbools (take m r)) < ubits (vbools (take m l)) then V0 else e)"
    using assms(1,2) by (intro cmp_low_value) (auto simp: m_def)
  have dd: "list_all Vdef (drop m l)" "list_all Vdef (drop m r)"
    using assms(1,2) by (auto simp: list_all_iff dest: in_set_dropD)
  have ex: "list_ex (\<lambda>b. b \<noteq> p) h \<longleftrightarrow> \<not> list_all (\<lambda>b. b = p) h" for h
    by (simp add: list_all_iff list_ex_iff)
  show ?thesis
  proof (cases "length r \<le> length l")
    case True
    then have e: "m = length r" "n = length l" by (auto simp: m_def n_def)
    then have h: "hl = drop m l" "hr = replicate (length (drop m l)) p" "drop (length l) r = []"
      using True by (simp_all add: hl_hr_def)
    show ?thesis
    proof (cases "list_all (\<lambda>b. b = p) (drop m l)")
      case True
      then have "vbools hl = vbools hr" using vb [OF dd(1)] by (simp add: h rep)
      then show ?thesis using True h(3) low cmp by (simp add: cmp_tail_def ex e(1) flip: m_def)
    next
      case False
      then have "if p = V1 then ubits (vbools hl) < ubits (vbools hr) else ubits (vbools hr) < ubits (vbools hl)"
        unfolding h rep using vb [OF dd(1)] by (intro ubits_not_replicate) simp_all
      then show ?thesis using False sc cmp Vdef_cases [OF assms(3)] by (auto simp: cmp_tail_def ex e(1))
    qed
  next
    case False
    then have e: "m = length l" "n = length r" by (auto simp: m_def n_def)
    then have h: "hr = drop m r" "hl = replicate (length (drop m r)) p" "drop (length r) l = []"
      using False by (simp_all add: hl_hr_def)
    show ?thesis
    proof (cases "list_all (\<lambda>b. b = p) (drop m r)")
      case True
      then have "vbools hl = vbools hr" using vb [OF dd(2)] by (simp add: h rep)
      then show ?thesis using True h(3) low cmp by (simp add: cmp_tail_def ex e(1) flip: m_def)
    next
      case nall: False
      then have "if p = V1 then ubits (vbools hr) < ubits (vbools hl) else ubits (vbools hl) < ubits (vbools hr)"
        unfolding h rep using vb [OF dd(2)] by (intro ubits_not_replicate) simp_all
      then show ?thesis using nall h(3) sc cmp Vdef_cases [OF assms(3)] by (auto simp: cmp_tail_def ex e(1))
    qed
  qed
qed

lemma vext_list_pad_eq:
  "vlen v \<le> n \<Longrightarrow> vbits v @ replicate (n - vlen v) (vext v (vlen v)) = vext_list v n"
  by (simp add: vext_list_pad)

lemma take_bit_less_same_sign:
  assumes "- (2 ^ n) \<le> x" "x < 2 ^ n" "- (2 ^ n) \<le> y" "y < 2 ^ n" "x < 0 \<longleftrightarrow> y < (0 :: int)"
  shows "take_bit n x < take_bit n y \<longleftrightarrow> x < y"
proof -
  have t: "take_bit n z = (if z < 0 then z + 2 ^ n else z)" if "- (2 ^ n) \<le> z" "z < 2 ^ n" for z :: int
  proof (cases "z < 0")
    case True
    have "take_bit n z = take_bit n (z + 2 ^ n)" by (simp add: take_bit_eq_mod)
    also have "\<dots> = z + 2 ^ n" using that True by (intro take_bit_int_eq_self) auto
    finally show ?thesis using True by simp
  qed (use that in \<open>simp add: take_bit_int_eq_self\<close>)
  show ?thesis using assms t [of x] t [of y] by auto
qed

lemma verinum_cmp_value:
  assumes "is_defined l" "is_defined r" "vhas_sign l \<and> vhas_sign r \<longrightarrow> vbits l \<noteq> [] \<and> vbits r \<noteq> []"
  shows "verinum_cmp e l r = Some (if cmp_int l r l < cmp_int l r r then V1
    else if cmp_int l r r < cmp_int l r l then V0 else e)"
proof (cases "vhas_sign l \<and> vhas_sign r")
  case False
  have pad: "ubits (vbools (vbits v @ replicate k V0)) = uval v" for v k
    by (simp add: uval_def ubits_append map_replicate)
  show ?thesis
    using False assms(1,2) cmp_tail_value [of "vbits l" "vbits r" V0 False e]
    by (auto simp: verinum_cmp_def cmp_int_def is_defined_def pad simp del: map_append)
next
  case True
  then have ne: "vbits l \<noteq> []" "vbits r \<noteq> []" and sb: "has_sign_bit l" "has_sign_bit r"
    using assms(3) by (auto simp: has_sign_bit_def)
  have sgn: "vext v (vlen v) = last (vbits v)" "to_int v < 0 \<longleftrightarrow> last (vbits v) = V1"
    if "vhas_sign v" "vbits v \<noteq> []" for v
    using that is_negative_to_int [of v] by (auto simp: vext_def is_negative_def verinum_top_eq)
  note sl = sgn [OF conjunct1 [OF True] ne(1)] and sr = sgn [OF conjunct2 [OF True] ne(2)]
  have d: "Vdef (last (vbits l))" "Vdef (last (vbits r))"
    using assms(1,2) ne by (auto simp: is_defined_def list_all_iff)
  show ?thesis
  proof (cases "last (vbits l) = last (vbits r)")
    case False
    then show ?thesis
      using True ne d sl sr Vdef_cases [OF d(1)] Vdef_cases [OF d(2)]
      by (auto simp: verinum_cmp_def verinum_top_eq cmp_int_def)
  next
    case same: True
    define n where "n = max (vlen l) (vlen r)"
    have ext: "ubits (vbools (vbits v @ replicate (n - vlen v) (last (vbits l)))) = take_bit n (to_int v)"
      if "v = l \<or> v = r" for v
      using that vext_list_pad_eq [of l n] vext_list_pad_eq [of r n] ubits_vext_list [of _ n] sb sl(1) sr(1) same
      by (auto simp: n_def simp del: map_append map_map)
    have p: "(2 :: int) ^ vlen l \<le> 2 ^ n" "(2 :: int) ^ vlen r \<le> 2 ^ n"
      by (auto simp: n_def intro!: power_increasing)
    have b: "- (2 ^ n) \<le> to_int l" "to_int l < 2 ^ n" "- (2 ^ n) \<le> to_int r" "to_int r < 2 ^ n"
      using p to_int_bounds [OF sb(1)] to_int_bounds [OF sb(2)] by linarith+
    have ord: "take_bit n (to_int l) < take_bit n (to_int r) \<longleftrightarrow> to_int l < to_int r"
      "take_bit n (to_int r) < take_bit n (to_int l) \<longleftrightarrow> to_int r < to_int l"
      using take_bit_less_same_sign [OF b(1,2,3,4)] take_bit_less_same_sign [OF b(3,4,1,2)] sl(2) sr(2) same
      by simp_all
    have "cmp_tail (vbits l) (vbits r) (last (vbits l)) (last (vbits l)) True e
        = (if to_int l < to_int r then V1 else if to_int r < to_int l then V0 else e)"
      using assms(1,2)
      by (subst cmp_tail_value [OF _ _ d(1)], simp add: is_defined_def, simp add: is_defined_def, simp)
        (simp only: ext ord simp_thms flip: n_def)
    then show ?thesis
      using True ne same by (auto simp add: verinum_cmp_def verinum_top_eq cmp_int_def)
  qed
qed


section \<open>Equality\<close>

lemma eq_loop_list:
  "eq_loop l r p q = (if l @ replicate (length r - length l) p = r @ replicate (length l - length r) q
     then V1 else V0)"
proof -
  have nth: "(xs @ replicate (length ys - length xs) a) ! i = (if i < length xs then xs ! i else a)"
    if "i < max (length xs) (length ys)" for xs ys :: "V list" and a i
    using that by (auto simp: nth_append)
  have "l @ replicate (length r - length l) p = r @ replicate (length l - length r) q \<longleftrightarrow>
    (\<forall>i < max (length l) (length r). (if i < length l then l ! i else p) = (if i < length r then r ! i else q))"
    using nth [of _ l r p] nth [of _ r l q] by (auto simp: list_eq_iff_nth_eq max_def max.commute)
  then show ?thesis by (simp add: eq_loop_def list_all_iff)
qed

lemma vbools_inj:
  "list_all Vdef xs \<Longrightarrow> list_all Vdef ys \<Longrightarrow> vbools xs = vbools ys \<longleftrightarrow> xs = ys"
proof (induction xs arbitrary: ys)
  case (Cons x xs)
  then show ?case using Vdef_cases [of x] Vdef_cases [of "hd ys"] by (cases ys) auto
qed auto

lemma verinum_eq_value:
  assumes "is_defined l" "is_defined r" "vhas_sign l \<and> vhas_sign r \<longrightarrow> vbits l \<noteq> [] \<and> vbits r \<noteq> []"
  shows "verinum_eq l r = Some (if cmp_int l r l = cmp_int l r r then V1 else V0)"
proof -
  define n where "n = max (vlen l) (vlen r)"
  have n: "vlen r - vlen l = n - vlen l" "vlen l - vlen r = n - vlen r" by (auto simp: n_def)
  have d: "list_all Vdef (vbits l)" "list_all Vdef (vbits r)" using assms(1,2) by (auto simp: is_defined_def)
  have main: "eq_loop (vbits l) (vbits r) p q = (if x = y then V1 else V0)"
    if pq: "Vdef p" "Vdef q" and x: "ubits (vbools (vbits l @ replicate (n - vlen l) p)) = x"
      and y: "ubits (vbools (vbits r @ replicate (n - vlen r) q)) = y" for p q x y
  proof -
    let ?L = "vbits l @ replicate (n - vlen l) p" and ?R = "vbits r @ replicate (n - vlen r) q"
    have "ubits (vbools ?L) = ubits (vbools ?R) \<longleftrightarrow> vbools ?L = vbools ?R"
      by (rule ubits_eq_iff) (auto simp: n_def)
    also have "\<dots> \<longleftrightarrow> ?L = ?R" using d pq by (intro vbools_inj) (auto simp: list_all_iff)
    finally show ?thesis using x y by (simp add: eq_loop_list n)
  qed
  show ?thesis
  proof (cases "vhas_sign l \<and> vhas_sign r")
    case False
    have pad: "ubits (vbools (vbits v @ replicate k V0)) = uval v" for v k
      by (simp add: uval_def ubits_append map_replicate)
    show ?thesis using False main [OF _ _ pad pad] by (auto simp: verinum_eq_def cmp_int_def)
  next
    case True
    then have ne: "vbits l \<noteq> []" "vbits r \<noteq> []" and sb: "has_sign_bit l" "has_sign_bit r"
      using assms(3) by (auto simp: has_sign_bit_def)
    have ext: "ubits (vbools (vbits v @ replicate (n - vlen v) (last (vbits v)))) = take_bit n (to_int v)"
      if "vhas_sign v" "vbits v \<noteq> []" "vlen v \<le> n" for v
      using that vext_list_pad_eq [of v n] ubits_vext_list [of v n]
      by (simp add: vext_def has_sign_bit_def del: map_append map_map)
    have dl: "Vdef (last (vbits l))" "Vdef (last (vbits r))"
      using assms(1,2) ne by (auto simp: is_defined_def list_all_iff)
    have sgn: "to_int v < 0 \<longleftrightarrow> last (vbits v) = V1" if "vhas_sign v" "vbits v \<noteq> []" for v
      using that is_negative_to_int [of v] by (auto simp: is_negative_def verinum_top_eq)
    have b: "- (2 ^ n) \<le> to_int v \<and> to_int v < 2 ^ n" if "has_sign_bit v" "vlen v \<le> n" for v
    proof -
      have "(2 :: int) ^ vlen v \<le> 2 ^ n" using that by (intro power_increasing) auto
      then show ?thesis using to_int_bounds [OF that(1)] by linarith
    qed
    have le: "vlen l \<le> n" "vlen r \<le> n" by (auto simp: n_def)
    have same: "take_bit n (to_int l) = take_bit n (to_int r) \<longleftrightarrow> to_int l = to_int r"
      if "to_int l < 0 \<longleftrightarrow> to_int r < 0"
      using take_bit_less_same_sign [of n "to_int l" "to_int r"]
        take_bit_less_same_sign [of n "to_int r" "to_int l"] b [OF sb(1) le(1)] b [OF sb(2) le(2)] that
      by (metis linorder_less_linear order_less_irrefl)
    have loop: "eq_loop (vbits l) (vbits r) (last (vbits l)) (last (vbits r))
        = (if take_bit n (to_int l) = take_bit n (to_int r) then V1 else V0)"
      using main [OF dl ext ext] True ne le by blast
    show ?thesis
      using True ne loop same sgn [of l] sgn [of r] Vdef_cases [OF dl(1)] Vdef_cases [OF dl(2)]
      by (auto simp: verinum_eq_def verinum_top_eq cmp_int_def)
  qed
qed

section \<open>The sorting order\<close>

text \<open>
  \<open>is_before\<close> compares by width and then by the bits from the top down: it is the strict
  lexicographic order of the reversed bit lists.
\<close>

lemma is_before_loop_irrefl: "\<not> is_before_loop l l n"
  by (induction n) auto

lemma is_before_loop_trans:
  "is_before_loop a b n \<Longrightarrow> is_before_loop b c n \<Longrightarrow> is_before_loop a c n"
proof (induction n)
  case (Suc n)
  then show ?case by (auto split: if_splits)
qed simp

lemma is_before_loop_total:
  "is_before_loop a b n \<or> is_before_loop b a n \<or> (\<forall>i < n. a ! i = b ! i)"
  by (induction n) (auto simp: less_Suc_eq)

lemma is_before_irrefl: "\<not> is_before v v"
  by (simp add: is_before_def is_before_loop_irrefl)

lemma is_before_trans: "is_before u v \<Longrightarrow> is_before v w \<Longrightarrow> is_before u w"
  by (auto simp: is_before_def split: if_splits intro: is_before_loop_trans)

lemma is_before_total: "is_before v w \<or> is_before w v \<or> vbits v = vbits w"
  using is_before_loop_total [of "vbits v" "vbits w" "vlen v"]
  by (auto simp: is_before_def list_eq_iff_nth_eq)

end
