(* ===== verification/Verinum_Div.thy ===== *)
theory Verinum_Div
  imports Verinum_Arith Verinum_Compare
begin

text \<open>
  Division, modulus and power of \<open>verinum\<close> (verinum.cc). Narrow operands are divided by the native
  integers, wide ones by a restoring shift-and-subtract loop; both are shown to compute the
  truncating quotient and remainder. The power is square-and-multiply.
\<close>

section \<open>Division and modulus\<close>

text \<open>
  A \<open>V\<close> used as a C++ condition is true unless it is \<open>V0\<close>. The loop counter \<open>idx\<close> is the
  structural argument.
\<close>

primrec divide_loop :: "nat \<Rightarrow> verinum \<Rightarrow> verinum \<Rightarrow> verinum \<Rightarrow> verinum option" where
  "divide_loop 0 num den result = Some result"
| "divide_loop (Suc idx) num den result =
     do {
       c \<leftarrow> verinum_le den num;
       (num, result) \<leftarrow>
         (if c \<noteq> V0
          then do {
            dif \<leftarrow> verinum_sub num den;
            result \<leftarrow> verinum_set result idx V1;
            Some (dif, result)
          }
          else Some (num, result));
       den \<leftarrow> verinum_shr den 1;
       divide_loop idx num den result
     }"

primrec modulus_loop :: "nat \<Rightarrow> verinum \<Rightarrow> verinum \<Rightarrow> verinum option" where
  "modulus_loop 0 num den = Some num"
| "modulus_loop (Suc idx) num den =
     do {
       c \<leftarrow> verinum_le den num;
       num \<leftarrow> (if c \<noteq> V0 then verinum_sub num den else Some num);
       den \<leftarrow> verinum_shr den 1;
       modulus_loop idx num den
     }"

text \<open>\<open>while (wid > 0 && v.get(wid-1) == V0) wid -= 1\<close>\<close>

definition used_width :: "verinum \<Rightarrow> nat" where
  "used_width v = scan_down (\<lambda>wid. vbits v ! (wid - 1) = V0) (vlen v)"

definition unsigned_divide :: "verinum \<Rightarrow> verinum \<Rightarrow> bool \<Rightarrow> verinum option" where
  "unsigned_divide num den signed_result =
     (let num = num\<lparr>vhas_len := False\<rparr>;
          den = den\<lparr>vhas_len := False\<rparr>;
          nwid = used_width num;
          dwid = used_width den
      in if dwid > nwid then Some (verinum_fill V0 1 True)
      else do {
        den \<leftarrow> verinum_shl den (nwid - dwid);
        let idx = nwid - dwid + 1;
        let result = verinum_fill V0 (if signed_result then idx + 1 else idx) True;
        result \<leftarrow>
          (if signed_result
           then map_option (\<lambda>r. r\<lparr>vhas_sign := True\<rparr>) (verinum_set result idx V0)
           else Some result);
        divide_loop idx num den result
      })"

definition unsigned_modulus :: "verinum \<Rightarrow> verinum \<Rightarrow> verinum option" where
  "unsigned_modulus num den =
     (let num = num\<lparr>vhas_len := False\<rparr>;
          den = den\<lparr>vhas_len := False\<rparr>;
          nwid = used_width num;
          dwid = used_width den
      in if dwid > nwid then Some num
      else do {
        den \<leftarrow> verinum_shl den (nwid - dwid);
        modulus_loop (nwid - dwid + 1) num den
      })"

text \<open>\<open>use_left\<close> and \<open>use_right\<close>: the magnitude of a signed operand, and whether it was negated.\<close>

definition use_magnitude :: "verinum \<Rightarrow> (verinum \<times> bool) option" where
  "use_magnitude v =
     do {
       neg \<leftarrow> is_negative v;
       m \<leftarrow> (if neg then verinum_neg v else Some v);
       Some (m\<lparr>vhas_sign := False\<rparr>, neg)
     }"

text \<open>
  The native quotients. A \<open>long\<close> is given by its value; dividing by a native zero traps.
\<close>

abbreviation LONG_MIN :: int where "LONG_MIN \<equiv> - (2 ^ 63)"

definition long_div :: "int \<Rightarrow> int \<Rightarrow> int option" where
  "long_div l r =
     (let overflow = (l = LONG_MIN \<and> r = - 1)
      in if overflow then Some LONG_MIN else if r = 0 then None else Some (l sdiv r))"

definition long_mod :: "int \<Rightarrow> int \<Rightarrow> int option" where
  "long_mod l r =
     (let overflow = (l = LONG_MIN \<and> r = - 1)
      in if overflow then Some 0 else if r = 0 then None else Some (l smod r))"

text \<open>
  The signed and the unsigned arm of \<open>operator /\<close> and of \<open>operator %\<close>, on defined operands and a
  divisor that is not zero; \<open>result\<close> is the number the native loops overwrite.
\<close>

definition divide_signed :: "verinum \<Rightarrow> verinum \<Rightarrow> verinum \<Rightarrow> verinum option" where
  "divide_signed result left right =
     (if vlen left \<le> 63
      then do {
        v \<leftarrow> long_div (sint (as_long left)) (sint (as_long right));
        Some (result\<lparr>vbits := uint64_bits (vlen left) (word_of_int v)\<rparr>)
      }
      else do {
        (use_left, nl) \<leftarrow> use_magnitude left;
        (use_right, nr) \<leftarrow> use_magnitude right;
        result \<leftarrow> unsigned_divide use_left use_right True;
        if nl \<noteq> nr then verinum_neg result else Some result
      })"

definition divide_unsigned :: "verinum \<Rightarrow> verinum \<Rightarrow> verinum \<Rightarrow> verinum option" where
  "divide_unsigned result left right =
     (if vlen left \<le> 64
      then do {
        let l = as_ulong left;
        let r = as_ulong right;
        if r = 0 then None else Some (result\<lparr>vbits := uint64_bits (vlen left) (l div r)\<rparr>)
      }
      else unsigned_divide left right False)"

definition modulus_signed :: "verinum \<Rightarrow> verinum \<Rightarrow> verinum \<Rightarrow> verinum option" where
  "modulus_signed result left right =
     (if vlen left \<le> 64
      then do {
        v \<leftarrow> long_mod (sint (as_long left)) (sint (as_long right));
        Some (result\<lparr>vbits := int64_bits (vlen left) v\<rparr>)
      }
      else do {
        (use_left, negative) \<leftarrow> use_magnitude left;
        (use_right, _) \<leftarrow> use_magnitude right;
        result \<leftarrow> unsigned_modulus use_left use_right;
        if negative then verinum_neg result else Some result
      })"

definition modulus_unsigned :: "verinum \<Rightarrow> verinum \<Rightarrow> verinum \<Rightarrow> verinum option" where
  "modulus_unsigned result left right =
     (if vlen left \<le> 64
      then do {
        let l = as_ulong left;
        let r = as_ulong right;
        if r = 0 then None else Some (result\<lparr>vbits := uint64_bits (vlen left) (l mod r)\<rparr>)
      }
      else unsigned_modulus left right)"

definition verinum_div :: "verinum \<Rightarrow> verinum \<Rightarrow> verinum option" where
  "verinum_div left right =
     (let has_len_flag = vhas_len left \<and> vhas_len right;
          signed_flag = vhas_sign left \<and> vhas_sign right;
          use_len = vlen left
      in if \<not> is_defined left \<or> \<not> is_defined right \<or> is_zero right
      then Some ((verinum_fill Vx use_len has_len_flag)\<lparr>vhas_sign := signed_flag\<rparr>)
      else do {
        let result = verinum_fill Vz use_len has_len_flag;
        result \<leftarrow> (if signed_flag then divide_signed result left right
                   else divide_unsigned result left right);
        result \<leftarrow> (if has_len_flag then cast_to_width result use_len else Some result);
        trim_vnum (result\<lparr>vhas_sign := signed_flag\<rparr>)
      })"

definition verinum_mod :: "verinum \<Rightarrow> verinum \<Rightarrow> verinum option" where
  "verinum_mod left right =
     (let has_len_flag = vhas_len left \<and> vhas_len right;
          signed_flag = vhas_sign left \<and> vhas_sign right;
          use_len = vlen left
      in if \<not> is_defined left \<or> \<not> is_defined right \<or> is_zero right
      then Some ((verinum_fill Vx use_len has_len_flag)\<lparr>vhas_sign := signed_flag\<rparr>)
      else do {
        let result = verinum_fill Vz use_len has_len_flag;
        result \<leftarrow> (if signed_flag then modulus_signed result left right
                   else modulus_unsigned result left right);
        result \<leftarrow> (if has_len_flag then cast_to_width result use_len else Some result);
        trim_vnum (result\<lparr>vhas_sign := signed_flag\<rparr>)
      })"

section \<open>The shift-and-subtract loops\<close>

lemma ubits_set_True:
  "i < length bs \<Longrightarrow> \<not> bs ! i \<Longrightarrow> ubits (bs[i := True]) = ubits bs + 2 ^ i"
proof (induction bs arbitrary: i)
  case (Cons b bs)
  then show ?case by (cases i) (auto simp: algebra_simps)
qed simp

lemma verinum_set_V1:
  assumes "i < vlen v" "vbits v ! i = V0"
  shows "verinum_set v i V1 = Some (v\<lparr>vbits := (vbits v)[i := V1]\<rparr>)"
    and "uval (v\<lparr>vbits := (vbits v)[i := V1]\<rparr>) = uval v + 2 ^ i"
  using assms ubits_set_True [of i "vbools (vbits v)"]
  by (simp_all add: verinum_set_def uval_def map_update)

text \<open>An operand of the loops: defined, unsigned and unsized.\<close>

definition loop_num :: "verinum \<Rightarrow> bool" where
  "loop_num v \<longleftrightarrow> is_defined v \<and> \<not> vhas_sign v \<and> \<not> vhas_len v"

lemma loop_num_has_sign [simp]: "loop_num v \<Longrightarrow> has_sign_bit v"
  by (simp add: loop_num_def has_sign_bit_def)

lemma loop_num_to_int [simp]: "loop_num v \<Longrightarrow> to_int v = uval v"
  by (simp add: loop_num_def to_int_unsigned)

lemma loop_le:
  "loop_num d \<Longrightarrow> loop_num n \<Longrightarrow> verinum_le d n = Some (if uval d \<le> uval n then V1 else V0)"
  using verinum_cmp_value [of d n V1] by (auto simp: verinum_le_def loop_num_def cmp_int_def)

lemma loop_sub:
  assumes "loop_num n" "loop_num d" "uval d \<le> uval n"
  shows "\<exists>r. verinum_sub n d = Some r \<and> loop_num r \<and> uval r = uval n - uval d \<and> vlen r = max (vlen n) (vlen d)"
proof -
  obtain r where r: "verinum_sub n d = Some r" "loop_num r" "vlen r = max (vlen n) (vlen d)"
    "uval r = take_bit (vlen r) (uval n - uval d)"
    using verinum_sub_ok [of n d] assms by (auto simp: loop_num_def has_sign_bit_def to_int_unsigned)
  have "(2 :: int) ^ vlen n \<le> 2 ^ vlen r" using r(3) by (intro power_increasing) auto
  then have "uval n - uval d < 2 ^ vlen r" using uval_less [of n] uval_nonneg [of d] by linarith
  then have "uval r = uval n - uval d" using r(4) assms(3) by (simp add: take_bit_int_eq_self)
  with r show ?thesis by blast
qed

lemma loop_shr:
  assumes "loop_num d"
  shows "\<exists>r. verinum_shr d k = Some r \<and> loop_num r \<and> uval r = uval d div 2 ^ k"
  using verinum_shr_ok [of d k] assms by (auto simp: loop_num_def has_sign_bit_def to_int_unsigned)

lemma loop_shl:
  assumes "loop_num d"
  shows "\<exists>r. verinum_shl d k = Some r \<and> loop_num r \<and> uval r = 2 ^ k * uval d"
  using verinum_shl_ok [of d k] assms by (auto simp: loop_num_def has_sign_bit_def to_int_unsigned)

text \<open>
  One step: \<open>den\<close> is the divisor times \<open>2\<^sup>i\<close>, the rest is below twice that, and the step leaves a
  rest below it.
\<close>

lemma step_div_mod:
  fixes D N :: int
  assumes "0 < D"
  shows "(N - D * 2 ^ i) mod D = N mod D" "(N - D * 2 ^ i) div D = N div D - 2 ^ i"
proof -
  have "N - D * 2 ^ i = N + (- (2 ^ i)) * D" by simp
  then show "(N - D * 2 ^ i) mod D = N mod D" "(N - D * 2 ^ i) div D = N div D - 2 ^ i"
    using assms by (metis mod_mult_self1, metis div_mult_self1 add.commute less_irrefl uminus_add_conv_diff)
qed

text \<open>The invariant of both loops, with \<open>idx\<close> steps to go.\<close>

definition loop_inv :: "nat \<Rightarrow> int \<Rightarrow> verinum \<Rightarrow> verinum \<Rightarrow> bool" where
  "loop_inv idx D num den \<longleftrightarrow> loop_num num \<and> loop_num den \<and> 0 < D \<and>
     (0 < idx \<longrightarrow> uval den = D * 2 ^ (idx - 1)) \<and> uval num < D * 2 ^ idx"

lemma loop_inv_done: "loop_inv 0 D num den \<Longrightarrow> uval num mod D = uval num \<and> uval num div D = 0"
  by (simp add: loop_inv_def mod_pos_pos_trivial div_pos_pos_trivial)

lemma loop_inv_step:
  assumes "loop_inv (Suc i) D num den"
  obtains c num' den' where "verinum_le den num = Some (if c then V1 else V0)"
    "verinum_shr den 1 = Some den'" "c \<Longrightarrow> verinum_sub num den = Some num'" "\<not> c \<Longrightarrow> num' = num"
    "loop_inv i D num' den'" "uval num' mod D = uval num mod D"
    "uval num' div D = uval num div D - (if c then 2 ^ i else 0)"
    "vlen num' = (if c then max (vlen num) (vlen den) else vlen num)"
proof -
  have inv: "loop_num num" "loop_num den" "0 < D" "uval den = D * 2 ^ i" "uval num < D * 2 ^ Suc i"
    using assms by (auto simp: loop_inv_def)
  obtain den' where den': "verinum_shr den 1 = Some den'" "loop_num den'" "uval den' = uval den div 2"
    using loop_shr [OF inv(2), of 1] by auto
  have half: "0 < i \<longrightarrow> uval den' = D * 2 ^ (i - 1)"
  proof
    assume "0 < i"
    then have "D * 2 ^ i = 2 * (D * 2 ^ (i - 1))" by (cases i) simp_all
    then show "uval den' = D * 2 ^ (i - 1)" unfolding den'(3) inv(4)
      by (metis nonzero_mult_div_cancel_left zero_neq_numeral)
  qed
  show ?thesis
  proof (cases "uval den \<le> uval num")
    case True
    obtain num' where num': "verinum_sub num den = Some num'" "loop_num num'"
      "uval num' = uval num - uval den" "vlen num' = max (vlen num) (vlen den)"
      using loop_sub [OF inv(1,2) True] by blast
    show ?thesis
      using True loop_le [OF inv(2,1)] den' num' inv half step_div_mod [OF inv(3), of "uval num" i]
      by (intro that [of True den' num']) (auto simp: loop_inv_def)
  next
    case False
    then show ?thesis
      using loop_le [OF inv(2,1)] den' inv half
      by (intro that [of False den' num]) (auto simp: loop_inv_def)
  qed
qed

lemma divide_loop_ok:
  assumes "loop_inv idx D num den" "idx \<le> vlen result" "\<forall>i < idx. vbits result ! i = V0"
  shows "\<exists>bs. divide_loop idx num den result = Some (result\<lparr>vbits := bs\<rparr>) \<and> length bs = vlen result \<and>
    (is_defined result \<longrightarrow> list_all Vdef bs) \<and>
    (\<forall>i. idx \<le> i \<longrightarrow> bs ! i = vbits result ! i) \<and>
    ubits (vbools bs) = uval result + uval num div D"
  using assms
proof (induction idx arbitrary: num den result)
  case 0
  then show ?case
    using loop_inv_done [OF 0(1)] by (intro exI [of _ "vbits result"]) (simp add: is_defined_def uval_def)
next
  case (Suc idx)
  obtain c num' den' where st: "verinum_le den num = Some (if c then V1 else V0)"
    "verinum_shr den 1 = Some den'" "c \<Longrightarrow> verinum_sub num den = Some num'" "\<not> c \<Longrightarrow> num' = num"
    "loop_inv idx D num' den'" "uval num' div D = uval num div D - (if c then 2 ^ idx else 0)"
    using loop_inv_step [OF Suc.prems(1)] by metis
  define res where "res = (if c then result\<lparr>vbits := (vbits result)[idx := V1]\<rparr> else result)"
  have set1: "verinum_set result idx V1 = Some (result\<lparr>vbits := (vbits result)[idx := V1]\<rparr>)"
    and val1: "uval (result\<lparr>vbits := (vbits result)[idx := V1]\<rparr>) = uval result + 2 ^ idx"
    using verinum_set_V1 [of idx result] Suc.prems(2,3) by auto
  have unfold: "divide_loop (Suc idx) num den result = divide_loop idx num' den' res"
    using st(1-4) set1 by (cases c) (simp_all add: res_def)
  have res: "vlen res = vlen result" "uval res = uval result + (if c then 2 ^ idx else 0)"
    "is_defined result \<longrightarrow> is_defined res" "\<forall>i. i \<noteq> idx \<longrightarrow> vbits res ! i = vbits result ! i"
    using val1 set_update_subset_insert [of "vbits result" idx V1]
    by (auto simp: res_def is_defined_def list_all_iff)
  obtain bs where bs: "divide_loop idx num' den' res = Some (res\<lparr>vbits := bs\<rparr>)" "length bs = vlen res"
    "is_defined res \<longrightarrow> list_all Vdef bs" "\<forall>i. idx \<le> i \<longrightarrow> bs ! i = vbits res ! i"
    "ubits (vbools bs) = uval res + uval num' div D"
    using Suc.IH [OF st(5), of res] Suc.prems(2,3) res(1,4) by auto
  have "res\<lparr>vbits := bs\<rparr> = result\<lparr>vbits := bs\<rparr>" by (simp add: res_def)
  with bs st(6) res unfold show ?case by (intro exI [of _ bs]) auto
qed

lemma modulus_loop_ok:
  assumes "loop_inv idx D num den"
  shows "\<exists>r. modulus_loop idx num den = Some r \<and> loop_num r \<and> uval r = uval num mod D \<and> vlen num \<le> vlen r"
  using assms
proof (induction idx arbitrary: num den)
  case 0
  then show ?case using loop_inv_done [OF 0(1)] by (simp add: loop_inv_def)
next
  case (Suc idx)
  obtain c num' den' where st: "verinum_le den num = Some (if c then V1 else V0)"
    "verinum_shr den 1 = Some den'" "c \<Longrightarrow> verinum_sub num den = Some num'" "\<not> c \<Longrightarrow> num' = num"
    "loop_inv idx D num' den'" "uval num' mod D = uval num mod D"
    "vlen num' = (if c then max (vlen num) (vlen den) else vlen num)"
    using loop_inv_step [OF Suc.prems(1)] by metis
  have "modulus_loop (Suc idx) num den = modulus_loop idx num' den'"
    using st(1-4) by (cases c) simp_all
  moreover have "vlen num \<le> vlen num'" using st(7) by simp
  ultimately show ?case using Suc.IH [OF st(5)] st(6) by auto
qed

lemma used_width_bounds:
  assumes "is_defined v"
  shows "used_width v \<le> vlen v" "uval v < 2 ^ used_width v"
    and "0 < used_width v \<Longrightarrow> 2 ^ (used_width v - 1) \<le> uval v"
proof -
  let ?w = "used_width v"
  show "used_width v \<le> vlen v" by (simp add: used_width_def)
  have above: "vbits v ! i = V0" if "?w \<le> i" "i < vlen v" for i
    using scan_down_above [of "\<lambda>wid. vbits v ! (wid - 1) = V0" "vlen v" "Suc i"] that
    by (simp add: used_width_def)
  have "bit (uval v) i = bit (take_bit ?w (uval v)) i" for i
    using above [of i] by (cases "?w \<le> i") (auto simp: bit_uval bit_take_bit_iff)
  then have "take_bit ?w (uval v) = uval v" by (metis bit_eqI)
  then show "uval v < 2 ^ ?w" by (metis take_bit_int_less_exp)
  assume w: "0 < ?w"
  then have "vbits v ! (?w - 1) \<noteq> V0"
    using scan_down_stop [of "\<lambda>wid. vbits v ! (wid - 1) = V0" "vlen v"] by (auto simp: used_width_def)
  moreover have lt: "?w - 1 < vlen v" using w scan_down_le unfolding used_width_def
    by (metis diff_less less_le_trans zero_less_one order.strict_trans2 diff_less_Suc Suc_pred)
  ultimately have "bit (uval v) (?w - 1)"
    using assms Vdef_cases [of "vbits v ! (?w - 1)"] by (auto simp: bit_uval is_defined_def list_all_length)
  then have "uval v div 2 ^ (?w - 1) \<noteq> 0" by (auto simp: bit_iff_odd)
  then show "2 ^ (?w - 1) \<le> uval v" by (metis div_pos_pos_trivial not_le uval_nonneg)
qed

text \<open>The operands as the loops start, after the divisor has been aligned with the dividend.\<close>

lemma aligned_inv:
  assumes "loop_num num" "loop_num den" "uval den \<noteq> 0"
  defines "nw \<equiv> used_width num" and "dw \<equiv> used_width den"
  shows "nw < dw \<Longrightarrow> uval num < uval den"
    and "dw \<le> nw \<Longrightarrow> \<exists>d. verinum_shl den (nw - dw) = Some d \<and> loop_inv (nw - dw + 1) (uval den) num d"
proof -
  have N: "uval num < 2 ^ nw" unfolding nw_def
    by (rule used_width_bounds(2)) (use assms(1) in \<open>simp add: loop_num_def\<close>)
  have dd: "is_defined den" using assms(2) by (simp add: loop_num_def)
  have "dw \<noteq> 0"
  proof
    assume "dw = 0"
    then show False using used_width_bounds(2) [OF dd] assms(3) uval_nonneg [of den] unfolding dw_def by auto
  qed
  then have "0 < dw" by simp
  then have D: "2 ^ (dw - 1) \<le> uval den" using used_width_bounds(3) [OF dd] by (simp add: dw_def)
  have D0: "0 < uval den" using assms(3) uval_nonneg [of den] by linarith
  show "uval num < uval den" if "nw < dw"
  proof -
    have "(2 :: int) ^ nw \<le> 2 ^ (dw - 1)" using that by (intro power_increasing) auto
    then show ?thesis using N D by linarith
  qed
  show "\<exists>d. verinum_shl den (nw - dw) = Some d \<and> loop_inv (nw - dw + 1) (uval den) num d" if "dw \<le> nw"
  proof -
    obtain d where d: "verinum_shl den (nw - dw) = Some d" "loop_num d" "uval d = 2 ^ (nw - dw) * uval den"
      using loop_shl [OF assms(2)] by blast
    have "(2 :: int) ^ nw = 2 ^ (dw - 1) * 2 ^ (nw - dw + 1)"
      using that \<open>0 < dw\<close> by (simp only: power_add [symmetric]) simp
    also have "\<dots> \<le> uval den * 2 ^ (nw - dw + 1)" using D by (intro mult_right_mono) auto
    finally have "uval num < uval den * 2 ^ (nw - dw + 1)" using N by linarith
    then show ?thesis using d assms(1) D0 by (auto simp: loop_inv_def mult.commute)
  qed
qed

section \<open>Correctness of division and modulus\<close>

lemma unsigned_divide_ok:
  assumes "is_defined num" "is_defined den" "\<not> vhas_sign num" "\<not> vhas_sign den" "uval den \<noteq> 0"
  shows "\<exists>r. unsigned_divide num den sg = Some r \<and> is_defined r \<and> vhas_len r \<and> \<not> vis_single r \<and>
    vbits r \<noteq> [] \<and> uval r = uval num div uval den \<and> (if sg then last (vbits r) = V0 \<and> (vhas_sign r \<or> uval r = 0) else \<not> vhas_sign r)"
proof -
  define n d where "n = num\<lparr>vhas_len := False\<rparr>" "d = den\<lparr>vhas_len := False\<rparr>"
  have ln: "loop_num n" "loop_num d" and u: "uval n = uval num" "uval d = uval den"
    using assms by (auto simp: n_d_def loop_num_def is_defined_def uval_def)
  show ?thesis
  proof (cases "used_width n < used_width d")
    case True
    then have "uval num div uval den = 0"
      using aligned_inv(1) [OF ln] assms(5) u by (simp add: div_pos_pos_trivial)
    with True show ?thesis
      by (auto simp: unsigned_divide_def simp flip: n_d_def) (simp_all add: is_defined_def uval_def)
  next
    case False
    define idx where "idx = used_width n - used_width d + 1"
    define res where "res = (verinum_fill V0 (if sg then idx + 1 else idx) True)\<lparr>vhas_sign := sg\<rparr>"
    obtain d' where d': "verinum_shl d (used_width n - used_width d) = Some d'" "loop_inv idx (uval den) n d'"
      using aligned_inv(2) [OF ln] assms(5) u False by (auto simp: idx_def)
    have "verinum_set (verinum_fill V0 (idx + 1) True) idx V0 = Some (verinum_fill V0 (idx + 1) True)"
      using list_update_id [of "replicate (idx + 1) V0" idx]
      by (simp add: verinum_set_def verinum_fill_def del: list_update_id replicate_add replicate_Suc)
    then have unf: "unsigned_divide num den sg = divide_loop idx n d' res"
      using False d'(1) unfolding unsigned_divide_def Let_def n_d_def [symmetric] idx_def [symmetric]
      by (cases sg) (simp_all add: res_def verinum_fill_def)
    have res0: "uval res = 0" "is_defined res" "idx \<le> vlen res" "\<forall>i < idx. vbits res ! i = V0"
      by (auto simp: res_def uval_def is_defined_def map_replicate list_all_iff)
    obtain bs where bs: "unsigned_divide num den sg = Some (res\<lparr>vbits := bs\<rparr>)" "length bs = vlen res"
      "list_all Vdef bs" "\<forall>i. idx \<le> i \<longrightarrow> bs ! i = vbits res ! i" "ubits (vbools bs) = uval num div uval den"
      using divide_loop_ok [OF d'(2) res0(3,4)] res0(1,2) u unf by auto
    have "bs \<noteq> []" using bs(2) by (auto simp: res_def idx_def split: if_splits)
    moreover have "sg \<longrightarrow> last bs = V0"
      using bs(2,4) \<open>bs \<noteq> []\<close> by (auto simp: last_conv_nth res_def nth_replicate simp del: replicate_Suc)
    ultimately show ?thesis using bs by (auto simp: is_defined_def uval_def res_def)
  qed
qed

lemma unsigned_modulus_ok:
  assumes "is_defined num" "is_defined den" "\<not> vhas_sign num" "\<not> vhas_sign den" "uval den \<noteq> 0"
  shows "\<exists>r. unsigned_modulus num den = Some r \<and> loop_num r \<and> uval r = uval num mod uval den \<and>
    vlen num \<le> vlen r"
proof -
  define n d where "n = num\<lparr>vhas_len := False\<rparr>" "d = den\<lparr>vhas_len := False\<rparr>"
  have ln: "loop_num n" "loop_num d" and u: "uval n = uval num" "uval d = uval den" "vlen n = vlen num"
    using assms by (auto simp: n_d_def loop_num_def is_defined_def uval_def)
  show ?thesis
  proof (cases "used_width n < used_width d")
    case True
    then have "uval num mod uval den = uval num"
      using aligned_inv(1) [OF ln] assms(5) u by (simp add: mod_pos_pos_trivial)
    with True ln u show ?thesis by (auto simp: unsigned_modulus_def simp flip: n_d_def)
  next
    case False
    obtain d' where d': "verinum_shl d (used_width n - used_width d) = Some d'"
      "loop_inv (used_width n - used_width d + 1) (uval den) n d'"
      using aligned_inv(2) [OF ln] assms(5) u False by auto
    then show ?thesis
      using False modulus_loop_ok [OF d'(2)] u by (simp add: unsigned_modulus_def Let_def flip: n_d_def)
  qed
qed

lemma uval_nonneg_to_int: "has_sign_bit v \<Longrightarrow> 0 \<le> to_int v \<Longrightarrow> uval v = to_int v"
  by (metis take_bit_to_int take_bit_int_eq_self to_int_bounds(2))

lemma verinum_neg_shape:
  assumes "verinum_neg v = Some r" "is_defined v"
  shows "\<not> vis_single r" "vlen v \<le> vlen r"
proof -
  obtain bs c where run: "carry_run add_with_carry (replicate (vlen v) V0) (map V_not (vbits v)) V1 = (bs, c)"
    by fastforce
  have len: "length bs = vlen v" using length_carry_run [OF run] by simp
  show "\<not> vis_single r" "vlen v \<le> vlen r"
    using assms run len by (auto simp: verinum_neg_def verinum_bits_def Let_def split: if_splits bind_splits)
qed

lemma use_magnitude_ok:
  assumes "is_defined v" "vhas_sign v" "vbits v \<noteq> []"
  shows "\<exists>m. use_magnitude v = Some (m, to_int v < 0) \<and> is_defined m \<and> \<not> vhas_sign m \<and> vbits m \<noteq> [] \<and>
    uval m = \<bar>to_int v\<bar> \<and> uval m \<le> 2 ^ (vlen m - 1) \<and> vlen v \<le> vlen m \<and>
    (0 \<le> to_int v \<longrightarrow> uval m < 2 ^ (vlen m - 1))"
proof (cases "to_int v < 0")
  case False
  have sb: "has_sign_bit v" using assms by (simp add: has_sign_bit_def)
  have "uval v = to_int v" using False sb by (simp add: uval_nonneg_to_int)
  moreover have "uval (v\<lparr>vhas_sign := False\<rparr>) = uval v" by (simp add: uval_def)
  ultimately show ?thesis
    using False assms to_int_signed_range [OF assms(2,3)]
    by (auto simp: use_magnitude_def is_negative_to_int is_defined_def)
next
  case True
  have sb: "has_sign_bit v" using assms by (simp add: has_sign_bit_def)
  obtain m where m: "verinum_neg v = Some m" "is_defined m" "vhas_len m = vhas_len v" "vhas_sign m"
    "uval m = take_bit (vlen m) (- to_int v)" "vhas_len v \<longrightarrow> vlen m = vlen v"
    "\<not> vhas_len v \<longrightarrow> to_int m = - to_int v"
    using verinum_neg_ok [OF assms(1) sb] assms(2) by auto
  have rng: "- to_int v \<le> 2 ^ (vlen v - 1)" using to_int_signed_range [OF assms(2,3)] by linarith
  have "vbits m \<noteq> [] \<and> uval m = - to_int v \<and> uval m \<le> 2 ^ (vlen m - 1)"
  proof (cases "vhas_len v")
    case sized: True
    have "(2 :: int) ^ (vlen v - 1) < 2 ^ vlen v" using assms(3) by (intro power_strict_increasing) auto
    then have "- to_int v < 2 ^ vlen v" using rng by linarith
    then have "uval m = - to_int v" using m(5,6) sized True by (simp add: take_bit_int_eq_self)
    with sized m(6) rng assms(3) show ?thesis by auto
  next
    case False
    have mne: "vbits m \<noteq> []"
    proof
      assume "vbits m = []"
      then have "to_int m = 0" by (simp add: to_int_def uval_def sbits_def)
      then show False using True m(7) False by simp
    qed
    then have "has_sign_bit m" by (simp add: has_sign_bit_def)
    then have "uval m = - to_int v" using m(7) False True uval_nonneg_to_int by simp
    with mne m(4,7) False to_int_signed_range(2) [OF m(4) mne] show ?thesis by auto
  qed
  moreover have "uval (m\<lparr>vhas_sign := False\<rparr>) = uval m" by (simp add: uval_def)
  ultimately show ?thesis
    using True assms m verinum_neg_shape(2) [OF m(1) assms(1)]
    by (auto simp: use_magnitude_def is_negative_to_int is_defined_def)
qed

text \<open>The integers that a signed or unsigned number of \<open>k\<close> bits denotes.\<close>

definition fits :: "bool \<Rightarrow> nat \<Rightarrow> int \<Rightarrow> bool" where
  "fits sg k x \<longleftrightarrow> (if sg then - (2 ^ (k - 1)) \<le> x \<and> x < 2 ^ (k - 1) else 0 \<le> x \<and> x < 2 ^ k)"

lemma fits_to_int: "has_sign_bit v \<Longrightarrow> fits (vhas_sign v) (vlen v) (to_int v)"
  using to_int_signed_range [of v] to_int_unsigned_range [of v] by (auto simp: fits_def has_sign_bit_def)

lemma abs_div_le: "r \<noteq> 0 \<Longrightarrow> \<bar>l\<bar> div \<bar>r\<bar> \<le> \<bar>l :: int\<bar>"
proof -
  assume "r \<noteq> 0"
  then have "\<bar>l\<bar> div \<bar>r\<bar> \<le> \<bar>l\<bar> div 1" by (intro zdiv_mono2) auto
  then show ?thesis by simp
qed

text \<open>The quotient fits the width of the dividend, but for the least number divided by \<open>-1\<close>.\<close>

lemma fits_sdiv:
  assumes "fits sg k l" "r \<noteq> 0" "sg \<longrightarrow> l \<noteq> - (2 ^ (k - 1)) \<or> r \<noteq> - 1" "\<not> sg \<longrightarrow> 0 \<le> r"
  shows "fits sg k (l sdiv r)"
proof -
  define q p where "q = \<bar>l\<bar> div \<bar>r\<bar>" and "p = (2 :: int) ^ (k - 1)"
  have x: "l sdiv r = (if (l < 0) \<noteq> (r < 0) then - q else q)" by (simp add: sdiv_magnitude q_def)
  have q: "0 \<le> q" "q \<le> \<bar>l\<bar>" "0 < p" using assms(2) abs_div_le by (simp_all add: q_def p_def div_int_pos_iff)
  have less: "q < \<bar>l\<bar>" if "l = - p" "r < 0" "sg"
    using that assms(3) \<open>0 < p\<close> unfolding q_def p_def by (intro int_div_less_self) auto
  show ?thesis
    using assms(1,4) q less unfolding x fits_def p_def [symmetric] by (cases sg; cases "l = - p") auto
qed

lemma fits_smod:
  assumes "fits sg k l" "r \<noteq> 0" "\<not> sg \<longrightarrow> 0 \<le> r"
  shows "fits sg k (l smod r)"
proof -
  define q p where "q = \<bar>l\<bar> mod \<bar>r\<bar>" and "p = (2 :: int) ^ (k - 1)"
  have x: "l smod r = (if l < 0 then - q else q)" by (simp add: smod_magnitude q_def)
  have q: "0 \<le> q" "q \<le> \<bar>l\<bar>" "0 < p" using assms(2) by (simp_all add: q_def p_def zmod_le_nonneg_dividend)
  show ?thesis using assms(1,3) q unfolding x fits_def p_def [symmetric] by (cases sg) auto
qed

text \<open>The end of both operators: cast to the width, set the sign flag, trim.\<close>

lemma finish_ok:
  assumes "is_defined res" "h \<longrightarrow> vhas_sign res \<or> \<not> vis_single res \<or> n \<le> vlen res" "sg \<longrightarrow> vbits res \<noteq> [] \<and> 0 < n"
    and "uval res = take_bit (vlen res) x" "h \<longrightarrow> take_bit n (to_int res) = take_bit n x"
  defines "k \<equiv> if h then n else vlen res"
  shows "\<exists>r. (if h then cast_to_width res n else Some res) \<bind> (\<lambda>res. trim_vnum (res\<lparr>vhas_sign := sg\<rparr>)) = Some r \<and>
    is_defined r \<and> vhas_sign r = sg \<and> (h \<longrightarrow> vhas_len r \<and> vlen r = n \<and> uval r = take_bit n x) \<and>
    (fits sg k x \<longrightarrow> to_int r = x)"
proof -
  obtain r1 where r1: "(if h then cast_to_width res n else Some res) = Some r1" "is_defined r1" "vlen r1 = k"
    "uval r1 = take_bit k x" "h \<longrightarrow> vhas_len r1"
    using cast_to_width_bits [OF assms(1), of n] assms by (cases h) auto
  define w where "w = r1\<lparr>vhas_sign := sg\<rparr>"
  have w: "is_defined w" "vlen w = k" "uval w = take_bit k x" "vhas_len w = vhas_len r1" "vhas_sign w = sg"
    using r1 by (auto simp: w_def is_defined_def uval_def)
  have k: "sg \<longrightarrow> 0 < k" using assms(3) by (auto simp: k_def)
  then have sb: "has_sign_bit w" using w(2,5) by (auto simp: has_sign_bit_def)
  obtain r where r: "trim_vnum w = Some r" using trim_vnum_ok [of w] by blast
  have exact: "to_int w = x"
    if "fits sg k x"
    using that w k to_int_signedI [of w "k - 1" x] to_int_unsignedI [of w x] by (cases sg) (auto simp: fits_def)
  have "h \<longrightarrow> r = w" using r r1(5) w(4) by auto
  then show ?thesis
    using r1(1,5) r exact trim_vnum_value [OF r sb] trim_defined [OF r w(1)] w
    by (auto simp: k_def simp flip: w_def)
qed

text \<open>
  What an arm hands to the end of the operator: the low bits of the exact result, and all of it where
  it fits the width of the left operand.
\<close>

definition arm_result :: "bool \<Rightarrow> verinum \<Rightarrow> int \<Rightarrow> verinum \<Rightarrow> bool" where
  "arm_result sg l x res \<longleftrightarrow> is_defined res \<and> (vbits l \<noteq> [] \<longrightarrow> vbits res \<noteq> []) \<and>
     (vhas_sign res \<or> \<not> vis_single res \<or> vlen l \<le> vlen res) \<and>
     uval res = take_bit (vlen res) x \<and> take_bit (vlen l) (to_int res) = take_bit (vlen l) x \<and>
     (fits sg (vlen l) x \<longrightarrow> fits sg (vlen res) x)"

lemma native_arm:
  assumes "length bs = vlen l" "list_all Vdef bs" "ubits (vbools bs) = take_bit (vlen l) x"
  shows "arm_result sg l x ((verinum_fill Vz (vlen l) h)\<lparr>vbits := bs\<rparr>)"
  using assms by (auto simp: arm_result_def is_defined_def uval_def to_int_def)

lemma uint64_arm:
  assumes "vlen l \<le> 64" "w = word_of_int x"
  shows "arm_result sg l x ((verinum_fill Vz (vlen l) h)\<lparr>vbits := uint64_bits (vlen l) w\<rparr>)"
  using assms uint64_bits_value [of "vlen l" w] by (intro native_arm) (simp_all add: min_def uint_word_of_int_eq)

lemma exact_arm:
  assumes "is_defined res" "vbits res \<noteq> []" "vhas_sign res \<or> \<not> vis_single res \<or> vlen l \<le> vlen res"
    and "to_int res = x" "fits sg (vlen res) x"
  shows "arm_result sg l x res"
  using assms by (auto simp: arm_result_def)

lemma uint_as_ulong:
  assumes "is_defined v" "vlen v \<le> 64"
  shows "uint (as_ulong v) = uval v"
proof -
  have "(2 :: int) ^ vlen v \<le> 2 ^ 64" using assms by (intro power_increasing) auto
  then show ?thesis using as_ulong_value [OF assms(1)] uval_less [of v] by simp
qed

lemma sint_as_long:
  assumes "is_defined v" "vhas_sign v" "vbits v \<noteq> []" "vlen v \<le> 64"
  shows "sint (as_long v) = to_int v"
proof -
  have "(2 :: int) ^ (vlen v - 1) \<le> 2 ^ 63" using assms by (intro power_increasing) auto
  then show ?thesis
    using to_int_signed_range [OF assms(2,3)] assms by (intro as_long_exact) (auto simp: has_sign_bit_def)
qed

lemma divide_unsigned_ok:
  assumes "is_defined l" "is_defined r" "\<not> vhas_sign l" "\<not> vhas_sign r" "uval r \<noteq> 0"
    and "vlen l \<le> 64 \<longrightarrow> vlen r \<le> 64"
  shows "\<exists>res. divide_unsigned (verinum_fill Vz (vlen l) h) l r = Some res \<and>
    arm_result False l (uval l div uval r) res"
proof (cases "vlen l \<le> 64")
  case True
  let ?q = "as_ulong l div as_ulong r"
  have q: "uint ?q = uval l div uval r" using uint_as_ulong assms True by (simp add: uint_div)
  have "as_ulong r \<noteq> 0" using uint_as_ulong [OF assms(2)] assms(5,6) True by auto
  moreover have "?q = word_of_int (uval l div uval r)" unfolding q [symmetric] by simp
  ultimately show ?thesis using True by (auto simp: divide_unsigned_def Let_def intro: uint64_arm)
next
  case False
  obtain res where res: "unsigned_divide l r False = Some res" "is_defined res" "\<not> vhas_sign res"
    "\<not> vis_single res" "vbits res \<noteq> []" "uval res = uval l div uval r"
    using unsigned_divide_ok [OF assms(1-5), of False] by auto
  then have "arm_result False l (uval l div uval r) res"
    using fits_to_int [of res] by (intro exact_arm) (auto simp: to_int_unsigned has_sign_bit_def)
  with False res(1) show ?thesis by (simp add: divide_unsigned_def)
qed

lemma modulus_unsigned_ok:
  assumes "is_defined l" "is_defined r" "\<not> vhas_sign l" "\<not> vhas_sign r" "uval r \<noteq> 0"
    and "vlen l \<le> 64 \<longrightarrow> vlen r \<le> 64"
  shows "\<exists>res. modulus_unsigned (verinum_fill Vz (vlen l) h) l r = Some res \<and>
    arm_result False l (uval l mod uval r) res"
proof (cases "vlen l \<le> 64")
  case True
  let ?q = "as_ulong l mod as_ulong r"
  have q: "uint ?q = uval l mod uval r" using uint_as_ulong assms True by (simp add: uint_mod)
  have "as_ulong r \<noteq> 0" using uint_as_ulong [OF assms(2)] assms(5,6) True by auto
  moreover have "?q = word_of_int (uval l mod uval r)" unfolding q [symmetric] by simp
  ultimately show ?thesis using True by (auto simp: modulus_unsigned_def Let_def intro: uint64_arm)
next
  case False
  obtain res where res: "unsigned_modulus l r = Some res" "loop_num res"
    "uval res = uval l mod uval r" "vlen l \<le> vlen res"
    using unsigned_modulus_ok [OF assms(1-5)] by auto
  then have "arm_result False l (uval l mod uval r) res"
    using fits_to_int [of res] False by (intro exact_arm) (auto simp: loop_num_def to_int_unsigned has_sign_bit_def)
  with False res(1) show ?thesis by (simp add: modulus_unsigned_def)
qed

lemma neg_arm:
  assumes "is_defined res" "vhas_len res" "vbits res \<noteq> []" "last (vbits res) = V0" "\<not> vis_single res"
    and "vhas_sign res \<or> uval res = 0"
  shows "\<exists>n. (if neg then verinum_neg res else Some res) = Some n \<and>
    arm_result True l (if neg then - uval res else uval res) n"
proof -
  let ?b = "vbools (vbits res)"
  have u: "sbits ?b = uval res" using assms(3,4) by (simp add: sbits_ubits uval_def last_map)
  then have rng: "uval res < 2 ^ (vlen res - 1)" using sbits_range(2) [of ?b] assms(3) by simp
  have sb: "has_sign_bit res" using assms(3) by (simp add: has_sign_bit_def)
  have ti: "to_int res = uval res" using u by (simp add: to_int_def)
  obtain n where n: "verinum_neg res = Some n" "is_defined n" "vhas_sign n = vhas_sign res"
    "uval n = take_bit (vlen n) (- uval res)" "vlen n = vlen res"
    using verinum_neg_ok [OF assms(1) sb] assms(2) ti by auto
  have "to_int n = - uval res"
  proof (cases "vhas_sign res")
    case True
    moreover have "- uval res < 2 ^ (vlen n - 1)" by (rule order_le_less_trans [of _ 0]) simp_all
    ultimately show ?thesis using n rng assms(3) to_int_signedI [of n "vlen n - 1" "- uval res"] by simp
  qed (use assms(6) n in \<open>simp add: to_int_unsigned\<close>)
  then have "arm_result True l (- uval res) n"
    using n assms(3) rng verinum_neg_shape(1) [OF n(1) assms(1)] order_le_less_trans [of "- uval res" 0 "2 ^ (vlen n - 1)"]
    by (intro exact_arm) (auto simp: fits_def)
  moreover have "arm_result True l (uval res) res"
    using assms ti rng uval_nonneg [of res] by (intro exact_arm) (auto simp: fits_def order_trans [of _ 0])
  ultimately show ?thesis using n(1) by auto
qed

lemma signed_divisor:
  assumes "vhas_sign r" "uval r \<noteq> 0"
  shows "vbits r \<noteq> []" "to_int r \<noteq> 0"
proof -
  show "vbits r \<noteq> []" using assms(2) by (auto simp: uval_def)
  then show "to_int r \<noteq> 0" using assms to_int_zero_iff [of r] by (simp add: has_sign_bit_def)
qed

lemma divide_signed_ok:
  assumes "is_defined l" "is_defined r" "vhas_sign l" "vhas_sign r" "vbits l \<noteq> []" "uval r \<noteq> 0"
    and "vlen l \<le> 63 \<longrightarrow> vlen r \<le> 64"
  shows "\<exists>res. divide_signed (verinum_fill Vz (vlen l) h) l r = Some res \<and>
    arm_result True l (to_int l sdiv to_int r) res"
proof (cases "vlen l \<le> 63")
  case True
  note rn = signed_divisor [OF assms(4,6)]
  have "(2 :: int) ^ (vlen l - 1) < 2 ^ 63" using True by (intro power_strict_increasing) auto
  then have "to_int l \<noteq> LONG_MIN" using to_int_signed_range [OF assms(3,5)] by linarith
  then have "long_div (sint (as_long l)) (sint (as_long r)) = Some (to_int l sdiv to_int r)"
    using sint_as_long [OF assms(1,3,5)] sint_as_long [OF assms(2,4) rn(1)] True assms(7) rn(2)
    by (simp add: long_div_def)
  then show ?thesis using True by (auto simp: divide_signed_def intro: uint64_arm)
next
  case False
  note rn = signed_divisor [OF assms(4,6)]
  obtain ml where ml: "use_magnitude l = Some (ml, to_int l < 0)" "is_defined ml" "\<not> vhas_sign ml"
    "uval ml = \<bar>to_int l\<bar>"
    using use_magnitude_ok [OF assms(1,3,5)] by blast
  obtain mr where mr: "use_magnitude r = Some (mr, to_int r < 0)" "is_defined mr" "\<not> vhas_sign mr"
    "uval mr = \<bar>to_int r\<bar>"
    using use_magnitude_ok [OF assms(2,4) rn(1)] by blast
  obtain res where res: "unsigned_divide ml mr True = Some res" "is_defined res" "vhas_len res" "\<not> vis_single res"
    "vbits res \<noteq> []" "uval res = \<bar>to_int l\<bar> div \<bar>to_int r\<bar>" "last (vbits res) = V0" "vhas_sign res \<or> uval res = 0"
    using unsigned_divide_ok [OF ml(2) mr(2) ml(3) mr(3), of True] ml(4) mr(4) rn(2) by auto
  then show ?thesis
    using neg_arm [OF res(2,3,5,7,4,8), of "(to_int l < 0) \<noteq> (to_int r < 0)" l] False ml(1) mr(1)
    by (cases "(to_int l < 0) = (to_int r < 0)") (auto simp: divide_signed_def sdiv_magnitude)
qed

lemma modulus_signed_ok:
  assumes "is_defined l" "is_defined r" "vhas_sign l" "vhas_sign r" "vbits l \<noteq> []" "uval r \<noteq> 0"
    and "vlen l \<le> 64 \<longrightarrow> vlen r \<le> 64"
  shows "\<exists>res. modulus_signed (verinum_fill Vz (vlen l) h) l r = Some res \<and>
    arm_result True l (to_int l smod to_int r) res"
proof (cases "vlen l \<le> 64")
  case True
  note rn = signed_divisor [OF assms(4,6)]
  have "long_mod (sint (as_long l)) (sint (as_long r)) = Some (to_int l smod to_int r)"
    using sint_as_long [OF assms(1,3,5)] sint_as_long [OF assms(2,4) rn(1)] True assms(7) rn(2)
    by (simp add: long_mod_def smod_magnitude)
  moreover have "arm_result True l x ((verinum_fill Vz (vlen l) h)\<lparr>vbits := int64_bits (vlen l) x\<rparr>)" for x
    using int64_bits_value [of "vlen l" x] by (intro native_arm) auto
  ultimately show ?thesis using True by (auto simp: modulus_signed_def)
next
  case False
  note rn = signed_divisor [OF assms(4,6)]
  obtain ml where ml: "use_magnitude l = Some (ml, to_int l < 0)" "is_defined ml" "\<not> vhas_sign ml"
    "vbits ml \<noteq> []" "uval ml = \<bar>to_int l\<bar>" "uval ml \<le> 2 ^ (vlen ml - 1)"
    "0 \<le> to_int l \<longrightarrow> uval ml < 2 ^ (vlen ml - 1)" "vlen l \<le> vlen ml"
    using use_magnitude_ok [OF assms(1,3,5)] by blast
  obtain mr where mr: "use_magnitude r = Some (mr, to_int r < 0)" "is_defined mr" "\<not> vhas_sign mr"
    "uval mr = \<bar>to_int r\<bar>"
    using use_magnitude_ok [OF assms(2,4) rn(1)] by blast
  define m where "m = \<bar>to_int l\<bar> mod \<bar>to_int r\<bar>"
  obtain res where res: "unsigned_modulus ml mr = Some res" "loop_num res" "uval res = m" "vlen ml \<le> vlen res"
    using unsigned_modulus_ok [OF ml(2) mr(2) ml(3) mr(3)] ml(5) mr(4) rn(2) by (auto simp: m_def)
  have m0: "0 \<le> m" using rn(2) by (simp add: m_def)
  have "m \<le> \<bar>to_int l\<bar>" by (simp add: m_def zmod_le_nonneg_dividend)
  moreover have "(2 :: int) ^ (vlen ml - 1) \<le> 2 ^ (vlen res - 1)" using res(4) by (intro power_increasing) auto
  ultimately have m: "0 \<le> m" "m \<le> 2 ^ (vlen res - 1)" "0 \<le> to_int l \<longrightarrow> m < 2 ^ (vlen res - 1)"
    using ml(5-7) m0 by linarith+
  show ?thesis
  proof (cases "to_int l < 0")
    case neg: True
    obtain n where n: "verinum_neg res = Some n" "is_defined n" "\<not> vhas_sign n"
      "uval n = take_bit (vlen n) (- m)" "vlen n = vlen res"
      using verinum_neg_ok [of res] res(2,3) by (auto simp: loop_num_def to_int_unsigned has_sign_bit_def)
    have "arm_result True l (- m) n"
      using n res(4) ml(4,8) m order_le_less_trans [of "- m" 0 "2 ^ (vlen n - 1)"]
      by (auto simp: arm_result_def fits_def to_int_unsigned min_absorb1)
    then show ?thesis using neg False ml(1) mr(1) res(1) n(1) by (simp add: modulus_signed_def smod_magnitude m_def)
  next
    case pos: False
    then have "arm_result True l m res"
      using res ml(4,8) m(1,3) order_trans [of "- (2 ^ (vlen res - 1))" 0 m] loop_num_to_int by (intro exact_arm) (auto simp: fits_def loop_num_def)
    then show ?thesis using pos False ml(1) mr(1) res(1) by (simp add: modulus_signed_def smod_magnitude m_def)
  qed
qed

lemma arm_finish:
  assumes "arm_result sg l x res" "sg \<longrightarrow> vbits l \<noteq> []"
  shows "\<exists>r. (if h then cast_to_width res (vlen l) else Some res)
        \<bind> (\<lambda>res. trim_vnum (res\<lparr>vhas_sign := sg\<rparr>)) = Some r \<and>
    is_defined r \<and> vhas_sign r = sg \<and> (h \<longrightarrow> vhas_len r \<and> vlen r = vlen l \<and> uval r = take_bit (vlen l) x) \<and>
    (fits sg (vlen l) x \<longrightarrow> to_int r = x)"
  using finish_ok [of res h "vlen l" sg x] assms by (auto simp: arm_result_def)

lemma verinum_div_ok:
  assumes "is_defined l" "is_defined r" "has_sign_bit l" "vhas_sign l = vhas_sign r" "uval r \<noteq> 0"
    and "vlen l \<le> 64 \<longrightarrow> vlen r \<le> 64"
  shows "\<exists>res. verinum_div l r = Some res \<and> is_defined res \<and> vhas_sign res = vhas_sign l \<and>
    (vhas_len l \<and> vhas_len r \<longrightarrow> vhas_len res \<and> vlen res = vlen l \<and>
       uval res = take_bit (vlen l) (to_int l sdiv to_int r)) \<and>
    (\<not> (vhas_sign l \<and> to_int l = - (2 ^ (vlen l - 1)) \<and> to_int r = - 1) \<longrightarrow>
       to_int res = to_int l sdiv to_int r)"
proof -
  let ?h = "vhas_len l \<and> vhas_len r" and ?x = "to_int l sdiv to_int r" and ?z = "verinum_fill Vz (vlen l)"
  have nz: "\<not> is_zero r" "to_int r \<noteq> 0"
    using assms is_zero_uval [OF assms(2)] signed_divisor [of r] by (auto simp: to_int_unsigned)
  obtain res where res: "(if vhas_sign l then divide_signed (?z ?h) l r else divide_unsigned (?z ?h) l r) = Some res"
    "arm_result (vhas_sign l) l ?x res"
  proof (cases "vhas_sign l")
    case True
    then show ?thesis using divide_signed_ok [of l r ?h] assms that by (auto simp: has_sign_bit_def)
  next
    case False
    moreover have "to_int l sdiv to_int r = uval l div uval r"
      using False assms(4) uval_nonneg [of l] uval_nonneg [of r] by (auto simp: to_int_unsigned sdiv_magnitude simp del: uval_nonneg)
    ultimately show ?thesis using divide_unsigned_ok [of l r ?h] assms that by auto
  qed
  moreover have "fits (vhas_sign l) (vlen l) ?x"
    if "\<not> (vhas_sign l \<and> to_int l = - (2 ^ (vlen l - 1)) \<and> to_int r = - 1)"
    using that fits_to_int [OF assms(3)] nz(2) assms(4) by (intro fits_sdiv) (auto simp: to_int_unsigned)
  ultimately show ?thesis
    using arm_finish [OF res(2), of ?h] assms nz(1)
    by (auto simp: verinum_div_def Let_def has_sign_bit_def split: if_splits)
qed

lemma verinum_mod_ok:
  assumes "is_defined l" "is_defined r" "has_sign_bit l" "vhas_sign l = vhas_sign r" "uval r \<noteq> 0"
    and "vlen l \<le> 64 \<longrightarrow> vlen r \<le> 64"
  shows "\<exists>res. verinum_mod l r = Some res \<and> is_defined res \<and> vhas_sign res = vhas_sign l \<and>
    (vhas_len l \<and> vhas_len r \<longrightarrow> vhas_len res \<and> vlen res = vlen l) \<and>
    to_int res = to_int l smod to_int r"
proof -
  let ?h = "vhas_len l \<and> vhas_len r" and ?x = "to_int l smod to_int r" and ?z = "verinum_fill Vz (vlen l)"
  have nz: "\<not> is_zero r" "to_int r \<noteq> 0"
    using assms is_zero_uval [OF assms(2)] signed_divisor [of r] by (auto simp: to_int_unsigned)
  obtain res where res: "(if vhas_sign l then modulus_signed (?z ?h) l r else modulus_unsigned (?z ?h) l r) = Some res"
    "arm_result (vhas_sign l) l ?x res"
  proof (cases "vhas_sign l")
    case True
    then show ?thesis using modulus_signed_ok [of l r ?h] assms that by (auto simp: has_sign_bit_def)
  next
    case False
    moreover have "to_int l smod to_int r = uval l mod uval r"
      using False assms(4) uval_nonneg [of l] uval_nonneg [of r] by (auto simp: to_int_unsigned smod_magnitude simp del: uval_nonneg)
    ultimately show ?thesis using modulus_unsigned_ok [of l r ?h] assms that by auto
  qed
  moreover have "fits (vhas_sign l) (vlen l) ?x"
    using fits_to_int [OF assms(3)] nz(2) assms(4) by (intro fits_smod) (auto simp: to_int_unsigned)
  ultimately show ?thesis
    using arm_finish [OF res(2), of ?h] assms nz(1)
    by (auto simp: verinum_mod_def Let_def has_sign_bit_def split: if_splits)
qed

end
