(* ===== verification/Verinum_Pow.thy ===== *)
theory Verinum_Pow
  imports Verinum_Div
begin

text \<open>
  The power of \<open>verinum\<close> (verinum.cc): square and multiply for an exponent that is not negative,
  the table of the Verilog standard for a negative one. The recursion ends because the value of the
  exponent decreases, and the result is the integer power.
\<close>

section \<open>Definitions\<close>

definition make_p_one :: "nat \<Rightarrow> bool \<Rightarrow> bool \<Rightarrow> verinum option" where
  "make_p_one len has_len has_sign =
     map_option (\<lambda>tmp. tmp\<lparr>vhas_sign := has_sign\<rparr>)
       (verinum_set (verinum_fill V0 (if has_len then len else 2) has_len) 0 V1)"

definition make_m_one :: "nat \<Rightarrow> bool \<Rightarrow> bool \<Rightarrow> verinum" where
  "make_m_one len has_len has_sign =
     (verinum_fill V1 (if has_len then len else 1) has_len)\<lparr>vhas_sign := has_sign\<rparr>"

text \<open>
  \<open>recursive_pow\<close> and \<open>pow\<close> call each other; here \<open>recursive_pow\<close> gets \<open>pow\<close> as its argument \<open>pw\<close>.
\<close>

definition recursive_pow ::
  "(verinum \<Rightarrow> verinum \<Rightarrow> verinum option) \<Rightarrow> verinum \<Rightarrow> verinum \<Rightarrow> verinum option" where
  "recursive_pow pw left right =
     (if is_zero right then make_p_one (vlen left) (vhas_len left) (vhas_sign left)
      else do {
        b \<leftarrow> verinum_get right 0;
        if b = V1
        then do {
          right \<leftarrow> verinum_set right 0 V0;
          result \<leftarrow> pw left right;
          verinum_mul left result
        }
        else do {
          right \<leftarrow> verinum_shr right 1;
          result \<leftarrow> pw left right;
          verinum_mul result result
        }
      })"

text \<open>The exponents that \<open>recursive_pow\<close> passes on.\<close>

definition next_exponent :: "verinum \<Rightarrow> verinum \<Rightarrow> bool" where
  "next_exponent right r \<longleftrightarrow> \<not> is_zero right \<and>
     (if verinum_get right 0 = Some V1 then verinum_set right 0 V0 = Some r else verinum_shr right 1 = Some r)"

lemma recursive_pow_cong [fundef_cong]:
  assumes "left = left'" "right = right'" "\<And>r. next_exponent right' r \<Longrightarrow> pw left' r = pw' left' r"
  shows "recursive_pow pw left right = recursive_pow pw' left' right'"
  using assms by (auto simp: recursive_pow_def next_exponent_def intro!: Option.bind_cong)

lemma exponent_facts:
  assumes "is_negative v = Some False"
  shows "vbits v \<noteq> []" "has_sign_bit v" "0 \<le> to_int v" "uval v = to_int v"
proof -
  show ne: "vbits v \<noteq> []" using assms by (auto simp: is_negative_def verinum_top_def)
  then show sb: "has_sign_bit v" by (simp add: has_sign_bit_def)
  show "0 \<le> to_int v" using assms is_negative_to_int [OF ne] by simp
  then show "uval v = to_int v" using sb by (simp add: uval_nonneg_to_int)
qed

lemma clear_bit_0:
  assumes "is_defined v" "is_negative v = Some False" "verinum_get v 0 = Some V1" "verinum_set v 0 V0 = Some r"
  shows "is_defined r" "is_negative r = Some False" "to_int r = to_int v - 1"
proof -
  have r: "r = v\<lparr>vbits := (vbits v)[0 := V0]\<rparr>" and b: "0 < vlen v" "vbits v ! 0 = V1"
    using assms(3,4) by (auto simp: verinum_set_def verinum_get_def split: if_splits)
  show "is_defined r"
    using assms(1) set_update_subset_insert [of "vbits v" 0 V0] by (auto simp: r is_defined_def list_all_iff)
  show neg: "is_negative r = Some False"
    using assms(2) b by (cases "vlen v = 1") (auto simp: r is_negative_def verinum_top_def nth_list_update)
  have "v = r\<lparr>vbits := (vbits r)[0 := V1]\<rparr>" using b by (simp add: r list_update_id flip: b(2))
  then have "uval v = uval r + 1" using verinum_set_V1(2) [of 0 r] b by (simp add: r)
  then show "to_int r = to_int v - 1"
    using exponent_facts(4) [OF neg] exponent_facts(4) [OF assms(2)] by simp
qed

lemma next_exponent_decreases:
  assumes "is_defined v" "is_negative v = Some False" "next_exponent v r"
  shows "is_defined r" "is_negative r = Some False" "to_int r < to_int v"
    and "to_int v = (if verinum_get v 0 = Some V1 then to_int r + 1 else 2 * to_int r)"
proof -
  note v = exponent_facts [OF assms(2)]
  have pos: "0 < to_int v" using assms(1,3) v(3,4) is_zero_uval [of v] by (auto simp: next_exponent_def)
  have "is_defined r \<and> is_negative r = Some False \<and>
      to_int v = (if verinum_get v 0 = Some V1 then to_int r + 1 else 2 * to_int r)"
  proof (cases "verinum_get v 0 = Some V1")
    case True
    then show ?thesis using clear_bit_0 [OF assms(1,2) True, of r] assms(3) by (simp add: next_exponent_def)
  next
    case False
    then have "even (to_int v)"
      using bit_to_int [OF v(2), of 0] v(1) by (simp add: verinum_get_def vext_def bit_0)
    moreover obtain "has_sign_bit r" "is_defined r" "to_int r = to_int v div 2"
      using verinum_shr_ok [OF v(2), of 1] assms(1,3) False by (auto simp: next_exponent_def)
    moreover have "vbits r \<noteq> []" if "to_int r \<noteq> 0" using that by (auto simp: to_int_def uval_def sbits_def split: if_splits)
    ultimately show ?thesis using pos False is_negative_to_int [of r] by (auto elim!: evenE)
  qed
  then show "is_defined r" "is_negative r = Some False" "to_int r < to_int v"
    "to_int v = (if verinum_get v 0 = Some V1 then to_int r + 1 else 2 * to_int r)"
    using pos exponent_facts(3) [of r] by (auto split: if_splits)
qed

text \<open>\<open>pow\<close>. The result of every branch is trimmed.\<close>

function verinum_pow :: "verinum \<Rightarrow> verinum \<Rightarrow> verinum option" where
  "verinum_pow left right =
     do {
       p_one \<leftarrow> make_p_one (vlen left) (vhas_len left) (vhas_sign left);
       let m_one = make_m_one (vlen left) (vhas_len left) (vhas_sign left);
       result \<leftarrow>
         (if \<not> is_defined left \<or> \<not> is_defined right
          then Some ((verinum_fill Vx (vlen left) (vhas_len left))\<lparr>vhas_sign := vhas_sign left\<rparr>)
          else if is_zero right then Some p_one
          else do {
            neg \<leftarrow> is_negative right;
            if neg then
              if is_zero left
              then Some ((verinum_fill Vx (vlen left) (vhas_len left))\<lparr>vhas_sign := vhas_sign left\<rparr>)
              else do {
                is_m \<leftarrow> (if vhas_sign left then verinum_eq left m_one else Some V0);
                if is_m \<noteq> V0
                then do { b \<leftarrow> verinum_get right 0; Some (if b = V0 then p_one else m_one) }
                else do {
                  is_p \<leftarrow> verinum_eq left p_one;
                  if is_p \<noteq> V0 then Some p_one
                  else Some ((verinum_fill V0 (vlen left) (vhas_len left))\<lparr>vhas_sign := vhas_sign left\<rparr>)
                }
              }
            else recursive_pow verinum_pow left right
          });
       trim_vnum result
     }"
  by pat_completeness auto
termination
proof (relation "measure (\<lambda>(l, r). nat (to_int r))", goal_cases)
  case (2 l r p m neg r')
  then show ?case
    using next_exponent_decreases(3) [of r r'] next_exponent_decreases(2) [of r r'] exponent_facts(3) [of r'] by auto
qed simp

declare verinum_pow.simps [simp del]

section \<open>Correctness\<close>

text \<open>The number \<open>res\<close> has the flags of the base \<open>l\<close> and denotes \<open>x\<close>, modulo the width of a sized base.\<close>

definition pow_res :: "verinum \<Rightarrow> int \<Rightarrow> verinum \<Rightarrow> bool" where
  "pow_res l x res \<longleftrightarrow> is_defined res \<and> has_sign_bit res \<and> vhas_len res = vhas_len l \<and> vhas_sign res = vhas_sign l \<and>
     (if vhas_len l then vlen res = vlen l \<and> take_bit (vlen l) (to_int res) = take_bit (vlen l) x
      else to_int res = x)"

lemma pow_res_self: "is_defined l \<Longrightarrow> has_sign_bit l \<Longrightarrow> pow_res l (to_int l) l"
  by (simp add: pow_res_def)

lemma pow_res_uval:
  assumes "pow_res l x res"
  shows "uval res = take_bit (vlen res) x"
proof -
  have "uval res = take_bit (vlen res) (to_int res)" by (rule take_bit_to_int [symmetric])
  also have "\<dots> = take_bit (vlen res) x" using assms unfolding pow_res_def by (cases "vhas_len l") simp_all
  finally show ?thesis .
qed

lemma pow_res_mul:
  assumes "pow_res l x a" "pow_res l y b"
  shows "\<exists>r. verinum_mul a b = Some r \<and> pow_res l (x * y) r"
proof -
  have "take_bit n (to_int a * to_int b) = take_bit n (x * y)"
    if "take_bit n (to_int a) = take_bit n x" "take_bit n (to_int b) = take_bit n y" for n
    using that by (metis take_bit_mult)
  moreover have "take_bit (vlen l) (to_int r) = uval r" if "vlen r = vlen l" for r
    using take_bit_to_int [of r] that by simp
  ultimately show ?thesis
    using verinum_mul_ok [of a b] assms by (auto simp: pow_res_def split: if_splits)
qed

lemma pow_res_trim:
  assumes "pow_res l x a"
  shows "\<exists>r. trim_vnum a = Some r \<and> pow_res l x r"
proof -
  obtain r where r: "trim_vnum a = Some r" using trim_vnum_ok [of a] by blast
  moreover have "vhas_len a \<Longrightarrow> r = a" using r by simp
  ultimately show ?thesis
    using assms trim_vnum_value [OF r] trim_defined [OF r] by (auto simp: pow_res_def split: if_splits)
qed

lemma make_p_one_ok:
  assumes "vbits l \<noteq> []"
  shows "\<exists>p. make_p_one (vlen l) (vhas_len l) (vhas_sign l) = Some p \<and> pow_res l 1 p \<and>
    vbits p = V1 # replicate ((if vhas_len l then vlen l else 2) - 1) V0"
proof -
  obtain n where n: "vlen l = Suc n" using assms by (cases "vlen l") auto
  define p where "p = \<lparr>vbits = V1 # replicate ((if vhas_len l then vlen l else 2) - 1) V0, vhas_len = vhas_len l,
    vhas_sign = vhas_sign l, vis_single = False, vstring_flag = False\<rparr>"
  have "make_p_one (vlen l) (vhas_len l) (vhas_sign l) = Some p"
    using n by (auto simp: make_p_one_def verinum_set_def verinum_fill_def p_def numeral_2_eq_2)
  moreover have "uval p = 1" by (simp add: uval_def p_def map_replicate)
  moreover have "take_bit (Suc n) (1 :: int) = 1" by simp
  moreover have "to_int p = 1" if "\<not> vhas_len l"
    using that by (simp add: to_int_def uval_def p_def sbits_ubits)
  ultimately show ?thesis
    using n take_bit_to_int [of p]
    by (intro exI [of _ p]) (auto simp: pow_res_def p_def is_defined_def list_all_iff has_sign_bit_def)
qed

lemma verinum_pow_nonneg:
  assumes "is_defined l" "vbits l \<noteq> []" "is_defined r" "is_negative r = Some False"
  shows "\<exists>res. verinum_pow l r = Some res \<and> pow_res l (to_int l ^ nat (to_int r)) res"
  using assms(3,4)
proof (induction "nat (to_int r)" arbitrary: r rule: less_induct)
  case less
  note r = exponent_facts [OF less.prems(2)]
  obtain p where p: "make_p_one (vlen l) (vhas_len l) (vhas_sign l) = Some p" "pow_res l 1 p"
    using make_p_one_ok [OF assms(2)] by blast
  show ?case
  proof (cases "is_zero r")
    case True
    then have "to_int r = 0" using less.prems(1) r is_zero_uval [of r] by simp
    then show ?thesis using True p pow_res_trim [OF p(2)] assms(1) less.prems by (subst verinum_pow.simps) simp
  next
    case False
    obtain r' where nx: "next_exponent r r'"
      using False r(1) verinum_shr_ok [OF r(2), of 1]
      by (cases "verinum_get r 0 = Some V1") (auto simp: next_exponent_def verinum_set_def)
    note d = next_exponent_decreases [OF less.prems nx]
    have "nat (to_int r') < nat (to_int r)" using d(3) exponent_facts(3) [OF d(2)] by simp
    then obtain x where x: "verinum_pow l r' = Some x" "pow_res l (to_int l ^ nat (to_int r')) x"
      using less.hyps d by blast
    have "\<exists>y. recursive_pow verinum_pow l r = Some y \<and> pow_res l (to_int l ^ nat (to_int r)) y"
    proof (cases "verinum_get r 0 = Some V1")
      case odd: True
      then have "nat (to_int r) = Suc (nat (to_int r'))"
        using d(4) exponent_facts(3) [OF d(2)] by (simp add: nat_add_distrib)
      moreover have "recursive_pow verinum_pow l r = verinum_mul l x"
        using odd False nx x(1) by (simp add: recursive_pow_def next_exponent_def)
      ultimately show ?thesis
        using pow_res_mul [OF pow_res_self x(2)] assms(1,2) by (simp add: has_sign_bit_def)
    next
      case even: False
      then have "nat (to_int r) = nat (to_int r') + nat (to_int r')"
        using d(4) exponent_facts(3) [OF d(2)] by simp
      moreover have "recursive_pow verinum_pow l r = verinum_mul x x"
        using even False nx x(1) r(1) by (auto simp: recursive_pow_def next_exponent_def verinum_get_def)
      ultimately show ?thesis using pow_res_mul [OF x(2) x(2)] by (simp add: power_add)
    qed
    then obtain y where "recursive_pow verinum_pow l r = Some y" "pow_res l (to_int l ^ nat (to_int r)) y" by blast
    then show ?thesis
      using False p(1) assms(1) less.prems pow_res_trim [of l _ y] by (subst verinum_pow.simps) simp
  qed
qed

lemma sbits_replicate_True: "0 < n \<Longrightarrow> sbits (replicate n True) = - 1"
  by (simp add: sbits_ubits ubits_replicate_True last_replicate)

lemma make_m_one_ok:
  assumes "vbits l \<noteq> []" "vhas_sign l"
  shows "pow_res l (- 1) (make_m_one (vlen l) (vhas_len l) True)" "to_int (make_m_one (vlen l) (vhas_len l) True) = - 1"
proof -
  show m: "to_int (make_m_one (vlen l) (vhas_len l) True) = - 1"
    using assms by (auto simp: make_m_one_def to_int_def map_replicate sbits_replicate_True)
  show "pow_res l (- 1) (make_m_one (vlen l) (vhas_len l) True)"
    using m assms by (auto simp: pow_res_def make_m_one_def is_defined_def list_all_iff has_sign_bit_def)
qed

lemma zero_ok:
  assumes "vbits l \<noteq> []"
  shows "pow_res l 0 ((verinum_fill V0 (vlen l) (vhas_len l))\<lparr>vhas_sign := vhas_sign l\<rparr>)"
  using assms by (auto simp: pow_res_def is_defined_def list_all_iff has_sign_bit_def to_int_def uval_def
      map_replicate sbits_ubits last_replicate)

text \<open>The base compared with the constants \<open>-1\<close> and \<open>1\<close>; a signed base of one bit is \<open>0\<close> or \<open>-1\<close>.\<close>

lemma eq_m_one:
  assumes "is_defined l" "vbits l \<noteq> []" "vhas_sign l"
  shows "verinum_eq l (make_m_one (vlen l) (vhas_len l) True) = Some (if to_int l = - 1 then V1 else V0)"
proof -
  let ?m = "make_m_one (vlen l) (vhas_len l) True"
  have "is_defined ?m" "vhas_sign ?m" "vbits ?m \<noteq> []"
    using assms(2) by (auto simp: make_m_one_def is_defined_def list_all_iff)
  then show ?thesis using verinum_eq_value [of l ?m] assms make_m_one_ok(2) [of l] by (simp add: cmp_int_def)
qed

lemma eq_p_one:
  assumes "is_defined l" "vbits l \<noteq> []" "vhas_sign l \<longrightarrow> to_int l \<noteq> - 1" "to_int l \<noteq> 0"
    and "make_p_one (vlen l) (vhas_len l) (vhas_sign l) = Some p"
  shows "verinum_eq l p = Some (if to_int l = 1 then V1 else V0)"
proof -
  obtain q: "pow_res l 1 p" and bs: "vbits p = V1 # replicate ((if vhas_len l then vlen l else 2) - 1) V0"
    using make_p_one_ok [OF assms(2)] assms(5) by auto
  have one: "to_int p = 1"
  proof (cases "vhas_sign l \<and> vhas_len l \<and> vlen l = 1")
    case True
    then have "- 1 \<le> to_int l" "to_int l < 1" using to_int_signed_range [of l] assms(2) by auto
    then show ?thesis using True assms(3,4) by auto
  next
    case False
    have "vhas_sign p = vhas_sign l" using q by (simp add: pow_res_def)
    then show ?thesis
      using False assms(2) bs by (auto simp: to_int_def uval_def map_replicate sbits_ubits last_replicate
          last_ConsR le_Suc_eq split: if_splits)
  qed
  moreover have "is_defined p" "vhas_sign p = vhas_sign l" "vbits p \<noteq> []" using q bs by (auto simp: pow_res_def)
  ultimately show ?thesis
    using verinum_eq_value [of l p] assms(1,2) by (auto simp: cmp_int_def to_int_unsigned)
qed

lemma verinum_pow_negative:
  assumes "is_defined l" "vbits l \<noteq> []" "is_defined r" "to_int r < 0" "has_sign_bit r" "to_int l \<noteq> 0"
  shows "\<exists>res. verinum_pow l r = Some res \<and> pow_res l
    (if to_int l = 1 then 1 else if to_int l = - 1 then (if even (to_int r) then 1 else - 1) else 0) res"
proof -
  obtain p where p: "make_p_one (vlen l) (vhas_len l) (vhas_sign l) = Some p" "pow_res l 1 p"
    using make_p_one_ok [OF assms(2)] by blast
  have rs: "vhas_sign r" using assms(4) to_int_unsigned_range(1) [of r] by auto
  then have rne: "vbits r \<noteq> []" using assms(5) by (simp add: has_sign_bit_def)
  then have neg: "is_negative r = Some True" using is_negative_to_int [of r] assms(4) by simp
  have nz: "\<not> is_zero r" "\<not> is_zero l"
    using assms is_zero_uval to_int_zero_iff [of r] to_int_zero_iff [of l] by (auto simp: has_sign_bit_def)
  have b0: "verinum_get r 0 = Some (if even (to_int r) then V0 else V1)"
    using bit_to_int [OF assms(5), of 0] rne vext_defined [OF assms(3,5), of 0] Vdef_cases [of "vext r 0"]
    by (auto simp: verinum_get_def vext_def bit_0)
  have um: "\<not> vhas_sign l \<Longrightarrow> to_int l \<noteq> - 1" using to_int_unsigned_range(1) [of l] by auto
  let ?z = "(verinum_fill V0 (vlen l) (vhas_len l))\<lparr>vhas_sign := vhas_sign l\<rparr>"
  let ?m = "make_m_one (vlen l) (vhas_len l) (vhas_sign l)"
  define res where "res = (if to_int l = 1 then p else if to_int l = - 1
     then (if even (to_int r) then p else ?m) else ?z)"
  have eqm: "(if vhas_sign l then verinum_eq l ?m else Some V0) = Some (if to_int l = - 1 then V1 else V0)"
    using eq_m_one [OF assms(1,2)] um by (cases "vhas_sign l") auto
  have eqp: "to_int l \<noteq> - 1 \<Longrightarrow> verinum_eq l p = Some (if to_int l = 1 then V1 else V0)"
    using eq_p_one [OF assms(1,2) _ assms(6) p(1)] by blast
  have "verinum_pow l r = trim_vnum res"
    using p(1) assms(1,3) neg nz b0 eqm eqp by (subst verinum_pow.simps) (simp add: res_def)
  moreover have "pow_res l (if to_int l = 1 then 1 else if to_int l = - 1
      then (if even (to_int r) then 1 else - 1) else 0) res"
    using p(2) zero_ok [OF assms(2)] make_m_one_ok(1) [OF assms(2)] um
    by (cases "vhas_sign l") (auto simp: res_def)
  ultimately show ?thesis using pow_res_trim by metis
qed

end
