(* ===== verification/Verinum_Props.thy ===== *)
theory Verinum_Props
  imports Verinum_Pow
begin

text \<open>
  The properties of the compiler's number class, each stated over the definitions that model
  verinum.cc, with an instance on concrete numbers where a property has hypotheses.
\<close>

text \<open>A number with its bits (least significant first), its sized flag and its signed flag.\<close>

abbreviation vnum :: "V list \<Rightarrow> bool \<Rightarrow> bool \<Rightarrow> verinum" where
  "vnum bs h s \<equiv> \<lparr>vbits = bs, vhas_len = h, vhas_sign = s, vis_single = False, vstring_flag = False\<rparr>"

lemmas vnum_eval = is_defined_def has_sign_bit_def uval_def to_int_def sbits_ubits

section \<open>Arithmetic\<close>

text \<open>
  Addition never aborts on defined operands: the result holds the low bits of the integer sum;
  two sized operands give the width of the wider one; if an operand is unsized and both have the
  same signedness, the width grows so that the result is the exact sum.
\<close>

theorem add_correct:
  assumes "is_defined l" "is_defined r" "has_sign_bit l" "has_sign_bit r"
  shows "\<exists>res. verinum_add l r = Some res \<and> is_defined res \<and>
    vhas_len res = (vhas_len l \<and> vhas_len r) \<and> vhas_sign res = (vhas_sign l \<and> vhas_sign r) \<and>
    uval res = take_bit (vlen res) (to_int l + to_int r) \<and>
    (vhas_len res \<longrightarrow> vlen res = max (vlen l) (vlen r)) \<and>
    (\<not> vhas_len res \<longrightarrow> vhas_sign l = vhas_sign r \<longrightarrow> to_int res = to_int l + to_int r)"
  using assms by (rule verinum_add_ok)

theorem add_correct_witness:
  "\<exists>res. verinum_add (vnum [V1, V1] False False) (vnum [V1] False False) = Some res \<and> to_int res = 4"
  using add_correct [of "vnum [V1, V1] False False" "vnum [V1] False False"] by (auto simp: vnum_eval)

text \<open>
  Subtraction and negation of defined numbers: the low bits of the integer difference (negation)
  at the width of the wider operand, and the exact value for unsized signed operands, whose width
  grows where it has to.
\<close>

theorem sub_neg_correct:
  assumes "is_defined l" "is_defined r" "has_sign_bit l" "has_sign_bit r"
  shows "\<exists>d n. verinum_sub l r = Some d \<and> verinum_neg r = Some n \<and> is_defined d \<and> is_defined n \<and>
    uval d = take_bit (vlen d) (to_int l - to_int r) \<and> uval n = take_bit (vlen n) (- to_int r) \<and>
    (\<not> vhas_sign d \<or> vhas_len d \<longrightarrow> vlen d = max (vlen l) (vlen r)) \<and>
    (\<not> vhas_len d \<longrightarrow> vhas_sign d \<longrightarrow> to_int d = to_int l - to_int r) \<and>
    (\<not> vhas_len r \<longrightarrow> vhas_sign r \<longrightarrow> to_int n = - to_int r)"
  using verinum_sub_ok [OF assms] verinum_neg_ok [OF assms(2,4)] by auto

theorem sub_neg_correct_witness:
  "\<exists>d n. verinum_sub (vnum [V0, V1] True True) (vnum [V1, V0] True True) = Some d \<and>
    verinum_neg (vnum [V1, V0] True True) = Some n \<and>
    uval d = take_bit (vlen d) (- 3) \<and> uval n = take_bit (vlen n) (- 1)"
proof -
  let ?l = "vnum [V0, V1] True True" and ?r = "vnum [V1, V0] True True"
  have "to_int ?l = - 2" "to_int ?r = 1" by (simp_all add: vnum_eval)
  moreover have "is_defined ?l" "is_defined ?r" "has_sign_bit ?l" "has_sign_bit ?r" by (simp_all add: vnum_eval)
  ultimately show ?thesis using sub_neg_correct [of ?l ?r] by fastforce
qed

text \<open>
  C28. Multiplication of defined numbers: sized operands give the product modulo the wider width,
  otherwise operands of the same signedness give the exact product. For an unsized operand with another one of the other
  signedness nothing is said of the value.
\<close>

theorem mul_correct:
  assumes "is_defined l" "is_defined r" "has_sign_bit l" "has_sign_bit r"
  shows "\<exists>res. verinum_mul l r = Some res \<and> is_defined res \<and> vhas_sign res = (vhas_sign l \<and> vhas_sign r) \<and>
    (if vhas_len l \<and> vhas_len r
     then vlen res = max (vlen l) (vlen r) \<and> uval res = take_bit (vlen res) (to_int l * to_int r)
     else vhas_sign l = vhas_sign r \<longrightarrow> to_int res = to_int l * to_int r)"
  using verinum_mul_ok [OF assms] by auto

theorem mul_correct_witness:
  "\<exists>res. verinum_mul (vnum [V1, V1] False True) (vnum [V1, V1, V0] True True) = Some res \<and> to_int res = - 3"
  using mul_correct [of "vnum [V1, V1] False True" "vnum [V1, V1, V0] True True"] by (auto simp: vnum_eval)

text \<open>
  C27. Division of defined numbers of the same signedness by a number that is not zero truncates
  towards zero, by the native path (both operands of at most 64 bits) and by the shift-and-subtract loop (a dividend of more
  than 64 bits) alike. The only result that does not fit is the least number divided by \<open>-1\<close>, which wraps. Left out is a
  dividend of at most 64 bits with a divisor of more than 64 bits: there the native path, taken but for a signed dividend of
  exactly 64 bits, cuts the divisor to 64 bits, and the quotient can be wrong.
\<close>

theorem div_correct:
  assumes "is_defined l" "is_defined r" "has_sign_bit l" "vhas_sign l = vhas_sign r" "uval r \<noteq> 0"
    and "vlen l \<le> 64 \<longrightarrow> vlen r \<le> 64"
  shows "\<exists>res. verinum_div l r = Some res \<and> is_defined res \<and> vhas_sign res = vhas_sign l \<and>
    (vhas_len l \<and> vhas_len r \<longrightarrow> vhas_len res \<and> vlen res = vlen l \<and>
       uval res = take_bit (vlen l) (to_int l sdiv to_int r)) \<and>
    (\<not> (vhas_sign l \<and> to_int l = - (2 ^ (vlen l - 1)) \<and> to_int r = - 1) \<longrightarrow>
       to_int res = to_int l sdiv to_int r)"
  using assms by (rule verinum_div_ok)

theorem div_correct_witness:
  "\<exists>res. verinum_div (vnum [V1, V0, V0, V1] True True) (vnum [V0, V1, V0] True True) = Some res \<and>
    to_int res = - 3 \<and> vlen res = 4"
  using div_correct [of "vnum [V1, V0, V0, V1] True True" "vnum [V0, V1, V0] True True"]
  by (auto simp: vnum_eval signed_divide_int_def)

text \<open>
  The modulus has the sign of the dividend and is exact at the width of the dividend.
\<close>

theorem mod_correct:
  assumes "is_defined l" "is_defined r" "has_sign_bit l" "vhas_sign l = vhas_sign r" "uval r \<noteq> 0"
    and "vlen l \<le> 64 \<longrightarrow> vlen r \<le> 64"
  shows "\<exists>res. verinum_mod l r = Some res \<and> is_defined res \<and> vhas_sign res = vhas_sign l \<and>
    (vhas_len l \<and> vhas_len r \<longrightarrow> vhas_len res \<and> vlen res = vlen l) \<and>
    to_int res = to_int l smod to_int r"
  using assms by (rule verinum_mod_ok)

theorem mod_correct_witness:
  "\<exists>res. verinum_mod (vnum [V1, V0, V0, V1] True True) (vnum [V0, V1, V0] True True) = Some res \<and> to_int res = - 1"
  using mod_correct [of "vnum [V1, V0, V0, V1] True True" "vnum [V0, V1, V0] True True"]
  by (auto simp: vnum_eval signed_modulo_int_def)

text \<open>
  C33. The power with an exponent that is not negative terminates and is the integer power of the
  base, modulo the width of a sized base.
\<close>

theorem pow_correct:
  assumes "is_defined l" "vbits l \<noteq> []" "is_defined r" "vbits r \<noteq> []" "0 \<le> to_int r"
  shows "\<exists>res. verinum_pow l r = Some res \<and> is_defined res \<and> vhas_sign res = vhas_sign l \<and>
    (if vhas_len l then vlen res = vlen l \<and> uval res = take_bit (vlen l) (to_int l ^ nat (to_int r))
     else to_int res = to_int l ^ nat (to_int r))"
proof -
  have "is_negative r = Some False" using is_negative_to_int [OF assms(4)] assms(5) by simp
  from verinum_pow_nonneg [OF assms(1-3) this] obtain res
    where res: "verinum_pow l r = Some res" "pow_res l (to_int l ^ nat (to_int r)) res" by blast
  then show ?thesis using pow_res_uval [OF res(2)] by (auto simp: pow_res_def)
qed

theorem pow_correct_witness:
  "\<exists>res. verinum_pow (vnum [V1, V0, V1] False True) (vnum [V1, V1, V0] True True) = Some res \<and> to_int res = - 27"
  using pow_correct [of "vnum [V1, V0, V1] False True" "vnum [V1, V1, V0] True True"] by (auto simp: vnum_eval)

text \<open>
  The power with a negative exponent follows the table of the standard: \<open>1\<close> for the base \<open>1\<close>,
  \<open>1\<close> or \<open>-1\<close> for the base \<open>-1\<close> by the parity of the exponent, \<open>0\<close> for every other base but \<open>0\<close>.
\<close>

theorem pow_negative_correct:
  assumes "is_defined l" "vbits l \<noteq> []" "is_defined r" "has_sign_bit r" "to_int r < 0" "to_int l \<noteq> 0"
  shows "\<exists>res. verinum_pow l r = Some res \<and> is_defined res \<and>
    uval res = take_bit (vlen res)
      (if to_int l = 1 then 1 else if to_int l = - 1 then (if even (to_int r) then 1 else - 1) else 0)"
proof -
  let ?x = "if to_int l = 1 then 1 else if to_int l = - 1 then (if even (to_int r) then 1 else - 1) else 0 :: int"
  obtain res where res: "verinum_pow l r = Some res" "pow_res l ?x res"
    using verinum_pow_negative [OF assms(1-3) assms(5) assms(4) assms(6)] by blast
  then have "is_defined res" by (simp add: pow_res_def)
  with res(1) pow_res_uval [OF res(2)] show ?thesis by blast
qed

theorem pow_negative_correct_witness:
  "\<exists>res. verinum_pow (vnum [V1, V1] True True) (vnum [V1, V1] True True) = Some res \<and> is_defined res"
  using pow_negative_correct [of "vnum [V1, V1] True True" "vnum [V1, V1] True True"] by (auto simp: vnum_eval)

text \<open>
  The shifts: a left shift multiplies by a power of two (modulo the width of a sized number), a
  right shift divides by it, rounding down, so that it is arithmetic on signed numbers.
\<close>

theorem shift_correct:
  assumes "is_defined v" "has_sign_bit v"
  shows "\<exists>a b. verinum_shl v k = Some a \<and> verinum_shr v k = Some b \<and> is_defined a \<and> is_defined b \<and>
    (if vhas_len v then vlen a = vlen v \<and> uval a = take_bit (vlen v) (2 ^ k * to_int v)
     else to_int a = 2 ^ k * to_int v) \<and>
    to_int b = to_int v div 2 ^ k"
  using verinum_shl_ok [OF assms(2), of k] verinum_shr_ok [OF assms(2), of k] assms(1) by auto

theorem shift_correct_witness:
  "\<exists>a b. verinum_shl (vnum [V1, V0, V1] False True) 2 = Some a \<and>
    verinum_shr (vnum [V1, V0, V1] False True) 1 = Some b \<and> to_int a = - 12 \<and> to_int b = - 2"
proof -
  let ?v = "vnum [V1, V0, V1] False True"
  have "is_defined ?v" "has_sign_bit ?v" and v: "to_int ?v = - 3" by (simp_all add: vnum_eval)
  note c = shift_correct [OF this(1,2)]
  show ?thesis using c [of 2] c [of 1] by (simp add: v) blast
qed

text \<open>
  An unknown operand, or a divisor that is zero, makes every bit of the result unknown, at any
  width and signedness: addition, subtraction, multiplication, division and modulus.
\<close>

theorem unknown_operand:
  assumes "\<not> is_defined l \<or> \<not> is_defined r"
  shows "\<forall>f \<in> {verinum_add, verinum_sub, verinum_mul, verinum_div, verinum_mod}.
    \<exists>res. f l r = Some res \<and> set (vbits res) \<subseteq> {Vx}"
  using assms by (auto simp: verinum_add_def verinum_sub_def verinum_mul_def verinum_div_def verinum_mod_def Let_def)

theorem unknown_operand_witness:
  "\<exists>res. verinum_div (vnum [V1, Vz] True True) (vnum [V1] True False) = Some res \<and> set (vbits res) \<subseteq> {Vx}"
proof -
  have "\<not> is_defined (vnum [V1, Vz] True True) \<or> \<not> is_defined (vnum [V1] True False)" by (simp add: is_defined_def)
  from unknown_operand [OF this] show ?thesis by blast
qed

text \<open>
  Bitwise complement and concatenation: the complement is \<open>-x-1\<close>, modulo the width of an
  unsigned number, and concatenation puts the right operand below the left one.
\<close>

lemma complement_concat_correct:
  assumes "is_defined v" "\<not> (vstring_flag l \<and> vstring_flag v)"
  shows "is_defined (verinum_not v) \<and> uval (verinum_not v) = take_bit (vlen v) (- to_int v - 1) \<and>
    (\<exists>res. verinum_concat l v = Some res \<and> vlen res = vlen l + vlen v \<and>
       uval res = uval v + 2 ^ vlen v * uval l)"
proof -
  obtain res where "verinum_concat l v = Some res" "vbits res = vbits v @ vbits l"
    using verinum_concat_bits [OF assms(2)] by blast
  then show ?thesis
    using verinum_not_value(1,2) [OF assms(1)] by (simp add: uval_def ubits_append not_int_def)
qed

lemma complement_concat_correct_witness:
  "uval (verinum_not (vnum [V1, V0] True False)) = 2 \<and>
   (\<exists>res. verinum_concat (vnum [V1] True False) (vnum [V1, V0] True False) = Some res \<and> uval res = 5)"
  using complement_concat_correct [of "vnum [V1, V0] True False" "vnum [V1] True False"]
  by (auto simp: vnum_eval take_bit_eq_mod)

section \<open>Relations\<close>

text \<open>
  C34. The relational operators on defined numbers decide the order of the integers they denote:
  signed if both operands are signed, otherwise of the stored bits read as unsigned. Operands of
  different widths are padded.
\<close>

theorem relational_correct:
  assumes "is_defined l" "is_defined r" "vbits l \<noteq> []" "vbits r \<noteq> []"
  shows "let x = cmp_int l r l; y = cmp_int l r r; V = (\<lambda>b. Some (if b then V1 else V0)) in
    verinum_lt l r = V (x < y) \<and> verinum_le l r = V (x \<le> y) \<and> verinum_gt l r = V (x > y) \<and>
    verinum_ge l r = V (x \<ge> y) \<and> verinum_eq l r = V (x = y) \<and> verinum_ne l r = V (x \<noteq> y)"
proof -
  have sym: "cmp_int r l v = cmp_int l r v" for v by (auto simp: cmp_int_def)
  have lt: "verinum_lt l r = Some (if cmp_int l r l < cmp_int l r r then V1 else V0)"
    "verinum_le l r = Some (if cmp_int l r l \<le> cmp_int l r r then V1 else V0)"
    using verinum_cmp_value [of l r] assms by (auto simp: verinum_lt_def verinum_le_def)
  have gt: "verinum_gt l r = Some (if cmp_int l r l > cmp_int l r r then V1 else V0)"
    "verinum_ge l r = Some (if cmp_int l r l \<ge> cmp_int l r r then V1 else V0)"
    using verinum_cmp_value [of r l] assms
    by (auto simp: verinum_gt_def verinum_ge_def verinum_lt_def verinum_le_def sym)
  have "verinum_eq l r = Some (if cmp_int l r l = cmp_int l r r then V1 else V0)"
    using verinum_eq_value [of l r] assms by auto
  then show ?thesis using lt gt by (simp add: Let_def verinum_ne_def)
qed

theorem relational_correct_witness:
  "verinum_lt (vnum [V1, V1, V1] True True) (vnum [V1, V0] True True) = Some V1 \<and>
   verinum_lt (vnum [V1, V1, V1] True True) (vnum [V1, V0] True False) = Some V0"
  using relational_correct [of "vnum [V1, V1, V1] True True" "vnum [V1, V0] True True"]
    relational_correct [of "vnum [V1, V1, V1] True True" "vnum [V1, V0] True False"]
  by (simp add: vnum_eval cmp_int_def)

text \<open>
  The comparison for sorting is a strict total order on the bit strings.
\<close>

lemma is_before_strict_order:
  "\<not> is_before u u \<and> (is_before u v \<and> is_before v w \<longrightarrow> is_before u w) \<and>
   (is_before u v \<or> is_before v u \<or> vbits u = vbits v)"
  using is_before_irrefl is_before_trans is_before_total by blast

lemma is_before_strict_order_witness:
  "is_before (vnum [V1] True False) (vnum [V0, V1] True False)"
  using is_before_strict_order [of "vnum [V1] True False" "vnum [Vx] True False" "vnum [V0, V1] True False"]
  by (simp add: is_before_def less_V_def)

section \<open>Conversions\<close>

text \<open>
  The native readings of a defined number: the unsigned ones saturate at the largest native
  value, and the signed one is exact on the range of \<open>long\<close>.
\<close>

lemma native_readings:
  assumes "is_defined v" "has_sign_bit v"
  shows "uint (as_ulong v) = min (uval v) (2 ^ 64 - 1) \<and> uint (as_unsigned v) = min (uval v) (2 ^ 32 - 1) \<and>
    (- (2 ^ 63) \<le> to_int v \<and> to_int v < 2 ^ 63 \<longrightarrow> sint (as_long v) = to_int v)"
  using as_ulong_value [OF assms(1)] as_long_exact [OF assms] assms(1)
    native_loop_uval [where v = v and 'w = 32]
  by (auto simp: as_unsigned_def uval_def)

lemma native_readings_witness:
  "uint (as_unsigned (vnum (replicate 40 V1) True False)) = 2 ^ 32 - 1"
proof -
  have "is_defined (vnum (replicate 40 V1) True False)" by (simp add: is_defined_def list_all_iff)
  moreover have "uval (vnum (replicate 40 V1) True False) = 2 ^ 40 - 1"
    by (simp add: uval_def map_replicate ubits_replicate_True)
  ultimately show ?thesis
    using native_readings [of "vnum (replicate 40 V1) True False"] by (simp add: has_sign_bit_def)
qed

text \<open>
  A constant made from a native integer, cast to a width: the number denotes the integer it was
  made from, and the cast keeps its low bits (so a widening cast of it extends the sign).
\<close>

lemma int64_cast:
  "to_int (verinum_int64 v) = v \<and>
   (\<exists>r. cast_to_width (verinum_int64 v) n = Some r \<and> vhas_len r \<and> vlen r = n \<and> uval r = take_bit n v)"
  using cast_to_width_bits [of "verinum_int64 v" n] verinum_int64_value [of v] by auto

text \<open>
  Trimming an unsized number keeps its value and its flags, never widens it, and is the identity
  on a sized number.
\<close>

lemma trim_correct:
  assumes "has_sign_bit v"
  shows "\<exists>r. trim_vnum v = Some r \<and> to_int r = to_int v \<and> vhas_sign r = vhas_sign v \<and>
    vhas_len r = vhas_len v \<and> vlen r \<le> vlen v \<and> (is_defined v \<longrightarrow> is_defined r) \<and> (vhas_len v \<longrightarrow> r = v)"
proof -
  obtain r where r: "trim_vnum v = Some r" using trim_vnum_ok [of v] by blast
  then show ?thesis using trim_vnum_value [OF r assms] trim_defined [OF r] by auto
qed

lemma trim_correct_witness:
  "\<exists>r. trim_vnum (vnum [V1, V1, V1, V1] False True) = Some r \<and> to_int r = - 1"
  using trim_correct [of "vnum [V1, V1, V1, V1] False True"] by (auto simp: vnum_eval)

section \<open>Strings\<close>

text \<open>
  C30. A number of whole bytes printed as a string literal, with its quotes and control bytes
  escaped, reads back as the same bits (unknown bits as zero).
\<close>

theorem string_roundtrip:
  assumes "vlen v mod 8 = 0" "vbits v \<noteq> []"
  shows "\<exists>s w. as_string v = Some s \<and> verinum_string s = Some w \<and>
    vbits w = map (\<lambda>b. if b = V1 then V1 else V0) (vbits v)"
  using assms by (rule as_string_roundtrip)

theorem string_roundtrip_witness:
  "\<exists>s w. as_string (vnum [V0, V1, V0, V0, V0, V1, V0, V0] True False) = Some s \<and> verinum_string s = Some w \<and>
    vbits w = [V0, V1, V0, V0, V0, V1, V0, V0]"
  using string_roundtrip [of "vnum [V0, V1, V0, V0, V0, V1, V0, V0] True False"] by simp

end
