(* ===== verification/Vvp_Bit4.thy ===== *)
theory Vvp_Bit4
  imports Prelude
begin

text \<open>
  The four-valued bits of the simulator (\<open>vvp_bit4_t\<close> of vvp/vvp_net.h and vvp/vvp_net.cc). The
  operators work on the numeric encoding of the enumeration; the lemmas give their truth tables, the
  law of the one-bit adder and the meaning of the edge masks.
\<close>

section \<open>The enumeration and its encoding\<close>

datatype vvp_bit4_t = BIT4_0 | BIT4_1 | BIT4_X | BIT4_Z

primrec bit4_int :: "vvp_bit4_t \<Rightarrow> nat" where
  "bit4_int BIT4_0 = 0"
| "bit4_int BIT4_1 = 1"
| "bit4_int BIT4_X = 3"
| "bit4_int BIT4_Z = 2"

text \<open>The cast \<open>(vvp_bit4_t) n\<close>; the source casts only numbers below four.\<close>

definition bit4_cast :: "nat \<Rightarrow> vvp_bit4_t" where
  "bit4_cast n = (if n = 0 then BIT4_0 else if n = 1 then BIT4_1 else if n = 2 then BIT4_Z
     else if n = 3 then BIT4_X else undefined)"

definition vvp_bit4_to_ascii :: "vvp_bit4_t \<Rightarrow> char" where
  "vvp_bit4_to_ascii a = ''01zx'' ! bit4_int a"

definition bit4_is_xz :: "vvp_bit4_t \<Rightarrow> bool" where
  "bit4_is_xz a \<longleftrightarrow> bit4_int a \<ge> 2"

section \<open>Operators\<close>

definition vvp_bit4_z2x :: "vvp_bit4_t \<Rightarrow> vvp_bit4_t" where
  "vvp_bit4_z2x a = bit4_cast (bit4_int a OR drop_bit 1 (bit4_int a))"

definition bit4_not :: "vvp_bit4_t \<Rightarrow> vvp_bit4_t" where
  "bit4_not a = vvp_bit4_z2x (bit4_cast (bit4_int a XOR 1))"

definition bit4_or :: "vvp_bit4_t \<Rightarrow> vvp_bit4_t \<Rightarrow> vvp_bit4_t" where
  "bit4_or a b = (if a = BIT4_1 \<or> b = BIT4_1 then BIT4_1 else vvp_bit4_z2x (bit4_cast (bit4_int a OR bit4_int b)))"

definition bit4_and :: "vvp_bit4_t \<Rightarrow> vvp_bit4_t \<Rightarrow> vvp_bit4_t" where
  "bit4_and a b = (if a = BIT4_0 \<or> b = BIT4_0 then BIT4_0 else vvp_bit4_z2x (bit4_cast (bit4_int a OR bit4_int b)))"

definition bit4_xor :: "vvp_bit4_t \<Rightarrow> vvp_bit4_t \<Rightarrow> vvp_bit4_t" where
  "bit4_xor a b =
     (if bit4_is_xz a then BIT4_X
      else if bit4_is_xz b then BIT4_X
      else if a = BIT4_0 then b
      else if b = BIT4_0 then a
      else BIT4_0)"

text \<open>
  The one-bit adder: the result and the new carry. The \<open>assert(0)\<close> behind the switch is not
  reachable, because the sum of three bits is at most three.
\<close>

definition bit4_add_with_carry :: "vvp_bit4_t \<Rightarrow> vvp_bit4_t \<Rightarrow> vvp_bit4_t \<Rightarrow> vvp_bit4_t \<times> vvp_bit4_t" where
  "bit4_add_with_carry a b c =
     (if bit4_is_xz a \<or> bit4_is_xz b \<or> bit4_is_xz c then (BIT4_X, BIT4_X)
      else let sum1 = bit4_int a + bit4_int b + bit4_int c in
        if sum1 = 0 then (BIT4_0, c)
        else if sum1 = 1 then (BIT4_1, BIT4_0)
        else if sum1 = 2 then (BIT4_0, BIT4_1)
        else (BIT4_1, BIT4_1))"

text \<open>The scalar constants of the VPI and their conversion; any other code aborts.\<close>

definition scalar_to_bit4 :: "int \<Rightarrow> vvp_bit4_t option" where
  "scalar_to_bit4 scalar =
     (if scalar = 0 then Some BIT4_0
      else if scalar = 1 then Some BIT4_1
      else if scalar = 3 then Some BIT4_X
      else if scalar = 2 then Some BIT4_Z
      else None)"

section \<open>Edges\<close>

definition VVP_EDGE :: "vvp_bit4_t \<Rightarrow> vvp_bit4_t \<Rightarrow> 16 word" where
  "VVP_EDGE from to = push_bit (push_bit 2 (bit4_int from) OR bit4_int to) 1"

definition vvp_edge_posedge :: "16 word" where
  "vvp_edge_posedge = VVP_EDGE BIT4_0 BIT4_1 OR VVP_EDGE BIT4_0 BIT4_X OR VVP_EDGE BIT4_0 BIT4_Z
     OR VVP_EDGE BIT4_X BIT4_1 OR VVP_EDGE BIT4_Z BIT4_1"

definition vvp_edge_negedge :: "16 word" where
  "vvp_edge_negedge = VVP_EDGE BIT4_1 BIT4_0 OR VVP_EDGE BIT4_1 BIT4_X OR VVP_EDGE BIT4_1 BIT4_Z
     OR VVP_EDGE BIT4_X BIT4_0 OR VVP_EDGE BIT4_Z BIT4_0"

definition edge :: "vvp_bit4_t \<Rightarrow> vvp_bit4_t \<Rightarrow> int" where
  "edge from to =
     (let msk = VVP_EDGE from to in
      if msk AND vvp_edge_posedge \<noteq> 0 then 1
      else if msk AND vvp_edge_negedge \<noteq> 0 then - 1
      else 0)"

text \<open>\<open>update_driver_counts\<close>: the drivers of value 0, 1 and X; a Z does not drive.\<close>

definition update_driver_counts :: "vvp_bit4_t \<Rightarrow> nat \<times> nat \<times> nat \<Rightarrow> nat \<times> nat \<times> nat" where
  "update_driver_counts b counts =
     (case counts of (c0, c1, c2) \<Rightarrow>
        case b of BIT4_0 \<Rightarrow> (c0 + 1, c1, c2) | BIT4_1 \<Rightarrow> (c0, c1 + 1, c2)
          | BIT4_X \<Rightarrow> (c0, c1, c2 + 1) | BIT4_Z \<Rightarrow> (c0, c1, c2))"

section \<open>Truth tables\<close>

lemma bit4_cast_int [simp]: "bit4_cast (bit4_int a) = a"
  by (cases a) (simp_all add: bit4_cast_def)

lemma bit4_int_inject [simp]: "bit4_int a = bit4_int b \<longleftrightarrow> a = b"
  by (cases a; cases b) simp_all

lemma bit4_is_xz_iff: "bit4_is_xz a \<longleftrightarrow> a = BIT4_X \<or> a = BIT4_Z"
  by (cases a) (simp_all add: bit4_is_xz_def)

lemma vvp_bit4_z2x_table: "vvp_bit4_z2x a = (if a = BIT4_Z then BIT4_X else a)"
  by (cases a) (simp_all add: vvp_bit4_z2x_def bit4_cast_def drop_bit_Suc)

lemma bit4_not_table: "bit4_not a = (case a of BIT4_0 \<Rightarrow> BIT4_1 | BIT4_1 \<Rightarrow> BIT4_0 | _ \<Rightarrow> BIT4_X)"
  by (cases a) (simp_all add: bit4_not_def bit4_cast_def vvp_bit4_z2x_table)

lemma bit4_or_table:
  "bit4_or a b = (if a = BIT4_1 \<or> b = BIT4_1 then BIT4_1 else if a = BIT4_0 \<and> b = BIT4_0 then BIT4_0 else BIT4_X)"
  by (cases a; cases b) (simp_all add: bit4_or_def bit4_cast_def vvp_bit4_z2x_table)

lemma bit4_and_table:
  "bit4_and a b = (if a = BIT4_0 \<or> b = BIT4_0 then BIT4_0 else if a = BIT4_1 \<and> b = BIT4_1 then BIT4_1 else BIT4_X)"
  by (cases a; cases b) (simp_all add: bit4_and_def bit4_cast_def vvp_bit4_z2x_table)

lemma bit4_xor_table:
  "bit4_xor a b = (if bit4_is_xz a \<or> bit4_is_xz b then BIT4_X else if a = b then BIT4_0 else BIT4_1)"
  by (cases a; cases b) (simp_all add: bit4_xor_def bit4_is_xz_iff)

lemmas bit4_tables = bit4_is_xz_iff vvp_bit4_z2x_table bit4_not_table bit4_or_table bit4_and_table bit4_xor_table

interpretation b4: digit_adder bit4_add_with_carry "\<lambda>b. of_bool (b = BIT4_1)" "\<lambda>b. \<not> bit4_is_xz b" 2
proof
  fix a b c s c' :: vvp_bit4_t
  assume "\<not> bit4_is_xz a" "\<not> bit4_is_xz b" "\<not> bit4_is_xz c" "bit4_add_with_carry a b c = (s, c')"
  then show "\<not> bit4_is_xz s \<and> \<not> bit4_is_xz c' \<and> of_bool (c' = BIT4_1) \<le> (1 :: int) \<and>
    of_bool (s = BIT4_1) + 2 * of_bool (c' = BIT4_1)
      = (of_bool (a = BIT4_1) + of_bool (b = BIT4_1) + of_bool (c = BIT4_1) :: int)"
    by (cases a; cases b; cases c) (auto simp: bit4_add_with_carry_def bit4_is_xz_iff)
qed simp_all

lemma bit4_add_xz:
  "bit4_is_xz a \<or> bit4_is_xz b \<or> bit4_is_xz c \<Longrightarrow> bit4_add_with_carry a b c = (BIT4_X, BIT4_X)"
  by (simp add: bit4_add_with_carry_def)

text \<open>Once a carry is unknown, every further bit is unknown.\<close>

lemma carry_run_unknown:
  "length xs = length ys \<Longrightarrow> carry_run bit4_add_with_carry xs ys BIT4_X = (replicate (length xs) BIT4_X, BIT4_X)"
  by (induction xs ys rule: list_induct2) (simp_all add: bit4_add_xz bit4_is_xz_iff)

section \<open>The edge table\<close>

text \<open>The height of a level: a transition upwards is a positive edge, one downwards a negative edge.\<close>

primrec bit4_level :: "vvp_bit4_t \<Rightarrow> int" where
  "bit4_level BIT4_0 = 0"
| "bit4_level BIT4_1 = 2"
| "bit4_level BIT4_X = 1"
| "bit4_level BIT4_Z = 1"

lemma edge_level: "edge a b = sgn (bit4_level b - bit4_level a)"
  by (cases a; cases b) (simp_all add: edge_def VVP_EDGE_def vvp_edge_posedge_def vvp_edge_negedge_def)

end
