(* ===== verification/Vvp_Word.thy ===== *)
theory Vvp_Word
  imports Prelude
begin

text \<open>
  The arithmetic on arrays of \<open>unsigned long\<close> that the vector classes of the simulator share: two
  digit adders and two double-word multipliers (vvp/vvp_net.h, vvp/vvp_net.cc). Both adders are
  interpreted as digit adders of radix \<open>2\<^sup>6\<^sup>4\<close>; both multipliers return the full product.
\<close>

section \<open>Definitions\<close>

text \<open>\<open>add_with_carry(unsigned long, unsigned long, unsigned long&)\<close>: the sum and the new carry.\<close>

definition ul_add_with_carry :: "ulong \<Rightarrow> ulong \<Rightarrow> ulong \<Rightarrow> ulong \<times> ulong" where
  "ul_add_with_carry a b carry =
     (let tmp = b + carry;
          sum = a + tmp;
          carry = 0;
          carry = (if tmp < b then 1 else carry);
          carry = (if sum < tmp then 1 else carry);
          carry = (if sum < a then 1 else carry)
      in (sum, carry))"

abbreviation ULONG_MAX :: ulong where "ULONG_MAX \<equiv> - 1"

definition add_carry :: "ulong \<Rightarrow> ulong \<Rightarrow> ulong \<Rightarrow> ulong \<times> ulong" where
  "add_carry a b carry =
     (let out = carry;
          carry = 0;
          carry = (if ULONG_MAX - out < a then carry + 1 else carry);
          out = out + a;
          carry = (if ULONG_MAX - out < b then carry + 1 else carry);
          out = out + b
      in (out, carry))"

text \<open>The low word of the product and, as the second component, the carry (its high word).\<close>

definition multiply_with_carry :: "ulong \<Rightarrow> ulong \<Rightarrow> ulong \<times> ulong" where
  "multiply_with_carry a b =
     (let msk = ul_shl 1 32 - 1;
          a0 = a AND msk;
          a1 = ul_shr a 32 AND msk;
          b0 = b AND msk;
          b1 = ul_shr b 32 AND msk;
          tmp = a0 * b0;
          r00 = tmp AND msk;
          c00 = ul_shr tmp 32 AND msk;
          tmp = a0 * b1;
          r01 = tmp AND msk;
          c01 = ul_shr tmp 32 AND msk;
          tmp = a1 * b0;
          r10 = tmp AND msk;
          c10 = ul_shr tmp 32 AND msk;
          tmp = a1 * b1;
          r11 = tmp AND msk;
          c11 = ul_shr tmp 32 AND msk;
          r1 = c00 + r01 + r10;
          r2 = ul_shr r1 32 AND msk;
          r1 = r1 AND msk;
          r2 = r2 + (c01 + c10 + r11);
          r3 = ul_shr r2 32 AND msk;
          r2 = r2 AND msk;
          r3 = r3 + c11;
          r3 = r3 AND msk
      in (ul_shl r1 32 + r00, ul_shl r3 32 + r2))"

text \<open>The pair of \<open>low\<close> and \<open>high\<close>.\<close>

definition multiply_long :: "ulong \<Rightarrow> ulong \<Rightarrow> ulong \<times> ulong" where
  "multiply_long a b =
     (let word_mask = ul_shl 1 32 - 1;
          tmpa = a AND word_mask;
          tmpb = b AND word_mask;
          res0 = tmpa * tmpb;
          res1 = ul_shr res0 32;
          res0 = res0 AND word_mask;
          tmpa = ul_shr a 32 AND word_mask;
          res1 = res1 + tmpa * tmpb;
          res2 = ul_shr res1 32;
          res1 = res1 AND word_mask;
          tmpa = a AND word_mask;
          tmpb = ul_shr b 32 AND word_mask;
          res1 = res1 + tmpa * tmpb;
          res2 = res2 + ul_shr res1 32;
          res3 = ul_shr res2 32;
          res1 = res1 AND word_mask;
          res2 = res2 AND word_mask;
          tmpa = ul_shr a 32 AND word_mask;
          res2 = res2 + tmpa * tmpb;
          res3 = res3 + ul_shr res2 32;
          res2 = res2 AND word_mask
      in (ul_shl res1 32 OR res0, ul_shl res3 32 OR res2))"

section \<open>The adders\<close>

lemma uint_plus_64: "uint (a + b :: ulong) = (if uint a + uint b < 2 ^ 64 then uint a + uint b else uint a + uint b - 2 ^ 64)"
  by (simp add: uint_plus_if_size word_size)

lemma uint_lt_64: "uint (a :: ulong) < 2 ^ 64" "0 \<le> uint a"
  using uint_bounded [of a] by simp_all

interpretation uw: digit_adder ul_add_with_carry uint "\<lambda>_. True" "2 ^ 64"
proof
  fix a b c s c' :: ulong
  assume c: "uint c \<le> 1" and r: "ul_add_with_carry a b c = (s, c')"
  have sum: "s = a + (b + c)" and car: "c' = (if b + c < b \<or> s < b + c \<or> s < a then 1 else 0)"
    using r by (auto simp: ul_add_with_carry_def Let_def split: if_splits)
  define A B C where "A = uint a" and "B = uint b" and "C = uint c"
  have b: "0 \<le> A" "A < 2 ^ 64" "0 \<le> B" "B < 2 ^ 64" "0 \<le> C" "C \<le> 1"
    using uint_lt_64 c by (simp_all add: A_def B_def C_def)
  have "uint s + 2 ^ 64 * uint c' = uint a + uint b + uint c"
    unfolding sum car word_less_def uint_plus_64 A_def [symmetric] B_def [symmetric] C_def [symmetric]
    using b by auto
  then show "True \<and> True \<and> uint c' \<le> 1 \<and> uint s + 2 ^ 64 * uint c' = uint a + uint b + uint c"
    by (simp add: car)
qed (use uint_lt_64 in simp_all)

interpretation uc: digit_adder add_carry uint "\<lambda>_. True" "2 ^ 64"
proof
  fix a b c s c' :: ulong
  assume c: "uint c \<le> 1" and r: "add_carry a b c = (s, c')"
  have m: "uint (ULONG_MAX - x) = 2 ^ 64 - 1 - uint x" for x
    using uint_lt_64 [of x] by (simp add: uint_sub_if' uint_minus_1)
  have sum: "s = c + a + b" and car: "uint c' = (if ULONG_MAX - c < a then 1 else 0) + (if ULONG_MAX - (c + a) < b then 1 else 0)"
    using r by (auto simp: add_carry_def Let_def split: if_splits)
  define A B C where "A = uint a" and "B = uint b" and "C = uint c"
  have b: "0 \<le> A" "A < 2 ^ 64" "0 \<le> B" "B < 2 ^ 64" "0 \<le> C" "C \<le> 1"
    using uint_lt_64 c by (simp_all add: A_def B_def C_def)
  show "True \<and> True \<and> uint c' \<le> 1 \<and> uint s + 2 ^ 64 * uint c' = uint a + uint b + uint c"
    unfolding sum car word_less_def m uint_plus_64 A_def [symmetric] B_def [symmetric] C_def [symmetric]
    using b by auto
qed (use uint_lt_64 in simp_all)

section \<open>The multipliers\<close>

lemma half_mask:
  fixes x :: ulong
  shows "unat (x AND (ul_shl 1 32 - 1)) = unat x mod 2 ^ 32" "unat (ul_shr x 32) = unat x div 2 ^ 32"
proof -
  have "ul_shl 1 32 - 1 = (mask 32 :: ulong)" by (simp add: ul_shl_def mask_eq_exp_minus_1)
  then show "unat (x AND (ul_shl 1 32 - 1)) = unat x mod 2 ^ 32"
    by (simp add: take_bit_eq_mod unat_mod flip: take_bit_eq_mask)
  show "unat (ul_shr x 32) = unat x div 2 ^ 32"
    by (simp add: ul_shr_def drop_bit_eq_div unat_div)
qed

lemma unat_mult_small: "unat x * unat y < 2 ^ 64 \<Longrightarrow> unat (x * y :: ulong) = unat x * unat y"
  by (simp add: unat_mult_lem [symmetric])

lemma unat_plus_small: "unat x + unat y < 2 ^ 64 \<Longrightarrow> unat (x + y :: ulong) = unat x + unat y"
  by (simp add: unat_add_lem [symmetric])

lemma unat_lt_64: "unat (x :: ulong) < 2 ^ 64"
  using unsigned_less [of x, where 'a = nat] by simp

lemma unat_shl_half: "unat x < 2 ^ 32 \<Longrightarrow> unat (ul_shl x 32) = 2 ^ 32 * unat x"
proof -
  assume x: "unat x < 2 ^ 32"
  have "ul_shl x 32 = x * 2 ^ 32" by (simp add: ul_shl_def push_bit_eq_mult)
  moreover have "unat (2 ^ 32 :: ulong) = 2 ^ 32" by simp
  ultimately show ?thesis using x unat_mult_small [of x "2 ^ 32"] by (simp add: mult.commute)
qed

lemma half_product_le: "x < 2 ^ 32 \<Longrightarrow> y < 2 ^ 32 \<Longrightarrow> x * y \<le> (2 ^ 32 - 1) * (2 ^ 32 - 1 :: nat)"
  by (intro mult_le_mono) auto

text \<open>Disjoint halves: or is plus.\<close>

lemma or_halves:
  assumes "unat y < 2 ^ 32"
  shows "ul_shl x 32 OR y = ul_shl x 32 + y"
proof -
  have "bit y i \<Longrightarrow> i < 32" for i
  proof -
    have "take_bit 32 y = y" using assms
      by (metis take_bit_nat_eq_self unsigned_take_bit_eq word_unat_eq_iff)
    then show "bit y i \<Longrightarrow> i < 32" by (metis bit_take_bit_iff)
  qed
  then have "ul_shl x 32 AND y = 0" by (intro bit_word_eqI) (force simp: bit_simps shift_simps)
  then show ?thesis by (simp add: disjunctive_add_eq_or)
qed

text \<open>The four partial products of two words split in halves.\<close>

lemma half_products:
  fixes a b :: ulong
  defines "m \<equiv> ul_shl 1 32 - 1" and "H \<equiv> 2 ^ 32 :: nat"
  defines "A0 \<equiv> unat a mod H" and "A1 \<equiv> unat a div H" and "B0 \<equiv> unat b mod H" and "B1 \<equiv> unat b div H"
  shows "unat ((a AND m) * (b AND m)) = A0 * B0" "unat ((a AND m) * (ul_shr b 32 AND m)) = A0 * B1"
    "unat ((ul_shr a 32 AND m) * (b AND m)) = A1 * B0" "unat ((ul_shr a 32 AND m) * (ul_shr b 32 AND m)) = A1 * B1"
    "A0 * B0 \<le> (H - 1) * (H - 1)" "A0 * B1 \<le> (H - 1) * (H - 1)" "A1 * B0 \<le> (H - 1) * (H - 1)"
    "A1 * B1 \<le> (H - 1) * (H - 1)"
    "unat a * unat b = A0 * B0 + H * (A0 * B1 + A1 * B0) + H * H * (A1 * B1)"
proof -
  have lt: "A0 < H" "A1 < H" "B0 < H" "B1 < H"
    using unat_lt_64 [of a] unat_lt_64 [of b] by (simp_all add: A0_def A1_def B0_def B1_def H_def)
  have u: "unat (a AND m) = A0" "unat (ul_shr a 32 AND m) = A1" "unat (b AND m) = B0" "unat (ul_shr b 32 AND m) = B1"
    using lt half_mask by (simp_all add: m_def A0_def A1_def B0_def B1_def H_def)
  have le: "x * y \<le> (H - 1) * (H - 1)" if "x < H" "y < H" for x y
    using that half_product_le unfolding H_def by blast
  show "A0 * B0 \<le> (H - 1) * (H - 1)" "A0 * B1 \<le> (H - 1) * (H - 1)" "A1 * B0 \<le> (H - 1) * (H - 1)"
    "A1 * B1 \<le> (H - 1) * (H - 1)" using le lt by blast+
  have prod: "unat (x * y) = unat x * unat y" if "unat x < H" "unat y < H" for x y :: ulong
    using le [OF that] by (intro unat_mult_small) (simp add: H_def)
  show "unat ((a AND m) * (b AND m)) = A0 * B0" "unat ((a AND m) * (ul_shr b 32 AND m)) = A0 * B1"
    "unat ((ul_shr a 32 AND m) * (b AND m)) = A1 * B0" "unat ((ul_shr a 32 AND m) * (ul_shr b 32 AND m)) = A1 * B1"
    using prod lt by (simp_all add: u)
  have "unat a = A0 + H * A1" "unat b = B0 + H * B1" by (simp_all add: A0_def A1_def B0_def B1_def)
  then show "unat a * unat b = A0 * B0 + H * (A0 * B1 + A1 * B0) + H * H * (A1 * B1)"
    by (simp add: algebra_simps)
qed

text \<open>Column sums of half words: exact carries from one column into the next.\<close>

lemma column_sum:
  fixes H :: nat
  assumes "r1 = p00 div H + p01 mod H + p10 mod H" "r2 = r1 div H + p01 div H + p10 div H + p11 mod H"
    and "r3 = r2 div H + p11 div H"
  shows "p00 mod H + H * (r1 mod H) + H * H * (r2 mod H) + H * H * H * r3 = p00 + H * (p01 + p10) + H * H * p11"
proof -
  have d: "H * (x div H) + x mod H = x" for x :: nat by simp
  have "H * r1 = H * (p00 div H) + H * (p01 mod H) + H * (p10 mod H)" by (simp add: assms(1) algebra_simps)
  moreover have "H * H * r2 = H * (H * (r1 div H)) + H * (H * (p01 div H)) + H * (H * (p10 div H)) + H * H * (p11 mod H)"
    by (simp add: assms(2) algebra_simps)
  moreover have "H * H * H * r3 = H * H * (H * (r2 div H)) + H * H * (H * (p11 div H))"
    by (simp add: assms(3) algebra_simps)
  moreover have "H * (H * (r1 div H)) + H * (r1 mod H) = H * r1" "H * H * (H * (r2 div H)) + H * H * (r2 mod H) = H * H * r2"
    "H * (H * (p01 div H)) + H * (p01 mod H) = H * p01" "H * (H * (p10 div H)) + H * (p10 mod H) = H * p10"
    "H * H * (H * (p11 div H)) + H * H * (p11 mod H) = H * H * p11" "H * (p00 div H) + p00 mod H = p00"
    by (metis d distrib_left)+
  ultimately show ?thesis unfolding distrib_left by linarith
qed

lemma column_sum2:
  fixes H :: nat
  assumes "s1 = p00 div H + p10" "s2 = s1 mod H + p01" "s3 = s1 div H + s2 div H" "s4 = s3 mod H + p11"
    and "s5 = s3 div H + s4 div H"
  shows "p00 mod H + H * (s2 mod H) + H * H * (s4 mod H) + H * H * H * s5 = p00 + H * (p01 + p10) + H * H * p11"
proof -
  have d: "H * (x div H) + x mod H = x" for x :: nat by simp
  have "H * s1 = H * (p00 div H) + H * p10" "H * s2 = H * (s1 mod H) + H * p01"
    "H * H * s3 = H * (H * (s1 div H)) + H * (H * (s2 div H))" "H * H * s4 = H * H * (s3 mod H) + H * H * p11"
    "H * H * H * s5 = H * H * (H * (s3 div H)) + H * H * (H * (s4 div H))"
    by (simp_all only: assms distrib_left mult.assoc)
  moreover have "H * (H * (s1 div H)) + H * (s1 mod H) = H * s1" "H * (H * (s2 div H)) + H * (s2 mod H) = H * s2"
    "H * H * (H * (s3 div H)) + H * H * (s3 mod H) = H * H * s3"
    "H * H * (H * (s4 div H)) + H * H * (s4 mod H) = H * H * s4" "H * (p00 div H) + p00 mod H = p00"
    by (metis d distrib_left)+
  ultimately show ?thesis unfolding distrib_left by linarith
qed

lemma multiply_with_carry_ok:
  assumes "multiply_with_carry a b = (low, high)"
  shows "unat low + 2 ^ 64 * unat high = unat a * unat b"
proof -
  define m :: ulong where "m = ul_shl 1 32 - 1"
  define w00 w01 w10 w11 where "w00 = (a AND m) * (b AND m)" and "w01 = (a AND m) * (ul_shr b 32 AND m)"
    and "w10 = (ul_shr a 32 AND m) * (b AND m)" and "w11 = (ul_shr a 32 AND m) * (ul_shr b 32 AND m)"
  define r1 where "r1 = (ul_shr w00 32 AND m) + (w01 AND m) + (w10 AND m)"
  define r2 where "r2 = (ul_shr r1 32 AND m) + ((ul_shr w01 32 AND m) + (ul_shr w10 32 AND m) + (w11 AND m))"
  define r3 where "r3 = (ul_shr r2 32 AND m) + (ul_shr w11 32 AND m)"
  have out: "low = ul_shl (r1 AND m) 32 + (w00 AND m)" "high = ul_shl (r3 AND m) 32 + (r2 AND m)"
    using assms by (simp_all add: multiply_with_carry_def Let_def r3_def r2_def r1_def w00_def w01_def w10_def w11_def m_def)
  note hm = half_mask [folded m_def]
  have P: "unat w00 = unat a mod 2 ^ 32 * (unat b mod 2 ^ 32)" "unat w01 = unat a mod 2 ^ 32 * (unat b div 2 ^ 32)"
    "unat w10 = unat a div 2 ^ 32 * (unat b mod 2 ^ 32)" "unat w11 = unat a div 2 ^ 32 * (unat b div 2 ^ 32)"
    unfolding w00_def w01_def w10_def w11_def m_def by (rule half_products)+
  have le: "unat w00 \<le> (2 ^ 32 - 1) * (2 ^ 32 - 1)" "unat w01 \<le> (2 ^ 32 - 1) * (2 ^ 32 - 1)"
    "unat w10 \<le> (2 ^ 32 - 1) * (2 ^ 32 - 1)" "unat w11 \<le> (2 ^ 32 - 1) * (2 ^ 32 - 1)"
    unfolding P by (rule half_products)+
  have prod: "unat a * unat b = unat w00 + 2 ^ 32 * (unat w01 + unat w10) + 2 ^ 32 * 2 ^ 32 * unat w11"
    unfolding P by (rule half_products)
  have sum: "unat (x + y) = unat x + unat y" if "unat x < 2 ^ 40" "unat y < 2 ^ 40" for x y :: ulong
    using that by (intro unat_plus_small) simp
  have u1: "unat r1 = unat w00 div 2 ^ 32 + unat w01 mod 2 ^ 32 + unat w10 mod 2 ^ 32"
    using le by (simp add: r1_def sum hm)
  then have r1: "unat r1 < 2 ^ 34" using le(1) by simp
  have u2: "unat r2 = unat r1 div 2 ^ 32 + unat w01 div 2 ^ 32 + unat w10 div 2 ^ 32 + unat w11 mod 2 ^ 32"
    using le r1 by (simp add: r2_def sum hm)
  then have r2: "unat r2 < 2 ^ 34" using le r1 by simp
  have u3: "unat r3 = unat r2 div 2 ^ 32 + unat w11 div 2 ^ 32"
    using le r2 by (simp add: r3_def sum hm)
  note total = column_sum [OF u1 u2 u3, folded prod]
  have "unat a * unat b < 2 ^ 64 * 2 ^ 64" using unat_lt_64 by (intro mult_strict_mono) simp_all
  then have "2 ^ 32 * 2 ^ 32 * 2 ^ 32 * unat r3 < (2 ^ 64 * 2 ^ 64 :: nat)" using total by linarith
  then have r3: "unat r3 < 2 ^ 32" by simp
  have half: "unat (x AND m) < 2 ^ 32" for x by (simp add: hm)
  have join: "unat (ul_shl x 32 + y) = 2 ^ 32 * unat x + unat y" if "unat x < 2 ^ 32" "unat y < 2 ^ 32" for x y
    using that unat_shl_half [OF that(1)] unat_plus_small [of "ul_shl x 32" y] by simp
  have "unat low = 2 ^ 32 * (unat r1 mod 2 ^ 32) + unat w00 mod 2 ^ 32" unfolding out join [OF half half] by (simp add: hm)
  moreover have "unat high = 2 ^ 32 * unat r3 + unat r2 mod 2 ^ 32" unfolding out join [OF half half] using r3 by (simp add: hm)
  ultimately show ?thesis using total by simp
qed

lemma multiply_long_ok:
  assumes "multiply_long a b = (low, high)"
  shows "unat low + 2 ^ 64 * unat high = unat a * unat b"
proof -
  define m :: ulong where "m = ul_shl 1 32 - 1"
  define w00 w01 w10 w11 where "w00 = (a AND m) * (b AND m)" and "w01 = (a AND m) * (ul_shr b 32 AND m)"
    and "w10 = (ul_shr a 32 AND m) * (b AND m)" and "w11 = (ul_shr a 32 AND m) * (ul_shr b 32 AND m)"
  define s1 where "s1 = ul_shr w00 32 + w10"
  define s2 where "s2 = (s1 AND m) + w01"
  define s3 where "s3 = ul_shr s1 32 + ul_shr s2 32"
  define s4 where "s4 = (s3 AND m) + w11"
  define s5 where "s5 = ul_shr s3 32 + ul_shr s4 32"
  have out: "low = ul_shl (s2 AND m) 32 OR (w00 AND m)" "high = ul_shl s5 32 OR (s4 AND m)"
    using assms by (simp_all add: multiply_long_def Let_def s1_def s2_def s3_def s4_def s5_def
        w00_def w01_def w10_def w11_def m_def)
  note hm = half_mask [folded m_def]
  have P: "unat w00 = unat a mod 2 ^ 32 * (unat b mod 2 ^ 32)" "unat w01 = unat a mod 2 ^ 32 * (unat b div 2 ^ 32)"
    "unat w10 = unat a div 2 ^ 32 * (unat b mod 2 ^ 32)" "unat w11 = unat a div 2 ^ 32 * (unat b div 2 ^ 32)"
    unfolding w00_def w01_def w10_def w11_def m_def by (rule half_products)+
  have le: "unat w00 \<le> (2 ^ 32 - 1) * (2 ^ 32 - 1)" "unat w01 \<le> (2 ^ 32 - 1) * (2 ^ 32 - 1)"
    "unat w10 \<le> (2 ^ 32 - 1) * (2 ^ 32 - 1)" "unat w11 \<le> (2 ^ 32 - 1) * (2 ^ 32 - 1)"
    unfolding P by (rule half_products)+
  have prod: "unat a * unat b = unat w00 + 2 ^ 32 * (unat w01 + unat w10) + 2 ^ 32 * 2 ^ 32 * unat w11"
    unfolding P by (rule half_products)
  have u1: "unat s1 = unat w00 div 2 ^ 32 + unat w10"
    unfolding s1_def using le by (subst unat_plus_small) (simp_all add: hm)
  have u2: "unat s2 = unat s1 mod 2 ^ 32 + unat w01"
    unfolding s2_def using le by (subst unat_plus_small) (simp_all add: hm)
  have u3: "unat s3 = unat s1 div 2 ^ 32 + unat s2 div 2 ^ 32"
    unfolding s3_def using unat_lt_64 [of s1] unat_lt_64 [of s2] by (subst unat_plus_small) (simp_all add: hm)
  have u4: "unat s4 = unat s3 mod 2 ^ 32 + unat w11"
    unfolding s4_def using le by (subst unat_plus_small) (simp_all add: hm)
  have u5: "unat s5 = unat s3 div 2 ^ 32 + unat s4 div 2 ^ 32"
    unfolding s5_def using unat_lt_64 [of s3] unat_lt_64 [of s4] by (subst unat_plus_small) (simp_all add: hm)
  note total = column_sum2 [OF u1 u2 u3 u4 u5, folded prod]
  have "unat a * unat b < 2 ^ 64 * 2 ^ 64" using unat_lt_64 by (intro mult_strict_mono) simp_all
  then have "2 ^ 32 * 2 ^ 32 * 2 ^ 32 * unat s5 < (2 ^ 64 * 2 ^ 64 :: nat)" using total by linarith
  then have s5: "unat s5 < 2 ^ 32" by simp
  have half: "unat (x AND m) < 2 ^ 32" for x by (simp add: hm)
  have join: "unat (ul_shl x 32 OR y) = 2 ^ 32 * unat x + unat y" if "unat x < 2 ^ 32" "unat y < 2 ^ 32" for x y
    using that unat_shl_half [OF that(1)] unat_plus_small [of "ul_shl x 32" y] by (simp add: or_halves)
  have "unat low = 2 ^ 32 * (unat s2 mod 2 ^ 32) + unat w00 mod 2 ^ 32"
    unfolding out join [OF half half] by (simp add: hm)
  moreover have "unat high = 2 ^ 32 * unat s5 + unat s4 mod 2 ^ 32"
    unfolding out join [OF s5 half] by (simp add: hm)
  ultimately show ?thesis using total by simp
qed

end
