(* ===== verification/Vvp_Planes.thy ===== *)
theory Vvp_Planes
  imports Vvp_Word
begin

text \<open>
  A vector of the simulator keeps its bits in arrays of \<open>unsigned long\<close>. This theory reads such an
  array as a sequence of bits and as a number, and gives the bits of the masks that the vector
  classes build from shifts.
\<close>

section \<open>Masks\<close>

named_theorems mask_bits \<open>bits of the shifted masks\<close>

lemma bit_mask_low [mask_bits]: "n < 64 \<Longrightarrow> bit (ul_shl 1 n - 1) i \<longleftrightarrow> i < n"
proof -
  assume "n < 64"
  then have "ul_shl 1 n - 1 = (mask n :: ulong)"
    by (simp add: ul_shl_def mask_eq_exp_minus_1 push_bit_eq_mult)
  with \<open>n < 64\<close> show ?thesis by (auto simp: bit_mask_iff)
qed

lemma bit_mask_high [mask_bits]: "n < 64 \<Longrightarrow> bit (ul_shl (- 1) n) i \<longleftrightarrow> n \<le> i \<and> i < 64"
  by (auto simp: shift_simps bit_simps)

lemma bit_mask_right [mask_bits]: "n < 64 \<Longrightarrow> bit (ul_shr (- 1) n) i \<longleftrightarrow> n + i < 64"
  by (auto simp: shift_simps bit_simps)

lemma bit_masked [mask_bits]:
  "bit ((w AND NOT m) OR (x AND m)) i \<longleftrightarrow> (if bit m i then bit x i else bit (w :: ulong) i)"
  by (auto simp: bit_simps dest: bit_imp_le_length)

lemma word_zero_iff: "w = 0 \<longleftrightarrow> (\<forall>i < 64. \<not> bit (w :: ulong) i)"
  by (auto intro!: bit_word_eqI)

lemma word_eq_bits: "w = x \<longleftrightarrow> (\<forall>i < 64. bit (w :: ulong) i = bit x i)"
  using bit_imp_le_length [of w] bit_imp_le_length [of x] by (auto intro: bit_word_eqI)

section \<open>An array of words as bits\<close>

definition nwords :: "nat \<Rightarrow> nat" where
  "nwords n = (n + BITS_PER_WORD - 1) div BITS_PER_WORD"

definition wbit :: "ulong list \<Rightarrow> nat \<Rightarrow> bool" where
  "wbit ws i = bit (ws ! (i div 64)) (i mod 64)"

definition wval :: "ulong list \<Rightarrow> int" where
  "wval ws = horner_sum uint (2 ^ 64) ws"

lemma nwords_bound: "i < n \<Longrightarrow> i div 64 < nwords n"
  by (auto simp: nwords_def less_eq_div_iff_mult_less_eq div_less_iff_less_mult)

lemma nwords_ge: "n \<le> 64 * nwords n"
  using div_mult_mod_eq [of "n + 63" 64] mod_less_divisor [of 64 "n + 63"] by (simp add: nwords_def)

lemma wbit_update:
  "k < length ws \<Longrightarrow> wbit (ws[k := w]) i = (if i div 64 = k then bit w (i mod 64) else wbit ws i)"
  by (simp add: wbit_def nth_list_update)

lemma wbit_replicate: "i < 64 * n \<Longrightarrow> wbit (replicate n w) i = bit w (i mod 64)"
  by (simp add: wbit_def div_less_iff_less_mult)

lemma wbit_map: "i < 64 * length ws \<Longrightarrow> wbit (map f ws) i = bit (f (ws ! (i div 64))) (i mod 64)"
  by (simp add: wbit_def div_less_iff_less_mult)

lemma wbit_map2:
  "i < 64 * length ws \<Longrightarrow> length vs = length ws \<Longrightarrow>
   wbit (map2 f ws vs) i = bit (f (ws ! (i div 64)) (vs ! (i div 64))) (i mod 64)"
  by (simp add: wbit_def div_less_iff_less_mult)

lemma wval_Nil [simp]: "wval [] = 0"
  by (simp add: wval_def)

lemma wval_Cons [simp]: "wval (w # ws) = uint w + 2 ^ 64 * wval ws"
  by (simp add: wval_def)

lemma bit_wval: "bit (wval ws) i \<longleftrightarrow> i < 64 * length ws \<and> wbit ws i"
proof (induction ws arbitrary: i)
  case (Cons w ws)
  have "2 ^ 64 * wval ws = push_bit 64 (wval ws)" by (simp add: push_bit_eq_mult)
  moreover have "uint w AND push_bit 64 (wval ws) = 0"
    by (rule bit_eqI) (auto simp: bit_simps bit_uint_iff dest: bit_imp_le_length)
  ultimately have eq: "wval (w # ws) = uint w OR push_bit 64 (wval ws)"
    by (simp add: disjunctive_add_eq_or)
  show ?case
  proof (cases "i < 64")
    case True
    then show ?thesis unfolding eq by (simp add: bit_simps bit_uint_iff wbit_def)
  next
    case False
    then have "i div 64 = Suc ((i - 64) div 64)" "(i - 64) mod 64 = i mod 64"
      by (simp_all add: le_div_geq le_mod_geq)
    then show ?thesis unfolding eq using False Cons.IH [of "i - 64"]
      by (auto simp: bit_simps bit_uint_iff wbit_def dest: bit_imp_le_length)
  qed
qed simp

lemma wval_nonneg [simp]: "0 \<le> wval ws"
  by (induction ws) simp_all

lemma wval_less: "wval ws < 2 ^ (64 * length ws)"
proof -
  have "take_bit (64 * length ws) (wval ws) = wval ws"
    by (rule bit_eqI) (auto simp: bit_take_bit_iff bit_wval)
  then show ?thesis by (metis take_bit_int_less_exp)
qed

lemma ubits_wbits: "n \<le> 64 * length ws \<Longrightarrow> ubits (map (wbit ws) [0..<n]) = take_bit n (wval ws)"
  by (rule ubits_eqI) (auto simp: bit_wval)

text \<open>The carry chain over words, from the digit adder interface.\<close>

lemma wval_carry_run:
  assumes "length xs = length ys" "uint c \<le> 1" "carry_run ul_add_with_carry xs ys c = (zs, c')"
  shows "length zs = length xs" "wval zs + 2 ^ (64 * length xs) * uint c' = wval xs + wval ys + uint c"
  using uw.carry_run_law [OF assms(1) _ _ _ assms(2,3)]
  by (simp_all add: wval_def list_all_iff power_mult)

section \<open>Full words and a partial one\<close>

lemma nwords_fold [simp]: "(n + 63) div 64 = nwords n" "(63 + n) div 64 = nwords n"
  by (simp_all add: nwords_def add.commute)

lemma nwords_split: "nwords n = n div 64 + (if n mod 64 > 0 then 1 else 0)"
proof -
  define q r where "q = n div 64" and "r = n mod 64"
  have "n + 64 - 1 = (r + 63) + q * 64" by (simp add: q_def r_def)
  then have "nwords n = (r + 63 + q * 64) div 64" by (simp only: nwords_def)
  also have "\<dots> = (r + 63) div 64 + q" by (simp add: div_mult_self1 del: nwords_fold)
  also have "(r + 63) div 64 = (if r > 0 then 1 else 0)"
  proof (cases "r = 0")
    case False
    then have "r + 63 = 64 + (r - 1)" "r - 1 < 64" by (auto simp: r_def)
    then show ?thesis using False by (simp del: nwords_fold)
  qed (simp del: nwords_fold)
  finally show ?thesis by (simp add: q_def r_def)
qed

lemma nwords_mono: "m \<le> n \<Longrightarrow> nwords m \<le> nwords n"
  by (simp add: nwords_def div_le_mono del: nwords_fold)

lemma nwords_two: "64 < n \<longleftrightarrow> 1 < nwords n"
proof -
  have "nwords 65 \<le> nwords n" if "64 < n" using that by (intro nwords_mono) simp
  moreover have "nwords n \<le> nwords 64" if "n \<le> 64" using that by (intro nwords_mono)
  moreover have "nwords 65 = 2" "nwords 64 = 1" by (simp_all add: nwords_split)
  ultimately show ?thesis by (cases "64 < n") auto
qed

lemma index_cases:
  fixes i n :: nat
  assumes "i < n"
  obtains "i div 64 < n div 64" | "i div 64 = n div 64" "i mod 64 < n mod 64"
proof -
  have le: "i div 64 \<le> n div 64" using assms by (simp add: div_le_mono)
  have d: "i = 64 * (i div 64) + i mod 64" "n = 64 * (n div 64) + n mod 64" by simp_all
  show ?thesis
  proof (cases "i div 64 = n div 64")
    case True
    then show ?thesis using assms d that(2) by linarith
  next
    case False
    then show ?thesis using le that(1) by simp
  qed
qed

end
