(* ===== verification/Vvp_Vector4.thy ===== *)
theory Vvp_Vector4
  imports Vvp_Bit4 Vvp_Planes
begin

text \<open>
  The class \<open>vvp_vector4_t\<close> (vvp/vvp_net.h, vvp/vvp_net.cc): constructors, bit access, copies,
  comparisons and the bitwise operators. A vector is two planes of words; the abstraction \<open>bits4\<close>
  reads it as a list of four-valued bits, and the lemmas say what every operation does to that list.
\<close>

section \<open>The class\<close>

text \<open>
  The unions of \<open>abits\<close> and \<open>bbits\<close> (a value or a pointer) are word lists: one word up to 64
  bits (the value itself), otherwise the array that the pointer refers to. The pad bits above the size are
  unspecified, as in the source.
\<close>

record vvp_vector4_t =
  size4 :: nat
  abits4 :: "ulong list"
  bbits4 :: "ulong list"

abbreviation abits_val :: "vvp_vector4_t \<Rightarrow> ulong" where "abits_val v \<equiv> abits4 v ! 0"
abbreviation bbits_val :: "vvp_vector4_t \<Rightarrow> ulong" where "bbits_val v \<equiv> bbits4 v ! 0"

abbreviation set_val :: "ulong \<Rightarrow> ulong \<Rightarrow> vvp_vector4_t \<Rightarrow> vvp_vector4_t" where
  "set_val a b v \<equiv> v\<lparr>abits4 := (abits4 v)[0 := a], bbits4 := (bbits4 v)[0 := b]\<rparr>"

definition WORD_ABITS :: "vvp_bit4_t \<Rightarrow> ulong" where
  "WORD_ABITS b = (case b of BIT4_0 \<Rightarrow> 0 | BIT4_1 \<Rightarrow> 0xFFFFFFFFFFFFFFFF | BIT4_X \<Rightarrow> 0xFFFFFFFFFFFFFFFF | BIT4_Z \<Rightarrow> 0)"

definition WORD_BBITS :: "vvp_bit4_t \<Rightarrow> ulong" where
  "WORD_BBITS b = (case b of BIT4_0 \<Rightarrow> 0 | BIT4_1 \<Rightarrow> 0 | BIT4_X \<Rightarrow> 0xFFFFFFFFFFFFFFFF | BIT4_Z \<Rightarrow> 0xFFFFFFFFFFFFFFFF)"

definition allocate_words :: "nat \<Rightarrow> ulong \<Rightarrow> ulong \<Rightarrow> vvp_vector4_t" where
  "allocate_words sz inita initb =
     (if sz > BITS_PER_WORD
      then let cnt = (sz + BITS_PER_WORD - 1) div BITS_PER_WORD
           in \<lparr>size4 = sz, abits4 = replicate cnt inita, bbits4 = replicate cnt initb\<rparr>
      else \<lparr>size4 = sz, abits4 = [inita], bbits4 = [initb]\<rparr>)"

definition vector4_fill :: "nat \<Rightarrow> vvp_bit4_t \<Rightarrow> vvp_vector4_t" where
  "vector4_fill sz val = allocate_words sz (WORD_ABITS val) (WORD_BBITS val)"

definition value4 :: "vvp_vector4_t \<Rightarrow> nat \<Rightarrow> vvp_bit4_t" where
  "value4 v idx =
     (if idx \<ge> size4 v then BIT4_X
      else let (off, abits, bbits) =
                (if size4 v > BITS_PER_WORD
                 then (idx mod BITS_PER_WORD, abits4 v ! (idx div BITS_PER_WORD), bbits4 v ! (idx div BITS_PER_WORD))
                 else (idx, abits_val v, bbits_val v));
               abits = ul_shr abits off;
               bbits = ul_shr bbits off;
               tmp = ul_shl (bbits AND 1) 1 + (abits AND 1)
           in bit4_cast (unat tmp))"

text \<open>One arm of the switch of \<open>set_bit\<close>, on a word of each plane.\<close>

definition set_bit_word :: "vvp_bit4_t \<Rightarrow> ulong \<Rightarrow> ulong \<times> ulong \<Rightarrow> ulong \<times> ulong" where
  "set_bit_word val msk ab =
     (case ab of (a, b) \<Rightarrow>
        (case val of
           BIT4_0 \<Rightarrow> (a AND NOT msk, b AND NOT msk)
         | BIT4_1 \<Rightarrow> (a OR msk, b AND NOT msk)
         | BIT4_X \<Rightarrow> (a OR msk, b OR msk)
         | BIT4_Z \<Rightarrow> (a AND NOT msk, b OR msk)))"

definition set_bit4 :: "vvp_vector4_t \<Rightarrow> nat \<Rightarrow> vvp_bit4_t \<Rightarrow> vvp_vector4_t option" where
  "set_bit4 v idx val =
     (if idx < size4 v
      then let off = idx mod BITS_PER_WORD;
               msk = ul_shl 1 off;
               wdx = (if size4 v > BITS_PER_WORD then idx div BITS_PER_WORD else 0);
               (a, b) = set_bit_word val msk (abits4 v ! wdx, bbits4 v ! wdx)
           in Some (v\<lparr>abits4 := (abits4 v)[wdx := a], bbits4 := (bbits4 v)[wdx := b]\<rparr>)
      else None)"

text \<open>
  \<open>while (remaining >= BITS_PER_WORD) ... if (remaining > 0) ...\<close>: the words that are full, and then the
  last, partial word.
\<close>

definition tail_map :: "(ulong \<Rightarrow> ulong \<Rightarrow> ulong) \<Rightarrow> (ulong \<Rightarrow> ulong \<Rightarrow> ulong) \<Rightarrow> nat \<Rightarrow>
    ulong list \<Rightarrow> ulong list \<Rightarrow> ulong list" where
  "tail_map f g n xs ys =
     (let full = n div BITS_PER_WORD
      in map2 f (take full xs) (take full ys) @
         (if n mod BITS_PER_WORD > 0 then [g (xs ! full) (ys ! full)] else []))"

section \<open>Copies\<close>

definition copy_inverted_from :: "vvp_vector4_t \<Rightarrow> vvp_vector4_t" where
  "copy_inverted_from that =
     (if size4 that > BITS_PER_WORD
      then let msk = ul_shl 1 (size4 that mod BITS_PER_WORD) - 1
           in \<lparr>size4 = size4 that,
               abits4 = tail_map (\<lambda>a b. b OR NOT a) (\<lambda>a b. msk AND (b OR NOT a)) (size4 that) (abits4 that) (bbits4 that),
               bbits4 = take ((size4 that + BITS_PER_WORD - 1) div BITS_PER_WORD) (bbits4 that)\<rparr>
      else let msk = (if size4 that < BITS_PER_WORD then ul_shl 1 (size4 that) - 1 else - 1)
           in \<lparr>size4 = size4 that, abits4 = [msk AND (bbits_val that OR NOT (abits_val that))],
               bbits4 = [bbits_val that]\<rparr>)"

text \<open>
  \<open>copy_bits\<close> treats the two planes alike: \<open>d\<close> is the plane of this vector (of \<open>dsz\<close> bits), \<open>s\<close> the plane of
  \<open>that\<close> (of \<open>ssz\<close> bits).
\<close>

definition copy_plane :: "nat \<Rightarrow> nat \<Rightarrow> ulong list \<Rightarrow> ulong list \<Rightarrow> ulong list" where
  "copy_plane dsz ssz d s =
     (if dsz = ssz then
        (if dsz > BITS_PER_WORD
         then take ((dsz + BITS_PER_WORD - 1) div BITS_PER_WORD) s
         else d[0 := s ! 0])
      else if dsz \<le> BITS_PER_WORD \<and> ssz \<le> BITS_PER_WORD then
        let bits_to_copy = (if ssz < dsz then ssz else dsz);
            msk = (if bits_to_copy < BITS_PER_WORD then ul_shl 1 bits_to_copy else 0) - 1
        in d[0 := (d ! 0 AND NOT msk) OR (s ! 0 AND msk)]
      else if dsz \<le> BITS_PER_WORD then
        (if dsz < BITS_PER_WORD
         then d[0 := s ! 0 AND (ul_shl 1 dsz - 1)]
         else d[0 := s ! 0])
      else if ssz \<le> BITS_PER_WORD then
        (if ssz < BITS_PER_WORD
         then let msk = ul_shl 1 ssz - 1 in d[0 := (d ! 0 AND NOT msk) OR (s ! 0 AND msk)]
         else let msk = - 1 in d[0 := d ! 0 OR (s ! 0 AND msk)])
      else
        let bits_to_copy = (if ssz < dsz then ssz else dsz);
            msk = ul_shl 1 (bits_to_copy mod BITS_PER_WORD) - 1;
            copied = tail_map (\<lambda>a b. b) (\<lambda>a b. (a AND NOT msk) OR (b AND msk)) bits_to_copy d s
        in copied @ drop (length copied) d)"

definition copy_bits :: "vvp_vector4_t \<Rightarrow> vvp_vector4_t \<Rightarrow> vvp_vector4_t" where
  "copy_bits v that =
     v\<lparr>abits4 := copy_plane (size4 v) (size4 that) (abits4 v) (abits4 that),
       bbits4 := copy_plane (size4 v) (size4 that) (bbits4 v) (bbits4 that)\<rparr>"

section \<open>Comparisons\<close>

text \<open>The comparison of two planes that \<open>eeq\<close> and \<open>eq_xz\<close> make, word by word, with the last word masked.\<close>

definition plane_eq :: "nat \<Rightarrow> ulong list \<Rightarrow> ulong list \<Rightarrow> bool" where
  "plane_eq n xs ys \<longleftrightarrow>
     (if n < BITS_PER_WORD then
        let msk = ul_shl 1 n - 1 in xs ! 0 AND msk = ys ! 0 AND msk
      else if n = BITS_PER_WORD then xs ! 0 = ys ! 0
      else
        let words = n div BITS_PER_WORD; rest = n mod BITS_PER_WORD
        in list_all (\<lambda>idx. xs ! idx = ys ! idx) [0..<words] \<and>
           (rest > 0 \<longrightarrow> (let msk = ul_shl 1 rest - 1 in xs ! words AND msk = ys ! words AND msk)))"

definition eeq :: "vvp_vector4_t \<Rightarrow> vvp_vector4_t \<Rightarrow> bool" where
  "eeq v that \<longleftrightarrow> size4 v = size4 that \<and>
     plane_eq (size4 v) (abits4 v) (abits4 that) \<and> plane_eq (size4 v) (bbits4 v) (bbits4 that)"

definition eq_xz :: "vvp_vector4_t \<Rightarrow> vvp_vector4_t \<Rightarrow> bool" where
  "eq_xz v that \<longleftrightarrow> size4 v = size4 that \<and>
     plane_eq (size4 v) (map2 (OR) (abits4 v) (bbits4 v)) (map2 (OR) (abits4 that) (bbits4 that)) \<and>
     plane_eq (size4 v) (bbits4 v) (bbits4 that)"

definition has_xz :: "vvp_vector4_t \<Rightarrow> bool" where
  "has_xz v \<longleftrightarrow>
     (if size4 v < BITS_PER_WORD then
        let msk = ul_shr (- 1) (BITS_PER_WORD - size4 v) in bbits_val v AND msk \<noteq> 0
      else if size4 v = BITS_PER_WORD then bbits_val v \<noteq> 0
      else
        let words = size4 v div BITS_PER_WORD; rest = size4 v mod BITS_PER_WORD
        in list_ex (\<lambda>idx. bbits4 v ! idx \<noteq> 0) [0..<words] \<or>
           (rest > 0 \<and> (let msk = ul_shr (- 1) (BITS_PER_WORD - rest) in bbits4 v ! words AND msk \<noteq> 0)))"

section \<open>Updates of all bits\<close>

definition change_z2x :: "vvp_vector4_t \<Rightarrow> vvp_vector4_t" where
  "change_z2x v =
     (if size4 v \<le> BITS_PER_WORD
      then v\<lparr>abits4 := (abits4 v)[0 := abits_val v OR bbits_val v]\<rparr>
      else v\<lparr>abits4 := map2 (OR) (abits4 v) (bbits4 v)\<rparr>)"

definition fill_bits :: "vvp_vector4_t \<Rightarrow> vvp_bit4_t \<Rightarrow> vvp_vector4_t" where
  "fill_bits v b =
     (if size4 v \<le> BITS_PER_WORD
      then set_val (WORD_ABITS b) (WORD_BBITS b) v
      else let words = (size4 v + BITS_PER_WORD - 1) div BITS_PER_WORD
           in v\<lparr>abits4 := replicate words (WORD_ABITS b), bbits4 := replicate words (WORD_BBITS b)\<rparr>)"

definition set_to_x :: "vvp_vector4_t \<Rightarrow> vvp_vector4_t" where
  "set_to_x v = fill_bits v BIT4_X"

definition invert :: "vvp_vector4_t \<Rightarrow> vvp_vector4_t" where
  "invert v =
     (if size4 v \<le> BITS_PER_WORD
      then let msk = (if size4 v < BITS_PER_WORD then ul_shl 1 (size4 v) - 1 else - 1)
           in v\<lparr>abits4 := (abits4 v)[0 := (msk AND NOT (abits_val v)) OR bbits_val v]\<rparr>
      else let msk = ul_shl 1 (size4 v mod BITS_PER_WORD) - 1
           in v\<lparr>abits4 := tail_map (\<lambda>a b. NOT a OR b) (\<lambda>a b. (msk AND NOT a) OR b) (size4 v) (abits4 v) (bbits4 v)\<rparr>)"

text \<open>The word formulas of \<open>operator &=\<close> and \<open>operator |=\<close>.\<close>

definition and_words :: "ulong \<times> ulong \<Rightarrow> ulong \<times> ulong \<Rightarrow> ulong \<times> ulong" where
  "and_words ab cd =
     (case ab of (a, b) \<Rightarrow> case cd of (ta, tb) \<Rightarrow>
        let tmp1 = a OR b; tmp2 = ta OR tb
        in (tmp1 AND tmp2, (tmp1 AND tb) OR (tmp2 AND b)))"

definition or_words :: "ulong \<times> ulong \<Rightarrow> ulong \<times> ulong \<Rightarrow> ulong \<times> ulong" where
  "or_words ab cd =
     (case ab of (a, b) \<Rightarrow> case cd of (ta, tb) \<Rightarrow>
        let tmp = a OR b OR ta OR tb
        in (tmp, ((NOT a OR b) AND tb) OR ((NOT ta OR tb) AND b)))"

text \<open>Both operators walk over the words of this vector; the single word of a short one is the same walk.\<close>

definition word_walk :: "(ulong \<times> ulong \<Rightarrow> ulong \<times> ulong \<Rightarrow> ulong \<times> ulong) \<Rightarrow>
    vvp_vector4_t \<Rightarrow> vvp_vector4_t \<Rightarrow> vvp_vector4_t" where
  "word_walk f v that =
     (let words = (if size4 v \<le> BITS_PER_WORD then 1 else (size4 v + BITS_PER_WORD - 1) div BITS_PER_WORD);
          out = map (\<lambda>idx. f (abits4 v ! idx, bbits4 v ! idx) (abits4 that ! idx, bbits4 that ! idx)) [0..<words]
      in v\<lparr>abits4 := map fst out, bbits4 := map snd out\<rparr>)"

definition and_assign :: "vvp_vector4_t \<Rightarrow> vvp_vector4_t \<Rightarrow> vvp_vector4_t" where
  "and_assign v that = word_walk and_words v that"

definition or_assign :: "vvp_vector4_t \<Rightarrow> vvp_vector4_t \<Rightarrow> vvp_vector4_t" where
  "or_assign v that = word_walk or_words v that"

section \<open>Abstraction\<close>

definition words4 :: "nat \<Rightarrow> nat" where
  "words4 n = (if n > 64 then nwords n else 1)"

definition wf4 :: "vvp_vector4_t \<Rightarrow> bool" where
  "wf4 v \<longleftrightarrow> length (abits4 v) = words4 (size4 v) \<and> length (bbits4 v) = words4 (size4 v)"

definition bits4 :: "vvp_vector4_t \<Rightarrow> vvp_bit4_t list" where
  "bits4 v = map (value4 v) [0..<size4 v]"

definition mk_bit4 :: "bool \<Rightarrow> bool \<Rightarrow> vvp_bit4_t" where
  "mk_bit4 a b = (if b then (if a then BIT4_X else BIT4_Z) else (if a then BIT4_1 else BIT4_0))"

definition abit4 :: "vvp_bit4_t \<Rightarrow> bool" where "abit4 x \<longleftrightarrow> x = BIT4_1 \<or> x = BIT4_X"
definition bbit4 :: "vvp_bit4_t \<Rightarrow> bool" where "bbit4 x \<longleftrightarrow> x = BIT4_X \<or> x = BIT4_Z"

lemma mk_bit4_inject [simp]: "mk_bit4 a b = mk_bit4 c d \<longleftrightarrow> a = c \<and> b = d"
  by (auto simp: mk_bit4_def)

lemma mk_bit4_planes [simp]: "abit4 (mk_bit4 a b) = a" "bbit4 (mk_bit4 a b) = b" "mk_bit4 (abit4 x) (bbit4 x) = x"
  by (auto simp: mk_bit4_def abit4_def bbit4_def) (cases x; simp)+

lemma mk_bit4_xz: "bit4_is_xz (mk_bit4 a b) \<longleftrightarrow> b"
  by (simp add: mk_bit4_def bit4_is_xz_iff)

lemma words4_bound: "i < n \<Longrightarrow> i div 64 < words4 n"
  by (auto simp: words4_def nwords_bound)

lemma words4_index: "i < n \<Longrightarrow> (if n > 64 then i div 64 else 0) = i div (64 :: nat)"
  by auto

lemma words4_ge: "n \<le> 64 * words4 n"
  using nwords_ge [of n] by (simp add: words4_def)

lemma allocate_words4: "allocate_words n a b = \<lparr>size4 = n, abits4 = replicate (words4 n) a, bbits4 = replicate (words4 n) b\<rparr>"
  by (simp add: allocate_words_def words4_def Let_def)

lemma value4_wbit:
  assumes "i < size4 v"
  shows "value4 v i = mk_bit4 (wbit (abits4 v) i) (wbit (bbits4 v) i)"
proof -
  have and1: "w AND 1 = of_bool (bit w 0)" for w :: ulong
    by (simp add: and_one_eq mod_2_eq_odd bit_0)
  have "bit4_cast (unat (ul_shl (of_bool p) 1 + of_bool q)) = mk_bit4 q p" for p q
    by (cases p; cases q) (simp_all add: ul_shl_def mk_bit4_def bit4_cast_def)
  then show ?thesis
    using assms by (simp add: value4_def Let_def and1 wbit_def shift_simps del: One_nat_def)
qed

lemma length_bits4 [simp]: "length (bits4 v) = size4 v"
  by (simp add: bits4_def)

lemma nth_bits4: "i < size4 v \<Longrightarrow> bits4 v ! i = mk_bit4 (wbit (abits4 v) i) (wbit (bbits4 v) i)"
  by (simp add: bits4_def value4_wbit)

lemma bits4_eqI:
  assumes "size4 v = length xs"
    and "\<And>i. i < length xs \<Longrightarrow> wbit (abits4 v) i = abit4 (xs ! i) \<and> wbit (bbits4 v) i = bbit4 (xs ! i)"
  shows "bits4 v = xs"
  using assms by (intro nth_equalityI) (simp_all add: nth_bits4)

lemma nth_bits4_planes:
  "i < size4 v \<Longrightarrow> abit4 (bits4 v ! i) = wbit (abits4 v) i" "i < size4 v \<Longrightarrow> bbit4 (bits4 v ! i) = wbit (bbits4 v) i"
  by (simp_all add: nth_bits4)

section \<open>Construction and bit access\<close>

lemma bit_WORD: "i < 64 \<Longrightarrow> bit (WORD_ABITS b) i = abit4 b" "i < 64 \<Longrightarrow> bit (WORD_BBITS b) i = bbit4 b"
proof -
  assume "i < 64"
  have "(0xFFFFFFFFFFFFFFFF :: ulong) = - 1" by simp
  then have "bit (0xFFFFFFFFFFFFFFFF :: ulong) i" using \<open>i < 64\<close> by (simp only: bit_minus_1_iff) simp
  then show "bit (WORD_ABITS b) i = abit4 b" "bit (WORD_BBITS b) i = bbit4 b"
    by (cases b; simp add: WORD_ABITS_def WORD_BBITS_def abit4_def bbit4_def)+
qed

lemma wf4_fill [simp]: "wf4 (vector4_fill n b)" "size4 (vector4_fill n b) = n"
  by (simp_all add: vector4_fill_def allocate_words4 wf4_def)

lemma bits4_fill: "bits4 (vector4_fill n b) = replicate n b"
proof (rule bits4_eqI)
  fix i assume "i < length (replicate n b)"
  moreover from this have "i < 64 * words4 n" using words4_ge [of n] by simp
  ultimately show "wbit (abits4 (vector4_fill n b)) i = abit4 (replicate n b ! i) \<and>
      wbit (bbits4 (vector4_fill n b)) i = bbit4 (replicate n b ! i)"
    by (simp add: vector4_fill_def allocate_words4 wbit_replicate bit_WORD)
qed simp

lemma set_bit_word_bits:
  assumes "k < 64" "set_bit_word val (ul_shl 1 k) (a, b) = (a', b')"
  shows "bit a' i = (if i = k then abit4 val else bit a i)" "bit b' i = (if i = k then bbit4 val else bit b i)"
  using assms by (cases val; auto simp: set_bit_word_def bit_simps shift_simps abit4_def bbit4_def
      dest: bit_imp_le_length)+

lemma set_bit4_ok:
  assumes "wf4 v" "idx < size4 v"
  shows "\<exists>v'. set_bit4 v idx val = Some v' \<and> wf4 v' \<and> size4 v' = size4 v \<and> bits4 v' = (bits4 v)[idx := val]"
proof -
  let ?k = "idx div 64"
  obtain a b where ab: "set_bit_word val (ul_shl 1 (idx mod 64)) (abits4 v ! ?k, bbits4 v ! ?k) = (a, b)" by fastforce
  define v' where "v' = v\<lparr>abits4 := (abits4 v)[?k := a], bbits4 := (bbits4 v)[?k := b]\<rparr>"
  have k: "?k < length (abits4 v)" "?k < length (bbits4 v)"
    using assms words4_bound by (simp_all add: wf4_def)
  have bits: "bit a i = (if i = idx mod 64 then abit4 val else bit (abits4 v ! ?k) i)"
    "bit b i = (if i = idx mod 64 then bbit4 val else bit (bbits4 v ! ?k) i)" for i
    using set_bit_word_bits [OF _ ab] by simp_all
  have eq: "i = idx \<longleftrightarrow> i div 64 = ?k \<and> i mod 64 = idx mod 64" for i
    by (metis div_mult_mod_eq)
  have "bits4 v' = (bits4 v)[idx := val]"
  proof (rule bits4_eqI)
    fix i assume "i < length ((bits4 v)[idx := val])"
    then show "wbit (abits4 v') i = abit4 ((bits4 v)[idx := val] ! i) \<and>
        wbit (bbits4 v') i = bbit4 ((bits4 v)[idx := val] ! i)"
      using k eq [of i] by (auto simp: v'_def wbit_update bits nth_list_update nth_bits4_planes wbit_def)
  qed (simp add: v'_def)
  moreover have "set_bit4 v idx val = Some v'"
    unfolding set_bit4_def Let_def words4_index [OF assms(2)] using assms(2) ab by (simp add: v'_def)
  moreover have "wf4 v'" "size4 v' = size4 v" using assms(1) by (simp_all add: v'_def wf4_def)
  ultimately show ?thesis by blast
qed

interpretation v4: bit_vector size4 set_bit4 bits4 wf4
  by unfold_locales (use set_bit4_ok in \<open>auto simp: set_bit4_def\<close>)

section \<open>Operations on all bits\<close>

lemma tail_map_ok:
  assumes "length xs \<ge> nwords n" "length ys \<ge> nwords n"
  shows "length (tail_map f g n xs ys) = nwords n"
    and "i < n \<Longrightarrow> wbit (tail_map f g n xs ys) i =
      bit ((if i div 64 < n div 64 then f else g) (xs ! (i div 64)) (ys ! (i div 64))) (i mod 64)"
proof -
  have le: "n div 64 \<le> length xs" "n div 64 \<le> length ys" using assms by (simp_all add: nwords_split split: if_splits)
  then show "length (tail_map f g n xs ys) = nwords n" by (simp add: tail_map_def Let_def nwords_split)
  assume "i < n"
  then show "wbit (tail_map f g n xs ys) i =
      bit ((if i div 64 < n div 64 then f else g) (xs ! (i div 64)) (ys ! (i div 64))) (i mod 64)"
  proof (cases rule: index_cases)
    case 1
    then show ?thesis using le by (simp add: wbit_def tail_map_def Let_def nth_append)
  next
    case 2
    then have "n mod 64 > 0" by simp
    then show ?thesis using 2 le by (simp add: wbit_def tail_map_def Let_def nth_append)
  qed
qed

lemma short_index: "i < n \<Longrightarrow> n \<le> 64 \<Longrightarrow> i div 64 = 0 \<and> i mod 64 = (i :: nat)"
  by simp

lemma wf4_long: "wf4 v \<Longrightarrow> 64 < size4 v \<Longrightarrow> length (abits4 v) = nwords (size4 v) \<and> length (bbits4 v) = nwords (size4 v)"
  by (simp add: wf4_def words4_def)

lemma wf4_short: "wf4 v \<Longrightarrow> size4 v \<le> 64 \<Longrightarrow> length (abits4 v) = 1 \<and> length (bbits4 v) = 1"
  by (simp add: wf4_def words4_def)

lemma tail_mask:
  assumes "i < n" "\<not> i div 64 < n div 64"
  shows "bit (ul_shl 1 (n mod 64) - 1) (i mod 64)"
  using assms by (cases rule: index_cases) (simp_all add: mask_bits)

text \<open>\<open>operator ~\<close> and \<open>invert\<close> complement every bit.\<close>

lemma bits4_invert_planes:
  assumes "\<And>i. i < size4 v \<Longrightarrow> wbit (abits4 w) i = (\<not> wbit (abits4 v) i \<or> wbit (bbits4 v) i)"
    and "\<And>i. i < size4 v \<Longrightarrow> wbit (bbits4 w) i = wbit (bbits4 v) i" "size4 w = size4 v"
  shows "bits4 w = map bit4_not (bits4 v)"
  using assms by (intro bits4_eqI) (auto simp: nth_bits4 bit4_not_table abit4_def bbit4_def mk_bit4_def)

lemma copy_inverted_from_ok:
  assumes "wf4 v"
  shows "wf4 (copy_inverted_from v)" "size4 (copy_inverted_from v) = size4 v"
    "bits4 (copy_inverted_from v) = map bit4_not (bits4 v)"
proof -
  show sz: "size4 (copy_inverted_from v) = size4 v" by (simp add: copy_inverted_from_def Let_def)
  show "wf4 (copy_inverted_from v)"
  proof (cases "size4 v > 64")
    case True
    then show ?thesis
      using wf4_long [OF assms True] by (simp add: copy_inverted_from_def Let_def wf4_def words4_def tail_map_ok(1))
  qed (simp add: copy_inverted_from_def Let_def wf4_def words4_def)
  show "bits4 (copy_inverted_from v) = map bit4_not (bits4 v)"
  proof (rule bits4_invert_planes)
    fix i assume i: "i < size4 v"
    show "wbit (abits4 (copy_inverted_from v)) i = (\<not> wbit (abits4 v) i \<or> wbit (bbits4 v) i)"
    proof (cases "size4 v > 64")
      case True
      then show ?thesis
        using wf4_long [OF assms True] i tail_mask [OF i]
        by (auto simp: copy_inverted_from_def Let_def tail_map_ok(2) bit_simps wbit_def [of "abits4 v"] wbit_def [of "bbits4 v"])
    next
      case False
      then show ?thesis
        using short_index [OF i] i by (auto simp: copy_inverted_from_def Let_def bit_simps wbit_def mask_bits)
    qed
    show "wbit (bbits4 (copy_inverted_from v)) i = wbit (bbits4 v) i"
      using i wf4_long [OF assms] short_index [OF i] by (auto simp: copy_inverted_from_def Let_def wbit_def)
  qed (rule sz)
qed

lemma invert_ok:
  assumes "wf4 v"
  shows "wf4 (invert v)" "size4 (invert v) = size4 v" "bits4 (invert v) = map bit4_not (bits4 v)"
proof -
  show sz: "size4 (invert v) = size4 v" by (simp add: invert_def Let_def)
  show "wf4 (invert v)"
  proof (cases "size4 v > 64")
    case True
    then show ?thesis
      using wf4_long [OF assms True] by (simp add: invert_def Let_def wf4_def words4_def tail_map_ok(1))
  qed (use wf4_short [OF assms] in \<open>simp add: invert_def Let_def wf4_def words4_def\<close>)
  show "bits4 (invert v) = map bit4_not (bits4 v)"
  proof (rule bits4_invert_planes)
    fix i assume i: "i < size4 v"
    show "wbit (abits4 (invert v)) i = (\<not> wbit (abits4 v) i \<or> wbit (bbits4 v) i)"
    proof (cases "size4 v > 64")
      case True
      then show ?thesis
        using wf4_long [OF assms True] i tail_mask [OF i]
        by (auto simp: invert_def Let_def tail_map_ok(2) bit_simps wbit_def [of "abits4 v"] wbit_def [of "bbits4 v"])
    next
      case False
      then show ?thesis
        using short_index [OF i] i wf4_short [OF assms]
        by (auto simp: invert_def Let_def bit_simps wbit_def mask_bits)
    qed
  qed (simp_all add: sz, simp add: invert_def Let_def)
qed

section \<open>Copying bits\<close>

lemma copy_plane_ok:
  assumes "length d = words4 dsz" "length s = words4 ssz" "\<not> (ssz = 64 \<and> 64 < dsz)"
  shows "length (copy_plane dsz ssz d s) = words4 dsz"
    and "i < dsz \<Longrightarrow> wbit (copy_plane dsz ssz d s) i = (if i < ssz then wbit s i else wbit d i)"
proof -
  define n where "n = (if ssz < dsz then ssz else dsz)"
  define msk where "msk = ul_shl 1 (n mod 64) - 1"
  define cp where "cp = tail_map (\<lambda>a b. b) (\<lambda>a b. (a AND NOT msk) OR (b AND msk)) n d s"
  have long: "copy_plane dsz ssz d s = cp @ drop (length cp) d" if "dsz \<noteq> ssz" "64 < dsz" "64 < ssz"
    using that by (simp add: copy_plane_def cp_def n_def msk_def Let_def)
  have ge: "nwords n \<le> length d" "nwords n \<le> length s" if "64 < dsz" "64 < ssz"
    using that assms(1,2) by (simp_all add: words4_def n_def nwords_def div_le_mono del: nwords_fold)
  show "length (copy_plane dsz ssz d s) = words4 dsz"
  proof (cases "64 < dsz \<and> 64 < ssz \<and> dsz \<noteq> ssz")
    case True
    then show ?thesis using long ge assms(1) tail_map_ok(1) [of n d s] by (simp add: cp_def)
  next
    case False
    then show ?thesis using assms(1,2) by (auto simp: copy_plane_def Let_def words4_def)
  qed
  assume i: "i < dsz"
  show "wbit (copy_plane dsz ssz d s) i = (if i < ssz then wbit s i else wbit d i)"
  proof (cases "64 < dsz \<and> 64 < ssz \<and> dsz \<noteq> ssz")
    case True
    then have len: "length cp = nwords n" using tail_map_ok(1) ge by (simp add: cp_def)
    show ?thesis
    proof (cases "i < n")
      case below: True
      then have "i div 64 < length cp" using nwords_bound len by simp
      then have "wbit (copy_plane dsz ssz d s) i = wbit cp i" using True long by (simp add: wbit_def nth_append)
      also have "\<dots> = wbit s i"
        using below True ge tail_mask [OF below] by (auto simp: cp_def tail_map_ok(2) wbit_def [of s] bit_masked msk_def)
      finally show ?thesis using below by (simp add: n_def split: if_splits)
    next
      case above: False
      then have n: "n = ssz" "\<not> i < ssz" using i by (auto simp: n_def split: if_splits)
      have le: "n div 64 \<le> i div 64" using above by (simp add: div_le_mono)
      have "wbit (copy_plane dsz ssz d s) i = wbit d i"
      proof (cases "i div 64 < length cp")
        case False
        then show ?thesis using True long i assms(1) words4_bound [OF i] by (simp add: wbit_def nth_append)
      next
        case part: True
        then have q: "i div 64 = n div 64" "0 < n mod 64"
          using le len by (auto simp: nwords_split split: if_splits)
        then have nb: "\<not> bit msk (i mod 64)"
          using above by (simp add: msk_def mask_bits) (metis div_mult_mod_eq add_less_cancel_left not_le)
        have "cp ! (n div 64) = (d ! (n div 64) AND NOT msk) OR (s ! (n div 64) AND msk)"
          using q(2) ge True by (simp add: cp_def tail_map_def Let_def nth_append nwords_split)
        then show ?thesis using part q(1) nb True long by (simp add: wbit_def nth_append bit_masked)
      qed
      then show ?thesis using n by simp
    qed
  next
    case False
    show ?thesis
    proof (cases "64 < dsz \<and> ssz < 64")
      case mixed: True
      let ?m = "ul_shl 1 ssz - 1"
      have "copy_plane dsz ssz d s = d[0 := (d ! 0 AND NOT ?m) OR (s ! 0 AND ?m)]"
        using mixed by (simp add: copy_plane_def Let_def)
      moreover have "0 < length d" using assms(1) words4_bound [OF i] by (metis less_nat_zero_code gr0I)
      moreover have "i < ssz \<longleftrightarrow> i div 64 = 0 \<and> i mod 64 < ssz" using mixed by auto
      ultimately show ?thesis
        using mixed by (cases "i div 64 = 0") (simp_all add: wbit_update bit_masked mask_bits wbit_def [of d] wbit_def [of s])
    next
      case short: False
      then show ?thesis
        using False assms i short_index [OF i]
        by (auto simp: copy_plane_def Let_def words4_def wbit_def mask_bits bit_masked bit_simps
            split: if_splits)
    qed
  qed
qed

lemma copy_bits_ok:
  assumes "wf4 v" "wf4 that" "\<not> (size4 that = 64 \<and> 64 < size4 v)"
  shows "wf4 (copy_bits v that)" "size4 (copy_bits v that) = size4 v"
    "bits4 (copy_bits v that) = take (size4 v) (bits4 that) @ drop (size4 that) (bits4 v)"
proof -
  show "wf4 (copy_bits v that)" "size4 (copy_bits v that) = size4 v"
    using assms copy_plane_ok(1) by (auto simp: copy_bits_def wf4_def)
  show "bits4 (copy_bits v that) = take (size4 v) (bits4 that) @ drop (size4 that) (bits4 v)"
  proof (rule bits4_eqI)
    fix i assume "i < length (take (size4 v) (bits4 that) @ drop (size4 that) (bits4 v))"
    then have i: "i < size4 v" by auto
    then have "(take (size4 v) (bits4 that) @ drop (size4 that) (bits4 v)) ! i
        = (if i < size4 that then bits4 that ! i else bits4 v ! i)"
      by (auto simp: nth_append)
    then show "wbit (abits4 (copy_bits v that)) i = abit4 ((take (size4 v) (bits4 that) @ drop (size4 that) (bits4 v)) ! i) \<and>
        wbit (bbits4 (copy_bits v that)) i = bbit4 ((take (size4 v) (bits4 that) @ drop (size4 that) (bits4 v)) ! i)"
      using i assms copy_plane_ok(2) by (auto simp: copy_bits_def wf4_def nth_bits4_planes)
  qed (auto simp: copy_bits_def)
qed

section \<open>Comparisons\<close>

lemma masked_eq: "k < 64 \<Longrightarrow> x AND (ul_shl 1 k - 1) = y AND (ul_shl 1 k - 1) \<longleftrightarrow> (\<forall>i < k. bit (x :: ulong) i = bit y i)"
  unfolding word_eq_bits by (auto simp: bit_simps mask_bits dest: order.strict_trans)

lemma all_bits_split:
  fixes n :: nat
  shows "(\<forall>i < n. P (i div 64) (i mod 64)) \<longleftrightarrow>
    (\<forall>k < n div 64. \<forall>j < 64. P k j) \<and> (\<forall>j < n mod 64. P (n div 64) j)"
    (is "?A \<longleftrightarrow> ?B \<and> ?C")
proof (intro iffI conjI)
  have n: "64 * (n div 64) + n mod 64 = n" by simp
  have ix: "(64 * k + j) div 64 = k" "(64 * k + j) mod 64 = j" if "j < 64" for k j :: nat using that by simp_all
  assume a: ?A
  show ?B
  proof (intro allI impI)
    fix k j :: nat assume "k < n div 64" "j < 64"
    then have "64 * k + j < n" using n by linarith
    with a have "P ((64 * k + j) div 64) ((64 * k + j) mod 64)" by blast
    then show "P k j" using ix [OF \<open>j < 64\<close>] by simp
  qed
  show ?C
  proof (intro allI impI)
    fix j assume j: "j < n mod 64"
    then have j64: "j < 64" using mod_less_divisor [of 64 n] by linarith
    have "64 * (n div 64) + j < n" using j n by linarith
    with a have "P ((64 * (n div 64) + j) div 64) ((64 * (n div 64) + j) mod 64)" by blast
    then show "P (n div 64) j" unfolding ix [OF j64] .
  qed
next
  assume bc: "?B \<and> ?C"
  show ?A
  proof (intro allI impI)
    fix i assume "i < n"
    then show "P (i div 64) (i mod 64)" by (cases rule: index_cases) (use bc in auto)
  qed
qed

lemma plane_eq_iff: "plane_eq n xs ys \<longleftrightarrow> (\<forall>i < n. wbit xs i = wbit ys i)"
proof -
  have whole: "x = y \<longleftrightarrow> (\<forall>i < 64. bit (x :: ulong) i = bit y i)" for x y by (rule word_eq_bits)
  consider "n < 64" | "n = 64" | "64 < n" by linarith
  then show ?thesis
  proof cases
    case 3
    have "plane_eq n xs ys \<longleftrightarrow> (\<forall>k < n div 64. \<forall>j < 64. bit (xs ! k) j = bit (ys ! k) j) \<and>
        (\<forall>j < n mod 64. bit (xs ! (n div 64)) j = bit (ys ! (n div 64)) j)"
      using 3 whole masked_eq [of "n mod 64" "xs ! (n div 64)" "ys ! (n div 64)"]
      by (cases "n mod 64 > 0") (simp_all add: plane_eq_def Let_def list_all_iff atLeast0LessThan Ball_def)
    then show ?thesis unfolding wbit_def all_bits_split [of n "\<lambda>k j. bit (xs ! k) j = bit (ys ! k) j"] .
  next
    case 1
    then show ?thesis using masked_eq [OF 1, of "xs ! 0" "ys ! 0"] by (simp add: plane_eq_def Let_def wbit_def)
  next
    case 2
    then show ?thesis using whole [of "xs ! 0" "ys ! 0"] by (simp add: plane_eq_def wbit_def)
  qed
qed

lemma eeq_iff: "eeq v w \<longleftrightarrow> bits4 v = bits4 w"
proof -
  have "size4 v = size4 w \<Longrightarrow> bits4 v = bits4 w \<longleftrightarrow>
      (\<forall>i < size4 v. wbit (abits4 v) i = wbit (abits4 w) i \<and> wbit (bbits4 v) i = wbit (bbits4 w) i)"
    by (auto simp: list_eq_iff_nth_eq nth_bits4)
  moreover have "bits4 v = bits4 w \<Longrightarrow> size4 v = size4 w" by (metis length_bits4)
  ultimately show ?thesis by (auto simp: eeq_def plane_eq_iff)
qed

lemma eq_xz_iff:
  assumes "wf4 v" "wf4 w"
  shows "eq_xz v w \<longleftrightarrow> map vvp_bit4_z2x (bits4 v) = map vvp_bit4_z2x (bits4 w)"
proof (cases "size4 v = size4 w")
  case True
  have orb: "wbit (map2 (OR) (abits4 u) (bbits4 u)) i = (wbit (abits4 u) i \<or> wbit (bbits4 u) i)"
    if "wf4 u" "i < size4 u" for u i
    using that words4_ge [of "size4 u"] by (subst wbit_map2) (auto simp: wf4_def wbit_def bit_simps)
  have "vvp_bit4_z2x (mk_bit4 a b) = vvp_bit4_z2x (mk_bit4 c d) \<longleftrightarrow> ((a \<or> b) = (c \<or> d)) \<and> b = d" for a b c d
    by (auto simp: mk_bit4_def vvp_bit4_z2x_table)
  then show ?thesis
    using True assms orb by (auto simp: eq_xz_def plane_eq_iff list_eq_iff_nth_eq nth_bits4)
next
  case False
  then have "length (map vvp_bit4_z2x (bits4 v)) \<noteq> length (map vvp_bit4_z2x (bits4 w))" by simp
  then show ?thesis using False by (metis eq_xz_def)
qed

lemma has_xz_iff:
  assumes "0 < size4 v"
  shows "has_xz v \<longleftrightarrow> list_ex bit4_is_xz (bits4 v)"
proof -
  have msk: "w AND ul_shr (- 1) (64 - k) \<noteq> 0 \<longleftrightarrow> (\<exists>i < k. bit (w :: ulong) i)" if "0 < k" "k < 64" for w k
    using that by (auto simp: word_zero_iff bit_simps mask_bits less_diff_conv2 intro: order.strict_trans)
  have nz: "w \<noteq> 0 \<longleftrightarrow> (\<exists>i < 64. bit (w :: ulong) i)" for w by (auto simp: word_zero_iff)
  have "has_xz v \<longleftrightarrow> (\<exists>i < size4 v. wbit (bbits4 v) i)"
  proof (cases "size4 v > 64")
    case True
    have "has_xz v \<longleftrightarrow> \<not> ((\<forall>k < size4 v div 64. \<forall>j < 64. \<not> bit (bbits4 v ! k) j) \<and>
        (\<forall>j < size4 v mod 64. \<not> bit (bbits4 v ! (size4 v div 64)) j))"
      using True msk [of "size4 v mod 64"]
      by (cases "size4 v mod 64 > 0") (simp_all add: has_xz_def Let_def list_ex_iff atLeast0LessThan Bex_def nz)
    then show ?thesis
      using all_bits_split [of "size4 v" "\<lambda>k j. \<not> bit (bbits4 v ! k) j"] by (auto simp: wbit_def)
  next
    case False
    then show ?thesis using assms msk nz by (auto simp: has_xz_def Let_def wbit_def)
  qed
  moreover have "list_ex bit4_is_xz (bits4 v) \<longleftrightarrow> (\<exists>i < size4 v. wbit (bbits4 v) i)"
    unfolding list_ex_length by (auto simp: nth_bits4 mk_bit4_xz)
  ultimately show ?thesis by simp
qed

section \<open>Logic\<close>

lemma change_z2x_ok:
  assumes "wf4 v"
  shows "wf4 (change_z2x v)" "bits4 (change_z2x v) = map vvp_bit4_z2x (bits4 v)"
proof -
  show "wf4 (change_z2x v)" using assms by (simp add: change_z2x_def wf4_def)
  have a: "wbit (abits4 (change_z2x v)) i = (wbit (abits4 v) i \<or> wbit (bbits4 v) i)" if i: "i < size4 v" for i
  proof (cases "size4 v \<le> 64")
    case True
    then show ?thesis using wf4_short [OF assms True] short_index [OF i True] by (simp add: change_z2x_def wbit_def bit_simps)
  next
    case False
    then show ?thesis
      using assms i words4_ge [of "size4 v"] by (simp add: change_z2x_def wbit_map2 wf4_def bit_simps wbit_def [of "abits4 v"] wbit_def [of "bbits4 v"])
  qed
  have "bbits4 (change_z2x v) = bbits4 v" "size4 (change_z2x v) = size4 v" by (simp_all add: change_z2x_def)
  then show "bits4 (change_z2x v) = map vvp_bit4_z2x (bits4 v)"
    using a by (intro bits4_eqI) (auto simp: nth_bits4 vvp_bit4_z2x_table mk_bit4_def abit4_def bbit4_def)
qed

lemma fill_bits_ok:
  assumes "wf4 v"
  shows "wf4 (fill_bits v b)" "bits4 (fill_bits v b) = replicate (size4 v) b"
proof -
  have "fill_bits v b = vector4_fill (size4 v) b"
  proof (cases "size4 v \<le> 64")
    case True
    then obtain a c where "abits4 v = [a]" "bbits4 v = [c]"
      using wf4_short [OF assms] by (metis One_nat_def length_0_conv length_Suc_conv)
    then show ?thesis using True by (simp add: fill_bits_def vector4_fill_def allocate_words_def)
  next
    case False
    then show ?thesis by (simp add: fill_bits_def vector4_fill_def allocate_words_def Let_def)
  qed
  then show "wf4 (fill_bits v b)" "bits4 (fill_bits v b) = replicate (size4 v) b" by (simp_all add: bits4_fill)
qed

lemma word_walk_ok:
  assumes "wf4 v"
  shows "wf4 (word_walk f v w)" "size4 (word_walk f v w) = size4 v"
    and "i < size4 v \<Longrightarrow> wbit (abits4 (word_walk f v w)) i =
      bit (fst (f (abits4 v ! (i div 64), bbits4 v ! (i div 64)) (abits4 w ! (i div 64), bbits4 w ! (i div 64)))) (i mod 64)"
    and "i < size4 v \<Longrightarrow> wbit (bbits4 (word_walk f v w)) i =
      bit (snd (f (abits4 v ! (i div 64), bbits4 v ! (i div 64)) (abits4 w ! (i div 64), bbits4 w ! (i div 64)))) (i mod 64)"
proof -
  have ww: "word_walk f v w = v\<lparr>abits4 := map fst out, bbits4 := map snd out\<rparr>"
    if "out = map (\<lambda>idx. f (abits4 v ! idx, bbits4 v ! idx) (abits4 w ! idx, bbits4 w ! idx)) [0..<words4 (size4 v)]" for out
    using that by (simp add: word_walk_def words4_def Let_def)
  show "wf4 (word_walk f v w)" "size4 (word_walk f v w) = size4 v" by (simp_all add: ww wf4_def)
  assume i: "i < size4 v"
  show "wbit (abits4 (word_walk f v w)) i =
      bit (fst (f (abits4 v ! (i div 64), bbits4 v ! (i div 64)) (abits4 w ! (i div 64), bbits4 w ! (i div 64)))) (i mod 64)"
    "wbit (bbits4 (word_walk f v w)) i =
      bit (snd (f (abits4 v ! (i div 64), bbits4 v ! (i div 64)) (abits4 w ! (i div 64), bbits4 w ! (i div 64)))) (i mod 64)"
    using words4_bound [OF i] by (simp_all add: ww wbit_def)
qed

lemma and_assign_ok:
  assumes "wf4 v" "size4 w = size4 v"
  shows "wf4 (and_assign v w)" "bits4 (and_assign v w) = map2 bit4_and (bits4 v) (bits4 w)"
proof -
  show "wf4 (and_assign v w)" using word_walk_ok(1) [OF assms(1)] by (simp add: and_assign_def)
  show "bits4 (and_assign v w) = map2 bit4_and (bits4 v) (bits4 w)"
    using assms(2) word_walk_ok(2-4) [OF assms(1), where f = and_words and w = w]
    by (intro bits4_eqI) (auto simp: and_assign_def and_words_def Let_def bit_simps nth_bits4 bit4_and_table
        mk_bit4_def abit4_def bbit4_def wbit_def [of "abits4 v"] wbit_def [of "bbits4 v"]
        wbit_def [of "abits4 w"] wbit_def [of "bbits4 w"])
qed

lemma or_assign_ok:
  assumes "wf4 v" "size4 w = size4 v"
  shows "wf4 (or_assign v w)" "bits4 (or_assign v w) = map2 bit4_or (bits4 v) (bits4 w)"
proof -
  show "wf4 (or_assign v w)" using word_walk_ok(1) [OF assms(1)] by (simp add: or_assign_def)
  show "bits4 (or_assign v w) = map2 bit4_or (bits4 v) (bits4 w)"
    using assms(2) word_walk_ok(2-4) [OF assms(1), where f = or_words and w = w]
    by (intro bits4_eqI) (auto simp: or_assign_def or_words_def Let_def bit_simps nth_bits4 bit4_or_table
        mk_bit4_def abit4_def bbit4_def wbit_def [of "abits4 v"] wbit_def [of "bbits4 v"]
        wbit_def [of "abits4 w"] wbit_def [of "bbits4 w"])
qed

end
