(* ===== verification/Vvp_Blit.thy ===== *)
theory Vvp_Blit
  imports Vvp_Vector4
begin

text \<open>
  The methods of \<open>vvp_vector4_t\<close> that move ranges of bits: \<open>set_vec\<close>, \<open>subarray\<close>, \<open>setarray\<close> and \<open>mov\<close>
  (vvp/vvp_net.cc). They work on words with masks and shifts, in several cases for speed; each is shown
  to write exactly the addressed bits. The loops are described by \<open>writes\<close>, which composes over
  adjacent ranges.
\<close>

section \<open>Writing a range of bits\<close>

text \<open>
  \<open>writes d p t f d' fl\<close>: \<open>d'\<close> is \<open>d\<close> with the bits \<open>p, ..., p+t-1\<close> set from \<open>f\<close>, and \<open>fl\<close> says whether one of
  them was different before.
\<close>

definition writes :: "ulong list \<Rightarrow> nat \<Rightarrow> nat \<Rightarrow> (nat \<Rightarrow> bool) \<Rightarrow> ulong list \<Rightarrow> bool \<Rightarrow> bool" where
  "writes d p t f d' fl \<longleftrightarrow> length d' = length d \<and>
     (\<forall>i < 64 * length d. wbit d' i = (if p \<le> i \<and> i < p + t then f i else wbit d i)) \<and>
     (fl \<longleftrightarrow> (\<exists>i. p \<le> i \<and> i < p + t \<and> wbit d i \<noteq> f i))"

lemma writes_refl: "writes d p 0 f d False"
  by (auto simp: writes_def)

lemma writes_cong:
  assumes "writes d p t f d' fl" "\<And>i. p \<le> i \<Longrightarrow> i < p + t \<Longrightarrow> f i = g i"
  shows "writes d p t g d' fl"
  using assms unfolding writes_def by auto

lemma writes_trans:
  assumes "writes d p t f d1 fl1" "writes d1 (p + t) u f d2 fl2" "p + t + u \<le> 64 * length d"
  shows "writes d p (t + u) f d2 (fl1 \<or> fl2)"
proof -
  have len: "length d1 = length d" "length d2 = length d" using assms(1,2) by (simp_all add: writes_def)
  have b1: "wbit d1 i = (if p \<le> i \<and> i < p + t then f i else wbit d i)" if "i < 64 * length d" for i
    using assms(1) that by (simp add: writes_def)
  have b2: "wbit d2 i = (if p + t \<le> i \<and> i < p + t + u then f i else wbit d1 i)" if "i < 64 * length d" for i
    using assms(2) that len by (simp add: writes_def)
  have "fl2 \<longleftrightarrow> (\<exists>i. p + t \<le> i \<and> i < p + t + u \<and> wbit d i \<noteq> f i)"
    using assms(2,3) b1 unfolding writes_def by (metis less_le_trans not_le)
  moreover have "fl1 \<longleftrightarrow> (\<exists>i. p \<le> i \<and> i < p + t \<and> wbit d i \<noteq> f i)" using assms(1) by (simp add: writes_def)
  ultimately have "fl1 \<or> fl2 \<longleftrightarrow> (\<exists>i. p \<le> i \<and> i < p + (t + u) \<and> wbit d i \<noteq> f i)"
    by (metis add.assoc le_add1 less_le_trans linorder_not_less order_trans)
  then show ?thesis using len b1 b2 by (auto simp: writes_def)
qed

text \<open>A range inside the word \<open>k\<close>.\<close>

lemma word_range:
  assumes "lo \<le> hi" "hi \<le> 64"
  shows "64 * k + lo \<le> i \<and> i < 64 * k + lo + (hi - lo) \<longleftrightarrow> i div 64 = k \<and> lo \<le> i mod 64 \<and> i mod 64 < (hi :: nat)"
proof -
  define q r where "q = i div 64" and "r = i mod 64"
  have i: "i = 64 * q + r" "r < 64" by (simp_all add: q_def r_def)
  consider "q = k" | "q < k" | "k < q" by linarith
  then have "64 * k + lo \<le> i \<and> i < 64 * k + lo + (hi - lo) \<longleftrightarrow> q = k \<and> lo \<le> r \<and> r < hi"
    using i assms by cases linarith+
  then show ?thesis by (simp add: q_def r_def)
qed

lemma masked_writes:
  assumes "k < length d" "lo \<le> hi" "hi \<le> 64" "\<And>j. j < 64 \<Longrightarrow> bit msk j \<longleftrightarrow> lo \<le> j \<and> j < hi"
    and "\<And>j. lo \<le> j \<Longrightarrow> j < hi \<Longrightarrow> bit x j = f (64 * k + j)"
  shows "writes d (64 * k + lo) (hi - lo) f (d[k := (d ! k AND NOT msk) OR (x AND msk)]) (d ! k AND msk \<noteq> x AND msk)"
proof -
  note rng = word_range [OF assms(2,3), of k]
  have ix: "64 * (i div 64) + i mod 64 = i" for i :: nat by simp
  have bits: "wbit (d[k := (d ! k AND NOT msk) OR (x AND msk)]) i
      = (if 64 * k + lo \<le> i \<and> i < 64 * k + lo + (hi - lo) then f i else wbit d i)" for i
    using assms(1) assms(4) [of "i mod 64"] assms(5) [of "i mod 64"] ix [of i]
    by (auto simp: wbit_update bit_masked rng) (auto simp: wbit_def)
  have "d ! k AND msk = x AND msk \<longleftrightarrow> (\<forall>j < 64. lo \<le> j \<and> j < hi \<longrightarrow> bit (d ! k) j = f (64 * k + j))"
    unfolding word_eq_bits using assms(4,5) by (auto simp: bit_simps)
  also have "\<dots> \<longleftrightarrow> (\<forall>i. i div 64 = k \<and> lo \<le> i mod 64 \<and> i mod 64 < hi \<longrightarrow> wbit d i = f i)"
    (is "?L \<longleftrightarrow> ?R")
  proof
    assume a: ?L
    have "wbit d i = f i" if i: "i div 64 = k" "lo \<le> i mod 64" "i mod 64 < hi" for i
      using a [rule_format, of "i mod 64"] ix [of i] i by (auto simp: wbit_def)
    then show ?R by blast
  next
    assume a: ?R
    have "bit (d ! k) j = f (64 * k + j)" if "j < 64" "lo \<le> j" "j < hi" for j
      using a [rule_format, of "64 * k + j"] that by (simp add: wbit_def)
    then show ?L by blast
  qed
  finally have same: "d ! k AND msk = x AND msk \<longleftrightarrow>
      (\<forall>i. i div 64 = k \<and> lo \<le> i mod 64 \<and> i mod 64 < hi \<longrightarrow> wbit d i = f i)" .
  show ?thesis
    unfolding writes_def same
  proof (intro conjI)
    show "(\<not> (\<forall>i. i div 64 = k \<and> lo \<le> i mod 64 \<and> i mod 64 < hi \<longrightarrow> wbit d i = f i)) =
        (\<exists>i\<ge>64 * k + lo. i < 64 * k + lo + (hi - lo) \<and> wbit d i \<noteq> f i)"
      using rng by blast
  qed (use bits in simp_all)
qed

section \<open>set\_vec\<close>

text \<open>
  \<open>if ((ptr[k] & mask) != tmp) { diff_flag = true; ptr[k] = (ptr[k] & ~mask) | tmp; }\<close>, the statement
  that every case of \<open>set_vec\<close> repeats on both planes.
\<close>

definition set_word :: "nat \<Rightarrow> ulong \<Rightarrow> ulong \<Rightarrow> ulong list \<times> bool \<Rightarrow> ulong list \<times> bool" where
  "set_word k msk tmp st =
     (case st of (d, diff_flag) \<Rightarrow>
        if d ! k AND msk \<noteq> tmp then (d[k := (d ! k AND NOT msk) OR tmp], True) else (d, diff_flag))"

text \<open>The two planes are treated alike: \<open>d\<close> is a plane of this vector, \<open>s\<close> the same plane of \<open>that\<close>.\<close>

fun set_vec_aligned :: "ulong list \<Rightarrow> nat \<Rightarrow> nat \<Rightarrow> nat \<Rightarrow> ulong list \<times> bool \<Rightarrow> ulong list \<times> bool" where
  "set_vec_aligned s remain sptr dptr st =
     (if remain \<ge> BITS_PER_WORD
      then set_vec_aligned s (remain - BITS_PER_WORD) (sptr + 1) (dptr + 1) (set_word dptr (- 1) (s ! sptr) st)
      else if remain > 0
        then let msk = ul_shl 1 remain - 1 in set_word dptr msk (s ! sptr AND msk) st
      else st)"

fun set_vec_unaligned :: "ulong list \<Rightarrow> nat \<Rightarrow> nat \<Rightarrow> nat \<Rightarrow> nat \<Rightarrow> ulong list \<times> bool \<Rightarrow> ulong list \<times> bool" where
  "set_vec_unaligned s doff remain sptr dptr st =
     (let lmask = ul_shl 1 doff - 1;
          ndoff = BITS_PER_WORD - doff
      in if remain \<ge> BITS_PER_WORD
      then let st = set_word dptr (NOT lmask) (ul_shl (s ! sptr) doff AND NOT lmask) st;
               dptr = dptr + 1;
               st = set_word dptr lmask (ul_shr (s ! sptr) ndoff AND lmask) st
           in set_vec_unaligned s doff (remain - BITS_PER_WORD) (sptr + 1) dptr st
      else if remain > 0
      then let hshift = doff + remain;
               hmask = (if hshift \<ge> BITS_PER_WORD then - 1 else ul_shl 1 (doff + remain) - 1);
               msk = hmask AND NOT lmask;
               st = set_word dptr msk (ul_shl (s ! sptr) doff AND msk) st
           in if doff + remain > BITS_PER_WORD
              then let tail = doff + remain - BITS_PER_WORD;
                       msk = (if tail \<ge> BITS_PER_WORD then - 1 else ul_shl 1 tail - 1)
                   in set_word (dptr + 1) msk (ul_shr (s ! sptr) (remain - tail) AND msk) st
              else st
      else st)"

definition set_vec_plane :: "nat \<Rightarrow> nat \<Rightarrow> nat \<Rightarrow> ulong list \<Rightarrow> ulong list \<Rightarrow> ulong list \<times> bool" where
  "set_vec_plane dsz ssz adr d s =
     (if dsz \<le> BITS_PER_WORD then
        let lmask = ul_shl 1 adr - 1;
            hshift = adr + ssz;
            hmask = (if hshift \<ge> BITS_PER_WORD then - 1 else ul_shl 1 (adr + ssz) - 1);
            msk = hmask AND NOT lmask
        in set_word 0 msk (ul_shl (s ! 0) adr AND msk) (d, False)
      else if ssz \<le> BITS_PER_WORD then
        let dptr = adr div BITS_PER_WORD;
            doff = adr mod BITS_PER_WORD;
            lmask = ul_shl 1 doff - 1;
            hshift = doff + ssz;
            hmask = (if hshift \<ge> BITS_PER_WORD then - 1 else ul_shl 1 hshift - 1);
            msk = hmask AND NOT lmask;
            st = set_word dptr msk (ul_shl (s ! 0) doff AND msk) (d, False)
        in if doff + ssz > BITS_PER_WORD
           then let tail = doff + ssz - BITS_PER_WORD;
                    msk = ul_shl 1 tail - 1
                in set_word (dptr + 1) msk (ul_shr (s ! 0) (ssz - tail) AND msk) st
           else st
      else if adr mod BITS_PER_WORD = 0
      then set_vec_aligned s ssz 0 (adr div BITS_PER_WORD) (d, False)
      else set_vec_unaligned s (adr mod BITS_PER_WORD) ssz 0 (adr div BITS_PER_WORD) (d, False))"

definition set_vec :: "vvp_vector4_t \<Rightarrow> nat \<Rightarrow> vvp_vector4_t \<Rightarrow> (vvp_vector4_t \<times> bool) option" where
  "set_vec v adr that =
     (if adr + size4 that \<le> size4 v
      then let (a, fa) = set_vec_plane (size4 v) (size4 that) adr (abits4 v) (abits4 that);
               (b, fb) = set_vec_plane (size4 v) (size4 that) adr (bbits4 v) (bbits4 that)
           in Some (v\<lparr>abits4 := a, bbits4 := b\<rparr>, fa \<or> fb)
      else None)"

declare set_vec_aligned.simps [simp del] set_vec_unaligned.simps [simp del]

text \<open>The same relation for a state of the loops, that carries the flag along.\<close>

definition writes_st :: "ulong list \<times> bool \<Rightarrow> nat \<Rightarrow> nat \<Rightarrow> (nat \<Rightarrow> bool) \<Rightarrow> ulong list \<times> bool \<Rightarrow> bool" where
  "writes_st st p t f st' \<longleftrightarrow> (\<exists>fl. writes (fst st) p t f (fst st') fl \<and> snd st' = (snd st \<or> fl))"

lemma writes_st_trans:
  assumes "writes_st st p t f st1" "writes_st st1 (p + t) u f st2" "p + t + u \<le> 64 * length (fst st)"
  shows "writes_st st p (t + u) f st2"
  using assms writes_trans [of "fst st" p t f "fst st1" _ u "fst st2"] unfolding writes_st_def by blast

lemma writes_st_length: "writes_st st p t f st' \<Longrightarrow> length (fst st') = length (fst st)"
  by (auto simp: writes_st_def writes_def)

lemma writes_st_refl: "writes_st st p 0 f st"
  using writes_refl by (auto simp: writes_st_def)

lemma set_word_writes:
  assumes "k < length (fst st)" "lo \<le> hi" "hi \<le> 64" "\<And>j. j < 64 \<Longrightarrow> bit msk j \<longleftrightarrow> lo \<le> j \<and> j < hi"
    and "\<And>j. lo \<le> j \<Longrightarrow> j < hi \<Longrightarrow> bit x j = f (64 * k + j)" "tmp = x AND msk"
    and "p = 64 * k + lo" "t = hi - lo"
  shows "writes_st st p t f (set_word k msk tmp st)"
proof -
  obtain d fl where st: "st = (d, fl)" by fastforce
  have w: "writes d p t f (d[k := (d ! k AND NOT msk) OR (x AND msk)]) (d ! k AND msk \<noteq> x AND msk)"
    unfolding assms(7,8) using assms(1-5) by (intro masked_writes) (auto simp: st)
  moreover have "d[k := (d ! k AND NOT msk) OR (x AND msk)] = d" if "d ! k AND msk = x AND msk"
  proof -
    have "(d ! k AND NOT msk) OR (x AND msk) = d ! k" unfolding that [symmetric] by (rule bit_word_eqI) (auto simp: bit_simps)
    then show ?thesis by (metis list_update_id)
  qed
  ultimately show ?thesis
    by (auto simp: writes_st_def set_word_def st assms(6))
qed

lemma wbit_word: "j < 64 \<Longrightarrow> wbit s (64 * k + j) = bit (s ! k) j"
  by (simp add: wbit_def)

lemma set_vec_aligned_ok:
  assumes "64 * dptr + remain \<le> 64 * length (fst st)"
    and "\<And>i. i < remain \<Longrightarrow> f (64 * dptr + i) = wbit s (64 * sptr + i)"
  shows "writes_st st (64 * dptr) remain f (set_vec_aligned s remain sptr dptr st)"
  using assms
proof (induction s remain sptr dptr st rule: set_vec_aligned.induct)
  case (1 s remain sptr dptr st)
  have f: "f (64 * dptr + i) = bit (s ! sptr) i" if "i < remain" "i < 64" for i
    using "1.prems"(2) [OF that(1)] that(2) by (simp add: wbit_word)
  consider "64 \<le> remain" | "0 < remain" "remain < 64" | "remain = 0" by linarith
  then show ?case
  proof cases
    case 1
    let ?st = "set_word dptr (- 1) (s ! sptr) st"
    have w: "writes_st st (64 * dptr) 64 f ?st"
      using "1.prems"(1) 1 f by (intro set_word_writes [where lo = 0 and hi = 64 and x = "s ! sptr"]) auto
    have "f (64 * (dptr + 1) + i) = wbit s (64 * (sptr + 1) + i)" if "i < remain - 64" for i
      using "1.prems"(2) [of "64 + i"] that by (simp add: add.assoc add.left_commute)
    then have "writes_st ?st (64 * (dptr + 1)) (remain - 64) f
        (set_vec_aligned s (remain - 64) (sptr + 1) (dptr + 1) ?st)"
      using "1.IH" [OF 1] "1.prems"(1) 1 writes_st_length [OF w] by (simp add: algebra_simps)
    then have "writes_st ?st (64 * dptr + 64) (remain - 64) f (set_vec_aligned s remain sptr dptr st)"
      using 1 by (simp add: set_vec_aligned.simps [of s remain] add.commute)
    from writes_st_trans [OF w this] "1.prems"(1) 1 show ?thesis by simp
  next
    case 2
    then have "set_vec_aligned s remain sptr dptr st =
        set_word dptr (ul_shl 1 remain - 1) (s ! sptr AND (ul_shl 1 remain - 1)) st"
      by (simp add: set_vec_aligned.simps [of s remain] Let_def)
    then show ?thesis
      using "1.prems"(1) 2 f
      by (auto intro!: set_word_writes [where lo = 0 and hi = remain and x = "s ! sptr"] simp: mask_bits)
  next
    case 3
    then show ?thesis by (simp add: set_vec_aligned.simps [of s 0] writes_st_refl)
  qed
qed

text \<open>A source word of \<open>n\<close> bits written at offset \<open>doff\<close>: into one word, or across two.\<close>

lemma split_word_writes:
  assumes "doff < 64" "0 < n" "n \<le> 64" "64 * dptr + doff + n \<le> 64 * length (fst st)"
    and f: "\<And>i. i < n \<Longrightarrow> f (64 * dptr + doff + i) = bit w i"
    and lmask: "lmask = ul_shl 1 doff - 1"
    and hmask: "hmask = (if doff + n \<ge> 64 then - 1 else ul_shl 1 (doff + n) - 1)"
    and msk: "msk = hmask AND NOT lmask" and tail: "tail = doff + n - 64" and sh: "sh = n - tail"
    and st1: "st1 = set_word dptr msk (ul_shl w doff AND msk) st"
    and st2: "st2 = (if doff + n > 64 then set_word (dptr + 1) (ul_shl 1 tail - 1) (ul_shr w sh AND (ul_shl 1 tail - 1)) st1 else st1)"
  shows "writes_st st (64 * dptr + doff) n f st2"
proof -
  define hi where "hi = min 64 (doff + n)"
  have w1: "writes_st st (64 * dptr + doff) (hi - doff) f st1"
    unfolding st1
  proof (rule set_word_writes [where lo = doff and hi = hi and x = "ul_shl w doff"])
    show "dptr < length (fst st)" using assms(2,4) by linarith
    show "bit msk j \<longleftrightarrow> doff \<le> j \<and> j < hi" if "j < 64" for j
      using that assms(1) by (auto simp: msk hmask lmask hi_def bit_simps mask_bits)
    show "bit (ul_shl w doff) j = f (64 * dptr + j)" if "doff \<le> j" "j < hi" for j
      using that assms(1) f [of "j - doff"] by (simp add: shift_simps hi_def less_diff_conv2)
  qed (use assms(1) in \<open>auto simp: hi_def\<close>)
  show ?thesis
  proof (cases "doff + n > 64")
    case False
    then show ?thesis using w1 by (simp add: st2 hi_def)
  next
    case True
    have "writes_st st1 (64 * (dptr + 1)) tail f st2"
      unfolding st2 if_P [OF True]
    proof (rule set_word_writes [where lo = 0 and hi = tail and x = "ul_shr w sh"])
      show "dptr + 1 < length (fst st1)" using assms(4) True writes_st_length [OF w1] by simp
      show "bit (ul_shl 1 tail - 1) j \<longleftrightarrow> 0 \<le> j \<and> j < tail" if "j < 64" for j
        using that assms(1,3) by (simp add: tail mask_bits)
      show "bit (ul_shr w sh) j = f (64 * (dptr + 1) + j)" if "0 \<le> j" "j < tail" for j
        using that assms(1,3) True f [of "sh + j"] by (simp add: sh tail shift_simps algebra_simps)
    qed (use assms(1,3) in \<open>auto simp: tail\<close>)
    moreover have "64 * (dptr + 1) = 64 * dptr + doff + (hi - doff)" "hi - doff + tail = n"
      using True assms(1) by (auto simp: hi_def tail)
    ultimately show ?thesis using writes_st_trans [OF w1, of tail st2] assms(4) by (simp only: add.assoc)
  qed
qed

lemma set_vec_unaligned_ok:
  assumes "0 < doff" "doff < 64" "64 * dptr + doff + remain \<le> 64 * length (fst st)"
    and "\<And>i. i < remain \<Longrightarrow> f (64 * dptr + doff + i) = wbit s (64 * sptr + i)"
  shows "writes_st st (64 * dptr + doff) remain f (set_vec_unaligned s doff remain sptr dptr st)"
  using assms
proof (induction s doff remain sptr dptr st rule: set_vec_unaligned.induct)
  case (1 s doff remain sptr dptr st)
  let ?l = "ul_shl 1 doff - 1"
  have f: "f (64 * dptr + doff + i) = bit (s ! sptr) i" if "i < remain" "i < 64" for i
    using "1.prems"(4) [OF that(1)] that(2) by (simp add: wbit_word)
  consider "64 \<le> remain" | "0 < remain" "remain < 64" | "remain = 0" by linarith
  then show ?case
  proof cases
    case 1
    define st1 where "st1 = set_word dptr (NOT ?l) (ul_shl (s ! sptr) doff AND NOT ?l) st"
    define st2 where "st2 = set_word (dptr + 1) ?l (ul_shr (s ! sptr) (64 - doff) AND ?l) st1"
    have w: "writes_st st (64 * dptr + doff) 64 f st2"
      by (rule split_word_writes [where w = "s ! sptr" and lmask = ?l and hmask = "- 1" and msk = "NOT ?l"
            and tail = doff and sh = "64 - doff" and ?st1.0 = st1])
        (use "1.prems"(1-3) 1 f in \<open>auto simp: st1_def st2_def\<close>)
    have "f (64 * (dptr + 1) + doff + i) = wbit s (64 * (sptr + 1) + i)" if "i < remain - 64" for i
      using "1.prems"(4) [of "64 + i"] that by (simp add: add.assoc add.left_commute)
    then have "writes_st st2 (64 * (dptr + 1) + doff) (remain - 64) f
        (set_vec_unaligned s doff (remain - 64) (sptr + 1) (dptr + 1) st2)"
      using "1.IH" [of ?l "64 - doff" st1 "dptr + 1" st2] "1.prems"(1-3) 1 writes_st_length [OF w]
      by (simp add: st1_def st2_def)
    then have "writes_st st2 (64 * dptr + doff + 64) (remain - 64) f (set_vec_unaligned s doff remain sptr dptr st)"
      using 1 by (simp add: set_vec_unaligned.simps [of s doff remain] Let_def st1_def st2_def algebra_simps)
    from writes_st_trans [OF w this] "1.prems"(3) 1 show ?thesis by simp
  next
    case 2
    show ?thesis
      by (rule split_word_writes [where w = "s ! sptr" and lmask = ?l and tail = "doff + remain - 64"
            and sh = "remain - (doff + remain - 64)"
            and hmask = "if doff + remain \<ge> 64 then - 1 else ul_shl 1 (doff + remain) - 1"])
        (use "1.prems"(1-3) 2 f in \<open>auto simp: set_vec_unaligned.simps [of s doff remain] Let_def\<close>)
  next
    case 3
    then show ?thesis by (simp add: set_vec_unaligned.simps [of s doff 0] writes_st_refl Let_def)
  qed
qed

lemma set_vec_plane_ok:
  assumes "length d = words4 dsz" "length s = words4 ssz" "adr + ssz \<le> dsz" "0 < ssz"
  shows "\<exists>fl. set_vec_plane dsz ssz adr d s = (fst (set_vec_plane dsz ssz adr d s), fl) \<and>
    writes d adr ssz (\<lambda>i. wbit s (i - adr)) (fst (set_vec_plane dsz ssz adr d s)) fl"
proof -
  let ?f = "\<lambda>i. wbit s (i - adr)" and ?k = "adr div 64" and ?o = "adr mod 64"
  have adr: "64 * ?k + ?o = adr" by simp
  have len: "dsz \<le> 64 * length d" using words4_ge [of dsz] assms(1) by simp
  have "writes_st (d, False) adr ssz ?f (set_vec_plane dsz ssz adr d s)"
  proof (cases "ssz \<le> 64")
    case True
    have z: "?k = 0 \<and> ?o = adr" if "dsz \<le> 64" using that assms(3,4) by simp
    have "writes_st (d, False) (64 * ?k + ?o) ssz ?f (set_vec_plane dsz ssz adr d s)"
      by (rule split_word_writes [where w = "s ! 0" and lmask = "ul_shl 1 ?o - 1" and tail = "?o + ssz - 64"
            and sh = "ssz - (?o + ssz - 64)"
            and hmask = "if ?o + ssz \<ge> 64 then - 1 else ul_shl 1 (?o + ssz) - 1"])
        (use z True assms len adr wbit_word [of _ s 0] in \<open>auto simp: set_vec_plane_def Let_def\<close>)
    then show ?thesis by (simp only: adr)
  next
    case False
    then have long: "\<not> dsz \<le> 64" using assms(3) by simp
    show ?thesis
    proof (cases "?o = 0")
      case True
      then have "64 * ?k = adr" using adr by simp
      then show ?thesis
        using set_vec_aligned_ok [of ?k ssz "(d, False)" ?f s 0] True False long assms(3) len
        by (simp add: set_vec_plane_def)
    next
      case unal: False
      then show ?thesis
        using set_vec_unaligned_ok [of ?o ?k ssz "(d, False)" ?f s 0] False long assms(3) len adr
        by (simp add: set_vec_plane_def)
    qed
  qed
  then show ?thesis by (auto simp: writes_st_def) (metis prod.collapse)
qed

text \<open>\<open>set_vec\<close> replaces the addressed bits, and reports whether the vector changed.\<close>

lemma set_vec_ok:
  assumes "wf4 v" "wf4 w" "adr + size4 w \<le> size4 v" "0 < size4 w"
  shows "\<exists>v' fl. set_vec v adr w = Some (v', fl) \<and> wf4 v' \<and> size4 v' = size4 v \<and>
    bits4 v' = take adr (bits4 v) @ bits4 w @ drop (adr + size4 w) (bits4 v) \<and> (fl \<longleftrightarrow> bits4 v' \<noteq> bits4 v)"
proof -
  let ?pl = "set_vec_plane (size4 v) (size4 w) adr"
  obtain a fa where a: "?pl (abits4 v) (abits4 w) = (a, fa)" "writes (abits4 v) adr (size4 w) (\<lambda>i. wbit (abits4 w) (i - adr)) a fa"
    using set_vec_plane_ok [of "abits4 v" "size4 v" "abits4 w" "size4 w" adr] assms by (auto simp: wf4_def)
  obtain b fb where b: "?pl (bbits4 v) (bbits4 w) = (b, fb)" "writes (bbits4 v) adr (size4 w) (\<lambda>i. wbit (bbits4 w) (i - adr)) b fb"
    using set_vec_plane_ok [of "bbits4 v" "size4 v" "bbits4 w" "size4 w" adr] assms by (auto simp: wf4_def)
  define v' where "v' = v\<lparr>abits4 := a, bbits4 := b\<rparr>"
  have wf': "wf4 v'" "size4 v' = size4 v" using assms(1) a(2) b(2) by (simp_all add: v'_def wf4_def writes_def)
  have len: "size4 v \<le> 64 * length (abits4 v)" "size4 v \<le> 64 * length (bbits4 v)"
    using words4_ge [of "size4 v"] assms(1) by (simp_all add: wf4_def)
  have nth: "bits4 v' ! i = (if adr \<le> i \<and> i < adr + size4 w then bits4 w ! (i - adr) else bits4 v ! i)"
    if "i < size4 v" for i
    using that a(2) b(2) len wf'(2) assms(3) by (auto simp: nth_bits4 writes_def v'_def)
  have bits: "bits4 v' = take adr (bits4 v) @ bits4 w @ drop (adr + size4 w) (bits4 v)"
    using assms(3) wf'(2) nth by (intro nth_equalityI) (auto simp: nth_append)
  have "bits4 v' \<noteq> bits4 v \<longleftrightarrow> (\<exists>i < size4 v. bits4 v' ! i \<noteq> bits4 v ! i)"
    using wf'(2) by (auto simp: list_eq_iff_nth_eq)
  also have "\<dots> \<longleftrightarrow> (\<exists>i. adr \<le> i \<and> i < adr + size4 w \<and> bits4 w ! (i - adr) \<noteq> bits4 v ! i)"
    using nth assms(3) by (metis less_le_trans)
  also have "\<dots> \<longleftrightarrow> fa \<or> fb"
  proof -
    have "bits4 w ! (i - adr) \<noteq> bits4 v ! i \<longleftrightarrow>
        wbit (abits4 v) i \<noteq> wbit (abits4 w) (i - adr) \<or> wbit (bbits4 v) i \<noteq> wbit (bbits4 w) (i - adr)"
      if "adr \<le> i" "i < adr + size4 w" for i
      using that assms(3) by (auto simp: nth_bits4)
    then show ?thesis using a(2) b(2) unfolding writes_def by blast
  qed
  finally show ?thesis using bits wf' a(1) b(1) assms(3) by (auto simp: set_vec_def v'_def)
qed

end
