(* ===== verification/Vvp_Range.thy ===== *)
theory Vvp_Range
  imports Vvp_Blit
begin

text \<open>
  The exchange of bit ranges with native arrays (\<open>subarray\<close>, \<open>setarray\<close>) and within a vector (\<open>mov\<close>), and
  \<open>resize\<close> (vvp/vvp_net.cc). The loops keep a word pointer and a bit offset for the source and for the
  destination; the model keeps the bit position, whose quotient and remainder by the word size they are.
\<close>

section \<open>Definitions\<close>

text \<open>
  The number of bits of one step: bounded by what is left and by the ends of both words
  (\<open>if (trans > ...) trans = ...\<close>).
\<close>

definition step_bits :: "nat \<Rightarrow> nat \<Rightarrow> nat \<Rightarrow> nat" where
  "step_bits wid off val_off =
     (let trans = wid;
          trans = (if trans > BITS_PER_WORD - val_off then BITS_PER_WORD - val_off else trans);
          trans = (if trans > BITS_PER_WORD - off then BITS_PER_WORD - off else trans)
      in trans)"

lemma step_bits_pos [simp]: "0 < wid \<Longrightarrow> 0 < step_bits wid (a mod 64) (b mod 64)"
  by (simp add: step_bits_def Let_def)

lemma step_bits_le: "step_bits wid off val_off \<le> wid" "off < 64 \<Longrightarrow> off + step_bits wid off val_off \<le> 64"
    "val_off < 64 \<Longrightarrow> val_off + step_bits wid off val_off \<le> 64" "step_bits wid off val_off \<le> 64"
  by (auto simp: step_bits_def Let_def)

text \<open>
  \<open>subarray\<close> returns a new array of words, or the nil pointer (\<open>None\<close>) if it meets an unknown bit that it
  may not read as zero.
\<close>

function subarray_loop :: "vvp_vector4_t \<Rightarrow> bool \<Rightarrow> nat \<Rightarrow> nat \<Rightarrow> nat \<Rightarrow> ulong list \<Rightarrow> ulong list option" where
  "subarray_loop v xz_to_0 adr wid pos val =
     (if wid > 0 then
        let off = adr mod BITS_PER_WORD;
            val_ptr = pos div BITS_PER_WORD;
            val_off = pos mod BITS_PER_WORD;
            atmp = ul_shr (abits4 v ! (adr div BITS_PER_WORD)) off;
            btmp = ul_shr (bbits4 v ! (adr div BITS_PER_WORD)) off;
            trans = step_bits wid off val_off;
            (atmp, btmp) = (if trans < BITS_PER_WORD
              then (atmp AND (ul_shl 1 trans - 1), btmp AND (ul_shl 1 trans - 1)) else (atmp, btmp))
        in if btmp \<noteq> 0 \<and> \<not> xz_to_0 then None
           else let atmp = (if btmp \<noteq> 0 then atmp AND NOT btmp else atmp)
                in subarray_loop v xz_to_0 (adr + trans) (wid - trans) (pos + trans)
                     (val[val_ptr := val ! val_ptr OR ul_shl atmp val_off])
      else Some val)"
  by pat_completeness auto
termination
  by (relation "measure (\<lambda>(v, xz, adr, wid, pos, val). wid)") (simp_all add: Let_def)

definition subarray :: "vvp_vector4_t \<Rightarrow> nat \<Rightarrow> nat \<Rightarrow> bool \<Rightarrow> ulong list option" where
  "subarray v adr wid xz_to_0 =
     (let awid = (wid + BITS_PER_WORD - 1) div BITS_PER_WORD;
          val = replicate awid 0
      in if size4 v \<le> BITS_PER_WORD then
        let atmp = ul_shr (abits_val v) adr;
            btmp = ul_shr (bbits_val v) adr;
            (atmp, btmp) = (if wid < BITS_PER_WORD
              then (atmp AND (ul_shl 1 wid - 1), btmp AND (ul_shl 1 wid - 1)) else (atmp, btmp))
        in if btmp \<noteq> 0 \<and> \<not> xz_to_0 then None
           else Some (val[0 := (if btmp \<noteq> 0 then atmp AND NOT btmp else atmp)])
      else subarray_loop v xz_to_0 adr wid 0 val)"

function setarray_loop :: "ulong list \<Rightarrow> nat \<Rightarrow> nat \<Rightarrow> nat \<Rightarrow> ulong list \<Rightarrow> ulong list \<Rightarrow> ulong list \<times> ulong list" where
  "setarray_loop val wid adr pos a b =
     (if wid > 0 then
        let off = adr mod BITS_PER_WORD;
            ptr = adr div BITS_PER_WORD;
            val_off = pos mod BITS_PER_WORD;
            val_ptr = pos div BITS_PER_WORD;
            trans = step_bits wid off val_off;
            lmask = ul_shl 1 off - 1;
            hmask = (if off + trans < BITS_PER_WORD then ul_shl (- 1) (off + trans) else 0);
            msk = NOT (hmask OR lmask);
            a = a[ptr := a ! ptr AND NOT msk];
            b = b[ptr := b ! ptr AND NOT msk];
            a = (if val_off \<ge> off
                 then a[ptr := a ! ptr OR (msk AND ul_shr (val ! val_ptr) (val_off - off))]
                 else a[ptr := a ! ptr OR (msk AND ul_shl (val ! val_ptr) (off - val_off))])
        in setarray_loop val (wid - trans) (adr + trans) (pos + trans) a b
      else (a, b))"
  by pat_completeness auto
termination
  by (relation "measure (\<lambda>(val, wid, adr, pos, a, b). wid)") (simp_all add: Let_def)

definition setarray :: "vvp_vector4_t \<Rightarrow> nat \<Rightarrow> nat \<Rightarrow> ulong list \<Rightarrow> vvp_vector4_t option" where
  "setarray v adr wid val =
     (if adr + wid \<le> size4 v
      then if size4 v \<le> BITS_PER_WORD then
          let lmask = ul_shl 1 adr - 1;
              hmask = (if adr + wid < BITS_PER_WORD then ul_shl (- 1) (adr + wid) else 0);
              msk = NOT (hmask OR lmask)
          in Some (set_val ((abits_val v AND NOT msk) OR (msk AND ul_shl (val ! 0) adr)) (bbits_val v AND NOT msk) v)
        else let (a, b) = setarray_loop val wid adr 0 (abits4 v) (bbits4 v)
             in Some (v\<lparr>abits4 := a, bbits4 := b\<rparr>)
      else None)"

text \<open>\<open>mov\<close>, on one plane.\<close>

function mov_loop :: "nat \<Rightarrow> nat \<Rightarrow> nat \<Rightarrow> ulong list \<Rightarrow> ulong list" where
  "mov_loop cnt src dst ws =
     (if cnt > 0 then
        let sptr = src div BITS_PER_WORD;
            dptr = dst div BITS_PER_WORD;
            soff = src mod BITS_PER_WORD;
            doff = dst mod BITS_PER_WORD;
            trans = cnt;
            trans = (if soff + trans > BITS_PER_WORD then BITS_PER_WORD - soff else trans);
            trans = (if doff + trans > BITS_PER_WORD then BITS_PER_WORD - doff else trans)
        in if trans = BITS_PER_WORD
           then mov_loop (cnt - BITS_PER_WORD) (src + BITS_PER_WORD) (dst + BITS_PER_WORD) (ws[dptr := ws ! sptr])
           else let vmask = ul_shl 1 trans - 1;
                    tmp = ul_shr (ws ! sptr) soff AND vmask
                in mov_loop (cnt - trans) (src + trans) (dst + trans)
                     (ws[dptr := (ws ! dptr AND NOT (ul_shl vmask doff)) OR ul_shl tmp doff])
      else ws)"
  by pat_completeness auto
termination
proof (relation "measure (\<lambda>(cnt, src, dst, ws). cnt)", goal_cases)
  case (2 cnt src dst ws)
  then show ?case by auto
next
  case (3 cnt src dst ws)
  have "src mod 64 < 64" "dst mod 64 < 64" by simp_all
  with 3 show ?case by auto
qed simp

definition mov_plane :: "nat \<Rightarrow> nat \<Rightarrow> nat \<Rightarrow> nat \<Rightarrow> ulong list \<Rightarrow> ulong list" where
  "mov_plane sz dst src cnt ws =
     (if sz \<le> BITS_PER_WORD then
        let vmask = ul_shl 1 cnt - 1;
            tmp = ul_shr (ws ! 0) src AND vmask
        in ws[0 := (ws ! 0 AND NOT (ul_shl vmask dst)) OR ul_shl tmp dst]
      else mov_loop cnt src dst ws)"

definition mov :: "vvp_vector4_t \<Rightarrow> nat \<Rightarrow> nat \<Rightarrow> nat \<Rightarrow> vvp_vector4_t option" where
  "mov v dst src cnt =
     (if dst + cnt \<le> size4 v \<and> src + cnt \<le> size4 v
      then Some (v\<lparr>abits4 := mov_plane (size4 v) dst src cnt (abits4 v),
                   bbits4 := mov_plane (size4 v) dst src cnt (bbits4 v)\<rparr>)
      else None)"

declare subarray_loop.simps [simp del] setarray_loop.simps [simp del] mov_loop.simps [simp del]

text \<open>
  \<open>resize\<close>, on one plane. The words of a newly allocated array that are not assigned are unspecified.
\<close>

definition resize_plane :: "nat \<Rightarrow> nat \<Rightarrow> ulong \<Rightarrow> ulong list \<Rightarrow> ulong list" where
  "resize_plane osz newsize word_pad ws =
     (let cnt = (osz + BITS_PER_WORD - 1) div BITS_PER_WORD;
          fill = osz mod BITS_PER_WORD;
          pad_last = (\<lambda>bs. if newsize > osz \<and> fill \<noteq> 0
            then bs[cnt - 1 := (bs ! (cnt - 1) AND NOT (ul_shl (- 1) fill)) OR ul_shl word_pad fill] else bs)
      in if newsize > BITS_PER_WORD then
        let newcnt = (newsize + BITS_PER_WORD - 1) div BITS_PER_WORD
        in if newcnt = cnt then pad_last ws
           else
             let newbits = (if cnt > 1 then take (min cnt newcnt) ws else [ws ! 0]);
                 newbits = newbits @ replicate (newcnt - length newbits) undefined;
                 newbits = pad_last newbits
             in if newsize > osz
                then take cnt newbits @ replicate (newcnt - cnt) word_pad
                else newbits
      else
        let val = ws ! 0
        in [if newsize > osz then (val AND NOT (ul_shl (- 1) osz)) OR ul_shl word_pad osz else val])"

definition resize :: "vvp_vector4_t \<Rightarrow> nat \<Rightarrow> vvp_bit4_t \<Rightarrow> vvp_vector4_t" where
  "resize v newsize pad_bit =
     (if size4 v = newsize then v
      else \<lparr>size4 = newsize,
            abits4 = resize_plane (size4 v) newsize (WORD_ABITS pad_bit) (abits4 v),
            bbits4 = resize_plane (size4 v) newsize (WORD_BBITS pad_bit) (bbits4 v)\<rparr>)"

section \<open>Chunks of a word\<close>

lemma wbit_offset: "adr mod 64 + j < 64 \<Longrightarrow> wbit ws (adr + j) = bit (ws ! (adr div 64)) (adr mod 64 + j)"
proof -
  assume "adr mod 64 + j < 64"
  moreover have "adr + j = 64 * (adr div 64) + (adr mod 64 + j)" by simp
  ultimately show ?thesis using wbit_word [of "adr mod 64 + j" ws "adr div 64"] by simp
qed

text \<open>The next \<open>t\<close> bits of a plane, moved to the bottom of a word.\<close>

definition chunk :: "ulong list \<Rightarrow> nat \<Rightarrow> nat \<Rightarrow> ulong" where
  "chunk ws adr t = (let w = ul_shr (ws ! (adr div 64)) (adr mod 64) in if t < 64 then w AND (ul_shl 1 t - 1) else w)"

lemma bit_chunk:
  assumes "adr mod 64 + t \<le> 64"
  shows "bit (chunk ws adr t) j \<longleftrightarrow> j < t \<and> wbit ws (adr + j)"
proof -
  have "adr mod 64 < 64" by simp
  then have b: "bit (ul_shr (ws ! (adr div 64)) (adr mod 64)) j \<longleftrightarrow> bit (ws ! (adr div 64)) (adr mod 64 + j)"
    by (simp add: shift_simps)
  show ?thesis
  proof (cases "j < t")
    case True
    then have "wbit ws (adr + j) = bit (ws ! (adr div 64)) (adr mod 64 + j)"
      using assms by (intro wbit_offset) simp
    then show ?thesis using True b by (simp add: chunk_def Let_def bit_simps mask_bits)
  next
    case False
    then show ?thesis using assms b by (auto simp: chunk_def Let_def bit_simps mask_bits dest: bit_imp_le_length)
  qed
qed

text \<open>The mask of the bits from \<open>lo\<close> up to \<open>hi\<close>.\<close>

lemma bit_range_mask:
  assumes "lo < 64" "lo \<le> hi" "hi \<le> 64" "j < 64"
  shows "bit (NOT ((if hi < 64 then ul_shl (- 1) hi else 0) OR (ul_shl 1 lo - 1))) j \<longleftrightarrow> lo \<le> j \<and> j < hi"
  using assms by (auto simp: bit_simps mask_bits)

lemma position: "64 * (p div 64) + p mod 64 = (p :: nat)"
  by simp

section \<open>subarray\<close>

lemma subarray_loop_step:
  fixes wid adr pos :: nat and v :: vvp_vector4_t
  assumes "0 < wid"
  defines "t \<equiv> step_bits wid (adr mod 64) (pos mod 64)"
  defines "at \<equiv> chunk (abits4 v) adr t" and "bt \<equiv> chunk (bbits4 v) adr t"
  shows "subarray_loop v xz adr wid pos val =
    (if bt \<noteq> 0 \<and> \<not> xz then None
     else subarray_loop v xz (adr + t) (wid - t) (pos + t)
       (val[pos div 64 := val ! (pos div 64) OR ul_shl (if bt \<noteq> 0 then at AND NOT bt else at) (pos mod 64)]))"
  using assms(1) by (subst subarray_loop.simps) (simp add: Let_def chunk_def at_def bt_def t_def)

text \<open>Or-ing a chunk into bits that are still zero writes the range.\<close>

lemma or_chunk_writes:
  assumes "pos mod 64 + t \<le> 64" "pos + t \<le> 64 * length val" "0 < t"
    and zero: "\<And>i. pos \<le> i \<Longrightarrow> i < pos + t \<Longrightarrow> \<not> wbit val i"
    and x: "\<And>j. bit x j \<longleftrightarrow> j < t \<and> f (pos + j)"
  shows "wbit (val[pos div 64 := val ! (pos div 64) OR ul_shl x (pos mod 64)]) i
    = (if pos \<le> i \<and> i < pos + t then f i else wbit val i)"
proof -
  let ?k = "pos div 64" and ?o = "pos mod 64"
  have k: "?k < length val" using assms(2,3) by (simp add: div_less_iff_less_mult)
  have rng: "pos \<le> i \<and> i < pos + t \<longleftrightarrow> i div 64 = ?k \<and> ?o \<le> i mod 64 \<and> i mod 64 < ?o + t"
    using word_range [of ?o "?o + t" ?k i] assms(1) position [of pos] by simp
  have o: "?o < 64" by simp
  show ?thesis
  proof (cases "i div 64 = ?k")
    case True
    then have i: "i = 64 * ?k + i mod 64" using position [of i] by simp
    have b: "bit (ul_shl x ?o) (i mod 64) \<longleftrightarrow> ?o \<le> i mod 64 \<and> i mod 64 - ?o < t \<and> f (pos + (i mod 64 - ?o))"
      using o by (simp add: bit_ul_shl x)
    have e: "pos + (i mod 64 - ?o) = i" if "?o \<le> i mod 64" using that i position [of pos] by linarith
    have c: "i mod 64 - ?o < t \<longleftrightarrow> i mod 64 < ?o + t" if "?o \<le> i mod 64" using that by linarith
    have sh: "bit (ul_shl x ?o) (i mod 64) \<longleftrightarrow> (pos \<le> i \<and> i < pos + t) \<and> f i"
      unfolding b rng using True e c by (cases "?o \<le> i mod 64") simp_all
    have "wbit (val[?k := val ! ?k OR ul_shl x ?o]) i = (wbit val i \<or> bit (ul_shl x ?o) (i mod 64))"
      using True k by (simp add: wbit_update bit_simps) (simp add: wbit_def)
    then show ?thesis using sh zero by auto
  next
    case False
    then have "\<not> (pos \<le> i \<and> i < pos + t)" using rng by blast
    then show ?thesis using k False by (simp only: wbit_update if_False)
  qed
qed

lemma ex_less_split:
  assumes "t \<le> (n :: nat)"
  shows "(\<exists>i < n. P i) \<longleftrightarrow> (\<exists>i < t. P i) \<or> (\<exists>i < n - t. P (t + i))"
proof -
  have "\<exists>j < n - t. P (t + j)" if "i < n" "P i" "t \<le> i" for i
    using that by (intro exI [of _ "i - t"]) auto
  moreover have "t + i < n" if "i < n - t" for i using that by simp
  ultimately show ?thesis using assms by (meson less_le_trans not_le)
qed

lemma subarray_loop_ok:
  assumes "pos + wid \<le> 64 * length val" "\<And>i. pos \<le> i \<Longrightarrow> i < 64 * length val \<Longrightarrow> \<not> wbit val i"
  shows "if \<not> xz \<and> (\<exists>i < wid. wbit (bbits4 v) (adr + i)) then subarray_loop v xz adr wid pos val = None
    else \<exists>val'. subarray_loop v xz adr wid pos val = Some val' \<and> length val' = length val \<and>
      (\<forall>i < 64 * length val. wbit val' i =
        (if pos \<le> i \<and> i < pos + wid then wbit (abits4 v) (adr + (i - pos)) \<and> \<not> wbit (bbits4 v) (adr + (i - pos))
         else wbit val i))"
  using assms
proof (induction wid arbitrary: adr pos val rule: less_induct)
  case (less wid)
  show ?case
  proof (cases "wid = 0")
    case True
    then show ?thesis by (auto simp: subarray_loop.simps [of _ _ _ 0])
  next
    case False
    define t where "t = step_bits wid (adr mod 64) (pos mod 64)"
    define at bt where "at = chunk (abits4 v) adr t" and "bt = chunk (bbits4 v) adr t"
    define x where "x = (if bt \<noteq> 0 then at AND NOT bt else at)"
    define val1 where "val1 = val[pos div 64 := val ! (pos div 64) OR ul_shl x (pos mod 64)]"
    let ?f = "\<lambda>i. wbit (abits4 v) (adr + (i - pos)) \<and> \<not> wbit (bbits4 v) (adr + (i - pos))"
    have t: "0 < t" "t \<le> wid" "adr mod 64 + t \<le> 64" "pos mod 64 + t \<le> 64"
      using False step_bits_le by (simp_all add: t_def)
    have bits: "bit at j \<longleftrightarrow> j < t \<and> wbit (abits4 v) (adr + j)" "bit bt j \<longleftrightarrow> j < t \<and> wbit (bbits4 v) (adr + j)" for j
      using bit_chunk [OF t(3)] by (simp_all add: at_def bt_def)
    have btz: "bt \<noteq> 0 \<longleftrightarrow> (\<exists>j < t. wbit (bbits4 v) (adr + j))"
    proof -
      have "t \<le> 64" using t(3) by simp
      then show ?thesis by (auto simp: word_zero_iff bits intro: less_le_trans)
    qed
    have x: "bit x j \<longleftrightarrow> j < t \<and> ?f (pos + j)" for j
      using btz t(3) by (auto simp: x_def bits bit_simps dest: bit_imp_le_length)
    have step: "subarray_loop v xz adr wid pos val = (if bt \<noteq> 0 \<and> \<not> xz then None
        else subarray_loop v xz (adr + t) (wid - t) (pos + t) val1)"
      using subarray_loop_step [of wid v xz adr pos val] False by (simp add: t_def at_def bt_def x_def val1_def)
    have w1: "wbit val1 i = (if pos \<le> i \<and> i < pos + t then ?f i else wbit val i)" for i
      unfolding val1_def using t less.prems x by (intro or_chunk_writes) auto
    have len: "length val1 = length val" by (simp add: val1_def)
    have ih: "if \<not> xz \<and> (\<exists>i < wid - t. wbit (bbits4 v) (adr + t + i))
      then subarray_loop v xz (adr + t) (wid - t) (pos + t) val1 = None
      else \<exists>val'. subarray_loop v xz (adr + t) (wid - t) (pos + t) val1 = Some val' \<and> length val' = length val1 \<and>
        (\<forall>i < 64 * length val1. wbit val' i = (if pos + t \<le> i \<and> i < pos + t + (wid - t)
          then wbit (abits4 v) (adr + t + (i - (pos + t))) \<and> \<not> wbit (bbits4 v) (adr + t + (i - (pos + t)))
          else wbit val1 i))"
      using t less.prems w1 len by (intro less.IH) auto
    have ex: "(\<exists>i < wid. wbit (bbits4 v) (adr + i)) \<longleftrightarrow> bt \<noteq> 0 \<or> (\<exists>i < wid - t. wbit (bbits4 v) (adr + t + i))"
      unfolding btz using ex_less_split [OF t(2), of "\<lambda>i. wbit (bbits4 v) (adr + i)"] by (simp add: add.assoc)
    show ?thesis
    proof (cases "\<not> xz \<and> (\<exists>i < wid. wbit (bbits4 v) (adr + i))")
      case True
      then show ?thesis using ih step ex by (auto split: if_splits)
    next
      case False
      then have ok: "\<not> (bt \<noteq> 0 \<and> \<not> xz)" "\<not> (\<not> xz \<and> (\<exists>i < wid - t. wbit (bbits4 v) (adr + t + i)))" using ex by blast+
      then obtain val' where val': "subarray_loop v xz (adr + t) (wid - t) (pos + t) val1 = Some val'"
        "length val' = length val1" "\<And>i. i < 64 * length val1 \<Longrightarrow> wbit val' i = (if pos + t \<le> i \<and> i < pos + t + (wid - t)
          then wbit (abits4 v) (adr + t + (i - (pos + t))) \<and> \<not> wbit (bbits4 v) (adr + t + (i - (pos + t)))
          else wbit val1 i)"
        using ih unfolding if_not_P [OF ok(2)] by blast
      have "wbit val' i = (if pos \<le> i \<and> i < pos + wid then ?f i else wbit val i)" if "i < 64 * length val" for i
        using val'(3) [of i] that w1 [of i] t(2) len by auto
      then show ?thesis using val'(1,2) step ok(1) len unfolding if_not_P [OF False] by auto
    qed
  qed
qed

lemma subarray_ok:
  assumes "wf4 v" "adr + wid \<le> size4 v" "0 < wid"
  shows "if \<not> xz \<and> (\<exists>i < wid. bit4_is_xz (bits4 v ! (adr + i))) then subarray v adr wid xz = None
    else \<exists>val. subarray v adr wid xz = Some val \<and> length val = nwords wid \<and>
      (\<forall>i < 64 * length val. wbit val i = (i < wid \<and> bits4 v ! (adr + i) = BIT4_1))"
proof -
  have xzb: "bit4_is_xz (bits4 v ! (adr + i)) \<longleftrightarrow> wbit (bbits4 v) (adr + i)"
    "bits4 v ! (adr + i) = BIT4_1 \<longleftrightarrow> wbit (abits4 v) (adr + i) \<and> \<not> wbit (bbits4 v) (adr + i)" if "i < wid" for i
    using that assms(2) by (simp_all add: nth_bits4 mk_bit4_xz) (auto simp: mk_bit4_def)
  have ex: "(\<exists>i < wid. bit4_is_xz (bits4 v ! (adr + i))) \<longleftrightarrow> (\<exists>i < wid. wbit (bbits4 v) (adr + i))"
    using xzb(1) by blast
  show ?thesis
  proof (cases "size4 v \<le> 64")
    case True
    define at bt where "at = chunk (abits4 v) adr wid" and "bt = chunk (bbits4 v) adr wid"
    have ad: "adr < 64" "adr div 64 = 0" "adr mod 64 = adr" "adr mod 64 + wid \<le> 64" using True assms(2,3) by auto
    have bits: "bit at j \<longleftrightarrow> j < wid \<and> wbit (abits4 v) (adr + j)" "bit bt j \<longleftrightarrow> j < wid \<and> wbit (bbits4 v) (adr + j)" for j
      using bit_chunk [OF ad(4)] by (simp_all add: at_def bt_def)
    have w64: "wid \<le> 64" using ad(4) by simp
    then have btz: "bt \<noteq> 0 \<longleftrightarrow> (\<exists>j < wid. wbit (bbits4 v) (adr + j))"
      by (auto simp: word_zero_iff bits intro: less_le_trans)
    have n1: "nwords wid = 1" using w64 assms(3) by (auto simp: nwords_split le_less)
    have unf: "subarray v adr wid xz = (if bt \<noteq> 0 \<and> \<not> xz then None else Some [if bt \<noteq> 0 then at AND NOT bt else at])"
      using True ad n1 by (simp add: subarray_def at_def bt_def chunk_def Let_def)
    have x: "bit (if bt \<noteq> 0 then at AND NOT bt else at) j \<longleftrightarrow> j < wid \<and> bits4 v ! (adr + j) = BIT4_1" for j
      using btz xzb(2) w64 by (auto simp: bits bit_simps dest: bit_imp_le_length)
    show ?thesis unfolding ex unf using btz x n1 by (auto simp: wbit_def)
  next
    case False
    let ?z = "replicate (nwords wid) 0 :: ulong list"
    have z: "wbit ?z i = False" if "i < 64 * nwords wid" for i using that by (simp add: wbit_replicate)
    note sub = subarray_loop_ok [of 0 wid ?z xz v adr]
    have pre: "0 + wid \<le> 64 * length ?z" "\<And>i. 0 \<le> i \<Longrightarrow> i < 64 * length ?z \<Longrightarrow> \<not> wbit ?z i"
      using nwords_ge [of wid] z by simp_all
    have ok: "if \<not> xz \<and> (\<exists>i < wid. wbit (bbits4 v) (adr + i)) then subarray_loop v xz adr wid 0 ?z = None
      else \<exists>val'. subarray_loop v xz adr wid 0 ?z = Some val' \<and> length val' = nwords wid \<and>
      (\<forall>i < 64 * nwords wid. wbit val' i = (i < wid \<and> wbit (abits4 v) (adr + i) \<and> \<not> wbit (bbits4 v) (adr + i)))"
    proof (cases "\<not> xz \<and> (\<exists>i < wid. wbit (bbits4 v) (adr + i))")
      case True
      then show ?thesis using sub [OF pre] by simp
    next
      case False
      then show ?thesis using sub [OF pre] z unfolding if_not_P [OF False] by (fastforce split: if_splits)
    qed
    have unf: "subarray v adr wid xz = subarray_loop v xz adr wid 0 (replicate (nwords wid) 0)"
      using False by (simp add: subarray_def)
    show ?thesis
    proof (cases "\<not> xz \<and> (\<exists>i < wid. wbit (bbits4 v) (adr + i))")
      case True
      then show ?thesis unfolding ex unf using ok by simp
    next
      case False
      then show ?thesis using ok xzb(2) unfolding ex unf if_not_P [OF False] by fastforce
    qed
  qed
qed

section \<open>setarray\<close>

lemma setarray_step:
  fixes val a b :: "ulong list" and wid adr pos :: nat
  assumes "0 < wid" "adr + wid \<le> 64 * length a" "length b = length a"
  defines "t \<equiv> step_bits wid (adr mod 64) (pos mod 64)"
  shows "\<exists>a1 b1 fa fb. setarray_loop val wid adr pos a b = setarray_loop val (wid - t) (adr + t) (pos + t) a1 b1 \<and>
    writes a adr t (\<lambda>i. wbit val (pos + (i - adr))) a1 fa \<and> writes b adr t (\<lambda>i. False) b1 fb"
proof -
  let ?o = "adr mod 64" and ?p = "adr div 64" and ?vo = "pos mod 64" and ?vp = "pos div 64"
  define msk where "msk = NOT ((if ?o + t < 64 then ul_shl (- 1) (?o + t) else 0) OR (ul_shl 1 ?o - 1))"
  define y where "y = (if ?vo \<ge> ?o then ul_shr (val ! ?vp) (?vo - ?o) else ul_shl (val ! ?vp) (?o - ?vo))"
  have t: "0 < t" "t \<le> wid" "?o + t \<le> 64" "?vo + t \<le> 64" using assms(1) step_bits_le by (simp_all add: t_def)
  have k: "?p < length a" using assms(1,2) by (simp add: div_less_iff_less_mult)
  have m: "bit msk j \<longleftrightarrow> ?o \<le> j \<and> j < ?o + t" if "j < 64" for j
    unfolding msk_def using that t(3) by (intro bit_range_mask) auto
  have y: "bit y j = wbit val (pos + (64 * ?p + j - adr))" if "?o \<le> j" "j < ?o + t" for j
  proof -
    have "64 * ?p + j - adr = j - ?o" using that(1) position [of adr] by linarith
    moreover have "wbit val (pos + (j - ?o)) = bit (val ! ?vp) (?vo + (j - ?o))"
      using that t(4) by (intro wbit_offset) linarith
    moreover have "bit y j = bit (val ! ?vp) (?vo + (j - ?o))"
    proof (cases "?vo \<ge> ?o")
      case True
      then have "?vo - ?o < 64" "?vo - ?o + j = ?vo + (j - ?o)" using that(1) mod_less_divisor [of 64 pos] by linarith+
      then show ?thesis using True by (simp add: y_def bit_ul_shr)
    next
      case False
      then have "?o - ?vo < 64" "j - (?o - ?vo) = ?vo + (j - ?o)" "?o - ?vo \<le> j" "j < 64"
        using that t(3) mod_less_divisor [of 64 adr] by linarith+
      then show ?thesis using False by (simp add: y_def bit_ul_shl)
    qed
    ultimately show ?thesis by simp
  qed
  define a1 b1 where "a1 = a[?p := (a ! ?p AND NOT msk) OR (y AND msk)]" and "b1 = b[?p := (b ! ?p AND NOT msk) OR (0 AND msk)]"
  have "setarray_loop val wid adr pos a b = setarray_loop val (wid - t) (adr + t) (pos + t) a1 b1"
    unfolding setarray_loop.simps [of val wid adr pos a b] Let_def t_def [symmetric] msk_def [symmetric]
    using assms(1,3) k by (simp add: a1_def b1_def y_def and.commute)
  moreover have "writes a (64 * ?p + ?o) (?o + t - ?o) (\<lambda>i. wbit val (pos + (i - adr))) a1 (a ! ?p AND msk \<noteq> y AND msk)"
    unfolding a1_def using k t(3) m y by (intro masked_writes) auto
  moreover have "writes b (64 * ?p + ?o) (?o + t - ?o) (\<lambda>i. False) b1 (b ! ?p AND msk \<noteq> 0 AND msk)"
    unfolding b1_def using k t(3) m assms(3) by (intro masked_writes) auto
  ultimately show ?thesis unfolding position by (metis add_diff_cancel_left')
qed

lemma setarray_loop_ok:
  assumes "adr + wid \<le> 64 * length a" "length b = length a"
  shows "\<exists>a' b' fa fb. setarray_loop val wid adr pos a b = (a', b') \<and>
    writes a adr wid (\<lambda>i. wbit val (pos + (i - adr))) a' fa \<and> writes b adr wid (\<lambda>i. False) b' fb"
  using assms
proof (induction wid arbitrary: adr pos a b rule: less_induct)
  case (less wid)
  show ?case
  proof (cases "wid = 0")
    case True
    then show ?thesis using writes_refl by (simp add: setarray_loop.simps [of _ 0]) blast
  next
    case False
    define t where "t = step_bits wid (adr mod 64) (pos mod 64)"
    have t: "0 < t" "t \<le> wid" using False step_bits_le by (simp_all add: t_def)
    obtain a1 b1 fa fb where st: "setarray_loop val wid adr pos a b = setarray_loop val (wid - t) (adr + t) (pos + t) a1 b1"
      "writes a adr t (\<lambda>i. wbit val (pos + (i - adr))) a1 fa" "writes b adr t (\<lambda>i. False) b1 fb"
      using setarray_step [of wid adr a b val pos] False less.prems by (auto simp: t_def)
    have len: "length a1 = length a" "length b1 = length b" using st(2,3) by (simp_all add: writes_def)
    obtain a2 b2 ga gb where ih: "setarray_loop val (wid - t) (adr + t) (pos + t) a1 b1 = (a2, b2)"
      "writes a1 (adr + t) (wid - t) (\<lambda>i. wbit val (pos + t + (i - (adr + t)))) a2 ga"
      "writes b1 (adr + t) (wid - t) (\<lambda>i. False) b2 gb"
      using less.IH [of "wid - t" "adr + t" a1 b1 "pos + t"] t less.prems len by auto
    have "writes a1 (adr + t) (wid - t) (\<lambda>i. wbit val (pos + (i - adr))) a2 ga"
      by (rule writes_cong [OF ih(2)]) simp
    then show ?thesis
      using st(1) ih(1) writes_trans [OF st(2), of "wid - t" a2 ga] writes_trans [OF st(3) ih(3)] t(2) less.prems by auto
  qed
qed

text \<open>What a write to both planes does to the bits of the vector.\<close>

lemma planes_write:
  assumes "wf4 v" "adr + n \<le> size4 v" "writes (abits4 v) adr n fa a ca" "writes (bbits4 v) adr n fb b cb"
  defines "v' \<equiv> v\<lparr>abits4 := a, bbits4 := b\<rparr>"
  shows "wf4 v'" "size4 v' = size4 v"
    "bits4 v' = take adr (bits4 v) @ map (\<lambda>i. mk_bit4 (fa (adr + i)) (fb (adr + i))) [0..<n] @ drop (adr + n) (bits4 v)"
proof -
  show wf': "wf4 v'" "size4 v' = size4 v" using assms(1,3,4) by (simp_all add: v'_def wf4_def writes_def)
  have len: "size4 v \<le> 64 * length (abits4 v)" "size4 v \<le> 64 * length (bbits4 v)"
    using words4_ge [of "size4 v"] assms(1) by (simp_all add: wf4_def)
  have nth: "bits4 v' ! i = (if adr \<le> i \<and> i < adr + n then mk_bit4 (fa i) (fb i) else bits4 v ! i)"
    if "i < size4 v" for i
    using that assms(3,4) len wf'(2) by (auto simp: nth_bits4 writes_def v'_def)
  show "bits4 v' = take adr (bits4 v) @ map (\<lambda>i. mk_bit4 (fa (adr + i)) (fb (adr + i))) [0..<n] @ drop (adr + n) (bits4 v)"
    using assms(2) wf'(2) nth by (intro nth_equalityI) (auto simp: nth_append)
qed

lemma setarray_ok:
  assumes "wf4 v" "adr + wid \<le> size4 v" "0 < wid"
  shows "\<exists>v'. setarray v adr wid val = Some v' \<and> wf4 v' \<and> size4 v' = size4 v \<and>
    bits4 v' = take adr (bits4 v) @ map (\<lambda>i. if wbit val i then BIT4_1 else BIT4_0) [0..<wid] @ drop (adr + wid) (bits4 v)"
proof -
  have len: "size4 v \<le> 64 * length (abits4 v)" "length (bbits4 v) = length (abits4 v)"
    using words4_ge [of "size4 v"] assms(1) by (simp_all add: wf4_def)
  obtain a b fa fb where ab: "setarray v adr wid val = Some (v\<lparr>abits4 := a, bbits4 := b\<rparr>)"
    "writes (abits4 v) adr wid (\<lambda>i. wbit val (i - adr)) a fa" "writes (bbits4 v) adr wid (\<lambda>i. False) b fb"
  proof (cases "size4 v \<le> 64")
    case False
    then show ?thesis
      using setarray_loop_ok [of adr wid "abits4 v" "bbits4 v" val 0] len assms(2) that by (auto simp: setarray_def)
  next
    case True
    define msk where "msk = NOT ((if adr + wid < 64 then ul_shl (- 1) (adr + wid) else 0) OR (ul_shl 1 adr - 1))"
    have ad: "adr < 64" "adr + wid \<le> 64" using True assms(2,3) by auto
    have m: "bit msk j \<longleftrightarrow> adr \<le> j \<and> j < adr + wid" if "j < 64" for j
      unfolding msk_def using that ad by (intro bit_range_mask) auto
    have k: "0 < length (abits4 v)" "0 < length (bbits4 v)" using wf4_short [OF assms(1) True] by simp_all
    have y: "bit (ul_shl (val ! 0) adr) j = wbit val (64 * 0 + j - adr)" if "adr \<le> j" "j < adr + wid" for j
      using that ad by (simp add: bit_ul_shl wbit_def)
    have "writes (abits4 v) (64 * 0 + adr) (adr + wid - adr) (\<lambda>i. wbit val (i - adr))
        ((abits4 v)[0 := (abits_val v AND NOT msk) OR (ul_shl (val ! 0) adr AND msk)])
        (abits_val v AND msk \<noteq> ul_shl (val ! 0) adr AND msk)"
      using k ad m y by (intro masked_writes) auto
    moreover have "writes (bbits4 v) (64 * 0 + adr) (adr + wid - adr) (\<lambda>i. False)
        ((bbits4 v)[0 := (bbits_val v AND NOT msk) OR (0 AND msk)]) (bbits_val v AND msk \<noteq> 0 AND msk)"
      using k ad m by (intro masked_writes) auto
    moreover have "setarray v adr wid val = Some (v\<lparr>abits4 := (abits4 v)[0 := (abits_val v AND NOT msk) OR (ul_shl (val ! 0) adr AND msk)],
        bbits4 := (bbits4 v)[0 := (bbits_val v AND NOT msk) OR (0 AND msk)]\<rparr>)"
      unfolding setarray_def Let_def msk_def [symmetric] using True assms(2) by (simp add: and.commute)
    ultimately show ?thesis by (intro that) auto
  qed
  note pw = planes_write [OF assms(1,2) ab(2,3)]
  have "(\<lambda>i. mk_bit4 (wbit val (adr + i - adr)) False) = (\<lambda>i. if wbit val i then BIT4_1 else BIT4_0)"
    by (auto simp: mk_bit4_def)
  then show ?thesis using ab(1) pw by (intro exI [of _ "v\<lparr>abits4 := a, bbits4 := b\<rparr>"]) simp
qed

section \<open>mov\<close>

lemma mov_step:
  fixes cnt src dst :: nat and ws :: "ulong list"
  assumes "0 < cnt" "src + cnt \<le> 64 * length ws" "dst + cnt \<le> 64 * length ws"
  defines "t \<equiv> step_bits cnt (dst mod 64) (src mod 64)"
  shows "\<exists>ws1 fl. mov_loop cnt src dst ws = mov_loop (cnt - t) (src + t) (dst + t) ws1 \<and>
    writes ws dst t (\<lambda>i. wbit ws (src + (i - dst))) ws1 fl"
proof -
  let ?so = "src mod 64" and ?sp = "src div 64" and ?o = "dst mod 64" and ?p = "dst div 64"
  have t: "0 < t" "t \<le> cnt" "?o + t \<le> 64" "?so + t \<le> 64" using assms(1) step_bits_le by (simp_all add: t_def)
  have k: "?p < length ws" using assms(1,3) by (simp add: div_less_iff_less_mult)
  define x where "x = ul_shl (ul_shr (ws ! ?sp) ?so) ?o"
  define msk where "msk = (if t = 64 then - 1 else ul_shl (ul_shl 1 t - 1) ?o)"
  define ws1 where "ws1 = ws[?p := (ws ! ?p AND NOT msk) OR (x AND msk)]"
  have m: "bit msk j \<longleftrightarrow> ?o \<le> j \<and> j < ?o + t" if "j < 64" for j
    using that t(3) by (cases "t = 64") (auto simp: msk_def bit_ul_shl mask_bits less_diff_conv2)
  have x: "bit x j = wbit ws (src + (64 * ?p + j - dst))" if "?o \<le> j" "j < ?o + t" for j
  proof -
    have "64 * ?p + j - dst = j - ?o" using that(1) position [of dst] by linarith
    moreover have "wbit ws (src + (j - ?o)) = bit (ws ! ?sp) (?so + (j - ?o))"
      using that t(4) by (intro wbit_offset) linarith
    moreover have "j < 64" using that(2) t(3) by simp
    ultimately show ?thesis using that(1) by (simp add: x_def bit_ul_shl bit_ul_shr)
  qed
  have "writes ws (64 * ?p + ?o) (?o + t - ?o) (\<lambda>i. wbit ws (src + (i - dst))) ws1 (ws ! ?p AND msk \<noteq> x AND msk)"
    unfolding ws1_def using k t(3) m x by (intro masked_writes) auto
  moreover have "mov_loop cnt src dst ws = mov_loop (cnt - t) (src + t) (dst + t) ws1"
  proof -
    have te: "(let trans = cnt; trans = (if ?so + trans > 64 then 64 - ?so else trans);
        trans = (if ?o + trans > 64 then 64 - ?o else trans) in trans) = t"
      by (auto simp: Let_def t_def step_bits_def)
    show ?thesis
    proof (cases "t = 64")
      case True
      then have "?o = 0" "?so = 0" using t(3,4) by simp_all
      then have "x AND msk = ws ! ?sp" "ws ! ?p AND NOT msk = 0" using True by (simp_all add: x_def msk_def ul_shl_def ul_shr_def)
      then show ?thesis
        using True assms(1) te by (subst mov_loop.simps) (simp add: Let_def ws1_def)
    next
      case False
      have "ul_shl (ul_shr (ws ! ?sp) ?so AND (ul_shl 1 t - 1)) ?o = x AND msk"
        using False t(3) by (intro bit_word_eqI) (auto simp: x_def msk_def bit_simps bit_ul_shl)
      then show ?thesis
        using False assms(1) te by (subst mov_loop.simps) (simp add: Let_def ws1_def msk_def)
    qed
  qed
  ultimately show ?thesis unfolding position by (metis add_diff_cancel_left')
qed

lemma mov_loop_ok:
  assumes "src + cnt \<le> 64 * length ws" "dst + cnt \<le> 64 * length ws" "dst \<le> src \<or> src + cnt \<le> dst"
  shows "\<exists>fl. writes ws dst cnt (\<lambda>i. wbit ws (src + (i - dst))) (mov_loop cnt src dst ws) fl"
  using assms
proof (induction cnt arbitrary: src dst ws rule: less_induct)
  case (less cnt)
  show ?case
  proof (cases "cnt = 0")
    case True
    then show ?thesis using writes_refl by (simp add: mov_loop.simps [of 0]) blast
  next
    case False
    define t where "t = step_bits cnt (dst mod 64) (src mod 64)"
    have t: "0 < t" "t \<le> cnt" using False step_bits_le by (simp_all add: t_def)
    obtain ws1 fl where st: "mov_loop cnt src dst ws = mov_loop (cnt - t) (src + t) (dst + t) ws1"
      "writes ws dst t (\<lambda>i. wbit ws (src + (i - dst))) ws1 fl"
      using mov_step [of cnt src ws dst] False less.prems by (auto simp: t_def)
    have len: "length ws1 = length ws" using st(2) by (simp add: writes_def)
    obtain fl2 where ih: "writes ws1 (dst + t) (cnt - t) (\<lambda>i. wbit ws1 (src + t + (i - (dst + t))))
        (mov_loop (cnt - t) (src + t) (dst + t) ws1) fl2"
      using less.IH [of "cnt - t" "src + t" ws1 "dst + t"] t less.prems len by auto
    have "wbit ws1 (src + t + (i - (dst + t))) = wbit ws (src + (i - dst))"
      if i: "dst + t \<le> i" "i < dst + t + (cnt - t)" for i
    proof -
      let ?q = "src + (i - dst)"
      have "?q < 64 * length ws" "\<not> (dst \<le> ?q \<and> ?q < dst + t)" using i less.prems t by auto
      then have "wbit ws1 ?q = wbit ws ?q" using st(2) by (simp only: writes_def if_False)
      moreover have "src + t + (i - (dst + t)) = ?q" using i by simp
      ultimately show ?thesis by metis
    qed
    from writes_cong [OF ih this] show ?thesis
      using st(1) writes_trans [OF st(2)] t(2) less.prems(2) by fastforce
  qed
qed

lemma mov_plane_ok:
  assumes "length ws = words4 sz" "src + cnt \<le> sz" "dst + cnt \<le> sz" "dst \<le> src \<or> src + cnt \<le> dst"
    and "0 < cnt" "sz \<le> 64 \<longrightarrow> cnt < 64"
  shows "\<exists>fl. writes ws dst cnt (\<lambda>i. wbit ws (src + (i - dst))) (mov_plane sz dst src cnt ws) fl"
proof (cases "sz \<le> 64")
  case False
  have "sz \<le> 64 * length ws" using words4_ge [of sz] assms(1) by simp
  then show ?thesis using mov_loop_ok [of src cnt ws dst] assms(2-4) False by (simp add: mov_plane_def)
next
  case True
  let ?m = "ul_shl (ul_shl 1 cnt - 1) dst" and ?x = "ul_shl (ul_shr (ws ! 0) src) dst"
  have c: "cnt < 64" "dst < 64" "src < 64" using True assms(2,3,5,6) by auto
  have "ul_shl (ul_shr (ws ! 0) src AND (ul_shl 1 cnt - 1)) dst = ?x AND ?m"
    using c by (intro bit_word_eqI) (auto simp: bit_simps bit_ul_shl)
  then have unf: "mov_plane sz dst src cnt ws = ws[0 := (ws ! 0 AND NOT ?m) OR (?x AND ?m)]"
    using True by (simp add: mov_plane_def Let_def)
  have x: "bit ?x j = wbit ws (src + (64 * 0 + j - dst))" if "dst \<le> j" "j < dst + cnt" for j
    using that c True assms(2,3) by (simp add: bit_ul_shl bit_ul_shr wbit_def)
  have "writes ws (64 * 0 + dst) (dst + cnt - dst) (\<lambda>i. wbit ws (src + (i - dst)))
      (ws[0 := (ws ! 0 AND NOT ?m) OR (?x AND ?m)]) (ws ! 0 AND ?m \<noteq> ?x AND ?m)"
    using assms(1,3) True c x by (intro masked_writes) (auto simp: words4_def bit_ul_shl mask_bits)
  then show ?thesis unfolding unf by auto
qed

lemma mov_ok:
  assumes "wf4 v" "src + cnt \<le> size4 v" "dst + cnt \<le> size4 v" "dst \<le> src \<or> src + cnt \<le> dst"
    and "0 < cnt" "size4 v \<le> 64 \<longrightarrow> cnt < 64"
  shows "\<exists>v'. mov v dst src cnt = Some v' \<and> wf4 v' \<and> size4 v' = size4 v \<and>
    bits4 v' = take dst (bits4 v) @ take cnt (drop src (bits4 v)) @ drop (dst + cnt) (bits4 v)"
proof -
  obtain fa where a: "writes (abits4 v) dst cnt (\<lambda>i. wbit (abits4 v) (src + (i - dst)))
      (mov_plane (size4 v) dst src cnt (abits4 v)) fa"
    using mov_plane_ok [OF _ assms(2-6), of "abits4 v"] assms(1) by (auto simp: wf4_def)
  obtain fb where b: "writes (bbits4 v) dst cnt (\<lambda>i. wbit (bbits4 v) (src + (i - dst)))
      (mov_plane (size4 v) dst src cnt (bbits4 v)) fb"
    using mov_plane_ok [OF _ assms(2-6), of "bbits4 v"] assms(1) by (auto simp: wf4_def)
  note pw = planes_write [OF assms(1,3) a b]
  have "map (\<lambda>i. mk_bit4 (wbit (abits4 v) (src + (dst + i - dst))) (wbit (bbits4 v) (src + (dst + i - dst)))) [0..<cnt]
      = take cnt (drop src (bits4 v))"
    using assms(2) by (intro nth_equalityI) (auto simp: nth_bits4)
  then show ?thesis using pw assms(2,3) by (auto simp: mov_def)
qed

section \<open>resize\<close>

text \<open>Padding the last, partial word.\<close>

definition pad_last :: "nat \<Rightarrow> ulong \<Rightarrow> ulong list \<Rightarrow> ulong list" where
  "pad_last osz pad bs = (if osz mod 64 \<noteq> 0
     then bs[nwords osz - 1 := (bs ! (nwords osz - 1) AND NOT (ul_shl (- 1) (osz mod 64))) OR ul_shl pad (osz mod 64)] else bs)"

lemma length_pad_last [simp]: "length (pad_last osz pad bs) = length bs"
  by (simp add: pad_last_def)

lemma pad_last_bits:
  assumes "\<And>j. j < 64 \<Longrightarrow> bit pad j = c" "nwords osz \<le> length bs" "i < 64 * nwords osz"
  shows "wbit (pad_last osz pad bs) i = (if i < osz then wbit bs i else c)"
proof (cases "osz mod 64 = 0")
  case True
  then have "64 * nwords osz = osz" using position [of osz] by (simp add: nwords_split)
  then show ?thesis using assms(3) True by (simp add: pad_last_def)
next
  case False
  let ?q = "osz div 64" and ?r = "osz mod 64"
  have n: "nwords osz - 1 = ?q" "?q < length bs" using False assms(2) by (simp_all add: nwords_split)
  have r: "?r < 64" by simp
  have w: "bit ((w AND NOT (ul_shl (- 1) ?r)) OR ul_shl pad ?r) j = (if j < ?r then bit w j else c)" if "j < 64" for w :: ulong and j
    using that r assms(1) by (auto simp: bit_simps bit_ul_shl mask_bits)
  have le: "i div 64 \<le> ?q" using assms(3) False by (simp add: nwords_split div_less_iff_less_mult less_Suc_eq_le)
  have lt: "i < osz \<longleftrightarrow> i div 64 < ?q \<or> i div 64 = ?q \<and> i mod 64 < ?r"
  proof -
    have "i = 64 * (i div 64) + i mod 64" "osz = 64 * ?q + ?r" "i mod 64 < 64" by simp_all
    then show ?thesis using le by (cases "i div 64 = ?q") linarith+
  qed
  have "wbit (pad_last osz pad bs) i = (if i div 64 = ?q then (if i mod 64 < ?r then bit (bs ! ?q) (i mod 64) else c) else wbit bs i)"
    using False n by (simp add: pad_last_def wbit_update w)
  then show ?thesis using lt le by (cases "i div 64 = ?q") (simp_all add: wbit_def)
qed

lemma resize_plane_unfold:
  "resize_plane osz n pad ws =
     (if n > 64 then
        (if nwords n = nwords osz then (if n > osz then pad_last osz pad ws else ws)
         else let nb = (if nwords osz > 1 then take (min (nwords osz) (nwords n)) ws else [ws ! 0]);
                  nb = nb @ replicate (nwords n - length nb) undefined
              in if n > osz then take (nwords osz) (pad_last osz pad nb) @ replicate (nwords n - nwords osz) pad else nb)
      else [if n > osz then (ws ! 0 AND NOT (ul_shl (- 1) osz)) OR ul_shl pad osz else ws ! 0])"
  by (auto simp: resize_plane_def pad_last_def Let_def)

lemma resize_plane_same:
  assumes "64 < n" "nwords n = nwords osz" "length ws = words4 osz" "\<And>j. j < 64 \<Longrightarrow> bit pad j = c" "i < n"
  shows "wbit (resize_plane osz n pad ws) i = (if i < osz then wbit ws i else c)"
proof -
  have long: "64 < osz" using assms(1,2) nwords_two by metis
  then have len: "length ws = nwords osz" using assms(3) by (simp add: words4_def)
  have i: "i < 64 * nwords osz" using assms(2,5) nwords_ge [of n] by simp
  show ?thesis
    using assms(1,2,5) pad_last_bits [of pad c osz ws i] assms(4) len i by (auto simp: resize_plane_unfold)
qed

lemma resize_plane_grow:
  assumes "64 < n" "osz < n" "nwords n \<noteq> nwords osz" "length ws = words4 osz" "\<And>j. j < 64 \<Longrightarrow> bit pad j = c" "i < n"
  shows "length (resize_plane osz n pad ws) = nwords n"
    and "wbit (resize_plane osz n pad ws) i = (if i < osz then wbit ws i else c)"
proof -
  define fst0 where "fst0 = (if nwords osz > 1 then take (min (nwords osz) (nwords n)) ws else [ws ! 0])"
  define nb where "nb = fst0 @ replicate (nwords n - length fst0) undefined"
  have lt: "nwords osz < nwords n" using assms(2,3) nwords_mono [of osz n] by simp
  have lw: "nwords osz > 1 \<Longrightarrow> length ws = nwords osz" using assms(4) nwords_two [of osz] by (simp add: words4_def)
  have f0: "length fst0 = max 1 (nwords osz)" "k < nwords osz \<Longrightarrow> fst0 ! k = ws ! k" for k
    using lt lw by (auto simp: fst0_def) (cases k, simp_all)
  have nb: "length nb = nwords n" "k < nwords osz \<Longrightarrow> nb ! k = ws ! k" for k
    using f0 lt by (auto simp: nb_def nth_append)
  have res: "resize_plane osz n pad ws = take (nwords osz) (pad_last osz pad nb) @ replicate (nwords n - nwords osz) pad"
    using assms(1-3) by (simp add: resize_plane_unfold nb_def fst0_def Let_def)
  show "length (resize_plane osz n pad ws) = nwords n" using nb(1) lt by (simp add: res)
  show "wbit (resize_plane osz n pad ws) i = (if i < osz then wbit ws i else c)"
  proof (cases "i < 64 * nwords osz")
    case True
    then have k: "i div 64 < nwords osz" by (simp add: div_less_iff_less_mult mult.commute)
    then have "wbit (resize_plane osz n pad ws) i = wbit (pad_last osz pad nb) i"
      using lt nb(1) by (simp add: res wbit_def nth_append)
    also have "\<dots> = (if i < osz then wbit nb i else c)" using assms(5) nb(1) lt True by (intro pad_last_bits) auto
    finally show ?thesis using nb(2) [OF k] by (simp add: wbit_def)
  next
    case False
    then have k: "\<not> i div 64 < nwords osz" "\<not> i < osz" using nwords_ge [of osz] by (auto simp: div_less_iff_less_mult mult.commute)
    have "i div 64 < nwords n" using assms(6) by (rule nwords_bound)
    then show ?thesis using k lt nb(1) assms(5) by (simp add: res wbit_def nth_append)
  qed
qed

lemma resize_plane_ok:
  assumes "length ws = words4 osz" "\<And>j. j < 64 \<Longrightarrow> bit pad j = c" "osz \<noteq> n"
  shows "length (resize_plane osz n pad ws) = words4 n"
    and "i < n \<Longrightarrow> wbit (resize_plane osz n pad ws) i = (if i < osz then wbit ws i else c)"
proof -
  consider "n \<le> 64" | "64 < n" "nwords n = nwords osz" | "64 < n" "nwords n \<noteq> nwords osz" "osz < n"
    | "64 < n" "nwords n < nwords osz" "n < osz"
    using nwords_mono [of n osz] assms(3) by (metis linorder_neqE_nat not_le order_less_le)
  then have "length (resize_plane osz n pad ws) = words4 n \<and>
    (i < n \<longrightarrow> wbit (resize_plane osz n pad ws) i = (if i < osz then wbit ws i else c))"
  proof cases
    case 1
    have "bit ((ws ! 0 AND NOT (ul_shl (- 1) osz)) OR ul_shl pad osz) i = (if i < osz then bit (ws ! 0) i else c)"
      if "i < n" "osz < n"
      using that 1 assms(2) by (auto simp: bit_simps bit_ul_shl mask_bits)
    then show ?thesis using 1 by (auto simp: resize_plane_unfold words4_def wbit_def)
  next
    case 2
    have "64 < osz" using 2 nwords_two by metis
    then have "length (resize_plane osz n pad ws) = words4 n"
      using 2 assms(1) by (simp add: resize_plane_unfold words4_def)
    then show ?thesis using resize_plane_same [OF 2 assms(1,2)] by blast
  next
    case 3
    then show ?thesis
      using resize_plane_grow [of n osz ws pad c] assms(1,2) by (auto simp: words4_def)
  next
    case 4
    then have len: "length ws = nwords osz" "1 < nwords osz" using assms(1) nwords_two [of osz] by (simp_all add: words4_def)
    then have "resize_plane osz n pad ws = take (nwords n) ws" using 4 by (simp add: resize_plane_unfold Let_def)
    then show ?thesis using 4 len nwords_bound [of i n] by (auto simp: words4_def wbit_def)
  qed
  then show "length (resize_plane osz n pad ws) = words4 n"
    "i < n \<Longrightarrow> wbit (resize_plane osz n pad ws) i = (if i < osz then wbit ws i else c)" by blast+
qed

lemma resize_ok:
  assumes "wf4 v"
  shows "wf4 (resize v n b)" "size4 (resize v n b) = n"
    "bits4 (resize v n b) = take n (bits4 v) @ replicate (n - size4 v) b"
proof -
  have la: "length (abits4 v) = words4 (size4 v)" "length (bbits4 v) = words4 (size4 v)" using assms by (simp_all add: wf4_def)
  note A = resize_plane_ok [OF la(1) bit_WORD(1)] and B = resize_plane_ok [OF la(2) bit_WORD(2)]
  show "wf4 (resize v n b)" "size4 (resize v n b) = n" using assms A(1) B(1) by (auto simp: resize_def wf4_def)
  show "bits4 (resize v n b) = take n (bits4 v) @ replicate (n - size4 v) b"
  proof (cases "size4 v = n")
    case False
    then show ?thesis
      using A(2) B(2) by (intro bits4_eqI) (auto simp: resize_def nth_append nth_bits4_planes)
  qed (simp add: resize_def)
qed

end
