(* ===== verification/Vvp_Part.thy ===== *)
theory Vvp_Part
  imports Vvp_Range
begin

text \<open>
  The part select constructor \<open>vvp_vector4_t(that, adr, wid)\<close> and \<open>subvalue\<close> (vvp/vvp_net.cc): in all its
  cases the result holds the addressed bits, and X beyond the end of the source.
\<close>

section \<open>Definitions\<close>

text \<open>The transfer between two long vectors, on one plane; \<open>d\<close> is the plane of the new vector.\<close>

function part_loop :: "nat \<Rightarrow> nat \<Rightarrow> ulong list \<Rightarrow> nat \<Rightarrow> nat \<Rightarrow> nat \<Rightarrow> ulong list \<Rightarrow> ulong list" where
  "part_loop adr wid s ptr trns dst d =
     (if trns < wid then
        let off = adr mod BITS_PER_WORD;
            noff = BITS_PER_WORD - off;
            lmask = ul_shl 1 off - 1;
            d = d[dst := ul_shr (s ! ptr AND NOT lmask) off];
            trns = trns + noff
        in if trns \<ge> wid then d
           else let ptr = ptr + 1;
                    (d, trns) = (if noff \<noteq> BITS_PER_WORD
                      then (d[dst := d ! dst OR ul_shl (s ! ptr AND lmask) noff], trns + off)
                      else (d, trns))
                in part_loop adr wid s ptr trns (dst + 1) d
      else d)"
  by pat_completeness auto
termination
proof (relation "measure (\<lambda>(adr, wid, s, ptr, trns, dst, d). wid - trns)", goal_cases)
  case (2 adr wid s ptr trns dst d)
  have r: "adr mod 64 < 64" by simp
  from 2 show ?case by (auto split: if_splits) (use r in linarith)+
qed simp

declare part_loop.simps [simp del]

definition part_plane :: "nat \<Rightarrow> nat \<Rightarrow> nat \<Rightarrow> ulong list \<Rightarrow> ulong list \<Rightarrow> ulong list" where
  "part_plane ssz adr wid s d =
     (if wid > BITS_PER_WORD then part_loop adr wid s (adr div BITS_PER_WORD) 0 0 d
      else if ssz > BITS_PER_WORD then
        let ptr = adr div BITS_PER_WORD;
            off = adr mod BITS_PER_WORD;
            trns = BITS_PER_WORD - off;
            trns = (if trns > wid then wid else trns)
        in if trns = BITS_PER_WORD then d[0 := s ! ptr]
           else let lmask = ul_shl (ul_shl 1 trns - 1) off;
                    d = d[0 := ul_shr (s ! ptr AND lmask) off]
                in if trns < wid
                   then let hmask = ul_shl 1 (wid - trns) - 1
                        in d[0 := d ! 0 OR ul_shl (s ! (ptr + 1) AND hmask) trns]
                   else d
      else if wid = BITS_PER_WORD then d[0 := s ! 0]
      else let msk = ul_shl (ul_shl 1 wid - 1) adr
           in d[0 := ul_shr (s ! 0 AND msk) adr])"

definition vector4_part :: "vvp_vector4_t \<Rightarrow> nat \<Rightarrow> nat \<Rightarrow> vvp_vector4_t option" where
  "vector4_part that adr wid =
     (let v = allocate_words wid (WORD_ABITS BIT4_X) (WORD_BBITS BIT4_X)
      in if adr \<ge> size4 that then Some v
      else if adr + wid > size4 that
        then let use_wid = size4 that - adr in set_loop set_bit4 0 (\<lambda>idx. value4 that (adr + idx)) use_wid v
      else Some (v\<lparr>abits4 := part_plane (size4 that) adr wid (abits4 that) (abits4 v),
                   bbits4 := part_plane (size4 that) adr wid (bbits4 that) (bbits4 v)\<rparr>))"

definition subvalue :: "vvp_vector4_t \<Rightarrow> nat \<Rightarrow> nat \<Rightarrow> vvp_vector4_t option" where
  "subvalue v adr wid = vector4_part v adr wid"

section \<open>Lemmas\<close>

text \<open>A bit of the source, seen from a destination word.\<close>

lemma wbit_shifted:
  assumes "j < 64"
  shows "wbit s (adr + (64 * k + j)) = (if adr mod 64 + j < 64 then bit (s ! (adr div 64 + k)) (adr mod 64 + j)
    else bit (s ! (adr div 64 + k + 1)) (adr mod 64 + j - 64))"
proof -
  let ?q = "adr div 64" and ?r = "adr mod 64"
  have eq: "adr + (64 * k + j) = 64 * (?q + k) + (?r + j)" by (simp add: algebra_simps)
  show ?thesis
  proof (cases "?r + j < 64")
    case True
    then show ?thesis unfolding eq by (simp only: wbit_word if_True)
  next
    case False
    have r: "?r < 64" by simp
    have "64 * (?q + k) + (?r + j) = 64 * (?q + k + 1) + (?r + j - 64)" "?r + j - 64 < 64"
      using False r assms by (simp add: algebra_simps, linarith)
    then show ?thesis unfolding eq using False by (simp only: wbit_word if_False)
  qed
qed

text \<open>The word that one round of the loop assembles.\<close>

lemma assembled_word:
  assumes "j < 64"
  shows "bit (ul_shr (s ! p AND NOT (ul_shl 1 (adr mod 64) - 1)) (adr mod 64)) j
      \<longleftrightarrow> adr mod 64 + j < 64 \<and> bit (s ! p) (adr mod 64 + j)"
    and "adr mod 64 \<noteq> 0 \<Longrightarrow> bit (ul_shl (w AND (ul_shl 1 (adr mod 64) - 1)) (64 - adr mod 64)) j
      \<longleftrightarrow> 64 \<le> adr mod 64 + j \<and> bit w (adr mod 64 + j - 64)"
proof -
  have r: "adr mod 64 < 64" by simp
  show "bit (ul_shr (s ! p AND NOT (ul_shl 1 (adr mod 64) - 1)) (adr mod 64)) j
      \<longleftrightarrow> adr mod 64 + j < 64 \<and> bit (s ! p) (adr mod 64 + j)"
    using r by (auto simp: bit_ul_shr bit_simps mask_bits dest: bit_imp_le_length)
  assume nz: "adr mod 64 \<noteq> 0"
  then have "64 - adr mod 64 \<le> j \<longleftrightarrow> 64 \<le> adr mod 64 + j" "j - (64 - adr mod 64) = adr mod 64 + j - 64" using r by linarith+
  moreover have "adr mod 64 + j - 64 < adr mod 64" using assms nz by linarith
  ultimately show "bit (ul_shl (w AND (ul_shl 1 (adr mod 64) - 1)) (64 - adr mod 64)) j
      \<longleftrightarrow> 64 \<le> adr mod 64 + j \<and> bit w (adr mod 64 + j - 64)"
    using r nz assms by (simp add: bit_ul_shl bit_simps mask_bits)
qed

text \<open>The array after one round, and whether the loop goes on.\<close>

lemma part_loop_round:
  fixes adr wid ptr dst :: nat and s d :: "ulong list"
  assumes "64 * dst < wid" "length d = nwords wid" "ptr = adr div 64 + dst"
  defines "off \<equiv> adr mod 64"
  shows "\<exists>d1. length d1 = length d \<and>
    (\<forall>i < wid. wbit d1 i = (if i div 64 = dst then wbit s (adr + i) else wbit d i)) \<and>
    part_loop adr wid s ptr (64 * dst) dst d =
      (if 64 * dst + (64 - off) \<ge> wid then d1 else part_loop adr wid s (ptr + 1) (64 * (dst + 1)) (dst + 1) d1)"
proof -
  let ?l = "ul_shl 1 off - 1"
  have k: "dst < length d" using assms(1,2) nwords_ge [of wid] by linarith
  define w1 where "w1 = ul_shr (s ! ptr AND NOT ?l) off"
  define w2 where "w2 = (if 64 * dst + (64 - off) \<ge> wid \<or> off = 0 then w1
     else w1 OR ul_shl (s ! (ptr + 1) AND ?l) (64 - off))"
  have ob: "off < 64" by (simp add: off_def)
  have bits: "bit w2 j = wbit s (adr + (64 * dst + j))" if "j < 64" "64 * dst + j < wid" for j
  proof -
    have sh: "wbit s (adr + (64 * dst + j)) = (if off + j < 64 then bit (s ! ptr) (off + j) else bit (s ! (ptr + 1)) (off + j - 64))"
      using wbit_shifted [OF that(1), of s adr dst] by (simp add: off_def assms(3))
    have b1: "bit w1 j \<longleftrightarrow> off + j < 64 \<and> bit (s ! ptr) (off + j)"
      using assembled_word(1) [OF that(1), of s ptr adr] by (simp add: w1_def off_def)
    have b2: "off \<noteq> 0 \<Longrightarrow> bit (ul_shl (s ! (ptr + 1) AND ?l) (64 - off)) j \<longleftrightarrow> 64 \<le> off + j \<and> bit (s ! (ptr + 1)) (off + j - 64)"
      using assembled_word(2) [OF that(1), of adr "s ! (ptr + 1)"] by (simp add: off_def)
    show ?thesis
    proof (cases "64 * dst + (64 - off) \<ge> wid \<or> off = 0")
      case True
      then have "off + j < 64" using that ob by auto
      then show ?thesis using True sh b1 by (simp add: w2_def)
    next
      case False
      then show ?thesis using sh b1 b2 by (auto simp: w2_def bit_simps)
    qed
  qed
  have "wbit (d[dst := w2]) i = (if i div 64 = dst then wbit s (adr + i) else wbit d i)" if "i < wid" for i
    using k bits [of "i mod 64"] that position [of i] by (auto simp: wbit_update)
  moreover have "part_loop adr wid s ptr (64 * dst) dst d =
      (if 64 * dst + (64 - off) \<ge> wid then d[dst := w2] else part_loop adr wid s (ptr + 1) (64 * (dst + 1)) (dst + 1) (d[dst := w2]))"
  proof -
    have "64 * dst + (64 - off) + off = 64 * (dst + 1)" using ob by simp
    then show ?thesis
      using assms(1) k ob unfolding part_loop.simps [of adr wid s ptr "64 * dst"] Let_def off_def [symmetric]
      by (auto simp: w2_def w1_def add.commute)
  qed
  ultimately show ?thesis by (intro exI [of _ "d[dst := w2]"]) simp
qed

lemma part_loop_ok:
  assumes "ptr = adr div 64 + dst" "length d = nwords wid"
  shows "length (part_loop adr wid s ptr (64 * dst) dst d) = length d \<and>
    (\<forall>i < wid. wbit (part_loop adr wid s ptr (64 * dst) dst d) i = (if i < 64 * dst then wbit d i else wbit s (adr + i)))"
  using assms
proof (induction "wid - 64 * dst" arbitrary: ptr dst d rule: less_induct)
  case less
  show ?case
  proof (cases "64 * dst < wid")
    case False
    then have "part_loop adr wid s ptr (64 * dst) dst d = d" by (simp add: part_loop.simps [of adr wid])
    then show ?thesis using False by simp
  next
    case True
    obtain d1 where d1: "length d1 = length d"
      "\<forall>i < wid. wbit d1 i = (if i div 64 = dst then wbit s (adr + i) else wbit d i)"
      "part_loop adr wid s ptr (64 * dst) dst d = (if 64 * dst + (64 - adr mod 64) \<ge> wid then d1
        else part_loop adr wid s (ptr + 1) (64 * (dst + 1)) (dst + 1) d1)"
      using part_loop_round [OF True less.prems(2,1), of s] by blast
    have div: "i div 64 = dst \<longleftrightarrow> 64 * dst \<le> i \<and> i < 64 * (dst + 1)" for i
      using word_range [of 0 64 dst i] by (simp add: add.commute eq_commute)
    show ?thesis
    proof (cases "64 * dst + (64 - adr mod 64) \<ge> wid")
      case fin: True
      then have "i div 64 = dst \<longleftrightarrow> \<not> i < 64 * dst" if "i < wid" for i using div [of i] that by auto
      then show ?thesis using d1 fin by simp
    next
      case more: False
      have "wid - 64 * (dst + 1) < wid - 64 * dst" using True by simp
      from less.hyps [OF this, of "ptr + 1" d1] less.prems d1(1)
      have ih: "length (part_loop adr wid s (ptr + 1) (64 * (dst + 1)) (dst + 1) d1) = length d"
        "\<forall>i < wid. wbit (part_loop adr wid s (ptr + 1) (64 * (dst + 1)) (dst + 1) d1) i =
          (if i < 64 * (dst + 1) then wbit d1 i else wbit s (adr + i))" by auto
      show ?thesis unfolding d1(3) if_not_P [OF more] using ih d1(2) div by auto
    qed
  qed
qed

text \<open>The two cases that assemble a single word.\<close>

lemma part_window:
  fixes adr wid :: nat and s :: "ulong list"
  assumes "wid \<le> 64" "t = min (64 - adr mod 64) wid" "t < 64" "j < wid"
  shows "bit (ul_shr (s ! (adr div 64) AND ul_shl (ul_shl 1 t - 1) (adr mod 64)) (adr mod 64)) j
      \<longleftrightarrow> j < t \<and> wbit s (adr + j)"
    and "t < wid \<Longrightarrow> bit (ul_shl (s ! (adr div 64 + 1) AND (ul_shl 1 (wid - t) - 1)) t) j \<longleftrightarrow> t \<le> j \<and> wbit s (adr + j)"
proof -
  have r: "adr mod 64 < 64" by simp
  have w: "wbit s (adr + j) = (if adr mod 64 + j < 64 then bit (s ! (adr div 64)) (adr mod 64 + j)
    else bit (s ! (adr div 64 + 1)) (adr mod 64 + j - 64))"
    using wbit_shifted [of j s adr 0] assms by simp
  have t: "adr mod 64 + t \<le> 64" using assms(2) r by simp
  show "bit (ul_shr (s ! (adr div 64) AND ul_shl (ul_shl 1 t - 1) (adr mod 64)) (adr mod 64)) j
      \<longleftrightarrow> j < t \<and> wbit s (adr + j)"
    unfolding w using r t assms(3) by (auto simp: bit_ul_shr bit_ul_shl bit_simps mask_bits dest: bit_imp_le_length)
  assume "t < wid"
  then have nt: "t = 64 - adr mod 64" using assms(2) by simp
  then have pos: "0 < t" using r by linarith
  have d: "64 - adr mod 64 \<le> j \<longleftrightarrow> \<not> adr mod 64 + j < 64" "j - (64 - adr mod 64) = adr mod 64 + j - 64" using r by linarith+
  have m: "wid - t < 64" "t \<le> j \<Longrightarrow> j - t < wid - t" using pos assms(1,4) by linarith+
  show "bit (ul_shl (s ! (adr div 64 + 1) AND (ul_shl 1 (wid - t) - 1)) t) j \<longleftrightarrow> t \<le> j \<and> wbit s (adr + j)"
    unfolding w using m assms(1,3,4) d nt by (auto simp: bit_ul_shl bit_simps mask_bits)
qed

lemma part_plane_ok:
  assumes "0 < ssz" "adr + wid \<le> ssz" "length d = words4 wid" "i < wid"
  shows "length (part_plane ssz adr wid s d) = length d \<and> wbit (part_plane ssz adr wid s d) i = wbit s (adr + i)"
proof -
  consider (long) "wid > 64" | (part) "wid \<le> 64" "ssz > 64" | (word) "ssz = 64" "wid = 64" | (short) "ssz \<le> 64" "wid < 64"
    using assms(2) by linarith
  then show ?thesis
  proof cases
    case long
    then show ?thesis
      using part_loop_ok [of "adr div 64" adr 0 d wid s] assms by (simp add: part_plane_def words4_def)
  next
    case part
    define t where "t = min (64 - adr mod 64) wid"
    have ld: "length d = 1" "i div 64 = 0" "i mod 64 = i" using part assms by (simp_all add: words4_def)
    show ?thesis
    proof (cases "t = 64")
      case True
      then have al: "adr mod 64 = 0" "wid = 64" using part by (auto simp: t_def min_def split: if_splits)
      then have "part_plane ssz adr wid s d = d[0 := s ! (adr div 64)]" using part by (simp add: part_plane_def Let_def)
      moreover have "wbit s (adr + i) = bit (s ! (adr div 64)) i" using wbit_shifted [of i s adr 0] al assms by simp
      ultimately show ?thesis using ld by (simp add: wbit_update)
    next
      case False
      then have t: "t < 64" using part unfolding t_def by linarith
      note bits = part_window [OF part(1) t_def t assms(4), of s]
      have "(if 64 - adr mod 64 > wid then wid else 64 - adr mod 64) = t" by (simp add: t_def min_def)
      then have "part_plane ssz adr wid s d = d[0 := ul_shr (s ! (adr div 64) AND ul_shl (ul_shl 1 t - 1) (adr mod 64)) (adr mod 64)
          OR (if t < wid then ul_shl (s ! (adr div 64 + 1) AND (ul_shl 1 (wid - t) - 1)) t else 0)]"
        using part False ld by (simp add: part_plane_def Let_def)
      then show ?thesis using ld bits assms(4) by (auto simp: wbit_update bit_simps)
    qed
  next
    case word
    then have "adr = 0" using assms by simp
    then show ?thesis using word assms by (simp add: part_plane_def wbit_update words4_def) (simp add: wbit_def)
  next
    case short
    have b: "i div 64 = 0" "i mod 64 = i" "(adr + i) div 64 = 0" "(adr + i) mod 64 = adr + i" using short assms by simp_all
    have "adr < 64" using short assms by linarith
    then have "bit (ul_shr (s ! 0 AND ul_shl (ul_shl 1 wid - 1) adr) adr) i = wbit s (adr + i)"
      using short b assms by (simp add: bit_ul_shr bit_ul_shl bit_simps mask_bits wbit_def)
    then show ?thesis
      using short b assms by (simp add: part_plane_def Let_def wbit_update words4_def)
  qed
qed

lemma part_plane_length: "length (part_plane ssz adr 0 s d) = length d"
  by (simp add: part_plane_def Let_def)

text \<open>The whole constructor: bit \<open>i\<close> is bit \<open>adr + i\<close> of the source, X where the source has none.\<close>

lemma vector4_part_ok:
  assumes "wf4 that"
  shows "\<exists>v. vector4_part that adr wid = Some v \<and> wf4 v \<and> size4 v = wid \<and>
    bits4 v = map (\<lambda>i. value4 that (adr + i)) [0..<wid]"
proof -
  define v0 where "v0 = vector4_fill wid BIT4_X"
  have v0: "wf4 v0" "size4 v0 = wid" "bits4 v0 = replicate wid BIT4_X" by (simp_all add: v0_def bits4_fill)
  have alloc: "allocate_words wid (WORD_ABITS BIT4_X) (WORD_BBITS BIT4_X) = v0" by (simp add: v0_def vector4_fill_def)
  have beyond: "value4 that j = BIT4_X" if "size4 that \<le> j" for j using that by (simp add: value4_def)
  consider (far) "adr \<ge> size4 that" | (over) "adr < size4 that" "adr + wid > size4 that"
    | (inside) "adr < size4 that" "adr + wid \<le> size4 that" by linarith
  then show ?thesis
  proof cases
    case far
    have "replicate wid BIT4_X = map (\<lambda>i. value4 that (adr + i)) [0..<wid]"
      using far beyond by (intro nth_equalityI) simp_all
    then show ?thesis using far v0 by (simp add: vector4_part_def alloc)
  next
    case over
    define n where "n = size4 that - adr"
    have n: "0 + n \<le> size4 v0" using over v0 by (simp add: n_def)
    obtain v where v: "set_loop set_bit4 0 (\<lambda>idx. value4 that (adr + idx)) n v0 = Some v" "wf4 v" "size4 v = wid"
      "bits4 v = map (\<lambda>idx. value4 that (adr + idx)) [0..<n] @ drop n (replicate wid BIT4_X)"
      using v4.set_loop_ok [OF v0(1) n] v0 by auto
    have "bits4 v = map (\<lambda>i. value4 that (adr + i)) [0..<wid]"
      unfolding v(4) using n v0(2) beyond by (intro nth_equalityI) (auto simp: nth_append n_def)
    then show ?thesis using over v by (simp add: vector4_part_def alloc n_def)
  next
    case inside
    define v where "v = v0\<lparr>abits4 := part_plane (size4 that) adr wid (abits4 that) (abits4 v0),
      bbits4 := part_plane (size4 that) adr wid (bbits4 that) (bbits4 v0)\<rparr>"
    have len: "length (abits4 v0) = words4 wid" "length (bbits4 v0) = words4 wid" using v0 by (simp_all add: wf4_def)
    have plane: "length (part_plane (size4 that) adr wid s d) = length d" if "length d = words4 wid" for s d
      using part_plane_ok [of "size4 that" adr wid d 0 s] part_plane_length [of "size4 that" adr s d] inside that by (cases wid) auto
    have "bits4 v = map (\<lambda>i. value4 that (adr + i)) [0..<wid]"
    proof (rule bits4_eqI)
      fix i assume "i < length (map (\<lambda>i. value4 that (adr + i)) [0..<wid])"
      then show "wbit (abits4 v) i = abit4 (map (\<lambda>i. value4 that (adr + i)) [0..<wid] ! i) \<and>
          wbit (bbits4 v) i = bbit4 (map (\<lambda>i. value4 that (adr + i)) [0..<wid] ! i)"
        using part_plane_ok [OF _ inside(2) len(1)] part_plane_ok [OF _ inside(2) len(2)] inside
        by (simp add: v_def value4_wbit)
    qed (simp add: v_def v0)
    moreover have "wf4 v" "size4 v = wid" using v0 plane len by (simp_all add: v_def wf4_def)
    ultimately show ?thesis using inside by (simp add: vector4_part_def alloc v_def)
  qed
qed

end
