(* ===== verification/Vvp_Arith4.thy ===== *)
theory Vvp_Arith4
  imports Vvp_Vector4
begin

text \<open>
  The arithmetic of \<open>vvp_vector4_t\<close> (vvp/vvp_net.cc): \<open>add\<close>, \<open>sub\<close> and \<open>mul\<close>. The operators make every bit X as soon as an
  operand has an X or a Z, and otherwise compute modulo \<open>2\<close> to the width.
\<close>

section \<open>Definitions\<close>

text \<open>
  The part that \<open>add\<close>, \<open>sub\<close> and \<open>mul\<close> share: vectors of up to one word. \<open>f\<close> is the operator on
  \<open>unsigned long\<close>.
\<close>

definition short_arith :: "(ulong \<Rightarrow> ulong \<Rightarrow> ulong) \<Rightarrow> vvp_vector4_t \<Rightarrow> vvp_vector4_t \<Rightarrow> vvp_vector4_t" where
  "short_arith f v that =
     (if size4 v < BITS_PER_WORD then
        let msk = NOT (ul_shl (- 1) (size4 v))
        in if (bbits_val v OR bbits_val that) AND msk \<noteq> 0
           then set_val (abits_val v OR msk) (bbits_val v OR msk) v
           else v\<lparr>abits4 := (abits4 v)[0 := f (abits_val v) (abits_val that) AND msk]\<rparr>
      else if bbits_val v OR bbits_val that \<noteq> 0
        then set_val (WORD_ABITS BIT4_X) (WORD_BBITS BIT4_X) v
        else v\<lparr>abits4 := (abits4 v)[0 := f (abits_val v) (abits_val that)]\<rparr>)"

text \<open>The label \<open>x_out\<close>.\<close>

definition x_out :: "vvp_vector4_t \<Rightarrow> vvp_vector4_t" where
  "x_out v =
     (let msk = NOT (ul_shl (- 1) (size4 v mod BITS_PER_WORD))
      in v\<lparr>abits4 := tail_map (\<lambda>_ _. WORD_ABITS BIT4_X) (\<lambda>_ _. WORD_ABITS BIT4_X AND msk) (size4 v) (abits4 v) (abits4 v),
           bbits4 := tail_map (\<lambda>_ _. WORD_BBITS BIT4_X) (\<lambda>_ _. WORD_BBITS BIT4_X AND msk) (size4 v) (bbits4 v) (bbits4 v)\<rparr>)"

text \<open>
  The first \<open>n\<close> rounds of the word loop of \<open>add\<close> (\<open>g\<close> the identity) and \<open>sub\<close> (\<open>g\<close> the complement), with the
  carry; \<open>None\<close> is the jump to \<open>x_out\<close>.
\<close>

fun add_loop :: "(ulong \<Rightarrow> ulong) \<Rightarrow> vvp_vector4_t \<Rightarrow> nat \<Rightarrow> vvp_vector4_t \<times> ulong \<Rightarrow> (vvp_vector4_t \<times> ulong) option" where
  "add_loop g that 0 st = Some st"
| "add_loop g that (Suc idx) st =
     do { (v, carry) \<leftarrow> add_loop g that idx st;
          if bbits4 v ! idx OR bbits4 that ! idx \<noteq> 0 then None
          else let (sum, carry) = ul_add_with_carry (abits4 v ! idx) (g (abits4 that ! idx)) carry
               in Some (v\<lparr>abits4 := (abits4 v)[idx := sum]\<rparr>, carry) }"

definition long_add :: "(ulong \<Rightarrow> ulong) \<Rightarrow> ulong \<Rightarrow> vvp_vector4_t \<Rightarrow> vvp_vector4_t \<Rightarrow> vvp_vector4_t" where
  "long_add g carry v that =
     (let cnt = size4 v div BITS_PER_WORD; tail = size4 v mod BITS_PER_WORD
      in case add_loop g that cnt (v, carry) of
           None \<Rightarrow> x_out v
         | Some (v', carry) \<Rightarrow>
             if tail > 0 then
               let msk = NOT (ul_shl (- 1) tail)
               in if (bbits4 v' ! cnt OR bbits4 that ! cnt) AND msk \<noteq> 0 then x_out v'
                  else let (sum, carry) = ul_add_with_carry (abits4 v' ! cnt) (g (abits4 that ! cnt)) carry
                       in v'\<lparr>abits4 := (abits4 v')[cnt := sum AND msk]\<rparr>
             else v')"

definition add4 :: "vvp_vector4_t \<Rightarrow> vvp_vector4_t \<Rightarrow> vvp_vector4_t option" where
  "add4 v that =
     (if size4 v = size4 that
      then Some (if size4 v \<le> BITS_PER_WORD then short_arith (+) v that else long_add (\<lambda>w. w) 0 v that)
      else None)"

definition sub4 :: "vvp_vector4_t \<Rightarrow> vvp_vector4_t \<Rightarrow> vvp_vector4_t option" where
  "sub4 v that =
     (if size4 v = size4 that
      then Some (if size4 v \<le> BITS_PER_WORD then short_arith (-) v that else long_add NOT 1 v that)
      else None)"

text \<open>The innermost loop of \<open>mul\<close> adds a double-word product into \<open>res\<close>, from word \<open>base\<close> up.\<close>

definition mul_ripple :: "nat \<Rightarrow> nat \<Rightarrow> ulong \<Rightarrow> ulong \<Rightarrow> ulong list \<Rightarrow> ulong list" where
  "mul_ripple cnt k su carry res =
     fst (fold (\<lambda>add_idx (res, sum, carry).
            let (r, carry) = ul_add_with_carry (res ! add_idx) sum carry in (res[add_idx := r], 0, carry))
          [k..<cnt] (res, su, carry))"

definition mul_step :: "nat \<Rightarrow> nat \<Rightarrow> ulong \<Rightarrow> ulong \<Rightarrow> ulong list \<Rightarrow> ulong list" where
  "mul_step cnt base lval rval res =
     (let (tmp, sum) = multiply_with_carry lval rval;
          (r, carry) = ul_add_with_carry (res ! base) tmp 0
      in mul_ripple cnt (base + 1) sum carry (res[base := r]))"

text \<open>A word of a plane, masked if it is the last one.\<close>

definition mul_word :: "nat \<Rightarrow> ulong \<Rightarrow> ulong list \<Rightarrow> nat \<Rightarrow> ulong" where
  "mul_word cnt msk ws idx = (let val = ws ! idx in if idx = cnt - 1 then val AND msk else val)"

definition mul_words :: "nat \<Rightarrow> (nat \<Rightarrow> ulong) \<Rightarrow> (nat \<Rightarrow> ulong) \<Rightarrow> ulong list" where
  "mul_words cnt lval rval =
     fold (\<lambda>mul_a. fold (\<lambda>mul_b. mul_step cnt (mul_a + mul_b) (lval mul_a) (rval mul_b)) [0..<cnt - mul_a])
       [0..<cnt] (replicate cnt 0)"

definition long_mul :: "vvp_vector4_t \<Rightarrow> vvp_vector4_t \<Rightarrow> vvp_vector4_t" where
  "long_mul v that =
     (let cnt = (size4 v + BITS_PER_WORD - 1) div BITS_PER_WORD;
          tail = size4 v mod BITS_PER_WORD;
          msk = (if tail > 0 then NOT (ul_shl (- 1) tail) else - 1)
      in if list_ex (\<lambda>idx. mul_word cnt msk (bbits4 v) idx \<noteq> 0 \<or> mul_word cnt msk (bbits4 that) idx \<noteq> 0) [0..<cnt]
         then v\<lparr>abits4 := replicate (cnt - 1) (WORD_ABITS BIT4_X) @ [WORD_ABITS BIT4_X AND msk],
                bbits4 := replicate (cnt - 1) (WORD_BBITS BIT4_X) @ [WORD_BBITS BIT4_X AND msk]\<rparr>
         else let res = mul_words cnt (mul_word cnt msk (abits4 v)) (mul_word cnt msk (abits4 that))
              in v\<lparr>abits4 := res[cnt - 1 := res ! (cnt - 1) AND msk]\<rparr>)"

definition mul4 :: "vvp_vector4_t \<Rightarrow> vvp_vector4_t \<Rightarrow> vvp_vector4_t option" where
  "mul4 v that =
     (if size4 v = size4 that
      then Some (if size4 v \<le> BITS_PER_WORD then short_arith (*) v that else long_mul v that)
      else None)"

section \<open>Specification\<close>

definition uval4 :: "vvp_vector4_t \<Rightarrow> int" where
  "uval4 v = ubits (map (\<lambda>b. b = BIT4_1) (bits4 v))"

definition sval4 :: "vvp_vector4_t \<Rightarrow> int" where
  "sval4 v = sbits (map (\<lambda>b. b = BIT4_1) (bits4 v))"

definition num_bits4 :: "nat \<Rightarrow> int \<Rightarrow> vvp_bit4_t list" where
  "num_bits4 n x = map (\<lambda>i. if bit x i then BIT4_1 else BIT4_0) [0..<n]"

definition arith_spec :: "(int \<Rightarrow> int \<Rightarrow> int) \<Rightarrow> vvp_vector4_t \<Rightarrow> vvp_vector4_t \<Rightarrow> vvp_bit4_t list" where
  "arith_spec F v w =
     (if list_ex bit4_is_xz (bits4 v @ bits4 w) then replicate (size4 v) BIT4_X
      else num_bits4 (size4 v) (F (uval4 v) (uval4 w)))"

text \<open>What the three operators need of an operator on words: it is the ring operation modulo \<open>2\<^sup>6\<^sup>4\<close>.\<close>

locale word_ring_op =
  fixes f :: "ulong \<Rightarrow> ulong \<Rightarrow> ulong"
    and F :: "int \<Rightarrow> int \<Rightarrow> int"
  assumes word_law: "uint (f a b) = take_bit 64 (F (uint a) (uint b))"
    and mod_law: "take_bit n (F (take_bit n x) (take_bit n y)) = take_bit n (F x y)"

section \<open>Planes and values\<close>

lemma num_bits4_cong: "take_bit n x = take_bit n y \<Longrightarrow> num_bits4 n x = num_bits4 n y"
proof -
  assume eq: "take_bit n x = take_bit n y"
  have "bit x i = bit y i" if "i < n" for i
    using that arg_cong [OF eq, of "\<lambda>z. bit z i"] by (simp add: bit_take_bit_iff)
  then show ?thesis by (simp add: num_bits4_def)
qed

lemma uval4_num_bits: "bits4 v = num_bits4 n x \<Longrightarrow> uval4 v = take_bit n x"
  unfolding uval4_def by (rule ubits_eqI) (auto simp: num_bits4_def)

lemma xz_planes: "list_ex bit4_is_xz (bits4 v) \<longleftrightarrow> (\<exists>i < size4 v. wbit (bbits4 v) i)"
  by (auto simp: list_ex_length nth_bits4 mk_bit4_xz)

lemma uval4_planes:
  assumes "wf4 v" "\<not> list_ex bit4_is_xz (bits4 v)"
  shows "uval4 v = take_bit (size4 v) (wval (abits4 v))"
proof -
  have "size4 v \<le> 64 * length (abits4 v)" using assms(1) words4_ge by (simp add: wf4_def)
  then show ?thesis
    using assms(2) unfolding uval4_def xz_planes
    by (intro ubits_eqI) (auto simp: nth_bits4 mk_bit4_def bit_wval)
qed

lemma bits4_num:
  assumes "\<And>i. i < size4 v \<Longrightarrow> wbit (abits4 v) i = bit x i" "\<And>i. i < size4 v \<Longrightarrow> \<not> wbit (bbits4 v) i"
  shows "bits4 v = num_bits4 (size4 v) x"
  using assms by (intro bits4_eqI) (auto simp: num_bits4_def abit4_def bbit4_def)

lemma bits4_all_x:
  assumes "\<And>i. i < size4 v \<Longrightarrow> wbit (abits4 v) i \<and> wbit (bbits4 v) i"
  shows "bits4 v = replicate (size4 v) BIT4_X"
  using assms by (intro bits4_eqI) (auto simp: abit4_def bbit4_def)

lemma bit_not_high: "n < 64 \<Longrightarrow> bit (NOT (ul_shl (- 1) n)) i \<longleftrightarrow> i < n"
  by (auto simp: bit_simps mask_bits)

lemma words_or_masked: "n < 64 \<Longrightarrow> (x OR y) AND NOT (ul_shl (- 1) n) \<noteq> 0 \<longleftrightarrow> (\<exists>i < n. bit (x :: ulong) i \<or> bit y i)"
  unfolding word_zero_iff by (simp add: bit_and_iff bit_not_high) (auto simp: bit_simps intro: order.strict_trans)

lemma words_or: "x OR y \<noteq> 0 \<longleftrightarrow> (\<exists>i < 64. bit (x :: ulong) i \<or> bit y i)"
  by (auto simp: word_zero_iff bit_simps)

context word_ring_op
begin

text \<open>A plane that agrees below the size with the result on the word values gives the specified bits.\<close>

lemma bits4_result:
  assumes "wf4 v" "wf4 w" "size4 w = size4 v" "\<not> list_ex bit4_is_xz (bits4 v @ bits4 w)" "size4 u = size4 v"
    and "\<And>i. i < size4 v \<Longrightarrow> wbit (abits4 u) i = bit (F (wval (abits4 v)) (wval (abits4 w))) i"
    and "bbits4 u = bbits4 v"
  shows "bits4 u = arith_spec F v w"
proof -
  have no: "\<not> list_ex bit4_is_xz (bits4 v)" "\<not> list_ex bit4_is_xz (bits4 w)" using assms(4) by simp_all
  have "bits4 u = num_bits4 (size4 v) (F (wval (abits4 v)) (wval (abits4 w)))"
    using bits4_num [of u] assms(5-7) no(1) by (simp add: xz_planes)
  also have "\<dots> = num_bits4 (size4 v) (F (uval4 v) (uval4 w))"
    using assms(1-3) no uval4_planes mod_law by (intro num_bits4_cong) simp
  finally show ?thesis using assms(4) by (simp add: arith_spec_def)
qed

lemma short_arith_ok:
  assumes "wf4 v" "wf4 w" "size4 w = size4 v" "size4 v \<le> 64"
  shows "wf4 (short_arith f v w) \<and> size4 (short_arith f v w) = size4 v \<and> bits4 (short_arith f v w) = arith_spec F v w"
proof -
  let ?u = "short_arith f v w"
  have len: "length (abits4 v) = 1" "length (bbits4 v) = 1" "length (abits4 w) = 1"
    using assms wf4_short by auto
  have keep: "wf4 ?u" "size4 ?u = size4 v" using assms(1) by (auto simp: short_arith_def wf4_def Let_def)
  have wb: "wbit xs i = bit (xs ! 0) i" if "i < size4 v" for xs i using that assms(4) by (simp add: wbit_def)
  have xz: "list_ex bit4_is_xz (bits4 v @ bits4 w) \<longleftrightarrow> (\<exists>i < size4 v. bit (bbits_val v) i \<or> bit (bbits_val w) i)"
    by (auto simp: xz_planes assms(3) wb)
  have one: "wval xs = uint (xs ! 0)" if "length xs = 1" for xs using that by (cases xs) simp_all
  have val: "bit (f (abits_val v) (abits_val w)) i = bit (F (wval (abits4 v)) (wval (abits4 w))) i" if "i < size4 v" for i
  proof -
    have "bit (uint (f (abits_val v) (abits_val w))) i = bit (F (uint (abits_val v)) (uint (abits_val w))) i"
      unfolding word_law using that assms(4) by (simp add: bit_take_bit_iff)
    then show ?thesis using that assms(4) by (simp add: one len bit_uint_iff)
  qed
  have X: "bit (WORD_ABITS BIT4_X) i \<and> bit (WORD_BBITS BIT4_X) i" if "i < 64" for i
    using that by (simp add: bit_WORD abit4_def bbit4_def)
  have "bits4 ?u = arith_spec F v w"
  proof (cases "list_ex bit4_is_xz (bits4 v @ bits4 w)")
    case True
    then have "wbit (abits4 ?u) i \<and> wbit (bbits4 ?u) i" if "i < size4 v" for i
    proof (cases "size4 v < 64")
      case short: True
      show ?thesis using True short that len unfolding xz
        by (simp add: short_arith_def Let_def words_or_masked wb bit_or_iff bit_not_high)
    next
      case False
      then have "size4 v = 64" using assms(4) by simp
      then show ?thesis using True that len X unfolding xz by (simp add: short_arith_def words_or wb)
    qed
    then have "bits4 ?u = replicate (size4 v) BIT4_X" using bits4_all_x [of ?u] keep by simp
    then show ?thesis using True by (simp add: arith_spec_def)
  next
    case False
    then have no: "\<not> (\<exists>i < size4 v. bit (bbits_val v) i \<or> bit (bbits_val w) i)" unfolding xz .
    show ?thesis
    proof (rule bits4_result [OF assms(1-3) False keep(2)])
      show "bbits4 ?u = bbits4 v" using no assms(4) by (auto simp: short_arith_def Let_def words_or_masked words_or)
      show "wbit (abits4 ?u) i = bit (F (wval (abits4 v)) (wval (abits4 w))) i" if "i < size4 v" for i
        using that no assms(4) len val [OF that]
        by (auto simp: short_arith_def Let_def words_or_masked words_or wb bit_and_iff bit_not_high)
    qed
  qed
  with keep show ?thesis by simp
qed

end

lemma uint_ring_64:
  "uint (a + b :: ulong) = take_bit 64 (uint a + uint b)"
  "uint (a - b :: ulong) = take_bit 64 (uint a - uint b)"
  "uint (a * b :: ulong) = take_bit 64 (uint a * uint b)"
  by (simp_all add: uint_word_ariths take_bit_eq_mod)

interpretation plus4: word_ring_op "(+)" "(+)"
  by unfold_locales (rule uint_ring_64, rule take_bit_add)

interpretation minus4: word_ring_op "(-)" "(-)"
  by unfold_locales (rule uint_ring_64, rule take_bit_diff)

interpretation times4: word_ring_op "(*)" "(*)"
  by unfold_locales (rule uint_ring_64, rule take_bit_mult)

section \<open>Addition and subtraction over words\<close>

lemma wval_append: "wval (xs @ ys) = wval xs + 2 ^ (64 * length xs) * wval ys"
  by (induction xs) (simp_all add: algebra_simps power_add)

lemma wval_take_Suc: "n < length xs \<Longrightarrow> wval (take (Suc n) xs) = wval (take n xs) + 2 ^ (64 * n) * uint (xs ! n)"
  by (simp add: take_Suc_conv_app_nth wval_append min_def)

definition added :: "(ulong \<Rightarrow> ulong) \<Rightarrow> ulong list \<Rightarrow> ulong list \<Rightarrow> ulong \<Rightarrow> nat \<Rightarrow> ulong list \<Rightarrow> ulong \<Rightarrow> bool" where
  "added g as ts c n zs c' \<longleftrightarrow> length zs = length as \<and> drop n zs = drop n as \<and> uint c' \<le> 1 \<and>
     wval (take n zs) + 2 ^ (64 * n) * uint c' = wval (take n as) + wval (map g (take n ts)) + uint c"

text \<open>One more word of the carry chain.\<close>

lemma added_Suc:
  assumes "added g as ts c n zs c1" "n < length as" "n < length ts"
    and "ul_add_with_carry (zs ! n) (g (ts ! n)) c1 = (w, c2)"
  shows "added g as ts c (Suc n) (zs[n := w]) c2"
proof -
  have zs: "length zs = length as" "drop n zs = drop n as" "uint c1 \<le> 1"
    "wval (take n zs) + 2 ^ (64 * n) * uint c1 = wval (take n as) + wval (map g (take n ts)) + uint c"
    using assms(1) by (simp_all add: added_def)
  have same: "zs ! n = as ! n" using zs(2) assms(2) zs(1) by (metis Cons_nth_drop_Suc list.inject)
  have "drop (Suc n) zs = drop (Suc n) as" using zs(2) by (metis drop_Suc tl_drop)
  then have d: "drop (Suc n) (zs[n := w]) = drop (Suc n) as" by simp
  have c2: "uint c2 \<le> 1" "uint w + 2 ^ 64 * uint c2 = uint (as ! n) + uint (g (ts ! n)) + uint c1"
    using uw.adc_law [OF _ _ _ zs(3) assms(4)] same by simp_all
  have "wval (take (Suc n) (zs[n := w])) + 2 ^ (64 * Suc n) * uint c2
      = wval (take n zs) + 2 ^ (64 * n) * (uint w + 2 ^ 64 * uint c2)"
    using assms(2) zs(1) by (simp add: wval_take_Suc algebra_simps power_add)
  also have "\<dots> = (wval (take n zs) + 2 ^ (64 * n) * uint c1) + 2 ^ (64 * n) * (uint (as ! n) + uint (g (ts ! n)))"
    unfolding c2(2) by (simp add: algebra_simps)
  also have "\<dots> = wval (take (Suc n) as) + wval (map g (take (Suc n) ts)) + uint c"
    using assms(2,3) unfolding zs(4) by (simp add: wval_take_Suc take_Suc_conv_app_nth wval_append min_def algebra_simps)
  finally show ?thesis using zs(1) d c2(1) by (simp add: added_def)
qed

lemma add_loop_ok:
  assumes "n \<le> length (abits4 v)" "n \<le> length (abits4 that)" "uint c \<le> 1"
  shows "case add_loop g that n (v, c) of
      None \<Rightarrow> \<exists>k < n. bbits4 v ! k OR bbits4 that ! k \<noteq> 0
    | Some (v', c') \<Rightarrow> (\<forall>k < n. bbits4 v ! k OR bbits4 that ! k = 0) \<and> size4 v' = size4 v \<and> bbits4 v' = bbits4 v \<and>
        added g (abits4 v) (abits4 that) c n (abits4 v') c'"
  using assms
proof (induction n)
  case 0
  then show ?case by (simp add: added_def)
next
  case (Suc n)
  show ?case
  proof (cases "add_loop g that n (v, c)")
    case None
    then show ?thesis using Suc by (auto simp: less_Suc_eq)
  next
    case (Some st)
    obtain v' c' where st: "st = (v', c')" by fastforce
    have ih: "\<forall>k < n. bbits4 v ! k OR bbits4 that ! k = 0" "size4 v' = size4 v" "bbits4 v' = bbits4 v"
      "added g (abits4 v) (abits4 that) c n (abits4 v') c'"
      using Suc Some st by auto
    obtain w c2 where w: "ul_add_with_carry (abits4 v' ! n) (g (abits4 that ! n)) c' = (w, c2)" by fastforce
    have "added g (abits4 v) (abits4 that) c (Suc n) ((abits4 v')[n := w]) c2"
      using added_Suc [OF ih(4) _ _ w] Suc.prems by simp
    then show ?thesis using ih(1-3) w by (auto simp: Some st less_Suc_eq)
  qed
qed

lemma x_out_ok:
  assumes "length (abits4 v) = nwords (size4 v)" "length (bbits4 v) = nwords (size4 v)" "64 < size4 v"
  shows "wf4 (x_out v) \<and> size4 (x_out v) = size4 v \<and> bits4 (x_out v) = replicate (size4 v) BIT4_X"
proof -
  have bits: "bit (NOT (ul_shl (- 1) (size4 v mod 64))) (i mod 64)" if "i < size4 v" "\<not> i div 64 < size4 v div 64" for i
    using that by (cases rule: index_cases) (simp_all add: bit_not_high)
  have X: "bit (WORD_ABITS BIT4_X) (i mod 64)" "bit (WORD_BBITS BIT4_X) (i mod 64)" for i
    by (simp_all add: bit_WORD abit4_def bbit4_def)
  have "wbit (abits4 (x_out v)) i \<and> wbit (bbits4 (x_out v)) i" if "i < size4 v" for i
    using that assms bits X by (auto simp: x_out_def Let_def tail_map_ok(2) bit_and_iff)
  moreover have "size4 (x_out v) = size4 v" by (simp add: x_out_def Let_def)
  moreover have "wf4 (x_out v)" using assms by (simp add: x_out_def Let_def wf4_def words4_def tail_map_ok(1))
  ultimately show ?thesis using bits4_all_x [of "x_out v"] by simp
qed

text \<open>The X check of \<open>add\<close> and \<open>sub\<close>, word by word with the last word masked.\<close>

lemma xz_words:
  assumes "size4 w = size4 v" "64 < size4 v"
  shows "list_ex bit4_is_xz (bits4 v @ bits4 w) \<longleftrightarrow>
    (\<exists>k < size4 v div 64. bbits4 v ! k OR bbits4 w ! k \<noteq> 0) \<or>
    size4 v mod 64 > 0 \<and> (bbits4 v ! (size4 v div 64) OR bbits4 w ! (size4 v div 64)) AND NOT (ul_shl (- 1) (size4 v mod 64)) \<noteq> 0"
proof -
  let ?P = "\<lambda>k j. \<not> (bit (bbits4 v ! k) j \<or> bit (bbits4 w ! k) j)"
  have "list_ex bit4_is_xz (bits4 v @ bits4 w) \<longleftrightarrow> \<not> (\<forall>i < size4 v. ?P (i div 64) (i mod 64))"
    unfolding list_ex_append xz_planes assms(1) wbit_def by blast
  also have "\<dots> \<longleftrightarrow> \<not> ((\<forall>k < size4 v div 64. \<forall>j < 64. ?P k j) \<and> (\<forall>j < size4 v mod 64. ?P (size4 v div 64) j))"
    using all_bits_split [of "size4 v" ?P] by argo
  finally show ?thesis by (simp only: words_or words_or_masked mod_less_divisor zero_less_numeral) (auto intro: gr_zeroI)
qed

lemma added_bits:
  assumes "added g as ts c n zs c'" "length as = n" "length ts = n" "i < 64 * n"
  shows "wbit zs i = bit (wval as + wval (map g ts) + uint c) i"
proof -
  have len: "length zs = n" and eq: "wval zs + 2 ^ (64 * n) * uint c' = wval as + wval (map g ts) + uint c"
    using assms by (auto simp: added_def)
  have "take_bit (64 * n) (wval zs + 2 ^ (64 * n) * uint c') = take_bit (64 * n) (wval zs)"
    by (simp add: take_bit_eq_mod)
  then have "bit (wval zs) i = bit (wval as + wval (map g ts) + uint c) i"
    unfolding eq using assms(4) by (metis bit_take_bit_iff)
  then show ?thesis using assms(4) len by (simp add: bit_wval)
qed

lemma wval_not: "wval (map NOT xs) = 2 ^ (64 * length xs) - 1 - wval xs"
proof (induction xs)
  case (Cons x xs)
  have "uint (NOT x) = 2 ^ 64 - 1 - uint x"
  proof -
    have "NOT x = - 1 - x" by (simp add: not_eq_complement)
    moreover have "x \<le> - 1" by simp
    ultimately show ?thesis by (simp only: uint_sub_if' uint_minus_1) (simp add: word_le_def uint_minus_1)
  qed
  then show ?case using Cons by (simp add: algebra_simps power_add)
qed simp

lemma wval_sub_law:
  assumes "length xs = length ys"
  shows "take_bit (64 * length xs) (wval xs + wval (map NOT ys) + uint (1 :: ulong)) = take_bit (64 * length xs) (wval xs - wval ys)"
proof -
  have "wval xs + wval (map NOT ys) + uint (1 :: ulong) = (wval xs - wval ys) + 2 ^ (64 * length xs)"
    using assms by (simp add: wval_not)
  then show ?thesis by (simp only: take_bit_eq_mod mod_add_self2)
qed

context word_ring_op
begin

lemma long_add_ok:
  assumes v: "wf4 v" and w: "wf4 w" and sz: "size4 w = size4 v" and long: "64 < size4 v" and c: "uint c \<le> 1"
    and law: "\<And>xs ys. length xs = length ys \<Longrightarrow>
      take_bit (64 * length xs) (wval xs + wval (map g ys) + uint c) = take_bit (64 * length xs) (F (wval xs) (wval ys))"
  shows "wf4 (long_add g c v w) \<and> size4 (long_add g c v w) = size4 v \<and> bits4 (long_add g c v w) = arith_spec F v w"
proof -
  define n cnt where "n = nwords (size4 v)" and "cnt = size4 v div 64"
  have len: "length (abits4 v) = n" "length (bbits4 v) = n" "length (abits4 w) = n" "length (bbits4 w) = n"
    using wf4_long [OF v long] wf4_long [OF w] sz long by (simp_all add: n_def)
  have split: "n = cnt + (if size4 v mod 64 > 0 then 1 else 0)" by (simp add: n_def cnt_def nwords_split)
  have bound: "i < 64 * n" if "i < size4 v" for i using that nwords_ge [of "size4 v"] by (simp add: n_def)
  note xz = xz_words [OF sz long, folded cnt_def]
  have result: "bit (wval (abits4 v) + wval (map g (abits4 w)) + uint c) i = bit (F (wval (abits4 v)) (wval (abits4 w))) i"
    if "i < 64 * n" for i
    using law [of "abits4 v" "abits4 w"] that len by (metis bit_take_bit_iff)
  note loop = add_loop_ok [of cnt v w c g]
  show ?thesis
  proof (cases "add_loop g w cnt (v, c)")
    case None
    then have "list_ex bit4_is_xz (bits4 v @ bits4 w)" using loop split len c xz by simp
    then show ?thesis using None x_out_ok [of v] len long
      by (simp add: long_add_def Let_def arith_spec_def n_def cnt_def del: list_ex_append)
  next
    case (Some st)
    obtain v' c' where st: "st = (v', c')" by fastforce
    have l: "\<forall>k < cnt. bbits4 v ! k OR bbits4 w ! k = 0" "size4 v' = size4 v" "bbits4 v' = bbits4 v"
      "added g (abits4 v) (abits4 w) c cnt (abits4 v') c'"
      using loop split len c Some st by simp_all
    have len': "length (abits4 v') = n" using l(4) len by (simp add: added_def)
    show ?thesis
    proof (cases "size4 v mod 64 = 0")
      case True
      then have no: "\<not> list_ex bit4_is_xz (bits4 v @ bits4 w)" using xz l(1) by simp
      have u: "long_add g c v w = v'" using True Some st by (simp add: long_add_def Let_def flip: cnt_def)
      have "bits4 v' = arith_spec F v w"
        using added_bits [OF l(4)] result len split True bound
        by (intro bits4_result [OF v w sz no l(2) _ l(3)]) simp
      then show ?thesis using u l(2,3) len len' long by (simp add: wf4_def words4_def n_def)
    next
      case False
      let ?m = "NOT (ul_shl (- 1) (size4 v mod 64))"
      have nc: "n = Suc cnt" using split False by simp
      obtain sm c2 where sm: "ul_add_with_carry (abits4 v' ! cnt) (g (abits4 w ! cnt)) c' = (sm, c2)" by fastforce
      show ?thesis
      proof (cases "(bbits4 v ! cnt OR bbits4 w ! cnt) AND ?m = 0")
        case clear: False
        then have xzt: "list_ex bit4_is_xz (bits4 v @ bits4 w)" using xz False by simp
        have "long_add g c v w = x_out v'" using False clear Some st l(2,3) by (simp add: long_add_def Let_def flip: cnt_def)
        then show ?thesis using x_out_ok [of v'] l len len' long xzt
          by (simp add: arith_spec_def n_def del: list_ex_append)
      next
        case zero: True
        then have no: "\<not> list_ex bit4_is_xz (bits4 v @ bits4 w)" using xz l(1) by simp
        define u where "u = v'\<lparr>abits4 := (abits4 v')[cnt := sm AND ?m]\<rparr>"
        have u: "long_add g c v w = u"
          using False zero Some st l(2,3) sm by (simp add: long_add_def Let_def u_def flip: cnt_def)
        have add: "added g (abits4 v) (abits4 w) c n ((abits4 v')[cnt := sm]) c2"
          unfolding nc using added_Suc [OF l(4) _ _ sm] len nc by simp
        have keep: "wbit (abits4 u) i = wbit ((abits4 v')[cnt := sm]) i" if "i < size4 v" for i
          using that len' nc unfolding u_def cnt_def
          by (cases rule: index_cases [OF that]) (simp_all add: wbit_update bit_and_iff bit_not_high)
        have "bits4 u = arith_spec F v w"
          using added_bits [OF add] result keep len bound l(2,3)
          by (intro bits4_result [OF v w sz no]) (simp_all add: u_def)
        then show ?thesis using u l(2,3) len len' long by (simp add: wf4_def words4_def n_def u_def)
      qed
    qed
  qed
qed

end

lemma add4_ok:
  assumes "wf4 v" "wf4 w" "size4 w = size4 v"
  shows "\<exists>u. add4 v w = Some u \<and> wf4 u \<and> size4 u = size4 v \<and> bits4 u = arith_spec (+) v w"
proof (cases "size4 v \<le> 64")
  case True
  then show ?thesis using plus4.short_arith_ok [OF assms] assms(3) by (simp add: add4_def)
next
  case False
  then show ?thesis
    using plus4.long_add_ok [OF assms, of 0 "\<lambda>w. w"] assms(3) by (simp add: add4_def)
qed

lemma sub4_ok:
  assumes "wf4 v" "wf4 w" "size4 w = size4 v"
  shows "\<exists>u. sub4 v w = Some u \<and> wf4 u \<and> size4 u = size4 v \<and> bits4 u = arith_spec (-) v w"
proof (cases "size4 v \<le> 64")
  case True
  then show ?thesis using minus4.short_arith_ok [OF assms] assms(3) by (simp add: sub4_def)
next
  case False
  then show ?thesis
    using minus4.long_add_ok [OF assms, of 1 NOT] wval_sub_law assms(3) by (simp add: sub4_def)
qed

section \<open>Multiplication over words\<close>

abbreviation wcong :: "nat \<Rightarrow> int \<Rightarrow> int \<Rightarrow> bool" where "wcong n x y \<equiv> 2 ^ (64 * n) dvd x - y"

lemma wcong_trans: "wcong n x y \<Longrightarrow> wcong n y z \<Longrightarrow> wcong n x z"
  using dvd_add [of "2 ^ (64 * n)" "x - y" "y - z"] by simp

lemma wcong_add: "wcong n a b \<Longrightarrow> wcong n c d \<Longrightarrow> wcong n (a + c) (b + d)"
  using dvd_add [of "2 ^ (64 * n)" "a - b" "c - d"] by (simp add: algebra_simps)

lemma wcong_bits: "wcong n x y \<Longrightarrow> i < 64 * n \<Longrightarrow> bit x i = bit y i"
  by (metis bit_take_bit_iff mod_eq_dvd_iff take_bit_eq_mod)

lemma wval_update: "k < length xs \<Longrightarrow> wval (xs[k := w]) = wval xs + 2 ^ (64 * k) * (uint w - uint (xs ! k))"
proof (induction xs arbitrary: k)
  case (Cons x xs)
  show ?case
  proof (cases k)
    case (Suc j)
    have "(2 :: int) ^ (64 * Suc j) = 2 ^ 64 * 2 ^ (64 * j)" by (simp add: power_add)
    then show ?thesis using Cons Suc by (simp only: list_update.simps nat.case wval_Cons nth_Cons_Suc length_Cons Suc_less_eq)
        (simp add: algebra_simps)
  qed simp
qed simp

lemma mul_ripple_ok:
  assumes "length res = cnt" "k \<le> cnt" "uint c \<le> 1"
  shows "length (mul_ripple cnt k su c res) = cnt \<and>
    wcong cnt (wval (mul_ripple cnt k su c res)) (wval res + 2 ^ (64 * k) * (uint su + uint c))"
  using assms
proof (induction "cnt - k" arbitrary: k su c res)
  case 0
  then show ?case by (simp add: mul_ripple_def)
next
  case (Suc m)
  obtain r c2 where r: "ul_add_with_carry (res ! k) su c = (r, c2)" by fastforce
  have c2: "uint c2 \<le> 1" "uint r + 2 ^ 64 * uint c2 = uint (res ! k) + uint su + uint c"
    using uw.adc_law [OF _ _ _ Suc.prems(3) r] by simp_all
  have k: "k < cnt" using Suc.hyps(2) by simp
  then have step: "mul_ripple cnt k su c res = mul_ripple cnt (Suc k) 0 c2 (res[k := r])"
    by (simp add: mul_ripple_def upt_conv_Cons r)
  have "wval (res[k := r]) + 2 ^ (64 * Suc k) * (uint (0 :: ulong) + uint c2)
      = wval res + 2 ^ (64 * k) * (uint r + 2 ^ 64 * uint c2 - uint (res ! k))"
    using k Suc.prems(1) by (simp add: wval_update algebra_simps power_add)
  also have "\<dots> = wval res + 2 ^ (64 * k) * (uint su + uint c)" unfolding c2(2) by simp
  finally show ?case
    using Suc.hyps(1) [of "Suc k" "res[k := r]" c2 0] Suc.hyps(2) Suc.prems(1) k c2(1) unfolding step by simp
qed

lemma mul_step_ok:
  assumes "length res = cnt" "base < cnt"
  shows "length (mul_step cnt base l r res) = cnt \<and>
    wcong cnt (wval (mul_step cnt base l r res)) (wval res + 2 ^ (64 * base) * (uint l * uint r))"
proof -
  obtain tmp hi where m: "multiply_with_carry l r = (tmp, hi)" by fastforce
  obtain s c where s: "ul_add_with_carry (res ! base) tmp 0 = (s, c)" by fastforce
  have "unat tmp + 2 ^ 64 * unat hi = unat l * unat r" by (rule multiply_with_carry_ok) (rule m)
  then have prod: "uint tmp + 2 ^ 64 * uint hi = uint l * uint r" 
    unfolding uint_nat by (metis of_nat_add of_nat_mult of_nat_numeral of_nat_power)
  have c: "uint c \<le> 1" "uint s + 2 ^ 64 * uint c = uint (res ! base) + uint tmp"
    using uw.adc_law [OF _ _ _ _ s] by simp_all
  have "wval (res[base := s]) + 2 ^ (64 * (base + 1)) * (uint hi + uint c)
      = wval res + 2 ^ (64 * base) * (uint s + 2 ^ 64 * uint c - uint (res ! base) + 2 ^ 64 * uint hi)"
    using assms by (simp add: wval_update algebra_simps power_add)
  also have "\<dots> = wval res + 2 ^ (64 * base) * (uint l * uint r)" unfolding c(2) by (simp flip: prod)
  finally show ?thesis
    using mul_ripple_ok [of "res[base := s]" cnt "base + 1" c hi] assms c(1) by (simp add: mul_step_def m s)
qed

lemma wval_map_upt: "wval (map f [0..<Suc n]) = wval (map f [0..<n]) + 2 ^ (64 * n) * uint (f n)"
  by (simp add: wval_append)

text \<open>One row: the word \<open>l\<close> at position \<open>a\<close> times the low words of the right operand.\<close>

lemma word_row_ok:
  fixes l :: ulong and rv :: "nat \<Rightarrow> ulong"
  assumes "length res = cnt" "a + m \<le> cnt"
  defines "out \<equiv> fold (\<lambda>b. mul_step cnt (a + b) l (rv b)) [0..<m] res"
  shows "length out = cnt \<and> wcong cnt (wval out) (wval res + 2 ^ (64 * a) * uint l * wval (map rv [0..<m]))"
  using assms(2) unfolding out_def
proof (induction m)
  case 0
  then show ?case using assms(1) by simp
next
  case (Suc m)
  define u where "u = fold (\<lambda>b. mul_step cnt (a + b) l (rv b)) [0..<m] res"
  have u: "length u = cnt" "wcong cnt (wval u) (wval res + 2 ^ (64 * a) * uint l * wval (map rv [0..<m]))"
    using Suc by (simp_all add: u_def)
  note st = mul_step_ok [OF u(1), of "a + m" l "rv m"]
  have "wcong cnt (wval u + 2 ^ (64 * (a + m)) * (uint l * uint (rv m)))
      (wval res + 2 ^ (64 * a) * uint l * wval (map rv [0..<Suc m]))"
    using u(2) unfolding wval_map_upt by (simp add: algebra_simps power_add)
  then show ?case using st Suc.prems by (auto simp flip: u_def intro: wcong_trans)
qed

lemma mul_words_ok:
  shows "length (mul_words cnt lv rv) = cnt \<and>
    wcong cnt (wval (mul_words cnt lv rv)) (wval (map lv [0..<cnt]) * wval (map rv [0..<cnt]))"
proof -
  let ?R = "wval (map rv [0..<cnt])"
  define row where "row = (\<lambda>a. fold (\<lambda>b. mul_step cnt (a + b) (lv a) (rv b)) [0..<cnt - a])"
  have "length (fold row [0..<n] (replicate cnt 0)) = cnt \<and>
      wcong cnt (wval (fold row [0..<n] (replicate cnt 0))) (wval (map lv [0..<n]) * ?R)" if "n \<le> cnt" for n
    using that
  proof (induction n)
    case 0
    have "wval (replicate m 0) = 0" for m by (induction m) simp_all
    then show ?case by simp
  next
    case (Suc n)
    define u where "u = fold row [0..<n] (replicate cnt 0)"
    have u: "length u = cnt" "wcong cnt (wval u) (wval (map lv [0..<n]) * ?R)" using Suc by (simp_all add: u_def)
    have r: "length (row n u) = cnt"
      "wcong cnt (wval (row n u)) (wval u + 2 ^ (64 * n) * uint (lv n) * wval (map rv [0..<cnt - n]))"
      using word_row_ok [OF u(1), of n "cnt - n" "lv n" rv] Suc.prems by (simp_all add: row_def)
    have "[0..<cnt] = [0..<cnt - n] @ [cnt - n..<cnt]" using upt_add_eq_append [of 0 "cnt - n" n] Suc.prems by simp
    then have "?R = wval (map rv [0..<cnt - n]) + 2 ^ (64 * (cnt - n)) * wval (map rv [cnt - n..<cnt])"
      by (simp add: wval_append)
    moreover have "(2 :: int) ^ (64 * n) * 2 ^ (64 * (cnt - n)) = 2 ^ (64 * cnt)"
      using Suc.prems by (simp flip: power_add distrib_left)
    ultimately have "2 ^ (64 * n) * ?R = 2 ^ (64 * n) * wval (map rv [0..<cnt - n]) + 2 ^ (64 * cnt) * wval (map rv [cnt - n..<cnt])"
      by (simp add: distrib_left flip: mult.assoc)
    then have "wcong cnt (2 ^ (64 * n) * wval (map rv [0..<cnt - n])) (2 ^ (64 * n) * ?R)" by simp
    then have "wcong cnt (uint (lv n) * (2 ^ (64 * n) * wval (map rv [0..<cnt - n]))) (uint (lv n) * (2 ^ (64 * n) * ?R))"
      by (metis dvd_mult right_diff_distrib)
    with u(2) have "wcong cnt (wval u + uint (lv n) * (2 ^ (64 * n) * wval (map rv [0..<cnt - n])))
        (wval (map lv [0..<n]) * ?R + uint (lv n) * (2 ^ (64 * n) * ?R))"
      by (rule wcong_add)
    then have "wcong cnt (wval (row n u)) (wval (map lv [0..<Suc n]) * ?R)"
      using wcong_trans [OF r(2)] unfolding wval_map_upt by (simp add: algebra_simps)
    then show ?case using r(1) by (simp flip: u_def)
  qed
  from this [of cnt] show ?thesis by (simp add: mul_words_def row_def)
qed

text \<open>The masked words of a plane, and the X check over them.\<close>

definition mul_mask :: "nat \<Rightarrow> ulong" where
  "mul_mask sz = (if sz mod 64 > 0 then NOT (ul_shl (- 1) (sz mod 64)) else - 1)"

lemma bit_mul_word:
  assumes "i < sz"
  shows "bit (mul_word (nwords sz) (mul_mask sz) ws (i div 64)) (i mod 64) = wbit ws i"
proof -
  have "bit (mul_mask sz) (i mod 64)" if "i div 64 = nwords sz - 1"
  proof (cases "sz mod 64 = 0")
    case False
    then have "i div 64 = sz div 64" using that by (simp add: nwords_split)
    then show ?thesis using assms False by (cases rule: index_cases [OF assms]) (simp_all add: mul_mask_def bit_not_high)
  qed (simp add: mul_mask_def)
  then show ?thesis by (auto simp: mul_word_def Let_def wbit_def bit_and_iff)
qed

lemma mul_words_value:
  assumes "nwords sz \<le> length ws"
  shows "take_bit sz (wval (map (mul_word (nwords sz) (mul_mask sz) ws) [0..<nwords sz])) = take_bit sz (wval ws)"
proof (rule bit_eqI)
  fix i
  have ge: "sz \<le> 64 * nwords sz" by (rule nwords_ge)
  show "bit (take_bit sz (wval (map (mul_word (nwords sz) (mul_mask sz) ws) [0..<nwords sz]))) i = bit (take_bit sz (wval ws)) i"
  proof (cases "i < sz")
    case True
    then have "wbit (map (mul_word (nwords sz) (mul_mask sz) ws) [0..<nwords sz]) i = wbit ws i"
      using bit_mul_word [OF True, of ws] nwords_bound [OF True] by (simp add: wbit_def)
    then show ?thesis using True ge assms by (simp add: bit_take_bit_iff bit_wval)
  qed (simp add: bit_take_bit_iff)
qed

lemma mul_xz:
  assumes "size4 w = size4 v" "64 < size4 v"
  shows "list_ex (\<lambda>idx. mul_word (nwords (size4 v)) (mul_mask (size4 v)) (bbits4 v) idx \<noteq> 0 \<or>
      mul_word (nwords (size4 v)) (mul_mask (size4 v)) (bbits4 w) idx \<noteq> 0) [0..<nwords (size4 v)] \<longleftrightarrow>
    list_ex bit4_is_xz (bits4 v @ bits4 w)"
proof -
  have or: "x AND m \<noteq> 0 \<or> y AND m \<noteq> 0 \<longleftrightarrow> (x OR y) AND m \<noteq> 0" for x y m :: ulong
    by (auto simp: word_zero_iff bit_simps)
  have or': "x \<noteq> 0 \<or> y \<noteq> 0 \<longleftrightarrow> x OR y \<noteq> 0" for x y :: ulong by (auto simp: word_zero_iff bit_simps)
  show ?thesis
  proof (cases "size4 v mod 64 = 0")
    case True
    then have w: "mul_word (nwords (size4 v)) (mul_mask (size4 v)) ws idx = ws ! idx" for ws idx
      by (simp add: mul_word_def mul_mask_def Let_def)
    have n: "nwords (size4 v) = size4 v div 64" using True by (simp add: nwords_split)
    show ?thesis using True unfolding xz_words [OF assms] w or' by (auto simp: list_ex_iff n)
  next
    case False
    then have n: "nwords (size4 v) = Suc (size4 v div 64)" by (simp add: nwords_split)
    have "list_ex (\<lambda>idx. mul_word (nwords (size4 v)) (mul_mask (size4 v)) (bbits4 v) idx \<noteq> 0 \<or>
      mul_word (nwords (size4 v)) (mul_mask (size4 v)) (bbits4 w) idx \<noteq> 0) [0..<size4 v div 64] \<longleftrightarrow>
      (\<exists>k < size4 v div 64. bbits4 v ! k OR bbits4 w ! k \<noteq> 0)"
      using n or' by (auto simp: mul_word_def list_ex_iff Let_def)
    then show ?thesis
      using False or [of "bbits4 v ! (size4 v div 64)" "NOT (ul_shl (- 1) (size4 v mod 64))" "bbits4 w ! (size4 v div 64)"]
      unfolding xz_words [OF assms] n by (auto simp: mul_word_def mul_mask_def Let_def)
  qed
qed

lemma long_mul_ok:
  assumes v: "wf4 v" and w: "wf4 w" and sz: "size4 w = size4 v" and long: "64 < size4 v"
  shows "wf4 (long_mul v w) \<and> size4 (long_mul v w) = size4 v \<and> bits4 (long_mul v w) = arith_spec (*) v w"
proof -
  define n m where "n = nwords (size4 v)" and "m = mul_mask (size4 v)"
  have len: "length (abits4 v) = n" "length (bbits4 v) = n" "length (abits4 w) = n"
    using wf4_long [OF v long] wf4_long [OF w] sz long by (simp_all add: n_def)
  have bound: "i < 64 * n" if "i < size4 v" for i using that nwords_ge [of "size4 v"] by (simp add: n_def)
  have n1: "1 < n" using long unfolding n_def by (simp only: nwords_two)
  note xz = mul_xz [OF sz long, folded n_def m_def]
  define res where "res = mul_words n (mul_word n m (abits4 v)) (mul_word n m (abits4 w))"
  have unf: "long_mul v w = (if list_ex bit4_is_xz (bits4 v @ bits4 w)
      then v\<lparr>abits4 := replicate (n - 1) (WORD_ABITS BIT4_X) @ [WORD_ABITS BIT4_X AND m],
             bbits4 := replicate (n - 1) (WORD_BBITS BIT4_X) @ [WORD_BBITS BIT4_X AND m]\<rparr>
      else v\<lparr>abits4 := res[n - 1 := res ! (n - 1) AND m]\<rparr>)"
    unfolding long_mul_def Let_def res_def by (simp add: xz [symmetric] del: list_ex_append flip: n_def m_def mul_mask_def)
  have masked: "bit (if i div 64 = n - 1 then x AND m else x) (i mod 64) = bit x (i mod 64)" if "i < size4 v" for i x
    using bit_mul_word [OF that, folded n_def m_def, of "replicate n x"] nwords_bound [OF that]
    by (auto simp: mul_word_def Let_def wbit_def n_def split: if_splits)
  show ?thesis
  proof (cases "list_ex bit4_is_xz (bits4 v @ bits4 w)")
    case True
    have X: "bit ((replicate (n - 1) x @ [x AND m]) ! (i div 64)) (i mod 64) = bit x (i mod 64)" if "i < size4 v" for i x
      using masked [OF that, of x] nwords_bound [OF that] n1 by (auto simp: nth_append n_def split: if_splits)
    have "bits4 (long_mul v w) = replicate (size4 (long_mul v w)) BIT4_X"
      using X True by (intro bits4_all_x) (simp add: unf wbit_def bit_WORD abit4_def bbit4_def del: list_ex_append)
    then show ?thesis using True v n1 long
      by (simp add: unf arith_spec_def wf4_def words4_def n_def del: list_ex_append)
  next
    case False
    have mw: "length res = n" "wcong n (wval res)
        (wval (map (mul_word n m (abits4 v)) [0..<n]) * wval (map (mul_word n m (abits4 w)) [0..<n]))"
      using mul_words_ok by (simp_all add: res_def)
    have val: "wbit (abits4 (long_mul v w)) i = bit (wval (abits4 v) * wval (abits4 w)) i" if i: "i < size4 v" for i
    proof -
      have "wbit (abits4 (long_mul v w)) i = wbit res i"
        using False masked [OF i, of "res ! (i div 64)"] n1 mw(1)
        by (auto simp: unf wbit_update wbit_def nth_list_update simp del: list_ex_append)
      also have "\<dots> = bit (wval (map (mul_word n m (abits4 v)) [0..<n]) * wval (map (mul_word n m (abits4 w)) [0..<n])) i"
        using wcong_bits [OF mw(2) bound [OF i]] bound [OF i] mw(1) by (simp add: bit_wval)
      also have "\<dots> = bit (wval (abits4 v) * wval (abits4 w)) i"
        using times4.mod_law [of "size4 v" "wval (map (mul_word n m (abits4 v)) [0..<n])" "wval (map (mul_word n m (abits4 w)) [0..<n])"]
          times4.mod_law [of "size4 v" "wval (abits4 v)" "wval (abits4 w)"] mul_words_value [of "size4 v"] len i
        unfolding n_def m_def by (metis bit_take_bit_iff order_refl)
      finally show ?thesis .
    qed
    have "bits4 (long_mul v w) = arith_spec (*) v w"
      using False val by (intro times4.bits4_result [OF v w sz False]) (simp_all add: unf del: list_ex_append)
    then show ?thesis using False v mw(1) long
      by (simp add: unf wf4_def words4_def n_def del: list_ex_append)
  qed
qed

lemma mul4_ok:
  assumes "wf4 v" "wf4 w" "size4 w = size4 v"
  shows "\<exists>u. mul4 v w = Some u \<and> wf4 u \<and> size4 u = size4 v \<and> bits4 u = arith_spec (*) v w"
proof (cases "size4 v \<le> 64")
  case True
  then show ?thesis using times4.short_arith_ok [OF assms] assms(3) by (simp add: mul4_def)
next
  case False
  then show ?thesis using long_mul_ok [OF assms] assms(3) by (simp add: mul4_def)
qed

end
