(* ===== verification/Vvp_Value4.thy ===== *)
theory Vvp_Value4
  imports Vvp_Arith4
begin

text \<open>
  \<open>vvp_vector4_t\<close> and native values (vvp/vvp_net.cc): \<open>operator +=\<close> on an integer, the two
  \<open>vector4_to_value\<close> templates and the text form of \<open>as_string\<close>.
\<close>

section \<open>Definitions\<close>

text \<open>
  \<open>operator += (int64_t)\<close>; the first argument of the loop counts the rounds that are left. The operand is a
  signed integer, which \<open>>>\<close> halves rounding down.
\<close>

fun add_int_loop :: "nat \<Rightarrow> nat \<Rightarrow> int \<Rightarrow> vvp_bit4_t \<Rightarrow> vvp_vector4_t \<Rightarrow> vvp_vector4_t option" where
  "add_int_loop 0 idx that carry v = Some v"
| "add_int_loop (Suc n) idx that carry v =
     (if that = 0 \<and> carry = BIT4_0 then Some v
      else let that_bit = (if odd that then BIT4_1 else BIT4_0);
               that = that div 2
           in if that_bit = BIT4_0 \<and> carry = BIT4_0 then add_int_loop n (idx + 1) that carry v
              else let (b, carry) = bit4_add_with_carry (value4 v idx) that_bit carry
                   in do { v \<leftarrow> set_bit4 v idx b; add_int_loop n (idx + 1) that carry v })"

definition add_int :: "vvp_vector4_t \<Rightarrow> int \<Rightarrow> vvp_vector4_t option" where
  "add_int v that =
     (if has_xz v then Some (vector4_fill (size4 v) BIT4_X) else add_int_loop (size4 v) 0 that BIT4_0 v)"

text \<open>
  \<open>vector4_to_value<INT>(vec, val, is_signed, is_arithmetic)\<close>: \<open>INT\<close> is the word type \<open>'w\<close>, and the result is the
  value stored in \<open>val\<close> with the returned flag, or \<open>None\<close> where the function returns early and leaves \<open>val\<close>
  alone. \<open>msk <<= 1\<close> on the fixed width drops the top bit.
\<close>

fun to_value_loop :: "vvp_vector4_t \<Rightarrow> bool \<Rightarrow> nat \<Rightarrow> nat \<Rightarrow> 'w::len word \<Rightarrow> 'w word \<Rightarrow> bool \<Rightarrow> ('w word \<times> bool) option" where
  "to_value_loop vec is_arithmetic 0 idx res msk rc = Some (res, rc)"
| "to_value_loop vec is_arithmetic (Suc n) idx res msk rc =
     (case value4 vec idx of
        BIT4_0 \<Rightarrow> to_value_loop vec is_arithmetic n (idx + 1) res (push_bit 1 msk) rc
      | BIT4_1 \<Rightarrow> to_value_loop vec is_arithmetic n (idx + 1) (res OR msk) (push_bit 1 msk) rc
      | _ \<Rightarrow> if is_arithmetic then None else to_value_loop vec is_arithmetic n (idx + 1) res (push_bit 1 msk) False)"

definition vector4_to_value :: "vvp_vector4_t \<Rightarrow> bool \<Rightarrow> bool \<Rightarrow> ('w::len word \<times> bool) option" where
  "vector4_to_value vec is_signed is_arithmetic =
     (let sz = (if size4 vec > LENGTH('w) then LENGTH('w) else size4 vec)
      in do { (res, rc) \<leftarrow> to_value_loop vec is_arithmetic sz 0 (0 :: 'w word) 1 True;
              let res = (if is_signed \<and> value4 vec (size4 vec - 1) = BIT4_1 \<and> size4 vec < LENGTH('w)
                         then res OR push_bit (size4 vec) (- 1) else res);
              Some (res, rc) })"

text \<open>
  \<open>vector4_to_value<T>(vec, overflow_flag, val)\<close>: the flag and the value, \<open>None\<close> where the function returns false.
\<close>

fun to_value_ovf_loop :: "vvp_vector4_t \<Rightarrow> nat \<Rightarrow> nat \<Rightarrow> 'w::len word \<Rightarrow> 'w word \<Rightarrow> bool \<Rightarrow> (bool \<times> 'w word) option" where
  "to_value_ovf_loop vec 0 idx res msk ovf = Some (ovf, res)"
| "to_value_ovf_loop vec (Suc n) idx res msk ovf =
     (case value4 vec idx of
        BIT4_0 \<Rightarrow> to_value_ovf_loop vec n (idx + 1) res (push_bit 1 msk) ovf
      | BIT4_1 \<Rightarrow> if msk = 0 then to_value_ovf_loop vec n (idx + 1) res (push_bit 1 msk) True
                 else to_value_ovf_loop vec n (idx + 1) (res OR msk) (push_bit 1 msk) ovf
      | _ \<Rightarrow> None)"

definition vector4_to_value_ovf :: "vvp_vector4_t \<Rightarrow> (bool \<times> 'w::len word) option" where
  "vector4_to_value_ovf vec = to_value_ovf_loop vec (size4 vec) 0 (0 :: 'w word) 1 False"

text \<open>
  \<open>as_string(buf, buf_len)\<close>: the characters written from \<open>buf\<close> on, the final NUL included. \<open>buf_len\<close> is a
  \<open>size_t\<close>, so that \<open>buf_len -= 3\<close> wraps.
\<close>

fun as_string_bits :: "vvp_vector4_t \<Rightarrow> nat \<Rightarrow> nat \<Rightarrow> ulong \<Rightarrow> string" where
  "as_string_bits v 0 idx buf_len = []"
| "as_string_bits v (Suc n) idx buf_len =
     (if buf_len \<ge> 2
      then (case value4 v (size4 v - idx - 1) of BIT4_0 \<Rightarrow> CHR ''0'' | BIT4_1 \<Rightarrow> CHR ''1'' | BIT4_X \<Rightarrow> CHR ''x'' | BIT4_Z \<Rightarrow> CHR ''z'')
        # as_string_bits v n (idx + 1) (buf_len - 1)
      else [])"

definition as_string4 :: "vvp_vector4_t \<Rightarrow> ulong \<Rightarrow> string" where
  "as_string4 v buf_len = ''C4<'' @ as_string_bits v (size4 v) 0 (buf_len - 3) @ ''>'' @ [CHR 0x00]"

section \<open>Adding an integer\<close>

abbreviation one4 :: "vvp_bit4_t \<Rightarrow> bool" where "one4 b \<equiv> b = BIT4_1"

lemma num_bits4_Suc: "num_bits4 (Suc n) x = (if odd x then BIT4_1 else BIT4_0) # num_bits4 n (x div 2)"
proof -
  have "[0..<Suc n] = 0 # map Suc [0..<n]" using upt_conv_Cons [of 0 "Suc n"] map_Suc_upt [of 0 n] by simp
  then show ?thesis unfolding num_bits4_def by (simp only: list.map map_map comp_def bit_0 bit_Suc)
qed

lemma num_bits4_self:
  assumes "list_all (\<lambda>b. \<not> bit4_is_xz b) bs"
  shows "num_bits4 (length bs) (ubits (map one4 bs)) = bs"
proof (rule nth_equalityI)
  fix i assume "i < length (num_bits4 (length bs) (ubits (map one4 bs)))"
  then have i: "i < length bs" by (simp add: num_bits4_def)
  then have "bs ! i = BIT4_0 \<or> bs ! i = BIT4_1"
    using assms by (cases "bs ! i") (auto simp: list_all_length bit4_is_xz_iff)
  then show "num_bits4 (length bs) (ubits (map one4 bs)) ! i = bs ! i"
    using i by (auto simp: num_bits4_def bit_ubits)
qed (simp add: num_bits4_def)

text \<open>One round of the loop: the sum of a bit, a bit of the operand and the carry.\<close>

lemma add_bit_round:
  fixes t y :: int
  assumes "\<not> bit4_is_xz b" "\<not> bit4_is_xz carry"
    and "bit4_add_with_carry b (if odd t then BIT4_1 else BIT4_0) carry = (s, c)"
  shows "\<not> bit4_is_xz s" "\<not> bit4_is_xz c"
    "(of_bool (one4 b) + 2 * y + t + of_bool (one4 carry)) div 2 = y + t div 2 + (of_bool (one4 c) :: int)"
    "s = (if odd (of_bool (one4 b) + 2 * y + t + (of_bool (one4 carry) :: int)) then BIT4_1 else BIT4_0)"
proof -
  have t: "t = 2 * (t div 2) + of_bool (odd t)" by (simp add: mod_2_eq_odd [symmetric])
  have law: "\<not> bit4_is_xz s" "\<not> bit4_is_xz c" "of_bool (one4 s) + 2 * of_bool (one4 c)
      = (of_bool (one4 b) + of_bool (odd t) + of_bool (one4 carry) :: int)"
    using b4.adc_law [OF assms(1) _ assms(2) _ assms(3)] by (auto simp: bit4_is_xz_iff split: if_splits)
  then show "\<not> bit4_is_xz s" "\<not> bit4_is_xz c" by simp_all
  have halve: "(2 * a + of_bool p) div 2 = (a :: int)" for a p by (cases p) simp_all
  have sum: "of_bool (one4 b) + 2 * y + t + of_bool (one4 carry) = 2 * (y + t div 2 + of_bool (one4 c)) + (of_bool (one4 s) :: int)"
  proof -
    have "2 * (y + t div 2 + of_bool (one4 c)) + of_bool (one4 s) = 2 * y + 2 * (t div 2) + (of_bool (one4 s) + 2 * of_bool (one4 c))"
      by simp
    also have "\<dots> = 2 * y + (2 * (t div 2) + of_bool (odd t)) + of_bool (one4 b) + of_bool (one4 carry)"
      unfolding law(3) by simp
    finally show ?thesis unfolding t [symmetric] by simp
  qed
  show "(of_bool (one4 b) + 2 * y + t + of_bool (one4 carry)) div 2 = y + t div 2 + (of_bool (one4 c) :: int)"
    using halve unfolding sum by blast
  show "s = (if odd (of_bool (one4 b) + 2 * y + t + (of_bool (one4 carry) :: int)) then BIT4_1 else BIT4_0)"
    unfolding sum using law(1) by (cases s) (simp_all add: bit4_is_xz_iff)
qed

lemma add_int_loop_ok:
  assumes "wf4 v" "size4 v = idx + n" "list_all (\<lambda>b. \<not> bit4_is_xz b) (bits4 v)" "\<not> bit4_is_xz carry"
  shows "\<exists>u. add_int_loop n idx that carry v = Some u \<and> wf4 u \<and> size4 u = size4 v \<and>
    bits4 u = take idx (bits4 v) @ num_bits4 n (ubits (map one4 (drop idx (bits4 v))) + that + of_bool (one4 carry))"
  using assms
proof (induction n arbitrary: idx that carry v)
  case 0
  then show ?case by (simp add: num_bits4_def)
next
  case (Suc n)
  let ?b = "bits4 v ! idx" and ?y = "ubits (map one4 (drop (Suc idx) (bits4 v)))"
  have idx: "idx < size4 v" using Suc.prems by simp
  have drop: "drop idx (bits4 v) = ?b # drop (Suc idx) (bits4 v)" using idx by (simp add: Cons_nth_drop_Suc)
  have b: "\<not> bit4_is_xz ?b" "value4 v idx = ?b" using Suc.prems(3) idx by (simp_all add: list_all_length bits4_def)
  obtain s c where sc: "bit4_add_with_carry ?b (if odd that then BIT4_1 else BIT4_0) carry = (s, c)" by fastforce
  note round = add_bit_round(1,2) [OF b(1) Suc.prems(4) sc] and sums = add_bit_round(3,4) [OF b(1) Suc.prems(4) sc, of ?y]
  have goal: "num_bits4 (Suc n) (ubits (map one4 (drop idx (bits4 v))) + that + of_bool (one4 carry))
      = s # num_bits4 n (?y + that div 2 + of_bool (one4 c))"
    unfolding num_bits4_Suc drop using sums by simp
  obtain v1 where v1: "set_bit4 v idx s = Some v1" "wf4 v1" "size4 v1 = size4 v" "bits4 v1 = (bits4 v)[idx := s]"
    using set_bit4_ok [OF Suc.prems(1) idx] by blast
  have "list_all (\<lambda>b. \<not> bit4_is_xz b) (bits4 v1)"
    using Suc.prems(3) round(1) v1(4) idx by (auto simp: list_all_length nth_list_update)
  from Suc.IH [OF v1(2) _ this round(2), of "idx + 1" "that div 2"] v1(3) Suc.prems(2)
  obtain u where u: "add_int_loop n (idx + 1) (that div 2) c v1 = Some u" "wf4 u" "size4 u = size4 v"
    "bits4 u = take (Suc idx) (bits4 v1) @ num_bits4 n (ubits (map one4 (drop (Suc idx) (bits4 v1))) + that div 2 + of_bool (one4 c))"
    by auto
  have bu: "bits4 u = take idx (bits4 v) @ num_bits4 (Suc n) (ubits (map one4 (drop idx (bits4 v))) + that + of_bool (one4 carry))"
    unfolding goal using u(4) v1(4) idx by (simp add: take_Suc_conv_app_nth)
  consider (stop) "that = 0" "carry = BIT4_0" | (skip) "that \<noteq> 0" "even that" "carry = BIT4_0"
    | (add) "odd that \<or> carry \<noteq> BIT4_0" by blast
  then show ?case
  proof cases
    case stop
    have "num_bits4 (length (drop idx (bits4 v))) (ubits (map one4 (drop idx (bits4 v)))) = drop idx (bits4 v)"
      using Suc.prems(3) by (intro num_bits4_self) (metis append_take_drop_id list_all_append)
    then show ?thesis using stop Suc.prems(1,2) by simp
  next
    case skip
    have "s = ?b" "c = BIT4_0"
      using sc skip b(1) by (cases ?b; simp add: bit4_add_with_carry_def bit4_is_xz_iff)+
    then have "bits4 v1 = bits4 v" using v1(4) idx by simp
    moreover from Suc.IH [of v "idx + 1" BIT4_0 "that div 2"] Suc.prems obtain u'
      where "add_int_loop n (idx + 1) (that div 2) BIT4_0 v = Some u'" "wf4 u'" "size4 u' = size4 v"
        "bits4 u' = take (Suc idx) (bits4 v) @ num_bits4 n (ubits (map one4 (drop (Suc idx) (bits4 v))) + that div 2 + of_bool (one4 BIT4_0))"
      by (auto simp: bit4_is_xz_iff)
    ultimately show ?thesis using skip bu u(4) \<open>c = BIT4_0\<close> by simp
  next
    case add
    then show ?thesis using sc v1(1) u(1-3) bu b(2) by (auto split: if_splits)
  qed
qed

lemma add_int_ok:
  assumes "wf4 v" "0 < size4 v"
  shows "\<exists>u. add_int v x = Some u \<and> wf4 u \<and> size4 u = size4 v \<and>
    bits4 u = (if list_ex bit4_is_xz (bits4 v) then replicate (size4 v) BIT4_X else num_bits4 (size4 v) (uval4 v + x))"
proof (cases "list_ex bit4_is_xz (bits4 v)")
  case True
  then show ?thesis using has_xz_iff [OF assms(2)] by (simp add: add_int_def bits4_fill)
next
  case False
  then have "list_all (\<lambda>b. \<not> bit4_is_xz b) (bits4 v)" by (simp add: list_all_iff list_ex_iff)
  from add_int_loop_ok [OF assms(1) _ this, of 0 "size4 v" BIT4_0 x] show ?thesis
    using False has_xz_iff [OF assms(2)] by (simp add: add_int_def uval4_def bit4_is_xz_iff)
qed

section \<open>Reading a native value\<close>

text \<open>The bits that a run of the loop adds to the accumulator, and whether it meets an X or a Z.\<close>

definition reads :: "vvp_vector4_t \<Rightarrow> nat \<Rightarrow> nat \<Rightarrow> 'w::len word \<Rightarrow> 'w word \<Rightarrow> bool" where
  "reads vec idx n res r \<longleftrightarrow>
     (\<forall>j < LENGTH('w). bit r j = (bit res j \<or> idx \<le> j \<and> j < idx + n \<and> value4 vec j = BIT4_1))"

definition in_range :: "(nat \<Rightarrow> bool) \<Rightarrow> nat \<Rightarrow> nat \<Rightarrow> bool" where
  "in_range P idx n \<longleftrightarrow> (\<exists>j. idx \<le> j \<and> j < idx + n \<and> P j)"

lemma range_split: "idx \<le> j \<and> j < idx + Suc n \<longleftrightarrow> j = idx \<or> idx + 1 \<le> j \<and> j < idx + 1 + (n :: nat)"
  by auto

lemma in_range_0 [simp]: "\<not> in_range P idx 0"
  by (auto simp: in_range_def)

lemma in_range_Suc: "in_range P idx (Suc n) \<longleftrightarrow> P idx \<or> in_range P (idx + 1) n"
  unfolding in_range_def conj_assoc [symmetric] range_split by blast

lemma reads_0 [simp]: "reads vec idx 0 res res"
  by (auto simp: reads_def)

lemma reads_skip: "value4 vec idx \<noteq> BIT4_1 \<Longrightarrow> reads vec (idx + 1) n res r \<Longrightarrow> reads vec idx (Suc n) res r"
  unfolding reads_def conj_assoc [symmetric] range_split by blast

lemma reads_set:
  assumes "value4 vec idx = BIT4_1" "reads vec (idx + 1) n (res OR push_bit idx 1) r"
  shows "reads vec idx (Suc n) res r"
proof -
  have "bit (res OR push_bit idx 1) j \<longleftrightarrow> bit res j \<or> j = idx" if "j < LENGTH('a)" for j
    using that by (auto simp: bit_simps)
  then show ?thesis
    using assms unfolding reads_def conj_assoc [symmetric] range_split by auto
qed

lemma reads_beyond:
  fixes r :: "'w::len word"
  shows "LENGTH('w) \<le> idx \<Longrightarrow> reads vec (idx + 1) n res r \<Longrightarrow> reads vec idx (Suc n) res r"
  unfolding reads_def conj_assoc [symmetric] range_split by auto

lemma push_bit_one_next: "push_bit 1 (push_bit k 1) = (push_bit (k + 1) 1 :: 'w::len word)"
  by (simp add: push_bit_push_bit add.commute)

lemma to_value_loop_ok:
  fixes vec :: vvp_vector4_t and res :: "'w::len word"
  defines "unk \<equiv> in_range (\<lambda>j. bit4_is_xz (value4 vec j))"
  shows "if ar \<and> unk idx n then to_value_loop vec ar n idx res (push_bit idx 1) rc = None
    else \<exists>r. to_value_loop vec ar n idx res (push_bit idx 1) rc = Some (r, rc \<and> \<not> unk idx n) \<and> reads vec idx n res r"
proof (induction n arbitrary: idx res rc)
  case 0
  show ?case by (auto simp: unk_def)
next
  case (Suc n)
  have unk: "unk idx (Suc n) \<longleftrightarrow> bit4_is_xz (value4 vec idx) \<or> unk (idx + 1) n" by (simp add: unk_def in_range_Suc)
  note shift = push_bit_one_next [of idx, where 'w = 'w]
  note ih = Suc.IH [of "idx + 1"]
  consider (zero) "value4 vec idx = BIT4_0" | (one) "value4 vec idx = BIT4_1" | (xz) "bit4_is_xz (value4 vec idx)"
    by (cases "value4 vec idx") (auto simp: bit4_is_xz_iff)
  then show ?case
  proof cases
    case zero
    then show ?thesis using ih [of res rc] reads_skip [of vec idx n res] unfolding unk to_value_loop.simps shift
      by (auto simp: bit4_is_xz_iff split: if_splits)
  next
    case one
    then show ?thesis using ih [of "res OR push_bit idx 1" rc] reads_set [of vec idx n res] unfolding unk to_value_loop.simps shift
      by (auto simp: bit4_is_xz_iff split: if_splits)
  next
    case xz
    have step: "to_value_loop vec ar (Suc n) idx res (push_bit idx 1) rc =
        (if ar then None else to_value_loop vec ar n (idx + 1) res (push_bit (idx + 1) 1) False)"
      using xz unfolding to_value_loop.simps shift by (auto simp: bit4_is_xz_iff)
    have "value4 vec idx \<noteq> BIT4_1" using xz by (auto simp: bit4_is_xz_iff)
    then show ?thesis using ih [of res False] reads_skip [of vec idx n res] xz unfolding unk step by (auto split: if_splits)
  qed
qed

lemma nth_value4: "j < size4 v \<Longrightarrow> bits4 v ! j = value4 v j"
  by (simp add: bits4_def)

lemma bit_uval4: "bit (uval4 v) j \<longleftrightarrow> j < size4 v \<and> one4 (value4 v j)"
  by (auto simp: uval4_def bit_ubits nth_value4)

lemma uval4_nonneg: "0 \<le> uval4 v"
  by (simp add: uval4_def)

lemma bit_sval4: "bit (sval4 v) j \<longleftrightarrow> 0 < size4 v \<and> one4 (value4 v (min j (size4 v - 1)))"
proof (cases "size4 v")
  case 0
  then show ?thesis by (simp add: sval4_def sbits_def bits4_def)
next
  case (Suc n)
  then have "map one4 (bits4 v) \<noteq> []" by (metis length_bits4 length_map list.size(3) nat.distinct(1))
  moreover from this have "last (map one4 (bits4 v)) = one4 (value4 v n)" using Suc by (simp add: last_conv_nth nth_value4)
  ultimately show ?thesis using bit_sbits [of "map one4 (bits4 v)" j] Suc
    by (auto simp: sval4_def nth_value4 min_def)
qed

lemma xz_low: "list_ex bit4_is_xz (take n (bits4 v)) \<longleftrightarrow> in_range (\<lambda>j. bit4_is_xz (value4 v j)) 0 (min n (size4 v))"
  by (auto simp: list_ex_length in_range_def nth_value4)

text \<open>
  The value is the signed or unsigned number modulo the native width, X and Z bits read as 0; such a bit in the
  part that is read clears the flag, or makes an arithmetic reading fail.
\<close>

lemma vector4_to_value_ok:
  fixes vec :: vvp_vector4_t and s ar :: bool
  defines "unknown \<equiv> list_ex bit4_is_xz (take LENGTH('w) (bits4 vec))"
  shows "vector4_to_value vec s ar =
    (if ar \<and> unknown then None else Some (word_of_int (if s then sval4 vec else uval4 vec) :: 'w::len word, \<not> unknown))"
proof -
  define n where "n = (if size4 vec > LENGTH('w) then LENGTH('w) else size4 vec)"
  have unk: "unknown \<longleftrightarrow> in_range (\<lambda>j. bit4_is_xz (value4 vec j)) 0 n"
    unfolding unknown_def xz_low by (simp add: n_def min_def)
  note loop = to_value_loop_ok [of ar vec 0 n "0 :: 'w word" True, folded unk]
  show ?thesis
  proof (cases "ar \<and> unknown")
    case True
    then show ?thesis using loop by (simp add: vector4_to_value_def Let_def n_def [symmetric])
  next
    case False
    then obtain r :: "'w word" where r: "to_value_loop vec ar n 0 0 1 True = Some (r, \<not> unknown)"
      "\<forall>j < LENGTH('w). bit r j = (j < n \<and> one4 (value4 vec j))"
      using loop by (auto simp: reads_def)
    define res where "res = (if s \<and> one4 (value4 vec (size4 vec - 1)) \<and> size4 vec < LENGTH('w)
      then r OR push_bit (size4 vec) (- 1) else r)"
    have empty: "size4 vec = 0 \<Longrightarrow> value4 vec j = BIT4_X" for j by (simp add: value4_def)
    have "res = word_of_int (if s then sval4 vec else uval4 vec)"
    proof (rule bit_word_eqI)
      fix j assume j: "j < LENGTH('w)"
      show "bit res j = bit (word_of_int (if s then sval4 vec else uval4 vec) :: 'w word) j"
        using j r(2) empty
        by (auto simp: res_def n_def bit_simps bit_word_of_int_iff bit_uval4 bit_sval4 min_def not_le split: if_splits)
    qed
    then show ?thesis using False r(1) by (auto simp: vector4_to_value_def Let_def n_def res_def)
  qed
qed

lemma to_value_ovf_loop_ok:
  fixes vec :: vvp_vector4_t and res :: "'w::len word"
  defines "unk \<equiv> in_range (\<lambda>j. bit4_is_xz (value4 vec j))"
    and "high \<equiv> in_range (\<lambda>j. LENGTH('w) \<le> j \<and> value4 vec j = BIT4_1)"
  shows "if unk idx n then to_value_ovf_loop vec n idx res (push_bit idx 1) ovf = None
    else \<exists>r. to_value_ovf_loop vec n idx res (push_bit idx 1) ovf = Some (ovf \<or> high idx n, r) \<and> reads vec idx n res r"
proof (induction n arbitrary: idx res ovf)
  case 0
  show ?case by (auto simp: unk_def high_def)
next
  case (Suc n)
  have unk: "unk idx (Suc n) \<longleftrightarrow> bit4_is_xz (value4 vec idx) \<or> unk (idx + 1) n"
    and high: "high idx (Suc n) \<longleftrightarrow> (LENGTH('w) \<le> idx \<and> value4 vec idx = BIT4_1) \<or> high (idx + 1) n"
    by (simp_all add: unk_def high_def in_range_Suc)
  have zero: "push_bit idx (1 :: 'w word) = 0 \<longleftrightarrow> LENGTH('w) \<le> idx"
    by (simp add: exp_eq_zero_iff)
  note shift = push_bit_one_next [of idx, where 'w = 'w]
  note ih = Suc.IH [of "idx + 1"]
  consider (zero) "value4 vec idx = BIT4_0" | (over) "value4 vec idx = BIT4_1" "LENGTH('w) \<le> idx"
    | (one) "value4 vec idx = BIT4_1" "\<not> LENGTH('w) \<le> idx" | (xz) "bit4_is_xz (value4 vec idx)"
    by (cases "value4 vec idx") (auto simp: bit4_is_xz_iff)
  then show ?case
  proof cases
    case zero
    then show ?thesis using ih [of res ovf] reads_skip [of vec idx n res]
      unfolding unk high to_value_ovf_loop.simps shift by (auto simp: bit4_is_xz_iff split: if_splits)
  next
    case over
    then show ?thesis using ih [of res True] reads_beyond [of idx vec n res] \<open>push_bit idx 1 = 0 \<longleftrightarrow> _\<close>
      unfolding unk high to_value_ovf_loop.simps shift by (auto simp: bit4_is_xz_iff split: if_splits)
  next
    case one
    then show ?thesis using ih [of "res OR push_bit idx 1" ovf] reads_set [of vec idx n res] \<open>push_bit idx 1 = 0 \<longleftrightarrow> _\<close>
      unfolding unk high to_value_ovf_loop.simps shift by (auto simp: bit4_is_xz_iff split: if_splits)
  next
    case xz
    then show ?thesis unfolding unk by (auto simp: bit4_is_xz_iff)
  qed
qed

lemma bits_above: "0 \<le> x \<Longrightarrow> (\<exists>j \<ge> n. bit (x :: int) j) \<longleftrightarrow> 2 ^ n \<le> x"
proof -
  assume x: "0 \<le> x"
  have "(\<exists>j \<ge> n. bit x j) \<longleftrightarrow> drop_bit n x \<noteq> 0"
    unfolding bit_eq_iff [of "drop_bit n x"] bit_drop_bit_eq by (auto dest: le_Suc_ex intro: le_add1)
  also have "\<dots> \<longleftrightarrow> 2 ^ n \<le> x" using x by (auto simp: drop_bit_eq_div zdiv_eq_0_iff)
  finally show ?thesis .
qed

lemma vector4_to_value_ovf_ok:
  "vector4_to_value_ovf vec = (if list_ex bit4_is_xz (bits4 vec) then None
     else Some (2 ^ LENGTH('w) \<le> uval4 vec, word_of_int (uval4 vec) :: 'w::len word))"
proof -
  have unk: "list_ex bit4_is_xz (bits4 vec) \<longleftrightarrow> in_range (\<lambda>j. bit4_is_xz (value4 vec j)) 0 (size4 vec)"
    by (auto simp: list_ex_length in_range_def nth_value4)
  note loop = to_value_ovf_loop_ok [of vec 0 "size4 vec" "0 :: 'w word" False, folded unk]
  show ?thesis
  proof (cases "list_ex bit4_is_xz (bits4 vec)")
    case True
    then show ?thesis using loop by (simp add: vector4_to_value_ovf_def)
  next
    case False
    then obtain r :: "'w word" where r: "to_value_ovf_loop vec (size4 vec) 0 0 1 False
        = Some (in_range (\<lambda>j. LENGTH('w) \<le> j \<and> one4 (value4 vec j)) 0 (size4 vec), r)"
      "\<forall>j < LENGTH('w). bit r j = (j < size4 vec \<and> one4 (value4 vec j))"
      using loop by (auto simp: reads_def)
    have "r = word_of_int (uval4 vec)" using r(2) by (intro bit_word_eqI) (simp add: bit_word_of_int_iff bit_uval4)
    moreover have "in_range (\<lambda>j. LENGTH('w) \<le> j \<and> one4 (value4 vec j)) 0 (size4 vec) \<longleftrightarrow> 2 ^ LENGTH('w) \<le> uval4 vec"
      using bits_above [OF uval4_nonneg, of "LENGTH('w)" vec] by (auto simp: bit_uval4 in_range_def)
    ultimately show ?thesis using r(1) False by (simp add: vector4_to_value_ovf_def)
  qed
qed

section \<open>The text form\<close>

lemma as_string_bits_ok:
  "as_string_bits v n idx b = map (\<lambda>k. vvp_bit4_to_ascii (value4 v (size4 v - (idx + k) - 1))) [0..<min n (unat b - 1)]"
proof (induction n arbitrary: idx b)
  case (Suc n)
  have asc: "(case x of BIT4_0 \<Rightarrow> CHR ''0'' | BIT4_1 \<Rightarrow> CHR ''1'' | BIT4_X \<Rightarrow> CHR ''x'' | BIT4_Z \<Rightarrow> CHR ''z'') = vvp_bit4_to_ascii x" for x
    by (cases x) (simp_all add: vvp_bit4_to_ascii_def)
  show ?case
  proof (cases "b \<ge> 2")
    case True
    then have u: "2 \<le> unat b" by (simp add: word_le_nat_alt)
    then have "unat (b - 1) = unat b - 1" by (subst unat_sub) (simp_all add: word_le_nat_alt)
    then have m: "min (Suc n) (unat b - 1) = Suc (min n (unat (b - 1) - 1))" using u by simp
    have "[0..<Suc k] = 0 # map Suc [0..<k]" for k using upt_conv_Cons [of 0 "Suc k"] map_Suc_upt [of 0 k] by simp
    then show ?thesis using True unfolding m by (simp only: as_string_bits.simps asc Suc.IH) (simp add: comp_def)
  next
    case False
    then have "unat b - 1 = 0" by (simp add: word_le_nat_alt)
    then show ?thesis using False by simp
  qed
qed simp

lemma as_string4_length:
  assumes "3 \<le> unat b"
  shows "length (as_string4 v b) = 5 + min (size4 v) (unat b - 4)"
proof -
  have "unat (b - 3) = unat b - 3" using assms by (subst unat_sub) (simp_all add: word_le_nat_alt)
  then show ?thesis by (simp add: as_string4_def as_string_bits_ok)
qed

lemma as_string4_text:
  assumes "size4 v + 4 \<le> unat b"
  shows "as_string4 v b = ''C4<'' @ map vvp_bit4_to_ascii (rev (bits4 v)) @ ''>'' @ [CHR 0x00]"
proof -
  have "unat (b - 3) = unat b - 3" using assms by (subst unat_sub) (simp_all add: word_le_nat_alt)
  then have "min (size4 v) (unat (b - 3) - 1) = size4 v" using assms by simp
  moreover have "map (\<lambda>k. vvp_bit4_to_ascii (value4 v (size4 v - k - 1))) [0..<size4 v] = map vvp_bit4_to_ascii (rev (bits4 v))"
    by (rule nth_equalityI) (simp_all add: rev_nth bits4_def)
  ultimately show ?thesis by (simp add: as_string4_def as_string_bits_ok)
qed

end
