(* ===== verification/Vvp_Props.thy ===== *)
theory Vvp_Props
  imports Vvp_Part Vvp_Value4
begin

text \<open>
  The properties of the simulator's four-state vectors, each stated over the definitions that model
  vvp_net.h and vvp_net.cc, with an instance on concrete vectors where a property has hypotheses.
\<close>

abbreviation ones :: "nat \<Rightarrow> vvp_vector4_t" where "ones n \<equiv> vector4_fill n BIT4_1"
abbreviation zeros :: "nat \<Rightarrow> vvp_vector4_t" where "zeros n \<equiv> vector4_fill n BIT4_0"
abbreviation exes :: "nat \<Rightarrow> vvp_vector4_t" where "exes n \<equiv> vector4_fill n BIT4_X"

lemma list_ex_replicate [simp]: "list_ex P (replicate n x) \<longleftrightarrow> 0 < n \<and> P x"
  by (auto simp: list_ex_iff)

section \<open>Bits and words\<close>

text \<open>
  The edge masks: a transition to a higher level is a positive edge, one to a lower level a negative edge,
  where X and Z are halfway between 0 and 1; a transition within a level is no edge.
\<close>

lemma edge_correct:
  "edge a b = sgn (bit4_level b - bit4_level a) \<and> edge b a = - edge a b"
  by (simp add: edge_level sgn_minus [symmetric] del: sgn_minus)

text \<open>
  Both double-word multipliers return the full product of two words, and agree.
\<close>

lemma multipliers_correct:
  "(case multiply_with_carry a b of (low, high) \<Rightarrow> unat low + 2 ^ 64 * unat high = unat a * unat b) \<and>
   multiply_long a b = multiply_with_carry a b"
proof -
  obtain l h where m: "multiply_with_carry a b = (l, h)" by fastforce
  obtain l' h' where n: "multiply_long a b = (l', h')" by fastforce
  note e = multiply_with_carry_ok [OF m] and e' = multiply_long_ok [OF n]
  have low: "unat x = (unat x + 2 ^ 64 * y) mod 2 ^ 64" for x :: ulong and y using unat_lt_64 [of x] by simp
  have "unat l = unat a * unat b mod 2 ^ 64" "unat l' = unat a * unat b mod 2 ^ 64"
    using low [of l "unat h"] low [of l' "unat h'"] unfolding e e' by simp_all
  moreover from this have "unat h = unat h'" using e e' by simp
  ultimately have "l = l'" "h = h'" by (simp_all add: word_unat_eq_iff)
  then show ?thesis using m n e by simp
qed

text \<open>
  Both carry chains over arrays of words add exactly: the sum and the carry out are the sum of the two
  numbers and the carry in, and the two adders agree.
\<close>

lemma carry_chains_correct:
  assumes "length xs = length ys" "uint c \<le> 1"
  shows "\<exists>zs c'. carry_run ul_add_with_carry xs ys c = (zs, c') \<and> carry_run add_carry xs ys c = (zs, c') \<and>
    length zs = length xs \<and> uint c' \<le> 1 \<and>
    wval zs + 2 ^ (64 * length xs) * uint c' = wval xs + wval ys + uint c"
proof -
  have adders: "add_carry a b k = ul_add_with_carry a b k" if k: "uint k \<le> 1" for a b k
  proof -
    obtain s d where s: "ul_add_with_carry a b k = (s, d)" by fastforce
    obtain s' d' where s': "add_carry a b k = (s', d')" by fastforce
    have eq: "uint s + 2 ^ 64 * uint d = uint s' + 2 ^ 64 * uint d'"
      using uw.adc_law [OF _ _ _ k s] uc.adc_law [OF _ _ _ k s'] by simp
    have carry: "y = (uint x + 2 ^ 64 * y) div 2 ^ 64" for x :: ulong and y using uint_lt_64 [of x] by simp
    have "uint d = uint d'" using carry [of "uint d" s] carry [of "uint d'" s'] eq by simp
    moreover from this have "uint s = uint s'" using eq by simp
    ultimately show ?thesis using s s' by (simp add: word_uint_eq_iff)
  qed
  have same: "carry_run add_carry xs ys c = carry_run ul_add_with_carry xs ys c"
    using assms
  proof (induction xs ys arbitrary: c rule: list_induct2)
    case (Cons x xs y ys)
    obtain s d where s: "ul_add_with_carry x y c = (s, d)" by fastforce
    then have "uint d \<le> 1" using uw.adc_law [OF _ _ _ Cons.prems s] by simp
    then show ?case using Cons s adders by simp
  qed simp
  obtain zs c' where z: "carry_run ul_add_with_carry xs ys c = (zs, c')" by fastforce
  have "uint c' \<le> 1" using uw.carry_run_law [OF assms(1) _ _ _ assms(2) z] by (simp add: list_all_iff)
  with z same show ?thesis using wval_carry_run [OF assms z] by simp
qed

lemma carry_chains_correct_witness:
  "\<exists>zs c'. carry_run ul_add_with_carry [- 1, 1] [1, 2] 0 = (zs, c') \<and> carry_run add_carry [- 1, 1] [1, 2] 0 = (zs, c') \<and>
    length zs = 2 \<and> wval zs + 2 ^ 128 * uint c' = 2 ^ 64 * 4"
  using carry_chains_correct [of "[- 1, 1]" "[1, 2]" 0] by (auto simp: uint_minus_1)

section \<open>Access\<close>

text \<open>
  C38. Bit access: \<open>set_bit\<close> changes exactly the addressed bit and keeps the representation well formed, an
  address outside the vector aborts, and reading beyond the end gives X.
\<close>

theorem bit_access_correct:
  assumes "wf4 v"
  shows "(idx < size4 v \<longrightarrow> (\<exists>u. set_bit4 v idx b = Some u \<and> wf4 u \<and> size4 u = size4 v \<and>
      (\<forall>i. value4 u i = (if i = idx then b else value4 v i)))) \<and>
    (size4 v \<le> idx \<longrightarrow> set_bit4 v idx b = None \<and> value4 v idx = BIT4_X)"
proof -
  have "\<exists>u. set_bit4 v idx b = Some u \<and> wf4 u \<and> size4 u = size4 v \<and> (\<forall>i. value4 u i = (if i = idx then b else value4 v i))"
    if idx: "idx < size4 v"
  proof -
    obtain u where u: "set_bit4 v idx b = Some u" "wf4 u" "size4 u = size4 v" "bits4 u = (bits4 v)[idx := b]"
      using set_bit4_ok [OF assms idx] by blast
    have "value4 u i = (if i = idx then b else value4 v i)" for i
    proof (cases "i < size4 v")
      case True
      then have "value4 u i = bits4 u ! i" "value4 v i = bits4 v ! i" using u(3) by (simp_all add: nth_value4)
      then show ?thesis using True u(4) by (simp add: nth_list_update)
    next
      case False
      then show ?thesis using idx u(3) by (simp add: value4_def)
    qed
    then show ?thesis using u by blast
  qed
  then show ?thesis using v4.set_abort [OF assms] by (simp add: value4_def)
qed

theorem bit_access_correct_witness:
  "\<exists>u. set_bit4 (zeros 100) 70 BIT4_Z = Some u \<and> value4 u 70 = BIT4_Z \<and> set_bit4 (zeros 100) 100 BIT4_Z = None"
  using bit_access_correct [of "zeros 100" 70 BIT4_Z] bit_access_correct [of "zeros 100" 100 BIT4_Z] by auto

text \<open>
  C6. Part select: bit \<open>i\<close> of \<open>subvalue(adr, wid)\<close> is bit \<open>adr + i\<close> of the vector, and X where the vector has no
  such bit, whether the words are long or short, aligned or not.
\<close>

theorem part_select_correct:
  assumes "wf4 v"
  shows "\<exists>u. subvalue v adr wid = Some u \<and> wf4 u \<and> size4 u = wid \<and>
    bits4 u = map (\<lambda>i. if adr + i < size4 v then bits4 v ! (adr + i) else BIT4_X) [0..<wid]"
proof -
  have "value4 v j = (if j < size4 v then bits4 v ! j else BIT4_X)" for j
    by (simp add: nth_value4) (simp add: value4_def)
  then show ?thesis using vector4_part_ok [OF assms, of adr wid] by (simp add: subvalue_def)
qed

theorem part_select_correct_witness:
  "\<exists>u. subvalue (ones 130) 60 71 = Some u \<and> bits4 u = replicate 70 BIT4_1 @ [BIT4_X]"
proof -
  have "map (\<lambda>i. if 60 + i < 130 then replicate 130 BIT4_1 ! (60 + i) else BIT4_X) [0..<71] = replicate 70 BIT4_1 @ [BIT4_X]"
    by (rule nth_equalityI) (auto simp: nth_append)
  then show ?thesis using part_select_correct [of "ones 130" 60 71] unfolding bits4_fill by auto
qed

text \<open>
  C5. \<open>set_vec\<close> overwrites exactly the addressed range, returns true iff that changed the vector, and the part
  select of the same range reads the written vector back. A range that does not fit aborts. Addresses and sizes are natural
  numbers whose sum is taken not to wrap: an \<open>adr\<close> so close to \<open>2\<^sup>3\<^sup>2\<close> that the 32-bit sum of the assertion wraps is not covered.
\<close>

theorem set_vec_correct:
  assumes "wf4 v" "wf4 w" "0 < size4 w"
  shows "if adr + size4 w \<le> size4 v
    then \<exists>u diff r. set_vec v adr w = Some (u, diff) \<and> wf4 u \<and> size4 u = size4 v \<and>
      bits4 u = take adr (bits4 v) @ bits4 w @ drop (adr + size4 w) (bits4 v) \<and> (diff \<longleftrightarrow> bits4 u \<noteq> bits4 v) \<and>
      subvalue u adr (size4 w) = Some r \<and> bits4 r = bits4 w
    else set_vec v adr w = None"
proof (cases "adr + size4 w \<le> size4 v")
  case True
  obtain u d where u: "set_vec v adr w = Some (u, d)" "wf4 u" "size4 u = size4 v"
    "bits4 u = take adr (bits4 v) @ bits4 w @ drop (adr + size4 w) (bits4 v)" "d \<longleftrightarrow> bits4 u \<noteq> bits4 v"
    using set_vec_ok [OF assms(1,2) True assms(3)] by blast
  obtain r where r: "subvalue u adr (size4 w) = Some r" "bits4 r = map (\<lambda>i. value4 u (adr + i)) [0..<size4 w]"
    using vector4_part_ok [OF u(2), of adr "size4 w"] by (auto simp: subvalue_def)
  have "bits4 r = bits4 w"
    unfolding r(2) using True u(3,4) by (intro nth_equalityI) (simp_all add: nth_value4 [symmetric] nth_append)
  then show ?thesis using True u r(1) by auto
next
  case False
  then show ?thesis by (simp add: set_vec_def)
qed

theorem set_vec_correct_witness:
  "\<exists>u. set_vec (zeros 130) 60 (ones 8) = Some (u, True) \<and> bits4 u = replicate 60 BIT4_0 @ replicate 8 BIT4_1 @ replicate 62 BIT4_0"
proof -
  have "replicate 60 BIT4_0 @ replicate 8 BIT4_1 @ replicate 62 BIT4_0 \<noteq> replicate 130 BIT4_0"
  proof
    assume "replicate 60 BIT4_0 @ replicate 8 BIT4_1 @ replicate 62 BIT4_0 = replicate 130 BIT4_0"
    from arg_cong [OF this, of "\<lambda>xs. xs ! 60"] show False by (simp add: nth_append)
  qed
  then show ?thesis using set_vec_correct [of "zeros 130" "ones 8" 60] by (auto simp: bits4_fill)
qed

text \<open>
  C29. Arrays of machine words: writing the low bits of an array into a range with \<open>setarray\<close> and reading the
  range with \<open>subarray\<close> gives the array back, and leaves the rest of the vector alone.
\<close>

theorem array_roundtrip:
  assumes "wf4 v" "adr + wid \<le> size4 v" "0 < wid" "length val = nwords wid"
    and "\<And>i. wid \<le> i \<Longrightarrow> i < 64 * length val \<Longrightarrow> \<not> wbit val i"
  shows "\<exists>u. setarray v adr wid val = Some u \<and> wf4 u \<and> subarray u adr wid xz = Some val \<and>
    take adr (bits4 u) = take adr (bits4 v) \<and> drop (adr + wid) (bits4 u) = drop (adr + wid) (bits4 v)"
proof -
  obtain u where u: "setarray v adr wid val = Some u" "wf4 u" "size4 u = size4 v"
    "bits4 u = take adr (bits4 v) @ map (\<lambda>i. if wbit val i then BIT4_1 else BIT4_0) [0..<wid] @ drop (adr + wid) (bits4 v)"
    using setarray_ok [OF assms(1-3)] by blast
  have bit: "bits4 u ! (adr + i) = (if wbit val i then BIT4_1 else BIT4_0)" if "i < wid" for i
    using that assms(2) u(4) by (simp add: nth_append)
  then have no: "\<not> (\<not> xz \<and> (\<exists>i < wid. bit4_is_xz (bits4 u ! (adr + i))))" by (auto simp: bit4_is_xz_iff)
  have fit: "adr + wid \<le> size4 u" using assms(2) u(3) by simp
  obtain val' where v': "subarray u adr wid xz = Some val'" "length val' = nwords wid"
    "\<forall>i < 64 * length val'. wbit val' i = (i < wid \<and> bits4 u ! (adr + i) = BIT4_1)"
    using subarray_ok [OF u(2) fit assms(3), of xz] unfolding if_not_P [OF no] by blast
  have w: "wbit val' i = wbit val i" if "i < 64 * length val" for i
    using that v'(2,3) assms(4,5) bit [of i] by (cases "i < wid") auto
  have "val' = val"
  proof (rule nth_equalityI)
    fix k assume "k < length val'"
    then have k: "k < length val" using v'(2) assms(4) by simp
    have "bit (val' ! k) j = bit (val ! k) j" if "j < 64" for j
      using w [of "64 * k + j"] that k by (simp add: wbit_word)
    then show "val' ! k = val ! k" by (simp add: word_eq_bits)
  qed (simp add: v'(2) assms(4))
  then show ?thesis using u v'(1) assms(2) by auto
qed

theorem array_roundtrip_witness:
  "\<exists>u. setarray (exes 80) 10 64 [5] = Some u \<and> subarray u 10 64 False = Some [5]"
  using array_roundtrip [of "exes 80" 10 64 "[5]" False] by (auto simp: nwords_def)

text \<open>
  \<open>subarray\<close> returns the null pointer exactly if the range has an X or a Z bit and the caller did not ask to
  read such bits as 0; otherwise the array holds the 1 bits of the range and zeros above it.
\<close>

theorem subarray_correct:
  assumes "wf4 v" "adr + wid \<le> size4 v" "0 < wid"
  shows "(subarray v adr wid xz_to_0 = None \<longleftrightarrow> \<not> xz_to_0 \<and> list_ex bit4_is_xz (take wid (drop adr (bits4 v)))) \<and>
    (\<forall>val. subarray v adr wid xz_to_0 = Some val \<longrightarrow>
       wval val = ubits (map (\<lambda>b. b = BIT4_1) (take wid (drop adr (bits4 v)))))"
proof -
  have ex: "list_ex bit4_is_xz (take wid (drop adr (bits4 v))) \<longleftrightarrow> (\<exists>i < wid. bit4_is_xz (bits4 v ! (adr + i)))"
    using assms(2) by (auto simp: list_ex_length)
  have "wval val = ubits (map (\<lambda>b. b = BIT4_1) (take wid (drop adr (bits4 v))))"
    if "length val = nwords wid" "\<forall>i < 64 * length val. wbit val i = (i < wid \<and> bits4 v ! (adr + i) = BIT4_1)" for val
  proof (rule bit_eqI)
    fix i
    have "wid \<le> 64 * nwords wid" by (rule nwords_ge)
    then show "bit (wval val) i = bit (ubits (map (\<lambda>b. b = BIT4_1) (take wid (drop adr (bits4 v))))) i"
      using that assms(2) by (auto simp: bit_wval bit_ubits)
  qed
  then show ?thesis using subarray_ok [OF assms, of xz_to_0] unfolding ex by (auto split: if_splits)
qed

theorem subarray_correct_witness:
  "subarray (exes 80) 10 64 False = None \<and> (\<exists>val. subarray (exes 80) 10 64 True = Some val)"
  using subarray_correct [of "exes 80" 10 64 False] subarray_correct [of "exes 80" 10 64 True]
  by (auto simp: bits4_fill bit4_is_xz_iff)

text \<open>
  \<open>mov\<close> copies a range within a vector, also onto an overlapping lower range, and keeps every other bit.
\<close>

theorem mov_correct:
  assumes "wf4 v" "src + cnt \<le> size4 v" "dst + cnt \<le> size4 v" "dst \<le> src \<or> src + cnt \<le> dst"
    and "0 < cnt" "size4 v \<le> 64 \<longrightarrow> cnt < 64"
  shows "\<exists>u. mov v dst src cnt = Some u \<and> wf4 u \<and> size4 u = size4 v \<and>
    bits4 u = take dst (bits4 v) @ take cnt (drop src (bits4 v)) @ drop (dst + cnt) (bits4 v)"
  using assms by (rule mov_ok)

theorem mov_correct_witness:
  "\<exists>u. mov (ones 200) 3 7 150 = Some u \<and> bits4 u = replicate 200 BIT4_1"
  using mov_correct [of "ones 200" 7 150 3] by (auto simp: bits4_fill simp flip: replicate_add)

text \<open>
  \<open>resize\<close> keeps the low bits and pads with the given bit, for every pair of old and new size.
\<close>

theorem resize_correct:
  assumes "wf4 v"
  shows "wf4 (resize v n b) \<and> size4 (resize v n b) = n \<and>
    bits4 (resize v n b) = take n (bits4 v) @ replicate (n - size4 v) b"
  using resize_ok [OF assms] by simp

theorem resize_correct_witness:
  "bits4 (resize (ones 3) 100 BIT4_Z) = replicate 3 BIT4_1 @ replicate 97 BIT4_Z"
  using resize_correct [of "ones 3" 100 BIT4_Z] by (simp add: bits4_fill)

lemma copy_bits_one_word:
  assumes "wf4 v" "64 < size4 v" "size4 w = 64" "i < 64"
  shows "value4 (copy_bits v w) i = mk_bit4 (abit4 (value4 v i) \<or> abit4 (value4 w i)) (bbit4 (value4 v i) \<or> bbit4 (value4 w i))"
proof -
  have len: "0 < length (abits4 v)" "0 < length (bbits4 v)"
    using wf4_long [OF assms(1,2)] assms(2) nwords_bound [of 0 "size4 v"] by simp_all
  then show ?thesis
    using assms(2-4) by (simp add: value4_wbit copy_bits_def copy_plane_def wbit_def bit_or_iff Let_def)
qed

text \<open>
  \<open>copy_bits\<close> copies the bits that both vectors have, except from a source of exactly one word into a longer
  vector: there it merges the planes of the two vectors instead of copying, so that for example a copied 0
  leaves a 1 in place.
\<close>

theorem copy_bits_correct:
  assumes "wf4 v" "wf4 w"
  shows "if size4 w = 64 \<and> 64 < size4 v
    then \<forall>i < 64. value4 (copy_bits v w) i = mk_bit4 (abit4 (value4 v i) \<or> abit4 (value4 w i)) (bbit4 (value4 v i) \<or> bbit4 (value4 w i))
    else wf4 (copy_bits v w) \<and> size4 (copy_bits v w) = size4 v \<and>
      bits4 (copy_bits v w) = take (size4 v) (bits4 w) @ drop (size4 w) (bits4 v)"
  using copy_bits_ok [OF assms] copy_bits_one_word [OF assms(1)] by auto

theorem copy_bits_correct_witness:
  "bits4 (copy_bits (zeros 70) (ones 3)) = replicate 3 BIT4_1 @ replicate 67 BIT4_0 \<and>
   value4 (copy_bits (ones 65) (zeros 64)) 0 = BIT4_1"
proof -
  have "value4 (copy_bits (ones 65) (zeros 64)) 0 = BIT4_1"
    using copy_bits_correct [of "ones 65" "zeros 64"] nth_value4 [of 0 "ones 65"] nth_value4 [of 0 "zeros 64"]
    by (simp add: bits4_fill abit4_def bbit4_def mk_bit4_def)
  then show ?thesis using copy_bits_correct [of "zeros 70" "ones 3"] by (simp add: bits4_fill)
qed

section \<open>Logic and comparison\<close>

text \<open>
  C39. The bitwise operators work bit by bit, with the truth tables of the standard: \<open>&=\<close>, \<open>|=\<close>, the complement in
  place and as a copy, and the replacement of Z by X.
\<close>

theorem bitwise_correct:
  assumes "wf4 v" "wf4 w" "size4 w = size4 v"
  shows "bits4 (and_assign v w) = map2 bit4_and (bits4 v) (bits4 w) \<and>
    bits4 (or_assign v w) = map2 bit4_or (bits4 v) (bits4 w) \<and>
    bits4 (invert v) = map bit4_not (bits4 v) \<and> bits4 (copy_inverted_from v) = map bit4_not (bits4 v) \<and>
    bits4 (change_z2x v) = map vvp_bit4_z2x (bits4 v) \<and> bits4 (fill_bits v b) = replicate (size4 v) b \<and>
    list_all wf4 [and_assign v w, or_assign v w, invert v, copy_inverted_from v, change_z2x v, fill_bits v b]"
  using and_assign_ok [OF assms(1,3)] or_assign_ok [OF assms(1,3)] invert_ok [OF assms(1)]
    copy_inverted_from_ok [OF assms(1)] change_z2x_ok [OF assms(1)] fill_bits_ok [OF assms(1)] by simp

theorem bitwise_correct_witness: "bits4 (and_assign (ones 100) (exes 100)) = replicate 100 BIT4_X"
  using bitwise_correct [of "ones 100" "exes 100" BIT4_0] by (simp add: bits4_fill zip_replicate bit4_and_table)

text \<open>
  The comparisons decide equality of the bit sequences whatever the unused bits of the last word hold:
  \<open>eeq\<close> exactly, \<open>eq_xz\<close> with X and Z identified, and \<open>has_xz\<close> finds an X or Z bit.
\<close>

theorem comparison_correct:
  assumes "wf4 v" "wf4 w"
  shows "(eeq v w \<longleftrightarrow> bits4 v = bits4 w) \<and>
    (eq_xz v w \<longleftrightarrow> map vvp_bit4_z2x (bits4 v) = map vvp_bit4_z2x (bits4 w)) \<and>
    (0 < size4 v \<longrightarrow> (has_xz v \<longleftrightarrow> list_ex bit4_is_xz (bits4 v)))"
  using eeq_iff eq_xz_iff [OF assms] has_xz_iff [of v] by blast

theorem comparison_correct_witness:
  "eq_xz (exes 70) (vector4_fill 70 BIT4_Z) \<and> \<not> eeq (exes 70) (vector4_fill 70 BIT4_Z) \<and> has_xz (exes 70)"
  using comparison_correct [of "exes 70" "vector4_fill 70 BIT4_Z"]
  by (simp add: bits4_fill vvp_bit4_z2x_table bit4_is_xz_iff)

section \<open>Arithmetic\<close>

text \<open>
  C4. \<open>add\<close>, \<open>sub\<close> and \<open>mul\<close> on vectors of the same size, of any number of words: if an operand has an X or Z
  bit, every bit of the result is X; otherwise the result is the sum, difference or product of the unsigned
  values modulo two to the size. Operands of different sizes abort.
\<close>

theorem arithmetic_correct:
  assumes "wf4 v" "wf4 w"
  shows "\<forall>(f, F) \<in> {(add4, (+)), (sub4, (-)), (mul4, (*))}.
    if size4 w = size4 v
    then \<exists>u. f v w = Some u \<and> wf4 u \<and> size4 u = size4 v \<and>
      (if list_ex bit4_is_xz (bits4 v @ bits4 w) then bits4 u = replicate (size4 v) BIT4_X
       else list_all (\<lambda>b. \<not> bit4_is_xz b) (bits4 u) \<and> uval4 u = F (uval4 v) (uval4 w) mod 2 ^ size4 v)
    else f v w = None"
proof -
  have res: "if list_ex bit4_is_xz (bits4 v @ bits4 w) then bits4 u = replicate (size4 v) BIT4_X
       else list_all (\<lambda>b. \<not> bit4_is_xz b) (bits4 u) \<and> uval4 u = F (uval4 v) (uval4 w) mod 2 ^ size4 v"
    if "bits4 u = arith_spec F v w" for u F
    using that uval4_num_bits [of u "size4 v"] unfolding arith_spec_def
    by (auto simp: take_bit_eq_mod num_bits4_def list_all_iff bit4_is_xz_iff split: if_splits)
  show ?thesis
  proof (cases "size4 w = size4 v")
    case True
    have op: "\<exists>u. x = Some u \<and> wf4 u \<and> size4 u = size4 v \<and>
      (if list_ex bit4_is_xz (bits4 v @ bits4 w) then bits4 u = replicate (size4 v) BIT4_X
       else list_all (\<lambda>b. \<not> bit4_is_xz b) (bits4 u) \<and> uval4 u = F (uval4 v) (uval4 w) mod 2 ^ size4 v)"
      if "\<exists>u. x = Some u \<and> wf4 u \<and> size4 u = size4 v \<and> bits4 u = arith_spec F v w" for x F
      using that res by blast
    show ?thesis
      using True op [OF add4_ok [OF assms True]] op [OF sub4_ok [OF assms True]] op [OF mul4_ok [OF assms True]] by simp
  next
    case False
    then show ?thesis by (simp add: add4_def sub4_def mul4_def)
  qed
qed

theorem arithmetic_correct_witness:
  "\<exists>u. mul4 (ones 70) (ones 70) = Some u \<and> uval4 u = (2 ^ 70 - 1) * (2 ^ 70 - 1) mod 2 ^ 70"
proof -
  have "uval4 (ones 70) = take_bit 70 (- 1)"
    unfolding uval4_def by (rule ubits_eqI) (simp_all add: bits4_fill)
  then have "uval4 (ones 70) = 2 ^ 70 - 1" by (simp add: take_bit_minus_one_eq_mask mask_eq_exp_minus_1)
  then show ?thesis using arithmetic_correct [of "ones 70" "ones 70"]
    by (auto simp: bits4_fill bit4_is_xz_iff split: if_splits)
qed

text \<open>
  Adding a signed integer in place: all X if the vector has an X or Z bit, otherwise the sum modulo two to the
  size; the early exits of the loop do not change the result.
\<close>

lemma add_int_correct:
  assumes "wf4 v" "0 < size4 v"
  shows "\<exists>u. add_int v x = Some u \<and> wf4 u \<and> size4 u = size4 v \<and>
    (if list_ex bit4_is_xz (bits4 v) then bits4 u = replicate (size4 v) BIT4_X else uval4 u = (uval4 v + x) mod 2 ^ size4 v)"
  using add_int_ok [OF assms, of x] uval4_num_bits [where n = "size4 v"] by (auto simp: take_bit_eq_mod split: if_splits)

lemma add_int_correct_witness:
  "\<exists>u. add_int (zeros 66) (- 1) = Some u \<and> uval4 u = 2 ^ 66 - 1"
proof -
  have "uval4 (zeros 66) = take_bit 66 0" unfolding uval4_def by (rule ubits_eqI) (simp_all add: bits4_fill)
  then show ?thesis using add_int_correct [of "zeros 66" "- 1"]
    by (auto simp: bits4_fill bit4_is_xz_iff zmod_minus1 split: if_splits)
qed

section \<open>Native values and text\<close>

text \<open>
  Reading a native integer of any width: an arithmetic reading fails exactly if an X or Z bit is in the part
  that is read; otherwise the value is the signed or unsigned value of the vector modulo the native width (X and
  Z as 0), and the flag says whether the part had no such bit. The reading with an overflow flag fails exactly on an
  X or Z bit anywhere, and sets the flag exactly if the value does not fit the native width.
\<close>

theorem to_value_correct:
  "(let unknown = list_ex bit4_is_xz (take LENGTH('w) (bits4 vec)) in
    vector4_to_value vec is_signed is_arithmetic =
     (if is_arithmetic \<and> unknown then None
      else Some (word_of_int (if is_signed then sval4 vec else uval4 vec) :: 'w::len word, \<not> unknown))) \<and>
   vector4_to_value_ovf vec = (if list_ex bit4_is_xz (bits4 vec) then None
     else Some (2 ^ LENGTH('w) \<le> uval4 vec, word_of_int (uval4 vec) :: 'w word))"
  unfolding Let_def by (rule conjI, rule vector4_to_value_ok, rule vector4_to_value_ovf_ok)

text \<open>
  The text form, and the number of bytes that it needs: with room for all bits the text is \<open>C4<...>\<close> with the
  most significant bit first. In a buffer that is too short for that, \<open>as_string\<close> writes one byte beyond
  its end.
\<close>

theorem as_string_bounds:
  assumes "5 \<le> unat buf_len"
  shows "(size4 v + 5 \<le> unat buf_len \<longrightarrow>
      as_string4 v buf_len = ''C4<'' @ map vvp_bit4_to_ascii (rev (bits4 v)) @ ''>'' @ [CHR 0x00] \<and>
      length (as_string4 v buf_len) \<le> unat buf_len) \<and>
    (unat buf_len < size4 v + 5 \<longrightarrow> length (as_string4 v buf_len) = unat buf_len + 1)"
  using as_string4_text [of v buf_len] as_string4_length [of buf_len v] assms by auto

theorem as_string_bounds_witness: "length (as_string4 (ones 40) 16) = 17"
  using as_string_bounds [of 16 "ones 40"] by simp

end
