(* ===== verification/Vvp_Vector2.thy ===== *)
theory Vvp_Vector2
  imports Vvp_Range Vvp_Value4
begin

text \<open>
  The two-state vectors \<open>vvp_vector2_t\<close> (vvp/vvp_net.h, vvp/vvp_net.cc): construction, bit access, conversion from
  and to four-state vectors, comparison, shifts, addition, subtraction, negation and multiplication. The bits of
  the last word above the width are kept clear by some operations only, and the comparisons read them: \<open>clean2\<close>
  says that they are clear.
\<close>

section \<open>Definitions\<close>

text \<open>The width and the words behind \<open>vec_\<close>; a width of 0 stands for NaN.\<close>

record vvp_vector2_t =
  wid2 :: nat
  vec2 :: "ulong list"

text \<open>The value constructor stores the first word also if the width is 0, beyond its empty array.\<close>

definition vector2_ulong :: "ulong \<Rightarrow> nat \<Rightarrow> vvp_vector2_t option" where
  "vector2_ulong v wid =
     (let words = (wid + BITS_PER_WORD - 1) div BITS_PER_WORD
      in if words = 0 then None else Some \<lparr>wid2 = wid, vec2 = v # replicate (words - 1) 0\<rparr>)"

definition vector2_fill :: "bool \<Rightarrow> nat \<Rightarrow> vvp_vector2_t" where
  "vector2_fill fill wid =
     (let words = (wid + BITS_PER_WORD - 1) div BITS_PER_WORD
      in \<lparr>wid2 = wid, vec2 = replicate words (if fill then - 1 else 0)\<rparr>)"

definition vector2_resize :: "vvp_vector2_t \<Rightarrow> nat \<Rightarrow> vvp_vector2_t" where
  "vector2_resize that newsize =
     (if newsize = 0 then \<lparr>wid2 = 0, vec2 = []\<rparr>
      else let words = (newsize + BITS_PER_WORD - 1) div BITS_PER_WORD;
               twords = (wid2 that + BITS_PER_WORD - 1) div BITS_PER_WORD
           in \<lparr>wid2 = newsize, vec2 = map (\<lambda>idx. if idx < twords then vec2 that ! idx else 0) [0..<words]\<rparr>)"

text \<open>From a four-state vector, with X and Z read as 0, or as NaN if the flag says so.\<close>

definition copy_from_that :: "vvp_vector4_t \<Rightarrow> vvp_vector2_t option" where
  "copy_from_that that =
     (let words = (size4 that + BITS_PER_WORD - 1) div BITS_PER_WORD
      in if words = 0 then Some \<lparr>wid2 = 0, vec2 = []\<rparr>
         else do { v \<leftarrow> subarray that 0 (size4 that) True; Some \<lparr>wid2 = size4 that, vec2 = v\<rparr> })"

definition vector2_of4 :: "vvp_vector4_t \<Rightarrow> bool \<Rightarrow> vvp_vector2_t option" where
  "vector2_of4 that enable_NaN =
     (if enable_NaN \<and> has_xz that then Some \<lparr>wid2 = 0, vec2 = []\<rparr> else copy_from_that that)"

definition value2 :: "vvp_vector2_t \<Rightarrow> nat \<Rightarrow> int" where
  "value2 v idx =
     (if idx \<ge> wid2 v then 0
      else let addr = idx div BITS_PER_WORD; msk = idx mod BITS_PER_WORD
           in if vec2 v ! addr AND ul_shl 1 msk \<noteq> 0 then 1 else 0)"

text \<open>
  The part select constructor ORs the selected bits into its new array, whose contents \<open>mem\<close> C++ leaves
  unspecified; \<open>subvalue\<close> calls it.
\<close>

definition vector2_part :: "ulong list \<Rightarrow> vvp_vector2_t \<Rightarrow> nat \<Rightarrow> nat \<Rightarrow> vvp_vector2_t" where
  "vector2_part mem that base wid =
     \<lparr>wid2 = wid,
      vec2 = fold (\<lambda>idx vec.
                if value2 that (base + idx) = 0 then vec
                else let word = idx div BITS_PER_WORD; msk = ul_shl 1 (idx mod BITS_PER_WORD)
                     in vec[word := vec ! word OR msk]) [0..<wid] mem\<rparr>"

definition set_bit2 :: "vvp_vector2_t \<Rightarrow> nat \<Rightarrow> int \<Rightarrow> vvp_vector2_t option" where
  "set_bit2 v idx b =
     (if idx < wid2 v
      then let addr = idx div BITS_PER_WORD; msk = idx mod BITS_PER_WORD
           in Some (v\<lparr>vec2 := (vec2 v)[addr := (if b \<noteq> 0 then vec2 v ! addr OR ul_shl 1 msk
                                                else vec2 v ! addr AND NOT (ul_shl 1 msk))]\<rparr>)
      else None)"

definition set_vec2 :: "vvp_vector2_t \<Rightarrow> nat \<Rightarrow> vvp_vector2_t \<Rightarrow> vvp_vector2_t option" where
  "set_vec2 v adr that =
     (if adr + wid2 that \<le> wid2 v then set_loop set_bit2 adr (value2 that) (wid2 that) v else None)"

definition is_NaN :: "vvp_vector2_t \<Rightarrow> bool" where
  "is_NaN v \<longleftrightarrow> wid2 v = 0"

definition is_zero2 :: "vvp_vector2_t \<Rightarrow> bool" where
  "is_zero2 v \<longleftrightarrow> list_all (\<lambda>idx. vec2 v ! idx = 0) [0..<(wid2 v + BITS_PER_WORD - 1) div BITS_PER_WORD]"

text \<open>\<open>trim\<close> reads \<open>value(wid_-1)\<close> before it tests the width: at width 0 that index wraps and reads 0.\<close>

definition trim2 :: "vvp_vector2_t \<Rightarrow> vvp_vector2_t" where
  "trim2 v = v\<lparr>wid2 := scan_down (\<lambda>n. value2 v (n - 1) = 0 \<and> n > 1) (wid2 v)\<rparr>"

definition trim_neg2 :: "vvp_vector2_t \<Rightarrow> vvp_vector2_t" where
  "trim_neg2 v =
     (if value2 v (wid2 v - 1) = 1 \<and> wid2 v > 32
      then v\<lparr>wid2 := scan_down (\<lambda>n. value2 v (n - 2) = 1 \<and> n > 32) (wid2 v)\<rparr>
      else v)"

definition vector2_to_vector4 :: "vvp_vector2_t \<Rightarrow> nat \<Rightarrow> vvp_vector4_t option" where
  "vector2_to_vector4 that wid =
     set_loop set_bit4 0 (\<lambda>idx. if value2 that idx \<noteq> 0 then BIT4_1 else BIT4_0) wid (vector4_fill wid BIT4_X)"

subsection \<open>Comparison\<close>

text \<open>
  The comparisons walk down from the most significant word, a missing word read as 0; the result is the sign of
  the first difference.
\<close>

fun cmp_words :: "(nat \<Rightarrow> ulong) \<Rightarrow> (nat \<Rightarrow> ulong) \<Rightarrow> nat \<Rightarrow> int" where
  "cmp_words aw bw 0 = 0"
| "cmp_words aw bw (Suc idx) = (if aw idx > bw idx then 1 else if aw idx < bw idx then - 1 else cmp_words aw bw idx)"

definition cmp2 :: "vvp_vector2_t \<Rightarrow> vvp_vector2_t \<Rightarrow> int" where
  "cmp2 a b =
     (let awords = (wid2 a + BITS_PER_WORD - 1) div BITS_PER_WORD;
          bwords = (wid2 b + BITS_PER_WORD - 1) div BITS_PER_WORD
      in cmp_words (\<lambda>idx. if idx < awords then vec2 a ! idx else 0)
           (\<lambda>idx. if idx < bwords then vec2 b ! idx else 0) (if awords > bwords then awords else bwords))"

definition gt2 :: "vvp_vector2_t \<Rightarrow> vvp_vector2_t \<Rightarrow> bool" where "gt2 a b \<longleftrightarrow> cmp2 a b = 1"
definition ge2 :: "vvp_vector2_t \<Rightarrow> vvp_vector2_t \<Rightarrow> bool" where "ge2 a b \<longleftrightarrow> cmp2 a b \<noteq> - 1"
definition lt2 :: "vvp_vector2_t \<Rightarrow> vvp_vector2_t \<Rightarrow> bool" where "lt2 a b \<longleftrightarrow> cmp2 a b = - 1"
definition eq2 :: "vvp_vector2_t \<Rightarrow> vvp_vector2_t \<Rightarrow> bool" where "eq2 a b \<longleftrightarrow> cmp2 a b = 0"

text \<open>\<open>operator <=\<close> supports only vectors of the same width.\<close>

definition le2 :: "vvp_vector2_t \<Rightarrow> vvp_vector2_t \<Rightarrow> bool option" where
  "le2 a b = (if wid2 a = wid2 b then Some (cmp2 a b \<noteq> 1) else None)"

subsection \<open>Shifts\<close>

definition shl2 :: "vvp_vector2_t \<Rightarrow> nat \<Rightarrow> vvp_vector2_t" where
  "shl2 v shift =
     (if wid2 v = 0 then v
      else let words = (wid2 v + BITS_PER_WORD - 1) div BITS_PER_WORD;
               wshift = shift div BITS_PER_WORD;
               oshift = shift mod BITS_PER_WORD
           in if wshift \<ge> words then v\<lparr>vec2 := replicate words 0\<rparr>
              else let vec = (if wshift > 0
                     then fold (\<lambda>idx vec. vec[idx := 0]) [0..<wshift]
                            (fold (\<lambda>idx vec. vec[words - idx - 1 := vec ! (words - idx - 1 - wshift)]) [0..<words - wshift] (vec2 v))
                     else vec2 v)
                   in if oshift \<noteq> 0
                      then let (vec, pad) = fold (\<lambda>idx (vec, pad).
                                 let next_pad = ul_shr (vec ! idx) (BITS_PER_WORD - oshift)
                                 in (vec[idx := ul_shl (vec ! idx) oshift OR pad], next_pad)) [0..<words] (vec, 0);
                               msk = ul_shr (- 1) (BITS_PER_WORD - wid2 v mod BITS_PER_WORD)
                           in v\<lparr>vec2 := vec[words - 1 := vec ! (words - 1) AND msk]\<rparr>
                      else v\<lparr>vec2 := vec\<rparr>)"

text \<open>
  The end of \<open>operator >>=\<close> clears the bits that were shifted in; its loop over whole words, whose count is below
  two words, is written out as the recursion on \<open>mask_shift\<close>.
\<close>

function shr2_tail :: "nat \<Rightarrow> nat \<Rightarrow> ulong list \<Rightarrow> ulong list option" where
  "shr2_tail mask_shift use_words vec =
     (if mask_shift \<ge> BITS_PER_WORD
      then if use_words = 0 then None
           else shr2_tail (mask_shift - BITS_PER_WORD) (use_words - 1) (vec[use_words - 1 := 0])
      else if mask_shift > 0
        then if use_words > 0
             then Some (vec[use_words - 1 := vec ! (use_words - 1) AND ul_shr (- 1) mask_shift])
             else None
      else Some vec)"
  by pat_completeness auto
termination by (relation "measure (\<lambda>(m, _, _). m)") auto

declare shr2_tail.simps [simp del]

definition shr2 :: "vvp_vector2_t \<Rightarrow> nat \<Rightarrow> vvp_vector2_t option" where
  "shr2 v shift =
     (if wid2 v = 0 then Some v
      else let words = (wid2 v + BITS_PER_WORD - 1) div BITS_PER_WORD;
               wshift = shift div BITS_PER_WORD;
               oshift = shift mod BITS_PER_WORD
           in if wshift \<ge> words then Some (v\<lparr>vec2 := replicate words 0\<rparr>)
              else let vec = (if wshift > 0
                     then fold (\<lambda>idx vec. vec[idx := 0]) [words - wshift..<words]
                            (fold (\<lambda>idx vec. vec[idx := vec ! (idx + wshift)]) [0..<words - wshift] (vec2 v))
                     else vec2 v)
                   in if oshift > 0
                      then let (vec, pad) = fold (\<lambda>idx (vec, pad).
                                 let new_pad = ul_shl (vec ! idx) (BITS_PER_WORD - oshift)
                                 in (vec[idx := pad OR ul_shr (vec ! idx) oshift], new_pad)) (rev [0..<words]) (vec, 0)
                           in do { vec \<leftarrow> shr2_tail ((BITS_PER_WORD - wid2 v mod BITS_PER_WORD) mod BITS_PER_WORD + oshift) words vec;
                                   Some (v\<lparr>vec2 := vec\<rparr>) }
                      else Some (v\<lparr>vec2 := vec\<rparr>))"

subsection \<open>Arithmetic\<close>

definition add_assign2 :: "vvp_vector2_t \<Rightarrow> vvp_vector2_t \<Rightarrow> vvp_vector2_t option" where
  "add_assign2 v that =
     (if wid2 v \<noteq> wid2 that then None
      else if wid2 v = 0 then Some v
      else let words = (wid2 v + BITS_PER_WORD - 1) div BITS_PER_WORD;
               (vec, carry) = carry_run add_carry (vec2 v) (vec2 that) 0;
               msk = ul_shr (- 1) (BITS_PER_WORD - wid2 v mod BITS_PER_WORD)
           in Some (v\<lparr>vec2 := vec[words - 1 := vec ! (words - 1) AND msk]\<rparr>))"

definition sub_assign2 :: "vvp_vector2_t \<Rightarrow> vvp_vector2_t \<Rightarrow> vvp_vector2_t option" where
  "sub_assign2 v that =
     (if wid2 v \<noteq> wid2 that then None
      else if wid2 v = 0 then Some v
      else let (vec, carry) = carry_run add_carry (vec2 v) (map NOT (vec2 that)) 1
           in Some (v\<lparr>vec2 := vec\<rparr>))"

definition neg2 :: "vvp_vector2_t \<Rightarrow> vvp_vector2_t option" where
  "neg2 that =
     (if wid2 that = 0 then Some that
      else do { one \<leftarrow> vector2_ulong 1 (wid2 that);
                add_assign2 (that\<lparr>vec2 := map NOT (vec2 that)\<rparr>) one })"

text \<open>The loop that adds one double-word product, starting at word \<open>base\<close>.\<close>

definition mul2_ripple :: "nat \<Rightarrow> nat \<Rightarrow> ulong \<Rightarrow> ulong \<Rightarrow> ulong \<Rightarrow> ulong list \<Rightarrow> ulong list" where
  "mul2_ripple words base low hig carry r =
     fst (fold (\<lambda>k (r, low, hig, carry).
            let (x, carry) = add_carry (r ! k) low carry in (r[k := x], hig, 0, carry))
          [base..<words] (r, low, hig, carry))"

definition mul2_step :: "nat \<Rightarrow> nat \<Rightarrow> ulong \<Rightarrow> ulong \<Rightarrow> ulong list \<Rightarrow> ulong list" where
  "mul2_step words base tmpa tmpb r =
     (if tmpa = 0 then r
      else let (low, hig) = multiply_long tmpa tmpb in mul2_ripple words base low hig 0 r)"

definition mul2 :: "vvp_vector2_t \<Rightarrow> vvp_vector2_t \<Rightarrow> vvp_vector2_t option" where
  "mul2 a b =
     (if wid2 a \<noteq> wid2 b then None
      else do {
        r \<leftarrow> vector2_ulong 0 (wid2 a);
        let words = (wid2 r + BITS_PER_WORD - 1) div BITS_PER_WORD;
        Some (r\<lparr>vec2 := fold (\<lambda>bdx r.
                let tmpb = vec2 b ! bdx
                in if tmpb = 0 then r
                   else fold (\<lambda>adx. mul2_step words (adx + bdx) (vec2 a ! adx) tmpb) [0..<words] r)
              [0..<words] (vec2 r)\<rparr>) })"

section \<open>Abstraction\<close>

definition wf2 :: "vvp_vector2_t \<Rightarrow> bool" where
  "wf2 v \<longleftrightarrow> length (vec2 v) = nwords (wid2 v)"

definition bits2 :: "vvp_vector2_t \<Rightarrow> bool list" where
  "bits2 v = map (wbit (vec2 v)) [0..<wid2 v]"

definition uval2 :: "vvp_vector2_t \<Rightarrow> int" where
  "uval2 v = take_bit (wid2 v) (wval (vec2 v))"

definition clean2 :: "vvp_vector2_t \<Rightarrow> bool" where
  "clean2 v \<longleftrightarrow> wval (vec2 v) < 2 ^ wid2 v"

lemma length_bits2 [simp]: "length (bits2 v) = wid2 v"
  by (simp add: bits2_def)

lemma uval2_bits: "wf2 v \<Longrightarrow> uval2 v = ubits (bits2 v)"
  unfolding uval2_def bits2_def wf2_def using nwords_ge [of "wid2 v"] by (simp add: ubits_wbits)

lemma uval2_clean: "clean2 v \<Longrightarrow> uval2 v = wval (vec2 v)"
  by (simp add: clean2_def uval2_def take_bit_int_eq_self)

lemma clean2_iff: "wf2 v \<Longrightarrow> clean2 v \<longleftrightarrow> (\<forall>i. wid2 v \<le> i \<and> i < 64 * length (vec2 v) \<longrightarrow> \<not> wbit (vec2 v) i)"
proof -
  assume "wf2 v"
  have "clean2 v \<longleftrightarrow> \<not> (\<exists>j \<ge> wid2 v. bit (wval (vec2 v)) j)"
    by (simp add: clean2_def bits_above not_le)
  then show ?thesis by (auto simp: bit_wval)
qed

lemma value2_bit: "idx < wid2 v \<Longrightarrow> value2 v idx = of_bool (bits2 v ! idx)"
proof -
  assume idx: "idx < wid2 v"
  have "(w :: ulong) AND ul_shl 1 k \<noteq> 0 \<longleftrightarrow> bit w k" if "k < 64" for w k
    using that by (auto simp: word_zero_iff bit_simps bit_ul_shl intro!: exI [of _ k])
  then show ?thesis using idx by (simp add: value2_def bits2_def wbit_def)
qed

lemma set_bit2_ok:
  assumes "wf2 v" "idx < wid2 v"
  shows "\<exists>u. set_bit2 v idx b = Some u \<and> wf2 u \<and> wid2 u = wid2 v \<and> bits2 u = (bits2 v)[idx := (b \<noteq> 0)]"
proof -
  define u where "u = v\<lparr>vec2 := (vec2 v)[idx div 64 := (if b \<noteq> 0 then vec2 v ! (idx div 64) OR ul_shl 1 (idx mod 64)
    else vec2 v ! (idx div 64) AND NOT (ul_shl 1 (idx mod 64)))]\<rparr>"
  have k: "idx div 64 < length (vec2 v)" using assms nwords_bound by (simp add: wf2_def)
  have same: "i div 64 = idx div 64 \<and> i mod 64 = idx mod 64 \<longleftrightarrow> i = idx" for i by (metis div_mod_decomp)
  have word: "bit (if b \<noteq> 0 then w OR ul_shl 1 (idx mod 64) else w AND NOT (ul_shl 1 (idx mod 64))) j
      = (if j = idx mod 64 then b \<noteq> 0 else bit w j)" for w j
    by (auto simp: bit_simps bit_ul_shl dest: bit_imp_le_length)
  have "wbit (vec2 u) i = (if i = idx then b \<noteq> 0 else wbit (vec2 v) i)" for i
    unfolding u_def using k same [of i] by (simp add: wbit_update word) (auto simp: wbit_def)
  then have "bits2 u = (bits2 v)[idx := (b \<noteq> 0)]"
    using assms(2) by (intro nth_equalityI) (auto simp: bits2_def u_def nth_list_update)
  then show ?thesis using assms by (simp add: set_bit2_def u_def wf2_def Let_def)
qed

text \<open>The same interface as the four-state vectors and the compiler's numbers.\<close>

interpretation v2: bit_vector wid2 "\<lambda>v i b. set_bit2 v i (of_bool b)" bits2 wf2
proof
  fix v i b assume "wf2 v" "i < wid2 v"
  from set_bit2_ok [OF this, of "of_bool b"]
  show "\<exists>u. set_bit2 v i (of_bool b) = Some u \<and> wf2 u \<and> wid2 u = wid2 v \<and> bits2 u = (bits2 v)[i := b]" by simp
qed (simp_all add: set_bit2_def)

section \<open>Bit vectors and conversions\<close>

lemma nwords_0 [simp]: "nwords 0 = 0"
  by (simp add: nwords_def del: nwords_fold)

lemma set_loop_cong:
  "(\<And>i v. i < n \<Longrightarrow> upd v (off + i) (f i) = upd' v (off + i) (f' i)) \<Longrightarrow> set_loop upd off f n v = set_loop upd' off f' n v"
  by (induction n) simp_all

lemma set_vec2_ok:
  assumes "wf2 v" "wf2 w" "adr + wid2 w \<le> wid2 v"
  shows "\<exists>u. set_vec2 v adr w = Some u \<and> wf2 u \<and> wid2 u = wid2 v \<and>
    bits2 u = take adr (bits2 v) @ bits2 w @ drop (adr + wid2 w) (bits2 v)"
proof -
  have "set_loop set_bit2 adr (value2 w) (wid2 w) v
      = set_loop (\<lambda>v i b. set_bit2 v i (of_bool b)) adr (\<lambda>i. bits2 w ! i) (wid2 w) v"
    by (rule set_loop_cong) (simp add: value2_bit)
  moreover have "map (\<lambda>i. bits2 w ! i) [0..<wid2 w] = bits2 w" by (metis length_bits2 map_nth)
  ultimately show ?thesis using v2.set_loop_ok [OF assms(1,3), of "\<lambda>i. bits2 w ! i"] assms(3) by (simp add: set_vec2_def)
qed

lemma vector2_fill_ok [simp]: "wf2 (vector2_fill b n)" "wid2 (vector2_fill b n) = n" "bits2 (vector2_fill b n) = replicate n b"
proof -
  show "wf2 (vector2_fill b n)" "wid2 (vector2_fill b n) = n" by (simp_all add: vector2_fill_def wf2_def Let_def)
  have "wbit (replicate (nwords n) (if b then - 1 else 0)) i = b" if "i < n" for i
    using that nwords_ge [of n] by (simp add: wbit_replicate)
  then show "bits2 (vector2_fill b n) = replicate n b"
    by (intro nth_equalityI) (simp_all add: bits2_def vector2_fill_def Let_def)
qed

lemma vector2_ulong_ok:
  assumes "0 < n"
  shows "\<exists>u. vector2_ulong x n = Some u \<and> wf2 u \<and> wid2 u = n \<and> wval (vec2 u) = uint x \<and> (uint x < 2 ^ n \<longrightarrow> clean2 u)"
proof -
  have nw: "0 < nwords n" using assms nwords_bound [of 0 n] by simp
  have "wval (replicate m 0) = 0" for m by (induction m) simp_all
  then show ?thesis using nw by (simp add: vector2_ulong_def Let_def wf2_def clean2_def)
qed

lemma vector2_resize_ok:
  assumes "wf2 v" "wid2 v \<le> n"
  shows "wf2 (vector2_resize v n)" "wid2 (vector2_resize v n) = n" "wval (vec2 (vector2_resize v n)) = wval (vec2 v)"
proof -
  have len: "length (vec2 v) = nwords (wid2 v)" using assms(1) by (simp add: wf2_def)
  have le: "nwords (wid2 v) \<le> nwords n" using assms(2) by (rule nwords_mono)
  show "wf2 (vector2_resize v n)" "wid2 (vector2_resize v n) = n" by (simp_all add: vector2_resize_def wf2_def Let_def)
  have "map (\<lambda>idx. if idx < nwords (wid2 v) then vec2 v ! idx else 0) [0..<nwords n]
      = vec2 v @ replicate (nwords n - nwords (wid2 v)) 0"
    using len le by (intro nth_equalityI) (auto simp: nth_append)
  moreover have "wval (replicate m 0) = 0" for m by (induction m) simp_all
  moreover have "n = 0 \<Longrightarrow> vec2 v = []" using len assms(2) by simp
  ultimately show "wval (vec2 (vector2_resize v n)) = wval (vec2 v)"
    by (simp add: vector2_resize_def Let_def wval_append)
qed

text \<open>The part select is right if the new array happens to be clear; otherwise its old contents show through.\<close>

lemma vector2_part_ok:
  assumes "length mem = nwords wid"
  shows "wf2 (vector2_part mem that base wid) \<and>
    bits2 (vector2_part mem that base wid) = map (\<lambda>i. wbit mem i \<or> value2 that (base + i) \<noteq> 0) [0..<wid]"
proof -
  define f where "f = (\<lambda>idx vec. if value2 that (base + idx) = 0 then vec
    else vec[idx div 64 := vec ! (idx div 64) OR ul_shl 1 (idx mod 64)])"
  have "length (fold f [0..<n] mem) = length mem \<and>
    (\<forall>i < wid. wbit (fold f [0..<n] mem) i \<longleftrightarrow> wbit mem i \<or> i < n \<and> value2 that (base + i) \<noteq> 0)" if "n \<le> wid" for n
    using that
  proof (induction n)
    case (Suc n)
    define v where "v = fold f [0..<n] mem"
    have v: "length v = length mem" "\<forall>i < wid. wbit v i \<longleftrightarrow> wbit mem i \<or> i < n \<and> value2 that (base + i) \<noteq> 0"
      using Suc by (simp_all add: v_def)
    have k: "n div 64 < length v" using Suc.prems assms v(1) nwords_bound [of n wid] by simp
    have "wbit (v[n div 64 := v ! (n div 64) OR ul_shl 1 (n mod 64)]) i \<longleftrightarrow> wbit v i \<or> i = n" for i
    proof -
      have "i div 64 = n div 64 \<and> i mod 64 = n mod 64 \<longleftrightarrow> i = n" by (metis div_mod_decomp)
      then show ?thesis using k by (simp add: wbit_update bit_or_iff bit_ul_shl bit_1_iff) (auto simp: wbit_def)
    qed
    moreover have "fold f [0..<Suc n] mem = f n v" by (simp add: v_def)
    ultimately show ?case using v by (auto simp: f_def less_Suc_eq)
  qed simp
  from this [of wid] have "length (fold f [0..<wid] mem) = nwords wid"
    "\<forall>i < wid. wbit (fold f [0..<wid] mem) i \<longleftrightarrow> wbit mem i \<or> value2 that (base + i) \<noteq> 0" using assms by simp_all
  moreover have "vector2_part mem that base wid = \<lparr>wid2 = wid, vec2 = fold f [0..<wid] mem\<rparr>"
    unfolding vector2_part_def f_def Let_def ..
  ultimately show ?thesis by (auto simp: wf2_def bits2_def)
qed

text \<open>From and to four-state vectors.\<close>

lemma copy_from_that_ok:
  assumes "wf4 v"
  shows "\<exists>u. copy_from_that v = Some u \<and> wf2 u \<and> clean2 u \<and> wid2 u = size4 v \<and> bits2 u = map (\<lambda>b. b = BIT4_1) (bits4 v)"
proof (cases "size4 v = 0")
  case True
  then show ?thesis by (simp add: copy_from_that_def wf2_def clean2_def bits2_def bits4_def)
next
  case False
  then have pos: "0 + size4 v \<le> size4 v" "0 < size4 v" by simp_all
  have nw: "nwords (size4 v) \<noteq> 0" using nwords_bound [of 0 "size4 v"] False by simp
  obtain val where val: "subarray v 0 (size4 v) True = Some val" "length val = nwords (size4 v)"
    "\<forall>i < 64 * length val. wbit val i = (i < size4 v \<and> bits4 v ! i = BIT4_1)"
    using subarray_ok [OF assms pos, of True] by auto
  define u where "u = \<lparr>wid2 = size4 v, vec2 = val\<rparr>"
  have wf: "wf2 u" using val(2) by (simp add: u_def wf2_def)
  have "clean2 u" unfolding clean2_iff [OF wf] using val(3) by (auto simp: u_def)
  moreover have "bits2 u = map (\<lambda>b. b = BIT4_1) (bits4 v)"
    using val(2,3) nwords_ge [of "size4 v"] by (intro nth_equalityI) (auto simp: bits2_def u_def)
  ultimately show ?thesis using val(1) nw wf by (simp add: copy_from_that_def Let_def u_def)
qed

lemma vector2_to_vector4_ok:
  "\<exists>u. vector2_to_vector4 v n = Some u \<and> wf4 u \<and> size4 u = n \<and>
    bits4 u = map (\<lambda>i. if i < wid2 v \<and> bits2 v ! i then BIT4_1 else BIT4_0) [0..<n]"
proof -
  have "(if value2 v i \<noteq> 0 then BIT4_1 else BIT4_0) = (if i < wid2 v \<and> bits2 v ! i then BIT4_1 else BIT4_0)" for i
    by (cases "i < wid2 v") (simp_all add: value2_bit, simp add: value2_def)
  then show ?thesis
    using v4.set_loop_ok [of "vector4_fill n BIT4_X" 0 n "\<lambda>idx. if value2 v idx \<noteq> 0 then BIT4_1 else BIT4_0"]
    by (simp add: vector2_to_vector4_def)
qed

section \<open>Trimming\<close>

lemma bits2_narrow: "m \<le> wid2 v \<Longrightarrow> bits2 (v\<lparr>wid2 := m\<rparr>) = take m (bits2 v)"
  by (intro nth_equalityI) (simp_all add: bits2_def)

text \<open>Trimming drops leading zeros, down to one bit; the array keeps its length.\<close>

lemma trim2_ok:
  "\<exists>m. m \<le> wid2 v \<and> bits2 (trim2 v) = take m (bits2 v) \<and> ubits (take m (bits2 v)) = ubits (bits2 v) \<and>
    (m \<le> 1 \<or> bits2 v ! (m - 1))"
proof -
  define p m where "p = (\<lambda>n. value2 v (n - 1) = 0 \<and> n > 1)" and "m = scan_down p (wid2 v)"
  have m: "m \<le> wid2 v" by (simp add: m_def)
  have zero: "\<not> bits2 v ! i" if "m \<le> i" "i < wid2 v" for i
    using scan_down_above [of p "wid2 v" "Suc i"] that value2_bit [of i v] by (simp add: m_def p_def)
  have "drop m (bits2 v) = replicate (wid2 v - m) False" using zero by (intro nth_equalityI) auto
  then have "ubits (take m (bits2 v) @ drop m (bits2 v)) = ubits (take m (bits2 v))" by (simp only: ubits_append) simp
  moreover have "m \<le> 1 \<or> bits2 v ! (m - 1)"
  proof -
    have "m = 0 \<or> \<not> p m" unfolding m_def by (rule scan_down_stop)
    then show ?thesis using m value2_bit [of "m - 1" v] by (cases "m = 0") (auto simp: p_def)
  qed
  moreover have "trim2 v = v\<lparr>wid2 := m\<rparr>" by (simp add: trim2_def m_def p_def)
  ultimately show ?thesis using m bits2_narrow [of m v] by auto
qed

text \<open>The trim of negative numbers drops copies of the sign bit, and leaves at least 32 bits.\<close>

lemma trim_neg2_ok:
  assumes "0 < wid2 v"
  shows "\<exists>m. m \<le> wid2 v \<and> (32 \<le> m \<or> m = wid2 v) \<and> bits2 (trim_neg2 v) = take m (bits2 v) \<and>
    sbits (take m (bits2 v)) = sbits (bits2 v)"
proof (cases "value2 v (wid2 v - 1) = 1 \<and> wid2 v > 32")
  case False
  then show ?thesis by (auto simp: trim_neg2_def intro!: exI [of _ "wid2 v"])
next
  case True
  define p m where "p = (\<lambda>n. value2 v (n - 2) = 1 \<and> n > 32)" and "m = scan_down p (wid2 v)"
  have m: "m \<le> wid2 v" by (simp add: m_def)
  have "\<not> p 32" by (simp add: p_def)
  then have m32: "32 \<le> m" using scan_down_above [of p "wid2 v" 32] True by (auto simp: m_def not_le [symmetric])
  have one: "bits2 v ! (n - 2)" if "m < n" "n \<le> wid2 v" for n
  proof -
    have "p n" using scan_down_above [of p "wid2 v" n] that by (simp add: m_def)
    then have "value2 v (n - 2) = 1" by (simp add: p_def)
    then show ?thesis using value2_bit [of "n - 2" v] that m32 by (auto split: if_splits)
  qed
  have last1: "bits2 v ! (wid2 v - 1)" using True value2_bit [of "wid2 v - 1" v] by (auto split: if_splits)
  have high: "bits2 v ! i" if "m - 1 \<le> i" "i < wid2 v" for i
    using one [of "i + 2"] last1 that m32 by (cases "i = wid2 v - 1") auto
  have ne: "take m (bits2 v) \<noteq> []" "bits2 v \<noteq> []" "length (take m (bits2 v)) = m"
    using m32 m length_bits2 [of v] by (auto simp del: length_bits2)
  have "last (take m (bits2 v))" "last (bits2 v)" using ne high [of "m - 1"] last1 m m32 by (simp_all add: last_conv_nth)
  then have "sbits (take m (bits2 v)) = sbits (bits2 v)"
    using ne high m by (intro bit_eqI) (auto simp: bit_sbits not_less)
  moreover have "trim_neg2 v = v\<lparr>wid2 := m\<rparr>" using True by (simp add: trim_neg2_def m_def p_def)
  ultimately show ?thesis using m m32 bits2_narrow [OF m] by auto
qed

section \<open>Comparison\<close>

lemma cmp_words_value: "cmp_words aw bw n = sgn (wval (map aw [0..<n]) - wval (map bw [0..<n]))"
proof (induction n)
  case (Suc n)
  define A B where "A = wval (map aw [0..<n])" and "B = wval (map bw [0..<n])"
  have AB: "0 \<le> A" "A < 2 ^ (64 * n)" "0 \<le> B" "B < 2 ^ (64 * n)"
    using wval_less [of "map aw [0..<n]"] wval_less [of "map bw [0..<n]"] by (simp_all add: A_def B_def)
  have eq: "wval (map aw [0..<Suc n]) - wval (map bw [0..<Suc n]) = (A - B) + 2 ^ (64 * n) * (uint (aw n) - uint (bw n))"
    unfolding wval_map_upt A_def B_def by (simp add: algebra_simps)
  have big: "2 ^ (64 * n) \<le> 2 ^ (64 * n) * d" if "1 \<le> d" for d :: int
    using that mult_left_mono [of 1 d "2 ^ (64 * n)"] by simp
  consider "aw n > bw n" | "aw n < bw n" | "aw n = bw n" by fastforce
  then show ?case
  proof cases
    case 1
    then have "1 \<le> uint (aw n) - uint (bw n)" by (simp add: word_less_def)
    with big [OF this] AB have "0 < (A - B) + 2 ^ (64 * n) * (uint (aw n) - uint (bw n))" by linarith
    then show ?thesis unfolding eq using 1 by simp
  next
    case 2
    then have "1 \<le> uint (bw n) - uint (aw n)" by (simp add: word_less_def)
    from big [OF this] AB have "(A - B) + 2 ^ (64 * n) * (uint (aw n) - uint (bw n)) < 0" by (simp add: right_diff_distrib)
    then show ?thesis unfolding eq using 2 by simp
  next
    case 3
    then show ?thesis unfolding eq using Suc by (simp add: A_def B_def)
  qed
qed simp

lemma cmp2_value:
  assumes "wf2 a" "wf2 b"
  shows "cmp2 a b = sgn (wval (vec2 a) - wval (vec2 b))"
proof -
  define n where "n = (if nwords (wid2 a) > nwords (wid2 b) then nwords (wid2 a) else nwords (wid2 b))"
  have pad: "wval (map (\<lambda>i. if i < length xs then xs ! i else 0) [0..<n]) = wval xs" if "length xs \<le> n" for xs
  proof -
    have "map (\<lambda>i. if i < length xs then xs ! i else 0) [0..<n] = xs @ replicate (n - length xs) 0"
      using that by (intro nth_equalityI) (auto simp: nth_append)
    moreover have "wval (replicate m 0) = 0" for m by (induction m) simp_all
    ultimately show ?thesis by (simp add: wval_append)
  qed
  have "length (vec2 a) = nwords (wid2 a)" "length (vec2 b) = nwords (wid2 b)" using assms by (simp_all add: wf2_def)
  moreover from this have "length (vec2 a) \<le> n" "length (vec2 b) \<le> n" by (simp_all add: n_def)
  ultimately show ?thesis
    using pad [of "vec2 a"] pad [of "vec2 b"] by (simp add: cmp2_def Let_def cmp_words_value flip: n_def)
qed

lemma sgn_cases: "sgn (x :: int) = 1 \<longleftrightarrow> 0 < x" "sgn x = - 1 \<longleftrightarrow> x < 0" "sgn x = 0 \<longleftrightarrow> x = 0"
  by (auto simp: sgn_if)

lemma compare2_ok:
  assumes "wf2 a" "wf2 b" "clean2 a" "clean2 b"
  shows "gt2 a b \<longleftrightarrow> uval2 a > uval2 b" "ge2 a b \<longleftrightarrow> uval2 a \<ge> uval2 b" "lt2 a b \<longleftrightarrow> uval2 a < uval2 b"
    "eq2 a b \<longleftrightarrow> uval2 a = uval2 b" "wid2 a = wid2 b \<Longrightarrow> le2 a b = Some (uval2 a \<le> uval2 b)"
  using assms by (auto simp: gt2_def ge2_def lt2_def eq2_def le2_def cmp2_value uval2_clean sgn_cases)

lemma is_zero2_ok:
  assumes "wf2 v" "clean2 v"
  shows "is_zero2 v \<longleftrightarrow> uval2 v = 0"
proof -
  have "list_all (\<lambda>idx. xs ! idx = 0) [0..<length xs] \<longleftrightarrow> wval xs = 0" for xs
  proof -
    have "list_all (\<lambda>idx. xs ! idx = 0) [0..<length xs] \<longleftrightarrow> (\<forall>x \<in> set xs. x = 0)"
      by (auto simp: list_all_iff set_conv_nth)
    also have "\<dots> \<longleftrightarrow> wval xs = 0" by (induction xs) (auto simp: add_nonneg_eq_0_iff uint_0_iff)
    finally show ?thesis .
  qed
  from this [of "vec2 v"] show ?thesis using assms by (simp add: is_zero2_def uval2_clean wf2_def)
qed

end
