(* ===== verification/Vvp_Arith2.thy ===== *)
theory Vvp_Arith2
  imports Vvp_Vector2
begin

text \<open>
  Correctness of the shifts and of the arithmetic of \<open>vvp_vector2_t\<close>: each operation on words is the integer
  operation on the values, modulo the width. The masks of \<open>operator <<=\<close> and \<open>operator +=\<close> shift by the word size if
  the width is a multiple of it, which C++ leaves undefined, so their lemmas ask for another width.
\<close>

section \<open>Moving words\<close>

lemma fold_clear_nth:
  assumes "b \<le> length v" "k < length v"
  shows "length (fold (\<lambda>idx vec. vec[idx := (0 :: ulong)]) [a..<b] v) = length v \<and>
    fold (\<lambda>idx vec. vec[idx := 0]) [a..<b] v ! k = (if a \<le> k \<and> k < b then 0 else v ! k)"
  using assms(1)
proof (induction b)
  case (Suc b)
  then show ?case using assms(2) by (cases "a \<le> b") (auto simp: nth_list_update)
qed simp

lemma fold_move_up:
  fixes v :: "ulong list"
  assumes "m \<le> length v - ws" "k < length v"
  shows "length (fold (\<lambda>idx vec. vec[length v - idx - 1 := vec ! (length v - idx - 1 - ws)]) [0..<m] v) = length v \<and>
    fold (\<lambda>idx vec. vec[length v - idx - 1 := vec ! (length v - idx - 1 - ws)]) [0..<m] v ! k =
      (if length v - m \<le> k then v ! (k - ws) else v ! k)"
  using assms
proof (induction m arbitrary: k)
  case (Suc m)
  define f where "f = fold (\<lambda>idx vec. vec[length v - idx - 1 := vec ! (length v - idx - 1 - ws)]) [0..<m] v"
  have ih: "length f = length v" "j < length v \<Longrightarrow> f ! j = (if length v - m \<le> j then v ! (j - ws) else v ! j)" for j
    using Suc by (auto simp: f_def)
  have sel: "f ! (length v - m - 1 - ws) = v ! (length v - m - 1 - ws)" using ih(2) [of "length v - m - 1 - ws"] Suc.prems by auto
  have "fold (\<lambda>idx vec. vec[length v - idx - 1 := vec ! (length v - idx - 1 - ws)]) [0..<Suc m] v
      = f[length v - m - 1 := f ! (length v - m - 1 - ws)]" unfolding f_def by simp
  note this [unfolded sel]
  then show ?case using ih Suc.prems by (auto simp: nth_list_update)
qed simp

lemma fold_move_down:
  fixes v :: "ulong list"
  assumes "m + ws \<le> length v" "k < length v"
  shows "length (fold (\<lambda>idx vec. vec[idx := vec ! (idx + ws)]) [0..<m] v) = length v \<and>
    fold (\<lambda>idx vec. vec[idx := vec ! (idx + ws)]) [0..<m] v ! k = (if k < m then v ! (k + ws) else v ! k)"
  using assms
proof (induction m arbitrary: k)
  case (Suc m)
  define f where "f = fold (\<lambda>idx vec. vec[idx := vec ! (idx + ws)]) [0..<m] v"
  have ih: "length f = length v" "j < length v \<Longrightarrow> f ! j = (if j < m then v ! (j + ws) else v ! j)" for j
    using Suc by (auto simp: f_def)
  have "fold (\<lambda>idx vec. vec[idx := vec ! (idx + ws)]) [0..<Suc m] v = f[m := v ! (m + ws)]"
    using ih(2) [of "m + ws"] Suc.prems by (simp flip: f_def)
  then show ?case using ih Suc.prems by (auto simp: nth_list_update less_Suc_eq)
qed simp

text \<open>The words that the two word shifts leave, as bits.\<close>

lemma word_shift_up:
  assumes "ws < length v" "i < 64 * length v"
  defines "out \<equiv> (if ws > 0 then fold (\<lambda>idx vec. vec[idx := 0]) [0..<ws]
    (fold (\<lambda>idx vec. vec[length v - idx - 1 := vec ! (length v - idx - 1 - ws)]) [0..<length v - ws] v) else v)"
  shows "length out = length v \<and> wbit out i = (64 * ws \<le> i \<and> wbit v (i - 64 * ws))"
proof -
  have k: "i div 64 < length v" using assms(2) by (simp add: div_less_iff_less_mult mult.commute)
  define f where "f = fold (\<lambda>idx vec. vec[length v - idx - 1 := vec ! (length v - idx - 1 - ws)]) [0..<length v - ws] v"
  note f = fold_move_up [of "length v - ws" v ws, OF order_refl k, folded f_def]
  have out: "length out = length v" "out ! (i div 64) = (if i div 64 < ws then 0 else v ! (i div 64 - ws))"
    using fold_clear_nth [of ws f "i div 64" 0] f k assms(1) by (auto simp: out_def f_def)
  have "i div 64 - ws = (i - 64 * ws) div 64 \<and> i mod 64 = (i - 64 * ws) mod 64" if "64 * ws \<le> i"
    using that by (metis add_diff_cancel_left' div_mult_self4 le_add_diff_inverse mod_mult_self4 zero_neq_numeral)
  moreover have "i div 64 < ws \<longleftrightarrow> \<not> 64 * ws \<le> i" by (simp add: div_less_iff_less_mult not_le mult.commute)
  ultimately show ?thesis using out by (auto simp: wbit_def)
qed

lemma word_shift_down:
  assumes "ws < length v" "i < 64 * length v"
  defines "out \<equiv> (if ws > 0 then fold (\<lambda>idx vec. vec[idx := 0]) [length v - ws..<length v]
    (fold (\<lambda>idx vec. vec[idx := vec ! (idx + ws)]) [0..<length v - ws] v) else v)"
  shows "length out = length v \<and> wbit out i = (i + 64 * ws < 64 * length v \<and> wbit v (i + 64 * ws))"
proof -
  have k: "i div 64 < length v" using assms(2) by (simp add: div_less_iff_less_mult mult.commute)
  define f where "f = fold (\<lambda>idx vec. vec[idx := vec ! (idx + ws)]) [0..<length v - ws] v"
  note f = fold_move_down [of "length v - ws" ws v, OF _ k, folded f_def]
  have out: "length out = length v" "out ! (i div 64) = (if i div 64 < length v - ws then v ! (i div 64 + ws) else 0)"
    using fold_clear_nth [of "length v" f "i div 64" "length v - ws"] f k assms(1) by (auto simp: out_def f_def)
  have "(i + 64 * ws) div 64 = i div 64 + ws \<and> (i + 64 * ws) mod 64 = i mod 64" by simp
  moreover have "i div 64 < length v - ws \<longleftrightarrow> i + 64 * ws < 64 * length v"
    using assms(1) by (auto simp: div_less_iff_less_mult right_diff_distrib' mult.commute)
  ultimately show ?thesis using out(1) unfolding wbit_def out(2) by (simp only: if_distribR) (simp add: add.commute)
qed

section \<open>Moving bits\<close>

lemma fine_shift_up:
  fixes v :: "ulong list"
  assumes "0 < os" "os < 64" "i < 64 * length v"
  defines "out \<equiv> fst (fold (\<lambda>idx (vec, pad). let next_pad = ul_shr (vec ! idx) (64 - os)
    in (vec[idx := ul_shl (vec ! idx) os OR pad], next_pad)) [0..<length v] (v, 0))"
  shows "length out = length v \<and> wbit out i = (os \<le> i \<and> wbit v (i - os))"
proof -
  let ?f = "\<lambda>idx (vec :: ulong list, pad). let next_pad = ul_shr (vec ! idx) (64 - os) in (vec[idx := ul_shl (vec ! idx) os OR pad], next_pad)"
  let ?in = "\<lambda>k. if k = 0 then 0 else ul_shr (v ! (k - 1)) (64 - os)"
  have "\<exists>w. fold ?f [0..<m] (v, 0) = (w, ?in m) \<and> length w = length v \<and>
      (\<forall>k < length v. w ! k = (if k < m then ul_shl (v ! k) os OR ?in k else v ! k))" if "m \<le> length v" for m
    using that
  proof (induction m)
    case (Suc m)
    then obtain w where w: "fold ?f [0..<m] (v, 0) = (w, ?in m)" "length w = length v"
      "\<forall>k < length v. w ! k = (if k < m then ul_shl (v ! k) os OR ?in k else v ! k)" by auto
    have "fold ?f [0..<Suc m] (v, 0) = (w[m := ul_shl (v ! m) os OR ?in m], ?in (Suc m))"
      using w Suc.prems by (simp add: Let_def)
    then show ?case using w(2,3) Suc.prems by (auto simp: nth_list_update less_Suc_eq)
  qed simp
  from this [OF order_refl] have out: "length out = length v"
    "\<forall>k < length v. out ! k = ul_shl (v ! k) os OR ?in k" unfolding out_def by auto
  define k j where "k = i div 64" and "j = i mod 64"
  have i: "i = 64 * k + j" "j < 64" by (simp_all add: k_def j_def)
  have k: "k < length v" using assms(3) i by linarith
  have "wbit out i \<longleftrightarrow> bit (ul_shl (v ! k) os OR ?in k) j" using out(2) k by (simp add: wbit_def k_def j_def)
  also have "\<dots> \<longleftrightarrow> os \<le> i \<and> wbit v (i - os)"
  proof (cases "os \<le> j")
    case True
    then have "wbit v (i - os) = bit (v ! k) (j - os)" using i wbit_word [of "j - os" v k] by simp
    moreover have "\<not> bit (?in k) j" using True assms(1,2) by (auto simp: bit_ul_shr dest: bit_imp_le_length)
    moreover have "os \<le> i" using True i by linarith
    ultimately show ?thesis using True i(2) assms(2) by (simp add: bit_or_iff bit_ul_shl)
  next
    case False
    show ?thesis
    proof (cases "k = 0")
      case True
      then show ?thesis using False i assms(2) by (simp add: bit_or_iff bit_ul_shl)
    next
      case nz: False
      have "k = Suc (k - 1)" using nz by simp
      then have "i - os = 64 * (k - 1) + (64 - os + j)" "64 - os + j < 64" "os \<le> i" using False i assms(2) by linarith+
      then have "wbit v (i - os) = bit (v ! (k - 1)) (64 - os + j)" "os \<le> i" using wbit_word by simp_all
      then show ?thesis using nz False assms(1,2) by (simp add: bit_or_iff bit_ul_shl bit_ul_shr)
    qed
  qed
  finally show ?thesis using out(1) by blast
qed

lemma fine_shift_down:
  fixes v :: "ulong list"
  assumes "0 < os" "os < 64" "i < 64 * length v"
  defines "out \<equiv> fst (fold (\<lambda>idx (vec, pad). let new_pad = ul_shl (vec ! idx) (64 - os)
    in (vec[idx := pad OR ul_shr (vec ! idx) os], new_pad)) (rev [0..<length v]) (v, 0))"
  shows "length out = length v \<and> wbit out i = (i + os < 64 * length v \<and> wbit v (i + os))"
proof -
  let ?f = "\<lambda>idx (vec :: ulong list, pad). let new_pad = ul_shl (vec ! idx) (64 - os) in (vec[idx := pad OR ul_shr (vec ! idx) os], new_pad)"
  let ?in = "\<lambda>k. if k = length v then 0 else ul_shl (v ! k) (64 - os)"
  have "\<exists>w. fold ?f (rev [0..<n]) (w0, ?in n) = (w, ?in 0) \<and> length w = length v \<and>
      (\<forall>k < length v. w ! k = (if k < n then ?in (Suc k) OR ul_shr (v ! k) os else w0 ! k))"
    if "n \<le> length v" "length w0 = length v" "\<forall>k < n. w0 ! k = v ! k" for n w0
    using that
  proof (induction n arbitrary: w0)
    case (Suc n)
    let ?w1 = "w0[n := ?in (Suc n) OR ul_shr (v ! n) os]"
    have step: "fold ?f (rev [0..<Suc n]) (w0, ?in (Suc n)) = fold ?f (rev [0..<n]) (?w1, ?in n)"
      using Suc.prems by (simp add: Let_def)
    obtain w where w: "fold ?f (rev [0..<n]) (?w1, ?in n) = (w, ?in 0)" "length w = length v"
      "\<forall>k < length v. w ! k = (if k < n then ?in (Suc k) OR ul_shr (v ! k) os else ?w1 ! k)"
      using Suc.IH [of ?w1] Suc.prems by auto
    show ?case unfolding step using w Suc.prems by (auto simp: nth_list_update less_Suc_eq)
  qed simp
  from this [of "length v" v] have out: "length out = length v"
    "\<forall>k < length v. out ! k = ?in (Suc k) OR ul_shr (v ! k) os" unfolding out_def by auto
  define k j where "k = i div 64" and "j = i mod 64"
  have i: "i = 64 * k + j" "j < 64" by (simp_all add: k_def j_def)
  have k: "k < length v" using assms(3) i by linarith
  have "wbit out i \<longleftrightarrow> bit (?in (Suc k) OR ul_shr (v ! k) os) j" using out(2) k by (simp add: wbit_def k_def j_def)
  also have "\<dots> \<longleftrightarrow> i + os < 64 * length v \<and> wbit v (i + os)"
  proof (cases "j + os < 64")
    case True
    then have "wbit v (i + os) = bit (v ! k) (j + os)" using i wbit_word [of "j + os" v k] by (simp add: add.assoc)
    moreover have "i + os < 64 * length v" "\<not> 64 - os \<le> j" using True i k by linarith+
    ultimately show ?thesis using assms(1,2) by (simp add: bit_or_iff bit_ul_shl bit_ul_shr add.commute)
  next
    case False
    then have io: "i + os = 64 * (k + 1) + (j + os - 64)" "j + os - 64 < 64" using i assms(2) by simp_all
    have no: "\<not> bit (ul_shr (v ! k) os) j" using False assms(2) by (auto simp: bit_ul_shr dest: bit_imp_le_length)
    have "i + os < 64 * length v \<longleftrightarrow> (i + os) div 64 < length v" by (simp add: div_less_iff_less_mult mult.commute)
    also have "(i + os) div 64 = k + 1" unfolding io(1) using io(2) by simp
    finally have "i + os < 64 * length v \<longleftrightarrow> k + 1 < length v" .
    moreover have "wbit v (i + os) = bit (v ! (k + 1)) (j + os - 64)" unfolding io(1) by (rule wbit_word) (rule io(2))
    ultimately show ?thesis
      using no k False assms(1,2) i(2) by (auto simp: bit_or_iff bit_ul_shl)
  qed
  finally show ?thesis using out(1) by blast
qed

section \<open>The last word\<close>

lemma mask_tail:
  assumes "length vec = nwords n" "n mod 64 \<noteq> 0" "i < 64 * nwords n"
  shows "wbit (vec[nwords n - 1 := vec ! (nwords n - 1) AND ul_shr (- 1) (64 - n mod 64)]) i \<longleftrightarrow> i < n \<and> wbit vec i"
proof -
  have nw: "nwords n = Suc (n div 64)" using assms(2) by (simp add: nwords_split)
  have m: "bit (ul_shr (- 1) (64 - n mod 64)) j \<longleftrightarrow> j < n mod 64" if "j < 64" for j
    using that assms(2) by (auto simp: bit_ul_shr bit_simps)
  have "i < n \<longleftrightarrow> i div 64 < n div 64 \<or> i div 64 = n div 64 \<and> i mod 64 < n mod 64"
    using div_mult_mod_eq [of i 64] div_mult_mod_eq [of n 64] mod_less_divisor [of 64 i] mod_less_divisor [of 64 n] by linarith
  moreover have "i div 64 \<le> n div 64" using assms(3) nw by (simp add: div_less_iff_less_mult flip: less_Suc_eq_le)
  ultimately show ?thesis using assms(1) nw m [of "i mod 64"]
    by (auto simp: wbit_update bit_and_iff) (auto simp: wbit_def)
qed

lemma uval2_eqI:
  assumes "wf2 u" "\<And>i. i < wid2 u \<Longrightarrow> wbit (vec2 u) i = bit x i"
  shows "uval2 u = take_bit (wid2 u) x"
proof -
  have "wid2 u \<le> 64 * length (vec2 u)" using assms(1) nwords_ge by (simp add: wf2_def)
  then show ?thesis using assms(2) by (intro bit_eqI) (auto simp: uval2_def bit_take_bit_iff bit_wval)
qed

text \<open>The vector whose last word has been masked is clean, and has the bits below the width.\<close>

lemma masked2_ok:
  assumes "length vec = nwords n" "wid2 v = n" "n mod 64 \<noteq> 0"
    and "\<And>i. i < n \<Longrightarrow> wbit vec i = bit x i"
  defines "u \<equiv> v\<lparr>vec2 := vec[nwords n - 1 := vec ! (nwords n - 1) AND ul_shr (- 1) (64 - n mod 64)]\<rparr>"
  shows "wf2 u \<and> clean2 u \<and> uval2 u = take_bit n x"
proof -
  have wf: "wf2 u" using assms(1,2) by (simp add: u_def wf2_def)
  have bits: "wbit (vec2 u) i \<longleftrightarrow> i < n \<and> wbit vec i" if "i < 64 * nwords n" for i
    using mask_tail [OF assms(1,3) that] by (simp add: u_def)
  have "clean2 u" unfolding clean2_iff [OF wf] using bits assms(1,2) by (simp add: u_def)
  moreover have "uval2 u = take_bit (wid2 u) x"
    using bits assms(2,4) nwords_ge [of n] by (intro uval2_eqI [OF wf]) (simp add: u_def)
  ultimately show ?thesis using wf assms(2) by (simp add: u_def)
qed

section \<open>Shifts\<close>

lemma wbit_zeros: "i < 64 * n \<Longrightarrow> \<not> wbit (replicate n 0) i"
  by (simp add: wbit_replicate)

lemma shl2_ok:
  assumes v: "wf2 v" and ok: "shift mod 64 = 0 \<or> wid2 v mod 64 \<noteq> 0"
  shows "wf2 (shl2 v shift) \<and> wid2 (shl2 v shift) = wid2 v \<and> uval2 (shl2 v shift) = take_bit (wid2 v) (2 ^ shift * uval2 v) \<and>
    (shift mod 64 \<noteq> 0 \<longrightarrow> clean2 (shl2 v shift))"
proof (cases "wid2 v = 0")
  case True
  then show ?thesis using v by (simp add: shl2_def uval2_def clean2_def wf2_def)
next
  case False
  define n ws os where "n = wid2 v" and "ws = shift div 64" and "os = shift mod 64"
  have sh: "shift = 64 * ws + os" "os < 64" by (simp_all add: ws_def os_def)
  have len: "length (vec2 v) = nwords n" using v by (simp add: wf2_def n_def)
  have ge: "n \<le> 64 * nwords n" by (rule nwords_ge)
  have spec: "bit (2 ^ shift * uval2 v) i \<longleftrightarrow> shift \<le> i \<and> wbit (vec2 v) (i - shift)" if "i < n" for i
    using that len ge by (auto simp: uval2_def bit_take_bit_iff bit_wval n_def simp flip: push_bit_eq_mult bit_push_bit_iff_int)
      (auto simp: push_bit_eq_mult [symmetric] mult.commute [of "2 ^ shift"] bit_simps bit_wval)
  show ?thesis
  proof (cases "ws \<ge> nwords n")
    case True
    then have eq: "shl2 v shift = v\<lparr>vec2 := replicate (nwords n) 0\<rparr>" using False by (simp add: shl2_def Let_def n_def ws_def)
    have "\<not> shift \<le> i" if "i < n" for i using that True ge sh by linarith
    then have "uval2 (shl2 v shift) = take_bit (wid2 (shl2 v shift)) (2 ^ shift * uval2 v)"
      using spec ge wbit_zeros [of _ "nwords n"] by (intro uval2_eqI) (auto simp: eq wf2_def n_def)
    moreover have "wval (replicate m 0) = 0" for m by (induction m) simp_all
    ultimately show ?thesis by (simp add: eq wf2_def n_def clean2_def)
  next
    case ws: False
    define w where "w = (if ws > 0 then fold (\<lambda>idx vec. vec[idx := 0]) [0..<ws]
      (fold (\<lambda>idx vec. vec[nwords n - idx - 1 := vec ! (nwords n - idx - 1 - ws)]) [0..<nwords n - ws] (vec2 v)) else vec2 v)"
    have w: "length w = nwords n" "wbit w i = (64 * ws \<le> i \<and> wbit (vec2 v) (i - 64 * ws))" if "i < 64 * nwords n" for i
      using word_shift_up [of ws "vec2 v" i] ws that unfolding w_def len by simp_all
    have lw: "length w = nwords n" using w(1) [of 0] False nwords_bound [of 0 n] by (simp add: n_def)
    show ?thesis
    proof (cases "os = 0")
      case True
      have eq: "shl2 v shift = v\<lparr>vec2 := w\<rparr>"
        using False ws True by (simp add: shl2_def Let_def w_def flip: n_def ws_def os_def)
      have "wbit w i = bit (2 ^ shift * uval2 v) i" if "i < n" for i using spec [OF that] w(2) [of i] that ge sh(1) True by auto
      then have "uval2 (shl2 v shift) = take_bit (wid2 (shl2 v shift)) (2 ^ shift * uval2 v)"
        unfolding eq by (intro uval2_eqI) (simp_all add: wf2_def lw n_def)
      then show ?thesis using True by (simp add: eq wf2_def lw n_def os_def)
    next
      case os: False
      define st where "st = fold (\<lambda>idx (vec, pad). let next_pad = ul_shr (vec ! idx) (64 - os)
        in (vec[idx := ul_shl (vec ! idx) os OR pad], next_pad)) [0..<nwords n] (w, 0)"
      have f: "length (fst st) = nwords n \<and> wbit (fst st) i = (os \<le> i \<and> wbit w (i - os))" if "i < 64 * nwords n" for i
        using fine_shift_up [of os i w] os sh(2) that unfolding st_def lw by simp
      have lf: "length (fst st) = nwords n" using f [of 0] False nwords_bound [of 0 n] by (simp add: n_def)
      have nm: "n mod 64 \<noteq> 0" using ok os by (simp add: os_def n_def)
      have "wbit (fst st) i = bit (2 ^ shift * uval2 v) i" if "i < n" for i
        using spec [OF that] f [of i] w(2) [of "i - os"] that ge sh(1) by (auto simp: add.commute)
      note m = masked2_ok [OF lf n_def [symmetric] nm this]
      have "shl2 v shift = v\<lparr>vec2 := (fst st)[nwords n - 1 := fst st ! (nwords n - 1) AND ul_shr (- 1) (64 - n mod 64)]\<rparr>"
        using False ws os by (simp add: shl2_def Let_def case_prod_beta w_def st_def n_def ws_def os_def)
      with m show ?thesis by (simp add: n_def)
    qed
  qed
qed

lemma nwords_pad: "64 * nwords n = n + (64 - n mod 64) mod 64"
proof (cases "n mod 64 = 0")
  case True
  then show ?thesis using div_mult_mod_eq [of n 64] by (simp add: nwords_split)
next
  case False
  define q r where "q = n div 64" and "r = n mod 64"
  have "n = 64 * q + r" "r < 64" "0 < r" using False by (simp_all add: q_def r_def)
  moreover have "nwords n = q + 1" using False by (simp add: nwords_split q_def)
  ultimately show ?thesis by simp
qed

text \<open>The end of \<open>operator >>=\<close> clears the bits above, and fails if there are not that many.\<close>

lemma shr2_tail_ok:
  assumes "use_words \<le> length vec" "mask_shift \<le> 64 * use_words"
  shows "\<exists>u. shr2_tail mask_shift use_words vec = Some u \<and> length u = length vec \<and>
    (\<forall>i < 64 * length vec. wbit u i \<longleftrightarrow> wbit vec i \<and> \<not> (64 * use_words - mask_shift \<le> i \<and> i < 64 * use_words))"
  using assms
proof (induction mask_shift use_words vec rule: shr2_tail.induct)
  case (1 m uw vec)
  show ?case
  proof (cases "64 \<le> m")
    case True
    then have uw: "uw \<noteq> 0" "uw - 1 < length vec" using "1.prems" by auto
    have "\<exists>u. shr2_tail (m - 64) (uw - 1) (vec[uw - 1 := 0]) = Some u \<and> length u = length vec \<and>
      (\<forall>i < 64 * length vec. wbit u i \<longleftrightarrow> wbit (vec[uw - 1 := 0]) i \<and> \<not> (64 * (uw - 1) - (m - 64) \<le> i \<and> i < 64 * (uw - 1)))"
      using "1.IH" True uw "1.prems" by simp
    then obtain u where u: "shr2_tail m uw vec = Some u" "length u = length vec"
      "\<forall>i < 64 * length vec. wbit u i \<longleftrightarrow> wbit (vec[uw - 1 := 0]) i \<and> \<not> (64 * (uw - 1) - (m - 64) \<le> i \<and> i < 64 * (uw - 1))"
      using True uw(1) by (simp add: shr2_tail.simps [of m]) blast
    have "wbit (vec[uw - 1 := 0]) i \<longleftrightarrow> wbit vec i \<and> \<not> (64 * (uw - 1) \<le> i \<and> i < 64 * uw)" for i
    proof -
      have "i div 64 = uw - 1 \<longleftrightarrow> 64 * (uw - 1) \<le> i \<and> i < 64 * uw"
        using uw(1) div_mult_mod_eq [of i 64] mod_less_divisor [of 64 i] by (cases uw) (auto simp del: mod_less_divisor)
      then show ?thesis using uw(2) by (auto simp: wbit_update wbit_def)
    qed
    then show ?thesis using u uw(1) True "1.prems"(2) by (intro exI [of _ u]) auto
  next
    case False
    show ?thesis
    proof (cases "m = 0")
      case True
      then show ?thesis by (auto simp: shr2_tail.simps [of 0])
    next
      case m: False
      then have uw: "uw \<noteq> 0" "uw - 1 < length vec" using "1.prems" by auto
      let ?u = "vec[uw - 1 := vec ! (uw - 1) AND ul_shr (- 1) m]"
      have eq: "shr2_tail m uw vec = Some ?u" using False m uw(1) by (simp add: shr2_tail.simps [of m])
      have "wbit ?u i \<longleftrightarrow> wbit vec i \<and> \<not> (64 * uw - m \<le> i \<and> i < 64 * uw)" for i
      proof (cases "i div 64 = uw - 1")
        case True
        then have "i = 64 * (uw - 1) + i mod 64" by (metis mult_div_mod_eq)
        moreover have "64 * uw = 64 * (uw - 1) + 64" using uw(1) by (cases uw) simp_all
        ultimately have "64 * uw - m \<le> i \<longleftrightarrow> 64 - m \<le> i mod 64" "i < 64 * uw"
          using mod_less_divisor [of 64 i] False by linarith+
        moreover have "bit (ul_shr (- 1) m) (i mod 64) \<longleftrightarrow> \<not> 64 - m \<le> i mod 64" using False m by (auto simp: bit_ul_shr)
        ultimately show ?thesis using True uw(2) by (simp add: wbit_update bit_and_iff) (simp add: wbit_def)
      next
        case no: False
        then have "\<not> (64 * uw - m \<le> i \<and> i < 64 * uw)"
          using div_mult_mod_eq [of i 64] mod_less_divisor [of 64 i] False by (cases uw) (auto simp del: mod_less_divisor)
        then show ?thesis using no uw(2) by (auto simp: wbit_update wbit_def)
      qed
      then show ?thesis using eq by simp
    qed
  qed
qed

lemma shr2_ok:
  assumes v: "wf2 v" "clean2 v" and ok: "shift \<le> wid2 v \<or> 64 \<le> shift"
  shows "\<exists>u. shr2 v shift = Some u \<and> wf2 u \<and> clean2 u \<and> wid2 u = wid2 v \<and> uval2 u = drop_bit shift (uval2 v)"
proof (cases "wid2 v = 0")
  case True
  then show ?thesis using v by (simp add: shr2_def uval2_def)
next
  case False
  define n ws os where "n = wid2 v" and "ws = shift div 64" and "os = shift mod 64"
  have sh: "shift = 64 * ws + os" "os < 64" by (simp_all add: ws_def os_def)
  have len: "length (vec2 v) = nwords n" using v(1) by (simp add: wf2_def n_def)
  have ge: "n \<le> 64 * nwords n" by (rule nwords_ge)
  have nw: "0 < nwords n" using False nwords_bound [of 0 n] by (simp add: n_def)
  have small: "wval (vec2 v) < 2 ^ n" using v(2) by (simp add: clean2_def n_def)
  have clean: "\<not> wbit (vec2 v) i" if "n \<le> i" "i < 64 * nwords n" for i
    using that v(2) len unfolding clean2_iff [OF v(1)] n_def by auto
  have result: "wf2 (v\<lparr>vec2 := vec\<rparr>) \<and> clean2 (v\<lparr>vec2 := vec\<rparr>) \<and> uval2 (v\<lparr>vec2 := vec\<rparr>) = drop_bit shift (uval2 v)"
    if l: "length vec = nwords n"
      and b: "\<And>i. i < 64 * nwords n \<Longrightarrow> wbit vec i \<longleftrightarrow> i + shift < 64 * nwords n \<and> wbit (vec2 v) (i + shift)" for vec
  proof -
    have eq: "wval vec = drop_bit shift (wval (vec2 v))"
      using b l len by (intro bit_eqI) (auto simp: bit_simps bit_wval add.commute)
    also have "\<dots> \<le> wval (vec2 v)" using zdiv_mono2 [of "wval (vec2 v)" 1 "2 ^ shift"] by (simp add: drop_bit_eq_div)
    finally have "clean2 (v\<lparr>vec2 := vec\<rparr>)" using small by (simp add: clean2_def n_def)
    then show ?thesis using eq l v(2) by (simp add: uval2_clean wf2_def n_def)
  qed
  show ?thesis
  proof (cases "ws \<ge> nwords n")
    case True
    have "shr2 v shift = Some (v\<lparr>vec2 := replicate (nwords n) 0\<rparr>)" using True False by (simp add: shr2_def Let_def n_def ws_def)
    moreover have "\<not> i + shift < 64 * nwords n" for i using True sh by linarith
    ultimately show ?thesis using result [of "replicate (nwords n) 0"] by (simp add: wbit_zeros)
  next
    case ws: False
    define w where "w = (if ws > 0 then fold (\<lambda>idx vec. vec[idx := 0]) [nwords n - ws..<nwords n]
      (fold (\<lambda>idx vec. vec[idx := vec ! (idx + ws)]) [0..<nwords n - ws] (vec2 v)) else vec2 v)"
    have w: "length w = nwords n \<and> wbit w i = (i + 64 * ws < 64 * nwords n \<and> wbit (vec2 v) (i + 64 * ws))" if "i < 64 * nwords n" for i
      using word_shift_down [of ws "vec2 v" i] ws that unfolding w_def len by simp
    have lw: "length w = nwords n" using w [of 0] nw by simp
    show ?thesis
    proof (cases "os = 0")
      case True
      have "shr2 v shift = Some (v\<lparr>vec2 := w\<rparr>)"
        using False ws True by (simp add: shr2_def Let_def w_def flip: n_def ws_def os_def)
      then show ?thesis using result [OF lw] w sh(1) True by simp
    next
      case os: False
      define st where "st = fold (\<lambda>idx (vec, pad). let new_pad = ul_shl (vec ! idx) (64 - os)
        in (vec[idx := pad OR ul_shr (vec ! idx) os], new_pad)) (rev [0..<nwords n]) (w, 0)"
      have f: "length (fst st) = nwords n \<and> wbit (fst st) i = (i + os < 64 * nwords n \<and> wbit w (i + os))" if "i < 64 * nwords n" for i
        using fine_shift_down [of os i w] os sh(2) that unfolding st_def lw by simp
      have lf: "length (fst st) = nwords n" using f [of 0] nw by simp
      have pad: "64 * nwords n = n + (64 - n mod 64) mod 64" by (rule nwords_pad)
      have "os \<le> n" using ok sh nwords_two [of n] ws nw unfolding n_def by (cases "ws = 0") auto
      then obtain u where u: "shr2_tail ((64 - n mod 64) mod 64 + os) (nwords n) (fst st) = Some u" "length u = nwords n"
        "\<forall>i < 64 * nwords n. wbit u i \<longleftrightarrow> wbit (fst st) i \<and> \<not> n - os \<le> i"
        using shr2_tail_ok [of "nwords n" "fst st" "(64 - n mod 64) mod 64 + os"] lf pad by auto
      have "shr2 v shift = do { vec \<leftarrow> shr2_tail ((64 - n mod 64) mod 64 + os) (nwords n) (fst st); Some (v\<lparr>vec2 := vec\<rparr>) }"
        using False ws os by (simp add: shr2_def Let_def case_prod_beta w_def st_def n_def ws_def os_def)
      then have eq: "shr2 v shift = Some (v\<lparr>vec2 := u\<rparr>)" using u(1) by simp
      have "wbit u i \<longleftrightarrow> i + shift < 64 * nwords n \<and> wbit (vec2 v) (i + shift)" if "i < 64 * nwords n" for i
      proof -
        have "n - os \<le> i \<Longrightarrow> n \<le> i + shift" using sh(1) by linarith
        then show ?thesis using u(3) f [OF that] w [of "i + os"] clean [of "i + shift"] sh(1) that
          by (auto simp: add.assoc add.commute [of os])
      qed
      from result [OF u(2) this] show ?thesis using eq by simp
    qed
  qed
qed

text \<open>A shift by more than the width, within the first word, fails the assertion that a word is left to mask.\<close>

lemma shr2_abort:
  assumes "0 < wid2 v" "wid2 v < shift" "shift < 64"
  shows "shr2 v shift = None"
proof -
  have nw: "nwords (wid2 v) = 1" using assms by (simp add: nwords_split)
  have "(64 - wid2 v mod 64) mod 64 + shift \<ge> 64" using assms by simp
  then show ?thesis using assms nw by (simp add: shr2_def Let_def case_prod_beta shr2_tail.simps)
qed

section \<open>Addition and subtraction\<close>

lemma carry2_ok:
  assumes "length xs = length ys" "uint c \<le> 1"
  shows "length (fst (carry_run add_carry xs ys c)) = length xs"
    "take_bit (64 * length xs) (wval (fst (carry_run add_carry xs ys c))) = take_bit (64 * length xs) (wval xs + wval ys + uint c)"
proof -
  obtain zs c' where run: "carry_run add_carry xs ys c = (zs, c')" by fastforce
  have l: "length zs = length xs" and "wval zs + 2 ^ (64 * length xs) * uint c' = wval xs + wval ys + uint c"
    using uc.carry_run_law [OF assms(1) _ _ _ assms(2) run] by (simp_all add: wval_def list_all_iff power_mult)
  from this(2) [symmetric] l show "length (fst (carry_run add_carry xs ys c)) = length xs"
    "take_bit (64 * length xs) (wval (fst (carry_run add_carry xs ys c))) = take_bit (64 * length xs) (wval xs + wval ys + uint c)"
    by (simp_all add: run take_bit_eq_mod)
qed

lemma add_assign2_ok:
  assumes "wf2 v" "wf2 w" "wid2 w = wid2 v" "wid2 v mod 64 \<noteq> 0"
  shows "\<exists>u. add_assign2 v w = Some u \<and> wf2 u \<and> clean2 u \<and> wid2 u = wid2 v \<and>
    uval2 u = take_bit (wid2 v) (wval (vec2 v) + wval (vec2 w))"
proof -
  define n vec where "n = wid2 v" and "vec = fst (carry_run add_carry (vec2 v) (vec2 w) 0)"
  have len: "length (vec2 v) = nwords n" "length (vec2 w) = nwords n" using assms by (simp_all add: wf2_def n_def)
  note c = carry2_ok [of "vec2 v" "vec2 w" 0, folded vec_def, unfolded len]
  have "wbit vec i = bit (wval (vec2 v) + wval (vec2 w)) i" if "i < n" for i
  proof -
    have i: "i < 64 * nwords n" using that nwords_ge [of n] by simp
    then show ?thesis using arg_cong [OF c(2), of "\<lambda>z. bit z i"] c(1) by (simp add: bit_take_bit_iff bit_wval)
  qed
  note m = masked2_ok [OF _ n_def [symmetric] _ this]
  have "0 < n" using assms(4) by (auto simp: n_def intro: gr_zeroI)
  then have "add_assign2 v w = Some (v\<lparr>vec2 := vec[nwords n - 1 := vec ! (nwords n - 1) AND ul_shr (- 1) (64 - n mod 64)]\<rparr>)"
    using assms(3) by (simp add: add_assign2_def Let_def case_prod_beta vec_def n_def)
  then show ?thesis using m c(1) assms(4) by (simp add: n_def)
qed

text \<open>\<open>operator -=\<close> does not mask; the value is the difference modulo the width, and exact if it does not borrow.\<close>

lemma sub_assign2_ok:
  assumes "wf2 v" "wf2 w" "wid2 w = wid2 v"
  shows "\<exists>u. sub_assign2 v w = Some u \<and> wf2 u \<and> wid2 u = wid2 v \<and> uval2 u = take_bit (wid2 v) (wval (vec2 v) - wval (vec2 w)) \<and>
    (wval (vec2 w) \<le> wval (vec2 v) \<longrightarrow> wval (vec2 u) = wval (vec2 v) - wval (vec2 w))"
proof (cases "wid2 v = 0")
  case True
  then show ?thesis using assms by (simp add: sub_assign2_def uval2_def wf2_def)
next
  case False
  define n vec where "n = wid2 v" and "vec = fst (carry_run add_carry (vec2 v) (map NOT (vec2 w)) 1)"
  have len: "length (vec2 v) = nwords n" "length (vec2 w) = nwords n" using assms by (simp_all add: wf2_def n_def)
  have lv: "length vec = nwords n" and
    "take_bit (64 * nwords n) (wval vec) = take_bit (64 * nwords n) (wval (vec2 v) + wval (map NOT (vec2 w)) + uint (1 :: ulong))"
    using carry2_ok [of "vec2 v" "map NOT (vec2 w)" 1] len unfolding vec_def by simp_all
  then have eq: "wval vec = take_bit (64 * nwords n) (wval (vec2 v) - wval (vec2 w))"
    using wval_sub_law [of "vec2 v" "vec2 w"] len wval_less [of vec] by (simp add: take_bit_int_eq_self)
  have ge: "n \<le> 64 * nwords n" by (rule nwords_ge)
  have u: "sub_assign2 v w = Some (v\<lparr>vec2 := vec\<rparr>)"
    using False assms(3) by (simp add: sub_assign2_def case_prod_beta vec_def)
  have "wval vec = wval (vec2 v) - wval (vec2 w)" if "wval (vec2 w) \<le> wval (vec2 v)"
    unfolding eq using that wval_less [of "vec2 v", unfolded len] wval_nonneg [of "vec2 w"]
    by (intro take_bit_int_eq_self) linarith+
  moreover have "take_bit n (wval vec) = take_bit n (wval (vec2 v) - wval (vec2 w))"
    unfolding eq using ge by (simp add: min_def)
  ultimately show ?thesis using u lv by (simp add: wf2_def n_def uval2_def)
qed

lemma neg2_ok:
  assumes "wf2 v" "wid2 v mod 64 \<noteq> 0"
  shows "\<exists>u. neg2 v = Some u \<and> wf2 u \<and> clean2 u \<and> wid2 u = wid2 v \<and> uval2 u = take_bit (wid2 v) (- uval2 v)"
proof -
  define n where "n = wid2 v"
  have n: "0 < n" "n \<le> 64 * nwords n" using assms(2) nwords_ge [of n] by (auto simp: n_def intro: gr_zeroI)
  obtain one where one: "vector2_ulong 1 n = Some one" "wf2 one" "wid2 one = n" "wval (vec2 one) = 1"
    using vector2_ulong_ok [OF n(1), of 1] by auto
  let ?w = "v\<lparr>vec2 := map NOT (vec2 v)\<rparr>"
  have len: "length (vec2 v) = nwords n" using assms(1) by (simp add: wf2_def n_def)
  have "wf2 ?w" using assms(1) by (simp add: wf2_def)
  then obtain u where u: "add_assign2 ?w one = Some u" "wf2 u" "clean2 u" "wid2 u = n"
    "uval2 u = take_bit n (wval (map NOT (vec2 v)) + 1)"
    using add_assign2_ok [of ?w one] one assms(2) by (auto simp: n_def)
  have "wval (map NOT (vec2 v)) + 1 = 2 ^ (64 * nwords n) + - wval (vec2 v)" by (simp add: wval_not len)
  moreover have "take_bit n (2 ^ (64 * nwords n) + x) = take_bit n x" for x :: int
    using n(2) by (simp add: take_bit_eq_mod mod_add_eq [symmetric] le_imp_power_dvd dvd_imp_mod_0 flip: mod_add_left_eq)
  ultimately have "uval2 u = take_bit n (- wval (vec2 v))" using u(5) by metis
  then show ?thesis using u(1-4) one(1) n(1)
    by (simp add: neg2_def uval2_def n_def take_bit_minus)
qed

section \<open>Multiplication\<close>

lemma mul2_ripple_ok:
  assumes "length res = cnt" "uint c \<le> 1"
  shows "length (mul2_ripple cnt k low hig c res) = cnt \<and>
    wcong cnt (wval (mul2_ripple cnt k low hig c res)) (wval res + 2 ^ (64 * k) * (uint low + 2 ^ 64 * uint hig + uint c))"
  using assms
proof (induction "cnt - k" arbitrary: k low hig c res)
  case 0
  then have "(2 :: int) ^ (64 * cnt) dvd 2 ^ (64 * k)" by (simp add: le_imp_power_dvd)
  then show ?case using 0 by (simp add: mul2_ripple_def)
next
  case (Suc m)
  obtain r c2 where r: "add_carry (res ! k) low c = (r, c2)" by fastforce
  have c2: "uint c2 \<le> 1" "uint r + 2 ^ 64 * uint c2 = uint (res ! k) + uint low + uint c"
    using uc.adc_law [OF _ _ _ Suc.prems(2) r] by simp_all
  have k: "k < cnt" using Suc.hyps(2) by simp
  then have step: "mul2_ripple cnt k low hig c res = mul2_ripple cnt (Suc k) hig 0 c2 (res[k := r])"
    by (simp add: mul2_ripple_def upt_conv_Cons r)
  have "wval (res[k := r]) + 2 ^ (64 * Suc k) * (uint hig + 2 ^ 64 * uint (0 :: ulong) + uint c2)
      = wval res + 2 ^ (64 * k) * (uint r + 2 ^ 64 * uint c2 - uint (res ! k) + 2 ^ 64 * uint hig)"
    using k Suc.prems(1) by (simp add: wval_update algebra_simps power_add)
  also have "\<dots> = wval res + 2 ^ (64 * k) * (uint low + 2 ^ 64 * uint hig + uint c)" unfolding c2(2) by (simp add: algebra_simps)
  finally show ?case
    using Suc.hyps(1) [of "Suc k" "res[k := r]" c2 hig 0] Suc.hyps(2) Suc.prems(1) k c2(1) unfolding step by simp
qed

lemma mul2_step_ok:
  assumes "length res = cnt"
  shows "length (mul2_step cnt base a b res) = cnt \<and>
    wcong cnt (wval (mul2_step cnt base a b res)) (wval res + 2 ^ (64 * base) * (uint a * uint b))"
proof -
  obtain low hig where m: "multiply_long a b = (low, hig)" by fastforce
  have "unat low + 2 ^ 64 * unat hig = unat a * unat b" by (rule multiply_long_ok) (rule m)
  then have "uint low + 2 ^ 64 * uint hig = uint a * uint b"
    unfolding uint_nat by (metis of_nat_add of_nat_mult of_nat_numeral of_nat_power)
  then show ?thesis using mul2_ripple_ok [OF assms, of 0 base low hig] assms by (simp add: mul2_step_def m)
qed

lemma mul2_row_ok:
  fixes av :: "nat \<Rightarrow> ulong" and tb :: ulong and b :: nat
  assumes "length res = cnt"
  defines "out m \<equiv> fold (\<lambda>a. mul2_step cnt (a + b) (av a) tb) [0..<m] res"
  shows "length (out m) = cnt \<and> wcong cnt (wval (out m)) (wval res + 2 ^ (64 * b) * uint tb * wval (map av [0..<m]))"
proof (induction m)
  case 0
  then show ?case using assms(1) by (simp add: out_def)
next
  case (Suc m)
  have out: "out (Suc m) = mul2_step cnt (m + b) (av m) tb (out m)" by (simp add: out_def)
  note st = mul2_step_ok [of "out m" cnt "m + b" "av m" tb]
  have "wcong cnt (wval (out m) + 2 ^ (64 * (m + b)) * (uint (av m) * uint tb))
      (wval res + 2 ^ (64 * b) * uint tb * wval (map av [0..<Suc m]))"
    using Suc unfolding wval_map_upt by (simp add: algebra_simps power_add)
  then show ?case using st Suc unfolding out by (auto intro: wcong_trans)
qed

lemma mul2_ok:
  assumes "wf2 a" "wf2 b" "wid2 b = wid2 a" "0 < wid2 a"
  shows "\<exists>u. mul2 a b = Some u \<and> wf2 u \<and> wid2 u = wid2 a \<and> uval2 u = take_bit (wid2 a) (uval2 a * uval2 b)"
proof -
  define n cnt where "n = wid2 a" and "cnt = nwords n"
  have len: "length (vec2 a) = cnt" "length (vec2 b) = cnt" using assms by (simp_all add: wf2_def n_def cnt_def)
  obtain r where r: "vector2_ulong 0 n = Some r" "wf2 r" "wid2 r = n" "wval (vec2 r) = 0"
    using vector2_ulong_ok [of n 0] assms(4) by (auto simp: n_def)
  define row where "row = (\<lambda>bdx r. let tmpb = vec2 b ! bdx in if tmpb = 0 then r
    else fold (\<lambda>adx. mul2_step cnt (adx + bdx) (vec2 a ! adx) tmpb) [0..<cnt] r)"
  have av: "map ((!) (vec2 a)) [0..<cnt] = vec2 a" "map ((!) (vec2 b)) [0..<cnt] = vec2 b" using len map_nth by metis+
  have row: "length (row m res) = cnt \<and> wcong cnt (wval (row m res)) (wval res + 2 ^ (64 * m) * uint (vec2 b ! m) * wval (vec2 a))"
    if "length res = cnt" for m res
    using mul2_row_ok [OF that, of m "(!) (vec2 a)" "vec2 b ! m" cnt] that by (simp add: row_def Let_def av(1))
  have rows: "length (fold row [0..<m] (vec2 r)) = cnt \<and>
    wcong cnt (wval (fold row [0..<m] (vec2 r))) (wval (map ((!) (vec2 b)) [0..<m]) * wval (vec2 a))" for m
  proof (induction m)
    case 0
    then show ?case using r by (simp add: wf2_def cnt_def)
  next
    case (Suc m)
    note st = row [of "fold row [0..<m] (vec2 r)" m]
    have "wcong cnt (wval (fold row [0..<m] (vec2 r)) + 2 ^ (64 * m) * uint (vec2 b ! m) * wval (vec2 a))
      (wval (map ((!) (vec2 b)) [0..<Suc m]) * wval (vec2 a))"
      using Suc unfolding wval_map_upt by (simp add: algebra_simps)
    then show ?case using st Suc by (auto intro: wcong_trans)
  qed
  define u where "u = r\<lparr>vec2 := fold row [0..<cnt] (vec2 r)\<rparr>"
  have wf: "wf2 u" "wid2 u = n" using rows [of cnt] r(3) by (simp_all add: u_def wf2_def cnt_def)
  have "wbit (vec2 u) i = bit (wval (vec2 b) * wval (vec2 a)) i" if "i < n" for i
    using wcong_bits [OF conjunct2 [OF rows [of cnt]], of i] rows [of cnt] that nwords_ge [of n]
    by (simp add: u_def av(2) bit_wval flip: cnt_def)
  then have "uval2 u = take_bit n (wval (vec2 b) * wval (vec2 a))" using uval2_eqI [OF wf(1)] wf(2) by simp
  also have "\<dots> = take_bit n (uval2 a * uval2 b)"
    using assms(3) by (simp add: uval2_def n_def take_bit_mult mult.commute)
  finally have val: "uval2 u = take_bit n (uval2 a * uval2 b)" .
  have "mul2 a b = Some u"
    unfolding mul2_def u_def row_def Let_def cnt_def using r(1,3) assms(3) by (simp add: n_def cong: if_cong)
  then show ?thesis using wf val by (simp add: n_def)
qed

end
