(* ===== verification/Vvp_Div2.thy ===== *)
theory Vvp_Div2
  imports Vvp_Arith2
begin

text \<open>
  Division and power of \<open>vvp_vector2_t\<close> (vvp/vvp_net.cc): \<open>div_mod\<close>, the operators \<open>/\<close> and \<open>%\<close> built on it, and
  \<open>pow\<close>. Their loops and the recursion have no evident measure, so they are partial functions, and the theorems
  show that they return.
\<close>

section \<open>Definitions\<close>

text \<open>The first loop of \<open>div_mod\<close>, on \<open>divtmp\<close> and \<open>mask\<close>.\<close>

partial_function (option) div_up :: "vvp_vector2_t \<Rightarrow> vvp_vector2_t \<Rightarrow> vvp_vector2_t \<Rightarrow> (vvp_vector2_t \<times> vvp_vector2_t) option" where
  "div_up dividend divtmp msk =
     (if lt2 divtmp dividend then div_up dividend (shl2 divtmp 1) (shl2 msk 1) else Some (divtmp, msk))"

text \<open>The second loop, with the result in \<open>quotient\<close> and what is left of \<open>dividend\<close>.\<close>

partial_function (option) div_down ::
  "vvp_vector2_t \<Rightarrow> vvp_vector2_t \<Rightarrow> vvp_vector2_t \<Rightarrow> vvp_vector2_t \<Rightarrow> vvp_vector2_t \<Rightarrow> (vvp_vector2_t \<times> vvp_vector2_t) option" where
  "div_down divisor divtmp msk dividend quot =
     (if ge2 dividend divisor
      then do {
        le \<leftarrow> le2 divtmp dividend;
        (dividend, quot) \<leftarrow> (if le
           then do { d \<leftarrow> sub_assign2 dividend divtmp; q \<leftarrow> add_assign2 quot msk; Some (d, q) }
           else Some (dividend, quot));
        divtmp \<leftarrow> shr2 divtmp 1;
        msk \<leftarrow> shr2 msk 1;
        div_down divisor divtmp msk dividend quot }
      else Some (dividend, quot))"

text \<open>The pair of quotient and remainder; a division by zero exits.\<close>

definition div_mod2 :: "vvp_vector2_t \<Rightarrow> vvp_vector2_t \<Rightarrow> (vvp_vector2_t \<times> vvp_vector2_t) option" where
  "div_mod2 dividend divisor =
     do {
       quot \<leftarrow> vector2_ulong 0 (wid2 dividend);
       if eq2 divisor quot then None
       else if lt2 dividend divisor then Some (quot, dividend)
       else do {
         msk \<leftarrow> vector2_ulong 1 (wid2 dividend);
         let dividend = vector2_resize dividend (wid2 dividend + 1);
         let divtmp = vector2_resize divisor (wid2 dividend);
         (divtmp, msk) \<leftarrow> div_up dividend divtmp msk;
         (dividend, quot) \<leftarrow> div_down divisor divtmp msk dividend quot;
         Some (quot, vector2_resize dividend (wid2 msk)) } }"

definition div2 :: "vvp_vector2_t \<Rightarrow> vvp_vector2_t \<Rightarrow> vvp_vector2_t option" where
  "div2 dividend divisor = map_option fst (div_mod2 dividend divisor)"

definition mod2 :: "vvp_vector2_t \<Rightarrow> vvp_vector2_t \<Rightarrow> vvp_vector2_t option" where
  "mod2 dividend divisor = map_option snd (div_mod2 dividend divisor)"

text \<open>\<open>pow\<close> takes the exponent by reference and consumes it: the result is paired with what is left of it.\<close>

partial_function (option) pow2 :: "vvp_vector2_t \<Rightarrow> vvp_vector2_t \<Rightarrow> (vvp_vector2_t \<times> vvp_vector2_t) option" where
  "pow2 x y =
     do {
       zero \<leftarrow> vector2_ulong 0 1;
       if eq2 y zero then do { one \<leftarrow> vector2_ulong 1 (wid2 x); Some (one, y) }
       else if value2 y 0 = 1 then do {
         y \<leftarrow> set_bit2 y 0 0;
         (z, y) \<leftarrow> pow2 x y;
         res \<leftarrow> mul2 x z;
         Some (res, y) }
       else do {
         y \<leftarrow> shr2 y 1;
         (z, y) \<leftarrow> pow2 x y;
         res \<leftarrow> mul2 z z;
         Some (res, y) } }"

section \<open>Single steps\<close>

lemma shl2_one:
  assumes "wf2 v" "clean2 v" "wid2 v mod 64 \<noteq> 0"
  shows "wf2 (shl2 v 1)" "clean2 (shl2 v 1)" "wid2 (shl2 v 1) = wid2 v" "uval2 (shl2 v 1) = take_bit (wid2 v) (2 * uval2 v)"
  using shl2_ok [OF assms(1), of 1] assms(3) by simp_all

lemma shr2_one:
  assumes "wf2 v" "clean2 v" "0 < wid2 v"
  shows "\<exists>u. shr2 v 1 = Some u \<and> wf2 u \<and> clean2 u \<and> wid2 u = wid2 v \<and> uval2 u = uval2 v div 2"
  using shr2_ok [OF assms(1,2), of 1] assms(3) by (simp add: drop_bit_eq_div)

lemma uval2_range: "clean2 v \<Longrightarrow> uval2 v < 2 ^ wid2 v" "0 \<le> uval2 v"
  by (simp_all add: uval2_def)

lemma vector2_resize_same:
  assumes "wf2 v" "0 < n" "nwords (wid2 v) = nwords n"
  shows "wf2 (vector2_resize v n)" "wid2 (vector2_resize v n) = n" "vec2 (vector2_resize v n) = vec2 v"
proof -
  have "length (vec2 v) = nwords n" using assms(1,3) by (simp add: wf2_def)
  then show "vec2 (vector2_resize v n) = vec2 v"
    using assms by (intro nth_equalityI) (simp_all add: vector2_resize_def Let_def)
qed (use assms in \<open>simp_all add: vector2_resize_def wf2_def Let_def\<close>)

section \<open>Division\<close>

text \<open>
  The first loop doubles \<open>divtmp\<close> until it reaches the dividend. \<open>mask\<close> is doubled with it, in a vector that is one
  bit shorter, so that it becomes 0 if the loop runs as often as the dividend has bits.
\<close>

lemma div_up_ok:
  assumes "wf2 D" "clean2 D" "wid2 D = n + 1" "uval2 D < 2 ^ n" "n mod 64 \<noteq> 0" "(n + 1) mod 64 \<noteq> 0" "0 < d"
    and "wf2 t" "clean2 t" "wid2 t = n + 1" "wf2 m" "clean2 m" "wid2 m = n"
    and "uval2 t = d * 2 ^ k" "uval2 m = take_bit n (2 ^ k)" "k = 0 \<or> d * 2 ^ (k - 1) < uval2 D"
  shows "\<exists>t' m' k'. div_up D t m = Some (t', m') \<and> wf2 t' \<and> clean2 t' \<and> wid2 t' = n + 1 \<and> wf2 m' \<and> clean2 m' \<and> wid2 m' = n \<and>
    uval2 t' = d * 2 ^ k' \<and> uval2 m' = take_bit n (2 ^ k') \<and> uval2 D \<le> d * 2 ^ k' \<and> (k' = 0 \<or> d * 2 ^ (k' - 1) < uval2 D)"
  using assms(8-)
proof (induction "nat (uval2 D - uval2 t)" arbitrary: t m k rule: less_induct)
  case less
  have cmp: "lt2 t D \<longleftrightarrow> uval2 t < uval2 D" using compare2_ok(3) less.prems assms(1,2) by simp
  show ?case
  proof (cases "uval2 t < uval2 D")
    case False
    then show ?thesis using less.prems cmp
      by (subst div_up.simps) (auto intro!: exI [of _ k])
  next
    case True
    note t = shl2_one [OF less.prems(1,2)] and m = shl2_one [OF less.prems(4,5)]
    have "2 * uval2 t < 2 ^ (n + 1)" using True assms(4) by simp
    then have t2: "uval2 (shl2 t 1) = d * 2 ^ (k + 1)"
      using t(4) less.prems(3,7) assms(6) uval2_range(2) [of t] by (simp add: take_bit_int_eq_self)
    have "take_bit n (2 * take_bit n (2 ^ k)) = (take_bit n (2 ^ (k + 1)) :: int)" by (simp add: take_bit_eq_mod mod_mult_right_eq)
    then have m2: "uval2 (shl2 m 1) = take_bit n (2 ^ (k + 1))" using m(4) less.prems(6,8) assms(5) by simp
    have "uval2 t < uval2 (shl2 t 1)" unfolding t2 less.prems(7) using assms(7) by simp
    then have "nat (uval2 D - uval2 (shl2 t 1)) < nat (uval2 D - uval2 t)" using True by simp
    from less.hyps [OF this t(1-2) _ m(1-2) _ t2 m2] show ?thesis
      using t(3) m(3) True less.prems(3,6,7) assms(5,6) cmp by (subst div_up.simps) simp
  qed
qed

text \<open>
  One round of the second loop. The factor \<open>c\<close> is 0 if the mask has been shifted out and 1 otherwise.
\<close>

lemma div_round:
  assumes D: "wf2 D" "clean2 D" "wid2 D = n + 1" and t: "wf2 t" "clean2 t" "wid2 t = n + 1"
    and m: "wf2 m" "clean2 m" "wid2 m = n" and q: "wf2 q" "clean2 q" "wid2 q = n" and dv: "wf2 dv" "clean2 dv"
    and n: "n mod 64 \<noteq> 0" and ge: "uval2 dv \<le> uval2 D" and small: "uval2 t \<le> uval2 D \<Longrightarrow> uval2 q + uval2 m < 2 ^ n"
  shows "\<exists>t' m' D' q'. div_down dv t m D q = div_down dv t' m' D' q' \<and> wf2 D' \<and> clean2 D' \<and> wid2 D' = n + 1 \<and>
    wf2 t' \<and> clean2 t' \<and> wid2 t' = n + 1 \<and> wf2 m' \<and> clean2 m' \<and> wid2 m' = n \<and> wf2 q' \<and> clean2 q' \<and> wid2 q' = n \<and>
    uval2 t' = uval2 t div 2 \<and> uval2 m' = uval2 m div 2 \<and>
    uval2 D' = (if uval2 t \<le> uval2 D then uval2 D - uval2 t else uval2 D) \<and>
    uval2 q' = (if uval2 t \<le> uval2 D then uval2 q + uval2 m else uval2 q)"
proof -
  have n0: "0 < n" using n by (auto intro: gr_zeroI)
  obtain t' where t': "shr2 t 1 = Some t'" "wf2 t' \<and> clean2 t' \<and> wid2 t' = n + 1 \<and> uval2 t' = uval2 t div 2"
    using shr2_one [OF t(1,2)] t(3) by auto
  obtain m' where m': "shr2 m 1 = Some m'" "wf2 m' \<and> clean2 m' \<and> wid2 m' = n \<and> uval2 m' = uval2 m div 2"
    using shr2_one [OF m(1,2)] m(3) n0 by auto
  have le: "le2 t D = Some (uval2 t \<le> uval2 D)" "ge2 D dv" using compare2_ok D t dv ge by simp_all
  show ?thesis
  proof (cases "uval2 t \<le> uval2 D")
    case True
    obtain D' where D': "sub_assign2 D t = Some D'" "wf2 D'" "wid2 D' = n + 1" "wval (vec2 D') = uval2 D - uval2 t"
      using sub_assign2_ok [OF D(1) t(1)] D t True by (auto simp: uval2_clean)
    have cl: "clean2 D'" using D'(3,4) uval2_range(1) [OF D(2)] uval2_range(2) [of t] D(3) by (simp add: clean2_def)
    obtain q' where q': "add_assign2 q m = Some q'" "wf2 q'" "clean2 q'" "wid2 q' = n" "uval2 q' = take_bit n (uval2 q + uval2 m)"
      using add_assign2_ok [OF q(1) m(1)] q m n by (auto simp: uval2_clean)
    have "uval2 q' = uval2 q + uval2 m"
      using q'(5) small [OF True] uval2_range(2) [of q] uval2_range(2) [of m] by (simp add: take_bit_int_eq_self)
    moreover have "uval2 D' = uval2 D - uval2 t" using D'(4) cl by (simp add: uval2_clean)
    moreover have "div_down dv t m D q = div_down dv t' m' D' q'"
      using True le t'(1) m'(1) D'(1) q'(1) by (subst div_down.simps) simp
    ultimately show ?thesis using t'(2) m'(2) D'(2,3) cl q'(2-4) True by metis
  next
    case False
    then have "div_down dv t m D q = div_down dv t' m' D q" using le t'(1) m'(1) by (subst div_down.simps) simp
    then show ?thesis using t'(2) m'(2) D q False by metis
  qed
qed

lemma div_down_ok:
  assumes dv: "wf2 dv" "clean2 dv" "uval2 dv = d" "0 < d" and n: "n mod 64 \<noteq> 0" and c: "c = 0 \<or> c = 1"
    and "wf2 D" "clean2 D" "wid2 D = n + 1" "wf2 t" "clean2 t" "wid2 t = n + 1" "wf2 m" "clean2 m" "wid2 m = n"
    and "wf2 q" "clean2 q" "wid2 q = n" "uval2 t = d * 2 ^ k" "uval2 m = c * 2 ^ k" "uval2 D < d * 2 ^ (k + 1)"
    and "uval2 q = c * Q" "c * (Q + uval2 D div d) < 2 ^ n"
  shows "\<exists>D' q'. div_down dv t m D q = Some (D', q') \<and> wf2 D' \<and> clean2 D' \<and> wid2 D' = n + 1 \<and> wf2 q' \<and> clean2 q' \<and> wid2 q' = n \<and>
    uval2 D' = uval2 D mod d \<and> uval2 q' = c * (Q + uval2 D div d)"
proof -
  have stop: "div_down dv t m D q = Some (D, q) \<and> uval2 D mod d = uval2 D \<and> uval2 D div d = 0"
    if "uval2 D < d" "wf2 D" "clean2 D" for t m D q
    using that compare2_ok(2) [of D dv] dv uval2_range(2) [of D] by (subst div_down.simps) simp
  have mult: "(x - d * y) mod d = x mod d" "(x - d * y) div d = x div d - y" for x y
    using dv(4) div_mult_self2 [of d x "- y"] mod_mult_self2 [of x d "- y"] by simp_all
  show ?thesis
    using assms(7-)
  proof (induction k arbitrary: D t m q Q)
    case (0 D t m q Q)
    show ?case
    proof (cases "uval2 D < d")
      case True
      then show ?thesis using stop 0 by auto
    next
      case False
      then have "(uval2 D - d * 1) mod d = uval2 D - d" "(uval2 D - d * 1) div d = 0"
        using 0(15) mod_pos_pos_trivial [of "uval2 D - d" d] div_pos_pos_trivial [of "uval2 D - d" d] by simp_all
      then have one: "uval2 D div d = 1" "uval2 D mod d = uval2 D - d" using mult [of "uval2 D" 1] by simp_all
      have small: "uval2 q + uval2 m < 2 ^ n" using 0 one by (simp add: algebra_simps)
      obtain t' m' D' q' where r: "div_down dv t m D q = div_down dv t' m' D' q'" "wf2 D'" "clean2 D'" "wid2 D' = n + 1"
        "wf2 q'" "clean2 q'" "wid2 q' = n" "uval2 D' = uval2 D - d" "uval2 q' = c * (Q + 1)"
        using div_round [OF 0(1-12) dv(1,2) n] dv(3) False small 0 by (auto simp: algebra_simps)
      then show ?thesis using stop [of D' t' m' q'] one 0 by simp
    qed
  next
    case (Suc k D t m q Q)
    show ?case
    proof (cases "uval2 D < d")
      case True
      then show ?thesis using stop Suc.prems by auto
    next
      case False
      let ?s = "uval2 t \<le> uval2 D"
      have q0: "2 ^ Suc k \<le> uval2 D div d" if ?s
        using that zdiv_mono1 [of "d * 2 ^ Suc k" "uval2 D" d] dv(4) Suc.prems(13) by simp
      have small: "uval2 q + uval2 m < 2 ^ n" if ?s
        using q0 [OF that] Suc.prems c by (auto simp: algebra_simps)
      obtain t' m' D' q' where r: "div_down dv t m D q = div_down dv t' m' D' q'" "wf2 D'" "clean2 D'" "wid2 D' = n + 1"
        "wf2 t'" "clean2 t'" "wid2 t' = n + 1" "wf2 m'" "clean2 m'" "wid2 m' = n" "wf2 q'" "clean2 q'" "wid2 q' = n"
        "uval2 t' = uval2 t div 2" "uval2 m' = uval2 m div 2" "uval2 D' = (if ?s then uval2 D - uval2 t else uval2 D)"
        "uval2 q' = (if ?s then uval2 q + uval2 m else uval2 q)"
        using div_round [OF Suc.prems(1-12) dv(1,2) n] dv(3) False small by (metis linorder_not_less)
      define Q' where "Q' = (if ?s then Q + 2 ^ Suc k else Q)"
      have v: "uval2 t' = d * 2 ^ k" "uval2 m' = c * 2 ^ k" "uval2 D' < d * 2 ^ (k + 1)" "uval2 q' = c * Q'"
        using r(14-17) Suc.prems(13-16) by (auto simp: Q'_def algebra_simps)
      have w: "uval2 D' mod d = uval2 D mod d" "Q' + uval2 D' div d = Q + uval2 D div d"
        using r(16) mult [of "uval2 D" "2 ^ Suc k"] Suc.prems(13) by (auto simp: Q'_def)
      have "c * (Q' + uval2 D' div d) < 2 ^ n" unfolding w(2) using Suc.prems(17) .
      from Suc.IH [OF r(2-13) v this] show ?thesis unfolding r(1) w .
    qed
  qed
qed

text \<open>
  The quotient and the remainder. If the divisor is 1 and the dividend above half of its range, the first loop
  shifts the mask out of its vector, and the quotient is 0.
\<close>

lemma div_mod2_ok:
  assumes D: "wf2 D" "clean2 D" "wid2 D = n" and dv: "wf2 dv" "clean2 dv" "wid2 dv = n" "uval2 dv \<noteq> 0"
    and n: "n mod 64 \<noteq> 0" "(n + 1) mod 64 \<noteq> 0"
  shows "\<exists>q r. div_mod2 D dv = Some (q, r) \<and> wf2 q \<and> clean2 q \<and> wid2 q = n \<and> wf2 r \<and> clean2 r \<and> wid2 r = n \<and>
    uval2 r = uval2 D mod uval2 dv \<and>
    uval2 q = (if uval2 dv = 1 \<and> 2 ^ (n - 1) < uval2 D then 0 else uval2 D div uval2 dv)"
proof -
  have n0: "0 < n" using n(1) by (auto intro: gr_zeroI)
  define d x where "d = uval2 dv" and "x = uval2 D"
  have d: "0 < d" "0 \<le> x" "x < 2 ^ n" "d < 2 ^ n"
    using dv(3,4) D(3) uval2_range(2) [of dv] uval2_range(2) [of D] uval2_range(1) [OF D(2)] uval2_range(1) [OF dv(2)]
    by (simp_all add: d_def x_def)
  obtain z where z: "vector2_ulong 0 n = Some z" "wf2 z" "wid2 z = n" "clean2 z" "uval2 z = 0"
    using vector2_ulong_ok [OF n0, of 0] by (auto simp: uval2_clean)
  obtain m where m: "vector2_ulong 1 n = Some m" "wf2 m" "wid2 m = n" "clean2 m" "uval2 m = 1"
    using vector2_ulong_ok [OF n0, of 1] n0 by (auto simp: uval2_clean one_less_power)
  have cmp: "\<not> eq2 dv z" "lt2 D dv \<longleftrightarrow> x < d" using compare2_ok D dv z by (auto simp: d_def x_def)
  show ?thesis
  proof (cases "x < d")
    case True
    moreover have "\<not> (d = 1 \<and> 2 ^ (n - 1) < x)" using True d(2) zero_less_power [of "2 :: int" "n - 1"] by linarith
    ultimately show ?thesis using cmp z D d(2) by (simp add: div_mod2_def d_def x_def)
  next
    case False
    let ?D = "vector2_resize D (n + 1)" and ?t = "vector2_resize dv (n + 1)"
    have big: "wf2 ?D" "wid2 ?D = n + 1" "clean2 ?D" "uval2 ?D = x" "wf2 ?t" "wid2 ?t = n + 1" "clean2 ?t" "uval2 ?t = d * 2 ^ 0"
      using vector2_resize_ok [OF D(1), of "n + 1"] vector2_resize_ok [OF dv(1), of "n + 1"] D dv d
      by (auto simp: clean2_def uval2_clean d_def x_def)
    obtain t' m' k where up: "div_up ?D ?t m = Some (t', m')" "wf2 t'" "clean2 t'" "wid2 t' = n + 1" "wf2 m'" "clean2 m'" "wid2 m' = n"
      "uval2 t' = d * 2 ^ k" "uval2 m' = take_bit n (2 ^ k)" "x \<le> d * 2 ^ k" "k = 0 \<or> d * 2 ^ (k - 1) < x"
      using div_up_ok [OF big(1,3,2) _ n d(1) big(5,7,6) m(2,4,3) big(8)] m(5) big(4) d(3) n0 by auto
    define c :: int where "c = of_bool (k < n)"
    have c: "c = 0 \<or> c = 1" "uval2 m' = c * 2 ^ k"
      using up(9) by (auto simp: c_def take_bit_eq_mod mod_eq_0_iff_dvd le_imp_power_dvd)
    have small: "x div d < 2 ^ n" using d zdiv_mono2 [of x 1 d] by simp
    have "0 < d * 2 ^ k" using d(1) by simp
    then have "x < d * 2 ^ (k + 1)" using up(10) by simp
    moreover have "c * (0 + x div d) < 2 ^ n" using small c(1) by auto
    ultimately obtain D' q' where down: "div_down dv t' m' ?D z = Some (D', q')" "wf2 D'" "clean2 D'" "wid2 D' = n + 1"
      "wf2 q'" "clean2 q'" "wid2 q' = n" "uval2 D' = x mod d" "uval2 q' = c * (x div d)"
      using div_down_ok [OF dv(1,2) d_def [symmetric] d(1) n(1) c(1) big(1,3,2) up(2-7) z(2,4,3) up(8) c(2), of 0]
      unfolding big(4) z(5) by auto
    have pw: "(2 :: int) ^ i \<le> 2 ^ j" if "i \<le> j" for i j using that by (rule power_increasing) simp
    have kn: "k < n \<longleftrightarrow> \<not> (d = 1 \<and> 2 ^ (n - 1) < x)"
    proof
      assume "k < n"
      then have "(2 :: int) ^ k \<le> 2 ^ (n - 1)" by (intro pw) simp
      moreover have "d = 1 \<Longrightarrow> x \<le> 2 ^ k" using up(10) by simp
      ultimately show "\<not> (d = 1 \<and> 2 ^ (n - 1) < x)" by linarith
    next
      assume no: "\<not> (d = 1 \<and> 2 ^ (n - 1) < x)"
      show "k < n"
      proof (rule ccontr)
        assume "\<not> k < n"
        then have "d * 2 ^ (n - 1) \<le> d * 2 ^ (k - 1)" "d * 2 ^ (k - 1) < x" using up(11) n0 d(1) pw [of "n - 1" "k - 1"] by auto
        moreover have "(2 :: int) ^ n = 2 * 2 ^ (n - 1)" using n0 by (metis power_eq_if less_numeral_extra(3))
        ultimately have lt: "d * 2 ^ (n - 1) < x" "d * 2 ^ (n - 1) < 2 * 2 ^ (n - 1)" using d(3) by linarith+
        then have "d = 1" using d(1) mult_less_cancel_right_pos [of "2 ^ (n - 1)" d 2] by simp
        then show False using lt(1) no by simp
      qed
    qed
    have fin: "wf2 (vector2_resize D' n) \<and> clean2 (vector2_resize D' n) \<and> wid2 (vector2_resize D' n) = n \<and> uval2 (vector2_resize D' n) = x mod d"
    proof -
      have "x mod d < 2 ^ n" using d pos_mod_bound [of d x] by linarith
      then show ?thesis using vector2_resize_same [of D' n] down(2-4,8) n n0
        by (simp add: clean2_def uval2_clean nwords_split mod_Suc div_Suc)
    qed
    have "div_mod2 D dv = Some (q', vector2_resize D' n)"
      using cmp False z(1) m(1) up(1,7) down(1) D(3) big(2) by (simp add: div_mod2_def)
    then show ?thesis using fin down(5-7,9) kn by (auto simp: c_def d_def x_def)
  qed
qed

section \<open>Power\<close>

lemma uval2_odd:
  assumes "wf2 y" "0 < wid2 y"
  shows "uval2 y mod 2 = of_bool (bits2 y ! 0)"
proof -
  have "uval2 y mod 2 = of_bool (bit (uval2 y) 0)" by (simp add: bit_0 mod_2_eq_odd)
  moreover have "bit (uval2 y) 0 \<longleftrightarrow> bits2 y ! 0"
    using assms nwords_ge [of "wid2 y"] by (simp add: uval2_def bits2_def bit_take_bit_iff bit_wval wf2_def)
  ultimately show ?thesis by simp
qed

lemma set_bit2_clean:
  assumes "wf2 v" "clean2 v" "set_bit2 v idx b = Some u" "wf2 u"
  shows "clean2 u"
proof -
  have idx: "idx < wid2 v" and wid: "wid2 u = wid2 v" and len: "length (vec2 u) = length (vec2 v)"
    using assms(3) by (auto simp: set_bit2_def Let_def split: if_splits)
  have "\<not> wbit (vec2 u) i" if "wid2 v \<le> i" "i < 64 * length (vec2 v)" for i
  proof -
    have "\<not> wbit (vec2 v) i" using assms(1,2) that clean2_iff by blast
    moreover have "i div 64 = idx div 64 \<Longrightarrow> i mod 64 \<noteq> idx mod 64" using idx that(1) by (metis div_mod_decomp not_le)
    moreover have "idx div 64 < length (vec2 v)" using assms(1) idx nwords_bound by (simp add: wf2_def)
    ultimately show ?thesis using assms(3) idx
      by (cases "i div 64 = idx div 64"; cases "b = 0")
        (auto simp: set_bit2_def Let_def wbit_update bit_or_iff bit_and_iff bit_ul_shl, auto simp: wbit_def bit_1_iff)
  qed
  then show ?thesis unfolding clean2_iff [OF assms(4)] wid len by blast
qed

text \<open>The quick subtraction by 1.\<close>

lemma clear_low_ok:
  assumes "wf2 y" "clean2 y" "0 < wid2 y" "bits2 y ! 0"
  shows "\<exists>u. set_bit2 y 0 0 = Some u \<and> wf2 u \<and> clean2 u \<and> wid2 u = wid2 y \<and> uval2 u = uval2 y - 1"
proof -
  obtain u where u: "set_bit2 y 0 0 = Some u" "wf2 u" "wid2 u = wid2 y" "bits2 u = (bits2 y)[0 := False]"
    using set_bit2_ok [OF assms(1,3), of 0] by auto
  obtain bs where bs: "bits2 y = True # bs" using assms(3,4) length_bits2 [of y] by (cases "bits2 y") auto
  then have "uval2 u = uval2 y - 1" using u(4) uval2_bits [OF assms(1)] uval2_bits [OF u(2)] by (simp add: ubits_def)
  then show ?thesis using u set_bit2_clean [OF assms(1,2) u(1,2)] by simp
qed

lemma pow2_ok:
  assumes "wf2 x" "0 < wid2 x" "wf2 y" "clean2 y"
  shows "\<exists>u y'. pow2 x y = Some (u, y') \<and> wf2 u \<and> wid2 u = wid2 x \<and> uval2 u = take_bit (wid2 x) (uval2 x ^ nat (uval2 y)) \<and>
    wf2 y' \<and> uval2 y' = 0"
  using assms(3,4)
proof (induction "nat (uval2 y)" arbitrary: y rule: less_induct)
  case less
  define n where "n = wid2 x"
  have ux: "uval2 x = take_bit n (uval2 x)" by (simp add: uval2_def n_def)
  obtain z where z: "vector2_ulong 0 1 = Some z" "wf2 z" "clean2 z" "uval2 z = 0"
    using vector2_ulong_ok [of 1 0] by (auto simp: uval2_clean)
  obtain one where one: "vector2_ulong 1 n = Some one" "wf2 one" "wid2 one = n" "clean2 one" "uval2 one = 1"
    using vector2_ulong_ok [of n 1] assms(2) by (auto simp: uval2_clean n_def one_less_power)
  have cmp: "eq2 y z \<longleftrightarrow> uval2 y = 0" using compare2_ok(4) less.prems z by simp
  have y0: "0 \<le> uval2 y" by (rule uval2_range)
  show ?case
  proof (cases "uval2 y = 0")
    case True
    moreover from this have "take_bit n (uval2 x ^ nat (uval2 y)) = 1" using assms(2) by (simp add: n_def)
    ultimately show ?thesis using z(1) one cmp less.prems by (subst pow2.simps) (simp add: n_def)
  next
    case False
    then have w: "0 < wid2 y" by (auto simp: uval2_def intro: gr_zeroI)
    note odd = uval2_odd [OF less.prems(1) w]
    show ?thesis
    proof (cases "bits2 y ! 0")
      case True
      obtain v where v: "set_bit2 y 0 0 = Some v" "wf2 v" "clean2 v" "uval2 v = uval2 y - 1"
        using clear_low_ok [OF less.prems w True] by auto
      have "nat (uval2 v) < nat (uval2 y)" using v(4) False y0 by simp
      from less.hyps [OF this v(2,3)] obtain u y' where u: "pow2 x v = Some (u, y')" "wf2 u" "wid2 u = n"
        "uval2 u = take_bit n (uval2 x ^ nat (uval2 v))" "wf2 y'" "uval2 y' = 0" by (auto simp: n_def)
      obtain r where r: "mul2 x u = Some r" "wf2 r" "wid2 r = n" "uval2 r = take_bit n (uval2 x * uval2 u)"
        using mul2_ok [OF assms(1) u(2)] u(3) assms(2) by (auto simp: n_def)
      have "nat (uval2 y) = Suc (nat (uval2 v))" using v(4) False y0 by simp
      then have "uval2 r = take_bit n (uval2 x ^ nat (uval2 y))"
        unfolding r(4) u(4) by (simp add: take_bit_eq_mod mod_mult_right_eq)
      moreover have "pow2 x y = Some (r, y')"
        using z(1) cmp False True v(1) u(1) r(1) w by (subst pow2.simps) (simp add: value2_bit)
      ultimately show ?thesis using r(2,3) u(5,6) by (simp add: n_def)
    next
      case even: False
      obtain v where v: "shr2 y 1 = Some v" "wf2 v" "clean2 v" "uval2 v = uval2 y div 2"
        using shr2_one [OF less.prems w] by auto
      have "nat (uval2 v) < nat (uval2 y)" using v(4) False y0 by simp
      from less.hyps [OF this v(2,3)] obtain u y' where u: "pow2 x v = Some (u, y')" "wf2 u" "wid2 u = n"
        "uval2 u = take_bit n (uval2 x ^ nat (uval2 v))" "wf2 y'" "uval2 y' = 0" by (auto simp: n_def)
      obtain r where r: "mul2 u u = Some r" "wf2 r" "wid2 r = n" "uval2 r = take_bit n (uval2 u * uval2 u)"
        using mul2_ok [OF u(2,2)] u(3) assms(2) by (auto simp: n_def)
      have "uval2 y = uval2 v + uval2 v" using v(4) odd even minus_mod_eq_mult_div [of "uval2 y" 2] by simp
      then have "nat (uval2 y) = nat (uval2 v) + nat (uval2 v)" by simp
      then have "uval2 r = take_bit n (uval2 x ^ nat (uval2 y))"
        unfolding r(4) u(4) by (simp add: take_bit_mult power_add)
      moreover have "pow2 x y = Some (r, y')"
        using z(1) cmp False even v(1) u(1) r(1) w by (subst pow2.simps) (simp add: value2_bit)
      ultimately show ?thesis using r(2,3) u(5,6) by (simp add: n_def)
    qed
  qed
qed

end
