(* ===== verification/Vvp_C4string.thy ===== *)
theory Vvp_C4string
  imports Vvp_Value4
begin

text \<open>
  The text form \<open>C4<...>\<close> of a four-state vector, read back (vvp/vvp_net.cc): \<open>c4string_test\<close> and
  \<open>c4string_to_vector4\<close>. A C string is the list of its characters before the terminating NUL.
\<close>

section \<open>Definitions\<close>

definition cstr_at :: "string \<Rightarrow> nat \<Rightarrow> char" where
  "cstr_at str i = (if i < length str then str ! i else CHR 0x00)"

text \<open>\<open>strspn\<close> of the C library.\<close>

definition strspn :: "string \<Rightarrow> string \<Rightarrow> nat" where
  "strspn str accept = length (takeWhile (\<lambda>c. c \<in> set accept) str)"

definition c4string_header_test :: "string \<Rightarrow> bool" where
  "c4string_header_test str \<longleftrightarrow>
     (if cstr_at str 0 \<noteq> CHR ''C'' \<and> cstr_at str 0 \<noteq> CHR ''c'' then False
      else if cstr_at str 1 \<noteq> CHR ''4'' \<or> cstr_at str 2 \<noteq> CHR ''<'' then False
      else True)"

definition c4string_test :: "string \<Rightarrow> bool" where
  "c4string_test str \<longleftrightarrow>
     (if \<not> c4string_header_test str then False
      else let value_size = strspn (drop 3 str) ''01xz''
           in if cstr_at str (3 + value_size) \<noteq> CHR ''>'' then False
              else if cstr_at str (3 + value_size + 1) \<noteq> CHR 0x00 then False
              else True)"

definition c4string_bit :: "char \<Rightarrow> vvp_bit4_t option" where
  "c4string_bit c =
     (if c = CHR ''0'' then Some BIT4_0
      else if c = CHR ''1'' then Some BIT4_1
      else if c = CHR ''x'' then Some BIT4_X
      else if c = CHR ''z'' then Some BIT4_Z
      else None)"

text \<open>The loop of \<open>c4string_to_vector4\<close>, after \<open>idx\<close> rounds.\<close>

fun c4string_loop :: "string \<Rightarrow> nat \<Rightarrow> vvp_vector4_t \<Rightarrow> vvp_vector4_t option" where
  "c4string_loop str 0 tmp = Some tmp"
| "c4string_loop str (Suc idx) tmp =
     do { tmp \<leftarrow> c4string_loop str idx tmp;
          b \<leftarrow> c4string_bit (cstr_at str idx);
          set_bit4 tmp (size4 tmp - idx - 1) b }"

definition c4string_to_vector4 :: "string \<Rightarrow> vvp_vector4_t option" where
  "c4string_to_vector4 str =
     (if \<not> c4string_header_test str then None
      else let str = drop 3 str; tp = strspn str ''01xz''
           in if cstr_at str tp \<noteq> CHR ''>'' then None
              else c4string_loop str tp (vector4_fill tp BIT4_X))"

section \<open>Reading\<close>

lemma c4string_bit_accept: "c \<in> set ''01xz'' \<Longrightarrow> \<exists>b. c4string_bit c = Some b"
  by (auto simp: c4string_bit_def)

lemma c4string_bit_ascii [simp]: "c4string_bit (vvp_bit4_to_ascii b) = Some b" "vvp_bit4_to_ascii b \<in> set ''01xz''"
  by (cases b; simp add: c4string_bit_def vvp_bit4_to_ascii_def)+

lemma c4string_loop_ok:
  assumes "wf4 v" "n \<le> size4 v" "\<And>i. i < n \<Longrightarrow> c4string_bit (cstr_at str i) = Some (f i)"
  shows "\<exists>u. c4string_loop str n v = Some u \<and> wf4 u \<and> size4 u = size4 v \<and>
    bits4 u = take (size4 v - n) (bits4 v) @ rev (map f [0..<n])"
  using assms(2,3)
proof (induction n)
  case 0
  then show ?case using assms(1) by simp
next
  case (Suc n)
  then obtain u where u: "c4string_loop str n v = Some u" "wf4 u" "size4 u = size4 v"
    "bits4 u = take (size4 v - n) (bits4 v) @ rev (map f [0..<n])" by auto
  have i: "size4 u - n - 1 < size4 u" using Suc.prems(1) u(3) by simp
  obtain w where w: "set_bit4 u (size4 u - n - 1) (f n) = Some w" "wf4 w" "size4 w = size4 u"
    "bits4 w = (bits4 u)[size4 u - n - 1 := f n]" using v4.set_ok [OF u(2) i] by auto
  have "take (size4 v - n) (bits4 v) = take (size4 v - Suc n) (bits4 v) @ [bits4 v ! (size4 v - Suc n)]"
    using Suc.prems(1) take_Suc_conv_app_nth [of "size4 v - Suc n" "bits4 v"] by (simp add: Suc_diff_Suc)
  then have "bits4 w = take (size4 v - Suc n) (bits4 v) @ rev (map f [0..<Suc n])"
    using u(3,4) w(4) Suc.prems(1) by (simp add: list_update_append)
  then show ?case using u w Suc.prems(2) [of n] by simp
qed

lemma strspn_bits: "\<forall>c \<in> set cs. c \<in> set ''01xz'' \<Longrightarrow> strspn (cs @ ''>'' @ rest) ''01xz'' = length cs"
  by (induction cs) (auto simp: strspn_def)

lemma c4string_text:
  assumes "\<forall>c \<in> set cs. c \<in> set ''01xz''"
  shows "\<exists>u. c4string_to_vector4 (''C4<'' @ cs @ ''>'') = Some u \<and> wf4 u \<and> bits4 u = rev (map (the \<circ> c4string_bit) cs)"
    "c4string_test (''C4<'' @ cs @ ''>'')"
proof -
  have sp: "strspn (cs @ ''>'') ''01xz'' = length cs" using strspn_bits [OF assms, of "[]"] by simp
  have h: "c4string_header_test (''C4<'' @ cs @ ''>'')" by (simp add: c4string_header_test_def cstr_at_def)
  have b: "c4string_bit (cstr_at (cs @ ''>'') i) = Some (the (c4string_bit (cs ! i)))" if "i < length cs" for i
    using that c4string_bit_accept [of "cs ! i"] assms by (auto simp: cstr_at_def nth_append)
  have "map (\<lambda>i. the (c4string_bit (cs ! i))) [0..<length cs] = map (the \<circ> c4string_bit) cs"
    by (intro nth_equalityI) simp_all
  then show "\<exists>u. c4string_to_vector4 (''C4<'' @ cs @ ''>'') = Some u \<and> wf4 u \<and> bits4 u = rev (map (the \<circ> c4string_bit) cs)"
    using c4string_loop_ok [of "vector4_fill (length cs) BIT4_X" "length cs" "cs @ ''>''", OF _ _ b] h sp
    by (auto simp: c4string_to_vector4_def cstr_at_def nth_append Let_def)
  show "c4string_test (''C4<'' @ cs @ ''>'')" using h sp by (simp add: c4string_test_def cstr_at_def nth_append)
qed

text \<open>Every string that passes the test has that form.\<close>

lemma c4string_test_form:
  assumes "c4string_test str" "CHR 0x00 \<notin> set str"
  shows "\<exists>cs. drop 3 str = cs @ ''>'' \<and> (\<forall>c \<in> set cs. c \<in> set ''01xz'') \<and> c4string_header_test str"
proof -
  define s n where "s = drop 3 str" and "n = strspn (drop 3 str) ''01xz''"
  have h: "c4string_header_test str" and e: "cstr_at str (3 + n) = CHR ''>''" "cstr_at str (3 + n + 1) = CHR 0x00"
    using assms(1) by (auto simp: c4string_test_def Let_def n_def split: if_splits)
  have l: "3 + n < length str" using e(1) by (auto simp: cstr_at_def split: if_splits)
  have "\<not> 3 + n + 1 < length str" using e(2) assms(2) nth_mem by (fastforce simp: cstr_at_def)
  then have len: "length s = n + 1" using l by (simp add: s_def)
  have "s ! n = CHR ''>''" using e(1) l by (simp add: cstr_at_def s_def)
  then have "s = take n s @ ''>''" using len take_Suc_conv_app_nth [of n s] by simp
  moreover have "take n s = takeWhile (\<lambda>c. c \<in> set ''01xz'') s"
    by (metis n_def s_def strspn_def takeWhile_eq_take)
  ultimately show ?thesis using h set_takeWhileD unfolding s_def by metis
qed

end
