(* ===== verification/Vvp2_Props.thy ===== *)
theory Vvp2_Props
  imports Vvp_Div2 Vvp_C4string
begin

text \<open>
  The properties of the simulator's two-state vectors and of the text form of four-state vectors, with an instance
  on concrete vectors where a property has hypotheses. \<open>uval2\<close> is the number that a vector holds, and \<open>clean2\<close>
  says that its last word has no bits above the width.
\<close>

text \<open>The concrete vectors of the instances.\<close>

definition num2 :: "ulong \<Rightarrow> nat \<Rightarrow> vvp_vector2_t" where
  "num2 x n = \<lparr>wid2 = n, vec2 = x # replicate (nwords n - 1) 0\<rparr>"

lemma num2_simps [simp]:
  "wid2 (num2 x n) = n" "0 < n \<Longrightarrow> wf2 (num2 x n)" "clean2 (num2 x n) \<longleftrightarrow> uint x < 2 ^ n" "uval2 (num2 x n) = take_bit n (uint x)"
proof -
  have z: "wval (replicate m 0) = 0" for m by (induction m) simp_all
  show "0 < n \<Longrightarrow> wf2 (num2 x n)" using nwords_bound [of 0 n] by (simp add: num2_def wf2_def)
  show "wid2 (num2 x n) = n" "clean2 (num2 x n) \<longleftrightarrow> uint x < 2 ^ n" "uval2 (num2 x n) = take_bit n (uint x)"
    by (simp_all add: num2_def clean2_def uval2_def z)
qed

section \<open>Division and power\<close>

text \<open>
  C31. Division of two-state vectors terminates, and gives the quotient and the remainder of the numbers. The exception
  is a divisor of 1 with a dividend above half of the range: there the mask is shifted out of its vector and the
  quotient is 0. Division by zero exits. (The widths leave out those where the mask shifts by the word size.)
\<close>

theorem div_mod2_correct:
  assumes "wf2 D" "clean2 D" "wid2 D = n" "wf2 d" "clean2 d" "wid2 d = n" "n mod 64 \<noteq> 0" "(n + 1) mod 64 \<noteq> 0"
  shows "if uval2 d = 0 then div2 D d = None \<and> mod2 D d = None
    else \<exists>q r. div2 D d = Some q \<and> mod2 D d = Some r \<and> wf2 q \<and> wf2 r \<and> clean2 q \<and> clean2 r \<and> wid2 q = n \<and> wid2 r = n \<and>
      uval2 r = uval2 D mod uval2 d \<and>
      uval2 q = (if uval2 d = 1 \<and> 2 ^ (n - 1) < uval2 D then 0 else uval2 D div uval2 d)"
proof (cases "uval2 d = 0")
  case True
  have n: "0 < n" using assms(7) by (auto intro: gr_zeroI)
  obtain z where z: "vector2_ulong 0 n = Some z" "wf2 z" "clean2 z" "uval2 z = 0"
    using vector2_ulong_ok [OF n, of 0] by (auto simp: uval2_clean)
  have "eq2 d z" using compare2_ok(4) assms z True by simp
  then show ?thesis using True z(1) assms(3) by (simp add: div2_def mod2_def div_mod2_def)
next
  case False
  then show ?thesis using div_mod2_ok [OF assms(1-6) False assms(7,8)] by (auto simp: div2_def mod2_def)
qed

theorem div_mod2_correct_witness:
  "\<exists>q r. div2 (num2 100 70) (num2 7 70) = Some q \<and> mod2 (num2 100 70) (num2 7 70) = Some r \<and> uval2 q = 14 \<and> uval2 r = 2"
  using div_mod2_correct [of "num2 100 70" 70 "num2 7 70"] by (auto simp: take_bit_eq_mod)

text \<open>
  C32. The power of two-state vectors terminates, and is the power of the numbers modulo the width of the base; the
  exponent is left at zero.
\<close>

theorem pow2_correct:
  assumes "wf2 x" "0 < wid2 x" "wf2 y" "clean2 y"
  shows "\<exists>u y'. pow2 x y = Some (u, y') \<and> wf2 u \<and> wid2 u = wid2 x \<and> uval2 y' = 0 \<and>
    uval2 u = uval2 x ^ nat (uval2 y) mod 2 ^ wid2 x"
  using pow2_ok [OF assms] by (auto simp: take_bit_eq_mod)

theorem pow2_correct_witness: "\<exists>u y'. pow2 (num2 3 70) (num2 5 70) = Some (u, y') \<and> uval2 u = 243"
  using pow2_correct [of "num2 3 70" "num2 5 70"] by (auto simp: take_bit_eq_mod)

section \<open>Arithmetic and shifts\<close>

text \<open>
  Addition, subtraction and negation of two-state vectors are those of the numbers modulo the width, and abort
  on different widths. Addition and negation leave the bits above the width clear.
\<close>

theorem add_sub2_correct:
  assumes "wf2 a" "wf2 b" "wid2 a mod 64 \<noteq> 0"
  shows "if wid2 b = wid2 a then
      (\<exists>s t u. add_assign2 a b = Some s \<and> sub_assign2 a b = Some t \<and> neg2 a = Some u \<and>
        wf2 s \<and> clean2 s \<and> wid2 s = wid2 a \<and> wf2 t \<and> wid2 t = wid2 a \<and> wf2 u \<and> clean2 u \<and> wid2 u = wid2 a \<and>
        uval2 s = (uval2 a + uval2 b) mod 2 ^ wid2 a \<and> uval2 t = (uval2 a - uval2 b) mod 2 ^ wid2 a \<and>
        uval2 u = - uval2 a mod 2 ^ wid2 a)
    else add_assign2 a b = None \<and> sub_assign2 a b = None"
proof (cases "wid2 b = wid2 a")
  case True
  have "(wval (vec2 a) + wval (vec2 b)) mod 2 ^ wid2 a = (uval2 a + uval2 b) mod 2 ^ wid2 a"
    "(wval (vec2 a) - wval (vec2 b)) mod 2 ^ wid2 a = (uval2 a - uval2 b) mod 2 ^ wid2 a"
    using True by (simp_all add: uval2_def take_bit_eq_mod mod_add_eq mod_diff_eq)
  then show ?thesis
    using add_assign2_ok [OF assms(1,2) True assms(3)] sub_assign2_ok [OF assms(1,2) True] neg2_ok [OF assms(1,3)] True
    by (auto simp: take_bit_eq_mod)
qed (simp add: add_assign2_def sub_assign2_def)

theorem add_sub2_correct_witness:
  "\<exists>t. sub_assign2 (num2 5 70) (num2 7 70) = Some t \<and> uval2 t = 2 ^ 70 - 2"
  using add_sub2_correct [of "num2 5 70" "num2 7 70"] by (auto simp: take_bit_eq_mod)

text \<open>
  Multiplication of two-state vectors of one positive width is that of the numbers modulo the width; it aborts on
  different widths.
\<close>

theorem mul2_correct:
  assumes "wf2 a" "wf2 b" "0 < wid2 a"
  shows "if wid2 b = wid2 a
    then \<exists>u. mul2 a b = Some u \<and> wf2 u \<and> wid2 u = wid2 a \<and> uval2 u = uval2 a * uval2 b mod 2 ^ wid2 a
    else mul2 a b = None"
  using mul2_ok [OF assms(1,2)] assms(3) by (auto simp: mul2_def take_bit_eq_mod)

theorem mul2_correct_witness: "\<exists>u. mul2 (num2 (- 1) 70) (num2 (- 1) 70) = Some u \<and> uval2 u = (2 ^ 64 - 1) ^ 2 mod 2 ^ 70"
  using mul2_correct [of "num2 (- 1) 70" "num2 (- 1) 70"] by (auto simp: take_bit_eq_mod uint_minus_1 power2_eq_square)

text \<open>
  The shifts of two-state vectors multiply by a power of two modulo the width and divide by it. A right shift by more
  than the width within the first word fails the assertion of \<open>operator >>=\<close>.
\<close>

theorem shift2_correct:
  assumes "wf2 v" "clean2 v" "0 < wid2 v"
  shows "(shift mod 64 = 0 \<or> wid2 v mod 64 \<noteq> 0 \<longrightarrow> wf2 (shl2 v shift) \<and> wid2 (shl2 v shift) = wid2 v \<and>
      uval2 (shl2 v shift) = uval2 v * 2 ^ shift mod 2 ^ wid2 v) \<and>
    (if wid2 v < shift \<and> shift < 64 then shr2 v shift = None
     else \<exists>u. shr2 v shift = Some u \<and> wf2 u \<and> clean2 u \<and> wid2 u = wid2 v \<and> uval2 u = uval2 v div 2 ^ shift)"
  using shl2_ok [OF assms(1), of shift] shr2_abort [OF assms(3), of shift] shr2_ok [OF assms(1,2), of shift]
  by (auto simp: take_bit_eq_mod drop_bit_eq_div mult.commute)

theorem shift2_correct_witness:
  "(\<exists>u. shr2 (num2 100 70) 5 = Some u \<and> uval2 u = 3) \<and> uval2 (shl2 (num2 100 70) 68) = 0 \<and> shr2 (num2 1 10) 11 = None"
  using shift2_correct [of "num2 100 70" 5] shift2_correct [of "num2 100 70" 68] shift2_correct [of "num2 1 10" 11]
  by (auto simp: take_bit_eq_mod)

section \<open>Comparison, conversion and trimming\<close>

text \<open>The comparison operators of two-state vectors of any widths compare the numbers; \<open><=\<close> asks for one width.\<close>

lemma compare2_correct:
  assumes "wf2 a" "wf2 b" "clean2 a" "clean2 b"
  shows "gt2 a b = (uval2 a > uval2 b) \<and> ge2 a b = (uval2 a \<ge> uval2 b) \<and> lt2 a b = (uval2 a < uval2 b) \<and>
    eq2 a b = (uval2 a = uval2 b) \<and> le2 a b = (if wid2 a = wid2 b then Some (uval2 a \<le> uval2 b) else None) \<and>
    is_zero2 a = (uval2 a = 0)"
  using compare2_ok [OF assms] is_zero2_ok [OF assms(1,3)] by (simp add: le2_def)

lemma compare2_correct_witness: "gt2 (num2 7 70) (num2 5 10) \<and> le2 (num2 7 70) (num2 5 10) = None"
  using compare2_correct [of "num2 7 70" "num2 5 10"] by (simp add: take_bit_eq_mod)

text \<open>
  A four-state vector read as a two-state one and back is the vector with X and Z read as 0, extended by 0; with the
  NaN flag set, an X or a Z makes the two-state vector NaN.
\<close>

theorem convert2_roundtrip:
  assumes "wf4 v" "0 < size4 v"
  shows "if nan \<and> list_ex bit4_is_xz (bits4 v) then \<exists>t. vector2_of4 v nan = Some t \<and> is_NaN t
    else \<exists>t u. vector2_of4 v nan = Some t \<and> \<not> is_NaN t \<and> clean2 t \<and> vector2_to_vector4 t n = Some u \<and> wf4 u \<and>
      bits4 u = take n (map (\<lambda>b. if b = BIT4_1 then BIT4_1 else BIT4_0) (bits4 v) @ replicate (n - size4 v) BIT4_0)"
proof -
  obtain t where t: "copy_from_that v = Some t" "wf2 t" "clean2 t" "wid2 t = size4 v" "bits2 t = map (\<lambda>b. b = BIT4_1) (bits4 v)"
    using copy_from_that_ok [OF assms(1)] by auto
  obtain u where u: "vector2_to_vector4 t n = Some u" "wf4 u"
    "bits4 u = map (\<lambda>i. if i < wid2 t \<and> bits2 t ! i then BIT4_1 else BIT4_0) [0..<n]"
    using vector2_to_vector4_ok [of t n] by auto
  have "bits4 u = take n (map (\<lambda>b. if b = BIT4_1 then BIT4_1 else BIT4_0) (bits4 v) @ replicate (n - size4 v) BIT4_0)"
    unfolding u(3) t(4,5) by (intro nth_equalityI) (auto simp: nth_append)
  then show ?thesis using t u assms has_xz_iff [OF assms(2)] by (auto simp: vector2_of4_def is_NaN_def)
qed

theorem convert2_roundtrip_witness:
  "(\<exists>t. vector2_of4 (vector4_fill 3 BIT4_X) True = Some t \<and> is_NaN t) \<and>
   (\<exists>t u. vector2_of4 (vector4_fill 3 BIT4_1) True = Some t \<and> vector2_to_vector4 t 4 = Some u \<and> bits4 u = [BIT4_1, BIT4_1, BIT4_1, BIT4_0])"
proof -
  have "list_ex bit4_is_xz (bits4 (vector4_fill 3 BIT4_X))" "\<not> list_ex bit4_is_xz (bits4 (vector4_fill 3 BIT4_1))"
    by (simp_all add: bit4_is_xz_iff bits4_fill numeral_3_eq_3)
  then show ?thesis
    using convert2_roundtrip [of "vector4_fill 3 BIT4_X" True 0] convert2_roundtrip [of "vector4_fill 3 BIT4_1" True 4]
    by (auto simp: bits4_fill numeral_eq_Suc)
qed

text \<open>
  Trimming drops leading zeros and keeps the number; the trim of negative numbers drops copies of the sign bit, keeps
  the signed number and leaves at least 32 bits.
\<close>

lemma trim2_correct:
  assumes "0 < wid2 v"
  shows "ubits (bits2 (trim2 v)) = ubits (bits2 v) \<and> wid2 (trim2 v) \<le> wid2 v \<and> (wid2 (trim2 v) \<le> 1 \<or> last (bits2 (trim2 v))) \<and>
    sbits (bits2 (trim_neg2 v)) = sbits (bits2 v) \<and> wid2 (trim_neg2 v) \<le> wid2 v \<and> (32 \<le> wid2 (trim_neg2 v) \<or> wid2 (trim_neg2 v) = wid2 v)"
proof -
  obtain m where m: "m \<le> wid2 v" "bits2 (trim2 v) = take m (bits2 v)" "ubits (take m (bits2 v)) = ubits (bits2 v)"
    "m \<le> 1 \<or> bits2 v ! (m - 1)" using trim2_ok [of v] by blast
  obtain k where k: "k \<le> wid2 v" "32 \<le> k \<or> k = wid2 v" "bits2 (trim_neg2 v) = take k (bits2 v)"
    "sbits (take k (bits2 v)) = sbits (bits2 v)" using trim_neg2_ok [OF assms] by blast
  have w: "wid2 (trim2 v) = m" "wid2 (trim_neg2 v) = k"
    using m(1,2) k(1,3) length_bits2 [of "trim2 v"] length_bits2 [of "trim_neg2 v"] by simp_all
  have "last (take m (bits2 v)) = bits2 v ! (m - 1)" if "1 < m"
    using that m(1) length_bits2 [of v] by (subst last_conv_nth) (auto simp del: length_bits2)
  then have "m \<le> 1 \<or> last (take m (bits2 v))" using m(4) by linarith
  then show ?thesis using m k w by simp
qed

lemma trim2_correct_witness: "ubits (bits2 (trim2 (num2 5 70))) = ubits (bits2 (num2 5 70))"
  using trim2_correct [of "num2 5 70"] by simp

section \<open>The text form\<close>

text \<open>
  A four-state vector printed into a buffer that is long enough passes the test for the \<open>C4<...>\<close> form and reads back
  as itself; and every string that passes the test can be read.
\<close>

theorem c4string_roundtrip:
  assumes "size4 v + 5 \<le> unat buf_len"
  shows "c4string_test (takeWhile (\<lambda>c. c \<noteq> CHR 0x00) (as_string4 v buf_len)) \<and>
    (\<exists>u. c4string_to_vector4 (takeWhile (\<lambda>c. c \<noteq> CHR 0x00) (as_string4 v buf_len)) = Some u \<and> wf4 u \<and> bits4 u = bits4 v) \<and>
    (c4string_test str \<and> CHR 0x00 \<notin> set str \<longrightarrow> (\<exists>u. c4string_to_vector4 str = Some u \<and> wf4 u \<and> size4 u + 4 = length str))"
proof -
  let ?cs = "map vvp_bit4_to_ascii (rev (bits4 v))"
  have ok: "\<forall>c \<in> set ?cs. c \<in> set ''01xz''" using c4string_bit_ascii(2) by (metis (no_types) imageE set_map)
  then have "takeWhile (\<lambda>c. c \<noteq> CHR 0x00) (?cs @ ''>'' @ [CHR 0x00]) = ?cs @ ''>''"
    by (subst takeWhile_append2) auto
  then have form: "takeWhile (\<lambda>c. c \<noteq> CHR 0x00) (as_string4 v buf_len) = ''C4<'' @ ?cs @ ''>''"
    using as_string4_text [of v buf_len] assms by simp
  have read: "rev (map (the \<circ> c4string_bit) ?cs) = bits4 v" by (simp add: rev_map comp_def)
  have "\<exists>u. c4string_to_vector4 str = Some u \<and> wf4 u \<and> size4 u + 4 = length str"
    if str: "c4string_test str" "CHR 0x00 \<notin> set str"
  proof -
    obtain cs where cs: "drop 3 str = cs @ ''>''" "\<forall>c \<in> set cs. c \<in> set ''01xz''" "c4string_header_test str"
      using c4string_test_form [OF str] by auto
    have "c4string_to_vector4 str = c4string_to_vector4 (''C4<'' @ cs @ ''>'')"
      using cs(1,3) by (simp add: c4string_to_vector4_def) (simp add: c4string_header_test_def cstr_at_def)
    moreover have "length str = length cs + 4" using arg_cong [OF cs(1), of length] by simp
    ultimately show ?thesis using c4string_text(1) [OF cs(2)] by (auto simp flip: length_bits4)
  qed
  then show ?thesis unfolding form using c4string_text [OF ok] read by auto
qed

theorem c4string_roundtrip_witness:
  "\<exists>u. c4string_to_vector4 (takeWhile (\<lambda>c. c \<noteq> CHR 0x00) (as_string4 (vector4_fill 70 BIT4_Z) 80)) = Some u \<and>
     bits4 u = replicate 70 BIT4_Z"
  using c4string_roundtrip [of "vector4_fill 70 BIT4_Z" 80 "[]"] by (auto simp: bits4_fill)

end
