(* ===== verification/Vvp_EventList.thy ===== *)
theory Vvp_EventList
  imports Prelude
begin

text \<open>
  The event lists of the scheduler (vvp/schedule.cc): circular lists linked by \<open>next\<close>, with a pointer to the last
  cell. The store maps the address of an event to the address in its \<open>next\<close> field. The three operations are
  those of a list that is filled at its end (or pushed at its front) and emptied from its front.
\<close>

section \<open>Definitions\<close>

type_synonym event_ptr = nat
type_synonym next_store = "event_ptr \<Rightarrow> event_ptr"

text \<open>The end of \<open>schedule_event_\<close>, which first makes \<open>cur\<close> point to itself.\<close>

definition put_event :: "event_ptr \<Rightarrow> next_store \<times> event_ptr option \<Rightarrow> next_store \<times> event_ptr option" where
  "put_event cur = (\<lambda>(nxt, q).
     let nxt = nxt(cur := cur)
     in case q of
          None \<Rightarrow> (nxt, Some cur)
        | Some p \<Rightarrow> let nxt = nxt(cur := nxt p); nxt = nxt(p := cur) in (nxt, Some cur))"

text \<open>\<open>schedule_init_event\<close> and \<open>schedule_final_event\<close>.\<close>

definition init_event_ptr :: "event_ptr \<Rightarrow> next_store \<times> event_ptr option \<Rightarrow> next_store \<times> event_ptr option" where
  "init_event_ptr cur = (\<lambda>(nxt, q).
     case q of
       None \<Rightarrow> (nxt(cur := cur), Some cur)
     | Some p \<Rightarrow> let nxt = nxt(cur := nxt p); nxt = nxt(p := cur) in (nxt, Some cur))"

text \<open>The end of \<open>schedule_event_push_\<close>, which leaves the pointer at the last cell.\<close>

definition push_event :: "event_ptr \<Rightarrow> next_store \<times> event_ptr option \<Rightarrow> next_store \<times> event_ptr option" where
  "push_event cur = (\<lambda>(nxt, q).
     case q of
       None \<Rightarrow> (nxt(cur := cur), Some cur)
     | Some p \<Rightarrow> let nxt = nxt(cur := nxt p); nxt = nxt(p := cur) in (nxt, Some p))"

text \<open>How every loop of the scheduler takes the first event off a list; the null pointer ends the loop.\<close>

definition pull_event :: "next_store \<times> event_ptr option \<Rightarrow> (event_ptr \<times> next_store \<times> event_ptr option) option" where
  "pull_event = (\<lambda>(nxt, q).
     case q of
       None \<Rightarrow> None
     | Some p \<Rightarrow> let cur = nxt p
                 in if nxt cur = cur then Some (cur, nxt, None)
                    else let nxt = nxt(p := nxt cur) in Some (cur, nxt, Some p))"

section \<open>The interface\<close>

text \<open>Sequences of operations on a queue, with what the pulls return.\<close>

datatype 'e qop = Put 'e | Push 'e | Pull

fun run_ops :: "('e \<Rightarrow> 'q \<Rightarrow> 'q) \<Rightarrow> ('e \<Rightarrow> 'q \<Rightarrow> 'q) \<Rightarrow> ('q \<Rightarrow> ('e \<times> 'q) option) \<Rightarrow> 'e qop list \<Rightarrow> 'q \<Rightarrow> 'e option list" where
  "run_ops put push pull [] q = []"
| "run_ops put push pull (Put e # ops) q = run_ops put push pull ops (put e q)"
| "run_ops put push pull (Push e # ops) q = run_ops put push pull ops (push e q)"
| "run_ops put push pull (Pull # ops) q =
     (case pull q of None \<Rightarrow> None # run_ops put push pull ops q
      | Some (e, q') \<Rightarrow> Some e # run_ops put push pull ops q')"

text \<open>The queue as a list, which the model of the scheduler uses.\<close>

definition list_put :: "'e \<Rightarrow> 'e list \<Rightarrow> 'e list" where "list_put e xs = xs @ [e]"
definition list_push :: "'e \<Rightarrow> 'e list \<Rightarrow> 'e list" where "list_push e xs = e # xs"
definition list_pull :: "'e list \<Rightarrow> ('e \<times> 'e list) option" where
  "list_pull xs = (case xs of [] \<Rightarrow> None | e # es \<Rightarrow> Some (e, es))"

lemma list_pull_simps [simp]: "list_pull [] = None" "list_pull (e # es) = Some (e, es)"
  by (simp_all add: list_pull_def)

text \<open>
  An implementation of the queue: \<open>rel q xs\<close> says that \<open>q\<close> holds the events \<open>xs\<close>. An event may be added only while
  it is not in the queue.
\<close>

locale event_queue =
  fixes put push :: "'e \<Rightarrow> 'q \<Rightarrow> 'q"
    and pull :: "'q \<Rightarrow> ('e \<times> 'q) option"
    and rel :: "'q \<Rightarrow> 'e list \<Rightarrow> bool"
  assumes put_ok: "rel q xs \<Longrightarrow> e \<notin> set xs \<Longrightarrow> rel (put e q) (xs @ [e])"
    and push_ok: "rel q xs \<Longrightarrow> e \<notin> set xs \<Longrightarrow> rel (push e q) (e # xs)"
    and pull_empty: "rel q [] \<Longrightarrow> pull q = None"
    and pull_ok: "rel q (x # xs) \<Longrightarrow> \<exists>q'. pull q = Some (x, q') \<and> rel q' xs"
begin

text \<open>Every sequence of operations that adds fresh events pulls the same events as on the list.\<close>

lemma run_ops_list:
  assumes "rel q xs" "distinct (xs @ concat (map (\<lambda>op. case op of Put e \<Rightarrow> [e] | Push e \<Rightarrow> [e] | Pull \<Rightarrow> []) ops))"
  shows "run_ops put push pull ops q = run_ops list_put list_push list_pull ops xs"
  using assms
proof (induction ops arbitrary: q xs)
  case (Cons op ops)
  show ?case
  proof (cases op)
    case (Put e)
    then show ?thesis using Cons put_ok [of q xs e] by (simp add: list_put_def)
  next
    case (Push e)
    then show ?thesis using Cons push_ok [of q xs e] by (simp add: list_push_def)
  next
    case Pull
    show ?thesis
    proof (cases xs)
      case Nil
      then show ?thesis using Pull Cons pull_empty [of q] by simp
    next
      case (Cons x ys)
      then obtain q' where q': "pull q = Some (x, q')" "rel q' ys" using Cons.prems(1) pull_ok by blast
      have "run_ops put push pull ops q' = run_ops list_put list_push list_pull ops ys"
        using Cons.IH [OF q'(2)] Cons.prems(2) Cons Pull by simp
      then show ?thesis using Pull Cons q'(1) by simp
    qed
  qed
qed simp

end

section \<open>The circular lists\<close>

fun chain :: "next_store \<Rightarrow> event_ptr list \<Rightarrow> bool" where
  "chain nxt (a # b # xs) \<longleftrightarrow> nxt a = b \<and> chain nxt (b # xs)"
| "chain nxt _ \<longleftrightarrow> True"

definition circ :: "next_store \<times> event_ptr option \<Rightarrow> event_ptr list \<Rightarrow> bool" where
  "circ st xs \<longleftrightarrow> distinct xs \<and> chain (fst st) xs \<and>
     (if xs = [] then snd st = None else snd st = Some (last xs) \<and> fst st (last xs) = hd xs)"

lemma chain_upd: "u \<notin> set (butlast xs) \<Longrightarrow> chain (nxt(u := v)) xs = chain nxt xs"
  by (induction nxt xs rule: chain.induct) auto

lemma chain_snoc: "chain nxt (xs @ [a]) \<longleftrightarrow> chain nxt xs \<and> (xs \<noteq> [] \<longrightarrow> nxt (last xs) = a)"
  by (induction nxt xs rule: chain.induct) auto

lemma chain_Cons: "chain nxt (a # xs) \<longleftrightarrow> (xs \<noteq> [] \<longrightarrow> nxt a = hd xs) \<and> chain nxt xs"
  by (cases xs) auto

lemma last_not_butlast: "distinct xs \<Longrightarrow> xs \<noteq> [] \<Longrightarrow> last xs \<notin> set (butlast xs)"
  by (induction xs rule: rev_induct) auto

lemma circ_put: "circ st xs \<Longrightarrow> e \<notin> set xs \<Longrightarrow> circ (put_event e st) (xs @ [e])"
proof (cases st)
  case (Pair nxt q)
  assume c: "circ st xs" and e: "e \<notin> set xs"
  show ?thesis
  proof (cases "xs = []")
    case True
    then show ?thesis using c Pair by (simp add: circ_def put_event_def)
  next
    case False
    have "e \<noteq> last xs" "e \<notin> set (butlast xs)" using e False by (auto dest: in_set_butlastD)
    then show ?thesis
      using c e Pair False last_not_butlast [of xs]
      by (auto simp: circ_def put_event_def Let_def chain_snoc chain_upd)
  qed
qed

lemma circ_push: "circ st xs \<Longrightarrow> e \<notin> set xs \<Longrightarrow> circ (push_event e st) (e # xs)"
proof (cases st)
  case (Pair nxt q)
  assume c: "circ st xs" and e: "e \<notin> set xs"
  show ?thesis
  proof (cases "xs = []")
    case True
    then show ?thesis using c Pair by (simp add: circ_def push_event_def)
  next
    case False
    have "e \<noteq> last xs" "e \<notin> set (butlast xs)" using e False by (auto dest: in_set_butlastD)
    then show ?thesis
      using c e Pair False last_not_butlast [of xs]
      by (auto simp: circ_def push_event_def Let_def chain_Cons chain_upd)
  qed
qed

lemma circ_pull:
  assumes "circ st (x # xs)"
  shows "\<exists>st'. pull_event st = Some (x, st') \<and> circ st' xs"
proof (cases st)
  case (Pair nxt q)
  show ?thesis
  proof (cases "xs = []")
    case True
    then show ?thesis using assms Pair by (simp add: circ_def pull_event_def)
  next
    case False
    have q: "q = Some (last xs)" "nxt (last xs) = x" "nxt x = hd xs" "chain nxt xs" "distinct xs" "x \<notin> set xs"
      using assms Pair False by (auto simp: circ_def chain_Cons)
    then have "nxt x \<noteq> x" using False by (metis hd_in_set)
    then have "pull_event st = Some (x, nxt(last xs := hd xs), Some (last xs))"
      using q Pair by (simp add: pull_event_def Let_def)
    moreover have "circ (nxt(last xs := hd xs), Some (last xs)) xs"
      using q False last_not_butlast [of xs] by (simp add: circ_def chain_upd)
    ultimately show ?thesis by blast
  qed
qed

text \<open>The lists of initial and final events are filled in the same way.\<close>

lemma init_event_put: "circ st xs \<Longrightarrow> e \<notin> set xs \<Longrightarrow> init_event_ptr e st = put_event e st"
proof (cases st)
  case (Pair nxt q)
  assume "circ st xs" "e \<notin> set xs"
  then have "q = Some p \<Longrightarrow> p \<noteq> e" for p using Pair last_in_set [of xs] by (cases "xs = []") (auto simp: circ_def)
  then show ?thesis using Pair by (cases q) (simp_all add: init_event_ptr_def put_event_def Let_def)
qed

interpretation circular: event_queue put_event push_event pull_event circ
proof
  show "circ q [] \<Longrightarrow> pull_event q = None" for q by (cases q) (simp add: circ_def pull_event_def)
qed (rule circ_put circ_push circ_pull; assumption)+

interpretation listq: event_queue list_put list_push list_pull "(=)"
  by unfold_locales (auto simp: list_put_def list_push_def)

text \<open>Linking an event into one list leaves every list that shares no cell with it alone.\<close>

lemma circ_frame:
  assumes "circ (nxt, q) xs" "circ (nxt, q') ys" "set xs \<inter> set ys = {}" "e \<notin> set ys"
  shows "circ (fst (put_event e (nxt, q)), q') ys" "circ (fst (push_event e (nxt, q)), q') ys"
    "pull_event (nxt, q) = Some (x, nxt', r) \<Longrightarrow> circ (nxt', q') ys"
proof -
  have upd: "circ (n(u := v), q') ys" if "circ (n, q') ys" "u \<notin> set ys" for n u v
    using that chain_upd [of u ys n v] by (cases "ys = []") (auto simp: circ_def dest: in_set_butlastD)
  have q: "q = None \<or> (\<exists>p. q = Some p \<and> p \<notin> set ys)"
    using assms(1,3) by (cases "xs = []") (simp_all add: circ_def, metis disjoint_iff last_in_set)
  show "circ (fst (put_event e (nxt, q)), q') ys" "circ (fst (push_event e (nxt, q)), q') ys"
    using q assms(2,4) by (auto simp: put_event_def push_event_def Let_def intro!: upd)
  show "circ (nxt', q') ys" if "pull_event (nxt, q) = Some (x, nxt', r)"
    using q assms(2) that by (auto simp: pull_event_def Let_def intro!: upd split: if_splits)
qed

end
