(* ===== verification/Vvp_Scalar.thy ===== *)
theory Vvp_Scalar
  imports Vvp_Bit4
begin

text \<open>
  The strength values of the simulator (\<open>vvp_scalar_t\<close> of vvp/vvp_net.h and vvp/vvp_net.cc): a byte of two nibbles
  \<open>VSSS\<close>, the range of value and strength that a bit may have, and the resolution of two drivers. The lemmas give
  resolution on the drivers without ambiguity a closed form, the strongest driver, and show that it is
  commutative for all.
\<close>

section \<open>The class\<close>

text \<open>The only member is \<open>value_\<close>, an \<open>unsigned char\<close>.\<close>

type_synonym vvp_scalar_t = "8 word"

definition scalar_hiz :: vvp_scalar_t where
  "scalar_hiz = 0"

definition scalar_of :: "vvp_bit4_t \<Rightarrow> nat \<Rightarrow> nat \<Rightarrow> vvp_scalar_t option" where
  "scalar_of val str0 str1 =
     (if str0 \<le> 7 \<and> str1 \<le> 7
      then Some (if str0 = 0 \<and> str1 = 0 then 0
        else case val of
          BIT4_0 \<Rightarrow> of_nat str0 OR push_bit 4 (of_nat str0)
        | BIT4_1 \<Rightarrow> of_nat str1 OR push_bit 4 (of_nat str1) OR 0x88
        | BIT4_X \<Rightarrow> of_nat str0 OR push_bit 4 (of_nat str1) OR 0x80
        | BIT4_Z \<Rightarrow> 0)
      else None)"

definition scalar_value :: "vvp_scalar_t \<Rightarrow> vvp_bit4_t" where
  "scalar_value v =
     (if v AND 0x77 = 0 then BIT4_Z
      else if v AND 0x88 = 0x00 then BIT4_0
      else if v AND 0x88 = 0x88 then BIT4_1
      else BIT4_X)"

definition is_hiz :: "vvp_scalar_t \<Rightarrow> bool" where
  "is_hiz v \<longleftrightarrow> v AND 0x77 = 0"

text \<open>The macros \<open>UNAMBIG\<close>, \<open>STREN1\<close> and \<open>STREN0\<close>.\<close>

definition UNAMBIG :: "vvp_scalar_t \<Rightarrow> bool" where
  "UNAMBIG v \<longleftrightarrow> v AND 0x0f = drop_bit 4 v AND 0x0f"

definition STREN1 :: "vvp_scalar_t \<Rightarrow> nat" where
  "STREN1 v = unat (drop_bit 4 (v AND 0x70))"

definition STREN0 :: "vvp_scalar_t \<Rightarrow> nat" where
  "STREN0 v = unat (v AND 0x07)"

definition strength0 :: "vvp_scalar_t \<Rightarrow> nat" where
  "strength0 v = STREN0 v"

definition strength1 :: "vvp_scalar_t \<Rightarrow> nat" where
  "strength1 v = STREN1 v"

section \<open>Resolution\<close>

text \<open>An unambiguous value against an ambiguous one: it sweeps up the weaker parts.\<close>

definition sweep :: "vvp_scalar_t \<Rightarrow> vvp_scalar_t \<Rightarrow> vvp_scalar_t" where
  "sweep a b =
     (if a AND 0x70 > b AND 0x70 then a AND 0xf0 else b AND 0xf0) OR
     (if a AND 0x07 > b AND 0x07 then a AND 0x0f else b AND 0x0f)"

text \<open>Two ambiguous values: the range from the least to the greatest of the four signed strengths.\<close>

definition signed_strength1 :: "vvp_scalar_t \<Rightarrow> int" where
  "signed_strength1 v = (if v AND 0x80 \<noteq> 0 then int (STREN1 v) else - int (STREN1 v))"

definition signed_strength0 :: "vvp_scalar_t \<Rightarrow> int" where
  "signed_strength0 v = (if v AND 0x08 \<noteq> 0 then int (STREN0 v) else - int (STREN0 v))"

definition widen :: "vvp_scalar_t \<Rightarrow> vvp_scalar_t \<Rightarrow> vvp_scalar_t" where
  "widen a b =
     (let sv1a = signed_strength1 a; sv0a = signed_strength0 a;
          sv1b = signed_strength1 b; sv0b = signed_strength0 b;
          sv1 = sv1a; sv0 = sv0a;
          sv1 = (if sv0a > sv1 then sv0a else sv1);
          sv1 = (if sv1b > sv1 then sv1b else sv1);
          sv1 = (if sv0b > sv1 then sv0b else sv1);
          sv0 = (if sv1a < sv0 then sv1a else sv0);
          sv0 = (if sv1b < sv0 then sv1b else sv0);
          sv0 = (if sv0b < sv0 then sv0b else sv0);
          tmp = (if sv1 > 0 then 0x80 OR push_bit 4 (of_int sv1)
                 else ((a AND b) AND 0x80) OR push_bit 4 (of_int (- sv1)));
          tmp = (if sv0 > 0 then tmp OR 0x08 OR of_int sv0 else tmp OR of_int (- sv0))
      in if tmp AND 0x77 = 0 then 0 else tmp)"

definition fully_featured_resolv :: "vvp_scalar_t \<Rightarrow> vvp_scalar_t \<Rightarrow> vvp_scalar_t" where
  "fully_featured_resolv a b =
     (if UNAMBIG a \<and> UNAMBIG b
      then if b AND 0x07 > a AND 0x07 then b
           else if b AND 0x77 = a AND 0x77 then (a AND 0x77) OR 0x80
           else a
      else if UNAMBIG a then sweep a b
      else if UNAMBIG b then sweep b a
      else widen a b)"

definition resolve :: "vvp_scalar_t \<Rightarrow> vvp_scalar_t \<Rightarrow> vvp_scalar_t" where
  "resolve a b =
     (if is_hiz a then b
      else if is_hiz b then a
      else if a = b then a
      else fully_featured_resolv a b)"

text \<open>\<open>vvp_switch_strength_map\<close>, by resistive and strength.\<close>

definition vvp_switch_strength_map :: "bool \<Rightarrow> nat \<Rightarrow> nat" where
  "vvp_switch_strength_map resistive str =
     (if resistive then [0, 1, 1, 2, 2, 3, 5, 5] else [0, 1, 2, 3, 4, 5, 6, 6]) ! str"

section \<open>The parts of a scalar\<close>

text \<open>Two value bits and two strengths determine a scalar, and every test and operation can be read on them.\<close>

abbreviation bitV1 :: "vvp_scalar_t \<Rightarrow> bool" where "bitV1 v \<equiv> bit v 7"
abbreviation bitV0 :: "vvp_scalar_t \<Rightarrow> bool" where "bitV0 v \<equiv> bit v 3"

lemma bits8_cases: "i < 8 \<Longrightarrow> P 0 \<Longrightarrow> P 1 \<Longrightarrow> P 2 \<Longrightarrow> P 3 \<Longrightarrow> P 4 \<Longrightarrow> P 5 \<Longrightarrow> P 6 \<Longrightarrow> P 7 \<Longrightarrow> P (i :: nat)"
  by (auto simp: less_Suc_eq eval_nat_numeral)

lemma byte_eqI:
  assumes "bit a 0 = bit b 0" "bit a 1 = bit b 1" "bit a 2 = bit b 2" "bit a 3 = bit b 3"
    and "bit a 4 = bit b 4" "bit a 5 = bit b 5" "bit a 6 = bit b 6" "bit a 7 = bit b 7"
  shows "a = (b :: 8 word)"
proof (rule bit_word_eqI)
  fix i assume "i < LENGTH(8)"
  then have "i < 8" by simp
  then show "bit a i = bit b i" by (rule bits8_cases) (fact assms)+
qed

lemma byte_eq_iff:
  "a = (b :: 8 word) \<longleftrightarrow> bit a 0 = bit b 0 \<and> bit a 1 = bit b 1 \<and> bit a 2 = bit b 2 \<and> bit a 3 = bit b 3 \<and>
     bit a 4 = bit b 4 \<and> bit a 5 = bit b 5 \<and> bit a 6 = bit b 6 \<and> bit a 7 = bit b 7"
  using byte_eqI [of a b] by blast

lemma STREN0_take: "STREN0 v = unat (take_bit 3 v)"
proof -
  have "v AND 7 = take_bit 3 v" by (rule byte_eqI) (simp_all add: bit_simps)
  then show ?thesis by (simp add: STREN0_def)
qed

lemma STREN1_take: "STREN1 v = unat (take_bit 3 (drop_bit 4 v))"
proof -
  have "drop_bit 4 (v AND 0x70) = take_bit 3 (drop_bit 4 v)" by (rule byte_eqI) (simp_all add: bit_simps)
  then show ?thesis by (simp add: STREN1_def)
qed

lemma STREN_less [simp]: "STREN0 v < 8" "STREN1 v < 8"
  using take_bit_nat_less_exp [of 3 "unat v"] take_bit_nat_less_exp [of 3 "unat (drop_bit 4 v)"]
  by (simp_all add: STREN0_take STREN1_take unsigned_take_bit_eq)

lemma STREN0_eq_iff: "STREN0 a = STREN0 b \<longleftrightarrow> bit a 0 = bit b 0 \<and> bit a 1 = bit b 1 \<and> bit a 2 = bit b 2"
proof
  assume "STREN0 a = STREN0 b"
  then have t: "take_bit 3 a = take_bit 3 b" by (simp add: STREN0_take unsigned_word_eqI)
  show "bit a 0 = bit b 0 \<and> bit a 1 = bit b 1 \<and> bit a 2 = bit b 2"
    using arg_cong [OF t, of "\<lambda>w. bit w 0"] arg_cong [OF t, of "\<lambda>w. bit w 1"] arg_cong [OF t, of "\<lambda>w. bit w 2"]
    by (simp add: bit_simps)
next
  assume "bit a 0 = bit b 0 \<and> bit a 1 = bit b 1 \<and> bit a 2 = bit b 2"
  then have "take_bit 3 a = take_bit 3 b" by (intro byte_eqI) (simp_all add: bit_simps)
  then show "STREN0 a = STREN0 b" by (simp add: STREN0_take)
qed

lemma STREN1_drop: "STREN1 v = STREN0 (drop_bit 4 v)"
  by (simp add: STREN1_take STREN0_take)

lemma STREN1_eq_iff: "STREN1 a = STREN1 b \<longleftrightarrow> bit a 4 = bit b 4 \<and> bit a 5 = bit b 5 \<and> bit a 6 = bit b 6"
  by (simp add: STREN1_drop STREN0_eq_iff bit_simps)

lemma STREN01_eq_iff: "STREN0 a = STREN1 b \<longleftrightarrow> bit a 0 = bit b 4 \<and> bit a 1 = bit b 5 \<and> bit a 2 = bit b 6"
  by (simp add: STREN1_drop STREN0_eq_iff bit_simps)

lemma scalar_eqI: "bitV1 a = bitV1 b \<Longrightarrow> STREN1 a = STREN1 b \<Longrightarrow> bitV0 a = bitV0 b \<Longrightarrow> STREN0 a = STREN0 b \<Longrightarrow> a = b"
  by (rule byte_eqI) (simp_all add: STREN0_eq_iff STREN1_eq_iff)

lemma STREN_zero [simp]: "STREN0 0 = 0" "STREN1 0 = 0"
  by (simp_all add: STREN0_def STREN1_def)

lemma STREN_zero_iff:
  "STREN0 a = 0 \<longleftrightarrow> \<not> bit a 0 \<and> \<not> bit a 1 \<and> \<not> bit a 2" "STREN1 a = 0 \<longleftrightarrow> \<not> bit a 4 \<and> \<not> bit a 5 \<and> \<not> bit a 6"
  using STREN0_eq_iff [of a 0] STREN1_eq_iff [of a 0] by simp_all

named_theorems scalar_parts \<open>tests and operations on the parts of a scalar\<close>

lemma is_hiz_parts [scalar_parts]: "is_hiz a \<longleftrightarrow> STREN1 a = 0 \<and> STREN0 a = 0"
  by (auto simp: is_hiz_def byte_eq_iff STREN_zero_iff bit_simps)

lemma UNAMBIG_parts [scalar_parts]: "UNAMBIG a \<longleftrightarrow> bitV1 a = bitV0 a \<and> STREN1 a = STREN0 a"
  by (auto simp: UNAMBIG_def byte_eq_iff STREN01_eq_iff bit_simps eq_commute [of "STREN1 a"])

lemma same_strength_parts [scalar_parts]: "b AND 0x77 = a AND 0x77 \<longleftrightarrow> STREN1 b = STREN1 a \<and> STREN0 b = STREN0 a"
  by (auto simp: byte_eq_iff STREN0_eq_iff STREN1_eq_iff bit_simps)

lemma less0_parts [scalar_parts]: "b AND 0x07 < a AND 0x07 \<longleftrightarrow> STREN0 b < STREN0 a"
  by (simp add: STREN0_def word_less_nat_alt)

lemma less1_parts [scalar_parts]: "b AND 0x70 < a AND 0x70 \<longleftrightarrow> STREN1 b < STREN1 a"
proof -
  have "unat (v AND 0x70) = 16 * STREN1 v" for v :: vvp_scalar_t
  proof -
    have "v AND 0x70 = push_bit 4 (take_bit 3 (drop_bit 4 v))" by (rule byte_eqI) (simp_all add: bit_simps)
    moreover have "unat (push_bit 4 x) = 16 * unat x" if "unat x < 8" for x :: "8 word"
      using that by (simp only: unsigned_push_bit_eq) (simp add: push_bit_eq_mult take_bit_nat_eq_self)
    ultimately show ?thesis using STREN_less(2) [of v] by (simp only: STREN1_take)
  qed
  then show ?thesis by (simp add: word_less_nat_alt)
qed

lemma scalar_value_parts:
  "scalar_value a = (if STREN1 a = 0 \<and> STREN0 a = 0 then BIT4_Z else if bitV1 a = bitV0 a then if bitV1 a then BIT4_1 else BIT4_0 else BIT4_X)"
proof -
  have "a AND 0x88 = 0x00 \<longleftrightarrow> \<not> bitV1 a \<and> \<not> bitV0 a" "a AND 0x88 = 0x88 \<longleftrightarrow> bitV1 a \<and> bitV0 a"
    by (auto simp: byte_eq_iff bit_simps)
  then show ?thesis using is_hiz_parts [of a] by (auto simp: scalar_value_def is_hiz_def)
qed

lemma conflict_parts [scalar_parts]:
  "bitV1 ((a AND 0x77) OR 0x80)" "\<not> bitV0 ((a AND 0x77) OR 0x80)"
  "STREN1 ((a AND 0x77) OR 0x80) = STREN1 a" "STREN0 ((a AND 0x77) OR 0x80) = STREN0 a"
  by (simp_all add: STREN0_eq_iff STREN1_eq_iff bit_simps)

lemma sweep_parts [scalar_parts]:
  "bitV1 (sweep a b) = bitV1 (if STREN1 a > STREN1 b then a else b)" "STREN1 (sweep a b) = max (STREN1 a) (STREN1 b)"
  "bitV0 (sweep a b) = bitV0 (if STREN0 a > STREN0 b then a else b)" "STREN0 (sweep a b) = max (STREN0 a) (STREN0 b)"
proof -
  have "sweep a b = ((if STREN1 a > STREN1 b then a else b) AND 0xf0) OR ((if STREN0 a > STREN0 b then a else b) AND 0x0f)"
    by (simp add: sweep_def less0_parts less1_parts)
  moreover have "bitV1 ((x AND 0xf0) OR (y AND 0x0f)) = bitV1 x" "bitV0 ((x AND 0xf0) OR (y AND 0x0f)) = bitV0 y"
    "STREN1 ((x AND 0xf0) OR (y AND 0x0f)) = STREN1 x" "STREN0 ((x AND 0xf0) OR (y AND 0x0f)) = STREN0 y" for x y
    by (simp_all add: STREN0_eq_iff STREN1_eq_iff bit_simps)
  ultimately show "bitV1 (sweep a b) = bitV1 (if STREN1 a > STREN1 b then a else b)" "STREN1 (sweep a b) = max (STREN1 a) (STREN1 b)"
    "bitV0 (sweep a b) = bitV0 (if STREN0 a > STREN0 b then a else b)" "STREN0 (sweep a b) = max (STREN0 a) (STREN0 b)"
    by (simp_all add: max_def)
qed

lemma sign_parts: "a AND 0x80 \<noteq> 0 \<longleftrightarrow> bitV1 a" "a AND 0x08 \<noteq> 0 \<longleftrightarrow> bitV0 a"
  by (auto simp: byte_eq_iff bit_simps)

text \<open>A scalar from its parts.\<close>

definition mk_scalar :: "bool \<Rightarrow> nat \<Rightarrow> bool \<Rightarrow> nat \<Rightarrow> vvp_scalar_t" where
  "mk_scalar v m w n = of_bool v * 0x80 OR push_bit 4 (of_nat m) OR (of_bool w * 0x08 OR of_nat n)"

lemma mk_parts [scalar_parts]:
  assumes "m < 8" "n < 8"
  shows "STREN1 (mk_scalar v m w n) = m" "STREN0 (mk_scalar v m w n) = n" "bitV1 (mk_scalar v m w n) = v" "bitV0 (mk_scalar v m w n) = w"
proof -
  define x y :: vvp_scalar_t where xy: "x = of_nat m" "y = of_nat n"
  have z: "STREN0 (of_nat k) = k" if "k < 8" for k
    using that by (simp only: STREN0_take unsigned_take_bit_eq unsigned_of_nat) (simp add: take_bit_nat_eq_self)
  have high: "\<not> bit (of_nat k :: 8 word) i" if "k < 8" "3 \<le> i" for k i
  proof -
    have "take_bit 3 k = k" using that(1) by (simp add: take_bit_nat_eq_self)
    then have "bit (of_nat k :: 8 word) i = bit (of_nat (take_bit 3 k) :: 8 word) i" by simp
    then show ?thesis using that(2) by (simp add: of_nat_take_bit bit_take_bit_iff)
  qed
  have y: "\<not> bit y 3" "\<not> bit y 4" "\<not> bit y 5" "\<not> bit y 6" "\<not> bit y 7" and x: "\<not> bit x 3"
    using high [OF assms(2)] high [OF assms(1)] by (simp_all add: xy)
  let ?v = "of_bool v * 0x80 OR push_bit 4 x OR (of_bool w * 0x08 OR y)"
  have v: "mk_scalar v m w n = ?v" by (simp add: mk_scalar_def xy)
  have "STREN0 ?v = STREN0 y" by (cases v; cases w; simp add: STREN0_eq_iff bit_simps)
  moreover have "STREN0 (drop_bit 4 ?v) = STREN0 x"
    using y by (cases v; cases w; simp add: STREN0_eq_iff bit_simps)
  ultimately show "STREN1 (mk_scalar v m w n) = m" "STREN0 (mk_scalar v m w n) = n"
    using z assms unfolding v by (simp_all add: xy STREN1_drop)
  show "bitV1 (mk_scalar v m w n) = v" "bitV0 (mk_scalar v m w n) = w"
    using x y unfolding v by (cases v; cases w; simp add: bit_simps)+
qed

lemma scalar_of_mk:
  assumes "s0 \<le> 7" "s1 \<le> 7"
  shows "scalar_of b s0 s1 = Some (if s0 = 0 \<and> s1 = 0 \<or> b = BIT4_Z then 0 else case b of
    BIT4_0 \<Rightarrow> mk_scalar False s0 False s0 | BIT4_1 \<Rightarrow> mk_scalar True s1 True s1 | _ \<Rightarrow> mk_scalar True s1 False s0)"
proof -
  have "x OR push_bit 4 y OR 0x88 = 0x80 OR push_bit 4 y OR (0x08 OR x)" for x y :: vvp_scalar_t
    by (rule byte_eqI) (auto simp: bit_simps)
  then show ?thesis using assms by (auto simp: scalar_of_def mk_scalar_def ac_simps split: vvp_bit4_t.split)
qed

lemma widen_mk:
  fixes a b :: vvp_scalar_t
  defines "hi \<equiv> max (max (signed_strength1 a) (signed_strength0 a)) (max (signed_strength1 b) (signed_strength0 b))"
    and "lo \<equiv> min (min (signed_strength1 a) (signed_strength0 a)) (min (signed_strength1 b) (signed_strength0 b))"
  shows "widen a b = (let v = mk_scalar (hi > 0 \<or> bitV1 a \<and> bitV1 b) (nat \<bar>hi\<bar>) (lo > 0) (nat \<bar>lo\<bar>) in if is_hiz v then 0 else v)"
    "nat \<bar>hi\<bar> < 8" "nat \<bar>lo\<bar> < 8"
proof -
  have r: "\<bar>signed_strength1 v\<bar> < 8" "\<bar>signed_strength0 v\<bar> < 8" for v
    using STREN_less [of v] by (auto simp: signed_strength1_def signed_strength0_def)
  show "nat \<bar>hi\<bar> < 8" "nat \<bar>lo\<bar> < 8"
    using r [of a] r [of b] by (auto simp: hi_def lo_def max_def min_def)
  have s: "((a AND b) AND 0x80) = of_bool (bitV1 a \<and> bitV1 b) * 0x80" by (rule byte_eqI) (auto simp: bit_simps)
  have mx: "(if y < x then x else y) = max y x" and mn: "(if x < y then x else y) = min y x" for x y :: int
    by auto
  have if_or: "(if c then t OR u else t OR w) = t OR (if c then u else w)" for c and t u w :: vvp_scalar_t
    by simp
  have "widen a b = (let v = (if hi > 0 then 0x80 OR push_bit 4 (of_int hi) else ((a AND b) AND 0x80) OR push_bit 4 (of_int (- hi)))
      OR (if lo > 0 then 0x08 OR of_int lo else of_int (- lo)) in if v AND 0x77 = 0 then 0 else v)"
    unfolding widen_def Let_def hi_def lo_def by (simp only: mx mn if_or or.assoc max.assoc min.assoc
      min.left_commute [of "signed_strength0 a" "signed_strength1 a"])
  also have "(if hi > 0 then 0x80 OR push_bit 4 (of_int hi) else ((a AND b) AND 0x80) OR push_bit 4 (of_int (- hi)))
      OR (if lo > 0 then 0x08 OR of_int lo else of_int (- lo)) = mk_scalar (hi > 0 \<or> bitV1 a \<and> bitV1 b) (nat \<bar>hi\<bar>) (lo > 0) (nat \<bar>lo\<bar>)"
    unfolding s mk_scalar_def by (cases "hi > 0"; cases "lo > 0") (simp_all add: or.assoc)
  also have "(let v = mk_scalar (hi > 0 \<or> bitV1 a \<and> bitV1 b) (nat \<bar>hi\<bar>) (lo > 0) (nat \<bar>lo\<bar>) in if v AND 0x77 = 0 then 0 else v)
      = (let v = mk_scalar (hi > 0 \<or> bitV1 a \<and> bitV1 b) (nat \<bar>hi\<bar>) (lo > 0) (nat \<bar>lo\<bar>) in if is_hiz v then 0 else v)"
    by (simp only: is_hiz_def)
  finally show "widen a b = (let v = mk_scalar (hi > 0 \<or> bitV1 a \<and> bitV1 b) (nat \<bar>hi\<bar>) (lo > 0) (nat \<bar>lo\<bar>) in if is_hiz v then 0 else v)" .
qed

lemma signed_strength_parts [scalar_parts]:
  "signed_strength1 a = (if bitV1 a then int (STREN1 a) else - int (STREN1 a))"
  "signed_strength0 a = (if bitV0 a then int (STREN0 a) else - int (STREN0 a))"
  by (simp_all add: signed_strength1_def signed_strength0_def sign_parts)

section \<open>Laws of resolution\<close>

lemma resolve_hiz [simp]: "resolve 0 a = a" "is_hiz a \<Longrightarrow> resolve a b = b"
  by (simp_all add: resolve_def is_hiz_def)

lemma resolve_hiz2 [simp]: "resolve a 0 = (if is_hiz a then 0 else a)"
  by (simp add: resolve_def is_hiz_def)

lemma resolve_idem [simp]: "resolve a a = a"
  by (simp add: resolve_def)

lemma widen_commute: "widen a b = widen b a"
  by (simp only: widen_mk(1) max.commute min.commute conj_commute)

lemma resolve_commute:
  assumes "is_hiz a \<and> is_hiz b \<longrightarrow> a = b"
  shows "resolve a b = resolve b a"
proof (cases "is_hiz a \<or> is_hiz b \<or> a = b")
  case True
  then show ?thesis using assms by (auto simp: resolve_def)
next
  case False
  have "fully_featured_resolv a b = fully_featured_resolv b a"
  proof (cases "UNAMBIG a \<and> UNAMBIG b")
    case True
    then show ?thesis
      by (intro scalar_eqI) (auto simp: fully_featured_resolv_def scalar_parts)
  next
    case False
    then show ?thesis by (auto simp: fully_featured_resolv_def widen_commute)
  qed
  then show ?thesis using False by (auto simp: resolve_def)
qed

text \<open>A driver of one strength that is resolved twice counts once.\<close>

lemma resolve_absorb:
  assumes "UNAMBIG h"
  shows "resolve (resolve x h) h = resolve x h"
proof (cases "is_hiz x \<or> is_hiz h \<or> x = h")
  case True
  then show ?thesis by (auto simp: resolve_def)
next
  case False
  then have ff: "resolve x h = fully_featured_resolv x h" by (simp add: resolve_def)
  show ?thesis
  proof (cases "UNAMBIG x")
    case True
    then consider "resolve x h = h" | "resolve x h = x" | "resolve x h = (x AND 0x77) OR 0x80" "h AND 0x77 = x AND 0x77"
      using ff assms unfolding fully_featured_resolv_def by argo
    then show ?thesis
    proof cases
      case 3
      let ?r = "(x AND 0x77) OR 0x80"
      have "resolve ?r h = sweep h ?r"
        using False 3(2) assms by (auto simp: resolve_def fully_featured_resolv_def scalar_parts)
      also have "\<dots> = ?r" using 3(2) by (intro scalar_eqI) (simp_all add: scalar_parts)
      finally show ?thesis using 3(1) by simp
    qed simp_all
  next
    case U: False
    let ?r = "sweep h x"
    have "resolve x h = ?r" using ff assms U by (simp add: fully_featured_resolv_def)
    moreover have "resolve ?r h = ?r"
    proof (cases "UNAMBIG ?r")
      case True
      have "\<not> (h AND 0x77 = ?r AND 0x77 \<and> ?r \<noteq> h)"
      proof
        assume h: "h AND 0x77 = ?r AND 0x77 \<and> ?r \<noteq> h"
        then have "bitV1 ?r \<noteq> bitV1 h" using True assms scalar_eqI [of ?r h] by (auto simp: scalar_parts)
        then show False using h True assms U by (auto simp: scalar_parts split: if_splits)
      qed
      moreover have "\<not> ?r AND 0x07 < h AND 0x07" by (simp add: scalar_parts)
      ultimately show ?thesis using True assms False by (auto simp: resolve_def fully_featured_resolv_def is_hiz_parts sweep_parts)
    next
      case N: False
      then have "resolve ?r h = sweep h ?r" using False assms by (auto simp: resolve_def fully_featured_resolv_def is_hiz_parts sweep_parts)
      also have "\<dots> = ?r" by (intro scalar_eqI) (auto simp: scalar_parts)
      finally show ?thesis .
    qed
    ultimately show ?thesis by simp
  qed
qed

section \<open>Drivers of one strength\<close>

text \<open>
  A driver has a value and one strength; an X of one strength is the conflict of two such drivers. Without a
  strength it is the high impedance.
\<close>

definition plain :: "vvp_bit4_t \<Rightarrow> nat \<Rightarrow> vvp_scalar_t" where
  "plain b s = (if s = 0 then 0 else mk_scalar (b \<noteq> BIT4_0) s (b = BIT4_1) s)"

lemma scalar_of_plain: "s \<le> 7 \<Longrightarrow> scalar_of b s s = Some (if b = BIT4_Z then 0 else plain b s)"
  by (cases b) (simp_all add: scalar_of_mk plain_def)

lemma plain_0 [simp]: "plain b 0 = 0"
  by (simp add: plain_def)

lemma plain_parts [scalar_parts]:
  assumes "0 < s" "s < 8"
  shows "STREN1 (plain b s) = s" "STREN0 (plain b s) = s" "bitV1 (plain b s) \<longleftrightarrow> b \<noteq> BIT4_0" "bitV0 (plain b s) \<longleftrightarrow> b = BIT4_1"
  using assms by (simp_all add: plain_def mk_parts)

lemma plain_value: "s < 8 \<Longrightarrow> b \<noteq> BIT4_Z \<Longrightarrow> scalar_value (plain b s) = (if s = 0 then BIT4_Z else b)"
  by (cases b) (auto simp: scalar_value_parts plain_parts)

definition stronger :: "vvp_bit4_t \<times> nat \<Rightarrow> vvp_bit4_t \<times> nat \<Rightarrow> vvp_bit4_t \<times> nat" where
  "stronger d e = (if snd d < snd e then e else if snd e < snd d then d else (if fst d = fst e then fst d else BIT4_X, snd d))"

lemma plain_eq_iff:
  assumes "0 < s" "s < 8" "0 < t" "t < 8" "b \<noteq> BIT4_Z" "c \<noteq> BIT4_Z"
  shows "plain b s = plain c t \<longleftrightarrow> b = c \<and> s = t"
proof
  assume eq: "plain b s = plain c t"
  have "s = t" using arg_cong [OF eq, of STREN0] assms by (simp add: plain_parts)
  moreover have "b = c" using arg_cong [OF eq, of scalar_value] assms by (simp add: plain_value)
  ultimately show "b = c \<and> s = t" by simp
qed simp

lemma widen_plain:
  assumes "0 < s" "s < 8" "0 < t" "t < 8"
  shows "widen (plain BIT4_X s) (plain BIT4_X t) = plain BIT4_X (max s t)"
proof -
  have "widen (plain BIT4_X s) (plain BIT4_X t) = (let v = mk_scalar True (max s t) False (max s t) in if is_hiz v then 0 else v)"
    unfolding widen_mk(1) using assms by (simp add: scalar_parts max_def min_def)
  then show ?thesis using assms by (simp add: plain_def is_hiz_parts mk_parts)
qed

lemma resolve_plain:
  assumes "s < 8" "t < 8" "b \<noteq> BIT4_Z" "c \<noteq> BIT4_Z"
  shows "resolve (plain b s) (plain c t) = case_prod plain (stronger (b, s) (c, t))"
proof (cases "s = 0 \<or> t = 0")
  case True
  then show ?thesis using assms by (auto simp: stronger_def is_hiz_parts plain_parts)
next
  case False
  then have pos: "0 < s" "0 < t" by auto
  note simps = stronger_def resolve_def fully_featured_resolv_def plain_eq_iff widen_plain
  show ?thesis
    by (rule scalar_eqI; use assms pos in \<open>cases b; cases c; auto simp: simps scalar_parts\<close>)
qed

text \<open>The strongest of several drivers: their greatest strength, and the value on which the drivers of this strength agree.\<close>

definition strongest :: "(vvp_bit4_t \<times> nat) list \<Rightarrow> vvp_scalar_t" where
  "strongest ds = (let m = foldr max (map snd ds) 0; vs = map fst (filter (\<lambda>d. snd d = m) ds)
     in plain (if list_all (\<lambda>v. v = BIT4_0) vs then BIT4_0 else if list_all (\<lambda>v. v = BIT4_1) vs then BIT4_1 else BIT4_X) m)"

definition driver :: "vvp_bit4_t \<times> nat \<Rightarrow> bool" where
  "driver d \<longleftrightarrow> fst d \<noteq> BIT4_Z \<and> snd d < 8"

lemma stronger_driver: "driver d \<Longrightarrow> driver e \<Longrightarrow> driver (stronger d e)"
  by (auto simp: driver_def stronger_def)

lemma stronger_assoc: "stronger (stronger d e) f = stronger d (stronger e f)"
  by (auto simp: stronger_def)

lemma resolve_drivers:
  "driver d \<Longrightarrow> driver e \<Longrightarrow> resolve (case_prod plain d) (case_prod plain e) = case_prod plain (stronger d e)"
  by (cases d; cases e) (simp add: driver_def resolve_plain)

definition plain_scalar :: "vvp_scalar_t \<Rightarrow> bool" where
  "plain_scalar a \<longleftrightarrow> (\<exists>d. driver d \<and> a = case_prod plain d)"

lemma resolve_plain_scalar: "plain_scalar a \<Longrightarrow> plain_scalar b \<Longrightarrow> plain_scalar (resolve a b)"
  unfolding plain_scalar_def using resolve_drivers stronger_driver by metis

lemma resolve_assoc:
  assumes "plain_scalar a" "plain_scalar b" "plain_scalar c"
  shows "resolve (resolve a b) c = resolve a (resolve b c)"
proof -
  obtain d e f where "driver d" "driver e" "driver f" "a = case_prod plain d" "b = case_prod plain e" "c = case_prod plain f"
    using assms by (auto simp only: plain_scalar_def)
  then show ?thesis by (simp add: resolve_drivers stronger_driver stronger_assoc)
qed

lemma plain_scalar_0 [simp]: "plain_scalar 0"
  unfolding plain_scalar_def by (rule exI [of _ "(BIT4_0, 0)"]) (simp add: driver_def)

lemma resolve_plain_commute: "plain_scalar a \<Longrightarrow> plain_scalar b \<Longrightarrow> resolve a b = resolve b a"
  by (rule resolve_commute) (auto simp: plain_scalar_def driver_def is_hiz_parts, metis neq0_conv plain_0 plain_parts(2))

text \<open>Resolution picks the strongest driver.\<close>

lemma foldr_max_ge: "x \<in> set xs \<Longrightarrow> x \<le> foldr max xs (0 :: nat)"
  by (induction xs) auto

lemma foldr_max_in: "0 < foldr max xs (0 :: nat) \<Longrightarrow> foldr max xs 0 \<in> set xs"
  by (induction xs) (auto simp: max_def)

lemma foldr_stronger:
  fixes ds :: "(vvp_bit4_t \<times> nat) list"
  defines "m \<equiv> foldr max (map snd ds) 0"
  assumes "list_all driver ds"
  shows "snd (foldr stronger ds (BIT4_0, 0)) = m \<and>
    (0 < m \<longrightarrow> fst (foldr stronger ds (BIT4_0, 0)) = (if list_all (\<lambda>d. snd d = m \<longrightarrow> fst d = BIT4_0) ds then BIT4_0
      else if list_all (\<lambda>d. snd d = m \<longrightarrow> fst d = BIT4_1) ds then BIT4_1 else BIT4_X))"
  using assms(2) unfolding m_def
proof (induction ds)
  case (Cons d ds)
  have le: "snd e \<le> foldr max (map snd ds) 0" if "e \<in> set ds" for e using that foldr_max_ge by force
  obtain v k where e: "foldr stronger ds (BIT4_0, 0) = (v, k)" by fastforce
  then have k: "foldr max (map snd ds) 0 = k" and v: "0 < k \<Longrightarrow> v = (if list_all (\<lambda>d. snd d = k \<longrightarrow> fst d = BIT4_0) ds then BIT4_0
      else if list_all (\<lambda>d. snd d = k \<longrightarrow> fst d = BIT4_1) ds then BIT4_1 else BIT4_X)"
    using Cons by auto
  have d: "fst d \<noteq> BIT4_Z" using Cons.prems by (simp add: driver_def)
  consider "snd d < k" | "k < snd d" | "snd d = k" by linarith
  then show ?case
  proof cases
    case 1
    then have "stronger d (v, k) = (v, k)" "max (snd d) k = k" by (simp_all add: stronger_def)
    then show ?thesis using 1 e k v by simp
  next
    case 2
    then have "stronger d (v, k) = d" "max (snd d) k = snd d" by (simp_all add: stronger_def)
    moreover have "list_all (\<lambda>d'. snd d' = snd d \<longrightarrow> P d') ds" for P using le k 2 by (fastforce simp: list_all_iff)
    ultimately show ?thesis using e k d by (cases "fst d") simp_all
  next
    case 3
    then have "stronger d (v, k) = (if fst d = v then v else BIT4_X, k)" "max (snd d) k = k" by (simp_all add: stronger_def)
    moreover have "\<not> (list_all (\<lambda>d. snd d = k \<longrightarrow> fst d = BIT4_0) ds \<and> list_all (\<lambda>d. snd d = k \<longrightarrow> fst d = BIT4_1) ds)" if "0 < k"
      using foldr_max_in [of "map snd ds"] that unfolding k by (fastforce simp: list_all_iff)
    ultimately show ?thesis using 3 e k v d by (cases "fst d") (auto split: if_splits)
  qed
qed simp_all

lemma resolve_strongest:
  assumes "list_all driver ds"
  shows "foldr resolve (map (case_prod plain) ds) 0 = strongest ds"
proof -
  have "driver (foldr stronger ds (BIT4_0, 0)) \<and> foldr resolve (map (case_prod plain) ds) 0 = case_prod plain (foldr stronger ds (BIT4_0, 0))"
    using assms by (induction ds) (auto simp: resolve_drivers stronger_driver driver_def [of "(BIT4_0, 0)"] simp del: split_paired_All)
  then show ?thesis using foldr_stronger [OF assms]
    by (cases "foldr stronger ds (BIT4_0, 0)"; cases "foldr max (map snd ds) 0 = 0")
      (auto simp: strongest_def Let_def list_all_iff)
qed

end
