(* ===== verification/Vvp_Vector8.thy ===== *)
theory Vvp_Vector8
  imports Vvp_Scalar Vvp_Vector2 Vvp_C4string
begin

text \<open>
  The vectors of strength values (\<open>vvp_vector8_t\<close> of vvp/vvp_net.h and vvp/vvp_net.cc): construction, assignment, bit
  access, part operations, resolution, comparison and the text form \<open>C8<...>\<close>. A vector of at most eight bits keeps its
  bytes in place of the pointer, and \<open>eeq\<close> compares the whole pointer: the invariant \<open>wf8\<close> says that the bytes behind
  the size are 0.
\<close>

section \<open>The class\<close>

text \<open>The union of \<open>ptr_\<close> and \<open>val_\<close> is a list: the eight bytes of \<open>val_\<close> for a size up to 8, otherwise the array.\<close>

record vvp_vector8_t =
  size8 :: nat
  val8 :: "vvp_scalar_t list"

abbreviation (input) SIZEOF_VAL :: nat where "SIZEOF_VAL \<equiv> 8"

definition vector8_new :: "nat \<Rightarrow> vvp_vector8_t" where
  "vector8_new sz = \<lparr>size8 = sz, val8 = (if sz \<le> SIZEOF_VAL then replicate SIZEOF_VAL 0 else replicate sz 0)\<rparr>"

text \<open>
  The constructors from other vectors; an empty vector leaves \<open>val_\<close> without a value. \<open>those\<close> passes on the failed
  assertion of a scalar.
\<close>

definition vector8_of :: "nat \<Rightarrow> (nat \<Rightarrow> vvp_bit4_t) \<Rightarrow> nat \<Rightarrow> nat \<Rightarrow> vvp_vector8_t option" where
  "vector8_of sz val str0 str1 =
     (if sz = 0 then Some \<lparr>size8 = 0, val8 = replicate SIZEOF_VAL undefined\<rparr>
      else do {
        bytes \<leftarrow> those (map (\<lambda>idx. scalar_of (val idx) str0 str1) [0..<sz]);
        Some \<lparr>size8 = sz, val8 = (if sz \<le> SIZEOF_VAL then bytes @ replicate (SIZEOF_VAL - sz) 0 else bytes)\<rparr> })"

definition vector8_of4 :: "vvp_vector4_t \<Rightarrow> nat \<Rightarrow> nat \<Rightarrow> vvp_vector8_t option" where
  "vector8_of4 that str0 str1 = vector8_of (size4 that) (value4 that) str0 str1"

definition vector8_of2 :: "vvp_vector2_t \<Rightarrow> nat \<Rightarrow> nat \<Rightarrow> vvp_vector8_t option" where
  "vector8_of2 that str0 str1 = vector8_of (wid2 that) (\<lambda>idx. if value2 that idx \<noteq> 0 then BIT4_1 else BIT4_0) str0 str1"

definition vector8_copy :: "vvp_vector8_t \<Rightarrow> vvp_vector8_t" where
  "vector8_copy that =
     (if size8 that \<le> SIZEOF_VAL then that else \<lparr>size8 = size8 that, val8 = take (size8 that) (val8 that)\<rparr>)"

text \<open>\<open>operator =\<close>; a long vector that becomes empty is left with the bytes of its old pointer.\<close>

definition assign8 :: "vvp_vector8_t \<Rightarrow> vvp_vector8_t \<Rightarrow> vvp_vector8_t" where
  "assign8 v that =
     (if size8 that = 0
      then \<lparr>size8 = 0, val8 = (if size8 v > SIZEOF_VAL then replicate SIZEOF_VAL undefined else val8 v)\<rparr>
      else if size8 that \<le> SIZEOF_VAL then \<lparr>size8 = size8 that, val8 = take SIZEOF_VAL (val8 that)\<rparr>
      else \<lparr>size8 = size8 that, val8 = take (size8 that) (val8 that)\<rparr>)"

definition value8 :: "vvp_vector8_t \<Rightarrow> nat \<Rightarrow> vvp_scalar_t option" where
  "value8 v idx = (if idx < size8 v then Some (val8 v ! idx) else None)"

definition set_bit8 :: "vvp_vector8_t \<Rightarrow> nat \<Rightarrow> vvp_scalar_t \<Rightarrow> vvp_vector8_t option" where
  "set_bit8 v idx val = (if idx < size8 v then Some (v\<lparr>val8 := (val8 v)[idx := val]\<rparr>) else None)"

definition eeq8 :: "vvp_vector8_t \<Rightarrow> vvp_vector8_t \<Rightarrow> bool" where
  "eeq8 v that \<longleftrightarrow>
     (if size8 v \<noteq> size8 that then False
      else if size8 v = 0 then True
      else if size8 v \<le> SIZEOF_VAL then take SIZEOF_VAL (val8 v) = take SIZEOF_VAL (val8 that)
      else take (size8 v) (val8 v) = take (size8 v) (val8 that))"

text \<open>The loops below read \<open>that\<close> inside its size only.\<close>

definition subvalue8 :: "vvp_vector8_t \<Rightarrow> nat \<Rightarrow> nat \<Rightarrow> vvp_vector8_t option" where
  "subvalue8 v base wid =
     set_loop set_bit8 0 (\<lambda>idx. val8 v ! (base + idx)) (min wid (size8 v - base)) (vector8_new wid)"

definition set_vec8 :: "vvp_vector8_t \<Rightarrow> nat \<Rightarrow> vvp_vector8_t \<Rightarrow> vvp_vector8_t option" where
  "set_vec8 v base that =
     (if base + size8 that \<le> size8 v then set_loop set_bit8 base (\<lambda>idx. val8 that ! idx) (size8 that) v else None)"

definition part_expand :: "vvp_vector8_t \<Rightarrow> nat \<Rightarrow> nat \<Rightarrow> vvp_vector8_t option" where
  "part_expand that wid off =
     (if off < wid
      then set_loop set_bit8 off (\<lambda>idx. val8 that ! idx) (min (wid - off) (size8 that)) (vector8_new wid)
      else None)"

definition resolve8 :: "vvp_vector8_t \<Rightarrow> vvp_vector8_t \<Rightarrow> vvp_vector8_t option" where
  "resolve8 a b =
     (if size8 a = size8 b
      then set_loop set_bit8 0 (\<lambda>idx. resolve (val8 a ! idx) (val8 b ! idx)) (size8 a) (vector8_new (size8 a))
      else None)"

definition reduce4 :: "vvp_vector8_t \<Rightarrow> vvp_vector4_t option" where
  "reduce4 that = set_loop set_bit4 0 (\<lambda>idx. scalar_value (val8 that ! idx)) (size8 that) (vector4_fill (size8 that) BIT4_X)"

section \<open>The text form\<close>

definition c8string_header_test :: "string \<Rightarrow> bool" where
  "c8string_header_test str \<longleftrightarrow>
     (if cstr_at str 0 \<noteq> CHR ''C'' \<and> cstr_at str 0 \<noteq> CHR ''c'' then False
      else if cstr_at str 1 \<noteq> CHR ''8'' \<or> cstr_at str 2 \<noteq> CHR ''<'' then False
      else True)"

text \<open>The loop of \<open>c8string_test\<close> on the rest of the string.\<close>

fun c8string_scan :: "string \<Rightarrow> bool" where
  "c8string_scan [] = False"
| "c8string_scan (c # cs) =
     (if c = CHR ''>'' \<and> cstr_at cs 0 = CHR 0x00 then True
      else if c \<in> set ''0123456789'' then c8string_scan cs
      else if c = CHR ''x'' then c8string_scan cs
      else if c = CHR ''z'' then c8string_scan cs
      else False)"

definition c8string_test :: "string \<Rightarrow> bool" where
  "c8string_test str \<longleftrightarrow> c8string_header_test str \<and> c8string_scan (drop 3 str)"

text \<open>\<open>unsigned dr = cp[0] - '0'\<close>.\<close>

definition strength_digit :: "char \<Rightarrow> nat" where
  "strength_digit c = (of_char c + 2 ^ 32 - 48) mod 2 ^ 32"

definition c8string_bit :: "char \<Rightarrow> vvp_bit4_t" where
  "c8string_bit c =
     (if c = CHR ''0'' then BIT4_0 else if c = CHR ''1'' then BIT4_1 else if c = CHR ''x'' then BIT4_X
      else if c = CHR ''z'' then BIT4_Z else BIT4_X)"

fun c8string_loop :: "string \<Rightarrow> nat \<Rightarrow> nat \<Rightarrow> vvp_vector8_t \<Rightarrow> vvp_vector8_t option" where
  "c8string_loop str vsize 0 tmp = Some tmp"
| "c8string_loop str vsize (Suc idx) tmp =
     do { tmp \<leftarrow> c8string_loop str vsize idx tmp;
          let cp = drop (3 + 3 * idx) str;
          s \<leftarrow> scalar_of (c8string_bit (cstr_at cp 2)) (strength_digit (cstr_at cp 0)) (strength_digit (cstr_at cp 1));
          set_bit8 tmp (vsize - idx - 1) s }"

text \<open>Without the closing bracket of the empty form the size wraps, and the allocation fails.\<close>

definition c8string_to_vector8 :: "string \<Rightarrow> vvp_vector8_t option" where
  "c8string_to_vector8 str =
     (if \<not> c8string_header_test str \<or> length str < 4 then None
      else let vsize = length str - 4
           in if vsize mod 3 \<noteq> 0 then None
              else c8string_loop str (vsize div 3) (vsize div 3) (vector8_new (vsize div 3)))"

text \<open>The output operators of a scalar and of a vector.\<close>

definition print_scalar :: "vvp_scalar_t \<Rightarrow> string" where
  "print_scalar a =
     [char_of (48 + strength0 a), char_of (48 + strength1 a),
      case scalar_value a of BIT4_0 \<Rightarrow> CHR ''0'' | BIT4_1 \<Rightarrow> CHR ''1'' | BIT4_X \<Rightarrow> CHR ''X'' | BIT4_Z \<Rightarrow> CHR ''Z'']"

definition print8 :: "vvp_vector8_t \<Rightarrow> string" where
  "print8 that = ''C8<'' @ concat (map (\<lambda>idx. print_scalar (val8 that ! (size8 that - idx - 1))) [0..<size8 that]) @ ''>''"

section \<open>Bits\<close>

definition wf8 :: "vvp_vector8_t \<Rightarrow> bool" where
  "wf8 v \<longleftrightarrow> length (val8 v) = (if size8 v \<le> 8 then 8 else size8 v) \<and>
     (0 < size8 v \<longrightarrow> (\<forall>i < 8. size8 v \<le> i \<longrightarrow> val8 v ! i = 0))"

definition bits8 :: "vvp_vector8_t \<Rightarrow> vvp_scalar_t list" where
  "bits8 v = take (size8 v) (val8 v)"

lemma length_bits8 [simp]: "wf8 v \<Longrightarrow> length (bits8 v) = size8 v"
  by (auto simp: wf8_def bits8_def)

lemma nth_bits8: "i < size8 v \<Longrightarrow> bits8 v ! i = val8 v ! i"
  by (simp add: bits8_def)

interpretation v8: bit_vector size8 set_bit8 bits8 wf8
proof unfold_locales
  fix v :: vvp_vector8_t and i b
  assume "wf8 v" "i < size8 v"
  then show "\<exists>v'. set_bit8 v i b = Some v' \<and> wf8 v' \<and> size8 v' = size8 v \<and> bits8 v' = (bits8 v)[i := b]"
    by (auto simp: set_bit8_def wf8_def bits8_def take_update_swap)
qed (auto simp: set_bit8_def)

lemma vector8_new_ok [simp]: "wf8 (vector8_new n)" "size8 (vector8_new n) = n" "bits8 (vector8_new n) = replicate n 0"
  by (auto simp: vector8_new_def wf8_def bits8_def min_def)

lemma eeq8_iff:
  assumes "wf8 v" "wf8 w"
  shows "eeq8 v w \<longleftrightarrow> bits8 v = bits8 w"
proof (cases "size8 v = size8 w \<and> 0 < size8 v \<and> size8 v \<le> 8")
  case True
  have "val8 v = val8 w \<longleftrightarrow> (\<forall>i < size8 v. val8 v ! i = val8 w ! i)"
    using assms True by (auto simp: wf8_def list_eq_iff_nth_eq not_le_imp_less) (metis not_le_imp_less)
  also have "\<dots> \<longleftrightarrow> bits8 v = bits8 w" using assms True by (auto simp: bits8_def wf8_def list_eq_iff_nth_eq)
  finally show ?thesis using assms True by (simp add: eeq8_def wf8_def)
next
  case False
  show ?thesis
  proof (cases "size8 v = size8 w")
    case True
    then show ?thesis using False by (auto simp: eeq8_def bits8_def)
  next
    case False
    then have "bits8 v \<noteq> bits8 w" using length_bits8 [OF assms(1)] length_bits8 [OF assms(2)] by auto
    then show ?thesis using False by (simp add: eeq8_def)
  qed
qed

lemma those_Some: "(\<And>x. x \<in> set xs \<Longrightarrow> f x = Some (g x)) \<Longrightarrow> those (map f xs) = Some (map g xs)"
  by (induction xs) auto

lemma vector8_of_ok:
  assumes "\<And>i. i < n \<Longrightarrow> scalar_of (f i) s0 s1 = Some (g i)"
  shows "\<exists>v. vector8_of n f s0 s1 = Some v \<and> wf8 v \<and> size8 v = n \<and> bits8 v = map g [0..<n]"
proof -
  have "those (map (\<lambda>i. scalar_of (f i) s0 s1) [0..<n]) = Some (map g [0..<n])"
    using assms by (intro those_Some) simp
  then show ?thesis by (auto simp: vector8_of_def wf8_def bits8_def nth_append min_def)
qed

lemma assign8_ok [simp]:
  assumes "wf8 v" "wf8 w"
  shows "wf8 (assign8 v w)" "bits8 (assign8 v w) = bits8 w" "wf8 (vector8_copy w)" "bits8 (vector8_copy w) = bits8 w"
  using assms by (auto simp: assign8_def vector8_copy_def wf8_def bits8_def min_def)

lemma subvalue8_ok:
  assumes "wf8 v"
  shows "\<exists>u. subvalue8 v base wid = Some u \<and> wf8 u \<and> size8 u = wid \<and>
    bits8 u = map (\<lambda>i. if base + i < size8 v then bits8 v ! (base + i) else 0) [0..<wid]"
proof -
  obtain u where u: "subvalue8 v base wid = Some u" "wf8 u" "size8 u = wid"
    "bits8 u = map (\<lambda>i. val8 v ! (base + i)) [0..<min wid (size8 v - base)] @ drop (min wid (size8 v - base)) (replicate wid 0)"
    using v8.set_loop_ok [of "vector8_new wid" 0 "min wid (size8 v - base)" "\<lambda>i. val8 v ! (base + i)"] by (auto simp: subvalue8_def)
  moreover have "bits8 u = map (\<lambda>i. if base + i < size8 v then bits8 v ! (base + i) else 0) [0..<wid]"
    unfolding u(4) by (rule nth_equalityI) (auto simp: nth_append nth_bits8)
  ultimately show ?thesis by auto
qed

lemma map_val8: "wf8 v \<Longrightarrow> map (\<lambda>i. val8 v ! i) [0..<size8 v] = bits8 v"
  by (rule nth_equalityI) (simp_all add: nth_bits8)

lemma set_vec8_ok:
  assumes "wf8 v" "wf8 w" "base + size8 w \<le> size8 v"
  shows "\<exists>u. set_vec8 v base w = Some u \<and> wf8 u \<and> size8 u = size8 v \<and>
    bits8 u = take base (bits8 v) @ bits8 w @ drop (base + size8 w) (bits8 v)"
  using v8.set_loop_ok [OF assms(1,3), of "\<lambda>i. val8 w ! i"] assms(3) map_val8 [OF assms(2)] by (simp add: set_vec8_def)

lemma part_expand_ok:
  assumes "wf8 v" "off < wid"
  shows "\<exists>u. part_expand v wid off = Some u \<and> wf8 u \<and> size8 u = wid \<and>
    bits8 u = map (\<lambda>i. if off \<le> i \<and> i < off + size8 v then bits8 v ! (i - off) else 0) [0..<wid]"
proof -
  have "off + min (wid - off) (size8 v) \<le> wid" using assms(2) by simp
  then obtain u where u: "part_expand v wid off = Some u" "wf8 u" "size8 u = wid"
    "bits8 u = take off (replicate wid 0) @ map (\<lambda>i. val8 v ! i) [0..<min (wid - off) (size8 v)] @ drop (off + min (wid - off) (size8 v)) (replicate wid 0)"
    using v8.set_loop_ok [of "vector8_new wid" off "min (wid - off) (size8 v)" "\<lambda>i. val8 v ! i"] assms(2)
    by (auto simp: part_expand_def)
  moreover have "bits8 u = map (\<lambda>i. if off \<le> i \<and> i < off + size8 v then bits8 v ! (i - off) else 0) [0..<wid]"
    unfolding u(4) using assms(2) by (intro nth_equalityI) (auto simp: nth_append nth_bits8)
  ultimately show ?thesis by auto
qed

lemma resolve8_ok:
  assumes "wf8 v" "wf8 w" "size8 v = size8 w"
  shows "\<exists>u. resolve8 v w = Some u \<and> wf8 u \<and> size8 u = size8 v \<and> bits8 u = map2 resolve (bits8 v) (bits8 w)"
proof -
  obtain u where u: "resolve8 v w = Some u" "wf8 u" "size8 u = size8 v" "bits8 u = map (\<lambda>i. resolve (val8 v ! i) (val8 w ! i)) [0..<size8 v]"
    using v8.set_loop_ok [of "vector8_new (size8 v)" 0 "size8 v" "\<lambda>i. resolve (val8 v ! i) (val8 w ! i)"] assms(3) by (auto simp: resolve8_def)
  moreover have "bits8 u = map2 resolve (bits8 v) (bits8 w)"
    unfolding u(4) using assms by (intro nth_equalityI) (simp_all add: nth_bits8)
  ultimately show ?thesis by auto
qed

lemma reduce4_ok:
  assumes "wf8 v"
  shows "\<exists>u. reduce4 v = Some u \<and> wf4 u \<and> size4 u = size8 v \<and> bits4 u = map scalar_value (bits8 v)"
proof -
  obtain u where u: "reduce4 v = Some u" "wf4 u" "size4 u = size8 v" "bits4 u = map (\<lambda>i. scalar_value (val8 v ! i)) [0..<size8 v]"
    using v4.set_loop_ok [of "vector4_fill (size8 v) BIT4_X" 0 "size8 v" "\<lambda>i. scalar_value (val8 v ! i)"] by (auto simp: reduce4_def)
  moreover have "bits4 u = map scalar_value (bits8 v)"
    unfolding u(4) using assms by (intro nth_equalityI) (simp_all add: nth_bits8)
  ultimately show ?thesis by auto
qed

section \<open>Reading back\<close>

lemma drop_concat3:
  assumes "\<And>x. length (f x) = 3" "i < length xs"
  shows "drop (3 * i) (concat (map f xs)) = f (xs ! i) @ concat (map f (drop (Suc i) xs))"
  using assms(2)
proof (induction xs arbitrary: i)
  case (Cons x xs)
  then show ?case using assms(1) by (cases i) simp_all
qed simp

lemma length_concat3: "(\<And>x. length (f x) = 3) \<Longrightarrow> length (concat (map f xs)) = 3 * length xs"
  by (induction xs) simp_all

lemma strength_digit_char [simp]: "s < 8 \<Longrightarrow> strength_digit (char_of (48 + s)) = s"
  by (simp add: strength_digit_def)

text \<open>A scalar that the constructor makes is read back from its printed form.\<close>

definition built :: "vvp_scalar_t \<Rightarrow> bool" where
  "built a \<longleftrightarrow> (\<exists>b s0 s1. s0 \<le> 7 \<and> s1 \<le> 7 \<and> scalar_of b s0 s1 = Some a \<and> \<not> (is_hiz a \<and> a \<noteq> 0))"

lemma built_print:
  assumes "built a"
  shows "scalar_of (c8string_bit (print_scalar a ! 2)) (strength_digit (print_scalar a ! 0)) (strength_digit (print_scalar a ! 1)) = Some a"
proof -
  obtain b s0 s1 where a: "s0 \<le> 7" "s1 \<le> 7" "scalar_of b s0 s1 = Some a" "is_hiz a \<longrightarrow> a = 0"
    using assms by (auto simp: built_def)
  have d: "strength_digit (print_scalar a ! 0) = STREN0 a" "strength_digit (print_scalar a ! 1) = STREN1 a"
    "c8string_bit (print_scalar a ! 2) = (if scalar_value a = BIT4_Z then BIT4_X else scalar_value a)"
    by (auto simp: print_scalar_def strength0_def strength1_def c8string_bit_def split: vvp_bit4_t.split)
  have le: "STREN0 a \<le> 7" "STREN1 a \<le> 7" using STREN_less [of a] by linarith+
  show ?thesis
  proof (cases "is_hiz a")
    case True
    then show ?thesis using a(4) unfolding d by (simp add: scalar_of_def)
  next
    case False
    then have "\<not> (s0 = 0 \<and> s1 = 0 \<or> b = BIT4_Z)" using a(3) scalar_of_mk [OF a(1,2), of b] by (auto simp: is_hiz_def split: if_splits)
    then have m: "a = (case b of BIT4_0 \<Rightarrow> mk_scalar False s0 False s0 | BIT4_1 \<Rightarrow> mk_scalar True s1 True s1 | _ \<Rightarrow> mk_scalar True s1 False s0)"
      using a(3) scalar_of_mk [OF a(1,2), of b] by (auto split: vvp_bit4_t.split)
    have sm: "s0 < 8" "s1 < 8" using a(1,2) by simp_all
    show ?thesis unfolding d
      using False m sm by (cases b) (auto simp: scalar_of_mk scalar_value_parts mk_parts is_hiz_parts)
  qed
qed

lemma c8string_loop_ok:
  assumes "wf8 v" "n \<le> size8 v" "vsize = size8 v"
    and "\<And>i. i < n \<Longrightarrow> scalar_of (c8string_bit (cstr_at (drop (3 + 3 * i) str) 2)) (strength_digit (cstr_at (drop (3 + 3 * i) str) 0))
      (strength_digit (cstr_at (drop (3 + 3 * i) str) 1)) = Some (f i)"
  shows "\<exists>u. c8string_loop str vsize n v = Some u \<and> wf8 u \<and> size8 u = size8 v \<and>
    bits8 u = take (size8 v - n) (bits8 v) @ rev (map f [0..<n])"
  using assms(2,4)
proof (induction n)
  case 0
  then show ?case using assms(1) by simp
next
  case (Suc n)
  then obtain u where u: "c8string_loop str vsize n v = Some u" "wf8 u" "size8 u = size8 v"
    "bits8 u = take (size8 v - n) (bits8 v) @ rev (map f [0..<n])" by auto
  have lt: "vsize - n - 1 < size8 u" using Suc.prems(1) u(3) assms(3) by simp
  obtain u' where u': "set_bit8 u (vsize - n - 1) (f n) = Some u'" "wf8 u'" "size8 u' = size8 u" "bits8 u' = (bits8 u)[vsize - n - 1 := f n]"
    using v8.set_ok [OF u(2) lt] by blast
  have "size8 v - n = Suc (vsize - n - 1)" using Suc.prems(1) assms(3) by simp
  then have "bits8 u' = take (size8 v - Suc n) (bits8 v) @ rev (map f [0..<Suc n])"
    unfolding u'(4) u(4) using Suc.prems(1) assms(1,3) by (simp add: take_Suc_conv_app_nth list_update_append)
  then show ?case using u u' Suc.prems(2) [of n] by (simp add: Let_def)
qed

lemma c8string_print:
  assumes "wf8 v" "list_all built (bits8 v)"
  shows "\<exists>u. c8string_to_vector8 (print8 v) = Some u \<and> wf8 u \<and> bits8 u = bits8 v"
proof -
  let ?f = "\<lambda>idx. print_scalar (val8 v ! (size8 v - idx - 1))"
  have f3: "length (?f i) = 3" for i by (simp add: print_scalar_def)
  have len: "length (print8 v) = 4 + 3 * size8 v" using length_concat3 [of ?f, OF f3] by (simp add: print8_def)
  have "drop (3 + 3 * i) (print8 v) = ?f i @ concat (map ?f (drop (Suc i) [0..<size8 v])) @ ''>''" if "i < size8 v" for i
    using drop_concat3 [of ?f i "[0..<size8 v]", OF f3] that length_concat3 [of ?f "[0..<size8 v]", OF f3]
    by (simp add: print8_def add.commute [of 3] flip: drop_drop)
  then have at: "cstr_at (drop (3 + 3 * i) (print8 v)) j = ?f i ! j" if "i < size8 v" "j < 3" for i j
    using that f3 by (simp add: cstr_at_def nth_append trans_less_add1)
  have "scalar_of (c8string_bit (cstr_at (drop (3 + 3 * i) (print8 v)) 2)) (strength_digit (cstr_at (drop (3 + 3 * i) (print8 v)) 0))
      (strength_digit (cstr_at (drop (3 + 3 * i) (print8 v)) 1)) = Some (val8 v ! (size8 v - i - 1))" if "i < size8 v" for i
  proof -
    have lt: "size8 v - i - 1 < size8 v" using that by simp
    then have "built (bits8 v ! (size8 v - i - 1))" using assms unfolding list_all_length by simp
    then have "built (val8 v ! (size8 v - i - 1))" unfolding nth_bits8 [OF lt] .
    then show ?thesis using built_print [of "val8 v ! (size8 v - i - 1)"] that by (simp add: at)
  qed
  then obtain u where u: "c8string_loop (print8 v) (size8 v) (size8 v) (vector8_new (size8 v)) = Some u" "wf8 u"
    "bits8 u = rev (map (\<lambda>i. val8 v ! (size8 v - i - 1)) [0..<size8 v])"
    using c8string_loop_ok [of "vector8_new (size8 v)" "size8 v" "size8 v" "print8 v" "\<lambda>i. val8 v ! (size8 v - i - 1)"] by auto
  have "bits8 u = bits8 v" unfolding u(3) using assms(1) by (intro nth_equalityI) (simp_all add: rev_nth nth_bits8)
  moreover have "c8string_header_test (print8 v)" by (simp add: c8string_header_test_def cstr_at_def print8_def)
  ultimately show ?thesis using u(1,2) len by (auto simp: c8string_to_vector8_def Let_def)
qed

end
