(* ===== verification/Vvp_Schedule.thy ===== *)
theory Vvp_Schedule
  imports Vvp_EventList Vvp_Vector8
begin

text \<open>
  The stratified event queue of the simulator (vvp/schedule.cc): the events, the list of time steps with their
  event regions, and the functions that put events into it. Every event list is a list here; \<open>Vvp_EventList\<close> shows
  that the circular lists of the source behave like it. Objects of other components (threads, nets, arrays,
  callback objects) are addresses, and a \<open>double\<close> is its bit pattern.
\<close>

section \<open>Events\<close>

type_synonym vvp_time64_t = "64 word"
type_synonym address = nat
type_synonym double_bits = "64 word"

datatype event_s =
    Vthread_event_s address
  | Del_thr_event_s address
  | Assign_vector4_event_s address vvp_vector4_t nat nat
  | Assign_vector8_event_s address vvp_vector8_t
  | Assign_real_event_s address double_bits
  | Assign_array_word_s address nat vvp_vector4_t nat
  | Force_vector4_event_s address vvp_vector4_t nat nat
  | Propagate_vector4_event_s address vvp_vector4_t
  | Propagate_real_event_s address double_bits
  | Assign_array_r_word_s address nat double_bits
  | Generic_event_s "address option" bool

record event_time_s =
  et_delay :: vvp_time64_t
  et_start :: "event_s list"
  et_active :: "event_s list"
  et_inactive :: "event_s list"
  et_nbassign :: "event_s list"
  et_rwsync :: "event_s list"
  et_rosync :: "event_s list"
  et_del_thr :: "event_s list"

definition new_event_time :: "vvp_time64_t \<Rightarrow> event_time_s" where
  "new_event_time d = \<lparr>et_delay = d, et_start = [], et_active = [], et_inactive = [], et_nbassign = [],
     et_rwsync = [], et_rosync = [], et_del_thr = []\<rparr>"

datatype event_queue_t = SEQ_START | SEQ_ACTIVE | SEQ_INACTIVE | SEQ_NBASSIGN | SEQ_RWSYNC | SEQ_ROSYNC | DEL_THREAD

text \<open>The static variables of schedule.cc.\<close>

record sched =
  sched_list :: "event_time_s list"
  schedule_init_list :: "event_s list"
  schedule_final_list :: "event_s list"
  schedule_runnable :: bool
  schedule_stopped_flag :: bool
  schedule_single_step_flag :: bool
  sim_started :: bool
  sim_at_rosync :: bool
  schedule_time :: vvp_time64_t
  count_assign_events :: ulong
  count_gen_events :: ulong
  count_thread_events :: ulong
  count_time_events :: ulong

section \<open>The queue\<close>

text \<open>
  The search of \<open>schedule_event_\<close> for the time step of an event: the steps before it, the step, what is left of the
  local \<open>delay\<close>, and the steps after it. A step that is missing is created, and the delay of its successor reduced.
\<close>

fun find_time :: "vvp_time64_t \<Rightarrow> event_time_s list \<Rightarrow> event_time_s list \<times> event_time_s \<times> vvp_time64_t \<times> event_time_s list" where
  "find_time delay [] = ([], new_event_time delay, delay, [])"
| "find_time delay (ctim # rest) =
     (if et_delay ctim > delay
      then ([], new_event_time delay, delay, ctim\<lparr>et_delay := et_delay ctim - delay\<rparr> # rest)
      else if et_delay ctim = delay then ([], ctim, delay, rest)
      else if rest = [] then ([ctim], new_event_time (delay - et_delay ctim), delay, [])
      else let (before, c, d, after) = find_time (delay - et_delay ctim) rest in (ctim # before, c, d, after))"

fun put_queue :: "event_queue_t \<Rightarrow> event_s \<Rightarrow> event_time_s \<Rightarrow> event_time_s" where
  "put_queue SEQ_START cur ctim = ctim\<lparr>et_start := list_put cur (et_start ctim)\<rparr>"
| "put_queue SEQ_ACTIVE cur ctim = ctim\<lparr>et_active := list_put cur (et_active ctim)\<rparr>"
| "put_queue SEQ_INACTIVE cur ctim = ctim\<lparr>et_inactive := list_put cur (et_inactive ctim)\<rparr>"
| "put_queue SEQ_NBASSIGN cur ctim = ctim\<lparr>et_nbassign := list_put cur (et_nbassign ctim)\<rparr>"
| "put_queue SEQ_RWSYNC cur ctim = ctim\<lparr>et_rwsync := list_put cur (et_rwsync ctim)\<rparr>"
| "put_queue SEQ_ROSYNC cur ctim = ctim\<lparr>et_rosync := list_put cur (et_rosync ctim)\<rparr>"
| "put_queue DEL_THREAD cur ctim = ctim\<lparr>et_del_thr := list_put cur (et_del_thr ctim)\<rparr>"

definition schedule_event :: "event_s \<Rightarrow> vvp_time64_t \<Rightarrow> event_queue_t \<Rightarrow> sched \<Rightarrow> sched option" where
  "schedule_event cur delay select_queue s =
     (let (before, ctim, d, after) = find_time delay (sched_list s);
          cells = before @ put_queue select_queue cur ctim # after
      in if select_queue = SEQ_INACTIVE \<and> d \<noteq> 0 then None
         else Some (s\<lparr>sched_list := cells,
                      count_time_events := count_time_events s + of_nat (length cells - length (sched_list s))\<rparr>))"

definition schedule_event_push :: "event_s \<Rightarrow> sched \<Rightarrow> sched option" where
  "schedule_event_push cur s =
     (case sched_list s of
        [] \<Rightarrow> schedule_event cur 0 SEQ_ACTIVE s
      | ctim # rest \<Rightarrow>
          if et_delay ctim > 0 then schedule_event cur 0 SEQ_ACTIVE s
          else Some (s\<lparr>sched_list := ctim\<lparr>et_active := list_push cur (et_active ctim)\<rparr> # rest\<rparr>))"

definition schedule_init_event :: "event_s \<Rightarrow> sched \<Rightarrow> sched option" where
  "schedule_init_event cur s = Some (s\<lparr>schedule_init_list := list_put cur (schedule_init_list s)\<rparr>)"

definition schedule_final_event :: "event_s \<Rightarrow> sched \<Rightarrow> sched option" where
  "schedule_final_event cur s = Some (s\<lparr>schedule_final_list := list_put cur (schedule_final_list s)\<rparr>)"

section \<open>The functions of schedule.h\<close>

text \<open>
  What they do to the thread (marking it, delaying its deletion) belongs to the state of the thread, and is left to
  the caller.
\<close>

named_theorems sched_api \<open>definitions of the scheduling functions\<close>

definition schedule_vthread [sched_api]: "schedule_vthread thr delay push_flag s =
  (if push_flag \<and> delay = 0 then schedule_event_push (Vthread_event_s thr) s
   else schedule_event (Vthread_event_s thr) delay SEQ_ACTIVE s)"

definition schedule_t0_trigger [sched_api]: "schedule_t0_trigger ptr =
  schedule_event (Assign_vector4_event_s ptr (vector4_fill 1 BIT4_X) 0 0) 0 SEQ_INACTIVE"

definition schedule_inactive [sched_api]: "schedule_inactive thr = schedule_event (Vthread_event_s thr) 0 SEQ_INACTIVE"

definition schedule_init_vthread [sched_api]: "schedule_init_vthread thr = schedule_init_event (Vthread_event_s thr)"

definition schedule_final_vthread [sched_api]: "schedule_final_vthread thr = schedule_final_event (Vthread_event_s thr)"

definition schedule_assign_vector [sched_api]: "schedule_assign_vector ptr base vwid bits delay =
  schedule_event (Assign_vector4_event_s ptr bits base vwid) delay SEQ_NBASSIGN"

definition schedule_force_vector [sched_api]: "schedule_force_vector net base vwid bits delay =
  schedule_event (Force_vector4_event_s net bits base vwid) delay SEQ_NBASSIGN"

definition schedule_propagate_vector [sched_api]: "schedule_propagate_vector net delay src =
  schedule_event (Propagate_vector4_event_s net src) delay SEQ_NBASSIGN"

definition schedule_propagate_event [sched_api]: "schedule_propagate_event net delay =
  schedule_event (Propagate_vector4_event_s net (vector4_fill 1 BIT4_X)) delay SEQ_NBASSIGN"

definition schedule_assign_array_word [sched_api]: "schedule_assign_array_word mem word_addr off val delay =
  schedule_event (Assign_array_word_s mem word_addr val off) delay SEQ_NBASSIGN"

definition schedule_assign_array_r_word [sched_api]: "schedule_assign_array_r_word mem word_addr val delay =
  schedule_event (Assign_array_r_word_s mem word_addr val) delay SEQ_NBASSIGN"

definition schedule_set_vector [sched_api]: "schedule_set_vector ptr bits =
  schedule_event (Assign_vector4_event_s ptr bits 0 0) 0 SEQ_ACTIVE"

definition schedule_set_vector8 [sched_api]: "schedule_set_vector8 ptr bits =
  schedule_event (Assign_vector8_event_s ptr bits) 0 SEQ_ACTIVE"

definition schedule_set_real [sched_api]: "schedule_set_real ptr val =
  schedule_event (Assign_real_event_s ptr val) 0 SEQ_ACTIVE"

definition schedule_init_vector [sched_api]: "schedule_init_vector ptr bits =
  schedule_init_event (Assign_vector4_event_s ptr bits 0 0)"

definition schedule_init_vector8 [sched_api]: "schedule_init_vector8 ptr bits =
  schedule_init_event (Assign_vector8_event_s ptr bits)"

definition schedule_init_real [sched_api]: "schedule_init_real ptr val =
  schedule_init_event (Assign_real_event_s ptr val)"

definition schedule_init_propagate [sched_api]: "schedule_init_propagate net bits =
  schedule_init_event (Propagate_vector4_event_s net bits)"

definition schedule_init_propagate_real [sched_api]: "schedule_init_propagate_real net val =
  schedule_init_event (Propagate_real_event_s net val)"

definition schedule_del_thr [sched_api]: "schedule_del_thr thr = schedule_event (Del_thr_event_s thr) 0 DEL_THREAD"

definition schedule_generic [sched_api]: "schedule_generic obj delay sync_flag ro_flag delete_when_done =
  schedule_event (Generic_event_s obj delete_when_done) delay
    (if sync_flag then if ro_flag then SEQ_ROSYNC else SEQ_RWSYNC else SEQ_ACTIVE)"

definition schedule_functor [sched_api]: "schedule_functor obj s =
  (if \<not> sim_started s then schedule_init_event (Generic_event_s obj False) s
   else schedule_event (Generic_event_s obj False) 0 SEQ_ACTIVE s)"

definition schedule_at_start_of_simtime [sched_api]: "schedule_at_start_of_simtime obj delay =
  schedule_event (Generic_event_s obj False) delay SEQ_START"

definition schedule_at_end_of_simtime [sched_api]: "schedule_at_end_of_simtime obj delay =
  schedule_event (Generic_event_s obj False) delay SEQ_RWSYNC"

definition schedule_finish :: "sched \<Rightarrow> sched option" where [sched_api]:
  "schedule_finish s = Some (s\<lparr>schedule_runnable := False\<rparr>)"

definition schedule_stop :: "sched \<Rightarrow> sched option" where [sched_api]:
  "schedule_stop s = Some (s\<lparr>schedule_stopped_flag := True\<rparr>)"

definition schedule_single_step :: "sched \<Rightarrow> sched option" where [sched_api]:
  "schedule_single_step s = Some (s\<lparr>schedule_single_step_flag := True\<rparr>)"

text \<open>A call of one of these functions, as an event or a callback makes it.\<close>

datatype sched_call =
    Schedule_vthread address vvp_time64_t bool
  | Schedule_t0_trigger address
  | Schedule_inactive address
  | Schedule_init_vthread address
  | Schedule_final_vthread address
  | Schedule_assign_vector address nat nat vvp_vector4_t vvp_time64_t
  | Schedule_force_vector address nat nat vvp_vector4_t vvp_time64_t
  | Schedule_propagate_vector address vvp_time64_t vvp_vector4_t
  | Schedule_propagate_event address vvp_time64_t
  | Schedule_assign_array_word address nat nat vvp_vector4_t vvp_time64_t
  | Schedule_assign_array_r_word address nat double_bits vvp_time64_t
  | Schedule_set_vector address vvp_vector4_t
  | Schedule_set_vector8 address vvp_vector8_t
  | Schedule_set_real address double_bits
  | Schedule_init_vector address vvp_vector4_t
  | Schedule_init_vector8 address vvp_vector8_t
  | Schedule_init_real address double_bits
  | Schedule_init_propagate address vvp_vector4_t
  | Schedule_init_propagate_real address double_bits
  | Schedule_del_thr address
  | Schedule_generic "address option" vvp_time64_t bool bool bool
  | Schedule_functor "address option"
  | Schedule_at_start_of_simtime "address option" vvp_time64_t
  | Schedule_at_end_of_simtime "address option" vvp_time64_t
  | Schedule_finish
  | Schedule_stop
  | Schedule_single_step

fun apply_call :: "sched_call \<Rightarrow> sched \<Rightarrow> sched option" where
  "apply_call (Schedule_vthread thr delay push_flag) = schedule_vthread thr delay push_flag"
| "apply_call (Schedule_t0_trigger ptr) = schedule_t0_trigger ptr"
| "apply_call (Schedule_inactive thr) = schedule_inactive thr"
| "apply_call (Schedule_init_vthread thr) = schedule_init_vthread thr"
| "apply_call (Schedule_final_vthread thr) = schedule_final_vthread thr"
| "apply_call (Schedule_assign_vector ptr base vwid bits delay) = schedule_assign_vector ptr base vwid bits delay"
| "apply_call (Schedule_force_vector net base vwid bits delay) = schedule_force_vector net base vwid bits delay"
| "apply_call (Schedule_propagate_vector net delay src) = schedule_propagate_vector net delay src"
| "apply_call (Schedule_propagate_event net delay) = schedule_propagate_event net delay"
| "apply_call (Schedule_assign_array_word mem adr off val delay) = schedule_assign_array_word mem adr off val delay"
| "apply_call (Schedule_assign_array_r_word mem adr val delay) = schedule_assign_array_r_word mem adr val delay"
| "apply_call (Schedule_set_vector ptr bits) = schedule_set_vector ptr bits"
| "apply_call (Schedule_set_vector8 ptr b8) = schedule_set_vector8 ptr b8"
| "apply_call (Schedule_set_real ptr val) = schedule_set_real ptr val"
| "apply_call (Schedule_init_vector ptr bits) = schedule_init_vector ptr bits"
| "apply_call (Schedule_init_vector8 ptr b8) = schedule_init_vector8 ptr b8"
| "apply_call (Schedule_init_real ptr val) = schedule_init_real ptr val"
| "apply_call (Schedule_init_propagate net bits) = schedule_init_propagate net bits"
| "apply_call (Schedule_init_propagate_real net val) = schedule_init_propagate_real net val"
| "apply_call (Schedule_del_thr thr) = schedule_del_thr thr"
| "apply_call (Schedule_generic obj delay sync_flag ro_flag delete_when_done) =
     schedule_generic obj delay sync_flag ro_flag delete_when_done"
| "apply_call (Schedule_functor obj) = schedule_functor obj"
| "apply_call (Schedule_at_start_of_simtime obj delay) = schedule_at_start_of_simtime obj delay"
| "apply_call (Schedule_at_end_of_simtime obj delay) = schedule_at_end_of_simtime obj delay"
| "apply_call Schedule_finish = schedule_finish"
| "apply_call Schedule_stop = schedule_stop"
| "apply_call Schedule_single_step = schedule_single_step"

fun apply_calls :: "sched_call list \<Rightarrow> sched \<Rightarrow> sched option" where
  "apply_calls [] s = Some s"
| "apply_calls (c # cs) s = do { s \<leftarrow> apply_call c s; apply_calls cs s }"

end
