(* ===== verification/Vvp_Agenda.thy ===== *)
theory Vvp_Agenda
  imports Vvp_Schedule "HOL-Library.Multiset"
begin

text \<open>
  What the scheduling functions promise. The list of time steps with relative delays stands for an agenda, which maps
  a time from now and an event region to the events due there, in order: putting an event into the queue
  appends it to the agenda at its time and region and changes nothing else.
\<close>

section \<open>The agenda\<close>

fun queue_of :: "event_queue_t \<Rightarrow> event_time_s \<Rightarrow> event_s list" where
  "queue_of SEQ_START c = et_start c"
| "queue_of SEQ_ACTIVE c = et_active c"
| "queue_of SEQ_INACTIVE c = et_inactive c"
| "queue_of SEQ_NBASSIGN c = et_nbassign c"
| "queue_of SEQ_RWSYNC c = et_rwsync c"
| "queue_of SEQ_ROSYNC c = et_rosync c"
| "queue_of DEL_THREAD c = et_del_thr c"

fun agenda :: "event_time_s list \<Rightarrow> nat \<Rightarrow> event_queue_t \<Rightarrow> event_s list" where
  "agenda [] t q = []"
| "agenda (c # cs) t q =
     (if t < unat (et_delay c) then []
      else if t = unat (et_delay c) then queue_of q c
      else agenda cs (t - unat (et_delay c)) q)"

text \<open>Only the first time step may be now.\<close>

definition wf_cells :: "event_time_s list \<Rightarrow> bool" where
  "wf_cells cells \<longleftrightarrow> list_all (\<lambda>c. et_delay c > 0) (tl cells)"

text \<open>The time from now to the last time step.\<close>

definition horizon :: "event_time_s list \<Rightarrow> nat" where
  "horizon cells = sum_list (map (\<lambda>c. unat (et_delay c)) cells)"

definition insert_event :: "event_s \<Rightarrow> vvp_time64_t \<Rightarrow> event_queue_t \<Rightarrow> event_time_s list \<Rightarrow> event_time_s list" where
  "insert_event e d q cells = (let (before, c, _, after) = find_time d cells in before @ put_queue q e c # after)"

definition cell_events :: "event_time_s \<Rightarrow> event_s multiset" where
  "cell_events c = mset (et_start c @ et_active c @ et_inactive c @ et_nbassign c @ et_rwsync c @ et_rosync c @ et_del_thr c)"

definition cells_events :: "event_time_s list \<Rightarrow> event_s multiset" where
  "cells_events cells = sum_list (map cell_events cells)"

lemma agenda_Nil_0 [simp]: "horizon [] = 0" "cells_events [] = {#}" "wf_cells []"
  by (simp_all add: horizon_def cells_events_def wf_cells_def)

lemma horizon_Cons [simp]: "horizon (c # cs) = unat (et_delay c) + horizon cs"
  by (simp add: horizon_def)

lemma cells_events_simps [simp]: "cells_events (c # cs) = cell_events c + cells_events cs"
  "cells_events (cs @ cs') = cells_events cs + cells_events cs'"
  by (simp_all add: cells_events_def)

lemma wf_cells_Cons: "wf_cells (c # cs) \<longleftrightarrow> (cs = [] \<or> et_delay (hd cs) > 0) \<and> wf_cells cs"
  by (cases cs) (auto simp: wf_cells_def)

lemma queue_of_put: "queue_of q' (put_queue q e c) = queue_of q' c @ (if q' = q then [e] else [])"
  by (cases q; cases q'; simp add: list_put_def)

lemma put_queue_delay [simp]: "et_delay (put_queue q e c) = et_delay c"
  by (cases q) simp_all

lemma new_event_time_simps [simp]: "et_delay (new_event_time d) = d" "queue_of q (new_event_time d) = []"
  "cell_events (new_event_time d) = {#}"
  by (cases q; simp add: new_event_time_def cell_events_def)+

lemma put_queue_events [simp]: "cell_events (put_queue q e c) = add_mset e (cell_events c)"
  by (cases q) (simp_all add: cell_events_def list_put_def)

lemma delay_update [simp]: "queue_of q (c\<lparr>et_delay := d\<rparr>) = queue_of q c" "cell_events (c\<lparr>et_delay := d\<rparr>) = cell_events c"
  by (cases q; simp add: cell_events_def)+

lemma time_diff:
  assumes "(d :: vvp_time64_t) < e"
  shows "unat d < unat e" "unat (e - d) = unat e - unat d"
  using assms unat_sub [of d e] by (simp_all add: word_less_nat_alt [symmetric])

lemma find_time_unfold:
  "insert_event e d q (c # cs) =
    (if et_delay c > d then put_queue q e (new_event_time d) # c\<lparr>et_delay := et_delay c - d\<rparr> # cs
     else if et_delay c = d then put_queue q e c # cs
     else c # insert_event e (d - et_delay c) q cs)"
  by (cases cs) (auto simp: insert_event_def split: prod.splits)

lemma insert_event_Nil: "insert_event e d q [] = [put_queue q e (new_event_time d)]"
  by (simp add: insert_event_def)

lemmas insert_event_simps = insert_event_Nil find_time_unfold

lemma insert_event_agenda:
  "agenda (insert_event e d q cells) t q' = agenda cells t q' @ (if t = unat d \<and> q' = q then [e] else [])"
proof (induction cells arbitrary: d t q')
  case Nil
  then show ?case by (simp add: insert_event_simps queue_of_put)
next
  case (Cons c cs)
  consider "et_delay c > d" | "et_delay c = d" | "et_delay c < d" by fastforce
  then show ?case
  proof cases
    case 1
    then show ?thesis using time_diff [OF 1] by (auto simp: insert_event_simps queue_of_put)
  next
    case 2
    then show ?thesis by (auto simp: insert_event_simps queue_of_put)
  next
    case 3
    then show ?thesis using time_diff [OF 3] by (auto simp: insert_event_simps Cons.IH)
  qed
qed

lemma insert_event_wf: "wf_cells cells \<Longrightarrow> wf_cells (insert_event e d q cells)"
proof -
  have pos: "list_all (\<lambda>c. et_delay c > 0) (insert_event e d q cs)" if "list_all (\<lambda>c. et_delay c > 0) cs" "d > 0" for cs d
    using that
  proof (induction cs arbitrary: d)
    case (Cons c cs)
    consider "et_delay c > d" | "et_delay c = d" | "et_delay c < d" by fastforce
    then show ?case
      by cases (use Cons in \<open>auto simp: insert_event_simps word_neq_0_conv [symmetric] simp del: word_neq_0_conv\<close>)
  qed (simp add: insert_event_simps)
  show "wf_cells cells \<Longrightarrow> wf_cells (insert_event e d q cells)"
  proof (cases cells)
    case (Cons c cs)
    assume wf: "wf_cells cells"
    consider "et_delay c > d" | "et_delay c = d" | "et_delay c < d" by fastforce
    then show ?thesis
    proof cases
      case 1
      then show ?thesis using wf Cons
        by (auto simp: insert_event_simps wf_cells_def word_neq_0_conv [symmetric] simp del: word_neq_0_conv)
    next
      case 2
      then show ?thesis using wf Cons by (auto simp: insert_event_simps wf_cells_def)
    next
      case 3
      then have "d - et_delay c > 0" by (auto simp: word_neq_0_conv [symmetric] simp del: word_neq_0_conv)
      then show ?thesis using wf Cons 3 pos [of cs] by (auto simp: insert_event_simps wf_cells_def)
    qed
  qed (simp add: insert_event_simps wf_cells_def)
qed

lemma insert_event_horizon: "horizon (insert_event e d q cells) = max (horizon cells) (unat d)"
proof (induction cells arbitrary: d)
  case (Cons c cs)
  consider "et_delay c > d" | "et_delay c = d" | "et_delay c < d" by fastforce
  then show ?case
  proof cases
    case 1
    then show ?thesis using time_diff [OF 1] by (auto simp: insert_event_simps)
  next
    case 2
    then show ?thesis by (auto simp: insert_event_simps)
  next
    case 3
    then show ?thesis using time_diff [OF 3] by (auto simp: insert_event_simps Cons.IH)
  qed
qed (simp add: insert_event_simps)

text \<open>Time steps that lie ahead hold events.\<close>

definition all_busy :: "event_time_s list \<Rightarrow> bool" where
  "all_busy cells \<longleftrightarrow> list_all (\<lambda>c. et_delay c = 0 \<or> cell_events c \<noteq> {#}) cells"

lemma all_busy_simps [simp]: "all_busy []" "all_busy (c # cs) \<longleftrightarrow> (et_delay c = 0 \<or> cell_events c \<noteq> {#}) \<and> all_busy cs"
  by (simp_all add: all_busy_def)

lemma insert_event_busy: "all_busy cells \<Longrightarrow> all_busy (insert_event e d q cells)"
  by (induction cells arbitrary: d) (auto simp: insert_event_simps)

lemma busy_queue: "cell_events c \<noteq> {#} \<Longrightarrow> \<exists>q. queue_of q c \<noteq> []"
  by (metis (no_types, lifting) cell_events_def append_Nil mset.simps(1) queue_of.simps)

lemma insert_event_events: "cells_events (insert_event e d q cells) = add_mset e (cells_events cells)"
  by (induction cells arbitrary: d) (auto simp: insert_event_simps)

lemma find_time_zero: "find_time 0 cells = (b, c, d, a) \<Longrightarrow> d = 0"
  by (cases cells) (auto split: if_splits simp: word_neq_0_conv [symmetric] simp del: word_neq_0_conv)

text \<open>While the first time step is now, no event goes in front of it.\<close>

lemma insert_event_now:
  assumes "et_delay c = 0"
  shows "insert_event e d q (c # cs) = (if d = 0 then put_queue q e c # cs else c # insert_event e d q cs)"
  using assms by (auto simp: insert_event_simps)

lemma insert_event_not_Nil [simp]: "insert_event e d q cells \<noteq> []"
  by (cases cells) (auto simp: insert_event_simps)

section \<open>The scheduling functions\<close>

text \<open>The only assertion of the queue concerns inactive events with a delay, and no function schedules one.\<close>

lemma schedule_event_ok:
  assumes "q = SEQ_INACTIVE \<longrightarrow> d = 0"
  shows "schedule_event e d q s = Some (s\<lparr>sched_list := insert_event e d q (sched_list s),
    count_time_events := count_time_events s + of_nat (length (insert_event e d q (sched_list s)) - length (sched_list s))\<rparr>)"
proof -
  obtain b c d' a where f: "find_time d (sched_list s) = (b, c, d', a)" by (metis prod_cases4)
  moreover from this have "q = SEQ_INACTIVE \<Longrightarrow> d' = 0" using assms find_time_zero by blast
  ultimately show ?thesis by (auto simp: schedule_event_def insert_event_def Let_def)
qed

lemma schedule_event_inactive: "schedule_event e d SEQ_INACTIVE s = None \<Longrightarrow> d \<noteq> 0"
  using schedule_event_ok [of SEQ_INACTIVE d e s] by auto

definition push_cells :: "event_s \<Rightarrow> event_time_s list \<Rightarrow> event_time_s list" where
  "push_cells e cells = (case cells of [] \<Rightarrow> insert_event e 0 SEQ_ACTIVE []
     | c # cs \<Rightarrow> if et_delay c > 0 then insert_event e 0 SEQ_ACTIVE (c # cs) else c\<lparr>et_active := e # et_active c\<rparr> # cs)"

lemma schedule_event_push_ok:
  "\<exists>n. schedule_event_push e s = Some (s\<lparr>sched_list := push_cells e (sched_list s), count_time_events := n\<rparr>)"
proof (cases "sched_list s = [] \<or> et_delay (hd (sched_list s)) > 0")
  case True
  then show ?thesis using schedule_event_ok [of SEQ_ACTIVE 0 e s]
    by (cases "sched_list s") (auto simp: schedule_event_push_def push_cells_def)
next
  case False
  then show ?thesis
    by (cases "sched_list s") (auto simp: schedule_event_push_def push_cells_def list_push_def intro!: exI [of _ "count_time_events s"])
qed

text \<open>A scheduler without events.\<close>

abbreviation empty_sched :: sched where
  "empty_sched \<equiv> \<lparr>sched_list = [], schedule_init_list = [], schedule_final_list = [], schedule_runnable = True,
     schedule_stopped_flag = False, schedule_single_step_flag = False, sim_started = False, sim_at_rosync = False,
     schedule_time = 0, count_assign_events = 0, count_gen_events = 0, count_thread_events = 0, count_time_events = 0\<rparr>"

text \<open>How a call changes the state: it adds an event to one of the lists, or sets a flag.\<close>

fun call_event :: "sched_call \<Rightarrow> event_s option" where
  "call_event (Schedule_vthread thr delay push_flag) = Some (Vthread_event_s thr)"
| "call_event (Schedule_t0_trigger ptr) = Some (Assign_vector4_event_s ptr (vector4_fill 1 BIT4_X) 0 0)"
| "call_event (Schedule_inactive thr) = Some (Vthread_event_s thr)"
| "call_event (Schedule_init_vthread thr) = Some (Vthread_event_s thr)"
| "call_event (Schedule_final_vthread thr) = Some (Vthread_event_s thr)"
| "call_event (Schedule_assign_vector ptr base vwid bits delay) = Some (Assign_vector4_event_s ptr bits base vwid)"
| "call_event (Schedule_force_vector net base vwid bits delay) = Some (Force_vector4_event_s net bits base vwid)"
| "call_event (Schedule_propagate_vector net delay src) = Some (Propagate_vector4_event_s net src)"
| "call_event (Schedule_propagate_event net delay) = Some (Propagate_vector4_event_s net (vector4_fill 1 BIT4_X))"
| "call_event (Schedule_assign_array_word mem adr off val delay) = Some (Assign_array_word_s mem adr val off)"
| "call_event (Schedule_assign_array_r_word mem adr val delay) = Some (Assign_array_r_word_s mem adr val)"
| "call_event (Schedule_set_vector ptr bits) = Some (Assign_vector4_event_s ptr bits 0 0)"
| "call_event (Schedule_set_vector8 ptr b8) = Some (Assign_vector8_event_s ptr b8)"
| "call_event (Schedule_set_real ptr val) = Some (Assign_real_event_s ptr val)"
| "call_event (Schedule_init_vector ptr bits) = Some (Assign_vector4_event_s ptr bits 0 0)"
| "call_event (Schedule_init_vector8 ptr b8) = Some (Assign_vector8_event_s ptr b8)"
| "call_event (Schedule_init_real ptr val) = Some (Assign_real_event_s ptr val)"
| "call_event (Schedule_init_propagate net bits) = Some (Propagate_vector4_event_s net bits)"
| "call_event (Schedule_init_propagate_real net val) = Some (Propagate_real_event_s net val)"
| "call_event (Schedule_del_thr thr) = Some (Del_thr_event_s thr)"
| "call_event (Schedule_generic obj delay sync_flag ro_flag delete_when_done) = Some (Generic_event_s obj delete_when_done)"
| "call_event (Schedule_functor obj) = Some (Generic_event_s obj False)"
| "call_event (Schedule_at_start_of_simtime obj delay) = Some (Generic_event_s obj False)"
| "call_event (Schedule_at_end_of_simtime obj delay) = Some (Generic_event_s obj False)"
| "call_event Schedule_finish = None"
| "call_event Schedule_stop = None"
| "call_event Schedule_single_step = None"

inductive adds :: "sched \<Rightarrow> event_s option \<Rightarrow> sched \<Rightarrow> bool" where
  Queue: "adds s (Some e) (s\<lparr>sched_list := insert_event e d q (sched_list s), count_time_events := n\<rparr>)"
| Push: "adds s (Some e) (s\<lparr>sched_list := push_cells e (sched_list s), count_time_events := n\<rparr>)"
| Init: "adds s (Some e) (s\<lparr>schedule_init_list := schedule_init_list s @ [e]\<rparr>)"
| Final: "adds s (Some e) (s\<lparr>schedule_final_list := schedule_final_list s @ [e]\<rparr>)"
| Flag: "adds s None (s\<lparr>schedule_runnable := r, schedule_stopped_flag := p, schedule_single_step_flag := x\<rparr>)"

lemma adds_flags:
  "adds s None (s\<lparr>schedule_runnable := r\<rparr>)" "adds s None (s\<lparr>schedule_stopped_flag := p\<rparr>)"
  "adds s None (s\<lparr>schedule_single_step_flag := x\<rparr>)"
  using Flag [where s = s and r = r and p = "schedule_stopped_flag s" and x = "schedule_single_step_flag s"]
    Flag [where s = s and r = "schedule_runnable s" and p = p and x = "schedule_single_step_flag s"]
    Flag [where s = s and r = "schedule_runnable s" and p = "schedule_stopped_flag s" and x = x] by simp_all

lemma apply_call_adds: "\<exists>s'. apply_call c s = Some s' \<and> adds s (call_event c) s'"
proof -
  have q: "\<exists>s'. schedule_event e d q s = Some s' \<and> adds s (Some e) s'" if "q = SEQ_INACTIVE \<longrightarrow> d = 0" for e d q
    using schedule_event_ok [OF that] Queue by fastforce
  have p: "\<exists>s'. schedule_event_push e s = Some s' \<and> adds s (Some e) s'" for e
    using schedule_event_push_ok [of e s] Push by fastforce
  have i: "\<exists>s'. schedule_init_event e s = Some s' \<and> adds s (Some e) s'"
    "\<exists>s'. schedule_final_event e s = Some s' \<and> adds s (Some e) s'" for e
    using Init Final by (auto simp: schedule_init_event_def schedule_final_event_def list_put_def)
  show ?thesis by (cases c) (auto simp: sched_api intro: q p i adds_flags)
qed

end
