(* ===== verification/Vvp_Simulate.thy ===== *)
theory Vvp_Simulate
  imports Vvp_Agenda
begin

text \<open>
  The simulation loop (vvp/schedule.cc): what each event does when it runs, and \<open>schedule_simulate\<close> with \<open>run_rosync\<close> as
  a step function, one step for each event and for each turn of a loop that runs none. What the other components do
  when an event calls them is the parameter \<open>env\<close>: it transforms their state and makes calls of the scheduling
  functions. It sees of the scheduler what schedule.h gives: the time and the flags.
\<close>

section \<open>Running an event\<close>

text \<open>What the scheduler calls in other components.\<close>

datatype effect =
    Vthread_run address
  | Vthread_delete address
  | Vvp_send_vec4 address vvp_vector4_t
  | Vvp_send_vec4_pv address vvp_vector4_t nat nat
  | Vvp_send_vec8 address vvp_vector8_t
  | Vvp_send_real address double_bits
  | Set_word address nat nat vvp_vector4_t
  | Set_word_real address nat double_bits
  | Force_vec4 address vvp_vector4_t vvp_vector2_t
  | Send_vec4 address vvp_vector4_t
  | Send_real address double_bits
  | Obj_run_run address
  | Obj_delete address
  | VpiEndOfCompile
  | VpiStartOfSim
  | VpiNextSimTime
  | VpiPostsim
  | Stop_handler

record observation =
  obs_simtime :: vvp_time64_t
  obs_finished :: bool
  obs_stopped :: bool
  obs_rosync :: bool

definition observe :: "sched \<Rightarrow> observation" where
  "observe s = \<lparr>obs_simtime = schedule_time s, obs_finished = (\<not> schedule_runnable s),
     obs_stopped = schedule_stopped_flag s, obs_rosync = sim_at_rosync s\<rparr>"

record 'w env =
  perform :: "effect \<Rightarrow> observation \<Rightarrow> 'w \<Rightarrow> 'w \<times> sched_call list"
  vec4_value :: "address \<Rightarrow> 'w \<Rightarrow> vvp_vector4_t"

text \<open>
  \<open>force_vector4_event_s::run_run\<close>: the mask of the forced bits, and the current value of the net with the forced bits
  in it. If \<open>base\<close> is beyond \<open>vwid\<close>, the difference wraps and the first \<open>set_bit\<close> fails.
\<close>

definition force_vector4 :: "'w env \<Rightarrow> address \<Rightarrow> vvp_vector4_t \<Rightarrow> nat \<Rightarrow> nat \<Rightarrow> 'w \<Rightarrow> (vvp_vector4_t \<times> vvp_vector2_t) option" where
  "force_vector4 env net val base vwid w =
     do {
       wid \<leftarrow> (if base + size4 val > vwid then if base > vwid then None else Some (vwid - base) else Some (size4 val));
       msk \<leftarrow> set_loop set_bit2 base (\<lambda>_. 1) wid (vector2_fill False vwid);
       (tmp, changed) \<leftarrow> set_vec (vec4_value env net w) base val;
       Some (tmp, msk) }"

text \<open>The \<open>run_run\<close> methods of the events, without their counters.\<close>

definition run_vthread_event [simp]: "run_vthread_event thr = [Vthread_run thr]"

definition run_del_thr_event [simp]: "run_del_thr_event thr = [Vthread_delete thr]"

definition run_assign_vector4_event [simp]: "run_assign_vector4_event ptr val base vwid =
  [if vwid > 0 then Vvp_send_vec4_pv ptr val base vwid else Vvp_send_vec4 ptr val]"

definition run_assign_vector8_event [simp]: "run_assign_vector8_event ptr v8 = [Vvp_send_vec8 ptr v8]"

definition run_assign_real_event [simp]: "run_assign_real_event ptr r = [Vvp_send_real ptr r]"

definition run_assign_array_word [simp]: "run_assign_array_word mem adr val off = [Set_word mem adr off val]"

definition run_force_vector4_event [simp]: "run_force_vector4_event env net val base vwid w =
  do { (tmp, msk) \<leftarrow> force_vector4 env net val base vwid w; Some [Force_vec4 net tmp msk] }"

definition run_propagate_vector4_event [simp]: "run_propagate_vector4_event net val = [Send_vec4 net val]"

definition run_propagate_real_event [simp]: "run_propagate_real_event net r = [Send_real net r]"

definition run_assign_array_r_word [simp]: "run_assign_array_r_word mem adr r = [Set_word_real mem adr r]"

definition run_generic_event [simp]: "run_generic_event obj delete_obj =
  (case obj of None \<Rightarrow> [] | Some a \<Rightarrow> Obj_run_run a # (if delete_obj then [Obj_delete a] else []))"

fun run_run :: "'w env \<Rightarrow> event_s \<Rightarrow> 'w \<Rightarrow> effect list option" where
  "run_run env (Vthread_event_s thr) w = Some (run_vthread_event thr)"
| "run_run env (Del_thr_event_s thr) w = Some (run_del_thr_event thr)"
| "run_run env (Assign_vector4_event_s ptr val base vwid) w = Some (run_assign_vector4_event ptr val base vwid)"
| "run_run env (Assign_vector8_event_s ptr v8) w = Some (run_assign_vector8_event ptr v8)"
| "run_run env (Assign_real_event_s ptr r) w = Some (run_assign_real_event ptr r)"
| "run_run env (Assign_array_word_s mem adr val off) w = Some (run_assign_array_word mem adr val off)"
| "run_run env (Force_vector4_event_s net val base vwid) w = run_force_vector4_event env net val base vwid w"
| "run_run env (Propagate_vector4_event_s net val) w = Some (run_propagate_vector4_event net val)"
| "run_run env (Propagate_real_event_s net r) w = Some (run_propagate_real_event net r)"
| "run_run env (Assign_array_r_word_s mem adr r) w = Some (run_assign_array_r_word mem adr r)"
| "run_run env (Generic_event_s obj delete_obj) w = Some (run_generic_event obj delete_obj)"

text \<open>The counters of the events.\<close>

fun count_event :: "event_s \<Rightarrow> sched \<Rightarrow> sched" where
  "count_event (Vthread_event_s thr) s = s\<lparr>count_thread_events := count_thread_events s + 1\<rparr>"
| "count_event (Assign_vector4_event_s ptr val base vwid) s = s\<lparr>count_assign_events := count_assign_events s + 1\<rparr>"
| "count_event (Assign_vector8_event_s ptr v8) s = s\<lparr>count_assign_events := count_assign_events s + 1\<rparr>"
| "count_event (Assign_real_event_s ptr r) s = s\<lparr>count_assign_events := count_assign_events s + 1\<rparr>"
| "count_event (Assign_array_word_s mem adr val off) s = s\<lparr>count_assign_events := count_assign_events s + 1\<rparr>"
| "count_event (Force_vector4_event_s net val base vwid) s = s\<lparr>count_assign_events := count_assign_events s + 1\<rparr>"
| "count_event (Assign_array_r_word_s mem adr r) s = s\<lparr>count_assign_events := count_assign_events s + 1\<rparr>"
| "count_event (Generic_event_s obj delete_obj) s = s\<lparr>count_gen_events := count_gen_events s + 1\<rparr>"
| "count_event _ s = s"

section \<open>The loop\<close>

datatype phase = Ph_Init | Ph_Main | Ph_Start | Ph_Rosync | Ph_Del_thr | Ph_Final | Ph_Done

record 'w conf =
  cphase :: phase
  csched :: sched
  cworld :: 'w
  run_finals :: bool

fun perform_all :: "'w env \<Rightarrow> effect list \<Rightarrow> 'w conf \<Rightarrow> 'w conf option" where
  "perform_all env [] c = Some c"
| "perform_all env (eff # effs) c =
     (let (w, calls) = perform env eff (observe (csched c)) (cworld c)
      in do { s \<leftarrow> apply_calls calls (csched c); perform_all env effs (c\<lparr>csched := s, cworld := w\<rparr>) })"

definition run_event :: "'w env \<Rightarrow> event_s \<Rightarrow> 'w conf \<Rightarrow> 'w conf option" where
  "run_event env e c =
     do { effs \<leftarrow> run_run env e (cworld c); perform_all env effs (c\<lparr>csched := count_event e (csched c)\<rparr>) }"

text \<open>The current time step \<open>ctim\<close> is the first one of the list.\<close>

definition upd_ctim :: "(event_time_s \<Rightarrow> event_time_s) \<Rightarrow> 'w conf \<Rightarrow> 'w conf" where
  "upd_ctim f c = c\<lparr>csched := (csched c)\<lparr>sched_list := (case sched_list (csched c) of [] \<Rightarrow> [] | t # ts \<Rightarrow> f t # ts)\<rparr>\<rparr>"

text \<open>The promotion of the event regions if there is no active event.\<close>

definition promote :: "event_time_s \<Rightarrow> event_time_s" where
  "promote t =
     (if et_active t = []
      then let t = t\<lparr>et_active := et_inactive t, et_inactive := []\<rparr>
           in if et_active t = []
              then let t = t\<lparr>et_active := et_nbassign t, et_nbassign := []\<rparr>
                   in if et_active t = [] then t\<lparr>et_active := et_rwsync t, et_rwsync := []\<rparr> else t
              else t
      else t)"

text \<open>The last part of the main loop: promotion, and one active event or the end of the time step.\<close>

definition run_active :: "'w env \<Rightarrow> event_time_s \<Rightarrow> 'w conf \<Rightarrow> 'w conf option" where
  "run_active env t c =
     (case list_pull (et_active (promote t)) of
        None \<Rightarrow> let c = upd_ctim promote c
                in Some (c\<lparr>cphase := Ph_Rosync, csched := (csched c)\<lparr>sim_at_rosync := True\<rparr>\<rparr>)
      | Some (cur, rest) \<Rightarrow>
          let c = upd_ctim (\<lambda>t. promote t\<lparr>et_active := rest\<rparr>) c;
              c = (if schedule_single_step_flag (csched c)
                   then c\<lparr>csched := (csched c)\<lparr>schedule_stopped_flag := True, schedule_single_step_flag := False\<rparr>\<rparr>
                   else c)
          in run_event env cur (c\<lparr>cphase := Ph_Main\<rparr>))"

definition to_final :: "'w conf \<Rightarrow> 'w conf" where
  "to_final c = c\<lparr>cphase := Ph_Final, csched := (csched c)\<lparr>schedule_runnable := run_finals c\<rparr>\<rparr>"

fun step :: "'w env \<Rightarrow> phase \<Rightarrow> 'w conf \<Rightarrow> 'w conf option" where
  "step env Ph_Init c =
     (case list_pull (schedule_init_list (csched c)) of
        Some (cur, rest) \<Rightarrow> run_event env cur (c\<lparr>csched := (csched c)\<lparr>schedule_init_list := rest\<rparr>\<rparr>)
      | None \<Rightarrow>
          do { c \<leftarrow> perform_all env [VpiStartOfSim] (c\<lparr>csched := (csched c)\<lparr>sim_started := True\<rparr>\<rparr>);
               let c = c\<lparr>run_finals := schedule_runnable (csched c)\<rparr>;
               Some (if schedule_runnable (csched c) then c\<lparr>cphase := Ph_Main\<rparr> else to_final c) })"
| "step env Ph_Main c =
     (case sched_list (csched c) of
        [] \<Rightarrow> Some (to_final c)
      | t # ts \<Rightarrow>
          if schedule_stopped_flag (csched c)
          then do { c \<leftarrow> perform_all env [Stop_handler] (c\<lparr>csched := (csched c)\<lparr>schedule_stopped_flag := False\<rparr>\<rparr>);
                    Some (if \<not> schedule_runnable (csched c) then to_final c else c) }
          else if et_delay t > 0
          then if \<not> schedule_runnable (csched c) then Some (to_final c)
               else let c = c\<lparr>csched := (csched c)\<lparr>schedule_time := schedule_time (csched c) + et_delay t\<rparr>\<rparr>;
                        c = upd_ctim (\<lambda>t. t\<lparr>et_delay := 0\<rparr>) c
                    in do { c \<leftarrow> perform_all env [VpiNextSimTime] c; Some (c\<lparr>cphase := Ph_Start\<rparr>) }
          else run_active env t c)"
| "step env Ph_Start c =
     (case sched_list (csched c) of
        [] \<Rightarrow> None
      | t # ts \<Rightarrow>
          (case list_pull (et_start t) of
             Some (cur, rest) \<Rightarrow> run_event env cur (upd_ctim (\<lambda>t. t\<lparr>et_start := rest\<rparr>) c)
           | None \<Rightarrow> run_active env t c))"
| "step env Ph_Rosync c =
     (case sched_list (csched c) of
        [] \<Rightarrow> None
      | t # ts \<Rightarrow>
          (case list_pull (et_rosync t) of
             Some (cur, rest) \<Rightarrow> run_event env cur (upd_ctim (\<lambda>t. t\<lparr>et_rosync := rest\<rparr>) c)
           | None \<Rightarrow> Some (c\<lparr>cphase := Ph_Del_thr, csched := (csched c)\<lparr>sim_at_rosync := False\<rparr>\<rparr>)))"
| "step env Ph_Del_thr c =
     (case sched_list (csched c) of
        [] \<Rightarrow> None
      | t # ts \<Rightarrow>
          (case list_pull (et_del_thr t) of
             Some (cur, rest) \<Rightarrow> run_event env cur (upd_ctim (\<lambda>t. t\<lparr>et_del_thr := rest\<rparr>) c)
           | None \<Rightarrow> Some (c\<lparr>cphase := Ph_Main, csched := (csched c)\<lparr>sched_list := ts\<rparr>\<rparr>)))"
| "step env Ph_Final c =
     (case list_pull (schedule_final_list (csched c)) of
        Some (cur, rest) \<Rightarrow>
          if schedule_runnable (csched c)
          then run_event env cur (c\<lparr>csched := (csched c)\<lparr>schedule_final_list := rest\<rparr>\<rparr>)
          else do { c \<leftarrow> perform_all env [VpiPostsim] c; Some (c\<lparr>cphase := Ph_Done\<rparr>) }
      | None \<Rightarrow> do { c \<leftarrow> perform_all env [VpiPostsim] c; Some (c\<lparr>cphase := Ph_Done\<rparr>) })"
| "step env Ph_Done c = Some c"

text \<open>The beginning of \<open>schedule_simulate\<close>, and its first \<open>n\<close> steps.\<close>

definition simulate_start :: "'w env \<Rightarrow> sched \<Rightarrow> 'w \<Rightarrow> 'w conf option" where
  "simulate_start env s w =
     perform_all env [VpiEndOfCompile]
       \<lparr>cphase = Ph_Init, csched = s\<lparr>sim_started := False, schedule_time := 0\<rparr>, cworld = w, run_finals = False\<rparr>"

fun steps :: "'w env \<Rightarrow> nat \<Rightarrow> 'w conf \<Rightarrow> 'w conf option" where
  "steps env 0 c = Some c"
| "steps env (Suc n) c = do { c \<leftarrow> step env (cphase c) c; steps env n c }"

definition schedule_simulate :: "'w env \<Rightarrow> nat \<Rightarrow> sched \<Rightarrow> 'w \<Rightarrow> 'w conf option" where
  "schedule_simulate env n s w = do { c \<leftarrow> simulate_start env s w; steps env n c }"

end
