(* ===== verification/Vvp_SimInv.thy ===== *)
theory Vvp_SimInv
  imports Vvp_Simulate
begin

text \<open>
  Invariants of the simulation loop: whatever the events do, the list of time steps stays well formed, the current time
  step stays first while it is worked on, no assertion of the scheduler fails, simulation time never goes
  back, and no time at which an event is due is skipped.
\<close>

section \<open>What calls may change\<close>

definition extends :: "sched \<Rightarrow> sched \<Rightarrow> bool" where
  "extends s s' \<longleftrightarrow> schedule_time s' = schedule_time s \<and> sim_started s' = sim_started s \<and> sim_at_rosync s' = sim_at_rosync s \<and>
     (wf_cells (sched_list s) \<longrightarrow> wf_cells (sched_list s')) \<and>
     (horizon (sched_list s) < 2 ^ 64 \<longrightarrow> horizon (sched_list s') < 2 ^ 64) \<and>
     (all_busy (sched_list s) \<longrightarrow> all_busy (sched_list s')) \<and>
     (\<forall>c cs. sched_list s = c # cs \<and> et_delay c = 0 \<longrightarrow> (\<exists>c' cs'. sched_list s' = c' # cs' \<and> et_delay c' = 0)) \<and>
     (\<forall>t q. \<exists>xs ys. agenda (sched_list s') t q = xs @ agenda (sched_list s) t q @ ys \<and> (t > 0 \<or> q \<noteq> SEQ_ACTIVE \<longrightarrow> xs = []))"

definition pending :: "sched \<Rightarrow> event_s multiset" where
  "pending s = mset (schedule_init_list s) + cells_events (sched_list s) + mset (schedule_final_list s)"

lemma extends_refl [simp]: "extends s s"
  by (auto simp: extends_def intro: exI [of _ "[]"])

lemma extends_agenda:
  "extends s s' \<Longrightarrow> \<exists>xs ys. agenda (sched_list s') t q = xs @ agenda (sched_list s) t q @ ys \<and> (t > 0 \<or> q \<noteq> SEQ_ACTIVE \<longrightarrow> xs = [])"
  by (simp add: extends_def)

lemma extends_trans: "extends s s' \<Longrightarrow> extends s' s'' \<Longrightarrow> extends s s''"
proof -
  assume a: "extends s s'" "extends s' s''"
  have "\<exists>xs ys. agenda (sched_list s'') t q = xs @ agenda (sched_list s) t q @ ys \<and> (t > 0 \<or> q \<noteq> SEQ_ACTIVE \<longrightarrow> xs = [])" for t q
  proof -
    obtain xs ys where 1: "agenda (sched_list s') t q = xs @ agenda (sched_list s) t q @ ys" "t > 0 \<or> q \<noteq> SEQ_ACTIVE \<longrightarrow> xs = []"
      using extends_agenda [OF a(1)] by blast
    obtain xs' ys' where 2: "agenda (sched_list s'') t q = xs' @ agenda (sched_list s') t q @ ys'" "t > 0 \<or> q \<noteq> SEQ_ACTIVE \<longrightarrow> xs' = []"
      using extends_agenda [OF a(2)] by blast
    show ?thesis using 1 2 by (intro exI [of _ "xs' @ xs"] exI [of _ "ys @ ys'"]) auto
  qed
  then show ?thesis using a unfolding extends_def by (metis (no_types, lifting))
qed

lemma push_cells_events: "cells_events (push_cells e cells) = add_mset e (cells_events cells)"
  by (cases cells) (auto simp: push_cells_def insert_event_events cell_events_def)

lemma append_ext: "\<exists>xs ys. a @ zs = xs @ a @ ys \<and> (P \<longrightarrow> xs = [])"
  by (intro exI [of _ "[]"] exI [of _ zs]) simp

lemma insert_extends:
  assumes "sched_list s' = insert_event e d q (sched_list s)"
    and "schedule_time s' = schedule_time s" "sim_started s' = sim_started s" "sim_at_rosync s' = sim_at_rosync s"
  shows "extends s s'"
proof -
  have "\<exists>c' cs'. insert_event e d q (c # cs) = c' # cs' \<and> et_delay c' = 0" if "et_delay c = 0" for c cs
    using insert_event_now [OF that] that by auto
  moreover have "horizon (sched_list s) < 2 ^ 64 \<longrightarrow> horizon (sched_list s') < 2 ^ 64"
    unfolding assms(1) insert_event_horizon using unat_lt_64 by simp
  moreover have "\<exists>xs ys. agenda (sched_list s') t q' = xs @ agenda (sched_list s) t q' @ ys \<and> (t > 0 \<or> q' \<noteq> SEQ_ACTIVE \<longrightarrow> xs = [])" for t q'
    unfolding assms(1) insert_event_agenda by (rule append_ext)
  ultimately show ?thesis unfolding extends_def using assms insert_event_wf insert_event_busy by auto
qed

lemma adds_extends: "adds s eo s' \<Longrightarrow> extends s s'"
proof (induction rule: adds.induct)
  case Queue
  show ?case by (rule insert_extends) simp_all
next
  case (Push s e)
  show ?case
  proof (cases "sched_list s = [] \<or> et_delay (hd (sched_list s)) > 0")
    case True
    then have "push_cells e (sched_list s) = insert_event e 0 SEQ_ACTIVE (sched_list s)" by (cases "sched_list s") (auto simp: push_cells_def)
    then show ?thesis by (intro insert_extends) simp_all
  next
    case False
    then obtain c cs where c: "sched_list s = c # cs" "et_delay c = 0" by (cases "sched_list s") (auto simp: word_gt_0)
    have "queue_of q (c\<lparr>et_active := e # et_active c\<rparr>) = (if q = SEQ_ACTIVE then [e] else []) @ queue_of q c" for q by (cases q) simp_all
    moreover have "\<exists>xs ys. e # et_active c = xs @ et_active c @ ys" by (intro exI [of _ "[e]"] exI [of _ "[]"]) simp
    ultimately show ?thesis unfolding extends_def using c
      by (auto simp: push_cells_def wf_cells_def intro: exI [of _ "[]"])
  qed
qed (auto simp: extends_def intro: exI [of _ "[]"])

lemma adds_pending: "adds s eo s' \<Longrightarrow> pending s' = pending s + (case eo of None \<Rightarrow> {#} | Some e \<Rightarrow> {#e#})"
  by (induction rule: adds.induct) (simp_all add: pending_def insert_event_events push_cells_events)

lemma apply_calls_ok:
  "\<exists>s'. apply_calls cs s = Some s' \<and> extends s s' \<and> pending s' = pending s + mset (List.map_filter call_event cs)"
proof (induction cs arbitrary: s)
  case (Cons c cs)
  obtain s1 where s1: "apply_call c s = Some s1" "adds s (call_event c) s1" using apply_call_adds by blast
  obtain s2 where s2: "apply_calls cs s1 = Some s2" "extends s1 s2" "pending s2 = pending s1 + mset (List.map_filter call_event cs)"
    using Cons by blast
  show ?case using s1 s2 adds_extends [OF s1(2)] adds_pending [OF s1(2)] extends_trans
    by (auto simp: map_filter_simps split: option.splits)
qed (simp add: map_filter_simps)

section \<open>Running events\<close>

lemma count_event_simps [simp]:
  "sched_list (count_event e s) = sched_list s" "schedule_init_list (count_event e s) = schedule_init_list s"
  "schedule_final_list (count_event e s) = schedule_final_list s" "schedule_time (count_event e s) = schedule_time s"
  "sim_started (count_event e s) = sim_started s" "sim_at_rosync (count_event e s) = sim_at_rosync s"
  "schedule_runnable (count_event e s) = schedule_runnable s" "schedule_stopped_flag (count_event e s) = schedule_stopped_flag s"
  by (cases e; simp)+

lemma pending_count [simp]: "pending (count_event e s) = pending s"
  by (simp add: pending_def)

lemma perform_all_ok:
  "\<exists>c'. perform_all env effs c = Some c' \<and> extends (csched c) (csched c') \<and> cphase c' = cphase c \<and> run_finals c' = run_finals c"
proof (induction effs arbitrary: c)
  case (Cons eff effs)
  obtain w calls where p: "perform env eff (observe (csched c)) (cworld c) = (w, calls)" by fastforce
  obtain s where s: "apply_calls calls (csched c) = Some s" "extends (csched c) s" using apply_calls_ok by blast
  obtain c' where "perform_all env effs (c\<lparr>csched := s, cworld := w\<rparr>) = Some c'" "extends s (csched c')" "cphase c' = cphase c"
    "run_finals c' = run_finals c" using Cons [of "c\<lparr>csched := s, cworld := w\<rparr>"] by auto
  then show ?case using p s extends_trans by auto
qed simp

lemma run_event_ok:
  assumes "run_event env e c = Some c'"
  shows "extends (csched c) (csched c')" "cphase c' = cphase c" "run_finals c' = run_finals c"
proof -
  obtain effs where "perform_all env effs (c\<lparr>csched := count_event e (csched c)\<rparr>) = Some c'"
    using assms by (auto simp: run_event_def split: bind_splits)
  then have "extends (count_event e (csched c)) (csched c')" "cphase c' = cphase c" "run_finals c' = run_finals c"
    using perform_all_ok [of env effs "c\<lparr>csched := count_event e (csched c)\<rparr>"] by auto
  then show "extends (csched c) (csched c')" "cphase c' = cphase c" "run_finals c' = run_finals c"
    by (simp_all add: extends_def)
qed

text \<open>
  An event fails to run only if it forces bits that are not in the vector: the assertions of the scheduler itself hold.
\<close>

lemma run_event_total:
  assumes "\<And>net val base vwid. e = Force_vector4_event_s net val base vwid \<Longrightarrow> force_vector4 env net val base vwid (cworld c) \<noteq> None"
  shows "\<exists>c'. run_event env e c = Some c'"
proof -
  have "\<exists>effs. run_run env e (cworld c) = Some effs" using assms by (cases e) auto
  then show ?thesis using perform_all_ok by (fastforce simp: run_event_def)
qed

section \<open>The invariant\<close>

definition sim_inv :: "'w conf \<Rightarrow> bool" where
  "sim_inv c \<longleftrightarrow> wf_cells (sched_list (csched c)) \<and> horizon (sched_list (csched c)) < 2 ^ 64 \<and>
     (cphase c \<in> {Ph_Start, Ph_Rosync, Ph_Del_thr} \<longrightarrow> (\<exists>t ts. sched_list (csched c) = t # ts \<and> et_delay t = 0)) \<and>
     (sim_at_rosync (csched c) \<longleftrightarrow> cphase c = Ph_Rosync)"

lemma sim_inv_extends:
  assumes "sim_inv c" "extends (csched c) (csched c')" "cphase c' = cphase c"
  shows "sim_inv c'"
  using assms unfolding sim_inv_def extends_def by auto

lemma sim_inv_run: "sim_inv c \<Longrightarrow> run_event env e c = Some c' \<Longrightarrow> sim_inv c'"
  using sim_inv_extends run_event_ok by blast

lemma sim_inv_perform: "sim_inv c \<Longrightarrow> perform_all env effs c = Some c' \<Longrightarrow> sim_inv c'"
  using sim_inv_extends [of c c'] perform_all_ok [of env effs c] by auto

text \<open>Changing the event lists of the current time step keeps the invariant.\<close>

lemma sim_inv_upd:
  assumes "sim_inv c" "\<And>t. et_delay (f t) = et_delay t \<or> et_delay (f t) = 0"
  shows "sim_inv (upd_ctim f c)"
proof (cases "sched_list (csched c)")
  case (Cons t ts)
  have "unat (et_delay (f t)) \<le> unat (et_delay t)" using assms(2) [of t] by auto
  then show ?thesis using assms(1) assms(2) [of t] Cons by (auto simp: sim_inv_def upd_ctim_def wf_cells_def)
qed (use assms in \<open>simp add: sim_inv_def upd_ctim_def\<close>)

lemma promote_delay [simp]: "et_delay (promote t) = et_delay t"
  by (simp add: promote_def Let_def)

lemma upd_ctim_simps [simp]: "cphase (upd_ctim f c) = cphase c" "cworld (upd_ctim f c) = cworld c" "run_finals (upd_ctim f c) = run_finals c"
  "sched_list (csched (upd_ctim f c)) = (case sched_list (csched c) of [] \<Rightarrow> [] | t # ts \<Rightarrow> f t # ts)"
  "schedule_time (csched (upd_ctim f c)) = schedule_time (csched c)"
  by (simp_all add: upd_ctim_def)

text \<open>The invariant does not depend on the flags that the loop itself changes.\<close>

lemma sim_inv_flags:
  assumes "sim_inv c" "sched_list s = sched_list (csched c)" "sim_at_rosync s = sim_at_rosync (csched c)"
  shows "sim_inv (c\<lparr>csched := s\<rparr>)"
  using assms by (simp add: sim_inv_def)

lemma sim_inv_main: "sim_inv c \<Longrightarrow> cphase c \<noteq> Ph_Rosync \<Longrightarrow> p \<notin> {Ph_Start, Ph_Rosync, Ph_Del_thr} \<Longrightarrow> sim_inv (c\<lparr>cphase := p\<rparr>)"
  by (simp add: sim_inv_def)

lemma sim_inv_final: "sim_inv c \<Longrightarrow> cphase c \<noteq> Ph_Rosync \<Longrightarrow> sim_inv (to_final c)"
  by (simp add: sim_inv_def to_final_def)

lemma run_active_inv:
  assumes "sim_inv c" "cphase c \<in> {Ph_Main, Ph_Start}" "sched_list (csched c) = t # ts" "et_delay t = 0" "run_active env t c = Some c'"
  shows "sim_inv c'"
proof (cases "list_pull (et_active (promote t))")
  case None
  have "sim_inv (upd_ctim promote c)" by (rule sim_inv_upd [OF assms(1)]) simp
  then have "sim_inv ((upd_ctim promote c)\<lparr>cphase := Ph_Rosync, csched := (csched (upd_ctim promote c))\<lparr>sim_at_rosync := True\<rparr>\<rparr>)"
    using assms(3,4) by (simp add: sim_inv_def)
  then show ?thesis using assms(5) None by (simp add: run_active_def Let_def)
next
  case (Some p)
  obtain cur rest where p: "p = (cur, rest)" by fastforce
  let ?c = "upd_ctim (\<lambda>t. promote t\<lparr>et_active := rest\<rparr>) c"
  have c: "sim_inv ?c" by (rule sim_inv_upd [OF assms(1)]) simp
  let ?d = "if schedule_single_step_flag (csched ?c)
    then ?c\<lparr>csched := (csched ?c)\<lparr>schedule_stopped_flag := True, schedule_single_step_flag := False\<rparr>\<rparr> else ?c"
  have "sim_inv ?d" using c by (auto intro!: sim_inv_flags)
  then have "sim_inv (?d\<lparr>cphase := Ph_Main\<rparr>)" using assms(2) by (intro sim_inv_main) auto
  moreover have "run_event env cur (?d\<lparr>cphase := Ph_Main\<rparr>) = Some c'"
    using assms(5) Some p by (simp add: run_active_def Let_def)
  ultimately show ?thesis using sim_inv_run by blast
qed

text \<open>Every step of the loop keeps the invariant.\<close>

lemma step_inv:
  assumes "sim_inv c" "step env (cphase c) c = Some c'"
  shows "sim_inv c'"
proof (cases "cphase c")
  case Ph_Init
  show ?thesis
  proof (cases "schedule_init_list (csched c)")
    case Nil
    let ?c = "c\<lparr>csched := (csched c)\<lparr>sim_started := True\<rparr>\<rparr>"
    obtain c1 where c1: "perform_all env [VpiStartOfSim] ?c = Some c1" "cphase c1 = Ph_Init"
      using perform_all_ok [of env "[VpiStartOfSim]" ?c] Ph_Init by auto
    have "sim_inv ?c" using assms(1) by (intro sim_inv_flags) simp_all
    then have "sim_inv c1" using sim_inv_perform c1(1) by blast
    then have "sim_inv (c1\<lparr>run_finals := r\<rparr>)" for r by (simp add: sim_inv_def)
    then show ?thesis using assms(2) Nil Ph_Init c1 sim_inv_final [of "c1\<lparr>run_finals := False\<rparr>"] sim_inv_main [of "c1\<lparr>run_finals := True\<rparr>"]
      by (auto simp: Let_def split: if_splits)
  next
    case (Cons e es)
    have "sim_inv (c\<lparr>csched := (csched c)\<lparr>schedule_init_list := es\<rparr>\<rparr>)" using assms(1) by (intro sim_inv_flags) simp_all
    then show ?thesis using assms(2) Cons Ph_Init sim_inv_run by auto
  qed
next
  case Ph_Main
  show ?thesis
  proof (cases "sched_list (csched c)")
    case Nil
    then show ?thesis using assms(2) Ph_Main sim_inv_final [OF assms(1)] by simp
  next
    case (Cons t ts)
    consider "schedule_stopped_flag (csched c)" | "\<not> schedule_stopped_flag (csched c)" "et_delay t > 0" "\<not> schedule_runnable (csched c)"
      | "\<not> schedule_stopped_flag (csched c)" "et_delay t > 0" "schedule_runnable (csched c)"
      | "\<not> schedule_stopped_flag (csched c)" "et_delay t = 0" by (auto simp: word_gt_0)
    then show ?thesis
    proof cases
      case 1
      let ?c = "c\<lparr>csched := (csched c)\<lparr>schedule_stopped_flag := False\<rparr>\<rparr>"
      obtain c1 where c1: "perform_all env [Stop_handler] ?c = Some c1" "cphase c1 = Ph_Main"
        using perform_all_ok [of env "[Stop_handler]" ?c] Ph_Main by auto
      have "sim_inv ?c" using assms(1) by (intro sim_inv_flags) simp_all
      then have "sim_inv c1" using sim_inv_perform c1(1) by blast
      then show ?thesis using assms(2) Ph_Main Cons 1 c1 sim_inv_final [of c1] by (auto split: if_splits)
    next
      case 2
      then show ?thesis using assms(2) Ph_Main Cons sim_inv_final [OF assms(1)] by simp
    next
      case 3
      let ?c = "upd_ctim (\<lambda>t. t\<lparr>et_delay := 0\<rparr>) (c\<lparr>csched := (csched c)\<lparr>schedule_time := schedule_time (csched c) + et_delay t\<rparr>\<rparr>)"
      obtain c1 where c1: "perform_all env [VpiNextSimTime] ?c = Some c1" "cphase c1 = Ph_Main" "extends (csched ?c) (csched c1)"
        using perform_all_ok [of env "[VpiNextSimTime]" ?c] Ph_Main by auto
      have "sim_inv (c\<lparr>csched := (csched c)\<lparr>schedule_time := schedule_time (csched c) + et_delay t\<rparr>\<rparr>)"
        using assms(1) by (intro sim_inv_flags) simp_all
      then have "sim_inv ?c" by (rule sim_inv_upd) simp
      then have i: "sim_inv c1" using sim_inv_perform c1(1) by blast
      have "\<exists>t ts. sched_list (csched c1) = t # ts \<and> et_delay t = 0" using c1(3) Cons by (auto simp: extends_def)
      then have "sim_inv (c1\<lparr>cphase := Ph_Start\<rparr>)" using i c1(2) by (auto simp: sim_inv_def)
      then show ?thesis using assms(2) Ph_Main Cons 3 c1(1) by (simp add: Let_def)
    next
      case 4
      then show ?thesis using run_active_inv [OF assms(1) _ Cons] assms(2) Ph_Main Cons by simp
    qed
  qed
next
  case Ph_Start
  then obtain t ts where t: "sched_list (csched c) = t # ts" "et_delay t = 0" using assms(1) by (auto simp: sim_inv_def)
  show ?thesis
  proof (cases "et_start t")
    case Nil
    then show ?thesis using run_active_inv [OF assms(1) _ t] assms(2) Ph_Start t by simp
  next
    case (Cons e es)
    have "sim_inv (upd_ctim (\<lambda>t. t\<lparr>et_start := es\<rparr>) c)" by (rule sim_inv_upd [OF assms(1)]) simp
    then show ?thesis using assms(2) Cons Ph_Start t sim_inv_run by auto
  qed
next
  case Ph_Rosync
  then obtain t ts where t: "sched_list (csched c) = t # ts" "et_delay t = 0" using assms(1) by (auto simp: sim_inv_def)
  show ?thesis
  proof (cases "et_rosync t")
    case Nil
    then show ?thesis using assms Ph_Rosync t by (auto simp: sim_inv_def)
  next
    case (Cons e es)
    have "sim_inv (upd_ctim (\<lambda>t. t\<lparr>et_rosync := es\<rparr>) c)" by (rule sim_inv_upd [OF assms(1)]) simp
    then show ?thesis using assms(2) Cons Ph_Rosync t sim_inv_run by auto
  qed
next
  case Ph_Del_thr
  then obtain t ts where t: "sched_list (csched c) = t # ts" "et_delay t = 0" using assms(1) by (auto simp: sim_inv_def)
  show ?thesis
  proof (cases "et_del_thr t")
    case Nil
    then show ?thesis using assms Ph_Del_thr t by (auto simp: sim_inv_def wf_cells_Cons)
  next
    case (Cons e es)
    have "sim_inv (upd_ctim (\<lambda>t. t\<lparr>et_del_thr := es\<rparr>) c)" by (rule sim_inv_upd [OF assms(1)]) simp
    then show ?thesis using assms(2) Cons Ph_Del_thr t sim_inv_run by auto
  qed
next
  case Ph_Final
  obtain c1 where c1: "perform_all env [VpiPostsim] c = Some c1" "cphase c1 = Ph_Final"
    using perform_all_ok [of env "[VpiPostsim]" c] Ph_Final by auto
  have "sim_inv (c1\<lparr>cphase := Ph_Done\<rparr>)" using sim_inv_perform [OF assms(1) c1(1)] c1(2) by (intro sim_inv_main) simp_all
  moreover have "sim_inv (c\<lparr>csched := (csched c)\<lparr>schedule_final_list := es\<rparr>\<rparr>)" for es using assms(1) by (intro sim_inv_flags) simp_all
  ultimately show ?thesis
    using assms(2) Ph_Final c1(1) by (cases "schedule_final_list (csched c)") (auto split: if_splits intro: sim_inv_run)
next
  case Ph_Done
  then show ?thesis using assms by simp
qed

section \<open>Time\<close>

text \<open>The events of a region that are due at an absolute time.\<close>

definition due :: "sched \<Rightarrow> nat \<Rightarrow> event_queue_t \<Rightarrow> event_s list" where
  "due s T q = (if T < unat (schedule_time s) then [] else agenda (sched_list s) (T - unat (schedule_time s)) q)"

text \<open>A change that keeps the time, and keeps what is due later.\<close>

definition later :: "sched \<Rightarrow> sched \<Rightarrow> bool" where
  "later s s' \<longleftrightarrow> schedule_time s' = schedule_time s \<and> (all_busy (sched_list s) \<longrightarrow> all_busy (sched_list s')) \<and>
     (\<forall>t q. t > 0 \<longrightarrow> (\<exists>ys. agenda (sched_list s') t q = agenda (sched_list s) t q @ ys))"

lemma later_refl: "sched_list s' = sched_list s \<Longrightarrow> schedule_time s' = schedule_time s \<Longrightarrow> later s s'"
  by (auto simp: later_def)

lemma later_trans: "later s s' \<Longrightarrow> later s' s'' \<Longrightarrow> later s s''"
  unfolding later_def by (metis append.assoc)

lemma extends_later: "extends s s' \<Longrightarrow> later s s'"
  unfolding later_def extends_def by (metis append_Nil)

lemma later_upd:
  assumes "sched_list (csched c) = t # ts" "et_delay t = 0" "et_delay (f t) = 0"
  shows "later (csched c) (csched (upd_ctim f c))"
  using assms by (auto simp: later_def)

lemma later_run: "run_event env e c = Some c' \<Longrightarrow> later (csched c) (csched c')"
  using run_event_ok(1) extends_later by blast

lemma later_upd_run:
  "sched_list (csched c) = t # ts \<Longrightarrow> et_delay t = 0 \<Longrightarrow> et_delay (f t) = 0 \<Longrightarrow> run_event env e (upd_ctim f c) = Some c' \<Longrightarrow>
   later (csched c) (csched c')"
  using later_trans [OF later_upd later_run] by blast

lemma later_perform: "perform_all env effs c = Some c' \<Longrightarrow> later (csched c) (csched c')"
  using perform_all_ok [of env effs c] extends_later by auto

lemma run_active_later:
  assumes "sched_list (csched c) = t # ts" "et_delay t = 0" "run_active env t c = Some c'"
  shows "later (csched c) (csched c')"
proof (cases "list_pull (et_active (promote t))")
  case None
  have "later (csched c) (csched (upd_ctim promote c))" using assms(1,2) by (rule later_upd) (simp add: assms(2))
  moreover have "csched c' = (csched (upd_ctim promote c))\<lparr>sim_at_rosync := True\<rparr>" using assms(3) None by (auto simp: run_active_def Let_def)
  ultimately show ?thesis by (simp add: later_def)
next
  case (Some p)
  obtain cur rest where p: "p = (cur, rest)" by fastforce
  let ?c = "upd_ctim (\<lambda>t. promote t\<lparr>et_active := rest\<rparr>) c"
  have u: "later (csched c) (csched ?c)" using assms(1,2) by (rule later_upd) (simp add: assms(2))
  let ?d = "if schedule_single_step_flag (csched ?c)
    then ?c\<lparr>csched := (csched ?c)\<lparr>schedule_stopped_flag := True, schedule_single_step_flag := False\<rparr>\<rparr> else ?c"
  have "run_event env cur (?d\<lparr>cphase := Ph_Main\<rparr>) = Some c'"
    using assms(3) Some p by (simp add: run_active_def Let_def)
  then have "later (csched (?d\<lparr>cphase := Ph_Main\<rparr>)) (csched c')" by (rule later_run)
  moreover have "later (csched ?c) (csched (?d\<lparr>cphase := Ph_Main\<rparr>))" by (rule later_refl) simp_all
  ultimately show ?thesis using u later_trans by blast
qed

text \<open>The step that moves the time on.\<close>

definition advances :: "'w conf \<Rightarrow> 'w conf \<Rightarrow> bool" where
  "advances c c' \<longleftrightarrow> cphase c = Ph_Main \<and> cphase c' = Ph_Start \<and> schedule_runnable (csched c) \<and>
     (\<exists>t ts s. sched_list (csched c) = t # ts \<and> et_delay t > 0 \<and> sched_list s = t\<lparr>et_delay := 0\<rparr> # ts \<and>
       schedule_time s = schedule_time (csched c) + et_delay t \<and> extends s (csched c'))"

lemma step_later:
  assumes "sim_inv c" "step env (cphase c) c = Some c'"
  shows "later (csched c) (csched c') \<or> advances c c'"
proof (cases "cphase c")
  case Ph_Init
  show ?thesis
  proof (cases "schedule_init_list (csched c)")
    case Nil
    let ?c = "c\<lparr>csched := (csched c)\<lparr>sim_started := True\<rparr>\<rparr>"
    obtain c1 where c1: "perform_all env [VpiStartOfSim] ?c = Some c1" using perform_all_ok by blast
    have "later (csched c) (csched ?c)" by (rule later_refl) simp_all
    then have l: "later (csched c) (csched c1)" using later_perform [OF c1] later_trans by blast
    have "later (csched c1) (csched c')" using assms(2) Nil Ph_Init c1 by (intro later_refl) (auto simp: Let_def to_final_def split: if_splits)
    then show ?thesis using l later_trans by blast
  next
    case (Cons e es)
    then show ?thesis using assms(2) Ph_Init later_run [of env e _ c'] by (fastforce simp: later_def)
  qed
next
  case Ph_Main
  show ?thesis
  proof (cases "sched_list (csched c)")
    case Nil
    then show ?thesis using assms(2) Ph_Main by (auto simp: to_final_def later_refl)
  next
    case (Cons t ts)
    consider "schedule_stopped_flag (csched c)" | "\<not> schedule_stopped_flag (csched c)" "et_delay t > 0" "\<not> schedule_runnable (csched c)"
      | "\<not> schedule_stopped_flag (csched c)" "et_delay t > 0" "schedule_runnable (csched c)"
      | "\<not> schedule_stopped_flag (csched c)" "et_delay t = 0" by (auto simp: word_gt_0)
    then show ?thesis
    proof cases
      case 1
      let ?c = "c\<lparr>csched := (csched c)\<lparr>schedule_stopped_flag := False\<rparr>\<rparr>"
      obtain c1 where c1: "perform_all env [Stop_handler] ?c = Some c1" using perform_all_ok by blast
      have "later (csched c) (csched ?c)" by (rule later_refl) simp_all
      then have l: "later (csched c) (csched c1)" using later_perform [OF c1] later_trans by blast
      have "later (csched c1) (csched c')" using assms(2) Ph_Main Cons 1 c1 by (intro later_refl) (auto simp: to_final_def split: if_splits)
      then show ?thesis using l later_trans by blast
    next
      case 2
      then show ?thesis using assms(2) Ph_Main Cons by (auto simp: to_final_def later_refl)
    next
      case 3
      let ?c = "upd_ctim (\<lambda>t. t\<lparr>et_delay := 0\<rparr>) (c\<lparr>csched := (csched c)\<lparr>schedule_time := schedule_time (csched c) + et_delay t\<rparr>\<rparr>)"
      obtain c1 where c1: "perform_all env [VpiNextSimTime] ?c = Some c1" "extends (csched ?c) (csched c1)"
        using perform_all_ok [of env "[VpiNextSimTime]" ?c] by auto
      have "c' = c1\<lparr>cphase := Ph_Start\<rparr>" using assms(2) Ph_Main Cons 3 c1(1) by (simp add: Let_def)
      then show ?thesis using Ph_Main Cons 3 c1(2) by (auto simp: advances_def intro!: exI [of _ "csched ?c"])
    next
      case 4
      then show ?thesis using run_active_later [OF Cons] assms(2) Ph_Main Cons by simp
    qed
  qed
next
  case Ph_Start
  then obtain t ts where t: "sched_list (csched c) = t # ts" "et_delay t = 0" using assms(1) by (auto simp: sim_inv_def)
  show ?thesis
  proof (cases "et_start t")
    case Nil
    then show ?thesis using run_active_later [OF t] assms(2) Ph_Start t by simp
  next
    case (Cons e es)
    then have "run_event env e (upd_ctim (\<lambda>t. t\<lparr>et_start := es\<rparr>) c) = Some c'" using assms(2) Ph_Start t by simp
    then show ?thesis using later_upd_run [OF t, of "\<lambda>t. t\<lparr>et_start := es\<rparr>"] t(2) by simp
  qed
next
  case Ph_Rosync
  then obtain t ts where t: "sched_list (csched c) = t # ts" "et_delay t = 0" using assms(1) by (auto simp: sim_inv_def)
  show ?thesis
  proof (cases "et_rosync t")
    case Nil
    then show ?thesis using assms(2) Ph_Rosync t by (auto simp: later_refl)
  next
    case (Cons e es)
    then have "run_event env e (upd_ctim (\<lambda>t. t\<lparr>et_rosync := es\<rparr>) c) = Some c'" using assms(2) Ph_Rosync t by simp
    then show ?thesis using later_upd_run [OF t, of "\<lambda>t. t\<lparr>et_rosync := es\<rparr>"] t(2) by simp
  qed
next
  case Ph_Del_thr
  then obtain t ts where t: "sched_list (csched c) = t # ts" "et_delay t = 0" using assms(1) by (auto simp: sim_inv_def)
  show ?thesis
  proof (cases "et_del_thr t")
    case Nil
    then show ?thesis using assms(2) Ph_Del_thr t by (auto simp: later_def)
  next
    case (Cons e es)
    then have "run_event env e (upd_ctim (\<lambda>t. t\<lparr>et_del_thr := es\<rparr>) c) = Some c'" using assms(2) Ph_Del_thr t by simp
    then show ?thesis using later_upd_run [OF t, of "\<lambda>t. t\<lparr>et_del_thr := es\<rparr>"] t(2) by simp
  qed
next
  case Ph_Final
  obtain c1 where c1: "perform_all env [VpiPostsim] c = Some c1" using perform_all_ok by blast
  show ?thesis
  proof (cases "schedule_final_list (csched c) \<noteq> [] \<and> schedule_runnable (csched c)")
    case True
    then obtain e es where "schedule_final_list (csched c) = e # es" by (cases "schedule_final_list (csched c)") auto
    then show ?thesis using assms(2) Ph_Final True later_run [of env e _ c'] by (fastforce simp: later_def)
  next
    case False
    then have "c' = c1\<lparr>cphase := Ph_Done\<rparr>" using assms(2) Ph_Final c1 by (cases "schedule_final_list (csched c)") auto
    then show ?thesis using later_perform [OF c1] by simp
  qed
next
  case Ph_Done
  then show ?thesis using assms by (simp add: later_refl)
qed

end
