(* ===== verification/Vvp_SimRun.thy ===== *)
theory Vvp_SimRun
  imports Vvp_SimInv
begin

text \<open>
  What the simulation loop does with the events: time moves to the next time at which something is due, the loop ends
  if the events create fewer and fewer events, and without new events it runs every event of the queue in
  the order of time, region and insertion.
\<close>

section \<open>Time moves to the next event\<close>

lemma step_time:
  assumes inv: "sim_inv c" and st: "step env (cphase c) c = Some c'"
    and fit: "unat (schedule_time (csched c)) + horizon (sched_list (csched c)) < 2 ^ 64"
  shows "unat (schedule_time (csched c)) \<le> unat (schedule_time (csched c'))"
    "unat (schedule_time (csched c)) < T \<Longrightarrow> unat (schedule_time (csched c')) < T \<Longrightarrow>
       \<exists>ys. due (csched c') T q = due (csched c) T q @ ys"
    "unat (schedule_time (csched c)) < T \<Longrightarrow> T = unat (schedule_time (csched c')) \<Longrightarrow>
       \<exists>xs ys. due (csched c') T q = xs @ due (csched c) T q @ ys \<and> (q \<noteq> SEQ_ACTIVE \<longrightarrow> xs = [])"
    "unat (schedule_time (csched c)) < T \<Longrightarrow> T < unat (schedule_time (csched c')) \<Longrightarrow> due (csched c) T q = []"
proof -
  consider "later (csched c) (csched c')" | "advances c c'" using step_later [OF inv st] by blast
  then have "unat (schedule_time (csched c)) \<le> unat (schedule_time (csched c')) \<and>
    (\<forall>T q. unat (schedule_time (csched c)) < T \<and> unat (schedule_time (csched c')) < T \<longrightarrow> (\<exists>ys. due (csched c') T q = due (csched c) T q @ ys)) \<and>
    (\<forall>T q. unat (schedule_time (csched c)) < T \<and> T = unat (schedule_time (csched c')) \<longrightarrow>
       (\<exists>xs ys. due (csched c') T q = xs @ due (csched c) T q @ ys \<and> (q \<noteq> SEQ_ACTIVE \<longrightarrow> xs = []))) \<and>
    (\<forall>T q. unat (schedule_time (csched c)) < T \<and> T < unat (schedule_time (csched c')) \<longrightarrow> due (csched c) T q = [])"
  proof cases
    case 1
    then show ?thesis by (auto simp: later_def due_def)
  next
    case 2
    then obtain t ts s where t: "sched_list (csched c) = t # ts" "sched_list s = t\<lparr>et_delay := 0\<rparr> # ts"
      "schedule_time s = schedule_time (csched c) + et_delay t" "extends s (csched c')"
      by (auto simp: advances_def)
    have sum: "unat (schedule_time (csched c) + et_delay t) = unat (schedule_time (csched c)) + unat (et_delay t)"
      using fit t(1) by (intro unat_add_lem [THEN iffD1]) simp
    have s': "schedule_time (csched c') = schedule_time (csched c) + et_delay t" using t(3,4) by (simp add: extends_def)
    have ag: "agenda (sched_list s) k q = (if k = 0 then queue_of q t else agenda ts k q)" for k q by (simp add: t(2))
    have d: "due (csched c) T q = agenda (sched_list s) (T - unat (schedule_time (csched c'))) q" if "unat (schedule_time (csched c')) \<le> T" for T q
      using that unfolding ag s' sum by (auto simp: due_def t(1) diff_diff_left)
    show ?thesis
    proof (intro conjI allI impI)
      show "unat (schedule_time (csched c)) \<le> unat (schedule_time (csched c'))" unfolding s' sum by simp
    next
      fix T q assume "unat (schedule_time (csched c)) < T \<and> unat (schedule_time (csched c')) < T"
      then show "\<exists>ys. due (csched c') T q = due (csched c) T q @ ys"
        using d [of T q] extends_agenda [OF t(4), of "T - unat (schedule_time (csched c'))" q] by (auto simp: due_def)
    next
      fix T q assume "unat (schedule_time (csched c)) < T \<and> T = unat (schedule_time (csched c'))"
      then show "\<exists>xs ys. due (csched c') T q = xs @ due (csched c) T q @ ys \<and> (q \<noteq> SEQ_ACTIVE \<longrightarrow> xs = [])"
        using d [of T q] extends_agenda [OF t(4), of 0 q] by (auto simp: due_def)
    next
      fix T q assume "unat (schedule_time (csched c)) < T \<and> T < unat (schedule_time (csched c'))"
      then show "due (csched c) T q = []" unfolding s' sum by (auto simp: due_def t(1))
    qed
  qed
  then show "unat (schedule_time (csched c)) \<le> unat (schedule_time (csched c'))"
    "unat (schedule_time (csched c)) < T \<Longrightarrow> unat (schedule_time (csched c')) < T \<Longrightarrow>
       \<exists>ys. due (csched c') T q = due (csched c) T q @ ys"
    "unat (schedule_time (csched c)) < T \<Longrightarrow> T = unat (schedule_time (csched c')) \<Longrightarrow>
       \<exists>xs ys. due (csched c') T q = xs @ due (csched c) T q @ ys \<and> (q \<noteq> SEQ_ACTIVE \<longrightarrow> xs = [])"
    "unat (schedule_time (csched c)) < T \<Longrightarrow> T < unat (schedule_time (csched c')) \<Longrightarrow> due (csched c) T q = []"
    by blast+
qed

text \<open>The time moves on only to a time at which something is due.\<close>

lemma step_busy:
  assumes inv: "sim_inv c" and st: "step env (cphase c) c = Some c'" and busy: "all_busy (sched_list (csched c))"
    and fit: "unat (schedule_time (csched c)) + horizon (sched_list (csched c)) < 2 ^ 64"
  shows "all_busy (sched_list (csched c'))"
    "unat (schedule_time (csched c)) < unat (schedule_time (csched c')) \<Longrightarrow> \<exists>q. due (csched c) (unat (schedule_time (csched c'))) q \<noteq> []"
proof -
  consider "later (csched c) (csched c')" | "advances c c'" using step_later [OF inv st] by blast
  then have "all_busy (sched_list (csched c')) \<and> (unat (schedule_time (csched c)) < unat (schedule_time (csched c')) \<longrightarrow>
    (\<exists>q. due (csched c) (unat (schedule_time (csched c'))) q \<noteq> []))"
  proof cases
    case 1
    then show ?thesis using busy by (auto simp: later_def)
  next
    case 2
    then obtain t ts s where t: "sched_list (csched c) = t # ts" "et_delay t > 0" "sched_list s = t\<lparr>et_delay := 0\<rparr> # ts"
      "schedule_time s = schedule_time (csched c) + et_delay t" "extends s (csched c')"
      by (auto simp: advances_def)
    have "unat (schedule_time (csched c')) = unat (schedule_time (csched c)) + unat (et_delay t)"
      using fit t(1,4,5) by (auto simp: extends_def intro!: unat_add_lem [THEN iffD1])
    moreover have "\<exists>q. queue_of q t \<noteq> []" using busy t(1,2) busy_queue by (auto simp: word_gt_0)
    ultimately show ?thesis using busy t(1,3,5) by (auto simp: due_def extends_def)
  qed
  then show "all_busy (sched_list (csched c'))"
    "unat (schedule_time (csched c)) < unat (schedule_time (csched c')) \<Longrightarrow> \<exists>q. due (csched c) (unat (schedule_time (csched c'))) q \<noteq> []"
    by blast+
qed

section \<open>Which event runs\<close>

text \<open>The event that a step runs, if it runs one.\<close>

fun chosen :: "phase \<Rightarrow> sched \<Rightarrow> event_s option" where
  "chosen Ph_Init s = map_option fst (list_pull (schedule_init_list s))"
| "chosen Ph_Main s =
     (case sched_list s of [] \<Rightarrow> None
      | t # ts \<Rightarrow> if schedule_stopped_flag s \<or> et_delay t > 0 then None else map_option fst (list_pull (et_active (promote t))))"
| "chosen Ph_Start s =
     (case sched_list s of [] \<Rightarrow> None
      | t # ts \<Rightarrow> if et_start t = [] then map_option fst (list_pull (et_active (promote t))) else Some (hd (et_start t)))"
| "chosen Ph_Rosync s = (case sched_list s of [] \<Rightarrow> None | t # ts \<Rightarrow> map_option fst (list_pull (et_rosync t)))"
| "chosen Ph_Del_thr s = (case sched_list s of [] \<Rightarrow> None | t # ts \<Rightarrow> map_option fst (list_pull (et_del_thr t)))"
| "chosen Ph_Final s = (if schedule_runnable s then map_option fst (list_pull (schedule_final_list s)) else None)"
| "chosen Ph_Done s = None"

fun trace :: "'w env \<Rightarrow> nat \<Rightarrow> 'w conf \<Rightarrow> event_s list" where
  "trace env 0 c = []"
| "trace env (Suc n) c =
     (case chosen (cphase c) (csched c) of None \<Rightarrow> [] | Some e \<Rightarrow> [e]) @
     (case step env (cphase c) c of None \<Rightarrow> [] | Some c' \<Rightarrow> trace env n c')"

lemma promote_events: "cell_events (promote t) = cell_events t"
  by (auto simp: promote_def Let_def cell_events_def)

lemma pull_events:
  "et_active t = e # es \<Longrightarrow> cell_events t = add_mset e (cell_events (t\<lparr>et_active := es\<rparr>))"
  "et_start t = e # es \<Longrightarrow> cell_events t = add_mset e (cell_events (t\<lparr>et_start := es\<rparr>))"
  "et_rosync t = e # es \<Longrightarrow> cell_events t = add_mset e (cell_events (t\<lparr>et_rosync := es\<rparr>))"
  "et_del_thr t = e # es \<Longrightarrow> cell_events t = add_mset e (cell_events (t\<lparr>et_del_thr := es\<rparr>))"
  by (simp_all add: cell_events_def)

lemma pending_upd:
  "sched_list (csched c) = t # ts \<Longrightarrow> cell_events t = add_mset e (cell_events (f t)) \<Longrightarrow>
   pending (csched c) = add_mset e (pending (csched (upd_ctim f c)))"
  by (simp add: pending_def upd_ctim_def)

lemma list_pull_iff [simp]: "list_pull xs = Some (e, es) \<longleftrightarrow> xs = e # es" "list_pull xs = None \<longleftrightarrow> xs = []"
  by (cases xs; auto)+

lemma run_active_chosen:
  assumes "sched_list (csched c) = t # ts" "et_active (promote t) = e # es"
  shows "\<exists>c1. run_active env t c = run_event env e c1 \<and> pending (csched c) = add_mset e (pending (csched c1)) \<and> cworld c1 = cworld c"
proof -
  let ?c = "upd_ctim (\<lambda>t. promote t\<lparr>et_active := es\<rparr>) c"
  let ?d = "if schedule_single_step_flag (csched ?c)
    then ?c\<lparr>csched := (csched ?c)\<lparr>schedule_stopped_flag := True, schedule_single_step_flag := False\<rparr>\<rparr> else ?c"
  have "pending (csched c) = add_mset e (pending (csched ?c))"
    using pending_upd [OF assms(1), of e "\<lambda>t. promote t\<lparr>et_active := es\<rparr>"] pull_events(1) [OF assms(2)] by (simp add: promote_events)
  moreover have "pending (csched (?d\<lparr>cphase := Ph_Main\<rparr>)) = pending (csched ?c)" by (simp add: pending_def)
  moreover have "run_active env t c = run_event env e (?d\<lparr>cphase := Ph_Main\<rparr>)" using assms(2) by (simp add: run_active_def Let_def)
  ultimately show ?thesis by (intro exI [of _ "?d\<lparr>cphase := Ph_Main\<rparr>"]) simp
qed

text \<open>A step that runs an event takes it off the queue first.\<close>

lemma step_chosen:
  assumes "chosen (cphase c) (csched c) = Some e"
  shows "\<exists>c1. step env (cphase c) c = run_event env e c1 \<and> pending (csched c) = add_mset e (pending (csched c1)) \<and> cworld c1 = cworld c"
proof (cases "cphase c")
  case Ph_Init
  then obtain es where "schedule_init_list (csched c) = e # es" using assms by auto
  then show ?thesis using Ph_Init by (auto simp: pending_def)
next
  case Ph_Main
  then obtain t ts es where t: "sched_list (csched c) = t # ts" "et_active (promote t) = e # es"
    "\<not> schedule_stopped_flag (csched c)" "\<not> et_delay t > 0"
    using assms by (auto split: list.splits if_splits)
  then show ?thesis using Ph_Main run_active_chosen [OF t(1,2)] by simp
next
  case Ph_Start
  then obtain t ts where t: "sched_list (csched c) = t # ts" using assms by (auto split: list.splits)
  show ?thesis
  proof (cases "et_start t")
    case Nil
    then obtain es where "et_active (promote t) = e # es" using assms Ph_Start t by auto
    then show ?thesis using Ph_Start t Nil run_active_chosen [OF t] by simp
  next
    case (Cons e' es)
    then show ?thesis using assms Ph_Start t pending_upd [OF t, of e "\<lambda>t. t\<lparr>et_start := es\<rparr>"] pull_events(2) [OF Cons] by auto
  qed
next
  case Ph_Rosync
  then obtain t ts es where t: "sched_list (csched c) = t # ts" "et_rosync t = e # es"
    using assms by (auto split: list.splits)
  then show ?thesis using Ph_Rosync pending_upd [OF t(1), of e "\<lambda>t. t\<lparr>et_rosync := es\<rparr>"] pull_events(3) [OF t(2)] by auto
next
  case Ph_Del_thr
  then obtain t ts es where t: "sched_list (csched c) = t # ts" "et_del_thr t = e # es"
    using assms by (auto split: list.splits)
  then show ?thesis using Ph_Del_thr pending_upd [OF t(1), of e "\<lambda>t. t\<lparr>et_del_thr := es\<rparr>"] pull_events(4) [OF t(2)] by auto
next
  case Ph_Final
  then obtain es where "schedule_final_list (csched c) = e # es" "schedule_runnable (csched c)"
    using assms by (auto split: if_splits)
  then show ?thesis using Ph_Final by (auto simp: pending_def)
next
  case Ph_Done
  then show ?thesis using assms by simp
qed

section \<open>Termination\<close>

text \<open>
  An environment in which events of a set \<open>S\<close> always run, and create only events of \<open>S\<close> of lower rank, and in which the
  callbacks of the loop itself create none.
\<close>

definition creates :: "'w env \<Rightarrow> effect \<Rightarrow> observation \<Rightarrow> 'w \<Rightarrow> event_s list" where
  "creates env eff obs w = List.map_filter call_event (snd (perform env eff obs w))"

definition ranked :: "'w env \<Rightarrow> event_s set \<Rightarrow> (event_s \<Rightarrow> nat) \<Rightarrow> bool" where
  "ranked env S rank \<longleftrightarrow>
     (\<forall>e w. e \<in> S \<longrightarrow> (\<exists>effs. run_run env e w = Some effs \<and>
        (\<forall>eff obs v x. eff \<in> set effs \<and> x \<in> set (creates env eff obs v) \<longrightarrow> x \<in> S \<and> rank x < rank e))) \<and>
     (\<forall>eff obs w. eff \<in> {VpiStartOfSim, VpiNextSimTime, VpiPostsim, Stop_handler} \<longrightarrow>
        set (snd (perform env eff obs w)) \<subseteq> {Schedule_finish})"

lemma perform_all_pending:
  assumes "perform_all env effs c = Some c'" "\<forall>eff obs v x. eff \<in> set effs \<and> x \<in> set (creates env eff obs v) \<longrightarrow> P x"
  shows "\<exists>M. pending (csched c') = pending (csched c) + M \<and> (\<forall>x \<in># M. P x)"
  using assms
proof (induction effs arbitrary: c)
  case Nil
  then show ?case by (auto intro: exI [of _ "{#}"])
next
  case (Cons eff effs)
  obtain w calls where p: "perform env eff (observe (csched c)) (cworld c) = (w, calls)" by fastforce
  obtain s where s: "apply_calls calls (csched c) = Some s" "pending s = pending (csched c) + mset (List.map_filter call_event calls)"
    using apply_calls_ok by blast
  have "\<forall>x \<in> set (List.map_filter call_event calls). P x"
    using Cons.prems(2) p unfolding creates_def by (metis list.set_intros(1) snd_conv)
  moreover have "perform_all env effs (c\<lparr>csched := s, cworld := w\<rparr>) = Some c'" using Cons.prems(1) p s(1) by simp
  then have "\<exists>M. pending (csched c') = pending (csched (c\<lparr>csched := s, cworld := w\<rparr>)) + M \<and> (\<forall>x \<in># M. P x)"
    by (rule Cons.IH) (meson Cons.prems(2) list.set_intros(2))
  then obtain M where "pending (csched c') = pending s + M" "\<forall>x \<in># M. P x" by auto
  ultimately show ?case using s(2) by (intro exI [of _ "mset (List.map_filter call_event calls) + M"]) auto
qed

lemma ranked_run:
  assumes "ranked env S rank" "e \<in> S"
  shows "\<exists>c' M. run_event env e c = Some c' \<and> pending (csched c') = pending (csched c) + M \<and> (\<forall>x \<in># M. x \<in> S \<and> rank x < rank e)"
proof -
  obtain effs where effs: "run_run env e (cworld c) = Some effs"
    "\<forall>eff obs v x. eff \<in> set effs \<and> x \<in> set (creates env eff obs v) \<longrightarrow> x \<in> S \<and> rank x < rank e"
    using assms(1) [unfolded ranked_def, THEN conjunct1, rule_format, OF assms(2), of "cworld c"] by blast
  obtain c' where c': "perform_all env effs (c\<lparr>csched := count_event e (csched c)\<rparr>) = Some c'" using perform_all_ok by blast
  then have "run_event env e c = Some c'" using effs(1) by (simp add: run_event_def)
  then show ?thesis using perform_all_pending [OF c' effs(2)] by auto
qed

text \<open>The callbacks of the loop change at most the flag that ends the simulation.\<close>

lemma ranked_hook:
  assumes "ranked env S rank" "eff \<in> {VpiStartOfSim, VpiNextSimTime, VpiPostsim, Stop_handler}" "perform_all env [eff] c = Some c'"
  shows "\<exists>r w. c' = c\<lparr>csched := (csched c)\<lparr>schedule_runnable := r\<rparr>, cworld := w\<rparr>"
proof -
  obtain w calls where p: "perform env eff (observe (csched c)) (cworld c) = (w, calls)" by fastforce
  have calls: "set calls \<subseteq> {Schedule_finish}" using assms(1,2) p unfolding ranked_def by (metis snd_conv)
  have "\<exists>r. apply_calls calls s = Some (s\<lparr>schedule_runnable := r\<rparr>)" for s
    using calls
  proof (induction calls arbitrary: s)
    case Nil
    then show ?case by (auto intro: exI [of _ "schedule_runnable s"])
  next
    case (Cons x calls)
    then show ?case using Cons.IH [of "s\<lparr>schedule_runnable := False\<rparr>"] by (auto simp: schedule_finish_def)
  qed
  then obtain r where "apply_calls calls (csched c) = Some ((csched c)\<lparr>schedule_runnable := r\<rparr>)" by blast
  then show ?thesis using assms(3) p by (intro exI [of _ r] exI [of _ w]) simp
qed

text \<open>A step that runs no event comes closer to the end of the loop.\<close>

fun phase_rank :: "phase \<Rightarrow> nat" where
  "phase_rank Ph_Init = 6"
| "phase_rank Ph_Main = 5"
| "phase_rank Ph_Start = 4"
| "phase_rank Ph_Rosync = 3"
| "phase_rank Ph_Del_thr = 2"
| "phase_rank Ph_Final = 1"
| "phase_rank Ph_Done = 0"

definition idle_rank :: "'w conf \<Rightarrow> nat \<times> nat \<times> nat" where
  "idle_rank c = (length (sched_list (csched c)), phase_rank (cphase c), of_bool (schedule_stopped_flag (csched c)))"

abbreviation idle_less :: "((nat \<times> nat \<times> nat) \<times> nat \<times> nat \<times> nat) set" where
  "idle_less \<equiv> less_than <*lex*> less_than <*lex*> less_than"

lemma to_final_simps [simp]: "cphase (to_final c) = Ph_Final" "sched_list (csched (to_final c)) = sched_list (csched c)"
  "pending (csched (to_final c)) = pending (csched c)" "schedule_time (csched (to_final c)) = schedule_time (csched c)"
  by (simp_all add: to_final_def pending_def)

lemma pending_runnable [simp]: "pending (s\<lparr>schedule_runnable := r\<rparr>) = pending s" "pending (s\<lparr>sim_started := r\<rparr>) = pending s"
  "pending (s\<lparr>schedule_stopped_flag := r\<rparr>) = pending s" "pending (s\<lparr>sim_at_rosync := r\<rparr>) = pending s"
  "pending (s\<lparr>schedule_time := T\<rparr>) = pending s"
  by (simp_all add: pending_def)

lemma run_active_idle:
  assumes "sched_list (csched c) = t # ts" "et_active (promote t) = []"
  shows "run_active env t c = Some ((upd_ctim promote c)\<lparr>cphase := Ph_Rosync, csched := (csched (upd_ctim promote c))\<lparr>sim_at_rosync := True\<rparr>\<rparr>)"
    "pending (csched (upd_ctim promote c)) = pending (csched c)" "length (sched_list (csched (upd_ctim promote c))) = length (sched_list (csched c))"
  using assms by (simp_all add: run_active_def Let_def pending_def promote_events) (simp add: upd_ctim_def)

lemma step_idle:
  assumes inv: "sim_inv c" and r: "ranked env S rank" and no: "chosen (cphase c) (csched c) = None" "cphase c \<noteq> Ph_Done"
  shows "\<exists>c'. step env (cphase c) c = Some c' \<and> pending (csched c') \<subseteq># pending (csched c) \<and> (idle_rank c', idle_rank c) \<in> idle_less"
proof (cases "cphase c")
  case Ph_Init
  let ?c = "c\<lparr>csched := (csched c)\<lparr>sim_started := True\<rparr>\<rparr>"
  obtain c1 where c1: "perform_all env [VpiStartOfSim] ?c = Some c1" using perform_all_ok by blast
  obtain f w where "c1 = ?c\<lparr>csched := (csched ?c)\<lparr>schedule_runnable := f\<rparr>, cworld := w\<rparr>" using ranked_hook [OF r _ c1] by auto
  then show ?thesis using Ph_Init no c1 by (simp add: idle_rank_def Let_def)
next
  case Ph_Main
  show ?thesis
  proof (cases "sched_list (csched c)")
    case Nil
    then show ?thesis using Ph_Main by (simp add: idle_rank_def)
  next
    case (Cons t ts)
    consider "schedule_stopped_flag (csched c)" | "\<not> schedule_stopped_flag (csched c)" "et_delay t > 0" "\<not> schedule_runnable (csched c)"
      | "\<not> schedule_stopped_flag (csched c)" "et_delay t > 0" "schedule_runnable (csched c)"
      | "\<not> schedule_stopped_flag (csched c)" "et_delay t = 0" by (auto simp: word_gt_0)
    then show ?thesis
    proof cases
      case 1
      let ?c = "c\<lparr>csched := (csched c)\<lparr>schedule_stopped_flag := False\<rparr>\<rparr>"
      obtain c1 where c1: "perform_all env [Stop_handler] ?c = Some c1" using perform_all_ok by blast
      obtain f w where "c1 = ?c\<lparr>csched := (csched ?c)\<lparr>schedule_runnable := f\<rparr>, cworld := w\<rparr>" using ranked_hook [OF r _ c1] by auto
      then show ?thesis using Ph_Main Cons 1 c1 by (simp add: idle_rank_def)
    next
      case 2
      then show ?thesis using Ph_Main Cons by (simp add: idle_rank_def)
    next
      case 3
      let ?c = "upd_ctim (\<lambda>t. t\<lparr>et_delay := 0\<rparr>) (c\<lparr>csched := (csched c)\<lparr>schedule_time := schedule_time (csched c) + et_delay t\<rparr>\<rparr>)"
      obtain c1 where c1: "perform_all env [VpiNextSimTime] ?c = Some c1" using perform_all_ok by blast
      obtain f w where e: "c1 = ?c\<lparr>csched := (csched ?c)\<lparr>schedule_runnable := f\<rparr>, cworld := w\<rparr>" using ranked_hook [OF r _ c1] by auto
      have "step env (cphase c) c = Some (c1\<lparr>cphase := Ph_Start\<rparr>)" using Ph_Main Cons 3 c1 by (simp add: Let_def)
      moreover have "pending (csched c1) = pending (csched c)" using e Cons by (simp add: pending_def upd_ctim_def)
      ultimately show ?thesis using e Cons Ph_Main by (simp add: idle_rank_def)
    next
      case 4
      then have "et_active (promote t) = []" using no Ph_Main Cons by simp
      from run_active_idle [OF Cons this] show ?thesis using Ph_Main Cons 4 by (simp add: idle_rank_def)
    qed
  qed
next
  case Ph_Start
  then obtain t ts where t: "sched_list (csched c) = t # ts" using inv by (auto simp: sim_inv_def)
  then have e: "et_start t = []" "et_active (promote t) = []" using no Ph_Start by (auto split: if_splits)
  from run_active_idle [OF t e(2)] show ?thesis using Ph_Start t e(1) by (simp add: idle_rank_def)
next
  case Ph_Rosync
  then obtain t ts where t: "sched_list (csched c) = t # ts" using inv by (auto simp: sim_inv_def)
  then show ?thesis using Ph_Rosync no by (simp add: idle_rank_def)
next
  case Ph_Del_thr
  then obtain t ts where t: "sched_list (csched c) = t # ts" using inv by (auto simp: sim_inv_def)
  then show ?thesis using Ph_Del_thr no by (simp add: idle_rank_def pending_def)
next
  case Ph_Final
  obtain c1 where c1: "perform_all env [VpiPostsim] c = Some c1" using perform_all_ok by blast
  obtain f w where e: "c1 = c\<lparr>csched := (csched c)\<lparr>schedule_runnable := f\<rparr>, cworld := w\<rparr>" using ranked_hook [OF r _ c1] by auto
  have "step env (cphase c) c = Some (c1\<lparr>cphase := Ph_Done\<rparr>)"
    using Ph_Final no c1 by (cases "schedule_final_list (csched c)") (auto split: if_splits)
  then show ?thesis using e Ph_Final by (simp add: idle_rank_def)
qed (use no in simp)

text \<open>The events still to run, by rank, and then the turns of the loop.\<close>

definition sim_order :: "(event_s \<Rightarrow> nat) \<Rightarrow> ('w conf \<times> 'w conf) set" where
  "sim_order rank = inv_image (mult less_than <*lex*> idle_less) (\<lambda>c. (image_mset rank (pending (csched c)), idle_rank c))"

lemma wf_sim_order: "wf (sim_order rank)"
  unfolding sim_order_def by (intro wf_inv_image wf_lex_prod wf_mult wf_less_than)

lemma step_decreases:
  assumes inv: "sim_inv c" and r: "ranked env S rank" and S: "set_mset (pending (csched c)) \<subseteq> S" and nd: "cphase c \<noteq> Ph_Done"
  shows "\<exists>c'. step env (cphase c) c = Some c' \<and> set_mset (pending (csched c')) \<subseteq> S \<and> (c', c) \<in> sim_order rank"
proof (cases "chosen (cphase c) (csched c)")
  case None
  obtain c' where c': "step env (cphase c) c = Some c'" "pending (csched c') \<subseteq># pending (csched c)" "(idle_rank c', idle_rank c) \<in> idle_less"
    using step_idle [OF inv r None nd] by auto
  obtain N where N: "pending (csched c) = pending (csched c') + N" using c'(2) by (metis mset_subset_eq_exists_conv)
  have "(image_mset rank (pending (csched c')), image_mset rank (pending (csched c))) \<in> mult less_than" if "N \<noteq> {#}"
    using one_step_implies_mult [of "image_mset rank N" "{#}" less_than "image_mset rank (pending (csched c'))"] that N by simp
  then have "(c', c) \<in> sim_order rank" using c'(3) N by (cases "N = {#}") (simp_all add: sim_order_def)
  then show ?thesis using c'(1,2) S by (auto dest: mset_subset_eqD)
next
  case (Some e)
  obtain c1 where c1: "step env (cphase c) c = run_event env e c1" "pending (csched c) = add_mset e (pending (csched c1))"
    using step_chosen [OF Some] by blast
  have e: "e \<in> S" using S c1(2) by simp
  obtain c' M where c': "run_event env e c1 = Some c'" "pending (csched c') = pending (csched c1) + M" "\<forall>x \<in># M. x \<in> S \<and> rank x < rank e"
    using ranked_run [OF r e] by blast
  have "(image_mset rank (pending (csched c1)) + image_mset rank M, image_mset rank (pending (csched c1)) + {#rank e#}) \<in> mult less_than"
    using c'(3) by (intro one_step_implies_mult) auto
  then have "(c', c) \<in> sim_order rank" using c1(2) c'(2) by (simp add: sim_order_def)
  then show ?thesis using c1 c' S by auto
qed

lemma steps_terminate:
  assumes "ranked env S rank" "sim_inv c" "set_mset (pending (csched c)) \<subseteq> S"
  shows "\<exists>n c'. steps env n c = Some c' \<and> cphase c' = Ph_Done"
  using assms(2,3)
proof (induction c rule: wf_induct_rule [OF wf_sim_order [of rank]])
  case (1 c)
  show ?case
  proof (cases "cphase c = Ph_Done")
    case True
    then show ?thesis by (intro exI [of _ 0] exI [of _ c]) simp
  next
    case False
    obtain c1 where c1: "step env (cphase c) c = Some c1" "set_mset (pending (csched c1)) \<subseteq> S" "(c1, c) \<in> sim_order rank"
      using step_decreases [OF 1(2) assms(1) 1(3) False] by blast
    obtain n c' where "steps env n c1 = Some c'" "cphase c' = Ph_Done" using 1(1) [OF c1(3) step_inv [OF 1(2) c1(1)] c1(2)] by blast
    then show ?thesis using c1(1) by (intro exI [of _ "Suc n"] exI [of _ c']) simp
  qed
qed

end
