(* ===== verification/Vvp_SimOrder.thy ===== *)
theory Vvp_SimOrder
  imports Vvp_SimRun
begin

text \<open>
  The order in which the simulation loop runs the events of its queue, when they create no new ones: all initial events,
  then for each time step the events at its start, the active, inactive, nonblocking, read-write and
  read-only events, the deletion of threads, and at last the final events, each list in the order of insertion.
\<close>

section \<open>Runs\<close>

definition runs :: "'w env \<Rightarrow> event_s list \<Rightarrow> 'w conf \<Rightarrow> 'w conf \<Rightarrow> bool" where
  "runs env tr c c' \<longleftrightarrow> (\<exists>n. steps env n c = Some c' \<and> trace env n c = tr)"

lemma steps_append:
  "steps env m c = Some c1 \<Longrightarrow> steps env n c1 = Some c2 \<Longrightarrow>
   steps env (m + n) c = Some c2 \<and> trace env (m + n) c = trace env m c @ trace env n c1"
proof (induction m arbitrary: c)
  case (Suc m)
  then obtain d where d: "step env (cphase c) c = Some d" "steps env m d = Some c1" by (auto split: bind_splits)
  then show ?case using Suc.IH [OF d(2) Suc.prems(2)] by simp
qed simp

lemma runs_refl: "runs env [] c c"
  unfolding runs_def by (intro exI [of _ 0]) simp

lemma runs_trans: "runs env tr c c1 \<Longrightarrow> runs env tr' c1 c2 \<Longrightarrow> runs env (tr @ tr') c c2"
  unfolding runs_def using steps_append by blast

lemma runs_step:
  "step env (cphase c) c = Some c1 \<Longrightarrow> runs env tr c1 c2 \<Longrightarrow>
   runs env ((case chosen (cphase c) (csched c) of None \<Rightarrow> [] | Some e \<Rightarrow> [e]) @ tr) c c2"
proof -
  assume a: "step env (cphase c) c = Some c1" "runs env tr c1 c2"
  then obtain n where "steps env n c1 = Some c2" "trace env n c1 = tr" by (auto simp: runs_def)
  then show ?thesis unfolding runs_def using a(1) by (intro exI [of _ "Suc n"]) simp
qed

text \<open>An environment whose effects make no calls, and the part of the state that its events leave alone.\<close>

definition quiet :: "'w env \<Rightarrow> bool" where
  "quiet env \<longleftrightarrow> (\<forall>eff obs w. snd (perform env eff obs w) = [])"

definition runnable :: "'w env \<Rightarrow> event_s list \<Rightarrow> bool" where
  "runnable env es \<longleftrightarrow> (\<forall>e \<in> set es. \<forall>w. run_run env e w \<noteq> None)"

definition same :: "'w conf \<Rightarrow> 'w conf \<Rightarrow> bool" where
  "same c c' \<longleftrightarrow> cphase c' = cphase c \<and> run_finals c' = run_finals c \<and>
     sched_list (csched c') = sched_list (csched c) \<and> schedule_init_list (csched c') = schedule_init_list (csched c) \<and>
     schedule_final_list (csched c') = schedule_final_list (csched c) \<and> schedule_runnable (csched c') = schedule_runnable (csched c) \<and>
     schedule_stopped_flag (csched c') = schedule_stopped_flag (csched c) \<and>
     schedule_single_step_flag (csched c') = schedule_single_step_flag (csched c)"

lemma quiet_perform: "quiet env \<Longrightarrow> \<exists>w. perform_all env effs c = Some (c\<lparr>cworld := w\<rparr>)"
proof (induction effs arbitrary: c)
  case Nil
  then show ?case by (auto intro: exI [of _ "cworld c"])
next
  case (Cons eff effs)
  obtain w calls where p: "perform env eff (observe (csched c)) (cworld c) = (w, calls)" by fastforce
  then have "calls = []" using Cons.prems unfolding quiet_def by (metis snd_conv)
  then show ?case using Cons.IH [OF Cons.prems, of "c\<lparr>cworld := w\<rparr>"] p by simp
qed

lemma quiet_run:
  assumes "quiet env" "run_run env e (cworld c) \<noteq> None"
  shows "\<exists>c'. run_event env e c = Some c' \<and> same c c'"
proof -
  obtain effs where "run_run env e (cworld c) = Some effs" using assms(2) by auto
  moreover obtain w where "perform_all env effs (c\<lparr>csched := count_event e (csched c)\<rparr>) = Some (c\<lparr>csched := count_event e (csched c), cworld := w\<rparr>)"
    using quiet_perform [OF assms(1), of effs "c\<lparr>csched := count_event e (csched c)\<rparr>"] by auto
  moreover have "schedule_single_step_flag (count_event e s) = schedule_single_step_flag s" for s by (cases e) simp_all
  ultimately show ?thesis by (simp add: run_event_def same_def)
qed

section \<open>One time step\<close>

definition region_order :: "event_time_s \<Rightarrow> event_s list" where
  "region_order t = et_active t @ et_inactive t @ et_nbassign t @ et_rwsync t"

lemma region_promote:
  "region_order (promote t) = region_order t" "et_active (promote t) = [] \<Longrightarrow> region_order t = []"
  "et_rosync (promote t) = et_rosync t" "et_del_thr (promote t) = et_del_thr t" "et_start (promote t) = et_start t"
  by (auto simp: promote_def region_order_def Let_def split: if_splits)

text \<open>The loop is at time step \<open>t\<close>, and nothing has stopped it.\<close>

definition at_step :: "'w conf \<Rightarrow> event_time_s \<Rightarrow> event_time_s list \<Rightarrow> event_s list \<Rightarrow> bool" where
  "at_step c t ts fs \<longleftrightarrow> sched_list (csched c) = t # ts \<and> et_delay t = 0 \<and> \<not> schedule_stopped_flag (csched c) \<and>
     \<not> schedule_single_step_flag (csched c) \<and> schedule_runnable (csched c) \<and> schedule_final_list (csched c) = fs \<and> run_finals c"

lemma at_step_same: "at_step c t ts fs \<Longrightarrow> same c c' \<Longrightarrow> at_step c' t ts fs"
  by (simp add: at_step_def same_def)

lemma drain_regions:
  assumes "quiet env" "runnable env (region_order t)" "at_step c t ts fs" "cphase c = Ph_Main \<or> cphase c = Ph_Start \<and> et_start t = []"
  shows "\<exists>c' t'. runs env (region_order t) c c' \<and> cphase c' = Ph_Rosync \<and> at_step c' t' ts fs \<and>
    et_rosync t' = et_rosync t \<and> et_del_thr t' = et_del_thr t"
  using assms(2-)
proof (induction "length (region_order t)" arbitrary: c t)
  case 0
  then have r: "region_order t = []" by simp
  then have a: "et_active (promote t) = []" using region_promote(1) [of t] by (simp add: region_order_def)
  have sl: "sched_list (csched c) = t # ts" "et_delay t = 0" using 0 by (simp_all add: at_step_def)
  let ?c = "(upd_ctim promote c)\<lparr>cphase := Ph_Rosync, csched := (csched (upd_ctim promote c))\<lparr>sim_at_rosync := True\<rparr>\<rparr>"
  have "step env (cphase c) c = Some ?c" "chosen (cphase c) (csched c) = None"
    using 0(4) run_active_idle(1) [OF sl(1) a, of env] sl 0(3) a by (auto simp: at_step_def)
  then have "runs env [] c ?c" using runs_step [OF _ runs_refl] by fastforce
  moreover have "at_step ?c (promote t) ts fs" using 0(3) by (simp add: at_step_def upd_ctim_def)
  ultimately show ?case using r by (intro exI [of _ ?c] exI [of _ "promote t"]) (simp add: region_promote)
next
  case (Suc n)
  obtain e es where e: "et_active (promote t) = e # es" using Suc(2) region_promote(2) [of t] by (cases "et_active (promote t)") auto
  define t1 where "t1 = promote t\<lparr>et_active := es\<rparr>"
  have ro: "region_order t = e # region_order t1" using region_promote(1) [of t] e by (simp add: region_order_def t1_def)
  have sl: "sched_list (csched c) = t # ts" "et_delay t = 0" "\<not> schedule_stopped_flag (csched c)" "\<not> schedule_single_step_flag (csched c)"
    using Suc.prems by (simp_all add: at_step_def)
  let ?c = "upd_ctim (\<lambda>t. promote t\<lparr>et_active := es\<rparr>) c"
  have ss: "schedule_single_step_flag (csched ?c) = schedule_single_step_flag (csched c)" by (simp add: upd_ctim_def)
  have at: "at_step (?c\<lparr>cphase := Ph_Main\<rparr>) t1 ts fs" using Suc.prems(2) by (simp add: at_step_def upd_ctim_def t1_def)
  obtain c1 where c1: "run_event env e (?c\<lparr>cphase := Ph_Main\<rparr>) = Some c1" "same (?c\<lparr>cphase := Ph_Main\<rparr>) c1"
    using quiet_run [OF assms(1), of e "?c\<lparr>cphase := Ph_Main\<rparr>"] Suc.prems(1) ro by (auto simp: runnable_def)
  have "step env (cphase c) c = Some c1" "chosen (cphase c) (csched c) = Some e"
    using Suc.prems(3) sl e c1(1) ss by (auto simp: run_active_def Let_def)
  moreover have "cphase c1 = Ph_Main" "at_step c1 t1 ts fs" using at_step_same [OF at c1(2)] c1(2) by (simp_all add: same_def)
  moreover have "runnable env (region_order t1)" using Suc.prems(1) ro by (simp add: runnable_def)
  moreover have "et_rosync t1 = et_rosync t" "et_del_thr t1 = et_del_thr t" by (simp_all add: t1_def region_promote)
  ultimately obtain c' t' where "runs env (region_order t1) c1 c'" "cphase c' = Ph_Rosync" "at_step c' t' ts fs"
    "et_rosync t' = et_rosync t" "et_del_thr t' = et_del_thr t"
    using Suc.hyps(1) [of t1 c1] Suc.hyps(2) ro by auto
  then show ?case unfolding ro using runs_step [OF \<open>step env (cphase c) c = Some c1\<close>] \<open>chosen (cphase c) (csched c) = Some e\<close> by fastforce
qed

text \<open>
  A phase that empties one list of the time step: \<open>get\<close> reads the list, \<open>put\<close> replaces it, \<open>keep\<close> is what it leaves alone.
\<close>

lemma drain_queue:
  fixes get :: "event_time_s \<Rightarrow> event_s list" and put :: "event_s list \<Rightarrow> event_time_s \<Rightarrow> event_time_s" and keep :: "event_time_s \<Rightarrow> 'k"
  assumes "quiet env"
    and law: "\<And>c t ts e es. sched_list (csched c) = t # ts \<Longrightarrow> get t = e # es \<Longrightarrow>
      step env p c = run_event env e (upd_ctim (put es) c) \<and> chosen p (csched c) = Some e"
    and put: "\<And>es t. get (put es t) = es \<and> et_delay (put es t) = et_delay t \<and> keep (put es t) = keep t"
    and "runnable env (get t)" "at_step c t ts fs" "cphase c = p"
  shows "\<exists>c' t'. runs env (get t) c c' \<and> cphase c' = p \<and> at_step c' t' ts fs \<and> get t' = [] \<and> keep t' = keep t"
  using assms(4-)
proof (induction "get t" arbitrary: c t)
  case Nil
  then show ?case using runs_refl by metis
next
  case (Cons e es)
  have sl: "sched_list (csched c) = t # ts" using Cons.prems by (simp add: at_step_def)
  note st = law [OF sl Cons.hyps(2) [symmetric]]
  have at: "at_step (upd_ctim (put es) c) (put es t) ts fs" using Cons.prems(2) put [of es t] by (simp add: at_step_def upd_ctim_def)
  obtain c1 where c1: "run_event env e (upd_ctim (put es) c) = Some c1" "same (upd_ctim (put es) c) c1"
    using quiet_run [OF assms(1), of e "upd_ctim (put es) c"] Cons.prems(1) Cons.hyps(2) unfolding runnable_def
    by (metis list.set_intros(1) upd_ctim_simps(2))
  have "at_step c1 (put es t) ts fs" "cphase c1 = p" using at_step_same [OF at c1(2)] c1(2) Cons.prems(3) by (simp_all add: same_def)
  moreover have "es = get (put es t)" "runnable env (get (put es t))" using put [of es t] Cons.prems(1) Cons.hyps(2) [symmetric] by (simp_all add: runnable_def)
  ultimately obtain c' t' where "runs env es c1 c'" "cphase c' = p" "at_step c' t' ts fs" "get t' = []" "keep t' = keep (put es t)"
    using Cons.hyps(1) [of "put es t" c1] by auto
  moreover have "step env (cphase c) c = Some c1" "chosen (cphase c) (csched c) = Some e" using st c1(1) Cons.prems(3) by simp_all
  ultimately show ?case unfolding Cons.hyps(2) [symmetric] using runs_step [of env c c1 es c'] put [of es t] by auto
qed

text \<open>All of a time step: \<open>start\<close> says whether the events at its start run, which they do when time has just moved.\<close>

definition step_order :: "bool \<Rightarrow> event_time_s \<Rightarrow> event_s list" where
  "step_order start t = (if start then et_start t else []) @ region_order t @ et_rosync t @ et_del_thr t"

lemma drain_step:
  assumes "quiet env" "runnable env (step_order st t)" "at_step c t ts fs" "cphase c = (if st then Ph_Start else Ph_Main)"
  shows "\<exists>c'. runs env (step_order st t) c c' \<and> cphase c' = Ph_Main \<and> sched_list (csched c') = ts \<and>
    \<not> schedule_stopped_flag (csched c') \<and> \<not> schedule_single_step_flag (csched c') \<and> schedule_runnable (csched c') \<and>
    schedule_final_list (csched c') = fs \<and> run_finals c'"
proof -
  have run: "runnable env (et_rosync t)" "runnable env (et_del_thr t)" "runnable env (region_order t)" "st \<Longrightarrow> runnable env (et_start t)"
    using assms(2) by (auto simp: runnable_def step_order_def)
  have "\<exists>c1 t1. runs env (if st then et_start t else []) c c1 \<and> at_step c1 t1 ts fs \<and> region_order t1 = region_order t \<and> et_rosync t1 = et_rosync t \<and>
    et_del_thr t1 = et_del_thr t \<and> (cphase c1 = Ph_Main \<or> cphase c1 = Ph_Start \<and> et_start t1 = [])"
  proof (cases st)
    case True
    obtain c1 t1 where "runs env (et_start t) c c1" "cphase c1 = Ph_Start" "at_step c1 t1 ts fs" "et_start t1 = []"
      "(region_order t1, et_rosync t1, et_del_thr t1) = (region_order t, et_rosync t, et_del_thr t)"
      using drain_queue [OF assms(1), of et_start Ph_Start "\<lambda>es t. t\<lparr>et_start := es\<rparr>" "\<lambda>t. (region_order t, et_rosync t, et_del_thr t)" t c ts fs]
        run(4) assms(3,4) True by (auto simp: region_order_def)
    then show ?thesis using True by auto
  next
    case False
    then show ?thesis using runs_refl assms(3,4) by auto
  qed
  then obtain c1 t1 where c1: "runs env (if st then et_start t else []) c c1" "at_step c1 t1 ts fs" "region_order t1 = region_order t"
    "et_rosync t1 = et_rosync t" "et_del_thr t1 = et_del_thr t" "cphase c1 = Ph_Main \<or> cphase c1 = Ph_Start \<and> et_start t1 = []" by blast
  obtain c2 t2 where c2: "runs env (region_order t) c1 c2" "cphase c2 = Ph_Rosync" "at_step c2 t2 ts fs" "et_rosync t2 = et_rosync t" "et_del_thr t2 = et_del_thr t"
    using drain_regions [OF assms(1) _ c1(2,6)] run(3) c1(3-5) by auto
  obtain c3 t3 where c3: "runs env (et_rosync t) c2 c3" "cphase c3 = Ph_Rosync" "at_step c3 t3 ts fs" "et_rosync t3 = []" "et_del_thr t3 = et_del_thr t"
    using drain_queue [OF assms(1), of et_rosync Ph_Rosync "\<lambda>es t. t\<lparr>et_rosync := es\<rparr>" et_del_thr t2 c2 ts fs] run(1) c2 by auto
  let ?c = "c3\<lparr>cphase := Ph_Del_thr, csched := (csched c3)\<lparr>sim_at_rosync := False\<rparr>\<rparr>"
  have "step env (cphase c3) c3 = Some ?c" "chosen (cphase c3) (csched c3) = None" using c3(2-4) by (auto simp: at_step_def)
  then have r3: "runs env [] c3 ?c" using runs_step [OF _ runs_refl] by fastforce
  have "at_step ?c t3 ts fs" using c3(3) by (simp add: at_step_def)
  then obtain c4 t4 where c4: "runs env (et_del_thr t) ?c c4" "cphase c4 = Ph_Del_thr" "at_step c4 t4 ts fs" "et_del_thr t4 = []"
    using drain_queue [OF assms(1), of et_del_thr Ph_Del_thr "\<lambda>es t. t\<lparr>et_del_thr := es\<rparr>" "\<lambda>_. ()" t3 ?c ts fs] run(2) c3(5) by auto
  let ?d = "c4\<lparr>cphase := Ph_Main, csched := (csched c4)\<lparr>sched_list := ts\<rparr>\<rparr>"
  have "step env (cphase c4) c4 = Some ?d" "chosen (cphase c4) (csched c4) = None" using c4(2-4) by (auto simp: at_step_def)
  then have r4: "runs env [] c4 ?d" using runs_step [OF _ runs_refl] by fastforce
  have "runs env (step_order st t) c ?d"
    using runs_trans [OF c1(1) runs_trans [OF c2(1) runs_trans [OF c3(1) runs_trans [OF r3 runs_trans [OF c4(1) r4]]]]]
    by (simp add: step_order_def)
  then show ?thesis using c4(3) by (intro exI [of _ ?d]) (simp add: at_step_def)
qed

section \<open>The whole simulation\<close>

text \<open>Every time step but one that is already now starts with a step of time.\<close>

definition sched_order :: "event_time_s list \<Rightarrow> event_s list" where
  "sched_order cells = concat (map (\<lambda>t. step_order (et_delay t > 0) t) cells)"

lemma drain_cells:
  assumes "quiet env" "runnable env (sched_order cells @ fs)" "cphase c = Ph_Main" "sched_list (csched c) = cells"
    and "\<not> schedule_stopped_flag (csched c)" "\<not> schedule_single_step_flag (csched c)" "schedule_runnable (csched c)"
    and "schedule_final_list (csched c) = fs" "run_finals c"
  shows "\<exists>c'. runs env (sched_order cells) c c' \<and> cphase c' = Ph_Final \<and> schedule_runnable (csched c') \<and> schedule_final_list (csched c') = fs"
  using assms(2-)
proof (induction cells arbitrary: c)
  case Nil
  then have "step env (cphase c) c = Some (to_final c)" "chosen (cphase c) (csched c) = None" by simp_all
  then have "runs env [] c (to_final c)" using runs_step [OF _ runs_refl] by fastforce
  then show ?case using Nil by (intro exI [of _ "to_final c"]) (simp add: sched_order_def to_final_def)
next
  case (Cons t ts)
  have run: "runnable env (step_order (et_delay t > 0) t)" "runnable env (sched_order ts @ fs)"
    using Cons.prems(1) by (auto simp: runnable_def sched_order_def)
  have "\<exists>c1 t1. runs env [] c c1 \<and> at_step c1 t1 ts fs \<and> cphase c1 = (if et_delay t > 0 then Ph_Start else Ph_Main) \<and>
    step_order (et_delay t > 0) t1 = step_order (et_delay t > 0) t"
  proof (cases "et_delay t > 0")
    case True
    let ?c = "upd_ctim (\<lambda>t. t\<lparr>et_delay := 0\<rparr>) (c\<lparr>csched := (csched c)\<lparr>schedule_time := schedule_time (csched c) + et_delay t\<rparr>\<rparr>)"
    obtain w where w: "perform_all env [VpiNextSimTime] ?c = Some (?c\<lparr>cworld := w\<rparr>)" using quiet_perform [OF assms(1)] by blast
    have "step env (cphase c) c = Some (?c\<lparr>cworld := w, cphase := Ph_Start\<rparr>)" "chosen (cphase c) (csched c) = None"
      using Cons.prems True w by (simp_all add: Let_def)
    then have "runs env [] c (?c\<lparr>cworld := w, cphase := Ph_Start\<rparr>)" using runs_step [OF _ runs_refl] by fastforce
    moreover have "at_step (?c\<lparr>cworld := w, cphase := Ph_Start\<rparr>) (t\<lparr>et_delay := 0\<rparr>) ts fs"
      using Cons.prems by (simp add: at_step_def upd_ctim_def)
    ultimately show ?thesis using True by (fastforce simp: step_order_def region_order_def)
  next
    case False
    then have "et_delay t = 0" by (simp add: word_gt_0)
    then have "at_step c t ts fs" using Cons.prems by (simp add: at_step_def)
    then show ?thesis using False Cons.prems runs_refl by auto
  qed
  then obtain c1 t1 where c1: "runs env [] c c1" "at_step c1 t1 ts fs" "cphase c1 = (if et_delay t > 0 then Ph_Start else Ph_Main)"
    "step_order (et_delay t > 0) t1 = step_order (et_delay t > 0) t" by blast
  obtain c2 where c2: "runs env (step_order (et_delay t > 0) t) c1 c2" "cphase c2 = Ph_Main" "sched_list (csched c2) = ts"
    "\<not> schedule_stopped_flag (csched c2)" "\<not> schedule_single_step_flag (csched c2)" "schedule_runnable (csched c2)"
    "schedule_final_list (csched c2) = fs" "run_finals c2"
    using drain_step [OF assms(1) _ c1(2,3)] run(1) c1(4) by auto
  obtain c' where c': "runs env (sched_order ts) c2 c'" "cphase c' = Ph_Final" "schedule_runnable (csched c')" "schedule_final_list (csched c') = fs"
    using Cons.IH [OF run(2) c2(2-8)] by blast
  have "runs env (sched_order (t # ts)) c c'" using runs_trans [OF c1(1) runs_trans [OF c2(1) c'(1)]] by (simp add: sched_order_def)
  then show ?case using c' by blast
qed

lemma drain_final:
  assumes "quiet env" "runnable env fs" "cphase c = Ph_Final" "schedule_runnable (csched c)" "schedule_final_list (csched c) = fs"
  shows "\<exists>c'. runs env fs c c' \<and> cphase c' = Ph_Done"
  using assms(2-)
proof (induction fs arbitrary: c)
  case Nil
  obtain w where "perform_all env [VpiPostsim] c = Some (c\<lparr>cworld := w\<rparr>)" using quiet_perform [OF assms(1)] by blast
  then have "step env (cphase c) c = Some (c\<lparr>cworld := w, cphase := Ph_Done\<rparr>)" "chosen (cphase c) (csched c) = None"
    using Nil by simp_all
  then have "runs env [] c (c\<lparr>cworld := w, cphase := Ph_Done\<rparr>)" using runs_step [OF _ runs_refl] by fastforce
  then show ?case by (intro exI [of _ "c\<lparr>cworld := w, cphase := Ph_Done\<rparr>"]) simp
next
  case (Cons e fs)
  let ?c = "c\<lparr>csched := (csched c)\<lparr>schedule_final_list := fs\<rparr>\<rparr>"
  obtain c1 where c1: "run_event env e ?c = Some c1" "same ?c c1"
    using quiet_run [OF assms(1), of e ?c] Cons.prems(1) by (auto simp: runnable_def)
  then obtain c' where "runs env fs c1 c'" "cphase c' = Ph_Done"
    using Cons.IH [of c1] Cons.prems by (auto simp: same_def runnable_def)
  moreover have "step env (cphase c) c = Some c1" "chosen (cphase c) (csched c) = Some e" using Cons.prems c1(1) by simp_all
  ultimately show ?case using runs_step [of env c c1 fs c'] by auto
qed

lemma drain_init:
  assumes "quiet env" "runnable env es" "cphase c = Ph_Init" "schedule_init_list (csched c) = es"
  shows "\<exists>c'. runs env es c c' \<and> same (c\<lparr>csched := (csched c)\<lparr>schedule_init_list := []\<rparr>\<rparr>) c'"
  using assms(2-)
proof (induction es arbitrary: c)
  case Nil
  then show ?case using runs_refl by (intro exI [of _ c]) (simp add: same_def)
next
  case (Cons e es)
  let ?c = "c\<lparr>csched := (csched c)\<lparr>schedule_init_list := es\<rparr>\<rparr>"
  obtain c1 where c1: "run_event env e ?c = Some c1" "same ?c c1"
    using quiet_run [OF assms(1), of e ?c] Cons.prems(1) by (auto simp: runnable_def)
  then obtain c' where "runs env es c1 c'" "same (c1\<lparr>csched := (csched c1)\<lparr>schedule_init_list := []\<rparr>\<rparr>) c'"
    using Cons.IH [of c1] Cons.prems by (auto simp: same_def runnable_def)
  moreover have "step env (cphase c) c = Some c1" "chosen (cphase c) (csched c) = Some e" using Cons.prems c1(1) by simp_all
  ultimately show ?case using runs_step [of env c c1 es c'] c1(2) by (auto simp: same_def)
qed

text \<open>The events of the whole queue, in the order of the simulation.\<close>

definition simulation_order :: "sched \<Rightarrow> event_s list" where
  "simulation_order s = schedule_init_list s @ sched_order (sched_list s) @ schedule_final_list s"

lemma simulate_order:
  assumes q: "quiet env" and run: "runnable env (simulation_order s)"
    and flags: "schedule_runnable s" "\<not> schedule_stopped_flag s" "\<not> schedule_single_step_flag s"
  shows "\<exists>c n c'. simulate_start env s w = Some c \<and> schedule_simulate env n s w = Some c' \<and> cphase c' = Ph_Done \<and>
    trace env n c = simulation_order s"
proof -
  have r: "runnable env (schedule_init_list s)" "runnable env (sched_order (sched_list s) @ schedule_final_list s)" "runnable env (schedule_final_list s)"
    using run by (auto simp: runnable_def simulation_order_def)
  obtain c where c: "simulate_start env s w = Some c" "cphase c = Ph_Init" "sched_list (csched c) = sched_list s"
    "schedule_init_list (csched c) = schedule_init_list s" "schedule_final_list (csched c) = schedule_final_list s"
    "schedule_runnable (csched c)" "\<not> schedule_stopped_flag (csched c)" "\<not> schedule_single_step_flag (csched c)"
    using quiet_perform [OF q, of "[VpiEndOfCompile]"] flags unfolding simulate_start_def by fastforce
  obtain c1 where c1: "runs env (schedule_init_list s) c c1" "same (c\<lparr>csched := (csched c)\<lparr>schedule_init_list := []\<rparr>\<rparr>) c1"
    using drain_init [OF q r(1) c(2,4)] by blast
  let ?c = "c1\<lparr>csched := (csched c1)\<lparr>sim_started := True\<rparr>\<rparr>"
  obtain v where v: "perform_all env [VpiStartOfSim] ?c = Some (?c\<lparr>cworld := v\<rparr>)" using quiet_perform [OF q] by blast
  let ?d = "?c\<lparr>cworld := v, run_finals := True, cphase := Ph_Main\<rparr>"
  have "step env (cphase c1) c1 = Some ?d" "chosen (cphase c1) (csched c1) = None"
    using c1(2) c(2,6) v by (simp_all add: same_def Let_def)
  then have "runs env [] c1 ?d" using runs_step [OF _ runs_refl] by fastforce
  moreover obtain c2 where c2: "runs env (sched_order (sched_list s)) ?d c2" "cphase c2 = Ph_Final" "schedule_runnable (csched c2)"
    "schedule_final_list (csched c2) = schedule_final_list s"
    using drain_cells [OF q r(2), of ?d] c c1(2) by (auto simp: same_def)
  moreover obtain c3 where c3: "runs env (schedule_final_list s) c2 c3" "cphase c3 = Ph_Done" using drain_final [OF q r(3) c2(2-4)] by blast
  ultimately have "runs env (simulation_order s) c c3"
    using runs_trans [OF c1(1) runs_trans [OF _ runs_trans [OF c2(1) c3(1)]]] by (fastforce simp: simulation_order_def)
  then show ?thesis using c(1) c3(2) by (auto simp: runs_def schedule_simulate_def)
qed

end
