(* ===== verification/Sched_Props.thy ===== *)
theory Sched_Props
  imports Vvp_SimOrder Vvp_Blit
begin

text \<open>
  The properties of the event scheduler: its lists, its queue, its loop, and the force events, with an instance on a
  concrete queue where a property has hypotheses.
\<close>

section \<open>The queue\<close>

text \<open>
  C36. The circular event lists of the scheduler behave as lists: whatever sequence of insertions at the end, insertions
  at the front and removals of the first event is done, starting from the null pointer, the events come out in the
  order of the list.
\<close>

theorem event_list_refines:
  assumes "distinct (concat (map (\<lambda>op. case op of Put e \<Rightarrow> [e] | Push e \<Rightarrow> [e] | Pull \<Rightarrow> []) ops))"
  shows "run_ops put_event push_event pull_event ops (nxt, None) = run_ops list_put list_push list_pull ops []"
  using circular.run_ops_list [of "(nxt, None)" "[]" ops] assms by (simp add: circ_def)

theorem event_list_refines_witness:
  "run_ops put_event push_event pull_event [Put 1, Put 2, Push 3, Pull, Pull, Put 4, Pull, Pull, Pull] ((\<lambda>_. 0), None)
    = [Some 3, Some 1, Some 2, Some 4, None]"
  using event_list_refines [of "[Put 1, Put 2, Push 3, Pull, Pull, Put 4, Pull, Pull, Pull]" "\<lambda>_. 0"]
  by (simp add: list_put_def list_push_def)

text \<open>
  C11. The list of time steps with relative delays is an agenda: \<open>schedule_event_\<close> appends the event to what is due at its
  time and region, and changes nothing at any other time or region. It keeps the delays between the time steps
  positive, and its assertion holds for every event without delay.
\<close>

theorem schedule_event_refines:
  assumes "wf_cells (sched_list s)" "q = SEQ_INACTIVE \<longrightarrow> delay = 0"
  shows "\<exists>s'. schedule_event e delay q s = Some s' \<and> wf_cells (sched_list s') \<and>
    (\<forall>t q'. agenda (sched_list s') t q' = agenda (sched_list s) t q' @ (if t = unat delay \<and> q' = q then [e] else [])) \<and>
    horizon (sched_list s') = max (horizon (sched_list s)) (unat delay) \<and>
    cells_events (sched_list s') = add_mset e (cells_events (sched_list s))"
  using schedule_event_ok [OF assms(2), of e s] insert_event_wf [OF assms(1)]
  by (simp add: insert_event_agenda insert_event_horizon insert_event_events)

abbreviation idle_sched :: sched where
  "idle_sched \<equiv> \<lparr>sched_list = [], schedule_init_list = [], schedule_final_list = [], schedule_runnable = True,
     schedule_stopped_flag = False, schedule_single_step_flag = False, sim_started = False, sim_at_rosync = False,
     schedule_time = 0, count_assign_events = 0, count_gen_events = 0, count_thread_events = 0, count_time_events = 0\<rparr>"

theorem schedule_event_refines_witness:
  "\<exists>s'. schedule_event (Vthread_event_s 1) 5 SEQ_ACTIVE idle_sched = Some s' \<and> agenda (sched_list s') 5 SEQ_ACTIVE = [Vthread_event_s 1]"
  using schedule_event_refines [of idle_sched SEQ_ACTIVE 5 "Vthread_event_s 1"] by auto

section \<open>The loop\<close>

inductive reachable :: "'w env \<Rightarrow> sched \<Rightarrow> 'w \<Rightarrow> 'w conf \<Rightarrow> bool" for env s w where
  reachable_start: "simulate_start env s w = Some c \<Longrightarrow> reachable env s w c"
| reachable_step: "reachable env s w c \<Longrightarrow> step env (cphase c) c = Some c' \<Longrightarrow> reachable env s w c'"

inductive_cases reachableE: "reachable env s w c"

lemma reachable_inv:
  assumes "wf_cells (sched_list s)" "horizon (sched_list s) < 2 ^ 64" "\<not> sim_at_rosync s" "reachable env s w c"
  shows "sim_inv c"
  using assms(4)
proof (induction rule: reachable.induct)
  case (reachable_start c)
  let ?c = "\<lparr>cphase = Ph_Init, csched = s\<lparr>sim_started := False, schedule_time := 0\<rparr>, cworld = w, run_finals = False\<rparr>"
  have "sim_inv ?c" using assms(1-3) by (simp add: sim_inv_def)
  then show ?case using reachable_start sim_inv_perform by (simp only: simulate_start_def)
next
  case reachable_step
  then show ?case using step_inv by blast
qed

text \<open>A step fails only if the event that it runs fails.\<close>

lemma step_defined:
  assumes inv: "sim_inv c" and run: "\<And>e. chosen (cphase c) (csched c) = Some e \<Longrightarrow> run_run env e (cworld c) \<noteq> None"
  shows "\<exists>c'. step env (cphase c) c = Some c'"
proof (cases "chosen (cphase c) (csched c)")
  case (Some e)
  obtain c1 where "step env (cphase c) c = run_event env e c1" "cworld c1 = cworld c" using step_chosen [OF Some] by blast
  then show ?thesis using run [OF Some] perform_all_ok by (fastforce simp: run_event_def)
next
  case None
  have hook: "\<exists>d. perform_all env [eff] c1 = Some d" for eff c1 using perform_all_ok by blast
  have act: "\<exists>c'. run_active env t c = Some c'" if "sched_list (csched c) = t # ts" "et_active (promote t) = []" for t ts
    using run_active_idle(1) [OF that] by blast
  show ?thesis
  proof (cases "cphase c")
    case Ph_Init
    obtain d where "perform_all env [VpiStartOfSim] (c\<lparr>csched := (csched c)\<lparr>sim_started := True\<rparr>\<rparr>) = Some d" using hook by blast
    then show ?thesis using Ph_Init None by (simp add: Let_def)
  next
    case Ph_Main
    show ?thesis
    proof (cases "sched_list (csched c)")
      case Nil
      then show ?thesis using Ph_Main by simp
    next
      case (Cons t ts)
      obtain d where d: "perform_all env [Stop_handler] (c\<lparr>csched := (csched c)\<lparr>schedule_stopped_flag := False\<rparr>\<rparr>) = Some d" using hook by blast
      obtain d' where d': "perform_all env [VpiNextSimTime] (upd_ctim (\<lambda>t. t\<lparr>et_delay := 0\<rparr>)
        (c\<lparr>csched := (csched c)\<lparr>schedule_time := schedule_time (csched c) + et_delay t\<rparr>\<rparr>)) = Some d'" using hook by blast
      show ?thesis using Ph_Main Cons None d d' act [OF Cons] by (auto simp: Let_def)
    qed
  next
    case Ph_Start
    then show ?thesis using inv None act by (auto simp: sim_inv_def split: if_splits)
  next
    case Ph_Rosync
    then show ?thesis using inv None by (auto simp: sim_inv_def)
  next
    case Ph_Del_thr
    then show ?thesis using inv None by (auto simp: sim_inv_def)
  next
    case Ph_Final
    obtain d where "perform_all env [VpiPostsim] c = Some d" using hook by blast
    then show ?thesis using Ph_Final None by (cases "schedule_final_list (csched c)") (auto split: if_splits)
  qed simp
qed

text \<open>
  C13. Whatever the events and the callbacks do, in every state that the simulation reaches the delays between the time
  steps are positive and add up to less than \<open>2\<^sup>6\<^sup>4\<close>, the current time step is the first of the list while its
  events run, the read-only flag is set exactly in the read-only phase, and the next step fails only if the event
  that it runs does: no assertion of the scheduler fails and no null pointer is followed.
\<close>

theorem simulate_invariant:
  assumes "wf_cells (sched_list s)" "horizon (sched_list s) < 2 ^ 64" "\<not> sim_at_rosync s" "reachable env s w c"
  shows "wf_cells (sched_list (csched c)) \<and> horizon (sched_list (csched c)) < 2 ^ 64 \<and>
    (cphase c \<in> {Ph_Start, Ph_Rosync, Ph_Del_thr} \<longrightarrow> (\<exists>t ts. sched_list (csched c) = t # ts \<and> et_delay t = 0)) \<and>
    (sim_at_rosync (csched c) \<longleftrightarrow> cphase c = Ph_Rosync) \<and>
    (step env (cphase c) c = None \<longrightarrow> (\<exists>e. chosen (cphase c) (csched c) = Some e \<and> run_run env e (cworld c) = None))"
proof -
  have "sim_inv c" using reachable_inv [OF assms] .
  moreover from this have "step env (cphase c) c = None \<longrightarrow> (\<exists>e. chosen (cphase c) (csched c) = Some e \<and> run_run env e (cworld c) = None)"
    using step_defined [of c env] by fastforce
  ultimately show ?thesis by (simp add: sim_inv_def)
qed

text \<open>An environment that does nothing, and one whose threads schedule one further event.\<close>

abbreviation null_env :: "unit env" where
  "null_env \<equiv> \<lparr>perform = (\<lambda>_ _ w. (w, [])), vec4_value = (\<lambda>_ _. vector4_fill 1 BIT4_X)\<rparr>"

abbreviation one_env :: "unit env" where
  "one_env \<equiv> \<lparr>perform = (\<lambda>eff _ w. (w, case eff of Vthread_run thr \<Rightarrow> if thr > 0 then [Schedule_vthread (thr - 1) 3 False] else [] | _ \<Rightarrow> [])),
     vec4_value = (\<lambda>_ _. vector4_fill 1 BIT4_X)\<rparr>"

definition thread_sched :: sched where
  "thread_sched = idle_sched\<lparr>sched_list := [(new_event_time 0)\<lparr>et_active := [Vthread_event_s 1]\<rparr>]\<rparr>"

theorem simulate_invariant_witness:
  "\<exists>c. reachable one_env thread_sched () c \<and> wf_cells (sched_list (csched c))"
proof -
  obtain c where "simulate_start one_env thread_sched () = Some c" using perform_all_ok by (fastforce simp only: simulate_start_def)
  then have "reachable one_env thread_sched () c" by (rule reachable_start)
  then show ?thesis using simulate_invariant [of thread_sched one_env "()" c] by (auto simp: thread_sched_def wf_cells_def new_event_time_def)
qed

text \<open>
  C10. Simulation time never goes back, and it moves only to the earliest later time at which something is due: something is due at the new time, and
  nothing in between. No step drops an event that is due later: the events of a later time and region stay due there in their
  order, whatever is added behind them (or, at the moment the time is reached, pushed in front of the active ones). It starts from
  a queue in which every time step that lies ahead holds an event, which every step keeps. The time is assumed not to exceed 64 bits.
\<close>

theorem simulation_time_correct:
  assumes "sim_inv c" "step env (cphase c) c = Some c'" "all_busy (sched_list (csched c))"
    and "unat (schedule_time (csched c)) + horizon (sched_list (csched c)) < 2 ^ 64"
  shows "unat (schedule_time (csched c)) \<le> unat (schedule_time (csched c')) \<and>
    (schedule_time (csched c) = schedule_time (csched c') \<or> (\<exists>q. due (csched c) (unat (schedule_time (csched c'))) q \<noteq> [])) \<and>
    all_busy (sched_list (csched c')) \<and>
    (\<forall>T q. unat (schedule_time (csched c)) < T \<longrightarrow>
       (if T < unat (schedule_time (csched c')) then due (csched c) T q = []
        else \<exists>xs ys. due (csched c') T q = xs @ due (csched c) T q @ ys \<and>
          (q \<noteq> SEQ_ACTIVE \<or> unat (schedule_time (csched c')) < T \<longrightarrow> xs = [])))"
proof -
  note t = step_time [OF assms(1,2,4)] and b = step_busy [OF assms]
  have "\<exists>xs ys. due (csched c') T q = xs @ due (csched c) T q @ ys \<and> (q \<noteq> SEQ_ACTIVE \<or> unat (schedule_time (csched c')) < T \<longrightarrow> xs = [])"
    if "unat (schedule_time (csched c)) < T" "\<not> T < unat (schedule_time (csched c'))" for T q
  proof (cases "T = unat (schedule_time (csched c'))")
    case True
    then show ?thesis using t(3) [OF that(1) True] by auto
  next
    case False
    then have "unat (schedule_time (csched c')) < T" using that(2) by simp
    then show ?thesis using t(2) [OF that(1)] by (auto intro: exI [of _ "[]"])
  qed
  moreover have "schedule_time (csched c) = schedule_time (csched c') \<or> (\<exists>q. due (csched c) (unat (schedule_time (csched c'))) q \<noteq> [])"
  proof -
    have "schedule_time (csched c) = schedule_time (csched c') \<or> unat (schedule_time (csched c)) < unat (schedule_time (csched c'))"
      using t(1) by (auto simp: order_le_less word_unat_eq_iff)
    then show ?thesis using b(2) by blast
  qed
  ultimately show ?thesis using t(1,4) b(1) by simp
qed

theorem simulation_time_correct_witness:
  "\<exists>c c'. step null_env (cphase c) c = Some c' \<and> unat (schedule_time (csched c)) = 0 \<and> unat (schedule_time (csched c')) = 7 \<and>
     (\<exists>q. due (csched c) 7 q \<noteq> []) \<and> (\<forall>q. due (csched c) 3 q = [])"
proof -
  define c :: "unit conf" where "c = \<lparr>cphase = Ph_Main,
    csched = idle_sched\<lparr>sched_list := [(new_event_time 7)\<lparr>et_active := [Vthread_event_s 1]\<rparr>]\<rparr>, cworld = (), run_finals = True\<rparr>"
  obtain c' where c': "step null_env (cphase c) c = Some c'" "schedule_time (csched c') = 7"
    by (auto simp: c_def upd_ctim_def observe_def)
  have "sim_inv c" "all_busy (sched_list (csched c))" "unat (schedule_time (csched c)) + horizon (sched_list (csched c)) < 2 ^ 64" "schedule_time (csched c) = 0"
    by (simp_all add: c_def sim_inv_def wf_cells_def cell_events_def)
  then have "\<exists>q. due (csched c) 7 q \<noteq> []" "due (csched c) 3 q = []" for q
    using simulation_time_correct [of c null_env c'] c' by (fastforce, auto)
  then show ?thesis using c' \<open>schedule_time (csched c) = 0\<close> by (intro exI [of _ c] exI [of _ c']) simp
qed

text \<open>
  C12. The simulation ends, if every event only creates events of a lower rank and the callbacks of the loop create none:
  from every state that satisfies the invariant the loop comes to its end, whatever the delays, regions
  and flags of the events that are created.
\<close>

theorem simulation_terminates:
  assumes "ranked env S rank" "sim_inv c" "set_mset (pending (csched c)) \<subseteq> S"
  shows "\<exists>n c'. steps env n c = Some c' \<and> cphase c' = Ph_Done"
  using assms by (rule steps_terminate)

theorem simulation_terminates_witness:
  "\<exists>n c'. steps one_env n \<lparr>cphase = Ph_Main, csched = thread_sched, cworld = (), run_finals = True\<rparr> = Some c' \<and> cphase c' = Ph_Done"
proof -
  have "ranked one_env {e. \<exists>n. e = Vthread_event_s n} (\<lambda>e. case e of Vthread_event_s n \<Rightarrow> n | _ \<Rightarrow> 0)"
    by (auto simp: ranked_def creates_def map_filter_simps)
  moreover have "sim_inv \<lparr>cphase = Ph_Main, csched = thread_sched, cworld = (), run_finals = True\<rparr>"
    by (simp add: sim_inv_def thread_sched_def wf_cells_def new_event_time_def)
  ultimately show ?thesis
    using simulation_terminates [of one_env "{e. \<exists>n. e = Vthread_event_s n}" "\<lambda>e. case e of Vthread_event_s n \<Rightarrow> n | _ \<Rightarrow> 0"
        "\<lparr>cphase = Ph_Main, csched = thread_sched, cworld = (), run_finals = True\<rparr>"]
    by (auto simp: pending_def thread_sched_def cell_events_def new_event_time_def)
qed

text \<open>
  C7. With events that create no others, the simulation ends and runs every event of the queue exactly once, in the order
  of the standard: the initial events, then time step by time step the events at its start, the active, inactive,
  nonblocking, read-write and read-only events and the deletion of threads, and at last the final events, each in
  the order of insertion. The exception are events for the start of a time step that is already now: they never run.
\<close>

theorem simulation_order_correct:
  assumes "quiet env" "runnable env (simulation_order s)"
    and "schedule_runnable s" "\<not> schedule_stopped_flag s" "\<not> schedule_single_step_flag s"
  shows "\<exists>c n c'. simulate_start env s w = Some c \<and> schedule_simulate env n s w = Some c' \<and> cphase c' = Ph_Done \<and>
    trace env n c = schedule_init_list s @
      concat (map (\<lambda>t. (if et_delay t > 0 then et_start t else []) @ et_active t @ et_inactive t @ et_nbassign t @ et_rwsync t @
        et_rosync t @ et_del_thr t) (sched_list s)) @ schedule_final_list s"
  using simulate_order [OF assms] by (simp add: simulation_order_def sched_order_def step_order_def region_order_def)

theorem simulation_order_correct_witness:
  "\<exists>c n. simulate_start null_env thread_sched () = Some c \<and> trace null_env n c = [Vthread_event_s 1]"
proof -
  have "runnable null_env (simulation_order thread_sched)" "quiet null_env"
    by (auto simp: runnable_def quiet_def thread_sched_def simulation_order_def sched_order_def step_order_def region_order_def new_event_time_def)
  then show ?thesis using simulation_order_correct [of null_env thread_sched "()"] by (auto simp: thread_sched_def new_event_time_def)
qed

section \<open>Force events\<close>

text \<open>
  C37. A force event of part of a vector forces exactly the bits of the part: the mask has them set, and the forced value
  is the current value with them replaced. A part that reaches beyond the vector is not cut off, as the code
  intends, but fails the assertion of \<open>set_vec\<close>. As there, base and sizes are natural numbers whose sum is taken not to wrap at 32 bits.
\<close>

theorem force_event_correct:
  assumes "wf4 (vec4_value env net w)" "size4 (vec4_value env net w) = vwid" "wf4 val" "0 < size4 val"
  shows "if base + size4 val \<le> vwid
    then \<exists>tmp msk. run_run env (Force_vector4_event_s net val base vwid) w = Some [Force_vec4 net tmp msk] \<and> wf4 tmp \<and> wf2 msk \<and>
      bits4 tmp = take base (bits4 (vec4_value env net w)) @ bits4 val @ drop (base + size4 val) (bits4 (vec4_value env net w)) \<and>
      bits2 msk = map (\<lambda>i. base \<le> i \<and> i < base + size4 val) [0..<vwid]
    else run_run env (Force_vector4_event_s net val base vwid) w = None"
proof (cases "base + size4 val \<le> vwid")
  case True
  have loop: "set_loop set_bit2 base (\<lambda>_. 1) (size4 val) (vector2_fill False vwid)
    = set_loop (\<lambda>v i b. set_bit2 v i (of_bool b)) base (\<lambda>_. True) (size4 val) (vector2_fill False vwid)"
    by (rule set_loop_cong) simp
  obtain msk where msk: "set_loop set_bit2 base (\<lambda>_. 1) (size4 val) (vector2_fill False vwid) = Some msk" "wf2 msk"
    "bits2 msk = take base (replicate vwid False) @ map (\<lambda>_. True) [0..<size4 val] @ drop (base + size4 val) (replicate vwid False)"
    using v2.set_loop_ok [of "vector2_fill False vwid" base "size4 val" "\<lambda>_. True"] True unfolding loop by auto
  have "bits2 msk = map (\<lambda>i. base \<le> i \<and> i < base + size4 val) [0..<vwid]"
    unfolding msk(3) using True by (intro nth_equalityI) (auto simp: nth_append)
  moreover obtain tmp fl where "set_vec (vec4_value env net w) base val = Some (tmp, fl)" "wf4 tmp"
    "bits4 tmp = take base (bits4 (vec4_value env net w)) @ bits4 val @ drop (base + size4 val) (bits4 (vec4_value env net w))"
    using set_vec_ok [OF assms(1,3) _ assms(4), of base] True assms(2) by auto
  ultimately show ?thesis using msk(1,2) True by (auto simp: force_vector4_def)
next
  case False
  then have "set_vec (vec4_value env net w) base val = None" using assms(2) by (simp add: set_vec_def)
  then show ?thesis using False by (auto simp: force_vector4_def split: bind_splits)
qed

theorem force_event_correct_witness:
  "run_run \<lparr>perform = (\<lambda>_ _ w. (w, [])), vec4_value = (\<lambda>_ _. vector4_fill 8 BIT4_0)\<rparr> (Force_vector4_event_s 0 (vector4_fill 3 BIT4_1) 6 8) () = None"
  using force_event_correct [of "\<lparr>perform = (\<lambda>_ _ w. (w, [])), vec4_value = (\<lambda>_ _. vector4_fill 8 BIT4_0)\<rparr>" 0 "()" 8 "vector4_fill 3 BIT4_1" 6]
  by simp

end
