(* ===== verification/Vvp_Tree.thy ===== *)
theory Vvp_Tree
  imports Prelude
begin

text \<open>
  The tree of a resolver node (vvp/resolv.cc): the node keeps the values of all drivers in the leaves of a tree with four
  children to a node, flattened into an array, and recomputes the nodes above a leaf that changes, up to the first
  that keeps its value. The two classes with such an array (\<open>resolv_tri\<close> on strength vectors, \<open>resolv_wired_logic\<close> on
  four-state vectors) repeat the code that walks up the tree, with their own size, comparison and operation; it
  is one definition with these as parameters here. The walk gives the values of a tree that is computed
  anew.
\<close>

section \<open>The tree\<close>

text \<open>The number of array elements, with the loop of the constructors.\<close>

function branch_nodes :: "nat \<Rightarrow> nat \<Rightarrow> nat" where
  "branch_nodes nnodes nports =
     (if nports > 4 then let nports = (nports + 3) div 4 in branch_nodes (nnodes + nports) nports else nnodes)"
  by pat_completeness auto
termination by (relation "measure snd") auto

declare branch_nodes.simps [simp del]

definition tree_nodes :: "nat \<Rightarrow> nat" where
  "tree_nodes nports =
     (let nnodes = branch_nodes nports nports in if nnodes > 1 then nnodes + 1 else nnodes)"

text \<open>The resolution of the nodes \<open>ip\<close> to \<open>ll\<close> of a group; a node without a value is skipped.\<close>

fun resolve_group :: "('v \<Rightarrow> nat) \<Rightarrow> ('v \<Rightarrow> 'v \<Rightarrow> 'v option) \<Rightarrow> 'v \<Rightarrow> 'v list \<Rightarrow> 'v option" where
  "resolve_group sz f out [] = Some out"
| "resolve_group sz f out (v # vs) =
     (if sz v = 0 then resolve_group sz f out vs
      else if sz out = 0 then resolve_group sz f v vs
      else do { out \<leftarrow> f out v; resolve_group sz f out vs })"

text \<open>
  The loop of \<open>recv_vec8_\<close> and \<open>recv_vec4_\<close> from the leaf to the output: the array, and the index of the output if it
  was reached. An index outside the array is an error.
\<close>

function walk_tree :: "('v \<Rightarrow> nat) \<Rightarrow> ('v \<Rightarrow> 'v \<Rightarrow> bool) \<Rightarrow> ('v \<Rightarrow> 'v \<Rightarrow> 'v option) \<Rightarrow> 'v list \<Rightarrow> nat \<Rightarrow> nat \<Rightarrow> nat \<Rightarrow>
    ('v list \<times> nat option) option" where
  "walk_tree sz eq f val base span port =
     (if span > 1
      then let next_base = base + span;
               ip = base + port div 4 * 4;
               op = next_base + port div 4;
               ll = min (ip + 4) next_base
           in if ip < ll \<and> op < length val
              then do {
                out \<leftarrow> resolve_group sz f (val ! ip) (map ((!) val) [ip + 1..<ll]);
                if eq (val ! op) out then Some (val, None)
                else walk_tree sz eq f (val[op := out]) next_base ((span + 3) div 4) (port div 4) }
              else None
      else Some (val, Some base))"
  by pat_completeness auto
termination by (relation "measure (\<lambda>(_, _, _, _, _, span, _). span)") auto

declare walk_tree.simps [simp del]

section \<open>The tree on bit lists\<close>

text \<open>The reference: resolution of the groups of four, until one value is left. The empty list stands for no value.\<close>

definition join :: "('b \<Rightarrow> 'b \<Rightarrow> 'b) \<Rightarrow> 'b list \<Rightarrow> 'b list \<Rightarrow> 'b list" where
  "join g a b = (if b = [] then a else if a = [] then b else map2 g a b)"

abbreviation join_all :: "('b \<Rightarrow> 'b \<Rightarrow> 'b) \<Rightarrow> 'b list list \<Rightarrow> 'b list" where
  "join_all g xs \<equiv> foldl (join g) [] xs"

definition tree_group :: "('b \<Rightarrow> 'b \<Rightarrow> 'b) \<Rightarrow> 'b list list \<Rightarrow> nat \<Rightarrow> nat \<Rightarrow> nat \<Rightarrow> 'b list" where
  "tree_group g B base span k = join_all g (map ((!) B) [base + 4 * k..<min (base + 4 * k + 4) (base + span)])"

function tree_eval :: "('b \<Rightarrow> 'b \<Rightarrow> 'b) \<Rightarrow> 'b list list \<Rightarrow> 'b list" where
  "tree_eval g xs =
     (if length xs > 1 then tree_eval g (map (tree_group g xs 0 (length xs)) [0..<(length xs + 3) div 4]) else join_all g xs)"
  by pat_completeness auto
termination by (relation "measure (\<lambda>(_, xs). length xs)") auto

declare tree_eval.simps [simp del]

function nodes :: "nat \<Rightarrow> nat" where
  "nodes n = (if n > 1 then n + nodes ((n + 3) div 4) else n)"
  by pat_completeness auto
termination by (relation "measure id") auto

declare nodes.simps [simp del]

lemma branch_nodes_eq: "1 < n \<Longrightarrow> branch_nodes a n + 1 + n = a + nodes n"
proof (induction a n rule: branch_nodes.induct)
  case (1 a n)
  show ?case
  proof (cases "n > 4")
    case True
    let ?p = "(n + 3) div 4"
    have "1 < ?p" using True by simp
    then show ?thesis using 1(1) [OF True refl] True by (subst branch_nodes.simps, subst nodes.simps) (simp add: Let_def)
  next
    case False
    then have "(n + 3) div 4 = 1" using 1(2) by simp
    then show ?thesis using False 1(2) by (subst branch_nodes.simps, subst nodes.simps, subst nodes.simps) simp
  qed
qed

lemma tree_nodes_eq: "tree_nodes n = nodes n"
proof (cases "1 < n")
  case True
  then have "branch_nodes n n + 1 = nodes n" using branch_nodes_eq [of n n] by simp
  moreover have "n + 1 \<le> nodes n"
  proof -
    have "1 \<le> nodes ((n + 3) div 4)" using True by (subst nodes.simps) auto
    then show ?thesis using True by (subst nodes.simps) simp
  qed
  ultimately show ?thesis using True by (simp add: tree_nodes_def Let_def)
next
  case False
  then show ?thesis by (simp add: tree_nodes_def branch_nodes.simps nodes.simps Let_def)
qed

lemma nodes_step: "1 < n \<Longrightarrow> nodes n = n + nodes ((n + 3) div 4)"
  by (subst nodes.simps) simp

lemma nodes_ge: "n \<le> nodes n"
  by (subst nodes.simps) simp

lemma nodes_1 [simp]: "nodes (Suc 0) = 1"
  by (simp add: nodes.simps)

text \<open>The walk on bit lists, with all groups but that of the port up to date when it starts.\<close>

function walk_bits :: "('b \<Rightarrow> 'b \<Rightarrow> 'b) \<Rightarrow> 'b list list \<Rightarrow> nat \<Rightarrow> nat \<Rightarrow> nat \<Rightarrow> 'b list list \<times> nat option" where
  "walk_bits g B base span port =
     (if span > 1
      then let op = base + span + port div 4; out = tree_group g B base span (port div 4)
           in if B ! op = out then (B, None)
              else walk_bits g (B[op := out]) (base + span) ((span + 3) div 4) (port div 4)
      else (B, Some base))"
  by pat_completeness auto
termination by (relation "measure (\<lambda>(_, _, _, span, _). span)") auto

declare walk_bits.simps [simp del]

function tree_ok :: "('b \<Rightarrow> 'b \<Rightarrow> 'b) \<Rightarrow> ('b list \<Rightarrow> 'b list) \<Rightarrow> 'b list list \<Rightarrow> nat \<Rightarrow> nat \<Rightarrow> bool" where
  "tree_ok g R B base span \<longleftrightarrow>
     (if span > 1
      then (\<forall>k < (span + 3) div 4. B ! (base + span + k) = (if span \<le> 4 then R else id) (tree_group g B base span k)) \<and>
           tree_ok g R B (base + span) ((span + 3) div 4)
      else True)"
  by pat_completeness auto
termination by (relation "measure (\<lambda>(_, _, _, _, span). span)") auto

declare tree_ok.simps [simp del]

lemma tree_ok_1 [simp]: "tree_ok g R B base (Suc 0)"
  by (simp add: tree_ok.simps)

lemma tree_group_cong: "(\<And>i. base \<le> i \<Longrightarrow> i < base + span \<Longrightarrow> B ! i = B' ! i) \<Longrightarrow> tree_group g B base span k = tree_group g B' base span k"
  unfolding tree_group_def by (rule arg_cong [where f = "foldl (join g) []"]) (rule map_cong, auto)

lemma tree_ok_cong: "(\<And>i. base \<le> i \<Longrightarrow> i < base + nodes span \<Longrightarrow> B ! i = B' ! i) \<Longrightarrow> tree_ok g R B base span = tree_ok g R B' base span"
proof (induction g R B base span rule: tree_ok.induct)
  case (1 g R B base span)
  show ?case
  proof (cases "span > 1")
    case True
    let ?p = "(span + 3) div 4"
    have n: "nodes span = span + nodes ?p" by (rule nodes_step [OF True])
    have "tree_group g B base span k = tree_group g B' base span k" for k using 1(2) n by (intro tree_group_cong) simp
    moreover have "B ! (base + span + k) = B' ! (base + span + k)" if "k < ?p" for k
      using 1(2) [of "base + span + k"] that n nodes_ge [of ?p] by simp
    moreover have "tree_ok g R B (base + span) ?p = tree_ok g R B' (base + span) ?p"
      using 1(2) n by (intro 1(1) [OF True]) simp
    ultimately show ?thesis using True by (subst (1 2) tree_ok.simps) auto
  qed (simp add: tree_ok.simps)
qed

lemma walk_bits_below:
  "walk_bits g B base span port = (B', r) \<Longrightarrow> length B' = length B \<and> (\<forall>i < base + span. B' ! i = B ! i)"
proof (induction g B base span port rule: walk_bits.induct)
  case (1 g B base span port)
  let ?op = "base + span + port div 4" and ?out = "tree_group g B base span (port div 4)"
  show ?case
  proof (cases "span > 1 \<and> B ! ?op \<noteq> ?out")
    case True
    then have "walk_bits g (B[?op := ?out]) (base + span) ((span + 3) div 4) (port div 4) = (B', r)"
      using 1(2) by (subst (asm) walk_bits.simps) (simp add: Let_def)
    then show ?thesis using 1(1) [OF _ refl refl] True by fastforce
  next
    case False
    then show ?thesis using 1(2) by (subst (asm) walk_bits.simps) (auto simp: Let_def split: if_splits)
  qed
qed

text \<open>Only the group of the changed node is out of date: afterwards no group is, and \<open>R\<close> is left to be applied to the root if it was reached.\<close>

lemma walk_bits_ok:
  assumes "walk_bits g B base span port = (B', r)" "port < span" "base + nodes span \<le> length B"
    and "\<And>k. k < (span + 3) div 4 \<Longrightarrow> k \<noteq> port div 4 \<Longrightarrow> 1 < span \<Longrightarrow>
      B ! (base + span + k) = (if span \<le> 4 then R else id) (tree_group g B base span k)"
    and "1 < span \<Longrightarrow> tree_ok g R B (base + span) ((span + 3) div 4)"
    and "R (B ! (base + nodes span - 1)) = B ! (base + nodes span - 1)"
  shows "case r of None \<Rightarrow> tree_ok g R B' base span \<and> B' ! (base + nodes span - 1) = B ! (base + nodes span - 1)
    | Some root \<Rightarrow> tree_ok g id B' base span \<and> root = base + nodes span - 1"
  using assms
proof (induction g B base span port rule: walk_bits.induct)
  case (1 g B base span port)
  let ?p = "(span + 3) div 4" and ?out = "tree_group g B base span (port div 4)"
  let ?op = "base + span + port div 4"
  show ?case
  proof (cases "span > 1")
    case False
    then have "span = 1" using 1(3) by simp
    then show ?thesis using 1(2) by (subst (asm) walk_bits.simps) auto
  next
    case True
    have n: "nodes span = span + nodes ?p" by (rule nodes_step [OF True])
    have pp: "port div 4 < ?p" using 1(3) by linarith
    have pn: "0 < nodes ?p" using nodes_ge [of ?p] True by simp
    have op: "?op < length B" using 1(4) n pp nodes_ge [of ?p] by simp
    have ri: "base + nodes span - 1 = base + span + nodes ?p - 1" using n by simp
    show ?thesis
    proof (cases "B ! ?op = ?out")
      case eq: True
      then have r: "r = None" "B' = B" using 1(2) True by (subst (asm) walk_bits.simps, simp add: Let_def)+
      have "B ! ?op = (if span \<le> 4 then R else id) ?out"
      proof (cases "span \<le> 4")
        case s: True
        then have "?p = 1" "port div 4 = 0" using True 1(3) by simp_all
        then have "base + nodes span - 1 = ?op" using n by simp
        then show ?thesis using eq 1(7) s by simp
      qed (use eq in simp)
      then have "B ! (base + span + k) = (if span \<le> 4 then R else id) (tree_group g B base span k)" if "k < ?p" for k
        using 1(5) [OF that _ True] by (cases "k = port div 4") simp_all
      then show ?thesis using r 1(6) True by (subst tree_ok.simps) auto
    next
      case ne: False
      let ?B = "B[?op := ?out]"
      have w: "walk_bits g ?B (base + span) ?p (port div 4) = (B', r)"
        using 1(2) True ne by (subst (asm) walk_bits.simps) (simp add: Let_def)
      note below = conjunct2 [OF walk_bits_below [OF w], rule_format]
      have base_grp: "tree_group g ?B base span k = tree_group g B base span k" "tree_group g B' base span k = tree_group g B base span k" for k
        using below by (auto intro!: tree_group_cong)
      have level: "B' ! (base + span + k) = tree_group g B' base span k" if "k < ?p" "4 < span \<or> k = port div 4" for k
        using below [of "base + span + k"] that 1(5) [OF that(1) _ True] op unfolding base_grp
        by (cases "k = port div 4") (auto simp: nth_list_update)
      show ?thesis
      proof (cases "span \<le> 4")
        case s: True
        then have p: "?p = 1" "port div 4 = 0" using True 1(3) by simp_all
        then have r: "r = Some (base + span)" using w by (simp add: walk_bits.simps)
        have "tree_ok g id B' base span" using True p level by (subst tree_ok.simps) simp
        then show ?thesis using r p n by simp
      next
        case s: False
        then have p: "1 < ?p" by simp
        have "0 < (?p + 3) div 4" using p unfolding div_greater_zero_iff by linarith
        then have pn: "?p < nodes ?p" using nodes_step [OF p] nodes_ge [of "(?p + 3) div 4"] by linarith
        have grp: "tree_group g ?B (base + span) ?p k = tree_group g B (base + span) ?p k" if "k \<noteq> port div 4 div 4" for k
        proof -
          have "?op \<notin> {base + span + 4 * k..<base + span + 4 * k + 4}" using that by auto
          then have "map ((!) ?B) [base + span + 4 * k..<min (base + span + 4 * k + 4) (base + span + ?p)] =
              map ((!) B) [base + span + 4 * k..<min (base + span + 4 * k + 4) (base + span + ?p)]" by (auto simp: nth_list_update)
          then show ?thesis by (simp only: tree_group_def)
        qed
        have ro: "?op \<noteq> base + span + nodes ?p - 1" using pp pn by linarith
        have above: "tree_ok g R B (base + span) ?p" using 1(6) True by simp
        have "case r of None \<Rightarrow> tree_ok g R B' (base + span) ?p \<and> B' ! (base + span + nodes ?p - 1) = ?B ! (base + span + nodes ?p - 1)
          | Some root \<Rightarrow> tree_ok g id B' (base + span) ?p \<and> root = base + span + nodes ?p - 1"
        proof (rule 1(1) [OF True refl refl ne w pp])
          show "base + span + nodes ?p \<le> length ?B" using 1(4) n by simp
          show "?B ! (base + span + ?p + k) = (if ?p \<le> 4 then R else id) (tree_group g ?B (base + span) ?p k)"
            if "k < (?p + 3) div 4" "k \<noteq> port div 4 div 4" for k
            using above that p pp grp [OF that(2)] by (subst (asm) tree_ok.simps) simp
          show "tree_ok g R ?B (base + span + ?p) ((?p + 3) div 4)"
            using above p pp by (subst (asm) tree_ok.simps) (simp add: tree_ok_cong [of _ _ ?B B])
          show "R (?B ! (base + span + nodes ?p - 1)) = ?B ! (base + span + nodes ?p - 1)"
            using 1(7) ri ro by simp
        qed
        moreover have up: "tree_ok g R' B' base span" if "tree_ok g R' B' (base + span) ?p" for R'
          using that True s level by (subst tree_ok.simps) simp
        moreover have "?B ! (base + span + nodes ?p - 1) = B ! (base + nodes span - 1)" using ri ro by simp
        ultimately show ?thesis using ri up [of R] up [of id] by (cases r) auto
      qed
    qed
  qed
qed

lemma tree_ok_root:
  assumes "tree_ok g R B base span" "1 < span"
  shows "B ! (base + nodes span - 1) = R (tree_eval g (map ((!) B) [base..<base + span]))"
  using assms
proof (induction span arbitrary: base rule: less_induct)
  case (less span)
  let ?p = "(span + 3) div 4" and ?xs = "map ((!) B) [base..<base + span]"
  have n: "nodes span = span + nodes ?p" by (rule nodes_step [OF less.prems(2)])
  have above: "tree_ok g R B (base + span) ?p"
    and level: "\<And>k. k < ?p \<Longrightarrow> B ! (base + span + k) = (if span \<le> 4 then R else id) (tree_group g B base span k)"
    using less.prems by (subst (asm) tree_ok.simps, simp)+
  have grp: "tree_group g ?xs 0 span k = tree_group g B base span k" for k
  proof -
    have "map ((!) ?xs) [4 * k..<min (4 * k + 4) span] = map ((!) B) [base + 4 * k..<min (base + 4 * k + 4) (base + span)]"
      by (rule nth_equalityI) (auto simp: less_diff_conv ac_simps)
    then show ?thesis by (simp add: tree_group_def)
  qed
  have ev: "tree_eval g ?xs = tree_eval g (map (tree_group g B base span) [0..<?p])"
    using less.prems(2) by (subst tree_eval.simps) (simp add: grp [abs_def])
  show ?case
  proof (cases "span \<le> 4")
    case True
    then have "?p = 1" using less.prems(2) by simp
    then show ?thesis using n level [of 0] ev True by (simp add: tree_eval.simps join_def)
  next
    case False
    then have "map (tree_group g B base span) [0..<?p] = map ((!) B) [base + span..<base + span + ?p]"
      using level by (intro nth_equalityI) simp_all
    moreover have "B ! (base + span + nodes ?p - 1) = R (tree_eval g (map ((!) B) [base + span..<base + span + ?p]))"
      using less.IH [OF _ above] False less.prems(2) by simp
    ultimately show ?thesis using n ev by (simp add: add.assoc)
  qed
qed

text \<open>With an associative operation the grouping does not matter.\<close>

lemma join_Nil [simp]: "join g [] b = b" "join g a [] = a"
  by (simp_all add: join_def)

lemma concat_upt4: "concat (map (\<lambda>k. [4 * k..<min (4 * k + 4) n]) [0..<m]) = [0..<min (4 * m) n]"
proof (induction m)
  case (Suc m)
  have "[0..<min (4 * m) n] @ [4 * m..<min (4 * m + 4) n] = [0..<min (4 * Suc m) n]"
  proof (cases "4 * m \<le> n")
    case True
    then have "min (4 * Suc m) n = min (4 * m) n + (min (4 * m + 4) n - 4 * m)" "min (4 * m) n = 4 * m" by auto
    then show ?thesis using upt_add_eq_append [of 0 "min (4 * m) n" "min (4 * m + 4) n - 4 * m"] by simp
  qed (simp add: min_def)
  then show ?case using Suc by simp
qed simp

lemma join_all_concat:
  assumes "\<And>a b c. a \<in> A \<Longrightarrow> b \<in> A \<Longrightarrow> c \<in> A \<Longrightarrow> join g (join g a b) c = join g a (join g b c)"
    and "\<And>a b. a \<in> A \<Longrightarrow> b \<in> A \<Longrightarrow> join g a b \<in> A" "[] \<in> A" "\<And>xs. xs \<in> set xss \<Longrightarrow> set xs \<subseteq> A"
  shows "join_all g (map (join_all g) xss) = join_all g (concat xss) \<and> join_all g (concat xss) \<in> A"
  using assms(4)
proof (induction xss rule: rev_induct)
  case (snoc ys xss)
  have app: "set ys \<subseteq> A \<Longrightarrow> y \<in> A \<Longrightarrow> foldl (join g) y ys = join g y (join_all g ys) \<and> join_all g ys \<in> A" for y ys
  proof (induction ys rule: rev_induct)
    case (snoc z zs)
    then show ?case using assms(1) [of y "join_all g zs" z] assms(2) [of "join_all g zs" z] by simp
  qed (simp add: assms(3))
  have "join_all g (map (join_all g) xss) = join_all g (concat xss)" "join_all g (concat xss) \<in> A"
    using snoc by simp_all
  then show ?case using app [of ys "join_all g (concat xss)"] snoc.prems [of ys] assms(2) by simp
qed (simp add: assms(3))

lemma tree_eval_assoc:
  assumes "\<And>a b c. a \<in> A \<Longrightarrow> b \<in> A \<Longrightarrow> c \<in> A \<Longrightarrow> join g (join g a b) c = join g a (join g b c)"
    and "\<And>a b. a \<in> A \<Longrightarrow> b \<in> A \<Longrightarrow> join g a b \<in> A" "[] \<in> A" "set xs \<subseteq> A"
  shows "tree_eval g xs = join_all g xs"
  using assms(4)
proof (induction xs rule: length_induct)
  case (1 xs)
  show ?case
  proof (cases "length xs > 1")
    case True
    let ?n = "length xs" and ?p = "(length xs + 3) div 4"
    let ?xss = "map (\<lambda>k. map ((!) xs) [4 * k..<min (4 * k + 4) ?n]) [0..<?p]"
    have "min (4 * ?p) ?n = ?n" by linarith
    then have "concat ?xss = xs"
      using arg_cong [OF concat_upt4 [of ?n ?p], of "map ((!) xs)"] by (simp add: map_concat comp_def map_nth)
    moreover have "i < ?n \<Longrightarrow> xs ! i \<in> A" for i using 1(2) nth_mem by blast
    then have sub: "ys \<in> set ?xss \<Longrightarrow> set ys \<subseteq> A" for ys by auto
    ultimately have cc: "join_all g (map (join_all g) ?xss) = join_all g xs"
      using join_all_concat [OF assms(1,2,3), of ?xss] by simp
    have grp: "map (tree_group g xs 0 ?n) [0..<?p] = map (join_all g) ?xss" by (simp add: tree_group_def)
    have "join_all g ys \<in> A" if "ys \<in> set ?xss" for ys
      using join_all_concat [OF assms(1,2,3), of "[ys]"] sub [OF that] by simp
    then have sub: "set (map (tree_group g xs 0 ?n) [0..<?p]) \<subseteq> A" unfolding grp by auto
    have "tree_eval g (map (tree_group g xs 0 ?n) [0..<?p]) = join_all g (map (tree_group g xs 0 ?n) [0..<?p])"
      using 1(1) sub True by simp
    then have "tree_eval g (map (tree_group g xs 0 ?n) [0..<?p]) = join_all g xs" using cc unfolding grp by simp
    then show ?thesis using True by (subst tree_eval.simps) simp
  qed (simp add: tree_eval.simps)
qed

section \<open>A node and its drivers\<close>

text \<open>
  The node of \<open>n\<close> ports with the drivers \<open>drv\<close>, where \<open>R\<close> is what is done to the output at last. The only leaf of a node
  with one port is its output.
\<close>

definition node_ok :: "('b \<Rightarrow> 'b \<Rightarrow> 'b) \<Rightarrow> ('b list \<Rightarrow> 'b list) \<Rightarrow> nat \<Rightarrow> (nat \<Rightarrow> 'b list) \<Rightarrow> 'b list list \<Rightarrow> bool" where
  "node_ok g R n drv B \<longleftrightarrow> length B = nodes n \<and> tree_ok g R B 0 n \<and> (\<forall>i < n. B ! i = (if n = 1 then R (drv i) else drv i))"

definition node_out :: "('b \<Rightarrow> 'b \<Rightarrow> 'b) \<Rightarrow> ('b list \<Rightarrow> 'b list) \<Rightarrow> nat \<Rightarrow> (nat \<Rightarrow> 'b list) \<Rightarrow> 'b list" where
  "node_out g R n drv = R (tree_eval g (map drv [0..<n]))"

lemma nodes_less: "1 < n \<Longrightarrow> n < nodes n"
proof -
  assume n: "1 < n"
  then have "0 < (n + 3) div 4" unfolding div_greater_zero_iff by linarith
  then show ?thesis using nodes_step [OF n] nodes_ge [of "(n + 3) div 4"] by linarith
qed

lemma node_root:
  assumes "node_ok g R n drv B" "0 < n"
  shows "B ! (nodes n - 1) = node_out g R n drv"
proof (cases "n = 1")
  case True
  then show ?thesis using assms by (simp add: node_ok_def node_out_def tree_eval.simps)
next
  case False
  then have n: "1 < n" using assms(2) by simp
  have "map ((!) B) [0..<n] = map drv [0..<n]" using assms(1) False by (simp add: node_ok_def)
  then show ?thesis using tree_ok_root [of g R B 0 n] assms(1) n unfolding node_ok_def node_out_def by (simp del: map_eq_conv)
qed

lemma tree_group_update:
  assumes "j < base + 4 * k \<or> base + 4 * k + 4 \<le> j \<or> base + span \<le> j"
  shows "tree_group g (B[j := b]) base span k = tree_group g B base span k"
proof -
  have "map ((!) (B[j := b])) [base + 4 * k..<min (base + 4 * k + 4) (base + span)] =
      map ((!) B) [base + 4 * k..<min (base + 4 * k + 4) (base + span)]"
    using assms by (auto simp: nth_list_update)
  then show ?thesis by (simp only: tree_group_def)
qed

lemma tree_ok_pull:
  assumes "tree_ok g id B base span" "base + nodes span \<le> length B" "0 < span"
  shows "tree_ok g R (B[base + nodes span - 1 := R (B ! (base + nodes span - 1))]) base span"
  using assms
proof (induction span arbitrary: base rule: less_induct)
  case (less span)
  show ?case
  proof (cases "span > 1")
    case True
    let ?p = "(span + 3) div 4" and ?r = "base + nodes span - 1"
    let ?B = "B[?r := R (B ! ?r)]"
    have n: "nodes span = span + nodes ?p" by (rule nodes_step [OF True])
    have r: "base + span + nodes ?p - 1 = ?r" using n by simp
    have "base + span \<le> ?r" using n nodes_ge [of ?p] True by linarith
    then have grp: "tree_group g ?B base span k = tree_group g B base span k" for k by (simp add: tree_group_update)
    have above: "tree_ok g id B (base + span) ?p" and level: "\<And>k. k < ?p \<Longrightarrow> B ! (base + span + k) = tree_group g B base span k"
      using less.prems(1) True by (subst (asm) tree_ok.simps, simp)+
    have "tree_ok g R ?B (base + span) ?p" using less.IH [OF _ above] less.prems(2) n True unfolding r by simp
    moreover have "?B ! (base + span + k) = (if span \<le> 4 then R else id) (tree_group g B base span k)" if k: "k < ?p" for k
    proof (cases "span \<le> 4")
      case s: True
      then have "?p = 1" using True by simp
      then show ?thesis using level [OF k] k s n less.prems(2) by simp
    next
      case s: False
      then have "?p < nodes ?p" by (intro nodes_less) simp
      then have "base + span + k \<noteq> ?r" using k n by linarith
      then show ?thesis using level [OF k] s by simp
    qed
    ultimately show ?thesis using True grp by (subst tree_ok.simps) simp
  qed (use less.prems(3) in \<open>simp add: tree_ok.simps\<close>)
qed

lemma node_same:
  assumes "node_ok g R n drv B" "B ! p = b" "p < n" "\<And>x. R (R x) = R x"
  shows "node_ok g R n (drv(p := b)) B"
  using assms by (auto simp: node_ok_def)

lemma node_walk:
  assumes "node_ok g R n drv B" "p < n" "\<And>x. R (R x) = R x" "walk_bits g (B[p := b]) 0 n p = (B', r)"
  shows "case r of None \<Rightarrow> node_ok g R n (drv(p := b)) B' \<and> B' ! (nodes n - 1) = B ! (nodes n - 1)
    | Some root \<Rightarrow> root = nodes n - 1 \<and> node_ok g R n (drv(p := b)) (B'[root := R (B' ! root)])"
proof (cases "n = 1")
  case True
  then show ?thesis using assms by (auto simp: walk_bits.simps node_ok_def)
next
  case False
  then have n: "1 < n" using assms(2) by simp
  let ?q = "(n + 3) div 4" and ?B = "B[p := b]"
  have len: "length B = nodes n" and leaf: "\<And>i. i < n \<Longrightarrow> B ! i = drv i" and ok: "tree_ok g R B 0 n"
    using assms(1) n by (auto simp: node_ok_def)
  have root: "p < nodes n - 1" using nodes_less [OF n] assms(2) by linarith
  have fixed: "R (?B ! (nodes n - 1)) = ?B ! (nodes n - 1)"
    using node_root [OF assms(1)] n root assms(3) by (simp add: node_out_def)
  have level: "B ! (n + k) = (if n \<le> 4 then R else id) (tree_group g B 0 n k)" if "k < ?q" for k
    using ok n that by (subst (asm) tree_ok.simps) simp
  have "tree_ok g R B n ?q" using ok n by (subst (asm) tree_ok.simps) simp
  then have above: "tree_ok g R ?B (0 + n) ?q" using assms(2) by (subst tree_ok_cong [of _ _ _ B]) simp_all
  have other: "?B ! (0 + n + k) = (if n \<le> 4 then R else id) (tree_group g ?B 0 n k)" if "k < ?q" "k \<noteq> p div 4" for k
  proof -
    have "tree_group g ?B 0 n k = tree_group g B 0 n k" using that(2) by (intro tree_group_update) linarith
    then show ?thesis using level [OF that(1)] assms(2) by simp
  qed
  have w: "case r of None \<Rightarrow> tree_ok g R B' 0 n \<and> B' ! (0 + nodes n - 1) = ?B ! (0 + nodes n - 1)
    | Some root \<Rightarrow> tree_ok g id B' 0 n \<and> root = 0 + nodes n - 1"
    by (rule walk_bits_ok [OF assms(4,2) _ other above]) (use len fixed in simp_all)
  have below: "length B' = nodes n" "\<And>i. i < n \<Longrightarrow> B' ! i = (drv(p := b)) i"
    using walk_bits_below [OF assms(4)] len leaf assms(2) nodes_ge [of n] by (auto simp: nth_list_update)
  show ?thesis
  proof (cases r)
    case None
    then show ?thesis using w below n root by (simp add: node_ok_def)
  next
    case (Some k)
    then have "tree_ok g R (B'[nodes n - 1 := R (B' ! (nodes n - 1))]) 0 n"
      using w tree_ok_pull [of g B' 0 n R] below(1) n by simp
    then show ?thesis using w Some below n nodes_less [OF n] by (simp add: node_ok_def)
  qed
qed

text \<open>A new node has no drivers.\<close>

lemma node_new:
  assumes "R [] = []"
  shows "node_ok g R n (\<lambda>_. []) (replicate (nodes n) [])"
proof -
  have j: "join_all g (map (\<lambda>_. []) is) = []" for "is" :: "nat list" by (induction "is") simp_all
  have "tree_ok g R B base span" if "\<forall>i < base + nodes span. B ! i = []" for B base span
    using that
  proof (induction span arbitrary: base rule: less_induct)
    case (less span)
    show ?case
    proof (cases "span > 1")
      case True
      let ?p = "(span + 3) div 4"
      have n: "nodes span = span + nodes ?p" by (rule nodes_step [OF True])
      have "tree_group g B base span k = []" for k
      proof -
        have "map ((!) B) [base + 4 * k..<min (base + 4 * k + 4) (base + span)] = map (\<lambda>_. []) [base + 4 * k..<min (base + 4 * k + 4) (base + span)]"
          using less.prems n by auto
        then show ?thesis unfolding tree_group_def by (simp only: j)
      qed
      moreover have "B ! (base + span + k) = []" if "k < ?p" for k using less.prems n that nodes_ge [of ?p] by simp
      moreover have "tree_ok g R B (base + span) ?p" using less.prems n True by (intro less.IH) auto
      ultimately show ?thesis using True assms by (subst tree_ok.simps) simp
    qed (simp add: tree_ok.simps)
  qed
  moreover have "n \<le> nodes n" by (rule nodes_ge)
  ultimately show ?thesis using assms by (simp add: node_ok_def)
qed

section \<open>The contract of a resolver\<close>

text \<open>A node has no value yet, or one of the width \<open>w\<close> of the net.\<close>

definition fits :: "('v \<Rightarrow> bool) \<Rightarrow> ('v \<Rightarrow> nat) \<Rightarrow> nat \<Rightarrow> 'v \<Rightarrow> bool" where
  "fits valid sz w v \<longleftrightarrow> valid v \<and> (sz v = 0 \<or> sz v = w)"

text \<open>
  What the walk needs of the vectors: a comparison and an operation of the vectors of one width that act on the bits.
\<close>

locale resolver =
  fixes sz :: "'v \<Rightarrow> nat" and eq :: "'v \<Rightarrow> 'v \<Rightarrow> bool" and f :: "'v \<Rightarrow> 'v \<Rightarrow> 'v option"
    and bits :: "'v \<Rightarrow> 'b list" and inv :: "'v \<Rightarrow> bool" and g :: "'b \<Rightarrow> 'b \<Rightarrow> 'b"
  assumes length_bits: "inv v \<Longrightarrow> length (bits v) = sz v"
    and eq_iff: "inv v \<Longrightarrow> inv w \<Longrightarrow> eq v w \<longleftrightarrow> bits v = bits w"
    and op_ok: "inv v \<Longrightarrow> inv w \<Longrightarrow> sz v = sz w \<Longrightarrow> \<exists>u. f v w = Some u \<and> inv u \<and> bits u = map2 g (bits v) (bits w)"
begin

lemma resolve_group_ok:
  assumes "fits inv sz w v" "list_all (fits inv sz w) vs"
  shows "\<exists>u. resolve_group sz f v vs = Some u \<and> fits inv sz w u \<and> bits u = foldl (join g) (bits v) (map bits vs)"
  using assms
proof (induction vs arbitrary: v)
  case (Cons x vs)
  have e: "bits y = [] \<longleftrightarrow> sz y = 0" if "fits inv sz w y" for y using that length_bits [of y] by (auto simp: fits_def)
  consider "sz x = 0" | "sz x \<noteq> 0" "sz v = 0" | "sz x \<noteq> 0" "sz v \<noteq> 0" by blast
  then show ?case
  proof cases
    case 1
    then show ?thesis using Cons e [of x] by (simp add: join_def)
  next
    case 2
    then show ?thesis using Cons e [of x] e [of v] by (simp add: join_def)
  next
    case 3
    then obtain u where u: "f v x = Some u" "inv u" "bits u = map2 g (bits v) (bits x)"
      using op_ok [of v x] Cons.prems by (auto simp: fits_def)
    have "sz u = w" using u(2,3) length_bits [of u] length_bits [of v] length_bits [of x] 3 Cons.prems by (simp add: fits_def)
    then have "fits inv sz w u" using u(2) by (simp add: fits_def)
    then show ?thesis using Cons.IH [of u] Cons.prems u 3 e [of x] e [of v] by (simp add: join_def)
  qed
qed simp

lemma walk_tree_ok:
  assumes "list_all (fits inv sz w) val" "base + nodes span \<le> length val" "port < span"
  shows "\<exists>val' r. walk_tree sz eq f val base span port = Some (val', r) \<and> list_all (fits inv sz w) val' \<and>
    walk_bits g (map bits val) base span port = (map bits val', r)"
  using assms
proof (induction span arbitrary: val base port rule: less_induct)
  case (less span)
  show ?case
  proof (cases "span > 1")
    case False
    then show ?thesis using less.prems by (simp add: walk_tree.simps walk_bits.simps)
  next
    case True
    let ?p = "(span + 3) div 4" and ?ip = "base + port div 4 * 4" and ?op = "base + span + port div 4"
    let ?ll = "min (?ip + 4) (base + span)"
    have pp: "port div 4 < ?p" using less.prems(3) by linarith
    have ip: "?ip < ?ll" using less.prems(3) by linarith
    have op: "?op < length val" using less.prems(2) nodes_step [OF True] nodes_ge [of ?p] pp by linarith
    have all: "fits inv sz w (val ! i)" if "i < length val" for i using less.prems(1) that by (simp add: list_all_length)
    have ll: "?ll \<le> length val" using less.prems(2) nodes_ge [of span] by linarith
    then have "list_all (fits inv sz w) (map ((!) val) [?ip + 1..<?ll])" "fits inv sz w (val ! ?ip)"
      using all ip by (auto simp: list_all_iff)
    then obtain out where out: "resolve_group sz f (val ! ?ip) (map ((!) val) [?ip + 1..<?ll]) = Some out" "fits inv sz w out"
      "bits out = foldl (join g) (bits (val ! ?ip)) (map bits (map ((!) val) [?ip + 1..<?ll]))"
      using resolve_group_ok by blast
    have "map ((!) (map bits val)) [?ip..<?ll] = bits (val ! ?ip) # map bits (map ((!) val) [?ip + 1..<?ll])"
      using ip ll by (auto simp: upt_conv_Cons)
    then have grp: "tree_group g (map bits val) base span (port div 4) = bits out"
      using out(3) by (simp add: tree_group_def mult.commute)
    have cmp: "eq (val ! ?op) out \<longleftrightarrow> map bits val ! ?op = bits out"
      using eq_iff all [OF op] out(2) op by (simp add: fits_def)
    show ?thesis
    proof (cases "eq (val ! ?op) out")
      case eq: True
      then show ?thesis using True ip op out(1) cmp grp less.prems(1)
        by (subst walk_tree.simps, subst walk_bits.simps) (simp add: Let_def)
    next
      case False
      have q: "?p < span" using True by linarith
      have "list_all (fits inv sz w) (val[?op := out])" using less.prems(1) out(2) by (auto simp: list_all_iff dest: subsetD [OF set_update_subset_insert])
      then obtain val' r where "walk_tree sz eq f (val[?op := out]) (base + span) ?p (port div 4) = Some (val', r)" "list_all (fits inv sz w) val'"
        "walk_bits g (map bits (val[?op := out])) (base + span) ?p (port div 4) = (map bits val', r)"
        using less.IH [OF q, of "val[?op := out]" "base + span" "port div 4"] less.prems(2) pp nodes_step [OF True] by (auto simp: add.assoc)
      then show ?thesis using True ip op out(1) cmp grp False
        by (subst walk_tree.simps, subst walk_bits.simps) (simp add: Let_def map_update)
    qed
  qed
qed

end

section \<open>Sequences of values\<close>

text \<open>The values that arrive at the ports of a node in turn, with what the node sends.\<close>

fun run_recv :: "('p \<Rightarrow> 'v \<Rightarrow> 's \<Rightarrow> ('s \<times> 'o option) option) \<Rightarrow> ('p \<times> 'v) list \<Rightarrow> 's \<Rightarrow> ('s \<times> 'o list) option" where
  "run_recv recv [] st = Some (st, [])"
| "run_recv recv ((p, v) # ops) st =
     do { (st, r) \<leftarrow> recv p v st;
          (st, outs) \<leftarrow> run_recv recv ops st;
          Some (st, (case r of None \<Rightarrow> [] | Some x \<Rightarrow> [x]) @ outs) }"

text \<open>The bits of the last value at each port, and none before the first.\<close>

definition drivers :: "('v \<Rightarrow> 'b list) \<Rightarrow> (nat \<times> 'v) list \<Rightarrow> (nat \<Rightarrow> 'b list) \<Rightarrow> nat \<Rightarrow> 'b list" where
  "drivers bits ops drv = foldl (\<lambda>d (p, v). d(p := bits v)) drv ops"

lemma drivers_simps [simp]: "drivers bits [] drv = drv" "drivers bits ((p, v) # ops) drv = drivers bits ops (drv(p := bits v))"
  by (simp_all add: drivers_def)

text \<open>A node whose state represents its drivers, and that sends its output when it changes.\<close>

locale driven_node =
  fixes recv :: "nat \<Rightarrow> 'v \<Rightarrow> 's \<Rightarrow> ('s \<times> 'o option) option"
    and bits :: "'v \<Rightarrow> 'b list" and obits :: "'o \<Rightarrow> 'b list" and ok :: "nat \<Rightarrow> 'v \<Rightarrow> bool"
    and rel :: "(nat \<Rightarrow> 'b list) \<Rightarrow> 's \<Rightarrow> bool" and out :: "(nat \<Rightarrow> 'b list) \<Rightarrow> 'b list"
  assumes step: "rel drv st \<Longrightarrow> ok p v \<Longrightarrow> \<exists>st' r. recv p v st = Some (st', r) \<and> rel (drv(p := bits v)) st' \<and>
    (case r of None \<Rightarrow> out (drv(p := bits v)) = out drv | Some x \<Rightarrow> obits x = out (drv(p := bits v)))"
begin

lemma run_ok:
  assumes "rel drv st" "list_all (\<lambda>(p, v). ok p v) ops"
  shows "\<exists>st' outs. run_recv recv ops st = Some (st', outs) \<and> rel (drivers bits ops drv) st' \<and>
    last (out drv # map obits outs) = out (drivers bits ops drv)"
  using assms
proof (induction ops arbitrary: drv st)
  case (Cons x ops)
  obtain p v where x: "x = (p, v)" by (cases x)
  obtain st1 r where st1: "recv p v st = Some (st1, r)" "rel (drv(p := bits v)) st1"
    "case r of None \<Rightarrow> out (drv(p := bits v)) = out drv | Some x \<Rightarrow> obits x = out (drv(p := bits v))"
    using step [OF Cons.prems(1), of p v] Cons.prems(2) x by auto
  have "list_all (\<lambda>(p, v). ok p v) ops" using Cons.prems(2) by simp
  then obtain st' outs where st': "run_recv recv ops st1 = Some (st', outs)" "rel (drivers bits ops (drv(p := bits v))) st'"
    "last (out (drv(p := bits v)) # map obits outs) = out (drivers bits ops (drv(p := bits v)))"
    using Cons.IH [OF st1(2)] by blast
  have "last (out drv # map obits ((case r of None \<Rightarrow> [] | Some x \<Rightarrow> [x]) @ outs)) = last (out (drv(p := bits v)) # map obits outs)"
    using st1(3) by (cases r) auto
  then show ?case using st1(1) st' x by (simp del: last.simps map_append)
qed simp

end

end
