(* ===== verification/Vvp_Resolv.thy ===== *)
theory Vvp_Resolv
  imports Vvp_Tree Vvp_Vector8
begin

text \<open>
  The resolver nodes (vvp/resolv.h, vvp/resolv.cc): \<open>resolv_tri\<close> with its pull value, and the wired logic of \<open>resolv_triand\<close> and
  \<open>resolv_trior\<close>. After any sequence of values at the ports, the last value that the node has sent is the resolution of the
  last values of its ports.
\<close>

section \<open>The nodes\<close>

record resolv_tri =
  tri_nports :: nat
  hiz_value :: vvp_scalar_t
  tri_val :: "vvp_vector8_t list"

definition new_resolv_tri :: "nat \<Rightarrow> vvp_scalar_t \<Rightarrow> resolv_tri" where
  "new_resolv_tri nports hiz = \<lparr>tri_nports = nports, hiz_value = hiz, tri_val = replicate (tree_nodes nports) (vector8_new 0)\<rparr>"

text \<open>The state after a value arrives at a port, and the value that is sent, if any.\<close>

definition tri_recv_vec8 :: "nat \<Rightarrow> vvp_vector8_t \<Rightarrow> resolv_tri \<Rightarrow> (resolv_tri \<times> vvp_vector8_t option) option" where
  "tri_recv_vec8 port b st =
     (if port < tri_nports st
      then if eeq8 (tri_val st ! port) b then Some (st, None)
           else do {
             (val, root) \<leftarrow> walk_tree size8 eeq8 resolve8 ((tri_val st)[port := b]) 0 (tri_nports st) port;
             case root of
               None \<Rightarrow> Some (st\<lparr>tri_val := val\<rparr>, None)
             | Some base \<Rightarrow>
                 do {
                   out \<leftarrow> (if \<not> is_hiz (hiz_value st)
                           then set_loop set_bit8 0 (\<lambda>idx. resolve (val8 (val ! base) ! idx) (hiz_value st)) (size8 (val ! base)) (val ! base)
                           else Some (val ! base));
                   Some (st\<lparr>tri_val := val[base := out]\<rparr>, Some out) } }
      else None)"

definition tri_recv_vec4 :: "nat \<Rightarrow> vvp_vector4_t \<Rightarrow> resolv_tri \<Rightarrow> (resolv_tri \<times> vvp_vector8_t option) option" where
  "tri_recv_vec4 port b st = do { b8 \<leftarrow> vector8_of4 b 6 6; tri_recv_vec8 port b8 st }"

text \<open>The wired logic nodes: \<open>wired_logic_math_\<close> of each class, and the node.\<close>

definition triand_bit :: "vvp_bit4_t \<Rightarrow> vvp_bit4_t \<Rightarrow> vvp_bit4_t" where
  "triand_bit abit bbit =
     (if abit = BIT4_Z then bbit
      else if bbit = BIT4_Z then abit
      else if abit = BIT4_0 \<or> bbit = BIT4_0 then BIT4_0
      else if abit = BIT4_X \<or> bbit = BIT4_X then BIT4_X
      else BIT4_1)"

definition trior_bit :: "vvp_bit4_t \<Rightarrow> vvp_bit4_t \<Rightarrow> vvp_bit4_t" where
  "trior_bit abit bbit =
     (if abit = BIT4_Z then bbit
      else if bbit = BIT4_Z then abit
      else if abit = BIT4_1 \<or> bbit = BIT4_1 then BIT4_1
      else if abit = BIT4_X \<or> bbit = BIT4_X then BIT4_X
      else BIT4_0)"

definition wired_logic_math :: "(vvp_bit4_t \<Rightarrow> vvp_bit4_t \<Rightarrow> vvp_bit4_t) \<Rightarrow> vvp_vector4_t \<Rightarrow> vvp_vector4_t \<Rightarrow> vvp_vector4_t option" where
  "wired_logic_math math a b =
     (if size4 a = size4 b
      then set_loop set_bit4 0 (\<lambda>idx. math (value4 a idx) (value4 b idx)) (size4 a) (vector4_fill (size4 a) BIT4_X)
      else None)"

record resolv_wired_logic =
  wired_nports :: nat
  wired_math :: "vvp_bit4_t \<Rightarrow> vvp_bit4_t \<Rightarrow> vvp_bit4_t"
  wired_val :: "vvp_vector4_t list"

definition new_resolv_wired :: "nat \<Rightarrow> (vvp_bit4_t \<Rightarrow> vvp_bit4_t \<Rightarrow> vvp_bit4_t) \<Rightarrow> resolv_wired_logic" where
  "new_resolv_wired nports math =
     \<lparr>wired_nports = nports, wired_math = math, wired_val = replicate (tree_nodes nports) (vector4_fill 0 BIT4_X)\<rparr>"

definition wired_recv_vec4 :: "nat \<Rightarrow> vvp_vector4_t \<Rightarrow> resolv_wired_logic \<Rightarrow> (resolv_wired_logic \<times> vvp_vector4_t option) option" where
  "wired_recv_vec4 port b st =
     (if port < wired_nports st
      then if eeq (wired_val st ! port) b then Some (st, None)
           else do {
             (val, root) \<leftarrow> walk_tree size4 eeq (wired_logic_math (wired_math st)) ((wired_val st)[port := b]) 0 (wired_nports st) port;
             case root of
               None \<Rightarrow> Some (st\<lparr>wired_val := val\<rparr>, None)
             | Some base \<Rightarrow> Some (st\<lparr>wired_val := val\<rparr>, Some (val ! base)) }
      else None)"

definition wired_recv_vec8 :: "nat \<Rightarrow> vvp_vector8_t \<Rightarrow> resolv_wired_logic \<Rightarrow> (resolv_wired_logic \<times> vvp_vector4_t option) option" where
  "wired_recv_vec8 port b st = do { b4 \<leftarrow> reduce4 b; wired_recv_vec4 port b4 st }"

text \<open>A part of the vector: \<open>resolv_core::recv_vec4_pv_\<close> and \<open>recv_vec8_pv_\<close>, with the node's own method \<open>recv\<close>.\<close>

definition core_recv_vec4_pv :: "(nat \<Rightarrow> vvp_vector4_t \<Rightarrow> 's \<Rightarrow> 'r option) \<Rightarrow> nat \<Rightarrow> vvp_vector4_t \<Rightarrow> nat \<Rightarrow> nat \<Rightarrow> 's \<Rightarrow> 'r option" where
  "core_recv_vec4_pv recv port b base vwid st =
     do {
       res \<leftarrow> set_loop set_bit4 0 (\<lambda>_. BIT4_Z) base (vector4_fill vwid BIT4_X);
       res \<leftarrow> set_loop set_bit4 base (value4 b) (min (size4 b) (vwid - base)) res;
       res \<leftarrow> set_loop set_bit4 (base + size4 b) (\<lambda>_. BIT4_Z) (vwid - (base + size4 b)) res;
       recv port res st }"

definition core_recv_vec8_pv :: "(nat \<Rightarrow> vvp_vector8_t \<Rightarrow> 's \<Rightarrow> 'r option) \<Rightarrow> nat \<Rightarrow> vvp_vector8_t \<Rightarrow> nat \<Rightarrow> nat \<Rightarrow> 's \<Rightarrow> 'r option" where
  "core_recv_vec8_pv recv port b base vwid st =
     do {
       res \<leftarrow> set_loop set_bit8 0 (\<lambda>_. scalar_hiz) base (vector8_new vwid);
       res \<leftarrow> set_loop set_bit8 base (\<lambda>idx. val8 b ! idx) (min (size8 b) (vwid - base)) res;
       res \<leftarrow> set_loop set_bit8 (base + size8 b) (\<lambda>_. scalar_hiz) (vwid - (base + size8 b)) res;
       recv port res st }"

text \<open>\<open>resolv_extend\<close> passes its ports on to the core.\<close>

definition extend_recv :: "(nat \<Rightarrow> 'v \<Rightarrow> 's \<Rightarrow> 'r) \<Rightarrow> nat \<Rightarrow> nat \<Rightarrow> 'v \<Rightarrow> 's \<Rightarrow> 'r" where
  "extend_recv recv port_base port = recv (port_base + port)"

text \<open>The core that \<open>compile_resolver\<close> (compile.cc) makes for a type of net; an unknown type is an error.\<close>

datatype resolv_core = Core_tri resolv_tri | Core_wired resolv_wired_logic

definition compile_resolver :: "string \<Rightarrow> nat \<Rightarrow> resolv_core option" where
  "compile_resolver type argc =
     (if type = ''tri'' then do { h \<leftarrow> scalar_of BIT4_Z 0 0; Some (Core_tri (new_resolv_tri argc h)) }
      else if type = ''tri0'' then do { h \<leftarrow> scalar_of BIT4_0 5 5; Some (Core_tri (new_resolv_tri argc h)) }
      else if type = ''tri1'' then do { h \<leftarrow> scalar_of BIT4_1 5 5; Some (Core_tri (new_resolv_tri argc h)) }
      else if type = ''triand'' then Some (Core_wired (new_resolv_wired argc triand_bit))
      else if type = ''trior'' then Some (Core_wired (new_resolv_wired argc trior_bit))
      else None)"

text \<open>\<open>count_drivers\<close>: a vector of strengths asserts its index, a four-state vector reads X beyond its size.\<close>

definition tri_count_drivers :: "resolv_tri \<Rightarrow> nat \<Rightarrow> nat \<times> nat \<times> nat \<Rightarrow> (nat \<times> nat \<times> nat) option" where
  "tri_count_drivers st bit_idx counts =
     fold (\<lambda>idx c. do {
         counts \<leftarrow> c;
         if size8 (tri_val st ! idx) = 0 then Some counts
         else do { v \<leftarrow> value8 (tri_val st ! idx) bit_idx; Some (update_driver_counts (scalar_value v) counts) } })
       [0..<tri_nports st] (Some counts)"

definition wired_count_drivers :: "resolv_wired_logic \<Rightarrow> nat \<Rightarrow> nat \<times> nat \<times> nat \<Rightarrow> nat \<times> nat \<times> nat" where
  "wired_count_drivers st bit_idx counts =
     fold (\<lambda>idx counts.
         if size4 (wired_val st ! idx) = 0 then counts
         else update_driver_counts (value4 (wired_val st ! idx) bit_idx) counts)
       [0..<wired_nports st] counts"

section \<open>The nodes as resolvers\<close>

interpretation tri: resolver size8 eeq8 resolve8 bits8 wf8 resolve
  by unfold_locales (simp_all add: eeq8_iff resolve8_ok ex_simps(1) [symmetric] del: ex_simps, metis resolve8_ok)

lemma wired_logic_math_ok:
  assumes "size4 v = size4 w"
  shows "\<exists>u. wired_logic_math m v w = Some u \<and> wf4 u \<and> bits4 u = map2 m (bits4 v) (bits4 w)"
proof -
  obtain u where u: "wired_logic_math m v w = Some u" "wf4 u" "bits4 u = map (\<lambda>i. m (value4 v i) (value4 w i)) [0..<size4 v]"
    using v4.set_loop_ok [of "vector4_fill (size4 v) BIT4_X" 0 "size4 v" "\<lambda>i. m (value4 v i) (value4 w i)"] assms
    by (auto simp: wired_logic_math_def)
  moreover have "bits4 u = map2 m (bits4 v) (bits4 w)"
    unfolding u(3) using assms by (intro nth_equalityI) (simp_all add: bits4_def)
  ultimately show ?thesis by auto
qed

interpretation wired: resolver size4 eeq "wired_logic_math m" bits4 wf4 m for m
  by unfold_locales (simp_all add: eeq_iff wired_logic_math_ok)

text \<open>The pull value is resolved with every bit of the output.\<close>

definition pull :: "vvp_scalar_t \<Rightarrow> vvp_scalar_t list \<Rightarrow> vvp_scalar_t list" where
  "pull h bs = (if is_hiz h then bs else map (\<lambda>b. resolve b h) bs)"

lemma pull_pull: "UNAMBIG h \<Longrightarrow> pull h (pull h bs) = pull h bs"
  by (simp add: pull_def comp_def resolve_absorb)

lemma pull_Nil [simp]: "pull h [] = []"
  by (simp add: pull_def)

definition tri_rel :: "nat \<Rightarrow> nat \<Rightarrow> vvp_scalar_t \<Rightarrow> (nat \<Rightarrow> vvp_scalar_t list) \<Rightarrow> resolv_tri \<Rightarrow> bool" where
  "tri_rel w n h drv st \<longleftrightarrow> tri_nports st = n \<and> hiz_value st = h \<and> UNAMBIG h \<and> list_all (fits wf8 size8 w) (tri_val st) \<and>
     node_ok resolve (pull h) n drv (map bits8 (tri_val st))"

definition wired_rel :: "nat \<Rightarrow> nat \<Rightarrow> (vvp_bit4_t \<Rightarrow> vvp_bit4_t \<Rightarrow> vvp_bit4_t) \<Rightarrow> (nat \<Rightarrow> vvp_bit4_t list) \<Rightarrow> resolv_wired_logic \<Rightarrow> bool" where
  "wired_rel w n m drv st \<longleftrightarrow> wired_nports st = n \<and> wired_math st = m \<and> list_all (fits wf4 size4 w) (wired_val st) \<and>
     node_ok m id n drv (map bits4 (wired_val st))"

lemma list_all_update: "list_all P xs \<Longrightarrow> P x \<Longrightarrow> list_all P (xs[i := x])"
  by (auto simp: list_all_iff dest: subsetD [OF set_update_subset_insert])

lemma pull_loop:
  assumes "fits wf8 size8 w v"
  shows "\<exists>u. (if \<not> is_hiz h then set_loop set_bit8 0 (\<lambda>idx. resolve (val8 v ! idx) h) (size8 v) v else Some v) = Some u \<and>
    fits wf8 size8 w u \<and> bits8 u = pull h (bits8 v)"
proof (cases "is_hiz h")
  case False
  have v: "wf8 v" using assms by (simp add: fits_def)
  obtain u where u: "set_loop set_bit8 0 (\<lambda>idx. resolve (val8 v ! idx) h) (size8 v) v = Some u" "wf8 u" "size8 u = size8 v"
    "bits8 u = map (\<lambda>idx. resolve (val8 v ! idx) h) [0..<size8 v] @ drop (size8 v) (bits8 v)"
    using v8.set_loop_ok [OF v, of 0 "size8 v"] by auto
  have "bits8 u = map (\<lambda>b. resolve b h) (bits8 v)" unfolding u(4) using v by (intro nth_equalityI) (simp_all add: nth_bits8)
  then show ?thesis using u False assms by (auto simp: pull_def fits_def)
qed (use assms in \<open>simp add: pull_def\<close>)

lemma tri_step:
  assumes "tri_rel w n h drv st" "p < n" "wf8 v" "size8 v = w"
  shows "\<exists>st' r. tri_recv_vec8 p v st = Some (st', r) \<and> tri_rel w n h (drv(p := bits8 v)) st' \<and>
    (case r of None \<Rightarrow> node_out resolve (pull h) n (drv(p := bits8 v)) = node_out resolve (pull h) n drv
     | Some x \<Rightarrow> bits8 x = node_out resolve (pull h) n (drv(p := bits8 v)))"
proof -
  let ?B = "map bits8 (tri_val st)" and ?drv = "drv(p := bits8 v)" and ?out = "node_out resolve (pull h) n"
  have st: "tri_nports st = n" "hiz_value st = h" "UNAMBIG h" "list_all (fits wf8 size8 w) (tri_val st)"
    and node: "node_ok resolve (pull h) n drv ?B" using assms(1) by (auto simp: tri_rel_def)
  have len: "length (tri_val st) = nodes n" using node by (simp add: node_ok_def)
  then have p: "p < length (tri_val st)" using nodes_ge [of n] assms(2) by simp
  have eq: "eeq8 (tri_val st ! p) v \<longleftrightarrow> ?B ! p = bits8 v"
    using st(4) p assms(3) by (simp add: eeq8_iff fits_def list_all_length)
  note root = node_root [of resolve "pull h" n]
  have n: "0 < n" using assms(2) by simp
  show ?thesis
  proof (cases "eeq8 (tri_val st ! p) v")
    case True
    then have "node_ok resolve (pull h) n ?drv ?B" using node_same [OF node _ assms(2) pull_pull [OF st(3)]] eq by simp
    then show ?thesis using True assms st root [OF node n] root [of ?drv ?B] n by (auto simp: tri_recv_vec8_def tri_rel_def)
  next
    case False
    have fits: "list_all (fits wf8 size8 w) ((tri_val st)[p := v])" using st(4) assms(3,4) by (intro list_all_update) (simp_all add: fits_def)
    obtain val r where w: "walk_tree size8 eeq8 resolve8 ((tri_val st)[p := v]) 0 n p = Some (val, r)" "list_all (fits wf8 size8 w) val"
      "walk_bits resolve (?B[p := bits8 v]) 0 n p = (map bits8 val, r)"
      using tri.walk_tree_ok [OF fits, of 0 n p] len assms(2) by (auto simp: map_update)
    have nw: "case r of None \<Rightarrow> node_ok resolve (pull h) n ?drv (map bits8 val) \<and> map bits8 val ! (nodes n - 1) = ?B ! (nodes n - 1)
      | Some root \<Rightarrow> root = nodes n - 1 \<and> node_ok resolve (pull h) n ?drv ((map bits8 val)[root := pull h (map bits8 val ! root)])"
      by (rule node_walk [OF node assms(2) pull_pull [OF st(3)] w(3)])
    show ?thesis
    proof (cases r)
      case None
      then have "?out ?drv = ?out drv" using nw root [OF node n] root [of ?drv "map bits8 val"] n by simp
      then show ?thesis using None nw w(1,2) False assms(2) st by (auto simp: tri_recv_vec8_def tri_rel_def)
    next
      case (Some k)
      have lv: "length val = nodes n" using arg_cong [OF w(3), of "\<lambda>x. length (fst x)"] walk_bits_below [OF w(3)] len by simp
      then have k: "k < length val" using nw Some nodes_ge [of n] n by simp
      then obtain u where u: "(if \<not> is_hiz h then set_loop set_bit8 0 (\<lambda>idx. resolve (val8 (val ! k) ! idx) h) (size8 (val ! k)) (val ! k)
          else Some (val ! k)) = Some u" "fits wf8 size8 w u" "bits8 u = pull h (bits8 (val ! k))"
        using pull_loop [of w "val ! k" h] w(2) by (auto simp: list_all_length)
      have ok: "node_ok resolve (pull h) n ?drv (map bits8 (val[k := u]))" using nw Some k u(3) by (auto simp: map_update)
      have "bits8 u = ?out ?drv" using root [OF ok n] nw Some k by simp
      then show ?thesis using u ok w(1,2) Some False assms(2) st list_all_update [OF w(2) u(2), of k]
        by (auto simp: tri_recv_vec8_def tri_rel_def)
    qed
  qed
qed

lemma wired_step:
  assumes "wired_rel w n m drv st" "p < n" "wf4 v" "size4 v = w"
  shows "\<exists>st' r. wired_recv_vec4 p v st = Some (st', r) \<and> wired_rel w n m (drv(p := bits4 v)) st' \<and>
    (case r of None \<Rightarrow> node_out m id n (drv(p := bits4 v)) = node_out m id n drv
     | Some x \<Rightarrow> bits4 x = node_out m id n (drv(p := bits4 v)))"
proof -
  let ?B = "map bits4 (wired_val st)" and ?drv = "drv(p := bits4 v)" and ?out = "node_out m id n"
  have st: "wired_nports st = n" "wired_math st = m" "list_all (fits wf4 size4 w) (wired_val st)"
    and node: "node_ok m id n drv ?B" using assms(1) by (auto simp: wired_rel_def)
  have len: "length (wired_val st) = nodes n" using node by (simp add: node_ok_def)
  then have p: "p < length (wired_val st)" using nodes_ge [of n] assms(2) by simp
  have eq: "eeq (wired_val st ! p) v \<longleftrightarrow> ?B ! p = bits4 v" using p by (simp add: eeq_iff)
  note root = node_root [of m id n]
  have n: "0 < n" using assms(2) by simp
  show ?thesis
  proof (cases "eeq (wired_val st ! p) v")
    case True
    then have "node_ok m id n ?drv ?B" using node_same [OF node _ assms(2)] eq by simp
    then show ?thesis using True assms st root [OF node n] root [of ?drv ?B] n by (auto simp: wired_recv_vec4_def wired_rel_def)
  next
    case False
    have fits: "list_all (fits wf4 size4 w) ((wired_val st)[p := v])" using st(3) assms(3,4) by (intro list_all_update) (simp_all add: fits_def)
    obtain val r where w: "walk_tree size4 eeq (wired_logic_math m) ((wired_val st)[p := v]) 0 n p = Some (val, r)" "list_all (fits wf4 size4 w) val"
      "walk_bits m (?B[p := bits4 v]) 0 n p = (map bits4 val, r)"
      using wired.walk_tree_ok [OF fits, of 0 n p m] len assms(2) by (auto simp: map_update)
    have nw: "case r of None \<Rightarrow> node_ok m id n ?drv (map bits4 val) \<and> map bits4 val ! (nodes n - 1) = ?B ! (nodes n - 1)
      | Some root \<Rightarrow> root = nodes n - 1 \<and> node_ok m id n ?drv ((map bits4 val)[root := id (map bits4 val ! root)])"
      by (rule node_walk [OF node assms(2) _ w(3)]) simp
    have ok: "node_ok m id n ?drv (map bits4 val)" using nw by (cases r) auto
    have st': "wired_recv_vec4 p v st = Some (st\<lparr>wired_val := val\<rparr>, map_option ((!) val) r)"
      using w(1) False assms(2) st by (cases r) (simp_all add: wired_recv_vec4_def)
    have rel: "wired_rel w n m ?drv (st\<lparr>wired_val := val\<rparr>)" using ok st w(2) by (simp add: wired_rel_def)
    have lv: "length val = nodes n" using walk_bits_below [OF w(3)] len by simp
    show ?thesis
    proof (cases r)
      case None
      then show ?thesis using nw root [OF node n] root [OF ok n] st' rel by simp
    next
      case (Some k)
      then have "bits4 (val ! k) = ?out ?drv" using root [OF ok n] nw lv nodes_ge [of n] n by auto
      then show ?thesis using st' rel Some by simp
    qed
  qed
qed

lemma tri_new:
  assumes "UNAMBIG h"
  shows "tri_rel w n h (\<lambda>_. []) (new_resolv_tri n h)"
  using assms node_new [of "pull h" resolve n]
  by (simp add: tri_rel_def new_resolv_tri_def tree_nodes_eq fits_def list_all_length)

lemma wired_new: "wired_rel w n m (\<lambda>_. []) (new_resolv_wired n m)"
  using node_new [of id m n] by (simp add: wired_rel_def new_resolv_wired_def tree_nodes_eq fits_def list_all_length bits4_fill)

section \<open>All four ways into a node\<close>

lemma scalar_of_strong [simp]: "scalar_of b 6 6 = Some (if b = BIT4_Z then 0 else plain b 6)"
  by (simp add: scalar_of_plain)

definition strong :: "vvp_bit4_t \<Rightarrow> vvp_scalar_t" where
  "strong b = (if b = BIT4_Z then 0 else plain b 6)"

lemma vector8_of4_strong:
  "\<exists>u. vector8_of4 v 6 6 = Some u \<and> wf8 u \<and> size8 u = size4 v \<and> bits8 u = map strong (bits4 v)"
  using vector8_of_ok [of "size4 v" "value4 v" 6 6 "\<lambda>i. strong (value4 v i)"]
  by (simp add: vector8_of4_def strong_def bits4_def comp_def)

interpretation tri8: driven_node tri_recv_vec8 bits8 bits8 "\<lambda>p v. p < n \<and> wf8 v \<and> size8 v = w" "tri_rel w n h" "node_out resolve (pull h) n"
  for w n h
  by unfold_locales (use tri_step in blast)

interpretation tri4: driven_node tri_recv_vec4 "\<lambda>v. map strong (bits4 v)" bits8 "\<lambda>p v. p < n \<and> wf4 v \<and> size4 v = w" "tri_rel w n h"
  "node_out resolve (pull h) n" for w n h
proof unfold_locales
  fix drv st p v
  assume st: "tri_rel w n h drv st" and v: "p < n \<and> wf4 v \<and> size4 v = w"
  obtain u where u: "vector8_of4 v 6 6 = Some u" "wf8 u" "size8 u = size4 v" "bits8 u = map strong (bits4 v)"
    using vector8_of4_strong by blast
  show "\<exists>st' r. tri_recv_vec4 p v st = Some (st', r) \<and> tri_rel w n h (drv(p := map strong (bits4 v))) st' \<and>
    (case r of None \<Rightarrow> node_out resolve (pull h) n (drv(p := map strong (bits4 v))) = node_out resolve (pull h) n drv
     | Some x \<Rightarrow> bits8 x = node_out resolve (pull h) n (drv(p := map strong (bits4 v))))"
    using tri_step [OF st, of p u] v u(1,2,3) unfolding u(4) by (simp add: tri_recv_vec4_def)
qed

interpretation wired4: driven_node wired_recv_vec4 bits4 bits4 "\<lambda>p v. p < n \<and> wf4 v \<and> size4 v = w" "wired_rel w n m" "node_out m id n"
  for w n m
  by unfold_locales (use wired_step in blast)

interpretation wired8: driven_node wired_recv_vec8 "\<lambda>v. map scalar_value (bits8 v)" bits4 "\<lambda>p v. p < n \<and> wf8 v \<and> size8 v = w"
  "wired_rel w n m" "node_out m id n" for w n m
proof unfold_locales
  fix drv st p v
  assume st: "wired_rel w n m drv st" and v: "p < n \<and> wf8 v \<and> size8 v = w"
  then obtain u where u: "reduce4 v = Some u" "wf4 u" "size4 u = size8 v" "bits4 u = map scalar_value (bits8 v)"
    using reduce4_ok by blast
  show "\<exists>st' r. wired_recv_vec8 p v st = Some (st', r) \<and> wired_rel w n m (drv(p := map scalar_value (bits8 v))) st' \<and>
    (case r of None \<Rightarrow> node_out m id n (drv(p := map scalar_value (bits8 v))) = node_out m id n drv
     | Some x \<Rightarrow> bits4 x = node_out m id n (drv(p := map scalar_value (bits8 v))))"
    using wired_step [OF st, of p u] v u(1,2,3) unfolding u(4) by (simp add: wired_recv_vec8_def)
qed

end
