(* ===== verification/Vvp_ResolvSpec.thy ===== *)
theory Vvp_ResolvSpec
  imports Vvp_Resolv
begin

text \<open>
  What a resolver node computes, bit by bit: the strongest driver (\<open>resolv_tri\<close>), and the wired AND and OR of the driven values
  (\<open>resolv_triand\<close>, \<open>resolv_trior\<close>). On drivers of one strength and on four-state bits the operations are associative, so
  that the shape of the tree does not matter.
\<close>

section \<open>Bits of a resolution\<close>

definition same_width :: "nat \<Rightarrow> ('b \<Rightarrow> bool) \<Rightarrow> 'b list set" where
  "same_width w P = {xs. xs = [] \<or> length xs = w \<and> list_all P xs}"

lemma same_width_Nil [simp]: "[] \<in> same_width w P"
  by (simp add: same_width_def)

lemma join_same_width:
  assumes "\<And>a b. P a \<Longrightarrow> P b \<Longrightarrow> P (g a b)" "xs \<in> same_width w P" "ys \<in> same_width w P"
  shows "join g xs ys \<in> same_width w P"
  using assms by (auto simp: same_width_def join_def list_all_length)

lemma join_assoc:
  assumes "\<And>a b c. P a \<Longrightarrow> P b \<Longrightarrow> P c \<Longrightarrow> g (g a b) c = g a (g b c)"
    and "xs \<in> same_width w P" "ys \<in> same_width w P" "zs \<in> same_width w P"
  shows "join g (join g xs ys) zs = join g xs (join g ys zs)"
proof (cases "xs = [] \<or> ys = [] \<or> zs = []")
  case False
  then have "length xs = w" "length ys = w" "length zs = w" "list_all P xs" "list_all P ys" "list_all P zs" "0 < w"
    using assms(2-4) by (auto simp: same_width_def)
  then show ?thesis using False assms(1) by (auto simp: join_def list_all_length intro!: nth_equalityI)
qed (auto simp: join_def)

lemma join_all_nth:
  assumes "\<And>b. g e b = b" "set xs \<subseteq> same_width w P"
  shows "join_all g xs = (if filter (\<lambda>x. x \<noteq> []) xs = [] then []
    else map (\<lambda>i. foldl g e (map (\<lambda>x. x ! i) (filter (\<lambda>x. x \<noteq> []) xs))) [0..<w])"
  using assms(2)
proof (induction xs rule: rev_induct)
  case (snoc x xs)
  let ?ys = "filter (\<lambda>x. x \<noteq> []) xs"
  have ih: "join_all g xs = (if ?ys = [] then [] else map (\<lambda>i. foldl g e (map (\<lambda>x. x ! i) ?ys)) [0..<w])"
    using snoc by simp
  consider "x = []" | "x \<noteq> []" "?ys = []" | "x \<noteq> []" "?ys \<noteq> []" by blast
  then show ?case
  proof cases
    case 1
    then show ?thesis using ih by simp
  next
    case 2
    then have x: "length x = w" using snoc.prems by (auto simp: same_width_def)
    have "join_all g (xs @ [x]) = x" using ih 2 by simp
    also have "x = map (\<lambda>i. g e (x ! i)) [0..<w]" using x assms(1) by (simp add: map_nth flip: x)
    finally show ?thesis using 2 by simp
  next
    case 3
    then have x: "length x = w" using snoc.prems by (auto simp: same_width_def)
    have "join_all g (xs @ [x]) = join g (map (\<lambda>i. foldl g e (map (\<lambda>x. x ! i) ?ys)) [0..<w]) x" using ih 3 by simp
    also have "\<dots> = map2 g (map (\<lambda>i. foldl g e (map (\<lambda>x. x ! i) ?ys)) [0..<w]) x" using x 3 by (auto simp: join_def)
    finally show ?thesis using 3 x by (auto intro!: nth_equalityI)
  qed
qed simp

text \<open>The output of a node in these terms.\<close>

lemma node_out_nth:
  assumes "\<And>b. g e b = b" "\<And>a b. P a \<Longrightarrow> P b \<Longrightarrow> P (g a b)" "\<And>a b c. P a \<Longrightarrow> P b \<Longrightarrow> P c \<Longrightarrow> g (g a b) c = g a (g b c)"
    and "\<And>p. p < n \<Longrightarrow> drv p \<in> same_width w P" "q < n" "drv q \<noteq> []"
  shows "node_out g R n drv = R (map (\<lambda>i. foldl g e (map (\<lambda>p. drv p ! i) (filter (\<lambda>p. drv p \<noteq> []) [0..<n]))) [0..<w])"
proof -
  have sub: "set (map drv [0..<n]) \<subseteq> same_width w P" using assms(4) by auto
  have "tree_eval g (map drv [0..<n]) = join_all g (map drv [0..<n])"
    using join_assoc [of P g] join_same_width [of P g] assms(2,3) sub
    by (intro tree_eval_assoc [where A = "same_width w P"]) (blast | simp)+
  moreover have "filter (\<lambda>x. x \<noteq> []) (map drv [0..<n]) \<noteq> []" using assms(5,6) by (auto simp: filter_empty_conv)
  ultimately show ?thesis using join_all_nth [of g e, OF assms(1) sub]
    by (simp add: node_out_def filter_map comp_def)
qed

lemma join_all_Nil_iff: "join_all g xs = [] \<longleftrightarrow> (\<forall>x \<in> set xs. x = [])"
  by (induction xs rule: rev_induct) (auto simp: join_def zip_eq_Nil_iff)

lemma tree_eval_Nil_iff: "tree_eval g xs = [] \<longleftrightarrow> (\<forall>x \<in> set xs. x = [])"
proof (induction xs rule: length_induct)
  case (1 xs)
  show ?case
  proof (cases "length xs > 1")
    case True
    let ?n = "length xs" and ?p = "(length xs + 3) div 4"
    have "tree_eval g xs = [] \<longleftrightarrow> (\<forall>k < ?p. tree_group g xs 0 ?n k = [])"
      using 1 True by (subst tree_eval.simps) auto
    also have "\<dots> \<longleftrightarrow> (\<forall>k < ?p. \<forall>i \<in> {4 * k..<min (4 * k + 4) ?n}. xs ! i = [])"
      by (simp add: tree_group_def join_all_Nil_iff)
    also have "\<dots> \<longleftrightarrow> (\<forall>i < ?n. xs ! i = [])"
    proof (intro iffI allI impI)
      fix i assume a: "\<forall>k < ?p. \<forall>i \<in> {4 * k..<min (4 * k + 4) ?n}. xs ! i = []" and i: "i < ?n"
      have "i div 4 < ?p" using i by linarith
      moreover have "i \<in> {4 * (i div 4)..<min (4 * (i div 4) + 4) ?n}" using i by auto
      ultimately show "xs ! i = []" using a by blast
    qed auto
    finally show ?thesis by (simp add: all_set_conv_all_nth)
  qed (simp add: tree_eval.simps join_all_Nil_iff)
qed

section \<open>Strengths\<close>

text \<open>The value and the strength of a driver.\<close>

definition drive :: "vvp_scalar_t \<Rightarrow> vvp_bit4_t \<times> nat" where
  "drive a = (if is_hiz a then BIT4_0 else scalar_value a, strength0 a)"

lemma drive_plain:
  assumes "plain_scalar a"
  shows "driver (drive a)" "case_prod plain (drive a) = a"
proof -
  obtain b s where a: "b \<noteq> BIT4_Z" "s < 8" "a = plain b s" using assms by (auto simp: plain_scalar_def driver_def)
  then show "driver (drive a)" "case_prod plain (drive a) = a"
    by (cases "s = 0"; auto simp: drive_def driver_def plain_value strength0_def is_hiz_parts plain_parts)+
qed

lemma plain_scalar_hiz: "plain_scalar a \<Longrightarrow> is_hiz a \<longleftrightarrow> a = 0"
  by (auto simp: plain_scalar_def driver_def is_hiz_parts plain_parts) (metis neq0_conv plain_0 plain_parts(2))

lemma plain_scalar_plain: "b \<noteq> BIT4_Z \<Longrightarrow> s < 8 \<Longrightarrow> plain_scalar (plain b s)"
  unfolding plain_scalar_def by (rule exI [of _ "(b, s)"]) (simp add: driver_def)

lemma foldl_resolve:
  assumes "plain_scalar a" "list_all plain_scalar xs"
  shows "foldl resolve a xs = resolve a (foldr resolve xs 0) \<and> plain_scalar (foldr resolve xs 0)"
  using assms
proof (induction xs arbitrary: a)
  case Nil
  then show ?case by (simp add: plain_scalar_hiz)
next
  case (Cons x xs)
  then show ?case by (simp add: resolve_plain_scalar resolve_assoc)
qed

lemma foldl_strongest:
  assumes "list_all plain_scalar xs"
  shows "foldl resolve 0 xs = strongest (map drive xs)"
proof -
  have "map (case_prod plain) (map drive xs) = xs" "list_all driver (map drive xs)"
    using assms drive_plain by (auto simp: list_all_iff comp_def intro: map_idI)
  then show ?thesis using resolve_strongest [of "map drive xs"] foldl_resolve [OF plain_scalar_0 assms] by simp
qed

lemma pull_foldl:
  assumes "h \<in> {0, plain BIT4_0 5, plain BIT4_1 5}" "list_all plain_scalar xs"
  shows "(if is_hiz h then foldl resolve 0 xs else resolve (foldl resolve 0 xs) h) = strongest (map drive (xs @ [h]))"
proof -
  have h: "plain_scalar h" using assms(1) by (auto simp: plain_scalar_plain)
  have "strongest (map drive (xs @ [h])) = foldl resolve 0 (xs @ [h])" using assms(2) h by (intro foldl_strongest [symmetric]) simp
  moreover have "plain_scalar (foldl resolve 0 xs)" using foldl_resolve [OF plain_scalar_0 assms(2)] by simp
  ultimately show ?thesis using h by (auto simp: plain_scalar_hiz)
qed

section \<open>Wired logic\<close>

definition wired_and :: "vvp_bit4_t list \<Rightarrow> vvp_bit4_t" where
  "wired_and vs = (let ds = filter (\<lambda>v. v \<noteq> BIT4_Z) vs in if ds = [] then BIT4_Z else if BIT4_0 \<in> set ds then BIT4_0
     else if BIT4_X \<in> set ds then BIT4_X else BIT4_1)"

definition wired_or :: "vvp_bit4_t list \<Rightarrow> vvp_bit4_t" where
  "wired_or vs = (let ds = filter (\<lambda>v. v \<noteq> BIT4_Z) vs in if ds = [] then BIT4_Z else if BIT4_1 \<in> set ds then BIT4_1
     else if BIT4_X \<in> set ds then BIT4_X else BIT4_0)"

lemma wired_ops:
  "triand_bit BIT4_Z b = b" "trior_bit BIT4_Z b = b"
  "triand_bit (triand_bit a b) c = triand_bit a (triand_bit b c)" "trior_bit (trior_bit a b) c = trior_bit a (trior_bit b c)"
  by (cases a; cases b; cases c; simp add: triand_bit_def trior_bit_def)+

lemma foldl_wired: "foldl triand_bit BIT4_Z vs = wired_and vs" "foldl trior_bit BIT4_Z vs = wired_or vs"
proof -
  show "foldl triand_bit BIT4_Z vs = wired_and vs"
  proof (induction vs rule: rev_induct)
    case (snoc v vs)
    then show ?case by (cases v) (auto simp: wired_and_def Let_def triand_bit_def filter_empty_conv)
  qed (simp add: wired_and_def)
  show "foldl trior_bit BIT4_Z vs = wired_or vs"
  proof (induction vs rule: rev_induct)
    case (snoc v vs)
    then show ?case by (cases v) (auto simp: wired_or_def Let_def trior_bit_def filter_empty_conv)
  qed (simp add: wired_or_def)
qed

section \<open>The drivers of a sequence\<close>

text \<open>A property of the values that arrive holds of the drivers, and a port that has received a value is driven.\<close>

lemma drivers_induct:
  assumes "P []" "\<And>p. P (drv p)" "list_all (\<lambda>(p, v). P (bits v)) ops"
  shows "P (drivers bits ops drv p)"
  using assms(2,3) by (induction ops arbitrary: drv) auto

lemma drivers_driven:
  assumes "list_all (\<lambda>(p, v). bits v \<noteq> []) ops" "p \<in> fst ` set ops \<or> drv p \<noteq> []"
  shows "drivers bits ops drv p \<noteq> []"
  using assms
proof (induction ops arbitrary: drv)
  case (Cons x ops)
  obtain q v where x: "x = (q, v)" by (cases x)
  have "p \<in> fst ` set ops \<or> (drv(q := bits v)) p \<noteq> []" "list_all (\<lambda>(p, v). bits v \<noteq> []) ops" using Cons.prems x by auto
  then have "drivers bits ops (drv(q := bits v)) p \<noteq> []" using Cons.IH by blast
  then show ?case using x by (simp only: drivers_simps) simp
qed simp

lemma drivers_undriven:
  assumes "p \<notin> fst ` set ops"
  shows "drivers bits ops drv p = drv p"
  using assms by (induction ops arbitrary: drv) auto

text \<open>A node that has received values has sent its output.\<close>

lemma sent_output:
  assumes "last (node_out g R n (\<lambda>_. []) # xs) = node_out g R n drv" "\<And>bs. R bs = [] \<longleftrightarrow> bs = []" "p < n" "drv p \<noteq> []"
  shows "xs \<noteq> [] \<and> last xs = node_out g R n drv"
proof -
  have "node_out g R n (\<lambda>_. []) = []" unfolding node_out_def assms(2) tree_eval_Nil_iff by simp
  moreover have "node_out g R n drv \<noteq> []" unfolding node_out_def assms(2) tree_eval_Nil_iff using assms(3,4) by auto
  ultimately show ?thesis using assms(1) by (metis last.simps)
qed

lemma ops_driven:
  assumes "list_all (\<lambda>(p, v). p < n \<and> bits v \<noteq> []) ops" "ops \<noteq> []"
  shows "\<exists>p < n. drivers bits ops (\<lambda>_. []) p \<noteq> []"
proof -
  obtain p v where pv: "(p, v) \<in> set ops" using assms(2) by (cases ops) auto
  have "list_all (\<lambda>(p, v). bits v \<noteq> []) ops" using assms(1) by (auto simp: list_all_iff)
  then have "drivers bits ops (\<lambda>_. []) p \<noteq> []" using pv by (intro drivers_driven) force+
  moreover have "p < n" using pv assms(1) by (auto simp: list_all_iff)
  ultimately show ?thesis by blast
qed

lemma bits8_Nil: "wf8 v \<Longrightarrow> bits8 v = [] \<longleftrightarrow> size8 v = 0"
  by (metis length_0_conv length_bits8)

text \<open>What the nodes have sent after a sequence of values.\<close>

lemma tri_run:
  assumes "0 < w" "UNAMBIG h" "list_all (\<lambda>(p, v). p < n \<and> wf8 v \<and> size8 v = w) ops" "ops \<noteq> []"
  shows "\<exists>st outs. run_recv tri_recv_vec8 ops (new_resolv_tri n h) = Some (st, outs) \<and> tri_rel w n h (drivers bits8 ops (\<lambda>_. [])) st \<and>
    outs \<noteq> [] \<and> bits8 (last outs) = node_out resolve (pull h) n (drivers bits8 ops (\<lambda>_. []))"
proof -
  obtain st outs where run: "run_recv tri_recv_vec8 ops (new_resolv_tri n h) = Some (st, outs)" "tri_rel w n h (drivers bits8 ops (\<lambda>_. [])) st"
    "last (node_out resolve (pull h) n (\<lambda>_. []) # map bits8 outs) = node_out resolve (pull h) n (drivers bits8 ops (\<lambda>_. []))"
    using tri8.run_ok [OF tri_new [OF assms(2), of w n], of ops] assms(3) by auto
  have "list_all (\<lambda>(p, v). p < n \<and> bits8 v \<noteq> []) ops" using assms(1,3) by (auto simp: list_all_iff bits8_Nil)
  then obtain p where "p < n" "drivers bits8 ops (\<lambda>_. []) p \<noteq> []" using ops_driven assms(4) by blast
  moreover have "pull h bs = [] \<longleftrightarrow> bs = []" for bs by (simp add: pull_def)
  ultimately have "map bits8 outs \<noteq> [] \<and> last (map bits8 outs) = node_out resolve (pull h) n (drivers bits8 ops (\<lambda>_. []))"
    using sent_output [OF run(3)] by blast
  then show ?thesis using run(1,2) by (auto simp: last_map)
qed

lemma wired_run:
  assumes "0 < w" "list_all (\<lambda>(p, v). p < n \<and> wf4 v \<and> size4 v = w) ops" "ops \<noteq> []"
  shows "\<exists>st outs. run_recv wired_recv_vec4 ops (new_resolv_wired n m) = Some (st, outs) \<and> outs \<noteq> [] \<and>
    bits4 (last outs) = node_out m id n (drivers bits4 ops (\<lambda>_. []))"
proof -
  obtain st outs where run: "run_recv wired_recv_vec4 ops (new_resolv_wired n m) = Some (st, outs)"
    "last (node_out m id n (\<lambda>_. []) # map bits4 outs) = node_out m id n (drivers bits4 ops (\<lambda>_. []))"
    using wired4.run_ok [OF wired_new [of w n m], of ops] assms(2) by auto
  have "list_all (\<lambda>(p, v). p < n \<and> bits4 v \<noteq> []) ops" using assms(1,2) by (auto simp: list_all_iff simp flip: length_greater_0_conv)
  then obtain p where "p < n" "drivers bits4 ops (\<lambda>_. []) p \<noteq> []" using ops_driven assms(3) by blast
  then have "map bits4 outs \<noteq> [] \<and> last (map bits4 outs) = node_out m id n (drivers bits4 ops (\<lambda>_. []))"
    using sent_output [OF run(2)] by auto
  then show ?thesis using run(1) by (auto simp: last_map)
qed

text \<open>The bits of the outputs.\<close>

lemma drivers_width:
  assumes "list_all (\<lambda>(p, v). length (bits v) = w \<and> list_all P (bits v)) ops"
  shows "drivers bits ops (\<lambda>_. []) p \<in> same_width w P"
proof (rule drivers_induct [where P = "\<lambda>bs. bs \<in> same_width w P"])
  show "list_all (\<lambda>(p, v). bits v \<in> same_width w P) ops" using assms by (auto simp: list_all_iff same_width_def)
qed simp_all

lemma tri_bits:
  assumes "h \<in> {0, plain BIT4_0 5, plain BIT4_1 5}" "\<And>p. p < n \<Longrightarrow> drv p \<in> same_width w plain_scalar" "q < n" "drv q \<noteq> []"
  shows "node_out resolve (pull h) n drv =
    map (\<lambda>i. strongest (map (\<lambda>p. drive (drv p ! i)) (filter (\<lambda>p. drv p \<noteq> []) [0..<n]) @ [drive h])) [0..<w]"
proof -
  let ?ps = "filter (\<lambda>p. drv p \<noteq> []) [0..<n]"
  have "node_out resolve (pull h) n drv = pull h (map (\<lambda>i. foldl resolve 0 (map (\<lambda>p. drv p ! i) ?ps)) [0..<w])"
    using assms(2-4) by (intro node_out_nth [where P = plain_scalar]) (simp_all add: resolve_plain_scalar resolve_assoc)
  also have "\<dots> = map (\<lambda>i. if is_hiz h then foldl resolve 0 (map (\<lambda>p. drv p ! i) ?ps)
      else resolve (foldl resolve 0 (map (\<lambda>p. drv p ! i) ?ps)) h) [0..<w]" by (simp add: pull_def)
  also have "\<dots> = map (\<lambda>i. strongest (map drive (map (\<lambda>p. drv p ! i) ?ps @ [h]))) [0..<w]"
  proof (rule map_cong [OF refl])
    fix i assume "i \<in> set [0..<w]"
    then have "plain_scalar (drv p ! i)" if "p < n" "drv p \<noteq> []" for p
      using assms(2) [OF that(1)] that(2) by (auto simp: same_width_def list_all_length)
    then have "list_all plain_scalar (map (\<lambda>p. drv p ! i) ?ps)" by (auto simp: list_all_iff)
    then show "(if is_hiz h then foldl resolve 0 (map (\<lambda>p. drv p ! i) ?ps) else resolve (foldl resolve 0 (map (\<lambda>p. drv p ! i) ?ps)) h)
      = strongest (map drive (map (\<lambda>p. drv p ! i) ?ps @ [h]))" by (rule pull_foldl [OF assms(1)])
  qed
  finally show ?thesis by (simp add: comp_def)
qed

lemma wired_bits:
  assumes "\<And>p. p < n \<Longrightarrow> drv p \<in> same_width w (\<lambda>_. True)" "q < n" "drv q \<noteq> []"
  shows "node_out triand_bit id n drv = map (\<lambda>i. wired_and (map (\<lambda>p. drv p ! i) (filter (\<lambda>p. drv p \<noteq> []) [0..<n]))) [0..<w]"
    "node_out trior_bit id n drv = map (\<lambda>i. wired_or (map (\<lambda>p. drv p ! i) (filter (\<lambda>p. drv p \<noteq> []) [0..<n]))) [0..<w]"
  using node_out_nth [of triand_bit BIT4_Z "\<lambda>_. True" n drv w q id] node_out_nth [of trior_bit BIT4_Z "\<lambda>_. True" n drv w q id] assms
  by (simp_all add: wired_ops foldl_wired)

section \<open>Counting drivers\<close>

lemma update_driver_counts_run:
  "fold (\<lambda>b c. update_driver_counts b c) bs (c0, c1, c2) =
     (c0 + count_list bs BIT4_0, c1 + count_list bs BIT4_1, c2 + count_list bs BIT4_X)"
  by (induction bs arbitrary: c0 c1 c2) (auto simp: update_driver_counts_def split: vvp_bit4_t.splits)

lemma tri_count_run:
  assumes "\<And>p. p \<in> set ps \<Longrightarrow> size8 (tri_val st ! p) \<noteq> 0 \<Longrightarrow> i < size8 (tri_val st ! p)"
  shows "fold (\<lambda>idx c. do { counts \<leftarrow> c; if size8 (tri_val st ! idx) = 0 then Some counts
      else do { v \<leftarrow> value8 (tri_val st ! idx) i; Some (update_driver_counts (scalar_value v) counts) } }) ps (Some counts)
    = Some (fold update_driver_counts (map (\<lambda>p. scalar_value (bits8 (tri_val st ! p) ! i)) (filter (\<lambda>p. size8 (tri_val st ! p) \<noteq> 0) ps)) counts)"
  using assms
proof (induction ps arbitrary: counts)
  case (Cons p ps)
  then show ?case by (cases "size8 (tri_val st ! p) = 0") (simp_all add: value8_def nth_bits8)
qed simp

lemma tri_count:
  assumes "tri_rel w n h drv st" "i < w"
  shows "tri_count_drivers st i (0, 0, 0) = (let vs = map (\<lambda>p. scalar_value ((if n = 1 then pull h (drv p) else drv p) ! i)) (filter (\<lambda>p. drv p \<noteq> []) [0..<n])
    in Some (count_list vs BIT4_0, count_list vs BIT4_1, count_list vs BIT4_X))"
proof -
  have st: "tri_nports st = n" "list_all (fits wf8 size8 w) (tri_val st)" and node: "node_ok resolve (pull h) n drv (map bits8 (tri_val st))"
    using assms(1) by (auto simp: tri_rel_def)
  have len: "length (tri_val st) = nodes n" using node by (simp add: node_ok_def)
  then have p: "p < length (tri_val st)" if "p < n" for p using nodes_ge [of n] that by simp
  then have fit: "wf8 (tri_val st ! p)" "size8 (tri_val st ! p) = 0 \<or> size8 (tri_val st ! p) = w" if "p < n" for p
    using st(2) that by (auto simp: list_all_length fits_def)
  have leaf: "bits8 (tri_val st ! p) = (if n = 1 then pull h (drv p) else drv p)" if "p < n" for p
    using node that unfolding node_ok_def nth_map [OF p [OF that], symmetric] by blast
  have "size8 (tri_val st ! p) = 0 \<longleftrightarrow> drv p = []" if "p < n" for p
    using bits8_Nil [OF fit(1) [OF that]] leaf [OF that] by (auto simp: pull_def split: if_splits)
  then have eq: "map (\<lambda>p. scalar_value (bits8 (tri_val st ! p) ! i)) (filter (\<lambda>p. size8 (tri_val st ! p) \<noteq> 0) [0..<n])
      = map (\<lambda>p. scalar_value ((if n = 1 then pull h (drv p) else drv p) ! i)) (filter (\<lambda>p. drv p \<noteq> []) [0..<n])"
    using leaf by (intro map_cong filter_cong) auto
  have "i < size8 (tri_val st ! p)" if "p \<in> set [0..<n]" "size8 (tri_val st ! p) \<noteq> 0" for p
    using fit(2) [of p] that assms(2) by auto
  then have "tri_count_drivers st i (0, 0, 0) = Some (fold update_driver_counts (map (\<lambda>p. scalar_value (bits8 (tri_val st ! p) ! i))
      (filter (\<lambda>p. size8 (tri_val st ! p) \<noteq> 0) [0..<n])) (0, 0, 0))"
    unfolding tri_count_drivers_def st(1) by (rule tri_count_run)
  then show ?thesis unfolding eq update_driver_counts_run by (simp add: Let_def)
qed

section \<open>Parts of a vector\<close>

lemma core_recv_vec8_pv_ok:
  assumes "wf8 b" "base + size8 b \<le> vwid"
  shows "\<exists>u. core_recv_vec8_pv recv port b base vwid st = recv port u st \<and> wf8 u \<and> size8 u = vwid \<and>
    bits8 u = replicate base 0 @ bits8 b @ replicate (vwid - (base + size8 b)) 0"
proof -
  obtain u1 where u1: "set_loop set_bit8 0 (\<lambda>_. scalar_hiz) base (vector8_new vwid) = Some u1" "wf8 u1" "size8 u1 = vwid"
    "bits8 u1 = replicate vwid 0"
    using v8.set_loop_ok [of "vector8_new vwid" 0 base "\<lambda>_. scalar_hiz"] assms(2)
    by (auto simp: scalar_hiz_def map_replicate_const simp flip: replicate_add)
  obtain u2 where u2: "set_loop set_bit8 base (\<lambda>idx. val8 b ! idx) (size8 b) u1 = Some u2" "wf8 u2" "size8 u2 = vwid"
    "bits8 u2 = replicate base 0 @ bits8 b @ replicate (vwid - (base + size8 b)) 0"
    using v8.set_loop_ok [OF u1(2), of base "size8 b" "\<lambda>idx. val8 b ! idx"] assms u1(3,4) map_val8 [OF assms(1)] by auto
  obtain u3 where u3: "set_loop set_bit8 (base + size8 b) (\<lambda>_. scalar_hiz) (vwid - (base + size8 b)) u2 = Some u3" "wf8 u3" "size8 u3 = vwid"
    "bits8 u3 = replicate base 0 @ bits8 b @ replicate (vwid - (base + size8 b)) 0"
    using v8.set_loop_ok [OF u2(2), of "base + size8 b" "vwid - (base + size8 b)" "\<lambda>_. scalar_hiz"] assms u2(3,4)
    by (auto simp: scalar_hiz_def map_replicate_const)
  have "min (size8 b) (vwid - base) = size8 b" using assms(2) by simp
  then show ?thesis using u1(1) u2(1) u3 by (auto simp: core_recv_vec8_pv_def)
qed

lemma core_recv_vec4_pv_ok:
  assumes "base + size4 b \<le> vwid"
  shows "\<exists>u. core_recv_vec4_pv recv port b base vwid st = recv port u st \<and> wf4 u \<and> size4 u = vwid \<and>
    bits4 u = replicate base BIT4_Z @ bits4 b @ replicate (vwid - (base + size4 b)) BIT4_Z"
proof -
  obtain u1 where u1: "set_loop set_bit4 0 (\<lambda>_. BIT4_Z) base (vector4_fill vwid BIT4_X) = Some u1" "wf4 u1" "size4 u1 = vwid"
    "bits4 u1 = replicate base BIT4_Z @ replicate (vwid - base) BIT4_X"
    using v4.set_loop_ok [of "vector4_fill vwid BIT4_X" 0 base "\<lambda>_. BIT4_Z"] assms by (auto simp: bits4_fill map_replicate_const)
  obtain u2 where u2: "set_loop set_bit4 base (value4 b) (size4 b) u1 = Some u2" "wf4 u2" "size4 u2 = vwid"
    "bits4 u2 = replicate base BIT4_Z @ bits4 b @ replicate (vwid - (base + size4 b)) BIT4_X"
    using v4.set_loop_ok [OF u1(2), of base "size4 b" "value4 b"] assms u1(3,4) by (auto simp: bits4_def [of b])
  obtain u3 where u3: "set_loop set_bit4 (base + size4 b) (\<lambda>_. BIT4_Z) (vwid - (base + size4 b)) u2 = Some u3" "wf4 u3" "size4 u3 = vwid"
    "bits4 u3 = replicate base BIT4_Z @ bits4 b @ replicate (vwid - (base + size4 b)) BIT4_Z"
    using v4.set_loop_ok [OF u2(2), of "base + size4 b" "vwid - (base + size4 b)" "\<lambda>_. BIT4_Z"] assms u2(3,4)
    by (auto simp: map_replicate_const)
  have "min (size4 b) (vwid - base) = size4 b" using assms by simp
  then show ?thesis using u1(1) u2(1) u3 by (auto simp: core_recv_vec4_pv_def)
qed

end
