(* ===== verification/Vvp_Switch.thy ===== *)
theory Vvp_Switch
  imports Vvp_Vector8 Vvp_Blit
begin

text \<open>
  The tri-state buffers and the MOS switches (vvp/bufif.cc, vvp/npmos.cc), and the drive strength functor and the default
  methods of \<open>vvp_net_fun_t\<close> that they use (vvp/vvp_net.cc). A method that a value arrives at returns the state and the
  vector that is sent, if any. The lemmas give the truth tables, and a CMOS switch as an NMOS and a PMOS switch in
  parallel.
\<close>

section \<open>Default methods\<close>

text \<open>\<open>for (idx = 0; idx < out.size(); idx += 1) out.set_bit(idx, f(idx))\<close> with scalars that assert their strengths.\<close>

definition scalar_loop :: "nat \<Rightarrow> (nat \<Rightarrow> vvp_scalar_t option) \<Rightarrow> vvp_vector8_t option" where
  "scalar_loop n f =
     do { bytes \<leftarrow> those (map f [0..<n]); set_loop set_bit8 0 (\<lambda>idx. bytes ! idx) n (vector8_new n) }"

definition fun_recv_vec4_pv :: "(nat \<Rightarrow> vvp_vector4_t \<Rightarrow> 's \<Rightarrow> 'r option) \<Rightarrow> nat \<Rightarrow> vvp_vector4_t \<Rightarrow> nat \<Rightarrow> nat \<Rightarrow> 's \<Rightarrow> 'r option" where
  "fun_recv_vec4_pv recv_vec4 p b base vwid st =
     (if base + size4 b \<le> vwid
      then do { (tmp, flag) \<leftarrow> set_vec (vector4_fill vwid BIT4_Z) base b; recv_vec4 p tmp st }
      else None)"

definition fun_recv_vec8_pv :: "(nat \<Rightarrow> vvp_vector8_t \<Rightarrow> 's \<Rightarrow> 'r option) \<Rightarrow> nat \<Rightarrow> vvp_vector8_t \<Rightarrow> nat \<Rightarrow> nat \<Rightarrow> 's \<Rightarrow> 'r option" where
  "fun_recv_vec8_pv recv_vec8 p b base vwid st =
     (if base + size8 b \<le> vwid
      then do { tmp \<leftarrow> set_vec8 (vector8_new vwid) base b; recv_vec8 p tmp st }
      else None)"

definition fun_recv_vec8 :: "(nat \<Rightarrow> vvp_vector4_t \<Rightarrow> 's \<Rightarrow> 'r option) \<Rightarrow> nat \<Rightarrow> vvp_vector8_t \<Rightarrow> 's \<Rightarrow> 'r option" where
  "fun_recv_vec8 recv_vec4 port b st = do { b4 \<leftarrow> reduce4 b; recv_vec4 port b4 st }"

text \<open>\<open>vvp_fun_drive\<close> has no state but its strengths.\<close>

definition fun_drive_recv_vec4 :: "nat \<Rightarrow> vvp_vector4_t \<Rightarrow> nat \<times> nat \<Rightarrow> ((nat \<times> nat) \<times> vvp_vector8_t option) option" where
  "fun_drive_recv_vec4 port b st =
     (if port = 0 then do { b8 \<leftarrow> vector8_of4 b (fst st) (snd st); Some (st, Some b8) } else None)"

section \<open>Tri-state buffers\<close>

record vvp_fun_bufif =
  buf_bit :: vvp_vector4_t
  buf_en :: vvp_vector4_t
  buf_pol :: bool
  buf_inv :: bool
  buf_drive0 :: nat
  buf_drive1 :: nat

definition new_bufif :: "bool \<Rightarrow> bool \<Rightarrow> nat \<Rightarrow> nat \<Rightarrow> vvp_fun_bufif" where
  "new_bufif en_invert out_invert str0 str1 =
     \<lparr>buf_bit = vector4_fill 0 BIT4_X, buf_en = vector4_fill 0 BIT4_X, buf_pol = en_invert, buf_inv = out_invert,
      buf_drive0 = str0 mod 256, buf_drive1 = str1 mod 256\<rparr>"

definition bufif_scalar :: "nat \<Rightarrow> nat \<Rightarrow> vvp_bit4_t \<Rightarrow> vvp_bit4_t \<Rightarrow> vvp_scalar_t option" where
  "bufif_scalar drive0 drive1 b_en b_bit =
     (case b_en of
        BIT4_0 \<Rightarrow> scalar_of BIT4_Z drive0 drive1
      | BIT4_1 \<Rightarrow> (if bit4_is_xz b_bit then scalar_of BIT4_X drive0 drive1 else scalar_of b_bit drive0 drive1)
      | _ \<Rightarrow> (case b_bit of
                BIT4_0 \<Rightarrow> scalar_of BIT4_X drive0 0
              | BIT4_1 \<Rightarrow> scalar_of BIT4_X 0 drive1
              | _ \<Rightarrow> scalar_of BIT4_X drive0 drive1))"

definition bufif_output :: "nat \<Rightarrow> vvp_fun_bufif \<Rightarrow> vvp_vector8_t option" where
  "bufif_output n st =
     scalar_loop n (\<lambda>idx. bufif_scalar (buf_drive0 st) (buf_drive1 st) (value4 (buf_en st) idx) (value4 (buf_bit st) idx))"

definition bufif_recv_vec4 :: "nat \<Rightarrow> vvp_vector4_t \<Rightarrow> vvp_fun_bufif \<Rightarrow> (vvp_fun_bufif \<times> vvp_vector8_t option) option" where
  "bufif_recv_vec4 port b st =
     (if port > 1 then Some (st, None)
      else let st = (if port = 0 then st\<lparr>buf_bit := if buf_inv st then copy_inverted_from b else b\<rparr>
                     else st\<lparr>buf_en := if buf_pol st then copy_inverted_from b else b\<rparr>)
           in do { out \<leftarrow> bufif_output (size4 b) st; Some (st, Some out) })"

section \<open>MOS switches\<close>

definition map_strengths :: "bool \<Rightarrow> vvp_scalar_t \<Rightarrow> vvp_scalar_t option" where
  "map_strengths resistive b =
     scalar_of (scalar_value b) (vvp_switch_strength_map resistive (strength0 b)) (vvp_switch_strength_map resistive (strength1 b))"

text \<open>The value with an unknown control: L for 0, H for 1.\<close>

definition half_open :: "vvp_scalar_t \<Rightarrow> vvp_scalar_t option" where
  "half_open b =
     (case scalar_value b of
        BIT4_0 \<Rightarrow> scalar_of BIT4_X (strength0 b) 0
      | BIT4_1 \<Rightarrow> scalar_of BIT4_X 0 (strength1 b)
      | _ \<Rightarrow> Some b)"

definition pmos_scalar :: "bool \<Rightarrow> vvp_bit4_t \<Rightarrow> vvp_scalar_t \<Rightarrow> vvp_scalar_t option" where
  "pmos_scalar resistive b_en b_bit =
     do { b_bit \<leftarrow> map_strengths resistive b_bit;
          case b_en of BIT4_0 \<Rightarrow> Some b_bit | BIT4_1 \<Rightarrow> scalar_of BIT4_Z 0 0 | _ \<Rightarrow> half_open b_bit }"

definition cmos_scalar :: "bool \<Rightarrow> vvp_bit4_t \<Rightarrow> vvp_bit4_t \<Rightarrow> vvp_scalar_t \<Rightarrow> vvp_scalar_t option" where
  "cmos_scalar resistive b_n_en b_p_en b_bit =
     do { b_bit \<leftarrow> map_strengths resistive b_bit;
          if b_n_en = BIT4_1 \<or> b_p_en = BIT4_0 then Some b_bit
          else if b_n_en = BIT4_0 \<and> b_p_en = BIT4_1 then scalar_of BIT4_Z 0 0
          else half_open b_bit }"

record vvp_fun_pmos =
  pmos_bit :: vvp_vector8_t
  pmos_en :: vvp_vector4_t
  pmos_inv_en :: bool
  pmos_resistive :: bool

definition new_pmos :: "bool \<Rightarrow> bool \<Rightarrow> vvp_fun_pmos" where
  "new_pmos enable_invert resistive =
     \<lparr>pmos_bit = vector8_new 0, pmos_en = vector4_fill 0 BIT4_X, pmos_inv_en = enable_invert, pmos_resistive = resistive\<rparr>"

definition send_output :: "vvp_vector8_t \<Rightarrow> vvp_vector8_t option" where
  "send_output out = (if size8 out > 0 then Some out else None)"

definition pmos_generate_output :: "vvp_fun_pmos \<Rightarrow> (vvp_fun_pmos \<times> vvp_vector8_t option) option" where
  "pmos_generate_output st =
     do { out \<leftarrow> scalar_loop (size8 (pmos_bit st)) (\<lambda>idx. pmos_scalar (pmos_resistive st) (value4 (pmos_en st) idx) (val8 (pmos_bit st) ! idx));
          Some (st, send_output out) }"

text \<open>Port 0 is the data and port 1 the control; the methods pass a value of the other kind on to each other.\<close>

definition pmos_set_data :: "vvp_vector8_t \<Rightarrow> vvp_fun_pmos \<Rightarrow> (vvp_fun_pmos \<times> vvp_vector8_t option) option" where
  "pmos_set_data b st = pmos_generate_output (st\<lparr>pmos_bit := b\<rparr>)"

definition pmos_set_enable :: "vvp_vector4_t \<Rightarrow> vvp_fun_pmos \<Rightarrow> (vvp_fun_pmos \<times> vvp_vector8_t option) option" where
  "pmos_set_enable b st = pmos_generate_output (st\<lparr>pmos_en := if pmos_inv_en st then copy_inverted_from b else b\<rparr>)"

definition pmos_recv_vec4 :: "nat \<Rightarrow> vvp_vector4_t \<Rightarrow> vvp_fun_pmos \<Rightarrow> (vvp_fun_pmos \<times> vvp_vector8_t option) option" where
  "pmos_recv_vec4 port b st =
     (if port = 0 then do { tmp \<leftarrow> vector8_of4 b 6 6; pmos_set_data tmp st }
      else if port \<noteq> 1 then Some (st, None)
      else pmos_set_enable b st)"

definition pmos_recv_vec8 :: "nat \<Rightarrow> vvp_vector8_t \<Rightarrow> vvp_fun_pmos \<Rightarrow> (vvp_fun_pmos \<times> vvp_vector8_t option) option" where
  "pmos_recv_vec8 port b st =
     (if port = 1 then do { b4 \<leftarrow> reduce4 b; pmos_recv_vec4 port b4 st }
      else if port \<noteq> 0 then Some (st, None)
      else pmos_set_data b st)"

record vvp_fun_cmos =
  cmos_bit :: vvp_vector8_t
  n_en :: vvp_vector4_t
  p_en :: vvp_vector4_t
  cmos_resistive :: bool

definition new_cmos :: "bool \<Rightarrow> vvp_fun_cmos" where
  "new_cmos resistive =
     \<lparr>cmos_bit = vector8_new 0, n_en = vector4_fill 0 BIT4_X, p_en = vector4_fill 0 BIT4_X, cmos_resistive = resistive\<rparr>"

definition cmos_generate_output :: "vvp_fun_cmos \<Rightarrow> (vvp_fun_cmos \<times> vvp_vector8_t option) option" where
  "cmos_generate_output st =
     do { out \<leftarrow> scalar_loop (size8 (cmos_bit st)) (\<lambda>idx. cmos_scalar (cmos_resistive st) (value4 (n_en st) idx) (value4 (p_en st) idx)
                   (val8 (cmos_bit st) ! idx));
          Some (st, send_output out) }"

definition cmos_set_data :: "vvp_vector8_t \<Rightarrow> vvp_fun_cmos \<Rightarrow> (vvp_fun_cmos \<times> vvp_vector8_t option) option" where
  "cmos_set_data b st = cmos_generate_output (st\<lparr>cmos_bit := b\<rparr>)"

definition cmos_recv_vec4 :: "nat \<Rightarrow> vvp_vector4_t \<Rightarrow> vvp_fun_cmos \<Rightarrow> (vvp_fun_cmos \<times> vvp_vector8_t option) option" where
  "cmos_recv_vec4 port b st =
     (if port = 0 then do { tmp \<leftarrow> vector8_of4 b 6 6; cmos_set_data tmp st }
      else if port \<noteq> 1 \<and> port \<noteq> 2 then Some (st, None)
      else cmos_generate_output (if port = 1 then st\<lparr>n_en := b\<rparr> else st\<lparr>p_en := b\<rparr>))"

text \<open>\<open>vvp_fun_cmos::recv_vec8\<close> and \<open>vvp_fun_rcmos::recv_vec8\<close>; the latter does not pass on port 2.\<close>

definition cmos_recv_vec8 :: "nat \<Rightarrow> vvp_vector8_t \<Rightarrow> vvp_fun_cmos \<Rightarrow> (vvp_fun_cmos \<times> vvp_vector8_t option) option" where
  "cmos_recv_vec8 port b st =
     (if port = 1 \<or> port = 2 then do { b4 \<leftarrow> reduce4 b; cmos_recv_vec4 port b4 st }
      else if port \<noteq> 0 then Some (st, None)
      else cmos_set_data b st)"

definition rcmos_recv_vec8 :: "nat \<Rightarrow> vvp_vector8_t \<Rightarrow> vvp_fun_cmos \<Rightarrow> (vvp_fun_cmos \<times> vvp_vector8_t option) option" where
  "rcmos_recv_vec8 port b st =
     (if port = 1 then do { b4 \<leftarrow> reduce4 b; cmos_recv_vec4 port b4 st }
      else if port \<noteq> 0 then Some (st, None)
      else cmos_set_data b st)"

section \<open>Single bits\<close>

lemma scalar_loop_ok:
  assumes "\<And>i. i < n \<Longrightarrow> f i = Some (h i)"
  shows "\<exists>u. scalar_loop n f = Some u \<and> wf8 u \<and> size8 u = n \<and> bits8 u = map h [0..<n]"
proof -
  have "those (map f [0..<n]) = Some (map h [0..<n])" using assms by (intro those_Some) simp
  moreover obtain u where "set_loop set_bit8 0 (\<lambda>i. map h [0..<n] ! i) n (vector8_new n) = Some u" "wf8 u" "size8 u = n"
    "bits8 u = map (\<lambda>i. map h [0..<n] ! i) [0..<n]"
    using v8.set_loop_ok [of "vector8_new n" 0 n "\<lambda>i. map h [0..<n] ! i"] by auto
  moreover have "map (\<lambda>i. map h [0..<n] ! i) [0..<n] = map h [0..<n]" by simp
  ultimately show ?thesis by (simp add: scalar_loop_def)
qed

lemma switch_strength_bounds:
  assumes "s < 8"
  shows "vvp_switch_strength_map r s \<le> 7" "vvp_switch_strength_map r s \<le> s" "vvp_switch_strength_map r s = 0 \<longleftrightarrow> s = 0"
proof -
  have "s \<in> {0, 1, 2, 3, 4, 5, 6, 7}" using assms by auto
  then show "vvp_switch_strength_map r s \<le> 7" "vvp_switch_strength_map r s \<le> s" "vvp_switch_strength_map r s = 0 \<longleftrightarrow> s = 0"
    by (auto simp: vvp_switch_strength_map_def)
qed

text \<open>L and H: the range from the driven strength to high impedance.\<close>

definition scalar_L :: "nat \<Rightarrow> vvp_scalar_t" where "scalar_L s = (if s = 0 then 0 else mk_scalar True 0 False s)"
definition scalar_H :: "nat \<Rightarrow> vvp_scalar_t" where "scalar_H s = (if s = 0 then 0 else mk_scalar True s False 0)"

lemma map_strengths_plain:
  assumes "s < 8" "b \<noteq> BIT4_Z"
  shows "map_strengths r (plain b s) = Some (plain b (vvp_switch_strength_map r s))"
proof (cases "s = 0")
  case True
  have "scalar_value 0 = BIT4_Z" "strength0 0 = 0" "strength1 0 = 0"
    by (simp_all add: scalar_value_def strength0_def strength1_def)
  then show ?thesis using True switch_strength_bounds(3) [of 0 r] by (simp add: map_strengths_def scalar_of_def)
next
  case False
  then show ?thesis using assms switch_strength_bounds(1) [OF assms(1), of r]
    by (simp add: map_strengths_def plain_value strength0_def strength1_def plain_parts scalar_of_plain)
qed

lemma half_open_plain:
  assumes "s < 8"
  shows "half_open (plain BIT4_0 s) = Some (scalar_L s)" "half_open (plain BIT4_1 s) = Some (scalar_H s)"
    "half_open (plain BIT4_X s) = Some (plain BIT4_X s)"
  using assms scalar_value_parts [of 0] by (cases "s = 0"; simp add: half_open_def plain_value scalar_L_def scalar_H_def strength0_def strength1_def
      plain_parts scalar_of_mk)+

lemma half_open_0 [simp]: "half_open 0 = Some 0"
  by (simp add: half_open_def scalar_value_def)

lemma resolve_half:
  assumes "0 < s" "s < 8"
  shows "resolve (scalar_L s) (plain BIT4_0 s) = plain BIT4_0 s" "resolve (plain BIT4_0 s) (scalar_L s) = plain BIT4_0 s"
    "resolve (scalar_H s) (plain BIT4_1 s) = plain BIT4_1 s" "resolve (plain BIT4_1 s) (scalar_H s) = plain BIT4_1 s"
proof -
  have L: "STREN1 (scalar_L s) = 0" "STREN0 (scalar_L s) = s" "bitV1 (scalar_L s)" "\<not> bitV0 (scalar_L s)"
    and H: "STREN1 (scalar_H s) = s" "STREN0 (scalar_H s) = 0" "bitV1 (scalar_H s)" "\<not> bitV0 (scalar_H s)"
    using assms by (simp_all add: scalar_L_def scalar_H_def mk_parts)
  have "sweep (plain BIT4_0 s) (scalar_L s) = plain BIT4_0 s" "sweep (plain BIT4_1 s) (scalar_H s) = plain BIT4_1 s"
    using assms L H by (auto intro!: scalar_eqI simp: sweep_parts plain_parts)
  then show "resolve (scalar_L s) (plain BIT4_0 s) = plain BIT4_0 s" "resolve (plain BIT4_0 s) (scalar_L s) = plain BIT4_0 s"
    "resolve (scalar_H s) (plain BIT4_1 s) = plain BIT4_1 s" "resolve (plain BIT4_1 s) (scalar_H s) = plain BIT4_1 s"
    using assms L H by (auto simp: resolve_def fully_featured_resolv_def is_hiz_parts UNAMBIG_parts plain_parts)
qed

text \<open>The values that drivers and resolution make: a value 1 or 0 has a strength on its side.\<close>

definition proper :: "vvp_scalar_t \<Rightarrow> bool" where
  "proper b \<longleftrightarrow> (scalar_value b = BIT4_0 \<longrightarrow> strength0 b \<noteq> 0) \<and> (scalar_value b = BIT4_1 \<longrightarrow> strength1 b \<noteq> 0)"

lemma map_strengths_proper:
  assumes "proper b"
  obtains "map_strengths r b = Some 0" | s where "0 < s" "s < 8" "map_strengths r b = Some (plain BIT4_0 s)"
    | s where "0 < s" "s < 8" "map_strengths r b = Some (plain BIT4_1 s)"
    | c where "map_strengths r b = Some c" "\<not> is_hiz c" "scalar_value c = BIT4_X"
proof -
  let ?m = "vvp_switch_strength_map r"
  have m: "?m (strength0 b) \<le> 7" "?m (strength1 b) \<le> 7" "?m (strength0 b) = 0 \<longleftrightarrow> strength0 b = 0" "?m (strength1 b) = 0 \<longleftrightarrow> strength1 b = 0"
    using switch_strength_bounds STREN_less [of b] by (simp_all add: strength0_def strength1_def)
  then have m8: "?m (strength0 b) < 8" "?m (strength1 b) < 8" by simp_all
  show thesis
  proof (cases "scalar_value b")
    case BIT4_0
    then have "0 < ?m (strength0 b)" using assms m(3) by (simp add: proper_def)
    then show thesis using that(2) [of "?m (strength0 b)"] BIT4_0 m m8 by (simp add: map_strengths_def scalar_of_mk plain_def)
  next
    case BIT4_1
    then have "0 < ?m (strength1 b)" using assms m(4) by (simp add: proper_def)
    then show thesis using that(3) [of "?m (strength1 b)"] BIT4_1 m m8 by (simp add: map_strengths_def scalar_of_mk plain_def)
  next
    case BIT4_X
    then have ne: "\<not> (strength0 b = 0 \<and> strength1 b = 0)" by (auto simp: scalar_value_parts strength0_def strength1_def split: if_splits)
    let ?c = "mk_scalar True (?m (strength1 b)) False (?m (strength0 b))"
    have "map_strengths r b = Some ?c" using BIT4_X m ne by (auto simp: map_strengths_def scalar_of_mk)
    moreover have "\<not> is_hiz ?c" "scalar_value ?c = BIT4_X" using m8 m(3,4) ne by (auto simp: is_hiz_parts scalar_value_parts mk_parts)
    ultimately show thesis by (rule that(4))
  next
    case BIT4_Z
    then show thesis using that(1) m by (simp add: map_strengths_def scalar_of_mk)
  qed
qed

lemma cmos_parallel:
  assumes "proper b"
  shows "cmos_scalar r n p b = do { x \<leftarrow> pmos_scalar r (bit4_not n) b; y \<leftarrow> pmos_scalar r p b; Some (resolve x y) }"
proof -
  have z: "scalar_of BIT4_Z 0 0 = Some 0" by (simp add: scalar_of_def)
  have nb: "bit4_not BIT4_0 = BIT4_1" "bit4_not BIT4_1 = BIT4_0" "bit4_not BIT4_X = BIT4_X" "bit4_not BIT4_Z = BIT4_X"
    by (simp_all add: bit4_not_def vvp_bit4_z2x_def bit4_cast_def drop_bit_Suc)
  note defs = cmos_scalar_def pmos_scalar_def z nb
  have half: "0 < s \<Longrightarrow> \<not> is_hiz (scalar_L s)" "0 < s \<Longrightarrow> \<not> is_hiz (scalar_H s)" "0 < s \<Longrightarrow> \<not> is_hiz (plain c s)" if "s < 8" for s c
    using that by (simp_all add: is_hiz_parts scalar_L_def scalar_H_def mk_parts plain_parts)
  show ?thesis
  proof (rule map_strengths_proper [OF assms, of r])
    assume "map_strengths r b = Some 0"
    then show ?thesis by (cases n; cases p) (simp_all add: defs)
  next
    fix s assume "0 < s" "s < 8" "map_strengths r b = Some (plain BIT4_0 s)"
    then show ?thesis by (cases n; cases p) (simp_all add: defs half_open_plain resolve_half half)
  next
    fix s assume "0 < s" "s < 8" "map_strengths r b = Some (plain BIT4_1 s)"
    then show ?thesis by (cases n; cases p) (simp_all add: defs half_open_plain resolve_half half)
  next
    fix c assume "map_strengths r b = Some c" "\<not> is_hiz c" "scalar_value c = BIT4_X"
    moreover from this have "half_open c = Some c" by (simp add: half_open_def)
    ultimately show ?thesis by (cases n; cases p) (simp_all add: defs)
  qed
qed

section \<open>Vectors\<close>

lemma cmos_scalar_defined: "\<exists>x. cmos_scalar r n p b = Some x"
proof -
  have d: "\<exists>x. scalar_of c s0 s1 = Some x" if "s0 \<le> 7" "s1 \<le> 7" for c s0 s1 using that by (simp add: scalar_of_def)
  have s: "strength0 x \<le> 7" "strength1 x \<le> 7" for x using STREN_less [of x] unfolding strength0_def strength1_def by linarith+
  have "\<exists>x. map_strengths r b = Some x"
    unfolding map_strengths_def by (intro d switch_strength_bounds(1)) (simp_all add: strength0_def strength1_def)
  moreover have "\<exists>y. half_open x = Some y" for x
    using d s by (auto simp: half_open_def split: vvp_bit4_t.split)
  ultimately show ?thesis using d [of 0 0 BIT4_Z] by (auto simp: cmos_scalar_def)
qed

lemma cmos_generate_ok:
  assumes "wf8 (cmos_bit st)" "0 < size8 (cmos_bit st)"
  shows "\<exists>u. cmos_generate_output st = Some (st, Some u) \<and> wf8 u \<and> bits8 u =
    map (\<lambda>i. the (cmos_scalar (cmos_resistive st) (value4 (n_en st) i) (value4 (p_en st) i) (bits8 (cmos_bit st) ! i))) [0..<size8 (cmos_bit st)]"
proof -
  let ?f = "\<lambda>i. cmos_scalar (cmos_resistive st) (value4 (n_en st) i) (value4 (p_en st) i) (val8 (cmos_bit st) ! i)"
  have "?f i = Some (the (?f i))" for i using cmos_scalar_defined by (metis option.sel)
  then obtain u where u: "scalar_loop (size8 (cmos_bit st)) ?f = Some u" "wf8 u" "size8 u = size8 (cmos_bit st)"
    "bits8 u = map (\<lambda>i. the (?f i)) [0..<size8 (cmos_bit st)]"
    using scalar_loop_ok [of "size8 (cmos_bit st)" ?f "\<lambda>i. the (?f i)"] by blast
  then show ?thesis using assms(2) by (simp add: cmos_generate_output_def send_output_def nth_bits8)
qed

lemma cmos_generate_empty: "size8 (cmos_bit st) = 0 \<Longrightarrow> cmos_generate_output st = Some (st, None)"
  by (simp add: cmos_generate_output_def scalar_loop_def send_output_def)

end
