(* ===== verification/Strength_Props.thy ===== *)
theory Strength_Props
  imports Vvp_ResolvSpec Vvp_Switch
begin

text \<open>
  The properties of the strength values, of their vectors, of the resolver nodes and of the switches, with an instance on
  concrete values where a property has hypotheses.
\<close>

section \<open>Strengths\<close>

text \<open>
  Resolution of any number of drivers, each with a value and one strength, picks the strongest: the result has the
  greatest strength, and the value on which the drivers of this strength agree, or X. For all values, ambiguous ones
  too, resolution of two drivers does not depend on their order.
\<close>

theorem resolve_correct:
  assumes "list_all driver ds"
  shows "foldr resolve (map (case_prod plain) ds) 0 = strongest ds \<and> (\<forall>a b. \<not> (is_hiz a \<and> is_hiz b) \<longrightarrow> resolve a b = resolve b a)"
  using resolve_strongest [OF assms] resolve_commute by blast

theorem resolve_correct_witness:
  "foldr resolve [plain BIT4_1 5, plain BIT4_0 6, plain BIT4_1 6] 0 = strongest [(BIT4_1, 5), (BIT4_0, 6), (BIT4_1, 6)]"
  using resolve_correct [of "[(BIT4_1, 5), (BIT4_0, 6), (BIT4_1, 6)]"] by (simp add: driver_def)

text \<open>
  C35. The operations of strength vectors on their bits: \<open>eeq\<close>, which compares the bytes of a short vector as one
  pointer, decides the equality of the bits; a four-state vector that gets strengths is read back by \<open>reduce4\<close>; the
  printed form of a vector is read back by \<open>c8string_to_vector8\<close>.
\<close>

theorem vector8_roundtrip:
  assumes "wf8 u" "wf8 u'" "list_all built (bits8 u)" "wf4 v" "0 < str0" "str0 \<le> 7" "0 < str1" "str1 \<le> 7"
  shows "(eeq8 u u' \<longleftrightarrow> bits8 u = bits8 u') \<and>
    (\<exists>x y. vector8_of4 v str0 str1 = Some x \<and> wf8 x \<and> reduce4 x = Some y \<and> wf4 y \<and> bits4 y = bits4 v) \<and>
    (\<exists>x. c8string_to_vector8 (print8 u) = Some x \<and> wf8 x \<and> bits8 x = bits8 u)"
proof -
  let ?s = "\<lambda>i. the (scalar_of (value4 v i) str0 str1)"
  have sc: "scalar_of b str0 str1 = Some (the (scalar_of b str0 str1))" for b using assms(6,8) by (simp add: scalar_of_mk)
  obtain x where x: "vector8_of4 v str0 str1 = Some x" "wf8 x" "size8 x = size4 v" "bits8 x = map ?s [0..<size4 v]"
    using vector8_of_ok [of "size4 v" "value4 v" str0 str1 ?s, OF sc] by (auto simp: vector8_of4_def)
  obtain y where y: "reduce4 x = Some y" "wf4 y" "bits4 y = map scalar_value (bits8 x)" using reduce4_ok [OF x(2)] by blast
  have "scalar_value (the (scalar_of b str0 str1)) = b" for b
    using assms(5-8) scalar_value_parts [of 0] by (cases b) (simp_all add: scalar_of_mk scalar_value_parts mk_parts)
  then have "bits4 y = bits4 v" unfolding y(3) x(4) by (simp add: bits4_def [of v] comp_def)
  then show ?thesis using x y c8string_print [OF assms(1,3)] eeq8_iff [OF assms(1,2)] by blast
qed

theorem vector8_roundtrip_witness:
  "\<exists>x y. vector8_of4 (vector4_fill 70 BIT4_X) 3 5 = Some x \<and> reduce4 x = Some y \<and> bits4 y = replicate 70 BIT4_X"
  using vector8_roundtrip [of "vector8_new 0" "vector8_new 0" "vector4_fill 70 BIT4_X" 3 5] by (auto simp: bits4_fill)

section \<open>Resolver nodes\<close>

text \<open>
  C9. A resolver node recomputes only the branches of its tree above the input that has changed, and stops at the first
  that keeps its value. This loses nothing: after any sequence of values at its ports, of any strengths, the value that the
  node has sent last is that of the whole tree computed from the last values of all ports, resolved with the pull
  value.
\<close>

theorem resolver_incremental:
  assumes "0 < w" "UNAMBIG h" "list_all (\<lambda>(p, v). p < n \<and> wf8 v \<and> size8 v = w) ops" "ops \<noteq> []"
  shows "\<exists>st outs. run_recv tri_recv_vec8 ops (new_resolv_tri n h) = Some (st, outs) \<and> outs \<noteq> [] \<and>
    bits8 (last outs) = pull h (tree_eval resolve (map (drivers bits8 ops (\<lambda>_. [])) [0..<n]))"
  using tri_run [OF assms] by (auto simp: node_out_def)

theorem resolver_incremental_witness:
  "\<exists>st outs. run_recv tri_recv_vec8 [(5, vector8_new 2), (0, vector8_new 2)] (new_resolv_tri 6 (plain BIT4_1 5)) = Some (st, outs) \<and>
     outs \<noteq> []"
  using resolver_incremental [of 2 "plain BIT4_1 5" 6 "[(5, vector8_new 2), (0, vector8_new 2)]"] by (auto simp: UNAMBIG_parts plain_parts)

text \<open>
  C8. A resolver node (tri, tri0 and tri1 nets) sends on every bit the strongest of the driven values and the pull value, when
  every driver has one strength: after any sequence of values at its ports, the last value it has sent is that of the
  last values of the ports that have received one.
\<close>

theorem resolver_strongest:
  assumes "0 < w" "h \<in> {0, plain BIT4_0 5, plain BIT4_1 5}" "ops \<noteq> []"
    and "list_all (\<lambda>(p, v). p < n \<and> wf8 v \<and> size8 v = w \<and> list_all plain_scalar (bits8 v)) ops"
  shows "\<exists>st outs. run_recv tri_recv_vec8 ops (new_resolv_tri n h) = Some (st, outs) \<and> outs \<noteq> [] \<and>
    (let drv = drivers bits8 ops (\<lambda>_. []) in bits8 (last outs) =
      map (\<lambda>i. strongest (map (\<lambda>p. drive (drv p ! i)) (filter (\<lambda>p. drv p \<noteq> []) [0..<n]) @ [drive h])) [0..<w])"
proof -
  have h: "UNAMBIG h" using assms(2) by (auto simp: UNAMBIG_parts plain_parts)
  have ops: "list_all (\<lambda>(p, v). p < n \<and> wf8 v \<and> size8 v = w) ops" "list_all (\<lambda>(p, v). p < n \<and> bits8 v \<noteq> []) ops"
    "list_all (\<lambda>(p, v). length (bits8 v) = w \<and> list_all plain_scalar (bits8 v)) ops"
    using assms(1,4) by (auto simp: list_all_iff [of _ ops] bits8_Nil)
  obtain q where "q < n" "drivers bits8 ops (\<lambda>_. []) q \<noteq> []" using ops_driven [OF ops(2) assms(3)] by blast
  then show ?thesis using tri_run [OF assms(1) h ops(1) assms(3)] tri_bits [OF assms(2) drivers_width [OF ops(3)]]
    by (auto simp: Let_def)
qed

theorem resolver_strongest_witness:
  "\<exists>st outs. run_recv tri_recv_vec8 [(1, vector8_new 3)] (new_resolv_tri 2 (plain BIT4_1 5)) = Some (st, outs) \<and> outs \<noteq> [] \<and>
     bits8 (last outs) = replicate 3 (plain BIT4_1 5)"
proof -
  have "strongest [drive 0, drive (plain BIT4_1 5)] = plain BIT4_1 5"
    by (simp add: strongest_def drive_def is_hiz_parts plain_parts strength0_def plain_value)
  then show ?thesis using resolver_strongest [of 3 "plain BIT4_1 5" "[(1, vector8_new 3)]" 2]
    by (auto simp: Let_def eval_nat_numeral)
qed

text \<open>
  The nodes of triand and trior nets send on every bit the wired AND and the wired OR of the driven values, where Z does not
  drive: after any sequence of values at the ports, the last value sent is that of the last values of the ports.
\<close>

theorem wired_resolver_correct:
  assumes "0 < w" "ops \<noteq> []" "list_all (\<lambda>(p, v). p < n \<and> wf4 v \<and> size4 v = w) ops"
  defines "drv \<equiv> drivers bits4 ops (\<lambda>_. [])" and "driven \<equiv> filter (\<lambda>p. drivers bits4 ops (\<lambda>_. []) p \<noteq> []) [0..<n]"
  shows "(\<exists>st outs. run_recv wired_recv_vec4 ops (new_resolv_wired n triand_bit) = Some (st, outs) \<and> outs \<noteq> [] \<and>
      bits4 (last outs) = map (\<lambda>i. wired_and (map (\<lambda>p. drv p ! i) driven)) [0..<w]) \<and>
    (\<exists>st outs. run_recv wired_recv_vec4 ops (new_resolv_wired n trior_bit) = Some (st, outs) \<and> outs \<noteq> [] \<and>
      bits4 (last outs) = map (\<lambda>i. wired_or (map (\<lambda>p. drv p ! i) driven)) [0..<w])"
proof -
  have ops: "list_all (\<lambda>(p, v). p < n \<and> bits4 v \<noteq> []) ops" "list_all (\<lambda>(p, v). length (bits4 v) = w \<and> list_all (\<lambda>_. True) (bits4 v)) ops"
    using assms(1,3) by (auto simp: list_all_iff simp flip: length_greater_0_conv)
  obtain q where q: "q < n" "drv q \<noteq> []" using ops_driven [OF ops(1) assms(2)] by (auto simp: drv_def)
  have "drv p \<in> same_width w (\<lambda>_. True)" for p using drivers_width [OF ops(2)] by (simp add: drv_def)
  note bits = wired_bits [of n drv w q, OF this q]
  show ?thesis
    using wired_run [OF assms(1,3,2), of triand_bit] wired_run [OF assms(1,3,2), of trior_bit] bits
    by (simp add: drv_def driven_def)
qed

theorem wired_resolver_correct_witness:
  "\<exists>st outs. run_recv wired_recv_vec4 [(0, vector4_fill 1 BIT4_1), (4, vector4_fill 1 BIT4_0)] (new_resolv_wired 5 triand_bit) = Some (st, outs) \<and>
     outs \<noteq> [] \<and> bits4 (last outs) = [BIT4_0]"
  using wired_resolver_correct [of 1 "[(0, vector4_fill 1 BIT4_1), (4, vector4_fill 1 BIT4_0)]" 5]
  by (simp add: bits4_fill wired_and_def eval_nat_numeral)

text \<open>
  \<open>count_drivers\<close> counts, for a bit of a net with two or more ports, the ports whose last value drives 0, 1 and X. A node with
  one port keeps the pulled output in place of the value of the port, so that the pull of a tri0 or tri1 net is counted
  as a driver.
\<close>

theorem count_drivers_correct:
  assumes "0 < w" "UNAMBIG h" "list_all (\<lambda>(p, v). p < n \<and> wf8 v \<and> size8 v = w) ops" "ops \<noteq> []" "i < w"
  defines "drv \<equiv> drivers bits8 ops (\<lambda>_. [])"
  shows "\<exists>st outs. run_recv tri_recv_vec8 ops (new_resolv_tri n h) = Some (st, outs) \<and>
    tri_count_drivers st i (0, 0, 0) = (let driven = filter (\<lambda>p. drv p \<noteq> []) [0..<n];
        vs = map (\<lambda>p. scalar_value ((if n = 1 then pull h (drv p) else drv p) ! i)) driven
      in Some (count_list vs BIT4_0, count_list vs BIT4_1, count_list vs BIT4_X))"
  using tri_run [OF assms(1-4)] tri_count [OF _ assms(5)] unfolding drv_def Let_def by blast

theorem count_drivers_correct_witness:
  "\<exists>st outs. run_recv tri_recv_vec8 [(0, vector8_new 1)] (new_resolv_tri 1 (plain BIT4_1 5)) = Some (st, outs) \<and>
     tri_count_drivers st 0 (0, 0, 0) = Some (0, 1, 0)"
  using count_drivers_correct [of 1 "plain BIT4_1 5" 1 "[(0, vector8_new 1)]" 0]
  by (simp add: UNAMBIG_parts plain_parts pull_def is_hiz_parts plain_value)

section \<open>Switches\<close>

text \<open>
  The MOS switches on data of one strength: with the control that opens it, a switch passes the value with the
  strength that the table of strengths gives, which is never greater and never 0; with the control that closes it, it
  gives Z; with an unknown control, L for a 0 and H for a 1. On every value that drivers and resolution make, a CMOS
  switch is an NMOS and a PMOS switch in parallel.
\<close>

theorem switch_truth_table:
  fixes r :: bool
  assumes "0 < s" "s < 8" "proper b"
  defines "s' \<equiv> vvp_switch_strength_map r s"
  shows "0 < s' \<and> s' \<le> s \<and>
    (\<forall>c \<in> {BIT4_0, BIT4_1, BIT4_X}. pmos_scalar r BIT4_0 (plain c s) = Some (plain c s') \<and> pmos_scalar r BIT4_1 (plain c s) = Some 0) \<and>
    (\<forall>x \<in> {BIT4_X, BIT4_Z}. pmos_scalar r x (plain BIT4_0 s) = Some (scalar_L s') \<and> pmos_scalar r x (plain BIT4_1 s) = Some (scalar_H s') \<and>
      pmos_scalar r x (plain BIT4_X s) = Some (plain BIT4_X s')) \<and>
    cmos_scalar r n p b = do { x \<leftarrow> pmos_scalar r (bit4_not n) b; y \<leftarrow> pmos_scalar r p b; Some (resolve x y) }"
proof -
  have s': "s' \<le> s" "s' = 0 \<longleftrightarrow> s = 0" "s' < 8" using switch_strength_bounds [OF assms(2), of r] assms(2) by (simp_all add: s'_def)
  have z: "scalar_of BIT4_Z 0 0 = Some 0" by (simp add: scalar_of_def)
  show ?thesis using assms(1,2) s' cmos_parallel [OF assms(3)]
    by (auto simp: pmos_scalar_def map_strengths_plain half_open_plain z s'_def)
qed

theorem switch_truth_table_witness:
  "pmos_scalar True BIT4_0 (plain BIT4_1 6) = Some (plain BIT4_1 5)"
  using switch_truth_table [of 6 0 True BIT4_0 BIT4_0]
  by (simp add: proper_def scalar_value_def vvp_switch_strength_map_def)

text \<open>
  A CMOS switch whose controls and data arrive as strength vectors gives on every bit the value for the controls and the
  data of that bit. The resistive switch ignores the control of its P half in this form, as if it were unknown.
\<close>

theorem cmos_inputs_correct:
  assumes "wf8 nc" "wf8 pc" "wf8 d" "size8 nc = w" "size8 pc = w" "size8 d = w" "0 < w"
  shows "(\<exists>st u. run_recv cmos_recv_vec8 [(1, nc), (2, pc), (0, d)] (new_cmos r) = Some (st, [u]) \<and> wf8 u \<and>
      bits8 u = map (\<lambda>i. the (cmos_scalar r (scalar_value (bits8 nc ! i)) (scalar_value (bits8 pc ! i)) (bits8 d ! i))) [0..<w]) \<and>
    (\<exists>st u. run_recv rcmos_recv_vec8 [(1, nc), (2, pc), (0, d)] (new_cmos r) = Some (st, [u]) \<and> wf8 u \<and>
      bits8 u = map (\<lambda>i. the (cmos_scalar r (scalar_value (bits8 nc ! i)) BIT4_X (bits8 d ! i))) [0..<w])"
proof -
  obtain n4 where n4: "reduce4 nc = Some n4" "size4 n4 = w" "bits4 n4 = map scalar_value (bits8 nc)" using reduce4_ok [OF assms(1)] assms(4) by blast
  obtain p4 where p4: "reduce4 pc = Some p4" "size4 p4 = w" "bits4 p4 = map scalar_value (bits8 pc)" using reduce4_ok [OF assms(2)] assms(5) by blast
  have v: "value4 n4 i = scalar_value (bits8 nc ! i)" "value4 p4 i = scalar_value (bits8 pc ! i)" if "i < w" for i
  proof -
    have "bits4 n4 ! i = scalar_value (bits8 nc ! i)" "bits4 p4 ! i = scalar_value (bits8 pc ! i)"
      unfolding n4(3) p4(3) using that assms by simp_all
    then show "value4 n4 i = scalar_value (bits8 nc ! i)" "value4 p4 i = scalar_value (bits8 pc ! i)"
      using that n4(2) p4(2) by (simp_all add: bits4_def)
  qed
  let ?st1 = "(new_cmos r)\<lparr>n_en := n4\<rparr>" and ?st2 = "(new_cmos r)\<lparr>n_en := n4, p_en := p4\<rparr>"
  have e: "cmos_generate_output ?st1 = Some (?st1, None)" "cmos_generate_output ?st2 = Some (?st2, None)"
    by (simp_all add: cmos_generate_empty new_cmos_def)
  obtain u where u: "cmos_generate_output (?st2\<lparr>cmos_bit := d\<rparr>) = Some (?st2\<lparr>cmos_bit := d\<rparr>, Some u)" "wf8 u"
    "bits8 u = map (\<lambda>i. the (cmos_scalar r (value4 n4 i) (value4 p4 i) (bits8 d ! i))) [0..<w]"
    using cmos_generate_ok [of "?st2\<lparr>cmos_bit := d\<rparr>"] assms(3,6,7) by (auto simp: new_cmos_def)
  obtain u' where u': "cmos_generate_output (?st1\<lparr>cmos_bit := d\<rparr>) = Some (?st1\<lparr>cmos_bit := d\<rparr>, Some u')" "wf8 u'"
    "bits8 u' = map (\<lambda>i. the (cmos_scalar r (value4 n4 i) BIT4_X (bits8 d ! i))) [0..<w]"
    using cmos_generate_ok [of "?st1\<lparr>cmos_bit := d\<rparr>"] assms(3,6,7) by (auto simp: new_cmos_def value4_def)
  show ?thesis using n4(1) p4(1) e u u' v
    by (simp add: cmos_recv_vec8_def rcmos_recv_vec8_def cmos_recv_vec4_def cmos_set_data_def)
qed

theorem cmos_inputs_correct_witness:
  "\<exists>st u. run_recv rcmos_recv_vec8 [(1, vector8_new 1), (2, vector8_new 1), (0, vector8_new 1)] (new_cmos True) = Some (st, [u]) \<and> wf8 u"
  using cmos_inputs_correct [of "vector8_new 1" "vector8_new 1" "vector8_new 1" 1 True] by auto

end
