(* ===== verification/Vvp_Delay.thy ===== *)
theory Vvp_Delay
  imports Vvp_Schedule Vvp_Value4
begin

text \<open>
  The delay functor (vvp/delay.h, vvp/delay.cc): the table of delays \<open>vvp_delay_t\<close>, and \<open>vvp_fun_delay\<close>, which holds values
  back until their delay has passed and drops a value that changes again before that. A method returns the state
  and what it does to the net and to the scheduler. The events of the functor are a list, the next one to run first
  (the source links them in a circle, as the scheduler does). Real values are left out.
\<close>

section \<open>Delays\<close>

record vvp_delay_t =
  rise :: vvp_time64_t
  fall :: vvp_time64_t
  decay :: vvp_time64_t
  min_delay :: vvp_time64_t
  ignore_decay :: bool

definition calculate_min_delay :: "vvp_delay_t \<Rightarrow> vvp_delay_t" where
  "calculate_min_delay d =
     (let d = d\<lparr>min_delay := rise d\<rparr>;
          d = (if fall d < min_delay d then d\<lparr>min_delay := fall d\<rparr> else d)
      in if ignore_decay d then d\<lparr>decay := min_delay d\<rparr>
         else if decay d < min_delay d then d\<lparr>min_delay := decay d\<rparr> else d)"

definition delay2 :: "vvp_time64_t \<Rightarrow> vvp_time64_t \<Rightarrow> vvp_delay_t" where
  "delay2 r f =
     (let dec = (if f < r then f else r)
      in \<lparr>rise = r, fall = f, decay = dec, min_delay = dec, ignore_decay = False\<rparr>)"

definition delay3 :: "vvp_time64_t \<Rightarrow> vvp_time64_t \<Rightarrow> vvp_time64_t \<Rightarrow> vvp_delay_t" where
  "delay3 r f dec = calculate_min_delay \<lparr>rise = r, fall = f, decay = dec, min_delay = 0, ignore_decay = False\<rparr>"

definition set_ignore_decay :: "vvp_delay_t \<Rightarrow> vvp_delay_t" where
  "set_ignore_decay d = calculate_min_delay (d\<lparr>ignore_decay := True\<rparr>)"

definition get_delay :: "vvp_delay_t \<Rightarrow> vvp_bit4_t \<Rightarrow> vvp_bit4_t \<Rightarrow> vvp_time64_t" where
  "get_delay d from to =
     (case from of
        BIT4_0 \<Rightarrow> (case to of BIT4_0 \<Rightarrow> 0 | BIT4_1 \<Rightarrow> rise d | BIT4_X \<Rightarrow> min_delay d | BIT4_Z \<Rightarrow> decay d)
      | BIT4_1 \<Rightarrow> (case to of BIT4_0 \<Rightarrow> fall d | BIT4_1 \<Rightarrow> 0 | BIT4_X \<Rightarrow> min_delay d | BIT4_Z \<Rightarrow> decay d)
      | BIT4_X \<Rightarrow> (case to of BIT4_0 \<Rightarrow> fall d | BIT4_1 \<Rightarrow> rise d | BIT4_X \<Rightarrow> 0 | BIT4_Z \<Rightarrow> decay d)
      | BIT4_Z \<Rightarrow> (case to of BIT4_0 \<Rightarrow> fall d | BIT4_1 \<Rightarrow> rise d | BIT4_X \<Rightarrow> min_delay d | BIT4_Z \<Rightarrow> 0))"

definition get_min_delay :: "vvp_delay_t \<Rightarrow> vvp_time64_t" where
  "get_min_delay d = min_delay d"

definition set_rise :: "vvp_time64_t \<Rightarrow> vvp_delay_t \<Rightarrow> vvp_delay_t" where
  "set_rise val d =
     (let d = d\<lparr>rise := val\<rparr>
      in if val < min_delay d
         then let d = d\<lparr>min_delay := val\<rparr> in if ignore_decay d then d\<lparr>decay := val\<rparr> else d
         else calculate_min_delay d)"

definition set_fall :: "vvp_time64_t \<Rightarrow> vvp_delay_t \<Rightarrow> vvp_delay_t" where
  "set_fall val d =
     (let d = d\<lparr>fall := val\<rparr>
      in if val < min_delay d
         then let d = d\<lparr>min_delay := val\<rparr> in if ignore_decay d then d\<lparr>decay := val\<rparr> else d
         else calculate_min_delay d)"

definition set_decay :: "vvp_time64_t \<Rightarrow> vvp_delay_t \<Rightarrow> vvp_delay_t option" where
  "set_decay val d =
     (if ignore_decay d then None
      else let d = d\<lparr>decay := val\<rparr>
           in Some (if val < min_delay d then d\<lparr>min_delay := val\<rparr> else calculate_min_delay d))"

section \<open>The functor\<close>

datatype delay_type_t = UNKNOWN_DELAY | VEC4_DELAY | VEC8_DELAY | REAL_DELAY

text \<open>An event: \<open>run_vec4\<close> tells which of \<open>run_run_vec4_\<close> and \<open>run_run_vec8_\<close> it runs.\<close>

record delay_event =
  sim_time :: vvp_time64_t
  run_vec4 :: bool
  ptr_vec4 :: vvp_vector4_t
  ptr_vec8 :: vvp_vector8_t

record vvp_fun_delay =
  self :: address
  delay_net :: address
  delay_tab :: vvp_delay_t
  delay_type :: delay_type_t
  initial :: bool
  cur_vec4 :: vvp_vector4_t
  cur_vec8 :: vvp_vector8_t
  time_round :: vvp_time64_t
  time_scale :: vvp_time64_t
  delay_list :: "delay_event list"

text \<open>What a method does: send a value on the net of the functor, or schedule it.\<close>

datatype delay_action =
    Net_send_vec4 vvp_vector4_t
  | Net_send_vec8 vvp_vector8_t
  | Net_schedule sched_call

abbreviation no_vec4 :: vvp_vector4_t where "no_vec4 \<equiv> vector4_fill 0 BIT4_X"

text \<open>
  The constructor, for a vector; a functor of width 0, which carries reals, is left out. \<open>round_\<close> and \<open>scale_\<close> are powers of ten of the differences between the time
  units and the precisions of the scope, the arguments \<open>p\<close> and \<open>q\<close>.
\<close>

definition new_fun_delay :: "address \<Rightarrow> address \<Rightarrow> nat \<Rightarrow> vvp_delay_t \<Rightarrow> int \<Rightarrow> int \<Rightarrow> (vvp_fun_delay \<times> delay_action list) option" where
  "new_fun_delay this net width d p q =
     (if width = 0 then None
      else do {
       let v4 = vector4_fill width BIT4_X;
       v8 \<leftarrow> vector8_of4 v4 6 6;
       Some (\<lparr>self = this, delay_net = net, delay_tab = d, delay_type = UNKNOWN_DELAY, initial = True, cur_vec4 = v4, cur_vec8 = v8,
              time_round = 10 ^ nat p, time_scale = 10 ^ nat q, delay_list = []\<rparr>,
             [Net_schedule (Schedule_init_propagate net v4)]) })"

text \<open>The removal of the events of a pulse; \<open>None\<close> if the new value is skipped.\<close>

fun drop_pulse :: "vvp_time64_t \<Rightarrow> vvp_time64_t \<Rightarrow> delay_event list \<Rightarrow> delay_event list" where
  "drop_pulse use_delay now [] = []"
| "drop_pulse use_delay now (cur # rest) =
     (if sim_time cur + use_delay \<le> use_delay + now then cur # rest else drop_pulse use_delay now rest)"

definition clean_pulse_events :: "(delay_event \<Rightarrow> bool) \<Rightarrow> vvp_time64_t \<Rightarrow> vvp_time64_t \<Rightarrow> delay_event list \<Rightarrow> delay_event list option" where
  "clean_pulse_events same use_delay now evs =
     (case evs of
        [] \<Rightarrow> Some []
      | cur # _ \<Rightarrow> if same cur then None else Some (drop_pulse use_delay now evs))"

text \<open>The greatest delay of the bits 0 to \<open>n - 1\<close>.\<close>

definition scan_delay :: "(nat \<Rightarrow> vvp_time64_t) \<Rightarrow> nat \<Rightarrow> vvp_time64_t" where
  "scan_delay f n = fold (\<lambda>idx use_delay. if f idx > use_delay then f idx else use_delay) [1..<n] (f 0)"

text \<open>The second half of \<open>recv_vec4\<close> and \<open>recv_vec8\<close>: clean up, then send now or later.\<close>

definition delay_propagate :: "(delay_event \<Rightarrow> bool) \<Rightarrow> delay_event \<Rightarrow> (vvp_fun_delay \<Rightarrow> vvp_fun_delay) \<Rightarrow> delay_action \<Rightarrow>
    vvp_time64_t \<Rightarrow> vvp_time64_t \<Rightarrow> vvp_fun_delay \<Rightarrow> vvp_fun_delay \<times> delay_action list" where
  "delay_propagate same ev store send now use_delay st =
     (case clean_pulse_events same use_delay now (delay_list st) of
        None \<Rightarrow> (st, [])
      | Some evs \<Rightarrow>
          let st = st\<lparr>delay_list := evs\<rparr>
          in if use_delay = 0 \<and> evs = []
             then ((store st)\<lparr>initial := False\<rparr>, [send])
             else (st\<lparr>delay_list := evs @ [ev\<lparr>sim_time := now + use_delay\<rparr>]\<rparr>,
                   [Net_schedule (Schedule_generic (Some (self st)) use_delay False False False)]))"

definition event_vec4 :: "vvp_vector4_t \<Rightarrow> delay_event" where
  "event_vec4 b = \<lparr>sim_time = 0, run_vec4 = True, ptr_vec4 = b, ptr_vec8 = vector8_new 0\<rparr>"

definition event_vec8 :: "vvp_vector8_t \<Rightarrow> delay_event" where
  "event_vec8 b = \<lparr>sim_time = 0, run_vec4 = False, ptr_vec4 = no_vec4, ptr_vec8 = b\<rparr>"

text \<open>A value at port 1, 2 or 3 sets a delay.\<close>

definition delay_set_port :: "nat \<Rightarrow> vvp_vector4_t \<Rightarrow> vvp_fun_delay \<Rightarrow> vvp_fun_delay option" where
  "delay_set_port port b st =
     (let bval = (case vector4_to_value_ovf b of None \<Rightarrow> 0 | Some (_, v) \<Rightarrow> v);
          val = bval * time_round st * time_scale st
      in if port = 1 then Some (st\<lparr>delay_tab := set_rise val (delay_tab st)\<rparr>)
         else if port = 2 then Some (st\<lparr>delay_tab := set_fall val (delay_tab st)\<rparr>)
         else if port = 3 then do { d \<leftarrow> set_decay val (delay_tab st); Some (st\<lparr>delay_tab := d\<rparr>) }
         else Some st)"

text \<open>The value that the delay is computed from: the first event if it is due now, or else the current value.\<close>

definition use_vec4 :: "vvp_time64_t \<Rightarrow> vvp_fun_delay \<Rightarrow> vvp_vector4_t" where
  "use_vec4 now st = (case delay_list st of ev # _ \<Rightarrow> if sim_time ev = now then ptr_vec4 ev else cur_vec4 st | [] \<Rightarrow> cur_vec4 st)"

definition use_vec8 :: "vvp_time64_t \<Rightarrow> vvp_fun_delay \<Rightarrow> vvp_vector8_t" where
  "use_vec8 now st = (case delay_list st of ev # _ \<Rightarrow> if sim_time ev = now then ptr_vec8 ev else cur_vec8 st | [] \<Rightarrow> cur_vec8 st)"

definition delay_recv_vec4 :: "vvp_time64_t \<Rightarrow> nat \<Rightarrow> vvp_vector4_t \<Rightarrow> vvp_fun_delay \<Rightarrow> (vvp_fun_delay \<times> delay_action list) option" where
  "delay_recv_vec4 now port b st =
     (if port > 0 then do { st \<leftarrow> delay_set_port port b st; Some (st, []) }
      else do {
        (st, use_delay) \<leftarrow>
          (if initial st
           then let st = st\<lparr>delay_type := VEC4_DELAY, cur_vec8 := vector8_new 0\<rparr>;
                    cur_val = value4 (cur_vec4 st) 0
                in Some (st, scan_delay (\<lambda>idx. get_delay (delay_tab st) cur_val (value4 b idx)) (size4 b))
           else if delay_type st = VEC4_DELAY
           then let use = use_vec4 now st
                in Some (st, scan_delay (\<lambda>idx. get_delay (delay_tab st) (value4 use idx) (value4 b idx)) (min (size4 use) (size4 b)))
           else None);
        Some (delay_propagate (\<lambda>ev. eeq (ptr_vec4 ev) b) (event_vec4 b) (\<lambda>st. st\<lparr>cur_vec4 := b\<rparr>) (Net_send_vec4 b) now use_delay st) })"

text \<open>On strength vectors, \<open>value\<close> asserts its index.\<close>

definition delay_recv_vec8 :: "vvp_time64_t \<Rightarrow> nat \<Rightarrow> vvp_vector8_t \<Rightarrow> vvp_fun_delay \<Rightarrow> (vvp_fun_delay \<times> delay_action list) option" where
  "delay_recv_vec8 now port b st =
     (if port > 0 \<or> size8 b = 0 then None
      else do {
        (st, use_delay) \<leftarrow>
          (if initial st
           then let st = st\<lparr>delay_type := VEC8_DELAY, cur_vec4 := no_vec4\<rparr>
                in do { cur_val \<leftarrow> value8 (cur_vec8 st) 0;
                        Some (st, scan_delay (\<lambda>idx. get_delay (delay_tab st) (scalar_value cur_val) (scalar_value (val8 b ! idx))) (size8 b)) }
           else if delay_type st = VEC8_DELAY
           then let use = use_vec8 now st
                in if size8 use = 0 then None
                   else Some (st, scan_delay (\<lambda>idx. get_delay (delay_tab st) (scalar_value (val8 use ! idx)) (scalar_value (val8 b ! idx)))
                                    (min (size8 use) (size8 b)))
           else None);
        Some (delay_propagate (\<lambda>ev. eeq8 (ptr_vec8 ev) b) (event_vec8 b) (\<lambda>st. st\<lparr>cur_vec8 := b\<rparr>) (Net_send_vec8 b) now use_delay st) })"

text \<open>\<open>run_run\<close>, when the scheduler runs the functor.\<close>

definition delay_run_run :: "vvp_time64_t \<Rightarrow> vvp_fun_delay \<Rightarrow> vvp_fun_delay \<times> delay_action list" where
  "delay_run_run now st =
     (case delay_list st of
        [] \<Rightarrow> (st, [])
      | cur # rest \<Rightarrow>
          if sim_time cur > now then (st, [])
          else let st = st\<lparr>delay_list := rest, initial := False\<rparr>
               in if run_vec4 cur then (st\<lparr>cur_vec4 := ptr_vec4 cur\<rparr>, [Net_send_vec4 (ptr_vec4 cur)])
                  else (st\<lparr>cur_vec8 := ptr_vec8 cur\<rparr>, [Net_send_vec8 (ptr_vec8 cur)]))"

end
