(* ===== verification/Vvp_DelaySpec.thy ===== *)
theory Vvp_DelaySpec
  imports Vvp_Delay
begin

text \<open>
  The delay functor as an inertial delay: for values that arrive in turn, with the functor run at the times for which it
  has scheduled itself, the values that it sends are those that have been at its input for as long as their delay. The
  functor works on two kinds of vectors; the interface \<open>inertial_node\<close> holds what the proof needs of them.
\<close>

section \<open>The table of delays\<close>

definition delay_wf :: "vvp_delay_t \<Rightarrow> bool" where
  "delay_wf d \<longleftrightarrow> min_delay d = min (min (rise d) (fall d)) (decay d) \<and> (ignore_decay d \<longrightarrow> decay d = min (rise d) (fall d))"

named_theorems delay_defs \<open>operations of the table of delays\<close>

declare calculate_min_delay_def [delay_defs] delay2_def [delay_defs] delay3_def [delay_defs] set_ignore_decay_def [delay_defs]
  set_rise_def [delay_defs] set_fall_def [delay_defs] set_decay_def [delay_defs]

lemma calculate_min_delay_wf: "delay_wf (calculate_min_delay d)"
  by (auto simp: delay_wf_def delay_defs Let_def min_def)

lemma new_delay_wf: "delay_wf (delay2 r f)" "delay_wf (delay3 r f dec)" "delay_wf (set_ignore_decay d)"
proof -
  show "delay_wf (delay2 r f)" by (auto simp: delay2_def delay_wf_def Let_def min_def)
qed (simp_all add: delay3_def set_ignore_decay_def calculate_min_delay_wf)

lemma lower_min_delay:
  assumes "delay_wf d" "val < min_delay d"
  shows "min (min val (fall d)) (decay d) = val" "min (min (rise d) val) (decay d) = val" "min (min (rise d) (fall d)) val = val"
    "min val (fall d) = val" "min (rise d) val = val"
  using assms by (auto simp: delay_wf_def intro!: min_absorb1 min_absorb2)

lemma set_delay_wf:
  assumes "delay_wf d"
  shows "delay_wf (set_rise val d)" "delay_wf (set_fall val d)" "set_decay val d = Some d' \<Longrightarrow> delay_wf d'"
proof -
  note low = lower_min_delay [OF assms, of val]
  show "delay_wf (set_rise val d)" "delay_wf (set_fall val d)" "set_decay val d = Some d' \<Longrightarrow> delay_wf d'"
    using low calculate_min_delay_wf
    by (auto simp: set_rise_def set_fall_def set_decay_def Let_def delay_wf_def [of "_\<lparr>min_delay := _\<rparr>"] delay_wf_def [of "_\<lparr>decay := _\<rparr>"] split: if_splits)
qed

definition max_delay :: "vvp_delay_t \<Rightarrow> vvp_time64_t" where
  "max_delay d = max (max (rise d) (fall d)) (decay d)"

lemma get_delay_same [simp]: "get_delay d b b = 0"
  by (cases b) (simp_all add: get_delay_def)

lemma get_delay_bounds:
  assumes "delay_wf d"
  shows "get_delay d b b' \<le> max_delay d" "b \<noteq> b' \<Longrightarrow> min_delay d \<le> get_delay d b b'"
  using assms by (cases b; cases b'; simp add: get_delay_def delay_wf_def max_delay_def le_max_iff_disj min_le_iff_disj)+

text \<open>A sequence of delays at the ports 1 to 3.\<close>

fun set_delays :: "(nat \<times> vvp_time64_t) list \<Rightarrow> vvp_delay_t \<Rightarrow> vvp_delay_t option" where
  "set_delays [] d = Some d"
| "set_delays ((port, val) # ops) d =
     do { d \<leftarrow> (if port = 1 then Some (set_rise val d) else if port = 2 then Some (set_fall val d) else set_decay val d); set_delays ops d }"

lemma set_delays_wf: "delay_wf d \<Longrightarrow> set_delays ops d = Some d' \<Longrightarrow> delay_wf d'"
proof (induction ops d rule: set_delays.induct)
  case (2 port val ops d)
  then show ?case by (auto simp: Option.bind_eq_Some_conv set_delay_wf split: if_splits)
qed simp

section \<open>The delay of a vector\<close>

definition bit_delay :: "vvp_delay_t \<Rightarrow> vvp_bit4_t list \<Rightarrow> vvp_bit4_t list \<Rightarrow> vvp_time64_t" where
  "bit_delay d from to = fold max (map2 (get_delay d) from to) 0"

lemma fold_max_greater: "fold (\<lambda>i m. if f i > m then f i else m) xs m = fold max (map f xs) (m :: vvp_time64_t)"
  by (induction xs arbitrary: m) (auto simp: max_def)

lemma scan_delay_max: "0 < n \<Longrightarrow> scan_delay f n = fold max (map f [0..<n]) 0"
  unfolding scan_delay_def fold_max_greater by (simp add: upt_conv_Cons max_def)

lemma scan_delay_bits:
  assumes "length from = n" "length to = n" "0 < n" "\<And>i. i < n \<Longrightarrow> f i = get_delay d (from ! i) (to ! i)"
  shows "scan_delay f n = bit_delay d from to"
proof -
  have "map f [0..<n] = map2 (get_delay d) from to" using assms by (intro nth_equalityI) auto
  then show ?thesis using assms(3) by (simp add: scan_delay_max bit_delay_def)
qed

lemma fold_max_le: "(\<And>x. x \<in> set xs \<Longrightarrow> x \<le> b) \<Longrightarrow> m \<le> b \<Longrightarrow> fold max xs m \<le> (b :: vvp_time64_t)"
  by (induction xs arbitrary: m) auto

lemma bit_delay_le: "delay_wf d \<Longrightarrow> bit_delay d from to \<le> max_delay d"
  unfolding bit_delay_def by (rule fold_max_le) (auto simp: get_delay_bounds)

section \<open>The run of a functor\<close>

text \<open>
  The values that the functor sends, each with the time: the functor is run at the times \<open>wakes\<close> for which it has
  scheduled itself, and gets the values \<open>ins\<close> at port 0. An event of the functor at the time of a value runs first.
\<close>

definition sends :: "(delay_action \<Rightarrow> 'v option) \<Rightarrow> vvp_time64_t \<Rightarrow> delay_action list \<Rightarrow> (vvp_time64_t \<times> 'v) list" where
  "sends sent now acts = map (Pair now) (List.map_filter sent acts)"

definition wakes_of :: "vvp_time64_t \<Rightarrow> delay_action list \<Rightarrow> vvp_time64_t list" where
  "wakes_of now acts = List.map_filter (\<lambda>a. case a of Net_schedule (Schedule_generic _ d _ _ _) \<Rightarrow> Some (now + d) | _ \<Rightarrow> None) acts"

fun run_wakes :: "(delay_action \<Rightarrow> 'v option) \<Rightarrow> vvp_time64_t list \<Rightarrow> vvp_fun_delay \<Rightarrow> vvp_fun_delay \<times> (vvp_time64_t \<times> 'v) list" where
  "run_wakes sent [] st = (st, [])"
| "run_wakes sent (t # ts) st =
     (let (st, acts) = delay_run_run t st; (st, outs) = run_wakes sent ts st in (st, sends sent t acts @ outs))"

fun delay_sim :: "(vvp_time64_t \<Rightarrow> nat \<Rightarrow> 'v \<Rightarrow> vvp_fun_delay \<Rightarrow> (vvp_fun_delay \<times> delay_action list) option) \<Rightarrow> (delay_action \<Rightarrow> 'v option) \<Rightarrow>
    vvp_time64_t list \<Rightarrow> (vvp_time64_t \<times> 'v) list \<Rightarrow> vvp_fun_delay \<Rightarrow> (vvp_time64_t \<times> 'v) list option" where
  "delay_sim recv sent wakes [] st = Some (snd (run_wakes sent (sort wakes) st))"
| "delay_sim recv sent wakes ((t, v) # ins) st =
     (let (st, outs) = run_wakes sent (sort (filter (\<lambda>x. x \<le> t) wakes)) st
      in do {
        (st, acts) \<leftarrow> recv t 0 v st;
        outs' \<leftarrow> delay_sim recv sent (filter (\<lambda>x. \<not> x \<le> t) wakes @ wakes_of t acts) ins st;
        Some (outs @ sends sent t acts @ outs') })"

text \<open>
  The specification: a value comes out after its delay, unless another value arrives before; the same value arriving
  again changes nothing. The delay is that of the change from the last value that has come out.
\<close>

fun inertial :: "('b list \<Rightarrow> 'b list \<Rightarrow> vvp_time64_t) \<Rightarrow> 'b list \<Rightarrow> (vvp_time64_t \<times> 'b list) list \<Rightarrow> (vvp_time64_t \<times> 'b list) list" where
  "inertial D out [] = []"
| "inertial D out [(t, v)] = [(t + D out v, v)]"
| "inertial D out ((t, v) # (t', v') # ins) =
     (if t' < t + D out v
      then if v' = v then inertial D out ((t, v) # ins) else inertial D out ((t', v') # ins)
      else (t + D out v, v) # inertial D v ((t', v') # ins))"

lemma no_wrap_less:
  fixes t t0 d d' m :: vvp_time64_t
  assumes "unat t0 + 2 * unat m < 2 ^ 64" "d \<le> m" "d' \<le> m" "t < t0 + d"
  shows "t + d' < t0 + d + d'"
proof -
  have "unat d \<le> unat m" "unat d' \<le> unat m" "unat t < unat (t0 + d)" using assms(2-4) by (simp_all add: word_le_nat_alt word_less_nat_alt)
  then show ?thesis using assms(1) by (simp add: word_less_nat_alt unat_word_ariths)
qed

text \<open>What the functor does with a value at its input, for a kind of vectors.\<close>

locale inertial_node =
  fixes recv :: "vvp_time64_t \<Rightarrow> nat \<Rightarrow> 'v \<Rightarrow> vvp_fun_delay \<Rightarrow> (vvp_fun_delay \<times> delay_action list) option"
    and sent :: "delay_action \<Rightarrow> 'v option" and bits :: "'v \<Rightarrow> 'b list" and ok :: "'v \<Rightarrow> bool"
    and held :: "vvp_fun_delay \<Rightarrow> 'b list option" \<comment> \<open>the current value of a functor in use\<close>
    and waiting :: "delay_event \<Rightarrow> 'b list option"
    and D :: "'b list \<Rightarrow> 'b list \<Rightarrow> vvp_time64_t"
  assumes recv_empty: "held st = Some out \<Longrightarrow> ok v \<Longrightarrow> delay_list st = [] \<Longrightarrow>
      (if D out (bits v) = 0
       then \<exists>st' a. recv t 0 v st = Some (st', [a]) \<and> sent a = Some v \<and> wakes_of t [a] = [] \<and> delay_list st' = [] \<and> held st' = Some (bits v)
       else \<exists>st' a e. recv t 0 v st = Some (st', [a]) \<and> sent a = None \<and> wakes_of t [a] = [t + D out (bits v)] \<and>
         delay_list st' = [e] \<and> waiting e = Some (bits v) \<and> sim_time e = t + D out (bits v) \<and> held st' = Some out)"
    and recv_waiting: "held st = Some out \<Longrightarrow> ok v \<Longrightarrow> delay_list st = [e] \<Longrightarrow> waiting e = Some w \<Longrightarrow> t < sim_time e \<Longrightarrow>
      t + D out (bits v) < sim_time e + D out (bits v) \<Longrightarrow>
      if w = bits v then \<exists>st'. recv t 0 v st = Some (st', []) \<and> delay_list st' = [e] \<and> held st' = Some out
      else recv t 0 v st = recv t 0 v (st\<lparr>delay_list := []\<rparr>)"
    and held_clear: "held st = Some out \<Longrightarrow> held (st\<lparr>delay_list := []\<rparr>) = Some out"
    and run: "held st = Some out \<Longrightarrow> delay_list st = [e] \<Longrightarrow> waiting e = Some w \<Longrightarrow> sim_time e \<le> t \<Longrightarrow>
      \<exists>st' a v. delay_run_run t st = (st', [a]) \<and> sent a = Some v \<and> bits v = w \<and> delay_list st' = [] \<and> held st' = Some w"
begin

text \<open>A functor with at most one event, and the value that waits with the time at which it has arrived.\<close>

definition state_ok :: "vvp_fun_delay \<Rightarrow> 'b list \<Rightarrow> (vvp_time64_t \<times> 'b list) option \<Rightarrow> vvp_time64_t list \<Rightarrow> bool" where
  "state_ok st out pend wakes \<longleftrightarrow> held st = Some out \<and>
     (case pend of
        None \<Rightarrow> delay_list st = []
      | Some (t, w) \<Rightarrow> \<exists>e. delay_list st = [e] \<and> waiting e = Some w \<and> sim_time e = t + D out w \<and> t + D out w \<in> set wakes)"

lemma run_wakes_idle: "delay_list st = [] \<Longrightarrow> run_wakes sent ts st = (st, [])"
  by (induction ts) (simp_all add: delay_run_run_def sends_def List.map_filter_simps)

lemma run_wakes_early: "delay_list st = [e] \<Longrightarrow> \<forall>x \<in> set ts. x < sim_time e \<Longrightarrow> run_wakes sent ts st = (st, [])"
  by (induction ts) (simp_all add: delay_run_run_def sends_def List.map_filter_simps)

lemma run_wakes_waiting:
  assumes "held st = Some out" "delay_list st = [e]" "waiting e = Some w" "sorted ts"
  shows "if sim_time e \<in> set ts
    then \<exists>st' v. run_wakes sent ts st = (st', [(sim_time e, v)]) \<and> bits v = w \<and> delay_list st' = [] \<and> held st' = Some w
    else (\<forall>x \<in> set ts. x < sim_time e) \<longrightarrow> run_wakes sent ts st = (st, [])"
proof (cases "sim_time e \<in> set ts")
  case True
  then obtain xs ys where ts: "ts = xs @ sim_time e # ys" "sim_time e \<notin> set xs" by (meson split_list_first)
  then have "\<forall>x \<in> set xs. x < sim_time e" using assms(4) by (fastforce simp: sorted_append less_le)
  moreover obtain st' a v where r: "delay_run_run (sim_time e) st = (st', [a])" "sent a = Some v" "bits v = w" "delay_list st' = []"
    "held st' = Some w"
    using run [OF assms(1-3) order_refl] by blast
  moreover have "run_wakes sent (xs @ sim_time e # ys) st = (st', [(sim_time e, v)])" if "\<forall>x \<in> set xs. x < sim_time e"
    using that
  proof (induction xs)
    case Nil
    then show ?case using r run_wakes_idle [OF r(4)] by (simp add: sends_def List.map_filter_simps)
  next
    case (Cons x xs)
    then show ?case using assms(2) by (simp add: delay_run_run_def sends_def List.map_filter_simps)
  qed
  ultimately show ?thesis using ts True by auto
qed (use run_wakes_early [OF assms(2)] in auto)

text \<open>The events due at or before the time of a value, and the value.\<close>

lemma wakes_before:
  assumes "state_ok st out pend wakes"
  shows "\<exists>st' outs. run_wakes sent (sort (filter (\<lambda>x. x \<le> t) wakes)) st = (st', outs) \<and>
    (case pend of
       None \<Rightarrow> outs = [] \<and> st' = st
     | Some (t0, w) \<Rightarrow>
         if t < t0 + D out w then outs = [] \<and> st' = st
         else (\<exists>v. outs = [(t0 + D out w, v)] \<and> bits v = w) \<and> state_ok st' w None (filter (\<lambda>x. \<not> x \<le> t) wakes))"
proof (cases pend)
  case None
  then show ?thesis using assms run_wakes_idle [of st] by (simp add: state_ok_def)
next
  case (Some p)
  obtain t0 w where p: "pend = Some (t0, w)" using Some by (cases p) auto
  then obtain e where e: "held st = Some out" "delay_list st = [e]" "waiting e = Some w" "sim_time e = t0 + D out w" "sim_time e \<in> set wakes"
    using assms by (auto simp: state_ok_def)
  note r = run_wakes_waiting [OF e(1-3), of "sort (filter (\<lambda>x. x \<le> t) wakes)"]
  show ?thesis
  proof (cases "t < sim_time e")
    case True
    then have "\<forall>x \<in> set (sort (filter (\<lambda>x. x \<le> t) wakes)). x < sim_time e" "\<not> sim_time e \<le> t" by auto
    then show ?thesis using run_wakes_early [OF e(2)] p e(4) True by simp
  next
    case False
    then have "sim_time e \<in> set (sort (filter (\<lambda>x. x \<le> t) wakes))" using e(5) by simp
    then obtain st' v where "run_wakes sent (sort (filter (\<lambda>x. x \<le> t) wakes)) st = (st', [(sim_time e, v)])" "bits v = w"
      "delay_list st' = []" "held st' = Some w"
      using r by auto
    then show ?thesis using p e(4) False by (auto simp: state_ok_def)
  qed
qed

lemma recv_start:
  assumes "state_ok st out None wakes" "ok v"
  shows "\<exists>st' a. recv t 0 v st = Some (st', [a]) \<and>
    (if D out (bits v) = 0
     then sends sent t [a] = [(t, v)] \<and> wakes_of t [a] = [] \<and> (\<forall>wakes'. state_ok st' (bits v) None wakes')
     else sends sent t [a] = [] \<and> wakes_of t [a] = [t + D out (bits v)] \<and>
       (\<forall>wakes'. t + D out (bits v) \<in> set wakes' \<longrightarrow> state_ok st' out (Some (t, bits v)) wakes'))"
proof (cases "D out (bits v) = 0")
  case True
  then show ?thesis using recv_empty [of st out v t] assms by (auto simp: state_ok_def sends_def List.map_filter_simps)
next
  case False
  then obtain st' a e where "recv t 0 v st = Some (st', [a])" "sent a = None" "wakes_of t [a] = [t + D out (bits v)]"
    "delay_list st' = [e]" "waiting e = Some (bits v)" "sim_time e = t + D out (bits v)" "held st' = Some out"
    using recv_empty [of st out v t] assms by (auto simp: state_ok_def)
  then show ?thesis using False by (auto simp: state_ok_def sends_def List.map_filter_simps)
qed

lemma inertial_now: "D out v = 0 \<Longrightarrow> \<forall>p \<in> set ins. t \<le> fst p \<Longrightarrow> inertial D out ((t, v) # ins) = (t, v) # inertial D v ins"
  by (cases ins) (auto simp: not_less)

abbreviation spec_ins :: "(vvp_time64_t \<times> 'v) list \<Rightarrow> (vvp_time64_t \<times> 'b list) list" where
  "spec_ins \<equiv> map (apsnd bits)"

abbreviation spec_pend :: "'p option \<Rightarrow> 'p list" where
  "spec_pend pend \<equiv> (case pend of None \<Rightarrow> [] | Some p \<Rightarrow> [p])"

text \<open>A value that arrives when none waits, and the rest of the run.\<close>

lemma sim_start:
  assumes "state_ok st out None ws" "ok v" "\<forall>p \<in> set ins. t \<le> fst p"
    and IH: "\<And>st' out' pend' wakes'. state_ok st' out' pend' wakes' \<Longrightarrow> pend' \<in> {None, Some (t, bits v)} \<Longrightarrow>
      \<exists>outs. delay_sim recv sent wakes' ins st' = Some outs \<and> spec_ins outs = inertial D out' (spec_pend pend' @ spec_ins ins)"
  shows "\<exists>st' acts outs. recv t 0 v st = Some (st', acts) \<and> delay_sim recv sent (wakes @ wakes_of t acts) ins st' = Some outs \<and>
    spec_ins (sends sent t acts @ outs) = inertial D out ((t, bits v) # spec_ins ins)"
proof -
  obtain st' a where a: "recv t 0 v st = Some (st', [a])" "if D out (bits v) = 0
     then sends sent t [a] = [(t, v)] \<and> wakes_of t [a] = [] \<and> (\<forall>wakes'. state_ok st' (bits v) None wakes')
     else sends sent t [a] = [] \<and> wakes_of t [a] = [t + D out (bits v)] \<and>
       (\<forall>wakes'. t + D out (bits v) \<in> set wakes' \<longrightarrow> state_ok st' out (Some (t, bits v)) wakes')"
    using recv_start [OF assms(1,2), of t] by blast
  show ?thesis
  proof (cases "D out (bits v) = 0")
    case True
    have "\<forall>p \<in> set (spec_ins ins). t \<le> fst p" using assms(3) by auto
    then show ?thesis using a True IH [of st' "bits v" None] inertial_now [OF True] by fastforce
  next
    case False
    then show ?thesis using a IH [of st' out "Some (t, bits v)"] by fastforce
  qed
qed

lemma sim_ok:
  assumes "\<And>u v. D u v \<le> M" "state_ok st out pend wakes" "list_all (\<lambda>(t, v). ok v) ins" "sorted (map fst ins)"
    and "\<forall>t \<in> fst ` set (spec_pend pend) \<union> fst ` set ins. unat t + 2 * unat M < 2 ^ 64"
  shows "\<exists>outs. delay_sim recv sent wakes ins st = Some outs \<and> spec_ins outs = inertial D out (spec_pend pend @ spec_ins ins)"
  using assms(2-)
proof (induction ins arbitrary: st out pend wakes)
  case Nil
  show ?case
  proof (cases pend)
    case None
    then show ?thesis using Nil.prems(1) run_wakes_idle [of st] by (simp add: state_ok_def)
  next
    case (Some p)
    obtain t0 w where p: "pend = Some (t0, w)" using Some by (cases p) auto
    then obtain e where e: "held st = Some out" "delay_list st = [e]" "waiting e = Some w" "sim_time e = t0 + D out w" "sim_time e \<in> set wakes"
      using Nil.prems(1) by (auto simp: state_ok_def)
    show ?thesis using run_wakes_waiting [OF e(1-3), of "sort wakes"] p e(4,5) by auto
  qed
next
  case (Cons x ins)
  obtain t v where x: "x = (t, v)" by (cases x)
  let ?ws = "sort (filter (\<lambda>x. x \<le> t) wakes)" and ?rest = "filter (\<lambda>x. \<not> x \<le> t) wakes"
  have v: "ok v" "\<forall>p \<in> set ins. t \<le> fst p" "list_all (\<lambda>(t, v). ok v) ins" "sorted (map fst ins)" using Cons.prems(2,3) x by auto
  have fit: "unat t + 2 * unat M < 2 ^ 64" "\<forall>t \<in> fst ` set ins. unat t + 2 * unat M < 2 ^ 64" using Cons.prems(4) x by auto
  have IH: "\<exists>outs. delay_sim recv sent wakes' ins st' = Some outs \<and> spec_ins outs = inertial D out' (spec_pend pend' @ spec_ins ins)"
    if "state_ok st' out' pend' wakes'" "pend' \<in> {None, Some (t, bits v)}" for st' out' pend' wakes'
    using Cons.IH [OF that(1) v(3,4)] that(2) fit by auto
  have start: "\<exists>st' acts outs. recv t 0 v s = Some (st', acts) \<and> delay_sim recv sent (?rest @ wakes_of t acts) ins st' = Some outs \<and>
    spec_ins (sends sent t acts @ outs) = inertial D u ((t, bits v) # spec_ins ins)" if "state_ok s u None ws" for s u ws
    by (rule sim_start [OF that v(1,2)]) (rule IH)
  obtain st' outs where ev: "run_wakes sent ?ws st = (st', outs)" "case pend of
       None \<Rightarrow> outs = [] \<and> st' = st
     | Some (t0, w) \<Rightarrow>
         if t < t0 + D out w then outs = [] \<and> st' = st
         else (\<exists>v. outs = [(t0 + D out w, v)] \<and> bits v = w) \<and> state_ok st' w None ?rest"
    using wakes_before [OF Cons.prems(1), of t] by blast
  consider (none) "pend = None" | (due) t0 w where "pend = Some (t0, w)" "\<not> t < t0 + D out w"
    | (waiting) t0 w where "pend = Some (t0, w)" "t < t0 + D out w" by (cases pend) auto
  then show ?case
  proof cases
    case none
    then have "state_ok st out None wakes" "st' = st" "outs = []" using Cons.prems(1) ev(2) by simp_all
    then show ?thesis using start [of st out wakes] none x ev(1) by auto
  next
    case due
    then obtain u where u: "outs = [(t0 + D out w, u)]" "bits u = w" "state_ok st' w None ?rest" using ev(2) by auto
    show ?thesis using start [OF u(3)] due x ev(1) u(1,2) by auto
  next
    case waiting
    then have st': "st' = st" "outs = []" using ev(2) by simp_all
    obtain e where e: "held st = Some out" "delay_list st = [e]" "waiting e = Some w" "sim_time e = t0 + D out w" "sim_time e \<in> set wakes"
      using Cons.prems(1) waiting(1) by (auto simp: state_ok_def)
    have "unat t0 + 2 * unat M < 2 ^ 64" using Cons.prems(4) waiting(1) by auto
    then have "t + D out (bits v) < sim_time e + D out (bits v)"
      unfolding e(4) using no_wrap_less [OF _ _ _ waiting(2)] assms(1) by blast
    note r = recv_waiting [OF e(1) v(1) e(2,3) _ this]
    show ?thesis
    proof (cases "w = bits v")
      case True
      then obtain st'' where st'': "recv t 0 v st = Some (st'', [])" "delay_list st'' = [e]" "held st'' = Some out" using r waiting(2) e(4) by auto
      have "state_ok st'' out pend (?rest @ wakes_of t [])" using st'' waiting e by (auto simp: state_ok_def)
      then show ?thesis using Cons.IH [OF _ v(3,4), of st'' out pend] Cons.prems(4) st'' ev(1) st' x waiting True
        by (auto simp: sends_def List.map_filter_simps)
    next
      case False
      have "state_ok (st\<lparr>delay_list := []\<rparr>) out None wakes" using held_clear [OF e(1)] by (simp add: state_ok_def)
      then show ?thesis using start [of "st\<lparr>delay_list := []\<rparr>" out wakes] False waiting x ev(1) st' r e(4) by auto
    qed
  qed
qed

end

section \<open>The two kinds of vectors\<close>

fun sent4 :: "delay_action \<Rightarrow> vvp_vector4_t option" where
  "sent4 (Net_send_vec4 v) = Some v"
| "sent4 _ = None"

fun sent8 :: "delay_action \<Rightarrow> vvp_vector8_t option" where
  "sent8 (Net_send_vec8 v) = Some v"
| "sent8 _ = None"

definition held4 :: "vvp_delay_t \<Rightarrow> nat \<Rightarrow> vvp_fun_delay \<Rightarrow> vvp_bit4_t list option" where
  "held4 tab w st = (if delay_tab st = tab \<and> wf4 (cur_vec4 st) \<and> size4 (cur_vec4 st) = w \<and>
       (if initial st then bits4 (cur_vec4 st) = replicate w BIT4_X else delay_type st = VEC4_DELAY) \<and> (delay_list st \<noteq> [] \<longrightarrow> delay_type st = VEC4_DELAY)
     then Some (bits4 (cur_vec4 st)) else None)"

definition waiting4 :: "nat \<Rightarrow> delay_event \<Rightarrow> vvp_bit4_t list option" where
  "waiting4 w e = (if run_vec4 e \<and> wf4 (ptr_vec4 e) \<and> size4 (ptr_vec4 e) = w then Some (bits4 (ptr_vec4 e)) else None)"

definition held8 :: "vvp_delay_t \<Rightarrow> nat \<Rightarrow> vvp_fun_delay \<Rightarrow> vvp_scalar_t list option" where
  "held8 tab w st = (if delay_tab st = tab \<and> wf8 (cur_vec8 st) \<and> size8 (cur_vec8 st) = w \<and>
       (if initial st then map scalar_value (bits8 (cur_vec8 st)) = replicate w BIT4_X else delay_type st = VEC8_DELAY) \<and> (delay_list st \<noteq> [] \<longrightarrow> delay_type st = VEC8_DELAY)
     then Some (bits8 (cur_vec8 st)) else None)"

definition waiting8 :: "nat \<Rightarrow> delay_event \<Rightarrow> vvp_scalar_t list option" where
  "waiting8 w e = (if \<not> run_vec4 e \<and> wf8 (ptr_vec8 e) \<and> size8 (ptr_vec8 e) = w then Some (bits8 (ptr_vec8 e)) else None)"

definition scalar_delay :: "vvp_delay_t \<Rightarrow> vvp_scalar_t list \<Rightarrow> vvp_scalar_t list \<Rightarrow> vvp_time64_t" where
  "scalar_delay tab from to = bit_delay tab (map scalar_value from) (map scalar_value to)"

lemma wakes_of_simps [simp]:
  "wakes_of t [] = []" "wakes_of t (Net_send_vec4 v # acts) = wakes_of t acts" "wakes_of t (Net_send_vec8 u # acts) = wakes_of t acts"
  "wakes_of t (Net_schedule (Schedule_generic obj d f g h) # acts) = (t + d) # wakes_of t acts"
  by (simp_all add: wakes_of_def List.map_filter_simps)

lemma sends_Nil [simp]: "sends sent t [] = []"
  by (simp add: sends_def List.map_filter_simps)

text \<open>A value that arrives while another one waits.\<close>

lemma propagate_waiting:
  assumes "delay_list st = [e]" "t + d < sim_time e + d"
  shows "delay_propagate same ev store send t d st =
    (if same e then (st, []) else delay_propagate same ev store send t d (st\<lparr>delay_list := []\<rparr>))"
proof -
  have "\<not> sim_time e + d \<le> d + t" using assms(2) by (simp add: add.commute)
  then show ?thesis using assms(1) by (simp add: delay_propagate_def clean_pulse_events_def Let_def)
qed

text \<open>What a functor in use does with a value, before it propagates it.\<close>

definition prep4 :: "vvp_fun_delay \<Rightarrow> vvp_fun_delay" where
  "prep4 st = st\<lparr>delay_type := VEC4_DELAY, cur_vec8 := if initial st then vector8_new 0 else cur_vec8 st\<rparr>"

definition prep8 :: "vvp_fun_delay \<Rightarrow> vvp_fun_delay" where
  "prep8 st = st\<lparr>delay_type := VEC8_DELAY, cur_vec4 := if initial st then no_vec4 else cur_vec4 st\<rparr>"

lemma prep_simps [simp]:
  "delay_list (prep4 st) = delay_list st" "prep4 (st\<lparr>delay_list := es\<rparr>) = (prep4 st)\<lparr>delay_list := es\<rparr>"
  "delay_list (prep8 st) = delay_list st" "prep8 (st\<lparr>delay_list := es\<rparr>) = (prep8 st)\<lparr>delay_list := es\<rparr>"
  by (simp_all add: prep4_def prep8_def)

lemma prep_id: "delay_type st = VEC4_DELAY \<Longrightarrow> \<not> initial st \<Longrightarrow> prep4 st = st" "delay_type st = VEC8_DELAY \<Longrightarrow> \<not> initial st \<Longrightarrow> prep8 st = st"
  by (cases st; simp add: prep4_def prep8_def)+

lemma held_prep [simp]: "held4 tab w st = Some b4 \<Longrightarrow> held4 tab w (prep4 st) = Some b4" "held8 tab w st = Some b8 \<Longrightarrow> held8 tab w (prep8 st) = Some b8"
  by (auto simp: held4_def prep4_def held8_def prep8_def split: if_splits)

lemma held_clear [simp]: "held4 tab w st = Some b4 \<Longrightarrow> held4 tab w (st\<lparr>delay_list := []\<rparr>) = Some b4"
  "held8 tab w st = Some b8 \<Longrightarrow> held8 tab w (st\<lparr>delay_list := []\<rparr>) = Some b8"
  by (auto simp: held4_def held8_def split: if_splits)

lemma recv_vec4_held:
  assumes "held4 tab w st = Some out" "wf4 v" "size4 v = w" "0 < w" "list_all (\<lambda>e. sim_time e \<noteq> t) (delay_list st)"
  shows "delay_recv_vec4 t 0 v st = Some (delay_propagate (\<lambda>ev. eeq (ptr_vec4 ev) v) (event_vec4 v) (\<lambda>st. st\<lparr>cur_vec4 := v\<rparr>) (Net_send_vec4 v) t
    (bit_delay tab out (bits4 v)) (prep4 st))"
proof -
  have cur: "delay_tab st = tab" "size4 (cur_vec4 st) = w" "out = bits4 (cur_vec4 st)"
    "if initial st then bits4 (cur_vec4 st) = replicate w BIT4_X else delay_type st = VEC4_DELAY"
    using assms(1) by (auto simp: held4_def split: if_splits)
  have len: "length out = w" "length (bits4 v) = w" using cur(2,3) assms(3) by simp_all
  have use: "use_vec4 t st = cur_vec4 st" using assms(5) by (cases "delay_list st") (simp_all add: use_vec4_def)
  have nth: "bits4 (cur_vec4 st) ! i = value4 (cur_vec4 st) i" "bits4 v ! i = value4 v i" if "i < w" for i
    using that cur(2) assms(3) by (simp_all add: nth_value4)
  show ?thesis
  proof (cases "initial st")
    case True
    have "value4 (cur_vec4 st) 0 = out ! i" if "i < w" for i
      using True cur(3,4) nth(1) [of 0] assms(4) that by simp
    then have "scan_delay (\<lambda>idx. get_delay tab (value4 (cur_vec4 st) 0) (value4 v idx)) w = bit_delay tab out (bits4 v)"
      using nth by (intro scan_delay_bits [OF len assms(4)]) simp
    then show ?thesis using True cur(1) assms(3) by (simp add: delay_recv_vec4_def Let_def prep4_def)
  next
    case False
    have "scan_delay (\<lambda>idx. get_delay tab (value4 (cur_vec4 st) idx) (value4 v idx)) w = bit_delay tab out (bits4 v)"
      using nth cur(3) by (intro scan_delay_bits [OF len assms(4)]) simp
    then show ?thesis using False cur(1,2,4) assms(3) use by (simp add: delay_recv_vec4_def Let_def prep_id)
  qed
qed

lemma recv_vec8_held:
  assumes "held8 tab w st = Some out" "wf8 v" "size8 v = w" "0 < w" "list_all (\<lambda>e. sim_time e \<noteq> t) (delay_list st)"
  shows "delay_recv_vec8 t 0 v st = Some (delay_propagate (\<lambda>ev. eeq8 (ptr_vec8 ev) v) (event_vec8 v) (\<lambda>st. st\<lparr>cur_vec8 := v\<rparr>) (Net_send_vec8 v) t
    (scalar_delay tab out (bits8 v)) (prep8 st))"
proof -
  have cur: "delay_tab st = tab" "size8 (cur_vec8 st) = w" "out = bits8 (cur_vec8 st)" "wf8 (cur_vec8 st)"
    "if initial st then map scalar_value (bits8 (cur_vec8 st)) = replicate w BIT4_X else delay_type st = VEC8_DELAY"
    using assms(1) by (auto simp: held8_def split: if_splits)
  have len: "length (map scalar_value out) = w" "length (map scalar_value (bits8 v)) = w" using cur(2-4) assms(2,3) by simp_all
  have use: "use_vec8 t st = cur_vec8 st" using assms(5) by (cases "delay_list st") (simp_all add: use_vec8_def)
  have nth: "val8 (cur_vec8 st) ! i = out ! i" "val8 v ! i = bits8 v ! i" if "i < w" for i
    using that cur(2-4) assms(2,3) by (simp_all add: bits8_def)
  show ?thesis
  proof (cases "initial st")
    case True
    have v0: "value8 (cur_vec8 st) 0 = Some (out ! 0)" using nth(1) [of 0] assms(4) cur(2) by (simp add: value8_def)
    have "scalar_value (out ! i) = BIT4_X" if "i < w" for i
    proof -
      have "map scalar_value out ! i = BIT4_X" using True cur(3,5) that by simp
      then show ?thesis using len(1) that by simp
    qed
    then have "scan_delay (\<lambda>idx. get_delay tab (scalar_value (out ! 0)) (scalar_value (val8 v ! idx))) w = scalar_delay tab out (bits8 v)"
      unfolding scalar_delay_def using nth len assms(4) by (intro scan_delay_bits [OF len assms(4)]) simp
    then show ?thesis using True cur(1) assms(3,4) v0 by (simp add: delay_recv_vec8_def Let_def prep8_def)
  next
    case False
    have "scan_delay (\<lambda>idx. get_delay tab (scalar_value (val8 (cur_vec8 st) ! idx)) (scalar_value (val8 v ! idx))) w = scalar_delay tab out (bits8 v)"
      unfolding scalar_delay_def using nth len by (intro scan_delay_bits [OF len assms(4)]) simp
    then show ?thesis using False cur(1,2,5) assms(3,4) use by (simp add: delay_recv_vec8_def Let_def prep_id)
  qed
qed

lemmas propagate_defs = delay_propagate_def clean_pulse_events_def Let_def

interpretation delay4: inertial_node delay_recv_vec4 sent4 bits4 "\<lambda>v. wf4 v \<and> size4 v = w \<and> 0 < w" "held4 tab w" "waiting4 w" "bit_delay tab"
  for tab w
proof (unfold_locales, goal_cases)
  case (1 st out v t)
  then show ?case using recv_vec4_held [of tab w st out v t]
    by (auto simp: propagate_defs held4_def waiting4_def event_vec4_def prep4_def split: if_splits)
next
  case (2 st out v e u t)
  then have e: "wf4 (ptr_vec4 e)" "u = bits4 (ptr_vec4 e)" "sim_time e \<noteq> t" by (auto simp: waiting4_def split: if_splits)
  then have "delay_recv_vec4 t 0 v st = Some (if u = bits4 v then (prep4 st, []) else delay_propagate (\<lambda>ev. eeq (ptr_vec4 ev) v) (event_vec4 v)
      (\<lambda>st. st\<lparr>cur_vec4 := v\<rparr>) (Net_send_vec4 v) t (bit_delay tab out (bits4 v)) ((prep4 st)\<lparr>delay_list := []\<rparr>))"
    using 2 propagate_waiting [of "prep4 st" e] by (simp add: recv_vec4_held eeq_iff)
  then show ?case using 2 recv_vec4_held [of tab w "st\<lparr>delay_list := []\<rparr>" out v t] by simp
next
  case (4 st out e u t)
  then show ?case by (auto simp: delay_run_run_def held4_def waiting4_def Let_def split: if_splits)
qed simp

interpretation delay8: inertial_node delay_recv_vec8 sent8 bits8 "\<lambda>v. wf8 v \<and> size8 v = w \<and> 0 < w" "held8 tab w" "waiting8 w" "scalar_delay tab"
  for tab w
proof (unfold_locales, goal_cases)
  case (1 st out v t)
  then show ?case using recv_vec8_held [of tab w st out v t]
    by (auto simp: propagate_defs held8_def waiting8_def event_vec8_def prep8_def split: if_splits)
next
  case (2 st out v e u t)
  then have e: "wf8 (ptr_vec8 e)" "u = bits8 (ptr_vec8 e)" "sim_time e \<noteq> t" by (auto simp: waiting8_def split: if_splits)
  then have "delay_recv_vec8 t 0 v st = Some (if u = bits8 v then (prep8 st, []) else delay_propagate (\<lambda>ev. eeq8 (ptr_vec8 ev) v) (event_vec8 v)
      (\<lambda>st. st\<lparr>cur_vec8 := v\<rparr>) (Net_send_vec8 v) t (scalar_delay tab out (bits8 v)) ((prep8 st)\<lparr>delay_list := []\<rparr>))"
    using 2 propagate_waiting [of "prep8 st" e] by (simp add: recv_vec8_held eeq8_iff)
  then show ?case using 2 recv_vec8_held [of tab w "st\<lparr>delay_list := []\<rparr>" out v t] by simp
next
  case (4 st out e u t)
  then show ?case by (auto simp: delay_run_run_def held8_def waiting8_def Let_def split: if_splits)
qed simp

end
