(* ===== verification/Vvp_Modpath.thy ===== *)
theory Vvp_Modpath
  imports Vvp_Delay
begin

text \<open>
  Module path delays (vvp/delay.h, vvp/delay.cc): the sources of the paths to an output note when they change, and
  \<open>vvp_fun_modpath\<close> at the output takes from the paths that changed last the least delay for the edge of its value. The
  sources of a path are in the two lists of the output that they are linked into. The lemmas characterise the paths
  that are chosen and the time of the output.
\<close>

section \<open>Paths\<close>

datatype delay_edge_t =
    DELAY_EDGE_01 | DELAY_EDGE_10 | DELAY_EDGE_0z | DELAY_EDGE_z1 | DELAY_EDGE_1z | DELAY_EDGE_z0
  | DELAY_EDGE_0x | DELAY_EDGE_x1 | DELAY_EDGE_1x | DELAY_EDGE_x0 | DELAY_EDGE_xz | DELAY_EDGE_zx

primrec edge_index :: "delay_edge_t \<Rightarrow> nat" where
  "edge_index DELAY_EDGE_01 = 0"
| "edge_index DELAY_EDGE_10 = 1"
| "edge_index DELAY_EDGE_0z = 2"
| "edge_index DELAY_EDGE_z1 = 3"
| "edge_index DELAY_EDGE_1z = 4"
| "edge_index DELAY_EDGE_z0 = 5"
| "edge_index DELAY_EDGE_0x = 6"
| "edge_index DELAY_EDGE_x1 = 7"
| "edge_index DELAY_EDGE_1x = 8"
| "edge_index DELAY_EDGE_x0 = 9"
| "edge_index DELAY_EDGE_xz = 10"
| "edge_index DELAY_EDGE_zx = 11"

text \<open>The table of \<open>delay_from_edge\<close>, indexed by the encoding of the bits (Z is 2, X is 3).\<close>

definition edge_table :: "delay_edge_t list list" where
  "edge_table =
     [[DELAY_EDGE_01, DELAY_EDGE_01, DELAY_EDGE_0z, DELAY_EDGE_0x],
      [DELAY_EDGE_10, DELAY_EDGE_10, DELAY_EDGE_1z, DELAY_EDGE_1x],
      [DELAY_EDGE_z0, DELAY_EDGE_z1, DELAY_EDGE_z0, DELAY_EDGE_zx],
      [DELAY_EDGE_x0, DELAY_EDGE_x1, DELAY_EDGE_xz, DELAY_EDGE_x0]]"

definition delay_from_edge :: "vvp_bit4_t \<Rightarrow> vvp_bit4_t \<Rightarrow> vvp_time64_t list \<Rightarrow> vvp_time64_t" where
  "delay_from_edge a b arr = arr ! edge_index (edge_table ! bit4_int a ! bit4_int b)"

text \<open>A source: \<open>src_edge\<close> holds the members of \<open>vvp_fun_modpath_edge\<close> (the old value and the edges it looks at).\<close>

record vvp_fun_modpath_src =
  src_delay :: "vvp_time64_t list"
  wake_time :: vvp_time64_t
  condition_flag :: bool
  src_edge :: "(vvp_bit4_t \<times> bool \<times> bool) option"

definition new_modpath_src :: "vvp_time64_t list \<Rightarrow> vvp_fun_modpath_src" where
  "new_modpath_src del = \<lparr>src_delay = take 12 del, wake_time = 0, condition_flag = True, src_edge = None\<rparr>"

definition new_modpath_edge :: "vvp_time64_t list \<Rightarrow> bool \<Rightarrow> bool \<Rightarrow> vvp_fun_modpath_src" where
  "new_modpath_edge del pos neg = (new_modpath_src del)\<lparr>src_edge := Some (BIT4_X, pos, neg)\<rparr>"

definition test_vec4 :: "vvp_vector4_t \<Rightarrow> vvp_fun_modpath_src \<Rightarrow> vvp_fun_modpath_src \<times> bool" where
  "test_vec4 b src =
     (case src_edge src of
        None \<Rightarrow> (src, True)
      | Some (tmp, posedge, negedge) \<Rightarrow>
          let old_value = value4 b 0;
              edge_flag = edge tmp old_value
          in (src\<lparr>src_edge := Some (old_value, posedge, negedge)\<rparr>,
              if edge_flag > 0 then posedge else if edge_flag < 0 then negedge else False))"

definition src_recv_vec4 :: "vvp_time64_t \<Rightarrow> nat \<Rightarrow> vvp_vector4_t \<Rightarrow> vvp_fun_modpath_src \<Rightarrow> vvp_fun_modpath_src" where
  "src_recv_vec4 now port b src =
     (if port = 0 then let (src, flag) = test_vec4 b src in if flag then src\<lparr>wake_time := now\<rparr> else src
      else if port = 1 then src\<lparr>condition_flag := value4 b 0 = BIT4_1\<rparr>
      else src)"

definition get_delay12 :: "vvp_fun_modpath_src \<Rightarrow> vvp_time64_t list" where
  "get_delay12 src = src_delay src"

definition put_delay12 :: "vvp_time64_t list \<Rightarrow> vvp_fun_modpath_src \<Rightarrow> vvp_fun_modpath_src" where
  "put_delay12 val src = src\<lparr>src_delay := take 12 val\<rparr>"

section \<open>The output\<close>

record vvp_fun_modpath =
  mod_self :: address
  mod_net :: address
  mod_cur :: vvp_vector4_t
  src_list :: "vvp_fun_modpath_src list"
  ifnone_list :: "vvp_fun_modpath_src list"

definition new_modpath :: "address \<Rightarrow> address \<Rightarrow> nat \<Rightarrow> vvp_fun_modpath \<times> delay_action list" where
  "new_modpath this net width =
     (let v = vector4_fill width BIT4_X
      in (\<lparr>mod_self = this, mod_net = net, mod_cur = v, src_list = [], ifnone_list = []\<rparr>, [Net_schedule (Schedule_init_propagate net v)]))"

definition add_modpath_src :: "vvp_fun_modpath_src \<Rightarrow> bool \<Rightarrow> vvp_fun_modpath \<Rightarrow> vvp_fun_modpath" where
  "add_modpath_src that ifnone st =
     (if ifnone then st\<lparr>ifnone_list := that # ifnone_list st\<rparr> else st\<lparr>src_list := that # src_list st\<rparr>)"

text \<open>The two loops that collect the candidates.\<close>

fun collect_src :: "vvp_fun_modpath_src list \<Rightarrow> vvp_fun_modpath_src list \<times> vvp_time64_t \<Rightarrow> vvp_fun_modpath_src list \<times> vvp_time64_t" where
  "collect_src [] acc = acc"
| "collect_src (cur # rest) (cands, wt) =
     (if \<not> condition_flag cur then collect_src rest (cands, wt)
      else if cands = [] then collect_src rest ([cur], wake_time cur)
      else if wake_time cur = wt then collect_src rest (cands @ [cur], wt)
      else if wake_time cur > wt then collect_src rest ([cur], wake_time cur)
      else collect_src rest (cands, wt))"

fun collect_ifnone :: "vvp_time64_t \<Rightarrow> vvp_fun_modpath_src list \<Rightarrow> vvp_fun_modpath_src list \<times> vvp_time64_t \<Rightarrow> vvp_fun_modpath_src list \<times> vvp_time64_t" where
  "collect_ifnone cwt [] acc = acc"
| "collect_ifnone cwt (cur # rest) (cands, iwt) =
     (if cands = [] then collect_ifnone cwt rest ([cur], wake_time cur)
      else if wake_time cur = iwt \<and> iwt > cwt then collect_ifnone cwt rest (cands @ [cur], iwt)
      else if wake_time cur > iwt then collect_ifnone cwt rest ([cur], wake_time cur)
      else collect_ifnone cwt rest (cands, iwt))"

definition candidates :: "vvp_fun_modpath \<Rightarrow> vvp_fun_modpath_src list" where
  "candidates st =
     (let (cands, wt) = collect_src (src_list st) ([], 0)
      in fst (collect_ifnone wt (ifnone_list st) (cands, wt)))"

text \<open>The twelve delays from now, the least of the candidates each.\<close>

definition src_out_at :: "vvp_time64_t \<Rightarrow> vvp_fun_modpath_src \<Rightarrow> nat \<Rightarrow> vvp_time64_t" where
  "src_out_at now src idx = (let tmp = wake_time src + src_delay src ! idx in if tmp \<le> now then 0 else tmp - now)"

definition out_at :: "vvp_time64_t \<Rightarrow> vvp_fun_modpath_src list \<Rightarrow> vvp_time64_t list" where
  "out_at now cands =
     map (\<lambda>idx. fold (\<lambda>src m. let tmp = src_out_at now src idx in if tmp < m then tmp else m) (tl cands) (src_out_at now (hd cands) idx)) [0..<12]"

definition modpath_recv_vec4 :: "vvp_time64_t \<Rightarrow> nat \<Rightarrow> vvp_vector4_t \<Rightarrow> vvp_fun_modpath \<Rightarrow> vvp_fun_modpath \<times> delay_action list" where
  "modpath_recv_vec4 now port b st =
     (if port > 0 \<or> eeq (mod_cur st) b then (st, [])
      else let cands = candidates st;
               use_delay = (if cands = [] then 0 else delay_from_edge (value4 (mod_cur st) 0) (value4 b 0) (out_at now cands))
           in (st\<lparr>mod_cur := b\<rparr>, [Net_schedule (Schedule_generic (Some (mod_self st)) use_delay False False False)]))"

definition modpath_run_run :: "vvp_fun_modpath \<Rightarrow> delay_action list" where
  "modpath_run_run st = [Net_send_vec4 (mod_cur st)]"

section \<open>The chosen paths\<close>

text \<open>The time of the last change, and the paths that changed then.\<close>

definition latest_time :: "vvp_fun_modpath_src list \<Rightarrow> vvp_time64_t" where
  "latest_time srcs = fold max (map wake_time srcs) 0"

definition latest :: "vvp_fun_modpath_src list \<Rightarrow> vvp_fun_modpath_src list" where
  "latest srcs = filter (\<lambda>s. wake_time s = latest_time srcs) srcs"

lemma latest_time_snoc [simp]: "latest_time [] = 0" "latest_time (xs @ [x]) = max (wake_time x) (latest_time xs)"
  by (simp_all add: latest_time_def)

lemma latest_time_ge: "x \<in> set xs \<Longrightarrow> wake_time x \<le> latest_time xs"
  by (induction xs rule: rev_induct) (auto simp: le_max_iff_disj)

lemma latest_snoc:
  "latest (xs @ [x]) =
     (if wake_time x > latest_time xs then [x] else if wake_time x = latest_time xs then latest xs @ [x] else latest xs)"
proof (cases "wake_time x" "latest_time xs" rule: linorder_cases)
  case greater
  then have "wake_time s \<noteq> wake_time x" if "s \<in> set xs" for s using latest_time_ge [OF that] by auto
  then show ?thesis using greater by (auto simp: latest_def max_def filter_empty_conv)
qed (auto simp: latest_def max_def)

lemma latest_one: "latest [x] = [x]" "latest_time [x] = wake_time x"
  by (simp_all add: latest_def latest_time_def)

lemma latest_Nil [simp]: "latest xs = [] \<longleftrightarrow> xs = []"
proof (induction xs rule: rev_induct)
  case (snoc x xs)
  then show ?case by (cases "xs = []") (auto simp: latest_snoc latest_one word_gt_0)
qed (simp add: latest_def)

lemma collect_src_ok:
  "collect_src xs (latest ys, latest_time ys) = (latest (ys @ filter condition_flag xs), latest_time (ys @ filter condition_flag xs))"
proof (induction xs arbitrary: ys)
  case (Cons x xs)
  show ?case
  proof (cases "condition_flag x")
    case True
    have "collect_src (x # xs) (latest ys, latest_time ys) = collect_src xs (latest (ys @ [x]), latest_time (ys @ [x]))"
    proof (cases "ys = []")
      case True
      then show ?thesis using \<open>condition_flag x\<close> latest_one [of x] by simp
    qed (use True in \<open>auto simp: latest_snoc max_def\<close>)
    then show ?thesis using Cons.IH [of "ys @ [x]"] True by simp
  qed (simp add: Cons.IH)
qed simp

text \<open>
  The ifnone paths count only if they changed after every other path that is enabled; without an enabled path
  they count, but if none has ever changed, only the first.
\<close>

definition chosen_paths :: "vvp_fun_modpath_src list \<Rightarrow> vvp_fun_modpath_src list \<Rightarrow> vvp_fun_modpath_src list" where
  "chosen_paths en none =
     (if latest_time none > latest_time en then latest none else if en \<noteq> [] then latest en else take 1 none)"

lemma take_one_snoc: "ys \<noteq> [] \<Longrightarrow> take (Suc 0) (ys @ [z]) = take (Suc 0) ys"
  by (cases ys) simp_all

lemma collect_ifnone_ok:
  "collect_ifnone (latest_time en) zs (chosen_paths en ys, max (latest_time en) (latest_time ys)) =
    (chosen_paths en (ys @ zs), max (latest_time en) (latest_time (ys @ zs)))"
proof (induction zs arbitrary: ys)
  case (Cons z zs)
  have nil: "chosen_paths en ys = [] \<longleftrightarrow> en = [] \<and> ys = []"
    by (auto simp: chosen_paths_def)
  have "collect_ifnone (latest_time en) (z # zs) (chosen_paths en ys, max (latest_time en) (latest_time ys)) =
      collect_ifnone (latest_time en) zs (chosen_paths en (ys @ [z]), max (latest_time en) (latest_time (ys @ [z])))"
  proof (cases "en = [] \<and> ys = []")
    case True
    then show ?thesis using nil by (auto simp: chosen_paths_def latest_def latest_time_def max_def)
  next
    case False
    then have ne: "chosen_paths en ys \<noteq> []" using nil by blast
    consider "wake_time z > max (latest_time en) (latest_time ys)" | "wake_time z = max (latest_time en) (latest_time ys)" "latest_time ys > latest_time en"
      | "wake_time z = max (latest_time en) (latest_time ys)" "latest_time ys \<le> latest_time en" | "wake_time z < max (latest_time en) (latest_time ys)"
      by (meson linorder_less_linear not_le)
    then show ?thesis
    proof cases
      case 1
      then have "chosen_paths en (ys @ [z]) = [z]" "max (latest_time en) (latest_time (ys @ [z])) = wake_time z"
        by (simp_all add: chosen_paths_def latest_snoc less_max_iff_disj max_absorb1 max_absorb2)
      moreover have "wake_time z \<noteq> max (latest_time en) (latest_time ys)" using 1 by (metis less_irrefl)
      ultimately show ?thesis using 1 ne by simp
    next
      case 2
      then have "wake_time z = latest_time ys" by (simp add: max_absorb2)
      then have "chosen_paths en (ys @ [z]) = chosen_paths en ys @ [z]" "max (latest_time en) (latest_time (ys @ [z])) = wake_time z"
        using 2 by (simp_all add: chosen_paths_def latest_snoc max_absorb2)
      then show ?thesis using 2 ne by (simp add: max_absorb2)
    next
      case 3
      then have z: "wake_time z = latest_time en" by (simp add: max_absorb1)
      then have "chosen_paths en (ys @ [z]) = chosen_paths en ys" using False 3(2) by (auto simp: chosen_paths_def less_max_iff_disj take_one_snoc Suc_le_eq)
      then show ?thesis using z 3(2) ne by (simp add: max_absorb1)
    next
      case 4
      have "max (latest_time en) (max (wake_time z) (latest_time ys)) = max (latest_time en) (latest_time ys)" "wake_time z \<noteq> max (latest_time en) (latest_time ys)"
        using 4 by (auto simp: max_def)
      moreover have "chosen_paths en (ys @ [z]) = chosen_paths en ys"
      proof (cases "wake_time z < latest_time ys")
        case True
        then show ?thesis using False by (auto simp: chosen_paths_def latest_snoc max_absorb2 take_one_snoc Suc_le_eq)
      next
        case zy: False
        then have "wake_time z < latest_time en" using 4 by (auto simp: max_def split: if_splits)
        then show ?thesis using False zy by (auto simp: chosen_paths_def less_max_iff_disj take_one_snoc Suc_le_eq)
      qed
      moreover have "\<not> max (latest_time en) (latest_time ys) < wake_time z" using 4 by (meson less_asym)
      ultimately show ?thesis using 4 ne by (simp del: max_less_iff_conj)
    qed
  qed
  then show ?case using Cons.IH [of "ys @ [z]"] by simp
qed simp

lemma candidates_ok: "candidates st = chosen_paths (filter condition_flag (src_list st)) (ifnone_list st)"
proof -
  let ?en = "filter condition_flag (src_list st)"
  have src: "collect_src (src_list st) ([], 0) = (latest ?en, latest_time ?en)"
    using collect_src_ok [of "src_list st" "[]"] by (simp add: latest_def)
  moreover have "chosen_paths ?en [] = latest ?en" by (cases "?en = []") (auto simp: chosen_paths_def latest_def)
  ultimately show ?thesis using collect_ifnone_ok [of ?en "ifnone_list st" "[]"] by (simp add: candidates_def)
qed

text \<open>The least of the times at which the chosen paths let the value through, but not before now.\<close>

lemma fold_less_min: "fold (\<lambda>s m. let tmp = f s in if tmp < m then tmp else m) xs m = fold min (map f xs) (m :: vvp_time64_t)"
  by (induction xs arbitrary: m) (auto simp: Let_def min_def)

lemma fold_min_Min: "fold min xs m = Min (set (m # xs))" for m :: vvp_time64_t
  by (simp only: Min.set_eq_fold)

lemma src_out_at_max:
  assumes "unat (wake_time src) + unat (src_delay src ! idx) < 2 ^ 64"
  shows "unat now + unat (src_out_at now src idx) = max (unat now) (unat (wake_time src) + unat (src_delay src ! idx))"
proof -
  have "unat (wake_time src + src_delay src ! idx) = unat (wake_time src) + unat (src_delay src ! idx)"
    using assms by (simp add: unat_word_ariths)
  then show ?thesis by (auto simp: src_out_at_def Let_def word_le_nat_alt unat_sub max_def)
qed

lemma out_at_Min: "cands \<noteq> [] \<Longrightarrow> k < 12 \<Longrightarrow> out_at now cands ! k = Min ((\<lambda>s. src_out_at now s k) ` set cands)"
proof -
  assume "cands \<noteq> []" "k < 12"
  then obtain x xs where c: "cands = x # xs" by (cases cands) auto
  show ?thesis using \<open>k < 12\<close> unfolding out_at_def c by (simp add: fold_less_min fold_min_Min image_image del: Min_insert)
qed

lemma edge_index_bound: "edge_index e < 12"
  by (cases e) simp_all

lemma modpath_time:
  assumes "cands \<noteq> []" "k < 12" "\<forall>s \<in> set cands. unat (wake_time s) + unat (src_delay s ! k) < 2 ^ 64"
  shows "unat now + unat (out_at now cands ! k) = max (unat now) (Min ((\<lambda>s. unat (wake_time s) + unat (src_delay s ! k)) ` set cands))"
proof -
  have "mono (\<lambda>x :: vvp_time64_t. unat now + unat x)" "mono (max (unat now))" by (auto simp: mono_def word_le_nat_alt)
  then have "unat now + unat (Min ((\<lambda>s. src_out_at now s k) ` set cands)) = Min ((\<lambda>s. unat now + unat (src_out_at now s k)) ` set cands)"
    "max (unat now) (Min ((\<lambda>s. unat (wake_time s) + unat (src_delay s ! k)) ` set cands)) =
      Min ((\<lambda>s. max (unat now) (unat (wake_time s) + unat (src_delay s ! k))) ` set cands)"
    using assms(1) mono_Min_commute [of "\<lambda>x. unat now + unat x" "(\<lambda>s. src_out_at now s k) ` set cands"]
      mono_Min_commute [of "max (unat now)" "(\<lambda>s. unat (wake_time s) + unat (src_delay s ! k)) ` set cands"]
    by (simp_all add: image_image)
  moreover have "(\<lambda>s. unat now + unat (src_out_at now s k)) ` set cands = (\<lambda>s. max (unat now) (unat (wake_time s) + unat (src_delay s ! k))) ` set cands"
    using assms(3) by (intro image_cong refl src_out_at_max) simp
  ultimately show ?thesis by (simp add: out_at_Min [OF assms(1,2)])
qed

end
