(* ===== verification/Delay_Props.thy ===== *)
theory Delay_Props
  imports Vvp_DelaySpec Vvp_Modpath Vvp_Agenda
begin

text \<open>
  The properties of the delay functor and of the module paths, with an instance on concrete values where a property has
  hypotheses.
\<close>

lemma value4_fill: "i < w \<Longrightarrow> value4 (vector4_fill w b) i = b"
  using nth_value4 [of i "vector4_fill w b"] by (simp add: bits4_fill)

lemma new_delay_held:
  assumes "0 < w"
  shows "\<exists>st. new_fun_delay this net w tab p q = Some (st, [Net_schedule (Schedule_init_propagate net (vector4_fill w BIT4_X))]) \<and>
    delay_list st = [] \<and> initial st \<and> held4 tab w st = Some (replicate w BIT4_X) \<and> held8 tab w st = Some (replicate w (plain BIT4_X 6))"
proof -
  have s: "scalar_of BIT4_X 6 6 = Some (plain BIT4_X 6)" by (simp add: scalar_of_mk plain_def)
  obtain v8 where v8: "vector8_of4 (vector4_fill w BIT4_X) 6 6 = Some v8" "wf8 v8" "size8 v8 = w" "bits8 v8 = replicate w (plain BIT4_X 6)"
    using vector8_of_ok [of w "value4 (vector4_fill w BIT4_X)" 6 6 "\<lambda>_. plain BIT4_X 6"] s
    by (auto simp: vector8_of4_def map_replicate_const value4_fill)
  let ?st = "\<lparr>self = this, delay_net = net, delay_tab = tab, delay_type = UNKNOWN_DELAY, initial = True, cur_vec4 = vector4_fill w BIT4_X,
    cur_vec8 = v8, time_round = 10 ^ nat p, time_scale = 10 ^ nat q, delay_list = []\<rparr>"
  have "held4 tab w ?st = Some (replicate w BIT4_X)" "held8 tab w ?st = Some (replicate w (plain BIT4_X 6))"
    using v8 by (simp_all add: held4_def held8_def bits4_fill plain_value)
  then show ?thesis using v8(1) by (intro exI [of _ ?st]) (simp add: new_fun_delay_def Let_def assms)
qed

text \<open>
  C19. The delay functor is an inertial delay, on four-state vectors and on strength vectors: of the values that arrive in
  turn, it sends those that stay at its input for their delay, and sends them that much later; a value that
  changes before is dropped. The delay is the greatest of the delays of the bits that change. An event of the functor at the time
  at which a value arrives is assumed to run before the value arrives, and the times to stay below the range of 64 bits.
\<close>

theorem inertial_delay_correct:
  assumes "delay_wf tab" "0 < w"
    and "list_all (\<lambda>(t, v). wf4 v \<and> size4 v = w) ins" "sorted (map fst ins)" "\<forall>t \<in> fst ` set ins. unat t + 2 * unat (max_delay tab) < 2 ^ 64"
    and "list_all (\<lambda>(t, v). wf8 v \<and> size8 v = w) ins8" "sorted (map fst ins8)" "\<forall>t \<in> fst ` set ins8. unat t + 2 * unat (max_delay tab) < 2 ^ 64"
  shows "\<exists>st acts outs outs8. new_fun_delay this net w tab p q = Some (st, acts) \<and>
    delay_sim delay_recv_vec4 sent4 [] ins st = Some outs \<and>
    map (apsnd bits4) outs = inertial (bit_delay tab) (replicate w BIT4_X) (map (apsnd bits4) ins) \<and>
    delay_sim delay_recv_vec8 sent8 [] ins8 st = Some outs8 \<and>
    map (apsnd bits8) outs8 = inertial (scalar_delay tab) (replicate w (plain BIT4_X 6)) (map (apsnd bits8) ins8)"
proof -
  obtain st where st: "new_fun_delay this net w tab p q = Some (st, [Net_schedule (Schedule_init_propagate net (vector4_fill w BIT4_X))])"
    "delay_list st = []" "held4 tab w st = Some (replicate w BIT4_X)" "held8 tab w st = Some (replicate w (plain BIT4_X 6))"
    using new_delay_held [OF assms(2)] by blast
  have "delay4.state_ok tab w st (replicate w BIT4_X) None []" "delay8.state_ok tab w st (replicate w (plain BIT4_X 6)) None []"
    using st by (simp_all add: delay4.state_ok_def delay8.state_ok_def)
  moreover have "bit_delay tab u v \<le> max_delay tab" "scalar_delay tab u' v' \<le> max_delay tab" for u v u' v'
    using bit_delay_le [OF assms(1)] by (simp_all add: scalar_delay_def)
  ultimately show ?thesis
    using delay4.sim_ok [of tab "max_delay tab" w st "replicate w BIT4_X" None "[]" ins] delay8.sim_ok [of tab "max_delay tab" w st _ None "[]" ins8]
      assms(2-) st(1) by (auto simp: case_prod_unfold)
qed

theorem inertial_delay_correct_witness:
  "\<exists>st acts outs. new_fun_delay 1 2 1 (delay2 5 5) 0 0 = Some (st, acts) \<and>
     delay_sim delay_recv_vec4 sent4 [] [(10, vector4_fill 1 BIT4_1), (12, vector4_fill 1 BIT4_0)] st = Some outs \<and>
     map (apsnd bits4) outs = [(17, [BIT4_0])]"
proof -
  have "delay_wf (delay2 5 5)" by (rule new_delay_wf)
  then show ?thesis
    using inertial_delay_correct [of "delay2 5 5" 1 "[(10, vector4_fill 1 BIT4_1), (12, vector4_fill 1 BIT4_0)]" "[]" 1 2 0 0]
    by (auto simp: delay2_def max_delay_def bit_delay_def get_delay_def bits4_fill)
qed

text \<open>
  Without the assumption on the order the functor may end with a wrong value: two values arrive at the time of an event,
  before it runs, the second equal to that of the event. It is compared with the oldest event of the list in place of the last one,
  and dropped; the value in between comes out last.
\<close>

lemma delay_stale_value:
  "\<exists>st1 st2 st3 st4 st5 acts1 acts2 acts3 acts4 acts5.
     delay_recv_vec4 0 0 (vector4_fill 1 BIT4_1) (fst (the (new_fun_delay 1 2 1 (delay2 5 5) 0 0))) = Some (st1, acts1) \<and>
     delay_recv_vec4 5 0 (vector4_fill 1 BIT4_0) st1 = Some (st2, acts2) \<and>
     delay_recv_vec4 5 0 (vector4_fill 1 BIT4_1) st2 = Some (st3, acts3) \<and>
     delay_run_run 5 st3 = (st4, acts4) \<and> delay_run_run 10 st4 = (st5, acts5) \<and>
     delay_list st5 = [] \<and> cur_vec4 st5 = vector4_fill 1 BIT4_0"
proof -
  let ?v = "vector4_fill 1" and ?ev = "\<lambda>t b. (event_vec4 (vector4_fill 1 b))\<lparr>sim_time := t\<rparr>"
  obtain st where st: "new_fun_delay 1 2 1 (delay2 5 5) 0 0 = Some (st, [Net_schedule (Schedule_init_propagate 2 (vector4_fill 1 BIT4_X))])"
    "delay_list st = []" "initial st" "held4 (delay2 5 5) 1 st = Some (replicate 1 BIT4_X)"
    using new_delay_held [of 1 1 2 "delay2 5 5" 0 0] by auto
  have cur: "delay_tab st = delay2 5 5" "bits4 (cur_vec4 st) = [BIT4_X]" "size4 (cur_vec4 st) = 1"
    using st(4) by (auto simp: held4_def split: if_splits)
  have "value4 (cur_vec4 st) 0 = BIT4_X" using nth_value4 [of 0 "cur_vec4 st"] cur(2,3) by simp
  then have recv: "delay_recv_vec4 t 0 (?v b) (st\<lparr>delay_list := es, delay_type := ty, cur_vec8 := v8\<rparr>) =
      Some (delay_propagate (\<lambda>ev. bits4 (ptr_vec4 ev) = [b]) (event_vec4 (?v b)) (\<lambda>st. st\<lparr>cur_vec4 := ?v b\<rparr>) (Net_send_vec4 (?v b)) t
        (get_delay (delay2 5 5) BIT4_X b) (st\<lparr>delay_list := es, delay_type := VEC4_DELAY, cur_vec8 := vector8_new 0\<rparr>))" for t b ty v8 es
    using st(3) cur(1) by (simp add: delay_recv_vec4_def Let_def scan_delay_def value4_fill eeq_iff bits4_fill)
  have st0: "st = st\<lparr>delay_list := [], delay_type := delay_type st, cur_vec8 := cur_vec8 st\<rparr>" using st(2) by simp
  have tab: "get_delay (delay2 5 5) BIT4_X BIT4_1 = 5" "get_delay (delay2 5 5) BIT4_X BIT4_0 = 5" by (simp_all add: get_delay_def delay2_def)
  let ?st = "\<lambda>es. st\<lparr>delay_list := es, delay_type := VEC4_DELAY, cur_vec8 := vector8_new 0\<rparr>"
  have r1: "\<exists>acts. delay_recv_vec4 0 0 (?v BIT4_1) st = Some (?st [?ev 5 BIT4_1], acts)"
    by (subst st0, subst recv) (simp add: propagate_defs tab event_vec4_def)
  have r2: "\<exists>acts. delay_recv_vec4 5 0 (?v BIT4_0) (?st [?ev 5 BIT4_1]) = Some (?st [?ev 5 BIT4_1, ?ev 10 BIT4_0], acts)"
    by (subst recv) (simp add: propagate_defs tab event_vec4_def bits4_fill)
  have r3: "\<exists>acts. delay_recv_vec4 5 0 (?v BIT4_1) (?st [?ev 5 BIT4_1, ?ev 10 BIT4_0]) = Some (?st [?ev 5 BIT4_1, ?ev 10 BIT4_0], acts)"
    by (subst recv) (simp add: propagate_defs tab event_vec4_def bits4_fill)
  show ?thesis using st(1) r1 r2 r3 by (fastforce simp: delay_run_run_def Let_def event_vec4_def)
qed




text \<open>
  The table of delays keeps the least of its delays up to date, whatever sequence of changes arrives at the ports of a
  delay functor: a change of a bit to another value takes at least the least delay and at most the greatest, a change to X the
  least, and no change takes no time. A decay time can be set only if it is not the one derived from the others.
\<close>

theorem delay_table_invariant:
  assumes "d \<in> {delay2 r f, delay3 r f dec, set_ignore_decay (delay3 r f dec)}" "set_delays ops d = Some d'"
  shows "min_delay d' = min (min (rise d') (fall d')) (decay d') \<and> get_delay d' b b = 0 \<and>
    (b \<noteq> c \<longrightarrow> min_delay d' \<le> get_delay d' b c \<and> get_delay d' b c \<le> max (max (rise d') (fall d')) (decay d')) \<and>
    (b \<noteq> BIT4_X \<longrightarrow> get_delay d' b BIT4_X = min_delay d')"
proof -
  have "delay_wf d" using assms(1) new_delay_wf by auto
  then have "delay_wf d'" using set_delays_wf assms(2) by blast
  then show ?thesis using get_delay_bounds [of d' b c] by (cases b) (auto simp: delay_wf_def max_delay_def get_delay_def)
qed

theorem delay_table_invariant_witness:
  "get_delay (set_rise 2 (delay2 7 5)) BIT4_0 BIT4_X = 2"
proof -
  have "set_delays [(1, 2)] (delay2 7 5) = Some (set_rise 2 (delay2 7 5))" by simp
  then have "get_delay (set_rise 2 (delay2 7 5)) BIT4_0 BIT4_X = min_delay (set_rise 2 (delay2 7 5))"
    using delay_table_invariant [of "delay2 7 5" 7 5 0 "[(1, 2)]" "set_rise 2 (delay2 7 5)" BIT4_0 BIT4_0] by simp
  then show ?thesis by (simp add: set_rise_def delay2_def)
qed

end
