(* ===== verification/Vvp_Compare.thy ===== *)
theory Vvp_Compare
  imports Vvp_Value4 Vvp_Div2 Vvp_Blit
begin

text \<open>
  The relational operators on four-state vectors (vvp/vvp_net.cc, \<open>compare_gtge\<close> and \<open>compare_gtge_signed\<close>). On vectors without X
  and Z bits they decide the order of the numbers, with any X or Z bit they give X.
\<close>

section \<open>Definitions\<close>

text \<open>The loop over the bits that both operands have, from the top.\<close>

fun compare_loop :: "vvp_vector4_t \<Rightarrow> vvp_vector4_t \<Rightarrow> nat \<Rightarrow> vvp_bit4_t \<Rightarrow> vvp_bit4_t" where
  "compare_loop lef rig 0 out_if_equal = out_if_equal"
| "compare_loop lef rig (Suc idx) out_if_equal =
     (let lv = value4 lef idx; rv = value4 rig idx
      in if lv = rv then compare_loop lef rig idx out_if_equal
         else if lv = BIT4_1 then BIT4_1 else BIT4_0)"

definition compare_gtge :: "vvp_vector4_t \<Rightarrow> vvp_vector4_t \<Rightarrow> vvp_bit4_t \<Rightarrow> vvp_bit4_t" where
  "compare_gtge lef rig out_if_equal =
     (let min_size = min (size4 lef) (size4 rig)
      in if min_size = 0 then BIT4_X
         else if has_xz lef then BIT4_X
         else if has_xz rig then BIT4_X
         else if list_ex (\<lambda>idx. value4 lef idx = BIT4_1) [size4 rig..<size4 lef] then BIT4_1
         else if list_ex (\<lambda>idx. value4 rig idx = BIT4_1) [size4 lef..<size4 rig] then BIT4_0
         else compare_loop lef rig min_size out_if_equal)"

text \<open>For vectors of size 0 the index of the sign bit wraps, and the sign bit reads as X.\<close>

definition compare_gtge_signed :: "vvp_vector4_t \<Rightarrow> vvp_vector4_t \<Rightarrow> vvp_bit4_t \<Rightarrow> vvp_bit4_t option" where
  "compare_gtge_signed a b out_if_equal =
     (if size4 a \<noteq> size4 b then None
      else let sign_idx = size4 a - 1;
               a_sign = value4 a sign_idx;
               b_sign = value4 b sign_idx
           in Some (if bit4_is_xz a_sign then BIT4_X
                    else if bit4_is_xz b_sign then BIT4_X
                    else if a_sign = b_sign then compare_gtge a b out_if_equal
                    else if has_xz a then BIT4_X
                    else if has_xz b then BIT4_X
                    else if a_sign = BIT4_0 then BIT4_1
                    else BIT4_0))"

section \<open>The order of the numbers\<close>

definition order_bit :: "vvp_bit4_t \<Rightarrow> int \<Rightarrow> int \<Rightarrow> vvp_bit4_t" where
  "order_bit out_if_equal x y = (if x > y then BIT4_1 else if x = y then out_if_equal else BIT4_0)"

lemma compare_loop_ok:
  assumes "n \<le> size4 lef" "n \<le> size4 rig" "\<And>i. i < n \<Longrightarrow> \<not> bit4_is_xz (value4 lef i) \<and> \<not> bit4_is_xz (value4 rig i)"
  shows "compare_loop lef rig n e = order_bit e (take_bit n (uval4 lef)) (take_bit n (uval4 rig))"
  using assms
proof (induction n)
  case (Suc n)
  have top: "take_bit (Suc n) (uval4 v) = take_bit n (uval4 v) + (if value4 v n = BIT4_1 then 2 ^ n else 0)" if "n < size4 v" for v
    using that by (simp add: take_bit_Suc_from_most bit_uval4)
  have b: "value4 lef n = BIT4_0 \<or> value4 lef n = BIT4_1" "value4 rig n = BIT4_0 \<or> value4 rig n = BIT4_1"
    using Suc.prems(3) [of n] by (cases "value4 lef n"; cases "value4 rig n"; simp add: bit4_is_xz_iff)+
  define x y where "x = take_bit n (uval4 lef)" and "y = take_bit n (uval4 rig)"
  have "x < 2 ^ n" "y < 2 ^ n" "0 \<le> x" "0 \<le> y" by (simp_all add: x_def y_def take_bit_int_less_exp)
  then show ?case using Suc.IH Suc.prems b unfolding x_def [symmetric] y_def [symmetric]
    by (auto simp: order_bit_def top x_def [symmetric] y_def [symmetric])
qed (simp add: order_bit_def)

lemma uval4_bounds: "0 \<le> uval4 v" "uval4 v < 2 ^ size4 v"
proof -
  have "uval4 v = take_bit (size4 v) (uval4 v)" using take_bit_ubits [of "map one4 (bits4 v)"] by (simp add: uval4_def)
  then show "0 \<le> uval4 v" "uval4 v < 2 ^ size4 v" by (metis take_bit_nonnegative, metis take_bit_int_less_exp)
qed

lemma compare_gtge_ok:
  assumes "0 < size4 lef" "0 < size4 rig"
  shows "compare_gtge lef rig e =
    (if list_ex bit4_is_xz (bits4 lef @ bits4 rig) then BIT4_X else order_bit e (uval4 lef) (uval4 rig))"
proof (cases "list_ex bit4_is_xz (bits4 lef @ bits4 rig)")
  case True
  then show ?thesis using assms by (auto simp: compare_gtge_def Let_def has_xz_iff)
next
  case False
  have no: "\<not> bit4_is_xz (value4 v i)" if "i < size4 v" "v = lef \<or> v = rig" for v i
  proof -
    have "\<not> list_ex bit4_is_xz (bits4 v)" using False that(2) by auto
    then show ?thesis using that(1) by (auto simp: list_ex_length nth_value4)
  qed
  have high: "list_ex (\<lambda>idx. value4 v idx = BIT4_1) [n..<size4 v] \<longleftrightarrow> 2 ^ n \<le> uval4 v" for v n
    using bits_above [OF uval4_bounds(1) [of v], of n] by (auto simp: list_ex_iff bit_uval4)
  let ?m = "min (size4 lef) (size4 rig)"
  have loop: "compare_loop lef rig ?m e = order_bit e (take_bit ?m (uval4 lef)) (take_bit ?m (uval4 rig))"
    using no by (intro compare_loop_ok) auto
  have xz: "\<not> has_xz lef" "\<not> has_xz rig" using False assms by (auto simp: has_xz_iff)
  have small: "take_bit ?m (uval4 v) = uval4 v" if "uval4 v < 2 ^ ?m" for v
    using that uval4_bounds(1) [of v] by (simp add: take_bit_int_eq_self)
  show ?thesis
  proof (cases "2 ^ size4 rig \<le> uval4 lef")
    case True
    then show ?thesis using False xz assms uval4_bounds(2) [of rig] by (simp add: compare_gtge_def Let_def high order_bit_def)
  next
    case nl: False
    show ?thesis
    proof (cases "2 ^ size4 lef \<le> uval4 rig")
      case True
      then show ?thesis using False nl xz assms uval4_bounds(2) [of lef] by (simp add: compare_gtge_def Let_def high order_bit_def)
    next
      case nr: False
      then have "uval4 lef < 2 ^ ?m" "uval4 rig < 2 ^ ?m" using nl uval4_bounds(2) [of lef] uval4_bounds(2) [of rig] by (simp_all add: min_def)
      then have "take_bit ?m (uval4 lef) = uval4 lef" "take_bit ?m (uval4 rig) = uval4 rig" using small by blast+
      moreover have "?m \<noteq> 0" using assms by simp
      ultimately show ?thesis using False nl nr xz loop by (auto simp: compare_gtge_def Let_def high min_def)
    qed
  qed
qed

lemma sval4_uval4: "0 < size4 v \<Longrightarrow> sval4 v = uval4 v - (if value4 v (size4 v - 1) = BIT4_1 then 2 ^ size4 v else 0)"
proof -
  assume v: "0 < size4 v"
  then have "bits4 v \<noteq> []" by (metis length_bits4 length_greater_0_conv)
  then show ?thesis using v sbits_ubits [of "map one4 (bits4 v)"] nth_value4 [of "size4 v - 1" v]
    by (simp add: sval4_def uval4_def last_conv_nth)
qed

lemma compare_gtge_signed_ok:
  assumes "size4 b = size4 a" "0 < size4 a"
  shows "compare_gtge_signed a b e =
    Some (if list_ex bit4_is_xz (bits4 a @ bits4 b) then BIT4_X else order_bit e (sval4 a) (sval4 b))"
proof -
  let ?i = "size4 a - 1"
  have xz: "bit4_is_xz (value4 v ?i) \<Longrightarrow> list_ex bit4_is_xz (bits4 v)" if "size4 v = size4 a" for v
    using that assms(2) by (auto simp: list_ex_length nth_value4 intro!: exI [of _ ?i])
  have s: "sval4 a = uval4 a - (if value4 a ?i = BIT4_1 then 2 ^ size4 a else 0)" "sval4 b = uval4 b - (if value4 b ?i = BIT4_1 then 2 ^ size4 a else 0)"
    using sval4_uval4 [of a] sval4_uval4 [of b] assms by simp_all
  show ?thesis
  proof (cases "list_ex bit4_is_xz (bits4 a @ bits4 b)")
    case True
    then show ?thesis using assms compare_gtge_ok [of a b e] has_xz_iff [of a] has_xz_iff [of b]
      by (auto simp: compare_gtge_signed_def Let_def)
  next
    case False
    then have n: "\<not> bit4_is_xz (value4 a ?i)" "\<not> bit4_is_xz (value4 b ?i)" "\<not> has_xz a" "\<not> has_xz b"
      using xz [of a] xz [of b] has_xz_iff [of a] has_xz_iff [of b] assms by auto
    then have "value4 a ?i = BIT4_0 \<or> value4 a ?i = BIT4_1" "value4 b ?i = BIT4_0 \<or> value4 b ?i = BIT4_1"
      by (cases "value4 a ?i"; cases "value4 b ?i"; simp add: bit4_is_xz_iff)+
    then show ?thesis
      using n False assms uval4_bounds [of a] uval4_bounds [of b] compare_gtge_ok [of a b e]
      by (auto simp: compare_gtge_signed_def Let_def s order_bit_def)
  qed
qed

end
