(* ===== verification/Vvp_Arithfun.thy ===== *)
theory Vvp_Arithfun
  imports Vvp_Compare Vvp_Tree Vvp_Switch
begin

text \<open>
  The arithmetic functors of the simulator (vvp/arith.h, vvp/arith.cc): nodes with two operand ports that compute their
  output anew for each operand that arrives. Each functor is its output as a function of the state, and \<open>arith_recv\<close> is
  the handler that all of them share: store the operand, compute, send.
\<close>

section \<open>State\<close>

record vvp_arith =
  arith_wid :: nat
  op_a :: vvp_vector4_t
  op_b :: vvp_vector4_t
  x_val :: vvp_vector4_t
  signed_flag :: bool

definition new_arith :: "nat \<Rightarrow> bool \<Rightarrow> vvp_arith option" where
  "new_arith wid sf =
     do {
       a \<leftarrow> set_loop set_bit4 0 (\<lambda>_. BIT4_Z) wid (vector4_fill wid BIT4_X);
       b \<leftarrow> set_loop set_bit4 0 (\<lambda>_. BIT4_Z) wid (vector4_fill wid BIT4_X);
       x \<leftarrow> set_loop set_bit4 0 (\<lambda>_. BIT4_X) wid (vector4_fill wid BIT4_X);
       Some \<lparr>arith_wid = wid, op_a = a, op_b = b, x_val = x, signed_flag = sf\<rparr> }"

definition dispatch_operand :: "nat \<Rightarrow> vvp_vector4_t \<Rightarrow> vvp_arith \<Rightarrow> vvp_arith option" where
  "dispatch_operand port b st =
     (if port = 0 then Some (st\<lparr>op_a := b\<rparr>) else if port = 1 then Some (st\<lparr>op_b := b\<rparr>) else None)"

definition arith_recv :: "(vvp_arith \<Rightarrow> vvp_vector4_t option) \<Rightarrow> nat \<Rightarrow> vvp_vector4_t \<Rightarrow> vvp_arith \<Rightarrow> (vvp_arith \<times> vvp_vector4_t option) option" where
  "arith_recv output port b st = do { st \<leftarrow> dispatch_operand port b st; out \<leftarrow> output st; Some (st, Some out) }"

text \<open>The vector of the low bits of a native value; the loops shift the value right once for each bit.\<close>

definition native_out :: "nat \<Rightarrow> ulong \<Rightarrow> vvp_vector4_t option" where
  "native_out wid val =
     set_loop set_bit4 0 (\<lambda>idx. if bit val idx then BIT4_1 else BIT4_0) wid (vector4_fill wid BIT4_X)"

section \<open>Functors with one operand\<close>

definition arith_abs :: "vvp_vector4_t \<Rightarrow> vvp_vector4_t option" where
  "arith_abs b =
     do { cmp \<leftarrow> compare_gtge_signed b (vector4_fill (size4 b) BIT4_0) BIT4_1;
          case cmp of
            BIT4_1 \<Rightarrow> Some b
          | BIT4_0 \<Rightarrow> add_int (copy_inverted_from b) 1
          | _ \<Rightarrow> Some (vector4_fill (size4 b) BIT4_X) }"

definition arith_cast_vec2 :: "nat \<Rightarrow> vvp_vector4_t \<Rightarrow> vvp_vector4_t option" where
  "arith_cast_vec2 wid b = do { tmp \<leftarrow> vector2_of4 b False; vector2_to_vector4 tmp wid }"

section \<open>Division and modulus\<close>

text \<open>A native operand without its sign, and whether it had one.\<close>

definition strip_sign :: "bool \<Rightarrow> vvp_vector4_t \<Rightarrow> ulong \<Rightarrow> ulong \<times> bool" where
  "strip_sign sf opr a =
     (if sf
      then let sign_mask = (if size4 opr \<noteq> 64 then ul_shl (-1) (size4 opr) else 0)
           in if value4 opr (size4 opr - 1) \<noteq> BIT4_0 then ((- a) AND NOT sign_mask, True) else (a, False)
      else (a, False))"

definition strip_sign2 :: "bool \<Rightarrow> vvp_vector2_t \<Rightarrow> (vvp_vector2_t \<times> bool) option" where
  "strip_sign2 sf a2 =
     (if sf \<and> value2 a2 (wid2 a2 - 1) \<noteq> 0 then do { n \<leftarrow> neg2 a2; Some (n, True) } else Some (a2, False))"

definition div_wide4 :: "vvp_arith \<Rightarrow> vvp_vector4_t option" where
  "div_wide4 st =
     do {
       a2 \<leftarrow> vector2_of4 (op_a st) True;
       if is_NaN a2 then Some (x_val st)
       else do {
         b2 \<leftarrow> vector2_of4 (op_b st) True;
         if is_NaN b2 \<or> is_zero2 b2 then Some (x_val st)
         else do {
           (a2, na) \<leftarrow> strip_sign2 (signed_flag st) a2;
           (b2, nb) \<leftarrow> strip_sign2 (signed_flag st) b2;
           res \<leftarrow> div2 a2 b2;
           res \<leftarrow> (if na \<noteq> nb then neg2 res else Some res);
           vector2_to_vector4 res (arith_wid st) } } }"

definition div_output :: "vvp_arith \<Rightarrow> vvp_vector4_t option" where
  "div_output st =
     (if arith_wid st > 64 then div_wide4 st
      else case vector4_to_value_ovf (op_a st) of
        None \<Rightarrow> Some (x_val st)
      | Some (_, a) \<Rightarrow>
          (case vector4_to_value_ovf (op_b st) of
             None \<Rightarrow> Some (x_val st)
           | Some (_, b) \<Rightarrow>
               let (a, na) = strip_sign (signed_flag st) (op_a st) a;
                   (b, nb) = strip_sign (signed_flag st) (op_b st) b
               in if b = 0 then set_loop set_bit4 0 (\<lambda>_. BIT4_X) (arith_wid st) (vector4_fill (arith_wid st) BIT4_X)
                  else let val = a div b in native_out (arith_wid st) (if na \<noteq> nb then - val else val)))"

definition mod_wide :: "vvp_arith \<Rightarrow> vvp_vector4_t option" where
  "mod_wide st =
     do {
       a2 \<leftarrow> vector2_of4 (op_a st) True;
       if is_NaN a2 then Some (x_val st)
       else do {
         b2 \<leftarrow> vector2_of4 (op_b st) True;
         if is_NaN b2 \<or> is_zero2 b2 then Some (x_val st)
         else do {
           (a2, na) \<leftarrow> strip_sign2 (signed_flag st) a2;
           (b2, nb) \<leftarrow> strip_sign2 (signed_flag st) b2;
           res \<leftarrow> mod2 a2 b2;
           res \<leftarrow> (if na then neg2 res else Some res);
           vector2_to_vector4 res (wid2 res) } } }"

definition mod_output :: "vvp_arith \<Rightarrow> vvp_vector4_t option" where
  "mod_output st =
     (if arith_wid st > 64 then mod_wide st
      else case vector4_to_value_ovf (op_a st) of
        None \<Rightarrow> Some (x_val st)
      | Some (_, a) \<Rightarrow>
          (case vector4_to_value_ovf (op_b st) of
             None \<Rightarrow> Some (x_val st)
           | Some (_, b) \<Rightarrow>
               let (a, na) = strip_sign (signed_flag st) (op_a st) a;
                   (b, nb) = strip_sign (signed_flag st) (op_b st) b
               in if b = 0 then set_loop set_bit4 0 (\<lambda>_. BIT4_X) (arith_wid st) (vector4_fill (arith_wid st) BIT4_X)
                  else let val = a mod b in native_out (arith_wid st) (if na then - val else val)))"

section \<open>Multiplication, addition and subtraction\<close>

definition mult_wide :: "vvp_arith \<Rightarrow> vvp_vector4_t option" where
  "mult_wide st =
     do {
       a2 \<leftarrow> vector2_of4 (op_a st) True;
       b2 \<leftarrow> vector2_of4 (op_b st) True;
       if is_NaN a2 \<or> is_NaN b2 then Some (x_val st)
       else do { res \<leftarrow> mul2 a2 b2; vector2_to_vector4 res (arith_wid st) } }"

text \<open>The native product; the source computes it in a signed type, whose overflow is taken to wrap.\<close>

definition mult_output :: "vvp_arith \<Rightarrow> vvp_vector4_t option" where
  "mult_output st =
     (if arith_wid st > 64 then mult_wide st
      else case vector4_to_value (op_a st) False True of
        Some (a, True) \<Rightarrow>
          (case vector4_to_value (op_b st) False True of
             Some (b, True) \<Rightarrow> native_out (arith_wid st) (a * b)
           | _ \<Rightarrow> Some (x_val st))
      | _ \<Rightarrow> Some (x_val st))"

text \<open>
  The loop of \<open>vvp_arith_sum\<close> and \<open>vvp_arith_sub\<close> on the bits \<open>a\<close> and \<open>b\<close>; \<open>Some None\<close> if a bit of the sum is unknown.
\<close>

fun carry_loop :: "(nat \<Rightarrow> vvp_bit4_t) \<Rightarrow> (nat \<Rightarrow> vvp_bit4_t) \<Rightarrow> nat \<Rightarrow> nat \<Rightarrow> vvp_bit4_t \<Rightarrow> vvp_vector4_t \<Rightarrow> vvp_vector4_t option option" where
  "carry_loop a b 0 idx carry v = Some (Some v)"
| "carry_loop a b (Suc n) idx carry v =
     (let (cur, carry) = bit4_add_with_carry (a idx) (b idx) carry
      in if cur = BIT4_X then Some None
         else do { v \<leftarrow> set_bit4 v idx cur; carry_loop a b n (idx + 1) carry v })"

definition sum_output :: "vvp_arith \<Rightarrow> vvp_vector4_t option" where
  "sum_output st =
     (let pad = BIT4_0;
          a = (\<lambda>idx. if idx \<ge> size4 (op_a st) then pad else value4 (op_a st) idx);
          b = (\<lambda>idx. if idx \<ge> size4 (op_b st) then pad else value4 (op_b st) idx)
      in do { r \<leftarrow> carry_loop a b (arith_wid st) 0 BIT4_0 (vector4_fill (arith_wid st) BIT4_X);
              Some (case r of None \<Rightarrow> x_val st | Some v \<Rightarrow> v) })"

definition sub_output :: "vvp_arith \<Rightarrow> vvp_vector4_t option" where
  "sub_output st =
     (let pad = BIT4_1;
          a = (\<lambda>idx. if idx \<ge> size4 (op_a st) then pad else value4 (op_a st) idx);
          b = (\<lambda>idx. if idx \<ge> size4 (op_b st) then pad else bit4_not (value4 (op_b st) idx))
      in do { r \<leftarrow> carry_loop a b (arith_wid st) 0 BIT4_1 (vector4_fill (arith_wid st) BIT4_X);
              Some (case r of None \<Rightarrow> x_val st | Some v \<Rightarrow> v) })"

section \<open>Comparison\<close>

text \<open>What the body of a comparison loop does with a pair of bits: nothing, set the result, or set it and break.\<close>

datatype cmp_act = Cmp_continue | Cmp_set vvp_bit4_t | Cmp_break vvp_bit4_t

fun cmp_loop :: "(vvp_bit4_t \<Rightarrow> vvp_bit4_t \<Rightarrow> cmp_act) \<Rightarrow> (nat \<Rightarrow> vvp_bit4_t) \<Rightarrow> (nat \<Rightarrow> vvp_bit4_t) \<Rightarrow> nat \<Rightarrow> nat \<Rightarrow> vvp_bit4_t \<Rightarrow> vvp_bit4_t" where
  "cmp_loop body a b 0 idx res = res"
| "cmp_loop body a b (Suc n) idx res =
     (case body (a idx) (b idx) of
        Cmp_continue \<Rightarrow> cmp_loop body a b n (idx + 1) res
      | Cmp_set r \<Rightarrow> cmp_loop body a b n (idx + 1) r
      | Cmp_break r \<Rightarrow> r)"

definition cmp_output :: "(vvp_bit4_t \<Rightarrow> vvp_bit4_t \<Rightarrow> cmp_act) \<Rightarrow> vvp_bit4_t \<Rightarrow> vvp_arith \<Rightarrow> vvp_vector4_t option" where
  "cmp_output body init st =
     (if size4 (op_a st) \<noteq> size4 (op_b st) then None
      else set_bit4 (vector4_fill 1 BIT4_X) 0 (cmp_loop body (value4 (op_a st)) (value4 (op_b st)) (size4 (op_a st)) 0 init))"

definition eeq_body :: "vvp_bit4_t \<Rightarrow> vvp_bit4_t \<Rightarrow> vvp_bit4_t \<Rightarrow> cmp_act" where
  "eeq_body differ a b = (if a \<noteq> b then Cmp_break differ else Cmp_continue)"

definition eq_body :: "vvp_bit4_t \<Rightarrow> vvp_bit4_t \<Rightarrow> vvp_bit4_t \<Rightarrow> cmp_act" where
  "eq_body differ a b =
     (if a = BIT4_X then Cmp_set BIT4_X
      else if a = BIT4_Z then Cmp_set BIT4_X
      else if b = BIT4_X then Cmp_set BIT4_X
      else if b = BIT4_Z then Cmp_set BIT4_X
      else if a \<noteq> b then Cmp_break differ
      else Cmp_continue)"

definition eqx_body :: "vvp_bit4_t \<Rightarrow> vvp_bit4_t \<Rightarrow> cmp_act" where
  "eqx_body a b =
     (if b = BIT4_X then Cmp_continue
      else if b = BIT4_Z then Cmp_continue
      else if a \<noteq> b then Cmp_break BIT4_0
      else Cmp_continue)"

definition eqz_body :: "vvp_bit4_t \<Rightarrow> vvp_bit4_t \<Rightarrow> cmp_act" where
  "eqz_body a b = (if b = BIT4_Z then Cmp_continue else if a \<noteq> b then Cmp_break BIT4_0 else Cmp_continue)"

definition weq_body :: "vvp_bit4_t \<Rightarrow> vvp_bit4_t \<Rightarrow> vvp_bit4_t \<Rightarrow> cmp_act" where
  "weq_body differ a b =
     (if b = BIT4_X then Cmp_continue
      else if b = BIT4_Z then Cmp_continue
      else if a = BIT4_X then Cmp_set BIT4_X
      else if a = BIT4_Z then Cmp_set BIT4_X
      else if a \<noteq> b then Cmp_break differ
      else Cmp_continue)"

definition cmp_eeq_output :: "vvp_arith \<Rightarrow> vvp_vector4_t option" where "cmp_eeq_output = cmp_output (eeq_body BIT4_0) BIT4_1"
definition cmp_nee_output :: "vvp_arith \<Rightarrow> vvp_vector4_t option" where "cmp_nee_output = cmp_output (eeq_body BIT4_1) BIT4_0"
definition cmp_eq_output :: "vvp_arith \<Rightarrow> vvp_vector4_t option" where "cmp_eq_output = cmp_output (eq_body BIT4_0) BIT4_1"
definition cmp_ne_output :: "vvp_arith \<Rightarrow> vvp_vector4_t option" where "cmp_ne_output = cmp_output (eq_body BIT4_1) BIT4_0"
definition cmp_eqx_output :: "vvp_arith \<Rightarrow> vvp_vector4_t option" where "cmp_eqx_output = cmp_output eqx_body BIT4_1"
definition cmp_eqz_output :: "vvp_arith \<Rightarrow> vvp_vector4_t option" where "cmp_eqz_output = cmp_output eqz_body BIT4_1"
definition cmp_weq_output :: "vvp_arith \<Rightarrow> vvp_vector4_t option" where "cmp_weq_output = cmp_output (weq_body BIT4_0) BIT4_1"
definition cmp_wne_output :: "vvp_arith \<Rightarrow> vvp_vector4_t option" where "cmp_wne_output = cmp_output (weq_body BIT4_1) BIT4_0"

definition gtge_output :: "vvp_bit4_t \<Rightarrow> vvp_arith \<Rightarrow> vvp_vector4_t option" where
  "gtge_output out_if_equal st =
     do {
       out \<leftarrow> (if signed_flag st then compare_gtge_signed (op_a st) (op_b st) out_if_equal
               else Some (compare_gtge (op_a st) (op_b st) out_if_equal));
       set_bit4 (vector4_fill 1 BIT4_X) 0 out }"

definition cmp_ge_output :: "vvp_arith \<Rightarrow> vvp_vector4_t option" where "cmp_ge_output = gtge_output BIT4_1"
definition cmp_gt_output :: "vvp_arith \<Rightarrow> vvp_vector4_t option" where "cmp_gt_output = gtge_output BIT4_0"

section \<open>Shifts\<close>

text \<open>The shift count, at most the size of the shifted operand.\<close>

definition shift_count :: "vvp_arith \<Rightarrow> nat option" where
  "shift_count st =
     (case vector4_to_value_ovf (op_b st) of
        None \<Rightarrow> None
      | Some (overflow_flag, shift) \<Rightarrow>
          Some (if overflow_flag \<or> unat (shift :: ulong) > size4 (op_a st) then size4 (op_a st) else unat shift))"

definition shiftl_output :: "vvp_arith \<Rightarrow> vvp_vector4_t option" where
  "shiftl_output st =
     (let sz = size4 (op_a st)
      in case shift_count st of
           None \<Rightarrow> Some (x_val st)
         | Some shift \<Rightarrow>
             do { out \<leftarrow> set_loop set_bit4 0 (\<lambda>_. BIT4_0) shift (vector4_fill sz BIT4_X);
                  set_loop set_bit4 shift (value4 (op_a st)) (sz - shift) out })"

definition shiftr_output :: "vvp_arith \<Rightarrow> vvp_vector4_t option" where
  "shiftr_output st =
     (let sz = size4 (op_a st)
      in case shift_count st of
           None \<Rightarrow> Some (x_val st)
         | Some shift \<Rightarrow>
             do { out \<leftarrow> set_loop set_bit4 0 (\<lambda>idx. value4 (op_a st) (idx + shift)) (sz - shift) (vector4_fill sz BIT4_X);
                  let pad = (if signed_flag st \<and> sz > 0 then value4 (op_a st) (sz - 1) else BIT4_0);
                  set_loop set_bit4 (sz - shift) (\<lambda>_. pad) shift out })"

end
