(* ===== verification/Vvp_ArithfunSpec.thy ===== *)
theory Vvp_ArithfunSpec
  imports Vvp_Arithfun
begin

text \<open>
  What the arithmetic functors compute: on operands of the width of the functor, the integer operation modulo the width, or X if an
  operand has an X or Z bit. The interface \<open>arith_functor\<close> turns the law of an output function into a statement on
  sequences of operands.
\<close>

section \<open>The sum of two sequences of bits\<close>

abbreviation bit_num :: "(nat \<Rightarrow> vvp_bit4_t) \<Rightarrow> nat \<Rightarrow> nat \<Rightarrow> int" where
  "bit_num a idx n \<equiv> ubits (map (\<lambda>i. one4 (a i)) [idx..<idx + n])"

lemma carry_loop_ok:
  assumes "wf4 v" "size4 v = idx + n" "\<not> bit4_is_xz carry"
  shows "if \<exists>i. idx \<le> i \<and> i < idx + n \<and> (bit4_is_xz (a i) \<or> bit4_is_xz (b i)) then carry_loop a b n idx carry v = Some None
    else \<exists>u. carry_loop a b n idx carry v = Some (Some u) \<and> wf4 u \<and> size4 u = size4 v \<and>
      bits4 u = take idx (bits4 v) @ num_bits4 n (bit_num a idx n + bit_num b idx n + of_bool (one4 carry))"
  using assms
proof (induction n arbitrary: idx carry v)
  case 0
  then show ?case by (simp add: num_bits4_def)
next
  case (Suc n)
  let ?P = "\<lambda>idx n. \<exists>i. idx \<le> i \<and> i < idx + n \<and> (bit4_is_xz (a i) \<or> bit4_is_xz (b i))"
  show ?case
  proof (cases "bit4_is_xz (a idx) \<or> bit4_is_xz (b idx)")
    case True
    then have "?P idx (Suc n)" by (auto intro!: exI [of _ idx])
    then show ?thesis using True by (auto simp: bit4_add_xz)
  next
    case False
    have P: "?P idx (Suc n) \<longleftrightarrow> ?P (idx + 1) n"
      using False by (metis Suc_eq_plus1 add_Suc_right add_Suc Suc_le_eq order_less_le order_le_less)
    have split: "bit_num f idx (Suc n) = of_bool (one4 (f idx)) + 2 * bit_num f (idx + 1) n" for f
    proof -
      have "[idx..<idx + Suc n] = idx # [idx + 1..<idx + 1 + n]" using upt_conv_Cons [of idx "idx + Suc n"] by simp
      then show ?thesis by (simp only: list.map ubits_Cons)
    qed
    have odd: "odd (bit_num f idx (Suc n)) \<longleftrightarrow> one4 (f idx)" "bit_num f idx (Suc n) div 2 = bit_num f (idx + 1) n" for f
      unfolding split by simp_all
    have eq: "(if odd (bit_num b idx (Suc n)) then BIT4_1 else BIT4_0) = b idx"
      using False by (cases "b idx") (simp_all only: odd(1) bit4_is_xz_iff, simp_all)
    obtain s c where sc: "bit4_add_with_carry (a idx) (b idx) carry = (s, c)" by fastforce
    have a: "\<not> bit4_is_xz (a idx)" using False by blast
    note round = add_bit_round [OF a Suc.prems(3), of "bit_num b idx (Suc n)", unfolded eq, OF sc]
    have "s \<noteq> BIT4_X" using round(1) by (auto simp: bit4_is_xz_iff)
    obtain v1 where v1: "set_bit4 v idx s = Some v1" "wf4 v1" "size4 v1 = size4 v" "bits4 v1 = (bits4 v)[idx := s]"
      using set_bit4_ok [OF Suc.prems(1), of idx s] Suc.prems(2) by auto
    have loop: "carry_loop a b (Suc n) idx carry v = carry_loop a b n (idx + 1) c v1"
      using sc \<open>s \<noteq> BIT4_X\<close> v1(1) by simp
    have bits: "num_bits4 (Suc n) (bit_num a idx (Suc n) + bit_num b idx (Suc n) + of_bool (one4 carry))
        = s # num_bits4 n (bit_num a (idx + 1) n + bit_num b (idx + 1) n + of_bool (one4 c))"
      using round(3,4) [of "bit_num a (idx + 1) n"] unfolding num_bits4_Suc split [of a] odd(2) by simp
    have "take (idx + 1) (bits4 v1) = take idx (bits4 v) @ [s]"
      using v1(4) Suc.prems(2) by (simp add: take_Suc_conv_app_nth)
    then show ?thesis
      using Suc.IH [OF v1(2) _ round(2), of "idx + 1"] v1(3) Suc.prems(2) unfolding loop P bits by (auto split: if_splits)
  qed
qed

section \<open>Native values\<close>

definition bnum :: "bool \<Rightarrow> vvp_bit4_t list \<Rightarrow> int" where
  "bnum sf bs = (if sf then sbits (map one4 bs) else ubits (map one4 bs))"

lemma bnum_bits4: "bnum sf (bits4 v) = (if sf then sval4 v else uval4 v)"
  by (simp add: bnum_def sval4_def uval4_def)

lemma take_bit_bnum: "take_bit (length bs) (bnum sf bs) = ubits (map one4 bs)"
  using take_bit_sbits [of "map one4 bs"] take_bit_ubits [of "map one4 bs"] by (simp add: bnum_def)

lemma native_out_ok:
  assumes "n \<le> 64"
  shows "\<exists>u. native_out n (word_of_int x) = Some u \<and> wf4 u \<and> bits4 u = num_bits4 n x"
proof -
  have "bit (word_of_int x :: ulong) i = bit x i" if "i < n" for i using that assms by (simp add: bit_word_of_int_iff)
  then show ?thesis
    using v4.set_loop_ok [of "vector4_fill n BIT4_X" 0 n "\<lambda>idx. if bit (word_of_int x :: ulong) idx then BIT4_1 else BIT4_0"]
    by (auto simp: native_out_def num_bits4_def)
qed

lemma take_bit_of_int:
  assumes "n \<le> 64"
  shows "take_bit n (word_of_int x :: ulong) = word_of_int (take_bit n x)"
  using assms by (intro bit_word_eqI) (auto simp: bit_take_bit_iff bit_word_of_int_iff)

lemma strip_sign_ok:
  assumes "0 < size4 v" "size4 v \<le> 64" "\<not> list_ex bit4_is_xz (bits4 v)"
  shows "strip_sign sf v (word_of_int (uval4 v)) = (word_of_int \<bar>bnum sf (bits4 v)\<bar>, bnum sf (bits4 v) < 0)"
proof (cases "sf \<and> value4 v (size4 v - 1) = BIT4_1")
  case True
  let ?n = "size4 v"
  have top: "value4 v (?n - 1) = BIT4_1" using True by blast
  have "bit (uval4 v) (?n - 1)" using top assms(1) by (simp add: bit_uval4)
  then have pos: "0 < uval4 v" using uval4_bounds(1) [of v] by (cases "uval4 v = 0") auto
  have x: "bnum sf (bits4 v) = uval4 v - 2 ^ ?n" using True assms(1) by (simp add: bnum_bits4 sval4_uval4)
  have "take_bit ?n (- uval4 v) = 2 ^ ?n - uval4 v"
    using pos uval4_bounds [of v] by (simp add: take_bit_eq_mod zmod_zminus1_eq_if)
  then have "(- word_of_int (uval4 v)) AND mask ?n = (word_of_int (2 ^ ?n - uval4 v) :: ulong)"
    using take_bit_of_int [OF assms(2), of "- uval4 v"] by (simp flip: take_bit_eq_mask)
  moreover have "NOT (if ?n \<noteq> 64 then ul_shl (-1) ?n else 0) = (mask ?n :: ulong)"
    using assms(2) by (auto simp: ul_shl_def push_bit_minus_one_eq_not_mask mask_eq_exp_minus_1)
  ultimately show ?thesis using True top x uval4_bounds [of v] by (simp add: strip_sign_def Let_def)
next
  case False
  have "\<not> bit4_is_xz (value4 v (size4 v - 1))" using assms(1,3) by (auto simp: list_ex_length nth_value4)
  then have "value4 v (size4 v - 1) = BIT4_0" if sf using False that by (cases "value4 v (size4 v - 1)") (auto simp: bit4_is_xz_iff)
  moreover have "bnum sf (bits4 v) = uval4 v" using False assms(1) by (auto simp: bnum_bits4 sval4_uval4)
  ultimately show ?thesis using uval4_bounds(1) [of v] by (auto simp: strip_sign_def Let_def)
qed

lemma word_div_of_int:
  assumes "0 \<le> x" "x < 2 ^ 64" "0 \<le> y" "y < 2 ^ 64"
  shows "(word_of_int x :: ulong) div word_of_int y = word_of_int (x div y)" "(word_of_int x :: ulong) mod word_of_int y = word_of_int (x mod y)"
    "(word_of_int y :: ulong) = 0 \<longleftrightarrow> y = 0"
proof -
  have u: "uint (word_of_int x :: ulong) = x" "uint (word_of_int y :: ulong) = y"
    using assms by (simp_all add: uint_word_of_int)
  then show "(word_of_int x :: ulong) div word_of_int y = word_of_int (x div y)" "(word_of_int x :: ulong) mod word_of_int y = word_of_int (x mod y)"
    by (simp_all add: word_div_def word_mod_def)
  show "(word_of_int y :: ulong) = 0 \<longleftrightarrow> y = 0" using u(2) by (metis uint_0_eq word_of_int_0)
qed

section \<open>The interface of the functors\<close>

text \<open>
  A state of width \<open>w\<close> whose operands have sizes that fit. \<open>arith_functor\<close> asks that the output is a function \<open>F\<close> of the bits of the
  operands; then the functor is a driven node: after any operands, its last output is \<open>F\<close> of the last operands of both ports.
\<close>

definition arith_state :: "(nat \<Rightarrow> nat \<Rightarrow> bool) \<Rightarrow> nat \<Rightarrow> bool \<Rightarrow> vvp_arith \<Rightarrow> bool" where
  "arith_state fit w sf st \<longleftrightarrow> arith_wid st = w \<and> signed_flag st = sf \<and> wf4 (op_a st) \<and> wf4 (op_b st) \<and>
     fit 0 (size4 (op_a st)) \<and> fit 1 (size4 (op_b st)) \<and> wf4 (x_val st) \<and> bits4 (x_val st) = replicate w BIT4_X"

definition arith_rel :: "(nat \<Rightarrow> nat \<Rightarrow> bool) \<Rightarrow> nat \<Rightarrow> bool \<Rightarrow> (nat \<Rightarrow> vvp_bit4_t list) \<Rightarrow> vvp_arith \<Rightarrow> bool" where
  "arith_rel fit w sf drv st \<longleftrightarrow> arith_state fit w sf st \<and> bits4 (op_a st) = drv 0 \<and> bits4 (op_b st) = drv 1"

definition same_width :: "nat \<Rightarrow> nat \<Rightarrow> nat \<Rightarrow> bool" where
  "same_width w p n \<longleftrightarrow> n = w \<and> 0 < w"

lemma new_arith_ok:
  assumes "fit 0 w" "fit 1 w"
  shows "\<exists>st. new_arith w sf = Some st \<and> arith_rel fit w sf (\<lambda>_. replicate w BIT4_Z) st"
proof -
  have "\<exists>u. set_loop set_bit4 0 (\<lambda>_. b) w (vector4_fill w BIT4_X) = Some u \<and> wf4 u \<and> size4 u = w \<and> bits4 u = replicate w b" for b
    using v4.set_loop_ok [of "vector4_fill w BIT4_X" 0 w "\<lambda>_. b"] by (auto simp: map_replicate_const)
  then obtain z x where "set_loop set_bit4 0 (\<lambda>_. BIT4_Z) w (vector4_fill w BIT4_X) = Some z" "wf4 z" "size4 z = w" "bits4 z = replicate w BIT4_Z"
    "set_loop set_bit4 0 (\<lambda>_. BIT4_X) w (vector4_fill w BIT4_X) = Some x" "wf4 x" "bits4 x = replicate w BIT4_X"
    by metis
  then show ?thesis using assms by (simp add: new_arith_def arith_rel_def arith_state_def)
qed

locale arith_functor =
  fixes outf :: "vvp_arith \<Rightarrow> vvp_vector4_t option" and fit :: "nat \<Rightarrow> nat \<Rightarrow> bool" and w :: nat and sf :: bool
    and F :: "vvp_bit4_t list \<Rightarrow> vvp_bit4_t list \<Rightarrow> vvp_bit4_t list"
  assumes output_ok: "arith_state fit w sf st \<Longrightarrow>
    \<exists>u. outf st = Some u \<and> wf4 u \<and> bits4 u = F (bits4 (op_a st)) (bits4 (op_b st))"

sublocale arith_functor \<subseteq> node: driven_node "arith_recv outf" bits4 bits4 "\<lambda>p v. p < 2 \<and> wf4 v \<and> fit p (size4 v)"
    "arith_rel fit w sf" "\<lambda>drv. F (drv 0) (drv 1)"
proof
  fix drv :: "nat \<Rightarrow> vvp_bit4_t list" and st p v
  assume st: "arith_rel fit w sf drv st" and v: "p < 2 \<and> wf4 v \<and> fit p (size4 v)"
  then have "p = 0 \<or> p = 1" by auto
  then obtain st' where st': "dispatch_operand p v st = Some st'" "arith_rel fit w sf (drv(p := bits4 v)) st'"
    using st v by (auto simp: dispatch_operand_def arith_rel_def arith_state_def)
  obtain u where "outf st' = Some u" "bits4 u = F (bits4 (op_a st')) (bits4 (op_b st'))"
    using output_ok [of st'] st'(2) by (auto simp: arith_rel_def)
  then show "\<exists>st' r. arith_recv outf p v st = Some (st', r) \<and> arith_rel fit w sf (drv(p := bits4 v)) st' \<and>
      (case r of None \<Rightarrow> F ((drv(p := bits4 v)) 0) ((drv(p := bits4 v)) 1) = F (drv 0) (drv 1)
       | Some x \<Rightarrow> bits4 x = F ((drv(p := bits4 v)) 0) ((drv(p := bits4 v)) 1))"
    using st' by (simp add: arith_recv_def arith_rel_def)
qed

text \<open>Each operand makes the functor send one vector.\<close>

lemma arith_recv_count: "run_recv (arith_recv outf) ops st = Some (st', outs) \<Longrightarrow> length outs = length ops"
  by (induction ops arbitrary: st outs) (auto simp: arith_recv_def split: bind_splits)

context arith_functor
begin

lemma new_run:
  assumes "fit 0 w" "fit 1 w" "list_all (\<lambda>(p, v). p < 2 \<and> wf4 v \<and> fit p (size4 v)) ops" "ops \<noteq> []"
    and "drv = drivers bits4 ops (\<lambda>_. replicate w BIT4_Z)"
  shows "\<exists>st st' outs. new_arith w sf = Some st \<and> run_recv (arith_recv outf) ops st = Some (st', outs) \<and>
    length outs = length ops \<and> bits4 (last outs) = F (drv 0) (drv 1)"
proof -
  obtain st where st: "new_arith w sf = Some st" "arith_rel fit w sf (\<lambda>_. replicate w BIT4_Z) st"
    using new_arith_ok [of fit w sf] assms(1,2) by blast
  obtain st' outs where run: "run_recv (arith_recv outf) ops st = Some (st', outs)"
    "last (F (replicate w BIT4_Z) (replicate w BIT4_Z) # map bits4 outs) = F (drv 0) (drv 1)"
    using node.run_ok [OF st(2) assms(3)] unfolding assms(5) by blast
  moreover have "outs \<noteq> []" using arith_recv_count [OF run(1)] assms(4) by auto
  ultimately show ?thesis using st(1) arith_recv_count [OF run(1)] by (auto simp: last_map)
qed

end

section \<open>Sum and difference\<close>

text \<open>The result of an arithmetic functor: X if a bit is unknown or the operation has no value.\<close>

definition arith_fn :: "(int \<Rightarrow> int \<Rightarrow> int option) \<Rightarrow> nat \<Rightarrow> bool \<Rightarrow> vvp_bit4_t list \<Rightarrow> vvp_bit4_t list \<Rightarrow> vvp_bit4_t list" where
  "arith_fn F w sf a b =
     (if list_ex bit4_is_xz (a @ b) then replicate w BIT4_X
      else case F (bnum sf a) (bnum sf b) of None \<Rightarrow> replicate w BIT4_X | Some x \<Rightarrow> num_bits4 w x)"

lemma bits4_map_value: "bits4 v = map (value4 v) [0..<size4 v]"
  by (simp add: bits4_def)

lemma bit4_not_xz: "bit4_is_xz (bit4_not b) \<longleftrightarrow> bit4_is_xz b" "\<not> bit4_is_xz b \<Longrightarrow> bit4_not b = BIT4_1 \<longleftrightarrow> b \<noteq> BIT4_1"
  by (cases b; simp add: bit4_is_xz_iff bit4_tables)+

lemma xz_values: "list_ex bit4_is_xz (bits4 v) \<longleftrightarrow> (\<exists>i < size4 v. bit4_is_xz (value4 v i))"
  by (auto simp: list_ex_length nth_value4)

lemma num_bits4_fn:
  assumes "length a = w" "length b = w" "\<And>n x y. take_bit n (G (take_bit n x) (take_bit n y)) = take_bit n (G x y :: int)"
  shows "num_bits4 w (G (ubits (map one4 a)) (ubits (map one4 b))) = num_bits4 w (G (bnum sf a) (bnum sf b))"
proof -
  have "take_bit w (bnum sf a) = ubits (map one4 a)" "take_bit w (bnum sf b) = ubits (map one4 b)"
    using take_bit_bnum [of a sf] take_bit_bnum [of b sf] assms(1,2) by simp_all
  then show ?thesis using assms(3) [of w "bnum sf a" "bnum sf b"] by (intro num_bits4_cong) simp
qed

text \<open>The loop on the bits of two operands, the second one read through \<open>g\<close>.\<close>

lemma carry_output_ok:
  assumes "size4 a = w" "size4 b = w" "\<not> bit4_is_xz c" "\<And>x. bit4_is_xz (g x) \<longleftrightarrow> bit4_is_xz x"
  shows "if list_ex bit4_is_xz (bits4 a @ bits4 b)
    then carry_loop (\<lambda>i. if i \<ge> size4 a then p else value4 a i) (\<lambda>i. if i \<ge> size4 b then p else g (value4 b i)) w 0 c (vector4_fill w BIT4_X) = Some None
    else \<exists>u. carry_loop (\<lambda>i. if i \<ge> size4 a then p else value4 a i) (\<lambda>i. if i \<ge> size4 b then p else g (value4 b i)) w 0 c (vector4_fill w BIT4_X) = Some (Some u) \<and>
      wf4 u \<and> bits4 u = num_bits4 w (uval4 a + ubits (map (\<lambda>x. one4 (g x)) (bits4 b)) + of_bool (one4 c))"
proof -
  define A B where "A = (\<lambda>i. if i \<ge> size4 a then p else value4 a i)" and "B = (\<lambda>i. if i \<ge> size4 b then p else g (value4 b i))"
  have nums: "map (\<lambda>i. one4 (A i)) [0..<0 + w] = map one4 (bits4 a)" "map (\<lambda>i. one4 (B i)) [0..<0 + w] = map (\<lambda>x. one4 (g x)) (bits4 b)"
    using assms(1,2) by (simp_all add: bits4_map_value A_def B_def)
  have "(\<exists>i. 0 \<le> i \<and> i < 0 + w \<and> (bit4_is_xz (A i) \<or> bit4_is_xz (B i))) \<longleftrightarrow>
      (\<exists>i. i < w \<and> (bit4_is_xz (value4 a i) \<or> bit4_is_xz (value4 b i)))"
    using assms(1,2,4) by (intro ex_cong1) (auto simp: A_def B_def)
  also have "\<dots> \<longleftrightarrow> list_ex bit4_is_xz (bits4 a @ bits4 b)"
    using assms(1,2) by (auto simp: xz_values)
  finally have xz: "(\<exists>i. 0 \<le> i \<and> i < 0 + w \<and> (bit4_is_xz (A i) \<or> bit4_is_xz (B i))) \<longleftrightarrow> list_ex bit4_is_xz (bits4 a @ bits4 b)" .
  show ?thesis
    using carry_loop_ok [of "vector4_fill w BIT4_X" 0 w c A B] assms(3)
    unfolding A_def [symmetric] B_def [symmetric] xz nums uval4_def by (auto split: if_splits)
qed

lemma sum_output_ok:
  assumes "arith_state (same_width w) w sf st"
  shows "\<exists>u. sum_output st = Some u \<and> wf4 u \<and> bits4 u = arith_fn (\<lambda>x y. Some (x + y)) w sf (bits4 (op_a st)) (bits4 (op_b st))"
proof -
  have st: "arith_wid st = w" "size4 (op_a st) = w" "size4 (op_b st) = w" "wf4 (x_val st)" "bits4 (x_val st) = replicate w BIT4_X"
    using assms by (auto simp: arith_state_def same_width_def)
  have "num_bits4 w (uval4 (op_a st) + uval4 (op_b st)) = num_bits4 w (bnum sf (bits4 (op_a st)) + bnum sf (bits4 (op_b st)))"
    using num_bits4_fn [of "bits4 (op_a st)" w "bits4 (op_b st)" "(+)" sf] st(2,3) by (simp add: uval4_def take_bit_add)
  then show ?thesis
    using carry_output_ok [OF st(2,3), of BIT4_0 "\<lambda>x. x" BIT4_0] st
    by (auto simp: sum_output_def Let_def arith_fn_def uval4_def bit4_is_xz_iff split: if_splits)
qed

lemma sub_output_ok:
  assumes "arith_state (same_width w) w sf st"
  shows "\<exists>u. sub_output st = Some u \<and> wf4 u \<and> bits4 u = arith_fn (\<lambda>x y. Some (x - y)) w sf (bits4 (op_a st)) (bits4 (op_b st))"
proof -
  have st: "arith_wid st = w" "size4 (op_a st) = w" "size4 (op_b st) = w" "wf4 (x_val st)" "bits4 (x_val st) = replicate w BIT4_X"
    using assms by (auto simp: arith_state_def same_width_def)
  let ?b = "bits4 (op_b st)"
  have "ubits (map (\<lambda>x. one4 (bit4_not x)) ?b) = take_bit w (NOT (uval4 (op_b st)))" if "\<not> list_ex bit4_is_xz ?b"
    using that st(3) by (intro ubits_eqI) (auto simp: bit_not_iff bit_uval4 nth_value4 xz_values bit4_not_xz)
  moreover have "num_bits4 w (x + take_bit w (NOT y) + 1) = num_bits4 w (x - y)" for x y :: int
    using take_bit_add [of w "x + 1" "take_bit w (NOT y)"] take_bit_add [of w "x + 1" "NOT y"]
    by (intro num_bits4_cong) (simp add: not_int_def algebra_simps)
  moreover have "num_bits4 w (uval4 (op_a st) - uval4 (op_b st)) = num_bits4 w (bnum sf (bits4 (op_a st)) - bnum sf ?b)"
    using num_bits4_fn [of "bits4 (op_a st)" w ?b "(-)" sf] st(2,3) by (simp add: uval4_def take_bit_diff)
  ultimately show ?thesis
    using carry_output_ok [OF st(2,3), of BIT4_1 bit4_not BIT4_1] st bit4_not_xz(1)
    by (auto simp: sub_output_def Let_def arith_fn_def bit4_is_xz_iff split: if_splits)
qed

section \<open>Product, quotient and remainder\<close>

lemma vector2_of4_ok:
  assumes "wf4 v" "0 < size4 v"
  shows "if list_ex bit4_is_xz (bits4 v) then \<exists>t. vector2_of4 v True = Some t \<and> is_NaN t
    else \<exists>t. vector2_of4 v True = Some t \<and> \<not> is_NaN t \<and> wf2 t \<and> clean2 t \<and> wid2 t = size4 v \<and> uval2 t = uval4 v"
  using copy_from_that_ok [OF assms(1)] has_xz_iff [OF assms(2)] assms(2)
  by (auto simp: vector2_of4_def is_NaN_def uval2_bits uval4_def)

lemma to_vector4_num:
  assumes "wf2 t" "wid2 t = n"
  shows "\<exists>u. vector2_to_vector4 t n = Some u \<and> wf4 u \<and> bits4 u = num_bits4 n (uval2 t)"
  using vector2_to_vector4_ok [of t n] assms by (auto simp: num_bits4_def uval2_bits bit_ubits)

lemma strip_sign2_ok:
  assumes "wf2 t" "clean2 t" "wid2 t = size4 v" "uval2 t = uval4 v" "size4 v mod 64 \<noteq> 0"
  shows "\<exists>m. strip_sign2 sf t = Some (m, bnum sf (bits4 v) < 0) \<and> wf2 m \<and> clean2 m \<and> wid2 m = size4 v \<and> uval2 m = \<bar>bnum sf (bits4 v)\<bar>"
proof -
  let ?n = "size4 v" and ?x = "bnum sf (bits4 v)"
  have n: "0 < ?n" using assms(5) by (auto intro: gr_zeroI)
  have top: "value2 t (?n - 1) \<noteq> 0 \<longleftrightarrow> value4 v (?n - 1) = BIT4_1"
    using n assms(1,3,4) bit_uval4 [of v "?n - 1"] bit_ubits [of "bits2 t" "?n - 1"] by (simp add: value2_bit uval2_bits)
  have x: "?x = uval4 v - (if sf \<and> value4 v (?n - 1) = BIT4_1 then 2 ^ ?n else 0)" using n by (simp add: bnum_bits4 sval4_uval4)
  show ?thesis
  proof (cases "sf \<and> value4 v (?n - 1) = BIT4_1")
    case True
    obtain m where m: "neg2 t = Some m" "wf2 m" "clean2 m" "wid2 m = ?n" "uval2 m = take_bit ?n (- uval4 v)"
      using neg2_ok [OF assms(1)] assms(3-5) by auto
    have "bit (uval4 v) (?n - 1)" using True n by (simp add: bit_uval4)
    then have pos: "0 < uval4 v" using uval4_bounds(1) [of v] by (cases "uval4 v = 0") auto
    then have "take_bit ?n (- uval4 v) = 2 ^ ?n - uval4 v"
      using uval4_bounds [of v] by (simp add: take_bit_eq_mod zmod_zminus1_eq_if)
    then show ?thesis using True m top x assms(3) uval4_bounds [of v] by (simp add: strip_sign2_def)
  next
    case False
    then show ?thesis using assms(1-4) top x uval4_bounds(1) [of v] by (auto simp: strip_sign2_def)
  qed
qed

text \<open>
  The widths at which the wide division is shown: at the others a shift of vvp_vector2_t is by a whole word, which is undefined.
\<close>

definition divisible_width :: "nat \<Rightarrow> nat \<Rightarrow> nat \<Rightarrow> bool" where
  "divisible_width w p n \<longleftrightarrow> n = w \<and> 0 < w \<and> (w \<le> 64 \<or> w mod 64 \<noteq> 0 \<and> (w + 1) mod 64 \<noteq> 0)"

text \<open>The quotient, and what the functor makes of it: above 64 bits, dividing by 1 a number above half the range gives 0.\<close>

definition tdiv_fn :: "int \<Rightarrow> int \<Rightarrow> int option" where
  "tdiv_fn x y = (if y = 0 then None else Some (x sdiv y))"

definition quot_fn :: "nat \<Rightarrow> int \<Rightarrow> int \<Rightarrow> int option" where
  "quot_fn w x y = (if y = 0 then None else if 64 < w \<and> y = 1 \<and> 2 ^ (w - 1) < x then Some 0 else Some (x sdiv y))"

definition rem_fn :: "int \<Rightarrow> int \<Rightarrow> int option" where
  "rem_fn x y = (if y = 0 then None else Some (x smod y))"

lemma quot_fn_exact:
  assumes "w \<le> 64 \<or> bnum sf b \<noteq> 1 \<or> bnum sf a \<le> 2 ^ (w - 1)"
  shows "arith_fn (quot_fn w) w sf a b = arith_fn tdiv_fn w sf a b"
  using assms by (auto simp: arith_fn_def quot_fn_def tdiv_fn_def)

lemma bnum_range:
  assumes "0 < length bs"
  shows "if sf then - (2 ^ (length bs - 1)) \<le> bnum sf bs \<and> bnum sf bs < 2 ^ (length bs - 1) else 0 \<le> bnum sf bs \<and> bnum sf bs < 2 ^ length bs"
  using assms sbits_range [of "map one4 bs"] ubits_less [of "map one4 bs"] by (auto simp: bnum_def)

lemma mult_output_ok:
  assumes "arith_state (same_width w) w sf st"
  shows "\<exists>u. mult_output st = Some u \<and> wf4 u \<and> bits4 u = arith_fn (\<lambda>x y. Some (x * y)) w sf (bits4 (op_a st)) (bits4 (op_b st))"
proof -
  let ?a = "op_a st" and ?b = "op_b st"
  have st: "arith_wid st = w" "0 < w" "size4 ?a = w" "size4 ?b = w" "wf4 ?a" "wf4 ?b" "wf4 (x_val st)" "bits4 (x_val st) = replicate w BIT4_X"
    using assms by (auto simp: arith_state_def same_width_def)
  have prod: "num_bits4 w (uval4 ?a * uval4 ?b) = num_bits4 w (bnum sf (bits4 ?a) * bnum sf (bits4 ?b))"
    using num_bits4_fn [of "bits4 ?a" w "bits4 ?b" "(*)" sf] st(3,4) by (simp add: uval4_def take_bit_mult)
  show ?thesis
  proof (cases "w \<le> 64")
    case True
    then have take: "take 64 (bits4 ?a) = bits4 ?a" "take 64 (bits4 ?b) = bits4 ?b" using st(3,4) by simp_all
    show ?thesis
      using native_out_ok [OF True, of "uval4 ?a * uval4 ?b"] True st(1,7,8) prod
      by (auto simp: mult_output_def vector4_to_value_ok take arith_fn_def)
  next
    case False
    have of4: "if list_ex bit4_is_xz (bits4 v) then \<exists>t. vector2_of4 v True = Some t \<and> is_NaN t
        else \<exists>t. vector2_of4 v True = Some t \<and> \<not> is_NaN t \<and> wf2 t \<and> wid2 t = w \<and> uval2 t = uval4 v" if "v = ?a \<or> v = ?b" for v
      using that vector2_of4_ok [of v] st by (auto split: if_splits)
    have "mult_output st = mult_wide st" using False st(1) by (simp add: mult_output_def)
    show ?thesis
    proof (cases "list_ex bit4_is_xz (bits4 ?a @ bits4 ?b)")
      case True
      then show ?thesis using of4 [of ?a] of4 [of ?b] st \<open>mult_output st = _\<close> by (auto simp: mult_wide_def arith_fn_def split: if_splits)
    next
      case xz: False
      obtain a b where ab: "vector2_of4 ?a True = Some a" "\<not> is_NaN a" "wf2 a" "wid2 a = w" "uval2 a = uval4 ?a"
        "vector2_of4 ?b True = Some b" "\<not> is_NaN b" "wf2 b" "wid2 b = w" "uval2 b = uval4 ?b"
        using of4 [of ?a] of4 [of ?b] xz by auto
      obtain m where m: "mul2 a b = Some m" "wf2 m" "wid2 m = w" "uval2 m = take_bit w (uval4 ?a * uval4 ?b)"
        using mul2_ok [of a b] ab st(2) by auto
      have "num_bits4 w (uval2 m) = num_bits4 w (uval4 ?a * uval4 ?b)" unfolding m(4) by (rule num_bits4_cong) simp
      then show ?thesis
        using to_vector4_num [OF m(2,3)] ab m(1) xz st(1) prod \<open>mult_output st = _\<close> by (auto simp: mult_wide_def arith_fn_def)
    qed
  qed
qed

text \<open>The operands of a native division without their signs; the operation on them is the operation on the magnitudes.\<close>

lemma native_operands:
  assumes "arith_state (divisible_width w) w sf st" "w \<le> 64" "\<not> list_ex bit4_is_xz (bits4 (op_a st) @ bits4 (op_b st))"
  defines "x \<equiv> bnum sf (bits4 (op_a st))" and "y \<equiv> bnum sf (bits4 (op_b st))"
  shows "strip_sign (signed_flag st) (op_a st) (word_of_int (uval4 (op_a st))) = (word_of_int \<bar>x\<bar>, x < 0)"
    "strip_sign (signed_flag st) (op_b st) (word_of_int (uval4 (op_b st))) = (word_of_int \<bar>y\<bar>, y < 0)"
    "(word_of_int \<bar>x\<bar> :: ulong) div word_of_int \<bar>y\<bar> = word_of_int (\<bar>x\<bar> div \<bar>y\<bar>)"
    "(word_of_int \<bar>x\<bar> :: ulong) mod word_of_int \<bar>y\<bar> = word_of_int (\<bar>x\<bar> mod \<bar>y\<bar>)"
    "(word_of_int \<bar>y\<bar> :: ulong) = 0 \<longleftrightarrow> y = 0"
proof -
  have st: "signed_flag st = sf" "0 < w" "size4 (op_a st) = w" "size4 (op_b st) = w"
    using assms(1) by (auto simp: arith_state_def divisible_width_def)
  have "(2 :: int) ^ w \<le> 2 ^ 64" "(2 :: int) ^ (w - 1) < 2 ^ 64" 
    using assms(2) st(2) by (auto intro!: power_increasing power_strict_increasing simp del: power_numeral)
  then have b: "\<bar>x\<bar> < 2 ^ 64" "\<bar>y\<bar> < 2 ^ 64"
    using bnum_range [of "bits4 (op_a st)" sf] bnum_range [of "bits4 (op_b st)" sf] st by (auto simp: x_def y_def split: if_splits)
  show "strip_sign (signed_flag st) (op_a st) (word_of_int (uval4 (op_a st))) = (word_of_int \<bar>x\<bar>, x < 0)"
    "strip_sign (signed_flag st) (op_b st) (word_of_int (uval4 (op_b st))) = (word_of_int \<bar>y\<bar>, y < 0)"
    using strip_sign_ok [of "op_a st" sf] strip_sign_ok [of "op_b st" sf] st assms(2,3) unfolding x_def y_def by auto
  show "(word_of_int \<bar>x\<bar> :: ulong) div word_of_int \<bar>y\<bar> = word_of_int (\<bar>x\<bar> div \<bar>y\<bar>)"
    "(word_of_int \<bar>x\<bar> :: ulong) mod word_of_int \<bar>y\<bar> = word_of_int (\<bar>x\<bar> mod \<bar>y\<bar>)"
    "(word_of_int \<bar>y\<bar> :: ulong) = 0 \<longleftrightarrow> y = 0"
    using word_div_of_int [of "\<bar>x\<bar>" "\<bar>y\<bar>"] b by simp_all
qed

lemma fill_x_ok: "\<exists>u. set_loop set_bit4 0 (\<lambda>_. BIT4_X) w (vector4_fill w BIT4_X) = Some u \<and> wf4 u \<and> bits4 u = replicate w BIT4_X"
  using v4.set_loop_ok [of "vector4_fill w BIT4_X" 0 w "\<lambda>_. BIT4_X"] by (auto simp: map_replicate_const)

lemma div_native_ok:
  assumes "arith_state (divisible_width w) w sf st" "w \<le> 64"
  shows "\<exists>u. div_output st = Some u \<and> wf4 u \<and> bits4 u = arith_fn (quot_fn w) w sf (bits4 (op_a st)) (bits4 (op_b st))"
    "\<exists>u. mod_output st = Some u \<and> wf4 u \<and> bits4 u = arith_fn rem_fn w sf (bits4 (op_a st)) (bits4 (op_b st))"
proof -
  have st: "arith_wid st = w" "wf4 (x_val st)" "bits4 (x_val st) = replicate w BIT4_X" using assms(1) by (auto simp: arith_state_def)
  define x y where "x = bnum sf (bits4 (op_a st))" and "y = bnum sf (bits4 (op_b st))"
  have "(\<exists>u. div_output st = Some u \<and> wf4 u \<and> bits4 u = arith_fn (quot_fn w) w sf (bits4 (op_a st)) (bits4 (op_b st))) \<and>
    (\<exists>u. mod_output st = Some u \<and> wf4 u \<and> bits4 u = arith_fn rem_fn w sf (bits4 (op_a st)) (bits4 (op_b st)))"
  proof (cases "list_ex bit4_is_xz (bits4 (op_a st) @ bits4 (op_b st))")
    case True
    then show ?thesis using st assms(2) by (auto simp: div_output_def mod_output_def vector4_to_value_ovf_ok arith_fn_def)
  next
    case False
    note ops = native_operands [OF assms False, folded x_def y_def]
    have quot: "(if (x < 0) \<noteq> (y < 0) then - word_of_int (\<bar>x\<bar> div \<bar>y\<bar>) else word_of_int (\<bar>x\<bar> div \<bar>y\<bar>)) = (word_of_int (x sdiv y) :: ulong)"
      "(if x < 0 then - word_of_int (\<bar>x\<bar> mod \<bar>y\<bar>) else word_of_int (\<bar>x\<bar> mod \<bar>y\<bar>)) = (word_of_int (x smod y) :: ulong)"
      by (simp_all add: sdiv_magnitude smod_magnitude)
    have out: "div_output st = (if y = 0 then set_loop set_bit4 0 (\<lambda>_. BIT4_X) w (vector4_fill w BIT4_X) else native_out w (word_of_int (x sdiv y)))"
      "mod_output st = (if y = 0 then set_loop set_bit4 0 (\<lambda>_. BIT4_X) w (vector4_fill w BIT4_X) else native_out w (word_of_int (x smod y)))"
      unfolding div_output_def mod_output_def st(1) vector4_to_value_ovf_ok using False assms(2) quot
      by (simp_all add: ops Let_def)
    show ?thesis
      using native_out_ok [OF assms(2), of "x sdiv y"] native_out_ok [OF assms(2), of "x smod y"] fill_x_ok [of w] False assms(2) x_def y_def
      unfolding out by (auto simp: arith_fn_def quot_fn_def rem_fn_def)
  qed
  then show "\<exists>u. div_output st = Some u \<and> wf4 u \<and> bits4 u = arith_fn (quot_fn w) w sf (bits4 (op_a st)) (bits4 (op_b st))"
    "\<exists>u. mod_output st = Some u \<and> wf4 u \<and> bits4 u = arith_fn rem_fn w sf (bits4 (op_a st)) (bits4 (op_b st))" by blast+
qed

lemma wide_operands:
  assumes "arith_state (divisible_width w) w sf st" "64 < w" "\<not> list_ex bit4_is_xz (bits4 (op_a st) @ bits4 (op_b st))"
  defines "x \<equiv> bnum sf (bits4 (op_a st))" and "y \<equiv> bnum sf (bits4 (op_b st))"
  shows "\<exists>a b. vector2_of4 (op_a st) True = Some a \<and> \<not> is_NaN a \<and> vector2_of4 (op_b st) True = Some b \<and> \<not> is_NaN b \<and> (is_zero2 b \<longleftrightarrow> y = 0) \<and>
    (\<exists>m n. strip_sign2 sf a = Some (m, x < 0) \<and> strip_sign2 sf b = Some (n, y < 0) \<and>
      (y \<noteq> 0 \<longrightarrow> (\<exists>q r. div2 m n = Some q \<and> mod2 m n = Some r \<and> wf2 q \<and> clean2 q \<and> wid2 q = w \<and> wf2 r \<and> clean2 r \<and> wid2 r = w \<and>
        uval2 r = \<bar>x\<bar> mod \<bar>y\<bar> \<and> uval2 q = (if y = 1 \<and> 2 ^ (w - 1) < x then 0 else \<bar>x\<bar> div \<bar>y\<bar>))))"
proof -
  have st: "0 < w" "w mod 64 \<noteq> 0" "(w + 1) mod 64 \<noteq> 0" "size4 (op_a st) = w" "size4 (op_b st) = w" "wf4 (op_a st)" "wf4 (op_b st)"
    using assms(1,2) by (auto simp: arith_state_def divisible_width_def)
  obtain a b where ab: "vector2_of4 (op_a st) True = Some a" "\<not> is_NaN a" "wf2 a" "clean2 a" "wid2 a = w" "uval2 a = uval4 (op_a st)"
    "vector2_of4 (op_b st) True = Some b" "\<not> is_NaN b" "wf2 b" "clean2 b" "wid2 b = w" "uval2 b = uval4 (op_b st)"
    using vector2_of4_ok [OF st(6)] vector2_of4_ok [OF st(7)] st(1,4,5) assms(3) by auto
  obtain m n where mn: "strip_sign2 sf a = Some (m, x < 0)" "wf2 m" "clean2 m" "wid2 m = w" "uval2 m = \<bar>x\<bar>"
    "strip_sign2 sf b = Some (n, y < 0)" "wf2 n" "clean2 n" "wid2 n = w" "uval2 n = \<bar>y\<bar>"
    using strip_sign2_ok [of a "op_a st" sf] strip_sign2_ok [of b "op_b st" sf] ab st(2,4,5) unfolding x_def y_def by auto
  have "take_bit w y = uval4 (op_b st)" using take_bit_bnum [of "bits4 (op_b st)" sf] st(5) by (simp add: y_def uval4_def)
  then have "y = 0 \<longleftrightarrow> uval4 (op_b st) = 0"
    using bnum_range [of "bits4 (op_b st)" sf] st(1,5) sval4_uval4 [of "op_b st"] uval4_bounds [of "op_b st"]
    by (auto simp: y_def bnum_bits4 split: if_splits)
  then have zero: "is_zero2 b \<longleftrightarrow> y = 0" using is_zero2_ok [of b] ab by simp
  have odd: "\<bar>y\<bar> = 1 \<and> 2 ^ (w - 1) < \<bar>x\<bar> \<longleftrightarrow> y = 1 \<and> 2 ^ (w - 1) < x"
    using bnum_range [of "bits4 (op_a st)" sf] bnum_range [of "bits4 (op_b st)" sf] st(1,4,5) unfolding x_def y_def by (auto split: if_splits)
  show ?thesis
    using ab zero mn div_mod2_ok [OF mn(2-4,7-9) _ st(2,3)] odd by (auto simp: div2_def mod2_def)
qed

text \<open>The result takes the sign back.\<close>

lemma neg_to_vector4:
  assumes "wf2 q" "clean2 q" "wid2 q = w" "w mod 64 \<noteq> 0"
  shows "\<exists>r u. (if neg then neg2 q else Some q) = Some r \<and> wid2 r = w \<and> vector2_to_vector4 r w = Some u \<and> wf4 u \<and>
    bits4 u = num_bits4 w (if neg then - uval2 q else uval2 q)"
proof (cases neg)
  case True
  obtain r where r: "neg2 q = Some r" "wf2 r" "wid2 r = w" "uval2 r = take_bit w (- uval2 q)" using neg2_ok [of q] assms by auto
  have "num_bits4 w (uval2 r) = num_bits4 w (- uval2 q)" unfolding r(4) by (rule num_bits4_cong) simp
  then show ?thesis using True r to_vector4_num [OF r(2,3)] by auto
next
  case False
  then show ?thesis using to_vector4_num [OF assms(1,3)] assms(3) by auto
qed

lemma div_wide_ok:
  assumes "arith_state (divisible_width w) w sf st" "64 < w"
  shows "\<exists>u. div_output st = Some u \<and> wf4 u \<and> bits4 u = arith_fn (quot_fn w) w sf (bits4 (op_a st)) (bits4 (op_b st))"
    "\<exists>u. mod_output st = Some u \<and> wf4 u \<and> bits4 u = arith_fn rem_fn w sf (bits4 (op_a st)) (bits4 (op_b st))"
proof -
  let ?D = "\<exists>u. div_output st = Some u \<and> wf4 u \<and> bits4 u = arith_fn (quot_fn w) w sf (bits4 (op_a st)) (bits4 (op_b st))"
  let ?M = "\<exists>u. mod_output st = Some u \<and> wf4 u \<and> bits4 u = arith_fn rem_fn w sf (bits4 (op_a st)) (bits4 (op_b st))"
  have st: "arith_wid st = w" "signed_flag st = sf" "wf4 (x_val st)" "bits4 (x_val st) = replicate w BIT4_X" "wf4 (op_a st)" "wf4 (op_b st)"
    "0 < size4 (op_a st)" "0 < size4 (op_b st)" "w mod 64 \<noteq> 0"
    using assms by (auto simp: arith_state_def divisible_width_def)
  have out: "div_output st = div_wide4 st" "mod_output st = mod_wide st" using assms(2) st(1) by (simp_all add: div_output_def mod_output_def)
  define x y where "x = bnum sf (bits4 (op_a st))" and "y = bnum sf (bits4 (op_b st))"
  have "?D \<and> ?M"
  proof (cases "list_ex bit4_is_xz (bits4 (op_a st) @ bits4 (op_b st))")
    case True
    then show ?thesis using vector2_of4_ok [OF st(5,7)] vector2_of4_ok [OF st(6,8)] st(3,4) unfolding out
      by (auto simp: div_wide4_def mod_wide_def arith_fn_def split: if_splits)
  next
    case False
    obtain a b m n where ops: "vector2_of4 (op_a st) True = Some a" "\<not> is_NaN a" "vector2_of4 (op_b st) True = Some b" "\<not> is_NaN b"
      "is_zero2 b \<longleftrightarrow> y = 0" "strip_sign2 sf a = Some (m, x < 0)" "strip_sign2 sf b = Some (n, y < 0)"
      and res: "y \<noteq> 0 \<longrightarrow> (\<exists>q r. div2 m n = Some q \<and> mod2 m n = Some r \<and> wf2 q \<and> clean2 q \<and> wid2 q = w \<and> wf2 r \<and> clean2 r \<and> wid2 r = w \<and>
        uval2 r = \<bar>x\<bar> mod \<bar>y\<bar> \<and> uval2 q = (if y = 1 \<and> 2 ^ (w - 1) < x then 0 else \<bar>x\<bar> div \<bar>y\<bar>))"
      using wide_operands [OF assms False, folded x_def y_def] by blast
    show ?thesis
    proof (cases "y = 0")
      case True
      then show ?thesis using ops st False y_def unfolding out
        by (auto simp: div_wide4_def mod_wide_def arith_fn_def quot_fn_def rem_fn_def)
    next
      case nz: False
      then obtain q r where q: "div2 m n = Some q" "wf2 q" "clean2 q" "wid2 q = w" "uval2 q = (if y = 1 \<and> 2 ^ (w - 1) < x then 0 else \<bar>x\<bar> div \<bar>y\<bar>)"
        and r: "mod2 m n = Some r" "wf2 r" "clean2 r" "wid2 r = w" "uval2 r = \<bar>x\<bar> mod \<bar>y\<bar>" using res by blast
      have qv: "quot_fn w x y = Some (if (x < 0) \<noteq> (y < 0) then - uval2 q else uval2 q)"
        using nz assms(2) by (auto simp: quot_fn_def q(5) sdiv_magnitude)
      have rv: "rem_fn x y = Some (if x < 0 then - uval2 r else uval2 r)"
        using nz by (simp add: rem_fn_def r(5) smod_magnitude)
      show ?thesis
        using neg_to_vector4 [OF q(2-4) st(9), of "(x < 0) \<noteq> (y < 0)"] neg_to_vector4 [OF r(2-4) st(9), of "x < 0"] ops nz st(1,2) q(1) r(1) False
        unfolding out div_wide4_def mod_wide_def arith_fn_def x_def [symmetric] y_def [symmetric] qv rv by (fastforce split: if_splits)
    qed
  qed
  then show ?D ?M by blast+
qed

section \<open>Comparison\<close>

text \<open>
  The result of a comparison that looks at the bits in pairs: \<open>d\<close> if some pair differs, otherwise X if some pair is undecided, otherwise \<open>e\<close>.
\<close>

definition pairs_fn :: "(vvp_bit4_t \<Rightarrow> vvp_bit4_t \<Rightarrow> bool) \<Rightarrow> (vvp_bit4_t \<Rightarrow> vvp_bit4_t \<Rightarrow> bool) \<Rightarrow> vvp_bit4_t \<Rightarrow> vvp_bit4_t \<Rightarrow>
    vvp_bit4_t list \<Rightarrow> vvp_bit4_t list \<Rightarrow> vvp_bit4_t list" where
  "pairs_fn differs undecided d e a b =
     [if list_ex (\<lambda>(x, y). differs x y) (zip a b) then d else if list_ex (\<lambda>(x, y). undecided x y) (zip a b) then BIT4_X else e]"

abbreviation known_differ :: "vvp_bit4_t \<Rightarrow> vvp_bit4_t \<Rightarrow> bool" where
  "known_differ x y \<equiv> \<not> bit4_is_xz x \<and> \<not> bit4_is_xz y \<and> x \<noteq> y"

lemma cmp_loop_ok:
  assumes "\<And>x y. body x y = (if differs x y then Cmp_break d else if undecided x y then Cmp_set BIT4_X else Cmp_continue)"
  shows "cmp_loop body a b n idx res =
    (if list_ex (\<lambda>i. differs (a i) (b i)) [idx..<idx + n] then d
     else if list_ex (\<lambda>i. undecided (a i) (b i)) [idx..<idx + n] then BIT4_X else res)"
proof (induction n arbitrary: idx res)
  case (Suc n)
  have "[idx..<idx + Suc n] = idx # [idx + 1..<idx + 1 + n]" using upt_conv_Cons [of idx "idx + Suc n"] by simp
  then show ?case using Suc.IH [of "idx + 1"] unfolding cmp_loop.simps assms by (simp del: upt_Suc)
qed simp

lemma set_one_bit: "\<exists>u. set_bit4 (vector4_fill 1 BIT4_X) 0 b = Some u \<and> wf4 u \<and> bits4 u = [b]"
  using set_bit4_ok [of "vector4_fill 1 BIT4_X" 0 b] by (auto simp: bits4_fill)

lemma cmp_output_ok:
  assumes "\<And>x y. body x y = (if differs x y then Cmp_break d else if undecided x y then Cmp_set BIT4_X else Cmp_continue)"
    and "arith_state (same_width w) w sf st"
  shows "\<exists>u. cmp_output body e st = Some u \<and> wf4 u \<and> bits4 u = pairs_fn differs undecided d e (bits4 (op_a st)) (bits4 (op_b st))"
proof -
  have sz: "size4 (op_a st) = w" "size4 (op_b st) = w" using assms(2) by (auto simp: arith_state_def same_width_def)
  have "list_ex (\<lambda>(x, y). P x y) (zip (bits4 (op_a st)) (bits4 (op_b st))) \<longleftrightarrow> list_ex (\<lambda>i. P (value4 (op_a st) i) (value4 (op_b st) i)) [0..<w]" for P
    using sz by (auto simp: list_ex_length nth_value4)
  then show ?thesis
    using set_one_bit sz cmp_loop_ok [where a = "value4 (op_a st)" and b = "value4 (op_b st)" and n = w and idx = 0 and res = e, OF assms(1)] by (simp add: cmp_output_def pairs_fn_def)
qed

definition order_fn :: "vvp_bit4_t \<Rightarrow> bool \<Rightarrow> vvp_bit4_t list \<Rightarrow> vvp_bit4_t list \<Rightarrow> vvp_bit4_t list" where
  "order_fn e sf a b = [if list_ex bit4_is_xz (a @ b) then BIT4_X else order_bit e (bnum sf a) (bnum sf b)]"

lemma gtge_output_ok:
  assumes "arith_state (same_width w) w sf st"
  shows "\<exists>u. gtge_output e st = Some u \<and> wf4 u \<and> bits4 u = order_fn e sf (bits4 (op_a st)) (bits4 (op_b st))"
proof -
  have st: "size4 (op_a st) = w" "size4 (op_b st) = w" "0 < w" "signed_flag st = sf" using assms by (auto simp: arith_state_def same_width_def)
  show ?thesis
    using set_one_bit compare_gtge_ok [of "op_a st" "op_b st" e] compare_gtge_signed_ok [of "op_b st" "op_a st" e] st
    by (cases sf) (simp_all add: gtge_output_def order_fn_def bnum_bits4)
qed

section \<open>Shifts\<close>

definition shift_width :: "nat \<Rightarrow> nat \<Rightarrow> nat \<Rightarrow> bool" where
  "shift_width w p n \<longleftrightarrow> 0 < w \<and> (p = 0 \<longrightarrow> n = w) \<and> w < 2 ^ 64"

definition shiftl_fn :: "nat \<Rightarrow> vvp_bit4_t list \<Rightarrow> vvp_bit4_t list \<Rightarrow> vvp_bit4_t list" where
  "shiftl_fn w a b =
     (if list_ex bit4_is_xz b then replicate w BIT4_X
      else let k = min w (nat (bnum False b)) in take w (replicate k BIT4_0 @ a))"

definition shiftr_fn :: "nat \<Rightarrow> bool \<Rightarrow> vvp_bit4_t list \<Rightarrow> vvp_bit4_t list \<Rightarrow> vvp_bit4_t list" where
  "shiftr_fn w sf a b =
     (if list_ex bit4_is_xz b then replicate w BIT4_X
      else let k = min w (nat (bnum False b)) in drop k a @ replicate k (if sf then last a else BIT4_0))"

lemma shift_count_ok:
  assumes "size4 (op_a st) = w" "w < 2 ^ 64"
  shows "shift_count st = (if list_ex bit4_is_xz (bits4 (op_b st)) then None else Some (min w (nat (uval4 (op_b st)))))"
proof -
  have "unat (word_of_int (uval4 (op_b st)) :: ulong) = nat (uval4 (op_b st))" if "uval4 (op_b st) < 2 ^ 64"
    using that uval4_bounds(1) [of "op_b st"] by (simp add: unat_eq_nat_uint uint_word_of_int)
  moreover have "w < nat (uval4 (op_b st))" if "2 ^ 64 \<le> uval4 (op_b st)"
    using that order_less_le_trans [of "int w" "2 ^ 64" "uval4 (op_b st)"] assms(2) by (simp add: zless_nat_eq_int_zless)
  ultimately show ?thesis using assms(1) by (cases "2 ^ 64 \<le> uval4 (op_b st)") (auto simp: shift_count_def vector4_to_value_ovf_ok)
qed

lemma shiftl_output_ok:
  assumes "arith_state (shift_width w) w sf st"
  shows "\<exists>u. shiftl_output st = Some u \<and> wf4 u \<and> bits4 u = shiftl_fn w (bits4 (op_a st)) (bits4 (op_b st))"
proof -
  have st: "size4 (op_a st) = w" "w < 2 ^ 64" "wf4 (x_val st)" "bits4 (x_val st) = replicate w BIT4_X"
    using assms by (auto simp: arith_state_def shift_width_def)
  define k where "k = min w (nat (uval4 (op_b st)))"
  have k: "k \<le> w" by (simp add: k_def)
  obtain z where z: "set_loop set_bit4 0 (\<lambda>_. BIT4_0) k (vector4_fill w BIT4_X) = Some z" "wf4 z" "size4 z = w"
    "bits4 z = replicate k BIT4_0 @ replicate (w - k) BIT4_X"
    using v4.set_loop_ok [of "vector4_fill w BIT4_X" 0 k "\<lambda>_. BIT4_0"] k by (auto simp: map_replicate_const bits4_fill)
  have "map (value4 (op_a st)) [0..<w - k] = take (w - k) (bits4 (op_a st))" using st(1) by (simp add: bits4_map_value take_map)
  then have "\<exists>u. set_loop set_bit4 k (value4 (op_a st)) (w - k) z = Some u \<and> wf4 u \<and> bits4 u = take w (replicate k BIT4_0 @ bits4 (op_a st))"
    using v4.set_loop_ok [OF z(2), of k "w - k" "value4 (op_a st)"] z(3,4) k by auto
  then show ?thesis
    using shift_count_ok [OF st(1,2), folded k_def] st z(1) by (auto simp: shiftl_output_def shiftl_fn_def Let_def bnum_bits4 k_def [symmetric])
qed

lemma shiftr_output_ok:
  assumes "arith_state (shift_width w) w sf st"
  shows "\<exists>u. shiftr_output st = Some u \<and> wf4 u \<and> bits4 u = shiftr_fn w sf (bits4 (op_a st)) (bits4 (op_b st))"
proof -
  have st: "size4 (op_a st) = w" "w < 2 ^ 64" "wf4 (x_val st)" "bits4 (x_val st) = replicate w BIT4_X" "0 < w" "signed_flag st = sf"
    using assms by (auto simp: arith_state_def shift_width_def)
  define k where "k = min w (nat (uval4 (op_b st)))"
  have k: "k \<le> w" by (simp add: k_def)
  define pad where "pad = (if sf then value4 (op_a st) (w - 1) else BIT4_0)"
  have "last (bits4 (op_a st)) = value4 (op_a st) (w - 1)"
    using st(1,5) nth_value4 [of "w - 1" "op_a st"] by (subst last_conv_nth) (auto simp flip: length_greater_0_conv)
  then have pad: "pad = (if sf then last (bits4 (op_a st)) else BIT4_0)" by (simp add: pad_def)
  have d: "map (\<lambda>idx. value4 (op_a st) (idx + k)) [0..<w - k] = drop k (bits4 (op_a st))"
    using st(1) by (intro nth_equalityI) (auto simp: nth_value4 add.commute)
  obtain z where z: "set_loop set_bit4 0 (\<lambda>idx. value4 (op_a st) (idx + k)) (w - k) (vector4_fill w BIT4_X) = Some z" "wf4 z" "size4 z = w"
    "bits4 z = drop k (bits4 (op_a st)) @ replicate k BIT4_X"
    using v4.set_loop_ok [of "vector4_fill w BIT4_X" 0 "w - k" "\<lambda>idx. value4 (op_a st) (idx + k)"] k by (auto simp: d bits4_fill)
  have "\<exists>u. set_loop set_bit4 (w - k) (\<lambda>_. pad) k z = Some u \<and> wf4 u \<and> bits4 u = drop k (bits4 (op_a st)) @ replicate k pad"
    using v4.set_loop_ok [OF z(2), of "w - k" k "\<lambda>_. pad"] z(3,4) k st(1) by (auto simp: map_replicate_const)
  then show ?thesis
    using shift_count_ok [OF st(1,2), folded k_def] st z(1) pad pad_def
    by (auto simp: shiftr_output_def shiftr_fn_def Let_def bnum_bits4 k_def [symmetric])
qed

section \<open>The functors\<close>

interpretation sum: arith_functor sum_output "same_width w" w sf "arith_fn (\<lambda>x y. Some (x + y)) w sf" for w sf
  by unfold_locales (rule sum_output_ok)

interpretation sub: arith_functor sub_output "same_width w" w sf "arith_fn (\<lambda>x y. Some (x - y)) w sf" for w sf
  by unfold_locales (rule sub_output_ok)

interpretation mult: arith_functor mult_output "same_width w" w sf "arith_fn (\<lambda>x y. Some (x * y)) w sf" for w sf
  by unfold_locales (rule mult_output_ok)

interpretation quot: arith_functor div_output "divisible_width w" w sf "arith_fn (quot_fn w) w sf" for w sf
  by unfold_locales (metis div_native_ok(1) div_wide_ok(1) not_le)

interpretation rem: arith_functor mod_output "divisible_width w" w sf "arith_fn rem_fn w sf" for w sf
  by unfold_locales (metis div_native_ok(2) div_wide_ok(2) not_le)

interpretation shl: arith_functor shiftl_output "shift_width w" w sf "shiftl_fn w" for w sf
  by unfold_locales (rule shiftl_output_ok)

interpretation shr: arith_functor shiftr_output "shift_width w" w sf "shiftr_fn w sf" for w sf
  by unfold_locales (rule shiftr_output_ok)

interpretation eeq: arith_functor cmp_eeq_output "same_width w" w sf "pairs_fn (\<noteq>) (\<lambda>_ _. False) BIT4_0 BIT4_1" for w sf
  unfolding cmp_eeq_output_def by unfold_locales (rule cmp_output_ok, auto simp: eeq_body_def)

interpretation nee: arith_functor cmp_nee_output "same_width w" w sf "pairs_fn (\<noteq>) (\<lambda>_ _. False) BIT4_1 BIT4_0" for w sf
  unfolding cmp_nee_output_def by unfold_locales (rule cmp_output_ok, auto simp: eeq_body_def)

interpretation eq: arith_functor cmp_eq_output "same_width w" w sf
    "pairs_fn known_differ (\<lambda>x y. bit4_is_xz x \<or> bit4_is_xz y) BIT4_0 BIT4_1" for w sf
  unfolding cmp_eq_output_def by unfold_locales (rule cmp_output_ok, auto simp: eq_body_def bit4_is_xz_iff)

interpretation ne: arith_functor cmp_ne_output "same_width w" w sf
    "pairs_fn known_differ (\<lambda>x y. bit4_is_xz x \<or> bit4_is_xz y) BIT4_1 BIT4_0" for w sf
  unfolding cmp_ne_output_def by unfold_locales (rule cmp_output_ok, auto simp: eq_body_def bit4_is_xz_iff)

interpretation eqx: arith_functor cmp_eqx_output "same_width w" w sf
    "pairs_fn (\<lambda>x y. \<not> bit4_is_xz y \<and> x \<noteq> y) (\<lambda>_ _. False) BIT4_0 BIT4_1" for w sf
  unfolding cmp_eqx_output_def by unfold_locales (rule cmp_output_ok, auto simp: eqx_body_def bit4_is_xz_iff)

interpretation eqz: arith_functor cmp_eqz_output "same_width w" w sf
    "pairs_fn (\<lambda>x y. y \<noteq> BIT4_Z \<and> x \<noteq> y) (\<lambda>_ _. False) BIT4_0 BIT4_1" for w sf
  unfolding cmp_eqz_output_def by unfold_locales (rule cmp_output_ok, auto simp: eqz_body_def)

interpretation weq: arith_functor cmp_weq_output "same_width w" w sf
    "pairs_fn known_differ (\<lambda>x y. bit4_is_xz x \<and> \<not> bit4_is_xz y) BIT4_0 BIT4_1" for w sf
  unfolding cmp_weq_output_def by unfold_locales (rule cmp_output_ok, auto simp: weq_body_def bit4_is_xz_iff)

interpretation wne: arith_functor cmp_wne_output "same_width w" w sf
    "pairs_fn known_differ (\<lambda>x y. bit4_is_xz x \<and> \<not> bit4_is_xz y) BIT4_1 BIT4_0" for w sf
  unfolding cmp_wne_output_def by unfold_locales (rule cmp_output_ok, auto simp: weq_body_def bit4_is_xz_iff)

interpretation ge: arith_functor cmp_ge_output "same_width w" w sf "order_fn BIT4_1 sf" for w sf
  unfolding cmp_ge_output_def by unfold_locales (rule gtge_output_ok)

interpretation gt: arith_functor cmp_gt_output "same_width w" w sf "order_fn BIT4_0 sf" for w sf
  unfolding cmp_gt_output_def by unfold_locales (rule gtge_output_ok)

section \<open>Functors with one operand\<close>

lemma arith_abs_ok:
  assumes "wf4 b" "0 < size4 b"
  shows "\<exists>u. arith_abs b = Some u \<and> wf4 u \<and> bits4 u =
    (if list_ex bit4_is_xz (bits4 b) then replicate (size4 b) BIT4_X else num_bits4 (size4 b) \<bar>sval4 b\<bar>)"
proof -
  let ?z = "vector4_fill (size4 b) BIT4_0" and ?n = "size4 b" and ?i = "copy_inverted_from b"
  have z: "\<not> list_ex bit4_is_xz (bits4 ?z)" "sval4 ?z = 0"
    using assms(2) sbits_ubits [of "replicate ?n False"] by (simp_all add: bits4_fill list_ex_iff bit4_is_xz_iff sval4_def)
  have cmp: "compare_gtge_signed b ?z BIT4_1 = Some (if list_ex bit4_is_xz (bits4 b) then BIT4_X else if sval4 b \<ge> 0 then BIT4_1 else BIT4_0)"
    using compare_gtge_signed_ok [of ?z b BIT4_1] assms(2) z by (auto simp: order_bit_def)
  show ?thesis
  proof (cases "list_ex bit4_is_xz (bits4 b)")
    case True
    then show ?thesis using cmp by (simp add: arith_abs_def bits4_fill)
  next
    case False
    have self: "num_bits4 ?n (uval4 b) = bits4 b" using num_bits4_self [of "bits4 b"] False by (simp add: uval4_def list_all_iff list_ex_iff)
    have s: "sval4 b = uval4 b \<or> sval4 b = uval4 b - 2 ^ ?n" using sval4_uval4 [OF assms(2)] by auto
    show ?thesis
    proof (cases "sval4 b \<ge> 0")
      case True
      then have "sval4 b = uval4 b" using s uval4_bounds [of b] by auto
      then show ?thesis using True False cmp self assms(1) by (simp add: arith_abs_def)
    next
      case neg: False
      have i: "wf4 ?i" "size4 ?i = ?n" "bits4 ?i = map bit4_not (bits4 b)" using copy_inverted_from_ok [OF assms(1)] by auto
      have "uval4 ?i = take_bit ?n (NOT (uval4 b))"
        unfolding uval4_def i(3) using False
        by (intro ubits_eqI) (auto simp: bit_not_iff bit_ubits nth_value4 xz_values bit4_not_xz)
      then have "num_bits4 ?n (uval4 ?i + 1) = num_bits4 ?n \<bar>sval4 b\<bar>"
        using neg s uval4_bounds(1) [of b] take_bit_add [of ?n "take_bit ?n (NOT (uval4 b))" 1] take_bit_add [of ?n "NOT (uval4 b)" 1]
          take_bit_diff [of ?n "2 ^ ?n" "uval4 b"] take_bit_minus [of ?n "uval4 b"]
        by (intro num_bits4_cong) (auto simp: not_int_def)
      moreover have "\<not> list_ex bit4_is_xz (bits4 ?i)" using False i(3) by (auto simp: list_ex_iff bit4_not_xz)
      ultimately show ?thesis using neg False cmp i add_int_ok [OF i(1), of 1] assms(2) by (auto simp: arith_abs_def)
    qed
  qed
qed

lemma arith_cast_vec2_ok:
  assumes "wf4 b"
  shows "\<exists>u. arith_cast_vec2 n b = Some u \<and> wf4 u \<and>
    bits4 u = map (\<lambda>i. if i < size4 b \<and> value4 b i = BIT4_1 then BIT4_1 else BIT4_0) [0..<n]"
proof -
  obtain t where t: "copy_from_that b = Some t" "wid2 t = size4 b" "bits2 t = map one4 (bits4 b)"
    using copy_from_that_ok [OF assms] by auto
  have "i < size4 b \<and> bits2 t ! i \<longleftrightarrow> i < size4 b \<and> value4 b i = BIT4_1" for i using t(3) by (auto simp: nth_value4)
  then show ?thesis using vector2_to_vector4_ok [of t n] t(1,2) by (auto simp: arith_cast_vec2_def vector2_of4_def)
qed

end
