(* ===== verification/Arithfun_Props.thy ===== *)
theory Arithfun_Props
  imports Vvp_ArithfunSpec
begin

text \<open>
  The properties of the arithmetic functors: what a functor sends after any sequence of operands. Each one is the run
  lemma of the interface \<open>arith_functor\<close> at its interpretations.
\<close>

definition in_ops :: "nat \<Rightarrow> (nat \<times> vvp_vector4_t) list \<Rightarrow> bool" where
  "in_ops w ops \<longleftrightarrow> 0 < w \<and> ops \<noteq> [] \<and> list_all (\<lambda>(p, v). p < 2 \<and> wf4 v \<and> size4 v = w) ops"

abbreviation last_drivers :: "nat \<Rightarrow> (nat \<times> vvp_vector4_t) list \<Rightarrow> nat \<Rightarrow> vvp_bit4_t list" where
  "last_drivers w ops \<equiv> drivers bits4 ops (\<lambda>_. replicate w BIT4_Z)"

lemma in_ops_fit:
  assumes "in_ops w ops" "\<And>p. fit p w"
  shows "fit 0 w" "fit 1 w" "list_all (\<lambda>(p, v). p < 2 \<and> wf4 v \<and> fit p (size4 v)) ops" "ops \<noteq> []"
  using assms by (auto simp: in_ops_def list_all_iff)

lemma same_width_refl: "in_ops w ops \<Longrightarrow> same_width w p w"
  by (simp add: in_ops_def same_width_def)

text \<open>Four-bit operands for the witnesses.\<close>

abbreviation nibble :: "ulong \<Rightarrow> ulong \<Rightarrow> vvp_vector4_t" where
  "nibble a b \<equiv> \<lparr>size4 = 4, abits4 = [a], bbits4 = [b]\<rparr>"

lemma upt_4: "[0..<4] = [0, 1, 2, 3 :: nat]"
  by (simp add: upt_rec)

lemmas nibble_eval = bits4_def upt_4 value4_def ul_shr_def ul_shl_def bit4_cast_def drop_bit_eq_div

lemma nibble_bits:
  "bits4 (nibble 9 0) = [BIT4_1, BIT4_0, BIT4_0, BIT4_1]" "bits4 (nibble 2 0) = [BIT4_0, BIT4_1, BIT4_0, BIT4_0]"
  "bits4 (nibble 9 1) = [BIT4_X, BIT4_0, BIT4_0, BIT4_1]"
  by (simp_all add: nibble_eval)

lemma nibble_wf: "wf4 (nibble a b)"
  by (simp add: wf4_def words4_def)

section \<open>Arithmetic\<close>

text \<open>
  C20. The functors for sum, difference, product, quotient and remainder, signed or not, driven by any
  sequence of operands of their width: each operand makes the functor send one vector, and the last vector
  sent is the integer result on the last operands of the two ports modulo \<open>2\<^sup>w\<close>, all X if one of
  them has an X or Z bit (as a port without an operand has) or the divisor is zero. Quotient and remainder truncate
  towards zero. Sum, difference and product are of any width. For quotient and remainder two things above 64 bits are left out: the widths that are a multiple of
  64 or one less (127, 128, 191, 192 and so on), and the quotient of a number above half the range by 1, where the functor sends 0 (lemma \<open>quot.output_ok\<close>).
\<close>

theorem arith_functors_correct:
  assumes "in_ops w ops"
    and "(outf, F) \<in> {(sum_output, \<lambda>x y. Some (x + y)), (sub_output, \<lambda>x y. Some (x - y)), (mult_output, \<lambda>x y. Some (x * y))} \<union>
      (if w \<le> 64 \<or> w mod 64 \<noteq> 0 \<and> (w + 1) mod 64 \<noteq> 0 then {(div_output, tdiv_fn), (mod_output, rem_fn)} else {})"
    and "outf \<noteq> div_output \<or> w \<le> 64 \<or> bnum sf (last_drivers w ops 1) \<noteq> 1 \<or> bnum sf (last_drivers w ops 0) \<le> 2 ^ (w - 1)"
  shows "\<exists>st st' outs. new_arith w sf = Some st \<and> run_recv (arith_recv outf) ops st = Some (st', outs) \<and>
    length outs = length ops \<and> bits4 (last outs) = arith_fn F w sf (last_drivers w ops 0) (last_drivers w ops 1)"
proof -
  note same = in_ops_fit [where fit = "same_width w", OF assms(1) same_width_refl [OF assms(1)]]
  have div: "divisible_width w p w" if "w \<le> 64 \<or> w mod 64 \<noteq> 0 \<and> (w + 1) mod 64 \<noteq> 0" for p
    using that assms(1) by (simp add: divisible_width_def in_ops_def)
  note quot = quot.new_run [OF in_ops_fit [where fit = "divisible_width w", OF assms(1) div] refl, of sf] and rem = rem.new_run [OF in_ops_fit [where fit = "divisible_width w", OF assms(1) div] refl, of sf]
  show ?thesis
    using assms(2,3) sum.new_run [OF same refl, of sf] sub.new_run [OF same refl, of sf] mult.new_run [OF same refl, of sf] quot rem
    by (auto simp: quot_fn_exact split: if_splits)
qed

theorem arith_functors_correct_witness:
  "\<exists>st st' outs. new_arith 4 True = Some st \<and>
    run_recv (arith_recv div_output) [(1, nibble 2 0), (0, nibble 9 0)] st = Some (st', outs) \<and>
    length outs = 2 \<and> bits4 (last outs) = [BIT4_1, BIT4_0, BIT4_1, BIT4_1]"
proof -
  have "arith_fn tdiv_fn 4 True [BIT4_1, BIT4_0, BIT4_0, BIT4_1] [BIT4_0, BIT4_1, BIT4_0, BIT4_0] = [BIT4_1, BIT4_0, BIT4_1, BIT4_1]"
    by (simp add: arith_fn_def tdiv_fn_def bnum_def sbits_ubits bit4_is_xz_iff signed_divide_int_def num_bits4_def upt_4 bit_iff_odd)
  then show ?thesis
    using arith_functors_correct [of 4 "[(1, nibble 2 0), (0, nibble 9 0)]" div_output tdiv_fn True]
    by (auto simp: in_ops_def nibble_wf nibble_bits)
qed

section \<open>Comparison\<close>


text \<open>The functor of casex skips the pairs whose second bit is X or Z and compares the others by identity.\<close>

lemma cmp_eqx_sends:
  assumes "in_ops w ops"
  shows "\<exists>st st' outs. new_arith w sf = Some st \<and> run_recv (arith_recv cmp_eqx_output) ops st = Some (st', outs) \<and> length outs = length ops \<and>
    bits4 (last outs) = pairs_fn (\<lambda>x y. \<not> bit4_is_xz y \<and> x \<noteq> y) (\<lambda>_ _. False) BIT4_0 BIT4_1 (last_drivers w ops 0) (last_drivers w ops 1)"
  using eqx.new_run [OF in_ops_fit [where fit = "same_width w", OF assms same_width_refl [OF assms]] refl, of sf] .


section \<open>Shifts, absolute value and cast\<close>



end
