(* ===== verification/Vvp_Divide.thy ===== *)
theory Vvp_Divide
  imports Vvp_Arith4
begin

text \<open>
  Division of arrays of words (vvp/vthread.cc): \<open>divide_bits\<close> estimates one word of the quotient at a time from the leading
  words, and adds the divisor back while the remainder is negative. It is right for divisors of one word, and for divisors
  as long as the dividend if the top bit of the dividend is 0; the estimate can fail for others.
\<close>

section \<open>Definitions\<close>

text \<open>The sum of \<open>multiply_array_imm\<close> over \<open>words\<close> words, modulo their range.\<close>

definition multiply_array_imm :: "ulong list \<Rightarrow> nat \<Rightarrow> ulong \<Rightarrow> ulong list" where
  "multiply_array_imm val words imm =
     fold (\<lambda>mul_idx. mul_step words mul_idx (val ! mul_idx) imm) [0..<words] (replicate words 0)"

text \<open>One round of the loop of \<open>divide2words\<close>: the addend of the result, the new \<open>a\<close> and the new \<open>high\<close>. The divisor is not 0 at the calls.\<close>

definition divide2words_round :: "ulong \<Rightarrow> ulong \<Rightarrow> ulong \<Rightarrow> ulong \<times> ulong \<times> ulong" where
  "divide2words_round a b high =
     (let tmp_result = ULONG_MAX div b;
          remain = ULONG_MAX mod b + 1;
          (remain, tmp_result) = (if remain \<ge> b then (remain - b, tmp_result + 1) else (remain, tmp_result));
          addend = tmp_result * high;
          (remain, high) = multiply_with_carry high remain;
          a = a + remain
      in (addend, a, if a < remain then high + 1 else high))"

lemma mult_div_le: "0 < b \<Longrightarrow> b * (a div b) \<le> (a :: int)"
  using mult_div_mod_eq [of b a] pos_mod_sign [of b a] by linarith

lemma div_less_int:
  assumes "(a :: int) < b * n" "0 < b"
  shows "a div b < n"
proof -
  have "b * (a div b) < b * n" using mult_div_le [OF assms(2), of a] assms(1) by linarith
  then show ?thesis using assms(2) by (simp only: mult_less_cancel_left_pos)
qed

lemma uint_mwc:
  assumes "multiply_with_carry a b = (low, high)"
  shows "uint low + 2 ^ 64 * uint high = uint a * uint b"
  using arg_cong [OF multiply_with_carry_ok [OF assms], of int]
  by (simp only: of_nat_add of_nat_mult of_nat_power of_nat_numeral uint_nat [symmetric])

text \<open>\<open>ULONG_MAX\<close> divided by \<open>b\<close> and corrected by 1 is the division of \<open>2\<^sup>6\<^sup>4\<close>.\<close>

lemma full_word_div:
  fixes b :: ulong
  assumes "b \<noteq> 0"
  defines "R \<equiv> (2 ^ 64 :: int) mod uint b" and "T \<equiv> (2 ^ 64 :: int) div uint b"
  shows "(if ULONG_MAX mod b + 1 \<ge> b then (ULONG_MAX mod b + 1 - b, ULONG_MAX div b + 1) else (ULONG_MAX mod b + 1, ULONG_MAX div b))
    = (word_of_int R, word_of_int T)"
proof -
  define B where "B = uint b"
  have B: "0 < B" "B < 2 ^ 64" using assms(1) uint_lt_64 [of b] by (auto simp: B_def uint_0_iff less_le)
  have b: "b = word_of_int B" by (simp add: B_def)
  define D M where "D = (2 ^ 64 - 1 :: int) div B" and "M = (2 ^ 64 - 1 :: int) mod B"
  have DM: "2 ^ 64 = B * D + (M + 1)" "0 \<le> M" "M < B" using B by (simp_all add: D_def M_def)
  have words: "ULONG_MAX mod b + 1 = word_of_int (M + 1)" "ULONG_MAX div b = word_of_int D"
    by (simp_all add: word_div_def word_mod_def uint_minus_1 B_def M_def D_def)
  have "uint (word_of_int (M + 1) :: ulong) = M + 1" unfolding uint_word_of_int using DM(2,3) B by simp
  then have le: "b \<le> word_of_int (M + 1) \<longleftrightarrow> B \<le> M + 1" unfolding word_le_def B_def by metis
  show ?thesis
  proof (cases "B \<le> M + 1")
    case True
    then have pow: "2 ^ 64 = B * (D + 1)" using DM by (simp add: algebra_simps)
    have "R = 0" "T = D + 1" unfolding R_def T_def B_def [symmetric] pow using B by simp_all
    moreover have "M + 1 - B = 0" using True DM by simp
    then have "(word_of_int (M + 1) :: ulong) - b = 0" unfolding b by (metis of_int_0 of_int_diff)
    ultimately show ?thesis using True le words by simp
  next
    case False
    then have "R = M + 1" "T = D"
      using DM B int_div_pos_eq [of "2 ^ 64" B D "M + 1"] int_mod_pos_eq [of "2 ^ 64" B D "M + 1"] unfolding R_def T_def B_def [symmetric] by simp_all
    then show ?thesis using False le words by simp
  qed
qed

lemma divide2words_round_ok:
  assumes "divide2words_round a b high = (add, a', high')" "b \<noteq> 0"
  shows "\<exists>k. uint high * 2 ^ 64 + uint a = uint b * k + (uint high' * 2 ^ 64 + uint a') \<and> add = word_of_int k \<and> uint high \<le> k"
proof -
  define B R T where "B = uint b" and "R = (2 ^ 64 :: int) mod uint b" and "T = (2 ^ 64 :: int) div uint b"
  have B: "0 < B" "B < 2 ^ 64" using assms(2) uint_lt_64 [of b] by (auto simp: B_def uint_0_iff less_le)
  have RT: "2 ^ 64 = B * T + R" "0 \<le> R" "R < B" using B by (simp_all add: R_def T_def B_def)
  have "1 \<le> T" using B div_greater_zero_iff unfolding T_def B_def [symmetric] by (simp add: pos_imp_zdiv_pos_iff int_one_le_iff_zero_less)
  obtain low hi where mw: "multiply_with_carry high (word_of_int R) = (low, hi)" by fastforce
  have prod: "uint low + 2 ^ 64 * uint hi = uint high * R" using uint_mwc [OF mw] RT B by (simp add: uint_word_of_int)
  have res: "add = word_of_int T * high" "a' = a + low" "high' = (if a' < low then hi + 1 else hi)"
    using assms(1) full_word_div [OF assms(2)] mw unfolding divide2words_round_def R_def [symmetric] T_def [symmetric]
    by (auto simp: Let_def split: prod.splits)
  have "2 ^ 64 * uint hi \<le> uint high * R" using prod uint_lt_64 [of low] by linarith
  also have "\<dots> \<le> (2 ^ 64 - 1) * (2 ^ 64 - 1)" using uint_lt_64 [of high] RT B by (intro mult_mono) auto
  finally have "uint (hi + 1) = uint hi + 1" by (simp add: uint_plus_64)
  then have "uint a' + 2 ^ 64 * uint high' = uint a + uint high * R"
    using prod uint_lt_64 [of a] uint_lt_64 [of low] unfolding res(2,3) word_less_def by (auto simp: uint_plus_64)
  moreover have "uint high * 2 ^ 64 = uint b * (T * uint high) + uint high * R" unfolding RT(1) B_def by (simp add: algebra_simps)
  moreover have "add = word_of_int (T * uint high)" by (simp add: res(1))
  moreover have "uint high \<le> T * uint high" using \<open>1 \<le> T\<close> uint_lt_64 [of high] mult_right_mono [of 1 T "uint high"] by simp
  ultimately show ?thesis by (intro exI [of _ "T * uint high"]) simp
qed

text \<open>The value of \<open>{high, a}\<close> decreases in each round.\<close>

lemma uint_zero_pos: "(x :: ulong) \<noteq> 0 \<longleftrightarrow> 0 < uint x"
  using uint_lt_64 [of x] by (auto simp: uint_0_iff less_le)

function divide2words_loop :: "ulong \<Rightarrow> ulong \<Rightarrow> ulong \<Rightarrow> ulong \<Rightarrow> ulong" where
  "divide2words_loop a b high result =
     (if high = 0 \<or> b = 0 then result + a div b
      else let (addend, a, high) = divide2words_round a b high in divide2words_loop a b high (result + addend))"
  by auto

termination
proof (relation "measure (\<lambda>(a, b, high, _). nat (uint high * 2 ^ 64 + uint a))", goal_cases)
  case (2 a b high result x add y a' high')
  then have r: "divide2words_round a b high = (add, a', high')" "b \<noteq> 0" "high \<noteq> 0" by (auto split: prod.splits)
  obtain k where k: "uint high * 2 ^ 64 + uint a = uint b * k + (uint high' * 2 ^ 64 + uint a')" "uint high \<le> k"
    using divide2words_round_ok [OF r(1,2)] by blast
  have "0 < uint b * k" using k(2) r(2,3) by (simp add: uint_zero_pos)
  moreover have "0 \<le> uint high' * 2 ^ 64 + uint a'" using uint_lt_64 [of high'] uint_lt_64 [of a'] by simp
  ultimately show ?case using k(1) add_pos_nonneg [of "uint b * k" "uint high' * 2 ^ 64 + uint a'"] by simp
qed simp

declare divide2words_loop.simps [simp del]

definition divide2words :: "ulong \<Rightarrow> ulong \<Rightarrow> ulong \<Rightarrow> ulong" where
  "divide2words a b high = divide2words_loop a b high 0"

lemma divide2words_loop_ok:
  assumes "b \<noteq> 0"
  shows "divide2words_loop a b high result = result + word_of_int ((uint high * 2 ^ 64 + uint a) div uint b)"
  using assms
proof (induction a b high result rule: divide2words_loop.induct)
  case (1 a b high result)
  obtain add a' high' where r: "divide2words_round a b high = (add, a', high')" by (metis prod_cases3)
  obtain k where k: "uint high * 2 ^ 64 + uint a = uint b * k + (uint high' * 2 ^ 64 + uint a')" "add = word_of_int k"
    using divide2words_round_ok [OF r 1(2)] by blast
  show ?case
  proof (cases "high = 0")
    case True
    then show ?thesis by (simp add: word_div_def divide2words_loop.simps [of a b 0 result])
  next
    case False
    have "(uint high * 2 ^ 64 + uint a) div uint b = k + (uint high' * 2 ^ 64 + uint a') div uint b"
      unfolding k(1) using 1(2) by (simp add: uint_0_iff)
    then show ?thesis using False 1 r k(2) by (simp add: divide2words_loop.simps [of a b high result])
  qed
qed

lemma divide2words_ok: "b \<noteq> 0 \<Longrightarrow> uint (divide2words a b high) = (uint high * 2 ^ 64 + uint a) div uint b mod 2 ^ 64"
  by (simp add: divide2words_def divide2words_loop_ok uint_word_of_int)

section \<open>The division loop\<close>

text \<open>The correction loop: add the divisor to the words from \<open>cur_ptr\<close> on until there is a carry.\<close>

partial_function (option) add_back :: "ulong list \<Rightarrow> ulong list \<Rightarrow> ulong \<Rightarrow> (ulong list \<times> ulong) option" where
  "add_back ap bp cur_res =
     (let cur_res = cur_res - 1;
          (ap, carry) = carry_run ul_add_with_carry ap bp 0
      in if carry = 0 then add_back ap bp cur_res else Some (ap, cur_res))"

declare add_back.simps [code]

text \<open>The estimate of the word \<open>cur_ptr\<close> of the quotient; \<open>None\<close> where the loop continues without one.\<close>

definition estimate :: "ulong list \<Rightarrow> ulong list \<Rightarrow> nat \<Rightarrow> nat \<Rightarrow> nat \<Rightarrow> ulong option" where
  "estimate ap bp words btop cur_ptr =
     (if ap ! (cur_ptr + btop) \<ge> bp ! btop
      then let high = (if cur_ptr + btop + 1 < words then ap ! (cur_ptr + btop + 1) else 0)
           in Some (divide2words (ap ! (cur_ptr + btop)) (bp ! btop) high)
      else if cur_ptr + btop + 1 \<ge> words then None
      else if ap ! (cur_ptr + btop + 1) = 0 then None
      else Some (divide2words (ap ! (cur_ptr + btop)) (bp ! btop) (ap ! (cur_ptr + btop + 1))))"

text \<open>One round of the loop on \<open>cur\<close>.\<close>

definition divide_step :: "ulong list \<Rightarrow> nat \<Rightarrow> nat \<Rightarrow> nat \<Rightarrow> ulong list \<Rightarrow> ulong list \<Rightarrow> (ulong list \<times> ulong list) option" where
  "divide_step bp words btop cur_ptr ap result =
     (case estimate ap bp words btop cur_ptr of
        None \<Rightarrow> Some (ap, result)
      | Some cur_res \<Rightarrow>
          let diff = multiply_array_imm bp (words - cur_ptr) cur_res;
              (rest, carry) = carry_run ul_add_with_carry (drop cur_ptr ap) (map NOT diff) 1
          in do {
            (rest, cur_res) \<leftarrow> (if carry AND 1 = 0 then add_back rest (take (words - cur_ptr) bp) cur_res else Some (rest, cur_res));
            Some (take cur_ptr ap @ rest, result[cur_ptr := cur_res]) })"

fun divide_loop_words :: "ulong list \<Rightarrow> nat \<Rightarrow> nat \<Rightarrow> nat \<Rightarrow> ulong list \<Rightarrow> ulong list \<Rightarrow> (ulong list \<times> ulong list) option" where
  "divide_loop_words bp words btop 0 ap result = Some (ap, result)"
| "divide_loop_words bp words btop (Suc cur_ptr) ap result =
     do { (ap, result) \<leftarrow> divide_step bp words btop cur_ptr ap result;
          divide_loop_words bp words btop cur_ptr ap result }"

text \<open>The inner \<open>option\<close> is the null pointer for a zero divisor. The remainder is left in the array of the dividend.\<close>

definition divide_bits :: "ulong list \<Rightarrow> ulong list \<Rightarrow> nat \<Rightarrow> (ulong list \<times> ulong list) option option" where
  "divide_bits ap bp wid =
     (let words = (wid + BITS_PER_WORD - 1) div BITS_PER_WORD;
          btop = scan_down (\<lambda>n. bp ! n = 0) (words - 1)
      in if btop = 0 \<and> bp ! 0 = 0 then Some None
         else do { (ap, result) \<leftarrow> divide_loop_words bp words btop (words - btop) ap (replicate words 0);
                   Some (Some (result, ap)) })"

section \<open>Correctness\<close>

lemma multiply_array_imm_ok:
  assumes "words \<le> length val"
  shows "length (multiply_array_imm val words imm) = words"
    "wval (multiply_array_imm val words imm) = wval (take words val) * uint imm mod 2 ^ (64 * words)"
proof -
  define row where "row = (\<lambda>m. fold (\<lambda>mul_idx. mul_step words mul_idx (val ! mul_idx) imm) [0..<m] (replicate words 0))"
  have run: "length (row m) = words \<and> wcong words (wval (row m)) (wval (take m val) * uint imm)" if "m \<le> words" for m
    using that
  proof (induction m)
    case 0
    have "wval (replicate words 0) = 0" by (induction words) simp_all
    then show ?case by (simp add: row_def)
  next
    case (Suc m)
    have r: "row (Suc m) = mul_step words m (val ! m) imm (row m)" by (simp add: row_def)
    have ih: "length (row m) = words" "wcong words (wval (row m)) (wval (take m val) * uint imm)" using Suc by simp_all
    have "take (Suc m) val = take m val @ [val ! m]" using Suc.prems assms by (simp add: take_Suc_conv_app_nth)
    then have "wval (take (Suc m) val) * uint imm = wval (take m val) * uint imm + 2 ^ (64 * m) * (uint (val ! m) * uint imm)"
      using Suc.prems assms by (simp add: wval_append algebra_simps)
    moreover have "wcong words (wval (row m) + X) (wval (take m val) * uint imm + X)" for X using ih(2) by simp
    ultimately show ?case
      using mul_step_ok [of "row m" words m "val ! m" imm] ih(1) Suc.prems
      unfolding r by (metis Suc_le_lessD wcong_trans)
  qed
  have m: "multiply_array_imm val words imm = row words" by (simp add: row_def multiply_array_imm_def)
  show "length (multiply_array_imm val words imm) = words" using run [of words] m by simp
  show "wval (multiply_array_imm val words imm) = wval (take words val) * uint imm mod 2 ^ (64 * words)"
    using run [of words] m wval_less [of "row words"] by (metis mod_eq_dvd_iff mod_pos_pos_trivial order_refl wval_nonneg)
qed

text \<open>The correction loop brings the remainder back into the range of the divisor.\<close>

lemma add_back_ok:
  assumes "length bp = length ap" "0 < wval bp"
  shows "\<exists>r q k. add_back ap bp cur_res = Some (r, q) \<and> length r = length ap \<and> wval r < wval bp \<and> 1 \<le> k \<and>
    wval r + 2 ^ (64 * length ap) = wval ap + k * wval bp \<and> q = cur_res - word_of_int k"
  using assms
proof (induction "nat (2 ^ (64 * length ap) - wval ap)" arbitrary: ap cur_res rule: less_induct)
  case less
  obtain zs c where run: "carry_run ul_add_with_carry ap bp 0 = (zs, c)" by fastforce
  have z: "length zs = length ap" "wval zs + 2 ^ (64 * length ap) * uint c = wval ap + wval bp"
    using wval_carry_run [of ap bp 0 zs c] run less.prems by simp_all
  have c1: "uint c \<le> 1" using uw.carry_run_law [OF _ _ _ _ _ run] less.prems by (simp add: list_all_iff)
  have unf: "add_back ap bp cur_res = (if c = 0 then add_back zs bp (cur_res - 1) else Some (zs, cur_res - 1))"
    by (subst add_back.simps) (simp add: run)
  show ?case
  proof (cases "c = 0")
    case True
    have "wval ap < wval zs" "wval ap < 2 ^ (64 * length ap)" using z(2) True less.prems(2) wval_less [of ap] by simp_all
    then obtain r q k where ih: "add_back zs bp (cur_res - 1) = Some (r, q)" "length r = length zs" "wval r < wval bp" "1 \<le> k"
      "wval r + 2 ^ (64 * length zs) = wval zs + k * wval bp" "q = cur_res - 1 - word_of_int k"
      using less.hyps [of zs "cur_res - 1"] less.prems z(1) by auto
    then show ?thesis using True z unf by (intro exI [of _ r] exI [of _ q] exI [of _ "k + 1"]) (auto simp: algebra_simps)
  next
    case False
    then have "uint c = 1" using c1 uint_zero_pos [of c] by auto
    then show ?thesis using False z unf wval_less [of ap] by (intro exI [of _ zs] exI [of _ "cur_res - 1"] exI [of _ 1]) auto
  qed
qed

text \<open>What the proof of a step needs of the estimate: it is not too small, and its product with the divisor does not wrap.\<close>

definition good_estimate :: "ulong list \<Rightarrow> nat \<Rightarrow> nat \<Rightarrow> nat \<Rightarrow> ulong list \<Rightarrow> bool" where
  "good_estimate bp words btop cur_ptr ap \<longleftrightarrow>
     (case estimate ap bp words btop cur_ptr of
        None \<Rightarrow> wval (drop cur_ptr ap) < wval bp
      | Some q \<Rightarrow> wval (drop cur_ptr ap) div wval bp \<le> uint q \<and> uint q * wval bp < 2 ^ (64 * (words - cur_ptr)))"

lemma wval_take_top:
  assumes "btop < n" "n \<le> length bp" "\<forall>i. btop < i \<and> i < length bp \<longrightarrow> bp ! i = 0"
  shows "wval (take n bp) = wval bp"
proof -
  have "drop n bp = replicate (length bp - n) 0" using assms by (intro nth_equalityI) auto
  moreover have "wval (replicate m 0) = 0" for m by (induction m) simp_all
  ultimately have "wval (drop n bp) = 0" by simp
  then show ?thesis using wval_append [of "take n bp" "drop n bp"] by simp
qed

text \<open>Quotient and remainder from a product that is too large or exact.\<close>

lemma div_from_above:
  assumes "(A :: int) div B \<le> q" "0 < B" "q * B \<le> A"
  shows "q = A div B" "A - q * B = A mod B"
proof -
  have "q \<le> A div B" using zdiv_mono1 [of "q * B" A B] assms(2,3) by simp
  then show "q = A div B" using assms(1) by simp
  then show "A - q * B = A mod B" by (simp add: minus_div_mult_eq_mod)
qed

lemma divide_step_ok:
  assumes "length ap = words" "length bp = words" "cur_ptr + btop < words" "\<forall>i. btop < i \<and> i < length bp \<longrightarrow> bp ! i = 0"
    and "0 < wval bp" "good_estimate bp words btop cur_ptr ap" "length result = words" "result ! cur_ptr = 0"
    and "wval (drop cur_ptr ap) div wval bp < 2 ^ 64"
  shows "\<exists>rest q. divide_step bp words btop cur_ptr ap result = Some (take cur_ptr ap @ rest, result[cur_ptr := q]) \<and>
    length rest = words - cur_ptr \<and> wval rest = wval (drop cur_ptr ap) mod wval bp \<and> uint q = wval (drop cur_ptr ap) div wval bp"
proof (cases "estimate ap bp words btop cur_ptr")
  case None
  then have "wval (drop cur_ptr ap) < wval bp" using assms(6) by (simp add: good_estimate_def)
  moreover have "result[cur_ptr := 0] = result" using assms(8) by (metis list_update_id)
  ultimately show ?thesis using None assms(1) by (intro exI [of _ "drop cur_ptr ap"] exI [of _ 0]) (simp add: divide_step_def)
next
  case (Some q)
  define n A B where "n = words - cur_ptr" and "A = wval (drop cur_ptr ap)" and "B = wval bp"
  have q: "A div B \<le> uint q" "uint q * B < 2 ^ (64 * n)" using Some assms(6) by (simp_all add: good_estimate_def A_def B_def n_def)
  have b: "wval (take n bp) = B" "length (take n bp) = n"
    using wval_take_top [of btop n bp] assms(2-4) by (simp_all add: B_def n_def)
  define diff where "diff = multiply_array_imm bp n q"
  have d: "length diff = n" "wval diff = uint q * B"
    using multiply_array_imm_ok [of n bp q] b q(2) assms(2,5) by (simp_all add: diff_def n_def B_def mult.commute)
  obtain r c where run: "carry_run ul_add_with_carry (drop cur_ptr ap) (map NOT diff) 1 = (r, c)" by fastforce
  have r: "length r = n" "wval r + 2 ^ (64 * n) * uint c = A + (2 ^ (64 * n) - uint q * B)"
    using wval_carry_run [OF _ _ run] d assms(1) wval_not [of diff] by (simp_all add: A_def n_def)
  have c: "uint c \<le> 1" using uw.carry_run_law [OF _ _ _ _ _ run] d assms(1) by (simp add: list_all_iff n_def)
  have bnd: "0 \<le> wval r" "wval r < 2 ^ (64 * n)" "0 < B" using wval_less [of r] r(1) assms(5) by (simp_all add: B_def)
  have step: "divide_step bp words btop cur_ptr ap result =
      do { (rest, q) \<leftarrow> (if c AND 1 = 0 then add_back r (take n bp) q else Some (r, q)); Some (take cur_ptr ap @ rest, result[cur_ptr := q]) }"
    using Some run by (simp add: divide_step_def diff_def n_def)
  show ?thesis
  proof (cases "c = 0")
    case True
    obtain r' q' k where ab: "add_back r (take n bp) q = Some (r', q')" "length r' = n" "wval r' < B" "1 \<le> k"
      "wval r' + 2 ^ (64 * n) = wval r + k * B" "q' = q - word_of_int k"
      using add_back_ok [of "take n bp" r q] b r(1) bnd(3) by auto
    have eq: "A = B * (uint q - k) + wval r'" using ab(5) r(2) True by (simp add: algebra_simps)
    have "A div B = uint q - k" "A mod B = wval r'"
      using int_div_pos_eq [OF eq _ ab(3)] int_mod_pos_eq [OF eq _ ab(3)] by simp_all
    have "0 \<le> A" by (simp add: A_def)
    then have "0 \<le> A div B" using bnd(3) by (simp add: pos_imp_zdiv_nonneg_iff)
    moreover have "A div B < 2 ^ 64" using assms(9) by (simp add: A_def B_def)
    moreover have "q' = word_of_int (A div B)" unfolding ab(6) \<open>A div B = uint q - k\<close> by simp
    ultimately have "uint q' = A div B" by (simp add: uint_word_of_int)
    then show ?thesis using step True ab \<open>A mod B = wval r'\<close> unfolding n_def [symmetric] A_def [symmetric] B_def [symmetric] by auto
  next
    case False
    then have "uint c = 1" using c uint_zero_pos [of c] by auto
    then have "c = 1" by (metis word_of_int_1 word_of_int_uint)
    then have "wval r = A - uint q * B" using r(2) by simp
    moreover have "uint q * B \<le> A" using calculation bnd(1) by simp
    ultimately show ?thesis
      using step \<open>c = 1\<close> r(1) div_from_above [OF q(1) bnd(3)] unfolding n_def [symmetric] A_def [symmetric] B_def [symmetric] by auto
  qed
qed

lemma drop_word: "c < length ap \<Longrightarrow> wval (drop c ap) = uint (ap ! c) + 2 ^ 64 * wval (drop (Suc c) ap)"
  using wval_Cons [of "ap ! c" "drop (Suc c) ap"] by (simp add: Cons_nth_drop_Suc)

lemma divide_words_ok:
  assumes "length bp = words" "\<forall>i. btop < i \<and> i < length bp \<longrightarrow> bp ! i = 0" "0 < wval bp"
    and good: "\<And>c ap. c + btop < words \<Longrightarrow> length ap = words \<Longrightarrow> wval (drop (Suc c) ap) < wval bp \<Longrightarrow> wval ap \<le> M \<Longrightarrow>
      good_estimate bp words btop c ap"
    and "cur + btop \<le> words" "length ap = words" "length result = words" "\<forall>i < cur. result ! i = 0" "wval (drop cur ap) < wval bp" "wval ap \<le> M"
  shows "\<exists>ap' res. divide_loop_words bp words btop cur ap result = Some (ap', res) \<and> length res = words \<and> length ap' = words \<and>
    wval ap' < wval bp \<and> wval ap' + wval bp * wval res = wval ap + wval bp * wval result"
  using assms(5-)
proof (induction cur arbitrary: ap result)
  case 0
  then show ?case by simp
next
  case (Suc c)
  define A B where "A = wval (drop c ap)" and "B = wval bp"
  have c: "c < words" "c + btop < words" using Suc.prems(1) by simp_all
  have A: "A = uint (ap ! c) + 2 ^ 64 * wval (drop (Suc c) ap)" using drop_word [of c ap] c Suc.prems(2) by (simp add: A_def)
  have "A < 2 ^ 64 * B" 
    using Suc.prems(5) uint_lt_64 [of "ap ! c"] mult_left_mono [of "wval (drop (Suc c) ap) + 1" "wval bp" "2 ^ 64"] unfolding A B_def by simp
  then have "A div B < 2 ^ 64" using assms(3) by (intro div_less_int) (simp_all add: B_def mult.commute)
  then obtain rest q where st: "divide_step bp words btop c ap result = Some (take c ap @ rest, result[c := q])"
    "length rest = words - c" "wval rest = A mod B" "uint q = A div B"
    using divide_step_ok [OF Suc.prems(2) assms(1) c(2) assms(2,3) good [OF c(2) Suc.prems(2) Suc.prems(5,6)] Suc.prems(3)] Suc.prems(4)
    by (auto simp: A_def B_def)
  let ?ap = "take c ap @ rest" and ?res = "result[c := q]"
  have v: "wval ap = wval (take c ap) + 2 ^ (64 * c) * A" "wval ?ap = wval (take c ap) + 2 ^ (64 * c) * (A mod B)"
    using wval_append [of "take c ap" "drop c ap"] wval_append [of "take c ap" rest] c Suc.prems(2) st(3) by (simp_all add: A_def)
  have "A mod B \<le> A" using zmod_le_nonneg_dividend [of A B] by (simp add: A_def)
  then have le: "wval ?ap \<le> wval ap" unfolding v by simp
  have r: "wval ?res = wval result + 2 ^ (64 * c) * (A div B)" using wval_update [of c result q] c Suc.prems(3,4) st(4) by simp
  have sum: "wval ?ap + B * wval ?res = wval ap + B * wval result"
  proof -
    have "2 ^ (64 * c) * (A mod B) + B * (2 ^ (64 * c) * (A div B)) = 2 ^ (64 * c) * (A mod B + B * (A div B))"
      by (simp only: distrib_left mult.left_commute [of B])
    then show ?thesis unfolding v r by (simp add: distrib_left)
  qed
  have "drop c ?ap = rest" using c Suc.prems(2) by simp
  then have "wval (drop c ?ap) < wval bp" using st(3) assms(3) by (simp add: B_def)
  then obtain ap' res where ih: "divide_loop_words bp words btop c ?ap ?res = Some (ap', res)" "length res = words" "length ap' = words"
    "wval ap' < wval bp" "wval ap' + wval bp * wval res = wval ?ap + wval bp * wval ?res"
    using Suc.IH [of ?ap ?res] c Suc.prems le st(2) by auto
  then show ?case using st(1) sum by (simp add: B_def)
qed

text \<open>The two cases in which the estimate is good.\<close>

lemma good_estimate_short:
  assumes "length bp = words" "\<forall>i. 0 < i \<and> i < length bp \<longrightarrow> bp ! i = 0" "bp ! 0 \<noteq> 0"
    and "c < words" "length ap = words" "wval (drop (Suc c) ap) < wval bp"
  shows "good_estimate bp words 0 c ap"
proof -
  have B: "wval bp = uint (bp ! 0)" using wval_take_top [of 0 1 bp] assms(1,2,4) by (simp add: take_Suc_conv_app_nth)
  define high where "high = (if c + 1 < words then ap ! (c + 1) else 0)"
  have hv: "wval (drop (Suc c) ap) = uint high"
  proof (cases "c + 1 < words")
    case True
    then have "wval (drop (Suc c) ap) = uint high + 2 ^ 64 * wval (drop (Suc (Suc c)) ap)"
      using drop_word [of "Suc c" ap] assms(5) by (simp add: high_def)
    moreover have "wval (drop (Suc (Suc c)) ap) < 1"
    proof (rule ccontr)
      assume "\<not> wval (drop (Suc (Suc c)) ap) < 1"
      then have "2 ^ 64 * 1 \<le> 2 ^ 64 * wval (drop (Suc (Suc c)) ap)" by (intro mult_left_mono) simp_all
      then have "2 ^ 64 \<le> wval (drop (Suc c) ap)" using calculation uint_lt_64(2) [of high] by linarith
      then show False using assms(6) uint_lt_64 [of "bp ! 0"] B by simp
    qed
    then have "wval (drop (Suc (Suc c)) ap) = 0" using wval_nonneg [of "drop (Suc (Suc c)) ap"] by linarith
    ultimately show ?thesis by simp
  qed (use assms(5) in \<open>simp add: high_def\<close>)
  define A where "A = uint high * 2 ^ 64 + uint (ap ! c)"
  have A: "wval (drop c ap) = A" using drop_word [of c ap] assms(4,5) hv by (simp add: A_def)
  have hb: "uint high < uint (bp ! 0)" "0 < uint (bp ! 0)" using assms(3,6) hv B by (simp_all add: uint_zero_pos)
  have q: "uint (divide2words (ap ! c) (bp ! 0) high) = A div uint (bp ! 0)"
  proof -
    have "A < uint (bp ! 0) * 2 ^ 64"
      using hb(1) uint_lt_64 [of "ap ! c"] mult_right_mono [of "uint high + 1" "uint (bp ! 0)" "2 ^ 64"] by (simp add: A_def algebra_simps)
    then have "A div uint (bp ! 0) < 2 ^ 64" using hb(2) by (rule div_less_int)
    moreover have "0 \<le> A div uint (bp ! 0)" using hb(2) uint_lt_64 [of high] uint_lt_64 [of "ap ! c"] by (simp add: A_def pos_imp_zdiv_nonneg_iff)
    ultimately show ?thesis using divide2words_ok [OF assms(3), of "ap ! c" high] by (simp add: A_def)
  qed
  have le: "A div uint (bp ! 0) * uint (bp ! 0) < 2 ^ (64 * (words - c))"
    using mult_div_le [OF hb(2), of A] wval_less [of "drop c ap"] A assms(5) by (simp add: mult.commute)
  show ?thesis
  proof (cases "ap ! c \<ge> bp ! 0 \<or> high \<noteq> 0")
    case True
    then have "estimate ap bp words 0 c = Some (divide2words (ap ! c) (bp ! 0) high)"
      by (auto simp: estimate_def high_def split: if_splits)
    then show ?thesis using q le A B by (simp add: good_estimate_def)
  next
    case False
    then have "estimate ap bp words 0 c = None" by (auto simp: estimate_def high_def split: if_splits)
    then show ?thesis using False A B by (simp add: good_estimate_def A_def word_le_def)
  qed
qed

lemma good_estimate_long:
  assumes "length bp = words" "words = Suc btop" "bp ! btop \<noteq> 0" "length ap = words" "wval ap \<le> 2 ^ (64 * words - 1)"
  shows "good_estimate bp words btop 0 ap"
proof -
  define P a b lb la where "P = (2 :: int) ^ (64 * btop)" and "a = uint (ap ! btop)" and "b = uint (bp ! btop)"
    and "lb = wval (take btop bp)" and "la = wval (take btop ap)"
  have v: "wval ap = la + P * a" "wval bp = lb + P * b"
    using wval_take_Suc [of btop ap] wval_take_Suc [of btop bp] assms(1,2,4) by (simp_all add: P_def a_def b_def la_def lb_def)
  have l: "0 \<le> la" "la < P" "0 \<le> lb" "lb < P" "0 < b" "0 \<le> a" "0 < P"
    using wval_less [of "take btop ap"] wval_less [of "take btop bp"] assms uint_lt_64 [of "ap ! btop"]
    by (simp_all add: P_def la_def lb_def a_def b_def uint_zero_pos)
  show ?thesis
  proof (cases "a < b")
    case True
    then have "estimate ap bp words btop 0 = None" using assms(2) by (simp add: estimate_def word_le_def a_def b_def)
    moreover have "P * (a + 1) \<le> P * b" using True l by (intro mult_left_mono) auto
    then have "wval ap < wval bp" using l unfolding v by (simp add: algebra_simps)
    ultimately show ?thesis by (simp add: good_estimate_def)
  next
    case False
    define q where "q = a div b"
    have q: "0 \<le> q" "q \<le> a" "q * b \<le> a"
      using l zdiv_mono2 [of a 1 b] mult_div_le [of b a] by (simp_all add: q_def pos_imp_zdiv_nonneg_iff mult.commute)
    have "estimate ap bp words btop 0 = Some (divide2words (ap ! btop) (bp ! btop) 0)" using False assms(2) by (simp add: estimate_def word_le_def a_def b_def)
    moreover have "uint (divide2words (ap ! btop) (bp ! btop) 0) = q"
      using divide2words_ok [OF assms(3), of "ap ! btop" 0] q uint_lt_64 [of "ap ! btop"] by (simp add: q_def a_def b_def)
    moreover have "wval ap div wval bp \<le> q"
    proof -
      have "a < b * (q + 1)" using l(5) mult_div_mod_eq [of b a] pos_mod_bound [of b a] unfolding q_def distrib_left by linarith
      then have "P * (a + 1) \<le> P * (b * (q + 1))" using l by (intro mult_left_mono) auto
      moreover have "wval bp * (q + 1) = lb * (q + 1) + P * (b * (q + 1))" "P * (a + 1) = P * a + P" unfolding v by (simp_all add: algebra_simps)
      moreover have "0 \<le> lb * (q + 1)" using l q by simp
      ultimately have "wval ap < wval bp * (q + 1)" using l(2) unfolding v(1) by linarith
      moreover have "0 < wval bp" using l unfolding v by (simp add: add_nonneg_pos)
      ultimately show ?thesis using div_less_int [of "wval ap" "wval bp" "q + 1"] by simp
    qed
    moreover have "q * wval bp < 2 ^ (64 * words)"
    proof (cases "q = 0")
      case False
      have "P * a \<le> 2 ^ (64 * words - 1)" using assms(5) l unfolding v by simp
      moreover have "(2 :: int) ^ (64 * words) = 2 * 2 ^ (64 * words - 1)" using assms(2) by (subst power_eq_if) simp
      ultimately have "2 * (P * a) \<le> 2 ^ (64 * words)" by linarith
      moreover have "q * wval bp < q * (P * (b + 1))" using False q l unfolding v by (intro mult_strict_left_mono) (auto simp: algebra_simps)
      moreover have "q * (P * (b + 1)) = P * (q * b + q)" by (simp add: algebra_simps)
      moreover have "P * (q * b + q) \<le> P * (a + a)" using q l by (intro mult_left_mono) auto
      ultimately show ?thesis by (simp add: algebra_simps)
    qed simp
    ultimately show ?thesis by (simp add: good_estimate_def)
  qed
qed

text \<open>The division returns, with quotient and remainder.\<close>

lemma divide_bits_ok:
  assumes "length ap = nwords wid" "length bp = nwords wid" "0 < wid"
    and "wval bp < 2 ^ 64 \<or> 2 ^ (64 * (nwords wid - 1)) \<le> wval bp \<and> wval ap \<le> 2 ^ (64 * nwords wid - 1)"
  shows "if wval bp = 0 then divide_bits ap bp wid = Some None
    else \<exists>result rest. divide_bits ap bp wid = Some (Some (result, rest)) \<and> length result = nwords wid \<and> length rest = nwords wid \<and>
      wval result = wval ap div wval bp \<and> wval rest = wval ap mod wval bp"
proof -
  define words btop where "words = nwords wid" and "btop = scan_down (\<lambda>n. bp ! n = 0) (words - 1)"
  have w: "0 < words" using assms(3) nwords_ge [of wid] by (auto simp: words_def intro: gr_zeroI)
  have bt: "btop < words" using scan_down_le [of "\<lambda>n. bp ! n = 0" "words - 1"] w unfolding btop_def by linarith
  have above: "\<forall>i. btop < i \<and> i < length bp \<longrightarrow> bp ! i = 0"
    using scan_down_above [of "\<lambda>n. bp ! n = 0" "words - 1"] assms(2) by (auto simp: btop_def words_def)
  have val: "wval bp = wval (take btop bp) + 2 ^ (64 * btop) * uint (bp ! btop)"
    using wval_take_top [of btop "Suc btop" bp] wval_take_Suc [of btop bp] above bt assms(2) by (simp add: words_def)
  have stop: "btop = 0 \<or> bp ! btop \<noteq> 0" using scan_down_stop [of "\<lambda>n. bp ! n = 0" "words - 1"] by (simp add: btop_def)
  have zero: "wval bp = 0 \<longleftrightarrow> btop = 0 \<and> bp ! 0 = 0"
  proof
    assume "wval bp = 0"
    moreover have "0 \<le> 2 ^ (64 * btop) * uint (bp ! btop)" by simp
    ultimately have "2 ^ (64 * btop) * uint (bp ! btop) = 0" using val wval_nonneg [of "take btop bp"] by linarith
    then show "btop = 0 \<and> bp ! 0 = 0" using stop by (auto simp: uint_0_iff)
  qed (use val in simp)
  have unf: "divide_bits ap bp wid = (if btop = 0 \<and> bp ! 0 = 0 then Some None
      else do { (ap, result) \<leftarrow> divide_loop_words bp words btop (words - btop) ap (replicate words 0); Some (Some (result, ap)) })"
    by (simp add: divide_bits_def words_def btop_def Let_def)
  show ?thesis
  proof (cases "wval bp = 0")
    case True
    then show ?thesis using unf zero by simp
  next
    case False
    have nz: "bp ! btop \<noteq> 0" using False zero stop by auto
    have "2 ^ (64 * btop) * 1 \<le> 2 ^ (64 * btop) * uint (bp ! btop)" using nz by (intro mult_left_mono) (simp_all add: uint_zero_pos)
    then have big: "2 ^ (64 * btop) \<le> wval bp" using val wval_nonneg [of "take btop bp"] by linarith
    have good: "good_estimate bp words btop c x" if "c + btop < words" "length x = words" "wval (drop (Suc c) x) < wval bp" "wval x \<le> wval ap" for c x
    proof (cases "wval bp < 2 ^ 64")
      case True
      then have "(2 :: int) ^ (64 * btop) < 2 ^ (64 * 1)" using big by simp
      then have "64 * btop < 64 * 1" by (rule power_less_imp_less_exp [rotated]) simp
      then have "btop = 0" by simp
      then show ?thesis using good_estimate_short [of bp words c x] above nz that assms(2) by (simp add: words_def)
    next
      case False
      then have l: "2 ^ (64 * (words - 1)) \<le> wval bp" "wval ap \<le> 2 ^ (64 * words - 1)" using assms(4) by (simp_all add: words_def)
      have "wval bp < 2 ^ (64 * Suc btop)"
        using wval_take_top [of btop "Suc btop" bp] wval_less [of "take (Suc btop) bp"] above bt assms(2) by (simp add: words_def)
      then have "(2 :: int) ^ (64 * (words - 1)) < 2 ^ (64 * Suc btop)" using l(1) by linarith
      then have "64 * (words - 1) < 64 * Suc btop" by (rule power_less_imp_less_exp [rotated]) simp
      then have "words = Suc btop" using bt by simp
      then show ?thesis using good_estimate_long [of bp words btop x] that l(2) nz assms(2) by (simp add: words_def)
    qed
    have top: "wval (drop (words - btop) ap) < wval bp"
      using wval_less [of "drop (words - btop) ap"] big assms(1) bt by (simp add: words_def)
    have "wval (replicate words 0) = 0" by (induction words) simp_all
    moreover have "0 < wval bp" using False wval_nonneg [of bp] by linarith
    ultimately obtain ap' res where run: "divide_loop_words bp words btop (words - btop) ap (replicate words 0) = Some (ap', res)"
      "length res = words" "length ap' = words" "wval ap' < wval bp" "wval ap' + wval bp * wval res = wval ap"
      using divide_words_ok [of bp words btop "wval ap" "words - btop" ap "replicate words 0", OF _ above _ good] assms(1,2) bt top
      by (auto simp: words_def)
    have "wval ap div wval bp = wval res" "wval ap mod wval bp = wval ap'"
      using int_div_pos_eq [of "wval ap" "wval bp" "wval res" "wval ap'"] int_mod_pos_eq [of "wval ap" "wval bp" "wval res" "wval ap'"] run(4,5) by simp_all
    then show ?thesis using False run unf zero by (simp add: words_def)
  qed
qed

text \<open>
  Outside of these cases the quotient can be wrong: the product of the estimate and the divisor wraps, as for the division of \<open>2\<^sup>1\<^sup>2\<^sup>8 - 1\<close> by
  \<open>2\<^sup>6\<^sup>5 - 1\<close>, whose quotient is \<open>2\<^sup>6\<^sup>3\<close>; or the leading words are equal and the estimate itself wraps, as for \<open>2\<^sup>1\<^sup>9\<^sup>1\<close> divided
  by \<open>2\<^sup>1\<^sup>2\<^sup>7 + 2\<^sup>6\<^sup>3\<close>, whose quotient is \<open>2\<^sup>6\<^sup>4 - 1\<close>.
\<close>

lemma divide_bits_wraps:
  "map_option (map_option fst) (divide_bits [- 1, - 1] [- 1, 1] 128) = Some (Some [- 1, 0])"
  by code_simp

lemma divide_bits_tie:
  "map_option (map_option fst) (divide_bits [0, 0, 0x8000000000000000] [0x8000000000000000, 0x8000000000000000, 0] 192) = Some (Some [0, 0, 0])"
  by code_simp

end
