(* ===== verification/Vvp_Thread.thy ===== *)
theory Vvp_Thread
  imports Vvp_Divide Vvp_Value4 Vvp_Part
begin

text \<open>
  The thread interpreter (vvp/vthread.cc), as far as it computes with vectors: the state of a thread that its expression opcodes
  use, and the opcodes on the stack of four-state vectors, the flags and the index registers. A failed assertion and an access out of
  range are \<open>None\<close>. The state has the type of its stack entries as a parameter: the opcodes run on vectors, their
  specification runs on lists of bits.
\<close>

section \<open>State\<close>

record 'v vthread =
  th_pc :: nat
  th_flags :: "vvp_bit4_t list"
  th_words :: "ulong list"
  stack_vec4 :: "'v list"

abbreviation FLAGS_COUNT :: nat where "FLAGS_COUNT \<equiv> 512"
abbreviation WORDS_COUNT :: nat where "WORDS_COUNT \<equiv> 16"

text \<open>
  The fields of an instruction that the opcodes read; the number, the target of a jump and the net or array share a union,
  of which each opcode reads one member.
\<close>

record vvp_code =
  cp_number :: nat
  bit_idx0 :: "32 word"
  bit_idx1 :: "32 word"
  cp_cptr :: nat
  cp_net :: nat

text \<open>The stack, the top first.\<close>

definition pop_vec4 :: "'v vthread \<Rightarrow> ('v \<times> 'v vthread) option" where
  "pop_vec4 thr = (case stack_vec4 thr of [] \<Rightarrow> None | v # st \<Rightarrow> Some (v, thr\<lparr>stack_vec4 := st\<rparr>))"

definition push_vec4 :: "'v \<Rightarrow> 'v vthread \<Rightarrow> 'v vthread" where
  "push_vec4 v thr = thr\<lparr>stack_vec4 := v # stack_vec4 thr\<rparr>"

definition peek_vec4 :: "nat \<Rightarrow> 'v vthread \<Rightarrow> 'v option" where
  "peek_vec4 depth thr = (if depth < length (stack_vec4 thr) then Some (stack_vec4 thr ! depth) else None)"

definition poke_vec4 :: "nat \<Rightarrow> 'v \<Rightarrow> 'v vthread \<Rightarrow> 'v vthread option" where
  "poke_vec4 depth v thr =
     (if depth < length (stack_vec4 thr) then Some (thr\<lparr>stack_vec4 := (stack_vec4 thr)[depth := v]\<rparr>) else None)"

definition pop_vec4_cnt :: "nat \<Rightarrow> 'v vthread \<Rightarrow> 'v vthread option" where
  "pop_vec4_cnt cnt thr = (if cnt \<le> length (stack_vec4 thr) then Some (thr\<lparr>stack_vec4 := drop cnt (stack_vec4 thr)\<rparr>) else None)"

text \<open>An assignment through the reference that \<open>peek_vec4()\<close> returns.\<close>

definition edit_vec4 :: "('v \<Rightarrow> 'v option) \<Rightarrow> 'v vthread \<Rightarrow> 'v vthread option" where
  "edit_vec4 f thr = do { v \<leftarrow> peek_vec4 0 thr; v \<leftarrow> f v; poke_vec4 0 v thr }"

definition get_flag :: "nat \<Rightarrow> 'v vthread \<Rightarrow> vvp_bit4_t option" where
  "get_flag i thr = (if i < FLAGS_COUNT then Some (th_flags thr ! i) else None)"

definition set_flag :: "nat \<Rightarrow> vvp_bit4_t \<Rightarrow> 'v vthread \<Rightarrow> 'v vthread option" where
  "set_flag i b thr = (if i < FLAGS_COUNT then Some (thr\<lparr>th_flags := (th_flags thr)[i := b]\<rparr>) else None)"

definition get_word :: "nat \<Rightarrow> 'v vthread \<Rightarrow> ulong option" where
  "get_word i thr = (if i < WORDS_COUNT then Some (th_words thr ! i) else None)"

definition put_word :: "nat \<Rightarrow> ulong \<Rightarrow> 'v vthread \<Rightarrow> 'v vthread option" where
  "put_word i w thr = (if i < WORDS_COUNT then Some (thr\<lparr>th_words := (th_words thr)[i := w]\<rparr>) else None)"

section \<open>Immediate operands\<close>

fun immediate_loop :: "nat \<Rightarrow> nat \<Rightarrow> 32 word \<Rightarrow> 32 word \<Rightarrow> vvp_vector4_t \<Rightarrow> vvp_vector4_t option" where
  "immediate_loop 0 idx vala valb val = Some val"
| "immediate_loop (Suc n) idx vala valb val =
     (if vala OR valb = 0 then Some val
      else let ba = push_bit 1 (valb AND 1) OR (vala AND 1)
           in do { val \<leftarrow> (if ba \<noteq> 0 then set_bit4 val idx (bit4_cast (unat ba)) else Some val);
                   immediate_loop n (idx + 1) (drop_bit 1 vala) (drop_bit 1 valb) val })"

definition get_immediate_rval :: "vvp_code \<Rightarrow> vvp_vector4_t \<Rightarrow> vvp_vector4_t option" where
  "get_immediate_rval cp val =
     (let vala = bit_idx0 cp; valb = bit_idx1 cp; wid = cp_number cp
      in if valb = 0
         then if vala = 0 then Some val
              else let use_wid = (if wid < BITS_PER_WORD then wid else BITS_PER_WORD) in setarray val 0 use_wid [ucast vala]
         else immediate_loop wid 0 vala valb val)"

definition immediate :: "vvp_code \<Rightarrow> vvp_vector4_t option" where
  "immediate cp = get_immediate_rval cp (vector4_fill (cp_number cp) BIT4_0)"

section \<open>Arithmetic\<close>

definition of_ADD :: "vvp_code \<Rightarrow> vvp_vector4_t vthread \<Rightarrow> vvp_vector4_t vthread option" where
  "of_ADD cp thr = do { (r, thr) \<leftarrow> pop_vec4 thr; edit_vec4 (\<lambda>l. add4 l r) thr }"

definition of_ADDI :: "vvp_code \<Rightarrow> vvp_vector4_t vthread \<Rightarrow> vvp_vector4_t vthread option" where
  "of_ADDI cp thr = do { r \<leftarrow> immediate cp; edit_vec4 (\<lambda>l. add4 l r) thr }"

definition of_SUB :: "vvp_code \<Rightarrow> vvp_vector4_t vthread \<Rightarrow> vvp_vector4_t vthread option" where
  "of_SUB cp thr = do { (r, thr) \<leftarrow> pop_vec4 thr; edit_vec4 (\<lambda>l. sub4 l r) thr }"

definition of_SUBI :: "vvp_code \<Rightarrow> vvp_vector4_t vthread \<Rightarrow> vvp_vector4_t vthread option" where
  "of_SUBI cp thr = do { r \<leftarrow> immediate cp; edit_vec4 (\<lambda>l. sub4 l r) thr }"

definition of_MUL :: "vvp_code \<Rightarrow> vvp_vector4_t vthread \<Rightarrow> vvp_vector4_t vthread option" where
  "of_MUL cp thr = do { (r, thr) \<leftarrow> pop_vec4 thr; edit_vec4 (\<lambda>l. mul4 l r) thr }"

definition of_MULI :: "vvp_code \<Rightarrow> vvp_vector4_t vthread \<Rightarrow> vvp_vector4_t vthread option" where
  "of_MULI cp thr = do { r \<leftarrow> immediate cp; edit_vec4 (\<lambda>l. mul4 l r) thr }"

definition x_vec :: "nat \<Rightarrow> vvp_vector4_t" where "x_vec wid = vector4_fill wid BIT4_X"

text \<open>The division of \<open>of_DIV\<close> on the two operands.\<close>

definition div_vec4 :: "vvp_vector4_t \<Rightarrow> vvp_vector4_t \<Rightarrow> vvp_vector4_t option" where
  "div_vec4 vala valb =
     (if size4 vala \<noteq> size4 valb then None
      else let wid = size4 vala
           in case subarray vala 0 wid False of
                None \<Rightarrow> Some (x_vec wid)
              | Some ap \<Rightarrow>
                  (case subarray valb 0 wid False of
                     None \<Rightarrow> Some (x_vec wid)
                   | Some bp \<Rightarrow>
                       if wid \<le> BITS_PER_WORD
                       then if bp ! 0 = 0 then Some (x_vec wid) else setarray vala 0 wid (ap[0 := ap ! 0 div bp ! 0])
                       else do {
                         r \<leftarrow> divide_bits ap bp wid;
                         case r of
                           None \<Rightarrow> Some (x_vec wid)
                         | Some (result, _) \<Rightarrow> setarray vala 0 wid result }))"

definition of_DIV :: "vvp_code \<Rightarrow> vvp_vector4_t vthread \<Rightarrow> vvp_vector4_t vthread option" where
  "of_DIV cp thr =
     do { (valb, thr) \<leftarrow> pop_vec4 thr; (vala, thr) \<leftarrow> pop_vec4 thr; v \<leftarrow> div_vec4 vala valb; Some (push_vec4 v thr) }"

definition negate_words :: "ulong list \<Rightarrow> ulong list" where
  "negate_words val = fst (carry_run ul_add_with_carry (replicate (length val) 0) (map NOT val) 1)"

text \<open>The sign extension of the last word, and the mask of the bits above the width.\<close>

definition div_sign_mask :: "nat \<Rightarrow> ulong" where
  "div_sign_mask wid =
     (let words = (wid + BITS_PER_WORD - 1) div BITS_PER_WORD;
          sign_bits = words * BITS_PER_WORD - wid
      in if sign_bits \<noteq> 0 then ul_shl (- 1) (BITS_PER_WORD - sign_bits) else 0)"

definition sign_extend_words :: "nat \<Rightarrow> ulong list \<Rightarrow> ulong list" where
  "sign_extend_words wid ap =
     (let top = length ap - 1; sign_mask = div_sign_mask wid
      in if ap ! top AND ul_shr sign_mask 1 \<noteq> 0 then ap[top := ap ! top OR sign_mask] else ap)"

definition div_s_vec4 :: "vvp_vector4_t \<Rightarrow> vvp_vector4_t \<Rightarrow> vvp_vector4_t option" where
  "div_s_vec4 vala valb =
     (if size4 vala \<noteq> size4 valb then None
      else let wid = size4 vala;
               words = (wid + BITS_PER_WORD - 1) div BITS_PER_WORD;
               sign_mask = div_sign_mask wid
           in case subarray vala 0 wid False of
                None \<Rightarrow> Some (x_vec wid)
              | Some ap \<Rightarrow>
                  (case subarray valb 0 wid False of
                     None \<Rightarrow> Some (x_vec wid)
                   | Some bp \<Rightarrow>
                       let ap = sign_extend_words wid ap; bp = sign_extend_words wid bp
                       in if wid \<le> BITS_PER_WORD
                          then if bp ! 0 = 0 then Some (x_vec wid)
                               else if sint (ap ! 0) = - (2 ^ 63) \<and> sint (bp ! 0) = - 1
                               then set_bit4 (vector4_fill wid BIT4_0) (wid - 1) BIT4_1
                               else setarray vala 0 wid (ap[0 := word_of_int (sint (ap ! 0) sdiv sint (bp ! 0)) AND NOT sign_mask])
                          else let (na, ap) = (if sint (ap ! (words - 1)) < 0 then (True, negate_words ap) else (False, ap));
                                   (nb, bp) = (if sint (bp ! (words - 1)) < 0 then (True, negate_words bp) else (False, bp))
                               in do {
                                 r \<leftarrow> divide_bits ap bp wid;
                                 case r of
                                   None \<Rightarrow> Some (x_vec wid)
                                 | Some (result, _) \<Rightarrow>
                                     let result = (if na \<noteq> nb then negate_words result else result);
                                         result = result[words - 1 := result ! (words - 1) AND NOT sign_mask]
                                     in setarray vala 0 wid result }))"

definition of_DIV_S :: "vvp_code \<Rightarrow> vvp_vector4_t vthread \<Rightarrow> vvp_vector4_t vthread option" where
  "of_DIV_S cp thr = do { (valb, thr) \<leftarrow> pop_vec4 thr; edit_vec4 (\<lambda>vala. div_s_vec4 vala valb) thr }"

section \<open>Modulus\<close>

text \<open>The operands as native numbers, bit by bit; \<open>None\<close> if a bit is X or Z.\<close>

fun native_operands_loop :: "vvp_vector4_t \<Rightarrow> vvp_vector4_t \<Rightarrow> nat \<Rightarrow> nat \<Rightarrow> ulong \<Rightarrow> ulong \<Rightarrow> (ulong \<times> ulong) option" where
  "native_operands_loop vala valb 0 idx lv rv = Some (lv, rv)"
| "native_operands_loop vala valb (Suc n) idx lv rv =
     (let lb = bit4_int (value4 vala idx); rb = bit4_int (value4 valb idx)
      in if lb \<ge> 2 \<or> rb \<ge> 2 then None
         else native_operands_loop vala valb n (idx + 1) (lv OR ul_shl (of_nat lb) idx) (rv OR ul_shl (of_nat rb) idx))"

text \<open>
  \<open>do_verylong_mod\<close>: \<open>z\<close> holds the bits of the dividend, \<open>a\<close> the complement of the bits of the divisor, both without sign and
  with one bit more; the numbers 0 and 1 stand for the bits.
\<close>

fun negate_bits :: "nat \<Rightarrow> nat list \<Rightarrow> nat list" where
  "negate_bits carry [] = []"
| "negate_bits carry (b # bs) =
     (let x = (1 - b) + carry in x mod 2 # negate_bits (if x \<ge> 2 then 1 else 0) bs)"

definition mod_bits :: "bool \<Rightarrow> nat list \<Rightarrow> nat list" where
  "mod_bits is_neg bs = (if is_neg then negate_bits 1 bs else bs)"

definition top_index :: "(nat \<Rightarrow> bool) \<Rightarrow> nat \<Rightarrow> nat option" where
  "top_index p len = (case filter p (rev [0..<len]) of [] \<Rightarrow> None | i # _ \<Rightarrow> Some i)"

definition add_bits3 :: "nat \<Rightarrow> nat \<Rightarrow> nat \<Rightarrow> nat \<times> nat" where
  "add_bits3 z a carry = (let temp = z + a + carry in (temp mod 2, temp div 2))"

text \<open>The loop on \<open>current\<close>, which takes the values \<open>n - 1, ..., 0\<close>.\<close>

fun mod_passes :: "nat list \<Rightarrow> nat \<Rightarrow> nat \<Rightarrow> nat list \<Rightarrow> nat list" where
  "mod_passes a copylen 0 z = z"
| "mod_passes a copylen (Suc current) z =
     (let (t, carry) = carry_run add_bits3 (take copylen (drop current z)) (take copylen a) 1
      in mod_passes a copylen current (if carry \<noteq> 0 then take current z @ t @ drop (current + copylen) z else z))"

definition do_verylong_mod :: "vvp_vector4_t \<Rightarrow> vvp_vector4_t \<Rightarrow> bool \<Rightarrow> bool \<Rightarrow> vvp_vector4_t option" where
  "do_verylong_mod vala valb left_is_neg right_is_neg =
     (let len = size4 vala;
          lb = map (\<lambda>idx. bit4_int (value4 vala idx)) [0..<len];
          rb = map (\<lambda>idx. bit4_int (value4 valb idx)) [0..<len]
      in if list_ex (\<lambda>b. b \<ge> 2) (lb @ rb) then Some (x_vec len)
         else let z = mod_bits left_is_neg lb @ [0];
                  a = map (\<lambda>b. 1 - b) (mod_bits right_is_neg rb) @ [1]
              in case top_index (\<lambda>i. a ! i = 0) len of
                   None \<Rightarrow> Some (x_vec len)
                 | Some mxa \<Rightarrow>
                     let z = (case top_index (\<lambda>i. z ! i \<noteq> 0) len of
                                None \<Rightarrow> z
                              | Some mxz \<Rightarrow> if mxa > mxz then z else mod_passes a (mxa + 2) (mxz - mxa + 1) z);
                         ob = mod_bits left_is_neg (take len z)
                     in set_loop set_bit4 0 (\<lambda>idx. if ob ! idx \<noteq> 0 then BIT4_1 else BIT4_0) len (x_vec len))"

definition mod_vec4 :: "vvp_vector4_t \<Rightarrow> vvp_vector4_t \<Rightarrow> vvp_vector4_t option" where
  "mod_vec4 vala valb =
     (if size4 vala \<noteq> size4 valb then None
      else let wid = size4 vala
           in if wid \<le> 64
              then case native_operands_loop vala valb wid 0 0 0 of
                     None \<Rightarrow> Some (x_vec wid)
                   | Some (lv, rv) \<Rightarrow>
                       if rv = 0 then Some (x_vec wid)
                       else let lv = lv mod rv in set_loop set_bit4 0 (\<lambda>idx. if bit lv idx then BIT4_1 else BIT4_0) wid vala
              else do_verylong_mod vala valb False False)"

definition of_MOD :: "vvp_code \<Rightarrow> vvp_vector4_t vthread \<Rightarrow> vvp_vector4_t vthread option" where
  "of_MOD cp thr = do { (valb, thr) \<leftarrow> pop_vec4 thr; edit_vec4 (\<lambda>vala. mod_vec4 vala valb) thr }"

text \<open>The sign extension of a native operand of fewer than 64 bits.\<close>

definition extend_native :: "nat \<Rightarrow> ulong \<Rightarrow> ulong" where
  "extend_native wid v =
     (if wid < 64 \<and> v AND ul_shl 1 (wid - 1) \<noteq> 0 then v OR ul_shl (- 1) wid else v)"

definition mod_s_vec4 :: "vvp_vector4_t \<Rightarrow> vvp_vector4_t \<Rightarrow> vvp_vector4_t option" where
  "mod_s_vec4 vala valb =
     (if size4 vala \<noteq> size4 valb then None
      else let wid = size4 vala
           in if wid \<le> 64
              then case native_operands_loop vala valb wid 0 0 0 of
                     None \<Rightarrow> Some (x_vec wid)
                   | Some (lv, rv) \<Rightarrow>
                       if rv = 0 then Some (x_vec wid)
                       else if sint lv = - (2 ^ 63) \<and> sint rv = - 1 then Some (vector4_fill wid BIT4_0)
                       else let lv = extend_native wid lv; rv = extend_native wid rv;
                                lv = (word_of_int (sint lv smod sint rv) :: ulong)
                            in set_loop set_bit4 0 (\<lambda>idx. if bit lv idx then BIT4_1 else BIT4_0) wid vala
              else do_verylong_mod vala valb (value4 vala (wid - 1) = BIT4_1) (value4 valb (wid - 1) = BIT4_1))"

definition of_MOD_S :: "vvp_code \<Rightarrow> vvp_vector4_t vthread \<Rightarrow> vvp_vector4_t vthread option" where
  "of_MOD_S cp thr = do { (valb, thr) \<leftarrow> pop_vec4 thr; edit_vec4 (\<lambda>vala. mod_s_vec4 vala valb) thr }"

section \<open>Bitwise operators and reductions\<close>

definition bitwise_loop :: "(vvp_bit4_t \<Rightarrow> vvp_bit4_t \<Rightarrow> vvp_bit4_t) \<Rightarrow> vvp_vector4_t \<Rightarrow> vvp_vector4_t \<Rightarrow> vvp_vector4_t option" where
  "bitwise_loop f vall valr =
     (if size4 vall = size4 valr then set_loop set_bit4 0 (\<lambda>idx. f (value4 vall idx) (value4 valr idx)) (size4 vall) vall else None)"

definition of_AND :: "vvp_code \<Rightarrow> vvp_vector4_t vthread \<Rightarrow> vvp_vector4_t vthread option" where
  "of_AND cp thr =
     do { (valb, thr) \<leftarrow> pop_vec4 thr; edit_vec4 (\<lambda>vala. if size4 vala = size4 valb then Some (and_assign vala valb) else None) thr }"

definition of_OR :: "vvp_code \<Rightarrow> vvp_vector4_t vthread \<Rightarrow> vvp_vector4_t vthread option" where
  "of_OR cp thr = do { (valb, thr) \<leftarrow> pop_vec4 thr; edit_vec4 (\<lambda>vala. Some (or_assign vala valb)) thr }"

definition of_NAND :: "vvp_code \<Rightarrow> vvp_vector4_t vthread \<Rightarrow> vvp_vector4_t vthread option" where
  "of_NAND cp thr = do { (valr, thr) \<leftarrow> pop_vec4 thr; edit_vec4 (\<lambda>vall. bitwise_loop (\<lambda>lb rb. bit4_not (bit4_and lb rb)) vall valr) thr }"

definition of_NOR :: "vvp_code \<Rightarrow> vvp_vector4_t vthread \<Rightarrow> vvp_vector4_t vthread option" where
  "of_NOR cp thr = do { (valr, thr) \<leftarrow> pop_vec4 thr; edit_vec4 (\<lambda>vall. bitwise_loop (\<lambda>lb rb. bit4_not (bit4_or lb rb)) vall valr) thr }"

definition of_XOR :: "vvp_code \<Rightarrow> vvp_vector4_t vthread \<Rightarrow> vvp_vector4_t vthread option" where
  "of_XOR cp thr = do { (valr, thr) \<leftarrow> pop_vec4 thr; edit_vec4 (\<lambda>vall. bitwise_loop bit4_xor vall valr) thr }"

definition of_XNOR :: "vvp_code \<Rightarrow> vvp_vector4_t vthread \<Rightarrow> vvp_vector4_t vthread option" where
  "of_XNOR cp thr = do { (valr, thr) \<leftarrow> pop_vec4 thr; edit_vec4 (\<lambda>vall. bitwise_loop (\<lambda>lb rb. bit4_not (bit4_xor lb rb)) vall valr) thr }"

definition of_INV :: "vvp_code \<Rightarrow> vvp_vector4_t vthread \<Rightarrow> vvp_vector4_t vthread option" where
  "of_INV cp thr = edit_vec4 (\<lambda>val. Some (invert val)) thr"

text \<open>The loops of the reduction opcodes: \<open>reduce_stop\<close> ends at a bit that decides, \<open>reduce_xor\<close> at an unknown one.\<close>

fun reduce_stop :: "vvp_vector4_t \<Rightarrow> vvp_bit4_t \<Rightarrow> vvp_bit4_t \<Rightarrow> vvp_bit4_t \<Rightarrow> nat \<Rightarrow> nat \<Rightarrow> vvp_bit4_t \<Rightarrow> vvp_bit4_t" where
  "reduce_stop val stop res other 0 idx lb = lb"
| "reduce_stop val stop res other (Suc n) idx lb =
     (let rb = value4 val idx
      in if rb = stop then res
         else reduce_stop val stop res other n (idx + 1) (if rb \<noteq> other then BIT4_X else lb))"

fun reduce_xor :: "vvp_vector4_t \<Rightarrow> nat \<Rightarrow> nat \<Rightarrow> vvp_bit4_t \<Rightarrow> vvp_bit4_t" where
  "reduce_xor val 0 idx lb = lb"
| "reduce_xor val (Suc n) idx lb =
     (let rb = value4 val idx
      in if rb = BIT4_1 then reduce_xor val n (idx + 1) (bit4_not lb)
         else if rb \<noteq> BIT4_0 then BIT4_X
         else reduce_xor val n (idx + 1) lb)"

definition reduce_opcode :: "(vvp_vector4_t \<Rightarrow> vvp_bit4_t) \<Rightarrow> vvp_vector4_t vthread \<Rightarrow> vvp_vector4_t vthread option" where
  "reduce_opcode f thr = do { (val, thr) \<leftarrow> pop_vec4 thr; Some (push_vec4 (vector4_fill 1 (f val)) thr) }"

definition of_ANDR :: "vvp_code \<Rightarrow> vvp_vector4_t vthread \<Rightarrow> vvp_vector4_t vthread option" where
  "of_ANDR cp = reduce_opcode (\<lambda>val. reduce_stop val BIT4_0 BIT4_0 BIT4_1 (size4 val) 0 BIT4_1)"

definition of_NANDR :: "vvp_code \<Rightarrow> vvp_vector4_t vthread \<Rightarrow> vvp_vector4_t vthread option" where
  "of_NANDR cp = reduce_opcode (\<lambda>val. reduce_stop val BIT4_0 BIT4_1 BIT4_1 (size4 val) 0 BIT4_0)"

definition of_ORR :: "vvp_code \<Rightarrow> vvp_vector4_t vthread \<Rightarrow> vvp_vector4_t vthread option" where
  "of_ORR cp = reduce_opcode (\<lambda>val. reduce_stop val BIT4_1 BIT4_1 BIT4_0 (size4 val) 0 BIT4_0)"

definition of_NORR :: "vvp_code \<Rightarrow> vvp_vector4_t vthread \<Rightarrow> vvp_vector4_t vthread option" where
  "of_NORR cp = reduce_opcode (\<lambda>val. reduce_stop val BIT4_1 BIT4_0 BIT4_0 (size4 val) 0 BIT4_1)"

definition of_XORR :: "vvp_code \<Rightarrow> vvp_vector4_t vthread \<Rightarrow> vvp_vector4_t vthread option" where
  "of_XORR cp = reduce_opcode (\<lambda>val. reduce_xor val (size4 val) 0 BIT4_0)"

definition of_XNORR :: "vvp_code \<Rightarrow> vvp_vector4_t vthread \<Rightarrow> vvp_vector4_t vthread option" where
  "of_XNORR cp = reduce_opcode (\<lambda>val. reduce_xor val (size4 val) 0 BIT4_1)"

section \<open>Stack, width and selection\<close>

definition of_DUP_VEC4 :: "vvp_code \<Rightarrow> 'v vthread \<Rightarrow> 'v vthread option" where
  "of_DUP_VEC4 cp thr = do { v \<leftarrow> peek_vec4 0 thr; Some (push_vec4 v thr) }"

definition of_POP_VEC4 :: "vvp_code \<Rightarrow> 'v vthread \<Rightarrow> 'v vthread option" where
  "of_POP_VEC4 cp thr = pop_vec4_cnt (cp_number cp) thr"

definition of_PUSHI_VEC4 :: "vvp_code \<Rightarrow> vvp_vector4_t vthread \<Rightarrow> vvp_vector4_t vthread option" where
  "of_PUSHI_VEC4 cp thr = do { val \<leftarrow> immediate cp; Some (push_vec4 val thr) }"

definition of_CAST2 :: "vvp_code \<Rightarrow> vvp_vector4_t vthread \<Rightarrow> vvp_vector4_t vthread option" where
  "of_CAST2 cp thr =
     edit_vec4 (\<lambda>val. set_loop set_bit4 0 (\<lambda>idx. if value4 val idx = BIT4_1 then BIT4_1 else BIT4_0) (size4 val) val) thr"

definition of_BLEND :: "vvp_code \<Rightarrow> vvp_vector4_t vthread \<Rightarrow> vvp_vector4_t vthread option" where
  "of_BLEND cp thr =
     do { (vala, thr) \<leftarrow> pop_vec4 thr;
          (valb, thr) \<leftarrow> pop_vec4 thr;
          v \<leftarrow> (if size4 vala = size4 valb
                then set_loop set_bit4 0 (\<lambda>idx. if value4 vala idx = value4 valb idx then value4 vala idx else BIT4_X) (size4 vala) vala
                else None);
          Some (push_vec4 v thr) }"

definition concat_vec4 :: "vvp_vector4_t \<Rightarrow> vvp_vector4_t \<Rightarrow> vvp_vector4_t option" where
  "concat_vec4 msb lsb =
     do { (res, _) \<leftarrow> set_vec (x_vec (size4 msb + size4 lsb)) 0 lsb;
          (res, _) \<leftarrow> set_vec res (size4 lsb) msb;
          Some res }"

definition of_CONCAT_VEC4 :: "vvp_code \<Rightarrow> vvp_vector4_t vthread \<Rightarrow> vvp_vector4_t vthread option" where
  "of_CONCAT_VEC4 cp thr =
     do { lsb \<leftarrow> peek_vec4 0 thr; msb \<leftarrow> peek_vec4 1 thr;
          res \<leftarrow> concat_vec4 msb lsb;
          thr \<leftarrow> pop_vec4_cnt 1 thr;
          poke_vec4 0 res thr }"

definition of_CONCATI_VEC4 :: "vvp_code \<Rightarrow> vvp_vector4_t vthread \<Rightarrow> vvp_vector4_t vthread option" where
  "of_CONCATI_VEC4 cp thr = do { lsb \<leftarrow> immediate cp; edit_vec4 (\<lambda>msb. concat_vec4 msb lsb) thr }"

fun replicate_loop :: "vvp_vector4_t \<Rightarrow> nat \<Rightarrow> vvp_vector4_t \<Rightarrow> vvp_vector4_t option" where
  "replicate_loop val 0 res = Some res"
| "replicate_loop val (Suc n) res = do { res \<leftarrow> replicate_loop val n res; (res, _) \<leftarrow> set_vec res (n * size4 val) val; Some res }"

definition of_REPLICATE :: "vvp_code \<Rightarrow> vvp_vector4_t vthread \<Rightarrow> vvp_vector4_t vthread option" where
  "of_REPLICATE cp thr =
     do { (val, thr) \<leftarrow> pop_vec4 thr;
          res \<leftarrow> replicate_loop val (cp_number cp) (x_vec (size4 val * cp_number cp));
          Some (push_vec4 res thr) }"

definition of_PAD_U :: "vvp_code \<Rightarrow> vvp_vector4_t vthread \<Rightarrow> vvp_vector4_t vthread option" where
  "of_PAD_U cp thr = edit_vec4 (\<lambda>val. Some (resize val (cp_number cp) BIT4_0)) thr"

text \<open>Without a pad bit \<open>resize\<close> pads with X; here it only truncates.\<close>

definition of_PAD_S :: "vvp_code \<Rightarrow> vvp_vector4_t vthread \<Rightarrow> vvp_vector4_t vthread option" where
  "of_PAD_S cp thr =
     edit_vec4 (\<lambda>val. let wid = cp_number cp; old_size = size4 val
                       in Some (if old_size < wid then resize val wid (value4 val (old_size - 1)) else resize val wid BIT4_X)) thr"

text \<open>The part of \<open>value\<close> of width \<open>wid\<close> from the signed index \<open>base\<close>.\<close>

definition part_vec4 :: "int \<Rightarrow> nat \<Rightarrow> vvp_vector4_t \<Rightarrow> vvp_vector4_t option" where
  "part_vec4 base wid val =
     (let res = x_vec wid
      in if base \<ge> int (size4 val) then Some res
         else if base + int wid \<le> 0 then Some res
         else let (vbase, wid, base) = (if base < 0 then (nat (- base), wid - nat (- base), 0) else (0, wid, base));
                  wid = (if nat base + wid > size4 val then size4 val - nat base else wid)
              in do { sub \<leftarrow> subvalue val (nat base) wid; (res, _) \<leftarrow> set_vec res vbase sub; Some res })"

definition of_PART_base :: "bool \<Rightarrow> vvp_code \<Rightarrow> vvp_vector4_t vthread \<Rightarrow> vvp_vector4_t vthread option" where
  "of_PART_base signed_flag cp thr =
     do { (base4, thr) \<leftarrow> pop_vec4 thr;
          edit_vec4 (\<lambda>val. case (vector4_to_value base4 signed_flag True :: (32 word \<times> bool) option) of
                             Some (base, True) \<Rightarrow> part_vec4 (sint base) (cp_number cp) val
                           | _ \<Rightarrow> Some (x_vec (cp_number cp))) thr }"

definition of_PART_S :: "vvp_code \<Rightarrow> vvp_vector4_t vthread \<Rightarrow> vvp_vector4_t vthread option" where "of_PART_S = of_PART_base True"
definition of_PART_U :: "vvp_code \<Rightarrow> vvp_vector4_t vthread \<Rightarrow> vvp_vector4_t vthread option" where "of_PART_U = of_PART_base False"

definition of_PARTI_base :: "bool \<Rightarrow> vvp_code \<Rightarrow> vvp_vector4_t vthread \<Rightarrow> vvp_vector4_t vthread option" where
  "of_PARTI_base signed_flag cp thr =
     (let base = bit_idx0 cp; bwid = unat (bit_idx1 cp);
          use_base = (if signed_flag \<and> bwid < 32 \<and> base AND push_bit (bwid - 1) 1 \<noteq> 0 then base OR push_bit bwid (- 1) else base)
      in edit_vec4 (\<lambda>val. part_vec4 (sint use_base) (cp_number cp) val) thr)"

definition of_PARTI_S :: "vvp_code \<Rightarrow> vvp_vector4_t vthread \<Rightarrow> vvp_vector4_t vthread option" where "of_PARTI_S = of_PARTI_base True"
definition of_PARTI_U :: "vvp_code \<Rightarrow> vvp_vector4_t vthread \<Rightarrow> vvp_vector4_t vthread option" where "of_PARTI_U = of_PARTI_base False"

definition of_SPLIT_VEC4 :: "vvp_code \<Rightarrow> vvp_vector4_t vthread \<Rightarrow> vvp_vector4_t vthread option" where
  "of_SPLIT_VEC4 cp thr =
     do { val \<leftarrow> peek_vec4 0 thr;
          let lsb_wid = cp_number cp;
          if lsb_wid < size4 val
          then do { lsb \<leftarrow> subvalue val 0 lsb_wid;
                    msb \<leftarrow> subvalue val lsb_wid (size4 val - lsb_wid);
                    thr \<leftarrow> poke_vec4 0 msb thr;
                    Some (push_vec4 lsb thr) }
          else None }"

section \<open>Shifts\<close>

definition of_SHIFTL :: "vvp_code \<Rightarrow> vvp_vector4_t vthread \<Rightarrow> vvp_vector4_t vthread option" where
  "of_SHIFTL cp thr =
     do { shift \<leftarrow> get_word (cp_number cp) thr;
          fl \<leftarrow> get_flag 4 thr;
          edit_vec4 (\<lambda>val. let wid = size4 val
            in if fl = BIT4_1 then Some (x_vec wid)
               else if fl = BIT4_X \<or> unat shift \<ge> wid then Some (vector4_fill wid BIT4_0)
               else if unat shift > 0
               then do { blk \<leftarrow> subvalue val 0 (wid - unat shift);
                         (val, _) \<leftarrow> set_vec val 0 (vector4_fill (unat shift) BIT4_0);
                         (val, _) \<leftarrow> set_vec val (unat shift) blk;
                         Some val }
               else Some val) thr }"

text \<open>Both right shifts; \<open>pad\<close> is the bit that comes in.\<close>

definition shiftr_vec4 :: "vvp_bit4_t \<Rightarrow> ulong \<Rightarrow> vvp_bit4_t \<Rightarrow> vvp_vector4_t \<Rightarrow> vvp_vector4_t option" where
  "shiftr_vec4 fl shift pad val =
     (let wid = size4 val
      in if fl = BIT4_1 then Some (x_vec wid)
         else if fl = BIT4_X \<or> unat shift > wid then Some (vector4_fill wid pad)
         else if unat shift > 0
         then do { blk \<leftarrow> subvalue val (unat shift) (wid - unat shift);
                   (val, _) \<leftarrow> set_vec val 0 blk;
                   (val, _) \<leftarrow> set_vec val (wid - unat shift) (vector4_fill (unat shift) pad);
                   Some val }
         else Some val)"

definition of_SHIFTR :: "vvp_code \<Rightarrow> vvp_vector4_t vthread \<Rightarrow> vvp_vector4_t vthread option" where
  "of_SHIFTR cp thr =
     do { shift \<leftarrow> get_word (cp_number cp) thr;
          (val, thr) \<leftarrow> pop_vec4 thr;
          fl \<leftarrow> get_flag 4 thr;
          val \<leftarrow> shiftr_vec4 fl shift BIT4_0 val;
          Some (push_vec4 val thr) }"

definition of_SHIFTR_S :: "vvp_code \<Rightarrow> vvp_vector4_t vthread \<Rightarrow> vvp_vector4_t vthread option" where
  "of_SHIFTR_S cp thr =
     do { shift \<leftarrow> get_word (cp_number cp) thr;
          (val, thr) \<leftarrow> pop_vec4 thr;
          fl \<leftarrow> get_flag 4 thr;
          val \<leftarrow> shiftr_vec4 fl shift (value4 val (size4 val - 1)) val;
          Some (push_vec4 val thr) }"

section \<open>Comparison\<close>

text \<open>The loop of \<open>do_CMPE\<close> and of \<open>of_CMPU_the_hard_way\<close> on \<open>eq\<close> and \<open>eeq\<close>.\<close>

fun cmp_eq_loop :: "vvp_vector4_t \<Rightarrow> vvp_vector4_t \<Rightarrow> nat \<Rightarrow> nat \<Rightarrow> vvp_bit4_t \<Rightarrow> vvp_bit4_t \<Rightarrow> vvp_bit4_t \<times> vvp_bit4_t" where
  "cmp_eq_loop lval rval 0 idx eq ee = (eq, ee)"
| "cmp_eq_loop lval rval (Suc n) idx eq ee =
     (let lv = value4 lval idx; rv = value4 rval idx;
          ee = (if lv \<noteq> rv then BIT4_0 else ee);
          eq = (if eq = BIT4_1 \<and> (bit4_is_xz lv \<or> bit4_is_xz rv) then BIT4_X else eq);
          eq = (if lv = BIT4_0 \<and> rv = BIT4_1 then BIT4_0 else eq);
          eq = (if lv = BIT4_1 \<and> rv = BIT4_0 then BIT4_0 else eq)
      in if eq = BIT4_0 then (eq, ee) else cmp_eq_loop lval rval n (idx + 1) eq ee)"

definition do_CMPE :: "vvp_vector4_t vthread \<Rightarrow> vvp_vector4_t \<Rightarrow> vvp_vector4_t \<Rightarrow> vvp_vector4_t vthread option" where
  "do_CMPE thr lval rval =
     (if size4 rval \<noteq> size4 lval then None
      else let (eq, ee) =
             (if has_xz lval \<or> has_xz rval then cmp_eq_loop lval rval (size4 lval) 0 BIT4_1 BIT4_1
              else let b = (if eeq lval rval then BIT4_1 else BIT4_0) in (b, b))
           in do { thr \<leftarrow> set_flag 4 eq thr; set_flag 6 ee thr })"

definition invert_flag :: "nat \<Rightarrow> 'v vthread \<Rightarrow> 'v vthread option" where
  "invert_flag i thr = do { b \<leftarrow> get_flag i thr; set_flag i (bit4_not b) thr }"

definition compare_stack :: "(vvp_vector4_t vthread \<Rightarrow> vvp_vector4_t \<Rightarrow> vvp_vector4_t \<Rightarrow> vvp_vector4_t vthread option) \<Rightarrow> vvp_vector4_t vthread \<Rightarrow> vvp_vector4_t vthread option" where
  "compare_stack do_cmp thr = do { rval \<leftarrow> peek_vec4 0 thr; lval \<leftarrow> peek_vec4 1 thr; thr \<leftarrow> do_cmp thr lval rval; pop_vec4_cnt 2 thr }"

definition compare_immediate :: "(vvp_vector4_t vthread \<Rightarrow> vvp_vector4_t \<Rightarrow> vvp_vector4_t \<Rightarrow> vvp_vector4_t vthread option) \<Rightarrow> vvp_code \<Rightarrow> vvp_vector4_t vthread \<Rightarrow> vvp_vector4_t vthread option" where
  "compare_immediate do_cmp cp thr =
     do { lval \<leftarrow> peek_vec4 0 thr; rval \<leftarrow> immediate cp; thr \<leftarrow> do_cmp thr lval rval; pop_vec4_cnt 1 thr }"

definition of_CMPE :: "vvp_code \<Rightarrow> vvp_vector4_t vthread \<Rightarrow> vvp_vector4_t vthread option" where "of_CMPE cp = compare_stack do_CMPE"

definition do_CMPNE :: "vvp_vector4_t vthread \<Rightarrow> vvp_vector4_t \<Rightarrow> vvp_vector4_t \<Rightarrow> vvp_vector4_t vthread option" where
  "do_CMPNE thr lval rval = do { thr \<leftarrow> do_CMPE thr lval rval; thr \<leftarrow> invert_flag 4 thr; invert_flag 6 thr }"

definition of_CMPNE :: "vvp_code \<Rightarrow> vvp_vector4_t vthread \<Rightarrow> vvp_vector4_t vthread option" where "of_CMPNE cp = compare_stack do_CMPNE"
definition of_CMPIE :: "vvp_code \<Rightarrow> vvp_vector4_t vthread \<Rightarrow> vvp_vector4_t vthread option" where "of_CMPIE = compare_immediate do_CMPE"
definition of_CMPINE :: "vvp_code \<Rightarrow> vvp_vector4_t vthread \<Rightarrow> vvp_vector4_t vthread option" where "of_CMPINE = compare_immediate do_CMPNE"

text \<open>The scan of \<open>do_CMPS\<close> over the bits below the sign, from the top; the flags 4, 5 and 6.\<close>

fun cmps_loop :: "vvp_vector4_t \<Rightarrow> vvp_vector4_t \<Rightarrow> nat \<Rightarrow> vvp_bit4_t \<times> vvp_bit4_t \<times> vvp_bit4_t" where
  "cmps_loop lval rval 0 = (BIT4_1, BIT4_0, BIT4_1)"
| "cmps_loop lval rval (Suc i) =
     (let lv = value4 lval i; rv = value4 rval i
      in if lv = rv then cmps_loop lval rval i
         else (BIT4_0, if lv = BIT4_0 then BIT4_1 else BIT4_0, BIT4_0))"

definition set_flags456 :: "vvp_bit4_t \<times> vvp_bit4_t \<times> vvp_bit4_t \<Rightarrow> 'v vthread \<Rightarrow> 'v vthread option" where
  "set_flags456 r thr = (case r of (eq, lt, ee) \<Rightarrow> do { thr \<leftarrow> set_flag 4 eq thr; thr \<leftarrow> set_flag 5 lt thr; set_flag 6 ee thr })"

definition do_CMPS :: "vvp_vector4_t vthread \<Rightarrow> vvp_vector4_t \<Rightarrow> vvp_vector4_t \<Rightarrow> vvp_vector4_t vthread option" where
  "do_CMPS thr lval rval =
     (if size4 rval \<noteq> size4 lval then None
      else if has_xz lval \<or> has_xz rval then set_flags456 (BIT4_X, BIT4_X, if eeq lval rval then BIT4_1 else BIT4_0) thr
      else let wid = size4 lval; sig1 = value4 lval (wid - 1); sig2 = value4 rval (wid - 1)
           in if sig1 = BIT4_1 \<and> sig2 = BIT4_0 then set_flags456 (BIT4_0, BIT4_1, BIT4_0) thr
              else if sig1 = BIT4_0 \<and> sig2 = BIT4_1 then set_flags456 (BIT4_0, BIT4_0, BIT4_0) thr
              else set_flags456 (cmps_loop lval rval (wid - 1)) thr)"

definition of_CMPS :: "vvp_code \<Rightarrow> vvp_vector4_t vthread \<Rightarrow> vvp_vector4_t vthread option" where "of_CMPS cp = compare_stack do_CMPS"
definition of_CMPIS :: "vvp_code \<Rightarrow> vvp_vector4_t vthread \<Rightarrow> vvp_vector4_t vthread option" where "of_CMPIS = compare_immediate do_CMPS"

text \<open>The comparison of the words, from the lowest: a later word overrides.\<close>

definition cmpu_words :: "ulong list \<Rightarrow> ulong list \<Rightarrow> vvp_bit4_t \<times> vvp_bit4_t" where
  "cmpu_words larray rarray =
     fold (\<lambda>(l, r) (eq, lt). if l = r then (eq, lt) else (BIT4_0, if l < r then BIT4_1 else BIT4_0)) (zip larray rarray) (BIT4_1, BIT4_0)"

definition do_CMPU :: "vvp_vector4_t vthread \<Rightarrow> vvp_vector4_t \<Rightarrow> vvp_vector4_t \<Rightarrow> vvp_vector4_t vthread option" where
  "do_CMPU thr lval rval =
     (if size4 rval \<noteq> size4 lval then None
      else let wid = size4 lval;
               hard = (case cmp_eq_loop lval rval wid 0 BIT4_1 BIT4_1 of (eq, ee) \<Rightarrow> set_flags456 (eq, BIT4_X, ee) thr)
           in case subarray lval 0 wid False of
                None \<Rightarrow> hard
              | Some larray \<Rightarrow>
                  (case subarray rval 0 wid False of
                     None \<Rightarrow> hard
                   | Some rarray \<Rightarrow> (case cmpu_words larray rarray of (eq, lt) \<Rightarrow> set_flags456 (eq, lt, eq) thr)))"

definition of_CMPU :: "vvp_code \<Rightarrow> vvp_vector4_t vthread \<Rightarrow> vvp_vector4_t vthread option" where "of_CMPU cp = compare_stack do_CMPU"
definition of_CMPIU :: "vvp_code \<Rightarrow> vvp_vector4_t vthread \<Rightarrow> vvp_vector4_t vthread option" where "of_CMPIU = compare_immediate do_CMPU"

text \<open>\<open>of_CMPX\<close> and \<open>of_CMPZ\<close>: 0 at the first pair of bits that differs.\<close>

definition do_CMPXZ :: "(vvp_bit4_t \<Rightarrow> vvp_bit4_t \<Rightarrow> bool) \<Rightarrow> vvp_vector4_t vthread \<Rightarrow> vvp_vector4_t \<Rightarrow> vvp_vector4_t \<Rightarrow> vvp_vector4_t vthread option" where
  "do_CMPXZ differ thr lval rval =
     (if size4 rval \<noteq> size4 lval then None
      else set_flag 4 (if list_ex (\<lambda>idx. differ (value4 lval idx) (value4 rval idx)) [0..<size4 lval] then BIT4_0 else BIT4_1) thr)"

definition of_CMPX :: "vvp_code \<Rightarrow> vvp_vector4_t vthread \<Rightarrow> vvp_vector4_t vthread option" where
  "of_CMPX cp thr =
     do { (rval, thr) \<leftarrow> pop_vec4 thr; (lval, thr) \<leftarrow> pop_vec4 thr;
          do_CMPXZ (\<lambda>lv rv. lv \<noteq> rv \<and> \<not> bit4_is_xz lv \<and> \<not> bit4_is_xz rv) thr lval rval }"

definition of_CMPZ :: "vvp_code \<Rightarrow> vvp_vector4_t vthread \<Rightarrow> vvp_vector4_t vthread option" where
  "of_CMPZ cp thr =
     do { (rval, thr) \<leftarrow> pop_vec4 thr; (lval, thr) \<leftarrow> pop_vec4 thr;
          do_CMPXZ (\<lambda>lv rv. lv \<noteq> rv \<and> rv \<noteq> BIT4_Z \<and> lv \<noteq> BIT4_Z) thr lval rval }"

fun weq_loop :: "vvp_vector4_t \<Rightarrow> vvp_vector4_t \<Rightarrow> nat \<Rightarrow> nat \<Rightarrow> vvp_bit4_t \<Rightarrow> vvp_bit4_t" where
  "weq_loop lval rval 0 idx eq = eq"
| "weq_loop lval rval (Suc n) idx eq =
     (let lv = value4 lval idx; rv = value4 rval idx
      in if bit4_is_xz rv then weq_loop lval rval n (idx + 1) eq
         else let eq = (if eq = BIT4_1 \<and> bit4_is_xz lv then BIT4_X else eq);
                  eq = (if lv = BIT4_0 \<and> rv = BIT4_1 then BIT4_0 else eq);
                  eq = (if lv = BIT4_1 \<and> rv = BIT4_0 then BIT4_0 else eq)
              in if eq = BIT4_0 then eq else weq_loop lval rval n (idx + 1) eq)"

definition do_CMPWE :: "vvp_vector4_t vthread \<Rightarrow> vvp_vector4_t \<Rightarrow> vvp_vector4_t \<Rightarrow> vvp_vector4_t vthread option" where
  "do_CMPWE thr lval rval =
     (if size4 rval \<noteq> size4 lval then None
      else set_flag 4 (if has_xz lval \<or> has_xz rval then weq_loop lval rval (size4 lval) 0 BIT4_1
                       else if eeq lval rval then BIT4_1 else BIT4_0) thr)"

definition do_CMPWNE :: "vvp_vector4_t vthread \<Rightarrow> vvp_vector4_t \<Rightarrow> vvp_vector4_t \<Rightarrow> vvp_vector4_t vthread option" where
  "do_CMPWNE thr lval rval = do { thr \<leftarrow> do_CMPWE thr lval rval; invert_flag 4 thr }"

definition of_CMPWE :: "vvp_code \<Rightarrow> vvp_vector4_t vthread \<Rightarrow> vvp_vector4_t vthread option" where "of_CMPWE cp = compare_stack do_CMPWE"
definition of_CMPWNE :: "vvp_code \<Rightarrow> vvp_vector4_t vthread \<Rightarrow> vvp_vector4_t vthread option" where "of_CMPWNE cp = compare_stack do_CMPWNE"

section \<open>Flags\<close>

definition of_FLAG_GET_VEC4 :: "vvp_code \<Rightarrow> vvp_vector4_t vthread \<Rightarrow> vvp_vector4_t vthread option" where
  "of_FLAG_GET_VEC4 cp thr = do { b \<leftarrow> get_flag (cp_number cp) thr; Some (push_vec4 (vector4_fill 1 b) thr) }"

definition of_FLAG_INV :: "vvp_code \<Rightarrow> 'v vthread \<Rightarrow> 'v vthread option" where
  "of_FLAG_INV cp thr = invert_flag (unat (bit_idx0 cp)) thr"

definition of_FLAG_MOV :: "vvp_code \<Rightarrow> 'v vthread \<Rightarrow> 'v vthread option" where
  "of_FLAG_MOV cp thr = do { b \<leftarrow> get_flag (unat (bit_idx1 cp)) thr; set_flag (unat (bit_idx0 cp)) b thr }"

definition of_FLAG_OR :: "vvp_code \<Rightarrow> 'v vthread \<Rightarrow> 'v vthread option" where
  "of_FLAG_OR cp thr =
     do { b1 \<leftarrow> get_flag (unat (bit_idx0 cp)) thr; b2 \<leftarrow> get_flag (unat (bit_idx1 cp)) thr;
          set_flag (unat (bit_idx0 cp)) (bit4_or b1 b2) thr }"

definition of_FLAG_SET_IMM :: "vvp_code \<Rightarrow> 'v vthread \<Rightarrow> 'v vthread option" where
  "of_FLAG_SET_IMM cp thr =
     (let vali = unat (bit_idx0 cp)
      in if vali < 4 then set_flag (cp_number cp) ([BIT4_0, BIT4_1, BIT4_Z, BIT4_X] ! vali) thr else None)"

definition of_FLAG_SET_VEC4 :: "vvp_code \<Rightarrow> vvp_vector4_t vthread \<Rightarrow> vvp_vector4_t vthread option" where
  "of_FLAG_SET_VEC4 cp thr =
     do { val \<leftarrow> peek_vec4 0 thr; thr \<leftarrow> set_flag (cp_number cp) (value4 val 0) thr; pop_vec4_cnt 1 thr }"

section \<open>Index registers\<close>

text \<open>The registers are signed in most places; the arithmetic is taken to wrap.\<close>

definition get_as_64_bit :: "32 word \<Rightarrow> 32 word \<Rightarrow> ulong" where
  "get_as_64_bit low_32 high_32 = push_bit 32 (ucast high_32) OR ucast low_32"

definition ix_update :: "(ulong \<Rightarrow> ulong \<Rightarrow> ulong) \<Rightarrow> vvp_code \<Rightarrow> 'v vthread \<Rightarrow> 'v vthread option" where
  "ix_update f cp thr =
     do { w \<leftarrow> get_word (cp_number cp) thr; put_word (cp_number cp) (f w (get_as_64_bit (bit_idx0 cp) (bit_idx1 cp))) thr }"

definition of_IX_ADD :: "vvp_code \<Rightarrow> 'v vthread \<Rightarrow> 'v vthread option" where "of_IX_ADD = ix_update (+)"
definition of_IX_SUB :: "vvp_code \<Rightarrow> 'v vthread \<Rightarrow> 'v vthread option" where "of_IX_SUB = ix_update (-)"
definition of_IX_MUL :: "vvp_code \<Rightarrow> 'v vthread \<Rightarrow> 'v vthread option" where "of_IX_MUL = ix_update (*)"
definition of_IX_LOAD :: "vvp_code \<Rightarrow> 'v vthread \<Rightarrow> 'v vthread option" where "of_IX_LOAD = ix_update (\<lambda>_ i. i)"

definition of_IX_MOV :: "vvp_code \<Rightarrow> 'v vthread \<Rightarrow> 'v vthread option" where
  "of_IX_MOV cp thr = do { w \<leftarrow> get_word (unat (bit_idx1 cp)) thr; put_word (unat (bit_idx0 cp)) w thr }"

text \<open>The words above the first 64 bits have to be copies of the sign, or zero.\<close>

definition index_overflow :: "bool \<Rightarrow> ulong \<Rightarrow> ulong list \<Rightarrow> bool" where
  "index_overflow signed_flag v high =
     list_ex (\<lambda>tmp. if signed_flag \<and> bit v 63 then NOT tmp \<noteq> 0 else tmp \<noteq> 0) high"

definition vec4_to_index :: "bool \<Rightarrow> vvp_vector4_t vthread \<Rightarrow> (ulong \<times> vvp_vector4_t vthread) option" where
  "vec4_to_index signed_flag thr =
     do { (val, thr) \<leftarrow> pop_vec4 thr;
          let val_size = size4 val;
          case subarray val 0 val_size False of
            None \<Rightarrow> do { thr \<leftarrow> set_flag 4 BIT4_1 thr; Some (0, thr) }
          | Some bits \<Rightarrow>
              let v = (if bits = [] then 0 else hd bits)
              in do {
                thr \<leftarrow> set_flag 4 (if index_overflow signed_flag v (tl bits) then BIT4_X else BIT4_0) thr;
                Some (if val_size < 64
                      then if signed_flag \<and> v AND ul_shl 1 (val_size - 1) \<noteq> 0 then v OR ul_shl (- 1) val_size
                           else v AND NOT (ul_shl (- 1) val_size)
                      else v, thr) } }"

definition of_IX_VEC4 :: "vvp_code \<Rightarrow> vvp_vector4_t vthread \<Rightarrow> vvp_vector4_t vthread option" where
  "of_IX_VEC4 cp thr = do { (v, thr) \<leftarrow> vec4_to_index False thr; put_word (cp_number cp) v thr }"

definition of_IX_VEC4_S :: "vvp_code \<Rightarrow> vvp_vector4_t vthread \<Rightarrow> vvp_vector4_t vthread option" where
  "of_IX_VEC4_S cp thr = do { (v, thr) \<leftarrow> vec4_to_index True thr; put_word (cp_number cp) v thr }"

end
