(* ===== verification/Vvp_ThreadArith.thy ===== *)
theory Vvp_ThreadArith
  imports Vvp_Thread Vvp_ArithfunSpec
begin

text \<open>
  What the division and modulus opcodes of the thread interpreter compute: the quotient and the remainder that truncate
  towards zero, X for unknown operands or a zero divisor, on the native path, by \<open>divide_bits\<close> and by \<open>do_verylong_mod\<close>.
\<close>

section \<open>Vectors and arrays of words\<close>

definition wf_vec :: "vvp_vector4_t \<Rightarrow> bool" where
  "wf_vec v \<longleftrightarrow> wf4 v \<and> 0 < size4 v"

lemma x_vec_ok: "wf4 (x_vec n)" "size4 (x_vec n) = n" "bits4 (x_vec n) = replicate n BIT4_X"
  by (simp_all add: x_vec_def bits4_fill)

lemma subarray_num:
  assumes "wf_vec v"
  shows "if list_ex bit4_is_xz (bits4 v) then subarray v 0 (size4 v) False = None
    else \<exists>val. subarray v 0 (size4 v) False = Some val \<and> length val = nwords (size4 v) \<and> wval val = uval4 v"
proof -
  have v: "wf4 v" "0 < size4 v" using assms by (simp_all add: wf_vec_def)
  have xz: "(\<exists>i < size4 v. bit4_is_xz (bits4 v ! (0 + i))) \<longleftrightarrow> list_ex bit4_is_xz (bits4 v)" by (simp add: list_ex_length)
  show ?thesis
  proof (cases "list_ex bit4_is_xz (bits4 v)")
    case True
    then show ?thesis using subarray_ok [OF v(1), of 0 "size4 v" False] v(2) xz by simp
  next
    case False
    then obtain val where val: "subarray v 0 (size4 v) False = Some val" "length val = nwords (size4 v)"
      "\<forall>i < 64 * length val. wbit val i = (i < size4 v \<and> bits4 v ! (0 + i) = BIT4_1)"
      using subarray_ok [OF v(1), of 0 "size4 v" False] v(2) xz by (auto split: if_splits)
    have "wval val = uval4 v"
      using val(2,3) nwords_ge [of "size4 v"] by (intro bit_eqI) (auto simp: bit_wval bit_uval4 nth_value4)
    then show ?thesis using False val(1,2) by simp
  qed
qed

lemma setarray_num:
  assumes "wf_vec v" "length val = nwords (size4 v)"
  shows "\<exists>u. setarray v 0 (size4 v) val = Some u \<and> wf_vec u \<and> bits4 u = num_bits4 (size4 v) (wval val)"
proof -
  have "i < 64 * nwords (size4 v)" if "i < size4 v" for i using that nwords_ge [of "size4 v"] by linarith
  then have "map (\<lambda>i. if wbit val i then BIT4_1 else BIT4_0) [0..<size4 v] = num_bits4 (size4 v) (wval val)"
    using assms(2) by (simp add: num_bits4_def bit_wval)
  then show ?thesis using setarray_ok [of v 0 "size4 v" val] assms(1) by (auto simp: wf_vec_def)
qed

text \<open>The result of a division: X, or the bits of a number.\<close>

definition div_ok :: "nat \<Rightarrow> int \<Rightarrow> int \<Rightarrow> bool" where
  "div_ok n x y \<longleftrightarrow> n \<le> 64 \<or> \<bar>y\<bar> < 2 ^ 64 \<or> n \<le> 128 \<and> \<bar>x\<bar> \<le> 2 ^ 127"

lemma arith_fn_cases:
  "arith_fn F n sf a b = (if list_ex bit4_is_xz (a @ b) \<or> F (bnum sf a) (bnum sf b) = None then replicate n BIT4_X
     else num_bits4 n (the (F (bnum sf a) (bnum sf b))))"
  by (auto simp: arith_fn_def split: option.splits)

lemma divide_bits_num:
  assumes "length ap = nwords n" "length bp = nwords n" "wval ap = x" "wval bp = y" "64 < n" "y < 2 ^ 64 \<or> n \<le> 128 \<and> x \<le> 2 ^ 127"
  shows "if y = 0 then divide_bits ap bp n = Some None
    else \<exists>result rest. divide_bits ap bp n = Some (Some (result, rest)) \<and> length result = nwords n \<and> wval result = x div y"
proof -
  have "nwords 128 = 2" by (simp add: nwords_split)
  then have "nwords n = 2" if "n \<le> 128" using assms(5) nwords_mono [OF that] nwords_two [of n] by simp
  then have "y < 2 ^ 64 \<or> 2 ^ (64 * (nwords n - 1)) \<le> y \<and> x \<le> 2 ^ (64 * nwords n - 1)" using assms(6) by auto
  then show ?thesis using divide_bits_ok [of ap n bp] assms by auto
qed

lemma div_vec4_ok:
  assumes "wf_vec a" "wf_vec b" "size4 b = size4 a"
    and "\<not> list_ex bit4_is_xz (bits4 a @ bits4 b) \<Longrightarrow> div_ok (size4 a) (uval4 a) (uval4 b)"
  shows "\<exists>u. div_vec4 a b = Some u \<and> wf_vec u \<and> bits4 u = arith_fn tdiv_fn (size4 a) False (bits4 a) (bits4 b)"
proof -
  let ?n = "size4 a"
  have n: "0 < ?n" using assms(1) by (simp add: wf_vec_def)
  have x: "wf_vec (x_vec ?n)" using n by (simp add: wf_vec_def x_vec_ok)
  show ?thesis
  proof (cases "list_ex bit4_is_xz (bits4 a @ bits4 b)")
    case True
    then have "div_vec4 a b = Some (x_vec ?n)"
      using subarray_num [OF assms(1)] subarray_num [OF assms(2)] assms(3) by (auto simp: div_vec4_def Let_def split: if_splits)
    then show ?thesis using True x by (simp add: arith_fn_def x_vec_ok)
  next
    case False
    note dok = assms(4) [OF False]
    obtain ap bp where ap: "subarray a 0 ?n False = Some ap" "length ap = nwords ?n" "wval ap = uval4 a"
      and bp: "subarray b 0 ?n False = Some bp" "length bp = nwords ?n" "wval bp = uval4 b"
      using subarray_num [OF assms(1)] subarray_num [OF assms(2)] False assms(3) by auto
    have spec: "arith_fn tdiv_fn ?n False (bits4 a) (bits4 b) = (if uval4 b = 0 then replicate ?n BIT4_X else num_bits4 ?n (uval4 a div uval4 b))"
      using False uval4_bounds [of a] uval4_bounds [of b] by (auto simp: arith_fn_def tdiv_fn_def bnum_bits4 sdiv_magnitude)
    show ?thesis
    proof (cases "?n \<le> 64")
      case True
      then have one: "length ap = 1" "length bp = 1" using ap(2) bp(2) n nwords_two [of ?n] nwords_ge [of ?n] by (simp_all add: le_less_Suc_eq)
      then have w: "ap = [ap ! 0]" "bp = [bp ! 0]" by (cases ap; cases bp; simp)+
      then have u: "uint (ap ! 0) = uval4 a" "uint (bp ! 0) = uval4 b" using ap(3) bp(3) by (metis wval_Cons wval_Nil mult_zero_right add_0_right)+
      have "div_vec4 a b = (if bp ! 0 = 0 then Some (x_vec ?n) else setarray a 0 ?n [ap ! 0 div bp ! 0])"
        using ap(1) bp(1) True assms(3) w by (simp add: div_vec4_def Let_def) (metis list_update_code(2))
      moreover have "wval [ap ! 0 div bp ! 0] = uval4 a div uval4 b" using u by (simp add: uint_div)
      moreover have "bp ! 0 = 0 \<longleftrightarrow> uval4 b = 0" using u by (metis uint_0_iff)
      ultimately show ?thesis
        using spec x setarray_num [OF assms(1), of "[ap ! 0 div bp ! 0]"] one ap(2) by (auto simp: x_vec_ok)
    next
      case False
      then have wide: "uval4 b < 2 ^ 64 \<or> ?n \<le> 128 \<and> uval4 a \<le> 2 ^ 127"
        using dok uval4_bounds(1) [of a] uval4_bounds(1) [of b] by (auto simp: div_ok_def)
      have "div_vec4 a b = do { r \<leftarrow> divide_bits ap bp ?n; case r of None \<Rightarrow> Some (x_vec ?n) | Some (result, _) \<Rightarrow> setarray a 0 ?n result }"
        using ap(1) bp(1) False assms(3) by (simp add: div_vec4_def Let_def)
      then show ?thesis
        using divide_bits_num [OF ap(2) bp(2) ap(3) bp(3) _ wide] False spec x setarray_num [OF assms(1)] by (fastforce simp: x_vec_ok split: if_splits)
    qed
  qed
qed

section \<open>Signed division\<close>

lemma wval_take_bit: "take_bit (64 * length ws) (wval ws) = wval ws"
  using wval_less [of ws] by (simp add: take_bit_int_eq_self)

lemma negate_words_ok: "length (negate_words ws) = length ws" "wval (negate_words ws) = take_bit (64 * length ws) (- wval ws)"
proof -
  have z: "wval (replicate n 0) = 0" for n by (induction n) simp_all
  obtain zs c where run: "carry_run ul_add_with_carry (replicate (length ws) 0) (map NOT ws) 1 = (zs, c)" by fastforce
  have r: "length zs = length ws" "wval zs + 2 ^ (64 * length ws) * uint c = 2 ^ (64 * length ws) - wval ws"
    using wval_carry_run [OF _ _ run] by (simp_all add: wval_not z)
  have "take_bit (64 * length ws) (wval zs) = take_bit (64 * length ws) (- wval ws)"
  proof -
    have "wval zs = - wval ws + 2 ^ (64 * length ws) * (1 - uint c)" using r(2) by (simp add: algebra_simps)
    then show ?thesis unfolding take_bit_eq_mod by (metis mod_mult_self2)
  qed
  then show "length (negate_words ws) = length ws" "wval (negate_words ws) = take_bit (64 * length ws) (- wval ws)"
    using r(1) run wval_take_bit [of zs] by (simp_all add: negate_words_def)
qed

lemma top_word_sign:
  assumes "ws \<noteq> []"
  shows "sint (ws ! (length ws - 1)) < 0 \<longleftrightarrow> bit (wval ws) (64 * length ws - 1)"
proof -
  obtain m where m: "length ws = Suc m" using assms by (cases ws) auto
  have "64 * length ws - 1 = 64 * m + 63" using m by simp
  moreover have "wbit ws (64 * m + 63) = bit (ws ! m) 63" by (rule wbit_word) simp
  ultimately have "bit (wval ws) (64 * length ws - 1) = bit (ws ! m) 63" using m by (simp only: bit_wval) simp
  then show ?thesis using bit_last_iff [of "ws ! m"] m by simp
qed

text \<open>The last word of a width that is not a multiple of 64.\<close>

lemma sign_mask_bits:
  assumes "0 < n"
  shows "bit (div_sign_mask n) j \<longleftrightarrow> n mod 64 \<noteq> 0 \<and> n mod 64 \<le> j \<and> j < 64"
proof -
  let ?s = "nwords n * 64 - n"
  have "?s = (64 - n mod 64) mod 64" using nwords_pad [of n] by linarith
  then have s: "?s = (if n mod 64 = 0 then 0 else 64 - n mod 64)" by simp
  have "div_sign_mask n = (if n mod 64 \<noteq> 0 then ul_shl (- 1) (n mod 64) else 0)" using s by (auto simp: div_sign_mask_def Let_def)
  then show ?thesis using bit_mask_high [of "n mod 64" j] by simp
qed

lemma sign_extend_words_ok:
  assumes "length ap = nwords n" "0 < n" "wval ap = take_bit n x" "signed_take_bit (n - 1) x = x"
  shows "length (sign_extend_words n ap) = nwords n" "wval (sign_extend_words n ap) = take_bit (64 * nwords n) x"
proof -
  let ?t = "nwords n - 1" and ?r = "n mod 64"
  have w: "0 < nwords n" using nwords_ge [of n] assms(2) by (auto intro: gr_zeroI)
  have b: "wbit ap i \<longleftrightarrow> i < n \<and> bit x i" if "i < 64 * nwords n" for i
    using arg_cong [OF assms(3), of "\<lambda>z. bit z i"] that assms(1) by (auto simp: bit_wval bit_take_bit_iff)
  have sgn: "bit x i \<longleftrightarrow> bit x (n - 1)" if "n \<le> i" for i
  proof -
    have "min (n - 1) i = n - 1" using that by linarith
    then show ?thesis using arg_cong [OF assms(4), of "\<lambda>z. bit z i"] by (simp add: bit_signed_take_bit_iff)
  qed
  show len: "length (sign_extend_words n ap) = nwords n" by (simp add: sign_extend_words_def Let_def assms(1))
  have "wbit (sign_extend_words n ap) i \<longleftrightarrow> bit x i" if i: "i < 64 * nwords n" for i
  proof (cases "?r = 0")
    case True
    then have "div_sign_mask n = 0" by (intro bit_eqI) (simp add: sign_mask_bits [OF assms(2)])
    moreover have "n = 64 * nwords n" using nwords_pad [of n] True by simp
    ultimately show ?thesis using b [OF i] i by (simp add: sign_extend_words_def Let_def ul_shr_def)
  next
    case False
    have r: "?r < 64" by simp
    have nw: "nwords n = ?t + 1" using w by simp
    have n: "n = 64 * ?t + ?r" using False nwords_pad [of n] w by simp
    have tb: "bit (ap ! ?t) j \<longleftrightarrow> j < ?r \<and> bit x (64 * ?t + j)" if "j < 64" for j
      using b [of "64 * ?t + j"] that n nw wbit_word [OF that, of ap ?t] by linarith
    have "ap ! ?t AND ul_shr (div_sign_mask n) 1 \<noteq> 0 \<longleftrightarrow> bit x (n - 1)" (is "?L \<longleftrightarrow> _")
    proof -
      have "bit (ap ! ?t AND ul_shr (div_sign_mask n) 1) j \<longleftrightarrow> j = ?r - 1 \<and> bit x (n - 1)" if "j < 64" for j
      proof (cases "j = ?r - 1")
        case True
        then have "64 * ?t + j = n - 1" using n False by linarith
        then show ?thesis
          using True False r that tb [of j] sign_mask_bits [OF assms(2), of "1 + j"] by (simp add: bit_and_iff bit_ul_shr)
      next
        case neq: False
        then show ?thesis
          using False that tb [of j] sign_mask_bits [OF assms(2), of "1 + j"] by (auto simp: bit_and_iff bit_ul_shr)
      qed
      moreover have "?r - 1 < 64" using r by linarith
      ultimately show ?thesis unfolding word_zero_iff by blast
    qed
    then have ext: "sign_extend_words n ap = (if bit x (n - 1) then ap[?t := ap ! ?t OR div_sign_mask n] else ap)"
      by (simp add: sign_extend_words_def Let_def assms(1))
    show ?thesis
    proof (cases "bit x (n - 1)")
      case True
      have "wbit (ap[?t := ap ! ?t OR div_sign_mask n]) i = (if i div 64 = ?t then bit (ap ! ?t OR div_sign_mask n) (i mod 64) else wbit ap i)"
        using wbit_update [of ?t ap "ap ! ?t OR div_sign_mask n" i] w assms(1) by simp
      moreover have "bit (ap ! ?t OR div_sign_mask n) (i mod 64) \<longleftrightarrow> bit x i" if q: "i div 64 = ?t"
      proof -
        have i': "i = 64 * ?t + i mod 64" using q by (metis mult_div_mod_eq)
        have m: "i mod 64 < 64" by simp
        have "bit (ap ! ?t) (i mod 64) \<longleftrightarrow> i mod 64 < ?r \<and> bit x i" using tb [OF m] i' by metis
        moreover have "?r \<le> i mod 64 \<Longrightarrow> bit x i" using sgn [of i] True n i' by linarith
        ultimately show ?thesis using False m sign_mask_bits [OF assms(2), of "i mod 64"] by (auto simp: bit_or_iff)
      qed
      moreover have "wbit ap i \<longleftrightarrow> bit x i" if "i div 64 \<noteq> ?t"
      proof -
        have "i div 64 < ?t + 1" using i nw by (simp add: div_less_iff_less_mult)
        then have "i div 64 + 1 \<le> ?t" using that by linarith
        then have "i < 64 * ?t" using mult_div_mod_eq [of 64 i] mod_less_divisor [of 64 i] by linarith
        then show ?thesis using b [OF i] n by linarith
      qed
      ultimately show ?thesis using True ext by simp
    next
      case neg: False
      then show ?thesis using ext b [OF i] sgn [of i] by (cases "i < n") auto
    qed
  qed
  then show "wval (sign_extend_words n ap) = take_bit (64 * nwords n) x"
    using len by (intro bit_eqI) (auto simp: bit_wval bit_take_bit_iff)
qed

text \<open>The signed number of a vector, its extension to full words, and its magnitude.\<close>

lemma sval4_facts:
  assumes "wf_vec v"
  shows "take_bit (size4 v) (sval4 v) = uval4 v" "signed_take_bit (size4 v - 1) (sval4 v) = sval4 v"
    "- (2 ^ (size4 v - 1)) \<le> sval4 v" "sval4 v < 2 ^ (size4 v - 1)"
proof -
  show "take_bit (size4 v) (sval4 v) = uval4 v" using take_bit_bnum [of "bits4 v" True] by (simp add: bnum_bits4 uval4_def)
  show r: "- (2 ^ (size4 v - 1)) \<le> sval4 v" "sval4 v < 2 ^ (size4 v - 1)"
    using bnum_range [of "bits4 v" True] assms by (simp_all add: bnum_bits4 wf_vec_def)
  then show "signed_take_bit (size4 v - 1) (sval4 v) = sval4 v" by (simp add: signed_take_bit_int_eq_self)
qed

lemma signed_words:
  assumes "wf_vec v" "\<not> list_ex bit4_is_xz (bits4 v)"
  shows "\<exists>ap. subarray v 0 (size4 v) False = Some ap \<and> length (sign_extend_words (size4 v) ap) = nwords (size4 v) \<and>
    wval (sign_extend_words (size4 v) ap) = take_bit (64 * nwords (size4 v)) (sval4 v)"
  using subarray_num [OF assms(1)] assms sval4_facts [OF assms(1)] sign_extend_words_ok [where x = "sval4 v" and n = "size4 v"]
  by (auto simp: wf_vec_def)

lemma magnitude_words:
  assumes "length ws = nwords n" "0 < n" "wval ws = take_bit (64 * nwords n) x" "- (2 ^ (n - 1)) \<le> x" "x < 2 ^ (n - 1)"
  shows "sint (ws ! (nwords n - 1)) < 0 \<longleftrightarrow> x < 0" "length (if x < 0 then negate_words ws else ws) = nwords n"
    "wval (if x < 0 then negate_words ws else ws) = \<bar>x\<bar>"
proof -
  let ?m = "64 * nwords n"
  have m: "n \<le> ?m" by (rule nwords_ge)
  then have p: "(2::int) ^ (n - 1) \<le> 2 ^ (?m - 1)" "(2::int) ^ (?m - 1) < 2 ^ ?m" using assms(2) by (auto intro: power_strict_increasing)
  have "ws \<noteq> []" using assms(1,2) m by auto
  have "signed_take_bit (?m - 1) x = x" using p assms(4,5) by (intro signed_take_bit_int_eq_self) linarith+
  then have "bit x (?m - 1) \<longleftrightarrow> x < 0" by (metis signed_take_bit_negative_iff)
  moreover have "?m - 1 < ?m" using m assms(2) by linarith
  ultimately show "sint (ws ! (nwords n - 1)) < 0 \<longleftrightarrow> x < 0"
    using top_word_sign [OF \<open>ws \<noteq> []\<close>] assms(1,3) by (simp add: bit_take_bit_iff)
  show "length (if x < 0 then negate_words ws else ws) = nwords n" using negate_words_ok(1) [of ws] assms(1) by simp
  have "wval (negate_words ws) = take_bit ?m (- x)" using negate_words_ok(2) [of ws] assms(1,3) by (simp add: take_bit_minus)
  moreover have "take_bit ?m \<bar>x\<bar> = \<bar>x\<bar>" using p assms(4,5) by (intro take_bit_int_eq_self) linarith+
  ultimately show "wval (if x < 0 then negate_words ws else ws) = \<bar>x\<bar>" using assms(3) by (auto simp: abs_if split: if_splits)
qed

lemma clear_top_ok:
  assumes "length ws = nwords n" "0 < n"
  shows "num_bits4 n (wval (ws[nwords n - 1 := ws ! (nwords n - 1) AND NOT (div_sign_mask n)])) = num_bits4 n (wval ws)"
proof -
  let ?t = "nwords n - 1"
  have m: "n \<le> 64 * nwords n" by (rule nwords_ge)
  have t: "?t < nwords n" using m assms(2) by linarith
  have "wbit (ws[?t := ws ! ?t AND NOT (div_sign_mask n)]) i = wbit ws i" if "i < n" for i
  proof (cases "i div 64 = ?t")
    case True
    have "\<not> bit (div_sign_mask n) (i mod 64)"
    proof
      assume "bit (div_sign_mask n) (i mod 64)"
      then have "n mod 64 \<noteq> 0" "n mod 64 \<le> i mod 64" by (simp_all add: sign_mask_bits [OF assms(2)])
      moreover have "i = 64 * ?t + i mod 64" using True by (metis mult_div_mod_eq)
      ultimately show False using that nwords_pad [of n] t by simp
    qed
    then show ?thesis using True t assms(1) by (simp add: wbit_update wbit_def bit_and_iff bit_not_iff)
  next
    case False
    then show ?thesis using t assms(1) by (simp add: wbit_update)
  qed
  then show ?thesis using m assms(1) by (auto simp: num_bits4_def bit_wval)
qed

lemma num_bits4_negate:
  assumes "length ws = nwords n"
  shows "num_bits4 n (wval (negate_words ws)) = num_bits4 n (- wval ws)"
  using nwords_ge [of n] assms by (intro num_bits4_cong) (simp add: negate_words_ok(2) take_bit_take_bit min_absorb1)

lemma div_s_native_ok:
  assumes "wf_vec v" "size4 v \<le> 64" "ap = [word_of_int x]" "bp = [word_of_int y :: ulong]" "y \<noteq> 0"
    and "- (2 ^ (size4 v - 1)) \<le> x" "x < 2 ^ (size4 v - 1)" "- (2 ^ (size4 v - 1)) \<le> y" "y < 2 ^ (size4 v - 1)"
  shows "\<exists>u. (if sint (ap ! 0) = - (2 ^ 63) \<and> sint (bp ! 0) = - 1 then set_bit4 (vector4_fill (size4 v) BIT4_0) (size4 v - 1) BIT4_1
      else setarray v 0 (size4 v) (ap[0 := word_of_int (sint (ap ! 0) sdiv sint (bp ! 0)) AND NOT (div_sign_mask (size4 v))])) = Some u
    \<and> wf_vec u \<and> bits4 u = num_bits4 (size4 v) (x sdiv y)"
proof -
  let ?n = "size4 v"
  have n: "0 < ?n" using assms(1) by (simp add: wf_vec_def)
  have p: "(2::int) ^ (?n - 1) \<le> 2 ^ 63" using assms(2) by (intro power_increasing) auto
  have i: "sint (ap ! 0) = x" "sint (bp ! 0) = y"
    using assms(3-9) p by (simp_all add: sint_sbintrunc' signed_take_bit_int_eq_self)
  show ?thesis
  proof (cases "x = - (2 ^ 63) \<and> y = - 1")
    case True
    then have n64: "?n = 64"
    proof -
      have "\<not> ?n - 1 < 63" using True assms(6) power_strict_increasing [of "?n - 1" 63 "2::int"] by auto
      then show ?thesis using assms(2) by linarith
    qed
    have "x sdiv y = 2 ^ 63" using True by (simp add: sdiv_magnitude)
    moreover have "(replicate 64 BIT4_0)[63 := BIT4_1] = num_bits4 64 (2 ^ 63)" by (simp add: num_bits4_def) code_simp
    ultimately show ?thesis
      using True i n64 set_bit4_ok [of "vector4_fill 64 BIT4_0" 63 BIT4_1] by (auto simp: bits4_fill wf_vec_def)
  next
    case False
    let ?w = "word_of_int (x sdiv y) :: ulong"
    have w1: "nwords ?n = 1" using n assms(2) nwords_two [of ?n] nwords_ge [of ?n] by (cases "nwords ?n") auto
    have "num_bits4 ?n (wval [?w AND NOT (div_sign_mask ?n)]) = num_bits4 ?n (wval [?w])"
      using clear_top_ok [of "[?w]" ?n] w1 n by simp
    also have "\<dots> = num_bits4 ?n (x sdiv y)"
    proof (rule num_bits4_cong)
      have "wval [?w] = take_bit 64 (x sdiv y)" by (simp add: unsigned_of_int)
      then show "take_bit ?n (wval [?w]) = take_bit ?n (x sdiv y)" using assms(2) by (simp only: take_bit_take_bit min_absorb1)
    qed
    finally show ?thesis
      using False i assms(3) w1 setarray_num [OF assms(1), of "[?w AND NOT (div_sign_mask ?n)]"] by auto
  qed
qed

lemma div_s_long_ok:
  assumes "wf_vec v" "64 < size4 v" "length ap = nwords (size4 v)" "length bp = nwords (size4 v)"
    and "wval ap = \<bar>x\<bar>" "wval bp = \<bar>y\<bar>" "div_ok (size4 v) x y"
  shows "\<exists>u. do { r \<leftarrow> divide_bits ap bp (size4 v);
      case r of None \<Rightarrow> Some (x_vec (size4 v))
      | Some (result, _) \<Rightarrow>
          let result = (if (x < 0) \<noteq> (y < 0) then negate_words result else result);
              result = result[nwords (size4 v) - 1 := result ! (nwords (size4 v) - 1) AND NOT (div_sign_mask (size4 v))]
          in setarray v 0 (size4 v) result } = Some u
    \<and> wf_vec u \<and> bits4 u = (if y = 0 then replicate (size4 v) BIT4_X else num_bits4 (size4 v) (x sdiv y))"
proof -
  let ?n = "size4 v"
  have n: "0 < ?n" using assms(1) by (simp add: wf_vec_def)
  have "\<bar>y\<bar> < 2 ^ 64 \<or> ?n \<le> 128 \<and> \<bar>x\<bar> \<le> 2 ^ 127" using assms(2,7) by (auto simp: div_ok_def)
  note d = divide_bits_num [OF assms(3-6,2) this]
  show ?thesis
  proof (cases "y = 0")
    case True
    then show ?thesis using d n by (auto simp: x_vec_ok wf_vec_def)
  next
    case False
    then obtain result rest where r: "divide_bits ap bp ?n = Some (Some (result, rest))" "length result = nwords ?n" "wval result = \<bar>x\<bar> div \<bar>y\<bar>"
      using d by auto
    define s where "s = (if (x < 0) \<noteq> (y < 0) then negate_words result else result)"
    have len: "length s = nwords ?n" using r(2) by (simp add: s_def negate_words_ok(1))
    have "num_bits4 ?n (wval s) = num_bits4 ?n (x sdiv y)"
      using r(3) num_bits4_negate [OF r(2)] by (simp add: s_def sdiv_magnitude)
    then obtain u where "setarray v 0 ?n (s[nwords ?n - 1 := s ! (nwords ?n - 1) AND NOT (div_sign_mask ?n)]) = Some u"
      "wf_vec u" "bits4 u = num_bits4 ?n (x sdiv y)"
      using setarray_num [OF assms(1), of "s[nwords ?n - 1 := s ! (nwords ?n - 1) AND NOT (div_sign_mask ?n)]"] clear_top_ok [OF len n] len
      by auto
    then show ?thesis using False r(1) unfolding s_def by (auto simp: Let_def split del: if_split)
  qed
qed

lemma words_one: "length ws = 1 \<Longrightarrow> wval ws = take_bit (64 * 1) x \<Longrightarrow> ws = [word_of_int x]"
  by (auto simp: length_Suc_conv intro!: word_uint_eqI simp: unsigned_of_int)

lemma div_s_vec4_ok:
  assumes "wf_vec a" "wf_vec b" "size4 b = size4 a"
    and "\<not> list_ex bit4_is_xz (bits4 a @ bits4 b) \<Longrightarrow> div_ok (size4 a) (sval4 a) (sval4 b)"
  shows "\<exists>u. div_s_vec4 a b = Some u \<and> wf_vec u \<and> bits4 u = arith_fn tdiv_fn (size4 a) True (bits4 a) (bits4 b)"
proof (cases "list_ex bit4_is_xz (bits4 a @ bits4 b)")
  case True
  then have "div_s_vec4 a b = Some (x_vec (size4 a))"
    using subarray_num [OF assms(1)] subarray_num [OF assms(2)] assms(3) by (auto simp: div_s_vec4_def Let_def split: if_splits)
  then show ?thesis using True assms(1) by (simp add: arith_fn_def x_vec_ok wf_vec_def)
next
  case False
  let ?n = "size4 a" and ?x = "sval4 a" and ?y = "sval4 b"
  note dok = assms(4) [OF False]
  have n: "0 < ?n" using assms(1) by (simp add: wf_vec_def)
  obtain ap0 bp0 where 0: "subarray a 0 ?n False = Some ap0" "subarray b 0 ?n False = Some bp0"
    and ext: "length (sign_extend_words ?n ap0) = nwords ?n" "wval (sign_extend_words ?n ap0) = take_bit (64 * nwords ?n) ?x"
      "length (sign_extend_words ?n bp0) = nwords ?n" "wval (sign_extend_words ?n bp0) = take_bit (64 * nwords ?n) ?y"
    using signed_words [OF assms(1)] signed_words [OF assms(2)] False assms(3) by auto
  define ap bp where "ap = sign_extend_words ?n ap0" and "bp = sign_extend_words ?n bp0"
  note ab = ext [folded ap_def bp_def]
  note r = sval4_facts(3,4) [OF assms(1)] sval4_facts(3,4) [OF assms(2), unfolded assms(3)]
  have spec: "arith_fn tdiv_fn ?n True (bits4 a) (bits4 b) = (if ?y = 0 then replicate ?n BIT4_X else num_bits4 ?n (?x sdiv ?y))"
    using False by (simp add: arith_fn_def tdiv_fn_def bnum_bits4)
  show ?thesis
  proof (cases "?n \<le> 64")
    case True
    have w1: "nwords ?n = 1" using n True nwords_two [of ?n] nwords_ge [of ?n] by (cases "nwords ?n") auto
    have one: "ap = [word_of_int ?x]" "bp = [word_of_int ?y]" using words_one ab w1 by metis+
    have p: "(2::int) ^ (?n - 1) \<le> 2 ^ 63" using True by (intro power_increasing) auto
    have "div_s_vec4 a b = (if bp ! 0 = 0 then Some (x_vec ?n)
        else if sint (ap ! 0) = - (2 ^ 63) \<and> sint (bp ! 0) = - 1 then set_bit4 (vector4_fill ?n BIT4_0) (?n - 1) BIT4_1
        else setarray a 0 ?n (ap[0 := word_of_int (sint (ap ! 0) sdiv sint (bp ! 0)) AND NOT (div_sign_mask ?n)]))"
      using 0 True assms(3) unfolding ap_def bp_def by (simp add: div_s_vec4_def Let_def)
    moreover have "bp ! 0 = 0 \<longleftrightarrow> ?y = 0"
    proof -
      have "sint (bp ! 0) = ?y" using one(2) r p by (simp add: sint_sbintrunc' signed_take_bit_int_eq_self)
      then show ?thesis by (metis signed_eq_0_iff)
    qed
    ultimately show ?thesis
      using div_s_native_ok [OF assms(1) True one _ r] spec n by (auto simp: x_vec_ok wf_vec_def)
  next
    case False
    note ma = magnitude_words [OF ab(1) n ab(2) r(1,2)]
    note mb = magnitude_words [OF ab(3) n ab(4) r(3,4)]
    have run: "div_s_vec4 a b = do { r \<leftarrow> divide_bits (if ?x < 0 then negate_words ap else ap) (if ?y < 0 then negate_words bp else bp) ?n;
      case r of None \<Rightarrow> Some (x_vec ?n)
      | Some (result, _) \<Rightarrow>
          let result = (if (?x < 0) \<noteq> (?y < 0) then negate_words result else result);
              result = result[nwords ?n - 1 := result ! (nwords ?n - 1) AND NOT (div_sign_mask ?n)]
          in setarray a 0 ?n result }"
      using 0 False assms(3) ma(1) mb(1) unfolding ap_def bp_def div_s_vec4_def Let_def
      by (cases "?x < 0"; cases "?y < 0"; simp cong: option.case_cong)
    have "64 < ?n" using False by simp
    then show ?thesis unfolding run spec by (rule div_s_long_ok [OF assms(1) _ ma(2) mb(2) ma(3) mb(3) dok])
  qed
qed

section \<open>The modulus of long operands\<close>

text \<open>Lists of the numbers 0 and 1, the lowest bit first.\<close>

definition okb :: "nat list \<Rightarrow> bool" where "okb bs = list_all (\<lambda>b. b \<le> 1) bs"
definition bval :: "nat list \<Rightarrow> int" where "bval bs = horner_sum int 2 bs"

interpretation b3: digit_adder add_bits3 int "\<lambda>b. b \<le> 1" 2
  by unfold_locales (auto simp: add_bits3_def Let_def le_Suc_eq)

lemma bval_append: "bval (xs @ ys) = bval xs + 2 ^ length xs * bval ys"
  by (simp add: bval_def horner_sum_append)

lemma bval_ubits: "okb bs \<Longrightarrow> bval bs = ubits (map (\<lambda>b. b \<noteq> 0) bs)"
  by (induction bs) (auto simp: okb_def bval_def ubits_def le_Suc_eq)

lemma bit_bval: "okb bs \<Longrightarrow> bit (bval bs) i \<longleftrightarrow> i < length bs \<and> bs ! i \<noteq> 0"
  by (auto simp: bval_ubits bit_ubits)

lemma bval_bounds: "okb bs \<Longrightarrow> 0 \<le> bval bs" "okb bs \<Longrightarrow> bval bs < 2 ^ length bs"
proof -
  assume ok: "okb bs"
  then have "take_bit (length bs) (bval bs) = bval bs" by (intro bit_eqI) (auto simp: bit_take_bit_iff bit_bval)
  then show "0 \<le> bval bs" "bval bs < 2 ^ length bs" by (metis take_bit_nonnegative, metis take_bit_int_less_exp)
qed

lemma okb_complement: "okb bs \<Longrightarrow> okb (map (\<lambda>b. 1 - b) bs)"
  by (simp add: okb_def list_all_iff)

lemma bval_complement: "okb bs \<Longrightarrow> bval (map (\<lambda>b. 1 - b) bs) = 2 ^ length bs - 1 - bval bs"
  by (induction bs) (auto simp: okb_def bval_def of_nat_diff algebra_simps)

lemma negate_bits_ok:
  assumes "okb bs" "carry \<le> 1"
  shows "length (negate_bits carry bs) = length bs \<and> okb (negate_bits carry bs) \<and>
    (\<exists>k. bval (negate_bits carry bs) = 2 ^ length bs * k - bval bs - 1 + int carry)"
  using assms
proof (induction bs arbitrary: carry)
  case (Cons b bs)
  let ?x = "(1 - b) + carry"
  define c where "c = (if ?x \<ge> 2 then 1 else 0 :: nat)"
  have b: "b \<le> 1" and bs: "okb bs" using Cons.prems(1) by (simp_all add: okb_def)
  have x: "int (?x mod 2) + 2 * int c = 1 - int b + int carry" using b Cons.prems(2) by (auto simp: c_def le_Suc_eq)
  have c1: "c \<le> 1" by (simp add: c_def)
  obtain k where k: "length (negate_bits c bs) = length bs" "okb (negate_bits c bs)"
    "bval (negate_bits c bs) = 2 ^ length bs * k - bval bs - 1 + int c"
    using Cons.IH [OF bs c1] by auto
  have eq: "negate_bits carry (b # bs) = ?x mod 2 # negate_bits c bs" by (simp add: Let_def c_def)
  then have "bval (negate_bits carry (b # bs)) = int (?x mod 2) + 2 * bval (negate_bits c bs)" by (simp add: bval_def)
  also have "\<dots> = 2 ^ length (b # bs) * k - bval (b # bs) - 1 + int carry" using k(3) x by (simp add: bval_def algebra_simps)
  finally show ?case using k(1,2) unfolding eq by (auto simp: okb_def)
qed (simp add: okb_def bval_def, presburger)

lemma mod_bits_ok:
  assumes "okb bs"
  shows "length (mod_bits neg bs) = length bs" "okb (mod_bits neg bs)"
    "bval (mod_bits neg bs) = take_bit (length bs) (if neg then - bval bs else bval bs)"
proof -
  obtain k where k: "length (negate_bits 1 bs) = length bs" "okb (negate_bits 1 bs)" "bval (negate_bits 1 bs) = 2 ^ length bs * k - bval bs"
    using negate_bits_ok [OF assms, of 1] by auto
  show "length (mod_bits neg bs) = length bs" "okb (mod_bits neg bs)" using k assms by (simp_all add: mod_bits_def)
  then have "bval (mod_bits neg bs) = take_bit (length bs) (bval (mod_bits neg bs))"
    using bval_bounds [of "mod_bits neg bs"] by (simp add: take_bit_int_eq_self)
  also have "\<dots> = take_bit (length bs) (if neg then - bval bs else bval bs)"
    using k(3) by (simp add: mod_bits_def take_bit_eq_mod) (metis mod_mult_self2 mult.commute uminus_add_conv_diff)
  finally show "bval (mod_bits neg bs) = take_bit (length bs) (if neg then - bval bs else bval bs)" .
qed

lemma top_index_ok:
  "case top_index p len of None \<Rightarrow> \<forall>j < len. \<not> p j | Some i \<Rightarrow> i < len \<and> p i \<and> (\<forall>j < len. i < j \<longrightarrow> \<not> p j)"
proof (induction len)
  case (Suc n)
  then show ?case by (auto simp: top_index_def less_Suc_eq split: list.splits option.splits)
qed (simp add: top_index_def)

lemma top_bit_bounds:
  assumes "0 \<le> (x::int)" "bit x i" "\<And>j. i < j \<Longrightarrow> \<not> bit x j"
  shows "2 ^ i \<le> x" "x < 2 ^ (i + 1)"
proof -
  have "take_bit (i + 1) x = x" using assms(3) by (intro bit_eqI) (metis bit_take_bit_iff Suc_eq_plus1 not_less_eq)
  then show "x < 2 ^ (i + 1)" by (metis take_bit_int_less_exp)
  show "2 ^ i \<le> x"
  proof (rule ccontr)
    assume "\<not> 2 ^ i \<le> x"
    then have "take_bit i x = x" using assms(1) by (simp add: take_bit_int_eq_self)
    then show False using assms(2) by (metis bit_take_bit_iff less_irrefl)
  qed
qed

text \<open>One pass subtracts the shifted divisor if it is not larger than what is left.\<close>

lemma mod_pass_ok:
  assumes z: "okb z" "current + copylen \<le> length z"
    and a: "okb a" "length a = copylen" "bval a = 2 ^ copylen - 1 - D"
    and inv: "0 < D" "2 * D \<le> 2 ^ copylen" "bval z < 2 ^ (current + 1) * D"
    and run: "carry_run add_bits3 (take copylen (drop current z)) a 1 = (t, carry)"
    and z': "z' = (if carry \<noteq> 0 then take current z @ t @ drop (current + copylen) z else z)"
  shows "okb z' \<and> length z' = length z \<and> bval z' mod D = bval z mod D \<and> bval z' < 2 ^ current * D"
proof -
  define lo mid hi where "lo = take current z" and "mid = take copylen (drop current z)" and "hi = drop (current + copylen) z"
  have parts: "z = lo @ mid @ hi" 
  proof -
    have "mid @ hi = drop current z" unfolding mid_def hi_def by (metis append_take_drop_id drop_drop add.commute)
    then show ?thesis by (simp add: lo_def)
  qed
  have ok: "okb lo" "okb mid" "okb hi" and len: "length lo = current" "length mid = copylen"
    using z unfolding lo_def mid_def hi_def by (auto simp: okb_def list_all_iff dest: in_set_takeD in_set_dropD)
  have val: "bval z = bval lo + 2 ^ current * (bval mid + 2 ^ copylen * bval hi)" using parts len by (simp add: bval_append)
  have "2 ^ current * (2 ^ copylen * bval hi) \<le> bval z" using val bval_bounds(1) ok by (simp add: algebra_simps)
  also have "\<dots> < 2 ^ (current + 1) * D" by (rule inv(3))
  also have "\<dots> \<le> 2 ^ current * 2 ^ copylen" using inv(2) by simp
  finally have hi0: "bval hi = 0" using bval_bounds(1) [OF ok(3)] by simp
  have bl: "0 \<le> bval lo" "bval lo < 2 ^ current" using bval_bounds [OF ok(1)] len by simp_all
  have "2 ^ current * bval mid \<le> bval z" using val hi0 bl by simp
  then have "2 ^ current * bval mid < 2 ^ (current + 1) * D" using inv(3) by linarith
  then have "2 ^ current * bval mid < 2 ^ current * (2 * D)" by (simp only: power_add power_one_right mult.assoc)
  then have m2: "bval mid < 2 * D" by simp
  have t: "length t = copylen" "okb t" "carry \<le> 1" "bval t + 2 ^ copylen * int carry = bval mid + 2 ^ copylen - D"
    using b3.carry_run_law [OF _ _ _ _ _ run] ok len a by (simp_all add: okb_def bval_def mid_def)
  show ?thesis
  proof (cases "carry = 0")
    case True
    have "bval t < 2 ^ copylen" using bval_bounds(2) [OF t(2)] t(1) by simp
    then have "bval mid + 1 \<le> D" using t(4) True by simp
    then have "2 ^ current * (bval mid + 1) \<le> 2 ^ current * D" by simp
    then have "bval z < 2 ^ current * D" using val hi0 bl by (simp add: algebra_simps)
    then show ?thesis using True z' z by simp
  next
    case False
    then have c: "carry = 1" using t(3) by simp
    have "z' = lo @ t @ hi" using z' False by (simp add: lo_def hi_def)
    then have v': "bval z' = bval lo + 2 ^ current * bval t" "okb z'" "length z' = length z"
      using hi0 len t(1,2) ok parts by (simp_all add: bval_append okb_def)
    have bt: "bval t = bval mid - D" using t(4) c by simp
    have "bval z' = bval z + (- (2 ^ current)) * D" using v'(1) val hi0 unfolding bt by (simp add: algebra_simps)
    then have "bval z' mod D = bval z mod D" by (metis mod_mult_self1)
    moreover have "2 ^ current * (bval t + 1) \<le> 2 ^ current * D" using bt m2 by simp
    then have "bval z' < 2 ^ current * D" using v'(1) bl by (simp add: algebra_simps)
    ultimately show ?thesis using v' by simp
  qed
qed

lemma mod_passes_ok:
  assumes "okb z" "current + copylen \<le> length z + 1" "okb a" "copylen \<le> length a" "bval (take copylen a) = 2 ^ copylen - 1 - D"
    and "0 < D" "2 * D \<le> 2 ^ copylen" "bval z < 2 ^ current * D"
  shows "okb (mod_passes a copylen current z) \<and> length (mod_passes a copylen current z) = length z \<and>
    bval (mod_passes a copylen current z) = bval z mod D"
  using assms
proof (induction current arbitrary: z)
  case 0
  then show ?case using bval_bounds(1) [of z] by simp
next
  case (Suc current)
  obtain t carry where run: "carry_run add_bits3 (take copylen (drop current z)) (take copylen a) 1 = (t, carry)" by fastforce
  define z' where "z' = (if carry \<noteq> 0 then take current z @ t @ drop (current + copylen) z else z)"
  have a: "okb (take copylen a)" "length (take copylen a) = copylen" using Suc.prems(3,4) by (auto simp: okb_def list_all_iff dest: in_set_takeD)
  have "okb z' \<and> length z' = length z \<and> bval z' mod D = bval z mod D \<and> bval z' < 2 ^ current * D"
    using Suc.prems by (intro mod_pass_ok [OF _ _ a _ _ _ _ run z'_def]) simp_all
  then show ?case using Suc.IH [of z'] Suc.prems(2-7) run by (simp add: z'_def)
qed

lemma operand_bits:
  assumes "\<not> list_ex bit4_is_xz (bits4 v)"
  shows "okb (map (\<lambda>idx. bit4_int (value4 v idx)) [0..<size4 v])" "bval (map (\<lambda>idx. bit4_int (value4 v idx)) [0..<size4 v]) = uval4 v"
proof -
  have k: "value4 v i = BIT4_0 \<or> value4 v i = BIT4_1" if "i < size4 v" for i
    using assms that nth_value4 [of i v] by (cases "value4 v i") (auto simp: list_ex_length bit4_is_xz_def)
  then show ok: "okb (map (\<lambda>idx. bit4_int (value4 v idx)) [0..<size4 v])" by (fastforce simp: okb_def list_all_iff)
  show "bval (map (\<lambda>idx. bit4_int (value4 v idx)) [0..<size4 v]) = uval4 v"
    using k by (intro bit_eqI) (fastforce simp: bit_bval [OF ok] bit_uval4)
qed

text \<open>The remainder that the passes leave, for a divisor that is not zero.\<close>

lemma verylong_rest_ok:
  assumes "okb x" "okb y" "length x = n" "length y = n" "top_index (\<lambda>i. y ! i \<noteq> 0) n = Some mxa"
    and z: "z = (case top_index (\<lambda>i. (x @ [0]) ! i \<noteq> 0) n of
        None \<Rightarrow> x @ [0]
      | Some mxz \<Rightarrow> if mxa > mxz then x @ [0] else mod_passes (map (\<lambda>b. 1 - b) y @ [1]) (mxa + 2) (mxz - mxa + 1) (x @ [0]))"
  shows "okb (take n z) \<and> length z = n + 1 \<and> bval (take n z) = bval x mod bval y \<and> 0 < bval y"
proof -
  let ?a = "map (\<lambda>b. 1 - b) y @ [1]" and ?x = "x @ [0]" and ?D = "bval y"
  have okx: "okb ?x" "bval ?x = bval x" "length ?x = n + 1" using assms(1,3) bval_append [of x "[0]"] by (simp_all add: okb_def bval_def)
  have mxa: "mxa < n" "y ! mxa \<noteq> 0" "\<And>j. j < n \<Longrightarrow> mxa < j \<Longrightarrow> y ! j = 0"
    using top_index_ok [where p = "\<lambda>i. y ! i \<noteq> 0" and len = n] assms(5) by auto
  have D: "2 ^ mxa \<le> ?D" "?D < 2 ^ (mxa + 1)"
    using top_bit_bounds [OF bval_bounds(1) [OF assms(2)], of mxa] mxa assms(2,4) by (auto simp: bit_bval)
  have pos: "0 < ?D" using D(1) by (meson less_le_trans zero_less_numeral zero_less_power)
  have small: "bval w = bval x mod ?D" if "bval w = bval x" "bval x < ?D" for w using that bval_bounds(1) [OF assms(1)] by simp
  have fin: "okb (take n w) \<and> bval (take n w) = bval w" if w: "okb w" "length w = n + 1" "bval w < ?D" for w
  proof -
    have lt: "bval w < 2 ^ n" using w(3) bval_bounds(2) [OF assms(2)] assms(4) by simp
    have sp: "bval w = bval (take n w) + 2 ^ n * bval (drop n w)" using bval_append [of "take n w" "drop n w"] w(2) by simp
    have ok: "okb (take n w)" "okb (drop n w)" using w(1) by (auto simp: okb_def list_all_iff dest: in_set_takeD in_set_dropD)
    have "2 ^ n * bval (drop n w) < 2 ^ n * 1" using lt sp bval_bounds(1) [OF ok(1)] by linarith
    then have "bval (drop n w) < 1" by (simp only: mult_less_cancel_left_pos zero_less_power zero_less_numeral)
    then show ?thesis using sp ok bval_bounds(1) [OF ok(2)] by simp
  qed
  show ?thesis
  proof (cases "top_index (\<lambda>i. ?x ! i \<noteq> 0) n")
    case None
    then have "\<not> bit (bval x) i" for i
      using top_index_ok [where p = "\<lambda>i. ?x ! i \<noteq> 0" and len = n] assms(1,3) by (auto simp: bit_bval nth_append)
    then have "bval x = 0" by (intro bit_eqI) simp
    then show ?thesis using None z okx pos fin [of ?x] by simp
  next
    case (Some mxz)
    then have mxz: "mxz < n" "x ! mxz \<noteq> 0" "\<And>j. j < n \<Longrightarrow> mxz < j \<Longrightarrow> x ! j = 0"
      using top_index_ok [where p = "\<lambda>i. ?x ! i \<noteq> 0" and len = n] assms(3) by (auto simp: nth_append)
    have X: "bval x < 2 ^ (mxz + 1)"
      using top_bit_bounds(2) [OF bval_bounds(1) [OF assms(1)], of mxz] mxz assms(1,3) by (auto simp: bit_bval)
    show ?thesis
    proof (cases "mxa > mxz")
      case True
      then have "(2::int) ^ (mxz + 1) \<le> 2 ^ mxa" by (intro power_increasing) auto
      then have "bval x < ?D" using X D by linarith
      then show ?thesis using Some True z okx pos fin [of ?x] bval_bounds(1) [OF assms(1)] by simp
    next
      case False
      have oka: "okb ?a" using okb_complement [OF assms(2)] by (simp add: okb_def)
      have "bval (take (mxa + 2) ?a) = 2 ^ (mxa + 2) - 1 - ?D"
      proof -
        have "take (mxa + 2) ?a = map (\<lambda>b. 1 - b) (take (mxa + 2) (y @ [0]))" by (simp flip: take_map)
        moreover have "okb (take (mxa + 2) (y @ [0]))" using assms(2) by (auto simp: okb_def list_all_iff dest: in_set_takeD)
        moreover have "bval (take (mxa + 2) (y @ [0])) = ?D"
          using calculation(2) assms(2,4) mxa by (intro bit_eqI) (auto simp: bit_bval nth_append)
        moreover have "length (take (mxa + 2) (y @ [0])) = mxa + 2" using mxa(1) assms(4) by simp
        ultimately show ?thesis using bval_complement by metis
      qed
      moreover have "2 * ?D \<le> 2 ^ (mxa + 2)" using D(2) by simp
      moreover have "bval ?x < 2 ^ (mxz - mxa + 1) * ?D"
      proof -
        have "(2::int) ^ (mxz + 1) = 2 ^ (mxz - mxa + 1) * 2 ^ mxa" using False by (simp flip: power_add)
        also have "\<dots> \<le> 2 ^ (mxz - mxa + 1) * ?D" using D(1) by simp
        finally show ?thesis using X okx(2) by linarith
      qed
      ultimately have "okb z \<and> length z = n + 1 \<and> bval z = bval x mod ?D"
        using mod_passes_ok [OF okx(1) _ oka, of "mxz - mxa + 1" "mxa + 2" ?D] mxa(1) mxz(1) False pos assms(3,4) okx z Some by simp
      then show ?thesis using fin [of z] pos by simp
    qed
  qed
qed

lemma set_loop_bits:
  assumes "wf4 v" "size4 v = n"
  shows "\<exists>u. set_loop set_bit4 0 f n v = Some u \<and> wf4 u \<and> size4 u = n \<and> bits4 u = map f [0..<n]"
  using v4.set_loop_ok [of v 0 n f] assms by auto

lemma do_verylong_mod_ok:
  assumes "wf_vec a" "wf_vec b" "size4 b = size4 a"
    and X: "X = take_bit (size4 a) (if ln then - uval4 a else uval4 a)" and Y: "Y = take_bit (size4 a) (if rn then - uval4 b else uval4 b)"
  shows "\<exists>u. do_verylong_mod a b ln rn = Some u \<and> wf_vec u \<and>
    bits4 u = (if list_ex bit4_is_xz (bits4 a @ bits4 b) \<or> Y = 0 then replicate (size4 a) BIT4_X
      else num_bits4 (size4 a) (if ln then - (X mod Y) else X mod Y))"
proof -
  let ?n = "size4 a"
  define lb rb where "lb = map (\<lambda>idx. bit4_int (value4 a idx)) [0..<?n]" and "rb = map (\<lambda>idx. bit4_int (value4 b idx)) [0..<?n]"
  have xz: "list_ex (\<lambda>b. b \<ge> 2) (lb @ rb) \<longleftrightarrow> list_ex bit4_is_xz (bits4 a @ bits4 b)"
    using assms(3) by (auto simp: lb_def rb_def bits4_map_value list_ex_iff bit4_is_xz_def)
  have wx: "wf_vec (x_vec ?n)" using assms(1) by (simp add: x_vec_ok wf_vec_def)
  show ?thesis
  proof (cases "list_ex bit4_is_xz (bits4 a @ bits4 b)")
    case True
    then have "do_verylong_mod a b ln rn = Some (x_vec ?n)" using xz unfolding lb_def rb_def by (simp add: do_verylong_mod_def Let_def)
    then show ?thesis using True wx by (simp add: x_vec_ok)
  next
    case False
    define x y where "x = mod_bits ln lb" and "y = mod_bits rn rb"
    have x: "length x = ?n" "okb x" "bval x = X" using mod_bits_ok [of lb ln] operand_bits [of a] False X by (simp_all add: x_def lb_def)
    have y: "length y = ?n" "okb y" "bval y = Y" using mod_bits_ok [of rb rn] operand_bits [of b] False Y assms(3) by (simp_all add: y_def rb_def)
    have top: "top_index (\<lambda>i. (map (\<lambda>b. 1 - b) y @ [1]) ! i = 0) ?n = top_index (\<lambda>i. y ! i \<noteq> 0) ?n"
    proof -
      have "filter (\<lambda>i. (map (\<lambda>b. 1 - b) y @ [1]) ! i = 0) (rev [0..<?n]) = filter (\<lambda>i. y ! i \<noteq> 0) (rev [0..<?n])"
        using y(1) by (intro filter_cong) (auto simp: nth_append)
      then show ?thesis by (simp add: top_index_def)
    qed
    define z where "z = (\<lambda>mxa. case top_index (\<lambda>i. (x @ [0]) ! i \<noteq> 0) ?n of
        None \<Rightarrow> x @ [0]
      | Some mxz \<Rightarrow> if mxa > mxz then x @ [0] else mod_passes (map (\<lambda>b. 1 - b) y @ [1]) (mxa + 2) (mxz - mxa + 1) (x @ [0]))"
    have "do_verylong_mod a b ln rn = (if list_ex (\<lambda>b. b \<ge> 2) (lb @ rb) then Some (x_vec ?n)
      else case top_index (\<lambda>i. (map (\<lambda>b. 1 - b) y @ [1]) ! i = 0) ?n of None \<Rightarrow> Some (x_vec ?n)
      | Some mxa \<Rightarrow> set_loop set_bit4 0 (\<lambda>idx. if mod_bits ln (take ?n (z mxa)) ! idx \<noteq> 0 then BIT4_1 else BIT4_0) ?n (x_vec ?n))"
      unfolding do_verylong_mod_def Let_def z_def x_def y_def lb_def rb_def by (rule refl)
    then have run: "do_verylong_mod a b ln rn = (case top_index (\<lambda>i. y ! i \<noteq> 0) ?n of None \<Rightarrow> Some (x_vec ?n)
      | Some mxa \<Rightarrow> set_loop set_bit4 0 (\<lambda>idx. if mod_bits ln (take ?n (z mxa)) ! idx \<noteq> 0 then BIT4_1 else BIT4_0) ?n (x_vec ?n))"
      unfolding top using False xz by (simp only: if_False)
    show ?thesis
    proof (cases "top_index (\<lambda>i. y ! i \<noteq> 0) ?n")
      case None
      then have "\<not> bit Y i" for i using top_index_ok [where p = "\<lambda>i. y ! i \<noteq> 0" and len = ?n] y by (auto simp: bit_bval simp flip: y(3))
      then have "Y = 0" by (intro bit_eqI) simp
      then show ?thesis using None run wx by (simp add: x_vec_ok)
    next
      case (Some mxa)
      note r = verylong_rest_ok [OF x(2) y(2) x(1) y(1) Some fun_cong [OF z_def]]
      define ob where "ob = mod_bits ln (take ?n (z mxa))"
      have ob: "okb ob" "bval ob = take_bit ?n (if ln then - (X mod Y) else X mod Y)" "length ob = ?n"
        using mod_bits_ok [of "take ?n (z mxa)" ln] r x(3) y(3) by (simp_all add: ob_def)
      obtain u where u: "set_loop set_bit4 0 (\<lambda>idx. if ob ! idx \<noteq> 0 then BIT4_1 else BIT4_0) ?n (x_vec ?n) = Some u" "wf4 u" "size4 u = ?n"
        "bits4 u = map (\<lambda>idx. if ob ! idx \<noteq> 0 then BIT4_1 else BIT4_0) [0..<?n]"
        using set_loop_bits [of "x_vec ?n" ?n] by (fastforce simp: x_vec_ok)
      have "bits4 u = num_bits4 ?n (bval ob)" using u(4) ob(1,3) by (simp add: num_bits4_def bit_bval)
      also have "\<dots> = num_bits4 ?n (if ln then - (X mod Y) else X mod Y)" using ob(2) by (intro num_bits4_cong) simp
      finally show ?thesis using u(1-3) run Some False r y(3) assms(1) by (simp add: wf_vec_def flip: ob_def)
    qed
  qed
qed

section \<open>The modulus opcodes\<close>

definition tmod_fn :: "int \<Rightarrow> int \<Rightarrow> int option" where
  "tmod_fn x y = (if y = 0 then None else Some (x smod y))"

lemma native_operands_loop_ok:
  assumes "idx + n \<le> 64"
  shows "if \<exists>i. idx \<le> i \<and> i < idx + n \<and> (bit4_is_xz (value4 a i) \<or> bit4_is_xz (value4 b i)) then native_operands_loop a b n idx lv rv = None
    else \<exists>l r. native_operands_loop a b n idx lv rv = Some (l, r) \<and>
      (\<forall>j. bit l j \<longleftrightarrow> bit lv j \<or> idx \<le> j \<and> j < idx + n \<and> one4 (value4 a j)) \<and>
      (\<forall>j. bit r j \<longleftrightarrow> bit rv j \<or> idx \<le> j \<and> j < idx + n \<and> one4 (value4 b j))"
  using assms
proof (induction n arbitrary: idx lv rv)
  case (Suc n)
  let ?la = "value4 a idx" and ?rb = "value4 b idx"
  have i64: "idx < 64" using Suc.prems by simp
  have step: "idx \<le> j \<and> j < idx + Suc n \<longleftrightarrow> j = idx \<or> idx + 1 \<le> j \<and> j < idx + 1 + n" for j by auto
  have here: "(\<exists>i. idx \<le> i \<and> i < idx + Suc n \<and> P i) \<longleftrightarrow> P idx \<or> (\<exists>i. idx + 1 \<le> i \<and> i < idx + 1 + n \<and> P i)" for P
    unfolding conj_assoc [symmetric] step by blast
  show ?case
  proof (cases "bit4_is_xz ?la \<or> bit4_is_xz ?rb")
    case True
    then show ?thesis by (auto simp: Let_def bit4_is_xz_def)
  next
    case False
    have b: "bit (w OR ul_shl (of_nat (bit4_int v)) idx) j \<longleftrightarrow> bit w j \<or> j = idx \<and> one4 v" if "\<not> bit4_is_xz v" for w :: ulong and v j
      using that i64 by (cases v) (auto simp: bit_or_iff bit_ul_shl bit4_is_xz_def bit_1_iff)
    have run: "native_operands_loop a b (Suc n) idx lv rv =
        native_operands_loop a b n (idx + 1) (lv OR ul_shl (of_nat (bit4_int ?la)) idx) (rv OR ul_shl (of_nat (bit4_int ?rb)) idx)"
      using False by (simp add: Let_def bit4_is_xz_def)
    show ?thesis
      using Suc.IH [of "idx + 1" "lv OR ul_shl (of_nat (bit4_int ?la)) idx" "rv OR ul_shl (of_nat (bit4_int ?rb)) idx"] Suc.prems False b
      unfolding run here by (auto simp: step not_less_eq_eq dest: le_antisym split: if_splits)
  qed
qed auto

lemma native_operands_num:
  assumes "wf_vec a" "wf_vec b" "size4 b = size4 a" "size4 a \<le> 64"
  shows "native_operands_loop a b (size4 a) 0 0 0 = (if list_ex bit4_is_xz (bits4 a @ bits4 b) then None
    else Some (word_of_int (uval4 a), word_of_int (uval4 b)))"
proof -
  have xz: "(\<exists>i. 0 \<le> i \<and> i < 0 + size4 a \<and> (bit4_is_xz (value4 a i) \<or> bit4_is_xz (value4 b i))) \<longleftrightarrow> list_ex bit4_is_xz (bits4 a @ bits4 b)"
    using assms(3) by (auto simp: bits4_map_value list_ex_iff)
  have w: "l = word_of_int (uval4 v)" if "\<forall>j. bit l j \<longleftrightarrow> bit (0::ulong) j \<or> 0 \<le> j \<and> j < 0 + size4 a \<and> one4 (value4 v j)" "size4 v = size4 a" for l v
    using that assms(4) by (intro bit_word_eqI) (auto simp: bit_word_of_int_iff bit_uval4)
  show ?thesis
  proof (cases "list_ex bit4_is_xz (bits4 a @ bits4 b)")
    case True
    then show ?thesis using native_operands_loop_ok [of 0 "size4 a" a b 0 0] assms(4) unfolding xz by simp
  next
    case False
    then obtain l r where run: "native_operands_loop a b (size4 a) 0 0 0 = Some (l, r)"
      and l: "\<forall>j. bit l j \<longleftrightarrow> bit (0::ulong) j \<or> 0 \<le> j \<and> j < 0 + size4 a \<and> one4 (value4 a j)"
      and r: "\<forall>j. bit r j \<longleftrightarrow> bit (0::ulong) j \<or> 0 \<le> j \<and> j < 0 + size4 a \<and> one4 (value4 b j)"
      using native_operands_loop_ok [of 0 "size4 a" a b 0 0] assms(4) unfolding xz by auto
    then show ?thesis using False w [OF l refl] w [OF r assms(3)] by simp
  qed
qed

lemma num_bits4_word: "n \<le> 64 \<Longrightarrow> map (\<lambda>idx. if bit (w::ulong) idx then BIT4_1 else BIT4_0) [0..<n] = num_bits4 n (uint w)"
  by (simp add: num_bits4_def bit_uint_iff)

lemma mod_vec4_ok:
  assumes "wf_vec a" "wf_vec b" "size4 b = size4 a"
  shows "\<exists>u. mod_vec4 a b = Some u \<and> wf_vec u \<and> bits4 u = arith_fn tmod_fn (size4 a) False (bits4 a) (bits4 b)"
proof -
  let ?n = "size4 a" and ?x = "uval4 a" and ?y = "uval4 b"
  have wx: "wf_vec (x_vec ?n)" using assms(1) by (simp add: x_vec_ok wf_vec_def)
  have bnd: "0 \<le> ?x" "?x < 2 ^ ?n" "0 \<le> ?y" "?y < 2 ^ ?n" using uval4_bounds [of a] uval4_bounds [of b] assms(3) by simp_all
  have spec: "arith_fn tmod_fn ?n False (bits4 a) (bits4 b) =
      (if list_ex bit4_is_xz (bits4 a @ bits4 b) \<or> ?y = 0 then replicate ?n BIT4_X else num_bits4 ?n (?x mod ?y))"
    using bnd by (auto simp: arith_fn_def tmod_fn_def bnum_bits4 smod_magnitude)
  show ?thesis
  proof (cases "?n \<le> 64")
    case True
    have p: "(2::int) ^ ?n \<le> 2 ^ 64" using True by (intro power_increasing) auto
    have u: "uint (word_of_int ?x :: ulong) = ?x" "uint (word_of_int ?y :: ulong) = ?y"
      using bnd p by (simp_all add: unsigned_of_int take_bit_int_eq_self)
    have m: "num_bits4 ?n (?x mod ?y) = map (\<lambda>idx. if bit (word_of_int ?x mod word_of_int ?y :: ulong) idx then BIT4_1 else BIT4_0) [0..<?n]"
      using u by (simp add: num_bits4_word [OF True] uint_mod)
    have z: "(word_of_int ?y :: ulong) = 0 \<longleftrightarrow> ?y = 0" using u by (metis uint_0_iff)
    show ?thesis
      using native_operands_num [OF assms True] set_loop_bits [of a ?n] assms wx spec True m z
      by (fastforce simp: mod_vec4_def Let_def x_vec_ok wf_vec_def)
  next
    case False
    have "take_bit ?n ?x = ?x" "take_bit ?n ?y = ?y" using bnd by (simp_all add: take_bit_int_eq_self)
    then obtain u where "do_verylong_mod a b False False = Some u" "wf_vec u" "bits4 u = arith_fn tmod_fn ?n False (bits4 a) (bits4 b)"
      using do_verylong_mod_ok [OF assms, of ?x False ?y False] unfolding spec by auto
    then show ?thesis using False assms(3) by (auto simp: mod_vec4_def)
  qed
qed

lemma extend_native_word:
  assumes "wf_vec v" "size4 v \<le> 64"
  shows "extend_native (size4 v) (word_of_int (uval4 v)) = word_of_int (sval4 v)"
proof -
  let ?n = "size4 v"
  have n: "0 < ?n" using assms(1) by (simp add: wf_vec_def)
  have sb: "bit (sval4 v) i \<longleftrightarrow> (if i < ?n then one4 (value4 v i) else one4 (value4 v (?n - 1)))" for i
  proof -
    have ne: "map one4 (bits4 v) \<noteq> []" using n by (metis length_bits4 length_map list.size(3) less_irrefl)
    then show ?thesis using n by (simp add: sval4_def bit_sbits [OF ne] last_conv_nth [OF ne] nth_value4)
  qed
  have top: "(word_of_int (uval4 v) :: ulong) AND ul_shl 1 (?n - 1) \<noteq> 0 \<longleftrightarrow> one4 (value4 v (?n - 1))"
  proof -
    have "bit ((word_of_int (uval4 v) :: ulong) AND ul_shl 1 (?n - 1)) j \<longleftrightarrow> j = ?n - 1 \<and> one4 (value4 v (?n - 1))" if "j < 64" for j
      using n assms(2) that by (cases "j = ?n - 1") (auto simp: bit_and_iff bit_ul_shl bit_word_of_int_iff bit_uval4 bit_1_iff)
    moreover have "?n - 1 < 64" using assms(2) n by linarith
    ultimately show ?thesis unfolding word_zero_iff by blast
  qed
  show ?thesis
  proof (rule bit_word_eqI)
    fix i assume "i < LENGTH(64)"
    then have i: "i < 64" by simp
    show "bit (extend_native ?n (word_of_int (uval4 v))) i = bit (word_of_int (sval4 v) :: ulong) i"
      unfolding extend_native_def top using i assms(2)
      by (auto simp: bit_or_iff bit_mask_high bit_word_of_int_iff bit_uval4 sb)
  qed
qed

lemma extend_native_ok:
  assumes "wf_vec v" "size4 v \<le> 64"
  shows "sint (extend_native (size4 v) (word_of_int (uval4 v))) = sval4 v"
proof -
  have "(2::int) ^ (size4 v - 1) \<le> 2 ^ 63" using assms(2) by (intro power_increasing) auto
  then show ?thesis
    unfolding extend_native_word [OF assms] using sval4_facts(3,4) [OF assms(1)] by (simp add: sint_sbintrunc' signed_take_bit_int_eq_self)
qed

lemma mod_s_vec4_ok:
  assumes "wf_vec a" "wf_vec b" "size4 b = size4 a"
  shows "\<exists>u. mod_s_vec4 a b = Some u \<and> wf_vec u \<and> bits4 u = arith_fn tmod_fn (size4 a) True (bits4 a) (bits4 b)"
proof -
  let ?n = "size4 a" and ?x = "sval4 a" and ?y = "sval4 b"
  have wx: "wf_vec (x_vec ?n)" using assms(1) by (simp add: x_vec_ok wf_vec_def)
  have n: "0 < ?n" using assms(1) by (simp add: wf_vec_def)
  note fa = sval4_facts [OF assms(1)] and fb = sval4_facts [OF assms(2), unfolded assms(3)]
  have zy: "uval4 b = 0 \<longleftrightarrow> ?y = 0"
  proof
    assume "uval4 b = 0"
    then have "signed_take_bit (?n - 1) (take_bit ?n ?y) = 0" using fb(1) by simp
    then show "?y = 0" using fb(2) n by (simp add: signed_take_bit_take_bit split: if_splits)
  qed (use fb(1) in simp)
  have spec: "arith_fn tmod_fn ?n True (bits4 a) (bits4 b) =
      (if list_ex bit4_is_xz (bits4 a @ bits4 b) \<or> ?y = 0 then replicate ?n BIT4_X else num_bits4 ?n (?x smod ?y))"
    by (auto simp: arith_fn_def tmod_fn_def bnum_bits4)
  show ?thesis
  proof (cases "?n \<le> 64")
    case True
    define l r where "l = (word_of_int (uval4 a) :: ulong)" and "r = (word_of_int (uval4 b) :: ulong)"
    have p: "(2::int) ^ ?n \<le> 2 ^ 64" using True by (intro power_increasing) auto
    have u: "uint l = uval4 a" "uint r = uval4 b"
      using uval4_bounds [of a] uval4_bounds [of b] assms(3) p by (simp_all add: l_def r_def unsigned_of_int take_bit_int_eq_self)
    then have z: "r = 0 \<longleftrightarrow> ?y = 0" using zy by (metis uint_0_iff)
    have e: "sint (extend_native ?n l) = ?x" "sint (extend_native ?n r) = ?y"
      using extend_native_ok [OF assms(1) True] extend_native_ok [OF assms(2)] True assms(3) by (simp_all add: l_def r_def)
    have corner: "num_bits4 ?n (?x smod ?y) = replicate ?n BIT4_0" if "sint r = - 1" "sint l = - (2 ^ 63)"
    proof -
      have "uint r = 2 ^ 64 - 1" using uint_sint [of r] that(1) by (simp add: mask_eq_exp_minus_1)
      then have "2 ^ 64 - 1 < (2::int) ^ ?n" using u(2) uval4_bounds(2) [of b] assms(3) by simp
      then have "\<not> ?n \<le> 63" using power_increasing [of ?n 63 "2::int"] by auto
      then have "extend_native ?n r = r" by (simp add: extend_native_def)
      then have "?y = - 1" using e(2) that(1) by simp
      then have "?x smod ?y = 0" by (simp add: smod_magnitude)
      then show ?thesis by (simp add: num_bits4_def map_replicate_const)
    qed
    define q where "q = (word_of_int (?x smod ?y) :: ulong)"
    have q: "map (\<lambda>idx. if bit q idx then BIT4_1 else BIT4_0) [0..<?n] = num_bits4 ?n (?x smod ?y)"
    proof -
      have "num_bits4 ?n (uint q) = num_bits4 ?n (?x smod ?y)"
        using True by (intro num_bits4_cong) (simp add: q_def unsigned_of_int take_bit_take_bit min_absorb1)
      then show ?thesis by (simp add: num_bits4_word [OF True])
    qed
    have run: "mod_s_vec4 a b = (if list_ex bit4_is_xz (bits4 a @ bits4 b) \<or> ?y = 0 then Some (x_vec ?n)
      else if sint l = - (2 ^ 63) \<and> sint r = - 1 then Some (vector4_fill ?n BIT4_0)
      else set_loop set_bit4 0 (\<lambda>idx. if bit q idx then BIT4_1 else BIT4_0) ?n a)"
      using native_operands_num [OF assms True] True assms(3) z e unfolding q_def l_def r_def by (simp add: mod_s_vec4_def Let_def)
    show ?thesis
      using set_loop_bits [of a ?n "\<lambda>idx. if bit q idx then BIT4_1 else BIT4_0"] assms(1) wx n corner unfolding run spec q
      by (auto simp: x_vec_ok wf_vec_def bits4_fill)
  next
    case False
    have sgn: "value4 v (size4 v - 1) = BIT4_1 \<longleftrightarrow> sval4 v < 0" if "wf_vec v" for v
      using that by (auto simp: sval4_uval4 wf_vec_def) (use uval4_bounds [of v] in \<open>simp_all\<close>)
    have p: "(2::int) ^ (?n - 1) < 2 ^ ?n" using n by (intro power_strict_increasing) auto
    have mag: "take_bit ?n (if z < 0 then - w else w) = \<bar>z\<bar>" if "take_bit ?n z = w" "- (2 ^ (?n - 1)) \<le> z" "z < 2 ^ (?n - 1)" for z w :: int
    proof -
      have "take_bit ?n \<bar>z\<bar> = \<bar>z\<bar>" using that(2,3) p by (intro take_bit_int_eq_self) linarith+
      then show ?thesis using that(1) by (auto simp: abs_if take_bit_minus split: if_splits)
    qed
    have "mod_s_vec4 a b = do_verylong_mod a b (?x < 0) (?y < 0)"
      using False assms(3) sgn [OF assms(1)] sgn [OF assms(2)] by (simp add: mod_s_vec4_def)
    then show ?thesis
      using do_verylong_mod_ok [OF assms mag [OF fa(1,3,4), symmetric] mag [OF fb(1,3,4), symmetric]] spec
      by (auto simp: smod_magnitude)
  qed
qed

end
