(* ===== verification/Vvp_ThreadSpec.thy ===== *)
theory Vvp_ThreadSpec
  imports Vvp_ThreadArith
begin

text \<open>
  The specification of the opcodes of the thread interpreter: a thread whose stack holds lists of bits, and for each opcode what it
  does to it. A rule for every stack operation carries a related pair of states through an opcode; one locale per shape of opcode turns
  a fact on the vectors into a refinement of the opcode.
\<close>

section \<open>Related results\<close>

named_theorems refine_rules "rules that relate the results of two computations"

text \<open>If the specification has a result, the code has a related one; otherwise the specification says nothing.\<close>

definition refines :: "('a \<Rightarrow> 'b \<Rightarrow> bool) \<Rightarrow> 'a option \<Rightarrow> 'b option \<Rightarrow> bool" where
  "refines R x y \<longleftrightarrow> (\<forall>b. y = Some b \<longrightarrow> (\<exists>a. x = Some a \<and> R a b))"

lemma refines_None [simp]: "refines R x None"
  by (simp add: refines_def)

lemma refines_Some [refine_rules]: "R a b \<Longrightarrow> refines R (Some a) (Some b)"
  by (simp add: refines_def)

lemma refines_bind [refine_rules]: "refines R x y \<Longrightarrow> (\<And>a b. R a b \<Longrightarrow> refines S (f a) (g b)) \<Longrightarrow> refines S (x \<bind> f) (y \<bind> g)"
  by (cases y) (auto simp: refines_def)

text \<open>Vectors stand for their bits, and are never empty; a thread has all its flags and registers.\<close>

definition rvec :: "vvp_vector4_t \<Rightarrow> vvp_bit4_t list \<Rightarrow> bool" where
  "rvec v bs \<longleftrightarrow> wf_vec v \<and> bits4 v = bs"

definition abs_thread :: "vvp_vector4_t vthread \<Rightarrow> vvp_bit4_t list vthread" where
  "abs_thread thr = \<lparr>th_pc = th_pc thr, th_flags = th_flags thr, th_words = th_words thr, stack_vec4 = map bits4 (stack_vec4 thr)\<rparr>"

definition wf_thread :: "vvp_vector4_t vthread \<Rightarrow> bool" where
  "wf_thread thr \<longleftrightarrow> length (th_flags thr) = FLAGS_COUNT \<and> length (th_words thr) = WORDS_COUNT \<and> list_all wf_vec (stack_vec4 thr)"

definition rthr :: "vvp_vector4_t vthread \<Rightarrow> vvp_bit4_t list vthread \<Rightarrow> bool" where
  "rthr thr s \<longleftrightarrow> wf_thread thr \<and> abs_thread thr = s"

abbreviation rpop :: "vvp_vector4_t \<times> vvp_vector4_t vthread \<Rightarrow> vvp_bit4_t list \<times> vvp_bit4_t list vthread \<Rightarrow> bool" where
  "rpop \<equiv> rel_prod rvec rthr"

lemma rvec_size: "rvec v bs \<Longrightarrow> size4 v = length bs" "rvec v bs \<Longrightarrow> bs \<noteq> []" "rvec v bs \<Longrightarrow> bits4 v = bs" "rvec v bs \<Longrightarrow> wf_vec v"
  "rvec v bs \<Longrightarrow> wf4 v"
  by (auto simp: rvec_def wf_vec_def simp flip: length_bits4)

lemma rvec_value: "rvec v bs \<Longrightarrow> i < length bs \<Longrightarrow> value4 v i = bs ! i"
  using nth_value4 [of i v] by (simp add: rvec_size)

lemma rvecI: "wf4 v \<Longrightarrow> bits4 v = bs \<Longrightarrow> bs \<noteq> [] \<Longrightarrow> rvec v bs"
  by (auto simp: rvec_def wf_vec_def simp flip: length_bits4)

lemma refines_vec: "\<exists>u. x = Some u \<and> wf4 u \<and> bits4 u = bs \<Longrightarrow> bs \<noteq> [] \<Longrightarrow> refines rvec x (Some bs)"
  by (auto simp: refines_def rvecI)

lemma pop_refines [refine_rules]: "rthr thr s \<Longrightarrow> refines rpop (pop_vec4 thr) (pop_vec4 s)"
  by (auto simp: refines_def rthr_def rvec_def abs_thread_def wf_thread_def pop_vec4_def split: list.splits)

lemma push_refines [refine_rules]: "rvec v bs \<Longrightarrow> rthr thr s \<Longrightarrow> rthr (push_vec4 v thr) (push_vec4 bs s)"
  by (auto simp: rthr_def rvec_def abs_thread_def wf_thread_def push_vec4_def)

lemma peek_refines [refine_rules]: "rthr thr s \<Longrightarrow> refines rvec (peek_vec4 k thr) (peek_vec4 k s)"
  by (auto simp: refines_def rthr_def rvec_def abs_thread_def wf_thread_def peek_vec4_def list_all_length split: if_splits)

lemma poke_refines [refine_rules]: "rvec v bs \<Longrightarrow> rthr thr s \<Longrightarrow> refines rthr (poke_vec4 k v thr) (poke_vec4 k bs s)"
  by (auto simp: refines_def rthr_def rvec_def abs_thread_def wf_thread_def poke_vec4_def list_all_length nth_list_update map_update split: if_splits)

lemma pop_cnt_refines [refine_rules]: "rthr thr s \<Longrightarrow> refines rthr (pop_vec4_cnt k thr) (pop_vec4_cnt k s)"
  by (auto simp: refines_def rthr_def abs_thread_def wf_thread_def pop_vec4_cnt_def list_all_length drop_map split: if_splits)

lemma edit_refines [refine_rules]:
  assumes "rthr thr s" "\<And>v bs. rvec v bs \<Longrightarrow> refines rvec (f v) (g bs)"
  shows "refines rthr (edit_vec4 f thr) (edit_vec4 g s)"
  unfolding edit_vec4_def
  by (rule refines_bind [OF peek_refines [OF assms(1)]], rule refines_bind [OF assms(2)], assumption, rule poke_refines [OF _ assms(1)])

lemma flag_refines [refine_rules]: "rthr thr s \<Longrightarrow> refines (=) (get_flag k thr) (get_flag k s)"
  by (simp add: refines_def rthr_def abs_thread_def get_flag_def split: if_splits) auto

lemma set_flag_refines [refine_rules]: "a = b \<Longrightarrow> rthr thr s \<Longrightarrow> refines rthr (set_flag k a thr) (set_flag k b s)"
  by (auto simp: refines_def rthr_def abs_thread_def wf_thread_def set_flag_def split: if_splits)

lemma word_refines [refine_rules]: "rthr thr s \<Longrightarrow> refines (=) (get_word k thr) (get_word k s)"
  by (simp add: refines_def rthr_def abs_thread_def get_word_def split: if_splits) auto

lemma put_word_refines [refine_rules]: "a = b \<Longrightarrow> rthr thr s \<Longrightarrow> refines rthr (put_word k a thr) (put_word k b s)"
  by (auto simp: refines_def rthr_def abs_thread_def wf_thread_def put_word_def split: if_splits)

lemma edit_as_pop: "edit_vec4 f thr = do { (v, thr) \<leftarrow> pop_vec4 thr; u \<leftarrow> f v; Some (push_vec4 u thr) }"
  by (cases "stack_vec4 thr") (auto simp: edit_vec4_def peek_vec4_def poke_vec4_def pop_vec4_def push_vec4_def)

section \<open>Shapes of opcodes\<close>

text \<open>The immediate operand, and the shapes of the specification.\<close>

definition imm_bit :: "vvp_code \<Rightarrow> nat \<Rightarrow> vvp_bit4_t" where
  "imm_bit cp i = (if bit (bit_idx1 cp) i then if bit (bit_idx0 cp) i then BIT4_X else BIT4_Z
     else if bit (bit_idx0 cp) i then BIT4_1 else BIT4_0)"

definition imm_bits :: "vvp_code \<Rightarrow> vvp_bit4_t list option" where
  "imm_bits cp = (if cp_number cp = 0 then None else Some (map (imm_bit cp) [0..<cp_number cp]))"

text \<open>The specification names the stack, the flags and the registers of the state, and none of the functions of the interpreter.\<close>

definition on_top :: "('v \<Rightarrow> 'v option) \<Rightarrow> 'v vthread \<Rightarrow> 'v vthread option" where
  "on_top spec s = (case stack_vec4 s of a # st \<Rightarrow> map_option (\<lambda>c. s\<lparr>stack_vec4 := c # st\<rparr>) (spec a) | _ \<Rightarrow> None)"

definition on_two :: "('v \<Rightarrow> 'v \<Rightarrow> 'v option) \<Rightarrow> 'v vthread \<Rightarrow> 'v vthread option" where
  "on_two spec s = (case stack_vec4 s of b # a # st \<Rightarrow> map_option (\<lambda>c. s\<lparr>stack_vec4 := c # st\<rparr>) (spec a b) | _ \<Rightarrow> None)"

definition on_imm :: "(vvp_bit4_t list \<Rightarrow> vvp_bit4_t list \<Rightarrow> vvp_bit4_t list option) \<Rightarrow> vvp_code \<Rightarrow> vvp_bit4_t list vthread \<Rightarrow> vvp_bit4_t list vthread option" where
  "on_imm spec cp s = do { b \<leftarrow> imm_bits cp; on_top (\<lambda>a. spec a b) s }"

text \<open>The flags that an opcode writes, by their numbers.\<close>

definition write_flags :: "(nat \<times> vvp_bit4_t) list \<Rightarrow> 'v vthread \<Rightarrow> 'v vthread option" where
  "write_flags fl s =
     (if list_all (\<lambda>(k, b). k < FLAGS_COUNT) fl then Some (s\<lparr>th_flags := foldl (\<lambda>fs (k, b). fs[k := b]) (th_flags s) fl\<rparr>) else None)"

definition flags_two :: "('v \<Rightarrow> 'v \<Rightarrow> (nat \<times> vvp_bit4_t) list option) \<Rightarrow> 'v vthread \<Rightarrow> 'v vthread option" where
  "flags_two spec s =
     (case stack_vec4 s of b # a # st \<Rightarrow> do { fl \<leftarrow> spec a b; write_flags fl (s\<lparr>stack_vec4 := st\<rparr>) } | _ \<Rightarrow> None)"

definition flags_imm :: "(vvp_bit4_t list \<Rightarrow> vvp_bit4_t list \<Rightarrow> (nat \<times> vvp_bit4_t) list option) \<Rightarrow> vvp_code \<Rightarrow> vvp_bit4_t list vthread \<Rightarrow> vvp_bit4_t list vthread option" where
  "flags_imm spec cp s =
     (case stack_vec4 s of a # st \<Rightarrow> do { b \<leftarrow> imm_bits cp; fl \<leftarrow> spec a b; write_flags fl (s\<lparr>stack_vec4 := st\<rparr>) } | _ \<Rightarrow> None)"

fun set_flags :: "(nat \<times> vvp_bit4_t) list \<Rightarrow> 'v vthread \<Rightarrow> 'v vthread option" where
  "set_flags [] s = Some s"
| "set_flags ((k, b) # fl) s = do { s \<leftarrow> set_flag k b s; set_flags fl s }"

text \<open>The same in the operations of the interpreter.\<close>

lemma on_top_edit: "on_top spec s = edit_vec4 spec s"
  by (cases "stack_vec4 s") (auto simp: on_top_def edit_vec4_def peek_vec4_def poke_vec4_def map_option_case split: option.splits)

lemma on_two_pop: "on_two spec s = do { (b, s) \<leftarrow> pop_vec4 s; edit_vec4 (\<lambda>a. spec a b) s }"
  by (auto simp: on_two_def pop_vec4_def edit_vec4_def peek_vec4_def poke_vec4_def map_option_case split: list.splits option.splits)

lemma write_flags_set: "write_flags fl s = set_flags fl s"
proof (induction fl arbitrary: s rule: list.induct)
  case (Cons p fl)
  obtain k b where p: "p = (k, b)" by fastforce
  show ?case by (cases "k < FLAGS_COUNT") (simp_all add: p set_flag_def write_flags_def flip: Cons.IH)
qed (simp add: write_flags_def)

lemma set_flags_drop: "do { s \<leftarrow> set_flags fl s; pop_vec4_cnt n s } = do { s \<leftarrow> pop_vec4_cnt n s; set_flags fl s }"
  by (cases "n \<le> length (stack_vec4 s)") (simp_all add: write_flags_def pop_vec4_cnt_def flip: write_flags_set)

lemma flags_two_peek: "flags_two spec s = do { b \<leftarrow> peek_vec4 0 s; a \<leftarrow> peek_vec4 1 s; fl \<leftarrow> spec a b; s \<leftarrow> set_flags fl s; pop_vec4_cnt 2 s }"
  unfolding set_flags_drop by (auto simp: flags_two_def write_flags_set peek_vec4_def pop_vec4_cnt_def split: list.splits)

lemma flags_imm_peek: "flags_imm spec cp s = do { a \<leftarrow> peek_vec4 0 s; b \<leftarrow> imm_bits cp; fl \<leftarrow> spec a b; s \<leftarrow> set_flags fl s; pop_vec4_cnt 1 s }"
  unfolding set_flags_drop by (auto simp: flags_imm_def write_flags_set peek_vec4_def pop_vec4_cnt_def split: list.splits)

lemma immediate_loop_ok:
  assumes "wf4 val" "idx + n \<le> size4 val"
  shows "\<exists>u. immediate_loop n idx vala valb val = Some u \<and> wf4 u \<and> size4 u = size4 val \<and>
    bits4 u = map (\<lambda>j. if idx \<le> j \<and> j < idx + n \<and> (bit vala (j - idx) \<or> bit valb (j - idx))
      then (if bit valb (j - idx) then if bit vala (j - idx) then BIT4_X else BIT4_Z else BIT4_1) else bits4 val ! j) [0..<size4 val]"
  using assms
proof (induction n arbitrary: idx vala valb val)
  case 0
  then show ?case by (auto intro!: nth_equalityI)
next
  case (Suc n)
  let ?ba = "push_bit 1 (valb AND 1) OR (vala AND 1)"
  define b where "b = (if bit valb 0 then if bit vala 0 then BIT4_X else BIT4_Z else BIT4_1)"
  have nth: "bits4 val = map (\<lambda>j. bits4 val ! j) [0..<size4 val]" by (metis length_bits4 map_nth)
  show ?case
  proof (cases "vala OR valb = 0")
    case True
    have "\<not> bit vala i \<and> \<not> bit valb i" for i using arg_cong [OF True, of "\<lambda>w. bit w i"] by (simp add: bit_or_iff)
    then show ?thesis using True Suc.prems nth by simp
  next
    case False
    have ba: "unat ?ba = (if bit valb 0 then 2 else 0) + (if bit vala 0 then 1 else 0)"
      by (cases "odd vala"; cases "odd valb"; simp add: and_one_eq bit_0 odd_iff_mod_2_eq_one)
    then have nz: "?ba \<noteq> 0 \<longleftrightarrow> bit vala 0 \<or> bit valb 0" "bit vala 0 \<or> bit valb 0 \<Longrightarrow> bit4_cast (unat ?ba) = b"
      by (auto simp: b_def bit4_cast_def unat_eq_0 [symmetric] simp del: unat_eq_0)
    obtain w where w: "(if ?ba \<noteq> 0 then set_bit4 val idx (bit4_cast (unat ?ba)) else Some val) = Some w" "wf4 w" "size4 w = size4 val"
      "bits4 w = (if bit vala 0 \<or> bit valb 0 then (bits4 val)[idx := b] else bits4 val)"
      using set_bit4_ok [OF Suc.prems(1), of idx b] Suc.prems nz by (cases "?ba \<noteq> 0") auto
    have run: "immediate_loop (Suc n) idx vala valb val = immediate_loop n (idx + 1) (drop_bit 1 vala) (drop_bit 1 valb) w"
      using False by (simp only: immediate_loop.simps Let_def if_False w(1) bind.bind_lunit)
    have "idx + 1 + n \<le> size4 w" using Suc.prems(2) w(3) by simp
    from Suc.IH [OF w(2) this, of "drop_bit 1 vala" "drop_bit 1 valb"]
    obtain u where u: "immediate_loop (Suc n) idx vala valb val = Some u" "wf4 u" "size4 u = size4 val"
      "bits4 u = map (\<lambda>j. if idx + 1 \<le> j \<and> j < idx + 1 + n \<and> (bit (drop_bit 1 vala) (j - (idx + 1)) \<or> bit (drop_bit 1 valb) (j - (idx + 1)))
        then (if bit (drop_bit 1 valb) (j - (idx + 1)) then if bit (drop_bit 1 vala) (j - (idx + 1)) then BIT4_X else BIT4_Z else BIT4_1)
        else bits4 w ! j) [0..<size4 val]"
      unfolding run w(3) by blast
    have d: "bit (drop_bit (Suc 0) x) (j - Suc idx) = bit x (j - idx)" if "idx < j" for x :: "32 word" and j
      using that by (simp add: bit_drop_bit_eq Suc_diff_Suc)
    have "bits4 u = map (\<lambda>j. if idx \<le> j \<and> j < idx + Suc n \<and> (bit vala (j - idx) \<or> bit valb (j - idx))
      then (if bit valb (j - idx) then if bit vala (j - idx) then BIT4_X else BIT4_Z else BIT4_1) else bits4 val ! j) [0..<size4 val]"
      unfolding u(4)
    proof (rule map_cong [OF refl])
      fix j assume "j \<in> set [0..<size4 val]"
      then have j: "j < length (bits4 val)" by simp
      consider "j < idx" | "j = idx" | "idx < j" by linarith
      then show "(if idx + 1 \<le> j \<and> j < idx + 1 + n \<and> (bit (drop_bit 1 vala) (j - (idx + 1)) \<or> bit (drop_bit 1 valb) (j - (idx + 1)))
        then (if bit (drop_bit 1 valb) (j - (idx + 1)) then if bit (drop_bit 1 vala) (j - (idx + 1)) then BIT4_X else BIT4_Z else BIT4_1)
        else bits4 w ! j) = (if idx \<le> j \<and> j < idx + Suc n \<and> (bit vala (j - idx) \<or> bit valb (j - idx))
      then (if bit valb (j - idx) then if bit vala (j - idx) then BIT4_X else BIT4_Z else BIT4_1) else bits4 val ! j)"
        using j by cases (simp_all add: w(4) b_def d)
    qed
    then show ?thesis using u(1-3) by blast
  qed
qed

lemma immediate_refines [refine_rules]: "refines rvec (immediate cp) (imm_bits cp)"
proof (cases "cp_number cp = 0")
  case False
  let ?n = "cp_number cp" and ?a = "bit_idx0 cp" and ?b = "bit_idx1 cp"
  let ?v = "vector4_fill ?n BIT4_0"
  have "\<exists>u. immediate cp = Some u \<and> wf4 u \<and> bits4 u = map (imm_bit cp) [0..<?n]"
  proof (cases "?b = 0")
    case False
    obtain u where "immediate_loop ?n 0 ?a ?b ?v = Some u" "wf4 u"
      "bits4 u = map (\<lambda>j. if 0 \<le> j \<and> j < 0 + ?n \<and> (bit ?a (j - 0) \<or> bit ?b (j - 0))
        then (if bit ?b (j - 0) then if bit ?a (j - 0) then BIT4_X else BIT4_Z else BIT4_1) else bits4 ?v ! j) [0..<?n]"
      using immediate_loop_ok [of ?v 0 ?n ?a ?b] by auto
    then show ?thesis using False by (auto simp: immediate_def get_immediate_rval_def Let_def imm_bit_def bits4_fill)
  next
    case True
    have ib: "imm_bit cp i = (if bit ?a i then BIT4_1 else BIT4_0)" for i by (simp add: imm_bit_def True)
    show ?thesis
    proof (cases "?a = 0")
      case True
      then have "imm_bit cp = (\<lambda>i. BIT4_0)" by (simp add: ib fun_eq_iff)
      then show ?thesis using True \<open>?b = 0\<close> by (simp add: immediate_def get_immediate_rval_def Let_def bits4_fill map_replicate_const)
    next
      case nz: False
      define w where "w = (if ?n < 64 then ?n else 64)"
      have w: "0 < w" "w \<le> ?n" "w \<le> 64" "?n < 64 \<Longrightarrow> w = ?n" "\<not> ?n < 64 \<Longrightarrow> w = 64" using False by (simp_all add: w_def)
      obtain u where u: "setarray ?v 0 w [ucast ?a] = Some u" "wf4 u"
        "bits4 u = map (\<lambda>i. if wbit [ucast ?a] i then BIT4_1 else BIT4_0) [0..<w] @ drop w (replicate ?n BIT4_0)"
        using setarray_ok [of ?v 0 w "[ucast ?a]"] w(1,2) by (auto simp: bits4_fill)
      have wb: "wbit [ucast ?a] i = bit ?a i" if "i < 64" for i using that by (simp add: wbit_def bit_ucast_iff)
      have far: "\<not> bit ?a i" if "64 \<le> i" for i using that bit_imp_le_length [of ?a i] by auto
      have far: "\<not> bit ?a i" if "\<not> i < w" "i < ?n" for i using far [of i] w(4,5) that by (cases "?n < 64") auto
      have "bits4 u = map (imm_bit cp) [0..<?n]"
        unfolding u(3) using w by (intro nth_equalityI) (auto simp: nth_append ib wb far)
      then show ?thesis using u(1,2) nz True by (simp add: immediate_def get_immediate_rval_def Let_def flip: w_def)
    qed
  qed
  then show ?thesis using False by (auto simp: imm_bits_def intro: refines_vec)
qed (simp add: imm_bits_def)

text \<open>An opcode that refines its specification, and the shapes of which the opcodes are.\<close>

locale opcode =
  fixes f :: "vvp_code \<Rightarrow> vvp_vector4_t vthread \<Rightarrow> vvp_vector4_t vthread option"
    and g :: "vvp_code \<Rightarrow> vvp_bit4_t list vthread \<Rightarrow> vvp_bit4_t list vthread option"
  assumes refine: "rthr thr s \<Longrightarrow> refines rthr (f cp thr) (g cp s)"

locale top_opcode =
  fixes f :: "vvp_code \<Rightarrow> vvp_vector4_t vthread \<Rightarrow> vvp_vector4_t vthread option"
    and op :: "vvp_code \<Rightarrow> vvp_vector4_t \<Rightarrow> vvp_vector4_t option"
    and spec :: "vvp_code \<Rightarrow> vvp_bit4_t list \<Rightarrow> vvp_bit4_t list option"
  assumes run: "f cp thr = edit_vec4 (op cp) thr"
    and op_ok: "rvec v bs \<Longrightarrow> refines rvec (op cp v) (spec cp bs)"

sublocale top_opcode \<subseteq> opcode f "\<lambda>cp. on_top (spec cp)"
  by unfold_locales (auto simp: run on_top_edit intro!: edit_refines op_ok)

locale vec_op =
  fixes op :: "vvp_vector4_t \<Rightarrow> vvp_vector4_t \<Rightarrow> vvp_vector4_t option"
    and spec :: "vvp_bit4_t list \<Rightarrow> vvp_bit4_t list \<Rightarrow> vvp_bit4_t list option"
  assumes op_ok: "rvec l a \<Longrightarrow> rvec r b \<Longrightarrow> refines rvec (op l r) (spec a b)"

locale binary_opcode = vec_op +
  fixes f :: "vvp_code \<Rightarrow> vvp_vector4_t vthread \<Rightarrow> vvp_vector4_t vthread option"
  assumes run: "f cp thr = do { (r, thr) \<leftarrow> pop_vec4 thr; edit_vec4 (\<lambda>l. op l r) thr }"

sublocale binary_opcode \<subseteq> opcode f "\<lambda>cp. on_two spec"
  by unfold_locales (auto simp: run on_two_pop intro!: refine_rules op_ok)

locale immediate_opcode = vec_op +
  fixes f :: "vvp_code \<Rightarrow> vvp_vector4_t vthread \<Rightarrow> vvp_vector4_t vthread option"
  assumes run: "f cp thr = do { r \<leftarrow> immediate cp; edit_vec4 (\<lambda>l. op l r) thr }"

sublocale immediate_opcode \<subseteq> opcode f "on_imm spec"
  by unfold_locales (auto simp: run on_imm_def on_top_edit intro!: refine_rules op_ok)

text \<open>The comparisons write flags and drop their operands.\<close>

lemma set_flags_refines [refine_rules]: "rthr thr s \<Longrightarrow> refines rthr (set_flags fl thr) (set_flags fl s)"
  by (induction fl arbitrary: thr s rule: list.induct) (auto intro!: refine_rules)

locale flag_op =
  fixes cmp :: "vvp_vector4_t vthread \<Rightarrow> vvp_vector4_t \<Rightarrow> vvp_vector4_t \<Rightarrow> vvp_vector4_t vthread option"
    and spec :: "vvp_bit4_t list \<Rightarrow> vvp_bit4_t list \<Rightarrow> (nat \<times> vvp_bit4_t) list option"
  assumes cmp_ok: "rthr thr s \<Longrightarrow> rvec l a \<Longrightarrow> rvec r b \<Longrightarrow> spec a b = Some fl \<Longrightarrow> cmp thr l r = set_flags fl thr"
begin

lemma cmp_refines: "rvec l a \<Longrightarrow> rvec r b \<Longrightarrow> rthr thr s \<Longrightarrow> refines rthr (cmp thr l r) (do { fl \<leftarrow> spec a b; set_flags fl s })"
  by (cases "spec a b") (auto simp: cmp_ok intro: set_flags_refines)

end

locale compare_opcode = flag_op +
  fixes f :: "vvp_code \<Rightarrow> vvp_vector4_t vthread \<Rightarrow> vvp_vector4_t vthread option"
  assumes run: "f cp thr = compare_stack cmp thr"

locale compare_imm_opcode = flag_op +
  fixes f :: "vvp_code \<Rightarrow> vvp_vector4_t vthread \<Rightarrow> vvp_vector4_t vthread option"
  assumes run: "f cp thr = compare_immediate cmp cp thr"

sublocale compare_opcode \<subseteq> opcode f "\<lambda>cp. flags_two spec"
proof
  fix thr s cp assume r: "rthr thr s"
  have "refines rthr (do { rval \<leftarrow> peek_vec4 0 thr; lval \<leftarrow> peek_vec4 1 thr; t \<leftarrow> cmp thr lval rval; pop_vec4_cnt 2 t })
    (do { b \<leftarrow> peek_vec4 0 s; a \<leftarrow> peek_vec4 1 s; u \<leftarrow> (do { fl \<leftarrow> spec a b; set_flags fl s }); pop_vec4_cnt 2 u })"
    by (rule refines_bind [OF peek_refines [OF r]], rule refines_bind [OF peek_refines [OF r]],
        rule refines_bind [OF cmp_refines], assumption+, rule r, erule pop_cnt_refines)
  then show "refines rthr (f cp thr) (flags_two spec s)" by (simp add: run compare_stack_def flags_two_peek)
qed

sublocale compare_imm_opcode \<subseteq> opcode f "flags_imm spec"
proof
  fix thr s cp assume r: "rthr thr s"
  have "refines rthr (do { lval \<leftarrow> peek_vec4 0 thr; rval \<leftarrow> immediate cp; t \<leftarrow> cmp thr lval rval; pop_vec4_cnt 1 t })
    (do { a \<leftarrow> peek_vec4 0 s; b \<leftarrow> imm_bits cp; u \<leftarrow> (do { fl \<leftarrow> spec a b; set_flags fl s }); pop_vec4_cnt 1 u })"
    by (rule refines_bind [OF peek_refines [OF r]], rule refines_bind [OF immediate_refines],
        rule refines_bind [OF cmp_refines], assumption+, rule r, erule pop_cnt_refines)
  then show "refines rthr (f cp thr) (flags_imm spec cp s)" by (simp add: run compare_immediate_def flags_imm_peek)
qed

end
