(* ===== verification/Vvp_ThreadOps.thy ===== *)
theory Vvp_ThreadOps
  imports Vvp_ThreadSpec
begin

text \<open>
  The opcodes of the thread interpreter as instances of the shapes: the specification of each on lists of bits, the fact that its
  vector operation meets it, and the interpretation of its locale, whose \<open>refine\<close> is the refinement of the opcode.
\<close>

section \<open>Arithmetic\<close>

definition equal_width :: "('a list \<Rightarrow> 'a list \<Rightarrow> 'b) \<Rightarrow> 'a list \<Rightarrow> 'a list \<Rightarrow> 'b option" where
  "equal_width h a b = (if length a = length b then Some (h a b) else None)"

definition num_spec :: "(int \<Rightarrow> int \<Rightarrow> int option) \<Rightarrow> bool \<Rightarrow> vvp_bit4_t list \<Rightarrow> vvp_bit4_t list \<Rightarrow> vvp_bit4_t list option" where
  "num_spec F sf = equal_width (\<lambda>a b. arith_fn F (length a) sf a b)"

text \<open>Nothing is said of the quotients that \<open>divide_bits\<close> is not shown to get right.\<close>

definition div_spec :: "bool \<Rightarrow> vvp_bit4_t list \<Rightarrow> vvp_bit4_t list \<Rightarrow> vvp_bit4_t list option" where
  "div_spec sf a b = (if list_ex bit4_is_xz (a @ b) \<or> div_ok (length a) (bnum sf a) (bnum sf b) then num_spec tdiv_fn sf a b else None)"

lemma equal_width_refines:
  assumes "rvec l a" "rvec r b" "length a = length b \<Longrightarrow> \<exists>u. x = Some u \<and> wf4 u \<and> bits4 u = h a b" "length a = length b \<Longrightarrow> h a b \<noteq> []"
  shows "refines rvec x (equal_width h a b)"
  using assms(3,4) by (auto simp: equal_width_def intro: refines_vec)

lemma arith_fn_Nil [simp]: "arith_fn F n sf a b = [] \<longleftrightarrow> n = 0"
  by (auto simp: arith_fn_def num_bits4_def split: option.splits)

lemma num_spec_refines:
  assumes "rvec l a" "rvec r b" "length a = length b \<Longrightarrow> \<exists>u. x = Some u \<and> wf4 u \<and> bits4 u = arith_fn F (length a) sf a b"
  shows "refines rvec x (num_spec F sf a b)"
  unfolding num_spec_def
  using assms rvec_size(2) [OF assms(1)] by (intro equal_width_refines [OF assms(1,2)]) auto

lemma arith_spec_fn: "arith_spec F v w = arith_fn (\<lambda>x y. Some (F x y)) (size4 v) False (bits4 v) (bits4 w)"
  by (simp add: arith_spec_def arith_fn_def bnum_bits4)

interpretation add_op: vec_op add4 "num_spec (\<lambda>x y. Some (x + y)) False"
proof
  fix l r a b assume "rvec l a" "rvec r b"
  then show "refines rvec (add4 l r) (num_spec (\<lambda>x y. Some (x + y)) False a b)"
    using add4_ok [of l r] by (intro num_spec_refines) (auto simp: rvec_size arith_spec_fn)
qed

interpretation sub_op: vec_op sub4 "num_spec (\<lambda>x y. Some (x - y)) False"
proof
  fix l r a b assume "rvec l a" "rvec r b"
  then show "refines rvec (sub4 l r) (num_spec (\<lambda>x y. Some (x - y)) False a b)"
    using sub4_ok [of l r] by (intro num_spec_refines) (auto simp: rvec_size arith_spec_fn)
qed

interpretation mul_op: vec_op mul4 "num_spec (\<lambda>x y. Some (x * y)) False"
proof
  fix l r a b assume "rvec l a" "rvec r b"
  then show "refines rvec (mul4 l r) (num_spec (\<lambda>x y. Some (x * y)) False a b)"
    using mul4_ok [of l r] by (intro num_spec_refines) (auto simp: rvec_size arith_spec_fn)
qed

interpretation div_op: vec_op div_vec4 "div_spec False"
proof
  fix l r a b assume "rvec l a" "rvec r b"
  then show "refines rvec (div_vec4 l r) (div_spec False a b)"
    using div_vec4_ok [of l r]
    by (auto simp: div_spec_def rvec_size  bnum_bits4 [of False, simplified, symmetric] simp: wf_vec_def intro!: num_spec_refines)
qed

interpretation div_s_op: vec_op div_s_vec4 "div_spec True"
proof
  fix l r a b assume "rvec l a" "rvec r b"
  then show "refines rvec (div_s_vec4 l r) (div_spec True a b)"
    using div_s_vec4_ok [of l r]
    by (auto simp: div_spec_def rvec_size  bnum_bits4 [of True, simplified, symmetric] simp: wf_vec_def intro!: num_spec_refines)
qed

interpretation mod_op: vec_op mod_vec4 "num_spec tmod_fn False"
proof
  fix l r a b assume "rvec l a" "rvec r b"
  then show "refines rvec (mod_vec4 l r) (num_spec tmod_fn False a b)"
    using mod_vec4_ok [of l r] by (intro num_spec_refines) (auto simp: rvec_size simp: wf_vec_def)
qed

interpretation mod_s_op: vec_op mod_s_vec4 "num_spec tmod_fn True"
proof
  fix l r a b assume "rvec l a" "rvec r b"
  then show "refines rvec (mod_s_vec4 l r) (num_spec tmod_fn True a b)"
    using mod_s_vec4_ok [of l r] by (intro num_spec_refines) (auto simp: rvec_size simp: wf_vec_def)
qed

interpretation ADD: binary_opcode add4 "num_spec (\<lambda>x y. Some (x + y)) False" of_ADD by unfold_locales (simp add: of_ADD_def)
interpretation ADDI: immediate_opcode add4 "num_spec (\<lambda>x y. Some (x + y)) False" of_ADDI by unfold_locales (simp add: of_ADDI_def)
interpretation SUB: binary_opcode sub4 "num_spec (\<lambda>x y. Some (x - y)) False" of_SUB by unfold_locales (simp add: of_SUB_def)
interpretation SUBI: immediate_opcode sub4 "num_spec (\<lambda>x y. Some (x - y)) False" of_SUBI by unfold_locales (simp add: of_SUBI_def)
interpretation MUL: binary_opcode mul4 "num_spec (\<lambda>x y. Some (x * y)) False" of_MUL by unfold_locales (simp add: of_MUL_def)
interpretation MULI: immediate_opcode mul4 "num_spec (\<lambda>x y. Some (x * y)) False" of_MULI by unfold_locales (simp add: of_MULI_def)
interpretation DIV: binary_opcode div_vec4 "div_spec False" of_DIV by unfold_locales (simp add: of_DIV_def edit_as_pop)
interpretation DIV_S: binary_opcode div_s_vec4 "div_spec True" of_DIV_S by unfold_locales (simp add: of_DIV_S_def)
interpretation MOD: binary_opcode mod_vec4 "num_spec tmod_fn False" of_MOD by unfold_locales (simp add: of_MOD_def)
interpretation MOD_S: binary_opcode mod_s_vec4 "num_spec tmod_fn True" of_MOD_S by unfold_locales (simp add: of_MOD_S_def)

section \<open>Bitwise operators\<close>

lemma set_loop_refines:
  assumes "rvec v bs" "n = length bs"
  shows "refines rvec (set_loop set_bit4 0 f n v) (Some (map f [0..<n]))"
  using set_loop_bits [of v n f] assms by (intro refines_vec) (auto simp: rvec_size)

lemma map_values2: "rvec l a \<Longrightarrow> rvec r b \<Longrightarrow> length a = length b \<Longrightarrow> map (\<lambda>i. f (value4 l i) (value4 r i)) [0..<length a] = map2 f a b"
  by (rule nth_equalityI) (simp_all add: rvec_value)

definition bitwise_spec :: "('a \<Rightarrow> 'a \<Rightarrow> 'a) \<Rightarrow> 'a list \<Rightarrow> 'a list \<Rightarrow> 'a list option" where
  "bitwise_spec f = equal_width (map2 f)"

lemma bitwise_refines:
  assumes "rvec l a" "rvec r b"
  shows "refines rvec (bitwise_loop f l r) (bitwise_spec f a b)"
proof (cases "length a = length b")
  case True
  then show ?thesis
    using set_loop_refines [OF assms(1) refl, of "\<lambda>i. f (value4 l i) (value4 r i)"] unfolding map_values2 [OF assms True]
    by (simp add: bitwise_loop_def bitwise_spec_def equal_width_def rvec_size(1) [OF assms(1)] rvec_size(1) [OF assms(2)])
qed (simp add: bitwise_spec_def equal_width_def)

interpretation and_op: vec_op "\<lambda>l r. if size4 l = size4 r then Some (and_assign l r) else None" "bitwise_spec bit4_and"
proof
  fix l r a b assume "rvec l a" "rvec r b"
  then show "refines rvec (if size4 l = size4 r then Some (and_assign l r) else None) (bitwise_spec bit4_and a b)"
    using and_assign_ok [of l r] unfolding bitwise_spec_def by (intro equal_width_refines) (auto simp: rvec_size)
qed

interpretation or_op: vec_op "\<lambda>l r. Some (or_assign l r)" "bitwise_spec bit4_or"
proof
  fix l r a b assume "rvec l a" "rvec r b"
  then show "refines rvec (Some (or_assign l r)) (bitwise_spec bit4_or a b)"
    using or_assign_ok [of l r] unfolding bitwise_spec_def by (intro equal_width_refines) (auto simp: rvec_size)
qed

interpretation AND: binary_opcode "\<lambda>l r. if size4 l = size4 r then Some (and_assign l r) else None" "bitwise_spec bit4_and" of_AND
  by unfold_locales (simp add: of_AND_def)

interpretation OR: binary_opcode "\<lambda>l r. Some (or_assign l r)" "bitwise_spec bit4_or" of_OR
  by unfold_locales (simp add: of_OR_def)

interpretation NAND: binary_opcode "bitwise_loop (\<lambda>x y. bit4_not (bit4_and x y))" "bitwise_spec (\<lambda>x y. bit4_not (bit4_and x y))" of_NAND
  by unfold_locales (simp_all add: bitwise_refines of_NAND_def)

interpretation NOR: binary_opcode "bitwise_loop (\<lambda>x y. bit4_not (bit4_or x y))" "bitwise_spec (\<lambda>x y. bit4_not (bit4_or x y))" of_NOR
  by unfold_locales (simp_all add: bitwise_refines of_NOR_def)

interpretation XOR: binary_opcode "bitwise_loop bit4_xor" "bitwise_spec bit4_xor" of_XOR
  by unfold_locales (simp_all add: bitwise_refines of_XOR_def)

interpretation XNOR: binary_opcode "bitwise_loop (\<lambda>x y. bit4_not (bit4_xor x y))" "bitwise_spec (\<lambda>x y. bit4_not (bit4_xor x y))" of_XNOR
  by unfold_locales (simp_all add: bitwise_refines of_XNOR_def)

interpretation INV: top_opcode of_INV "\<lambda>_ v. Some (invert v)" "\<lambda>_ bs. Some (map bit4_not bs)"
proof
  fix v bs assume "rvec v bs"
  then show "refines rvec (Some (invert v)) (Some (map bit4_not bs))" using invert_ok [of v] by (intro refines_vec) (auto simp: rvec_size)
qed (simp add: of_INV_def)

section \<open>Reductions\<close>

definition reduce_spec :: "vvp_bit4_t \<Rightarrow> vvp_bit4_t \<Rightarrow> vvp_bit4_t \<Rightarrow> vvp_bit4_t \<Rightarrow> vvp_bit4_t list \<Rightarrow> vvp_bit4_t" where
  "reduce_spec stop res other lb bs = (if stop \<in> set bs then res else if set bs \<subseteq> {other} then lb else BIT4_X)"

definition parity_spec :: "vvp_bit4_t \<Rightarrow> vvp_bit4_t list \<Rightarrow> vvp_bit4_t" where
  "parity_spec lb bs = (if list_ex bit4_is_xz bs then BIT4_X else if odd (length (filter (\<lambda>b. b = BIT4_1) bs)) then bit4_not lb else lb)"

lemma drop_value: "rvec v bs \<Longrightarrow> idx < length bs \<Longrightarrow> drop idx bs = value4 v idx # drop (idx + 1) bs"
  by (simp add: rvec_value Cons_nth_drop_Suc)

lemma reduce_stop_ok:
  assumes "rvec v bs" "idx + n = length bs"
  shows "reduce_stop v stop res other n idx lb = (if stop \<in> set (drop idx bs) then res else if set (drop idx bs) \<subseteq> {other} then lb else BIT4_X)"
  using assms(2)
proof (induction n arbitrary: idx lb)
  case (Suc n)
  then have "idx < length bs" "idx + 1 + n = length bs" by simp_all
  then show ?case using Suc.IH [of "idx + 1"] by (auto simp: Let_def drop_value [OF assms(1)])
qed simp

lemma reduce_xor_ok:
  assumes "rvec v bs" "idx + n = length bs" "\<not> bit4_is_xz lb"
  shows "reduce_xor v n idx lb = parity_spec lb (drop idx bs)"
  using assms(2,3)
proof (induction n arbitrary: idx lb)
  case (Suc n)
  then have i: "idx < length bs" "idx + 1 + n = length bs" by simp_all
  have "\<not> bit4_is_xz (bit4_not lb)" "bit4_not (bit4_not lb) = lb" using Suc.prems(2) by (cases lb; simp add: bit4_not_table bit4_is_xz_def)+
  then show ?case
    using Suc.IH [OF i(2)] Suc.prems(2) by (cases "value4 v idx") (auto simp: drop_value [OF assms(1) i(1)] parity_spec_def bit4_is_xz_def)
qed (simp add: parity_spec_def)

lemma reduce_opcode_edit: "reduce_opcode f thr = edit_vec4 (\<lambda>val. Some (vector4_fill 1 (f val))) thr"
  by (simp add: reduce_opcode_def edit_as_pop)

locale reduction =
  fixes f :: "vvp_code \<Rightarrow> vvp_vector4_t vthread \<Rightarrow> vvp_vector4_t vthread option"
    and red :: "vvp_vector4_t \<Rightarrow> vvp_bit4_t"
    and spec :: "vvp_bit4_t list \<Rightarrow> vvp_bit4_t"
  assumes reduces: "f cp thr = reduce_opcode red thr"
    and red_ok: "rvec v bs \<Longrightarrow> red v = spec bs"

sublocale reduction \<subseteq> top_opcode f "\<lambda>_ v. Some (vector4_fill 1 (red v))" "\<lambda>_ bs. Some [spec bs]"
  by unfold_locales (auto simp: reduces reduce_opcode_edit red_ok bits4_fill intro!: refines_vec)

interpretation ANDR: reduction of_ANDR "\<lambda>v. reduce_stop v BIT4_0 BIT4_0 BIT4_1 (size4 v) 0 BIT4_1" "reduce_spec BIT4_0 BIT4_0 BIT4_1 BIT4_1"
  by unfold_locales (simp_all add: of_ANDR_def reduce_stop_ok reduce_spec_def rvec_size)

interpretation NANDR: reduction of_NANDR "\<lambda>v. reduce_stop v BIT4_0 BIT4_1 BIT4_1 (size4 v) 0 BIT4_0" "reduce_spec BIT4_0 BIT4_1 BIT4_1 BIT4_0"
  by unfold_locales (simp_all add: of_NANDR_def reduce_stop_ok reduce_spec_def rvec_size)

interpretation ORR: reduction of_ORR "\<lambda>v. reduce_stop v BIT4_1 BIT4_1 BIT4_0 (size4 v) 0 BIT4_0" "reduce_spec BIT4_1 BIT4_1 BIT4_0 BIT4_0"
  by unfold_locales (simp_all add: of_ORR_def reduce_stop_ok reduce_spec_def rvec_size)

interpretation NORR: reduction of_NORR "\<lambda>v. reduce_stop v BIT4_1 BIT4_0 BIT4_0 (size4 v) 0 BIT4_1" "reduce_spec BIT4_1 BIT4_0 BIT4_0 BIT4_1"
  by unfold_locales (simp_all add: of_NORR_def reduce_stop_ok reduce_spec_def rvec_size)

interpretation XORR: reduction of_XORR "\<lambda>v. reduce_xor v (size4 v) 0 BIT4_0" "parity_spec BIT4_0"
  by unfold_locales (simp_all add: of_XORR_def reduce_xor_ok rvec_size bit4_is_xz_def)

interpretation XNORR: reduction of_XNORR "\<lambda>v. reduce_xor v (size4 v) 0 BIT4_1" "parity_spec BIT4_1"
  by unfold_locales (simp_all add: of_XNORR_def reduce_xor_ok rvec_size bit4_is_xz_def)

end
