(* ===== verification/Vvp_ThreadMove.thy ===== *)
theory Vvp_ThreadMove
  imports Vvp_ThreadOps
begin

text \<open>
  The opcodes that move bits: the stack itself, width changes, concatenation and replication, part selects and shifts.
\<close>

section \<open>Stack\<close>

definition dup_spec :: "vvp_bit4_t list vthread \<Rightarrow> vvp_bit4_t list vthread option" where
  "dup_spec s = (case stack_vec4 s of a # st \<Rightarrow> Some (s\<lparr>stack_vec4 := a # a # st\<rparr>) | _ \<Rightarrow> None)"

definition pop_spec :: "nat \<Rightarrow> vvp_bit4_t list vthread \<Rightarrow> vvp_bit4_t list vthread option" where
  "pop_spec k s = (if k \<le> length (stack_vec4 s) then Some (s\<lparr>stack_vec4 := drop k (stack_vec4 s)\<rparr>) else None)"

interpretation DUP_VEC4: opcode of_DUP_VEC4 "\<lambda>_. dup_spec"
proof
  fix thr s and cp :: vvp_code assume r: "rthr thr s"
  have "dup_spec s = do { v \<leftarrow> peek_vec4 0 s; Some (push_vec4 v s) }"
    by (cases "stack_vec4 s") (simp_all add: dup_spec_def peek_vec4_def push_vec4_def)
  then show "refines rthr (of_DUP_VEC4 cp thr) (dup_spec s)" using r by (auto simp: of_DUP_VEC4_def intro!: refine_rules)
qed

interpretation POP_VEC4: opcode of_POP_VEC4 "\<lambda>cp. pop_spec (cp_number cp)"
proof
  fix thr s and cp :: vvp_code assume r: "rthr thr s"
  have "pop_spec k s = pop_vec4_cnt k s" for k by (simp add: pop_spec_def pop_vec4_cnt_def)
  then show "refines rthr (of_POP_VEC4 cp thr) (pop_spec (cp_number cp) s)" using r by (auto simp: of_POP_VEC4_def intro!: refine_rules)
qed

definition push_imm :: "vvp_code \<Rightarrow> vvp_bit4_t list vthread \<Rightarrow> vvp_bit4_t list vthread option" where
  "push_imm cp s = map_option (\<lambda>b. s\<lparr>stack_vec4 := b # stack_vec4 s\<rparr>) (imm_bits cp)"

interpretation PUSHI_VEC4: opcode of_PUSHI_VEC4 push_imm
proof
  fix thr s and cp :: vvp_code assume r: "rthr thr s"
  have "push_imm cp s = do { b \<leftarrow> imm_bits cp; Some (push_vec4 b s) }" by (cases "imm_bits cp") (simp_all add: push_imm_def push_vec4_def)
  then show "refines rthr (of_PUSHI_VEC4 cp thr) (push_imm cp s)" using r by (auto simp: of_PUSHI_VEC4_def intro!: refine_rules)
qed

section \<open>Width\<close>

interpretation CAST2: top_opcode of_CAST2
  "\<lambda>_ v. set_loop set_bit4 0 (\<lambda>idx. if value4 v idx = BIT4_1 then BIT4_1 else BIT4_0) (size4 v) v"
  "\<lambda>_ bs. Some (map (\<lambda>b. if b = BIT4_1 then BIT4_1 else BIT4_0) bs)"
proof
  fix v bs assume v: "rvec v bs"
  have "map (\<lambda>idx. if value4 v idx = BIT4_1 then BIT4_1 else BIT4_0) [0..<length bs] = map (\<lambda>b. if b = BIT4_1 then BIT4_1 else BIT4_0) bs"
    using v by (intro nth_equalityI) (simp_all add: rvec_value)
  then show "refines rvec (set_loop set_bit4 0 (\<lambda>idx. if value4 v idx = BIT4_1 then BIT4_1 else BIT4_0) (size4 v) v)
      (Some (map (\<lambda>b. if b = BIT4_1 then BIT4_1 else BIT4_0) bs))"
    using set_loop_refines [OF v rvec_size(1) [OF v]] rvec_size(1) [OF v] by metis
qed (simp add: of_CAST2_def)

interpretation BLEND: binary_opcode "\<lambda>l r. bitwise_loop (\<lambda>x y. if x = y then x else BIT4_X) r l"
  "\<lambda>a b. bitwise_spec (\<lambda>x y. if x = y then x else BIT4_X) b a" of_BLEND
  by unfold_locales (simp add: bitwise_refines, simp add: of_BLEND_def edit_as_pop bitwise_loop_def)

definition pad_spec :: "nat \<Rightarrow> (vvp_bit4_t list \<Rightarrow> vvp_bit4_t) \<Rightarrow> vvp_bit4_t list \<Rightarrow> vvp_bit4_t list option" where
  "pad_spec wid pad bs = (if wid = 0 then None else Some (take wid bs @ replicate (wid - length bs) (pad bs)))"

interpretation PAD_U: top_opcode of_PAD_U "\<lambda>cp v. Some (resize v (cp_number cp) BIT4_0)" "\<lambda>cp. pad_spec (cp_number cp) (\<lambda>_. BIT4_0)"
proof
  fix cp v bs assume "rvec v bs"
  then show "refines rvec (Some (resize v (cp_number cp) BIT4_0)) (pad_spec (cp_number cp) (\<lambda>_. BIT4_0) bs)"
    using resize_ok [of v "cp_number cp" BIT4_0] by (auto simp: pad_spec_def rvec_size intro!: refines_vec)
qed (simp add: of_PAD_U_def)

interpretation PAD_S: top_opcode of_PAD_S
  "\<lambda>cp v. Some (if size4 v < cp_number cp then resize v (cp_number cp) (value4 v (size4 v - 1)) else resize v (cp_number cp) BIT4_X)"
  "\<lambda>cp. pad_spec (cp_number cp) last"
proof
  fix cp v bs assume v: "rvec v bs"
  then have "value4 v (length bs - 1) = last bs" using rvec_size(2) [OF v] by (simp add: rvec_value last_conv_nth)
  then show "refines rvec (Some (if size4 v < cp_number cp then resize v (cp_number cp) (value4 v (size4 v - 1)) else resize v (cp_number cp) BIT4_X))
      (pad_spec (cp_number cp) last bs)"
    using resize_ok [OF rvec_size(5) [OF v], of "cp_number cp"] v by (auto simp: pad_spec_def rvec_size intro!: refines_vec)
qed (simp add: of_PAD_S_def Let_def)

section \<open>Concatenation and replication\<close>

lemma write_ok:
  assumes "wf4 v" "rvec w bs" "adr + length bs \<le> size4 v"
  shows "\<exists>u fl. set_vec v adr w = Some (u, fl) \<and> wf4 u \<and> size4 u = size4 v \<and>
    bits4 u = take adr (bits4 v) @ bs @ drop (adr + length bs) (bits4 v)"
  using set_vec_ok [OF assms(1) rvec_size(5) [OF assms(2)], of adr] assms(3) rvec_size(2) [OF assms(2)]
  by (auto simp: rvec_size [OF assms(2)])

interpretation concat_op: vec_op concat_vec4 "\<lambda>a b. Some (b @ a)"
proof
  fix m l a b assume m: "rvec m a" and l: "rvec l b"
  let ?x = "x_vec (size4 m + size4 l)"
  obtain u fl where u: "set_vec ?x 0 l = Some (u, fl)" "wf4 u" "size4 u = length a + length b" "bits4 u = b @ replicate (length a) BIT4_X"
    using write_ok [of ?x l b 0] l m by (auto simp: x_vec_ok rvec_size)
  obtain w fl' where "set_vec u (size4 l) m = Some (w, fl')" "wf4 w" "bits4 w = b @ a"
    using write_ok [OF u(2) m, of "length b"] u(3,4) l by (auto simp: rvec_size)
  then show "refines rvec (concat_vec4 m l) (Some (b @ a))"
    using u(1) rvec_size(2) [OF m] by (auto simp: concat_vec4_def intro!: refines_vec)
qed

lemma concat_as_pop: "of_CONCAT_VEC4 cp thr = do { (r, thr) \<leftarrow> pop_vec4 thr; edit_vec4 (\<lambda>l. concat_vec4 l r) thr }"
proof -
  consider "stack_vec4 thr = []" | x where "stack_vec4 thr = [x]" | x y st where "stack_vec4 thr = x # y # st"
    by (cases "stack_vec4 thr" rule: remdups_adj.cases) auto
  then show ?thesis
    by cases (simp_all add: of_CONCAT_VEC4_def pop_vec4_def peek_vec4_def edit_vec4_def pop_vec4_cnt_def poke_vec4_def)
qed

interpretation CONCAT_VEC4: binary_opcode concat_vec4 "\<lambda>a b. Some (b @ a)" of_CONCAT_VEC4
  by unfold_locales (rule concat_as_pop)

interpretation CONCATI_VEC4: immediate_opcode concat_vec4 "\<lambda>a b. Some (b @ a)" of_CONCATI_VEC4
  by unfold_locales (simp add: of_CONCATI_VEC4_def)

lemma replicate_loop_ok:
  assumes "rvec v bs" "wf4 res" "n * length bs \<le> size4 res"
  shows "\<exists>u. replicate_loop v n res = Some u \<and> wf4 u \<and> size4 u = size4 res \<and>
    bits4 u = concat (replicate n bs) @ drop (n * length bs) (bits4 res)"
  using assms(3)
proof (induction n)
  case (Suc n)
  then obtain u where u: "replicate_loop v n res = Some u" "wf4 u" "size4 u = size4 res"
    "bits4 u = concat (replicate n bs) @ drop (n * length bs) (bits4 res)" by auto
  have len: "length (concat (replicate n bs)) = n * length bs" by (simp add: length_concat sum_list_replicate)
  have "concat (replicate n bs) @ bs = concat (replicate (Suc n) bs)" 
    using arg_cong [OF replicate_append_same [of n bs], of concat] by simp
  then show ?case
    using write_ok [OF u(2) assms(1), of "n * length bs"] u Suc.prems len by (auto simp: rvec_size [OF assms(1)] add.commute)
qed (use assms(2) in simp)

interpretation REPLICATE: top_opcode of_REPLICATE
  "\<lambda>cp v. replicate_loop v (cp_number cp) (x_vec (size4 v * cp_number cp))"
  "\<lambda>cp bs. if cp_number cp = 0 then None else Some (concat (replicate (cp_number cp) bs))"
proof
  fix cp v bs assume v: "rvec v bs"
  show "refines rvec (replicate_loop v (cp_number cp) (x_vec (size4 v * cp_number cp)))
    (if cp_number cp = 0 then None else Some (concat (replicate (cp_number cp) bs)))"
    using replicate_loop_ok [OF v, of "x_vec (size4 v * cp_number cp)" "cp_number cp"] rvec_size(1,2) [OF v]
    by (auto simp: x_vec_ok mult.commute intro!: refines_vec)
qed (simp add: of_REPLICATE_def edit_as_pop)

section \<open>Part selects\<close>

definition part_bits :: "int \<Rightarrow> nat \<Rightarrow> vvp_bit4_t list \<Rightarrow> vvp_bit4_t list option" where
  "part_bits base wid bs =
     (if wid = 0 then None
      else Some (map (\<lambda>i. if 0 \<le> base + int i \<and> base + int i < int (length bs) then bs ! nat (base + int i) else BIT4_X) [0..<wid]))"

lemma part_refines:
  assumes v: "rvec v bs"
  shows "refines rvec (part_vec4 base wid v) (part_bits base wid bs)"
proof (cases "base \<ge> int (length bs) \<or> base + int wid \<le> 0 \<or> wid = 0")
  case True
  then have "map (\<lambda>i. if 0 \<le> base + int i \<and> base + int i < int (length bs) then bs ! nat (base + int i) else BIT4_X) [0..<wid]
      = replicate wid BIT4_X"
    by (intro nth_equalityI) auto
  then show ?thesis
    using True rvec_size(1) [OF v] by (auto simp: part_vec4_def Let_def part_bits_def x_vec_ok intro!: refines_vec)
next
  case False
  define vbase where "vbase = (if base < 0 then nat (- base) else 0)"
  define lo where "lo = nat (base + int vbase)"
  define w where "w = (if lo + (wid - vbase) > length bs then length bs - lo else wid - vbase)"
  have lo: "int lo = base + int vbase" "lo < length bs" "0 < w" "lo + w \<le> length bs" "vbase + w \<le> wid" "vbase < wid"
    using False rvec_size(2) [OF v] by (auto simp: lo_def vbase_def w_def split: if_splits)
  have run: "part_vec4 base wid v = do { sub \<leftarrow> subvalue v lo w; (res, _) \<leftarrow> set_vec (x_vec wid) vbase sub; Some res }"
    using False rvec_size(1) [OF v] by (auto simp: part_vec4_def Let_def vbase_def lo_def w_def)
  obtain sub where sub: "subvalue v lo w = Some sub" "wf4 sub" "bits4 sub = map (\<lambda>i. value4 v (lo + i)) [0..<w]"
    using vector4_part_ok [OF rvec_size(5) [OF v], of lo w] by (auto simp: subvalue_def)
  then have "rvec sub (map (\<lambda>i. bs ! (lo + i)) [0..<w])"
    using lo(3,4) rvec_value [OF v] by (intro rvecI) auto
  from write_ok [OF x_vec_ok(1) this, of vbase wid]
  obtain u fl where u: "set_vec (x_vec wid) vbase sub = Some (u, fl)" "wf4 u"
    "bits4 u = replicate vbase BIT4_X @ map (\<lambda>i. bs ! (lo + i)) [0..<w] @ replicate (wid - (vbase + w)) BIT4_X"
    using lo(5,6) by (auto simp: x_vec_ok)
  have "bits4 u = map (\<lambda>i. if 0 \<le> base + int i \<and> base + int i < int (length bs) then bs ! nat (base + int i) else BIT4_X) [0..<wid]"
  proof (rule nth_equalityI)
    fix i assume "i < length (bits4 u)"
    then have i: "i < wid" using u(3) lo(5) by simp
    consider "i < vbase" | "vbase \<le> i" "i < vbase + w" | "vbase + w \<le> i" by linarith
    then show "bits4 u ! i = map (\<lambda>i. if 0 \<le> base + int i \<and> base + int i < int (length bs) then bs ! nat (base + int i) else BIT4_X) [0..<wid] ! i"
    proof cases
      case 1
      then show ?thesis using i u(3) by (auto simp: vbase_def nth_append split: if_splits)
    next
      case 2
      have k: "base + int i = int (lo + (i - vbase))" "lo + (i - vbase) < length bs" "i - vbase < w"
        using 2 lo(1,4) by linarith+
      have "bits4 u ! i = bs ! (lo + (i - vbase))" using 2 k(3) by (simp add: u(3) nth_append)
      moreover have "nat (base + int i) = lo + (i - vbase)" "0 \<le> base + int i" "base + int i < int (length bs)" using k(1,2) by linarith+
      ultimately show ?thesis using i by simp
    next
      case 3
      then have "w = length bs - lo" using i by (auto simp: w_def split: if_splits)
      then have "int (length bs) \<le> base + int i" using 3 lo(1,2) by linarith
      moreover have "\<not> i - vbase < w" using 3 by linarith
      ultimately show ?thesis using i 3 u(3) by (simp add: nth_append)
    qed
  qed (use u(3) lo(5) in simp)
  then show ?thesis using run sub(1) u(1,2) False by (auto simp: part_bits_def intro!: refines_vec)
qed

text \<open>The base is read from its low 32 bits: nothing is said of a base that is not known or not a number of 32 bits because of higher ones.\<close>

definition part_spec :: "bool \<Rightarrow> nat \<Rightarrow> vvp_bit4_t list \<Rightarrow> vvp_bit4_t list \<Rightarrow> vvp_bit4_t list option" where
  "part_spec sf wid bs base =
     (let x = bnum sf base
      in if wid = 0 \<or> list_ex bit4_is_xz (drop 32 base) then None
         else if list_ex bit4_is_xz base then Some (replicate wid BIT4_X)
         else if - (2 ^ 31) \<le> x \<and> x < 2 ^ 31 then part_bits x wid bs
         else None)"

locale part_opcode =
  fixes f :: "vvp_code \<Rightarrow> vvp_vector4_t vthread \<Rightarrow> vvp_vector4_t vthread option" and sf :: bool
  assumes run: "f = of_PART_base sf"

sublocale part_opcode \<subseteq> opcode f "\<lambda>cp. on_two (part_spec sf (cp_number cp))"
proof
  fix thr s and cp :: vvp_code assume r: "rthr thr s"
  have "refines rvec (case (vector4_to_value b4 sf True :: (32 word \<times> bool) option) of
        Some (base, True) \<Rightarrow> part_vec4 (sint base) (cp_number cp) v | _ \<Rightarrow> Some (x_vec (cp_number cp)))
      (part_spec sf (cp_number cp) bs b)" if "rvec b4 b" "rvec v bs" for b4 b v bs
  proof -
    have "bnum sf b = (if sf then sval4 b4 else uval4 b4)" using bnum_bits4 [of sf b4] rvec_size(3) [OF that(1)] by simp
    then have val: "(vector4_to_value b4 sf True :: (32 word \<times> bool) option) =
        (if list_ex bit4_is_xz (take 32 b) then None else Some (word_of_int (bnum sf b), True))"
      using vector4_to_value_ok [of b4 sf True, where 'w = 32] rvec_size(3) [OF that(1)] by simp
    have xz: "list_ex bit4_is_xz b \<longleftrightarrow> list_ex bit4_is_xz (take 32 b) \<or> list_ex bit4_is_xz (drop 32 b)"
      using list_ex_append [of bit4_is_xz "take 32 b" "drop 32 b"] by simp
    have s32: "sint (word_of_int x :: 32 word) = x" if "- (2 ^ 31) \<le> x" "x < 2 ^ 31" for x :: int
      using that by (simp add: signed_of_int signed_take_bit_int_eq_self)
    consider "part_spec sf (cp_number cp) bs b = None" | "list_ex bit4_is_xz (take 32 b)" "cp_number cp \<noteq> 0"
      "part_spec sf (cp_number cp) bs b = Some (replicate (cp_number cp) BIT4_X)"
      | "\<not> list_ex bit4_is_xz (take 32 b)" "- (2 ^ 31) \<le> bnum sf b" "bnum sf b < 2 ^ 31"
        "part_spec sf (cp_number cp) bs b = part_bits (bnum sf b) (cp_number cp) bs"
      using xz unfolding part_spec_def Let_def
      by (cases "list_ex bit4_is_xz (take 32 b)"; cases "list_ex bit4_is_xz (drop 32 b)"; cases "cp_number cp = 0";
          cases "- (2 ^ 31) \<le> bnum sf b \<and> bnum sf b < 2 ^ 31"; simp only: simp_thms if_True if_False; blast)
    then show ?thesis
    proof cases
      case 2
      then show ?thesis using val by (auto simp: x_vec_ok intro!: refines_vec)
    next
      case 3
      then show ?thesis using val part_refines [OF that(2)] s32 by simp
    qed simp
  qed
  then show "refines rthr (f cp thr) (on_two (part_spec sf (cp_number cp)) s)"
    unfolding run of_PART_base_def on_two_pop by (auto intro!: refine_rules r)
qed

interpretation PART_S: part_opcode of_PART_S True by unfold_locales (simp add: of_PART_S_def)
interpretation PART_U: part_opcode of_PART_U False by unfold_locales (simp add: of_PART_U_def)

text \<open>The immediate base is the signed number of its \<open>bwid\<close> bits, or the whole word.\<close>

definition parti_base :: "bool \<Rightarrow> vvp_code \<Rightarrow> int option" where
  "parti_base sf cp =
     (let base = bit_idx0 cp; bwid = unat (bit_idx1 cp)
      in if sf \<and> bwid < 32 then if 0 < bwid \<and> uint base < 2 ^ bwid then Some (signed_take_bit (bwid - 1) (uint base)) else None
         else if sf \<or> uint base < 2 ^ 31 then Some (sint base) else None)"

definition parti_spec :: "bool \<Rightarrow> vvp_code \<Rightarrow> vvp_bit4_t list \<Rightarrow> vvp_bit4_t list option" where
  "parti_spec sf cp bs = do { base \<leftarrow> parti_base sf cp; part_bits base (cp_number cp) bs }"

lemma sign_extended:
  assumes "0 < n" "n < 32" "uint (w :: 32 word) < 2 ^ n"
  shows "sint (if w AND push_bit (n - 1) 1 \<noteq> 0 then w OR push_bit n (- 1) else w) = signed_take_bit (n - 1) (uint w)"
proof -
  have hi: "\<not> bit w i" if "n \<le> i" for i
  proof -
    have "take_bit n (uint w) = uint w" using assms(3) by (simp add: take_bit_int_eq_self)
    then have "bit (uint w) i \<longleftrightarrow> i < n \<and> bit (uint w) i" by (metis bit_take_bit_iff)
    then show ?thesis using that by (auto simp: bit_uint_iff dest: bit_imp_le_length)
  qed
  have top: "w AND push_bit (n - 1) 1 \<noteq> 0 \<longleftrightarrow> bit w (n - 1)"
    using bit_iff_and_push_bit_not_eq_0 [of w "n - 1"] by simp
  have "(if bit w (n - 1) then w OR push_bit n (- 1) else w) = word_of_int (signed_take_bit (n - 1) (uint w))"
  proof (rule bit_word_eqI)
    fix i assume "i < LENGTH(32)"
    then have i: "i < 32" by simp
    consider "i < n - 1" | "i = n - 1" | "n \<le> i" by linarith
    then show "bit (if bit w (n - 1) then w OR push_bit n (- 1) else w) i = bit (word_of_int (signed_take_bit (n - 1) (uint w)) :: 32 word) i"
      using assms(1,2) hi i
      by cases (auto simp: bit_word_of_int_iff bit_signed_take_bit_iff bit_uint_iff bit_or_iff bit_not_iff bit_mask_iff min_def)
  qed
  moreover have "(2::int) ^ (n - 1) \<le> 2 ^ 31" using assms(2) by (intro power_increasing) auto
  moreover have "min 31 (n - Suc 0) = n - Suc 0" using assms(2) by simp
  ultimately show ?thesis
    unfolding top using signed_take_bit_int_greater_eq_minus_exp [of "n - 1" "uint w"] signed_take_bit_int_less_exp [of "n - 1" "uint w"]
    by (simp add: sint_sbintrunc' signed_take_bit_int_eq_self)
qed

locale parti_opcode =
  fixes f :: "vvp_code \<Rightarrow> vvp_vector4_t vthread \<Rightarrow> vvp_vector4_t vthread option" and sf :: bool
  assumes base: "f = of_PARTI_base sf"

sublocale parti_opcode \<subseteq> opcode f "\<lambda>cp. on_top (parti_spec sf cp)"
proof
  fix thr s and cp :: vvp_code assume r: "rthr thr s"
  define b where "b = sint (if sf \<and> unat (bit_idx1 cp) < 32 \<and> bit_idx0 cp AND push_bit (unat (bit_idx1 cp) - 1) 1 \<noteq> 0
    then bit_idx0 cp OR push_bit (unat (bit_idx1 cp)) (- 1) else bit_idx0 cp)"
  have "parti_base sf cp = None \<or> parti_base sf cp = Some b"
    using sign_extended [of "unat (bit_idx1 cp)" "bit_idx0 cp"] by (auto simp: parti_base_def b_def Let_def)
  then have "refines rvec (part_vec4 b (cp_number cp) v) (parti_spec sf cp bs)" if "rvec v bs" for v bs
    using part_refines [OF that] by (auto simp: parti_spec_def)
  then show "refines rthr (f cp thr) (on_top (parti_spec sf cp) s)"
    unfolding on_top_edit base of_PARTI_base_def Let_def b_def [symmetric] by (intro edit_refines r)
qed

interpretation PARTI_S: parti_opcode of_PARTI_S True by unfold_locales (simp add: of_PARTI_S_def)
interpretation PARTI_U: parti_opcode of_PARTI_U False by unfold_locales (simp add: of_PARTI_U_def)

definition split_spec :: "vvp_code \<Rightarrow> vvp_bit4_t list vthread \<Rightarrow> vvp_bit4_t list vthread option" where
  "split_spec cp s =
     (case stack_vec4 s of
        a # st \<Rightarrow> if 0 < cp_number cp \<and> cp_number cp < length a
                   then Some (s\<lparr>stack_vec4 := take (cp_number cp) a # drop (cp_number cp) a # st\<rparr>) else None
      | _ \<Rightarrow> None)"

lemma split_spec_pop:
  "split_spec cp s =
     do { (bs, s) \<leftarrow> pop_vec4 s;
          let k = cp_number cp;
          if 0 < k \<and> k < length bs then Some (push_vec4 (take k bs) (push_vec4 (drop k bs) s)) else None }"
  by (cases "stack_vec4 s") (simp_all add: split_spec_def pop_vec4_def push_vec4_def Let_def)

lemma subvalue_refines:
  assumes "rvec v bs" "adr + wid \<le> length bs" "0 < wid"
  shows "\<exists>u. subvalue v adr wid = Some u \<and> rvec u (take wid (drop adr bs))"
proof -
  obtain u where "subvalue v adr wid = Some u" "wf4 u" "bits4 u = map (\<lambda>i. value4 v (adr + i)) [0..<wid]"
    using vector4_part_ok [OF rvec_size(5) [OF assms(1)], of adr wid] by (auto simp: subvalue_def)
  moreover have "map (\<lambda>i. value4 v (adr + i)) [0..<wid] = take wid (drop adr bs)"
    using assms(2) rvec_value [OF assms(1)] by (intro nth_equalityI) auto
  ultimately show ?thesis using assms(2,3) by (auto intro!: rvecI)
qed

lemma split_as_pop:
  "of_SPLIT_VEC4 cp thr = do { (val, thr) \<leftarrow> pop_vec4 thr;
     if cp_number cp < size4 val
     then do { lsb \<leftarrow> subvalue val 0 (cp_number cp); msb \<leftarrow> subvalue val (cp_number cp) (size4 val - cp_number cp);
               Some (push_vec4 lsb (push_vec4 msb thr)) }
     else None }"
  by (cases "stack_vec4 thr")
     (auto simp: of_SPLIT_VEC4_def Let_def peek_vec4_def pop_vec4_def poke_vec4_def push_vec4_def)

interpretation SPLIT_VEC4: opcode of_SPLIT_VEC4 split_spec
proof
  fix thr s and cp :: vvp_code assume r: "rthr thr s"
  have k: "refines rthr (if cp_number cp < size4 v
     then do { lsb \<leftarrow> subvalue v 0 (cp_number cp); msb \<leftarrow> subvalue v (cp_number cp) (size4 v - cp_number cp);
               Some (push_vec4 lsb (push_vec4 msb t)) } else None)
     (if 0 < cp_number cp \<and> cp_number cp < length bs then Some (push_vec4 (take (cp_number cp) bs) (push_vec4 (drop (cp_number cp) bs) u)) else None)"
    if v: "rvec v bs" "rthr t u" for v bs t u
    using subvalue_refines [OF v(1), of 0 "cp_number cp"] subvalue_refines [OF v(1), of "cp_number cp" "length bs - cp_number cp"]
    by (auto simp: rvec_size(1) [OF v(1)] intro!: refine_rules v)
  show "refines rthr (of_SPLIT_VEC4 cp thr) (split_spec cp s)"
    unfolding split_as_pop split_spec_pop Let_def by (rule refines_bind [OF pop_refines [OF r]]) (auto intro!: k)
qed

section \<open>Shifts\<close>

text \<open>
  The shift count is an index register; flag 4 tells that it is unknown (1) or does not fit (X), as \<open>vec4_to_index\<close> left it.
\<close>

definition shift_result :: "vvp_bit4_t \<Rightarrow> nat \<Rightarrow> vvp_bit4_t \<Rightarrow> (vvp_bit4_t list \<Rightarrow> vvp_bit4_t list) \<Rightarrow> vvp_bit4_t list \<Rightarrow> vvp_bit4_t list" where
  "shift_result fl shift pad g bs =
     (if fl = BIT4_1 then replicate (length bs) BIT4_X
      else if fl = BIT4_X \<or> shift \<ge> length bs then replicate (length bs) pad
      else g bs)"

definition shiftl_spec :: "vvp_code \<Rightarrow> vvp_bit4_t list vthread \<Rightarrow> vvp_bit4_t list vthread option" where
  "shiftl_spec cp s =
     (if cp_number cp < WORDS_COUNT
      then let k = unat (th_words s ! cp_number cp)
           in on_top (\<lambda>bs. Some (shift_result (th_flags s ! 4) k BIT4_0 (\<lambda>bs. replicate k BIT4_0 @ take (length bs - k) bs) bs)) s
      else None)"

lemma shiftl_spec_pop:
  "shiftl_spec cp s =
     do { k \<leftarrow> get_word (cp_number cp) s; fl \<leftarrow> get_flag 4 s;
          edit_vec4 (\<lambda>bs. Some (shift_result fl (unat k) BIT4_0 (\<lambda>bs. replicate (unat k) BIT4_0 @ take (length bs - unat k) bs) bs)) s }"
  by (simp add: shiftl_spec_def get_word_def get_flag_def on_top_edit Let_def)

definition shiftr_spec :: "(vvp_bit4_t list \<Rightarrow> vvp_bit4_t) \<Rightarrow> vvp_code \<Rightarrow> vvp_bit4_t list vthread \<Rightarrow> vvp_bit4_t list vthread option" where
  "shiftr_spec pad cp s =
     (if cp_number cp < WORDS_COUNT
      then let k = unat (th_words s ! cp_number cp)
           in on_top (\<lambda>bs. Some (shift_result (th_flags s ! 4) k (pad bs) (\<lambda>bs. drop k bs @ replicate k (pad bs)) bs)) s
      else None)"

lemma shiftr_spec_pop:
  "shiftr_spec pad cp s =
     do { k \<leftarrow> get_word (cp_number cp) s; (bs, s) \<leftarrow> pop_vec4 s; fl \<leftarrow> get_flag 4 s;
          Some (push_vec4 (shift_result fl (unat k) (pad bs) (\<lambda>bs. drop (unat k) bs @ replicate (unat k) (pad bs)) bs) s) }"
  by (cases "stack_vec4 s") (simp_all add: shiftr_spec_def get_word_def get_flag_def on_top_def pop_vec4_def push_vec4_def Let_def)

lemma rvec_fill: "0 < n \<Longrightarrow> rvec (vector4_fill n b) (replicate n b)"
  by (intro rvecI) (auto simp: bits4_fill)

text \<open>The blit of an empty vector to the start of another one changes nothing.\<close>

lemma set_vec_empty:
  assumes "wf4 v" "wf4 w" "size4 w = 0"
  shows "\<exists>fl. set_vec v 0 w = Some (v, fl)"
proof -
  have "set_vec_plane (size4 v) 0 0 d s = (d, False)" if "length d \<noteq> 0" for d s
    using that by (cases d) (simp_all add: set_vec_plane_def set_word_def ul_shl_def Let_def)
  moreover have "length (abits4 v) \<noteq> 0" "length (bbits4 v) \<noteq> 0" using assms(1) nwords_two [of "size4 v"] by (auto simp: wf4_def words4_def)
  ultimately show ?thesis using assms(3) by (auto simp: set_vec_def)
qed

lemma shiftl_refines:
  assumes v: "rvec v bs" and k: "0 < k" "k < length bs"
  shows "\<exists>u. do { blk \<leftarrow> subvalue v 0 (size4 v - k); (val, _) \<leftarrow> set_vec v 0 (vector4_fill k BIT4_0); (val, _) \<leftarrow> set_vec val k blk; Some val } = Some u
    \<and> wf4 u \<and> bits4 u = replicate k BIT4_0 @ take (length bs - k) bs"
proof -
  obtain blk where blk: "subvalue v 0 (length bs - k) = Some blk" "rvec blk (take (length bs - k) bs)"
    using subvalue_refines [OF v, of 0 "length bs - k"] k by auto
  obtain u fl where u: "set_vec v 0 (vector4_fill k BIT4_0) = Some (u, fl)" "wf4 u" "size4 u = length bs" "bits4 u = replicate k BIT4_0 @ drop k bs"
    using write_ok [OF rvec_size(5) [OF v] rvec_fill [OF k(1)], of 0 BIT4_0] k by (auto simp: rvec_size [OF v])
  obtain w fl' where w: "set_vec u k blk = Some (w, fl')" "wf4 w" "bits4 w = replicate k BIT4_0 @ take (length bs - k) bs"
    using write_ok [OF u(2) blk(2), of k] u(3,4) k by auto
  then show ?thesis using blk(1) u(1) by (simp add: rvec_size(1) [OF v])
qed

lemma shiftr_refines:
  assumes v: "rvec v bs" and k: "0 < k" "k \<le> length bs"
  shows "\<exists>u. do { blk \<leftarrow> subvalue v k (size4 v - k); (val, _) \<leftarrow> set_vec v 0 blk;
      (val, _) \<leftarrow> set_vec val (size4 v - k) (vector4_fill k pad); Some val } = Some u
    \<and> wf4 u \<and> bits4 u = drop k bs @ replicate k pad"
proof -
  obtain blk u fl where b: "subvalue v k (length bs - k) = Some blk" "set_vec v 0 blk = Some (u, fl)" "wf4 u" "size4 u = length bs"
    "take (length bs - k) (bits4 u) = drop k bs"
  proof (cases "k = length bs")
    case True
    obtain blk where "subvalue v k 0 = Some blk" "wf4 blk" "size4 blk = 0"
      using vector4_part_ok [OF rvec_size(5) [OF v], of k 0] by (auto simp: subvalue_def)
    then show thesis using set_vec_empty [OF rvec_size(5) [OF v], of blk] True that v by (auto simp: rvec_size)
  next
    case False
    then obtain blk where blk: "subvalue v k (length bs - k) = Some blk" "rvec blk (drop k bs)"
      using subvalue_refines [OF v, of k "length bs - k"] k by auto
    then show thesis
      using write_ok [OF rvec_size(5) [OF v] blk(2), of 0] that k by (auto simp: rvec_size(1) [OF v])
  qed
  obtain w fl' where "set_vec u (length bs - k) (vector4_fill k pad) = Some (w, fl')" "wf4 w" "bits4 w = drop k bs @ replicate k pad"
    using write_ok [OF b(3) rvec_fill [OF k(1)], of "length bs - k" pad] b(4,5) k by auto
  then show ?thesis using b by (simp add: rvec_size(1) [OF v])
qed

interpretation SHIFTL: opcode of_SHIFTL shiftl_spec
proof
  fix thr s and cp :: vvp_code assume r: "rthr thr s"
  have "refines rvec (let wid = size4 val
            in if fl = BIT4_1 then Some (x_vec wid)
               else if fl = BIT4_X \<or> unat k \<ge> wid then Some (vector4_fill wid BIT4_0)
               else if unat k > 0
               then do { blk \<leftarrow> subvalue val 0 (wid - unat k);
                         (val, _) \<leftarrow> set_vec val 0 (vector4_fill (unat k) BIT4_0);
                         (val, _) \<leftarrow> set_vec val (unat k) blk;
                         Some val }
               else Some val)
      (Some (shift_result fl (unat k) BIT4_0 (\<lambda>bs. replicate (unat k) BIT4_0 @ take (length bs - unat k) bs) bs))"
    if v: "rvec val bs" for val bs fl k
  proof (cases "fl = BIT4_1 \<or> fl = BIT4_X \<or> unat k \<ge> length bs \<or> unat k = 0")
    case True
    then show ?thesis
      using rvec_size(2) [OF v] by (auto simp: shift_result_def rvec_size [OF v] x_vec_ok bits4_fill intro!: refines_vec)
  next
    case False
    then show ?thesis
      using shiftl_refines [OF v, of "unat k"] rvec_size(2) [OF v]
      by (auto simp: shift_result_def rvec_size [OF v] Let_def intro!: refines_vec)
  qed
  then show "refines rthr (of_SHIFTL cp thr) (shiftl_spec cp s)"
    unfolding of_SHIFTL_def shiftl_spec_pop
    by (intro refines_bind [OF word_refines [OF r]] refines_bind [OF flag_refines [OF r]]) (auto intro!: edit_refines r)
qed

lemma shiftr_vec4_refines:
  assumes v: "rvec val bs" and pad: "pad = p bs"
  shows "refines rvec (shiftr_vec4 fl k pad val) (Some (shift_result fl (unat k) (p bs) (\<lambda>bs. drop (unat k) bs @ replicate (unat k) (p bs)) bs))"
proof (cases "fl = BIT4_1 \<or> fl = BIT4_X \<or> unat k > length bs \<or> unat k = 0")
  case True
  then show ?thesis
    using rvec_size(2) [OF v]
    by (auto simp: shift_result_def shiftr_vec4_def rvec_size [OF v] x_vec_ok bits4_fill pad intro!: refines_vec)
next
  case False
  then show ?thesis
    using shiftr_refines [OF v, of "unat k" pad] rvec_size(2) [OF v]
    by (auto simp: shift_result_def shiftr_vec4_def rvec_size(1) [OF v] Let_def pad intro!: refines_vec)
qed

lemma last_value: "rvec val bs \<Longrightarrow> value4 val (size4 val - 1) = last bs"
  by (simp add: rvec_size rvec_value last_conv_nth)

lemma shiftr_opcode_refines:
  assumes r: "rthr thr s" and q: "\<And>v bs. rvec v bs \<Longrightarrow> q v = p bs"
  shows "refines rthr (do { shift \<leftarrow> get_word k thr; (val, thr) \<leftarrow> pop_vec4 thr; fl \<leftarrow> get_flag 4 thr;
      val \<leftarrow> shiftr_vec4 fl shift (q val) val; Some (push_vec4 val thr) })
    (do { shift \<leftarrow> get_word k s; (bs, s) \<leftarrow> pop_vec4 s; fl \<leftarrow> get_flag 4 s;
      x \<leftarrow> Some (shift_result fl (unat shift) (p bs) (\<lambda>bs. drop (unat shift) bs @ replicate (unat shift) (p bs)) bs);
      Some (push_vec4 x s) })"
proof -
  have "refines rthr (do { fl \<leftarrow> get_flag 4 t; val \<leftarrow> shiftr_vec4 fl shift (q v) v; Some (push_vec4 val t) })
    (do { fl \<leftarrow> get_flag 4 u;
      x \<leftarrow> Some (shift_result fl (unat shift) (p bs) (\<lambda>bs. drop (unat shift) bs @ replicate (unat shift) (p bs)) bs);
      Some (push_vec4 x u) })" if "rvec v bs" "rthr t u" for v bs t u shift
    by (rule refines_bind [OF flag_refines [OF that(2)]], hypsubst, 
        rule refines_bind [OF shiftr_vec4_refines [where pad = "q v" and p = p, OF that(1) q [OF that(1)]]])
       (auto intro!: refine_rules that)
  then show ?thesis
    by (intro refines_bind [OF word_refines [OF r]] refines_bind [OF pop_refines [OF r]]) auto
qed

interpretation SHIFTR: opcode of_SHIFTR "shiftr_spec (\<lambda>_. BIT4_0)"
  by unfold_locales (use shiftr_opcode_refines [where q = "\<lambda>_. BIT4_0" and p = "\<lambda>_. BIT4_0"] in \<open>simp add: of_SHIFTR_def shiftr_spec_pop\<close>)

interpretation SHIFTR_S: opcode of_SHIFTR_S "shiftr_spec last"
  by unfold_locales (use shiftr_opcode_refines [where q = "\<lambda>v. value4 v (size4 v - 1)" and p = last] last_value in
    \<open>simp add: of_SHIFTR_S_def shiftr_spec_pop\<close>)

end
