(* ===== verification/Vvp_ThreadCompare.thy ===== *)
theory Vvp_ThreadCompare
  imports Vvp_ThreadOps
begin

text \<open>
  The comparison opcodes of the thread interpreter, which leave their result in the flags 4 (equal), 5 (less) and 6 (case equal),
  and the opcodes on flags and index registers.
\<close>

section \<open>Specification\<close>

definition b4 :: "bool \<Rightarrow> vvp_bit4_t" where "b4 p = (if p then BIT4_1 else BIT4_0)"

definition clash :: "vvp_bit4_t \<Rightarrow> vvp_bit4_t \<Rightarrow> bool" where
  "clash x y \<longleftrightarrow> x \<noteq> y \<and> \<not> bit4_is_xz x \<and> \<not> bit4_is_xz y"

text \<open>Equality: 0 if two known bits differ, otherwise unknown if a bit is.\<close>

definition eq_bits :: "vvp_bit4_t list \<Rightarrow> vvp_bit4_t list \<Rightarrow> vvp_bit4_t" where
  "eq_bits a b = (if list_ex (\<lambda>(x, y). clash x y) (zip a b) then BIT4_0 else if list_ex bit4_is_xz (a @ b) then BIT4_X else BIT4_1)"

definition cmpe_spec :: "vvp_bit4_t list \<Rightarrow> vvp_bit4_t list \<Rightarrow> (nat \<times> vvp_bit4_t) list option" where
  "cmpe_spec = equal_width (\<lambda>a b. [(4, eq_bits a b), (6, b4 (a = b))])"

definition cmpne_spec :: "vvp_bit4_t list \<Rightarrow> vvp_bit4_t list \<Rightarrow> (nat \<times> vvp_bit4_t) list option" where
  "cmpne_spec = equal_width (\<lambda>a b. [(4, bit4_not (eq_bits a b)), (6, b4 (a \<noteq> b))])"

text \<open>
  Order: flag 4 is the equality above, flag 5 is unknown if a bit is. The signed opcodes set flag 4 to X whenever a bit is unknown,
  against their documentation: the specification leaves out the vectors with an unknown bit of which two known bits differ.
\<close>

definition order_spec :: "bool \<Rightarrow> vvp_bit4_t list \<Rightarrow> vvp_bit4_t list \<Rightarrow> (nat \<times> vvp_bit4_t) list option" where
  "order_spec sf a b =
     (let xz = list_ex bit4_is_xz (a @ b)
      in if length a \<noteq> length b \<or> sf \<and> xz \<and> list_ex (\<lambda>(x, y). clash x y) (zip a b) then None
         else Some [(4, eq_bits a b), (5, if xz then BIT4_X else b4 (bnum sf a < bnum sf b)), (6, b4 (a = b))])"

definition wild_spec :: "(vvp_bit4_t \<Rightarrow> vvp_bit4_t \<Rightarrow> bool) \<Rightarrow> vvp_bit4_t list \<Rightarrow> vvp_bit4_t list \<Rightarrow> (nat \<times> vvp_bit4_t) list option" where
  "wild_spec differ = equal_width (\<lambda>a b. [(4, b4 (\<not> list_ex (\<lambda>(x, y). differ x y) (zip a b)))])"

text \<open>Wildcard equality: the positions where the right operand is X or Z do not count.\<close>

definition weq_bits :: "vvp_bit4_t list \<Rightarrow> vvp_bit4_t list \<Rightarrow> vvp_bit4_t" where
  "weq_bits a b =
     (if list_ex (\<lambda>(x, y). clash x y) (zip a b) then BIT4_0
      else if list_ex (\<lambda>(x, y). bit4_is_xz x \<and> \<not> bit4_is_xz y) (zip a b) then BIT4_X else BIT4_1)"

definition cmpwe_spec :: "(vvp_bit4_t \<Rightarrow> vvp_bit4_t) \<Rightarrow> vvp_bit4_t list \<Rightarrow> vvp_bit4_t list \<Rightarrow> (nat \<times> vvp_bit4_t) list option" where
  "cmpwe_spec g = equal_width (\<lambda>a b. [(4, g (weq_bits a b))])"

section \<open>The loops\<close>

lemma bit_cases: "\<not> bit4_is_xz x \<longleftrightarrow> x = BIT4_0 \<or> x = BIT4_1"
  by (cases x) (simp_all add: bit4_is_xz_def)

lemma cmp_eq_loop_step:
  assumes "eq = BIT4_1 \<or> eq = BIT4_X" "value4 l idx = x" "value4 r idx = y"
  shows "cmp_eq_loop l r (Suc n) idx eq ee = (if clash x y then (BIT4_0, BIT4_0)
    else cmp_eq_loop l r n (idx + 1) (if bit4_is_xz x \<or> bit4_is_xz y then BIT4_X else eq) (if x = y then ee else BIT4_0))"
  using assms(1) by (cases x; cases y) (auto simp: Let_def clash_def bit4_is_xz_def assms(2,3))

lemma cmp_eq_loop_ok:
  assumes "rvec l a" "rvec r b" "length a = length b" "idx + n = length a" "eq = BIT4_1 \<or> eq = BIT4_X"
  shows "cmp_eq_loop l r n idx eq ee =
    (if list_ex (\<lambda>(x, y). clash x y) (zip (drop idx a) (drop idx b)) then (BIT4_0, BIT4_0)
     else (if list_ex bit4_is_xz (drop idx a @ drop idx b) then BIT4_X else eq, if drop idx a = drop idx b then ee else BIT4_0))"
  using assms(4,5)
proof (induction n arbitrary: idx eq ee)
  case (Suc n)
  then have i: "idx < length a" "idx < length b" "idx + 1 + n = length a" using assms(3) by simp_all
  let ?eq = "if bit4_is_xz (value4 l idx) \<or> bit4_is_xz (value4 r idx) then BIT4_X else eq"
  have "?eq = BIT4_1 \<or> ?eq = BIT4_X" using Suc.prems(2) by simp
  note ih = Suc.IH [OF i(3) this]
  show ?case
    unfolding drop_value [OF assms(1) i(1)] drop_value [OF assms(2) i(2)] cmp_eq_loop_step [OF Suc.prems(2) refl refl] ih
      zip_Cons_Cons list_ex_append prod.case list.inject append_Cons
    by (cases "clash (value4 l idx) (value4 r idx)"; cases "value4 l idx = value4 r idx";
        cases "bit4_is_xz (value4 l idx)"; cases "bit4_is_xz (value4 r idx)"; simp)
qed (use assms(3) in auto)

lemma no_xz_eq: "length a = length b \<Longrightarrow> \<not> list_ex bit4_is_xz (a @ b) \<Longrightarrow> list_ex (\<lambda>(x, y). clash x y) (zip a b) \<longleftrightarrow> a \<noteq> b"
  by (induction a b rule: list_induct2) (auto simp: clash_def)

lemma clash_neq: "list_ex (\<lambda>(x, y). clash x y) (zip a b) \<Longrightarrow> a \<noteq> b"
  by (induction a b rule: list_induct2') (auto simp: clash_def)

lemma cmp_eq_loop_xz:
  assumes "rvec l a" "rvec r b" "length a = length b" "list_ex bit4_is_xz (a @ b)"
  shows "cmp_eq_loop l r (length a) 0 BIT4_1 BIT4_1 = (eq_bits a b, b4 (a = b))"
  unfolding cmp_eq_loop_ok [OF assms(1-3), of 0 "length a" BIT4_1 BIT4_1, simplified]
  using assms(4) clash_neq [of a b] by (auto simp: eq_bits_def b4_def)

lemma rvec_xz: "rvec v bs \<Longrightarrow> has_xz v \<longleftrightarrow> list_ex bit4_is_xz bs"
  using has_xz_iff [of v] rvec_size [of v bs] by auto

lemma set_flags_one [simp]: "set_flags [(k, x)] = set_flag k x"
proof (rule ext)
  fix s show "set_flags [(k, x)] s = set_flag k x s" by (cases "set_flag k x s") simp_all
qed

lemma do_CMPE_ok:
  assumes "rvec l a" "rvec r b" "length a = length b"
  shows "do_CMPE thr l r = set_flags [(4, eq_bits a b), (6, b4 (a = b))] thr"
proof -
  have sz: "size4 l = length a" "size4 r = length b" "bits4 l = a" "bits4 r = b" using assms by (simp_all add: rvec_size)
  show ?thesis
  proof (cases "list_ex bit4_is_xz (a @ b)")
    case True
    then show ?thesis using cmp_eq_loop_xz [OF assms True] assms(3) sz rvec_xz [OF assms(1)] rvec_xz [OF assms(2)] by (simp add: do_CMPE_def)
  next
    case False
    then show ?thesis
      using no_xz_eq [OF assms(3) False] assms(3) sz rvec_xz [OF assms(1)] rvec_xz [OF assms(2)]
      by (auto simp: do_CMPE_def eq_bits_def b4_def eeq_iff)
  qed
qed

interpretation cmpe: flag_op do_CMPE cmpe_spec
  by unfold_locales (auto simp: cmpe_spec_def equal_width_def do_CMPE_ok split: if_splits)

lemma flag_bounds: "set_flag 4 x thr = Some (thr\<lparr>th_flags := (th_flags thr)[4 := x]\<rparr>)" "set_flag 5 x thr = Some (thr\<lparr>th_flags := (th_flags thr)[5 := x]\<rparr>)"
  "set_flag 6 x thr = Some (thr\<lparr>th_flags := (th_flags thr)[6 := x]\<rparr>)"
  by (simp_all add: set_flag_def)

interpretation CMPE: compare_opcode do_CMPE cmpe_spec of_CMPE by unfold_locales (simp add: of_CMPE_def)
interpretation CMPIE: compare_imm_opcode do_CMPE cmpe_spec of_CMPIE by unfold_locales (simp add: of_CMPIE_def)

text \<open>The inverting forms read back the flags that they have just written.\<close>

lemma invert_flags:
  assumes "rthr thr s"
  shows "do { t \<leftarrow> set_flags [(4, x), (6, y)] thr; t \<leftarrow> invert_flag 4 t; invert_flag 6 t } = set_flags [(4, bit4_not x), (6, bit4_not y)] thr"
    "do { t \<leftarrow> set_flag 4 x thr; invert_flag 4 t } = set_flag 4 (bit4_not x) thr"
  using assms
  by (simp_all add: rthr_def wf_thread_def invert_flag_def get_flag_def set_flag_def list_update_swap [of 6 4])

lemma bit4_not_b4: "bit4_not (b4 p) = b4 (\<not> p)"
  by (simp add: b4_def bit4_not_table)

interpretation cmpne: flag_op do_CMPNE cmpne_spec
proof
  fix thr s l a r b fl assume h: "rthr thr s" "rvec l a" "rvec r b" "cmpne_spec a b = Some fl"
  then have len: "length a = length b" and fl: "fl = [(4, bit4_not (eq_bits a b)), (6, bit4_not (b4 (a = b)))]"
    by (auto simp: cmpne_spec_def equal_width_def bit4_not_b4 split: if_splits)
  show "do_CMPNE thr l r = set_flags fl thr"
    unfolding do_CMPNE_def do_CMPE_ok [OF h(2,3) len] invert_flags(1) [OF h(1)] fl by (rule refl)
qed

interpretation CMPNE: compare_opcode do_CMPNE cmpne_spec of_CMPNE by unfold_locales (simp add: of_CMPNE_def)
interpretation CMPINE: compare_imm_opcode do_CMPNE cmpne_spec of_CMPINE by unfold_locales (simp add: of_CMPINE_def)

section \<open>Order\<close>

lemma ubits_take_Suc: "i < length xs \<Longrightarrow> ubits (take (Suc i) xs) = ubits (take i xs) + 2 ^ i * of_bool (xs ! i)"
  by (simp add: take_Suc_conv_app_nth ubits_def horner_sum_append min_absorb2)

lemma ubits_take_less: "ubits (take i xs) < 2 ^ i" "0 \<le> ubits (take i xs)"
proof -
  have "ubits (take i xs) < 2 ^ length (take i xs)" by (rule ubits_less)
  also have "\<dots> \<le> (2::int) ^ i" by (intro power_increasing) auto
  finally show "ubits (take i xs) < 2 ^ i" .
qed (simp add: ubits_nonneg)

lemma cmps_loop_ok:
  assumes "rvec l a" "rvec r b" "length a = length b" "\<not> list_ex bit4_is_xz (a @ b)" "i \<le> length a"
  shows "cmps_loop l r i = (let x = ubits (map one4 (take i a)); y = ubits (map one4 (take i b)) in (b4 (x = y), b4 (x < y), b4 (x = y)))"
  using assms(5)
proof (induction i)
  case (Suc i)
  then have i: "i < length a" "i < length b" using assms(3) by simp_all
  have k: "a ! i = BIT4_0 \<or> a ! i = BIT4_1" "b ! i = BIT4_0 \<or> b ! i = BIT4_1"
    using assms(4) i by (auto simp: list_ex_iff simp flip: bit_cases dest: nth_mem)
  define x y where "x = ubits (take i (map one4 a))" and "y = ubits (take i (map one4 b))"
  have s: "ubits (map one4 (take (Suc i) a)) = x + 2 ^ i * of_bool (one4 (a ! i))" "ubits (map one4 (take (Suc i) b)) = y + 2 ^ i * of_bool (one4 (b ! i))"
    using ubits_take_Suc [of i "map one4 a"] ubits_take_Suc [of i "map one4 b"] i by (simp_all add: x_def y_def take_map)
  have bnd: "0 \<le> x" "x < 2 ^ i" "0 \<le> y" "y < 2 ^ i" using ubits_take_less by (simp_all add: x_def y_def)
  have ih: "cmps_loop l r i = (b4 (x = y), b4 (x < y), b4 (x = y))" using Suc.IH i by (simp add: Let_def x_def y_def take_map)
  show ?case
    unfolding s Let_def cmps_loop.simps ih rvec_value [OF assms(1) i(1)] rvec_value [OF assms(2) i(2)] using k bnd by (auto simp: b4_def)
qed (simp add: b4_def)

lemma known_ones: "length a = length b \<Longrightarrow> \<not> list_ex bit4_is_xz (a @ b) \<Longrightarrow> map one4 a = map one4 b \<longleftrightarrow> a = b"
  by (induction a b rule: list_induct2) (auto simp: bit_cases)

lemma known_ubits: "length a = length b \<Longrightarrow> \<not> list_ex bit4_is_xz (a @ b) \<Longrightarrow> ubits (map one4 a) = ubits (map one4 b) \<longleftrightarrow> a = b"
  using known_ones [of a b] ubits_eq_iff [of "map one4 a" "map one4 b"] by simp

lemma bnum_top:
  assumes "length a = Suc m"
  shows "bnum True a = ubits (map one4 (take m a)) - (if one4 (a ! m) then 2 ^ m else 0)"
    "ubits (map one4 a) = ubits (map one4 (take m a)) + (if one4 (a ! m) then 2 ^ m else 0)"
proof -
  have ne: "map one4 a \<noteq> []" using assms by auto
  have l: "last (map one4 a) = one4 (a ! m)" using assms ne by (simp add: last_conv_nth)
  show u: "ubits (map one4 a) = ubits (map one4 (take m a)) + (if one4 (a ! m) then 2 ^ m else 0)"
    using ubits_take_Suc [of m "map one4 a"] assms by (simp add: take_map)
  show "bnum True a = ubits (map one4 (take m a)) - (if one4 (a ! m) then 2 ^ m else 0)"
    using sbits_ubits [OF ne] assms by (simp add: bnum_def l u)
qed

lemma set_flags456_three: "set_flags456 (x, y, z) thr = set_flags [(4, x), (5, y), (6, z)] thr"
  by (simp add: set_flags456_def set_flag_def)

lemma do_CMPS_ok:
  assumes "rvec l a" "rvec r b" "length a = length b"
  shows "do_CMPS thr l r = set_flags (if list_ex bit4_is_xz (a @ b) then [(4, BIT4_X), (5, BIT4_X), (6, b4 (a = b))]
     else [(4, b4 (a = b)), (5, b4 (bnum True a < bnum True b)), (6, b4 (a = b))]) thr"
proof -
  have sz: "size4 l = length a" "size4 r = length b" "bits4 l = a" "bits4 r = b" using assms by (simp_all add: rvec_size)
  obtain m where m: "length a = Suc m" "length b = Suc m" using rvec_size(2) [OF assms(1)] assms(3) by (cases a) auto
  show ?thesis
  proof (cases "list_ex bit4_is_xz (a @ b)")
    case True
    then show ?thesis
      using sz assms(3) rvec_xz [OF assms(1)] rvec_xz [OF assms(2)] by (simp add: do_CMPS_def set_flags456_three eeq_iff b4_def del: set_flags.simps)
  next
    case False
    define x y where "x = ubits (map one4 (take m a))" and "y = ubits (map one4 (take m b))"
    have bnd: "0 \<le> x" "x < 2 ^ m" "0 \<le> y" "y < 2 ^ m" using ubits_take_less by (simp_all add: x_def y_def flip: take_map)
    have eq: "a = b \<longleftrightarrow> ubits (map one4 a) = ubits (map one4 b)" using known_ubits [OF assms(3) False] by simp
    have k: "a ! m = BIT4_0 \<or> a ! m = BIT4_1" "b ! m = BIT4_0 \<or> b ! m = BIT4_1"
      using False m by (auto simp: list_ex_iff simp flip: bit_cases dest: nth_mem)
    have "do_CMPS thr l r = set_flags456 (if a ! m = BIT4_1 \<and> b ! m = BIT4_0 then (BIT4_0, BIT4_1, BIT4_0)
        else if a ! m = BIT4_0 \<and> b ! m = BIT4_1 then (BIT4_0, BIT4_0, BIT4_0) else (b4 (x = y), b4 (x < y), b4 (x = y))) thr"
      using False sz m rvec_xz [OF assms(1)] rvec_xz [OF assms(2)] cmps_loop_ok [OF assms False, of m]
      by (simp add: do_CMPS_def Let_def x_def y_def rvec_value [OF assms(1)] rvec_value [OF assms(2)])
    also have "\<dots> = set_flags456 (b4 (a = b), b4 (bnum True a < bnum True b), b4 (a = b)) thr"
      unfolding eq bnum_top [OF m(1)] bnum_top [OF m(2)] x_def [symmetric] y_def [symmetric] using k bnd by (auto simp: b4_def)
    finally show ?thesis unfolding set_flags456_three using False by (simp del: set_flags.simps)
  qed
qed

lemma eq_bits_cases:
  assumes "length a = length b"
  shows "eq_bits a b = (if list_ex bit4_is_xz (a @ b) then if list_ex (\<lambda>(x, y). clash x y) (zip a b) then BIT4_0 else BIT4_X else b4 (a = b))"
  using no_xz_eq [OF assms] by (auto simp: eq_bits_def b4_def)

lemma order_specD:
  assumes "order_spec sf a b = Some fl"
  shows "length a = length b" "sf \<and> list_ex bit4_is_xz (a @ b) \<Longrightarrow> eq_bits a b = BIT4_X"
    "fl = [(4, eq_bits a b), (5, if list_ex bit4_is_xz (a @ b) then BIT4_X else b4 (bnum sf a < bnum sf b)), (6, b4 (a = b))]"
  using assms by (auto simp: order_spec_def Let_def eq_bits_def split: if_splits)

interpretation cmps: flag_op do_CMPS "order_spec True"
proof
  fix thr s l a r b fl assume "rthr thr s" and v: "rvec l a" "rvec r b" and fl: "order_spec True a b = Some fl"
  note d = order_specD [OF fl]
  show "do_CMPS thr l r = set_flags fl thr"
    unfolding do_CMPS_ok [OF v d(1)] d(3) using d(2) eq_bits_cases [OF d(1)] by (simp del: set_flags.simps)
qed

interpretation CMPS: compare_opcode do_CMPS "order_spec True" of_CMPS by unfold_locales (simp add: of_CMPS_def)
interpretation CMPIS: compare_imm_opcode do_CMPS "order_spec True" of_CMPIS by unfold_locales (simp add: of_CMPIS_def)

lemma wval_snoc: "wval (ws @ [w]) = wval ws + 2 ^ (64 * length ws) * uint w"
  by (simp add: wval_def horner_sum_append power_mult)

lemma cmpu_words_ok: "length ws = length vs \<Longrightarrow> cmpu_words ws vs = (b4 (wval ws = wval vs), b4 (wval ws < wval vs))"
proof (induction ws arbitrary: vs rule: rev_induct)
  case (snoc w ws)
  then obtain us u where vs: "vs = us @ [u]" "length us = length ws" by (metis length_append_singleton length_Suc_conv_rev)
  have step: "cmpu_words (ws @ [w]) (us @ [u]) = (if w = u then cmpu_words ws us else (BIT4_0, if w < u then BIT4_1 else BIT4_0))"
    using vs(2) by (simp add: cmpu_words_def split: prod.split)
  let ?p = "2 ^ (64 * length ws) :: int"
  have bnd: "0 \<le> wval ws" "wval ws < ?p" "0 \<le> wval us" "wval us < ?p"
    using wval_less [of ws] wval_less [of us] vs(2) by (simp_all add: wval_nonneg)
  show ?case
  proof (cases "w = u")
    case True
    then show ?thesis using snoc.IH [OF vs(2) [symmetric]] vs step by (simp add: wval_snoc)
  next
    case False
    then consider "uint w + 1 \<le> uint u" "w < u" | "uint u + 1 \<le> uint w" "\<not> w < u"
      by (metis word_less_def zless_imp_add1_zle not_less_iff_gr_or_eq)
    then show ?thesis
    proof cases
      case 1
      then have "?p * (uint w + 1) \<le> ?p * uint u" by simp
      then have "?p * uint w + ?p \<le> ?p * uint u" by (simp only: distrib_left mult_1_right)
      then have "wval (ws @ [w]) < wval (us @ [u])" unfolding wval_snoc vs(2) using bnd by linarith
      then show ?thesis using False 1 vs step by (simp add: b4_def)
    next
      case 2
      then have "?p * (uint u + 1) \<le> ?p * uint w" by simp
      then have "?p * uint u + ?p \<le> ?p * uint w" by (simp only: distrib_left mult_1_right)
      then have "wval (us @ [u]) < wval (ws @ [w])" unfolding wval_snoc vs(2) using bnd by linarith
      then show ?thesis using False 2 vs step by (simp add: b4_def)
    qed
  qed
qed (simp add: cmpu_words_def b4_def)

lemma do_CMPU_ok:
  assumes "rvec l a" "rvec r b" "length a = length b"
  shows "do_CMPU thr l r = set_flags (if list_ex bit4_is_xz (a @ b) then [(4, eq_bits a b), (5, BIT4_X), (6, b4 (a = b))]
     else [(4, b4 (a = b)), (5, b4 (bnum False a < bnum False b)), (6, b4 (a = b))]) thr"
proof -
  have sz: "size4 l = length a" "size4 r = length b" "bits4 l = a" "bits4 r = b" using assms by (simp_all add: rvec_size)
  note sub = subarray_num [OF rvec_size(4) [OF assms(1)], unfolded sz] subarray_num [OF rvec_size(4) [OF assms(2)], unfolded sz]
  show ?thesis
  proof (cases "list_ex bit4_is_xz (a @ b)")
    case True
    have "do_CMPU thr l r = set_flags456 (eq_bits a b, BIT4_X, b4 (a = b)) thr"
      using True sub assms(3) cmp_eq_loop_xz [OF assms True] by (auto simp: do_CMPU_def Let_def sz split: if_splits)
    then show ?thesis using True by (simp add: set_flags456_three del: set_flags.simps)
  next
    case False
    then obtain la lb where "subarray l 0 (length a) False = Some la" "subarray r 0 (length b) False = Some lb"
      "length la = nwords (length a)" "length lb = nwords (length b)" "wval la = uval4 l" "wval lb = uval4 r"
      using sub by auto
    moreover have "uval4 l = bnum False a" "uval4 r = bnum False b" using bnum_bits4 [of False] sz(3,4) by auto
    ultimately have "do_CMPU thr l r = set_flags456 (b4 (bnum False a = bnum False b), b4 (bnum False a < bnum False b), b4 (bnum False a = bnum False b)) thr"
      using assms(3) by (simp add: do_CMPU_def Let_def sz cmpu_words_ok)
    moreover have "bnum False a = bnum False b \<longleftrightarrow> a = b" using known_ubits [OF assms(3) False] by (simp add: bnum_def)
    ultimately show ?thesis using False by (simp add: set_flags456_three del: set_flags.simps)
  qed
qed

interpretation cmpu: flag_op do_CMPU "order_spec False"
proof
  fix thr s l a r b fl assume "rthr thr s" and v: "rvec l a" "rvec r b" and fl: "order_spec False a b = Some fl"
  note d = order_specD [OF fl]
  show "do_CMPU thr l r = set_flags fl thr"
    unfolding do_CMPU_ok [OF v d(1)] d(3) using eq_bits_cases [OF d(1)] by (simp del: set_flags.simps)
qed

interpretation CMPU: compare_opcode do_CMPU "order_spec False" of_CMPU by unfold_locales (simp add: of_CMPU_def)
interpretation CMPIU: compare_imm_opcode do_CMPU "order_spec False" of_CMPIU by unfold_locales (simp add: of_CMPIU_def)

section \<open>Case and wildcard comparison\<close>

lemma do_CMPXZ_ok:
  assumes "rvec l a" "rvec r b" "length a = length b"
  shows "do_CMPXZ differ thr l r = set_flag 4 (b4 (\<not> list_ex (\<lambda>(x, y). differ x y) (zip a b))) thr"
proof -
  have "list_ex (\<lambda>i. differ (value4 l i) (value4 r i)) [0..<length a] \<longleftrightarrow> list_ex (\<lambda>(x, y). differ x y) (zip a b)"
    using assms(3) rvec_value [OF assms(1)] rvec_value [OF assms(2)] by (auto simp: list_ex_length)
  then show ?thesis using assms(3) rvec_size(1) [OF assms(1)] rvec_size(1) [OF assms(2)] by (simp add: do_CMPXZ_def b4_def)
qed

locale case_opcode =
  fixes f :: "vvp_code \<Rightarrow> vvp_vector4_t vthread \<Rightarrow> vvp_vector4_t vthread option" and differ :: "vvp_bit4_t \<Rightarrow> vvp_bit4_t \<Rightarrow> bool"
  assumes pops: "f cp thr = do { (r, thr) \<leftarrow> pop_vec4 thr; (l, thr) \<leftarrow> pop_vec4 thr; do_CMPXZ differ thr l r }"

sublocale case_opcode \<subseteq> compare_opcode "do_CMPXZ differ" "wild_spec differ" f
proof
  fix thr s l a r b fl assume "rthr thr s" "rvec l a" "rvec r b" "wild_spec differ a b = Some fl"
  then show "do_CMPXZ differ thr l r = set_flags fl thr"
    by (auto simp: wild_spec_def equal_width_def do_CMPXZ_ok simp del: set_flags.simps split: if_splits)
next
  fix cp and thr :: "vvp_vector4_t vthread"
  consider "stack_vec4 thr = []" | x where "stack_vec4 thr = [x]" | x y st where "stack_vec4 thr = x # y # st"
    by (cases "stack_vec4 thr" rule: remdups_adj.cases) auto
  then show "f cp thr = compare_stack (do_CMPXZ differ) thr"
    by cases (simp_all add: pops compare_stack_def pop_vec4_def peek_vec4_def pop_vec4_cnt_def do_CMPXZ_def set_flag_def)
qed

interpretation CMPX: case_opcode of_CMPX "\<lambda>lv rv. lv \<noteq> rv \<and> \<not> bit4_is_xz lv \<and> \<not> bit4_is_xz rv"
  by unfold_locales (simp add: of_CMPX_def)

interpretation CMPZ: case_opcode of_CMPZ "\<lambda>lv rv. lv \<noteq> rv \<and> rv \<noteq> BIT4_Z \<and> lv \<noteq> BIT4_Z"
  by unfold_locales (simp add: of_CMPZ_def)

lemma weq_loop_step:
  assumes "eq = BIT4_1 \<or> eq = BIT4_X" "value4 l idx = x" "value4 r idx = y"
  shows "weq_loop l r (Suc n) idx eq = (if clash x y then BIT4_0
    else weq_loop l r n (idx + 1) (if bit4_is_xz x \<and> \<not> bit4_is_xz y then BIT4_X else eq))"
  using assms(1) by (cases x; cases y) (auto simp: Let_def clash_def bit4_is_xz_def assms(2,3))

lemma weq_loop_ok:
  assumes "rvec l a" "rvec r b" "length a = length b" "idx + n = length a" "eq = BIT4_1 \<or> eq = BIT4_X"
  shows "weq_loop l r n idx eq =
    (if list_ex (\<lambda>(x, y). clash x y) (zip (drop idx a) (drop idx b)) then BIT4_0
     else if list_ex (\<lambda>(x, y). bit4_is_xz x \<and> \<not> bit4_is_xz y) (zip (drop idx a) (drop idx b)) then BIT4_X else eq)"
  using assms(4,5)
proof (induction n arbitrary: idx eq)
  case (Suc n)
  then have i: "idx < length a" "idx < length b" "idx + 1 + n = length a" using assms(3) by simp_all
  let ?eq = "if bit4_is_xz (value4 l idx) \<and> \<not> bit4_is_xz (value4 r idx) then BIT4_X else eq"
  have "?eq = BIT4_1 \<or> ?eq = BIT4_X" using Suc.prems(2) by simp
  note ih = Suc.IH [OF i(3) this]
  show ?case
    unfolding drop_value [OF assms(1) i(1)] drop_value [OF assms(2) i(2)] weq_loop_step [OF Suc.prems(2) refl refl] ih
      zip_Cons_Cons prod.case
    by (cases "clash (value4 l idx) (value4 r idx)"; cases "bit4_is_xz (value4 l idx)"; cases "bit4_is_xz (value4 r idx)"; simp)
qed (use assms(3) in auto)

lemma do_CMPWE_ok:
  assumes "rvec l a" "rvec r b" "length a = length b"
  shows "do_CMPWE thr l r = set_flag 4 (weq_bits a b) thr"
proof -
  have sz: "size4 l = length a" "size4 r = length b" "bits4 l = a" "bits4 r = b" using assms by (simp_all add: rvec_size)
  have w: "weq_loop l r (length a) 0 BIT4_1 = weq_bits a b" using weq_loop_ok [OF assms, of 0 "length a" BIT4_1] by (simp add: weq_bits_def)
  have e: "b4 (a = b) = weq_bits a b" if "\<not> list_ex bit4_is_xz (a @ b)"
  proof -
    have "\<not> list_ex (\<lambda>(x, y). bit4_is_xz x \<and> \<not> bit4_is_xz y) (zip a b)" using that by (auto simp: list_ex_iff dest: set_zip_leftD)
    then show ?thesis using no_xz_eq [OF assms(3) that] by (auto simp: weq_bits_def b4_def)
  qed
  show ?thesis
    using w e assms(3) sz rvec_xz [OF assms(1)] rvec_xz [OF assms(2)] by (auto simp: do_CMPWE_def eeq_iff b4_def [symmetric])
qed

interpretation cmpwe: flag_op do_CMPWE "cmpwe_spec (\<lambda>b. b)"
  by unfold_locales (auto simp: cmpwe_spec_def equal_width_def do_CMPWE_ok simp del: set_flags.simps split: if_splits)

interpretation cmpwne: flag_op do_CMPWNE "cmpwe_spec bit4_not"
proof
  fix thr s l a r b fl assume h: "rthr thr s" "rvec l a" "rvec r b" "cmpwe_spec bit4_not a b = Some fl"
  then have len: "length a = length b" and fl: "fl = [(4, bit4_not (weq_bits a b))]"
    by (auto simp: cmpwe_spec_def equal_width_def split: if_splits)
  show "do_CMPWNE thr l r = set_flags fl thr"
    unfolding do_CMPWNE_def do_CMPWE_ok [OF h(2,3) len] invert_flags(2) [OF h(1)] fl by simp
qed

interpretation CMPWE: compare_opcode do_CMPWE "cmpwe_spec (\<lambda>b. b)" of_CMPWE by unfold_locales (simp add: of_CMPWE_def)
interpretation CMPWNE: compare_opcode do_CMPWNE "cmpwe_spec bit4_not" of_CMPWNE by unfold_locales (simp add: of_CMPWNE_def)

end
