(* ===== verification/Vvp_ThreadIndex.thy ===== *)
theory Vvp_ThreadIndex
  imports Vvp_ThreadCompare
begin

text \<open>
  The opcodes of the thread interpreter on the flags and on the index registers. The conversion of a vector to an index tells in
  flag 4 whether the index is unknown (1) or does not fit 64 bits (X).
\<close>

section \<open>Flags\<close>

definition flag_get_spec :: "vvp_code \<Rightarrow> vvp_bit4_t list vthread \<Rightarrow> vvp_bit4_t list vthread option" where
  "flag_get_spec cp s =
     (if cp_number cp < FLAGS_COUNT then Some (s\<lparr>stack_vec4 := [th_flags s ! cp_number cp] # stack_vec4 s\<rparr>) else None)"

definition flag_set_spec :: "vvp_code \<Rightarrow> vvp_bit4_t list vthread \<Rightarrow> vvp_bit4_t list vthread option" where
  "flag_set_spec cp s = (case stack_vec4 s of a # st \<Rightarrow> write_flags [(cp_number cp, hd a)] (s\<lparr>stack_vec4 := st\<rparr>) | _ \<Rightarrow> None)"

text \<open>A flag computed from another one, and a register from its value and a 64-bit operand.\<close>

definition flag_spec :: "32 word \<Rightarrow> 32 word \<Rightarrow> (vvp_bit4_t \<Rightarrow> vvp_bit4_t \<Rightarrow> vvp_bit4_t) \<Rightarrow> vvp_bit4_t list vthread \<Rightarrow> vvp_bit4_t list vthread option" where
  "flag_spec i j f s =
     (if unat j < FLAGS_COUNT then write_flags [(unat i, f (th_flags s ! unat i) (th_flags s ! unat j))] s else None)"

definition flag_imm_spec :: "vvp_code \<Rightarrow> vvp_bit4_t list vthread \<Rightarrow> vvp_bit4_t list vthread option" where
  "flag_imm_spec cp s =
     do { b \<leftarrow> map_of [(0, BIT4_0), (1, BIT4_1), (2, BIT4_Z), (3, BIT4_X)] (unat (bit_idx0 cp)); write_flags [(cp_number cp, b)] s }"

definition write_word :: "nat \<Rightarrow> ulong \<Rightarrow> vvp_bit4_t list vthread \<Rightarrow> vvp_bit4_t list vthread option" where
  "write_word k w s = (if k < WORDS_COUNT then Some (s\<lparr>th_words := (th_words s)[k := w]\<rparr>) else None)"

definition ix_spec :: "(int \<Rightarrow> int \<Rightarrow> int) \<Rightarrow> vvp_code \<Rightarrow> vvp_bit4_t list vthread \<Rightarrow> vvp_bit4_t list vthread option" where
  "ix_spec f cp s =
     write_word (cp_number cp) (word_of_int (f (uint (th_words s ! cp_number cp)) (uint (bit_idx0 cp) + 2 ^ 32 * uint (bit_idx1 cp)))) s"

definition ix_mov_spec :: "vvp_code \<Rightarrow> vvp_bit4_t list vthread \<Rightarrow> vvp_bit4_t list vthread option" where
  "ix_mov_spec cp s =
     (if unat (bit_idx1 cp) < WORDS_COUNT then write_word (unat (bit_idx0 cp)) (th_words s ! unat (bit_idx1 cp)) s else None)"

interpretation FLAG_GET_VEC4: opcode of_FLAG_GET_VEC4 flag_get_spec
proof
  fix thr s and cp :: vvp_code assume r: "rthr thr s"
  have "rvec (vector4_fill 1 b) [b]" for b by (intro rvecI) (simp_all add: bits4_fill)
  moreover have "flag_get_spec cp s = do { b \<leftarrow> get_flag (cp_number cp) s; Some (push_vec4 [b] s) }"
    by (simp add: flag_get_spec_def get_flag_def push_vec4_def)
  ultimately show "refines rthr (of_FLAG_GET_VEC4 cp thr) (flag_get_spec cp s)"
    unfolding of_FLAG_GET_VEC4_def by (auto intro!: refines_bind [OF flag_refines [OF r]] refine_rules r)
qed

interpretation FLAG_SET_VEC4: opcode of_FLAG_SET_VEC4 flag_set_spec
proof
  fix thr s and cp :: vvp_code assume r: "rthr thr s"
  have hd: "value4 v 0 = hd bs" if "rvec v bs" for v bs using rvec_value [OF that, of 0] rvec_size(2) [OF that] by (simp add: hd_conv_nth)
  have spec: "flag_set_spec cp s = do { bs \<leftarrow> peek_vec4 0 s; s \<leftarrow> set_flag (cp_number cp) (hd bs) s; pop_vec4_cnt 1 s }"
    by (cases "stack_vec4 s") (simp_all add: flag_set_spec_def peek_vec4_def pop_vec4_cnt_def set_flag_def write_flags_def)
  show "refines rthr (of_FLAG_SET_VEC4 cp thr) (flag_set_spec cp s)"
    unfolding of_FLAG_SET_VEC4_def spec
    by (rule refines_bind [OF peek_refines [OF r]], rule refines_bind [OF set_flag_refines [OF hd r]], assumption, erule pop_cnt_refines)
qed

lemma write_flag_refines: "rthr thr s \<Longrightarrow> refines rthr (set_flag k b thr) (write_flags [(k, b)] s)"
  by (simp add: write_flags_set set_flag_refines del: set_flags.simps)

lemma rthr_flags: "rthr thr s \<Longrightarrow> th_flags thr = th_flags s" "rthr thr s \<Longrightarrow> th_words thr = th_words s"
  by (auto simp: rthr_def abs_thread_def)

interpretation FLAG_INV: opcode of_FLAG_INV "\<lambda>cp. flag_spec (bit_idx0 cp) (bit_idx0 cp) (\<lambda>_. bit4_not)"
  by unfold_locales (auto simp: of_FLAG_INV_def invert_flag_def flag_spec_def get_flag_def rthr_flags intro!: write_flag_refines)

interpretation FLAG_MOV: opcode of_FLAG_MOV "\<lambda>cp. flag_spec (bit_idx0 cp) (bit_idx1 cp) (\<lambda>_ b. b)"
  by unfold_locales (auto simp: of_FLAG_MOV_def flag_spec_def get_flag_def rthr_flags intro!: write_flag_refines)

interpretation FLAG_OR: opcode of_FLAG_OR "\<lambda>cp. flag_spec (bit_idx0 cp) (bit_idx1 cp) bit4_or"
proof
  fix thr s and cp :: vvp_code assume r: "rthr thr s"
  have "flag_spec i j f s = None" if "\<not> unat i < FLAGS_COUNT" for i j f using that by (simp add: flag_spec_def write_flags_def)
  then show "refines rthr (of_FLAG_OR cp thr) (flag_spec (bit_idx0 cp) (bit_idx1 cp) bit4_or s)"
    using write_flag_refines [OF r] by (cases "unat (bit_idx0 cp) < FLAGS_COUNT") (auto simp: of_FLAG_OR_def flag_spec_def get_flag_def rthr_flags [OF r])
qed

interpretation FLAG_SET_IMM: opcode of_FLAG_SET_IMM flag_imm_spec
proof
  fix thr s and cp :: vvp_code assume r: "rthr thr s"
  consider "unat (bit_idx0 cp) = 0" | "unat (bit_idx0 cp) = 1" | "unat (bit_idx0 cp) = 2" | "unat (bit_idx0 cp) = 3" | "4 \<le> unat (bit_idx0 cp)"
    by linarith
  then show "refines rthr (of_FLAG_SET_IMM cp thr) (flag_imm_spec cp s)"
    unfolding of_FLAG_SET_IMM_def flag_imm_spec_def Let_def using write_flag_refines [OF r] by cases simp_all
qed

section \<open>Index registers\<close>

lemma write_word_refines: "rthr thr s \<Longrightarrow> refines rthr (put_word k w thr) (write_word k w s)"
  using put_word_refines [of w w thr s k] by (simp add: put_word_def write_word_def)

lemma join_halves: "unat (push_bit 32 (ucast h) OR (ucast l :: ulong)) = unat l + 2 ^ 32 * unat h" for l h :: "32 word"
proof -
  have lt: "unat l < 2 ^ 32" "unat h < 2 ^ 32" using unsigned_less [of l, where ?'a = nat] unsigned_less [of h, where ?'a = nat] by simp_all
  have "push_bit 32 (ucast h) AND (ucast l :: ulong) = 0"
    by (rule bit_word_eqI) (auto simp: bit_and_iff bit_push_bit_iff bit_ucast_iff dest: bit_imp_le_length)
  then have "push_bit 32 (ucast h) OR (ucast l :: ulong) = push_bit 32 (ucast h) + ucast l" by (simp add: disjunctive_add_eq_or)
  moreover have "push_bit 32 (ucast h :: ulong) = of_nat (2 ^ 32 * unat h)" by (simp add: push_bit_eq_mult mult.commute)
  ultimately have "push_bit 32 (ucast h) OR (ucast l :: ulong) = of_nat (2 ^ 32 * unat h + unat l)" by simp
  then show ?thesis using lt by (simp only: unsigned_of_nat) (simp add: take_bit_nat_eq_self)
qed

lemma join_word_halves: "uint (push_bit 32 (ucast h) OR (ucast l :: ulong)) = uint l + 2 ^ 32 * uint h" for l h :: "32 word"
  using arg_cong [OF join_halves [of h l], of int] by simp

locale index_update =
  fixes f :: "vvp_code \<Rightarrow> vvp_vector4_t vthread \<Rightarrow> vvp_vector4_t vthread option"
    and word_fn :: "ulong \<Rightarrow> ulong \<Rightarrow> ulong" and int_fn :: "int \<Rightarrow> int \<Rightarrow> int"
  assumes update: "f = ix_update word_fn" and wraps: "word_fn v w = word_of_int (int_fn (uint v) (uint w))"

sublocale index_update \<subseteq> opcode f "ix_spec int_fn"
proof
  fix thr s and cp :: vvp_code assume r: "rthr thr s"
  show "refines rthr (f cp thr) (ix_spec int_fn cp s)"
    using write_word_refines [OF r, of "cp_number cp"]
    by (cases "cp_number cp < WORDS_COUNT")
       (simp_all add: update ix_update_def ix_spec_def get_word_def get_as_64_bit_def wraps join_word_halves rthr_flags [OF r] write_word_def [of "cp_number cp"])
qed

interpretation IX_ADD: index_update of_IX_ADD "(+)" "(+)" by unfold_locales (simp_all add: of_IX_ADD_def)
interpretation IX_SUB: index_update of_IX_SUB "(-)" "(-)" by unfold_locales (simp_all add: of_IX_SUB_def)
interpretation IX_MUL: index_update of_IX_MUL "(*)" "(*)" by unfold_locales (simp_all add: of_IX_MUL_def)
interpretation IX_LOAD: index_update of_IX_LOAD "\<lambda>_ i. i" "\<lambda>_ i. i" by unfold_locales (simp_all add: of_IX_LOAD_def)
interpretation IX_MOV: opcode of_IX_MOV ix_mov_spec
  by unfold_locales (auto simp: of_IX_MOV_def ix_mov_spec_def get_word_def rthr_flags intro!: write_word_refines)

text \<open>
  The index of a vector, as the code has it. A negative number of a width above 64 that is not a multiple of 64 is said not to fit although it may:
  the last word of the array is not sign extended.
\<close>

definition index_fits :: "bool \<Rightarrow> nat \<Rightarrow> int \<Rightarrow> bool" where
  "index_fits sf n x =
     (if sf then - (2 ^ 63) \<le> x \<and> x < 2 ^ 63 \<and> (0 \<le> x \<or> n \<le> 64 \<or> n mod 64 = 0) else x < 2 ^ 64)"

definition index_spec :: "bool \<Rightarrow> vvp_bit4_t list \<Rightarrow> ulong \<times> vvp_bit4_t" where
  "index_spec sf bs =
     (if list_ex bit4_is_xz bs then (0, BIT4_1)
      else (word_of_int (bnum sf bs), if index_fits sf (length bs) (bnum sf bs) then BIT4_0 else BIT4_X))"

definition ix_vec4_spec :: "bool \<Rightarrow> vvp_code \<Rightarrow> vvp_bit4_t list vthread \<Rightarrow> vvp_bit4_t list vthread option" where
  "ix_vec4_spec sf cp s =
     (case stack_vec4 s of
        [] \<Rightarrow> None
      | bs # st \<Rightarrow>
          let x = bnum sf bs; s = s\<lparr>stack_vec4 := st\<rparr>
          in if list_ex bit4_is_xz bs then do { s \<leftarrow> write_flags [(4, BIT4_1)] s; write_word (cp_number cp) 0 s }
             else if sf \<and> - (2 ^ 63) \<le> x \<and> x < 0 \<and> 64 < length bs \<and> length bs mod 64 \<noteq> 0 then None
             else do { s \<leftarrow> write_flags [(4, if if sf then - (2 ^ 63) \<le> x \<and> x < 2 ^ 63 else x < 2 ^ 64 then BIT4_0 else BIT4_X)] s;
                       write_word (cp_number cp) (word_of_int x) s })"

text \<open>The specification says nothing of the negative numbers that the code takes not to fit although they do.\<close>

lemma ix_vec4_spec_pop:
  "refines rthr x (do { (bs, s) \<leftarrow> pop_vec4 s; s \<leftarrow> set_flag 4 (snd (index_spec sf bs)) s; put_word (cp_number cp) (fst (index_spec sf bs)) s })
    \<Longrightarrow> refines rthr x (ix_vec4_spec sf cp s)"
proof -
  have "write_word k w = put_word k w" for k w by (intro ext) (simp add: write_word_def put_word_def)
  then show "refines rthr x (do { (bs, s) \<leftarrow> pop_vec4 s; s \<leftarrow> set_flag 4 (snd (index_spec sf bs)) s; put_word (cp_number cp) (fst (index_spec sf bs)) s })
    \<Longrightarrow> refines rthr x (ix_vec4_spec sf cp s)"
    by (cases "stack_vec4 s") (auto simp: ix_vec4_spec_def Let_def write_flags_set pop_vec4_def index_spec_def index_fits_def)
qed

lemma powers: "(2::int) ^ 63 = 9223372036854775808" "(2::int) ^ 64 = 18446744073709551616"
  by simp_all

lemma wval_zero: "wval ws = 0 \<longleftrightarrow> (\<forall>w \<in> set ws. w = 0)"
proof (induction ws)
  case (Cons w ws)
  have "0 \<le> uint w" "0 \<le> wval ws" by (simp_all add: wval_nonneg)
  then have "uint w + 2 ^ 64 * wval ws = 0 \<longleftrightarrow> uint w = 0 \<and> wval ws = 0" by (simp add: add_nonneg_eq_0_iff)
  then show ?case using Cons.IH by (simp add: uint_0_iff)
qed simp

lemma overflow_high: "list_ex (\<lambda>w. w \<noteq> 0) ws \<longleftrightarrow> wval ws \<noteq> 0" "list_ex (\<lambda>w. NOT w \<noteq> 0) ws \<longleftrightarrow> wval ws \<noteq> 2 ^ (64 * length ws) - 1"
proof -
  show "list_ex (\<lambda>w. w \<noteq> 0) ws \<longleftrightarrow> wval ws \<noteq> 0" by (auto simp: wval_zero list_ex_iff)
  have "wval ws \<noteq> 2 ^ (64 * length ws) - 1 \<longleftrightarrow> wval (map NOT ws) \<noteq> 0" by (auto simp: wval_not)
  then show "list_ex (\<lambda>w. NOT w \<noteq> 0) ws \<longleftrightarrow> wval ws \<noteq> 2 ^ (64 * length ws) - 1" by (auto simp: wval_zero list_ex_iff)
qed

text \<open>The arithmetic of the signed case: \<open>L\<close> is the low word, \<open>H\<close> the number above it.\<close>

lemma signed_fits:
  fixes x U L H P Q :: int
  assumes "x = U \<or> x = U - 2 ^ 64 * P" "- (2 ^ 63 * P) \<le> x" "x < 2 ^ 63 * P" "U = L + 2 ^ 64 * H" "0 \<le> L" "L < 2 ^ 64" "0 \<le> H" "2 \<le> P"
    and "U < 2 ^ 64 * P" "P = Q \<or> 2 * P \<le> Q"
  shows "(if 2 ^ 63 \<le> L then H \<noteq> Q - 1 else H \<noteq> 0) \<longleftrightarrow> \<not> (- (2 ^ 63) \<le> x \<and> x < 2 ^ 63 \<and> (0 \<le> x \<or> P = Q))"
proof -
  note a = assms [unfolded powers]
  have HP: "H < P" using a(4,5,9) by linarith
  have "(if 9223372036854775808 \<le> L then H \<noteq> Q - 1 else H \<noteq> 0) \<longleftrightarrow> \<not> (- 9223372036854775808 \<le> x \<and> x < 9223372036854775808 \<and> (0 \<le> x \<or> P = Q))"
  proof (cases "9223372036854775808 \<le> L")
    case True
    show ?thesis
    proof (cases "H = Q - 1")
      case eq: True
      then have "P = Q" "x = U - 18446744073709551616 * P" using a HP by linarith+
      moreover from this have "- (9223372036854775808) \<le> x" "x < 9223372036854775808" using a(4,6) eq True by linarith+
      ultimately show ?thesis using eq True by simp
    next
      case neq: False
      have "\<not> (- (9223372036854775808) \<le> x \<and> x < 9223372036854775808 \<and> (0 \<le> x \<or> P = Q))"
      proof
        assume f: "- (9223372036854775808) \<le> x \<and> x < 9223372036854775808 \<and> (0 \<le> x \<or> P = Q)"
        then have "x \<noteq> U" using a(4,7) True by linarith
        then have u: "x = U - 18446744073709551616 * P" using a(1) by blast
        then have "x < 0" using a(9) by linarith
        then have "H < Q - 1" using f neq HP by linarith
        moreover have "P = Q" using f \<open>x < 0\<close> by linarith
        ultimately show False using f u a(4,6) by linarith
      qed
      then show ?thesis using neq True by simp
    qed
  next
    case False
    show ?thesis
    proof (cases "H = 0")
      case eq: True
      then have "x = U" using a(1-6,8) False by linarith
      then show ?thesis using eq False a(4,5) by simp
    next
      case neq: False
      have "\<not> (- (9223372036854775808) \<le> x \<and> x < 9223372036854775808 \<and> (0 \<le> x \<or> P = Q))"
        using a(1,4,5,7) False neq HP by (auto simp: not_le)
      then show ?thesis using neq False by simp
    qed
  qed
  then show ?thesis unfolding powers .
qed

lemma low_word: "word_of_int (wval (w # ws)) = (w :: ulong)"
proof -
  have "(word_of_int (2 ^ 64) :: ulong) = 0" by simp
  then have "word_of_int (uint w + 2 ^ 64 * wval ws) = (w :: ulong)"
    by (simp only: of_int_add of_int_mult mult_zero_left add_0_right word_of_int_uint)
  then show ?thesis by simp
qed

lemma top_bit_word: "bit (w :: ulong) 63 \<longleftrightarrow> 2 ^ 63 \<le> uint w"
proof
  assume "bit w 63"
  then have "bit (uint w) 63" by (simp add: bit_uint_iff)
  then show "2 ^ 63 \<le> uint w" by (rule top_bit_bounds(1) [rotated]) (auto simp: bit_uint_iff)
next
  assume le: "2 ^ 63 \<le> uint w"
  show "bit w 63"
  proof (rule ccontr)
    assume no: "\<not> bit w 63"
    have "take_bit 63 (uint w) = uint w"
    proof (rule bit_eqI)
      fix i show "bit (take_bit 63 (uint w)) i = bit (uint w) i"
        using no by (cases "i = 63") (auto simp: bit_take_bit_iff bit_uint_iff)
    qed
    then have "uint w < 2 ^ 63" by (metis take_bit_int_less_exp)
    then show False using le by simp
  qed
qed

lemma overflow_ok:
  assumes v: "rvec v bs" and ws: "wval (w # ws) = uval4 v" "length (w # ws) = nwords (length bs)"
  shows "index_overflow sf w ws \<longleftrightarrow> \<not> index_fits sf (length bs) (bnum sf bs)"
proof -
  let ?n = "length bs" and ?x = "bnum sf bs"
  have x: "?x = (if sf then sval4 v else uval4 v)" using bnum_bits4 [of sf v] by (simp add: rvec_size(3) [OF v])
  have sz: "size4 v = ?n" and wf: "wf_vec v" by (simp_all add: rvec_size [OF v])
  have n: "0 < ?n" using rvec_size(2) [OF v] by simp
  have U: "uval4 v = uint w + 2 ^ 64 * wval ws" using ws(1) by simp
  note bits = top_bit_word [of w]
  show ?thesis
  proof (cases sf)
    case False
    have "0 \<le> uint w" "uint w < 2 ^ 64" "0 \<le> wval ws" using uint_lt2p [of w] by (simp_all add: wval_nonneg)
    then have "wval ws \<noteq> 0 \<longleftrightarrow> \<not> uint w + 2 ^ 64 * wval ws < 2 ^ 64" unfolding powers by linarith
    then show ?thesis using False overflow_high(1) [of ws] x U by (simp add: index_overflow_def index_fits_def)
  next
    case True
    show ?thesis
    proof (cases "?n \<le> 64")
      case True
      then have "\<not> 1 < length (w # ws)" unfolding ws(2) using nwords_two [of ?n] by simp
      then have "ws = []" by simp
      moreover have "(2::int) ^ (?n - 1) \<le> 2 ^ 63" using True by (intro power_increasing) auto
      ultimately show ?thesis
        using \<open>sf\<close> True x sval4_facts(3,4) [OF wf] sz by (auto simp: index_overflow_def index_fits_def)
    next
      case False
      define P Q where "P = (2::int) ^ (?n - 64)" and "Q = (2::int) ^ (64 * length ws)"
      have pn: "(2::int) ^ ?n = 2 ^ 64 * P" "(2::int) ^ (?n - 1) = 2 ^ 63 * P"
      proof -
        have "?n = 64 + (?n - 64)" "?n - 1 = 63 + (?n - 64)" using False by simp_all
        then show "(2::int) ^ ?n = 2 ^ 64 * P" "(2::int) ^ (?n - 1) = 2 ^ 63 * P" unfolding P_def by (metis power_add)+
      qed
      have K: "64 * length ws = ?n - 64 + (64 - ?n mod 64) mod 64" using ws(2) nwords_pad [of ?n] False by simp
      have PQ: "P = Q \<or> 2 * P \<le> Q" "P = Q \<longleftrightarrow> ?n mod 64 = 0"
      proof -
        have "P = Q" if "?n mod 64 = 0" using K that by (simp add: P_def Q_def)
        moreover have "2 * P \<le> Q" if "?n mod 64 \<noteq> 0"
        proof -
          have "Suc (?n - 64) \<le> 64 * length ws" using K that by simp
          then have "(2::int) ^ Suc (?n - 64) \<le> 2 ^ (64 * length ws)" by (intro power_increasing) auto
          then show ?thesis by (simp add: P_def Q_def)
        qed
        moreover have "0 < P" by (simp add: P_def)
        ultimately show "P = Q \<or> 2 * P \<le> Q" "P = Q \<longleftrightarrow> ?n mod 64 = 0" by fastforce+
      qed
      have P2: "2 \<le> P"
      proof -
        have "(2::int) ^ 1 \<le> 2 ^ (?n - 64)" using False by (intro power_increasing) auto
        then show ?thesis by (simp add: P_def)
      qed
      have "?x = uval4 v \<or> ?x = uval4 v - 2 ^ 64 * P" using \<open>sf\<close> x n sz pn(1) by (simp add: sval4_uval4)
      moreover have "- (2 ^ 63 * P) \<le> ?x" "?x < 2 ^ 63 * P" using \<open>sf\<close> x sval4_facts(3,4) [OF wf] sz pn(2) by simp_all
      moreover have "0 \<le> uint w" "uint w < 2 ^ 64" "0 \<le> wval ws" using uint_lt2p [of w] by (simp_all add: wval_nonneg)
      moreover have "uval4 v < 2 ^ 64 * P" using uval4_bounds(2) [of v] sz pn(1) by simp
      ultimately have fits: "(if 2 ^ 63 \<le> uint w then wval ws \<noteq> Q - 1 else wval ws \<noteq> 0) \<longleftrightarrow>
          \<not> (- (2 ^ 63) \<le> ?x \<and> ?x < 2 ^ 63 \<and> (0 \<le> ?x \<or> P = Q))"
        by (rule signed_fits [OF _ _ _ U _ _ _ P2 _ PQ(1)])
      have "index_overflow sf w ws \<longleftrightarrow> (if 2 ^ 63 \<le> uint w then wval ws \<noteq> Q - 1 else wval ws \<noteq> 0)"
        using \<open>sf\<close> bits overflow_high [of ws] by (cases "2 ^ 63 \<le> uint w") (simp_all add: index_overflow_def Q_def)
      moreover have "index_fits sf ?n ?x \<longleftrightarrow> - (2 ^ 63) \<le> ?x \<and> ?x < 2 ^ 63 \<and> (0 \<le> ?x \<or> P = Q)"
        using \<open>sf\<close> False PQ(2) by (simp add: index_fits_def)
      ultimately show ?thesis unfolding fits by simp
    qed
  qed
qed

lemma index_value_ok:
  assumes v: "rvec v bs" and ws: "wval (w # ws) = uval4 v"
  shows "(if length bs < 64 then if sf \<and> w AND ul_shl 1 (length bs - 1) \<noteq> 0 then w OR ul_shl (- 1) (length bs)
      else w AND NOT (ul_shl (- 1) (length bs)) else w) = word_of_int (bnum sf bs)"
proof -
  let ?n = "length bs"
  have x: "bnum sf bs = (if sf then sval4 v else uval4 v)" using bnum_bits4 [of sf v] by (simp add: rvec_size(3) [OF v])
  have sz: "size4 v = ?n" and wf: "wf_vec v" by (simp_all add: rvec_size [OF v])
  have w: "w = word_of_int (uval4 v)" by (simp only: low_word flip: ws)
  have b: "bit w i \<longleftrightarrow> i < 64 \<and> i < ?n \<and> one4 (value4 v i)" for i using sz by (auto simp: w bit_word_of_int_iff bit_uval4)
  show ?thesis
  proof (cases "?n < 64")
    case True
    have "w AND NOT (ul_shl (- 1) ?n) = w"
      using True by (intro bit_word_eqI) (auto simp: bit_and_iff bit_not_iff bit_mask_high b)
    moreover have "extend_native ?n w = word_of_int (sval4 v)" using extend_native_word [OF wf] True sz w by simp
    ultimately show ?thesis using True x w by (auto simp: extend_native_def split: if_splits)
  next
    case False
    have "(word_of_int (sval4 v) :: ulong) = word_of_int (uval4 v)"
    proof (rule bit_word_eqI)
      fix i assume "i < LENGTH(64)"
      then have "i < ?n" "i < 64" using False by simp_all
      then show "bit (word_of_int (sval4 v) :: ulong) i = bit (word_of_int (uval4 v) :: ulong) i"
        using sval4_facts(1) [OF wf] sz by (simp add: bit_word_of_int_iff) (metis bit_take_bit_iff)
    qed
    then show ?thesis using False x w by simp
  qed
qed

lemma vec4_to_index_vec:
  assumes v: "rvec v bs"
  shows "(case subarray v 0 (size4 v) False of
            None \<Rightarrow> do { thr \<leftarrow> set_flag 4 BIT4_1 thr; Some (0, thr) }
          | Some bits \<Rightarrow>
              let w = (if bits = [] then 0 else hd bits)
              in do {
                thr \<leftarrow> set_flag 4 (if index_overflow sf w (tl bits) then BIT4_X else BIT4_0) thr;
                Some (if size4 v < 64
                      then if sf \<and> w AND ul_shl 1 (size4 v - 1) \<noteq> 0 then w OR ul_shl (- 1) (size4 v)
                           else w AND NOT (ul_shl (- 1) (size4 v))
                      else w, thr) })
    = do { thr \<leftarrow> set_flag 4 (snd (index_spec sf bs)) thr; Some (fst (index_spec sf bs), thr) }"
proof (cases "list_ex bit4_is_xz bs")
  case True
  then show ?thesis using subarray_num [OF rvec_size(4) [OF v]] by (simp add: rvec_size(3) [OF v] index_spec_def)
next
  case False
  then obtain bits where bits: "subarray v 0 (size4 v) False = Some bits" "length bits = nwords (length bs)" "wval bits = uval4 v"
    using subarray_num [OF rvec_size(4) [OF v]] by (auto simp: rvec_size(1,3) [OF v])
  have "0 < nwords (length bs)" using nwords_ge [of "length bs"] rvec_size(2) [OF v] by (cases "nwords (length bs)") auto
  then obtain w ws where ws: "bits = w # ws" using bits(2) by (cases bits) auto
  note e = overflow_ok [OF v bits(3) [unfolded ws] bits(2) [unfolded ws], of sf] index_value_ok [OF v bits(3) [unfolded ws], of sf]
  have spec: "index_spec sf bs = (word_of_int (bnum sf bs), if \<not> index_fits sf (length bs) (bnum sf bs) then BIT4_X else BIT4_0)"
    using False by (simp add: index_spec_def)
  have ne: "(w # ws = []) = False" by simp
  show ?thesis
    unfolding rvec_size(1) [OF v] bits(1) [unfolded rvec_size(1) [OF v]] ws option.case Let_def list.sel ne if_False rvec_size(1) [OF v] e spec fst_conv snd_conv by (rule refl)
qed

locale index_opcode =
  fixes f :: "vvp_code \<Rightarrow> vvp_vector4_t vthread \<Rightarrow> vvp_vector4_t vthread option" and sf :: bool
  assumes index: "f cp thr = do { (v, thr) \<leftarrow> vec4_to_index sf thr; put_word (cp_number cp) v thr }"

sublocale index_opcode \<subseteq> opcode f "ix_vec4_spec sf"
proof
  fix thr s and cp :: vvp_code assume r: "rthr thr s"
  have k: "refines rthr (do { (w, t) \<leftarrow> do { t \<leftarrow> set_flag 4 (snd (index_spec sf bs)) t; Some (fst (index_spec sf bs), t) }; put_word (cp_number cp) w t })
      (do { s \<leftarrow> set_flag 4 (snd (index_spec sf bs)) u; put_word (cp_number cp) (fst (index_spec sf bs)) s })"
    if "rthr t u" for bs t u
    using that by (auto intro!: refines_bind [OF set_flag_refines] put_word_refines)
  have "f cp thr = do { (val, thr) \<leftarrow> pop_vec4 thr;
      (w, t) \<leftarrow> (case subarray val 0 (size4 val) False of
            None \<Rightarrow> do { thr \<leftarrow> set_flag 4 BIT4_1 thr; Some (0, thr) }
          | Some bits \<Rightarrow>
              let w = (if bits = [] then 0 else hd bits)
              in do {
                thr \<leftarrow> set_flag 4 (if index_overflow sf w (tl bits) then BIT4_X else BIT4_0) thr;
                Some (if size4 val < 64
                      then if sf \<and> w AND ul_shl 1 (size4 val - 1) \<noteq> 0 then w OR ul_shl (- 1) (size4 val)
                           else w AND NOT (ul_shl (- 1) (size4 val))
                      else w, thr) }); put_word (cp_number cp) w t }"
    unfolding index vec4_to_index_def Let_def by (simp add: case_prod_beta')
  then show "refines rthr (f cp thr) (ix_vec4_spec sf cp s)"
    by (simp only:) (rule ix_vec4_spec_pop, rule refines_bind [OF pop_refines [OF r]], auto simp only: vec4_to_index_vec rel_prod_inject prod.case split_paired_all intro!: k)
qed

interpretation IX_VEC4: index_opcode of_IX_VEC4 False by unfold_locales (simp add: of_IX_VEC4_def)
interpretation IX_VEC4_S: index_opcode of_IX_VEC4_S True by unfold_locales (simp add: of_IX_VEC4_S_def)

end
