(* ===== verification/Vvp_ThreadTable.thy ===== *)
theory Vvp_ThreadTable
  imports Vvp_ThreadMove Vvp_ThreadIndex
begin

text \<open>
  The opcodes of the thread interpreter that work on its own state, in one table, and their specification: the first table refines the
  second.
\<close>

datatype vec4_opcode =
    Of_ADD | Of_ADDI | Of_SUB | Of_SUBI | Of_MUL | Of_MULI | Of_DIV | Of_DIV_S | Of_MOD | Of_MOD_S | Of_AND | Of_OR | Of_NAND | Of_NOR | Of_XOR | Of_XNOR
  | Of_INV | Of_ANDR | Of_NANDR | Of_ORR | Of_NORR | Of_XORR | Of_XNORR | Of_DUP_VEC4 | Of_POP_VEC4 | Of_PUSHI_VEC4 | Of_CAST2 | Of_BLEND | Of_PAD_U |
  Of_PAD_S | Of_CONCAT_VEC4 | Of_CONCATI_VEC4 | Of_REPLICATE | Of_PART_S | Of_PART_U | Of_PARTI_S | Of_PARTI_U | Of_SPLIT_VEC4 | Of_SHIFTL | Of_SHIFTR
  | Of_SHIFTR_S | Of_CMPE | Of_CMPIE | Of_CMPNE | Of_CMPINE | Of_CMPS | Of_CMPIS | Of_CMPU | Of_CMPIU | Of_CMPX | Of_CMPZ | Of_CMPWE | Of_CMPWNE |
  Of_FLAG_GET_VEC4 | Of_FLAG_SET_VEC4 | Of_FLAG_INV | Of_FLAG_MOV | Of_FLAG_OR | Of_FLAG_SET_IMM | Of_IX_ADD | Of_IX_SUB | Of_IX_MUL | Of_IX_LOAD |
  Of_IX_MOV | Of_IX_VEC4 | Of_IX_VEC4_S

text \<open>The function that an instruction points to.\<close>

fun opcode_fn :: "vec4_opcode \<Rightarrow> vvp_code \<Rightarrow> vvp_vector4_t vthread \<Rightarrow> vvp_vector4_t vthread option" where
  "opcode_fn Of_ADD = of_ADD"
| "opcode_fn Of_ADDI = of_ADDI"
| "opcode_fn Of_SUB = of_SUB"
| "opcode_fn Of_SUBI = of_SUBI"
| "opcode_fn Of_MUL = of_MUL"
| "opcode_fn Of_MULI = of_MULI"
| "opcode_fn Of_DIV = of_DIV"
| "opcode_fn Of_DIV_S = of_DIV_S"
| "opcode_fn Of_MOD = of_MOD"
| "opcode_fn Of_MOD_S = of_MOD_S"
| "opcode_fn Of_AND = of_AND"
| "opcode_fn Of_OR = of_OR"
| "opcode_fn Of_NAND = of_NAND"
| "opcode_fn Of_NOR = of_NOR"
| "opcode_fn Of_XOR = of_XOR"
| "opcode_fn Of_XNOR = of_XNOR"
| "opcode_fn Of_INV = of_INV"
| "opcode_fn Of_ANDR = of_ANDR"
| "opcode_fn Of_NANDR = of_NANDR"
| "opcode_fn Of_ORR = of_ORR"
| "opcode_fn Of_NORR = of_NORR"
| "opcode_fn Of_XORR = of_XORR"
| "opcode_fn Of_XNORR = of_XNORR"
| "opcode_fn Of_DUP_VEC4 = of_DUP_VEC4"
| "opcode_fn Of_POP_VEC4 = of_POP_VEC4"
| "opcode_fn Of_PUSHI_VEC4 = of_PUSHI_VEC4"
| "opcode_fn Of_CAST2 = of_CAST2"
| "opcode_fn Of_BLEND = of_BLEND"
| "opcode_fn Of_PAD_U = of_PAD_U"
| "opcode_fn Of_PAD_S = of_PAD_S"
| "opcode_fn Of_CONCAT_VEC4 = of_CONCAT_VEC4"
| "opcode_fn Of_CONCATI_VEC4 = of_CONCATI_VEC4"
| "opcode_fn Of_REPLICATE = of_REPLICATE"
| "opcode_fn Of_PART_S = of_PART_S"
| "opcode_fn Of_PART_U = of_PART_U"
| "opcode_fn Of_PARTI_S = of_PARTI_S"
| "opcode_fn Of_PARTI_U = of_PARTI_U"
| "opcode_fn Of_SPLIT_VEC4 = of_SPLIT_VEC4"
| "opcode_fn Of_SHIFTL = of_SHIFTL"
| "opcode_fn Of_SHIFTR = of_SHIFTR"
| "opcode_fn Of_SHIFTR_S = of_SHIFTR_S"
| "opcode_fn Of_CMPE = of_CMPE"
| "opcode_fn Of_CMPIE = of_CMPIE"
| "opcode_fn Of_CMPNE = of_CMPNE"
| "opcode_fn Of_CMPINE = of_CMPINE"
| "opcode_fn Of_CMPS = of_CMPS"
| "opcode_fn Of_CMPIS = of_CMPIS"
| "opcode_fn Of_CMPU = of_CMPU"
| "opcode_fn Of_CMPIU = of_CMPIU"
| "opcode_fn Of_CMPX = of_CMPX"
| "opcode_fn Of_CMPZ = of_CMPZ"
| "opcode_fn Of_CMPWE = of_CMPWE"
| "opcode_fn Of_CMPWNE = of_CMPWNE"
| "opcode_fn Of_FLAG_GET_VEC4 = of_FLAG_GET_VEC4"
| "opcode_fn Of_FLAG_SET_VEC4 = of_FLAG_SET_VEC4"
| "opcode_fn Of_FLAG_INV = of_FLAG_INV"
| "opcode_fn Of_FLAG_MOV = of_FLAG_MOV"
| "opcode_fn Of_FLAG_OR = of_FLAG_OR"
| "opcode_fn Of_FLAG_SET_IMM = of_FLAG_SET_IMM"
| "opcode_fn Of_IX_ADD = of_IX_ADD"
| "opcode_fn Of_IX_SUB = of_IX_SUB"
| "opcode_fn Of_IX_MUL = of_IX_MUL"
| "opcode_fn Of_IX_LOAD = of_IX_LOAD"
| "opcode_fn Of_IX_MOV = of_IX_MOV"
| "opcode_fn Of_IX_VEC4 = of_IX_VEC4"
| "opcode_fn Of_IX_VEC4_S = of_IX_VEC4_S"

text \<open>What it has to do.\<close>

fun opcode_spec :: "vec4_opcode \<Rightarrow> vvp_code \<Rightarrow> vvp_bit4_t list vthread \<Rightarrow> vvp_bit4_t list vthread option" where
  "opcode_spec Of_ADD cp = on_two (num_spec (\<lambda>x y. Some (x + y)) False)"
| "opcode_spec Of_ADDI cp = on_imm (num_spec (\<lambda>x y. Some (x + y)) False) cp"
| "opcode_spec Of_SUB cp = on_two (num_spec (\<lambda>x y. Some (x - y)) False)"
| "opcode_spec Of_SUBI cp = on_imm (num_spec (\<lambda>x y. Some (x - y)) False) cp"
| "opcode_spec Of_MUL cp = on_two (num_spec (\<lambda>x y. Some (x * y)) False)"
| "opcode_spec Of_MULI cp = on_imm (num_spec (\<lambda>x y. Some (x * y)) False) cp"
| "opcode_spec Of_DIV cp = on_two (div_spec False)"
| "opcode_spec Of_DIV_S cp = on_two (div_spec True)"
| "opcode_spec Of_MOD cp = on_two (num_spec tmod_fn False)"
| "opcode_spec Of_MOD_S cp = on_two (num_spec tmod_fn True)"
| "opcode_spec Of_AND cp = on_two (bitwise_spec bit4_and)"
| "opcode_spec Of_OR cp = on_two (bitwise_spec bit4_or)"
| "opcode_spec Of_NAND cp = on_two (bitwise_spec (\<lambda>x y. bit4_not (bit4_and x y)))"
| "opcode_spec Of_NOR cp = on_two (bitwise_spec (\<lambda>x y. bit4_not (bit4_or x y)))"
| "opcode_spec Of_XOR cp = on_two (bitwise_spec bit4_xor)"
| "opcode_spec Of_XNOR cp = on_two (bitwise_spec (\<lambda>x y. bit4_not (bit4_xor x y)))"
| "opcode_spec Of_INV cp = on_top (\<lambda>bs. Some (map bit4_not bs))"
| "opcode_spec Of_ANDR cp = on_top (\<lambda>bs. Some [reduce_spec BIT4_0 BIT4_0 BIT4_1 BIT4_1 bs])"
| "opcode_spec Of_NANDR cp = on_top (\<lambda>bs. Some [reduce_spec BIT4_0 BIT4_1 BIT4_1 BIT4_0 bs])"
| "opcode_spec Of_ORR cp = on_top (\<lambda>bs. Some [reduce_spec BIT4_1 BIT4_1 BIT4_0 BIT4_0 bs])"
| "opcode_spec Of_NORR cp = on_top (\<lambda>bs. Some [reduce_spec BIT4_1 BIT4_0 BIT4_0 BIT4_1 bs])"
| "opcode_spec Of_XORR cp = on_top (\<lambda>bs. Some [parity_spec BIT4_0 bs])"
| "opcode_spec Of_XNORR cp = on_top (\<lambda>bs. Some [parity_spec BIT4_1 bs])"
| "opcode_spec Of_DUP_VEC4 cp = dup_spec"
| "opcode_spec Of_POP_VEC4 cp = pop_spec (cp_number cp)"
| "opcode_spec Of_PUSHI_VEC4 cp = push_imm cp"
| "opcode_spec Of_CAST2 cp = on_top (\<lambda>bs. Some (map (\<lambda>b. if b = BIT4_1 then BIT4_1 else BIT4_0) bs))"
| "opcode_spec Of_BLEND cp = on_two (\<lambda>a b. bitwise_spec (\<lambda>x y. if x = y then x else BIT4_X) b a)"
| "opcode_spec Of_PAD_U cp = on_top (pad_spec (cp_number cp) (\<lambda>_. BIT4_0))"
| "opcode_spec Of_PAD_S cp = on_top (pad_spec (cp_number cp) last)"
| "opcode_spec Of_CONCAT_VEC4 cp = on_two (\<lambda>a b. Some (b @ a))"
| "opcode_spec Of_CONCATI_VEC4 cp = on_imm (\<lambda>a b. Some (b @ a)) cp"
| "opcode_spec Of_REPLICATE cp = on_top (\<lambda>bs. if cp_number cp = 0 then None else Some (concat (replicate (cp_number cp) bs)))"
| "opcode_spec Of_PART_S cp = on_two (part_spec True (cp_number cp))"
| "opcode_spec Of_PART_U cp = on_two (part_spec False (cp_number cp))"
| "opcode_spec Of_PARTI_S cp = on_top (parti_spec True cp)"
| "opcode_spec Of_PARTI_U cp = on_top (parti_spec False cp)"
| "opcode_spec Of_SPLIT_VEC4 cp = split_spec cp"
| "opcode_spec Of_SHIFTL cp = shiftl_spec cp"
| "opcode_spec Of_SHIFTR cp = shiftr_spec (\<lambda>_. BIT4_0) cp"
| "opcode_spec Of_SHIFTR_S cp = shiftr_spec last cp"
| "opcode_spec Of_CMPE cp = flags_two cmpe_spec"
| "opcode_spec Of_CMPIE cp = flags_imm cmpe_spec cp"
| "opcode_spec Of_CMPNE cp = flags_two cmpne_spec"
| "opcode_spec Of_CMPINE cp = flags_imm cmpne_spec cp"
| "opcode_spec Of_CMPS cp = flags_two (order_spec True)"
| "opcode_spec Of_CMPIS cp = flags_imm (order_spec True) cp"
| "opcode_spec Of_CMPU cp = flags_two (order_spec False)"
| "opcode_spec Of_CMPIU cp = flags_imm (order_spec False) cp"
| "opcode_spec Of_CMPX cp = flags_two (wild_spec (\<lambda>x y. x \<noteq> y \<and> \<not> bit4_is_xz x \<and> \<not> bit4_is_xz y))"
| "opcode_spec Of_CMPZ cp = flags_two (wild_spec (\<lambda>x y. x \<noteq> y \<and> y \<noteq> BIT4_Z \<and> x \<noteq> BIT4_Z))"
| "opcode_spec Of_CMPWE cp = flags_two (cmpwe_spec (\<lambda>b. b))"
| "opcode_spec Of_CMPWNE cp = flags_two (cmpwe_spec bit4_not)"
| "opcode_spec Of_FLAG_GET_VEC4 cp = flag_get_spec cp"
| "opcode_spec Of_FLAG_SET_VEC4 cp = flag_set_spec cp"
| "opcode_spec Of_FLAG_INV cp = flag_spec (bit_idx0 cp) (bit_idx0 cp) (\<lambda>_. bit4_not)"
| "opcode_spec Of_FLAG_MOV cp = flag_spec (bit_idx0 cp) (bit_idx1 cp) (\<lambda>_ b. b)"
| "opcode_spec Of_FLAG_OR cp = flag_spec (bit_idx0 cp) (bit_idx1 cp) bit4_or"
| "opcode_spec Of_FLAG_SET_IMM cp = flag_imm_spec cp"
| "opcode_spec Of_IX_ADD cp = ix_spec (+) cp"
| "opcode_spec Of_IX_SUB cp = ix_spec (-) cp"
| "opcode_spec Of_IX_MUL cp = ix_spec (*) cp"
| "opcode_spec Of_IX_LOAD cp = ix_spec (\<lambda>_ i. i) cp"
| "opcode_spec Of_IX_MOV cp = ix_mov_spec cp"
| "opcode_spec Of_IX_VEC4 cp = ix_vec4_spec False cp"
| "opcode_spec Of_IX_VEC4_S cp = ix_vec4_spec True cp"

lemmas opcode_refine = ADD.refine ADDI.refine SUB.refine SUBI.refine MUL.refine MULI.refine DIV.refine DIV_S.refine MOD.refine MOD_S.refine AND.refine OR.refine
  NAND.refine NOR.refine XOR.refine XNOR.refine INV.refine ANDR.refine NANDR.refine ORR.refine NORR.refine XORR.refine XNORR.refine
  DUP_VEC4.refine POP_VEC4.refine PUSHI_VEC4.refine CAST2.refine BLEND.refine PAD_U.refine PAD_S.refine CONCAT_VEC4.refine CONCATI_VEC4.refine
  REPLICATE.refine PART_S.refine PART_U.refine PARTI_S.refine PARTI_U.refine SPLIT_VEC4.refine SHIFTL.refine SHIFTR.refine SHIFTR_S.refine
  CMPE.refine CMPIE.refine CMPNE.refine CMPINE.refine CMPS.refine CMPIS.refine CMPU.refine CMPIU.refine CMPX.refine CMPZ.refine CMPWE.refine
  CMPWNE.refine FLAG_GET_VEC4.refine FLAG_SET_VEC4.refine FLAG_INV.refine FLAG_MOV.refine FLAG_OR.refine FLAG_SET_IMM.refine IX_ADD.refine
  IX_SUB.refine IX_MUL.refine IX_LOAD.refine IX_MOV.refine IX_VEC4.refine IX_VEC4_S.refine

lemma opcode_fn_refines: "rthr thr s \<Longrightarrow> refines rthr (opcode_fn op cp thr) (opcode_spec op cp s)"
  by (cases op) (simp_all only: opcode_fn.simps opcode_spec.simps opcode_refine)

end
