(* ===== verification/Vvp_ThreadRun.thy ===== *)
theory Vvp_ThreadRun
  imports Vvp_ThreadTable Vvp_Agenda
begin

text \<open>
  A run of a thread: the jumps, the opcodes that schedule assignments or suspend the thread, and the loop of \<open>vthread_run\<close>. The code
  space is a list of instructions. The calls of the scheduler are returned in their order; they have the type of vectors as a parameter,
  as the threads have.
\<close>

section \<open>Calls of the scheduler\<close>

datatype 'v thread_call =
    Call_vthread vvp_time64_t bool
  | Call_inactive
  | Call_assign_vector address nat nat 'v vvp_time64_t
  | Call_assign_array_word address nat nat 'v vvp_time64_t
  | Call_force_vector address nat nat 'v vvp_time64_t

fun sched_call_of :: "address \<Rightarrow> vvp_vector4_t thread_call \<Rightarrow> sched_call" where
  "sched_call_of self (Call_vthread delay push_flag) = Schedule_vthread self delay push_flag"
| "sched_call_of self Call_inactive = Schedule_inactive self"
| "sched_call_of self (Call_assign_vector ptr base vwid val delay) = Schedule_assign_vector ptr base vwid val delay"
| "sched_call_of self (Call_assign_array_word mem word_addr off val delay) = Schedule_assign_array_word mem word_addr off val delay"
| "sched_call_of self (Call_force_vector net base vwid val delay) = Schedule_force_vector net base vwid val delay"

text \<open>
  What the opcodes ask of other components: the size of a signal, if the net has one, the size that the filter of a net gives, if it has one, the
  word size of an array, and whether the simulation has been stopped.
\<close>

record thread_env =
  signal_size :: "address \<Rightarrow> nat option"
  filter_size :: "address \<Rightarrow> nat option"
  array_word_size :: "address \<Rightarrow> nat"
  is_stopped :: bool

text \<open>The result of an opcode: the thread, the calls, and whether the thread goes on.\<close>

type_synonym 'v step_result = "('v vthread \<times> 'v thread_call list \<times> bool) option"

section \<open>Jumps\<close>

definition after_jump :: "thread_env \<Rightarrow> 'v vthread \<Rightarrow> 'v step_result" where
  "after_jump env thr = Some (if is_stopped env then (thr, [Call_vthread 0 False], False) else (thr, [], True))"

definition of_JMP :: "thread_env \<Rightarrow> vvp_code \<Rightarrow> 'v vthread \<Rightarrow> 'v step_result" where
  "of_JMP env cp thr = after_jump env (thr\<lparr>th_pc := cp_cptr cp\<rparr>)"

definition jump_if :: "(vvp_bit4_t \<Rightarrow> bool) \<Rightarrow> thread_env \<Rightarrow> vvp_code \<Rightarrow> 'v vthread \<Rightarrow> 'v step_result" where
  "jump_if p env cp thr =
     do { b \<leftarrow> get_flag (unat (bit_idx0 cp)) thr; after_jump env (if p b then thr\<lparr>th_pc := cp_cptr cp\<rparr> else thr) }"

definition of_JMP0 :: "thread_env \<Rightarrow> vvp_code \<Rightarrow> 'v vthread \<Rightarrow> 'v step_result" where "of_JMP0 = jump_if (\<lambda>b. b = BIT4_0)"
definition of_JMP0XZ :: "thread_env \<Rightarrow> vvp_code \<Rightarrow> 'v vthread \<Rightarrow> 'v step_result" where "of_JMP0XZ = jump_if (\<lambda>b. b \<noteq> BIT4_1)"
definition of_JMP1 :: "thread_env \<Rightarrow> vvp_code \<Rightarrow> 'v vthread \<Rightarrow> 'v step_result" where "of_JMP1 = jump_if (\<lambda>b. b = BIT4_1)"
definition of_JMP1XZ :: "thread_env \<Rightarrow> vvp_code \<Rightarrow> 'v vthread \<Rightarrow> 'v step_result" where "of_JMP1XZ = jump_if (\<lambda>b. b \<noteq> BIT4_0)"

section \<open>Delays\<close>

definition delay_call :: "vvp_time64_t \<Rightarrow> 'v thread_call" where
  "delay_call delay = (if delay = 0 then Call_inactive else Call_vthread delay False)"

definition of_DELAY :: "vvp_code \<Rightarrow> 'v vthread \<Rightarrow> 'v step_result" where
  "of_DELAY cp thr =
     (let low = ucast (bit_idx0 cp); hig = ucast (bit_idx1 cp); delay = push_bit 32 hig OR low
      in Some (thr, [delay_call delay], False))"

definition of_DELAYX :: "vvp_code \<Rightarrow> 'v vthread \<Rightarrow> 'v step_result" where
  "of_DELAYX cp thr = do { delay \<leftarrow> get_word (cp_number cp) thr; Some (thr, [delay_call delay], False) }"

section \<open>Loads\<close>

text \<open>The value of the signal of a net; \<open>None\<close> if the net is not a signal.\<close>

definition of_LOAD_VEC4 :: "(address \<Rightarrow> 'v option) \<Rightarrow> vvp_code \<Rightarrow> 'v vthread \<Rightarrow> 'v step_result" where
  "of_LOAD_VEC4 vec4_value cp thr = do { v \<leftarrow> vec4_value (cp_net cp); Some (push_vec4 v thr, [], True) }"

text \<open>
  \<open>%ix/getv\<close>, \<open>%ix/getv/s\<close>: the value of a signal as an index with its flag; the reading of the vector is a parameter. The unsigned
  form reports an overflow, the signed one looks at the low 64 bits only.
\<close>

definition getv_index :: "bool \<Rightarrow> vvp_vector4_t \<Rightarrow> ulong \<times> vvp_bit4_t" where
  "getv_index is_signed vec =
     (if is_signed
      then case vector4_to_value vec True True of None \<Rightarrow> (0, BIT4_1) | Some (val, _) \<Rightarrow> (val, BIT4_0)
      else case vector4_to_value_ovf vec of None \<Rightarrow> (0, BIT4_1) | Some (overflow_flag, val) \<Rightarrow> (val, if overflow_flag then BIT4_X else BIT4_0))"

definition of_IX_GETV :: "(bool \<Rightarrow> 'v \<Rightarrow> ulong \<times> vvp_bit4_t) \<Rightarrow> bool \<Rightarrow> (address \<Rightarrow> 'v option) \<Rightarrow> vvp_code \<Rightarrow> 'v vthread \<Rightarrow> 'v step_result" where
  "of_IX_GETV getv is_signed vec4_value cp thr =
     do { vec \<leftarrow> vec4_value (cp_net cp);
          thr \<leftarrow> put_word (unat (bit_idx0 cp)) (fst (getv is_signed vec)) thr;
          thr \<leftarrow> set_flag 4 (snd (getv is_signed vec)) thr;
          Some (thr, [], True) }"

section \<open>Assignments\<close>

text \<open>
  The part of a value that lies within a signal of \<open>sig_wid\<close> bits when it is put at \<open>off\<close>: \<open>None\<close> in the inner option if there is
  none, otherwise the part and its new offset.
\<close>

definition resize_rval_vec :: "vvp_vector4_t \<Rightarrow> int \<Rightarrow> nat \<Rightarrow> (vvp_vector4_t \<times> int) option option" where
  "resize_rval_vec val off sig_wid =
     (let wid = size4 val
      in if off \<ge> 0 \<and> nat off + wid \<le> sig_wid then Some (Some (val, off))
         else if (if off \<ge> 0 then nat off \<ge> sig_wid else nat (- off) \<ge> wid) then Some None
         else let (base, wid, off) = (if off \<ge> 0 then (0, wid, off) else (nat (- off), wid - nat (- off), 0));
                  wid = (if nat off + wid > sig_wid then sig_wid - nat off else wid)
              in do { val \<leftarrow> subvalue val base wid; Some (Some (val, off)) })"

definition of_ASSIGN_VEC4 :: "vvp_code \<Rightarrow> 'v vthread \<Rightarrow> 'v step_result" where
  "of_ASSIGN_VEC4 cp thr =
     do { val \<leftarrow> peek_vec4 0 thr; thr \<leftarrow> pop_vec4_cnt 1 thr;
          Some (thr, [Call_assign_vector (cp_net cp) 0 0 val (ucast (bit_idx0 cp))], True) }"

text \<open>In the next two the function that trims the value is a parameter.\<close>

definition of_ASSIGN_VEC4_A_D ::
  "('v \<Rightarrow> int \<Rightarrow> nat \<Rightarrow> ('v \<times> int) option option) \<Rightarrow> thread_env \<Rightarrow> vvp_code \<Rightarrow> 'v vthread \<Rightarrow> 'v step_result" where
  "of_ASSIGN_VEC4_A_D resize_rval env cp thr =
     do { let off_idx = unat (bit_idx0 cp);
          let del_idx = unat (bit_idx1 cp);
          off \<leftarrow> (if off_idx \<noteq> 0 then get_word off_idx thr else Some 0);
          del \<leftarrow> (if del_idx \<noteq> 0 then get_word del_idx thr else Some 0);
          adr \<leftarrow> get_word 3 thr;
          (val, thr) \<leftarrow> pop_vec4 thr;
          fl \<leftarrow> get_flag 4 thr;
          if fl = BIT4_1 then Some (thr, [], True)
          else do {
            r \<leftarrow> resize_rval val (sint off) (array_word_size env (cp_net cp));
            Some (thr, (case r of None \<Rightarrow> []
              | Some (val, off) \<Rightarrow> [Call_assign_array_word (cp_net cp) (unat (ucast adr :: 32 word)) (nat off) val del]), True) } }"

definition of_ASSIGN_VEC4_OFF_D ::
  "('v \<Rightarrow> int \<Rightarrow> nat \<Rightarrow> ('v \<times> int) option option) \<Rightarrow> thread_env \<Rightarrow> vvp_code \<Rightarrow> 'v vthread \<Rightarrow> 'v step_result" where
  "of_ASSIGN_VEC4_OFF_D resize_rval env cp thr =
     do { (val, thr) \<leftarrow> pop_vec4 thr;
          off \<leftarrow> get_word (unat (bit_idx0 cp)) thr;
          del \<leftarrow> get_word (unat (bit_idx1 cp)) thr;
          fl \<leftarrow> get_flag 4 thr;
          if fl = BIT4_1 then Some (thr, [], True)
          else do {
            sig \<leftarrow> signal_size env (cp_net cp);
            r \<leftarrow> resize_rval val (sint off) sig;
            Some (thr, (case r of None \<Rightarrow> [] | Some (val, off) \<Rightarrow> [Call_assign_vector (cp_net cp) (nat off) sig val del]), True) } }"

definition of_ASSIGN_VEC4D :: "thread_env \<Rightarrow> vvp_code \<Rightarrow> 'v vthread \<Rightarrow> 'v step_result" where
  "of_ASSIGN_VEC4D env cp thr =
     do { del \<leftarrow> get_word (unat (bit_idx0 cp)) thr;
          (val, thr) \<leftarrow> pop_vec4 thr;
          sig \<leftarrow> signal_size env (cp_net cp);
          Some (thr, [Call_assign_vector (cp_net cp) 0 sig val del], True) }"

definition of_FORCE_VEC4_OFF_D :: "thread_env \<Rightarrow> vvp_code \<Rightarrow> 'v vthread \<Rightarrow> 'v step_result" where
  "of_FORCE_VEC4_OFF_D env cp thr =
     do { base \<leftarrow> get_word (unat (bit_idx0 cp)) thr;
          delay \<leftarrow> get_word (unat (bit_idx1 cp)) thr;
          (val, thr) \<leftarrow> pop_vec4 thr;
          use_size \<leftarrow> filter_size env (cp_net cp);
          fl \<leftarrow> get_flag 4 thr;
          Some (thr, (if fl = BIT4_1 \<or> sint base \<ge> int use_size \<or> sint base < - int use_size then []
            else [Call_force_vector (cp_net cp) (unat (ucast base :: 32 word)) use_size val delay]), True) }"

section \<open>The interpreter\<close>

datatype vvp_opcode =
    Vec4_opcode vec4_opcode
  | Of_JMP | Of_JMP0 | Of_JMP0XZ | Of_JMP1 | Of_JMP1XZ
  | Of_DELAY | Of_DELAYX | Of_LOAD_VEC4 | Of_IX_GETV | Of_IX_GETV_S
  | Of_ASSIGN_VEC4 | Of_ASSIGN_VEC4_A_D | Of_ASSIGN_VEC4_OFF_D | Of_ASSIGN_VEC4D | Of_FORCE_VEC4_OFF_D

fun exec :: "(vec4_opcode \<Rightarrow> vvp_code \<Rightarrow> 'v vthread \<Rightarrow> 'v vthread option) \<Rightarrow> (address \<Rightarrow> 'v option) \<Rightarrow> (bool \<Rightarrow> 'v \<Rightarrow> ulong \<times> vvp_bit4_t) \<Rightarrow> ('v \<Rightarrow> int \<Rightarrow> nat \<Rightarrow> ('v \<times> int) option option) \<Rightarrow>
    thread_env \<Rightarrow> vvp_opcode \<Rightarrow> vvp_code \<Rightarrow> 'v vthread \<Rightarrow> 'v step_result" where
  "exec vec ld gv rs env (Vec4_opcode op) cp thr = do { thr \<leftarrow> vec op cp thr; Some (thr, [], True) }"
| "exec vec ld gv rs env Of_JMP cp thr = of_JMP env cp thr"
| "exec vec ld gv rs env Of_JMP0 cp thr = of_JMP0 env cp thr"
| "exec vec ld gv rs env Of_JMP0XZ cp thr = of_JMP0XZ env cp thr"
| "exec vec ld gv rs env Of_JMP1 cp thr = of_JMP1 env cp thr"
| "exec vec ld gv rs env Of_JMP1XZ cp thr = of_JMP1XZ env cp thr"
| "exec vec ld gv rs env Of_DELAY cp thr = of_DELAY cp thr"
| "exec vec ld gv rs env Of_DELAYX cp thr = of_DELAYX cp thr"
| "exec vec ld gv rs env Of_ASSIGN_VEC4 cp thr = of_ASSIGN_VEC4 cp thr"
| "exec vec ld gv rs env Of_ASSIGN_VEC4_A_D cp thr = of_ASSIGN_VEC4_A_D rs env cp thr"
| "exec vec ld gv rs env Of_ASSIGN_VEC4_OFF_D cp thr = of_ASSIGN_VEC4_OFF_D rs env cp thr"
| "exec vec ld gv rs env Of_ASSIGN_VEC4D cp thr = of_ASSIGN_VEC4D env cp thr"
| "exec vec ld gv rs env Of_FORCE_VEC4_OFF_D cp thr = of_FORCE_VEC4_OFF_D env cp thr"
| "exec vec ld gv rs env Of_LOAD_VEC4 cp thr = of_LOAD_VEC4 ld cp thr"
| "exec vec ld gv rs env Of_IX_GETV cp thr = of_IX_GETV gv False ld cp thr"
| "exec vec ld gv rs env Of_IX_GETV_S cp thr = of_IX_GETV gv True ld cp thr"

text \<open>The inner loop of \<open>vthread_run\<close>, for at most \<open>n\<close> instructions: the flag tells whether the thread still runs.\<close>

fun run_loop :: "(vvp_opcode \<Rightarrow> vvp_code \<Rightarrow> 'v vthread \<Rightarrow> 'v step_result) \<Rightarrow> (vvp_opcode \<times> vvp_code) list \<Rightarrow> nat \<Rightarrow> 'v vthread \<Rightarrow> 'v step_result" where
  "run_loop ex code 0 thr = Some (thr, [], True)"
| "run_loop ex code (Suc n) thr =
     (if th_pc thr < length code
      then let (op, cp) = code ! th_pc thr
           in do { (thr, cs, rc) \<leftarrow> ex op cp (thr\<lparr>th_pc := th_pc thr + 1\<rparr>);
                   if rc then do { (thr, cs', rc) \<leftarrow> run_loop ex code n thr; Some (thr, cs @ cs', rc) }
                   else Some (thr, cs, False) }
      else None)"

definition thread_run :: "(address \<Rightarrow> vvp_vector4_t option) \<Rightarrow> thread_env \<Rightarrow> (vvp_opcode \<times> vvp_code) list \<Rightarrow> nat \<Rightarrow> vvp_vector4_t vthread \<Rightarrow> vvp_vector4_t step_result" where
  "thread_run ld env = run_loop (exec opcode_fn ld getv_index resize_rval_vec env)"

section \<open>Specification and refinement\<close>

text \<open>The positions that the value and the signal share, and the bits there.\<close>

definition resize_bits :: "'a list \<Rightarrow> int \<Rightarrow> nat \<Rightarrow> ('a list \<times> int) option option" where
  "resize_bits bs off sig_wid =
     (if sig_wid = 0 then None
      else let lo = max 0 off; hi = min (int sig_wid) (off + int (length bs))
           in Some (if lo < hi then Some (take (nat (hi - lo)) (drop (nat (lo - off)) bs), lo) else None))"

lemma resize_rval_refines:
  assumes v: "rvec v bs"
  shows "refines (rel_option (rel_prod rvec (=))) (resize_rval_vec v off sig_wid) (resize_bits bs off sig_wid)"
proof -
  have n: "0 < length bs" using rvec_size(2) [OF v] by simp
  have sub: "\<exists>u. subvalue v b w = Some u \<and> rvec u (take w (drop b bs))" if "b + w \<le> length bs" "0 < w" for b w
    by (rule subvalue_refines [OF v that])
  consider "sig_wid = 0" | (within) "0 < sig_wid" "0 \<le> off" "nat off + length bs \<le> sig_wid"
    | (outside) "0 < sig_wid" "0 \<le> off \<and> sig_wid \<le> nat off \<or> off < 0 \<and> length bs \<le> nat (- off)"
    | (high) "0 < sig_wid" "0 \<le> off" "nat off < sig_wid" "sig_wid < nat off + length bs"
    | (low) "0 < sig_wid" "off < 0" "nat (- off) < length bs" by atomize_elim arith
  then show ?thesis
  proof cases
    case within
    then have "min (int sig_wid) (off + int (length bs)) = off + int (length bs)" by linarith
    then show ?thesis
      using within n v by (auto simp: resize_rval_vec_def resize_bits_def Let_def rvec_size(1) [OF v] intro!: refines_Some)
  next
    case outside
    then have "\<not> (0 \<le> off \<and> nat off + length bs \<le> sig_wid)" using n by linarith
    then have "resize_rval_vec v off sig_wid = Some None"
      using outside(2) by (auto simp: resize_rval_vec_def Let_def rvec_size(1) [OF v] split: if_splits)
    moreover have "\<not> max 0 off < min (int sig_wid) (off + int (length bs))" using outside by (auto split: if_splits)
    ultimately show ?thesis using outside(1) by (simp add: resize_bits_def Let_def refines_Some del: max_less_iff_conj less_max_iff_disj min_less_iff_conj)
  next
    case high
    then have "resize_rval_vec v off sig_wid = do { u \<leftarrow> subvalue v 0 (sig_wid - nat off); Some (Some (u, off)) }"
      by (auto simp: resize_rval_vec_def Let_def rvec_size(1) [OF v])
    moreover have "min (int sig_wid) (off + int (length bs)) = int sig_wid" "max 0 off = off" "off < int sig_wid" "nat (int sig_wid - off) = sig_wid - nat off"
      using high by linarith+
    moreover have "0 + (sig_wid - nat off) \<le> length bs" "0 < sig_wid - nat off" using high by linarith+
    moreover from sub [OF this] obtain u where "subvalue v 0 (sig_wid - nat off) = Some u" "rvec u (take (sig_wid - nat off) bs)" by auto
    ultimately show ?thesis using high by (auto simp: resize_bits_def Let_def intro!: refines_Some)
  next
    case low
    define b w where "b = nat (- off)" and "w = (if length bs - b > sig_wid then sig_wid else length bs - b)"
    have "resize_rval_vec v off sig_wid = do { u \<leftarrow> subvalue v b w; Some (Some (u, 0)) }"
      using low by (simp add: resize_rval_vec_def Let_def rvec_size(1) [OF v] b_def w_def)
    moreover have "max 0 off = 0" "nat (0 - off) = b" "0 < min (int sig_wid) (off + int (length bs))"
      "nat (min (int sig_wid) (off + int (length bs)) - 0) = w"
      using low by (auto simp: b_def w_def)
    moreover have "b + w \<le> length bs" "0 < w" using low by (auto simp: b_def w_def)
    moreover from this obtain u where "subvalue v b w = Some u" "rvec u (take w (drop b bs))" using sub by blast
    ultimately show ?thesis using low(1) unfolding resize_bits_def Let_def by (auto intro!: refines_Some)
  qed (simp add: resize_bits_def)
qed

abbreviation rstep :: "vvp_vector4_t vthread \<times> vvp_vector4_t thread_call list \<times> bool \<Rightarrow> vvp_bit4_t list vthread \<times> vvp_bit4_t list thread_call list \<times> bool \<Rightarrow> bool" where
  "rstep \<equiv> rel_prod rthr (rel_prod (list_all2 (rel_thread_call rvec)) (=))"

lemma rstepI [refine_rules]: "rthr thr s \<Longrightarrow> list_all2 (rel_thread_call rvec) cs ds \<Longrightarrow> refines rstep (Some (thr, cs, b)) (Some (s, ds, b))"
  by (auto intro: refines_Some)

lemma pc_refines: "rthr thr s \<Longrightarrow> rthr (thr\<lparr>th_pc := k\<rparr>) (s\<lparr>th_pc := k\<rparr>)" "rthr thr s \<Longrightarrow> th_pc thr = th_pc s"
  by (auto simp: rthr_def wf_thread_def abs_thread_def)

lemma refines_refl: "refines (=) x x"
  by (simp add: refines_def)

locale interpreter =
  fixes vec :: "vec4_opcode \<Rightarrow> vvp_code \<Rightarrow> vvp_vector4_t vthread \<Rightarrow> vvp_vector4_t vthread option"
    and vec' :: "vec4_opcode \<Rightarrow> vvp_code \<Rightarrow> vvp_bit4_t list vthread \<Rightarrow> vvp_bit4_t list vthread option"
    and ld :: "address \<Rightarrow> vvp_vector4_t option"
    and ld' :: "address \<Rightarrow> vvp_bit4_t list option"
    and gv :: "bool \<Rightarrow> vvp_vector4_t \<Rightarrow> ulong \<times> vvp_bit4_t"
    and gv' :: "bool \<Rightarrow> vvp_bit4_t list \<Rightarrow> ulong \<times> vvp_bit4_t"
    and rs :: "vvp_vector4_t \<Rightarrow> int \<Rightarrow> nat \<Rightarrow> (vvp_vector4_t \<times> int) option option"
    and rs' :: "vvp_bit4_t list \<Rightarrow> int \<Rightarrow> nat \<Rightarrow> (vvp_bit4_t list \<times> int) option option"
  assumes vec_ok: "rthr thr s \<Longrightarrow> refines rthr (vec op cp thr) (vec' op cp s)"
    and ld_ok: "refines rvec (ld k) (ld' k)"
    and gv_ok: "rvec v bs \<Longrightarrow> gv sf v = gv' sf bs"
    and rs_ok: "rvec v bs \<Longrightarrow> refines (rel_option (rel_prod rvec (=))) (rs v off n) (rs' bs off n)"
begin

lemma after_jump_refines: "rthr thr s \<Longrightarrow> refines rstep (after_jump env thr) (after_jump env s)"
  by (auto simp: after_jump_def intro!: refines_Some)

lemma jump_if_refines: "rthr thr s \<Longrightarrow> refines rstep (jump_if p env cp thr) (jump_if p env cp s)"
  unfolding jump_if_def by (rule refines_bind [OF flag_refines]) (auto intro!: after_jump_refines pc_refines)

lemma assigned_refines:
  assumes "rthr thr s" "rvec v bs" "\<And>v bs off. rvec v bs \<Longrightarrow> rel_thread_call rvec (C v off) (D bs off)"
  shows "refines rstep (do { r \<leftarrow> rs v off n; Some (thr, (case r of None \<Rightarrow> [] | Some (val, off) \<Rightarrow> [C val off]), True) })
    (do { r \<leftarrow> rs' bs off n; Some (s, (case r of None \<Rightarrow> [] | Some (val, off) \<Rightarrow> [D val off]), True) })"
proof (rule refines_bind [OF rs_ok [OF assms(2)]])
  fix a :: "(vvp_vector4_t \<times> int) option" and b :: "(vvp_bit4_t list \<times> int) option"
  assume "rel_option (rel_prod rvec (=)) a b"
  then show "refines rstep (Some (thr, (case a of None \<Rightarrow> [] | Some (val, off) \<Rightarrow> [C val off]), True))
      (Some (s, (case b of None \<Rightarrow> [] | Some (val, off) \<Rightarrow> [D val off]), True))"
    using assms(1,3) by cases (auto intro!: rstepI)
qed

lemma getv_refines: "rthr thr s \<Longrightarrow> refines rstep (of_IX_GETV gv sf ld cp thr) (of_IX_GETV gv' sf ld' cp s)"
  unfolding of_IX_GETV_def
  by (rule refines_bind [OF ld_ok]) (auto simp: gv_ok intro!: refines_bind [OF put_word_refines] refines_bind [OF set_flag_refines] rstepI)

lemma assign_off_refines:
  assumes "rthr thr s"
  shows "refines rstep (of_ASSIGN_VEC4_OFF_D rs env cp thr) (of_ASSIGN_VEC4_OFF_D rs' env cp s)"
proof -
  have "refines rstep
      (do { off \<leftarrow> get_word (unat (bit_idx0 cp)) t; del \<leftarrow> get_word (unat (bit_idx1 cp)) t; fl \<leftarrow> get_flag 4 t;
          if fl = BIT4_1 then Some (t, [], True)
          else do { sig \<leftarrow> signal_size env (cp_net cp); r \<leftarrow> rs v (sint off) sig;
            Some (t, (case r of None \<Rightarrow> [] | Some (val, off) \<Rightarrow> [Call_assign_vector (cp_net cp) (nat off) sig val del]), True) } })
      (do { off \<leftarrow> get_word (unat (bit_idx0 cp)) u; del \<leftarrow> get_word (unat (bit_idx1 cp)) u; fl \<leftarrow> get_flag 4 u;
          if fl = BIT4_1 then Some (u, [], True)
          else do { sig \<leftarrow> signal_size env (cp_net cp); r \<leftarrow> rs' bs (sint off) sig;
            Some (u, (case r of None \<Rightarrow> [] | Some (val, off) \<Rightarrow> [Call_assign_vector (cp_net cp) (nat off) sig val del]), True) } })"
    if "rthr t u" "rvec v bs" for t u v bs
    by (rule refines_bind [OF word_refines [OF that(1)]], hypsubst, rule refines_bind [OF word_refines [OF that(1)]], hypsubst,
        rule refines_bind [OF flag_refines [OF that(1)]], hypsubst)
       (auto intro!: rstepI refines_bind [OF refines_refl] assigned_refines that)
  then show ?thesis unfolding of_ASSIGN_VEC4_OFF_D_def by (intro refines_bind [OF pop_refines [OF assms]]) auto
qed

lemma assign_array_refines:
  assumes r: "rthr thr s"
  shows "refines rstep (of_ASSIGN_VEC4_A_D rs env cp thr) (of_ASSIGN_VEC4_A_D rs' env cp s)"
proof -
  have w: "refines (=) (if k \<noteq> 0 then get_word k thr else Some 0) (if k \<noteq> 0 then get_word k s else Some 0)" for k
    using word_refines [OF r] by (auto intro: refines_Some)
  have "refines rstep (do { fl \<leftarrow> get_flag 4 t; if fl = BIT4_1 then Some (t, [], True)
          else do { r \<leftarrow> rs v (sint off) (array_word_size env (cp_net cp)); Some (t, (case r of None \<Rightarrow> []
              | Some (val, off) \<Rightarrow> [Call_assign_array_word (cp_net cp) (unat (ucast adr :: 32 word)) (nat off) val del]), True) } })
      (do { fl \<leftarrow> get_flag 4 u; if fl = BIT4_1 then Some (u, [], True)
          else do { r \<leftarrow> rs' bs (sint off) (array_word_size env (cp_net cp)); Some (u, (case r of None \<Rightarrow> []
              | Some (val, off) \<Rightarrow> [Call_assign_array_word (cp_net cp) (unat (ucast adr :: 32 word)) (nat off) val del]), True) } })"
    if "rthr t u" "rvec v bs" for t u v bs and off adr del :: ulong
    by (rule refines_bind [OF flag_refines [OF that(1)]], hypsubst) (auto intro!: rstepI assigned_refines that)
  then show ?thesis
    unfolding of_ASSIGN_VEC4_A_D_def Let_def
    by (rule_tac refines_bind [OF w], hypsubst, rule_tac refines_bind [OF w], hypsubst, rule_tac refines_bind [OF word_refines [OF r]], hypsubst,
        rule_tac refines_bind [OF pop_refines [OF r]]) auto
qed

lemma exec_refines:
  assumes r: "rthr thr s"
  shows "refines rstep (exec vec ld gv rs env op cp thr) (exec vec' ld' gv' rs' env op cp s)"
proof (cases op)
  case (Vec4_opcode v)
  then show ?thesis using refines_bind [OF vec_ok [OF r], of rstep] by (simp add: rstepI)
next
  case Of_DELAYX
  have "refines rstep (of_DELAYX cp thr) (of_DELAYX cp s)"
    unfolding of_DELAYX_def by (rule refines_bind [OF word_refines [OF r]]) (auto simp: delay_call_def r intro!: rstepI)
  then show ?thesis using Of_DELAYX by simp
next
  case Of_LOAD_VEC4
  have "refines rstep (of_LOAD_VEC4 ld cp thr) (of_LOAD_VEC4 ld' cp s)"
    unfolding of_LOAD_VEC4_def by (rule refines_bind [OF ld_ok]) (auto intro!: rstepI push_refines r)
  then show ?thesis using Of_LOAD_VEC4 by simp
next
  case Of_IX_GETV
  then show ?thesis using getv_refines [OF r] by simp
next
  case Of_IX_GETV_S
  then show ?thesis using getv_refines [OF r] by simp
next
  case Of_ASSIGN_VEC4
  have "rel_thread_call rvec (Call_assign_vector p b w v d) (Call_assign_vector p b w bs d)" if "rvec v bs" for p b w v bs d using that by simp
  then have "refines rstep (of_ASSIGN_VEC4 cp thr) (of_ASSIGN_VEC4 cp s)"
    unfolding of_ASSIGN_VEC4_def
    by (intro refines_bind [OF peek_refines [OF r]] refines_bind [OF pop_cnt_refines [OF r]]) (auto intro!: rstepI)
  then show ?thesis using Of_ASSIGN_VEC4 by simp
next
  case Of_ASSIGN_VEC4D
  have "refines rstep (of_ASSIGN_VEC4D env cp thr) (of_ASSIGN_VEC4D env cp s)"
    unfolding of_ASSIGN_VEC4D_def
    by (rule refines_bind [OF word_refines [OF r]], hypsubst, rule refines_bind [OF pop_refines [OF r]])
       (auto intro!: refines_bind [OF refines_refl] rstepI)
  then show ?thesis using Of_ASSIGN_VEC4D by simp
next
  case Of_FORCE_VEC4_OFF_D
  have "refines rstep (of_FORCE_VEC4_OFF_D env cp thr) (of_FORCE_VEC4_OFF_D env cp s)"
    unfolding of_FORCE_VEC4_OFF_D_def
    by (rule refines_bind [OF word_refines [OF r]], hypsubst, rule refines_bind [OF word_refines [OF r]], hypsubst,
        rule refines_bind [OF pop_refines [OF r]])
       (auto intro!: refines_bind [OF refines_refl] refines_bind [OF flag_refines] rstepI)
  then show ?thesis using Of_FORCE_VEC4_OFF_D by simp
qed (use r after_jump_refines jump_if_refines pc_refines assign_off_refines assign_array_refines in
    \<open>simp_all add: of_JMP_def of_JMP0_def of_JMP0XZ_def of_JMP1_def of_JMP1XZ_def of_DELAY_def Let_def delay_call_def rstepI\<close>)

lemma run_loop_refines: "rthr thr s \<Longrightarrow> refines rstep (run_loop (exec vec ld gv rs env) code n thr) (run_loop (exec vec' ld' gv' rs' env) code n s)"
proof (induction n arbitrary: thr s)
  case 0
  then show ?case by (auto intro: rstepI)
next
  case (Suc n)
  obtain op cp where i: "code ! th_pc s = (op, cp)" by fastforce
  have pc: "th_pc thr = th_pc s" by (rule pc_refines(2) [OF Suc.prems])
  have step: "refines rstep (exec vec ld gv rs env op cp (thr\<lparr>th_pc := th_pc s + 1\<rparr>)) (exec vec' ld' gv' rs' env op cp (s\<lparr>th_pc := th_pc s + 1\<rparr>))"
    by (rule exec_refines [OF pc_refines(1) [OF Suc.prems]])
  have rest: "refines rstep (do { (t, cs', rc) \<leftarrow> run_loop (exec vec ld gv rs env) code n t; Some (t, cs @ cs', rc) })
      (do { (u, ds', rc) \<leftarrow> run_loop (exec vec' ld' gv' rs' env) code n u; Some (u, ds @ ds', rc) })"
    if "rthr t u" "list_all2 (rel_thread_call rvec) cs ds" for t u cs ds
    by (rule refines_bind [OF Suc.IH [OF that(1)]]) (auto intro!: rstepI list_all2_appendI that(2))
  show ?case
  proof (cases "th_pc s < length code")
    case True
    have "refines rstep (do { (t, cs, rc) \<leftarrow> exec vec ld gv rs env op cp (thr\<lparr>th_pc := th_pc s + 1\<rparr>);
          if rc then do { (t, cs', rc) \<leftarrow> run_loop (exec vec ld gv rs env) code n t; Some (t, cs @ cs', rc) } else Some (t, cs, False) })
        (do { (u, ds, rc) \<leftarrow> exec vec' ld' gv' rs' env op cp (s\<lparr>th_pc := th_pc s + 1\<rparr>);
          if rc then do { (u, ds', rc) \<leftarrow> run_loop (exec vec' ld' gv' rs' env) code n u; Some (u, ds @ ds', rc) } else Some (u, ds, False) })"
      by (rule refines_bind [OF step]) (auto split: if_splits intro!: rest rstepI)
    then show ?thesis using True by (simp only: run_loop.simps pc i Let_def prod.case if_True)
  qed (simp add: pc)
qed

end

text \<open>The index of a list of bits.\<close>

definition getv_bits :: "bool \<Rightarrow> vvp_bit4_t list \<Rightarrow> ulong \<times> vvp_bit4_t" where
  "getv_bits sf bs =
     (if list_ex bit4_is_xz (if sf then take 64 bs else bs) then (0, BIT4_1)
      else (word_of_int (bnum sf bs), if \<not> sf \<and> 2 ^ 64 \<le> bnum sf bs then BIT4_X else BIT4_0))"

lemma getv_ok: "rvec v bs \<Longrightarrow> getv_index sf v = getv_bits sf bs"
  using bnum_bits4 [of sf v]
  by (auto simp: getv_index_def getv_bits_def vector4_to_value_ok vector4_to_value_ovf_ok rvec_def)

text \<open>Signals hold well-formed vectors; a load of any other value is left out.\<close>

definition load_fn :: "(address \<Rightarrow> vvp_vector4_t option) \<Rightarrow> address \<Rightarrow> vvp_bit4_t list option" where
  "load_fn ld k = (case ld k of None \<Rightarrow> None | Some v \<Rightarrow> if wf_vec v then Some (bits4 v) else None)"

lemma load_refines: "refines rvec (ld k) (load_fn ld k)"
  by (auto simp: load_fn_def refines_def rvec_def split: option.splits if_splits)

interpretation interp: interpreter opcode_fn opcode_spec ld "load_fn ld" getv_index getv_bits resize_rval_vec resize_bits for ld
  by unfold_locales (auto intro: opcode_fn_refines resize_rval_refines load_refines getv_ok)

section \<open>The specification of an instruction and of a run\<close>

text \<open>What an instruction does to a thread on lists of bits, named without the functions of the interpreter.\<close>

definition branch_spec :: "thread_env \<Rightarrow> bool \<Rightarrow> nat \<Rightarrow> 'v vthread \<Rightarrow> 'v step_result" where
  "branch_spec env taken target s =
     Some (if taken then s\<lparr>th_pc := target\<rparr> else s, if is_stopped env then [Call_vthread 0 False] else [], \<not> is_stopped env)"

definition branch_on :: "vvp_bit4_t set \<Rightarrow> thread_env \<Rightarrow> vvp_code \<Rightarrow> 'v vthread \<Rightarrow> 'v step_result" where
  "branch_on B env cp s =
     (if unat (bit_idx0 cp) < FLAGS_COUNT then branch_spec env (th_flags s ! unat (bit_idx0 cp) \<in> B) (cp_cptr cp) s else None)"

definition wait_spec :: "int \<Rightarrow> 'v vthread \<Rightarrow> 'v step_result" where
  "wait_spec d s = Some (s, [if d = 0 then Call_inactive else Call_vthread (word_of_int d) False], False)"

text \<open>\<open>%ix/getv/s\<close> does not see an unknown bit above the low 64: nothing is said then.\<close>

definition getv_spec :: "bool \<Rightarrow> nat \<Rightarrow> vvp_bit4_t list \<Rightarrow> 'v vthread \<Rightarrow> 'v step_result" where
  "getv_spec sf k bs s =
     (let xz = list_ex bit4_is_xz bs
      in if k < WORDS_COUNT \<and> \<not> (sf \<and> list_ex bit4_is_xz (drop 64 bs))
         then Some (s\<lparr>th_words := (th_words s)[k := if xz then 0 else word_of_int (bnum sf bs)],
           th_flags := (th_flags s)[4 := if xz then BIT4_1 else if \<not> sf \<and> 2 ^ 64 \<le> bnum sf bs then BIT4_X else BIT4_0]\<rparr>, [], True)
         else None)"

text \<open>The call for the part of a value that lies within a target of some width; none if the index is unknown or no bit lies there.\<close>

definition placed_call :: "'v vthread \<Rightarrow> (vvp_bit4_t list \<Rightarrow> nat \<Rightarrow> vvp_bit4_t list thread_call) \<Rightarrow> vvp_bit4_t list \<Rightarrow> ulong \<Rightarrow> nat option \<Rightarrow>
    vvp_bit4_t list thread_call list option" where
  "placed_call s call v off wid =
     (if th_flags s ! 4 = BIT4_1 then Some []
      else do { wid \<leftarrow> wid; part \<leftarrow> resize_bits v (sint off) wid; Some (case part of None \<Rightarrow> [] | Some (u, lo) \<Rightarrow> [call u (nat lo)]) })"

definition reg :: "'v vthread \<Rightarrow> 32 word \<Rightarrow> ulong option" where
  "reg s i = (if unat i < WORDS_COUNT then Some (th_words s ! unat i) else None)"

definition pops :: "'v vthread \<Rightarrow> ('v \<Rightarrow> 'v thread_call list option) \<Rightarrow> 'v step_result" where
  "pops s calls = (case stack_vec4 s of v # st \<Rightarrow> map_option (\<lambda>cs. (s\<lparr>stack_vec4 := st\<rparr>, cs, True)) (calls v) | _ \<Rightarrow> None)"

text \<open>
  Offsets of a force below zero and word addresses of more than 32 bits, which the code hands on as unsigned numbers of 32 bits, are left out.
\<close>

definition force_call :: "'v vthread \<Rightarrow> address \<Rightarrow> ulong \<Rightarrow> ulong \<Rightarrow> nat \<Rightarrow> 'v \<Rightarrow> 'v thread_call list option" where
  "force_call s net base delay wid v =
     (if th_flags s ! 4 = BIT4_1 \<or> sint base \<ge> int wid \<or> sint base < - int wid then Some []
      else if 0 \<le> sint base \<and> wid \<le> 2 ^ 32 then Some [Call_force_vector net (nat (sint base)) wid v delay]
      else None)"

fun step_spec :: "(address \<Rightarrow> vvp_bit4_t list option) \<Rightarrow> thread_env \<Rightarrow> vvp_opcode \<Rightarrow> vvp_code \<Rightarrow> vvp_bit4_t list vthread \<Rightarrow> vvp_bit4_t list step_result" where
  "step_spec ld env (Vec4_opcode op) cp s = map_option (\<lambda>t. (t, [], True)) (opcode_spec op cp s)"
| "step_spec ld env Of_JMP cp s = branch_spec env True (cp_cptr cp) s"
| "step_spec ld env Of_JMP0 cp s = branch_on {BIT4_0} env cp s"
| "step_spec ld env Of_JMP0XZ cp s = branch_on {BIT4_0, BIT4_X, BIT4_Z} env cp s"
| "step_spec ld env Of_JMP1 cp s = branch_on {BIT4_1} env cp s"
| "step_spec ld env Of_JMP1XZ cp s = branch_on {BIT4_1, BIT4_X, BIT4_Z} env cp s"
| "step_spec ld env Of_DELAY cp s = wait_spec (uint (bit_idx0 cp) + 2 ^ 32 * uint (bit_idx1 cp)) s"
| "step_spec ld env Of_DELAYX cp s = (if cp_number cp < WORDS_COUNT then wait_spec (uint (th_words s ! cp_number cp)) s else None)"
| "step_spec ld env Of_LOAD_VEC4 cp s = map_option (\<lambda>bs. (s\<lparr>stack_vec4 := bs # stack_vec4 s\<rparr>, [], True)) (ld (cp_net cp))"
| "step_spec ld env Of_IX_GETV cp s = do { bs \<leftarrow> ld (cp_net cp); getv_spec False (unat (bit_idx0 cp)) bs s }"
| "step_spec ld env Of_IX_GETV_S cp s = do { bs \<leftarrow> ld (cp_net cp); getv_spec True (unat (bit_idx0 cp)) bs s }"
| "step_spec ld env Of_ASSIGN_VEC4 cp s = pops s (\<lambda>v. Some [Call_assign_vector (cp_net cp) 0 0 v (word_of_int (uint (bit_idx0 cp)))])"
| "step_spec ld env Of_ASSIGN_VEC4D cp s =
     do { delay \<leftarrow> reg s (bit_idx0 cp); wid \<leftarrow> signal_size env (cp_net cp);
          pops s (\<lambda>v. Some [Call_assign_vector (cp_net cp) 0 wid v delay]) }"
| "step_spec ld env Of_ASSIGN_VEC4_OFF_D cp s =
     do { off \<leftarrow> reg s (bit_idx0 cp); delay \<leftarrow> reg s (bit_idx1 cp);
          pops s (\<lambda>v. placed_call s (\<lambda>u lo. Call_assign_vector (cp_net cp) lo (the (signal_size env (cp_net cp))) u delay) v off
            (signal_size env (cp_net cp))) }"
| "step_spec ld env Of_ASSIGN_VEC4_A_D cp s =
     do { off \<leftarrow> (if bit_idx0 cp = 0 then Some 0 else reg s (bit_idx0 cp)); delay \<leftarrow> (if bit_idx1 cp = 0 then Some 0 else reg s (bit_idx1 cp));
          if uint (th_words s ! 3) < 2 ^ 32
          then pops s (\<lambda>v. placed_call s (\<lambda>u lo. Call_assign_array_word (cp_net cp) (unat (th_words s ! 3)) lo u delay) v off
            (Some (array_word_size env (cp_net cp))))
          else None }"
| "step_spec ld env Of_FORCE_VEC4_OFF_D cp s =
     do { base \<leftarrow> reg s (bit_idx0 cp); delay \<leftarrow> reg s (bit_idx1 cp); wid \<leftarrow> filter_size env (cp_net cp);
          pops s (force_call s (cp_net cp) base delay wid) }"

text \<open>A run of at most \<open>n\<close> instructions.\<close>

fun thread_spec :: "(address \<Rightarrow> vvp_bit4_t list option) \<Rightarrow> thread_env \<Rightarrow> (vvp_opcode \<times> vvp_code) list \<Rightarrow> nat \<Rightarrow> vvp_bit4_t list vthread \<Rightarrow> vvp_bit4_t list step_result" where
  "thread_spec ld env code 0 s = Some (s, [], True)"
| "thread_spec ld env code (Suc n) s =
     (if length code \<le> th_pc s then None
      else case step_spec ld env (fst (code ! th_pc s)) (snd (code ! th_pc s)) (s\<lparr>th_pc := Suc (th_pc s)\<rparr>) of
        None \<Rightarrow> None
      | Some (t, ds, True) \<Rightarrow> map_option (\<lambda>(u, ds', rc). (u, ds @ ds', rc)) (thread_spec ld env code n t)
      | Some (t, ds, False) \<Rightarrow> Some (t, ds, False))"

section \<open>The interpreter meets it\<close>

abbreviation exec_bits :: "(address \<Rightarrow> vvp_bit4_t list option) \<Rightarrow> thread_env \<Rightarrow> vvp_opcode \<Rightarrow> vvp_code \<Rightarrow> vvp_bit4_t list vthread \<Rightarrow> vvp_bit4_t list step_result" where
  "exec_bits ld env \<equiv> exec opcode_spec ld getv_bits resize_bits env"

lemma branch_on_jump:
  assumes "\<And>b. b \<in> B \<longleftrightarrow> p b"
  shows "branch_on B env cp s = jump_if p env cp s"
  by (simp add: assms branch_on_def branch_spec_def jump_if_def after_jump_def get_flag_def)

lemma known_sets: "b \<in> {BIT4_0, BIT4_X, BIT4_Z} \<longleftrightarrow> b \<noteq> BIT4_1" "b \<in> {BIT4_1, BIT4_X, BIT4_Z} \<longleftrightarrow> b \<noteq> BIT4_0"
  by (cases b; simp)+

lemma getv_spec_exec: "getv_spec sf (unat k) bs s = Some r \<Longrightarrow> ld n = Some bs \<Longrightarrow>
    do { vec \<leftarrow> ld n; thr \<leftarrow> put_word (unat k) (fst (getv_bits sf vec)) s; thr \<leftarrow> set_flag 4 (snd (getv_bits sf vec)) thr; Some (thr, [], True) } = Some r"
  using list_ex_append [of bit4_is_xz "take 64 bs" "drop 64 bs"]
  by (auto simp: getv_spec_def getv_bits_def put_word_def set_flag_def Let_def split: if_splits)

lemma popsD: "pops s calls = Some r \<Longrightarrow> \<exists>v st cs. stack_vec4 s = v # st \<and> calls v = Some cs \<and> r = (s\<lparr>stack_vec4 := st\<rparr>, cs, True)"
  by (auto simp: pops_def split: list.splits)

lemma reg_word: "reg s i = get_word (unat i) s"
  by (simp add: reg_def get_word_def)

lemma placed_callD:
  assumes "placed_call s call v off wid = Some cs"
  shows "(if th_flags s ! 4 = BIT4_1 then Some (t, [], True)
     else do { n \<leftarrow> wid; r \<leftarrow> resize_bits v (sint off) n; Some (t, (case r of None \<Rightarrow> [] | Some (val, off) \<Rightarrow> [call val (nat off)]), True) }) =
     Some (t, cs, True)"
  using assms by (auto simp: placed_call_def split: if_splits bind_splits)

lemma wait_spec_call: "uint w = d \<Longrightarrow> wait_spec d s = Some (s, [delay_call w], False)"
  by (auto simp: wait_spec_def delay_call_def uint_0_iff)

lemma low_words:
  assumes "uint (w :: ulong) < 2 ^ 32"
  shows "unat (ucast w :: 32 word) = unat w"
proof -
  have "int (unat w) < int (2 ^ 32)" using assms by simp
  then have "unat w < 2 ^ 32" by (simp only: of_nat_less_iff)
  then show ?thesis by (simp add: unsigned_ucast_eq take_bit_nat_eq_self)
qed

lemma get_frame: "get_word k (s\<lparr>stack_vec4 := st\<rparr>) = get_word k s" "get_flag k (s\<lparr>stack_vec4 := st\<rparr>) = get_flag k s"
  by (simp_all add: get_word_def get_flag_def)

lemma assign_off_exec:
  assumes "step_spec ld env Of_ASSIGN_VEC4_OFF_D cp s = Some r"
  shows "of_ASSIGN_VEC4_OFF_D resize_bits env cp s = Some r"
proof -
  obtain v st cs off delay where c:
    "get_word (unat (bit_idx0 cp)) s = Some off" "get_word (unat (bit_idx1 cp)) s = Some delay" "stack_vec4 s = v # st"
    "placed_call s (\<lambda>u lo. Call_assign_vector (cp_net cp) lo (the (signal_size env (cp_net cp))) u delay) v off (signal_size env (cp_net cp)) = Some cs"
    "r = (s\<lparr>stack_vec4 := st\<rparr>, cs, True)"
    using assms by (auto simp: reg_word dest!: popsD split: bind_splits)
  show ?thesis
  proof (cases "signal_size env (cp_net cp)")
    case None
    then show ?thesis
      using c by (auto simp: of_ASSIGN_VEC4_OFF_D_def pop_vec4_def get_frame get_flag_def placed_call_def split: if_splits)
  next
    case (Some wid)
    then show ?thesis
      using c(1-3,5) placed_callD [OF c(4) [unfolded Some option.sel], of "s\<lparr>stack_vec4 := st\<rparr>"]
      by (simp add: of_ASSIGN_VEC4_OFF_D_def pop_vec4_def get_frame get_flag_def split: if_splits)
  qed
qed

lemma assign_array_exec:
  assumes "step_spec ld env Of_ASSIGN_VEC4_A_D cp s = Some r"
  shows "of_ASSIGN_VEC4_A_D resize_bits env cp s = Some r"
proof -
  have i: "(if unat k \<noteq> 0 then get_word (unat k) s else Some 0) = (if k = 0 then Some 0 else reg s k)" for k :: "32 word"
    by (simp add: unat_eq_0 reg_word)
  have w3: "get_word 3 s = Some (th_words s ! 3)" by (simp add: get_word_def)
  from assms obtain off delay where d:
    "(if bit_idx0 cp = 0 then Some 0 else reg s (bit_idx0 cp)) = Some off" "(if bit_idx1 cp = 0 then Some 0 else reg s (bit_idx1 cp)) = Some delay"
    "(if uint (th_words s ! 3) < 2 ^ 32
      then pops s (\<lambda>v. placed_call s (\<lambda>u lo. Call_assign_array_word (cp_net cp) (unat (th_words s ! 3)) lo u delay) v off
        (Some (array_word_size env (cp_net cp)))) else None) = Some r"
    by (auto simp only: step_spec.simps bind_eq_Some_conv)
  then have adr: "unat (ucast (th_words s ! 3) :: 32 word) = unat (th_words s ! 3)" using low_words by (auto split: if_splits)
  from d(3) obtain v st cs where c: "stack_vec4 s = v # st" "r = (s\<lparr>stack_vec4 := st\<rparr>, cs, True)"
    "placed_call s (\<lambda>u lo. Call_assign_array_word (cp_net cp) (unat (th_words s ! 3)) lo u delay) v off (Some (array_word_size env (cp_net cp))) = Some cs"
    by (auto dest!: popsD split: if_splits)
  then show ?thesis
    using placed_callD [OF c(3), of "s\<lparr>stack_vec4 := st\<rparr>"] adr
    unfolding of_ASSIGN_VEC4_A_D_def Let_def i d(1,2) w3 bind.bind_lunit adr
    by (simp add: pop_vec4_def get_frame get_flag_def split: if_splits)
qed

lemma force_exec:
  assumes "step_spec ld env Of_FORCE_VEC4_OFF_D cp s = Some r"
  shows "of_FORCE_VEC4_OFF_D env cp s = Some r"
proof -
  obtain v st cs base delay wid where c:
    "get_word (unat (bit_idx0 cp)) s = Some base" "get_word (unat (bit_idx1 cp)) s = Some delay" "stack_vec4 s = v # st"
    "filter_size env (cp_net cp) = Some wid" "force_call s (cp_net cp) base delay wid v = Some cs" "r = (s\<lparr>stack_vec4 := st\<rparr>, cs, True)"
    using assms by (auto simp: reg_word dest!: popsD split: bind_splits)
  have "nat (sint base) = unat (ucast base :: 32 word)" if "0 \<le> sint base" "sint base < 2 ^ 32"
  proof -
    have "uint base = sint base" using that by (simp add: uint_sint take_bit_int_eq_self)
    then show ?thesis using low_words [of base] that by (simp flip: \<open>uint base = sint base\<close>)
  qed
  then show ?thesis
    using c by (auto simp: of_FORCE_VEC4_OFF_D_def pop_vec4_def get_frame get_flag_def force_call_def split: if_splits)
qed

lemma step_spec_exec: "step_spec ld env op cp s = Some r \<Longrightarrow> exec_bits ld env op cp s = Some r"
proof (cases op)
  case Of_DELAY
  have "of_DELAY cp s = wait_spec (uint (bit_idx0 cp) + 2 ^ 32 * uint (bit_idx1 cp)) s"
    unfolding wait_spec_call [OF join_word_halves] of_DELAY_def Let_def by (rule refl)
  then show "step_spec ld env op cp s = Some r \<Longrightarrow> exec_bits ld env op cp s = Some r" using Of_DELAY by simp
next
  case Of_DELAYX
  then show "step_spec ld env op cp s = Some r \<Longrightarrow> exec_bits ld env op cp s = Some r"
    by (auto simp: of_DELAYX_def get_word_def wait_spec_call [OF refl] split: if_splits)
next
  case Of_IX_GETV
  then show "step_spec ld env op cp s = Some r \<Longrightarrow> exec_bits ld env op cp s = Some r"
    by (cases "ld (cp_net cp)") (auto simp: of_IX_GETV_def dest: getv_spec_exec [of False _ _ s r ld "cp_net cp"])
next
  case Of_IX_GETV_S
  then show "step_spec ld env op cp s = Some r \<Longrightarrow> exec_bits ld env op cp s = Some r"
    by (cases "ld (cp_net cp)") (auto simp: of_IX_GETV_def dest: getv_spec_exec [of True _ _ s r ld "cp_net cp"])
next
  case Of_ASSIGN_VEC4
  have u: "word_of_int (uint w) = (ucast w :: ulong)" for w :: "32 word" by simp
  show "step_spec ld env op cp s = Some r \<Longrightarrow> exec_bits ld env op cp s = Some r"
    using Of_ASSIGN_VEC4 by (auto simp: of_ASSIGN_VEC4_def peek_vec4_def pop_vec4_cnt_def u dest!: popsD)
next
  case Of_ASSIGN_VEC4D
  then show "step_spec ld env op cp s = Some r \<Longrightarrow> exec_bits ld env op cp s = Some r"
    by (auto simp: of_ASSIGN_VEC4D_def reg_word pop_vec4_def dest!: popsD split: bind_splits)
next
  case Vec4_opcode
  then show "step_spec ld env op cp s = Some r \<Longrightarrow> exec_bits ld env op cp s = Some r" by auto
next
  case Of_LOAD_VEC4
  then show "step_spec ld env op cp s = Some r \<Longrightarrow> exec_bits ld env op cp s = Some r"
    by (cases "ld (cp_net cp)") (simp_all add: of_LOAD_VEC4_def push_vec4_def)
next
  case Of_JMP
  then show "step_spec ld env op cp s = Some r \<Longrightarrow> exec_bits ld env op cp s = Some r"
    by (cases "is_stopped env") (simp_all add: of_JMP_def after_jump_def branch_spec_def)
next
  case Of_JMP0XZ
  then show "step_spec ld env op cp s = Some r \<Longrightarrow> exec_bits ld env op cp s = Some r"
    by (simp only: step_spec.simps exec.simps of_JMP0XZ_def branch_on_jump [OF known_sets(1)])
next
  case Of_JMP1XZ
  then show "step_spec ld env op cp s = Some r \<Longrightarrow> exec_bits ld env op cp s = Some r"
    by (simp only: step_spec.simps exec.simps of_JMP1XZ_def branch_on_jump [OF known_sets(2)])
next
  case Of_JMP0
  then show "step_spec ld env op cp s = Some r \<Longrightarrow> exec_bits ld env op cp s = Some r"
    by (simp only: step_spec.simps exec.simps of_JMP0_def branch_on_jump [OF singleton_iff])
next
  case Of_JMP1
  then show "step_spec ld env op cp s = Some r \<Longrightarrow> exec_bits ld env op cp s = Some r"
    by (simp only: step_spec.simps exec.simps of_JMP1_def branch_on_jump [OF singleton_iff])
qed (use assign_off_exec assign_array_exec force_exec in \<open>simp_all only: exec.simps\<close>)

lemma thread_spec_loop: "thread_spec ld env code n s = Some r \<Longrightarrow> run_loop (exec_bits ld env) code n s = Some r"
proof (induction n arbitrary: s r)
  case (Suc n)
  obtain op cp where i: "code ! th_pc s = (op, cp)" by fastforce
  let ?s = "s\<lparr>th_pc := Suc (th_pc s)\<rparr>"
  from Suc.prems obtain t ds rc where step: "step_spec ld env op cp ?s = Some (t, ds, rc)" and pc: "th_pc s < length code"
    by (auto simp: i split: if_splits option.splits)
  have e: "exec_bits ld env op cp ?s = Some (t, ds, rc)" by (rule step_spec_exec [OF step])
  show ?case
  proof (cases rc)
    case True
    then obtain u ds' rc' where "thread_spec ld env code n t = Some (u, ds', rc')" "r = (u, ds @ ds', rc')"
      using Suc.prems pc by (auto simp: i step)
    then show ?thesis using Suc.IH e True pc by (simp add: i)
  next
    case False
    then show ?thesis using Suc.prems e pc by (auto simp: i step)
  qed
qed simp

lemma thread_run_ok:
  assumes "wf_thread thr" "thread_spec (load_fn ld) env code n (abs_thread thr) = Some (s, ds, rc)"
  shows "\<exists>t cs. thread_run ld env code n thr = Some (t, cs, rc) \<and> wf_thread t \<and> abs_thread t = s \<and> list_all2 (rel_thread_call rvec) cs ds"
  using interp.run_loop_refines [of thr "abs_thread thr" ld env code n] thread_spec_loop [OF assms(2)] assms(1)
  by (auto simp: refines_def rthr_def thread_run_def)

lemma opcode_ok:
  assumes "wf_thread thr" "opcode_spec op cp (abs_thread thr) = Some s"
  shows "\<exists>t. opcode_fn op cp thr = Some t \<and> wf_thread t \<and> abs_thread t = s"
  using opcode_fn_refines [of thr "abs_thread thr" op cp] assms by (auto simp: refines_def rthr_def)

end
