(* ===== verification/Thread_Props.thy ===== *)
theory Thread_Props
  imports Vvp_ThreadRun
begin

text \<open>The properties of the thread interpreter.\<close>

section \<open>Runs\<close>

text \<open>
  C3. \<open>thread_spec\<close> says of every instruction, in \<open>step_spec\<close>, what it does to a thread on lists of bits: where a jump goes and on which values of its flag, how
  long a delay waits, which part of a value is assigned where and when, what a load pushes. Whenever it lets a thread run, the interpreter runs in the same way
  for any number of instructions, whatever the signals hold: it fails no assertion, stays on the same path, suspends at the same instruction, ends with the
  bits of the specification on the stack, in the flags and in the registers, and makes the same calls of the scheduler. The specification promises nothing
  (it is \<open>None\<close>) in the cases that C22 lists, for a force at a negative offset, for a word address above 32 bits and for \<open>%ix/getv/s\<close> of a signal with an
  unknown bit above the low 64.
\<close>

theorem thread_run_refines:
  assumes "wf_thread thr" "thread_spec (load_fn ld) env code n (abs_thread thr) = Some (s, ds, rc)"
  shows "\<exists>t cs. thread_run ld env code n thr = Some (t, cs, rc) \<and> wf_thread t \<and> abs_thread t = s \<and> list_all2 (rel_thread_call rvec) cs ds"
  using assms by (rule thread_run_ok)

abbreviation instr :: "nat \<Rightarrow> 32 word \<Rightarrow> 32 word \<Rightarrow> vvp_code" where
  "instr n a b \<equiv> \<lparr>cp_number = n, bit_idx0 = a, bit_idx1 = b, cp_cptr = 0, cp_net = 0\<rparr>"

abbreviation new_thread :: "'v list \<Rightarrow> 'v vthread" where
  "new_thread st \<equiv> \<lparr>th_pc = 0, th_flags = replicate FLAGS_COUNT BIT4_X, th_words = replicate WORDS_COUNT 0, stack_vec4 = st\<rparr>"

abbreviation no_env :: thread_env where
  "no_env \<equiv> \<lparr>signal_size = (\<lambda>_. None), filter_size = (\<lambda>_. None), array_word_size = (\<lambda>_. 0), is_stopped = False\<rparr>"

abbreviation sample_code :: "(vvp_opcode \<times> vvp_code) list" where
  "sample_code \<equiv> [(Vec4_opcode Of_PUSHI_VEC4, instr 8 23 0), (Vec4_opcode Of_MULI, instr 8 7 0), (Vec4_opcode Of_PUSHI_VEC4, instr 8 10 0),
     (Vec4_opcode Of_MOD, instr 0 0 0), (Of_DELAY, instr 0 5 0)]"

lemma sample_spec:
  "thread_spec (load_fn (\<lambda>_. None)) no_env sample_code 10 (new_thread []) =
     Some (new_thread [num_bits4 8 1]\<lparr>th_pc := 5\<rparr>, [Call_vthread 5 False], False)"
  by code_simp

theorem thread_run_refines_witness:
  "\<exists>t cs. thread_run (\<lambda>_. None) no_env sample_code 10 (new_thread []) = Some (t, cs, False) \<and> map bits4 (stack_vec4 t) = [num_bits4 8 1]"
  using thread_run_refines [of "new_thread []" "\<lambda>_. None" no_env sample_code 10 "new_thread [num_bits4 8 1]\<lparr>th_pc := 5\<rparr>" "[Call_vthread 5 False]" False]
    sample_spec by (fastforce simp: wf_thread_def abs_thread_def)

text \<open>
  C22. Every opcode that works on the stack of vectors, the flags and the index registers does what its specification says on lists
  of bits, and keeps a thread well formed: vectors in representation form and not empty, all flags and registers present. The specification is written
  over the fields of the state and shares no opcode with the model. It promises nothing for operands that are missing, empty or of different
  widths, for flags and registers out of range, for the quotients that C15 and C16 leave out, for part selects whose base is no known signed number of 32 bits, for
  \<open>%cmp/s\<close> and \<open>%cmpi/s\<close> if a bit is unknown and two known bits differ (the code gives X where its documentation says 0), and for \<open>%ix/vec4/s\<close> of the negative
  numbers that C24 names.
\<close>

theorem opcode_refines:
  assumes "wf_thread thr" "opcode_spec op cp (abs_thread thr) = Some s"
  shows "\<exists>t. opcode_fn op cp thr = Some t \<and> wf_thread t \<and> abs_thread t = s"
  using assms by (rule opcode_ok)

theorem opcode_refines_witness:
  "\<exists>t. opcode_fn Of_CONCAT_VEC4 (instr 0 0 0) (new_thread [vector4_fill 2 BIT4_Z, vector4_fill 1 BIT4_1]) = Some t \<and>
    map bits4 (stack_vec4 t) = [[BIT4_Z, BIT4_Z, BIT4_1]]"
  using opcode_refines [of "new_thread [vector4_fill 2 BIT4_Z, vector4_fill 1 BIT4_1]" Of_CONCAT_VEC4 "instr 0 0 0" "new_thread [[BIT4_Z, BIT4_Z, BIT4_1]]"]
  by (auto simp: wf_thread_def wf_vec_def abs_thread_def bits4_fill numeral_2_eq_2 on_two_def pop_vec4_def edit_vec4_def peek_vec4_def poke_vec4_def)

text \<open>Code whose jumps only lead forward and stay in the code, and which ends with a delay.\<close>

definition forward :: "(vvp_opcode \<times> vvp_code) list \<Rightarrow> bool" where
  "forward code \<longleftrightarrow> code \<noteq> [] \<and> fst (last code) \<in> {Of_DELAY, Of_DELAYX} \<and>
     (\<forall>i < length code. fst (code ! i) \<in> {Of_JMP, Of_JMP0, Of_JMP0XZ, Of_JMP1, Of_JMP1XZ} \<longrightarrow> i < cp_cptr (snd (code ! i)) \<and> cp_cptr (snd (code ! i)) < length code)"

lemma pc_frame:
  "pop_vec4 thr = Some (v, t) \<Longrightarrow> th_pc t = th_pc thr" "pop_vec4_cnt k thr = Some t \<Longrightarrow> th_pc t = th_pc thr"
  "poke_vec4 k v thr = Some t \<Longrightarrow> th_pc t = th_pc thr" "edit_vec4 f thr = Some t \<Longrightarrow> th_pc t = th_pc thr"
  "set_flag k b thr = Some t \<Longrightarrow> th_pc t = th_pc thr" "put_word k w thr = Some t \<Longrightarrow> th_pc t = th_pc thr"
  "set_flags456 r thr = Some t \<Longrightarrow> th_pc t = th_pc thr" "th_pc (push_vec4 v thr) = th_pc thr"
  by (auto simp: set_flags456_def pop_vec4_def pop_vec4_cnt_def poke_vec4_def edit_vec4_def set_flag_def put_word_def push_vec4_def split: list.splits if_splits bind_splits prod.splits)

lemma opcode_pc: "opcode_fn op cp thr = Some t \<Longrightarrow> th_pc t = th_pc thr"
  by (cases op; simp only: opcode_fn.simps of_ADD_def of_ADDI_def of_SUB_def of_SUBI_def of_MUL_def of_MULI_def of_DIV_def of_DIV_S_def of_MOD_def of_MOD_S_def of_AND_def of_OR_def of_NAND_def of_NOR_def of_XOR_def of_XNOR_def of_INV_def reduce_opcode_def of_ANDR_def of_NANDR_def of_ORR_def of_NORR_def of_XORR_def of_XNORR_def of_DUP_VEC4_def of_POP_VEC4_def of_PUSHI_VEC4_def of_CAST2_def of_BLEND_def of_CONCAT_VEC4_def of_CONCATI_VEC4_def of_REPLICATE_def of_PAD_U_def of_PAD_S_def of_PART_base_def of_PART_S_def of_PART_U_def of_PARTI_base_def of_PARTI_S_def of_PARTI_U_def of_SPLIT_VEC4_def of_SHIFTL_def of_SHIFTR_def of_SHIFTR_S_def do_CMPE_def invert_flag_def compare_stack_def compare_immediate_def of_CMPE_def do_CMPNE_def of_CMPNE_def of_CMPIE_def of_CMPINE_def do_CMPS_def of_CMPS_def of_CMPIS_def do_CMPU_def of_CMPU_def of_CMPIU_def do_CMPXZ_def of_CMPX_def of_CMPZ_def do_CMPWE_def do_CMPWNE_def of_CMPWE_def of_CMPWNE_def of_FLAG_GET_VEC4_def of_FLAG_INV_def of_FLAG_MOV_def of_FLAG_OR_def of_FLAG_SET_IMM_def of_FLAG_SET_VEC4_def ix_update_def of_IX_ADD_def of_IX_SUB_def of_IX_MUL_def of_IX_LOAD_def of_IX_MOV_def vec4_to_index_def of_IX_VEC4_def of_IX_VEC4_S_def)
     (auto dest!: pc_frame(1-7) simp: pc_frame(8) Let_def split: bind_splits prod.splits if_splits option.splits)

lemma exec_pc:
  assumes "exec vec ld gv rs env op cp thr = Some (t, cs, True)" "\<And>v t. vec v cp thr = Some t \<Longrightarrow> th_pc t = th_pc thr"
  shows "th_pc t = th_pc thr \<or> op \<in> {Of_JMP, Of_JMP0, Of_JMP0XZ, Of_JMP1, Of_JMP1XZ} \<and> th_pc t = cp_cptr cp"
proof (cases op)
  case (Vec4_opcode v)
  then show ?thesis using assms by (auto split: bind_splits)
qed (use assms(1) in \<open>auto simp: of_JMP_def of_JMP0_def of_JMP0XZ_def of_JMP1_def of_JMP1XZ_def jump_if_def after_jump_def of_DELAY_def of_DELAYX_def of_LOAD_VEC4_def of_IX_GETV_def
    of_ASSIGN_VEC4_def of_ASSIGN_VEC4_A_D_def of_ASSIGN_VEC4_OFF_D_def of_ASSIGN_VEC4D_def of_FORCE_VEC4_OFF_D_def Let_def pc_frame(8) dest!: pc_frame(1-7) split: bind_splits if_splits\<close>)

lemma step_pc:
  assumes "exec opcode_fn ld getv_index resize_rval_vec env op cp thr = Some (t, cs, True)"
  shows "th_pc t = th_pc thr \<or> op \<in> {Of_JMP, Of_JMP0, Of_JMP0XZ, Of_JMP1, Of_JMP1XZ} \<and> th_pc t = cp_cptr cp"
  by (rule exec_pc [OF assms]) (rule opcode_pc)

lemma delays_suspend: "op \<in> {Of_DELAY, Of_DELAYX} \<Longrightarrow> exec vec ld gv rs env op cp thr \<noteq> Some (t, cs, True)"
  by (auto simp: of_DELAY_def of_DELAYX_def Let_def split: bind_splits)

lemma forward_step:
  assumes "forward code" "th_pc thr < length code" "code ! th_pc thr = (op, cp)"
    and "exec opcode_fn ld getv_index resize_rval_vec env op cp (thr\<lparr>th_pc := th_pc thr + 1\<rparr>) = Some (u, ds, True)"
  shows "th_pc thr < th_pc u" "th_pc u < length code"
proof -
  have "th_pc thr \<noteq> length code - 1"
    using assms(1,3,4) delays_suspend [of op opcode_fn ld getv_index resize_rval_vec env cp "thr\<lparr>th_pc := th_pc thr + 1\<rparr>" u ds] by (auto simp: forward_def last_conv_nth)
  then show "th_pc thr < th_pc u" "th_pc u < length code"
    using step_pc [OF assms(4)] assms(1-3) by (auto simp: forward_def)
qed

text \<open>
  C25. Code whose jumps only lead forward within it and whose last instruction is \<open>%delay\<close> or \<open>%delayx\<close> cannot keep the simulator busy: within as many
  instructions as there are left the thread suspends, unless an opcode that it reaches fails an assertion. It never runs out of the code.
\<close>

theorem forward_code_suspends:
  assumes "forward code" "th_pc thr < length code"
  shows "(\<exists>t cs. thread_run ld env code (length code - th_pc thr) thr = Some (t, cs, False)) \<or>
    (\<exists>k < length code - th_pc thr. \<exists>t cs op cp. thread_run ld env code k thr = Some (t, cs, True) \<and> th_pc t < length code \<and> code ! th_pc t = (op, cp) \<and>
      exec opcode_fn ld getv_index resize_rval_vec env op cp (t\<lparr>th_pc := th_pc t + 1\<rparr>) = None)"
proof -
  have "(\<exists>t cs. thread_run ld env code n thr = Some (t, cs, False)) \<or>
    (\<exists>k < n. \<exists>t cs op cp. thread_run ld env code k thr = Some (t, cs, True) \<and> th_pc t < length code \<and> code ! th_pc t = (op, cp) \<and>
      exec opcode_fn ld getv_index resize_rval_vec env op cp (t\<lparr>th_pc := th_pc t + 1\<rparr>) = None)"
    if "length code - th_pc thr \<le> n" "th_pc thr < length code" for n and thr :: "vvp_vector4_t vthread"
    using that
  proof (induction n arbitrary: thr)
    case (Suc n)
    obtain op cp where i: "code ! th_pc thr = (op, cp)" by fastforce
    let ?step = "exec opcode_fn ld getv_index resize_rval_vec env op cp (thr\<lparr>th_pc := th_pc thr + 1\<rparr>)"
    consider "?step = None" | u ds where "?step = Some (u, ds, False)" | u ds where "?step = Some (u, ds, True)" by (cases ?step) auto
    then show ?case
    proof cases
      case 1
      then have "thread_run ld env code 0 thr = Some (thr, [], True)" by (simp add: thread_run_def)
      then show ?thesis using 1 i Suc.prems(2) by blast
    next
      case (2 u ds)
      then show ?thesis using i Suc.prems(2) by (simp add: thread_run_def)
    next
      case (3 u ds)
      note f = forward_step [OF assms(1) Suc.prems(2) i 3]
      have run: "thread_run ld env code (Suc k) thr = Some (t, ds @ cs, rc)" if "thread_run ld env code k u = Some (t, cs, rc)" for k t cs rc
        using that 3 i Suc.prems(2) by (simp add: thread_run_def)
      have "length code - th_pc u \<le> n" using f Suc.prems(1) by linarith
      from Suc.IH [OF this f(2)] show ?thesis using run by (meson Suc_mono)
    qed
  qed simp
  then show ?thesis using assms(2) by blast
qed

theorem forward_code_suspends_witness:
  "\<exists>t cs. thread_run (\<lambda>_. None) no_env [(Of_JMP1, (instr 0 0 0)\<lparr>cp_cptr := 2\<rparr>), (Of_JMP, (instr 0 0 0)\<lparr>cp_cptr := 2\<rparr>), (Of_DELAY, instr 0 5 0)] 3 (new_thread []) =
    Some (t, cs, False)"
proof -
  let ?c = "[(Of_JMP1, (instr 0 0 0)\<lparr>cp_cptr := 2\<rparr>), (Of_JMP, (instr 0 0 0)\<lparr>cp_cptr := 2\<rparr>), (Of_DELAY, instr 0 5 0)]"
  have "forward ?c" by (auto simp: forward_def less_Suc_eq)
  moreover have "exec opcode_fn ld getv_index resize_rval_vec no_env (fst i) (snd i) thr \<noteq> None"
    if "i \<in> set ?c" for ld i and thr :: "vvp_vector4_t vthread"
    using that by (auto simp: of_JMP_def of_JMP1_def jump_if_def get_flag_def after_jump_def of_DELAY_def Let_def)
  moreover have "(op, cp) \<in> set ?c" if "?c ! k = (op, cp)" "k < length ?c" for k op cp using nth_mem [OF that(2)] that(1) by simp
  ultimately show ?thesis
    using forward_code_suspends [of ?c "new_thread []" "\<lambda>_. None" no_env] by (metis (no_types, lifting) fst_conv snd_conv length_Cons list.size(3) vthread.select_convs(1) diff_zero numeral_3_eq_3 zero_less_Suc)
qed

section \<open>Arithmetic\<close>

text \<open>
  C15. \<open>%div\<close> and \<open>%div/s\<close> replace their operands by the quotient, truncated towards zero and modulo the width: all X if an operand has an X
  or Z bit or the divisor is zero. Above 64 bits this is shown for divisors below \<open>2\<^sup>6\<^sup>4\<close>, and for 65 to 128 bits if the dividend does
  not exceed \<open>2\<^sup>1\<^sup>2\<^sup>7\<close>.
\<close>

theorem division_opcodes_correct:
  assumes "wf_vec a" "wf_vec b" "size4 a = n" "size4 b = n" "stack_vec4 thr = b # a # st"
    and "\<not> list_ex bit4_is_xz (bits4 a @ bits4 b) \<Longrightarrow> div_ok n (uval4 a) (uval4 b) \<and> div_ok n (sval4 a) (sval4 b)"
  shows "(\<exists>u. of_DIV cp thr = Some (thr\<lparr>stack_vec4 := u # st\<rparr>) \<and> wf_vec u \<and>
      bits4 u = (if list_ex bit4_is_xz (bits4 a @ bits4 b) \<or> uval4 b = 0 then replicate n BIT4_X else num_bits4 n (uval4 a div uval4 b))) \<and>
    (\<exists>u. of_DIV_S cp thr = Some (thr\<lparr>stack_vec4 := u # st\<rparr>) \<and> wf_vec u \<and>
      bits4 u = (if list_ex bit4_is_xz (bits4 a @ bits4 b) \<or> sval4 b = 0 then replicate n BIT4_X else num_bits4 n (sval4 a sdiv sval4 b)))"
proof -
  have q: "uval4 a sdiv uval4 b = uval4 a div uval4 b"
    using uval4_bounds(1) [of a] uval4_bounds(1) [of b] by (simp add: sdiv_magnitude)
  obtain u where "div_vec4 a b = Some u" "wf_vec u" "bits4 u = arith_fn tdiv_fn n False (bits4 a) (bits4 b)"
    using div_vec4_ok [of a b] assms(1-4,6) by auto
  moreover obtain v where "div_s_vec4 a b = Some v" "wf_vec v" "bits4 v = arith_fn tdiv_fn n True (bits4 a) (bits4 b)"
    using div_s_vec4_ok [of a b] assms(1-4,6) by auto
  ultimately show ?thesis
    using q by (auto simp: of_DIV_def of_DIV_S_def assms(5) pop_vec4_def push_vec4_def edit_vec4_def peek_vec4_def poke_vec4_def arith_fn_cases
        tdiv_fn_def bnum_bits4)
qed

text \<open>Vectors of 72 bits without X and Z bits, for the witnesses.\<close>

abbreviation vec72 :: "ulong \<Rightarrow> ulong \<Rightarrow> vvp_vector4_t" where
  "vec72 lo hi \<equiv> \<lparr>size4 = 72, abits4 = [lo, hi], bbits4 = [0, 0]\<rparr>"

lemma vec72_facts:
  "wf_vec (vec72 (- 10) 0xff)" "wf_vec (vec72 3 0)" "uval4 (vec72 (- 10) 0xff) = 2 ^ 72 - 10" "uval4 (vec72 3 0) = 3"
  "sval4 (vec72 (- 10) 0xff) = - 10" "sval4 (vec72 3 0) = 3"
  "list_ex bit4_is_xz (bits4 (vec72 (- 10) 0xff)) = False" "list_ex bit4_is_xz (bits4 (vec72 3 0)) = False"
  by code_simp+

theorem division_opcodes_correct_witness:
  "\<exists>u. of_DIV_S (instr 0 0 0) (new_thread [vec72 3 0, vec72 (- 10) 0xff]) = Some (new_thread [u]) \<and> bits4 u = num_bits4 72 (- 3)"
  using division_opcodes_correct [of "vec72 (- 10) 0xff" "vec72 3 0" 72 "new_thread [vec72 3 0, vec72 (- 10) 0xff]" "[]" "instr 0 0 0"]
  by (auto simp: vec72_facts div_ok_def sdiv_magnitude)

text \<open>
  C14. \<open>%mod\<close> and \<open>%mod/s\<close> replace their operands by the remainder, with the sign of the dividend, at any width: natively up to 64 bits, and by the
  shift and subtract loop of \<open>do_verylong_mod\<close> above; all X if an operand has an X or Z bit or the divisor is zero.
\<close>

theorem modulus_opcodes_correct:
  assumes "wf_vec a" "wf_vec b" "size4 a = n" "size4 b = n" "stack_vec4 thr = b # a # st"
  shows "(\<exists>u. of_MOD cp thr = Some (thr\<lparr>stack_vec4 := u # st\<rparr>) \<and> wf_vec u \<and>
      bits4 u = (if list_ex bit4_is_xz (bits4 a @ bits4 b) \<or> uval4 b = 0 then replicate n BIT4_X else num_bits4 n (uval4 a mod uval4 b))) \<and>
    (\<exists>u. of_MOD_S cp thr = Some (thr\<lparr>stack_vec4 := u # st\<rparr>) \<and> wf_vec u \<and>
      bits4 u = (if list_ex bit4_is_xz (bits4 a @ bits4 b) \<or> sval4 b = 0 then replicate n BIT4_X else num_bits4 n (sval4 a smod sval4 b)))"
proof -
  have r: "uval4 a smod uval4 b = uval4 a mod uval4 b"
    using uval4_bounds(1) [of a] uval4_bounds(1) [of b] by (simp add: smod_magnitude)
  obtain u where "mod_vec4 a b = Some u" "wf_vec u" "bits4 u = arith_fn tmod_fn n False (bits4 a) (bits4 b)"
    using mod_vec4_ok [of a b] assms(1-4) by auto
  moreover obtain v where "mod_s_vec4 a b = Some v" "wf_vec v" "bits4 v = arith_fn tmod_fn n True (bits4 a) (bits4 b)"
    using mod_s_vec4_ok [of a b] assms(1-4) by auto
  ultimately show ?thesis
    using r by (auto simp: of_MOD_def of_MOD_S_def assms(5) pop_vec4_def push_vec4_def edit_vec4_def peek_vec4_def poke_vec4_def arith_fn_cases
        tmod_fn_def bnum_bits4)
qed

theorem modulus_opcodes_correct_witness:
  "\<exists>u. of_MOD_S (instr 0 0 0) (new_thread [vec72 3 0, vec72 (- 10) 0xff]) = Some (new_thread [u]) \<and> bits4 u = num_bits4 72 (- 1)"
  using modulus_opcodes_correct [of "vec72 (- 10) 0xff" "vec72 3 0" 72 "new_thread [vec72 3 0, vec72 (- 10) 0xff]" "[]" "instr 0 0 0"]
  by (auto simp: vec72_facts smod_magnitude)

text \<open>
  C16. The long division returns for arrays of any length: no result for the divisor zero, otherwise arrays of the same length with
  the quotient and the remainder, if the divisor has one word or is as long as the dividend and the top bit of the dividend is not needed.
\<close>

theorem divide_bits_correct:
  assumes "length ap = nwords wid" "length bp = nwords wid" "0 < wid"
    and "wval bp < 2 ^ 64 \<or> 2 ^ (64 * (nwords wid - 1)) \<le> wval bp \<and> wval ap \<le> 2 ^ (64 * nwords wid - 1)"
  shows "if wval bp = 0 then divide_bits ap bp wid = Some None
    else \<exists>result rest. divide_bits ap bp wid = Some (Some (result, rest)) \<and> length result = nwords wid \<and> length rest = nwords wid \<and>
      wval result = wval ap div wval bp \<and> wval rest = wval ap mod wval bp"
  using assms by (rule divide_bits_ok)

theorem divide_bits_correct_witness:
  "\<exists>result rest. divide_bits [0, 0, 1] [10, 0, 0] 192 = Some (Some (result, rest)) \<and> wval result = 2 ^ 128 div 10 \<and> wval rest = 2 ^ 128 mod 10"
  using divide_bits_correct [of "[0, 0, 1]" 192 "[10, 0, 0]"] by (auto simp: nwords_split)

text \<open>
  Where the divisor has more than one word the estimate of a quotient word can fail. The opcode divides the 128-bit number of all ones by \<open>2\<^sup>6\<^sup>5 - 1\<close> and
  gives \<open>2\<^sup>6\<^sup>4 - 1\<close> for the quotient \<open>2\<^sup>6\<^sup>3\<close>.
\<close>

lemma wide_quotient_wrong:
  "map_option (map uval4 \<circ> stack_vec4)
      (of_DIV cp (thr\<lparr>stack_vec4 := [resize (vector4_fill 65 BIT4_1) 128 BIT4_0, vector4_fill 128 BIT4_1]\<rparr>)) = Some [2 ^ 64 - 1] \<and>
   uval4 (vector4_fill 128 BIT4_1) = 2 ^ 128 - 1 \<and> uval4 (resize (vector4_fill 65 BIT4_1) 128 BIT4_0) = 2 ^ 65 - 1 \<and>
   (2 ^ 128 - 1) div (2 ^ 65 - 1 :: int) = 2 ^ 63"
proof -
  define a b where "a = vector4_fill 128 BIT4_1" and "b = resize (vector4_fill 65 BIT4_1) 128 BIT4_0"
  have v: "map_option uval4 (div_vec4 a b) = Some (2 ^ 64 - 1)" unfolding a_def b_def by code_simp
  have u: "uval4 a = 2 ^ 128 - 1" "uval4 b = 2 ^ 65 - 1" unfolding a_def b_def by code_simp+
  have "of_DIV cp (thr\<lparr>stack_vec4 := [b, a]\<rparr>) = map_option (\<lambda>u. thr\<lparr>stack_vec4 := [u]\<rparr>) (div_vec4 a b)"
    by (cases "div_vec4 a b") (simp_all add: of_DIV_def pop_vec4_def push_vec4_def)
  then have "map_option (map uval4 \<circ> stack_vec4) (of_DIV cp (thr\<lparr>stack_vec4 := [b, a]\<rparr>)) = Some [2 ^ 64 - 1]" using v by auto
  then show ?thesis using u unfolding a_def b_def by simp
qed

section \<open>Scheduling\<close>

text \<open>
  C17. A partial nonblocking assignment schedules exactly the part of the value that lies in the signal, at its place: never beyond the signal's
  width, with the bits of the value in their positions, and nothing if no bit lies in the signal.
\<close>

theorem partial_assignment_in_range:
  assumes "wf_thread thr" "stack_vec4 thr = v # st" "th_flags thr ! 4 \<noteq> BIT4_1" "unat (bit_idx0 cp) < WORDS_COUNT" "unat (bit_idx1 cp) < WORDS_COUNT"
    and "signal_size env (cp_net cp) = Some sig" "0 < sig" "off = sint (th_words thr ! unat (bit_idx0 cp))"
  shows "\<exists>cs. of_ASSIGN_VEC4_OFF_D resize_rval_vec env cp thr = Some (thr\<lparr>stack_vec4 := st\<rparr>, cs, True) \<and>
    (if off < int sig \<and> 0 < off + int (size4 v)
     then \<exists>base u. cs = [Call_assign_vector (cp_net cp) base sig u (th_words thr ! unat (bit_idx1 cp))] \<and> wf_vec u \<and> base + size4 u \<le> sig \<and>
       (\<forall>i. base \<le> i \<and> i < base + size4 u \<longleftrightarrow> i < sig \<and> off \<le> int i \<and> int i < off + int (size4 v)) \<and>
       (\<forall>i < size4 u. value4 u i = value4 v (nat (int (base + i) - off)))
     else cs = [])"
proof -
  have v: "rvec v (bits4 v)" and sz: "0 < size4 v" using assms(1,2) by (auto simp: wf_thread_def rvec_def wf_vec_def)
  let ?lo = "max 0 off" and ?hi = "min (int sig) (off + int (size4 v))"
  let ?bs = "take (nat (?hi - ?lo)) (drop (nat (?lo - off)) (bits4 v))"
  have run: "of_ASSIGN_VEC4_OFF_D resize_rval_vec env cp thr =
      do { r \<leftarrow> resize_rval_vec v off sig; Some (thr\<lparr>stack_vec4 := st\<rparr>, (case r of None \<Rightarrow> []
        | Some (val, off) \<Rightarrow> [Call_assign_vector (cp_net cp) (nat off) sig val (th_words thr ! unat (bit_idx1 cp))]), True) }"
    using assms by (simp add: of_ASSIGN_VEC4_OFF_D_def pop_vec4_def get_word_def get_flag_def cong: option.case_cong)
  have ref: "refines (rel_option (rel_prod rvec (=))) (resize_rval_vec v off sig) (resize_bits (bits4 v) off sig)"
    by (rule resize_rval_refines [OF v])
  show ?thesis
  proof (cases "?lo < ?hi")
    case False
    then have "resize_rval_vec v off sig = Some None" using ref assms(7) by (auto simp: resize_bits_def refines_def Let_def)
    moreover have "\<not> (off < int sig \<and> 0 < off + int (size4 v))" using False sz assms(7) by linarith
    ultimately show ?thesis using run by simp
  next
    case True
    then obtain u where u: "resize_rval_vec v off sig = Some (Some (u, ?lo))" "rvec u ?bs"
      using ref assms(7) by (auto simp: resize_bits_def refines_def Let_def option_rel_Some2)
    have len: "size4 u = nat (?hi - ?lo)" using rvec_size(1) [OF u(2)] True by auto
    have "value4 u i = value4 v (nat (int (nat ?lo + i) - off))" if "i < size4 u" for i
    proof -
      have "nat (?lo - off) + i < size4 v" "nat (int (nat ?lo + i) - off) = nat (?lo - off) + i" using that len by linarith+
      then show ?thesis
        using rvec_value [OF u(2), of i] that rvec_size(1) [OF u(2)] nth_value4 [of "nat (?lo - off) + i" v] by simp
    qed
    moreover have "nat ?lo \<le> i \<and> i < nat ?lo + size4 u \<longleftrightarrow> i < sig \<and> off \<le> int i \<and> int i < off + int (size4 v)" for i
      using len True by linarith
    moreover have "nat ?lo + size4 u \<le> sig" "off < int sig \<and> 0 < off + int (size4 v)" using len True by linarith+
    ultimately show ?thesis using run u rvec_size(4) [OF u(2)] by auto
  qed
qed

theorem partial_assignment_in_range_witness:
  "\<exists>u. of_ASSIGN_VEC4_OFF_D resize_rval_vec (no_env\<lparr>signal_size := (\<lambda>_. Some 8)\<rparr>) (instr 0 2 3)
      (new_thread [vector4_fill 5 BIT4_1]\<lparr>th_words := (replicate WORDS_COUNT 0)[2 := 6, 3 := 10]\<rparr>) =
    Some (new_thread []\<lparr>th_words := (replicate WORDS_COUNT 0)[2 := 6, 3 := 10]\<rparr>, [Call_assign_vector 0 6 8 u 10], True) \<and> size4 u = 2"
proof -
  have w: "wf_vec (vector4_fill 5 BIT4_1)" by (simp add: wf_vec_def)
  obtain base u where u: "of_ASSIGN_VEC4_OFF_D resize_rval_vec (no_env\<lparr>signal_size := (\<lambda>_. Some 8)\<rparr>) (instr 0 2 3)
      (new_thread [vector4_fill 5 BIT4_1]\<lparr>th_words := (replicate WORDS_COUNT 0)[2 := 6, 3 := 10]\<rparr>) =
    Some (new_thread []\<lparr>th_words := (replicate WORDS_COUNT 0)[2 := 6, 3 := 10]\<rparr>, [Call_assign_vector 0 base 8 u 10], True)"
    "base + size4 u \<le> 8" "\<forall>i. base \<le> i \<and> i < base + size4 u \<longleftrightarrow> i < 8 \<and> 6 \<le> int i \<and> int i < 11"
    using partial_assignment_in_range [of "new_thread [vector4_fill 5 BIT4_1]\<lparr>th_words := (replicate WORDS_COUNT 0)[2 := 6, 3 := 10]\<rparr>"
        "vector4_fill 5 BIT4_1" "[]" "instr 0 2 3" "no_env\<lparr>signal_size := (\<lambda>_. Some 8)\<rparr>" 8 6] w
    by (auto simp: wf_thread_def)
  have "base = 6 \<and> size4 u = 2" using u(2) u(3)[rule_format, of 6] u(3)[rule_format, of 7] u(3)[rule_format, of base] by auto
  then show ?thesis using u(1) by auto
qed

text \<open>
  C18. \<open>%delay\<close> and \<open>%delayx\<close> suspend the thread and put exactly one event into the agenda of the scheduler: the thread itself, as many time units
  from now as the instruction or the index register says, behind the events that are already due then; a delay of zero puts it
  behind the inactive events of the current time.
\<close>

theorem delay_schedules_thread:
  assumes "wf_cells (sched_list s)" "op = Of_DELAY \<and> delay = unat (bit_idx0 cp) + 2 ^ 32 * unat (bit_idx1 cp) \<or>
    op = Of_DELAYX \<and> cp_number cp < WORDS_COUNT \<and> delay = unat (th_words thr ! cp_number cp)"
  shows "\<exists>cs s'. exec opcode_fn ld getv_index resize_rval_vec env op cp thr = Some (thr, cs, False) \<and> apply_calls (map (sched_call_of self) cs) s = Some s' \<and>
    wf_cells (sched_list s') \<and>
    (\<forall>t q. agenda (sched_list s') t q = agenda (sched_list s) t q @
      (if t = delay \<and> q = (if delay = 0 then SEQ_INACTIVE else SEQ_ACTIVE) then [Vthread_event_s self] else []))"
proof -
  obtain d :: vvp_time64_t where d: "exec opcode_fn ld getv_index resize_rval_vec env op cp thr = Some (thr, [delay_call d], False)" "unat d = delay"
    using assms(2) by (auto simp: of_DELAY_def of_DELAYX_def get_word_def Let_def join_halves)
  let ?q = "if delay = 0 then SEQ_INACTIVE else SEQ_ACTIVE"
  have "apply_call (sched_call_of self (delay_call d)) s = schedule_event (Vthread_event_s self) d ?q s"
    using d(2) by (auto simp: delay_call_def sched_api unat_eq_0)
  moreover have "?q = SEQ_INACTIVE \<longrightarrow> d = 0" using d(2) by (auto simp: unat_eq_0)
  ultimately show ?thesis
    using d schedule_event_ok [of ?q d "Vthread_event_s self" s] insert_event_wf [OF assms(1)] by (auto simp: insert_event_agenda)
qed

theorem delay_schedules_thread_witness:
  "\<exists>cs s'. exec opcode_fn (\<lambda>_. None) getv_index resize_rval_vec no_env Of_DELAY (instr 0 5 0) (new_thread []) = Some (new_thread [], cs, False) \<and>
    apply_calls (map (sched_call_of 7) cs) empty_sched = Some s' \<and> agenda (sched_list s') 5 SEQ_ACTIVE = [Vthread_event_s 7]"
  using delay_schedules_thread [of empty_sched Of_DELAY 5 "instr 0 5 0" "new_thread []" "\<lambda>_. None" no_env 7] by fastforce

section \<open>Index registers and comparisons\<close>

lemma to_index:
  assumes "wf_thread thr" "stack_vec4 thr = v # st" "cp_number cp < WORDS_COUNT"
  shows "do { (w, t) \<leftarrow> vec4_to_index sf thr; put_word (cp_number cp) w t } = Some (thr\<lparr>stack_vec4 := st,
      th_flags := (th_flags thr)[4 := snd (index_spec sf (bits4 v))], th_words := (th_words thr)[cp_number cp := fst (index_spec sf (bits4 v))]\<rparr>)"
proof -
  have "rvec v (bits4 v)" using assms(1,2) by (simp add: rvec_def wf_thread_def)
  from vec4_to_index_vec [OF this, of "thr\<lparr>stack_vec4 := st\<rparr>" sf]
  have "vec4_to_index sf thr = do { t \<leftarrow> set_flag 4 (snd (index_spec sf (bits4 v))) (thr\<lparr>stack_vec4 := st\<rparr>); Some (fst (index_spec sf (bits4 v)), t) }"
    by (simp add: vec4_to_index_def pop_vec4_def assms(2) cong: option.case_cong)
  then show ?thesis using assms(3) by (simp add: set_flag_def put_word_def)
qed

text \<open>
  C24. \<open>%ix/vec4\<close> and \<open>%ix/vec4/s\<close> move the top of the stack to an index register and record in flag 4 whether that was possible: 1 for a
  vector with an X or Z bit (the register is 0), X for a number that does not fit (the register has its low 64 bits), 0 otherwise. The signed
  form also says X for every negative number of more than 64 bits, unless the width is a multiple of 64.
\<close>

theorem index_conversion_correct:
  assumes "wf_thread thr" "stack_vec4 thr = v # st" "cp_number cp < WORDS_COUNT" "xz = list_ex bit4_is_xz (bits4 v)"
  shows "of_IX_VEC4 cp thr = Some (thr\<lparr>stack_vec4 := st,
      th_flags := (th_flags thr)[4 := if xz then BIT4_1 else if uval4 v < 2 ^ 64 then BIT4_0 else BIT4_X],
      th_words := (th_words thr)[cp_number cp := if xz then 0 else word_of_int (uval4 v)]\<rparr>) \<and>
    of_IX_VEC4_S cp thr = Some (thr\<lparr>stack_vec4 := st,
      th_flags := (th_flags thr)[4 := if xz then BIT4_1
        else if - (2 ^ 63) \<le> sval4 v \<and> sval4 v < 2 ^ 63 \<and> (0 \<le> sval4 v \<or> size4 v \<le> 64 \<or> size4 v mod 64 = 0) then BIT4_0 else BIT4_X],
      th_words := (th_words thr)[cp_number cp := if xz then 0 else word_of_int (sval4 v)]\<rparr>)"
  unfolding of_IX_VEC4_def of_IX_VEC4_S_def to_index [OF assms(1-3)]
  by (simp add: index_spec_def index_fits_def bnum_bits4 assms(4))

theorem index_conversion_correct_witness:
  "th_flags (the (of_IX_VEC4_S (instr 3 0 0) (new_thread [vec72 (- 10) 0xff]))) ! 4 = BIT4_X \<and>
   th_words (the (of_IX_VEC4_S (instr 3 0 0) (new_thread [vec72 (- 10) 0xff]))) ! 3 = - 10"
  using index_conversion_correct [of "new_thread [vec72 (- 10) 0xff]" "vec72 (- 10) 0xff" "[]" "instr 3 0 0" False]
  by (simp add: vec72_facts wf_thread_def)

lemma compare_result:
  assumes "do_cmp thr a b = set_flags [(4, x), (5, y), (6, z)] thr" "stack_vec4 thr = b # a # st"
  shows "compare_stack do_cmp thr = Some (thr\<lparr>stack_vec4 := st, th_flags := (th_flags thr)[4 := x, 5 := y, 6 := z]\<rparr>)"
  using assms by (simp add: compare_stack_def peek_vec4_def pop_vec4_cnt_def set_flag_def)

text \<open>
  C23. \<open>%cmp/s\<close> and \<open>%cmp/u\<close> drop their operands and set flag 4 to their equality (0 if two known bits differ, otherwise X if a bit is unknown, otherwise 1), flag 5 to
  less than as signed or unsigned numbers (X if a bit is unknown) and flag 6 to the identity of the bits. For the signed form this leaves out the
  operands with an unknown bit of which two known bits differ: the list of opcodes says that both forms have the same equality, but the code of \<open>%cmp/s\<close> sets
  flag 4 to X whenever a bit is unknown (lemma \<open>do_CMPS_ok\<close>).
\<close>

theorem order_opcodes_correct:
  assumes "wf_thread thr" "stack_vec4 thr = b # a # st" "size4 a = size4 b" "xz = list_ex bit4_is_xz (bits4 a @ bits4 b)"
    and "differ = (\<exists>i < size4 a. clash (value4 a i) (value4 b i))" "eq = (if differ then BIT4_0 else if xz then BIT4_X else BIT4_1)"
  shows "of_CMPU cp thr = Some (thr\<lparr>stack_vec4 := st, th_flags := (th_flags thr)
      [4 := eq, 5 := if xz then BIT4_X else b4 (uval4 a < uval4 b), 6 := b4 (bits4 a = bits4 b)]\<rparr>) \<and>
    (xz \<and> differ \<or> of_CMPS cp thr = Some (thr\<lparr>stack_vec4 := st, th_flags := (th_flags thr)
      [4 := eq, 5 := if xz then BIT4_X else b4 (sval4 a < sval4 b), 6 := b4 (bits4 a = bits4 b)]\<rparr>))"
proof -
  have r: "rthr thr (abs_thread thr)" "rvec a (bits4 a)" "rvec b (bits4 b)" using assms(1,2) by (simp_all add: rthr_def rvec_def wf_thread_def)
  have len: "length (bits4 a) = length (bits4 b)" using assms(3) by simp
  have ex: "list_ex (\<lambda>(x, y). clash x y) (zip (bits4 a) (bits4 b)) = differ"
    using assms(3,5) by (auto simp: list_ex_length nth_value4)
  have eq: "eq_bits (bits4 a) (bits4 b) = eq" by (simp add: eq_bits_def ex assms(4,6))
  have "do_CMPU thr a b = set_flags [(4, eq), (5, if xz then BIT4_X else b4 (uval4 a < uval4 b)), (6, b4 (bits4 a = bits4 b))] thr"
    by (rule cmpu.cmp_ok [OF r]) (simp add: order_spec_def assms(3) bnum_bits4 Let_def eq del: list_ex_append flip: assms(4))
  then have u: "of_CMPU cp thr = Some (thr\<lparr>stack_vec4 := st, th_flags := (th_flags thr)
      [4 := eq, 5 := if xz then BIT4_X else b4 (uval4 a < uval4 b), 6 := b4 (bits4 a = bits4 b)]\<rparr>)"
    unfolding of_CMPU_def by (rule compare_result [OF _ assms(2)])
  have "xz \<and> differ \<or> do_CMPS thr a b = set_flags [(4, eq), (5, if xz then BIT4_X else b4 (sval4 a < sval4 b)), (6, b4 (bits4 a = bits4 b))] thr"
  proof (cases "xz \<and> differ")
    case False
    then show ?thesis
      by (intro disjI2 cmps.cmp_ok [OF r]) (auto simp: order_spec_def assms(3) bnum_bits4 Let_def eq ex simp del: list_ex_append simp flip: assms(4))
  qed simp
  then show ?thesis using u unfolding of_CMPS_def by (auto intro: compare_result [OF _ assms(2)])
qed

theorem order_opcodes_correct_witness:
  "th_flags (the (of_CMPS (instr 0 0 0) (new_thread [vec72 3 0, vec72 (- 10) 0xff]))) ! 5 = BIT4_1 \<and>
   th_flags (the (of_CMPU (instr 0 0 0) (new_thread [vec72 3 0, vec72 (- 10) 0xff]))) ! 5 = BIT4_0"
  using order_opcodes_correct [of "new_thread [vec72 3 0, vec72 (- 10) 0xff]" "vec72 3 0" "vec72 (- 10) 0xff" "[]" False _ _ "instr 0 0 0"]
  by (simp add: vec72_facts wf_thread_def b4_def)

end
