(* ===== verification/Spec2Isabelle.thy ===== *)
theory Spec2Isabelle
  imports Verinum_Props Vvp_Props Vvp2_Props Sched_Props Strength_Props Delay_Props Arithfun_Props Thread_Props
begin

text \<open>
  A model of the arithmetic core, of the net resolution, of delays and arithmetic functors, of the event scheduler and of the thread interpreter of Icarus Verilog 13 (src/iverilog-13_0), the compiler and
  simulator that this repository vendors to run its RISC-V core, with the theorems that make it correct.

  \<^bold>\<open>The program.\<close> The compiler (verinum.cc, verinum.h) holds every constant as a \<open>verinum\<close>, a four-state bit
  string with a sized and a signed flag, and folds constant expressions on it. The simulator (directory vvp) holds
  every run-time value as a \<open>vvp_vector4_t\<close>, two planes of machine words, and computes the same operators
  word by word (vvp_net.cc, vvp_net.h); for division and powers it changes to the two-state \<open>vvp_vector2_t\<close>. The code
  generator writes folded constants into the simulator's input, so the two number systems have to agree: that is the
  subject of this theory's own theorems. The scheduler (schedule.cc) keeps what is still to happen, a list of time steps
  with seven queues of events each, and runs it: a value reaches a net when the event that carries it runs. A net
  with several drivers has a resolver node (resolv.cc) that combines their values, which carry strengths (\<open>vvp_scalar_t\<close>,
  \<open>vvp_vector8_t\<close>); gates with tri-state outputs and switches (bufif.cc, npmos.cc) produce such values. Functors compute the nets of
  expressions from the nets of their operands (arith.cc), and delay functors hold values back (delay.cc), with the
  scheduler's help. The procedural code of a design runs in threads (vthread.cc): each has a stack of vectors, flags and index registers,
  and its instructions compute on them, jump, schedule assignments and suspend the thread through the scheduler.

  \<^bold>\<open>The theories.\<close>
  \<^item> \<open>Prelude\<close>: machine types, values of bit lists, the loop shapes of the sources, and the interfaces
    \<open>bit_vector\<close> (a bounds-checked updater) and \<open>digit_adder\<close> (one digit of a carry chain) as locales.
  \<^item> \<open>Verinum_Base\<close>: the class \<open>verinum\<close> (verinum.h), its bit operators, constructors and bit access;
    \<open>Verinum_String\<close>: string literals with their escapes; \<open>Verinum_Convert\<close>: native readings, width casts and
    trimming; \<open>Verinum_Arith\<close>: complement, addition, subtraction, negation, multiplication, shifts and
    concatenation; \<open>Verinum_Compare\<close>: relational operators and the sort order; \<open>Verinum_Div\<close>: division and
    modulus by the native path and by shift and subtract; \<open>Verinum_Pow\<close>: the recursive power. All of
    verinum.cc; \<open>Verinum_Props\<close> states the properties.
  \<^item> \<open>Vvp_Bit4\<close>: the enumeration \<open>vvp_bit4_t\<close>, its operators and the edge masks; \<open>Vvp_Word\<close>: the word adders and
    double-word multipliers; \<open>Vvp_Planes\<close>: an array of words read as bits and as a number.
  \<^item> \<open>Vvp_Vector4\<close>: the class \<open>vvp_vector4_t\<close>, construction, bit access, copies, comparisons and bitwise
    operators; \<open>Vvp_Blit\<close>: \<open>set_vec\<close>; \<open>Vvp_Range\<close>: \<open>subarray\<close>, \<open>setarray\<close>, \<open>mov\<close> and \<open>resize\<close>; \<open>Vvp_Part\<close>: the part
    select constructor; \<open>Vvp_Arith4\<close>: \<open>add\<close>, \<open>sub\<close>, \<open>mul\<close>; \<open>Vvp_Value4\<close>: \<open>operator +=\<close>, the native readings and the
    text form; \<open>Vvp_Props\<close> states the properties.
  \<^item> \<open>Vvp_Vector2\<close>: the class \<open>vvp_vector2_t\<close>, construction, bit access, conversions, trimming, shifts and comparisons;
    \<open>Vvp_Arith2\<close>: sums, differences and products on its words; \<open>Vvp_Div2\<close>: the shift-and-subtract division and the
    power; \<open>Vvp_C4string\<close>: the constants \<open>C4<...>\<close> of the simulator's input; \<open>Vvp2_Props\<close> states the properties.
  \<^item> \<open>Vvp_EventList\<close>: the circular lists of events in a store of \<open>next\<close> pointers; \<open>Vvp_Schedule\<close>: events, time steps, and
    every function that schedules an event; \<open>Vvp_Agenda\<close>: the list of time steps read as an agenda, which gives
    each absolute time and queue its events; \<open>Vvp_Simulate\<close>: what each event does when it runs, and
    \<open>schedule_simulate\<close> with \<open>run_rosync\<close> as a step function; \<open>Vvp_SimInv\<close>: the invariant of the loop and the events that
    are due; \<open>Vvp_SimRun\<close>: the trace of a run, simulation time and termination; \<open>Vvp_SimOrder\<close>: the order of the
    events of a time step; \<open>Sched_Props\<close> states the properties.
  \<^item> \<open>Vvp_Scalar\<close>: a value with its strengths in one byte and the resolution of two of them; \<open>Vvp_Vector8\<close>: the class
    \<open>vvp_vector8_t\<close> and its text form; \<open>Vvp_Tree\<close>: the tree of partial results of a resolver node, for any operation, and
    the interfaces \<open>resolver\<close> (an operation on vectors that works bit by bit) and \<open>driven_node\<close> (a node with ports
    that sends values); \<open>Vvp_Resolv\<close>: the nodes of resolv.cc; \<open>Vvp_ResolvSpec\<close>: what a tree computes when the operation is
    associative and commutative; \<open>Vvp_Switch\<close>: tri-state buffers and MOS switches; \<open>Strength_Props\<close> states the properties.
  \<^item> \<open>Vvp_Delay\<close>: the table of delays and the delay functor; \<open>Vvp_DelaySpec\<close>: the inertial delay as a function on timed values, and
    the interface \<open>inertial_node\<close> that both kinds of values share; \<open>Vvp_Modpath\<close>: module paths; \<open>Delay_Props\<close> states the properties.
  \<^item> \<open>Vvp_Compare\<close>: the relational operators of vvp_net.cc; \<open>Vvp_Arithfun\<close>: the arithmetic, comparison and shift functors of arith.cc, each one
    its output as a function of the two operands, and the handler they share; \<open>Vvp_ArithfunSpec\<close>: what the
    outputs are on bit lists, and the interface \<open>arith_functor\<close>; \<open>Arithfun_Props\<close> states the properties.
  \<^item> \<open>Vvp_Divide\<close>: the division of word arrays; \<open>Vvp_Thread\<close>: the thread (vthread.cc, codes.h) and its opcodes on vectors, flags and index
    registers; \<open>Vvp_ThreadArith\<close>: division and modulus on numbers; \<open>Vvp_ThreadSpec\<close>: the relation between a thread and its reading
    with lists of bits, and the interfaces for the shapes of opcodes; \<open>Vvp_ThreadOps\<close>, \<open>Vvp_ThreadMove\<close>, \<open>Vvp_ThreadCompare\<close>,
    \<open>Vvp_ThreadIndex\<close>: the specification of the opcodes and their refinement, by groups; \<open>Vvp_ThreadTable\<close>: the table of the
    opcodes; \<open>Vvp_ThreadRun\<close>: jumps, delays, assignments and the instruction loop of \<open>vthread_run\<close>; \<open>Thread_Props\<close> states the properties.

  \<^bold>\<open>State and operations.\<close> A \<open>verinum\<close> is a record of its bit list and flags; an operator that the source asserts
  or that reads outside its array returns \<open>None\<close>. A \<open>vvp_vector4_t\<close> is a record of its size and of the words of both
  planes, where the single word of a short vector stands for the value member of the union and a longer list
  for the array behind the pointer; the bits above the size are unspecified, as in the source. Each operation is
  one definition with the cases of the source in their order, with its loops as recursive functions; the
  abstraction \<open>bits4\<close> reads a vector as a list of bits and \<open>wf4\<close> is the representation invariant, which every
  operation keeps. \<open>vvp_vector2_t\<close> is the same with one plane, \<open>bits2\<close> and \<open>wf2\<close>. The static variables of schedule.cc are
  the record \<open>sched\<close>. What an event does to other components (run a thread, send a value to a net, call a VPI
  callback) is the parameter \<open>env\<close> of the loop: it changes a state of its own, sees the time and the flags that
  schedule.h shows, and answers with calls of the scheduling functions. An assertion that fails stops the run with \<open>None\<close>.

  \<^bold>\<open>What is shown.\<close> For the compiler: each arithmetic operator computes the integer operation modulo the
  width, or exactly where the language lets unsized numbers grow; the relational operators decide the integer
  order; conversions, trimming and string literals keep the value or the bits. For the simulator: every operation
  on words equals its specification on bit lists, in the short, long, aligned and unaligned cases; the
  arithmetic is the integer arithmetic modulo the width with X for unknown operands. For both: the bit operators
  have the same truth tables and constant folding gives what simulation computes. For the two-state vectors:
  sums, products and shifts modulo the width, quotient and remainder of every division by a number other than zero,
  and that division and power return. For the scheduler: the circular lists are first-in first-out queues; scheduling
  puts an event at its absolute time behind the events of its queue and moves no other; the loop keeps its
  invariant; simulation time is the time of the event that runs and never decreases; a run that schedules
  nothing new ends, and runs all events in the order of their times and, within a time, of their queues. For
  the nets: resolution gives the strongest driver; the incremental tree of a resolver node sends what a
  recomputation from all ports would give; the wired nets, the driver counts and the switches follow their tables. For
  the delays: the delay functor sends exactly the values that stay for their delay, that much later, and a module path schedules the
  output's change by the paths that changed last. For the arithmetic
  functors: after any sequence of operands the last value sent is the integer operation on the last operands, and the
  compiler folds division to the same bits. For the threads: every run of the modelled opcodes refines its run on lists of bits, by a specification that
  shares no opcode, jump or loop with the model; quotients (with the cases that the estimate of \<open>divide_bits\<close> gets wrong),
  remainders, orders and index conversions are those of integers; partial assignments stay within their signals; a delay puts the
  thread into the agenda.

  \<^bold>\<open>Interfaces.\<close> \<open>bit_vector\<close> is interpreted on \<open>verinum\<close> and the three vector classes; \<open>resolver\<close> on the operations of the two kinds
  of resolver node, and \<open>driven_node\<close> on these nodes for values with and without strengths; \<open>arith_functor\<close>, an instance of
  \<open>driven_node\<close>, on the 17 functors of arith.cc; \<open>inertial_node\<close> on the delay functor for both kinds of values; \<open>event_queue\<close> on the circular lists
  and on the lists that the time steps use in their place; \<open>digit_adder\<close> on the four adders of the sources (the
  one-bit adders of compiler and simulator and the two word adders); \<open>word_ring_op\<close> on the three word operators
  of the vector arithmetic; \<open>opcode\<close> and the interfaces that extend it on the 66 opcodes of \<open>opcode_fn\<close>; \<open>interpreter\<close> on the
  instruction loop over them.

  \<^bold>\<open>Conventions and bounds.\<close> \<open>unsigned long\<close> has 64 bits. Widths and indices are natural numbers, so that sums
  of indices do not wrap: the sources use \<open>unsigned\<close>, and the model is faithful for vectors of fewer than \<open>2\<^sup>3\<^sup>1\<close> bits
  and indices whose sums with a size stay below \<open>2\<^sup>3\<^sup>2\<close>.
  A shift by 64 or more, undefined in C++, gives an unspecified word, so that no theorem can rest on it. The
  loops over words and bits are total functions with their termination proofs. Division and power of two-state
  vectors are partial functions, and their properties show that they return. The simulation loop may run
  forever, as the source's may: \<open>steps env n\<close> are its first \<open>n\<close> steps, the theorems about runs hold for every \<open>n\<close>, and
  termination gives an \<open>n\<close> that is enough. A thread may run forever too: \<open>run_loop\<close> executes at most \<open>n\<close> instructions and tells whether
  the thread still runs; for code without backward jumps the length of the code is enough. The code space is a list without the
  chunk links of codes.cc. Simulation time is a 64-bit word, as in the source; theorems that order
  absolute times assume that the times of the agenda do not exceed it.

  \<^bold>\<open>Not modelled.\<close> Conversion from and to \<open>double\<close> (all classes), the functors on real values and the power functor, stream output, the word memories of the
  simulator, the opcodes of the thread interpreter on reals, strings and objects, on nets and arrays, for fork and join, events and function calls, and the net graph, the scheduler's slab allocators, signal handlers
  and trace messages, the elaborator, the generated parsers, the code generators and the VPI modules; the RISC-V core itself is Verilog
  text that these programs process.
\<close>

section \<open>The compiler and the simulator agree\<close>

text \<open>
  The compiler evaluates constant expressions on \<open>verinum\<close>, the simulator evaluates the same operators at run
  time on \<open>vvp_vector4_t\<close>. \<open>bit4_of_V\<close> relates their bits.
\<close>

primrec bit4_of_V :: "V \<Rightarrow> vvp_bit4_t" where
  "bit4_of_V V0 = BIT4_0"
| "bit4_of_V V1 = BIT4_1"
| "bit4_of_V Vx = BIT4_X"
| "bit4_of_V Vz = BIT4_Z"

lemma bit4_of_V_one [simp]: "bit4_of_V b = BIT4_1 \<longleftrightarrow> b = V1"
  by (cases b) simp_all

lemma bit4_of_V_xz [simp]: "bit4_is_xz (bit4_of_V b) \<longleftrightarrow> b = Vx \<or> b = Vz"
  by (cases b) (simp_all add: bit4_is_xz_iff)

text \<open>A number and a vector that hold the same bits have the same value.\<close>

lemma uval4_of_V: "bits4 v = map bit4_of_V (vbits l) \<Longrightarrow> uval4 v = uval l"
  by (simp add: uval4_def uval_def comp_def)

lemma xz_of_V: "bits4 v = map bit4_of_V (vbits l) \<Longrightarrow> list_ex bit4_is_xz (bits4 v) \<longleftrightarrow> \<not> is_defined l"
  by (auto simp: is_defined_def list_ex_iff list_all_iff)

lemma num_bits4_of_V:
  assumes "is_defined res" "uval res = take_bit (vlen res) x"
  shows "map bit4_of_V (vbits res) = num_bits4 (vlen res) x"
proof (rule nth_equalityI)
  fix i assume "i < length (map bit4_of_V (vbits res))"
  then have i: "i < vlen res" by simp
  then have "vbits res ! i = V0 \<or> vbits res ! i = V1"
    using assms(1) by (cases "vbits res ! i") (auto simp: is_defined_def list_all_length)
  moreover have "vbits res ! i = V1 \<longleftrightarrow> bit x i"
    using arg_cong [OF assms(2), of "\<lambda>z. bit z i"] i by (simp add: uval_def bit_ubits bit_take_bit_iff)
  ultimately show "map bit4_of_V (vbits res) ! i = num_bits4 (vlen res) x ! i"
    using i by (auto simp: num_bits4_def)
qed (simp add: num_bits4_def)

lemma to_int_low: "take_bit (vlen l) (to_int l) = take_bit (vlen l) (uval l)"
  using take_bit_sbits [of "vbools (vbits l)"] take_bit_ubits [of "vbools (vbits l)"]
  by (simp add: to_int_def uval_def)

text \<open>The specification of the vector operators, read on the numbers.\<close>

lemma folded_bits:
  assumes "wf4 v" "wf4 w" "bits4 v = map bit4_of_V (vbits l)" "bits4 w = map bit4_of_V (vbits r)" "vlen l = vlen r"
    and "\<And>n x y. take_bit n (F (take_bit n x) (take_bit n y)) = take_bit n (F x y :: int)"
    and "is_defined l" "is_defined r" "is_defined res" "vlen res = vlen l" "uval res = take_bit (vlen l) (F (to_int l) (to_int r))"
  shows "map bit4_of_V (vbits res) = arith_spec F v w"
proof -
  have "take_bit (vlen l) (F (to_int l) (to_int r)) = take_bit (vlen l) (F (uval l) (uval r))"
    using assms(6) [of "vlen l" "to_int l" "to_int r"] assms(6) [of "vlen l" "uval l" "uval r"] to_int_low [of l] to_int_low [of r] assms(5)
    by simp
  then have "map bit4_of_V (vbits res) = num_bits4 (vlen l) (F (uval l) (uval r))"
    using num_bits4_of_V [OF assms(9), of "F (uval l) (uval r)"] assms(10,11) by simp
  moreover have "size4 v = vlen l" using arg_cong [OF assms(3), of length] by simp
  ultimately show ?thesis
    using assms(7,8) xz_of_V [OF assms(3)] xz_of_V [OF assms(4)] uval4_of_V [OF assms(3)] uval4_of_V [OF assms(4)]
    by (simp add: arith_spec_def)
qed

text \<open>
  The four-state operators of the compiler and of the simulator have the same truth tables: and, or, exclusive
  or, complement, the replacement of Z by X, and the one-bit adder with its carry.
\<close>

theorem bit_operators_agree:
  "bit4_of_V (V_and a b) = bit4_and (bit4_of_V a) (bit4_of_V b) \<and>
   bit4_of_V (V_or a b) = bit4_or (bit4_of_V a) (bit4_of_V b) \<and>
   bit4_of_V (V_xor a b) = bit4_xor (bit4_of_V a) (bit4_of_V b) \<and>
   bit4_of_V (V_not a) = bit4_not (bit4_of_V a) \<and>
   bit4_of_V (bit4_z2x a) = vvp_bit4_z2x (bit4_of_V a) \<and>
   map_prod bit4_of_V bit4_of_V (add_with_carry a b c) = bit4_add_with_carry (bit4_of_V a) (bit4_of_V b) (bit4_of_V c)"
proof -
  have "map_prod bit4_of_V bit4_of_V (add_with_carry a b c) = bit4_add_with_carry (bit4_of_V a) (bit4_of_V b) (bit4_of_V c)"
    by (cases a; cases b; cases c) (simp_all add: add_with_carry_def bit4_add_with_carry_def bit4_is_xz_iff)
  moreover have "bit4_of_V (V_and a b) = bit4_and (bit4_of_V a) (bit4_of_V b)" "bit4_of_V (V_or a b) = bit4_or (bit4_of_V a) (bit4_of_V b)"
    "bit4_of_V (V_xor a b) = bit4_xor (bit4_of_V a) (bit4_of_V b)" "bit4_of_V (V_not a) = bit4_not (bit4_of_V a)"
    "bit4_of_V (bit4_z2x a) = vvp_bit4_z2x (bit4_of_V a)"
    by (cases a; cases b; simp add: V_and_def V_or_def V_xor_def V_not_def bit4_z2x_def bit4_tables)+
  ultimately show ?thesis by blast
qed

text \<open>
  C1. Constant folding is simulation: on sized constants of the same width, defined or not, signed or not, the
  compiler's addition, subtraction and multiplication give bit for bit the vector that the simulator's
  operators compute from the same bits.
\<close>

theorem constant_folding_agrees:
  assumes "wf4 v" "wf4 w" "bits4 v = map bit4_of_V (vbits l)" "bits4 w = map bit4_of_V (vbits r)"
    and "vhas_len l" "vhas_len r" "vlen l = vlen r" "vbits l \<noteq> []"
  shows "\<forall>(f, g) \<in> {(verinum_add, add4), (verinum_sub, sub4), (verinum_mul, mul4)}.
    \<exists>res u. f l r = Some res \<and> g v w = Some u \<and> bits4 u = map bit4_of_V (vbits res)"
proof -
  have sz: "size4 v = vlen l" "size4 w = size4 v"
    using arg_cong [OF assms(3), of length] arg_cong [OF assms(4), of length] assms(7) by simp_all
  have sign: "has_sign_bit l" "has_sign_bit r" using assms(7,8) by (auto simp: has_sign_bit_def)
  note sim = add4_ok [OF assms(1,2) sz(2)] sub4_ok [OF assms(1,2) sz(2)] mul4_ok [OF assms(1,2) sz(2)]
  show ?thesis
  proof (cases "is_defined l \<and> is_defined r")
    case True
    note spec = folded_bits [OF assms(1-4,7) _ conjunct1 [OF True] conjunct2 [OF True]]
    have sized: "is_defined l" "is_defined r" "vhas_len l \<and> vhas_len r" "max (vlen l) (vlen r) = vlen l" using True assms(5-7) by simp_all
    obtain a where a: "verinum_add l r = Some a" "is_defined a" "vlen a = vlen l" "uval a = take_bit (vlen l) (to_int l + to_int r)"
      using verinum_add_ok [OF sized(1,2) sign] sized(3,4) by auto
    obtain s where s: "verinum_sub l r = Some s" "is_defined s" "vlen s = vlen l" "uval s = take_bit (vlen l) (to_int l - to_int r)"
      using verinum_sub_ok [OF sized(1,2) sign] sized(3,4) by auto
    obtain m where m: "verinum_mul l r = Some m" "is_defined m" "vlen m = vlen l" "uval m = take_bit (vlen l) (to_int l * to_int r)"
      using verinum_mul_ok [OF sized(1,2) sign] sized(3,4) by auto
    have "map bit4_of_V (vbits a) = arith_spec (+) v w" "map bit4_of_V (vbits s) = arith_spec (-) v w"
      "map bit4_of_V (vbits m) = arith_spec (*) v w"
      using spec [OF take_bit_add a(2-4)] spec [OF take_bit_diff s(2-4)] spec [OF take_bit_mult m(2-4)] .
    then show ?thesis using sim a(1) s(1) m(1) by auto
  next
    case False
    then have x: "arith_spec F v w = replicate (vlen l) BIT4_X" for F
      using xz_of_V [OF assms(3)] xz_of_V [OF assms(4)] sz by (simp add: arith_spec_def)
    show ?thesis
      using sim False assms(5-7) unfolding x
      by (auto simp: verinum_add_def verinum_sub_def verinum_mul_def Let_def verinum_fill_def)
  qed
qed

theorem constant_folding_agrees_witness:
  "\<exists>res u. verinum_mul (vnum [V1, V1, Vx] True False) (vnum [V0, V1, V1] True False) = Some res \<and>
     mul4 \<lparr>size4 = 3, abits4 = [7], bbits4 = [4]\<rparr> \<lparr>size4 = 3, abits4 = [6], bbits4 = [0]\<rparr> = Some u \<and>
     bits4 u = map bit4_of_V (vbits res)"
proof -
  have "[0..<3] = [0, 1, 2 :: nat]" by (simp add: upt_rec)
  then have "bits4 \<lparr>size4 = 3, abits4 = [7], bbits4 = [4]\<rparr> = [BIT4_1, BIT4_1, BIT4_X]"
    "bits4 \<lparr>size4 = 3, abits4 = [6], bbits4 = [0]\<rparr> = [BIT4_0, BIT4_1, BIT4_1]"
    by (simp_all add: bits4_def value4_def ul_shr_def ul_shl_def bit4_cast_def drop_bit_eq_div)
  then show ?thesis
    using constant_folding_agrees [of "\<lparr>size4 = 3, abits4 = [7], bbits4 = [4]\<rparr>" "\<lparr>size4 = 3, abits4 = [6], bbits4 = [0]\<rparr>"
        "vnum [V1, V1, Vx] True False" "vnum [V0, V1, V1] True False"]
    by (simp add: wf4_def words4_def)
qed

lemma bnum_of_V: "bnum (vhas_sign l) (map bit4_of_V (vbits l)) = to_int l"
  by (simp add: bnum_def to_int_def uval_def comp_def)

lemma uval_low: "uval l = take_bit (vlen l) (to_int l)"
  using take_bit_ubits [of "vbools (vbits l)"] by (simp add: to_int_low uval_def)

lemma to_int_zero: "uval l = 0 \<longleftrightarrow> to_int l = 0"
proof
  assume "uval l = 0"
  then have no: "True \<notin> set (vbools (vbits l))" by (simp add: uval_def ubits_zero_iff del: set_map)
  show "to_int l = 0"
  proof (cases "vbits l = []")
    case False
    then have "\<not> last (vbools (vbits l))" using no last_in_set [of "vbools (vbits l)"] by (metis map_is_Nil_conv)
    then show ?thesis using \<open>uval l = 0\<close> sbits_ubits [of "vbools (vbits l)"] False by (simp add: to_int_def uval_def)
  qed (simp add: to_int_def uval_def sbits_def)
qed (simp add: uval_low)

lemma to_int_half:
  assumes "vhas_sign l"
  shows "to_int l \<le> 2 ^ (vlen l - 1)"
proof (cases "vlen l")
  case 0
  then show ?thesis by (simp add: to_int_def sbits_def uval_def)
next
  case (Suc n)
  then show ?thesis using sbits_range(2) [of "vbools (vbits l)"] assms by (force simp: to_int_def intro: less_imp_le)
qed

text \<open>
  C2. Constant folding of division is simulation: on sized constants of the same width and signedness, the
  compiler's quotient and remainder are bit for bit the vectors that the division functors send for the same
  operands, X for an undefined operand or a zero divisor included. Left out are the widths above 64 that are a multiple of 64 or
  one less (127, 128, 191, 192 and so on), and the quotient by 1 of an unsigned dividend above half the range of more than 64
  bits, where the functor sends 0 and does not agree with the compiler; the remainder by 1 agrees.
\<close>

theorem division_folding_agrees:
  assumes "arith_state (same_width (vlen l)) (vlen l) (vhas_sign l) st"
    and "bits4 (op_a st) = map bit4_of_V (vbits l)" "bits4 (op_b st) = map bit4_of_V (vbits r)"
    and "vhas_len l" "vhas_len r" "vlen r = vlen l" "vhas_sign r = vhas_sign l"
    and "vlen l \<le> 64 \<or> vlen l mod 64 \<noteq> 0 \<and> (vlen l + 1) mod 64 \<noteq> 0"
  shows "\<exists>q u m v. verinum_div l r = Some q \<and> div_output st = Some u \<and> verinum_mod l r = Some m \<and> mod_output st = Some v \<and>
    bits4 v = map bit4_of_V (vbits m) \<and>
    (64 < vlen l \<and> \<not> vhas_sign l \<and> is_defined l \<and> is_defined r \<and> uval r = 1 \<and> 2 ^ (vlen l - 1) < uval l \<or> bits4 u = map bit4_of_V (vbits q))"
proof -
  have n: "vbits l \<noteq> []" using assms(1) by (auto simp: arith_state_def same_width_def)
  then have sb: "has_sign_bit l" "has_sign_bit r" using assms(6) by (auto simp: has_sign_bit_def)
  have st: "arith_state (divisible_width (vlen l)) (vlen l) (vhas_sign l) st"
    using assms(1,8) by (simp add: arith_state_def same_width_def divisible_width_def)
  obtain u v where uv: "div_output st = Some u" "bits4 u = arith_fn (quot_fn (vlen l)) (vlen l) (vhas_sign l) (bits4 (op_a st)) (bits4 (op_b st))"
    "mod_output st = Some v" "bits4 v = arith_fn rem_fn (vlen l) (vhas_sign l) (bits4 (op_a st)) (bits4 (op_b st))"
    using quot.output_ok [OF st] rem.output_ok [OF st] by blast
  have nums: "bnum (vhas_sign l) (bits4 (op_a st)) = to_int l" "bnum (vhas_sign l) (bits4 (op_b st)) = to_int r"
    using bnum_of_V [of l] bnum_of_V [of r] assms(2,3,7) by simp_all
  have xz: "list_ex bit4_is_xz (bits4 (op_a st) @ bits4 (op_b st)) \<longleftrightarrow> \<not> (is_defined l \<and> is_defined r)"
    using xz_of_V [OF assms(2)] xz_of_V [OF assms(3)] by simp
  have zero: "is_defined r \<Longrightarrow> is_zero r \<longleftrightarrow> uval r = 0" "uval r = 0 \<longleftrightarrow> to_int r = 0"
    using is_zero_uval [of r] to_int_zero [of r] by auto
  show ?thesis
  proof (cases "is_defined l \<and> is_defined r \<and> uval r \<noteq> 0")
    case False
    then show ?thesis
      using uv zero unfolding arith_fn_def xz nums
      by (auto simp: verinum_div_def verinum_mod_def Let_def verinum_fill_def quot_fn_def rem_fn_def)
  next
    case True
    obtain q where q: "verinum_div l r = Some q" "is_defined q" "vlen q = vlen l" "uval q = take_bit (vlen l) (to_int l sdiv to_int r)"
      using verinum_div_ok [of l r] True sb assms(4-7) by auto
    obtain m where m: "verinum_mod l r = Some m" "is_defined m" "vlen m = vlen l" "to_int m = to_int l smod to_int r"
      using verinum_mod_ok [of l r] True sb assms(4-7) by auto
    have "uval m = take_bit (vlen l) (to_int l smod to_int r)" using uval_low [of m] m(3,4) by simp
    then have vecs: "map bit4_of_V (vbits m) = num_bits4 (vlen l) (to_int l smod to_int r)" "map bit4_of_V (vbits q) = num_bits4 (vlen l) (to_int l sdiv to_int r)"
      using num_bits4_of_V [OF m(2)] num_bits4_of_V [OF q(2)] m(3) q(3,4) by simp_all
    have bits: "bits4 v = map bit4_of_V (vbits m)"
      using uv(4) True zero(2) unfolding arith_fn_def xz nums rem_fn_def vecs(1) by simp
    have "bits4 u = map bit4_of_V (vbits q)"
      if "\<not> (64 < vlen l \<and> \<not> vhas_sign l \<and> is_defined l \<and> is_defined r \<and> uval r = 1 \<and> 2 ^ (vlen l - 1) < uval l)"
    proof -
      have "\<not> (64 < vlen l \<and> to_int r = 1 \<and> 2 ^ (vlen l - 1) < to_int l)"
        using that True to_int_half [of l] assms(7) by (auto simp: to_int_def)
      then have "quot_fn (vlen l) (to_int l) (to_int r) = Some (to_int l sdiv to_int r)"
        using True zero(2) by (auto simp: quot_fn_def)
      then show ?thesis using uv(2) True unfolding arith_fn_def xz nums vecs(2) by simp
    qed
    then show ?thesis using uv(1,3) q(1) m(1) bits by blast
  qed
qed

lemma wide_operand_bits:
  "wf4 (vec72 a 0)" "size4 (vec72 a 0) = 72"
  "bits4 (vec72 200 0) = map bit4_of_V ([V0, V0, V0, V1, V0, V0, V1, V1] @ replicate 64 V0)"
  "bits4 (vec72 7 0) = map bit4_of_V ([V1, V1, V1] @ replicate 69 V0)"
  by (simp_all add: vec72_facts) code_simp+

text \<open>The operands have 72 bits: 200 divided by 7 on the wide path.\<close>

theorem division_folding_agrees_witness:
  "\<exists>q u m v. verinum_div (vnum ([V0, V0, V0, V1, V0, V0, V1, V1] @ replicate 64 V0) True True) (vnum ([V1, V1, V1] @ replicate 69 V0) True True) = Some q \<and>
     div_output \<lparr>arith_wid = 72, op_a = vec72 200 0, op_b = vec72 7 0, x_val = vector4_fill 72 BIT4_X, signed_flag = True\<rparr> = Some u \<and>
     verinum_mod (vnum ([V0, V0, V0, V1, V0, V0, V1, V1] @ replicate 64 V0) True True) (vnum ([V1, V1, V1] @ replicate 69 V0) True True) = Some m \<and>
     mod_output \<lparr>arith_wid = 72, op_a = vec72 200 0, op_b = vec72 7 0, x_val = vector4_fill 72 BIT4_X, signed_flag = True\<rparr> = Some v \<and>
     bits4 v = map bit4_of_V (vbits m) \<and> bits4 u = map bit4_of_V (vbits q)"
  using division_folding_agrees [of "vnum ([V0, V0, V0, V1, V0, V0, V1, V1] @ replicate 64 V0) True True"
      "\<lparr>arith_wid = 72, op_a = vec72 200 0, op_b = vec72 7 0, x_val = vector4_fill 72 BIT4_X, signed_flag = True\<rparr>" "vnum ([V1, V1, V1] @ replicate 69 V0) True True"]
  by (simp add: arith_state_def same_width_def wide_operand_bits bits4_fill)

end
